(* ===== verification/Zth_Prelude.thy ===== *)
theory Zth_Prelude
  imports Main "HOL-Library.Monad_Syntax" "HOL-Library.Signed_Division" "HOL-Library.Multiset"
begin

section \<open>Prelude: error codes, traps and shared lemmas\<close>

text \<open>
  What every component of the development shares.

  \<^item> \<open>errno\<close>: the error codes the C and C++ functions of the library return; \<open>E_OK\<close> is
    the return value 0.
  \<^item> Traps. The library guards its pointer code with \<^verbatim>\<open>zth_assert\<close>; a failing assertion ends
    the process, and so does the dereference of a null pointer. An operation that can trap is
    a function into \<open>'a option\<close> and \<open>None\<close> is the trap; \<open>zth_assert\<close> below is the guard,
    used in \<open>do\<close> blocks. The modelled build is the checking one
    (\<^verbatim>\<open>Config::EnableAssert == true\<close>), unless a theory says otherwise.
  \<^item> Generic lemmas on lists: removing an element that occurs once, rotating a list to one of
    its elements, indices modulo the length of a list. They carry the proofs about the cyclic
    pointer list and the round-robin scheduler.
\<close>

datatype errno =
    E_OK | EPERM | ESRCH | EINTR | EIO | EAGAIN | ENOMEM | EFAULT | EBUSY | EINVAL | EDOM | ENOSYS
  | EALREADY | EOVERFLOW

text \<open>What \<^verbatim>\<open>new\<close> does: it returns an object, or throws \<^verbatim>\<open>std::bad_alloc\<close> or another exception.\<close>

datatype alloc = AllocOk | BadAlloc | OtherException

named_theorems time_simps \<open>unfolding rules of the time arithmetic\<close>
named_theorems list_ops \<open>definitions of the operations of the pointer list\<close>
named_theorems fiber_ops \<open>definitions of the state changes of a fiber\<close>
named_theorems worker_ops \<open>definitions of the operations of the worker\<close>
named_theorems sync_ops \<open>definitions of the operations of the synchronizers\<close>

text \<open>The address of an object.\<close>

type_synonym addr = nat

definition zth_assert :: "bool \<Rightarrow> unit option" where
  "zth_assert b = (if b then Some () else None)"

lemma zth_assert_True [simp]: "zth_assert True = Some ()"
  by (simp add: zth_assert_def)

lemma zth_assert_eq_Some [simp]: "zth_assert b = Some u \<longleftrightarrow> b"
  by (simp add: zth_assert_def)

lemma zth_assert_bind [simp]: "b \<Longrightarrow> (zth_assert b \<bind> f) = f ()"
  by (simp add: zth_assert_def)

lemma zth_assert_bind_eq_Some [simp]: "(zth_assert b \<bind> f) = Some r \<longleftrightarrow> b \<and> f () = Some r"
  by (simp add: zth_assert_def)

subsection \<open>Lists\<close>

text \<open>The element of a list that is rotated to the front, as \<^verbatim>\<open>List::rotate()\<close> does.\<close>

definition rotate_to :: "'a \<Rightarrow> 'a list \<Rightarrow> 'a list" where
  "rotate_to x xs = dropWhile (\<lambda>y. y \<noteq> x) xs @ takeWhile (\<lambda>y. y \<noteq> x) xs"

lemma set_rotate_to [simp]: "set (rotate_to x xs) = set xs"
proof -
  have "set (rotate_to x xs)
      = set (takeWhile (\<lambda>y. y \<noteq> x) xs @ dropWhile (\<lambda>y. y \<noteq> x) xs)"
    by (auto simp: rotate_to_def simp del: takeWhile_dropWhile_id)
  then show ?thesis by simp
qed

lemma distinct_rotate_to [simp]: "distinct (rotate_to x xs) \<longleftrightarrow> distinct xs"
proof -
  have "distinct (rotate_to x xs)
      \<longleftrightarrow> distinct (takeWhile (\<lambda>y. y \<noteq> x) xs @ dropWhile (\<lambda>y. y \<noteq> x) xs)"
    by (auto simp: rotate_to_def simp del: takeWhile_dropWhile_id)
  then show ?thesis by simp
qed

lemma length_rotate_to [simp]: "length (rotate_to x xs) = length xs"
proof -
  have "length (rotate_to x xs)
      = length (takeWhile (\<lambda>y. y \<noteq> x) xs @ dropWhile (\<lambda>y. y \<noteq> x) xs)"
    by (simp add: rotate_to_def del: takeWhile_dropWhile_id)
  then show ?thesis by simp
qed

lemma span_first_occurrence:
  assumes "x \<notin> set ys"
  shows "takeWhile (\<lambda>y. y \<noteq> x) (ys @ x # zs) = ys"
    and "dropWhile (\<lambda>y. y \<noteq> x) (ys @ x # zs) = x # zs"
  using assms by (induction ys) auto

lemma rotate_to_append: "x \<notin> set ys \<Longrightarrow> rotate_to x (ys @ x # zs) = x # zs @ ys"
  by (simp add: rotate_to_def span_first_occurrence)

lemma rotate_to_rotate:
  assumes "i < length xs" "distinct xs"
  shows "rotate_to (xs ! i) xs = rotate i xs"
proof -
  have xs: "xs = take i xs @ xs ! i # drop (Suc i) xs"
    using assms(1) by (simp add: id_take_nth_drop)
  have "distinct (take i xs @ xs ! i # drop (Suc i) xs)"
    using assms(2) xs by simp
  then have "xs ! i \<notin> set (take i xs)"
    by simp
  then have "rotate_to (xs ! i) xs = xs ! i # drop (Suc i) xs @ take i xs"
    using rotate_to_append[of "xs ! i" "take i xs" "drop (Suc i) xs"] xs by simp
  moreover have "xs ! i # drop (Suc i) xs = drop i xs"
    using assms(1) by (simp add: Cons_nth_drop_Suc)
  ultimately show ?thesis
    using assms(1) by (simp add: rotate_drop_take)
qed

lemma remove1_split: "x \<notin> set ys \<Longrightarrow> remove1 x (ys @ x # zs) = ys @ zs"
  by (simp add: remove1_append)

lemma remove1_distinct_set: "distinct xs \<Longrightarrow> set (remove1 x xs) = set xs - {x}"
  by (rule set_remove1_eq)

lemma in_set_splitE:
  assumes "x \<in> set xs"
  obtains ys zs where "xs = ys @ x # zs" "x \<notin> set ys"
  using assms by (meson split_list_first)

text \<open>
  The list rotated such that \<open>x\<close> is its last element, as the scheduler leaves the run queue when it
  picks \<open>x\<close>.
\<close>

definition rotate_past :: "'a \<Rightarrow> 'a list \<Rightarrow> 'a list" where
  "rotate_past x xs = tl (dropWhile (\<lambda>y. y \<noteq> x) xs) @ takeWhile (\<lambda>y. y \<noteq> x) xs @ [x]"

lemma rotate_past_append: "x \<notin> set ys \<Longrightarrow> rotate_past x (ys @ x # zs) = zs @ ys @ [x]"
  by (simp add: rotate_past_def span_first_occurrence)

lemma rotate_past_hd: "rotate_past x (x # xs) = xs @ [x]"
  by (simp add: rotate_past_def)

lemma rotate_past_facts:
  assumes "x \<in> set xs"
  shows "set (rotate_past x xs) = set xs" "distinct (rotate_past x xs) \<longleftrightarrow> distinct xs"
    "length (rotate_past x xs) = length xs"
proof -
  obtain ys zs where xs: "xs = ys @ x # zs" "x \<notin> set ys" using assms by (rule in_set_splitE)
  then show "set (rotate_past x xs) = set xs" "distinct (rotate_past x xs) \<longleftrightarrow> distinct xs"
    "length (rotate_past x xs) = length xs"
    by (auto simp: rotate_past_append)
qed

text \<open>Filling the gap with the last element takes exactly one occurrence away.\<close>

lemma mset_fill_gap:
  assumes "i < length xs"
  shows "mset (butlast (xs[i := last xs])) = mset xs - {#xs ! i#}"
proof (cases "i = length xs - 1")
  case True
  have "xs[i := last xs] = xs" using assms True by (metis last_conv_nth length_0_conv less_nat_zero_code list_update_id)
  moreover have "xs = butlast xs @ [xs ! i]" using assms True
    by (metis append_butlast_last_id last_conv_nth length_0_conv less_nat_zero_code)
  ultimately show ?thesis by (metis add_diff_cancel_right' mset.simps(2) mset_append mset.simps(1))
next
  case False
  let ?ys = "butlast xs" and ?z = "last xs"
  have xs: "xs = ?ys @ [?z]" using assms by (cases xs) auto
  have i: "i < length ?ys" using assms False by simp
  have "xs[i := ?z] = ?ys[i := ?z] @ [?z]" using xs i by (metis list_update_append1)
  then have "butlast (xs[i := ?z]) = ?ys[i := ?z]" by simp
  moreover have "xs ! i = ?ys ! i" using xs i by (metis nth_append)
  moreover have "mset (?ys[i := ?z]) = add_mset ?z (mset ?ys - {#?ys ! i#})" using i by (rule mset_update)
  moreover have "mset xs = add_mset ?z (mset ?ys)" using xs by (metis mset_append mset.simps union_mset_add_mset_right add_0_right add.right_neutral)
  moreover have "?ys ! i \<in># mset ?ys" using i by simp
  ultimately show ?thesis by (simp add: add_mset_diff_bothsides multi_drop_mem_not_eq)
qed

lemma nth_fill_gap:
  "j < length xs - 1 \<Longrightarrow> butlast (xs[i := last xs]) ! j = (if j = i then last xs else xs ! j)"
  by (auto simp: nth_butlast)

end
