(* ===== verification/Zth_Time.thy ===== *)
theory Zth_Time
  imports Zth_Prelude
begin

section \<open>Time: intervals and time stamps\<close>

text \<open>
  \<^verbatim>\<open>include/libzth/time.h\<close>. A \<^verbatim>\<open>struct timespec\<close> is a pair of seconds and nanoseconds; a
  \<^verbatim>\<open>TimeInterval\<close> is a timespec with a separate sign, a \<^verbatim>\<open>Timestamp\<close> is an unsigned
  timespec on the monotonic clock. \<^verbatim>\<open>time_t\<close> and \<^verbatim>\<open>long\<close> are 64-bit signed integers (LP64);
  they are integers here, \<open>TIME_MAX\<close> is the largest \<^verbatim>\<open>time_t\<close>, and the lemmas on bounds show
  that no modelled operation leaves that range, so no signed overflow occurs.

  Operations: the constructors, predicates, comparisons and \<^verbatim>\<open>add\<close>/\<^verbatim>\<open>sub\<close>/\<^verbatim>\<open>operator-\<close> of both
  classes, the factories \<^verbatim>\<open>from_s/from_ms/from_us/from_ns\<close>, and the conversion to
  \<^verbatim>\<open>std::chrono::nanoseconds\<close>. The floating-point constructors are not modelled.

  \<open>ti_val\<close> is the specification: the interval as a number of nanoseconds. The lemmas show that
  addition, subtraction and the order of the code agree with arithmetic on \<open>ti_val\<close>, where they
  do, and characterise exactly the inputs on which \<^verbatim>\<open>add\<close> leaves the class invariant
  \<^verbatim>\<open>isNormal()\<close>.
\<close>

subsection \<open>Data\<close>

datatype timespec = Timespec (tv_sec: int) (tv_nsec: int)

datatype TimeInterval = TimeInterval (m_t: timespec) (m_negative: bool)

definition BILLION :: int where
  "BILLION = 1000000000"

definition TIME_MAX :: int where
  "TIME_MAX = 2 ^ 63 - 1"

abbreviation ti_sec :: "TimeInterval \<Rightarrow> int" where
  "ti_sec t \<equiv> tv_sec (m_t t)"

abbreviation ti_nsec :: "TimeInterval \<Rightarrow> int" where
  "ti_nsec t \<equiv> tv_nsec (m_t t)"

definition mk_interval :: "int \<Rightarrow> int \<Rightarrow> bool \<Rightarrow> TimeInterval" where
  "mk_interval s ns negative = TimeInterval (Timespec s ns) negative"

definition ti_infinity :: TimeInterval where
  "ti_infinity = mk_interval TIME_MAX 0 False"

definition ti_null :: TimeInterval where
  "ti_null = mk_interval 0 0 False"

text \<open>The templated constructor for integral types: whole seconds (\<^verbatim>\<open>init_int\<close>).\<close>

definition init_int :: "int \<Rightarrow> TimeInterval" where
  "init_int dt = mk_interval (if dt \<ge> 0 then dt else - dt) 0 (dt < 0)"

subsection \<open>Factories\<close>

text \<open>
  The templates \<^verbatim>\<open>from_s\<close> to \<^verbatim>\<open>from_ns\<close>, instantiated at a signed 64-bit type. C++ division
  and remainder truncate towards zero (\<open>sdiv\<close>, \<open>smod\<close>); the comparison in \<^verbatim>\<open>from_ms\<close> and
  \<^verbatim>\<open>from_us\<close> is made after a conversion to \<^verbatim>\<open>unsigned long long\<close>, that is modulo \<open>2 ^ 64\<close>.
\<close>

definition to_ull :: "int \<Rightarrow> int" where
  "to_ull x = x mod 2 ^ 64"

definition from_s :: "int \<Rightarrow> TimeInterval" where
  "from_s s = (if s > TIME_MAX then mk_interval TIME_MAX 999999999 False else init_int s)"

definition from_ms :: "int \<Rightarrow> TimeInterval" where
  "from_ms ms =
     (let s = ms sdiv 1000
      in if to_ull s > to_ull TIME_MAX then mk_interval TIME_MAX 999999999 False
         else mk_interval s ((ms smod 1000) * 1000000) False)"

definition from_us :: "int \<Rightarrow> TimeInterval" where
  "from_us us =
     (let s = us sdiv 1000000
      in if to_ull s > to_ull TIME_MAX then mk_interval TIME_MAX 999999999 False
         else mk_interval s ((us smod 1000000) * 1000) False)"

definition from_ns :: "int \<Rightarrow> TimeInterval" where
  "from_ns ns =
     (let s = ns sdiv 1000000000
      in if s > TIME_MAX then mk_interval TIME_MAX 999999999 False
         else mk_interval s (ns smod 1000000000) False)"

text \<open>\<^verbatim>\<open>operator std::chrono::nanoseconds\<close>: the sign is not looked at.\<close>

definition to_chrono_ns :: "TimeInterval \<Rightarrow> int" where
  "to_chrono_ns t = ti_sec t * BILLION + ti_nsec t"

subsection \<open>Predicates and comparisons\<close>

definition isNormal :: "TimeInterval \<Rightarrow> bool" where
  "isNormal t \<longleftrightarrow> ti_sec t \<ge> 0 \<and> ti_nsec t \<ge> 0 \<and> ti_nsec t < BILLION"

definition isNegative :: "TimeInterval \<Rightarrow> bool" where
  "isNegative t \<longleftrightarrow> m_negative t"

definition isPositive :: "TimeInterval \<Rightarrow> bool" where
  "isPositive t \<longleftrightarrow> \<not> isNegative t"

definition ti_isNull :: "TimeInterval \<Rightarrow> bool" where
  "ti_isNull t \<longleftrightarrow> ti_sec t = 0 \<and> ti_nsec t = 0"

definition isInfinite :: "TimeInterval \<Rightarrow> bool" where
  "isInfinite t \<longleftrightarrow> ti_sec t > TIME_MAX div 2"

definition ti_hasPassed :: "TimeInterval \<Rightarrow> bool" where
  "ti_hasPassed t \<longleftrightarrow> isNegative t \<or> ti_isNull t"

definition isAbsBiggerThan :: "TimeInterval \<Rightarrow> TimeInterval \<Rightarrow> bool" where
  "isAbsBiggerThan a b \<longleftrightarrow>
     ti_sec a > ti_sec b \<or> (ti_sec a = ti_sec b \<and> ti_nsec a > ti_nsec b)"

definition isBiggerThan :: "TimeInterval \<Rightarrow> TimeInterval \<Rightarrow> bool" where
  "isBiggerThan a b \<longleftrightarrow>
     (\<not> m_negative a \<and> m_negative b)
     \<or> (\<not> m_negative a \<and> \<not> m_negative b \<and> isAbsBiggerThan a b)
     \<or> (m_negative a \<and> m_negative b \<and> isAbsBiggerThan b a)"

definition ti_eq :: "TimeInterval \<Rightarrow> TimeInterval \<Rightarrow> bool" where
  "ti_eq a b \<longleftrightarrow>
     ti_nsec a = ti_nsec b \<and> ti_sec a = ti_sec b \<and> m_negative a = m_negative b"

definition ti_gt :: "TimeInterval \<Rightarrow> TimeInterval \<Rightarrow> bool" where
  "ti_gt a b \<longleftrightarrow> isBiggerThan a b"

definition ti_ge :: "TimeInterval \<Rightarrow> TimeInterval \<Rightarrow> bool" where
  "ti_ge a b \<longleftrightarrow> ti_eq a b \<or> isBiggerThan a b"

definition ti_lt :: "TimeInterval \<Rightarrow> TimeInterval \<Rightarrow> bool" where
  "ti_lt a b \<longleftrightarrow> \<not> ti_ge a b"

definition ti_le :: "TimeInterval \<Rightarrow> TimeInterval \<Rightarrow> bool" where
  "ti_le a b \<longleftrightarrow> ti_eq a b \<or> \<not> ti_gt a b"

lemmas ti_preds =
  isNormal_def isNegative_def isPositive_def ti_isNull_def isInfinite_def ti_hasPassed_def
  isAbsBiggerThan_def isBiggerThan_def ti_eq_def ti_gt_def ti_ge_def ti_lt_def ti_le_def

declare ti_preds [time_simps]

subsection \<open>Arithmetic\<close>

text \<open>
  \<^verbatim>\<open>TimeInterval::add\<close>, branch by branch: the same sign (with the saturation test first), or
  opposite signs with and without a sign flip, and the borrow of a second.
\<close>

definition ti_add :: "TimeInterval \<Rightarrow> TimeInterval \<Rightarrow> TimeInterval" where
  "ti_add this t =
     (if m_negative t = m_negative this then
        (if isInfinite this \<or> isInfinite t \<or> TIME_MAX - ti_sec this - 1 \<le> ti_sec t
         then mk_interval TIME_MAX (ti_nsec this) (m_negative this)
         else
           (let sec = ti_sec this + ti_sec t;
                nsec = ti_nsec this + ti_nsec t
            in if nsec > BILLION
               then mk_interval (sec + 1) (nsec - BILLION) (m_negative this)
               else mk_interval sec nsec (m_negative this)))
      else
        (let (sec, nsec, neg) =
           (if isAbsBiggerThan t this
            then (ti_sec t - ti_sec this, ti_nsec t - ti_nsec this, \<not> m_negative this)
            else (ti_sec this - ti_sec t, ti_nsec this - ti_nsec t, m_negative this))
         in if nsec < 0 then mk_interval (sec - 1) (nsec + BILLION) neg
            else mk_interval sec nsec neg))"

definition ti_uminus :: "TimeInterval \<Rightarrow> TimeInterval" where
  "ti_uminus t = mk_interval (ti_sec t) (ti_nsec t) (\<not> isNegative t)"

definition ti_sub :: "TimeInterval \<Rightarrow> TimeInterval \<Rightarrow> TimeInterval" where
  "ti_sub this t = ti_add this (mk_interval (ti_sec t) (ti_nsec t) (\<not> isNegative t))"

subsection \<open>Time stamps\<close>

text \<open>
  A \<^verbatim>\<open>Timestamp\<close> wraps a timespec. Its order is \<^verbatim>\<open>isBefore\<close>; the type \<open>timespec\<close> is made a
  linear order with exactly that relation, so that the containers keyed by time stamps use it.
\<close>

definition isBefore :: "timespec \<Rightarrow> timespec \<Rightarrow> bool" where
  "isBefore a b \<longleftrightarrow> tv_sec a < tv_sec b \<or> (tv_sec a = tv_sec b \<and> tv_nsec a < tv_nsec b)"

definition isAfter :: "timespec \<Rightarrow> timespec \<Rightarrow> bool" where
  "isAfter a b \<longleftrightarrow> isBefore b a"

definition ts_eq :: "timespec \<Rightarrow> timespec \<Rightarrow> bool" where
  "ts_eq a b \<longleftrightarrow> tv_nsec a = tv_nsec b \<and> tv_sec a = tv_sec b"

instantiation timespec :: linorder
begin

definition less_timespec :: "timespec \<Rightarrow> timespec \<Rightarrow> bool" where
  "less_timespec a b \<longleftrightarrow> isBefore a b"

definition less_eq_timespec :: "timespec \<Rightarrow> timespec \<Rightarrow> bool" where
  "less_eq_timespec a b \<longleftrightarrow> ts_eq a b \<or> isBefore a b"

instance
  by standard
    (auto simp: less_timespec_def less_eq_timespec_def isBefore_def ts_eq_def
      intro: timespec.expand)

end

definition ts_null :: timespec where
  "ts_null = Timespec 0 0"

definition ts_isNull :: "timespec \<Rightarrow> bool" where
  "ts_isNull t \<longleftrightarrow> tv_sec t = 0 \<and> tv_nsec t = 0"

text \<open>\<^verbatim>\<open>Timestamp::add\<close>; the assertion \<^verbatim>\<open>t.isPositive()\<close> is the trap.\<close>

definition ts_add :: "timespec \<Rightarrow> TimeInterval \<Rightarrow> timespec option" where
  "ts_add t dt = do {
     let r = ti_add (mk_interval (tv_sec t) (tv_nsec t) False) dt;
     zth_assert (isPositive r);
     Some (m_t r)
   }"

definition ts_sub :: "timespec \<Rightarrow> TimeInterval \<Rightarrow> timespec option" where
  "ts_sub t dt = ts_add t (ti_uminus dt)"

definition timeTo :: "timespec \<Rightarrow> timespec \<Rightarrow> TimeInterval" where
  "timeTo this t =
     ti_sub (mk_interval (tv_sec t) (tv_nsec t) False) (mk_interval (tv_sec this) (tv_nsec this) False)"

text \<open>\<^verbatim>\<open>operator-(Timestamp const&)\<close>.\<close>

definition ts_diff :: "timespec \<Rightarrow> timespec \<Rightarrow> TimeInterval" where
  "ts_diff this rhs = timeTo rhs this"

text \<open>\<^verbatim>\<open>Timestamp::passed()\<close> with \<open>now\<close> the clock it reads.\<close>

definition passed :: "timespec \<Rightarrow> timespec \<Rightarrow> TimeInterval option" where
  "passed this now = do {
     zth_assert (\<not> isAfter this now);
     let sec = tv_sec now - tv_sec this;
     let nsec = tv_nsec now - tv_nsec this;
     Some (if nsec < 0 then mk_interval (sec - 1) (nsec + BILLION) False
           else mk_interval sec nsec False)
   }"

subsection \<open>Specification and helper lemmas\<close>

definition ti_val :: "TimeInterval \<Rightarrow> int" where
  "ti_val t = (if m_negative t then - 1 else 1) * (ti_sec t * BILLION + ti_nsec t)"

definition ts_val :: "timespec \<Rightarrow> int" where
  "ts_val t = tv_sec t * BILLION + tv_nsec t"

definition ts_normal :: "timespec \<Rightarrow> bool" where
  "ts_normal t \<longleftrightarrow> tv_sec t \<ge> 0 \<and> tv_sec t \<le> TIME_MAX \<and> tv_nsec t \<ge> 0 \<and> tv_nsec t < BILLION"

text \<open>A normal interval whose seconds fit in \<^verbatim>\<open>time_t\<close>: the values the constructors produce.\<close>

definition ti_wf :: "TimeInterval \<Rightarrow> bool" where
  "ti_wf t \<longleftrightarrow> isNormal t \<and> ti_sec t \<le> TIME_MAX"

text \<open>The test of the overflow branch of \<^verbatim>\<open>add\<close>.\<close>

definition ti_saturates :: "TimeInterval \<Rightarrow> TimeInterval \<Rightarrow> bool" where
  "ti_saturates a b \<longleftrightarrow>
     m_negative b = m_negative a
     \<and> (isInfinite a \<or> isInfinite b \<or> TIME_MAX - ti_sec a - 1 \<le> ti_sec b)"

lemma mk_interval_sel [simp]:
  "m_t (mk_interval s ns n) = Timespec s ns" "m_negative (mk_interval s ns n) = n"
  by (simp_all add: mk_interval_def)

lemma BILLION_pos [simp]: "0 < BILLION" "0 \<le> BILLION"
  by (simp_all add: BILLION_def)

lemma sec_nsec_less_iff:
  fixes s1 s2 n1 n2 :: int
  assumes "0 \<le> n1" "n1 < B" "0 \<le> n2" "n2 < B"
  shows "s1 * B + n1 < s2 * B + n2 \<longleftrightarrow> s1 < s2 \<or> (s1 = s2 \<and> n1 < n2)"
proof -
  have "s1 * B + n1 < s2 * B + n2" if "s1 < s2"
  proof -
    from that assms have "(s1 + 1) * B \<le> s2 * B"
      by (intro mult_right_mono) auto
    with assms show ?thesis by (simp add: algebra_simps)
  qed
  moreover have "s2 * B + n2 < s1 * B + n1" if "s2 < s1"
  proof -
    from that assms have "(s2 + 1) * B \<le> s1 * B"
      by (intro mult_right_mono) auto
    with assms show ?thesis by (simp add: algebra_simps)
  qed
  ultimately show ?thesis by (metis add_less_cancel_left less_asym linorder_cases)
qed

lemma isAbsBiggerThan_val:
  assumes "isNormal a" "isNormal b"
  shows "isAbsBiggerThan a b \<longleftrightarrow>
     ti_sec b * BILLION + ti_nsec b < ti_sec a * BILLION + ti_nsec a"
proof -
  from assms have "0 \<le> ti_nsec a" "ti_nsec a < BILLION" "0 \<le> ti_nsec b" "ti_nsec b < BILLION"
    by (simp_all add: isNormal_def)
  then have "ti_sec b * BILLION + ti_nsec b < ti_sec a * BILLION + ti_nsec a \<longleftrightarrow>
      ti_sec b < ti_sec a \<or> (ti_sec b = ti_sec a \<and> ti_nsec b < ti_nsec a)"
    by (intro sec_nsec_less_iff)
  then show ?thesis by (auto simp: isAbsBiggerThan_def)
qed

lemma isNormal_abs_nonneg: "isNormal t \<Longrightarrow> 0 \<le> ti_sec t * BILLION + ti_nsec t"
  by (simp add: isNormal_def)

lemma ti_gt_val:
  assumes "isNormal a" "isNormal b"
  shows "ti_gt a b \<longleftrightarrow> ti_val a > ti_val b \<or> (ti_val a = ti_val b \<and> \<not> m_negative a \<and> m_negative b)"
proof -
  define x y where xy: "x = ti_sec a * BILLION + ti_nsec a" "y = ti_sec b * BILLION + ti_nsec b"
  have nn: "0 \<le> x" "0 \<le> y"
    using assms by (simp_all add: isNormal_abs_nonneg xy)
  have "isAbsBiggerThan a b \<longleftrightarrow> y < x" "isAbsBiggerThan b a \<longleftrightarrow> x < y"
    using assms by (simp_all add: isAbsBiggerThan_val xy)
  moreover have "ti_val a = (if m_negative a then - x else x)" "ti_val b = (if m_negative b then - y else y)"
    by (simp_all add: ti_val_def xy)
  ultimately show ?thesis
    using nn by (auto simp: ti_gt_def isBiggerThan_def)
qed

lemma isAbsBiggerThan_total:
  "isAbsBiggerThan b a \<longleftrightarrow>
     \<not> isAbsBiggerThan a b \<and> \<not> (ti_nsec a = ti_nsec b \<and> ti_sec a = ti_sec b)"
  unfolding isAbsBiggerThan_def by linarith

lemma isBiggerThan_total: "isBiggerThan b a \<longleftrightarrow> \<not> isBiggerThan a b \<and> \<not> ti_eq a b"
proof -
  have "isAbsBiggerThan a b \<Longrightarrow> \<not> (ti_nsec a = ti_nsec b \<and> ti_sec a = ti_sec b)"
    unfolding isAbsBiggerThan_def by linarith
  then show ?thesis
    unfolding isBiggerThan_def ti_eq_def isAbsBiggerThan_total[of b a]
    by (cases "m_negative a"; cases "m_negative b") auto
qed

lemma ti_eq_sym: "ti_eq a b = ti_eq b a"
  unfolding ti_eq_def by metis

lemma ti_order_ops:
  "(ti_lt a b \<longleftrightarrow> ti_gt b a) \<and> (ti_le a b \<longleftrightarrow> \<not> ti_gt a b) \<and> (ti_ge a b \<longleftrightarrow> \<not> ti_gt b a)"
  using isBiggerThan_total[of a b] isBiggerThan_total[of b a] ti_eq_sym[of a b]
  unfolding ti_lt_def ti_le_def ti_ge_def ti_gt_def by blast

lemma ti_add_same_sign:
  assumes "m_negative b = m_negative a" "\<not> ti_saturates a b"
  shows "ti_add a b =
    (if ti_nsec a + ti_nsec b > BILLION
     then mk_interval (ti_sec a + ti_sec b + 1) (ti_nsec a + ti_nsec b - BILLION) (m_negative a)
     else mk_interval (ti_sec a + ti_sec b) (ti_nsec a + ti_nsec b) (m_negative a))"
  using assms unfolding ti_add_def ti_saturates_def Let_def by simp

lemma ti_add_saturated:
  "ti_saturates a b \<Longrightarrow> ti_add a b = mk_interval TIME_MAX (ti_nsec a) (m_negative a)"
  unfolding ti_add_def ti_saturates_def by simp

lemma ti_add_flip:
  assumes "m_negative b \<noteq> m_negative a" "isAbsBiggerThan b a"
  shows "ti_add a b =
    (if ti_nsec b < ti_nsec a
     then mk_interval (ti_sec b - ti_sec a - 1) (ti_nsec b - ti_nsec a + BILLION) (\<not> m_negative a)
     else mk_interval (ti_sec b - ti_sec a) (ti_nsec b - ti_nsec a) (\<not> m_negative a))"
  using assms unfolding ti_add_def by simp

lemma ti_add_no_flip:
  assumes "m_negative b \<noteq> m_negative a" "\<not> isAbsBiggerThan b a"
  shows "ti_add a b =
    (if ti_nsec a < ti_nsec b
     then mk_interval (ti_sec a - ti_sec b - 1) (ti_nsec a - ti_nsec b + BILLION) (m_negative a)
     else mk_interval (ti_sec a - ti_sec b) (ti_nsec a - ti_nsec b) (m_negative a))"
  using assms unfolding ti_add_def by simp

text \<open>The four ways through \<^verbatim>\<open>add\<close>; every proof about it starts from this case split.\<close>

lemma ti_add_cases [case_names same saturated flip no_flip]:
  assumes "m_negative b = m_negative a \<Longrightarrow> \<not> ti_saturates a b \<Longrightarrow> P"
    and "ti_saturates a b \<Longrightarrow> P"
    and "m_negative b \<noteq> m_negative a \<Longrightarrow> isAbsBiggerThan b a \<Longrightarrow> P"
    and "m_negative b \<noteq> m_negative a \<Longrightarrow> \<not> isAbsBiggerThan b a \<Longrightarrow> P"
  shows P
  using assms by blast

lemma ti_add_value_aux:
  assumes "\<not> ti_saturates a b"
  shows "ti_val (ti_add a b) = ti_val a + ti_val b"
proof (cases rule: ti_add_cases[of b a])
  case same
  then show ?thesis
    by (simp add: ti_add_same_sign ti_val_def algebra_simps)
next
  case saturated
  with assms show ?thesis by simp
next
  case flip
  then show ?thesis
    by (auto simp: ti_add_flip ti_val_def algebra_simps)
next
  case no_flip
  then show ?thesis
    by (auto simp: ti_add_no_flip ti_val_def algebra_simps)
qed

lemma abs_bigger_borrow:
  assumes "isNormal a" "isNormal b" "isAbsBiggerThan b a \<or> ti_sec b = ti_sec a \<and> ti_nsec b = ti_nsec a"
  shows "ti_nsec b < ti_nsec a \<Longrightarrow> ti_sec a < ti_sec b" "ti_sec a \<le> ti_sec b"
  using assms by (auto simp: isAbsBiggerThan_def)

lemma not_abs_bigger:
  "\<not> isAbsBiggerThan b a \<Longrightarrow> isAbsBiggerThan a b \<or> ti_sec a = ti_sec b \<and> ti_nsec a = ti_nsec b"
  by (auto simp: isAbsBiggerThan_def)

lemma ti_add_opposite_normal:
  assumes "isNormal a" "isNormal b" "m_negative b \<noteq> m_negative a"
  shows "isNormal (ti_add a b)"
proof (cases "isAbsBiggerThan b a")
  case True
  with assms abs_bigger_borrow[of a b] show ?thesis
    by (auto simp: ti_add_flip isNormal_def)
next
  case False
  with assms abs_bigger_borrow[of b a] not_abs_bigger[of b a] show ?thesis
    by (auto simp: ti_add_no_flip isNormal_def)
qed

lemma ti_add_same_normal:
  assumes "isNormal a" "isNormal b" "m_negative b = m_negative a" "\<not> ti_saturates a b"
  shows "isNormal (ti_add a b) \<longleftrightarrow> ti_nsec a + ti_nsec b \<noteq> BILLION"
  using assms by (auto simp: ti_add_same_sign isNormal_def)

lemma ti_val_uminus [simp]: "ti_val (ti_uminus t) = - ti_val t"
  by (simp add: ti_uminus_def ti_val_def isNegative_def)

lemma isNormal_uminus [simp]: "isNormal (ti_uminus t) = isNormal t"
  by (simp add: ti_uminus_def isNormal_def)

lemma ti_sub_add: "ti_sub a b = ti_add a (ti_uminus b)"
  by (simp add: ti_sub_def ti_uminus_def)

subsection \<open>Properties of intervals\<close>

text \<open>Adding two intervals adds their signed values, on every branch of \<^verbatim>\<open>TimeInterval::add\<close>
  (same sign with and without carry, opposite signs with and without a sign flip, with and
  without borrow), unless the overflow test of the code is met.\<close>

theorem ti_add_value:
  "\<not> ti_saturates a b \<Longrightarrow> ti_val (ti_add a b) = ti_val a + ti_val b"
  by (rule ti_add_value_aux)

theorem ti_add_value_witness:
  "ti_val (ti_add (mk_interval 1 200 False) (mk_interval 3 100 True)) = - 1999999900"
proof -
  have "\<not> ti_saturates (mk_interval 1 200 False) (mk_interval 3 100 True)"
    by (simp add: ti_saturates_def)
  from ti_add_value[OF this] show ?thesis
    by (simp add: ti_val_def[of "mk_interval _ _ _"] BILLION_def)
qed

text \<open>\<^verbatim>\<open>add\<close> keeps the class invariant \<^verbatim>\<open>isNormal()\<close> of its operands in exactly these cases:
  the signs differ, the sum saturates, or the nanoseconds do not add up to one second exactly.
  (The carry test of the code is \<^verbatim>\<open>tv_nsec > BILLION\<close>, so a sum of exactly \<^verbatim>\<open>BILLION\<close>
  nanoseconds is not carried and the result is not normal.)\<close>

theorem ti_add_normal_iff:
  assumes "isNormal a" "isNormal b"
  shows "isNormal (ti_add a b) \<longleftrightarrow>
    m_negative a \<noteq> m_negative b \<or> ti_saturates a b \<or> ti_nsec a + ti_nsec b \<noteq> BILLION"
proof (cases rule: ti_add_cases[of b a])
  case same
  with assms show ?thesis by (auto simp: ti_add_same_normal)
next
  case saturated
  with assms show ?thesis by (auto simp: ti_add_saturated isNormal_def TIME_MAX_def)
qed (use assms in \<open>auto intro: ti_add_opposite_normal\<close>)

theorem ti_add_normal_iff_witness:
  "isNormal (mk_interval 0 500000000 False)
   \<and> \<not> isNormal (ti_add (mk_interval 0 500000000 False) (mk_interval 0 500000000 False))"
proof -
  let ?h = "mk_interval 0 500000000 False"
  have n: "isNormal ?h" by (simp add: isNormal_def BILLION_def)
  have "\<not> ti_saturates ?h ?h"
    by (simp add: ti_saturates_def isInfinite_def TIME_MAX_def)
  with ti_add_normal_iff[OF n n] n show ?thesis
    by (simp add: BILLION_def)
qed

text \<open>No signed overflow in \<^verbatim>\<open>add\<close>: on well-formed operands the resulting seconds stay within
  \<^verbatim>\<open>[0, max(time_t)]\<close> and the nanoseconds within \<^verbatim>\<open>[0, BILLION]\<close>.\<close>

theorem ti_add_bounds:
  assumes "ti_wf a" "ti_wf b"
  shows "0 \<le> ti_sec (ti_add a b) \<and> ti_sec (ti_add a b) \<le> TIME_MAX
    \<and> 0 \<le> ti_nsec (ti_add a b) \<and> ti_nsec (ti_add a b) \<le> BILLION"
proof -
  have n: "isNormal a" "isNormal b" "ti_sec a \<le> TIME_MAX" "ti_sec b \<le> TIME_MAX"
    using assms by (simp_all add: ti_wf_def)
  show ?thesis
  proof (cases rule: ti_add_cases[of b a])
    case same
    with n show ?thesis
      by (auto simp: ti_add_same_sign isNormal_def ti_saturates_def)
  next
    case saturated
    with n show ?thesis by (simp add: ti_add_saturated isNormal_def TIME_MAX_def)
  next
    case flip
    with n abs_bigger_borrow[of a b] show ?thesis by (auto simp: ti_add_flip isNormal_def)
  next
    case no_flip
    with n abs_bigger_borrow[of b a] not_abs_bigger[of b a] show ?thesis
      by (auto simp: ti_add_no_flip isNormal_def)
  qed
qed

theorem ti_add_bounds_witness:
  "ti_wf ti_infinity \<and> ti_sec (ti_add ti_infinity ti_infinity) \<le> TIME_MAX"
proof -
  have "ti_wf ti_infinity"
    by (simp add: ti_wf_def ti_infinity_def isNormal_def TIME_MAX_def BILLION_def)
  with ti_add_bounds show ?thesis by blast
qed

text \<open>The four comparison operators are one total order: that of the signed value, where the
  two representations of zero are ordered by sign (minus zero first). In particular
  \<^verbatim>\<open>operator<\<close> and \<^verbatim>\<open>operator<=\<close>, which are written as negations, agree with \<^verbatim>\<open>operator>\<close>.\<close>

theorem ti_order:
  assumes "isNormal a" "isNormal b"
  shows "(ti_gt a b \<longleftrightarrow> ti_val a > ti_val b \<or> (ti_val a = ti_val b \<and> \<not> m_negative a \<and> m_negative b))
    \<and> (ti_lt a b \<longleftrightarrow> ti_gt b a) \<and> (ti_le a b \<longleftrightarrow> \<not> ti_gt a b) \<and> (ti_ge a b \<longleftrightarrow> \<not> ti_gt b a)"
proof -
  have "ti_gt a b \<longleftrightarrow> ti_val a > ti_val b \<or> (ti_val a = ti_val b \<and> \<not> m_negative a \<and> m_negative b)"
    using assms by (rule ti_gt_val)
  with ti_order_ops show ?thesis by blast
qed

theorem ti_order_witness:
  "ti_gt (mk_interval 1 0 False) (mk_interval 2 5 True)
   \<and> ti_lt (mk_interval 2 5 True) (mk_interval 1 0 False)"
proof -
  have n: "isNormal (mk_interval 1 0 False)" "isNormal (mk_interval 2 5 True)"
    by (simp_all add: isNormal_def BILLION_def)
  show ?thesis
    using ti_order[OF n] ti_order[OF n(2,1)] by (simp add: ti_val_def BILLION_def)
qed

subsection \<open>Properties of the factories and conversions\<close>

lemma sdiv_smod_nonneg: "0 \<le> (x::int) \<Longrightarrow> 0 < y \<Longrightarrow> x sdiv y = x div y \<and> x smod y = x mod y"
  by (simp add: signed_divide_int_def signed_modulo_int_def minus_div_mult_eq_mod sgn_if
      zmod_le_nonneg_dividend)

lemma to_ull_id: "0 \<le> x \<Longrightarrow> x \<le> TIME_MAX \<Longrightarrow> to_ull x = x"
  by (simp add: to_ull_def TIME_MAX_def)

lemma from_ms_nonneg:
  assumes "0 \<le> ms" "ms \<le> TIME_MAX"
  shows "from_ms ms = mk_interval (ms div 1000) (ms mod 1000 * 1000000) False"
proof -
  have "ms div 1000 \<le> TIME_MAX" using assms by (simp add: TIME_MAX_def)
  with assms show ?thesis
    by (simp add: from_ms_def sdiv_smod_nonneg to_ull_id Let_def)
qed

lemma from_us_nonneg:
  assumes "0 \<le> us" "us \<le> TIME_MAX"
  shows "from_us us = mk_interval (us div 1000000) (us mod 1000000 * 1000) False"
proof -
  have "us div 1000000 \<le> TIME_MAX" using assms by (simp add: TIME_MAX_def)
  with assms show ?thesis
    by (simp add: from_us_def sdiv_smod_nonneg to_ull_id Let_def)
qed

lemma from_ns_nonneg:
  assumes "0 \<le> ns" "ns \<le> TIME_MAX"
  shows "from_ns ns = mk_interval (ns div 1000000000) (ns mod 1000000000) False"
proof -
  have "ns div 1000000000 \<le> TIME_MAX" using assms by (simp add: TIME_MAX_def)
  with assms show ?thesis
    by (simp add: from_ns_def sdiv_smod_nonneg Let_def)
qed

text \<open>For every non-negative count the factories \<^verbatim>\<open>from_ms\<close>, \<^verbatim>\<open>from_us\<close> and \<^verbatim>\<open>from_ns\<close> build a
  normal interval of exactly that many milli-, micro- or nanoseconds.\<close>

theorem from_units_value:
  assumes "0 \<le> n" "n \<le> TIME_MAX"
  shows "isNormal (from_ms n) \<and> ti_val (from_ms n) = n * 1000000
    \<and> isNormal (from_us n) \<and> ti_val (from_us n) = n * 1000
    \<and> isNormal (from_ns n) \<and> ti_val (from_ns n) = n"
proof -
  have m: "n mod 1000 < 1000" "n mod 1000000 < 1000000" "n mod 1000000000 < 1000000000"
    by simp_all
  have "n div 1000 * 1000000000 + n mod 1000 * 1000000 = n * 1000000"
    "n div 1000000 * 1000000000 + n mod 1000000 * 1000 = n * 1000"
    by presburger+
  moreover have "0 \<le> n div 1000" "0 \<le> n div 1000000" "0 \<le> n div 1000000000"
    using assms by (simp_all add: pos_imp_zdiv_nonneg_iff)
  ultimately show ?thesis
    using assms m by (simp add: from_ms_nonneg from_us_nonneg from_ns_nonneg isNormal_def ti_val_def BILLION_def
        pos_imp_zdiv_nonneg_iff)
qed

theorem from_units_value_witness:
  "(0::int) \<le> 1500 \<and> 1500 \<le> TIME_MAX \<and> ti_val (from_ms 1500) = 1500000000"
proof -
  have "(0::int) \<le> 1500" "1500 \<le> TIME_MAX" by (simp_all add: TIME_MAX_def)
  with from_units_value[of 1500] show ?thesis by simp
qed

text \<open>On a negative count \<^verbatim>\<open>from_ms\<close> does not build the negative interval: from minus one
  second downwards the conversion to \<^verbatim>\<open>unsigned long long\<close> makes it the largest positive
  interval, and between minus one second and zero it builds an interval with negative
  nanoseconds, which is not normal.\<close>

theorem from_ms_negative:
  assumes "ms < 0" "- (2 ^ 63) \<le> ms"
  shows "(ms \<le> - 1000 \<longrightarrow> from_ms ms = mk_interval TIME_MAX 999999999 False \<and> isInfinite (from_ms ms))
    \<and> (- 1000 < ms \<longrightarrow> \<not> isNormal (from_ms ms))"
proof (intro conjI impI)
  assume le: "ms \<le> - 1000"
  define q where "q = - ms div 1000"
  have s: "ms sdiv 1000 = - q"
    using assms by (simp add: signed_divide_int_def q_def sgn_if)
  have q: "0 < q" "q \<le> 2 ^ 63"
    using le assms by (auto simp: q_def)
  have "(- q) mod 2 ^ 64 = 2 ^ 64 - q"
    using q by (simp add: zmod_zminus1_eq_if)
  then have "to_ull (- q) > to_ull TIME_MAX"
    using q by (simp add: to_ull_def TIME_MAX_def)
  then show "from_ms ms = mk_interval TIME_MAX 999999999 False" "isInfinite (from_ms ms)"
    by (simp_all add: from_ms_def s Let_def isInfinite_def TIME_MAX_def)
next
  assume gt: "- 1000 < ms"
  have "ms sdiv 1000 = 0" "ms smod 1000 = ms"
    using assms gt by (simp_all add: signed_divide_int_def signed_modulo_int_def)
  then show "\<not> isNormal (from_ms ms)"
    using assms by (simp add: from_ms_def Let_def to_ull_def TIME_MAX_def isNormal_def)
qed

theorem from_ms_negative_witness:
  "isInfinite (from_ms (- 1500)) \<and> \<not> isNormal (from_ms (- 5))"
  using from_ms_negative[of "- 1500"] from_ms_negative[of "- 5"]
  by (simp add: isInfinite_def TIME_MAX_def)

text \<open>The conversion to \<^verbatim>\<open>std::chrono::nanoseconds\<close> gives the value of the interval exactly
  when the interval is not negative (or zero): it ignores the sign.\<close>

theorem to_chrono_ns_value: "to_chrono_ns t = ti_val t \<longleftrightarrow> \<not> m_negative t \<or> ti_val t = 0"
  by (auto simp: to_chrono_ns_def ti_val_def)

subsection \<open>Properties of time stamps\<close>

lemma ts_less_val: "ts_normal a \<Longrightarrow> ts_normal b \<Longrightarrow> a < b \<longleftrightarrow> ts_val a < ts_val b"
  by (simp add: less_timespec_def isBefore_def ts_val_def ts_normal_def sec_nsec_less_iff)

lemma timeTo_alt: "timeTo a b = ti_add (mk_interval (tv_sec b) (tv_nsec b) False)
    (mk_interval (tv_sec a) (tv_nsec a) True)"
  by (simp add: timeTo_def ti_sub_def isNegative_def)

lemma timeTo_cases:
  assumes "ts_normal a" "ts_normal b"
  shows "timeTo a b =
    (if b < a
     then (if tv_nsec a < tv_nsec b
           then mk_interval (tv_sec a - tv_sec b - 1) (tv_nsec a - tv_nsec b + BILLION) True
           else mk_interval (tv_sec a - tv_sec b) (tv_nsec a - tv_nsec b) True)
     else (if tv_nsec b < tv_nsec a
           then mk_interval (tv_sec b - tv_sec a - 1) (tv_nsec b - tv_nsec a + BILLION) False
           else mk_interval (tv_sec b - tv_sec a) (tv_nsec b - tv_nsec a) False))"
proof -
  let ?b = "mk_interval (tv_sec b) (tv_nsec b) False"
  let ?a = "mk_interval (tv_sec a) (tv_nsec a) True"
  have "isAbsBiggerThan ?a ?b \<longleftrightarrow> b < a"
    by (auto simp: isAbsBiggerThan_def less_timespec_def isBefore_def)
  then show ?thesis
    by (cases "b < a") (simp_all add: timeTo_alt ti_add_flip ti_add_no_flip)
qed

lemma timeTo_correct_aux:
  assumes "ts_normal a" "ts_normal b"
  shows "isNormal (timeTo a b) \<and> ti_val (timeTo a b) = ts_val b - ts_val a
    \<and> (isNegative (timeTo a b) \<longleftrightarrow> isAfter a b)"
proof -
  have n: "isNormal (mk_interval (tv_sec b) (tv_nsec b) False)"
    "isNormal (mk_interval (tv_sec a) (tv_nsec a) True)"
    using assms by (simp_all add: ts_normal_def isNormal_def)
  have "isNormal (timeTo a b)"
    unfolding timeTo_alt by (rule ti_add_opposite_normal[OF n]) simp
  moreover have "ti_val (timeTo a b) = ts_val b - ts_val a"
    unfolding timeTo_alt
    by (subst ti_add_value_aux) (simp_all add: ti_saturates_def ti_val_def ts_val_def)
  moreover have "isNegative (timeTo a b) \<longleftrightarrow> isAfter a b"
    using assms by (simp add: timeTo_cases isNegative_def isAfter_def less_timespec_def)
  ultimately show ?thesis by blast
qed

text \<open>The difference of two time stamps is a normal interval whose value is the difference of
  their values; it is negative exactly when the first lies after the second.\<close>

theorem timeTo_correct:
  assumes "ts_normal a" "ts_normal b"
  shows "isNormal (timeTo a b) \<and> ti_val (timeTo a b) = ts_val b - ts_val a
    \<and> (isNegative (timeTo a b) \<longleftrightarrow> isAfter a b)"
  using assms by (rule timeTo_correct_aux)

theorem timeTo_correct_witness:
  "ts_normal (Timespec 5 10) \<and> ts_normal (Timespec 4 20)
   \<and> ti_val (timeTo (Timespec 5 10) (Timespec 4 20)) = - 999999990"
proof -
  have n: "ts_normal (Timespec 5 10)" "ts_normal (Timespec 4 20)"
    by (simp_all add: ts_normal_def TIME_MAX_def BILLION_def)
  show ?thesis using timeTo_correct[OF n] n by (simp add: ts_val_def BILLION_def)
qed

lemma passed_timeTo:
  assumes "ts_normal a" "ts_normal now"
  shows "passed a now = (if isAfter a now then None else Some (timeTo a now))"
  using assms by (auto simp: passed_def timeTo_cases isAfter_def less_timespec_def Let_def
      zth_assert_def)

text \<open>\<^verbatim>\<open>Timestamp::passed()\<close> is a shortcut for time stamps in the past; for those it returns
  exactly what the general \<^verbatim>\<open>timeTo()\<close> returns, and it traps on a time stamp in the future.\<close>

theorem passed_eq_timeTo:
  assumes "ts_normal a" "ts_normal now"
  shows "passed a now = (if isAfter a now then None else Some (timeTo a now))"
  using assms by (rule passed_timeTo)

theorem passed_eq_timeTo_witness:
  "ts_normal (Timespec 1 900) \<and> ts_normal (Timespec 3 100)
   \<and> passed (Timespec 1 900) (Timespec 3 100) = Some (timeTo (Timespec 1 900) (Timespec 3 100))"
proof -
  have n: "ts_normal (Timespec 1 900)" "ts_normal (Timespec 3 100)"
    by (simp_all add: ts_normal_def TIME_MAX_def BILLION_def)
  show ?thesis
    using passed_eq_timeTo[OF n] n by (simp add: isAfter_def isBefore_def)
qed

lemma sec_nsec_unique:
  fixes s1 s2 n1 n2 :: int
  assumes "0 \<le> n1" "n1 < B" "0 \<le> n2" "n2 < B" "s1 * B + n1 = s2 * B + n2"
  shows "s1 = s2 \<and> n1 = n2"
  using assms sec_nsec_less_iff[of n1 B n2 s1 s2] sec_nsec_less_iff[of n2 B n1 s2 s1] by auto

lemma ts_add_diff_val:
  assumes "ts_normal t0" "ts_normal t1" "tv_sec t0 < TIME_MAX div 2" "tv_sec t1 < TIME_MAX div 2"
  defines "r \<equiv> ti_add (mk_interval (tv_sec t0) (tv_nsec t0) False) (ts_diff t1 t0)"
  shows "\<not> m_negative r" "ts_val (m_t r) = ts_val t1"
    "\<not> ti_saturates (mk_interval (tv_sec t0) (tv_nsec t0) False) (ts_diff t1 t0)"
proof -
  let ?t0 = "mk_interval (tv_sec t0) (tv_nsec t0) False" and ?d = "timeTo t0 t1"
  have d: "isNormal ?d" "ti_val ?d = ts_val t1 - ts_val t0" "m_negative ?d \<longleftrightarrow> t1 < t0"
    using assms(1,2) timeTo_correct_aux[of t0 t1] by (auto simp: less_timespec_def isAfter_def isNegative_def)
  have nosat: "\<not> ti_saturates ?t0 ?d"
    using assms(1-4)
    by (auto simp: ti_saturates_def timeTo_cases isInfinite_def ts_normal_def TIME_MAX_def split: if_splits)
  then show "\<not> ti_saturates (mk_interval (tv_sec t0) (tv_nsec t0) False) (ts_diff t1 t0)"
    by (simp add: ts_diff_def)
  have val: "ti_val r = ts_val t1"
    using nosat by (simp add: r_def ts_diff_def ti_add_value_aux d ti_val_def[of ?t0] ts_val_def)
  have "\<not> isAbsBiggerThan ?d ?t0" if "m_negative ?d"
  proof -
    have "isNormal ?t0" using assms(1) by (simp add: ts_normal_def isNormal_def)
    moreover have "0 \<le> ts_val t1" using assms(2) by (simp add: ts_normal_def ts_val_def)
    ultimately show ?thesis
      using that d by (simp add: isAbsBiggerThan_val ti_val_def ts_val_def split: if_splits)
  qed
  then show neg: "\<not> m_negative r"
    using nosat ti_add_same_sign[of ?d ?t0] ti_add_no_flip[of ?d ?t0]
    by (cases "m_negative ?d") (auto simp: r_def ts_diff_def)
  show "ts_val (m_t r) = ts_val t1"
    using val neg by (simp add: ti_val_def ts_val_def)
qed

text \<open>Adding to a time stamp the difference to another one gives a time stamp of the same value
  as that other one, and the very same time stamp unless the two sub-second parts add up to
  exactly one second, where \<^verbatim>\<open>add\<close> forgets the carry.\<close>

theorem ts_add_diff_roundtrip:
  assumes "ts_normal t0" "ts_normal t1" "tv_sec t0 < TIME_MAX div 2" "tv_sec t1 < TIME_MAX div 2"
  shows "\<exists>t. ts_add t0 (ts_diff t1 t0) = Some t \<and> ts_val t = ts_val t1
    \<and> (t = t1 \<longleftrightarrow> t1 < t0 \<or> tv_nsec t0 = 0 \<or> tv_nsec t1 \<noteq> 0)"
proof -
  let ?t0 = "mk_interval (tv_sec t0) (tv_nsec t0) False" and ?d = "timeTo t0 t1"
  define r where "r = ti_add ?t0 ?d"
  note v = ts_add_diff_val[OF assms, folded r_def, unfolded ts_diff_def, folded r_def]
  have n: "isNormal ?t0" "isNormal ?d"
    using assms timeTo_correct_aux[of t0 t1] by (auto simp: ts_normal_def isNormal_def)
  have same: "m_t r = t1 \<longleftrightarrow> isNormal r"
  proof
    assume "isNormal r"
    then have "tv_sec (m_t r) = tv_sec t1 \<and> tv_nsec (m_t r) = tv_nsec t1"
      using v(2) assms(2)
      by (intro sec_nsec_unique[where B = BILLION]) (simp_all add: isNormal_def ts_normal_def ts_val_def)
    then show "m_t r = t1" by (simp add: timespec.expand)
  qed (use assms(2) in \<open>simp add: isNormal_def ts_normal_def\<close>)
  have "isNormal r \<longleftrightarrow> m_negative ?d \<or> tv_nsec t0 + ti_nsec ?d \<noteq> BILLION"
    using n v(3) ti_add_same_normal[OF n] ti_add_opposite_normal[OF n] by (auto simp: r_def)
  also have "\<dots> \<longleftrightarrow> t1 < t0 \<or> tv_nsec t0 = 0 \<or> tv_nsec t1 \<noteq> 0"
    using assms(1,2) by (auto simp: timeTo_cases ts_normal_def)
  finally show ?thesis
    using v(1,2) same by (auto simp: ts_add_def Let_def isPositive_def isNegative_def ts_diff_def r_def)
qed

theorem ts_add_diff_roundtrip_witness:
  "\<exists>t. ts_add (Timespec 0 500000000) (ts_diff (Timespec 1 0) (Timespec 0 500000000)) = Some t
     \<and> ts_val t = ts_val (Timespec 1 0) \<and> t \<noteq> Timespec 1 0"
proof -
  have n: "ts_normal (Timespec 0 500000000)" "ts_normal (Timespec 1 0)"
    "tv_sec (Timespec 0 500000000) < TIME_MAX div 2" "tv_sec (Timespec 1 0) < TIME_MAX div 2"
    by (simp_all add: ts_normal_def TIME_MAX_def BILLION_def)
  show ?thesis
    using ts_add_diff_roundtrip[OF n] by (auto simp: less_timespec_def isBefore_def)
qed

end
