(* ===== verification/Zth_Clock.thy ===== *)
theory Zth_Clock
  imports Zth_Time "HOL-Library.Word"
begin

section \<open>The clock\<close>

text \<open>
  \<^verbatim>\<open>src/time.cpp\<close> and the part of \<^verbatim>\<open>time.h\<close> that reads the clock: \<^verbatim>\<open>Timestamp::now()\<close>, the conversions to and from
  \<^verbatim>\<open>std::chrono\<close>, the literals, and the replacements of \<^verbatim>\<open>clock_gettime()\<close> and \<^verbatim>\<open>clock_nanosleep()\<close> for the systems that lack them.
  What a system call returns is an argument.
\<close>

unbundle bit_operations_syntax

subsection \<open>Reading the clock\<close>

text \<open>\<open>rd\<close> is the result of \<^verbatim>\<open>clock_gettime()\<close>.\<close>

definition Timestamp_now :: "errno + timespec \<Rightarrow> timespec option" where
  "Timestamp_now rd = (case rd of Inl e \<Rightarrow> None | Inr t \<Rightarrow> do { zth_assert (\<not> ts_isNull t); Some t })"

definition Timestamp_of_interval :: "errno + timespec \<Rightarrow> TimeInterval \<Rightarrow> timespec option" where
  "Timestamp_of_interval rd ti = do { t \<leftarrow> Timestamp_now rd; ts_add t ti }"

definition ts_hasPassed :: "errno + timespec \<Rightarrow> timespec \<Rightarrow> bool option" where
  "ts_hasPassed rd t = do { n \<leftarrow> Timestamp_now rd; Some (isBefore t n) }"

text \<open>Time points of \<^verbatim>\<open>std::chrono\<close> are numbers of nanoseconds of 64 bits; overflow is undefined.\<close>

definition chrono_rep :: "int \<Rightarrow> int option" where
  "chrono_rep x = (if - (2 ^ 63) \<le> x \<and> x < 2 ^ 63 then Some x else None)"

definition monotonic_now :: "errno + timespec \<Rightarrow> int option" where
  "monotonic_now rd = (case rd of
     Inl e \<Rightarrow> None
   | Inr t \<Rightarrow> do { s \<leftarrow> chrono_rep (tv_sec t * BILLION); chrono_rep (s + tv_nsec t) })"

definition Timestamp_to_chrono :: "timespec \<Rightarrow> int option" where
  "Timestamp_to_chrono t = do { s \<leftarrow> chrono_rep (tv_sec t * BILLION); chrono_rep (s + tv_nsec t) }"

definition Timestamp_of_chrono :: "int \<Rightarrow> timespec" where
  "Timestamp_of_chrono ns = Timespec (ns sdiv BILLION) (ns smod BILLION)"

definition TimeInterval_of_chrono :: "int \<Rightarrow> TimeInterval" where
  "TimeInterval_of_chrono ns = from_ns ns"

text \<open>The literals, of type \<^verbatim>\<open>unsigned long long\<close>.\<close>

definition literal_s :: "64 word \<Rightarrow> TimeInterval" where
  "literal_s x = init_int (min (uint x) TIME_MAX)"

text \<open>The clock of the chrono library and \<^verbatim>\<open>Timestamp\<close> agree, up to 292 years.\<close>

lemma chrono_roundtrip_ok:
  assumes "ts_normal t" "ts_val t < 2 ^ 63"
  shows "Timestamp_to_chrono t = Some (ts_val t) \<and> Timestamp_of_chrono (ts_val t) = t
    \<and> monotonic_now (Inr t) = Some (ts_val t)"
proof -
  have t: "0 \<le> tv_sec t" "0 \<le> tv_nsec t" "tv_nsec t < BILLION" "ts_val t = tv_sec t * BILLION + tv_nsec t"
    using assms(1) by (simp_all add: ts_normal_def ts_val_def)
  then have p: "- (2 ^ 63) \<le> tv_sec t * BILLION" "tv_sec t * BILLION < 2 ^ 63" "- (2 ^ 63) \<le> ts_val t" "0 \<le> ts_val t"
    using assms(2) mult_nonneg_nonneg[OF t(1) BILLION_pos(2)] by linarith+
  then have c: "chrono_rep (tv_sec t * BILLION) = Some (tv_sec t * BILLION)" "chrono_rep (tv_sec t * BILLION + tv_nsec t) = Some (ts_val t)"
    using t(4) p assms(2) unfolding chrono_rep_def by auto
  have dm: "ts_val t div BILLION = tv_sec t" "ts_val t mod BILLION = tv_nsec t"
    using t by (simp_all add: BILLION_def)
  have "ts_val t sdiv BILLION = ts_val t div BILLION \<and> ts_val t smod BILLION = ts_val t mod BILLION"
    using t p by (intro sdiv_smod_nonneg) simp_all
  then have "Timestamp_of_chrono (ts_val t) = t" using dm by (cases t) (simp add: Timestamp_of_chrono_def)
  then show ?thesis using c by (simp add: Timestamp_to_chrono_def monotonic_now_def)
qed

text \<open>The time stamp that stands for infinity cannot be converted.\<close>

lemma infinity_to_chrono: "Timestamp_to_chrono (m_t ti_infinity) = None"
  by (simp add: Timestamp_to_chrono_def ti_infinity_def chrono_rep_def TIME_MAX_def BILLION_def)

subsection \<open>The clock of a Mac\<close>

text \<open>
  \<^verbatim>\<open>mach_absolute_time()\<close> counts in units of \<open>n / d\<close> nanoseconds; \<open>n\<close> and \<open>d\<close> have 32 bits, the count 64. The product is
  computed in two halves, so that it does not overflow.
\<close>

definition mach_ns :: "64 word \<Rightarrow> 32 word \<Rightarrow> 32 word \<Rightarrow> 64 word" where
  "mach_ns c n d =
     (if n \<noteq> d
      then let chigh = drop_bit 32 c * ucast n;
               chighrem = push_bit 32 (chigh mod ucast d) div ucast d;
               chigh = chigh div ucast d;
               clow = (c AND (push_bit 32 1 - 1)) * ucast n div ucast d;
               clow = clow + chighrem
           in push_bit 32 chigh + clow
      else c)"

definition mac_clock_gettime :: "64 word \<Rightarrow> 64 word \<Rightarrow> 32 word \<Rightarrow> 32 word \<Rightarrow> bool \<Rightarrow> bool \<Rightarrow> (errno + timespec) option" where
  "mac_clock_gettime start cnt n d null monotonic =
     (if null then Some (Inl EFAULT)
      else do {
        zth_assert monotonic;
        let ns = uint (mach_ns (cnt - start) n d);
        Some (Inr (Timespec (ns div BILLION) (ns mod BILLION)))
      })"

lemma div_sum_bounds:
  fixes a b d :: nat
  assumes "0 < d"
  shows "a div d + b div d \<le> (a + b) div d" "(a + b) div d \<le> a div d + b div d + 1"
proof -
  have "(a + b) div d = a div d + b div d + (a mod d + b mod d) div d" by (rule div_add1_eq)
  moreover have "a mod d + b mod d < 2 * d" using assms by (metis add_less_mono mod_less_divisor mult_2)
  then have "(a mod d + b mod d) div d < 2" using assms by (simp add: less_mult_imp_div_less)
  ultimately show "a div d + b div d \<le> (a + b) div d" "(a + b) div d \<le> a div d + b div d + 1" by linarith+
qed

text \<open>The split of the product, over the natural numbers.\<close>

lemma scale_halves:
  fixes c n d :: nat
  assumes "0 < d"
  defines "h \<equiv> c div 2 ^ 32 * n"
  defines "r \<equiv> h div d * 2 ^ 32 + (h mod d * 2 ^ 32 div d + c mod 2 ^ 32 * n div d)"
  shows "r \<le> c * n div d" "c * n div d \<le> r + 1"
proof -
  have "c * n = (c div 2 ^ 32 * 2 ^ 32 + c mod 2 ^ 32) * n" by simp
  also have "\<dots> = h * 2 ^ 32 + c mod 2 ^ 32 * n" unfolding h_def by (simp only: algebra_simps)
  also have "h = h div d * d + h mod d" by simp
  finally have "c * n = (h div d * 2 ^ 32) * d + (h mod d * 2 ^ 32 + c mod 2 ^ 32 * n)"
    by (simp only: algebra_simps)
  then have e: "c * n div d = h div d * 2 ^ 32 + (h mod d * 2 ^ 32 + c mod 2 ^ 32 * n) div d" using assms(1) by simp
  show "r \<le> c * n div d" "c * n div d \<le> r + 1"
    unfolding e r_def using div_sum_bounds[OF assms(1), of "h mod d * 2 ^ 32" "c mod 2 ^ 32 * n"] by linarith+
qed

lemma unat_small: "unat (ucast (x :: 32 word) :: 64 word) = unat x" "unat x < 2 ^ 32"
  using unsigned_less[of x, where 'a = nat] by (simp_all add: unsigned_ucast_eq take_bit_eq_mod)

lemma unat_mult_small: "unat a * unat b < 2 ^ 64 \<Longrightarrow> unat (a * b) = unat a * unat b" for a b :: "64 word"
  by (simp add: unat_word_ariths)

lemma unat_plus_small: "unat a + unat b < 2 ^ 64 \<Longrightarrow> unat (a + b) = unat a + unat b" for a b :: "64 word"
  by (simp add: unat_word_ariths)

lemma unat_push32: "unat x * 2 ^ 32 < 2 ^ 64 \<Longrightarrow> unat (push_bit 32 x) = unat x * 2 ^ 32" for x :: "64 word"
  using unat_mult_small[of x "2 ^ 32"] by (simp add: push_bit_eq_mult)

text \<open>
  The conversion to nanoseconds, in spite of the two divisions, is at most one nanosecond below the exact value, and does not
  overflow unless the result does.
\<close>

theorem mach_ns_accurate:
  assumes "d \<noteq> 0" "unat c * unat n div unat d < 2 ^ 64"
  shows "unat (mach_ns c n d) \<le> unat c * unat n div unat d \<and> unat c * unat n div unat d \<le> unat (mach_ns c n d) + 1"
proof (cases "n = d")
  case True
  then show ?thesis using assms(1) by (simp add: mach_ns_def unat_eq_zero)
next
  case False
  let ?n = "ucast n :: 64 word" and ?d = "ucast d :: 64 word"
  let ?h = "unat c div 2 ^ 32 * unat n"
  have n: "unat ?n = unat n" "unat n < 2 ^ 32" and d: "unat ?d = unat d" "unat d < 2 ^ 32" using unat_small by blast+
  have d0: "0 < unat d" using assms(1) by (simp add: unat_gt_0)
  have c: "unat c < 2 ^ 64" using unsigned_less[of c, where 'a = nat] by simp
  then have ch: "unat c div 2 ^ 32 < 2 ^ 32" "unat c mod 2 ^ 32 < 2 ^ 32" by (simp_all add: less_mult_imp_div_less)
  have hi: "unat (drop_bit 32 c) = unat c div 2 ^ 32" by (simp add: unat_drop_bit_eq drop_bit_eq_div unat_div)
  have m: "(push_bit 32 1 - 1 :: 64 word) = mask 32" by (simp add: mask_eq_exp_minus_1 push_bit_eq_mult)
  have lo: "unat (c AND (push_bit 32 1 - 1)) = unat c mod 2 ^ 32"
    unfolding m by (simp flip: take_bit_eq_mask add: unsigned_take_bit_eq take_bit_eq_mod unat_mod)
  have "?h < 2 ^ 32 * 2 ^ 32" by (rule mult_strict_mono) (use ch n in simp_all)
  then have h: "unat (drop_bit 32 c * ?n) = ?h" using unat_mult_small[of "drop_bit 32 c" ?n] hi n by simp
  have "?h mod unat d < 2 ^ 32" using d0 d(2) by (meson less_trans mod_less_divisor)
  then have r: "unat (push_bit 32 ((drop_bit 32 c * ?n) mod ?d)) = ?h mod unat d * 2 ^ 32"
    using unat_push32[of "(drop_bit 32 c * ?n) mod ?d"] h d by (simp add: unat_mod)
  have "unat c mod 2 ^ 32 * unat n < 2 ^ 32 * 2 ^ 32" by (rule mult_strict_mono) (use ch n in simp_all)
  then have l: "unat ((c AND (push_bit 32 1 - 1)) * ?n) = unat c mod 2 ^ 32 * unat n"
    using unat_mult_small[of "c AND (push_bit 32 1 - 1)" ?n] lo n by simp
  let ?r = "?h div unat d * 2 ^ 32 + (?h mod unat d * 2 ^ 32 div unat d + unat c mod 2 ^ 32 * unat n div unat d)"
  note sh = scale_halves[OF d0, of "unat c" "unat n"]
  have rb: "?r < 2 ^ 64" using sh(1) assms(2) by linarith
  have q: "unat (push_bit 32 (drop_bit 32 c * ?n div ?d)) = ?h div unat d * 2 ^ 32"
    using unat_push32[of "drop_bit 32 c * ?n div ?d"] h d rb by (simp add: unat_div)
  have s: "unat ((c AND (push_bit 32 1 - 1)) * ?n div ?d + push_bit 32 ((drop_bit 32 c * ?n) mod ?d) div ?d)
      = ?h mod unat d * 2 ^ 32 div unat d + unat c mod 2 ^ 32 * unat n div unat d"
    using unat_plus_small[of "(c AND (push_bit 32 1 - 1)) * ?n div ?d" "push_bit 32 ((drop_bit 32 c * ?n) mod ?d) div ?d"] r l d rb
    by (simp add: unat_div)
  have "unat (mach_ns c n d) = ?r"
    using False unat_plus_small[of "push_bit 32 (drop_bit 32 c * ?n div ?d)"] q s rb by (simp only: mach_ns_def Let_def if_True not_False_eq_True simp_thms)
  then show ?thesis using sh by simp
qed

theorem mach_ns_accurate_witness:
  "unat (mach_ns 6000000000 125 3) \<le> 250000000000 \<and> 250000000000 \<le> unat (mach_ns 6000000000 125 3) + 1"
  using mach_ns_accurate[of 3 6000000000 125] by simp

text \<open>
  The clock starts at 0. A time stamp that is taken right away, as \<^verbatim>\<open>startTimeInit()\<close> does, may be null, which
  \<^verbatim>\<open>Timestamp::now()\<close> does not allow.
\<close>

lemma mac_clock_starts_null:
  "\<exists>rd. mac_clock_gettime start start n d False True = Some rd \<and> Timestamp_now rd = None"
  by (simp add: mac_clock_gettime_def mach_ns_def Let_def Timestamp_now_def ts_isNull_def zth_assert_def BILLION_def)

subsection \<open>Sleeping until a time\<close>

text \<open>The arguments that all variants refuse: \<open>ok\<close> says that the clock is the monotonic one and the time is absolute.\<close>

definition nanosleep_args :: "bool \<Rightarrow> timespec option \<Rightarrow> errno + timespec" where
  "nanosleep_args ok request = (case request of None \<Rightarrow> Inl EFAULT | Some t \<Rightarrow> if ok then Inr t else Inl EINVAL)"

text \<open>
  For a Mac. The result, the duration of the sleep in microseconds (32 bits), and the remaining time, when
  asked for. \<open>rd\<close> is the time before, \<open>rd2\<close> the time after a sleep that was interrupted; \<open>intr\<close> tells whether it was.
\<close>

definition USECONDS_MAX :: "32 word" where
  "USECONDS_MAX = - 1"

definition mac_usec :: "timespec \<Rightarrow> timespec \<Rightarrow> 32 word option" where
  "mac_usec request now =
     (if tv_sec now > tv_sec request then None
      else let sec = tv_sec request - tv_sec now
        in if sec = 0 \<and> tv_nsec request \<le> tv_nsec now then None
           else if sec < uint USECONDS_MAX sdiv 1000000 - 1
             then Some (word_of_int (sec * 1000000) + word_of_int ((tv_nsec request - tv_nsec now) sdiv 1000))
             else Some USECONDS_MAX)"

definition mac_remain :: "timespec \<Rightarrow> timespec \<Rightarrow> timespec" where
  "mac_remain now intr =
     (let sec = tv_sec intr - tv_sec now; nsec = tv_nsec intr - tv_nsec now
      in if nsec < 0 then Timespec (sec - 1) (nsec + 1000000000) else Timespec sec nsec)"

definition mac_clock_nanosleep ::
  "bool \<Rightarrow> timespec option \<Rightarrow> bool \<Rightarrow> errno + timespec \<Rightarrow> (32 word \<Rightarrow> bool) \<Rightarrow> errno + timespec
    \<Rightarrow> errno \<times> 32 word option \<times> timespec option" where
  "mac_clock_nanosleep ok request want rd intr rd2 = (case nanosleep_args ok request of
     Inl e \<Rightarrow> (e, None, None)
   | Inr req \<Rightarrow> (case rd of
       Inl e \<Rightarrow> (e, None, None)
     | Inr now \<Rightarrow> (case mac_usec req now of
         None \<Rightarrow> (E_OK, None, None)
       | Some us \<Rightarrow>
           if \<not> intr us then (E_OK, Some us, None)
           else if \<not> want then (EINTR, Some us, None)
           else (case rd2 of
               Inl e \<Rightarrow> (e, Some us, None)
             | Inr t2 \<Rightarrow> (EINTR, Some us, Some (mac_remain now t2))))))"

text \<open>For Windows: the relative time that \<^verbatim>\<open>nanosleep()\<close> gets, and its result.\<close>

definition win_relative :: "timespec \<Rightarrow> timespec \<Rightarrow> timespec option" where
  "win_relative request t =
     (if tv_sec t > tv_sec request then None
      else if tv_sec t = tv_sec request \<and> tv_nsec t > tv_nsec request then None
      else let sec = tv_sec request - tv_sec t; nsec = tv_nsec request - tv_nsec t
        in Some (if nsec < 0 then Timespec (sec - 1) (nsec + 1000000000) else Timespec sec nsec))"

definition win_clock_nanosleep :: "bool \<Rightarrow> timespec option \<Rightarrow> errno + timespec \<Rightarrow> (timespec \<Rightarrow> errno) \<Rightarrow> errno \<times> timespec option" where
  "win_clock_nanosleep ok request rd nanosleep = (case nanosleep_args ok request of
     Inl e \<Rightarrow> (e, None)
   | Inr req \<Rightarrow> (case rd of
       Inl e \<Rightarrow> (e, None)
     | Inr t \<Rightarrow> (case win_relative req t of None \<Rightarrow> (E_OK, None) | Some rel \<Rightarrow> (nanosleep rel, Some rel))))"

text \<open>Without an operating system, the clock is polled. \<open>clk i\<close> is its \<open>i\<close>-th reading; the result has the number of readings.\<close>

partial_function (option) bare_loop :: "(nat \<Rightarrow> errno + timespec) \<Rightarrow> timespec \<Rightarrow> nat \<Rightarrow> (errno \<times> nat) option" where
  "bare_loop clk request i = (case clk i of
     Inl e \<Rightarrow> Some (e, i)
   | Inr now \<Rightarrow>
       if tv_sec now > tv_sec request then Some (E_OK, i)
       else if tv_sec now = tv_sec request \<and> tv_nsec now \<ge> tv_nsec request then Some (E_OK, i)
       else bare_loop clk request (i + 1))"

definition bare_clock_nanosleep :: "bool \<Rightarrow> timespec option \<Rightarrow> (nat \<Rightarrow> errno + timespec) \<Rightarrow> (errno \<times> nat) option" where
  "bare_clock_nanosleep ok request clk = (case nanosleep_args ok request of
     Inl e \<Rightarrow> Some (e, 0)
   | Inr req \<Rightarrow> bare_loop clk req 0)"

definition clock_due :: "timespec \<Rightarrow> errno + timespec \<Rightarrow> bool" where
  "clock_due request rd \<longleftrightarrow> (case rd of Inl e \<Rightarrow> True | Inr now \<Rightarrow> \<not> isBefore now request)"

lemma bare_loop_ok:
  assumes "clock_due request (clk n)" "\<forall>j. i \<le> j \<and> j < n \<longrightarrow> \<not> clock_due request (clk j)" "i \<le> n"
  shows "bare_loop clk request i = Some (case clk n of Inl e \<Rightarrow> e | Inr now \<Rightarrow> E_OK, n)"
  using assms
proof (induction "n - i" arbitrary: i)
  case 0
  then show ?case by (subst bare_loop.simps) (auto simp: clock_due_def isBefore_def split: sum.splits)
next
  case (Suc k)
  then have "\<not> clock_due request (clk i)" by simp
  then obtain now where n: "clk i = Inr now" "isBefore now request" by (cases "clk i") (auto simp: clock_due_def)
  then have "bare_loop clk request i = bare_loop clk request (i + 1)"
    by (subst bare_loop.simps) (auto simp: isBefore_def)
  then show ?case using Suc.hyps(1)[of "i + 1"] Suc.hyps(2) Suc.prems by simp
qed

lemma sdiv1000: "\<bar>x sdiv 1000 * 1000 - x\<bar> < 1000" "x < 1000000000 \<Longrightarrow> x sdiv 1000 < 1000000"
    "- 1000000000 < x \<Longrightarrow> - 1000000 < x sdiv 1000" "0 < x \<Longrightarrow> 0 \<le> x sdiv 1000" for x :: int
proof -
  have s: "x sdiv 1000 = (if 0 \<le> x then x div 1000 else - (- x div 1000))" by (simp add: signed_divide_int_def sgn_if)
  have m: "x div 1000 * 1000 + x mod 1000 = x" "0 \<le> x mod 1000" "x mod 1000 < 1000"
      "- x div 1000 * 1000 + - x mod 1000 = - x" "0 \<le> - x mod 1000" "- x mod 1000 < 1000"
    by (rule div_mult_mod_eq pos_mod_bound pos_mod_sign; simp)+
  show "\<bar>x sdiv 1000 * 1000 - x\<bar> < 1000" "x < 1000000000 \<Longrightarrow> x sdiv 1000 < 1000000"
    "- 1000000000 < x \<Longrightarrow> - 1000000 < x sdiv 1000" "0 < x \<Longrightarrow> 0 \<le> x sdiv 1000"
    unfolding s using m by (cases "0 \<le> x"; simp only: if_True if_False; linarith)+
qed

lemma unat_word_of_int32: "0 \<le> t \<Longrightarrow> t < 2 ^ 32 \<Longrightarrow> int (unat (word_of_int t :: 32 word)) = t"
  by (simp add: unsigned_of_int take_bit_int_eq_self)

lemma mac_usec_ok:
  assumes "0 \<le> tv_nsec request" "tv_nsec request < BILLION" "0 \<le> tv_nsec now" "tv_nsec now < BILLION"
  shows "case mac_usec request now of None \<Rightarrow> ts_val request \<le> ts_val now
       | Some us \<Rightarrow> us = USECONDS_MAX \<or> \<bar>int (unat us) * 1000 - (ts_val request - ts_val now)\<bar> < 1000"
proof -
  let ?sec = "tv_sec request - tv_sec now" and ?d = "tv_nsec request - tv_nsec now"
  have m: "uint USECONDS_MAX sdiv 1000000 - 1 = 4293" by (simp add: USECONDS_MAX_def signed_divide_int_def unsigned_minus_1_eq_mask mask_eq_exp_minus_1)
  have v: "ts_val request - ts_val now = ?sec * 1000000000 + ?d" by (simp add: ts_val_def BILLION_def algebra_simps)
  have d: "- 1000000000 < ?d" "?d < 1000000000" using assms by (simp_all add: BILLION_def)
  have 1: "ts_val request \<le> ts_val now" if "mac_usec request now = None"
  proof -
    have "?sec < 0 \<or> ?sec = 0 \<and> ?d \<le> 0" using that by (auto simp: mac_usec_def Let_def split: if_splits)
    then have "?sec * 1000000000 + ?d \<le> 0" using d by auto
    then show ?thesis using v by simp
  qed
  have 2: "us = USECONDS_MAX \<or> \<bar>int (unat us) * 1000 - (ts_val request - ts_val now)\<bar> < 1000" if us: "mac_usec request now = Some us" for us
  proof (cases "us = USECONDS_MAX")
    case False
    then have s: "0 \<le> ?sec" "?sec < 4293" "\<not> (?sec = 0 \<and> ?d \<le> 0)" and w: "us = word_of_int (?sec * 1000000 + ?d sdiv 1000)"
      using us m by (auto simp: mac_usec_def Let_def split: if_splits)
    let ?t = "?sec * 1000000 + ?d sdiv 1000"
    have q: "?d sdiv 1000 < 1000000" "- 1000000 < ?d sdiv 1000" "?sec = 0 \<longrightarrow> 0 \<le> ?d sdiv 1000"
      using sdiv1000(2)[OF d(2)] sdiv1000(3)[OF d(1)] sdiv1000(4)[of ?d] s(3) by auto
    have "0 \<le> ?t"
    proof (cases "?sec = 0")
      case False
      then have "1000000 \<le> ?sec * 1000000" using s(1) by simp
      then show ?thesis using q(2) by linarith
    qed (use q(3) in simp)
    moreover have "?t < 2 ^ 32" using s(2) q(1) by (simp add: algebra_simps)
    ultimately have u: "int (unat us) = ?t" unfolding w by (rule unat_word_of_int32)
    have "int (unat us) * 1000 - (ts_val request - ts_val now) = ?d sdiv 1000 * 1000 - ?d" unfolding u v by (simp add: algebra_simps)
    then show ?thesis using sdiv1000(1)[of ?d] by simp
  qed simp
  show ?thesis using 1 2 by (cases "mac_usec request now") auto
qed

text \<open>
  Sleeping until a time: polling ends at the first reading that is due; the sleep for Windows is exactly the time that is left; and
  that for a Mac differs from it by less than a microsecond, unless it is longer than a single sleep can be.
\<close>

theorem nanosleep_until_due:
  assumes "ts_normal request" "ts_normal now" "clock_due request (clk n)" "\<forall>j < n. \<not> clock_due request (clk j)"
  shows "bare_clock_nanosleep True (Some request) clk = Some (case clk n of Inl e \<Rightarrow> e | Inr now \<Rightarrow> E_OK, n)
    \<and> (case snd (win_clock_nanosleep True (Some request) (Inr now) slp) of
         None \<Rightarrow> ts_val request < ts_val now
       | Some rel \<Rightarrow> ts_normal rel \<and> ts_val rel = ts_val request - ts_val now)
    \<and> (case fst (snd (mac_clock_nanosleep True (Some request) want (Inr now) intr rd2)) of
         None \<Rightarrow> ts_val request \<le> ts_val now
       | Some us \<Rightarrow> us = USECONDS_MAX \<or> \<bar>int (unat us) * 1000 - (ts_val request - ts_val now)\<bar> < 1000)"
proof -
  have r: "0 \<le> tv_sec request" "0 \<le> tv_nsec request" "tv_nsec request < BILLION" "0 \<le> tv_sec now" "0 \<le> tv_nsec now"
      "tv_nsec now < BILLION" "tv_sec request \<le> TIME_MAX" using assms(1,2) by (simp_all add: ts_normal_def)
  have 1: "bare_clock_nanosleep True (Some request) clk = Some (case clk n of Inl e \<Rightarrow> e | Inr now \<Rightarrow> E_OK, n)"
    using bare_loop_ok[of request clk n 0] assms(3,4) by (simp add: bare_clock_nanosleep_def nanosleep_args_def)
  have 2: "case win_relative request now of None \<Rightarrow> ts_val request < ts_val now
       | Some rel \<Rightarrow> ts_normal rel \<and> ts_val rel = ts_val request - ts_val now"
    using r by (auto simp: win_relative_def Let_def ts_normal_def ts_val_def BILLION_def)
  have 3: "case mac_usec request now of None \<Rightarrow> ts_val request \<le> ts_val now
       | Some us \<Rightarrow> us = USECONDS_MAX \<or> \<bar>int (unat us) * 1000 - (ts_val request - ts_val now)\<bar> < 1000"
    using r by (intro mac_usec_ok) simp_all
  show ?thesis using 1 2 3
    by (auto simp: win_clock_nanosleep_def mac_clock_nanosleep_def nanosleep_args_def split: option.splits if_splits sum.splits)
qed

theorem nanosleep_until_due_witness:
  "bare_clock_nanosleep True (Some (Timespec 5 0)) (\<lambda>i. Inr (Timespec (int i) 1)) = Some (E_OK, 5)"
proof -
  have "ts_normal (Timespec 5 0)" by (simp add: ts_normal_def BILLION_def TIME_MAX_def)
  then show ?thesis
    using nanosleep_until_due[of "Timespec 5 0" "Timespec 5 0" "\<lambda>i. Inr (Timespec (int i) 1)" 5]
    by (simp add: clock_due_def isBefore_def)
qed

text \<open>What is stored as the remaining time is the time that has passed.\<close>

lemma mac_remain_is_elapsed: "ts_val (mac_remain now t2) = ts_val t2 - ts_val now"
  by (simp add: mac_remain_def Let_def ts_val_def BILLION_def algebra_simps)

end
