(* ===== verification/Zth_List.thy ===== *)
theory Zth_List
  imports Zth_Prelude
begin

section \<open>The intrusive cyclic list\<close>

text \<open>
  \<^verbatim>\<open>include/libzth/list.h\<close>: \<^verbatim>\<open>Listable\<close>, \<^verbatim>\<open>List\<close> and its iterators. A \<^verbatim>\<open>Listable\<close> object
  carries its own \<^verbatim>\<open>prev\<close>/\<^verbatim>\<open>next\<close> links, and all lists of a program link objects of one store,
  so the model has an explicit store: \<open>heap\<close> maps an address to its \<open>listable\<close> object, a null
  pointer is \<open>None\<close>. Operations are in the option monad; \<open>None\<close> is a failed \<^verbatim>\<open>zth_assert\<close> or
  the dereference of a null pointer. The build is the checking one, which clears the links of
  a removed element.

  The loops over iterators (\<^verbatim>\<open>contains\<close>, \<^verbatim>\<open>size\<close>) are \<^theory_text>\<open>partial_function (option)\<close>: on a
  store whose links do not lead back to the head they would not return.

  \<open>list_rep s xs\<close> is the abstraction: the links of \<open>s\<close> spell out the cyclic list \<open>xs\<close> of
  distinct addresses. The lemmas show that every operation of the code refines the operation on
  \<open>xs\<close>, and that none of its assertions fails.
\<close>

subsection \<open>Data\<close>

record listable =
  lprev :: "addr option"
  lnext :: "addr option"
  luser :: nat

type_synonym store = "addr \<Rightarrow> listable"

record list_state =
  heap :: store
  m_head :: "addr option"
  m_tail :: "addr option"

record iterator =
  m_start :: "addr option"
  m_current :: "addr option"

definition new_listable :: listable where
  "new_listable = \<lparr>lprev = None, lnext = None, luser = 0\<rparr>"

definition set_next :: "addr \<Rightarrow> addr option \<Rightarrow> store \<Rightarrow> store" where
  "set_next a p h = h(a := (h a)\<lparr>lnext := p\<rparr>)"

definition set_prev :: "addr \<Rightarrow> addr option \<Rightarrow> store \<Rightarrow> store" where
  "set_prev a p h = h(a := (h a)\<lparr>lprev := p\<rparr>)"

definition set_user :: "addr \<Rightarrow> nat \<Rightarrow> store \<Rightarrow> store" where
  "set_user a u h = h(a := (h a)\<lparr>luser := u\<rparr>)"

subsection \<open>Iterators\<close>

definition mk_iterator :: "addr option \<Rightarrow> addr option \<Rightarrow> iterator" where
  "mk_iterator start current = \<lparr>m_start = start, m_current = current\<rparr>"

definition atBegin :: "iterator \<Rightarrow> bool" where
  "atBegin it \<longleftrightarrow> m_current it = None \<and> m_start it \<noteq> None"

definition atEnd :: "iterator \<Rightarrow> bool" where
  "atEnd it \<longleftrightarrow> m_current it = m_start it"

definition it_get :: "bool \<Rightarrow> iterator \<Rightarrow> addr option option" where
  "it_get cyclic it = do {
     zth_assert (cyclic \<or> \<not> atEnd it);
     Some (if atBegin it then m_start it else m_current it)
   }"

definition it_eq :: "iterator \<Rightarrow> iterator \<Rightarrow> bool option" where
  "it_eq it rhs =
     (if atEnd it then Some (atEnd rhs)
      else if atEnd rhs then Some False
      else do { p \<leftarrow> it_get False it; q \<leftarrow> it_get False rhs; Some (p = q) })"

definition it_next :: "bool \<Rightarrow> store \<Rightarrow> iterator \<Rightarrow> iterator option" where
  "it_next cyclic h it = do {
     zth_assert ((cyclic \<or> \<not> atEnd it) \<and> m_start it \<noteq> None);
     p \<leftarrow> (if atBegin it then m_start it else m_current it);
     Some (it\<lparr>m_current := lnext (h p)\<rparr>)
   }"

definition it_prev :: "bool \<Rightarrow> store \<Rightarrow> iterator \<Rightarrow> iterator option" where
  "it_prev cyclic h it = do {
     zth_assert ((cyclic \<or> \<not> atEnd it) \<and> m_start it \<noteq> None);
     c \<leftarrow> m_current it;
     Some (it\<lparr>m_current := (if lprev (h c) = m_start it then None else lprev (h c))\<rparr>)
   }"

definition list_begin :: "list_state \<Rightarrow> iterator" where
  "list_begin s = mk_iterator (m_head s) None"

definition list_end :: "list_state \<Rightarrow> iterator" where
  "list_end s = mk_iterator (m_head s) (m_head s)"

subsection \<open>Operations\<close>

definition empty_list :: "store \<Rightarrow> list_state" where
  "empty_list h = \<lparr>heap = h, m_head = None, m_tail = None\<rparr>"

definition list_empty :: "list_state \<Rightarrow> bool option" where
  "list_empty s = do {
     zth_assert (m_head s \<noteq> None \<or> m_tail s = None);
     Some (m_head s = None)
   }"

definition list_back :: "list_state \<Rightarrow> addr option" where
  "list_back s = do { e \<leftarrow> list_empty s; zth_assert (\<not> e); m_tail s }"

definition list_front :: "list_state \<Rightarrow> addr option" where
  "list_front s = do { e \<leftarrow> list_empty s; zth_assert (\<not> e); m_head s }"

definition push_back :: "addr \<Rightarrow> list_state \<Rightarrow> (iterator \<times> list_state) option" where
  "push_back elem s = do {
     zth_assert (lprev (heap s elem) = None);
     zth_assert (lnext (heap s elem) = None);
     let h = set_user elem 0 (heap s);
     case m_tail s of
       None \<Rightarrow> do {
         zth_assert (m_head s = None);
         let h = set_prev elem (Some elem) (set_next elem (Some elem) h);
         let s' = s\<lparr>heap := h, m_head := Some elem, m_tail := Some elem\<rparr>;
         Some (list_begin s', s')
       }
     | Some t \<Rightarrow> do {
         let h = set_next elem (lnext (h t)) h;
         let h = set_prev elem (Some t) h;
         p \<leftarrow> lprev (h elem);
         let h = set_next p (Some elem) h;
         n \<leftarrow> lnext (h elem);
         let h = set_prev n (Some elem) h;
         let s' = s\<lparr>heap := h, m_tail := Some elem\<rparr>;
         Some (mk_iterator (m_head s') (Some elem), s')
       }
   }"

definition push_front :: "addr \<Rightarrow> list_state \<Rightarrow> (iterator \<times> list_state) option" where
  "push_front elem s = do {
     zth_assert (lprev (heap s elem) = None);
     zth_assert (lnext (heap s elem) = None);
     let h = heap s;
     s' \<leftarrow> (case m_head s of
       None \<Rightarrow> do {
         zth_assert (m_tail s = None);
         let h = set_prev elem (Some elem) (set_next elem (Some elem) h);
         Some (s\<lparr>heap := h, m_head := Some elem, m_tail := Some elem\<rparr>)
       }
     | Some f \<Rightarrow> do {
         let h = set_next elem (Some f) h;
         let h = set_prev elem (lprev (h f)) h;
         n \<leftarrow> lnext (h elem);
         let h = set_prev n (Some elem) h;
         p \<leftarrow> lprev (h elem);
         let h = set_next p (Some elem) h;
         Some (s\<lparr>heap := h, m_head := Some elem\<rparr>)
       });
     let s' = s'\<lparr>heap := set_user elem 0 (heap s')\<rparr>;
     Some (mk_iterator (m_head s') (Some elem), s')
   }"

text \<open>
  The common part of the removals: \<^verbatim>\<open>elem->prev->next = elem->next\<close>,
  \<^verbatim>\<open>elem->next->prev = elem->prev\<close>.
\<close>

definition unlink :: "addr \<Rightarrow> store \<Rightarrow> store option" where
  "unlink elem h = do {
     p \<leftarrow> lprev (h elem);
     let h = set_next p (lnext (h elem)) h;
     n \<leftarrow> lnext (h elem);
     Some (set_prev n (lprev (h elem)) h)
   }"

definition clear_links :: "addr \<Rightarrow> store \<Rightarrow> store" where
  "clear_links elem h = set_prev elem None (set_next elem None h)"

definition pop_back :: "list_state \<Rightarrow> (nat \<times> list_state) option" where
  "pop_back s = do {
     e \<leftarrow> list_empty s;
     zth_assert (\<not> e);
     elem \<leftarrow> m_tail s;
     s' \<leftarrow> (if m_tail s = m_head s then do {
         zth_assert (lprev (heap s elem) = lnext (heap s elem));
         zth_assert (lprev (heap s elem) = Some elem);
         Some (s\<lparr>m_head := None, m_tail := None\<rparr>)
       } else do {
         h \<leftarrow> unlink elem (heap s);
         Some (s\<lparr>m_tail := lprev (heap s elem), heap := h\<rparr>)
       });
     let s' = s'\<lparr>heap := clear_links elem (heap s')\<rparr>;
     Some (luser (heap s' elem), s')
   }"

definition pop_front :: "list_state \<Rightarrow> (nat \<times> list_state) option" where
  "pop_front s = do {
     e \<leftarrow> list_empty s;
     zth_assert (\<not> e);
     elem \<leftarrow> m_head s;
     s' \<leftarrow> (if m_tail s = m_head s then do {
         zth_assert (lprev (heap s elem) = lnext (heap s elem));
         zth_assert (lprev (heap s elem) = Some elem);
         Some (s\<lparr>m_head := None, m_tail := None\<rparr>)
       } else do {
         h \<leftarrow> unlink elem (heap s);
         Some (s\<lparr>m_head := lnext (heap s elem), heap := h\<rparr>)
       });
     let s' = s'\<lparr>heap := clear_links elem (heap s')\<rparr>;
     Some (luser (heap s' elem), s')
   }"

text \<open>\<^verbatim>\<open>clear()\<close> of the checking build: pop until empty.\<close>

partial_function (option) list_clear :: "list_state \<Rightarrow> list_state option" where
  "list_clear s = do {
     e \<leftarrow> list_empty s;
     if e then Some s else do {
       r \<leftarrow> pop_front s;
       list_clear (snd r)
     }
   }"

text \<open>\<^verbatim>\<open>for(iterator it = begin(); it != end(); ++it)\<close> with the bodies of \<^verbatim>\<open>contains\<close> and \<^verbatim>\<open>size\<close>.\<close>

partial_function (option) contains_loop :: "list_state \<Rightarrow> addr \<Rightarrow> iterator \<Rightarrow> bool option" where
  "contains_loop s elem it = do {
     stop \<leftarrow> it_eq it (list_end s);
     if stop then Some False else do {
       p \<leftarrow> it_get False it;
       if p = Some elem then Some True else do {
         it' \<leftarrow> it_next False (heap s) it;
         contains_loop s elem it'
       }
     }
   }"

definition contains :: "list_state \<Rightarrow> addr \<Rightarrow> bool option" where
  "contains s elem = contains_loop s elem (list_begin s)"

partial_function (option) size_loop :: "list_state \<Rightarrow> nat \<Rightarrow> iterator \<Rightarrow> nat option" where
  "size_loop s res it = do {
     stop \<leftarrow> it_eq it (list_end s);
     if stop then Some res else do {
       it' \<leftarrow> it_next False (heap s) it;
       size_loop s (Suc res) it'
     }
   }"

definition list_size :: "list_state \<Rightarrow> nat option" where
  "list_size s = size_loop s 0 (list_begin s)"

definition erase_elem :: "addr \<Rightarrow> list_state \<Rightarrow> (nat \<times> list_state) option" where
  "erase_elem elem s = do {
     c \<leftarrow> contains s elem;
     zth_assert c;
     if m_head s = Some elem then pop_front s
     else if m_tail s = Some elem then pop_back s
     else do {
       h \<leftarrow> unlink elem (heap s);
       let h = clear_links elem h;
       Some (luser (h elem), s\<lparr>heap := h\<rparr>)
     }
   }"

definition erase_it :: "iterator \<Rightarrow> list_state \<Rightarrow> (iterator \<times> list_state) option" where
  "erase_it pos s = do {
     zth_assert (\<not> atEnd pos);
     p \<leftarrow> it_get False pos;
     elem \<leftarrow> p;
     if atBegin pos then do {
       r \<leftarrow> erase_elem elem s;
       Some (list_begin (snd r), snd r)
     } else if p = m_tail s then do {
       r \<leftarrow> erase_elem elem s;
       Some (list_end (snd r), snd r)
     } else do {
       let nx = lnext (heap s elem);
       r \<leftarrow> erase_elem elem s;
       Some (mk_iterator (m_head (snd r)) nx, snd r)
     }
   }"

definition list_insert :: "iterator \<Rightarrow> addr \<Rightarrow> list_state \<Rightarrow> (iterator \<times> list_state) option" where
  "list_insert pos elem s =
     (if atEnd pos then do {
        r \<leftarrow> push_back elem s;
        Some (mk_iterator (m_head (snd r)) (Some elem), snd r)
      } else if atBegin pos then do {
        r \<leftarrow> push_front elem s;
        Some (list_begin (snd r), snd r)
      } else do {
        p \<leftarrow> it_get False pos;
        before \<leftarrow> p;
        let h = set_next elem (Some before) (heap s);
        let h = set_prev elem (lprev (h before)) h;
        q \<leftarrow> lprev (h elem);
        let h = set_next q (Some elem) h;
        let h = set_prev before (Some elem) h;
        let h = set_user elem 0 h;
        Some (mk_iterator (m_head s) (Some elem), s\<lparr>heap := h\<rparr>)
      })"

definition list_rotate :: "addr \<Rightarrow> list_state \<Rightarrow> list_state option" where
  "list_rotate elem s = do {
     c \<leftarrow> contains s elem;
     zth_assert c;
     Some (s\<lparr>m_head := Some elem, m_tail := lprev (heap s elem)\<rparr>)
   }"

definition list_cyclic :: "addr \<Rightarrow> list_state \<Rightarrow> iterator option" where
  "list_cyclic start s = do {
     c \<leftarrow> contains s start;
     zth_assert c;
     Some (mk_iterator (Some start) None)
   }"

text \<open>
  The rotation the scheduler makes, \<^verbatim>\<open>q.rotate(*++q.cyclic(elem))\<close>: to the element after
  \<open>elem\<close>.
\<close>

definition list_rotate_next :: "addr \<Rightarrow> list_state \<Rightarrow> list_state option" where
  "list_rotate_next elem s = do {
     it \<leftarrow> list_cyclic elem s;
     it \<leftarrow> it_next True (heap s) it;
     p \<leftarrow> it_get True it;
     e \<leftarrow> p;
     list_rotate e s
   }"

lemmas list_defs =
  list_empty_def list_back_def list_front_def push_back_def push_front_def pop_back_def
  pop_front_def erase_elem_def erase_it_def list_insert_def list_rotate_def list_cyclic_def
  unlink_def clear_links_def set_next_def set_prev_def set_user_def

declare list_defs [list_ops]

subsection \<open>Abstraction\<close>

definition link :: "store \<Rightarrow> addr \<Rightarrow> addr \<Rightarrow> bool" where
  "link h x y \<longleftrightarrow> lnext (h x) = Some y \<and> lprev (h y) = Some x"

fun chain :: "store \<Rightarrow> addr list \<Rightarrow> bool" where
  "chain h (x # y # ys) \<longleftrightarrow> link h x y \<and> chain h (y # ys)"
| "chain h _ \<longleftrightarrow> True"

definition cyc :: "store \<Rightarrow> addr list \<Rightarrow> bool" where
  "cyc h xs \<longleftrightarrow> xs = [] \<or> chain h (xs @ [hd xs])"

definition detached :: "store \<Rightarrow> addr \<Rightarrow> bool" where
  "detached h e \<longleftrightarrow> lprev (h e) = None \<and> lnext (h e) = None"

definition list_rep :: "list_state \<Rightarrow> addr list \<Rightarrow> bool" where
  "list_rep s xs \<longleftrightarrow>
     distinct xs \<and> cyc (heap s) xs
     \<and> m_head s = (if xs = [] then None else Some (hd xs))
     \<and> m_tail s = (if xs = [] then None else Some (last xs))"

lemma chain_append: "chain h (xs @ y # ys) \<longleftrightarrow> chain h (xs @ [y]) \<and> chain h (y # ys)"
proof (induction xs)
  case (Cons x xs)
  then show ?case by (cases xs) auto
qed simp

lemma chain_snoc2: "chain h (xs @ [x, y]) \<longleftrightarrow> chain h (xs @ [x]) \<and> link h x y"
  using chain_append[of h xs x "[y]"] by simp

lemma chain_Cons: "ys \<noteq> [] \<Longrightarrow> chain h (x # ys) \<longleftrightarrow> link h x (hd ys) \<and> chain h ys"
  by (cases ys) auto

lemma chain_snoc: "xs \<noteq> [] \<Longrightarrow> chain h (xs @ [y]) \<longleftrightarrow> chain h xs \<and> link h (last xs) y"
  by (cases xs rule: rev_cases) (auto simp: chain_snoc2)

lemma chain_cong:
  assumes "\<And>x. x \<in> set (butlast xs) \<Longrightarrow> lnext (h' x) = lnext (h x)"
    and "\<And>x. x \<in> set (tl xs) \<Longrightarrow> lprev (h' x) = lprev (h x)"
  shows "chain h' xs = chain h xs"
  using assms
proof (induction h xs rule: chain.induct)
  case (1 h x y ys)
  have "chain h' (y # ys) = chain h (y # ys)"
  proof (rule "1.IH")
    show "\<And>z. z \<in> set (butlast (y # ys)) \<Longrightarrow> lnext (h' z) = lnext (h z)"
      using "1.prems"(1) by simp
    show "\<And>z. z \<in> set (tl (y # ys)) \<Longrightarrow> lprev (h' z) = lprev (h z)"
      using "1.prems"(2) by simp
  qed
  moreover have "link h' x y = link h x y"
    using "1.prems" by (simp add: link_def)
  ultimately show ?case by simp
qed simp_all

lemma cyc_iff: "cyc h xs \<longleftrightarrow> xs = [] \<or> chain h xs \<and> link h (last xs) (hd xs)"
  by (cases "xs = []") (simp_all add: cyc_def chain_snoc)

lemma chain_join:
  assumes "ys \<noteq> []"
  shows "chain h (xs @ ys) \<longleftrightarrow> chain h (xs @ [hd ys]) \<and> chain h ys"
  using assms chain_append[of h xs "hd ys" "tl ys"] by simp

lemma cyc_rotate: "cyc h (xs @ ys) = cyc h (ys @ xs)"
proof (cases "xs = [] \<or> ys = []")
  case False
  then have "cyc h (xs @ ys) \<longleftrightarrow> chain h (xs @ [hd ys]) \<and> chain h (ys @ [hd xs])"
    using chain_join[of "ys @ [hd xs]" h xs] by (simp add: cyc_def)
  moreover from False have "cyc h (ys @ xs) \<longleftrightarrow> chain h (ys @ [hd xs]) \<and> chain h (xs @ [hd ys])"
    using chain_join[of "xs @ [hd ys]" h ys] by (simp add: cyc_def)
  ultimately show ?thesis by blast
qed auto

lemma cyc_Cons_snoc: "cyc h (x # xs) = cyc h (xs @ [x])"
  using cyc_rotate[of h "[x]" xs] by simp

lemma hd_notin_tl: "distinct xs \<Longrightarrow> xs \<noteq> [] \<Longrightarrow> hd xs \<notin> set (tl xs)"
  by (cases xs) auto

lemma last_notin_butlast: "distinct xs \<Longrightarrow> xs \<noteq> [] \<Longrightarrow> last xs \<notin> set (butlast xs)"
  by (cases xs rule: rev_cases) auto

lemma butlast_in: "x \<in> set (butlast xs) \<Longrightarrow> x \<in> set xs"
  by (rule in_set_butlastD)

lemma tl_in: "x \<in> set (tl xs) \<Longrightarrow> x \<in> set xs"
  by (cases xs) auto

text \<open>
  Inserting an element into a cycle, and taking one out: the two facts behind all operations.
\<close>

lemma cyc_link_in:
  assumes "cyc h xs" "xs \<noteq> []" "distinct xs" "e \<notin> set xs"
    and next_e: "lnext (h' e) = Some (hd xs)" and prev_e: "lprev (h' e) = Some (last xs)"
    and next_t: "lnext (h' (last xs)) = Some e" and prev_h: "lprev (h' (hd xs)) = Some e"
    and next_o: "\<And>x. x \<in> set xs \<Longrightarrow> x \<noteq> last xs \<Longrightarrow> lnext (h' x) = lnext (h x)"
    and prev_o: "\<And>x. x \<in> set xs \<Longrightarrow> x \<noteq> hd xs \<Longrightarrow> lprev (h' x) = lprev (h x)"
  shows "cyc h' (e # xs)" "cyc h' (xs @ [e])"
proof -
  have "chain h' xs = chain h xs"
  proof (rule chain_cong)
    fix x assume "x \<in> set (butlast xs)"
    with last_notin_butlast[OF assms(3,2)] show "lnext (h' x) = lnext (h x)"
      by (intro next_o) (auto dest: butlast_in)
  next
    fix x assume "x \<in> set (tl xs)"
    with hd_notin_tl[OF assms(3,2)] show "lprev (h' x) = lprev (h x)"
      by (intro prev_o) (auto dest: tl_in)
  qed
  then have "chain h' xs" using assms(1,2) by (simp add: cyc_iff)
  then show "cyc h' (e # xs)"
    using assms(2) next_e prev_e next_t prev_h by (simp add: cyc_iff chain_Cons link_def)
  then show "cyc h' (xs @ [e])" by (simp add: cyc_Cons_snoc)
qed

lemma cyc_unlink:
  assumes "cyc h (e # xs)" "xs \<noteq> []" "distinct (e # xs)"
    and next_t: "lnext (h' (last xs)) = Some (hd xs)" and prev_h: "lprev (h' (hd xs)) = Some (last xs)"
    and next_o: "\<And>x. x \<in> set xs \<Longrightarrow> x \<noteq> last xs \<Longrightarrow> lnext (h' x) = lnext (h x)"
    and prev_o: "\<And>x. x \<in> set xs \<Longrightarrow> x \<noteq> hd xs \<Longrightarrow> lprev (h' x) = lprev (h x)"
  shows "cyc h' xs"
proof -
  have d: "distinct xs" using assms(3) by simp
  have "chain h' xs = chain h xs"
  proof (rule chain_cong)
    fix x assume "x \<in> set (butlast xs)"
    with last_notin_butlast[OF d assms(2)] show "lnext (h' x) = lnext (h x)"
      by (intro next_o) (auto dest: butlast_in)
  next
    fix x assume "x \<in> set (tl xs)"
    with hd_notin_tl[OF d assms(2)] show "lprev (h' x) = lprev (h x)"
      by (intro prev_o) (auto dest: tl_in)
  qed
  then have "chain h' xs" using assms(1,2) by (simp add: cyc_iff chain_Cons)
  then show ?thesis
    using assms(2) next_t prev_h by (simp add: cyc_iff link_def)
qed

lemma cyc_neighbours:
  assumes "cyc h (e # xs)" "xs \<noteq> []"
  shows "lnext (h e) = Some (hd xs)" "lprev (h e) = Some (last xs)"
  using assms by (simp_all add: cyc_iff chain_Cons link_def)

lemma cyc_single: "cyc h [e] \<longleftrightarrow> lnext (h e) = Some e \<and> lprev (h e) = Some e"
  by (simp add: cyc_def link_def)

subsection \<open>Each operation refines the operation on the abstract list\<close>

lemma store_sels [simp]:
  "lnext (set_next a p h x) = (if x = a then p else lnext (h x))"
  "lprev (set_next a p h x) = lprev (h x)"
  "luser (set_next a p h x) = luser (h x)"
  "lnext (set_prev a p h x) = lnext (h x)"
  "lprev (set_prev a p h x) = (if x = a then p else lprev (h x))"
  "luser (set_prev a p h x) = luser (h x)"
  "lnext (set_user a u h x) = lnext (h x)"
  "lprev (set_user a u h x) = lprev (h x)"
  "luser (set_user a u h x) = (if x = a then u else luser (h x))"
  by (simp_all add: set_next_def set_prev_def set_user_def)

lemma store_frame [simp]:
  "x \<noteq> a \<Longrightarrow> set_next a p h x = h x"
  "x \<noteq> a \<Longrightarrow> set_prev a p h x = h x"
  "x \<noteq> a \<Longrightarrow> set_user a u h x = h x"
  by (simp_all add: set_next_def set_prev_def set_user_def)

lemma chain_linked:
  "chain h xs \<Longrightarrow> x \<in> set (butlast xs) \<Longrightarrow> lnext (h x) \<noteq> None"
  by (induction h xs rule: chain.induct) (auto simp: link_def split: if_splits)

lemma cyc_linked: "cyc h xs \<Longrightarrow> x \<in> set xs \<Longrightarrow> lnext (h x) \<noteq> None"
  using chain_linked[of h "xs @ [hd xs]" x] by (auto simp: cyc_def butlast_append)

lemma detached_notin: "list_rep s xs \<Longrightarrow> detached (heap s) e \<Longrightarrow> e \<notin> set xs"
  by (auto simp: list_rep_def detached_def dest: cyc_linked)

lemma list_rep_empty [simp]: "list_rep s [] \<longleftrightarrow> m_head s = None \<and> m_tail s = None"
  by (auto simp: list_rep_def cyc_def)

lemma list_rep_head: "list_rep s (x # xs) \<Longrightarrow> m_head s = Some x"
  by (simp add: list_rep_def)

lemma list_empty_rep: "list_rep s xs \<Longrightarrow> list_empty s = Some (xs = [])"
  by (auto simp: list_rep_def list_empty_def)

lemma list_front_rep: "list_rep s xs \<Longrightarrow> xs \<noteq> [] \<Longrightarrow> list_front s = Some (hd xs)"
  by (simp add: list_front_def list_empty_rep) (simp add: list_rep_def)

lemma list_back_rep: "list_rep s xs \<Longrightarrow> xs \<noteq> [] \<Longrightarrow> list_back s = Some (last xs)"
  by (simp add: list_back_def list_empty_rep) (simp add: list_rep_def)

definition frame :: "addr set \<Rightarrow> store \<Rightarrow> store \<Rightarrow> bool" where
  "frame A h h' \<longleftrightarrow> (\<forall>a. a \<notin> A \<longrightarrow> h' a = h a)"

lemma frame_refl [simp]: "frame A h h"
  by (simp add: frame_def)

lemma frame_set [simp]:
  "a \<in> A \<Longrightarrow> frame A h (set_next a p h') = frame A h h'"
  "a \<in> A \<Longrightarrow> frame A h (set_prev a p h') = frame A h h'"
  "a \<in> A \<Longrightarrow> frame A h (set_user a u h') = frame A h h'"
  by (auto simp: frame_def set_next_def set_prev_def set_user_def)

lemma push_back_rep:
  assumes "list_rep s xs" "detached (heap s) e"
  shows "\<exists>it s'. push_back e s = Some (it, s') \<and> list_rep s' (xs @ [e])
    \<and> luser (heap s' e) = 0 \<and> frame (insert e (set xs)) (heap s) (heap s')"
proof (cases "xs = []")
  case True
  then show ?thesis
    using assms by (simp add: push_back_def detached_def list_rep_def cyc_single Let_def)
next
  case False
  let ?h = "heap s" and ?t = "last xs" and ?f = "hd xs"
  have e: "e \<notin> set xs" using assms by (rule detached_notin)
  have t: "?t \<in> set xs" "?f \<in> set xs" using False by simp_all
  have ne: "?t \<noteq> e" "?f \<noteq> e" using t e by auto
  have rep: "distinct xs" "cyc ?h xs" "m_head s = Some ?f" "m_tail s = Some ?t"
    using assms(1) False by (simp_all add: list_rep_def)
  have nt: "lnext (?h ?t) = Some ?f"
    using rep(2) False by (simp add: cyc_iff link_def)
  let ?h' = "set_prev ?f (Some e) (set_next ?t (Some e) (set_prev e (Some ?t)
      (set_next e (Some ?f) (set_user e 0 ?h))))"
  have "push_back e s = Some (mk_iterator (m_head s) (Some e), s\<lparr>heap := ?h', m_tail := Some e\<rparr>)"
    using assms(2) rep nt ne by (simp add: push_back_def detached_def)
  moreover have "cyc ?h' (xs @ [e])"
    by (rule cyc_link_in(2)[OF rep(2) False rep(1) e]) (use ne e in auto)
  moreover have "frame (insert e (set xs)) ?h ?h'"
    using t by simp
  ultimately show ?thesis
    using rep e ne False by (auto simp: list_rep_def)
qed

lemma push_front_rep:
  assumes "list_rep s xs" "detached (heap s) e"
  shows "\<exists>s'. push_front e s = Some (mk_iterator (Some e) (Some e), s') \<and> list_rep s' (e # xs)
    \<and> luser (heap s' e) = 0 \<and> frame (insert e (set xs)) (heap s) (heap s')"
proof (cases "xs = []")
  case True
  then show ?thesis
    using assms by (simp add: push_front_def detached_def list_rep_def cyc_single Let_def)
next
  case False
  let ?h = "heap s" and ?t = "last xs" and ?f = "hd xs"
  have e: "e \<notin> set xs" using assms by (rule detached_notin)
  have t: "?t \<in> set xs" "?f \<in> set xs" using False by simp_all
  have ne: "?t \<noteq> e" "?f \<noteq> e" using t e by auto
  have rep: "distinct xs" "cyc ?h xs" "m_head s = Some ?f" "m_tail s = Some ?t"
    using assms(1) False by (simp_all add: list_rep_def)
  have pf: "lprev (?h ?f) = Some ?t"
    using rep(2) False by (simp add: cyc_iff link_def)
  let ?h' = "set_user e 0 (set_next ?t (Some e) (set_prev ?f (Some e) (set_prev e (Some ?t)
      (set_next e (Some ?f) ?h))))"
  have "push_front e s
      = Some (mk_iterator (Some e) (Some e), s\<lparr>heap := ?h', m_head := Some e\<rparr>)"
    using assms(2) rep pf ne by (simp add: push_front_def detached_def)
  moreover have "cyc ?h' (e # xs)"
    by (rule cyc_link_in(1)[OF rep(2) False rep(1) e]) (use ne e in auto)
  moreover have "frame (insert e (set xs)) ?h ?h'"
    using t by simp
  ultimately show ?thesis
    using rep e ne False by (auto simp: list_rep_def)
qed

lemma unlink_rep:
  assumes "cyc h (e # xs)" "distinct (e # xs)" "xs \<noteq> []"
  shows "\<exists>h'. unlink e h = Some h' \<and> cyc (clear_links e h') xs \<and> detached (clear_links e h') e
    \<and> luser (h' e) = luser (h e) \<and> frame (insert e (set xs)) h (clear_links e h')"
proof -
  have nb: "lnext (h e) = Some (hd xs)" "lprev (h e) = Some (last xs)"
    using assms by (simp_all add: cyc_neighbours)
  have ne: "last xs \<noteq> e" "hd xs \<noteq> e"
    using assms last_in_set[of xs] hd_in_set[of xs] by (metis distinct.simps(2))+
  let ?h' = "set_prev (hd xs) (Some (last xs)) (set_next (last xs) (Some (hd xs)) h)"
  have "unlink e h = Some ?h'"
    using nb ne by (simp add: unlink_def)
  moreover have "cyc (clear_links e ?h') xs"
    by (rule cyc_unlink[OF assms(1,3,2)])
      (use assms(2) ne in \<open>auto simp: clear_links_def\<close>)
  moreover have "frame (insert e (set xs)) h (clear_links e ?h')"
    using assms(3) by (simp add: clear_links_def)
  ultimately show ?thesis
    using ne by (simp add: detached_def clear_links_def)
qed

lemma pop_front_rep:
  assumes "list_rep s (x # xs)"
  shows "\<exists>s'. pop_front s = Some (luser (heap s x), s') \<and> list_rep s' xs \<and> detached (heap s') x
    \<and> frame (set (x # xs)) (heap s) (heap s')"
proof (cases "xs = []")
  case True
  with assms have "m_head s = Some x" "m_tail s = Some x" "cyc (heap s) [x]"
    by (simp_all add: list_rep_def)
  with True show ?thesis
    by (simp add: pop_front_def list_empty_def cyc_single detached_def clear_links_def)
next
  case False
  have rep: "cyc (heap s) (x # xs)" "distinct (x # xs)" "m_head s = Some x" "m_tail s = Some (last xs)"
    using assms False by (simp_all add: list_rep_def)
  obtain h' where h': "unlink x (heap s) = Some h'" "cyc (clear_links x h') xs"
    "detached (clear_links x h') x" "luser (h' x) = luser (heap s x)"
    "frame (insert x (set xs)) (heap s) (clear_links x h')"
    using unlink_rep[OF rep(1,2) False] by blast
  have "last xs \<noteq> x" using rep(2) False last_in_set[of xs] by auto
  moreover have "lnext (heap s x) = Some (hd xs)"
    using rep(1) False by (simp add: cyc_neighbours)
  ultimately show ?thesis
    using rep h' False by (simp add: pop_front_def list_empty_def list_rep_def clear_links_def)
qed

lemma pop_back_rep:
  assumes "list_rep s (xs @ [x])"
  shows "\<exists>s'. pop_back s = Some (luser (heap s x), s') \<and> list_rep s' xs \<and> detached (heap s') x
    \<and> frame (set (xs @ [x])) (heap s) (heap s')"
proof (cases "xs = []")
  case True
  with assms have "m_head s = Some x" "m_tail s = Some x" "cyc (heap s) [x]"
    by (simp_all add: list_rep_def)
  with True show ?thesis
    by (simp add: pop_back_def list_empty_def cyc_single detached_def clear_links_def)
next
  case False
  have rep: "cyc (heap s) (x # xs)" "distinct (x # xs)" "m_head s = Some (hd xs)" "m_tail s = Some x"
    using assms False by (auto simp: list_rep_def cyc_Cons_snoc)
  obtain h' where h': "unlink x (heap s) = Some h'" "cyc (clear_links x h') xs"
    "detached (clear_links x h') x" "luser (h' x) = luser (heap s x)"
    "frame (insert x (set xs)) (heap s) (clear_links x h')"
    using unlink_rep[OF rep(1,2) False] by blast
  have "hd xs \<noteq> x" using rep(2) False hd_in_set[of xs] by auto
  moreover have "lprev (heap s x) = Some (last xs)"
    using rep(1) False by (simp add: cyc_neighbours)
  ultimately show ?thesis
    using rep h' False by (simp add: pop_back_def list_empty_def list_rep_def clear_links_def)
qed

subsection \<open>The loops over iterators\<close>

text \<open>The iterator at position \<open>i\<close> of \<open>xs\<close>, in the encoding the code uses.\<close>

definition it_at :: "addr list \<Rightarrow> nat \<Rightarrow> iterator" where
  "it_at xs i = mk_iterator (Some (hd xs))
     (if i = 0 then None else if i < length xs then Some (xs ! i) else Some (hd xs))"

lemma chain_nth: "chain h xs \<Longrightarrow> Suc i < length xs \<Longrightarrow> lnext (h (xs ! i)) = Some (xs ! Suc i)"
proof (induction h xs arbitrary: i rule: chain.induct)
  case (1 h x y ys)
  then show ?case by (cases i) (auto simp: link_def)
qed simp_all

lemma cyc_nth:
  assumes "cyc h xs" "i < length xs"
  shows "lnext (h (xs ! i)) = Some (if Suc i < length xs then xs ! Suc i else hd xs)"
proof -
  have "chain h (xs @ [hd xs])" using assms by (auto simp: cyc_def)
  from chain_nth[OF this, of i] assms show ?thesis
    by (auto simp: nth_append less_Suc_eq_le)
qed

lemma hd_eq_nth_iff:
  assumes "distinct xs" "i < length xs"
  shows "xs ! i = hd xs \<longleftrightarrow> i = 0"
  using assms nth_eq_iff_index_eq[of xs i 0] by (cases xs) auto

lemma atEnd_list_end [simp]: "atEnd (list_end s)"
  by (simp add: atEnd_def list_end_def mk_iterator_def)

lemma it_at_ops:
  assumes "list_rep s xs" "xs \<noteq> []"
  shows "i \<le> length xs \<Longrightarrow> it_eq (it_at xs i) (list_end s) = Some (i = length xs)"
    and "i < length xs \<Longrightarrow> it_get False (it_at xs i) = Some (Some (xs ! i))"
    and "i < length xs \<Longrightarrow> it_next False (heap s) (it_at xs i) = Some (it_at xs (Suc i))"
    and "list_begin s = it_at xs 0"
proof -
  have d: "distinct xs" and c: "cyc (heap s) xs" and h: "m_head s = Some (hd xs)"
    using assms by (simp_all add: list_rep_def)
  have e: "atEnd (it_at xs i) \<longleftrightarrow> i = length xs" if "i \<le> length xs" for i
    using that assms(2) d hd_eq_nth_iff[of xs i] by (auto simp: atEnd_def it_at_def mk_iterator_def)
  then show "i \<le> length xs \<Longrightarrow> it_eq (it_at xs i) (list_end s) = Some (i = length xs)"
    by (simp add: it_eq_def atEnd_list_end)
  have b: "atBegin (it_at xs i) \<longleftrightarrow> i = 0" for i
    by (simp add: atBegin_def it_at_def mk_iterator_def)
  then show "i < length xs \<Longrightarrow> it_get False (it_at xs i) = Some (Some (xs ! i))"
    using e[of i] assms(2) by (auto simp: it_get_def it_at_def mk_iterator_def hd_conv_nth)
  show "i < length xs \<Longrightarrow> it_next False (heap s) (it_at xs i) = Some (it_at xs (Suc i))"
    using e[of i] b[of i] assms(2) cyc_nth[OF c, of i]
    by (auto simp: it_next_def it_at_def mk_iterator_def hd_conv_nth)
  show "list_begin s = it_at xs 0"
    using h by (simp add: list_begin_def it_at_def)
qed

lemma contains_loop_rep:
  assumes "list_rep s xs" "xs \<noteq> []" "i \<le> length xs"
  shows "contains_loop s e (it_at xs i) = Some (e \<in> set (drop i xs))"
  using assms(3)
proof (induction "length xs - i" arbitrary: i)
  case 0
  then show ?case
    using it_at_ops[OF assms(1,2)] by (subst contains_loop.simps) simp
next
  case (Suc n)
  then have i: "i < length xs" by simp
  have "drop i xs = xs ! i # drop (Suc i) xs"
    using i by (simp add: Cons_nth_drop_Suc)
  moreover have "contains_loop s e (it_at xs (Suc i)) = Some (e \<in> set (drop (Suc i) xs))"
    using Suc i by (intro Suc.hyps) simp_all
  ultimately show ?case
    using i it_at_ops[OF assms(1,2)] by (subst contains_loop.simps) auto
qed

lemma size_loop_rep:
  assumes "list_rep s xs" "xs \<noteq> []" "i \<le> length xs"
  shows "size_loop s r (it_at xs i) = Some (r + (length xs - i))"
  using assms(3)
proof (induction "length xs - i" arbitrary: i r)
  case 0
  then show ?case
    using it_at_ops[OF assms(1,2)] by (subst size_loop.simps) simp
next
  case (Suc n)
  then have i: "i < length xs" by simp
  have "size_loop s (Suc r) (it_at xs (Suc i)) = Some (Suc r + (length xs - Suc i))"
    using Suc i by (intro Suc.hyps) simp_all
  then show ?case
    using i it_at_ops[OF assms(1,2)] by (subst size_loop.simps) simp
qed

lemma begin_empty: "list_rep s [] \<Longrightarrow> it_eq (list_begin s) (list_end s) = Some True"
  by (simp add: it_eq_def atEnd_def list_begin_def list_end_def mk_iterator_def)

lemma contains_rep: "list_rep s xs \<Longrightarrow> contains s e = Some (e \<in> set xs)"
proof (cases "xs = []")
  case True
  assume "list_rep s xs"
  with True show ?thesis
    using begin_empty[of s] unfolding contains_def by (subst contains_loop.simps) simp
next
  case False
  assume "list_rep s xs"
  with False contains_loop_rep[of s xs 0 e] it_at_ops(4)[of s xs] show ?thesis
    by (simp add: contains_def)
qed

lemma list_size_rep: "list_rep s xs \<Longrightarrow> list_size s = Some (length xs)"
proof (cases "xs = []")
  case True
  assume "list_rep s xs"
  with True show ?thesis
    using begin_empty[of s] unfolding list_size_def by (subst size_loop.simps) simp
next
  case False
  assume "list_rep s xs"
  with False size_loop_rep[of s xs 0 0] it_at_ops(4)[of s xs] show ?thesis
    by (simp add: list_size_def)
qed

subsection \<open>Removal, insertion and rotation at any position\<close>

lemma erase_elem_rep:
  assumes "list_rep s xs" "e \<in> set xs"
  shows "\<exists>s'. erase_elem e s = Some (luser (heap s e), s') \<and> list_rep s' (remove1 e xs)
    \<and> detached (heap s') e \<and> frame (set xs) (heap s) (heap s')"
proof -
  obtain as bs where xs: "xs = as @ e # bs" "e \<notin> set as"
    using assms(2) by (rule in_set_splitE)
  have c: "contains s e = Some True" using assms contains_rep by simp
  have r: "remove1 e xs = as @ bs" using xs by (simp add: remove1_split)
  have d: "distinct xs" "m_head s = Some (hd xs)" "m_tail s = Some (last xs)" "cyc (heap s) xs"
    using assms by (auto simp: list_rep_def)
  show ?thesis
  proof (cases as)
    case Nil
    with assms(1) c d(2) xs r pop_front_rep[of s e bs] show ?thesis
      by (auto simp: erase_elem_def)
  next
    case (Cons a as')
    then have h: "m_head s \<noteq> Some e" using d(2) xs by auto
    show ?thesis
    proof (cases "bs = []")
      case True
      with assms(1) c d(3) h xs r pop_back_rep[of s as e] show ?thesis
        by (auto simp: erase_elem_def)
    next
      case False
      have t: "m_tail s \<noteq> Some e" using d xs False last_in_set[of bs] by auto
      have cy: "cyc (heap s) (e # bs @ as)"
        using d(4) xs cyc_rotate[of "heap s" as "e # bs"] by simp
      have di: "distinct (e # bs @ as)" using d(1) xs by auto
      obtain h' where h': "unlink e (heap s) = Some h'" "cyc (clear_links e h') (bs @ as)"
        "detached (clear_links e h') e" "luser (h' e) = luser (heap s e)"
        "frame (insert e (set (bs @ as))) (heap s) (clear_links e h')"
        using unlink_rep[OF cy di] Cons by blast
      have "insert e (set (bs @ as)) = set xs" using xs by auto
      moreover have "cyc (clear_links e h') (as @ bs)" using h'(2) cyc_rotate by blast
      ultimately show ?thesis
        using c h t h' d xs r Cons False di
        by (auto simp: erase_elem_def list_rep_def clear_links_def Un_commute)
    qed
  qed
qed

lemma erase_elem_absent: "list_rep s xs \<Longrightarrow> e \<notin> set xs \<Longrightarrow> erase_elem e s = None"
  by (simp add: erase_elem_def contains_rep zth_assert_def)

lemma list_rotate_rep:
  assumes "list_rep s xs" "e \<in> set xs"
  shows "\<exists>s'. list_rotate e s = Some s' \<and> list_rep s' (rotate_to e xs) \<and> heap s' = heap s"
proof -
  obtain as bs where xs: "xs = as @ e # bs" "e \<notin> set as"
    using assms(2) by (rule in_set_splitE)
  have rot: "rotate_to e xs = e # bs @ as" using xs by (simp add: rotate_to_append)
  have cy: "cyc (heap s) (e # bs @ as)"
    using assms xs cyc_rotate[of "heap s" as "e # bs"] by (simp add: list_rep_def)
  have "lprev (heap s e) = Some (last (e # bs @ as))"
    using cy cyc_neighbours(2)[OF cy] by (cases "bs @ as = []") (auto simp: cyc_single)
  then have "list_rotate e s = Some (s\<lparr>m_head := Some e, m_tail := Some (last (e # bs @ as))\<rparr>)"
    using assms by (simp add: list_rotate_def contains_rep)
  moreover have "list_rep (s\<lparr>m_head := Some e, m_tail := Some (last (e # bs @ as))\<rparr>) (e # bs @ as)"
    using cy assms(1) xs by (auto simp: list_rep_def)
  ultimately show ?thesis using rot by auto
qed

lemma list_rotate_next_rep:
  assumes "list_rep s xs" "e \<in> set xs"
  shows "\<exists>s'. list_rotate_next e s = Some s' \<and> list_rep s' (rotate_past e xs) \<and> heap s' = heap s"
proof -
  obtain as bs where xs: "xs = as @ e # bs" "e \<notin> set as"
    using assms(2) by (rule in_set_splitE)
  have d: "distinct xs" using assms(1) by (simp add: list_rep_def)
  have cy: "cyc (heap s) (e # bs @ as)"
    using assms xs cyc_rotate[of "heap s" as "e # bs"] by (simp add: list_rep_def)
  let ?n = "hd (bs @ as @ [e])"
  have nx: "lnext (heap s e) = Some ?n"
    using cy cyc_neighbours(1)[OF cy] by (cases "bs @ as = []") (auto simp: cyc_single hd_append)
  have n: "?n \<in> set xs" using xs by (cases bs; cases as) auto
  have "rotate_to ?n xs = rotate_past e xs"
  proof (cases bs)
    case Nil
    then show ?thesis using xs d rotate_past_append[of e as "[]"]
      by (cases as) (simp_all add: rotate_to_def)
  next
    case (Cons b bs')
    then show ?thesis
      using xs d rotate_to_append[of b "as @ [e]" bs'] by (simp add: rotate_past_append)
  qed
  moreover have "list_rotate_next e s = list_rotate ?n s"
    using assms nx contains_rep[OF assms(1), of e]
    by (simp add: list_rotate_next_def list_cyclic_def it_next_def it_get_def atBegin_def mk_iterator_def)
  ultimately show ?thesis using list_rotate_rep[OF assms(1) n] by simp
qed

lemma list_insert_middle_rep:
  assumes "list_rep s (as @ b # bs)" "as \<noteq> []" "e \<notin> set (as @ b # bs)"
  shows "\<exists>s'. list_insert (it_at (as @ b # bs) (length as)) e s = Some (mk_iterator (m_head s') (Some e), s')
    \<and> list_rep s' (as @ e # b # bs) \<and> frame (insert e (set (as @ b # bs))) (heap s) (heap s')"
proof -
  let ?xs = "as @ b # bs" and ?it = "it_at (as @ b # bs) (length as)"
  have rep: "distinct ?xs" "cyc (heap s) ?xs" "m_head s = Some (hd as)" "m_tail s = Some (last (b # bs))"
    using assms by (simp_all add: list_rep_def)
  have it: "?it = mk_iterator (Some (hd as)) (Some b)"
    using assms(2) by (simp add: it_at_def)
  have "hd as \<noteq> b" using rep(1) assms(2) hd_in_set[of as] by auto
  then have pos: "\<not> atEnd ?it" "\<not> atBegin ?it" "it_get False ?it = Some (Some b)"
    by (simp_all add: it atEnd_def atBegin_def it_get_def mk_iterator_def)
  let ?ys = "b # bs @ as"
  have cy: "cyc (heap s) ?ys" "distinct ?ys" using rep cyc_rotate[of "heap s" as "b # bs"] by auto
  have pb: "lprev (heap s b) = Some (last as)"
    using cyc_neighbours(2)[of "heap s" b "bs @ as"] cy assms(2) by simp
  have ne: "last as \<noteq> e" "b \<noteq> e" using assms(2,3) last_in_set[of as] by auto
  let ?h' = "set_user e 0 (set_prev b (Some e) (set_next (last as) (Some e) (set_prev e (Some (last as))
      (set_next e (Some b) (heap s)))))"
  have ins: "list_insert ?it e s = Some (mk_iterator (m_head s) (Some e), s\<lparr>heap := ?h'\<rparr>)"
    using pos pb ne by (simp add: list_insert_def)
  have "cyc ?h' (e # ?ys)"
    by (rule cyc_link_in(1)[OF cy(1) _ cy(2)]) (use assms(2,3) ne in auto)
  then have "cyc ?h' (as @ e # b # bs)"
    using cyc_rotate[of ?h' "e # b # bs" as] by simp
  moreover have "frame (insert e (set ?xs)) (heap s) ?h'"
    using assms(2) by simp
  ultimately show ?thesis
    using ins rep assms(2,3) by (auto simp: list_rep_def)
qed

lemma list_insert_begin_rep:
  assumes "list_rep s xs" "xs \<noteq> []" "detached (heap s) e"
  shows "\<exists>s'. list_insert (list_begin s) e s = Some (list_begin s', s') \<and> list_rep s' (e # xs)
    \<and> frame (insert e (set xs)) (heap s) (heap s')"
proof -
  have "\<not> atEnd (list_begin s)" "atBegin (list_begin s)"
    using assms by (auto simp: list_rep_def list_begin_def atEnd_def atBegin_def mk_iterator_def)
  with push_front_rep[OF assms(1,3)] show ?thesis by (auto simp: list_insert_def)
qed

lemma list_insert_end_rep:
  assumes "list_rep s xs" "detached (heap s) e"
  shows "\<exists>s'. list_insert (list_end s) e s = Some (mk_iterator (m_head s') (Some e), s')
    \<and> list_rep s' (xs @ [e]) \<and> frame (insert e (set xs)) (heap s) (heap s')"
  using push_back_rep[OF assms] by (auto simp: list_insert_def)

lemma list_clear_rep: "list_rep s xs \<Longrightarrow> \<exists>s'. list_clear s = Some s' \<and> list_rep s' []"
proof (induction xs arbitrary: s)
  case Nil
  then show ?case by (subst list_clear.simps) (simp add: list_empty_def)
next
  case (Cons x xs)
  then obtain s' where s': "pop_front s = Some (luser (heap s x), s')" "list_rep s' xs"
    using pop_front_rep by blast
  obtain s'' where "list_clear s' = Some s''" "list_rep s'' []"
    using Cons.IH[OF s'(2)] by blast
  then show ?case
    using s' Cons.prems by (subst list_clear.simps) (simp add: list_empty_rep)
qed

subsection \<open>The contract of a list\<close>

text \<open>
  The operations on the abstract list; \<open>None\<close> where the code asserts: pushing a linked element,
  popping from an empty list, erasing or rotating to an element of no list.
\<close>

definition spec_push_back :: "'a \<Rightarrow> 'a list \<Rightarrow> 'a list option" where
  "spec_push_back e xs = (if e \<in> set xs then None else Some (xs @ [e]))"

definition spec_push_front :: "'a \<Rightarrow> 'a list \<Rightarrow> 'a list option" where
  "spec_push_front e xs = (if e \<in> set xs then None else Some (e # xs))"

definition spec_pop_front :: "'a list \<Rightarrow> 'a list option" where
  "spec_pop_front xs = (if xs = [] then None else Some (tl xs))"

definition spec_pop_back :: "'a list \<Rightarrow> 'a list option" where
  "spec_pop_back xs = (if xs = [] then None else Some (butlast xs))"

definition spec_erase :: "'a \<Rightarrow> 'a list \<Rightarrow> 'a list option" where
  "spec_erase e xs = (if e \<in> set xs then Some (remove1 e xs) else None)"

definition spec_rotate :: "'a \<Rightarrow> 'a list \<Rightarrow> 'a list option" where
  "spec_rotate e xs = (if e \<in> set xs then Some (rotate_to e xs) else None)"

definition spec_rotate_next :: "'a \<Rightarrow> 'a list \<Rightarrow> 'a list option" where
  "spec_rotate_next e xs = (if e \<in> set xs then Some (rotate_past e xs) else None)"

datatype 'a list_call =
    PushBack 'a | PushFront 'a | PopFront | PopBack | Erase 'a | Rotate 'a | RotateNext 'a | Clear

fun spec_call :: "'a list_call \<Rightarrow> 'a list \<Rightarrow> 'a list option" where
  "spec_call (PushBack e) xs = spec_push_back e xs"
| "spec_call (PushFront e) xs = spec_push_front e xs"
| "spec_call PopFront xs = spec_pop_front xs"
| "spec_call PopBack xs = spec_pop_back xs"
| "spec_call (Erase e) xs = spec_erase e xs"
| "spec_call (Rotate e) xs = spec_rotate e xs"
| "spec_call (RotateNext e) xs = spec_rotate_next e xs"
| "spec_call Clear xs = Some []"

text \<open>A sequence of calls, stopped by the first failing assertion.\<close>

fun run_calls :: "('c \<Rightarrow> 's \<Rightarrow> 's option) \<Rightarrow> 'c list \<Rightarrow> 's \<Rightarrow> 's option" where
  "run_calls f [] s = Some s"
| "run_calls f (c # cs) s = f c s \<bind> run_calls f cs"

fun list_call_step :: "addr list_call \<Rightarrow> list_state \<Rightarrow> list_state option" where
  "list_call_step (PushBack e) s = map_option snd (push_back e s)"
| "list_call_step (PushFront e) s = map_option snd (push_front e s)"
| "list_call_step PopFront s = map_option snd (pop_front s)"
| "list_call_step PopBack s = map_option snd (pop_back s)"
| "list_call_step (Erase e) s = map_option snd (erase_elem e s)"
| "list_call_step (Rotate e) s = list_rotate e s"
| "list_call_step (RotateNext e) s = list_rotate_next e s"
| "list_call_step Clear s = list_clear s"

locale list_impl =
  fixes inv :: "'s \<Rightarrow> 'a list \<Rightarrow> bool"
    and call :: "'a list_call \<Rightarrow> 's \<Rightarrow> 's option"
    and member :: "'s \<Rightarrow> 'a \<Rightarrow> bool option"
    and size_of :: "'s \<Rightarrow> nat option"
  assumes call_refines: "inv s xs \<Longrightarrow> rel_option inv (call c s) (spec_call c xs)"
    and member_refines: "inv s xs \<Longrightarrow> member s e = Some (e \<in> set xs)"
    and size_refines: "inv s xs \<Longrightarrow> size_of s = Some (length xs)"
begin

lemma run_refines:
  "inv s xs \<Longrightarrow> rel_option inv (run_calls call cs s) (run_calls spec_call cs xs)"
proof (induction cs arbitrary: s xs)
  case (Cons c cs)
  from call_refines[OF Cons.prems, of c] show ?case
    by (cases rule: option.rel_cases) (auto intro: Cons.IH)
qed simp

lemma run_observe:
  assumes "inv s xs" "run_calls spec_call cs xs = Some ys"
  obtains s' where "run_calls call cs s = Some s'" "inv s' ys"
    "\<And>e. member s' e = Some (e \<in> set ys)" "size_of s' = Some (length ys)"
  using run_refines[OF assms(1), of cs] assms(2) member_refines size_refines
  by (auto simp: option_rel_Some2)

end

text \<open>Every object that is in no list is detached, as its constructor leaves it.\<close>

definition list_inv :: "list_state \<Rightarrow> addr list \<Rightarrow> bool" where
  "list_inv s xs \<longleftrightarrow> list_rep s xs \<and> (\<forall>a. a \<notin> set xs \<longrightarrow> detached (heap s) a)"

lemma list_inv_rep: "list_inv s xs \<Longrightarrow> list_rep s xs"
  by (simp add: list_inv_def)

lemma list_inv_frame:
  assumes "list_inv s xs" "frame A (heap s) (heap s')" "list_rep s' ys" "A \<subseteq> insert e (set xs)"
    "set xs \<subseteq> insert e (set ys)" "e \<notin> set ys \<Longrightarrow> detached (heap s') e"
  shows "list_inv s' ys"
proof -
  have "detached (heap s') a" if a: "a \<notin> set ys" for a
  proof (cases "a = e")
    case False
    then have "a \<notin> A" "a \<notin> set xs" using a assms(4,5) by auto
    then show ?thesis using assms(1,2) by (simp add: list_inv_def frame_def detached_def)
  qed (use a assms(6) in simp)
  then show ?thesis using assms(3) by (simp add: list_inv_def)
qed

lemma push_absent_aux:
  assumes "list_inv s xs"
  shows "lprev (heap s e) = None \<longleftrightarrow> e \<notin> set xs" "lnext (heap s e) = None \<longleftrightarrow> e \<notin> set xs"
proof -
  have c: "cyc (heap s) xs" using assms by (simp add: list_inv_def list_rep_def)
  have "lprev (heap s e) \<noteq> None" if e: "e \<in> set xs"
  proof -
    obtain as bs where "xs = as @ e # bs" using split_list[OF e] by blast
    then have "cyc (heap s) (e # bs @ as)" using c cyc_rotate[of "heap s" as "e # bs"] by simp
    then show ?thesis using cyc_neighbours(2) cyc_single by (cases "bs @ as = []") fastforce+
  qed
  moreover have "lnext (heap s e) \<noteq> None" if "e \<in> set xs" using cyc_linked[OF c that] .
  moreover have "e \<notin> set xs \<Longrightarrow> detached (heap s) e" using assms by (simp add: list_inv_def)
  ultimately show "lprev (heap s e) = None \<longleftrightarrow> e \<notin> set xs" "lnext (heap s e) = None \<longleftrightarrow> e \<notin> set xs"
    by (auto simp: detached_def)
qed

lemma list_call_clear:
  "list_inv s xs \<Longrightarrow> \<exists>s'. list_clear s = Some s' \<and> list_inv s' []"
proof (induction xs arbitrary: s)
  case Nil
  then show ?case by (subst list_clear.simps) (auto simp: list_inv_def list_empty_def)
next
  case (Cons x xs)
  have rep: "list_rep s (x # xs)" using Cons.prems by (rule list_inv_rep)
  obtain s' where s': "pop_front s = Some (luser (heap s x), s')" "list_rep s' xs"
      "detached (heap s') x" "frame (set (x # xs)) (heap s) (heap s')"
    using pop_front_rep[OF rep] by blast
  have "list_inv s' xs"
    by (rule list_inv_frame[OF Cons.prems s'(4,2), where e = x]) (use s' in auto)
  then show ?case
    using Cons.IH[of s'] s'(1) rep by (subst list_clear.simps) (simp add: list_empty_rep)
qed

lemma push_linked:
  assumes "list_inv s xs" "e \<in> set xs"
  shows "push_back e s = None" "push_front e s = None"
proof -
  have "lprev (heap s e) \<noteq> None" using push_absent_aux(1)[OF assms(1), of e] assms(2) by simp
  then have "zth_assert (lprev (heap s e) = None) = None" by (simp add: zth_assert_def)
  then show "push_back e s = None" "push_front e s = None"
    by (simp_all add: push_back_def push_front_def)
qed

lemma pop_empty:
  assumes "list_rep s []"
  shows "pop_front s = None" "pop_back s = None"
  using list_empty_rep[OF assms] by (simp_all add: pop_front_def pop_back_def zth_assert_def)

lemma list_call_push_back:
  assumes "list_inv s xs"
  shows "rel_option list_inv (list_call_step (PushBack e) s) (spec_push_back e xs)"
proof (cases "e \<in> set xs")
  case False
  then obtain it s' where s': "push_back e s = Some (it, s')" "list_rep s' (xs @ [e])"
      "frame (insert e (set xs)) (heap s) (heap s')"
    using push_back_rep[of s xs e] assms by (auto simp: list_inv_def)
  have "list_inv s' (xs @ [e])" by (rule list_inv_frame[OF assms s'(3,2), where e = e]) auto
  then show ?thesis using False s' by (simp add: spec_push_back_def)
qed (simp add: push_linked[OF assms] spec_push_back_def)

lemma list_call_push_front:
  assumes "list_inv s xs"
  shows "rel_option list_inv (list_call_step (PushFront e) s) (spec_push_front e xs)"
proof (cases "e \<in> set xs")
  case False
  then obtain it s' where s': "push_front e s = Some (it, s')" "list_rep s' (e # xs)"
      "frame (insert e (set xs)) (heap s) (heap s')"
    using push_front_rep[of s xs e] assms by (auto simp: list_inv_def)
  have "list_inv s' (e # xs)" by (rule list_inv_frame[OF assms s'(3,2), where e = e]) auto
  then show ?thesis using False s' by (simp add: spec_push_front_def)
qed (simp add: push_linked[OF assms] spec_push_front_def)

lemma list_call_pop_front:
  assumes "list_inv s xs"
  shows "rel_option list_inv (list_call_step PopFront s) (spec_pop_front xs)"
proof (cases xs)
  case (Cons x ys)
  then obtain s' where s': "pop_front s = Some (luser (heap s x), s')" "list_rep s' ys"
      "detached (heap s') x" "frame (set (x # ys)) (heap s) (heap s')"
    using pop_front_rep[of s x ys] list_inv_rep[OF assms] by blast
  have "list_inv s' ys"
    by (rule list_inv_frame[OF assms s'(4,2), where e = x]) (use Cons s' in auto)
  then show ?thesis using Cons s' by (simp add: spec_pop_front_def)
qed (use pop_empty[of s] list_inv_rep[OF assms] in \<open>simp add: spec_pop_front_def\<close>)

lemma list_call_pop_back:
  assumes "list_inv s xs"
  shows "rel_option list_inv (list_call_step PopBack s) (spec_pop_back xs)"
proof (cases xs rule: rev_cases)
  case (snoc ys x)
  then obtain s' where s': "pop_back s = Some (luser (heap s x), s')" "list_rep s' ys"
      "detached (heap s') x" "frame (set (ys @ [x])) (heap s) (heap s')"
    using pop_back_rep[of s ys x] list_inv_rep[OF assms] by blast
  have "list_inv s' ys"
    by (rule list_inv_frame[OF assms s'(4,2), where e = x]) (use snoc s' in auto)
  then show ?thesis using snoc s' by (simp add: spec_pop_back_def)
qed (use pop_empty[of s] list_inv_rep[OF assms] in \<open>simp add: spec_pop_back_def\<close>)

lemma list_call_erase:
  assumes "list_inv s xs"
  shows "rel_option list_inv (list_call_step (Erase e) s) (spec_erase e xs)"
proof (cases "e \<in> set xs")
  case True
  obtain s' where s': "erase_elem e s = Some (luser (heap s e), s')" "list_rep s' (remove1 e xs)"
      "detached (heap s') e" "frame (set xs) (heap s) (heap s')"
    using erase_elem_rep[OF list_inv_rep[OF assms] True] by blast
  have "set xs \<subseteq> insert e (set (remove1 e xs))" using in_set_remove1[of _ e xs] by fast
  then have "list_inv s' (remove1 e xs)"
    by (intro list_inv_frame[OF assms s'(4,2), where e = e]) (use s'(3) in auto)
  then show ?thesis using True s' by (simp add: spec_erase_def)
qed (simp add: erase_elem_absent[OF list_inv_rep[OF assms]] spec_erase_def)

lemma list_call_rotate:
  assumes "list_inv s xs"
  shows "rel_option list_inv (list_call_step (Rotate e) s) (spec_rotate e xs)"
proof (cases "e \<in> set xs")
  case True
  then obtain s' where "list_rotate e s = Some s'" "list_rep s' (rotate_to e xs)" "heap s' = heap s"
    using list_rotate_rep[OF list_inv_rep[OF assms]] by blast
  then show ?thesis using True assms by (simp add: spec_rotate_def list_inv_def)
qed (use contains_rep[OF list_inv_rep[OF assms]] in
    \<open>simp add: list_rotate_def zth_assert_def spec_rotate_def\<close>)

lemma list_call_rotate_next:
  assumes "list_inv s xs"
  shows "rel_option list_inv (list_call_step (RotateNext e) s) (spec_rotate_next e xs)"
proof (cases "e \<in> set xs")
  case True
  then obtain s' where "list_rotate_next e s = Some s'" "list_rep s' (rotate_past e xs)" "heap s' = heap s"
    using list_rotate_next_rep[OF list_inv_rep[OF assms]] by blast
  then show ?thesis
    using True assms by (simp add: spec_rotate_next_def list_inv_def rotate_past_facts)
qed (use contains_rep[OF list_inv_rep[OF assms]] in
    \<open>simp add: list_rotate_next_def list_cyclic_def zth_assert_def spec_rotate_next_def\<close>)

lemma list_call_refines:
  assumes "list_inv s xs"
  shows "rel_option list_inv (list_call_step c s) (spec_call c xs)"
  using list_call_push_back[OF assms] list_call_push_front[OF assms] list_call_pop_front[OF assms]
    list_call_pop_back[OF assms] list_call_erase[OF assms] list_call_rotate[OF assms]
    list_call_rotate_next[OF assms] list_call_clear[OF assms]
  by (cases c) auto

interpretation il: list_impl list_inv list_call_step contains list_size
  by unfold_locales
    (simp_all add: list_call_refines contains_rep list_size_rep list_inv_rep)

subsection \<open>Positions\<close>

lemma it_at_begin: "list_rep s xs \<Longrightarrow> xs \<noteq> [] \<Longrightarrow> it_at xs 0 = list_begin s"
  using it_at_ops(4) by simp

lemma it_at_end: "list_rep s xs \<Longrightarrow> xs \<noteq> [] \<Longrightarrow> it_at xs (length xs) = list_end s"
  by (simp add: list_rep_def it_at_def list_end_def)

lemma list_insert_at_aux:
  assumes "list_inv s xs" "xs \<noteq> []" "i \<le> length xs" "e \<notin> set xs"
  shows "\<exists>s'. list_insert (it_at xs i) e s = Some (it_at (take i xs @ e # drop i xs) i, s')
    \<and> list_rep s' (take i xs @ e # drop i xs) \<and> frame (insert e (set xs)) (heap s) (heap s')"
proof -
  note rep = list_inv_rep[OF assms(1)]
  have det: "detached (heap s) e" using assms by (simp add: list_inv_def)
  consider "i = 0" | "i = length xs" "i \<noteq> 0" | "0 < i" "i < length xs" using assms(3) by linarith
  then show ?thesis
  proof cases
    case 1
    with list_insert_begin_rep[OF rep assms(2) det] it_at_begin[OF rep assms(2)] it_at_begin
    show ?thesis by fastforce
  next
    case 2
    have "mk_iterator (m_head s') (Some e) = it_at (xs @ [e]) (length xs)"
      if "list_rep s' (xs @ [e])" for s'
      using that 2 by (simp add: list_rep_def it_at_def)
    with 2 list_insert_end_rep[OF rep det] it_at_end[OF rep assms(2)] show ?thesis by fastforce
  next
    case 3
    let ?as = "take i xs" and ?b = "xs ! i" and ?bs = "drop (Suc i) xs"
    have xs: "xs = ?as @ ?b # ?bs" "length ?as = i" "drop i xs = ?b # ?bs"
      using 3 by (simp_all add: id_take_nth_drop Cons_nth_drop_Suc)
    obtain s' where s': "list_insert (it_at xs i) e s = Some (mk_iterator (m_head s') (Some e), s')"
        "list_rep s' (?as @ e # drop i xs)" "frame (insert e (set xs)) (heap s) (heap s')"
      using list_insert_middle_rep[of s ?as ?b ?bs e] rep xs 3 assms by auto
    have "mk_iterator (m_head s') (Some e) = it_at (?as @ e # drop i xs) i"
      using s'(2) 3 by (simp add: list_rep_def it_at_def nth_append)
    with s' show ?thesis by simp
  qed
qed

lemma erase_it_at_aux:
  assumes "list_inv s xs" "i < length xs"
  shows "\<exists>s'. erase_it (it_at xs i) s = Some
      (if length xs = 1 then list_end s' else it_at (take i xs @ drop (Suc i) xs) i, s')
    \<and> list_inv s' (take i xs @ drop (Suc i) xs)"
proof -
  note rep = list_inv_rep[OF assms(1)]
  let ?e = "xs ! i" and ?ys = "take i xs @ drop (Suc i) xs"
  have ne: "xs \<noteq> []" and e: "?e \<in> set xs" using assms(2) by auto
  have d: "distinct xs" using rep by (simp add: list_rep_def)
  have "?e \<notin> set (take i xs)"
    using d assms(2) by (auto simp: in_set_conv_nth nth_eq_iff_index_eq)
  then have ys: "remove1 ?e xs = ?ys"
    by (subst id_take_nth_drop[OF assms(2)]) (simp add: remove1_append)
  obtain u s' where s': "erase_elem ?e s = Some (u, s')" "list_inv s' ?ys"
    using list_call_erase[OF assms(1), of ?e] e ys by (auto simp: spec_erase_def option_rel_Some2)
  have rep': "list_rep s' ?ys" using s'(2) by (rule list_inv_rep)
  have get: "it_get False (it_at xs i) = Some (Some ?e)" using it_at_ops(2)[OF rep ne assms(2)] .
  have nE: "\<not> atEnd (it_at xs i)"
    using assms(2) hd_eq_nth_iff[OF d assms(2)] by (auto simp: atEnd_def it_at_def mk_iterator_def)
  have b: "atBegin (it_at xs i) \<longleftrightarrow> i = 0" by (simp add: atBegin_def it_at_def mk_iterator_def)
  have t: "m_tail s = Some ?e \<longleftrightarrow> Suc i = length xs"
    using rep ne d assms(2) nth_eq_iff_index_eq[OF d assms(2), of "length xs - 1"]
    by (auto simp: list_rep_def last_conv_nth)
  have ysl: "length ?ys = length xs - 1" using assms(2) by simp
  have n: "lnext (heap s ?e) = Some (xs ! Suc i)" if "Suc i < length xs"
    using cyc_nth[of "heap s" xs i] rep assms(2) that by (simp add: list_rep_def)
  consider "length xs = 1" "i = 0" | "length xs > 1" "i = 0" | "i \<noteq> 0" "Suc i = length xs"
    | "i \<noteq> 0" "Suc i < length xs" using assms(2) by linarith
  then show ?thesis
  proof cases
    case 1
    then have "list_rep s' []" using rep' by simp
    then have "list_begin s' = list_end s'"
      by (simp add: list_begin_def list_end_def)
    with 1 get nE b s' show ?thesis by (simp add: erase_it_def)
  next
    case 2
    then have "it_at ?ys 0 = list_begin s'" using rep' by (intro it_at_begin) auto
    with 2 get nE b s' show ?thesis by (simp add: erase_it_def)
  next
    case 3
    then have "it_at ?ys (length ?ys) = list_end s'" using rep' by (intro it_at_end) auto
    with 3 get nE b s' t ysl show ?thesis by (simp add: erase_it_def)
  next
    case 4
    then have "mk_iterator (m_head s') (Some (xs ! Suc i)) = it_at ?ys i"
      using rep' by (simp add: list_rep_def it_at_def nth_append)
    with 4 get nE b s' t n show ?thesis by (simp add: erase_it_def eq_commute[of _ "m_tail s"])
  qed
qed

subsection \<open>Properties\<close>

text \<open>
  C2. Any sequence of calls of \<^verbatim>\<open>push_back\<close>, \<^verbatim>\<open>push_front\<close>, \<^verbatim>\<open>pop_front\<close>, \<^verbatim>\<open>pop_back\<close>,
  \<^verbatim>\<open>erase\<close>, \<^verbatim>\<open>rotate\<close>, \<^verbatim>\<open>clear\<close> and the scheduler's rotation on the linked objects does what the same sequence does on
  the abstract list: it traps exactly when a call is made outside its contract (pushing a linked
  element, popping from an empty list, erasing or rotating to an element that is not in it),
  otherwise it returns, the links spell out the abstract result, and every object outside of the
  list has its links cleared.
\<close>

theorem list_calls_refine:
  assumes "list_inv s xs"
  shows "rel_option list_inv (run_calls list_call_step cs s) (run_calls spec_call cs xs)"
  using assms by (rule il.run_refines)

lemma list_inv_new: "list_inv (empty_list (\<lambda>_. new_listable)) []"
  by (auto simp: list_inv_def empty_list_def detached_def new_listable_def)

definition demo_calls :: "nat list_call list" where
  "demo_calls = [PushBack 1, PushBack 2, PushFront 3, Rotate 1, Erase 2, PushBack 2, PopFront]"

theorem list_calls_refine_witness:
  "rel_option list_inv (run_calls list_call_step demo_calls (empty_list (\<lambda>_. new_listable))) (Some [3, 2])
   \<and> run_calls list_call_step (demo_calls @ [Erase 1]) (empty_list (\<lambda>_. new_listable)) = None"
proof -
  have "run_calls spec_call demo_calls [] = Some [3, 2]"
    "run_calls spec_call (demo_calls @ [Erase 1]) [] = None"
    by (simp_all add: demo_calls_def spec_push_back_def spec_push_front_def spec_rotate_def
        rotate_to_def spec_erase_def spec_pop_front_def)
  then show ?thesis
    using list_calls_refine[OF list_inv_new, of demo_calls]
      list_calls_refine[OF list_inv_new, of "demo_calls @ [Erase 1]"]
    by auto
qed

text \<open>
  The loops of \<^verbatim>\<open>contains\<close> and \<^verbatim>\<open>size\<close> return, whatever sequence of calls built the list, and
  their results are membership in and length of the abstract list.
\<close>

theorem list_loops_return:
  assumes "list_inv s xs" "run_calls spec_call cs xs = Some ys"
  shows "\<exists>s'. run_calls list_call_step cs s = Some s' \<and> contains s' e = Some (e \<in> set ys)
    \<and> list_size s' = Some (length ys)"
  using il.run_observe[OF assms] by metis

theorem list_loops_return_witness:
  "\<exists>s'. run_calls list_call_step demo_calls (empty_list (\<lambda>_. new_listable)) = Some s'
     \<and> contains s' 2 = Some True \<and> list_size s' = Some 2"
proof -
  have "run_calls spec_call demo_calls [] = Some [3, 2]"
    by (simp add: demo_calls_def spec_push_back_def spec_push_front_def spec_rotate_def
        rotate_to_def spec_erase_def spec_pop_front_def)
  from list_loops_return[OF list_inv_new this, of 2] show ?thesis
    by (simp add: numeral_2_eq_2)
qed

text \<open>
  \<^verbatim>\<open>insert(pos, elem)\<close> at position \<open>i\<close> of a non-empty list, the end included, puts the element
  before what was at \<open>i\<close>, keeps the rest, and returns the iterator of the new element.
\<close>

theorem list_insert_at:
  assumes "list_inv s xs" "xs \<noteq> []" "i \<le> length xs" "e \<notin> set xs"
  shows "\<exists>s'. list_insert (it_at xs i) e s = Some (it_at (take i xs @ e # drop i xs) i, s')
    \<and> list_inv s' (take i xs @ e # drop i xs)"
proof -
  have "set (take i xs @ e # drop i xs) = insert e (set xs)"
    using set_append[of "take i xs" "drop i xs"] by (simp del: set_append) auto
  then have "list_inv s' (take i xs @ e # drop i xs)"
    if "list_rep s' (take i xs @ e # drop i xs)" "frame (insert e (set xs)) (heap s) (heap s')" for s'
    using list_inv_frame[OF assms(1) that(2,1), of e] by auto
  with list_insert_at_aux[OF assms] show ?thesis by blast
qed

lemma list_inv_two: "\<exists>s. list_inv s [1, 2]"
  using il.run_refines[OF list_inv_new, of "[PushBack 1, PushBack 2]"]
  by (auto simp: spec_push_back_def option_rel_Some2)

theorem list_insert_at_witness:
  "\<exists>s s'. list_inv s [1, 2] \<and> list_insert (it_at [1, 2] 1) 7 s = Some (it_at [1, 7, 2] 1, s')
     \<and> list_inv s' [1, 7, 2]"
proof -
  obtain s where s: "list_inv s [1, 2]" using list_inv_two by blast
  from list_insert_at[OF s, of 1 7] s show ?thesis by auto
qed

text \<open>
  \<^verbatim>\<open>erase(pos)\<close> at position \<open>i\<close> removes exactly that element, leaves it detached, and returns the
  iterator of the element that followed it, or the end iterator.
\<close>

theorem erase_it_at:
  assumes "list_inv s xs" "i < length xs"
  shows "\<exists>s'. erase_it (it_at xs i) s = Some
      (if length xs = 1 then list_end s' else it_at (take i xs @ drop (Suc i) xs) i, s')
    \<and> list_inv s' (take i xs @ drop (Suc i) xs)"
  using assms by (rule erase_it_at_aux)

theorem erase_it_at_witness:
  "\<exists>s s'. list_inv s [1, 2] \<and> erase_it (it_at [1, 2] 0) s = Some (it_at [2] 0, s') \<and> list_inv s' [2]"
proof -
  obtain s where s: "list_inv s [1, 2]" using list_inv_two by blast
  from erase_it_at[OF s, of 0] s show ?thesis by auto
qed

text \<open>
  The iterator that \<^verbatim>\<open>push_front\<close> returns does not designate the new element: its start and
  current pointer coincide, so it compares equal to \<^verbatim>\<open>end()\<close>, and dereferencing or incrementing it
  traps. The same holds of \<^verbatim>\<open>insert\<close> into an empty list.
\<close>

theorem push_front_returns_end:
  assumes "list_inv s xs" "e \<notin> set xs"
  shows "\<exists>it s'. push_front e s = Some (it, s') \<and> list_inv s' (e # xs)
    \<and> it_eq it (list_end s') = Some True \<and> it_get False it = None \<and> it_next False (heap s') it = None"
proof -
  have rep: "list_rep s xs" "detached (heap s) e" using assms by (simp_all add: list_inv_def)
  obtain s' where s': "push_front e s = Some (mk_iterator (Some e) (Some e), s')"
    using push_front_rep[OF rep] by blast
  moreover have "list_inv s' (e # xs)"
    using list_call_push_front[OF assms(1), of e] s' assms(2) by (simp add: spec_push_front_def)
  ultimately show ?thesis
    by (simp add: it_eq_def it_get_def it_next_def atEnd_def mk_iterator_def list_end_def
        zth_assert_def)
qed

theorem push_front_returns_end_witness:
  "\<exists>s it s'. list_inv s [1, 2] \<and> push_front 7 s = Some (it, s') \<and> list_inv s' [7, 1, 2]
     \<and> it_get False it = None"
proof -
  obtain s where s: "list_inv s [1, 2]" using list_inv_two by blast
  from push_front_returns_end[OF s, of 7] s show ?thesis by auto
qed

end
