(* ===== verification/Zth_SortedList.thy ===== *)
theory Zth_SortedList
  imports Zth_Prelude
begin

section \<open>The sorted list: an AA tree with a head pointer\<close>

text \<open>
  \<^verbatim>\<open>include/libzth/list.h\<close>, class \<^verbatim>\<open>SortedList\<close>: the set of waiting objects, ordered by the
  comparator and, among equals, by address, as an AA tree over the objects' own
  \<^verbatim>\<open>left\<close>/\<^verbatim>\<open>right\<close>/\<^verbatim>\<open>level\<close> fields, with a cached pointer to the lowest element.

  \<^item> An object is its address. The comparator reads the object, so the operations take the
    function \<open>key\<close> from an address to the value the comparator compares; pointer equality is
    equality of addresses.
  \<^item> The nodes are owned by the tree they are in: the \<open>tree\<close> datatype has the address, the
    level and the children of a node. A null child is \<open>Leaf\<close>.
  \<^item> \<open>None\<close> is a failing \<^verbatim>\<open>zth_assert\<close>: the level of \<^verbatim>\<open>split\<close> at the maximum of its 8 bit type,
    inserting a contained object, erasing one that is not contained, and the self check
    \<^verbatim>\<open>check()\<close> that ends every update.

  The lemmas show that insertion and erasure keep the AA invariant, the order, the head pointer
  and the size, that the code's own self check always passes, and that the level stays far below
  its maximum.
\<close>

datatype tree = Leaf | Node (left: tree) (elem: addr) (level: nat) (right: tree)
  where "left Leaf = Leaf" | "right Leaf = Leaf" | "level Leaf = 0"

definition LEVEL_MAX :: nat where
  "LEVEL_MAX = 255"

definition m_comp :: "(addr \<Rightarrow> 'k::linorder) \<Rightarrow> addr \<Rightarrow> addr \<Rightarrow> bool" where
  "m_comp key x y \<longleftrightarrow> key x < key y"

fun root :: "tree \<Rightarrow> addr option" where
  "root Leaf = None"
| "root (Node l a h r) = Some a"

subsection \<open>Rotations\<close>

fun skew :: "tree \<Rightarrow> tree" where
  "skew (Node (Node a y hl b) x h r) =
     (if hl = h then Node a y hl (Node b x h r) else Node (Node a y hl b) x h r)"
| "skew t = t"

fun split :: "tree \<Rightarrow> tree option" where
  "split (Node l x h (Node rl y hr (Node a z hz b))) =
     (if h = hz then do {
        zth_assert (hr < LEVEL_MAX);
        Some (Node (Node l x h rl) y (hr + 1) (Node a z hz b))
      } else Some (Node l x h (Node rl y hr (Node a z hz b))))"
| "split t = Some t"

subsection \<open>Insertion\<close>

text \<open>
  \<^verbatim>\<open>insert_\<close> is a member function: it also moves \<^verbatim>\<open>m_head\<close> when the new element becomes the left
  child of the head.
\<close>

fun fix_head :: "tree \<Rightarrow> addr option \<Rightarrow> addr option" where
  "fix_head (Node l a h r) hp = (if hp = Some a \<and> l \<noteq> Leaf then root l else hp)"
| "fix_head Leaf hp = hp"

fun insert_t :: "(addr \<Rightarrow> 'k::linorder) \<Rightarrow> addr \<Rightarrow> tree \<Rightarrow> addr option \<Rightarrow> (tree \<times> addr option) option" where
  "insert_t key x Leaf hp = Some (Node Leaf x 1 Leaf, hp)"
| "insert_t key x (Node l a h r) hp = do {
     (t, hp) \<leftarrow>
       (if m_comp key x a then do { (l, hp) \<leftarrow> insert_t key x l hp; Some (Node l a h r, hp) }
        else if m_comp key a x then do { (r, hp) \<leftarrow> insert_t key x r hp; Some (Node l a h r, hp) }
        else if x < a then do { (l, hp) \<leftarrow> insert_t key x l hp; Some (Node l a h r, hp) }
        else do { (r, hp) \<leftarrow> insert_t key x r hp; Some (Node l a h r, hp) });
     let hp = fix_head t hp;
     t \<leftarrow> split (skew t);
     Some (t, hp)
   }"

subsection \<open>Deletion\<close>

fun lowest :: "tree \<Rightarrow> addr option" where
  "lowest Leaf = None"
| "lowest (Node l a h r) = (if l = Leaf then Some a else lowest l)"

fun highest :: "tree \<Rightarrow> addr option" where
  "highest Leaf = None"
| "highest (Node l a h r) = (if r = Leaf then Some a else highest r)"

definition successor :: "tree \<Rightarrow> addr option" where
  "successor t = lowest (right t)"

definition predecessor :: "tree \<Rightarrow> addr option" where
  "predecessor t = highest (left t)"

fun set_level :: "nat \<Rightarrow> tree \<Rightarrow> tree" where
  "set_level h (Node l a _ r) = Node l a h r"
| "set_level h Leaf = Leaf"

definition decrease_level :: "tree \<Rightarrow> tree" where
  "decrease_level t = (case t of
     Leaf \<Rightarrow> Leaf
   | Node l a h r \<Rightarrow>
       let should_be = (min (level l) (level r) + 1) mod (LEVEL_MAX + 1) in
       if should_be < h then
         Node l a should_be (if r \<noteq> Leaf \<and> should_be < level r then set_level should_be r else r)
       else t)"

fun on_right :: "(tree \<Rightarrow> tree option) \<Rightarrow> tree \<Rightarrow> tree option" where
  "on_right f (Node l a h r) = do { r \<leftarrow> f r; Some (Node l a h r) }"
| "on_right f Leaf = None"

text \<open>The tail of \<^verbatim>\<open>delete_\<close>, from \<^verbatim>\<open>decrease_level(t)\<close> on.\<close>

definition rebalance :: "tree \<Rightarrow> tree option" where
  "rebalance t = do {
     let t = skew (decrease_level t);
     t \<leftarrow> on_right (\<lambda>r. Some (skew r)) t;
     t \<leftarrow> (if right t \<noteq> Leaf then on_right (on_right (\<lambda>r. Some (skew r))) t else Some t);
     t \<leftarrow> split t;
     on_right split t
   }"

fun delete_t :: "(addr \<Rightarrow> 'k::linorder) \<Rightarrow> addr \<Rightarrow> tree \<Rightarrow> tree option" where
  "delete_t key x Leaf = Some Leaf"
| "delete_t key x (Node l a h r) =
     (if x = a then
        if l = Leaf \<and> r = Leaf then Some Leaf
        else if l = Leaf then do {
          s \<leftarrow> successor (Node l a h r);
          r \<leftarrow> delete_t key s r;
          rebalance (Node l s h r)
        } else do {
          p \<leftarrow> predecessor (Node l a h r);
          l \<leftarrow> delete_t key p l;
          rebalance (Node l p h r)
        }
      else if m_comp key x a then do { l \<leftarrow> delete_t key x l; rebalance (Node l a h r) }
      else if m_comp key a x then do { r \<leftarrow> delete_t key x r; rebalance (Node l a h r) }
      else if x < a then do { l \<leftarrow> delete_t key x l; rebalance (Node l a h r) }
      else do { r \<leftarrow> delete_t key x r; rebalance (Node l a h r) })"

subsection \<open>Lookup and self check\<close>

fun contains_t :: "(addr \<Rightarrow> 'k::linorder) \<Rightarrow> addr \<Rightarrow> tree \<Rightarrow> bool" where
  "contains_t key x Leaf = False"
| "contains_t key x (Node l a h r) =
     (if a = x then True
      else if m_comp key x a then contains_t key x l
      else if m_comp key a x then contains_t key x r
      else if x < a then contains_t key x l
      else contains_t key x r)"

definition check_left :: "(addr \<Rightarrow> 'k::linorder) \<Rightarrow> addr \<Rightarrow> tree \<Rightarrow> bool" where
  "check_left key a l = (case l of Leaf \<Rightarrow> True
     | Node _ b _ _ \<Rightarrow> m_comp key b a \<or> (\<not> m_comp key a b \<and> b < a))"

definition check_right :: "(addr \<Rightarrow> 'k::linorder) \<Rightarrow> addr \<Rightarrow> tree \<Rightarrow> bool" where
  "check_right key a r = (case r of Leaf \<Rightarrow> True
     | Node _ b _ _ \<Rightarrow> m_comp key a b \<or> (\<not> m_comp key b a \<or> a < b))"

fun check_tree :: "(addr \<Rightarrow> 'k::linorder) \<Rightarrow> tree \<Rightarrow> nat option" where
  "check_tree key Leaf = Some 0"
| "check_tree key (Node l a h r) = do {
     zth_assert (check_left key a l);
     zth_assert (check_right key a r);
     zth_assert (l \<noteq> Leaf \<or> r \<noteq> Leaf \<or> h = 1);
     zth_assert (l = Leaf \<or> int (level l) = int h - 1);
     zth_assert (r = Leaf \<or> int (level r) = int h - 1 \<or> level r = h);
     zth_assert (r = Leaf \<or> right r = Leaf \<or> level (right r) < h);
     zth_assert (h < 2 \<or> l \<noteq> Leaf \<and> r \<noteq> Leaf);
     nl \<leftarrow> check_tree key l;
     nr \<leftarrow> check_tree key r;
     Some (1 + nl + nr)
   }"

subsection \<open>The list object\<close>

text \<open>
  The links and the level are fields of the elements. Those of the elements in the tree are the tree; \<open>m_dirty\<close> has the elements whose fields
  are not reset, so that the assertions of \<^verbatim>\<open>insert()\<close> on a new element can be written out.
\<close>

record sorted_list =
  m_t :: tree
  m_head :: "addr option"
  m_size :: nat
  m_dirty :: "addr set"

definition SortedList :: sorted_list where
  "SortedList = \<lparr>m_t = Leaf, m_head = None, m_size = 0, m_dirty = {}\<rparr>"

definition check :: "(addr \<Rightarrow> 'k::linorder) \<Rightarrow> sorted_list \<Rightarrow> unit option" where
  "check key s = do {
     n \<leftarrow> check_tree key (m_t s);
     zth_assert (m_size s = n);
     zth_assert (m_t s = Leaf \<and> m_head s = None
       \<or> m_t s \<noteq> Leaf \<and> m_head s \<noteq> None \<and> lowest (m_t s) = m_head s)
   }"

definition sl_contains :: "(addr \<Rightarrow> 'k::linorder) \<Rightarrow> sorted_list \<Rightarrow> addr \<Rightarrow> bool" where
  "sl_contains key s x = contains_t key x (m_t s)"

definition sl_insert :: "(addr \<Rightarrow> 'k::linorder) \<Rightarrow> addr \<Rightarrow> sorted_list \<Rightarrow> sorted_list option" where
  "sl_insert key x s = do {
     zth_assert (x \<notin> m_dirty s);
     zth_assert (\<not> sl_contains key s x);
     let s = (if m_t s = Leaf then s\<lparr>m_head := Some x\<rparr> else s);
     (t, hp) \<leftarrow> insert_t key x (m_t s) (m_head s);
     let s = s\<lparr>m_t := t, m_head := hp, m_size := m_size s + 1, m_dirty := insert x (m_dirty s)\<rparr>;
     check key s;
     Some s
   }"

definition sl_erase :: "(addr \<Rightarrow> 'k::linorder) \<Rightarrow> addr \<Rightarrow> sorted_list \<Rightarrow> sorted_list option" where
  "sl_erase key x s = do {
     zth_assert (sl_contains key s x);
     t \<leftarrow> delete_t key x (m_t s);
     let s = s\<lparr>m_t := t\<rparr>;
     let s = (if m_head s = Some x then s\<lparr>m_head := lowest (m_t s)\<rparr> else s);
     let s = s\<lparr>m_dirty := m_dirty s - {x}\<rparr>;
     let s = s\<lparr>m_size := m_size s - 1\<rparr>;
     check key s;
     Some s
   }"

definition sl_empty :: "sorted_list \<Rightarrow> bool option" where
  "sl_empty s = do { zth_assert (m_size s > 0 \<or> m_t s = Leaf); Some (m_t s = Leaf) }"

definition sl_size :: "sorted_list \<Rightarrow> nat option" where
  "sl_size s = do { zth_assert (m_size s > 0 \<or> m_t s = Leaf); Some (m_size s) }"

definition sl_front :: "sorted_list \<Rightarrow> addr option" where
  "sl_front s = do { zth_assert (m_head s \<noteq> None \<and> m_t s \<noteq> Leaf); m_head s }"

partial_function (option) sl_clear :: "(addr \<Rightarrow> 'k::linorder) \<Rightarrow> sorted_list \<Rightarrow> sorted_list option" where
  "sl_clear key s = do {
     e \<leftarrow> sl_empty s;
     if e then Some s else do {
       a \<leftarrow> root (m_t s);
       s \<leftarrow> sl_erase key a s;
       sl_clear key s
     }
   }"

subsection \<open>Invariants\<close>

fun inorder :: "tree \<Rightarrow> addr list" where
  "inorder Leaf = []"
| "inorder (Node l a h r) = inorder l @ a # inorder r"

text \<open>
  The AA invariant: a left child is one level down, a right child one level down or on the same
  level, and no two right links in a row stay on one level.
\<close>

fun aa :: "tree \<Rightarrow> bool" where
  "aa Leaf \<longleftrightarrow> True"
| "aa (Node l a h r) \<longleftrightarrow>
     aa l \<and> aa r \<and> Suc (level l) = h
     \<and> (Suc (level r) = h \<or> level r = h \<and> Suc (level (right r)) = h)"

definition single :: "tree \<Rightarrow> bool" where
  "single t \<longleftrightarrow> level (right t) < level t"

lemma inorder_skew [simp]: "inorder (skew t) = inorder t"
  by (cases t rule: skew.cases) auto

lemma inorder_split: "split t = Some t' \<Longrightarrow> inorder t' = inorder t"
  by (cases t rule: split.cases) (auto split: if_splits)

lemma level_0 [simp]: "aa t \<Longrightarrow> level t = 0 \<longleftrightarrow> t = Leaf"
  by (cases t) auto

lemma level_right_le: "aa t \<Longrightarrow> level (right t) \<le> level t"
  by (cases t) auto

lemma aa_rightD: "aa t \<Longrightarrow> aa (right t)" and aa_leftD: "aa t \<Longrightarrow> aa (left t)"
  by (cases t; simp)+

lemma aa_Node:
  "aa (Node l a h r) \<longleftrightarrow> (\<exists>k. h = Suc k \<and> aa l \<and> aa r \<and> level l = k
     \<and> (level r = k \<or> level r = Suc k \<and> level (right r) = k))"
  by (cases h) auto

lemma aa_cases:
  assumes "aa t" "level t = Suc k"
  obtains l a r where "t = Node l a (Suc k) r" "aa l" "aa r" "level l = k"
    "level r = k \<or> level r = Suc k \<and> level (right r) = k"
  using assms by (cases t) (simp_all add: aa_Node)

declare aa.simps(2) [simp del]

lemma skew_noop: "level l \<noteq> h \<Longrightarrow> skew (Node l x h r) = Node l x h r"
  by (cases l) auto

lemma split_Leaf: "split (Node l x h Leaf) = Some (Node l x h Leaf)"
  by simp

lemma split_noop: "level (right r) \<noteq> h \<Longrightarrow> split (Node l x h r) = Some (Node l x h r)"
  by (cases r; cases "right r") auto

lemma split_rot:
  "level rr = Suc k \<Longrightarrow> hr < LEVEL_MAX \<Longrightarrow>
   split (Node l x (Suc k) (Node rl y hr rr)) = Some (Node (Node l x (Suc k) rl) y (Suc hr) rr)"
  by (cases rr) auto

lemmas rot_simps = skew_noop split_noop split_rot aa_Node

text \<open>What \<^verbatim>\<open>insert_\<close> guarantees of the level: it grows only from a double node, into a single one.\<close>

definition grown :: "tree \<Rightarrow> tree \<Rightarrow> bool" where
  "grown t t' \<longleftrightarrow> aa t' \<and> (level t' = level t \<or> level t' = Suc (level t) \<and> single t' \<and> \<not> single t)"

lemma single_iff: "aa (Node l a (Suc k) r) \<Longrightarrow> single (Node l a (Suc k) r) \<longleftrightarrow> level r = k"
  by (auto simp: aa_Node single_def)

lemma insert_fix_left:
  assumes t: "aa (Node l a h r)" and g: "grown l l'" and "h < LEVEL_MAX"
  shows "\<exists>t'. split (skew (Node l' a h r)) = Some t' \<and> grown (Node l a h r) t'"
proof -
  obtain k where k: "h = Suc k" "aa l" "aa r" "level l = k"
      "level r = k \<or> level r = Suc k \<and> level (right r) = k"
    using t unfolding aa_Node by blast
  show ?thesis
  proof (cases "level l' = k")
    case True
    have "level (right r) \<noteq> Suc k" using k(3,5) level_right_le[of r] by auto
    then show ?thesis using k g True by (auto simp: rot_simps grown_def single_def)
  next
    case False
    then have l': "aa l'" "level l' = Suc k" "single l'" using g k by (auto simp: grown_def)
    then obtain b y c where c: "l' = Node b y (Suc k) c" "aa b" "aa c" "level b = k" "level c = k"
      by (elim aa_cases[of l' k]) (auto simp: single_def)
    show ?thesis using k(5)
    proof (elim disjE)
      assume "level r = k"
      then show ?thesis using k c by (simp add: rot_simps grown_def single_def)
    next
      assume "level r = Suc k \<and> level (right r) = k"
      then show ?thesis using k c assms(3) by (simp add: rot_simps grown_def single_def)
    qed
  qed
qed

lemma insert_fix_right:
  assumes t: "aa (Node l a h r)" and g: "grown r r'" and "h < LEVEL_MAX"
  shows "\<exists>t'. split (skew (Node l a h r')) = Some t' \<and> grown (Node l a h r) t'"
proof -
  obtain k where k: "h = Suc k" "aa l" "aa r" "level l = k"
      "level r = k \<or> level r = Suc k \<and> level (right r) = k"
    using t unfolding aa_Node by blast
  have "aa r'" "level r' = k \<or> level r' = Suc k"
    using g k by (auto simp: grown_def single_def)
  then consider "aa r'" "level r' = k" | "aa r'" "level r' = Suc k" by blast
  then show ?thesis
  proof cases
    case 1
    then have "level (right r') \<noteq> Suc k" using level_right_le[of r'] by simp
    then show ?thesis using 1 k by (simp add: rot_simps grown_def single_def)
  next
    case 2
    then obtain b y c where c: "r' = Node b y (Suc k) c" "aa b" "aa c" "level b = k"
        "level c = k \<or> level c = Suc k \<and> level (right c) = k"
      by (elim aa_cases[of r' k])
    have "level c = Suc k \<Longrightarrow> level r = Suc k"
      using g k c by (auto simp: grown_def single_def)
    then show ?thesis using k c assms(3) by (auto simp: rot_simps grown_def single_def)
  qed
qed

text \<open>What \<^verbatim>\<open>delete_\<close> guarantees: the level is kept, and then a single node stays single, or drops by one.\<close>

definition shrunk :: "tree \<Rightarrow> tree \<Rightarrow> bool" where
  "shrunk t t' \<longleftrightarrow> aa t' \<and>
     (level t' = level t \<and> (single t \<longrightarrow> single t') \<or> Suc (level t') = level t)"

lemma decrease_level_keep:
  "h \<le> Suc (min (level l) (level r)) \<Longrightarrow> min (level l) (level r) < LEVEL_MAX \<Longrightarrow>
   decrease_level (Node l a h r) = Node l a h r"
  by (simp add: decrease_level_def)

lemma decrease_level_drop:
  "min (level l) (level r) = j \<Longrightarrow> Suc j < h \<Longrightarrow> h \<le> LEVEL_MAX \<Longrightarrow>
   decrease_level (Node l a h r)
     = Node l a (Suc j) (if Suc j < level r then set_level (Suc j) r else r)"
  by (cases r) (auto simp: decrease_level_def)

lemma skew_aa: "aa t \<Longrightarrow> skew t = t"
  by (cases t) (auto simp: rot_simps)

lemma split_aa: "aa t \<Longrightarrow> split t = Some t"
  by (cases t) (auto simp: aa_Node intro!: split_noop dest: level_right_le)

lemma rebalance_noop:
  assumes "aa (Node l a h r)" "h \<le> LEVEL_MAX"
  shows "rebalance (Node l a h r) = Some (Node l a h r)"
proof -
  have "decrease_level (Node l a h r) = Node l a h r"
    using assms by (intro decrease_level_keep) (auto simp: aa_Node)
  moreover have "aa r" "aa (right r)" using assms by (auto simp: aa_Node aa_rightD)
  ultimately show ?thesis
    using assms by (cases r) (simp_all add: rebalance_def skew_aa split_aa)
qed

lemma aa_SucE:
  assumes "aa t" "level t = Suc k"
  obtains (low) l a r where "t = Node l a (Suc k) r" "aa l" "aa r" "level l = k" "level r = k"
  | (high) l a r where "t = Node l a (Suc k) r" "aa l" "aa r" "level l = k" "level r = Suc k"
      "level (right r) = k"
proof -
  obtain l a r where t: "t = Node l a (Suc k) r" "aa l" "aa r" "level l = k"
    and "level r = k \<or> level r = Suc k \<and> level (right r) = k"
    using assms by (rule aa_cases)
  then consider "level r = k" | "level r = Suc k" "level (right r) = k" by blast
  then show thesis by cases (rule low[OF t], assumption, rule high[OF t])
qed

lemma rebalance_left_low:
  assumes "aa l" "aa r" "level l = j" "level r = Suc j" "Suc (Suc j) \<le> LEVEL_MAX"
  shows "\<exists>t'. rebalance (Node l a (Suc (Suc j)) r) = Some t' \<and> aa t'
    \<and> (level t' = Suc (Suc j) \<and> single t' \<or> level t' = Suc j)"
proof -
  have d: "decrease_level (Node l a (Suc (Suc j)) r) = Node l a (Suc j) r"
    using assms by (subst decrease_level_drop) auto
  from assms(2,4) show ?thesis
  proof (cases rule: aa_SucE)
    case (low b y c)
    have "aa (Node l a (Suc j) r)" using assms low by (simp add: aa_Node)
    moreover have "aa (right r)" using assms(2) by (rule aa_rightD)
    ultimately show ?thesis
      using assms(2) d low by (simp add: rebalance_def skew_aa split_aa)
  next
    case (high b y c)
    then show ?thesis
      using assms d by (simp add: rebalance_def rot_simps skew_aa split_aa single_def)
  qed
qed

lemma rebalance_left_high:
  assumes "aa l" "aa r" "level l = j" "level r = Suc (Suc j)" "level (right r) = Suc j"
    "Suc (Suc j) \<le> LEVEL_MAX"
  shows "\<exists>t'. rebalance (Node l a (Suc (Suc j)) r) = Some t' \<and> aa t' \<and> level t' = Suc (Suc j)"
proof -
  from assms(2,4,5) obtain b y c where r: "r = Node b y (Suc (Suc j)) c" "aa b" "aa c"
      "level b = Suc j" "level c = Suc j"
    by (elim aa_SucE[of r "Suc j"]) simp_all
  have d: "decrease_level (Node l a (Suc (Suc j)) r) = Node l a (Suc j) (Node b y (Suc j) c)"
    using assms r by (subst decrease_level_drop) auto
  from r(2,4) show ?thesis
  proof (cases rule: aa_SucE)
    case b: (low d z e)
    have s: "skew (Node l a (Suc j) (Node b y (Suc j) c)) = Node l a (Suc j) (Node b y (Suc j) c)"
      using assms by (simp add: skew_noop)
    have s2: "skew (Node e y (Suc j) c) = Node e y (Suc j) c"
      using b by (simp add: skew_noop)
    from r(3,5) show ?thesis
      by (cases rule: aa_SucE) (use assms d r b s s2 in \<open>simp_all add: rebalance_def rot_simps\<close>)
  next
    case b: (high d z e)
    obtain f w g where e: "e = Node f w (Suc j) g" "aa f" "aa g" "level f = j" "level g = j"
      using b by (elim aa_SucE[of e j]) simp_all
    have s: "skew (Node l a (Suc j) (Node b y (Suc j) c)) = Node l a (Suc j) (Node b y (Suc j) c)"
      using assms by (simp add: skew_noop)
    show ?thesis
      using assms d r b s e by (simp add: rebalance_def rot_simps)
  qed
qed

lemma rebalance_right_low:
  assumes "aa l" "aa r" "level l = Suc j" "level r = j" "Suc (Suc j) \<le> LEVEL_MAX"
  shows "\<exists>t'. rebalance (Node l a (Suc (Suc j)) r) = Some t' \<and> aa t'
    \<and> (level t' = Suc (Suc j) \<and> single t' \<or> level t' = Suc j)"
proof -
  have d: "decrease_level (Node l a (Suc (Suc j)) r) = Node l a (Suc j) r"
    using assms by (subst decrease_level_drop) auto
  have lr: "level (right r) \<noteq> Suc j" using level_right_le[OF assms(2)] assms(4) by simp
  from assms(1,3) show ?thesis
  proof (cases rule: aa_SucE)
    case (low b y c)
    then show ?thesis
      using assms d lr by (simp add: rebalance_def rot_simps skew_aa split_aa)
  next
    case (high b y c)
    obtain f w g where e: "c = Node f w (Suc j) g" "aa f" "aa g" "level f = j" "level g = j"
      using high by (elim aa_SucE[of c j]) simp_all
    show ?thesis
      using assms d lr high e by (simp add: rebalance_def rot_simps skew_aa split_aa single_def)
  qed
qed

lemma rebalance_left:
  assumes t: "aa (Node l a h r)" and sh: "shrunk l l'" and m: "h \<le> LEVEL_MAX"
  shows "\<exists>t'. rebalance (Node l' p h r) = Some t' \<and> shrunk (Node l a h r) t'"
proof -
  obtain k where k: "h = Suc k" "aa l" "aa r" "level l = k"
      "level r = k \<or> level r = Suc k \<and> level (right r) = k"
    using t unfolding aa_Node by blast
  have l': "aa l'" using sh by (simp add: shrunk_def)
  show ?thesis
  proof (cases "level l' = k")
    case True
    then have "aa (Node l' p h r)" using k l' by (simp add: aa_Node)
    then show ?thesis using rebalance_noop[of l' p h r] m by (auto simp: shrunk_def single_def)
  next
    case False
    then obtain j where j: "k = Suc j" "level l' = j" using sh k(4) by (auto simp: shrunk_def)
    from k(5) show ?thesis
    proof
      assume "level r = k"
      then show ?thesis
        using rebalance_left_low[OF l' k(3), of j p] j k m by (auto simp: shrunk_def single_def)
    next
      assume "level r = Suc k \<and> level (right r) = k"
      then show ?thesis
        using rebalance_left_high[OF l' k(3), of j p] j k m by (auto simp: shrunk_def single_def)
    qed
  qed
qed

lemma rebalance_right:
  assumes t: "aa (Node l a h r)" and sh: "shrunk r r'" and m: "h \<le> LEVEL_MAX"
  shows "\<exists>t'. rebalance (Node l p h r') = Some t' \<and> shrunk (Node l a h r) t'"
proof -
  obtain k where k: "h = Suc k" "aa l" "aa r" "level l = k"
      "level r = k \<or> level r = Suc k \<and> level (right r) = k"
    using t unfolding aa_Node by blast
  have r': "aa r'" using sh by (simp add: shrunk_def)
  have lv: "level r' = level r \<or> Suc (level r') = level r" using sh unfolding shrunk_def by blast
  have k': "level r = k \<or> level r = Suc k" using k(5) by blast
  show ?thesis
  proof (cases "Suc (level r') = k")
    case True
    then have "level r = k" using lv k' by linarith
    with True show ?thesis
      using rebalance_right_low[OF k(2) r', of "level r'" p] k m by (auto simp: shrunk_def single_def)
  next
    case False
    have "level (right r') = k" if "level r' = Suc k"
      using r' that
    proof (cases rule: aa_SucE)
      case (high b y c)
      have "\<not> single r'" using high by (simp add: single_def)
      moreover have "level r = Suc k" using that lv k' False by linarith
      ultimately have False using sh that k(5) by (simp add: shrunk_def single_def)
      then show ?thesis ..
    qed simp
    moreover have "level r' = k \<or> level r' = Suc k \<and> level r = Suc k"
      using lv k' False by linarith
    ultimately have a: "aa (Node l p h r')" "level r = k \<Longrightarrow> level r' = k"
      using k r' by (auto simp: aa_Node)
    then show ?thesis
      using rebalance_noop[OF a(1) m] k by (auto simp: shrunk_def single_def)
  qed
qed

lemma inorder_set_level [simp]: "inorder (set_level h t) = inorder t"
  by (cases t) auto

lemma inorder_decrease_level [simp]: "inorder (decrease_level t) = inorder t"
  by (cases t) (auto simp: decrease_level_def Let_def)

lemma inorder_on_right:
  "on_right f t = Some t' \<Longrightarrow> (\<And>r r'. f r = Some r' \<Longrightarrow> inorder r' = inorder r) \<Longrightarrow>
   inorder t' = inorder t"
  by (cases t) (auto split: bind_splits)

lemma inorder_on_right_skew:
  "on_right (\<lambda>r. Some (skew r)) t = Some t' \<Longrightarrow> inorder t' = inorder t"
  by (erule inorder_on_right) auto

lemma inorder_rebalance:
  assumes "rebalance t = Some t'"
  shows "inorder t' = inorder t"
proof -
  obtain t1 t2 t3 where
    1: "on_right (\<lambda>r. Some (skew r)) (skew (decrease_level t)) = Some t1" and
    2: "(if right t1 \<noteq> Leaf then on_right (on_right (\<lambda>r. Some (skew r))) t1 else Some t1) = Some t2" and
    3: "split t2 = Some t3" and 4: "on_right split t3 = Some t'"
    using assms by (auto simp: rebalance_def Let_def split: bind_splits)
  have "inorder t1 = inorder t" using inorder_on_right_skew[OF 1] by simp
  moreover have "inorder t2 = inorder t1"
    using 2 inorder_on_right[of "on_right (\<lambda>r. Some (skew r))" t1 t2] inorder_on_right_skew
    by (auto split: if_splits)
  moreover have "inorder t3 = inorder t2" using 3 by (rule inorder_split)
  moreover have "inorder t' = inorder t3" using inorder_on_right[OF 4] inorder_split by blast
  ultimately show ?thesis by simp
qed

subsection \<open>Order\<close>

text \<open>The order of the tree: by key, among equal keys by address.\<close>

definition lt :: "(addr \<Rightarrow> 'k::linorder) \<Rightarrow> addr \<Rightarrow> addr \<Rightarrow> bool" where
  "lt key x y \<longleftrightarrow> key x < key y \<or> key x = key y \<and> x < y"

lemma lt_trans: "lt key x y \<Longrightarrow> lt key y z \<Longrightarrow> lt key x z"
  by (auto simp: lt_def)

lemma lt_irrefl [simp]: "\<not> lt key x x"
  by (simp add: lt_def)

lemma lt_linear: "x \<noteq> y \<Longrightarrow> lt key x y \<or> lt key y x"
  by (auto simp: lt_def)

lemma lt_asym: "lt key x y \<Longrightarrow> \<not> lt key y x"
  by (auto simp: lt_def)

lemma lt_imp_le: "lt key x y \<Longrightarrow> key x \<le> key y"
  by (auto simp: lt_def)

abbreviation ordered :: "(addr \<Rightarrow> 'k::linorder) \<Rightarrow> addr list \<Rightarrow> bool" where
  "ordered key \<equiv> sorted_wrt (lt key)"

lemma ordered_distinct: "ordered key xs \<Longrightarrow> distinct xs"
  by (induction xs) auto

text \<open>The code's descent compares by \<^verbatim>\<open>m_comp\<close> both ways, then by address: this is \<open>lt\<close>.\<close>

lemma insert_t_Node:
  "x \<noteq> a \<Longrightarrow> insert_t key x (Node l a h r) hp = do {
     (t, hp) \<leftarrow> (if lt key x a then do { (l, hp) \<leftarrow> insert_t key x l hp; Some (Node l a h r, hp) }
               else do { (r, hp) \<leftarrow> insert_t key x r hp; Some (Node l a h r, hp) });
     let hp = fix_head t hp;
     t \<leftarrow> split (skew t);
     Some (t, hp)
   }"
  by (auto simp: lt_def m_comp_def)

lemma delete_t_Node:
  "x \<noteq> a \<Longrightarrow> delete_t key x (Node l a h r) =
     (if lt key x a then do { l \<leftarrow> delete_t key x l; rebalance (Node l a h r) }
      else do { r \<leftarrow> delete_t key x r; rebalance (Node l a h r) })"
  by (auto simp: lt_def m_comp_def)

lemma contains_t_Node:
  "contains_t key x (Node l a h r) =
     (a = x \<or> (if lt key x a then contains_t key x l else contains_t key x r))"
  by (auto simp: lt_def m_comp_def)

declare insert_t.simps(2) [simp del] delete_t.simps(2) [simp del] contains_t.simps(2) [simp del]

fun ins :: "(addr \<Rightarrow> 'k::linorder) \<Rightarrow> addr \<Rightarrow> addr list \<Rightarrow> addr list" where
  "ins key x [] = [x]"
| "ins key x (y # ys) = (if lt key x y then x # y # ys else y # ins key x ys)"

lemma set_ins [simp]: "set (ins key x xs) = insert x (set xs)"
  by (induction xs) auto

lemma length_ins [simp]: "length (ins key x xs) = Suc (length xs)"
  by (induction xs) auto

lemma ordered_ins: "ordered key xs \<Longrightarrow> x \<notin> set xs \<Longrightarrow> ordered key (ins key x xs)"
  by (induction xs) (auto intro: lt_trans dest: lt_linear)

lemma ordered_append_Cons:
  "ordered key (xs @ a # ys) \<longleftrightarrow> ordered key xs \<and> ordered key ys
     \<and> (\<forall>x \<in> set xs. lt key x a) \<and> (\<forall>y \<in> set ys. lt key a y)"
  by (auto simp: sorted_wrt_append intro: lt_trans)

lemma ins_append:
  "\<forall>z \<in> set xs. lt key z a \<Longrightarrow>
   ins key x (xs @ a # ys) = (if lt key x a then ins key x xs @ a # ys else xs @ a # ins key x ys)"
  by (induction xs) (auto dest: lt_trans)

lemma remove1_ordered:
  assumes "ordered key (xs @ a # ys)"
  shows "remove1 x (xs @ a # ys) =
    (if x = a then xs @ ys else if lt key x a then remove1 x xs @ a # ys else xs @ a # remove1 x ys)"
proof -
  have "x \<in> set xs \<Longrightarrow> lt key x a" "x \<in> set ys \<Longrightarrow> lt key a x"
    using assms by (auto simp: ordered_append_Cons)
  moreover have "lt key x a \<Longrightarrow> x \<notin> set ys"
    using calculation(2) lt_asym[of key x a] by blast
  ultimately show ?thesis
    by (auto simp: remove1_append remove1_idem)
qed

lemma ordered_remove1: "ordered key xs \<Longrightarrow> ordered key (remove1 x xs)"
proof (induction xs)
  case (Cons a xs)
  then show ?case using set_remove1_subset[of x xs] by auto
qed simp

lemma inorder_eq_Nil [simp]: "inorder t = [] \<longleftrightarrow> t = Leaf"
  by (cases t) auto

lemma lowest_inorder: "lowest t = (if t = Leaf then None else Some (hd (inorder t)))"
  by (induction t) auto

lemma highest_inorder: "highest t = (if t = Leaf then None else Some (last (inorder t)))"
  by (induction t) auto

lemma lowest_cong: "inorder t = inorder t' \<Longrightarrow> lowest t = lowest t'"
  by (metis lowest_inorder inorder_eq_Nil)

lemma lowest_in: "lowest t = Some a \<Longrightarrow> a \<in> set (inorder t)"
  by (auto simp: lowest_inorder split: if_splits)

text \<open>The head pointer after an insertion into a subtree of the list.\<close>

definition head_of :: "tree \<Rightarrow> addr option \<Rightarrow> tree \<Rightarrow> addr option" where
  "head_of t hp t' = (if t \<noteq> Leaf \<and> hp = lowest t then lowest t' else hp)"

definition head_ok :: "tree \<Rightarrow> addr option \<Rightarrow> bool" where
  "head_ok t hp \<longleftrightarrow> hp = lowest t \<or> hp \<notin> Some ` set (inorder t)"

lemma head_left:
  assumes "head_ok (Node l a h r) hp" "a \<notin> set (inorder l)" "inorder l' = ins key x (inorder l)" "x \<noteq> a"
    "l = Leaf \<Longrightarrow> l' = Node Leaf x 1 Leaf" "inorder t' = inorder (Node l' a h r)"
  shows "head_ok l hp" "fix_head (Node l' a h r) (head_of l hp l') = head_of (Node l a h r) hp t'"
proof -
  have l': "l' \<noteq> Leaf" using assms(3) by (cases l') (auto dest: arg_cong[where f = length])
  have t': "lowest t' = lowest l'" using assms(6) l' by (metis lowest_cong lowest.simps(2))
  have a: "lowest l' \<noteq> Some a" using lowest_in[of l' a] assms(2,3,4) by auto
  have al: "lowest l \<noteq> Some a" using lowest_in[of l a] assms(2) by auto
  show "head_ok l hp" using assms(1,2) by (auto simp: head_ok_def split: if_splits)
  show "fix_head (Node l' a h r) (head_of l hp l') = head_of (Node l a h r) hp t'"
  proof (cases "l = Leaf")
    case True
    then show ?thesis using assms(1,5) t' by (auto simp: head_of_def head_ok_def)
  next
    case False
    have "hp \<noteq> Some a" using assms(1) al False by (auto simp: head_ok_def split: if_splits)
    then show ?thesis using False a t' by (auto simp: head_of_def)
  qed
qed

lemma head_right:
  assumes "head_ok (Node l a h r) hp" "distinct (inorder (Node l a h r))"
    "inorder t' = inorder (Node l a h r')"
  shows "head_ok r hp" "fix_head (Node l a h r') (head_of r hp r') = head_of (Node l a h r) hp t'"
proof -
  have t': "lowest t' = lowest (Node l a h r)"
    using lowest_cong[OF assms(3)] by simp
  have lr: "lowest (Node l a h r) \<notin> Some ` set (inorder r)"
    using assms(2) lowest_in[of l] by (auto split: if_splits)
  then show r: "head_ok r hp" using assms(1) unfolding head_ok_def by (elim disjE) force+
  have "hp \<noteq> lowest r \<or> r = Leaf"
    using lr assms(1) lowest_in[of r] by (auto simp: head_ok_def lowest_inorder)
  then have hr: "head_of r hp r' = hp" by (auto simp: head_of_def)
  have "hp = Some a \<Longrightarrow> l = Leaf"
    using assms(1,2) lowest_in[of l a] by (auto simp: head_ok_def split: if_splits)
  then have "fix_head (Node l a h r') hp = hp" by simp
  moreover have "head_of (Node l a h r) hp t' = hp" unfolding head_of_def t' by simp
  ultimately show "fix_head (Node l a h r') (head_of r hp r') = head_of (Node l a h r) hp t'"
    unfolding hr by simp
qed

lemma insert_t_ok:
  assumes "aa t" "level t < LEVEL_MAX" "ordered key (inorder t)" "x \<notin> set (inorder t)" "head_ok t hp"
  shows "\<exists>t'. insert_t key x t hp = Some (t', head_of t hp t') \<and> grown t t'
    \<and> inorder t' = ins key x (inorder t) \<and> (t = Leaf \<longrightarrow> t' = Node Leaf x 1 Leaf)"
  using assms
proof (induction t arbitrary: hp)
  case Leaf
  then show ?case by (simp add: grown_def single_def aa_Node head_of_def)
next
  case (Node l a h r)
  have aa: "aa l" "aa r" "level l < LEVEL_MAX" "level r < LEVEL_MAX" "h < LEVEL_MAX"
    using Node.prems(1,2) by (auto simp: aa_Node)
  have o: "ordered key (inorder l)" "ordered key (inorder r)" "\<forall>z \<in> set (inorder l). lt key z a"
    "\<forall>z \<in> set (inorder r). lt key a z"
    using Node.prems(3) by (auto simp: ordered_append_Cons)
  have n: "x \<noteq> a" "x \<notin> set (inorder l)" "x \<notin> set (inorder r)" "a \<notin> set (inorder l)"
    using Node.prems(4) o(3) by auto
  have d: "distinct (inorder (Node l a h r))" using Node.prems(3) by (rule ordered_distinct)
  show ?case
  proof (cases "lt key x a")
    case True
    obtain l' where l': "insert_t key x l hp = Some (l', head_of l hp l')" "grown l l'"
        "inorder l' = ins key x (inorder l)" "l = Leaf \<longrightarrow> l' = Node Leaf x 1 Leaf"
      using Node.IH(1)[OF aa(1,3) o(1) n(2), of hp] Node.prems(5) n(4)
      by (auto simp: head_ok_def split: if_splits)
    obtain t' where t': "split (skew (Node l' a h r)) = Some t'" "grown (Node l a h r) t'"
      using insert_fix_left[OF Node.prems(1) l'(2) aa(5)] by blast
    have i: "inorder t' = inorder (Node l' a h r)" using inorder_split[OF t'(1)] by simp
    then show ?thesis
      using True n(1) l'(1,3) t' o(3) head_left(2)[OF Node.prems(5) n(4) l'(3) n(1) _ i] l'(4)
      by (simp add: insert_t_Node ins_append)
  next
    case False
    obtain r' where r': "insert_t key x r hp = Some (r', head_of r hp r')" "grown r r'"
        "inorder r' = ins key x (inorder r)"
      using Node.IH(2)[OF aa(2,4) o(2) n(3) head_right(1)[OF Node.prems(5) d refl]] by blast
    obtain t' where t': "split (skew (Node l a h r')) = Some t'" "grown (Node l a h r) t'"
      using insert_fix_right[OF Node.prems(1) r'(2) aa(5)] by blast
    have i: "inorder t' = inorder (Node l a h r')" using inorder_split[OF t'(1)] by simp
    then show ?thesis
      using False n(1) r'(1,3) t' o(3) head_right(2)[OF Node.prems(5) d i]
      by (simp add: insert_t_Node ins_append)
  qed
qed

lemma remove1_last: "distinct xs \<Longrightarrow> xs \<noteq> [] \<Longrightarrow> remove1 (last xs) xs = butlast xs"
  by (induction xs) auto

lemma butlast_last_append: "xs \<noteq> [] \<Longrightarrow> butlast xs @ last xs # ys = xs @ ys"
  by (metis append.assoc append_Cons append_Nil append_butlast_last_id)

lemma delete_t_ok:
  assumes "aa t" "level t \<le> LEVEL_MAX" "ordered key (inorder t)" "x \<in> set (inorder t)"
  shows "\<exists>t'. delete_t key x t = Some t' \<and> shrunk t t' \<and> inorder t' = remove1 x (inorder t)"
  using assms
proof (induction t arbitrary: x)
  case (Node l a h r)
  have aa: "aa l" "aa r" "level l \<le> LEVEL_MAX" "level r \<le> LEVEL_MAX" "h \<le> LEVEL_MAX"
    using Node.prems(1,2) by (auto simp: aa_Node)
  have o: "ordered key (inorder l)" "ordered key (inorder r)"
    using Node.prems(3) by (auto simp: ordered_append_Cons)
  note L = Node.IH(1)[OF aa(1,3) o(1)] and R = Node.IH(2)[OF aa(2,4) o(2)]
  have left: "\<exists>t'. (delete_t key y l \<bind> (\<lambda>l. rebalance (Node l p h r))) = Some t'
      \<and> shrunk (Node l a h r) t' \<and> inorder t' = remove1 y (inorder l) @ p # inorder r"
    if "y \<in> set (inorder l)" for y p
    using L[OF that] rebalance_left[OF Node.prems(1) _ aa(5), of _ p] inorder_rebalance by fastforce
  have right: "\<exists>t'. (delete_t key y r \<bind> (\<lambda>r. rebalance (Node l p h r))) = Some t'
      \<and> shrunk (Node l a h r) t' \<and> inorder t' = inorder l @ p # remove1 y (inorder r)"
    if "y \<in> set (inorder r)" for y p
    using R[OF that] rebalance_right[OF Node.prems(1) _ aa(5), of _ p] inorder_rebalance by fastforce
  have rem: "remove1 x (inorder (Node l a h r)) =
      (if x = a then inorder l @ inorder r else if lt key x a then remove1 x (inorder l) @ a # inorder r
       else inorder l @ a # remove1 x (inorder r))"
    using remove1_ordered[of key "inorder l" a "inorder r" x] Node.prems(3) by simp
  show ?case
  proof (cases "x = a")
    case False
    have "lt key x a \<Longrightarrow> x \<in> set (inorder l)" "\<not> lt key x a \<Longrightarrow> x \<in> set (inorder r)"
      using Node.prems(3,4) False lt_asym[of key x a] by (auto simp: ordered_append_Cons)
    then show ?thesis using False rem left[of x a] right[of x a] by (simp add: delete_t_Node)
  next
    case True
    consider "l = Leaf" "r = Leaf" | "l = Leaf" "r \<noteq> Leaf" | "l \<noteq> Leaf" by blast
    then show ?thesis
    proof cases
      case 1
      then show ?thesis using True Node.prems(1) by (simp add: delete_t.simps shrunk_def aa_Node)
    next
      case 2
      have "remove1 (hd (inorder r)) (inorder r) = tl (inorder r)" by (cases "inorder r") auto
      then show ?thesis
        using 2 True rem right[of "hd (inorder r)" "hd (inorder r)"]
        by (simp add: delete_t.simps successor_def lowest_inorder)
    next
      case 3
      have "remove1 (last (inorder l)) (inorder l) = butlast (inorder l)"
        using 3 o(1) by (intro remove1_last ordered_distinct) auto
      then show ?thesis
        using 3 True rem left[of "last (inorder l)" "last (inorder l)"]
        by (simp add: delete_t.simps predecessor_def highest_inorder butlast_last_append)
    qed
  qed
qed simp

lemma contains_t_ok: "ordered key (inorder t) \<Longrightarrow> contains_t key x t \<longleftrightarrow> x \<in> set (inorder t)"
proof (induction t)
  case (Node l a h r)
  then show ?case
    using lt_asym[of key x a] by (auto simp: contains_t_Node ordered_append_Cons)
qed simp

lemma check_tree_ok:
  assumes "aa t" "ordered key (inorder t)"
  shows "check_tree key t = Some (length (inorder t))"
  using assms
proof (induction t)
  case (Node l a h r)
  have o: "ordered key (inorder l)" "ordered key (inorder r)" "\<forall>z \<in> set (inorder l). lt key z a"
    "\<forall>z \<in> set (inorder r). lt key a z"
    using Node.prems(2) by (auto simp: ordered_append_Cons)
  obtain k where k: "h = Suc k" "aa l" "aa r" "level l = k"
      "level r = k \<or> level r = Suc k \<and> level (right r) = k"
    using Node.prems(1) unfolding aa_Node by blast
  have cl: "check_left key a l" using o(3) by (cases l) (auto simp: check_left_def m_comp_def lt_def)
  have cr: "check_right key a r" using o(4) by (cases r) (auto simp: check_right_def m_comp_def lt_def)
  have lv: "l = Leaf \<longleftrightarrow> k = 0" using level_0[OF k(2)] k(4) by simp
  have "r = Leaf \<Longrightarrow> k = 0" using k(5) by simp
  then have a1: "l \<noteq> Leaf \<or> r \<noteq> Leaf \<or> h = 1" "h < 2 \<or> l \<noteq> Leaf \<and> r \<noteq> Leaf" using lv k(1) by auto
  have a2: "l = Leaf \<or> int (level l) = int h - 1" using k by simp
  have "level r = k \<or> level r = Suc k" using k(5) by blast
  then have a3: "r = Leaf \<or> int (level r) = int h - 1 \<or> level r = h"
    by (elim disjE) (simp_all add: k(1))
  have "level (right r) \<le> k" using k(3,5) level_right_le[of r] by (elim disjE) simp_all
  then have a4: "r = Leaf \<or> right r = Leaf \<or> level (right r) < h" using k(1) by simp
  show ?case
    using Node.IH(1)[OF k(2) o(1)] Node.IH(2)[OF k(3) o(2)]
    by (simp only: check_tree.simps zth_assert_bind[OF cl] zth_assert_bind[OF cr] zth_assert_bind[OF a1(1)]
        zth_assert_bind[OF a1(2)] zth_assert_bind[OF a2] zth_assert_bind[OF a3] zth_assert_bind[OF a4]) simp
qed simp

text \<open>An AA tree of level \<open>h\<close> has at least \<open>2 ^ h - 1\<close> elements, so the 8 bit level is never exhausted.\<close>

lemma level_bound: "aa t \<Longrightarrow> 2 ^ level t \<le> length (inorder t) + 1"
proof (induction t)
  case (Node l a h r)
  obtain k where k: "h = Suc k" "aa l" "aa r" "level l = k" "level r = k \<or> level r = Suc k"
    using Node.prems unfolding aa_Node by blast
  have "(2::nat) ^ k \<le> 2 ^ level r" using k(5) by auto
  then have "2 ^ k \<le> length (inorder r) + 1" using Node.IH(2)[OF k(3)] by linarith
  then show ?case using Node.IH(1)[OF k(2)] k(1,4) by simp
qed simp

subsection \<open>The contract of a sorted list\<close>

text \<open>
  What a client (the waiter) relies on: the elements are in the order \<open>before\<close>, \<open>front\<close> is the
  first one, and insertion and erasure do not trap within their contract.
\<close>

fun drain :: "('s \<Rightarrow> 'a option) \<Rightarrow> ('a \<Rightarrow> 's \<Rightarrow> 's option) \<Rightarrow> nat \<Rightarrow> 's \<Rightarrow> ('a list \<times> 's) option" where
  "drain front erase 0 s = Some ([], s)"
| "drain front erase (Suc n) s = do {
     x \<leftarrow> front s;
     s \<leftarrow> erase x s;
     (xs, s) \<leftarrow> drain front erase n s;
     Some (x # xs, s)
   }"

locale sorted_queue =
  fixes inv :: "'s \<Rightarrow> 'a list \<Rightarrow> bool"
    and before :: "'a \<Rightarrow> 'a \<Rightarrow> bool"
    and insert_q :: "'a \<Rightarrow> 's \<Rightarrow> 's option"
    and erase_q :: "'a \<Rightarrow> 's \<Rightarrow> 's option"
    and contains_q :: "'s \<Rightarrow> 'a \<Rightarrow> bool"
    and front_q :: "'s \<Rightarrow> 'a option"
    and empty_q :: "'s \<Rightarrow> bool option"
    and capacity :: nat
  assumes in_order: "inv s xs \<Longrightarrow> sorted_wrt before xs \<and> distinct xs"
    and insert_law: "inv s xs \<Longrightarrow> x \<notin> set xs \<Longrightarrow> length xs < capacity \<Longrightarrow>
      \<exists>s' as bs. insert_q x s = Some s' \<and> xs = as @ bs \<and> inv s' (as @ x # bs)"
    and erase_law: "inv s xs \<Longrightarrow> x \<in> set xs \<Longrightarrow> length xs \<le> capacity \<Longrightarrow>
      \<exists>s'. erase_q x s = Some s' \<and> inv s' (remove1 x xs)"
    and contains_law: "inv s xs \<Longrightarrow> contains_q s x \<longleftrightarrow> x \<in> set xs"
    and front_law: "inv s xs \<Longrightarrow> xs \<noteq> [] \<Longrightarrow> front_q s = Some (hd xs)"
    and empty_law: "inv s xs \<Longrightarrow> empty_q s = Some (xs = [])"
begin

lemma front_first: "inv s xs \<Longrightarrow> xs \<noteq> [] \<Longrightarrow> x \<in> set xs \<Longrightarrow> front_q s = Some x \<or> before (hd xs) x"
  using in_order[of s xs] front_law[of s xs] by (cases xs) auto

lemma drain_take:
  "inv s xs \<Longrightarrow> n \<le> length xs \<Longrightarrow> length xs \<le> capacity \<Longrightarrow>
   \<exists>s'. drain front_q erase_q n s = Some (take n xs, s') \<and> inv s' (drop n xs)"
proof (induction n arbitrary: s xs)
  case (Suc n)
  then obtain y ys where xs: "xs = y # ys" by (cases xs) auto
  obtain s' where "erase_q y s = Some s'" "inv s' ys" using erase_law[of s xs y] Suc.prems xs by auto
  then show ?case using Suc.IH[of s' ys] Suc.prems xs front_law[of s xs] by auto
qed simp

end

definition sl_inv :: "(addr \<Rightarrow> 'k::linorder) \<Rightarrow> sorted_list \<Rightarrow> addr list \<Rightarrow> bool" where
  "sl_inv key s xs \<longleftrightarrow> aa (m_t s) \<and> ordered key xs \<and> inorder (m_t s) = xs
     \<and> m_head s = lowest (m_t s) \<and> m_size s = length xs \<and> m_dirty s = set xs"

lemma ordered_cong: "\<forall>a \<in> set xs. key a = key' a \<Longrightarrow> ordered key xs \<longleftrightarrow> ordered key' xs"
  by (induction xs) (auto simp: lt_def)

lemma sl_inv_cong: "\<forall>a \<in> set xs. key a = key' a \<Longrightarrow> sl_inv key s xs \<longleftrightarrow> sl_inv key' s xs"
  using ordered_cong[of xs key key'] by (simp add: sl_inv_def)

lemma sl_inv_new: "sl_inv key SortedList []"
  by (simp add: sl_inv_def SortedList_def)

lemma sl_inv_head: "sl_inv key s (x # xs) \<Longrightarrow> m_head s = Some x"
  by (auto simp: sl_inv_def lowest_inorder)

lemma level_lt:
  assumes "aa t" "length (inorder t) < 2 ^ 64"
  shows "level t \<le> 64"
proof -
  have "(2::nat) ^ level t \<le> 2 ^ 64" using level_bound[OF assms(1)] assms(2) by linarith
  then show ?thesis by (rule power_le_imp_le_exp[rotated]) simp
qed

lemma check_ok: "sl_inv key s xs \<Longrightarrow> check key s = Some ()"
  by (auto simp: sl_inv_def check_def check_tree_ok lowest_inorder)

lemma ins_split: "\<exists>as bs. xs = as @ bs \<and> ins key x xs = as @ x # bs"
proof (induction xs)
  case (Cons y ys)
  then obtain as bs where "ys = as @ bs" "ins key x ys = as @ x # bs" by blast
  then have "y # ys = (y # as) @ bs" "y # ins key x ys = (y # as) @ x # bs" by simp_all
  then show ?case by (cases "lt key x y") (force, metis ins.simps(2))
qed simp

lemma sl_insert_ok:
  assumes "sl_inv key s xs" "x \<notin> set xs" "length xs < 2 ^ 64"
  shows "\<exists>s'. sl_insert key x s = Some s' \<and> sl_inv key s' (ins key x xs)"
proof -
  have i: "aa (m_t s)" "ordered key (inorder (m_t s))" "inorder (m_t s) = xs"
    "m_head s = lowest (m_t s)" "m_size s = length xs" and d: "m_dirty s = set xs"
    using assms(1) by (auto simp: sl_inv_def)
  have lv: "level (m_t s) < LEVEL_MAX" using level_lt[of "m_t s"] i assms by (simp add: LEVEL_MAX_def)
  have c: "\<not> sl_contains key s x" using contains_t_ok[OF i(2)] i(3) assms(2) by (simp add: sl_contains_def)
  define hp where "hp = (if m_t s = Leaf then Some x else m_head s)"
  have ok: "head_ok (m_t s) hp" using i(4) by (auto simp: hp_def head_ok_def)
  obtain t' where t': "insert_t key x (m_t s) hp = Some (t', head_of (m_t s) hp t')" "grown (m_t s) t'"
      "inorder t' = ins key x xs" "m_t s = Leaf \<longrightarrow> t' = Node Leaf x 1 Leaf"
    using insert_t_ok[OF i(1) lv i(2) _ ok] assms(2) i(3) by auto
  have h: "head_of (m_t s) hp t' = lowest t'"
    using t'(4) i(4) by (auto simp: head_of_def hp_def)
  define s' where "s' = s\<lparr>m_t := t', m_head := lowest t', m_size := m_size s + 1, m_dirty := insert x (m_dirty s)\<rparr>"
  have "sl_inv key s' (ins key x xs)"
    using t'(2,3) i d assms(2) ordered_ins[of key xs x] set_ins[of key x xs] by (simp add: s'_def sl_inv_def grown_def)
  moreover have "sl_insert key x s = Some s'"
    using c t'(1) h d assms(2) check_ok[OF calculation]
    by (cases "m_t s = Leaf") (simp_all add: sl_insert_def hp_def s'_def)
  ultimately show ?thesis by blast
qed

lemma sl_erase_ok:
  assumes "sl_inv key s xs" "x \<in> set xs" "length xs \<le> 2 ^ 64"
  shows "\<exists>s'. sl_erase key x s = Some s' \<and> sl_inv key s' (remove1 x xs)"
proof -
  have i: "aa (m_t s)" "ordered key (inorder (m_t s))" "inorder (m_t s) = xs"
    "m_head s = lowest (m_t s)" "m_size s = length xs" and d: "m_dirty s = set xs"
    using assms(1) by (auto simp: sl_inv_def)
  have "(2::nat) ^ level (m_t s) \<le> 2 ^ 65" using level_bound[OF i(1)] i(3) assms(3) by simp
  then have "level (m_t s) \<le> 65" by (rule power_le_imp_le_exp[rotated]) simp
  then have lv: "level (m_t s) \<le> LEVEL_MAX" by (simp add: LEVEL_MAX_def)
  have c: "sl_contains key s x" using contains_t_ok[OF i(2)] i(3) assms(2) by (simp add: sl_contains_def)
  obtain t' where t': "delete_t key x (m_t s) = Some t'" "aa t'" "inorder t' = remove1 x xs"
    using delete_t_ok[OF i(1) lv i(2)] assms(2) i(3) by (auto simp: shrunk_def)
  have h: "m_head s = lowest t'" if "m_head s \<noteq> Some x"
  proof -
    obtain y ys where xs: "xs = y # ys" using assms(2) by (cases xs) auto
    then have "y \<noteq> x" using that i(3,4) by (auto simp: lowest_inorder split: if_splits)
    then show ?thesis using xs t'(3) i(3,4) by (auto simp: lowest_inorder)
  qed
  define s' where "s' = s\<lparr>m_t := t', m_head := lowest t', m_size := m_size s - 1, m_dirty := m_dirty s - {x}\<rparr>"
  have "sl_inv key s' (remove1 x xs)"
    using t'(2,3) i d assms(2) ordered_remove1[of key xs x] ordered_distinct[of key xs] by (simp add: s'_def sl_inv_def length_remove1)
  moreover have "sl_erase key x s = Some s'"
    using c t'(1) h check_ok[OF calculation]
    by (cases s; cases "m_head s = Some x") (simp_all add: sl_erase_def s'_def)
  ultimately show ?thesis by blast
qed

interpretation sl: sorted_queue "sl_inv key" "lt key" "sl_insert key" "sl_erase key" "sl_contains key"
    sl_front sl_empty "2 ^ 64" for key :: "addr \<Rightarrow> 'k::linorder"
proof unfold_locales
  fix s :: sorted_list and xs :: "addr list" and x :: addr
  assume inv: "sl_inv key s xs"
  show "ordered key xs \<and> distinct xs" using inv ordered_distinct by (auto simp: sl_inv_def)
  show "sl_contains key s x \<longleftrightarrow> x \<in> set xs"
    using inv contains_t_ok[of key "m_t s" x] by (auto simp: sl_inv_def sl_contains_def)
  show "sl_front s = Some (hd xs)" if "xs \<noteq> []"
    using inv that by (auto simp: sl_inv_def sl_front_def lowest_inorder)
  show "sl_empty s = Some (xs = [])"
    using inv by (auto simp: sl_inv_def sl_empty_def)
  show "\<exists>s' as bs. sl_insert key x s = Some s' \<and> xs = as @ bs \<and> sl_inv key s' (as @ x # bs)"
    if "x \<notin> set xs" "length xs < 2 ^ 64"
    using sl_insert_ok[OF inv that] ins_split[of xs key x] by metis
  show "\<exists>s'. sl_erase key x s = Some s' \<and> sl_inv key s' (remove1 x xs)"
    if "x \<in> set xs" "length xs \<le> 2 ^ 64"
    using sl_erase_ok[OF inv that] .
qed

lemma sl_clear_ok:
  "sl_inv key s xs \<Longrightarrow> length xs \<le> 2 ^ 64 \<Longrightarrow> \<exists>s'. sl_clear key s = Some s' \<and> sl_inv key s' []"
proof (induction xs arbitrary: s rule: length_induct)
  case (1 xs)
  show ?case
  proof (cases "xs = []")
    case True
    then show ?thesis using 1 sl.empty_law[of key s xs] by (subst sl_clear.simps) auto
  next
    case False
    then obtain a where a: "root (m_t s) = Some a" "a \<in> set xs"
      using 1(2) by (cases "m_t s") (auto simp: sl_inv_def)
    obtain s' where s': "sl_erase key a s = Some s'" "sl_inv key s' (remove1 a xs)"
      using sl_erase_ok[OF 1(2) a(2) 1(3)] by blast
    have l: "length (remove1 a xs) < length xs" using a(2) length_pos_if_in_set[of a xs] by (simp add: length_remove1)
    then obtain s'' where "sl_clear key s' = Some s''" "sl_inv key s'' []"
      using 1(1) s'(2) 1(3) by (meson less_le_trans less_imp_le_nat order_trans)
    then show ?thesis
      using False 1(2) sl.empty_law[of key s xs] a s' by (subst sl_clear.simps) simp
  qed
qed

subsection \<open>Properties\<close>

text \<open>
  C12. \<^verbatim>\<open>SortedList::insert\<close> of an object that is not in the list returns, and its result is an AA tree
  over the old elements with the new one put in at its place in the order (key, then address); the
  head pointer is the lowest element, the size is one more, and the code's own \<^verbatim>\<open>check()\<close> passes.
\<close>

theorem sl_insert_correct:
  assumes "sl_inv key s xs" "x \<notin> set xs" "length xs < 2 ^ 64"
  shows "\<exists>s'. sl_insert key x s = Some s' \<and> sl_inv key s' (ins key x xs) \<and> check key s' = Some ()"
  using sl_insert_ok[OF assms] check_ok by blast

theorem sl_insert_correct_witness:
  "\<exists>s'. sl_insert (\<lambda>a. a mod 2) 3 SortedList = Some s' \<and> sl_inv (\<lambda>a. a mod 2) s' [3]"
  using sl_insert_correct[OF sl_inv_new, of 3 "\<lambda>a. a mod 2"] by auto

text \<open>
  C11. \<^verbatim>\<open>SortedList::erase\<close> of a contained object returns; exactly that element is gone, the AA
  invariant and the order are restored by the rotations, the head pointer is again the lowest
  element, the size is one less, and \<^verbatim>\<open>check()\<close> passes.
\<close>

theorem sl_erase_correct:
  assumes "sl_inv key s xs" "x \<in> set xs" "length xs \<le> 2 ^ 64"
  shows "\<exists>s'. sl_erase key x s = Some s' \<and> sl_inv key s' (remove1 x xs) \<and> check key s' = Some ()"
  using sl_erase_ok[OF assms] check_ok by blast

definition demo_tree :: tree where
  "demo_tree = Node (Node Leaf 1 1 Leaf) 2 2 (Node (Node Leaf 3 1 Leaf) 4 2 (Node Leaf 5 1 (Node Leaf 6 1 Leaf)))"

definition demo_sl :: sorted_list where
  "demo_sl = \<lparr>m_t = demo_tree, m_head = Some 1, m_size = 6, m_dirty = {1, 2, 3, 4, 5, 6}\<rparr>"

lemma demo_sl_inv: "sl_inv (\<lambda>a. a) demo_sl [1, 2, 3, 4, 5, 6]"
  by (simp add: demo_sl_def demo_tree_def sl_inv_def aa_Node lt_def)

theorem sl_erase_correct_witness:
  "\<exists>s'. sl_erase (\<lambda>a. a) 1 demo_sl = Some s' \<and> sl_inv (\<lambda>a. a) s' [2, 3, 4, 5, 6]
     \<and> m_head s' = Some 2"
  using sl_erase_correct[OF demo_sl_inv, of 1] sl_inv_head by fastforce

text \<open>
  Taking the front and erasing it \<open>n\<close> times yields the \<open>n\<close> first elements in the order of the
  comparator, ties by address, and leaves the rest: the sorted list is a priority queue.
\<close>

theorem sl_drain_sorted:
  assumes "sl_inv key s xs" "n \<le> length xs" "length xs \<le> 2 ^ 64"
  shows "\<exists>s'. drain sl_front (sl_erase key) n s = Some (take n xs, s') \<and> sl_inv key s' (drop n xs)
    \<and> (\<forall>x \<in> set (take n xs). \<forall>y \<in> set (drop n xs). key x \<le> key y)"
proof -
  have "ordered key (take n xs @ drop n xs)" using sl.in_order[OF assms(1)] by simp
  then have "\<forall>x \<in> set (take n xs). \<forall>y \<in> set (drop n xs). key x \<le> key y"
    unfolding sorted_wrt_append by (auto dest: lt_imp_le)
  then show ?thesis using sl.drain_take[OF assms] by blast
qed

theorem sl_drain_sorted_witness:
  "\<exists>s'. drain sl_front (sl_erase (\<lambda>a. a)) 2 demo_sl = Some ([1, 2], s') \<and> sl_inv (\<lambda>a. a) s' [3, 4, 5, 6]"
  using sl_drain_sorted[OF demo_sl_inv, of 2] by auto

text \<open>
  The depth of the tree is logarithmic: a list of \<open>n\<close> elements has level at most
  \<open>log2 (n + 1)\<close>, and with at most \<open>2 ^ 64\<close> elements the level stays at 65 or below, so that the
  8 bit level never reaches the value that \<^verbatim>\<open>split()\<close> asserts against.
\<close>

theorem sl_level_bound:
  assumes "sl_inv key s xs"
  shows "2 ^ level (m_t s) \<le> length xs + 1 \<and> (length xs < 2 ^ 64 \<longrightarrow> level (m_t s) < LEVEL_MAX)"
proof -
  have i: "aa (m_t s)" "inorder (m_t s) = xs" using assms by (auto simp: sl_inv_def)
  then show ?thesis
    using level_bound[OF i(1)] level_lt[OF i(1)] by (auto simp: LEVEL_MAX_def)
qed

theorem sl_level_bound_witness: "(2::nat) ^ level (m_t demo_sl) \<le> 7 \<and> level (m_t demo_sl) < LEVEL_MAX"
  using sl_level_bound[OF demo_sl_inv] by simp

text \<open>
  \<^verbatim>\<open>SortedList::contains\<close> finds exactly the contained objects, and \<^verbatim>\<open>clear()\<close> of a list returns and
  leaves it empty, whatever its shape.
\<close>

theorem sl_contains_clear:
  assumes "sl_inv key s xs" "length xs \<le> 2 ^ 64"
  shows "(sl_contains key s x \<longleftrightarrow> x \<in> set xs) \<and> sl_empty s = Some (xs = []) \<and> sl_size s = Some (length xs)
    \<and> (\<exists>s'. sl_clear key s = Some s' \<and> sl_inv key s' [])"
  using sl.contains_law[OF assms(1)] sl.empty_law[OF assms(1)] sl_clear_ok[OF assms] assms(1)
  by (auto simp: sl_size_def sl_inv_def)

theorem sl_contains_clear_witness:
  "sl_contains (\<lambda>a. a) demo_sl 3 \<and> sl_size demo_sl = Some 6
   \<and> (\<exists>s'. sl_clear (\<lambda>a. a) demo_sl = Some s' \<and> sl_inv (\<lambda>a. a) s' [])"
  using sl_contains_clear[OF demo_sl_inv, of 3] by simp

end
