(* ===== verification/Zth_Hook.thy ===== *)
theory Zth_Hook
  imports Zth_Prelude
begin

section \<open>Hooks\<close>

text \<open>
  \<^verbatim>\<open>include/libzth/list.h\<close>, classes \<^verbatim>\<open>Hookable\<close> and \<^verbatim>\<open>Hook\<close>: a singly linked list of callbacks, the
  last added first. A callback is the pair of its function and its argument; calling it appends that
  pair to the trace of calls, which is what the model of \<^verbatim>\<open>operator()\<close> and \<^verbatim>\<open>once()\<close> returns. The
  nodes are owned by the hook, so the chain of \<^verbatim>\<open>next\<close> pointers is a list.
\<close>

datatype 'f hookable = Hookable (func: 'f) (arg: "addr option")

type_synonym 'f hook = "'f hookable list"

definition hook_add :: "'f \<Rightarrow> addr option \<Rightarrow> 'f hook \<Rightarrow> 'f hook" where
  "hook_add f a h = Hookable f a # h"

text \<open>
  The loop of \<^verbatim>\<open>remove\<close>: \<open>prev\<close> is the node before \<open>h\<close>; the loop unlinks the first node with the
  argument and stops.
\<close>

fun remove_loop :: "addr option \<Rightarrow> 'f hookable \<Rightarrow> 'f hook \<Rightarrow> 'f hook" where
  "remove_loop a prev [] = [prev]"
| "remove_loop a prev (h # next) =
     (if arg h = a then prev # next else prev # remove_loop a h next)"

definition hook_remove :: "addr option \<Rightarrow> 'f hook \<Rightarrow> 'f hook option" where
  "hook_remove a head = do {
     zth_assert (a \<noteq> None);
     Some (case head of
       [] \<Rightarrow> []
     | h # next \<Rightarrow> if arg h = a then next else remove_loop a h next)
   }"

fun hook_call :: "'f hook \<Rightarrow> ('f \<times> addr option) list" where
  "hook_call [] = []"
| "hook_call (h # next) = (func h, arg h) # hook_call next"

fun once_loop :: "'f hook \<Rightarrow> ('f \<times> addr option) list \<Rightarrow> ('f \<times> addr option) list" where
  "once_loop [] calls = calls"
| "once_loop (h # next) calls = once_loop next (calls @ [(func h, arg h)])"

definition hook_once :: "'f hook \<Rightarrow> ('f \<times> addr option) list \<times> 'f hook" where
  "hook_once head = (once_loop head [], [])"

definition hook_clear :: "'f hook \<Rightarrow> 'f hook" where
  "hook_clear head = []"

subsection \<open>Lemmas\<close>

text \<open>\<open>drop_first P xs\<close> is \<open>xs\<close> without its first element that satisfies \<open>P\<close>.\<close>

fun drop_first :: "('a \<Rightarrow> bool) \<Rightarrow> 'a list \<Rightarrow> 'a list" where
  "drop_first P [] = []"
| "drop_first P (x # xs) = (if P x then xs else x # drop_first P xs)"

lemma remove_loop_drop: "remove_loop a prev xs = prev # drop_first (\<lambda>h. arg h = a) xs"
  by (induction xs arbitrary: prev) auto

lemma hook_remove_drop: "a \<noteq> None \<Longrightarrow> hook_remove a h = Some (drop_first (\<lambda>h. arg h = a) h)"
  by (cases h) (simp_all add: hook_remove_def remove_loop_drop)

lemma drop_first_id: "\<forall>x \<in> set xs. \<not> P x \<Longrightarrow> drop_first P xs = xs"
  by (induction xs) auto

lemma once_loop_call: "once_loop h calls = calls @ hook_call h"
  by (induction h arbitrary: calls) auto

lemma hook_call_map: "hook_call h = map (\<lambda>x. (func x, arg x)) h"
  by (induction h) auto

subsection \<open>Properties\<close>

text \<open>
  \<^verbatim>\<open>once()\<close> calls every registered callback exactly once, the last registered first, and leaves the
  hook empty; \<^verbatim>\<open>remove(a)\<close> undoes the most recent \<^verbatim>\<open>add(f, a)\<close>, keeps all callbacks with another
  argument in their order, and traps on a null argument.
\<close>

theorem hook_once_remove:
  "hook_once (foldl (\<lambda>h (f, a). hook_add f a h) [] fas) = (rev fas, [])
   \<and> hook_remove (Some x) (hook_add f (Some x) h) = Some h
   \<and> filter (\<lambda>y. arg y \<noteq> Some x) (the (hook_remove (Some x) h)) = filter (\<lambda>y. arg y \<noteq> Some x) h
   \<and> hook_remove None h = None"
proof -
  have "hook_call (foldl (\<lambda>h (f, a). hook_add f a h) h0 fas) = rev fas @ hook_call h0" for h0
    by (induction fas arbitrary: h0) (auto simp: hook_add_def split: prod.splits)
  moreover have "filter (\<lambda>y. arg y \<noteq> Some x) (drop_first (\<lambda>y. arg y = Some x) h)
      = filter (\<lambda>y. arg y \<noteq> Some x) h"
    by (induction h) auto
  ultimately show ?thesis
    by (simp add: hook_once_def once_loop_call hook_remove_drop hook_add_def)
      (simp add: hook_remove_def zth_assert_def)
qed

end
