(* ===== verification/Zth_Fiber.thy ===== *)
theory Zth_Fiber
  imports Zth_Time Zth_Hook
begin

section \<open>Fibers\<close>

text \<open>
  \<^verbatim>\<open>include/libzth/fiber.h\<close>, class \<^verbatim>\<open>Fiber\<close>: the state machine of one fiber and its time
  administration. A fiber is a record with the members of the class; \<^verbatim>\<open>m_context\<close> is whether the
  context pointer is set. The clock is an argument, and so is what \<^verbatim>\<open>context_create()\<close> returns.
  Debug prints, performance events and the global \<^verbatim>\<open>hookNew\<close>/\<^verbatim>\<open>hookDead\<close> callbacks are left out:
  they observe the fiber and do not change it.

  \<^verbatim>\<open>Fiber::run()\<close> hands the processor over with \<^verbatim>\<open>context_switch()\<close> and returns only when
  another fiber switches back. The model ends at the hand-over: the result \<open>Switch\<close> says that the
  context switch was made, the other results are those the function returns without it.
\<close>

subsection \<open>Data\<close>

datatype fstate = Uninitialized | New | Ready | Running | Waiting | Suspended | Dead

record fiber =
  m_state :: fstate
  m_stateNext :: fstate
  m_stackSize :: nat
  m_context :: bool
  m_fls :: "addr option"
  m_totalTime :: TimeInterval
  m_startRun :: timespec
  m_stateEnd :: timespec
  m_timeslice :: TimeInterval
  m_dtMax :: TimeInterval
  m_exit :: "nat hook"
  m_cleanup :: "nat hook"

definition setState :: "fstate \<Rightarrow> fiber \<Rightarrow> fiber" where
  "setState st f = (if m_state f = st then f else f\<lparr>m_state := st\<rparr>)"

text \<open>The constructor, with the configured stack size and time slice; \<open>entry_null\<close> is \<^verbatim>\<open>!m_entry\<close>.\<close>

definition Fiber :: "bool \<Rightarrow> nat \<Rightarrow> TimeInterval \<Rightarrow> TimeInterval \<Rightarrow> fiber option" where
  "Fiber entry_null stackSize timeslice dtMax = do {
     let f = \<lparr>m_state = Uninitialized, m_stateNext = Ready, m_stackSize = stackSize, m_context = False,
       m_fls = None, m_totalTime = ti_null, m_startRun = ts_null, m_stateEnd = ts_null,
       m_timeslice = timeslice, m_dtMax = dtMax, m_exit = [], m_cleanup = []\<rparr>;
     let f = setState New f;
     zth_assert (\<not> entry_null);
     Some f
   }"

subsection \<open>Operations\<close>

definition setStackSize :: "nat \<Rightarrow> fiber \<Rightarrow> errno \<times> fiber" where
  "setStackSize sz f = (if m_state f \<noteq> New then (EPERM, f) else (E_OK, f\<lparr>m_stackSize := sz\<rparr>))"

definition atExit :: "nat \<Rightarrow> addr option \<Rightarrow> fiber \<Rightarrow> fiber" where
  "atExit fn a f = f\<lparr>m_exit := hook_add fn a (m_exit f)\<rparr>"

definition atCleanup :: "nat \<Rightarrow> addr option \<Rightarrow> fiber \<Rightarrow> fiber" where
  "atCleanup fn a f = f\<lparr>m_cleanup := hook_add fn a (m_cleanup f)\<rparr>"

definition kill :: "fiber \<Rightarrow> fiber" where
  "kill f = (if m_state f = Dead then f else setState Dead f)"

definition fiber_init :: "errno \<Rightarrow> timespec \<Rightarrow> fiber \<Rightarrow> (errno \<times> fiber) option" where
  "fiber_init create_res now f =
     (if m_state f \<noteq> New then Some (EPERM, f)
      else do {
        zth_assert (\<not> m_context f);
        if create_res \<noteq> E_OK then Some (create_res, kill f)
        else do {
          let f = setState (m_stateNext f) (f\<lparr>m_context := True\<rparr>);
          Some (E_OK, f\<lparr>m_stateNext := Ready, m_startRun := now\<rparr>)
        }
      })"

definition allowYield :: "timespec \<Rightarrow> fiber \<Rightarrow> bool" where
  "allowYield now f \<longleftrightarrow> m_state f \<noteq> Running \<or> m_stateEnd f < now"

definition nap :: "timespec \<Rightarrow> fiber \<Rightarrow> fiber" where
  "nap sleepUntil f = (case m_state f of
     New \<Rightarrow> f\<lparr>m_stateNext := Waiting, m_stateEnd := sleepUntil\<rparr>
   | Ready \<Rightarrow> (setState Waiting f)\<lparr>m_stateNext := Ready, m_stateEnd := sleepUntil\<rparr>
   | Running \<Rightarrow> (setState Waiting f)\<lparr>m_stateNext := Ready, m_stateEnd := sleepUntil\<rparr>
   | Suspended \<Rightarrow> f\<lparr>m_stateNext := Waiting, m_stateEnd := sleepUntil\<rparr>
   | _ \<Rightarrow> f)"

definition wakeup :: "fiber \<Rightarrow> fiber" where
  "wakeup f =
     (if m_state f = Waiting then
        let f = setState (m_stateNext f) f in
        (if m_state f = Suspended then f\<lparr>m_stateNext := Ready\<rparr> else f)
      else if m_state f = Suspended \<and> m_stateNext f = Waiting then f\<lparr>m_stateNext := Ready\<rparr>
      else f)"

text \<open>In the case \<^verbatim>\<open>Waiting\<close>, the fall-through leads to the \<^verbatim>\<open>return\<close> of the ignored states.\<close>

definition suspend :: "fiber \<Rightarrow> fiber" where
  "suspend f = (case m_state f of
     New \<Rightarrow> setState Suspended (f\<lparr>m_stateNext := New\<rparr>)
   | Running \<Rightarrow> setState Suspended (f\<lparr>m_stateNext := Ready\<rparr>)
   | Ready \<Rightarrow> setState Suspended (f\<lparr>m_stateNext := Ready\<rparr>)
   | Waiting \<Rightarrow> f\<lparr>m_stateNext := Waiting\<rparr>
   | _ \<Rightarrow> f)"

definition resume :: "fiber \<Rightarrow> fiber" where
  "resume f =
     (if m_state f \<noteq> Suspended then f
      else let f = setState (m_stateNext f) f in
        if m_state f = New then f\<lparr>m_stateNext := Ready\<rparr> else f)"

text \<open>The end of a fiber's entry function: the exit hooks run once, then the fiber is dead.\<close>

definition fiberEntry_exit :: "fiber \<Rightarrow> (nat \<times> addr option) list \<times> fiber" where
  "fiberEntry_exit f =
     (let (calls, h) = hook_once (m_exit f) in (calls, kill (f\<lparr>m_exit := h\<rparr>)))"

text \<open>The destructor: the exit and cleanup hooks that are still registered run, and the context goes.\<close>

definition fiber_destroy :: "fiber \<Rightarrow> ((nat \<times> addr option) list \<times> fiber) option" where
  "fiber_destroy f = do {
     let (c1, h1) = hook_once (m_exit f);
     let f = f\<lparr>m_exit := h1\<rparr>;
     let (c2, h2) = hook_once (m_cleanup f);
     let f = f\<lparr>m_cleanup := h2\<rparr>;
     let f = (if m_state f \<noteq> Uninitialized \<and> m_state f \<noteq> Dead then kill f else f);
     let f = setState Uninitialized f;
     zth_assert (m_fls f = None);
     Some (c1 @ c2, f\<lparr>m_context := False\<rparr>)
   }"

subsection \<open>Running a fiber\<close>

text \<open>
  What \<^verbatim>\<open>run\<close> gets from its environment: the result of \<^verbatim>\<open>context_create()\<close>, whether time slice
  overruns are checked, and the clock after an overrun was reported.
\<close>

record run_env =
  create_res :: errno
  CheckTimesliceOverrun :: bool
  now_again :: timespec

datatype run_result = Switch | Res errno

type_synonym fid = addr
type_synonym fibers = "fid \<Rightarrow> fiber"

text \<open>The case \<^verbatim>\<open>Ready\<close>: the administration of the previous fiber, then the hand-over.\<close>

definition run_ready :: "run_env \<Rightarrow> fid \<Rightarrow> fid \<Rightarrow> timespec \<Rightarrow> fibers \<Rightarrow> fibers option" where
  "run_ready env this from now fs = do {
     zth_assert (from \<noteq> this);
     let dt = ts_diff now (m_startRun (fs from));
     let ff = (fs from)\<lparr>m_totalTime := ti_add (m_totalTime (fs from)) dt\<rparr>;
     let ff = (if m_state ff = Running then setState Ready ff else ff);
     let overrun = (CheckTimesliceOverrun env \<and> ti_lt (m_dtMax ff) dt);
     let ff = (if overrun then ff\<lparr>m_dtMax := dt\<rparr> else ff);
     let now = (if overrun then now_again env else now);
     let fs = fs(from := ff);
     let ft = setState Running ((fs this)\<lparr>m_startRun := now\<rparr>);
     stateEnd \<leftarrow> ts_add now (m_timeslice ft);
     Some (fs(this := ft\<lparr>m_stateEnd := stateEnd\<rparr>))
   }"

text \<open>The switch of \<^verbatim>\<open>run\<close>; the label \<^verbatim>\<open>again\<close> is the recursion after the implicit \<^verbatim>\<open>init\<close>.\<close>

partial_function (option) fiber_run ::
  "run_env \<Rightarrow> fid \<Rightarrow> fid \<Rightarrow> timespec \<Rightarrow> fibers \<Rightarrow> (run_result \<times> fibers) option" where
  "fiber_run env this from now fs =
     (case m_state (fs this) of
        New \<Rightarrow> do {
          (res, f) \<leftarrow> fiber_init (create_res env) now (fs this);
          let fs = fs(this := f);
          if res \<noteq> E_OK then Some (Res res, fs) else fiber_run env this from now fs
        }
      | Ready \<Rightarrow> do {
          fs \<leftarrow> run_ready env this from now fs;
          Some (Switch, fs)
        }
      | Running \<Rightarrow> do {
          zth_assert (from = this);
          Some (Res EAGAIN, fs)
        }
      | Dead \<Rightarrow> Some (Res EPERM, fs)
      | _ \<Rightarrow> None)"

lemmas fiber_defs =
  setState_def kill_def nap_def wakeup_def suspend_def resume_def fiber_init_def

declare fiber_defs [fiber_ops]

subsection \<open>The life of a fiber\<close>

text \<open>
  The calls on a fiber, in any order: those of the worker, the waiter and the synchronizers, and those that a program can make itself. \<open>Dispatch\<close> and
  \<open>Preempt\<close> are the two sides of \<open>run_ready\<close>. With \<open>care\<close>, a new or suspended fiber is not made to nap, and a waiting one is not suspended;
  the library itself makes a fiber nap only when it is running (or waiting, which has no effect), but \<^verbatim>\<open>Worker::suspend()\<close> may be called for a
  waiting fiber.
\<close>

inductive fiber_step :: "bool \<Rightarrow> fiber \<Rightarrow> fiber \<Rightarrow> bool" for care where
  Init: "m_state f = New \<Longrightarrow> fiber_init r now f = Some (res, f') \<Longrightarrow> fiber_step care f f'"
| Dispatch: "m_state f = Ready \<Longrightarrow> fiber_step care f (setState Running f)"
| Preempt: "m_state f = Running \<Longrightarrow> fiber_step care f (setState Ready f)"
| Nap: "care \<longrightarrow> m_state f \<notin> {New, Suspended} \<Longrightarrow> fiber_step care f (nap t f)"
| Wakeup: "fiber_step care f (wakeup f)"
| Suspend: "care \<longrightarrow> m_state f \<noteq> Waiting \<Longrightarrow> fiber_step care f (suspend f)"
| Resume: "fiber_step care f (resume f)"
| Kill: "fiber_step care f (kill f)"
| Exit: "fiber_step care f (snd (fiberEntry_exit f))"

text \<open>The invariant of that life: what \<^verbatim>\<open>m_stateNext\<close> is in every state, and that only an initialised fiber runs.\<close>

definition fiber_inv :: "fiber \<Rightarrow> bool" where
  "fiber_inv f \<longleftrightarrow> (case m_state f of
     Uninitialized \<Rightarrow> False
   | New \<Rightarrow> m_stateNext f = Ready \<and> \<not> m_context f
   | Ready \<Rightarrow> m_stateNext f = Ready \<and> m_context f
   | Running \<Rightarrow> m_stateNext f = Ready \<and> m_context f
   | Waiting \<Rightarrow> m_stateNext f = Ready \<and> m_context f
   | Suspended \<Rightarrow> m_stateNext f = Ready \<and> m_context f \<or> m_stateNext f = New \<and> \<not> m_context f
   | Dead \<Rightarrow> True)"

lemma fiber_inv_new: "Fiber False sz ts dt = Some f \<Longrightarrow> fiber_inv f"
  by (auto simp: Fiber_def setState_def fiber_inv_def)

lemma fiber_inv_step: "fiber_step True f f' \<Longrightarrow> fiber_inv f \<Longrightarrow> fiber_inv f'"
proof (induction rule: fiber_step.induct)
  case (Init f r now res f')
  then show ?case
    by (cases "r = E_OK") (auto simp: fiber_ops fiber_inv_def Let_def split: fstate.splits)
next
  case (Exit f)
  then show ?case
    by (simp add: fiberEntry_exit_def hook_once_def kill_def setState_def fiber_inv_def)
qed (auto simp: fiber_ops fiber_inv_def Let_def split: fstate.splits)

lemma fiber_inv_reach: "(fiber_step True)\<^sup>*\<^sup>* f f' \<Longrightarrow> fiber_inv f \<Longrightarrow> fiber_inv f'"
  by (induction rule: rtranclp_induct) (auto intro: fiber_inv_step)

text \<open>Without care, a weaker invariant remains: a waiting fiber may be stuck, with \<^verbatim>\<open>Waiting\<close> as its next state.\<close>

definition fiber_any :: "fiber \<Rightarrow> bool" where
  "fiber_any f \<longleftrightarrow> (case m_state f of
     Uninitialized \<Rightarrow> False
   | New \<Rightarrow> m_stateNext f \<in> {Ready, Waiting} \<and> \<not> m_context f
   | Ready \<Rightarrow> m_stateNext f = Ready
   | Running \<Rightarrow> m_stateNext f = Ready
   | Waiting \<Rightarrow> m_stateNext f \<in> {Ready, Waiting}
   | Suspended \<Rightarrow> m_stateNext f \<in> {Ready, Waiting} \<or> m_stateNext f = New \<and> \<not> m_context f
   | Dead \<Rightarrow> True)"

lemma fiber_any_new: "Fiber False sz ts dt = Some f \<Longrightarrow> fiber_any f"
  by (auto simp: Fiber_def setState_def fiber_any_def)

lemma fiber_any_step: "fiber_step care f f' \<Longrightarrow> fiber_any f \<Longrightarrow> fiber_any f'"
proof (induction rule: fiber_step.induct)
  case (Init f r now res f')
  then show ?case
    by (cases "r = E_OK") (auto simp: fiber_ops fiber_any_def Let_def split: fstate.splits)
next
  case (Exit f)
  then show ?case
    by (simp add: fiberEntry_exit_def hook_once_def kill_def setState_def fiber_any_def)
qed (auto simp: fiber_ops fiber_any_def Let_def split: fstate.splits)

lemma fiber_any_reach: "(fiber_step care)\<^sup>*\<^sup>* f f' \<Longrightarrow> fiber_any f \<Longrightarrow> fiber_any f'"
  by (induction rule: rtranclp_induct) (auto intro: fiber_any_step)

lemma fiber_step_stuck:
  assumes "fiber_step care f f'" "m_state f = Waiting" "m_stateNext f = Waiting"
  shows "m_state f' = Waiting \<and> m_stateNext f' = Waiting \<or> m_state f' = Dead"
  using assms by (cases rule: fiber_step.cases) (auto simp: fiber_ops fiberEntry_exit_def hook_once_def Let_def)

lemma fiber_step_dead:
  assumes "fiber_step care f f'" "m_state f = Dead"
  shows "m_state f' = Dead"
  using assms by (cases rule: fiber_step.cases) (simp_all add: fiber_ops fiberEntry_exit_def hook_once_def)

lemma ts_add_positive: "\<not> m_negative dt \<Longrightarrow> \<exists>t'. ts_add t dt = Some t'"
  by (simp add: ts_add_def ti_add_def isPositive_def isNegative_def Let_def)

lemma run_ready_ok:
  assumes "from \<noteq> this" "\<not> m_negative (m_timeslice (fs this))"
  shows "\<exists>fs'. run_ready env this from now fs = Some fs' \<and> m_state (fs' this) = Running
    \<and> m_state (fs' from) = (if m_state (fs from) = Running then Ready else m_state (fs from))
    \<and> m_stateNext (fs' from) = m_stateNext (fs from) \<and> m_context (fs' from) = m_context (fs from)
    \<and> m_stateNext (fs' this) = m_stateNext (fs this) \<and> m_context (fs' this) = m_context (fs this)
    \<and> m_totalTime (fs' from) = ti_add (m_totalTime (fs from)) (ts_diff now (m_startRun (fs from)))
    \<and> m_timeslice (fs' this) = m_timeslice (fs this) \<and> m_timeslice (fs' from) = m_timeslice (fs from)
    \<and> (\<forall>f. f \<noteq> this \<longrightarrow> f \<noteq> from \<longrightarrow> fs' f = fs f)"
proof -
  obtain t1 t2 where "ts_add now (m_timeslice (fs this)) = Some t1"
      "ts_add (now_again env) (m_timeslice (fs this)) = Some t2"
    using ts_add_positive[OF assms(2)] by metis
  then show ?thesis
    using assms(1) by (auto simp: run_ready_def setState_def Let_def)
qed

lemma fiber_run_Ready:
  "m_state (fs this) = Ready \<Longrightarrow>
   fiber_run env this from now fs = map_option (\<lambda>fs. (Switch, fs)) (run_ready env this from now fs)"
  by (subst fiber_run.simps) (cases "run_ready env this from now fs"; simp)

lemma fiber_run_Running:
  "m_state (fs this) = Running \<Longrightarrow>
   fiber_run env this from now fs = (if from = this then Some (Res EAGAIN, fs) else None)"
  by (subst fiber_run.simps) (simp add: zth_assert_def)

lemma fiber_run_Dead: "m_state (fs this) = Dead \<Longrightarrow> fiber_run env this from now fs = Some (Res EPERM, fs)"
  by (subst fiber_run.simps) simp

lemma fiber_run_New:
  assumes "m_state (fs this) = New" "fiber_inv (fs this)" "create_res env = E_OK"
  shows "fiber_run env this from now fs = fiber_run env this from now
    (fs(this := (fs this)\<lparr>m_context := True, m_state := Ready, m_stateNext := Ready, m_startRun := now\<rparr>))"
  using assms
  by (subst fiber_run.simps) (simp add: fiber_init_def fiber_inv_def setState_def Let_def)

lemma fiber_run_New_fail:
  assumes "m_state (fs this) = New" "fiber_inv (fs this)" "create_res env = r" "r \<noteq> E_OK"
  shows "fiber_run env this from now fs = Some (Res r, fs(this := kill (fs this)))"
  using assms by (subst fiber_run.simps) (simp add: fiber_init_def fiber_inv_def)

lemma fiber_run_blocked:
  "m_state (fs this) \<in> {Uninitialized, Waiting, Suspended} \<Longrightarrow> fiber_run env this from now fs = None"
  by (subst fiber_run.simps) auto

text \<open>The effect of a context switch on the fibers.\<close>

definition handover :: "fid \<Rightarrow> fid \<Rightarrow> timespec \<Rightarrow> fibers \<Rightarrow> fibers \<Rightarrow> bool" where
  "handover this from now fs fs' \<longleftrightarrow>
     m_state (fs' this) = Running \<and> m_context (fs' this) \<and> m_stateNext (fs' this) = Ready
     \<and> m_timeslice (fs' this) = m_timeslice (fs this)
     \<and> m_state (fs' from) = (if m_state (fs from) = Running then Ready else m_state (fs from))
     \<and> m_stateNext (fs' from) = m_stateNext (fs from) \<and> m_context (fs' from) = m_context (fs from)
     \<and> m_timeslice (fs' from) = m_timeslice (fs from)
     \<and> m_totalTime (fs' from) = ti_add (m_totalTime (fs from)) (ts_diff now (m_startRun (fs from)))
     \<and> (\<forall>f. f \<noteq> this \<longrightarrow> f \<noteq> from \<longrightarrow> fs' f = fs f)"

lemma fiber_run_switches:
  assumes "fiber_inv (fs this)" "from \<noteq> this" "\<not> m_negative (m_timeslice (fs this))"
    "m_state (fs this) \<in> {New, Ready}" "create_res env = E_OK"
  shows "\<exists>fs'. fiber_run env this from now fs = Some (Switch, fs') \<and> handover this from now fs fs'"
proof (cases "m_state (fs this) = Ready")
  case True
  then show ?thesis
    using run_ready_ok[of "from" this fs env now] assms
    by (auto simp: fiber_run_Ready fiber_inv_def handover_def)
next
  case False
  let ?fs = "fs(this := (fs this)\<lparr>m_context := True, m_state := Ready, m_stateNext := Ready, m_startRun := now\<rparr>)"
  have "fiber_run env this from now fs = fiber_run env this from now ?fs"
    using fiber_run_New[of fs this env "from" now] assms False by auto
  also have "\<dots> = map_option (\<lambda>fs. (Switch, fs)) (run_ready env this from now ?fs)"
    by (rule fiber_run_Ready) simp
  finally show ?thesis
    using run_ready_ok[of "from" this ?fs env now] assms by (auto simp: handover_def)
qed

subsection \<open>Properties\<close>

text \<open>
  C36. The life of a fiber from its construction, under all calls in any order. As long as no new or suspended fiber is made to nap and no waiting one is
  suspended: a ready, running or waiting fiber has a context, waking up a waiting fiber makes it ready, and resuming a suspended one makes it ready, or
  new if it never ran. Without this proviso: \<^verbatim>\<open>wakeup()\<close> makes a waiting fiber ready, or it is stuck, that is, it keeps waiting whatever is called, until
  it is killed or ends. In any case a dead fiber stays dead, and killing works in every state.
\<close>

theorem fiber_life_safe:
  assumes "Fiber False sz ts dt = Some f0" "(fiber_step care)\<^sup>*\<^sup>* f0 f"
  shows "(care \<longrightarrow> (m_state f \<in> {Ready, Running, Waiting} \<longrightarrow> m_context f)
      \<and> (m_state f = Waiting \<longrightarrow> m_state (wakeup f) = Ready)
      \<and> (m_state f = Suspended \<longrightarrow> m_state (resume f) = (if m_context f then Ready else New)))
    \<and> (m_state f = Waiting \<longrightarrow> m_state (wakeup f) = Ready
      \<or> (\<forall>f'. (fiber_step care)\<^sup>*\<^sup>* f f' \<longrightarrow> m_state f' \<in> {Waiting, Dead}))
    \<and> (m_state f = Suspended \<longrightarrow> m_state (resume f) \<in> {Ready, New, Waiting})
    \<and> (m_state f = Dead \<longrightarrow> (\<forall>f'. (fiber_step care)\<^sup>*\<^sup>* f f' \<longrightarrow> m_state f' = Dead))
    \<and> m_state f \<noteq> Uninitialized \<and> m_state (kill f) = Dead"
proof -
  have inv: "care \<longrightarrow> fiber_inv f" using fiber_inv_reach[of f0 f] fiber_inv_new[OF assms(1)] assms(2) by (cases care) simp_all
  have any: "fiber_any f" using fiber_any_reach[OF assms(2)] fiber_any_new[OF assms(1)] by simp
  have stuck: "m_state f' = Waiting \<and> m_stateNext f' = Waiting \<or> m_state f' = Dead"
    if "(fiber_step care)\<^sup>*\<^sup>* f f'" "m_state f = Waiting" "m_stateNext f = Waiting" for f'
    using that by (induction rule: rtranclp_induct) (auto dest: fiber_step_stuck fiber_step_dead)
  have dead: "m_state f' = Dead" if "(fiber_step care)\<^sup>*\<^sup>* f f'" "m_state f = Dead" for f'
    using that by (induction rule: rtranclp_induct) (auto dest: fiber_step_dead)
  have "m_state (wakeup f) = Ready" if "m_state f = Waiting" "m_stateNext f \<noteq> Waiting"
    using any that by (simp add: fiber_any_def wakeup_def setState_def)
  then have 1: "m_state (wakeup f) = Ready \<or> (\<forall>f'. (fiber_step care)\<^sup>*\<^sup>* f f' \<longrightarrow> m_state f' \<in> {Waiting, Dead})" if "m_state f = Waiting"
    using stuck that by blast
  have 2: "(m_state f \<in> {Ready, Running, Waiting} \<longrightarrow> m_context f) \<and> (m_state f = Waiting \<longrightarrow> m_state (wakeup f) = Ready)
      \<and> (m_state f = Suspended \<longrightarrow> m_state (resume f) = (if m_context f then Ready else New))" if care
    using inv that by (auto simp: fiber_inv_def wakeup_def resume_def setState_def Let_def)
  have 3: "m_state (resume f) \<in> {Ready, New, Waiting}" if "m_state f = Suspended"
    using any that by (auto simp: fiber_any_def resume_def setState_def Let_def)
  have 4: "m_state f \<noteq> Uninitialized" "m_state (kill f) = Dead" using any by (auto simp: fiber_any_def kill_def setState_def)
  show ?thesis using 1 2 3 4 dead by blast
qed

definition demo_fiber :: fiber where
  "demo_fiber = the (Fiber False 4096 ti_null ti_null)"

theorem fiber_life_safe_witness:
  "m_state (resume (suspend demo_fiber)) = New \<and> m_state (suspend demo_fiber) = Suspended"
proof -
  have f: "Fiber False 4096 ti_null ti_null = Some demo_fiber"
    by (simp add: demo_fiber_def Fiber_def)
  have "m_state demo_fiber = New" "\<not> m_context demo_fiber"
    by (simp_all add: demo_fiber_def Fiber_def setState_def)
  then have st: "fiber_step True demo_fiber (suspend demo_fiber)" "m_state (suspend demo_fiber) = Suspended"
      "\<not> m_context (suspend demo_fiber)"
    by (simp add: fiber_step.Suspend) (simp_all add: suspend_def setState_def \<open>m_state demo_fiber = New\<close>
        \<open>\<not> m_context demo_fiber\<close>)
  with fiber_life_safe[OF f r_into_rtranclp[of "fiber_step True", OF st(1)]] show ?thesis by simp
qed

text \<open>
  \<^verbatim>\<open>run()\<close> of a new or ready fiber from another one, with a context that can be created, switches: the
  fiber is running and initialised, the fiber it came from is no longer running, its run time went
  into its total, and no other fiber changed. A running fiber gives \<^verbatim>\<open>EAGAIN\<close>, a dead one \<^verbatim>\<open>EPERM\<close>, and
  a failing context creation its error code with the fiber dead.
\<close>

theorem fiber_run_correct:
  assumes "fiber_inv (fs this)" "from \<noteq> this" "\<not> m_negative (m_timeslice (fs this))"
  shows "(m_state (fs this) \<in> {New, Ready} \<and> create_res env = E_OK \<longrightarrow>
      (\<exists>fs'. fiber_run env this from now fs = Some (Switch, fs') \<and> handover this from now fs fs'))
    \<and> (m_state (fs this) = New \<and> create_res env \<noteq> E_OK \<longrightarrow>
        fiber_run env this from now fs = Some (Res (create_res env), fs(this := kill (fs this))))
    \<and> (m_state (fs this) = Dead \<longrightarrow> fiber_run env this from now fs = Some (Res EPERM, fs))
    \<and> (m_state (fs this) = Running \<longrightarrow> fiber_run env this this now fs = Some (Res EAGAIN, fs))"
  using fiber_run_switches[of fs this "from", OF assms] fiber_run_New_fail[of fs this env "create_res env" "from" now]
    fiber_run_Dead[of fs this] fiber_run_Running[of fs this env this] assms(1)
  by auto

definition demo_env :: run_env where
  "demo_env = \<lparr>create_res = E_OK, CheckTimesliceOverrun = False, now_again = ts_null\<rparr>"

lemma demo_fiber_inv: "fiber_inv demo_fiber" "m_state demo_fiber = New" "m_timeslice demo_fiber = ti_null"
  by (simp_all add: demo_fiber_def Fiber_def setState_def fiber_inv_def)

theorem fiber_run_correct_witness:
  "\<exists>fs'. fiber_run demo_env 1 2 ts_null (\<lambda>_. demo_fiber) = Some (Switch, fs')
     \<and> handover 1 2 ts_null (\<lambda>_. demo_fiber) fs'"
  using fiber_run_correct[of "\<lambda>_. demo_fiber" 1 2 demo_env ts_null] demo_fiber_inv
  by (auto simp: ti_null_def demo_env_def)

text \<open>
  Suspending a waiting fiber is lost and makes it unwakeable: \<^verbatim>\<open>suspend()\<close> only sets the next state
  to \<^verbatim>\<open>Waiting\<close>, so that every later \<^verbatim>\<open>wakeup()\<close> leaves the fiber waiting, although the code of
  \<^verbatim>\<open>wakeup()\<close> has a branch to enter the suspended state at that moment.
\<close>

theorem suspend_waiting_unwakeable:
  assumes "m_state f = Waiting"
  shows "m_state (suspend f) = Waiting \<and> (wakeup ^^ n) (suspend f) = suspend f"
proof -
  have "wakeup (suspend f) = suspend f"
    using assms by (simp add: suspend_def wakeup_def setState_def Let_def)
  moreover from this have "(wakeup ^^ n) (suspend f) = suspend f" by (induction n) simp_all
  ultimately show ?thesis using assms by (simp add: suspend_def)
qed

theorem suspend_waiting_unwakeable_witness:
  "m_state (wakeup (suspend (demo_fiber\<lparr>m_state := Waiting\<rparr>))) = Waiting"
  using suspend_waiting_unwakeable[of "demo_fiber\<lparr>m_state := Waiting\<rparr>" 1] by simp

text \<open>
  Napping in advance does not work. A new fiber on which \<^verbatim>\<open>nap()\<close> was called traps in its first
  \<^verbatim>\<open>run()\<close>: the implicit initialisation makes it waiting, and a waiting fiber hits the failing
  assertion of the switch. A new fiber that is suspended, napped, woken up and resumed becomes
  ready without ever getting a context.
\<close>

theorem nap_in_advance:
  assumes "m_state f = New" "\<not> m_context f"
  shows "fiber_run env this from now (fs(this := nap t f)) =
      (if create_res env = E_OK then None else Some (Res (create_res env), fs(this := kill (nap t f))))
    \<and> m_state (resume (wakeup (nap t (suspend f)))) = Ready
    \<and> \<not> m_context (resume (wakeup (nap t (suspend f))))"
proof -
  have "fiber_run env this from now (fs(this := nap t f)) =
      (if create_res env = E_OK then None else Some (Res (create_res env), fs(this := kill (nap t f))))"
    using assms
    by (subst fiber_run.simps) (simp add: nap_def fiber_init_def setState_def fiber_run_blocked Let_def)
  then show ?thesis
    using assms by (simp add: suspend_def nap_def wakeup_def resume_def setState_def Let_def)
qed

theorem nap_in_advance_witness:
  "fiber_run demo_env 1 2 ts_null ((\<lambda>_. demo_fiber)(1 := nap ts_null demo_fiber)) = None"
  using nap_in_advance[of demo_fiber demo_env 1 2 ts_null "\<lambda>_. demo_fiber" ts_null] demo_fiber_inv
  by (simp add: demo_env_def fiber_inv_def)

end
