(* ===== verification/Zth_Worker.thy ===== *)
theory Zth_Worker
  imports Zth_Fiber Zth_List
begin

section \<open>The worker: cooperative scheduling\<close>

text \<open>
  \<^verbatim>\<open>include/libzth/worker.h\<close>, class \<^verbatim>\<open>Worker\<close>: the run queue and the suspended queue of the fibers of
  one thread, and the scheduler.

  \<^item> The two \<^verbatim>\<open>List<Fiber>\<close> queues are the abstract lists of \<open>Zth_List\<close>; their operations are the
    \<open>spec_\<close> functions that the pointer lists are proved to refine there. A \<^verbatim>\<open>Fiber\<close> has one pair
    of links, so pushing a fiber that is in either queue traps.
  \<^item> The fibers are a store from their addresses; \<^verbatim>\<open>m_workerFiber\<close> is the address of the fiber that
    stands for the worker's own context.
  \<^item> A context switch moves control to another C stack. The model of \<^verbatim>\<open>schedule()\<close> ends there:
    \<open>SwitchedTo f\<close> says that control is with \<open>f\<close>, whose own pending call of \<^verbatim>\<open>schedule()\<close> returned
    true and restored \<^verbatim>\<open>m_currentFiber\<close> to \<open>f\<close>, or to null for the worker. \<open>Returned b\<close> is a
    return to the caller without a switch. \<open>None\<close> is an abort or a failed assertion.

  The reference count of a fiber, the signal check and the debug prints are left out.
\<close>

subsection \<open>Data\<close>

record worker =
  m_fibers :: fibers
  m_currentFiber :: "fid option"
  m_runnableQueue :: "fid list"
  m_suspendedQueue :: "fid list"
  m_workerFiber :: fid
  m_end :: timespec
  m_disableContextSwitch :: int

datatype sched_result = Returned bool | SwitchedTo fid

abbreviation st :: "worker \<Rightarrow> fid \<Rightarrow> fstate" where
  "st w f \<equiv> m_state (m_fibers w f)"

definition upd_fiber :: "fid \<Rightarrow> (fiber \<Rightarrow> fiber) \<Rightarrow> worker \<Rightarrow> worker" where
  "upd_fiber f g w = w\<lparr>m_fibers := (m_fibers w)(f := g (m_fibers w f))\<rparr>"

subsection \<open>The queues\<close>

definition linked :: "worker \<Rightarrow> fid \<Rightarrow> bool" where
  "linked w f \<longleftrightarrow> f \<in> set (m_runnableQueue w) \<or> f \<in> set (m_suspendedQueue w)"

definition add :: "fid \<Rightarrow> bool \<Rightarrow> worker \<Rightarrow> worker option" where
  "add f front w = do {
     zth_assert (st w f \<noteq> Waiting);
     zth_assert (\<not> linked w f);
     if st w f = Suspended then do {
       q \<leftarrow> spec_push_back f (m_suspendedQueue w);
       Some (w\<lparr>m_suspendedQueue := q\<rparr>)
     } else if front then do {
       q \<leftarrow> spec_push_front f (m_runnableQueue w);
       Some (w\<lparr>m_runnableQueue := q\<rparr>)
     } else do {
       q \<leftarrow> spec_push_back f (m_runnableQueue w);
       Some (w\<lparr>m_runnableQueue := q\<rparr>)
     }
   }"

definition hatch :: "fid \<Rightarrow> worker \<Rightarrow> worker option" where
  "hatch f w = do {
     zth_assert (st w f = New);
     add f False w
   }"

text \<open>\<^verbatim>\<open>operator<<\<close>.\<close>

definition worker_add :: "fid \<Rightarrow> worker \<Rightarrow> worker option" where
  "worker_add f w = (if st w f = New then hatch f w else add f False w)"

definition contextSwitchEnable :: "bool \<Rightarrow> worker \<Rightarrow> worker option" where
  "contextSwitchEnable enable w =
     (if enable then do {
        zth_assert (m_disableContextSwitch w > 0);
        Some (w\<lparr>m_disableContextSwitch := m_disableContextSwitch w - 1\<rparr>)
      } else Some (w\<lparr>m_disableContextSwitch := m_disableContextSwitch w + 1\<rparr>))"

definition contextSwitchEnabled :: "worker \<Rightarrow> bool" where
  "contextSwitchEnabled w \<longleftrightarrow> m_disableContextSwitch w = 0"

definition release :: "fid \<Rightarrow> worker \<Rightarrow> worker option" where
  "release f w =
     (if st w f = Suspended then do {
        q \<leftarrow> spec_erase f (m_suspendedQueue w);
        Some (w\<lparr>m_suspendedQueue := q\<rparr>)
      } else do {
        q \<leftarrow> spec_erase f (m_runnableQueue w);
        Some (w\<lparr>m_runnableQueue := q\<rparr>)
      })"

subsection \<open>Scheduling\<close>

text \<open>The block after \<^verbatim>\<open>reschedule:\<close> that picks a fiber, rotates the queue past it and runs it.\<close>

definition pick :: "fid option \<Rightarrow> worker \<Rightarrow> fid" where
  "pick next w = (case next of
     Some n \<Rightarrow> n
   | None \<Rightarrow> (case m_runnableQueue w of f # _ \<Rightarrow> f | [] \<Rightarrow> m_workerFiber w))"

definition run_next :: "run_env \<Rightarrow> fid \<Rightarrow> timespec \<Rightarrow> worker \<Rightarrow> (run_result \<times> worker) option" where
  "run_next env next now w = do {
     let prev = m_currentFiber w;
     w \<leftarrow> (if next \<noteq> m_workerFiber w then do {
         q \<leftarrow> spec_rotate_next next (m_runnableQueue w);
         Some (w\<lparr>m_runnableQueue := q\<rparr>)
       } else Some w);
     let from = (case prev of Some p \<Rightarrow> p | None \<Rightarrow> m_workerFiber w);
     (res, fs) \<leftarrow> fiber_run env next from now (m_fibers w);
     let w = w\<lparr>m_fibers := fs\<rparr>;
     Some (case res of
         Switch \<Rightarrow> (Switch, w\<lparr>m_currentFiber := (if next = m_workerFiber w then None else Some next)\<rparr>)
       | Res e \<Rightarrow> (Res e, w\<lparr>m_currentFiber := prev\<rparr>))
   }"

text \<open>
  \<^verbatim>\<open>cleanup(fiber)\<close>: the dead fiber leaves the run queue, unless it is the current one, whose stack
  is in use: then the worker is scheduled, and coming back from that is an abort. The nested
  \<^verbatim>\<open>schedule(&m_workerFiber)\<close> runs the worker fiber, which never died.
\<close>

definition cleanup :: "run_env \<Rightarrow> fid \<Rightarrow> worker \<Rightarrow> (sched_result option \<times> worker) option" where
  "cleanup env f w = do {
     zth_assert (st w f = Dead);
     if m_currentFiber w = Some f then do {
       zth_assert (contextSwitchEnabled w);
       (res, w) \<leftarrow> run_next env (m_workerFiber w) (now_again env) w;
       zth_assert (res = Switch);
       Some (Some (SwitchedTo (m_workerFiber w)), w)
     } else do {
       q \<leftarrow> spec_erase f (m_runnableQueue w);
       zth_assert (f \<noteq> m_workerFiber w);
       Some (None, w\<lparr>m_runnableQueue := q\<rparr>)
     }
   }"

partial_function (option) schedule_loop ::
  "run_env \<Rightarrow> timespec \<Rightarrow> fid option \<Rightarrow> bool \<Rightarrow> worker \<Rightarrow> (sched_result \<times> worker) option" where
  "schedule_loop env now next didSchedule w = do {
     let nextFiber = pick next w;
     (res, w) \<leftarrow> run_next env nextFiber now w;
     case res of
       Switch \<Rightarrow> Some (SwitchedTo nextFiber, w)
     | Res e \<Rightarrow>
         if e = EAGAIN then Some (Returned didSchedule, w)
         else if e = EPERM then do {
           (sw, w) \<leftarrow> cleanup env nextFiber w;
           case sw of
             Some r \<Rightarrow> Some (r, w)
           | None \<Rightarrow> schedule_loop env now None True w
         } else None
   }"

definition schedule :: "run_env \<Rightarrow> fid option \<Rightarrow> timespec \<Rightarrow> worker \<Rightarrow> (sched_result \<times> worker) option" where
  "schedule env preferFiber now w =
     (if \<not> contextSwitchEnabled w then Some (Returned True, w)
      else do {
        zth_assert (case preferFiber of None \<Rightarrow> True
          | Some p \<Rightarrow> p = m_workerFiber w \<or> p \<in> set (m_runnableQueue w));
        let next = (if \<not> ts_isNull (m_end w) \<and> isBefore (m_end w) now then Some (m_workerFiber w)
          else preferFiber);
        schedule_loop env now next False w
      })"

definition yield :: "run_env \<Rightarrow> fid option \<Rightarrow> bool \<Rightarrow> timespec \<Rightarrow> worker \<Rightarrow> (sched_result \<times> worker) option" where
  "yield env preferFiber alwaysYield now w = do {
     f \<leftarrow> m_currentFiber w;
     if \<not> alwaysYield \<and> \<not> allowYield now (m_fibers w f) then Some (Returned True, w)
     else schedule env preferFiber now w
   }"

definition outOfWork :: "run_env \<Rightarrow> timespec \<Rightarrow> worker \<Rightarrow> (sched_result \<times> worker) option" where
  "outOfWork env now w = yield env None True now w"

subsection \<open>Suspending and resuming\<close>

definition worker_suspend :: "run_env \<Rightarrow> fid \<Rightarrow> timespec \<Rightarrow> worker \<Rightarrow> (sched_result \<times> worker) option" where
  "worker_suspend env f now w =
     (if st w f \<in> {New, Ready} then do {
        w \<leftarrow> release f w;
        w \<leftarrow> add f False (upd_fiber f suspend w);
        Some (Returned True, w)
      } else if st w f = Running then do {
        w \<leftarrow> release f w;
        w \<leftarrow> add f False (upd_fiber f suspend w);
        zth_assert (m_currentFiber w = Some f);
        zth_assert (contextSwitchEnabled w);
        schedule env None now w
      } else if st w f = Waiting then Some (Returned True, upd_fiber f suspend w)
      else Some (Returned True, w))"

definition worker_resume :: "fid \<Rightarrow> worker \<Rightarrow> worker option" where
  "worker_resume f w =
     (if st w f \<noteq> Suspended then Some w
      else do {
        w \<leftarrow> release f w;
        add f False (upd_fiber f resume w)
      })"

subsection \<open>Running and ending the worker\<close>

text \<open>
  \<^verbatim>\<open>run(duration)\<close>: \<open>run_start\<close> sets the end time, \<open>run_continues\<close> is the condition of the loop
  around \<^verbatim>\<open>schedule()\<close>, \<open>run_iteration\<close> its body as far as control stays with the worker.
\<close>

definition run_start :: "TimeInterval \<Rightarrow> timespec \<Rightarrow> worker \<Rightarrow> worker option" where
  "run_start duration now w =
     (if ti_le duration ti_null then Some (w\<lparr>m_end := ts_null\<rparr>)
      else do { e \<leftarrow> ts_add now duration; Some (w\<lparr>m_end := e\<rparr>) })"

definition run_continues :: "timespec \<Rightarrow> worker \<Rightarrow> bool" where
  "run_continues now w \<longleftrightarrow>
     m_runnableQueue w \<noteq> [] \<and> (ts_isNull (m_end w) \<or> now < m_end w)"

definition run_iteration :: "run_env \<Rightarrow> timespec \<Rightarrow> worker \<Rightarrow> (sched_result \<times> worker) option" where
  "run_iteration env now w = do {
     (r, w) \<leftarrow> schedule env None now w;
     (case r of Returned _ \<Rightarrow> zth_assert (m_currentFiber w = None) | SwitchedTo _ \<Rightarrow> Some ());
     Some (r, w)
   }"

text \<open>The two loops of the destructor.\<close>

partial_function (option) destroy_suspended :: "worker \<Rightarrow> worker option" where
  "destroy_suspended w = (case m_suspendedQueue w of
     [] \<Rightarrow> Some w
   | f # _ \<Rightarrow> do {
       w \<leftarrow> worker_resume f w;
       destroy_suspended (upd_fiber f kill w)
     })"

partial_function (option) destroy_runnable :: "run_env \<Rightarrow> worker \<Rightarrow> worker option" where
  "destroy_runnable env w = (case m_runnableQueue w of
     [] \<Rightarrow> Some w
   | f # _ \<Rightarrow> do {
       (sw, w) \<leftarrow> cleanup env f (upd_fiber f kill w);
       zth_assert (sw = None);
       destroy_runnable env w
     })"

definition worker_destroy :: "run_env \<Rightarrow> worker \<Rightarrow> worker option" where
  "worker_destroy env w = do { w \<leftarrow> destroy_suspended w; destroy_runnable env w }"

lemmas worker_defs =
  add_def hatch_def worker_add_def release_def worker_resume_def upd_fiber_def linked_def
  spec_push_back_def spec_push_front_def spec_erase_def

declare worker_defs [worker_ops]

subsection \<open>Invariant\<close>

text \<open>The context that has control: the current fiber, or the worker when there is none.\<close>

definition holder :: "worker \<Rightarrow> fid" where
  "holder w = (case m_currentFiber w of Some f \<Rightarrow> f | None \<Rightarrow> m_workerFiber w)"

lemma holder_upd [simp]:
  "holder (w\<lparr>m_runnableQueue := q\<rparr>) = holder w"
  "holder (w\<lparr>m_suspendedQueue := q\<rparr>) = holder w"
  "holder (w\<lparr>m_fibers := fs\<rparr>) = holder w"
  "holder (w\<lparr>m_end := e\<rparr>) = holder w"
  "holder (w\<lparr>m_disableContextSwitch := n\<rparr>) = holder w"
  by (simp_all add: holder_def cong: option.case_cong)

lemma holder_Some [simp]: "m_currentFiber w = Some f \<Longrightarrow> holder w = f"
  by (simp add: holder_def)

definition fibers_ok :: "worker \<Rightarrow> bool" where
  "fibers_ok w \<longleftrightarrow> (\<forall>f. st w f \<noteq> Uninitialized \<longrightarrow>
     fiber_inv (m_fibers w f) \<and> \<not> m_negative (m_timeslice (m_fibers w f)))"

definition queues_ok :: "worker \<Rightarrow> bool" where
  "queues_ok w \<longleftrightarrow>
     distinct (m_runnableQueue w @ m_suspendedQueue w)
     \<and> \<not> linked w (m_workerFiber w)
     \<and> (\<forall>f \<in> set (m_runnableQueue w). st w f \<in> {New, Ready, Running, Dead})
     \<and> (\<forall>f \<in> set (m_suspendedQueue w). st w f = Suspended)"

definition control_ok :: "worker \<Rightarrow> bool" where
  "control_ok w \<longleftrightarrow>
     m_currentFiber w \<noteq> Some (m_workerFiber w)
     \<and> st w (m_workerFiber w) \<in> {Ready, Running}
     \<and> (\<forall>f. f \<noteq> holder w \<longrightarrow> st w f \<noteq> Running)
     \<and> (st w (holder w) = Running \<longrightarrow> holder w = m_workerFiber w \<or> holder w \<in> set (m_runnableQueue w))
     \<and> (\<forall>c. m_currentFiber w = Some c \<longrightarrow> st w c \<in> {Running, Dead, Waiting, Suspended})"

definition winv :: "worker \<Rightarrow> bool" where
  "winv w \<longleftrightarrow> fibers_ok w \<and> queues_ok w \<and> control_ok w"

lemma runningD: "winv w \<Longrightarrow> st w f = Running \<Longrightarrow> f = holder w"
  by (auto simp: winv_def control_ok_def)

lemma current_running_queued:
  assumes "winv w" "m_currentFiber w = Some f" "st w f = Running"
  shows "f \<in> set (m_runnableQueue w)" "f \<noteq> m_workerFiber w"
  using assms by (auto simp: winv_def control_ok_def)

lemmas winv_defs = winv_def fibers_ok_def queues_ok_def control_ok_def linked_def

lemma handover_fiber_inv:
  assumes "handover this from now fs fs'" "\<forall>f. m_state (fs f) \<noteq> Uninitialized \<longrightarrow>
      fiber_inv (fs f) \<and> \<not> m_negative (m_timeslice (fs f))" "m_state (fs this) \<noteq> Uninitialized"
  shows "\<forall>f. m_state (fs' f) \<noteq> Uninitialized \<longrightarrow>
      fiber_inv (fs' f) \<and> \<not> m_negative (m_timeslice (fs' f))"
proof
  fix f
  consider "f = this" | "f = from" "f \<noteq> this" | "f \<noteq> this" "f \<noteq> from" by blast
  then show "m_state (fs' f) \<noteq> Uninitialized \<longrightarrow>
      fiber_inv (fs' f) \<and> \<not> m_negative (m_timeslice (fs' f))"
  proof cases
    case 1
    then show ?thesis using assms by (simp add: handover_def fiber_inv_def)
  next
    case 2
    then show ?thesis using assms(1) assms(2)[rule_format, of f]
      by (auto simp: handover_def fiber_inv_def split: fstate.splits if_splits)
  next
    case 3
    then show ?thesis using assms by (simp add: handover_def)
  qed
qed

definition queue_after :: "fid \<Rightarrow> worker \<Rightarrow> fid list" where
  "queue_after next w =
     (if next = m_workerFiber w then m_runnableQueue w else rotate_past next (m_runnableQueue w))"

lemma queue_after_set:
  "next = m_workerFiber w \<or> next \<in> set (m_runnableQueue w) \<Longrightarrow> set (queue_after next w) = set (m_runnableQueue w)"
  "next = m_workerFiber w \<or> next \<in> set (m_runnableQueue w) \<Longrightarrow>
    distinct (queue_after next w) \<longleftrightarrow> distinct (m_runnableQueue w)"
  by (auto simp: queue_after_def rotate_past_facts)

lemma run_next_eq:
  assumes "next = m_workerFiber w \<or> next \<in> set (m_runnableQueue w)"
  shows "run_next env next now w = do {
     (res, fs) \<leftarrow> fiber_run env next (holder w) now (m_fibers w);
     let w = w\<lparr>m_fibers := fs, m_runnableQueue := queue_after next w\<rparr>;
     Some (res, if res = Switch
       then w\<lparr>m_currentFiber := (if next = m_workerFiber w then None else Some next)\<rparr> else w)
   }"
  using assms
  by (cases "fiber_run env next (holder w) now (m_fibers w)")
    (auto simp: run_next_def spec_rotate_next_def queue_after_def holder_def Let_def
      split: option.splits run_result.splits prod.splits)

text \<open>The three outcomes of the block: a switch, the same fiber again, a dead fiber.\<close>

lemma run_next_switch:
  assumes "winv w" "create_res env = E_OK" "next = m_workerFiber w \<or> next \<in> set (m_runnableQueue w)"
    "st w next \<in> {New, Ready}" "next \<noteq> holder w"
  shows "\<exists>fs'. handover next (holder w) now (m_fibers w) fs' \<and> run_next env next now w = Some (Switch,
      w\<lparr>m_fibers := fs', m_runnableQueue := queue_after next w,
        m_currentFiber := (if next = m_workerFiber w then None else Some next)\<rparr>)"
proof -
  have "fiber_inv (m_fibers w next)" "\<not> m_negative (m_timeslice (m_fibers w next))"
    using assms(1,4) by (auto simp: winv_def fibers_ok_def)
  then obtain fs' where "fiber_run env next (holder w) now (m_fibers w) = Some (Switch, fs')"
      "handover next (holder w) now (m_fibers w) fs'"
    using fiber_run_switches[of "m_fibers w" "next" "holder w" env now] assms by auto
  then show ?thesis using run_next_eq[OF assms(3)] by (auto simp: Let_def)
qed

lemma run_next_again:
  assumes "next = m_workerFiber w \<or> next \<in> set (m_runnableQueue w)" "st w next = Running" "next = holder w"
  shows "run_next env next now w = Some (Res EAGAIN, w\<lparr>m_runnableQueue := queue_after next w\<rparr>)"
  using assms run_next_eq[OF assms(1)] by (simp add: fiber_run_Running)

lemma run_next_dead:
  assumes "next \<in> set (m_runnableQueue w)" "st w next = Dead"
  shows "run_next env next now w = Some (Res EPERM, w\<lparr>m_runnableQueue := queue_after next w\<rparr>)"
  using assms run_next_eq[of "next" w] by (simp add: fiber_run_Dead)

lemma winv_requeue:
  assumes "winv w" "set q = set (m_runnableQueue w)" "distinct q"
  shows "winv (w\<lparr>m_runnableQueue := q\<rparr>)"
  using assms by (auto simp: winv_defs)

lemma winv_switch:
  assumes "winv w" "handover next (holder w) now (m_fibers w) fs'"
    "next = m_workerFiber w \<or> next \<in> set (m_runnableQueue w)"
    "st w next \<in> {New, Ready}" "next \<noteq> holder w"
  shows "winv (w\<lparr>m_fibers := fs', m_runnableQueue := queue_after next w,
        m_currentFiber := (if next = m_workerFiber w then None else Some next)\<rparr>)" (is "winv ?w")
proof -
  note inv = assms(1)[unfolded winv_def]
  have q: "set (queue_after next w) = set (m_runnableQueue w)" "distinct (queue_after next w)"
    using queue_after_set[OF assms(3)] inv by (auto simp: queues_ok_def)
  have s': "m_state (fs' f) = (if f = next then Running
      else if f = holder w \<and> st w f = Running then Ready else st w f)" for f
    using assms(2,5) by (auto simp: handover_def)
  have "fibers_ok ?w"
    using handover_fiber_inv[OF assms(2)] inv assms(4) by (auto simp: fibers_ok_def)
  moreover have "queues_ok ?w"
    using inv q assms(3,4) by (auto simp: queues_ok_def linked_def s')
  moreover have "control_ok ?w"
  proof -
    have h: "holder ?w = next" by (simp add: holder_def)
    have r: "m_state (fs' f) \<noteq> Running" if "f \<noteq> next" for f
      using that inv unfolding s'[of f] control_ok_def by (cases "f = holder w") simp_all
    have wk: "m_state (fs' (m_workerFiber w)) \<in> {Ready, Running}"
      using inv by (simp add: s' control_ok_def)
    have n: "m_state (fs' next) = Running" by (simp add: s')
    have m: "next = m_workerFiber w \<or> next \<in> set (queue_after next w)" using assms(3) q(1) by blast
    have c: "m_currentFiber ?w \<noteq> Some (m_workerFiber ?w)"
      "\<forall>c. m_currentFiber ?w = Some c \<longrightarrow> m_state (fs' c) \<in> {Running, Dead, Waiting, Suspended}"
      using n by simp_all
    show ?thesis
      unfolding control_ok_def h
    proof (intro conjI)
      show "st ?w (m_workerFiber ?w) \<in> {Ready, Running}" using wk by simp
      show "\<forall>f. f \<noteq> next \<longrightarrow> st ?w f \<noteq> Running" using r by simp
      show "st ?w next = Running \<longrightarrow> next = m_workerFiber ?w \<or> next \<in> set (m_runnableQueue ?w)"
        using m by simp
      show "\<forall>c. m_currentFiber ?w = Some c \<longrightarrow> st ?w c \<in> {Running, Dead, Waiting, Suspended}"
        using c(2) by simp
    qed (rule c(1))
  qed
  ultimately show ?thesis by (simp add: winv_def)
qed

lemma holder_not_ready:
  assumes "winv w" "next \<in> set (m_runnableQueue w)" "st w next \<in> {New, Ready}"
  shows "next \<noteq> holder w"
proof
  assume h: "next = holder w"
  have "next \<noteq> m_workerFiber w" using assms(1,2) unfolding winv_def queues_ok_def linked_def by blast
  then have "m_currentFiber w = Some next" using h by (simp add: holder_def split: option.splits)
  then have "st w next \<in> {Running, Dead, Waiting, Suspended}"
    using assms(1) unfolding winv_def control_ok_def by blast
  then show False using assms(3) by auto
qed

lemma worker_ready:
  assumes "winv w" "m_currentFiber w \<noteq> None"
  shows "st w (m_workerFiber w) = Ready" "m_workerFiber w \<noteq> holder w"
  using assms by (auto simp: winv_def control_ok_def holder_def)

text \<open>\<open>pick\<close>ing the worker while it has control needs that it was switched to before.\<close>

definition worker_started :: "worker \<Rightarrow> bool" where
  "worker_started w \<longleftrightarrow> m_currentFiber w = None \<longrightarrow> st w (m_workerFiber w) = Running"

lemma cleanup_other:
  assumes "winv w" "f \<in> set (m_runnableQueue w)" "st w f = Dead" "m_currentFiber w \<noteq> Some f"
  shows "cleanup env f w = Some (None, w\<lparr>m_runnableQueue := remove1 f (m_runnableQueue w)\<rparr>)
    \<and> winv (w\<lparr>m_runnableQueue := remove1 f (m_runnableQueue w)\<rparr>)"
proof -
  have d: "distinct (m_runnableQueue w)" "f \<noteq> m_workerFiber w"
    using assms by (auto simp: winv_defs)
  then have "set (remove1 f (m_runnableQueue w)) = set (m_runnableQueue w) - {f}" by simp
  moreover have "distinct (remove1 f (m_runnableQueue w))" using d(1) by simp
  ultimately have "winv (w\<lparr>m_runnableQueue := remove1 f (m_runnableQueue w)\<rparr>)"
    using assms by (auto simp: winv_defs)
  then show ?thesis using assms d by (simp add: cleanup_def spec_erase_def)
qed

definition sched_post :: "worker \<Rightarrow> sched_result \<Rightarrow> worker \<Rightarrow> bool" where
  "sched_post w r w' \<longleftrightarrow> winv w' \<and> m_workerFiber w' = m_workerFiber w
     \<and> m_suspendedQueue w' = m_suspendedQueue w \<and> set (m_runnableQueue w') \<subseteq> set (m_runnableQueue w)
     \<and> (\<forall>f \<in> set (m_runnableQueue w). st w f \<noteq> Dead \<longrightarrow> f \<in> set (m_runnableQueue w'))
     \<and> m_end w' = m_end w \<and> m_disableContextSwitch w' = m_disableContextSwitch w
     \<and> (case r of
          Returned _ \<Rightarrow> m_currentFiber w' = m_currentFiber w \<and> m_fibers w' = m_fibers w
        | SwitchedTo f \<Rightarrow> f = holder w' \<and> f \<noteq> holder w \<and> st w' f = Running
            \<and> (f = m_workerFiber w \<or> f \<in> set (m_runnableQueue w)) \<and> st w f \<in> {New, Ready}
            \<and> (\<forall>g. g \<noteq> f \<longrightarrow> st w' g = (if g = holder w \<and> st w g = Running then Ready else st w g)))"

lemma sched_post_switch:
  assumes "winv w" "handover next (holder w) now (m_fibers w) fs'"
    "next = m_workerFiber w \<or> next \<in> set (m_runnableQueue w)"
    "st w next \<in> {New, Ready}" "next \<noteq> holder w"
  shows "sched_post w (SwitchedTo next) (w\<lparr>m_fibers := fs', m_runnableQueue := queue_after next w,
        m_currentFiber := (if next = m_workerFiber w then None else Some next)\<rparr>)"
proof -
  let ?w = "w\<lparr>m_fibers := fs', m_runnableQueue := queue_after next w,
    m_currentFiber := (if next = m_workerFiber w then None else Some next)\<rparr>"
  have h: "holder ?w = next" by (simp add: holder_def)
  have "\<forall>g. g \<noteq> next \<longrightarrow> m_state (fs' g) = (if g = holder w \<and> st w g = Running then Ready else st w g)"
    "m_state (fs' next) = Running"
    using assms(2) by (auto simp: handover_def)
  then show ?thesis
    unfolding sched_post_def sched_result.case h
    using winv_switch[OF assms] queue_after_set(1)[OF assms(3)] assms(3,4,5) by simp
qed

lemma sched_post_erase:
  assumes "sched_post (w\<lparr>m_runnableQueue := q\<rparr>) r w'" "set q = set (m_runnableQueue w) - {f}" "st w f = Dead"
  shows "sched_post w r w'"
  using assms by (auto simp: sched_post_def split: sched_result.splits)

lemma sched_post_requeue:
  "sched_post (w\<lparr>m_runnableQueue := q\<rparr>) r w' \<Longrightarrow> set q = set (m_runnableQueue w) \<Longrightarrow> sched_post w r w'"
  by (auto simp: sched_post_def split: sched_result.splits)

lemma cleanup_current:
  assumes "winv w" "create_res env = E_OK" "contextSwitchEnabled w" "m_currentFiber w = Some f" "st w f = Dead"
  shows "\<exists>w'. cleanup env f w = Some (Some (SwitchedTo (m_workerFiber w)), w')
    \<and> sched_post w (SwitchedTo (m_workerFiber w)) w'"
proof -
  have wr: "st w (m_workerFiber w) \<in> {New, Ready}" "m_workerFiber w \<noteq> holder w"
    using worker_ready[OF assms(1)] assms(4) by auto
  have disj: "m_workerFiber w = m_workerFiber w \<or> m_workerFiber w \<in> set (m_runnableQueue w)" by simp
  show ?thesis
    using run_next_switch[OF assms(1,2) disj wr, of "now_again env"]
      sched_post_switch[OF assms(1) _ disj wr] assms(3,4,5)
    by (auto simp: cleanup_def)
qed

lemma pick_valid:
  assumes "case next of None \<Rightarrow> True | Some n \<Rightarrow> n = m_workerFiber w \<or> n \<in> set (m_runnableQueue w)"
  shows "pick next w = m_workerFiber w \<or> pick next w \<in> set (m_runnableQueue w)"
  using assms by (auto simp: pick_def split: option.splits list.splits)

text \<open>One pass of the loop, by the state of the picked fiber.\<close>

lemma loop_ready:
  assumes "winv w" "create_res env = E_OK" "pick next w = n" "n \<noteq> holder w" "st w n \<in> {New, Ready}"
    "n = m_workerFiber w \<or> n \<in> set (m_runnableQueue w)"
  shows "\<exists>fs'. handover n (holder w) now (m_fibers w) fs' \<and> schedule_loop env now next d w = Some (SwitchedTo n,
      w\<lparr>m_fibers := fs', m_runnableQueue := queue_after n w,
        m_currentFiber := (if n = m_workerFiber w then None else Some n)\<rparr>)"
  using run_next_switch[OF assms(1,2,6,5,4), of now] assms(3)
  by (subst schedule_loop.simps) (auto simp: Let_def)

lemma loop_running:
  assumes "pick next w = n" "n = holder w" "st w n = Running"
    "n = m_workerFiber w \<or> n \<in> set (m_runnableQueue w)"
  shows "schedule_loop env now next d w = Some (Returned d, w\<lparr>m_runnableQueue := queue_after n w\<rparr>)"
  using run_next_again[OF assms(4,3,2), of env now] assms(1)
  by (subst schedule_loop.simps) simp

lemma loop_dead_current:
  assumes "winv w" "create_res env = E_OK" "contextSwitchEnabled w" "pick next w = n"
    "n \<in> set (m_runnableQueue w)" "st w n = Dead" "m_currentFiber w = Some n"
  shows "\<exists>w'. schedule_loop env now next d w = Some (SwitchedTo (m_workerFiber w), w')
    \<and> sched_post w (SwitchedTo (m_workerFiber w)) w'"
proof -
  let ?w = "w\<lparr>m_runnableQueue := queue_after n w\<rparr>"
  have q: "set (queue_after n w) = set (m_runnableQueue w)" "distinct (queue_after n w)"
    using queue_after_set[of n w] assms(1,5) by (auto simp: winv_def queues_ok_def)
  then have "winv ?w" using winv_requeue assms(1) by blast
  then obtain w' where "cleanup env n ?w = Some (Some (SwitchedTo (m_workerFiber w)), w')"
      "sched_post ?w (SwitchedTo (m_workerFiber w)) w'"
    using cleanup_current[of ?w env n] assms by (auto simp: contextSwitchEnabled_def)
  moreover note run_next_dead[OF assms(5,6), of env now]
  ultimately show ?thesis
    using assms(4) sched_post_requeue[OF _ q(1)] by (subst schedule_loop.simps) (auto simp: Let_def)
qed

lemma loop_dead_other:
  assumes "winv w" "pick next w = n" "n \<in> set (m_runnableQueue w)" "st w n = Dead" "m_currentFiber w \<noteq> Some n"
  shows "schedule_loop env now next d w = schedule_loop env now None True
      (w\<lparr>m_runnableQueue := remove1 n (queue_after n w)\<rparr>)
    \<and> winv (w\<lparr>m_runnableQueue := remove1 n (queue_after n w)\<rparr>)
    \<and> set (remove1 n (queue_after n w)) = set (m_runnableQueue w) - {n}
    \<and> length (remove1 n (queue_after n w)) < length (m_runnableQueue w)"
proof -
  let ?w = "w\<lparr>m_runnableQueue := queue_after n w\<rparr>"
  have q: "set (queue_after n w) = set (m_runnableQueue w)" "distinct (queue_after n w)"
    using queue_after_set[of n w] assms(1,3) by (auto simp: winv_def queues_ok_def)
  then have "winv ?w" using winv_requeue assms(1) by blast
  then have c: "cleanup env n ?w = Some (None, w\<lparr>m_runnableQueue := remove1 n (queue_after n w)\<rparr>)
      \<and> winv (w\<lparr>m_runnableQueue := remove1 n (queue_after n w)\<rparr>)"
    using cleanup_other[of ?w n env] assms q by simp
  have "n \<noteq> m_workerFiber w" using assms(1,3) by (auto simp: winv_def queues_ok_def linked_def)
  then have "length (remove1 n (queue_after n w)) < length (m_runnableQueue w)"
    using assms(3) rotate_past_facts(1,3)[OF assms(3)] length_pos_if_in_set[OF assms(3)]
    by (simp add: length_remove1 queue_after_def)
  then show ?thesis
    using c run_next_dead[OF assms(3,4), of env now] assms(2) q
    by (subst schedule_loop.simps) (simp add: Let_def)
qed

lemma schedule_loop_ok:
  assumes "winv w" "create_res env = E_OK" "contextSwitchEnabled w" "worker_started w"
    "case next of None \<Rightarrow> True | Some n \<Rightarrow> n = m_workerFiber w \<or> n \<in> set (m_runnableQueue w)"
  shows "\<exists>r w'. schedule_loop env now next d w = Some (r, w') \<and> sched_post w r w'
    \<and> (\<forall>b. r = Returned b \<longrightarrow> st w (holder w) = Running)"
  using assms
proof (induction "length (m_runnableQueue w)" arbitrary: w "next" d rule: less_induct)
  case less
  define n where n_def: "n = pick next w"
  note inv = less.prems(1)
  have n: "n = m_workerFiber w \<or> n \<in> set (m_runnableQueue w)" using pick_valid[OF less.prems(5)] n_def by simp
  have "st w n \<in> {New, Ready, Running, Dead}"
    using n inv by (auto simp: winv_def queues_ok_def control_ok_def)
  then consider "st w n \<in> {New, Ready}" | "st w n = Running" | "st w n = Dead" by auto
  then show ?case
  proof cases
    case 1
    have nh: "n \<noteq> holder w"
    proof (cases "n = m_workerFiber w")
      case True
      then have "m_currentFiber w \<noteq> None" using 1 less.prems(4) by (auto simp: worker_started_def)
      then show ?thesis using worker_ready(2)[OF inv] True by simp
    qed (use n holder_not_ready[OF inv _ 1] in blast)
    show ?thesis
      using loop_ready[OF inv less.prems(2) n_def[symmetric] nh 1 n] sched_post_switch[OF inv _ n 1 nh] by blast
  next
    case 2
    then have h: "n = holder w" using runningD[OF inv] by simp
    have "set (queue_after n w) = set (m_runnableQueue w)" "distinct (queue_after n w)"
      using queue_after_set[OF n] inv by (auto simp: winv_def queues_ok_def)
    then show ?thesis
      using loop_running[OF n_def[symmetric] h 2 n] winv_requeue[OF inv] 2 h by (simp add: sched_post_def)
  next
    case 3
    then have nq: "n \<in> set (m_runnableQueue w)" using n inv by (auto simp: winv_def control_ok_def)
    show ?thesis
    proof (cases "m_currentFiber w = Some n")
      case True
      then show ?thesis using loop_dead_current[OF inv less.prems(2,3) n_def[symmetric] nq 3] by blast
    next
      case False
      note d = loop_dead_other[OF inv n_def[symmetric] nq 3 False, of env now d]
      then show ?thesis
        using less.hyps[of "w\<lparr>m_runnableQueue := remove1 n (queue_after n w)\<rparr>" None True] less.prems(2-4)
          sched_post_erase[OF _ _ 3, of "remove1 n (queue_after n w)"]
        by (fastforce simp: contextSwitchEnabled_def worker_started_def)
    qed
  qed
qed

lemma schedule_ok:
  assumes "winv w" "create_res env = E_OK" "contextSwitchEnabled w" "worker_started w"
    "case prefer of None \<Rightarrow> True | Some p \<Rightarrow> p = m_workerFiber w \<or> p \<in> set (m_runnableQueue w)"
  shows "\<exists>r w'. schedule env prefer now w = Some (r, w') \<and> sched_post w r w'
    \<and> (\<forall>b. r = Returned b \<longrightarrow> st w (holder w) = Running)"
proof -
  define nx where "nx = (if \<not> ts_isNull (m_end w) \<and> isBefore (m_end w) now then Some (m_workerFiber w) else prefer)"
  have "case nx of None \<Rightarrow> True | Some n \<Rightarrow> n = m_workerFiber w \<or> n \<in> set (m_runnableQueue w)"
    using assms(5) by (simp add: nx_def)
  moreover have "schedule env prefer now w = schedule_loop env now nx False w"
    using assms(3,5) by (simp add: schedule_def nx_def)
  ultimately show ?thesis using schedule_loop_ok[OF assms(1-4), of nx now False] by simp
qed

subsection \<open>The order of scheduling\<close>

abbreviation time_left :: "timespec \<Rightarrow> worker \<Rightarrow> bool" where
  "time_left now w \<equiv> ts_isNull (m_end w) \<or> \<not> isBefore (m_end w) now"

lemma schedule_None:
  "contextSwitchEnabled w \<Longrightarrow> time_left now w \<Longrightarrow> schedule env None now w = schedule_loop env now None False w"
  by (auto simp: schedule_def)

lemma pick_hd: "m_runnableQueue w = f # q \<Longrightarrow> pick None w = f"
  by (simp add: pick_def)

lemma runnable_not_worker: "winv w \<Longrightarrow> f \<in> set (m_runnableQueue w) \<Longrightarrow> f \<noteq> m_workerFiber w"
  by (auto simp: winv_def queues_ok_def linked_def)

lemma schedule_loop_first_live:
  assumes "winv w" "create_res env = E_OK" "m_runnableQueue w = ds @ n # rest"
    "\<forall>d \<in> set ds. st w d = Dead \<and> m_currentFiber w \<noteq> Some d" "st w n \<in> {New, Ready}"
  shows "\<exists>fs'. handover n (holder w) now (m_fibers w) fs' \<and> schedule_loop env now None d w = Some (SwitchedTo n,
      w\<lparr>m_fibers := fs', m_runnableQueue := rest @ [n], m_currentFiber := Some n\<rparr>)"
  using assms
proof (induction ds arbitrary: w d)
  case Nil
  then have n: "n \<in> set (m_runnableQueue w)" by simp
  have "n \<noteq> m_workerFiber w" "n \<noteq> holder w"
    using runnable_not_worker[OF Nil.prems(1) n] holder_not_ready[OF Nil.prems(1) n Nil.prems(5)] by auto
  then show ?case
    using loop_ready[OF Nil.prems(1,2) pick_hd, of n rest now d] Nil.prems(3,5) n
    by (auto simp: queue_after_def rotate_past_hd)
next
  case (Cons x ds)
  then have x: "x \<in> set (m_runnableQueue w)" "st w x = Dead" "m_currentFiber w \<noteq> Some x" by auto
  have "x \<noteq> m_workerFiber w" using runnable_not_worker[OF Cons.prems(1) x(1)] .
  moreover have "x \<notin> set (ds @ n # rest)"
    using Cons.prems(1,3) by (auto simp: winv_def queues_ok_def)
  ultimately have q: "remove1 x (queue_after x w) = ds @ n # rest"
    using Cons.prems(3) by (simp add: queue_after_def rotate_past_hd remove1_append remove1_idem)
  have "pick None w = x" using Cons.prems(3) by (simp add: pick_def)
  from loop_dead_other[OF Cons.prems(1) this x, of env now d] q
  have l: "schedule_loop env now None d w
      = schedule_loop env now None True (w\<lparr>m_runnableQueue := ds @ n # rest\<rparr>)"
    "winv (w\<lparr>m_runnableQueue := ds @ n # rest\<rparr>)" by simp_all
  show ?case
    using Cons.IH[OF l(2) Cons.prems(2), of True] Cons.prems(4,5) l(1) by simp
qed

text \<open>A series of calls of \<^verbatim>\<open>schedule()\<close>, each by the context that has control; the trace is who got it.\<close>

fun yields :: "run_env \<Rightarrow> timespec list \<Rightarrow> worker \<Rightarrow> (fid list \<times> worker) option" where
  "yields env [] w = Some ([], w)"
| "yields env (t # ts) w = do {
     (r, w) \<leftarrow> schedule env None t w;
     (fs, w) \<leftarrow> yields env ts w;
     Some (case r of SwitchedTo f \<Rightarrow> (f # fs, w) | Returned _ \<Rightarrow> (fs, w))
   }"

text \<open>All fibers of the run queue are alive, and its last one is the one that runs.\<close>

definition busy :: "worker \<Rightarrow> bool" where
  "busy w \<longleftrightarrow> winv w \<and> contextSwitchEnabled w \<and> ts_isNull (m_end w) \<and> 2 \<le> length (m_runnableQueue w)
     \<and> m_currentFiber w = Some (last (m_runnableQueue w)) \<and> st w (last (m_runnableQueue w)) = Running
     \<and> (\<forall>f \<in> set (butlast (m_runnableQueue w)). st w f \<in> {New, Ready})"

lemma busy_step:
  assumes "busy w" "create_res env = E_OK"
  shows "\<exists>w'. schedule env None t w = Some (SwitchedTo (hd (m_runnableQueue w)), w') \<and> busy w'
    \<and> m_runnableQueue w' = rotate1 (m_runnableQueue w)"
proof -
  have inv: "winv w" "contextSwitchEnabled w" "ts_isNull (m_end w)" using assms(1) by (auto simp: busy_def)
  obtain n rest where q: "m_runnableQueue w = n # rest" "rest \<noteq> []"
    using assms(1) by (cases "m_runnableQueue w"; cases "tl (m_runnableQueue w)") (auto simp: busy_def)
  have cur: "m_currentFiber w = Some (last rest)" "st w (last rest) = Running" "holder w = last rest"
    using assms(1) q by (simp_all add: busy_def)
  have n: "st w n \<in> {New, Ready}" and r: "\<forall>f \<in> set (butlast rest). st w f \<in> {New, Ready}"
    using assms(1) q by (auto simp: busy_def)
  have d: "distinct (n # rest)" using inv(1) q by (auto simp: winv_def queues_ok_def)
  obtain fs' where fs': "handover n (last rest) t (m_fibers w) fs'"
    and sch: "schedule env None t w = Some (SwitchedTo n,
      w\<lparr>m_fibers := fs', m_runnableQueue := rest @ [n], m_currentFiber := Some n\<rparr>)" (is "_ = Some (_, ?w)")
    using schedule_loop_first_live[OF inv(1) assms(2), of "[]" n rest t False] q n cur inv
    by (auto simp: schedule_None)
  have nh: "n \<noteq> last rest" using d q(2) by auto
  have "winv ?w"
    using winv_switch[OF inv(1), of n t fs'] fs' cur n q nh runnable_not_worker[OF inv(1), of n]
    by (simp add: queue_after_def rotate_past_hd)
  moreover have "m_state (fs' f) \<in> {New, Ready}" if "f \<in> set rest" for f
  proof (cases "f = last rest")
    case False
    then have "f \<in> set (butlast rest)" using that q(2) by (metis append_butlast_last_id in_set_butlastD set_ConsD rotate1.simps(2) set_rotate1)
    moreover have "f \<noteq> n" using d that by auto
    then have "fs' f = m_fibers w f" using fs' False by (simp add: handover_def)
    ultimately show ?thesis using r by simp
  qed (use fs' cur in \<open>simp add: handover_def\<close>)
  moreover have "m_state (fs' n) = Running" using fs' by (simp add: handover_def)
  ultimately show ?thesis
    using sch q inv by (auto simp: busy_def contextSwitchEnabled_def Suc_le_eq)
qed

lemma yields_busy:
  assumes "busy w" "create_res env = E_OK"
  shows "\<exists>w'. yields env ts w = Some (map (\<lambda>i. m_runnableQueue w ! (i mod length (m_runnableQueue w))) [0..<length ts], w')
    \<and> busy w' \<and> m_runnableQueue w' = rotate (length ts) (m_runnableQueue w)"
  using assms
proof (induction ts arbitrary: w)
  case (Cons t ts)
  let ?q = "m_runnableQueue w"
  obtain w1 where w1: "schedule env None t w = Some (SwitchedTo (hd ?q), w1)" "busy w1"
      "m_runnableQueue w1 = rotate1 ?q"
    using busy_step[OF Cons.prems] by blast
  obtain w2 where w2: "yields env ts w1 = Some (map (\<lambda>i. rotate1 ?q ! (i mod length ?q)) [0..<length ts], w2)"
      "busy w2" "m_runnableQueue w2 = rotate (length ts) (rotate1 ?q)"
    using Cons.IH[OF w1(2) Cons.prems(2)] w1(3) by auto
  have ne: "?q \<noteq> []" using Cons.prems(1) by (auto simp: busy_def)
  have "rotate1 ?q ! (i mod length ?q) = ?q ! (Suc i mod length ?q)" for i
    using nth_rotate1[of "i mod length ?q" ?q] ne by (simp add: mod_Suc_eq)
  then have "hd ?q # map (\<lambda>i. rotate1 ?q ! (i mod length ?q)) [0..<length ts]
      = map (\<lambda>i. ?q ! (i mod length ?q)) [0..<length (t # ts)]"
    using ne by (simp add: upt_conv_Cons map_Suc_upt[symmetric] hd_conv_nth del: upt_Suc)
  moreover have "rotate (length ts) (rotate1 ?q) = rotate (length (t # ts)) ?q"
    by (metis length_Cons rotate_Suc rotate1_rotate_swap)
  ultimately show ?case using w1 w2 by simp
qed simp

subsection \<open>The other operations keep the invariant\<close>

lemma hatch_ok:
  assumes "winv w" "st w f = New" "\<not> linked w f" "f \<noteq> m_workerFiber w"
  shows "\<exists>w'. worker_add f w = Some w' \<and> winv w' \<and> m_runnableQueue w' = m_runnableQueue w @ [f]
    \<and> m_fibers w' = m_fibers w"
proof -
  have "winv (w\<lparr>m_runnableQueue := m_runnableQueue w @ [f]\<rparr>)"
    using assms by (auto simp: winv_defs)
  then show ?thesis
    using assms by (simp add: worker_add_def hatch_def add_def spec_push_back_def) (simp add: linked_def)
qed

lemma move_to_suspended:
  assumes "winv w" "f \<in> set (m_runnableQueue w)" "st w f \<in> {New, Ready, Running}"
  shows "\<exists>w'. (release f w \<bind> (\<lambda>w. add f False (upd_fiber f suspend w))) = Some w' \<and> winv w'
    \<and> m_runnableQueue w' = remove1 f (m_runnableQueue w) \<and> m_suspendedQueue w' = m_suspendedQueue w @ [f]
    \<and> m_fibers w' = (m_fibers w)(f := suspend (m_fibers w f)) \<and> st w' f = Suspended
    \<and> m_currentFiber w' = m_currentFiber w \<and> m_workerFiber w' = m_workerFiber w
    \<and> m_disableContextSwitch w' = m_disableContextSwitch w \<and> m_end w' = m_end w"
proof -
  let ?w = "w\<lparr>m_runnableQueue := remove1 f (m_runnableQueue w),
    m_fibers := (m_fibers w)(f := suspend (m_fibers w f)), m_suspendedQueue := m_suspendedQueue w @ [f]\<rparr>"
  have q: "distinct (m_runnableQueue w)" "f \<notin> set (m_suspendedQueue w)" "f \<noteq> m_workerFiber w"
    using assms by (auto simp: winv_defs)
  have s: "m_state (suspend (m_fibers w f)) = Suspended"
    using assms(3) by (auto simp: suspend_def setState_def)
  have i: "fiber_inv (m_fibers w f)" "\<not> m_negative (m_timeslice (m_fibers w f))"
    using assms by (auto simp: winv_def fibers_ok_def)
  have "fiber_step True (m_fibers w f) (suspend (m_fibers w f))" using assms(3) by (auto intro: fiber_step.Suspend)
  then have i': "fiber_inv (suspend (m_fibers w f))" using fiber_inv_step i by blast
  have t: "m_timeslice (suspend (m_fibers w f)) = m_timeslice (m_fibers w f)"
    using assms(3) by (auto simp: suspend_def setState_def)
  have "fibers_ok ?w" using assms(1) i' i t by (auto simp: winv_def fibers_ok_def)
  moreover have "queues_ok ?w" using assms(1) q s by (auto simp: winv_def queues_ok_def linked_def)
  moreover have "control_ok ?w" using assms(1) q s by (auto simp: winv_def control_ok_def)
  moreover have "release f w = Some (w\<lparr>m_runnableQueue := remove1 f (m_runnableQueue w)\<rparr>)"
    using assms(2,3) by (auto simp: release_def spec_erase_def)
  ultimately show ?thesis
    using s q by (simp add: winv_def add_def upd_fiber_def linked_def spec_push_back_def)
qed

lemma resume_ok:
  assumes "winv w" "f \<in> set (m_suspendedQueue w)" "m_currentFiber w \<noteq> Some f"
  shows "\<exists>w'. worker_resume f w = Some w' \<and> winv w' \<and> m_runnableQueue w' = m_runnableQueue w @ [f]
    \<and> m_suspendedQueue w' = remove1 f (m_suspendedQueue w) \<and> st w' f \<in> {New, Ready}
    \<and> m_fibers w' = (m_fibers w)(f := resume (m_fibers w f)) \<and> m_currentFiber w' = m_currentFiber w
    \<and> m_workerFiber w' = m_workerFiber w"
proof -
  let ?w = "w\<lparr>m_suspendedQueue := remove1 f (m_suspendedQueue w),
    m_fibers := (m_fibers w)(f := resume (m_fibers w f)), m_runnableQueue := m_runnableQueue w @ [f]\<rparr>"
  have q: "distinct (m_suspendedQueue w)" "f \<notin> set (m_runnableQueue w)" "f \<noteq> m_workerFiber w" "st w f = Suspended"
    using assms by (auto simp: winv_defs)
  have i: "fiber_inv (m_fibers w f)" "\<not> m_negative (m_timeslice (m_fibers w f))"
    using assms q by (auto simp: winv_def fibers_ok_def)
  have s: "m_state (resume (m_fibers w f)) \<in> {New, Ready}"
    and t: "m_timeslice (resume (m_fibers w f)) = m_timeslice (m_fibers w f)"
    using i q by (auto simp: resume_def setState_def fiber_inv_def Let_def)
  have i': "fiber_inv (resume (m_fibers w f))" using fiber_inv_step[OF fiber_step.Resume[of True]] i by blast
  have "fibers_ok ?w" using assms(1) i' i t by (auto simp: winv_def fibers_ok_def)
  moreover have "queues_ok ?w" using assms(1) q s by (auto simp: winv_def queues_ok_def linked_def)
  moreover have "control_ok ?w" using assms(1,3) q s by (auto simp: winv_def control_ok_def)
  moreover have "m_state (resume (m_fibers w f)) \<noteq> Waiting" "m_state (resume (m_fibers w f)) \<noteq> Suspended"
    using s by auto
  ultimately show ?thesis
    using s q assms(2)
    by (simp add: winv_def worker_resume_def release_def spec_erase_def add_def upd_fiber_def linked_def spec_push_back_def)
qed

lemma winv_dead:
  assumes "winv w" "f \<noteq> m_workerFiber w" "f \<notin> set (m_suspendedQueue w)"
    "m_state (g (m_fibers w f)) = Dead" "m_timeslice (g (m_fibers w f)) = m_timeslice (m_fibers w f)"
    "st w f \<noteq> Uninitialized"
  shows "winv (upd_fiber f g w)"
proof -
  have "fibers_ok (upd_fiber f g w)"
    using assms by (simp add: winv_def fibers_ok_def upd_fiber_def fiber_inv_def)
  moreover have "queues_ok (upd_fiber f g w)"
    using assms by (auto simp: winv_def queues_ok_def linked_def upd_fiber_def)
  moreover have "control_ok (upd_fiber f g w)"
    using assms by (auto simp: winv_def control_ok_def upd_fiber_def)
  ultimately show ?thesis by (simp add: winv_def)
qed

lemma kill_facts: "m_state (kill x) = Dead" "m_timeslice (kill x) = m_timeslice x"
  by (simp_all add: kill_def setState_def)

lemma exit_ok:
  assumes "winv w" "m_currentFiber w = Some f" "st w f = Running"
  shows "winv (upd_fiber f (\<lambda>x. snd (fiberEntry_exit x)) w)"
proof (rule winv_dead[OF assms(1)])
  show "f \<noteq> m_workerFiber w" "f \<notin> set (m_suspendedQueue w)"
    using current_running_queued[OF assms] assms(1) by (auto simp: winv_def queues_ok_def)
qed (use assms in \<open>simp_all add: fiberEntry_exit_def hook_once_def kill_facts\<close>)

lemma destroy_suspended_ok:
  assumes "winv w" "m_currentFiber w = None"
  shows "\<exists>w'. destroy_suspended w = Some w' \<and> winv w' \<and> m_suspendedQueue w' = []
    \<and> m_currentFiber w' = None"
  using assms
proof (induction "m_suspendedQueue w" arbitrary: w)
  case Nil
  then show ?case by (subst destroy_suspended.simps) simp
next
  case (Cons f q)
  obtain w1 where w1: "worker_resume f w = Some w1" "winv w1" "m_runnableQueue w1 = m_runnableQueue w @ [f]"
      "m_suspendedQueue w1 = q" "m_currentFiber w1 = None" "st w1 f \<in> {New, Ready}"
    using resume_ok[of w f] Cons.prems Cons.hyps(2)[symmetric] by auto
  have "f \<noteq> m_workerFiber w1" "f \<notin> set q"
    using w1(2,3,4) by (auto simp: winv_def queues_ok_def linked_def)
  then have "winv (upd_fiber f kill w1)"
    using w1(4,6) by (intro winv_dead[OF w1(2)]) (auto simp: kill_facts)
  moreover have "m_suspendedQueue (upd_fiber f kill w1) = q" "m_currentFiber (upd_fiber f kill w1) = None"
    using w1 by (simp_all add: upd_fiber_def)
  ultimately show ?case
    using Cons.hyps(1)[of "upd_fiber f kill w1"] w1(1) Cons.hyps(2)[symmetric]
    by (subst destroy_suspended.simps) simp
qed

lemma destroy_runnable_ok:
  assumes "winv w" "m_currentFiber w = None"
  shows "\<exists>w'. destroy_runnable env w = Some w' \<and> winv w' \<and> m_runnableQueue w' = []
    \<and> m_suspendedQueue w' = m_suspendedQueue w"
  using assms
proof (induction "m_runnableQueue w" arbitrary: w)
  case Nil
  then show ?case by (subst destroy_runnable.simps) simp
next
  case (Cons f q)
  let ?w = "upd_fiber f kill w"
  have f: "f \<noteq> m_workerFiber w" "f \<notin> set (m_suspendedQueue w)"
    using Cons.prems(1) Cons.hyps(2)[symmetric] by (auto simp: winv_def queues_ok_def linked_def)
  have "st w f \<noteq> Uninitialized"
    using Cons.prems(1) Cons.hyps(2)[symmetric] by (auto simp: winv_def queues_ok_def)
  then have w: "winv ?w" using f by (intro winv_dead[OF Cons.prems(1)]) (auto simp: kill_facts)
  have e: "m_runnableQueue ?w = f # q" "st ?w f = Dead" "m_currentFiber ?w = None"
    "m_suspendedQueue ?w = m_suspendedQueue w"
    using Cons.prems Cons.hyps(2)[symmetric] by (simp_all add: upd_fiber_def kill_def setState_def)
  have c: "cleanup env f ?w = Some (None, ?w\<lparr>m_runnableQueue := q\<rparr>)" "winv (?w\<lparr>m_runnableQueue := q\<rparr>)"
    using cleanup_other[OF w, of f env] e by auto
  show ?case
    using Cons.hyps(1)[of "?w\<lparr>m_runnableQueue := q\<rparr>"] c e Cons.hyps(2)[symmetric]
    by (subst destroy_runnable.simps) simp
qed

subsection \<open>Properties\<close>

text \<open>
  C1. \<^verbatim>\<open>Worker::schedule()\<close>, called on a consistent worker that runs (its own fiber has been started), when contexts can be created. With no preferred fiber, or one
  that is in the run queue or the worker's own, it returns or switches within finitely many passes, does not trap, and leaves a
  consistent worker: at most one fiber is running and it is the one that has control, every runnable
  and suspended fiber is in exactly its queue, only dead fibers left the run queue. On a switch,
  control is with another context than before and that one is running; without one, nothing but
  the order of the run queue and its dead fibers changed. A preferred fiber that is not in the run queue traps.
\<close>

theorem schedule_correct:
  assumes "winv w" "create_res env = E_OK" "worker_started w"
  shows "if contextSwitchEnabled w \<and> (\<exists>p. prefer = Some p \<and> p \<noteq> m_workerFiber w \<and> p \<notin> set (m_runnableQueue w))
    then schedule env prefer now w = None
    else \<exists>r w'. schedule env prefer now w = Some (r, w') \<and> sched_post w r w'"
proof (cases "contextSwitchEnabled w")
  case True
  show ?thesis
  proof (cases "case prefer of None \<Rightarrow> True | Some p \<Rightarrow> p = m_workerFiber w \<or> p \<in> set (m_runnableQueue w)")
    case p: True
    then have "\<not> (\<exists>p. prefer = Some p \<and> p \<noteq> m_workerFiber w \<and> p \<notin> set (m_runnableQueue w))" by auto
    then show ?thesis using schedule_ok[OF assms(1,2) True assms(3) p, of now] True by auto
  qed (use True in \<open>auto simp: schedule_def zth_assert_def split: option.splits\<close>)
qed (use assms in \<open>simp add: schedule_def sched_post_def\<close>)

definition ready_fiber :: fiber where
  "ready_fiber = demo_fiber\<lparr>m_state := Ready, m_context := True\<rparr>"

text \<open>A worker (address 0) with the running fiber 3, the ready fibers 1 and 2, the dead fiber 4 and the suspended fiber 5.\<close>

definition demo_worker :: worker where
  "demo_worker = \<lparr>m_fibers = (\<lambda>_. demo_fiber\<lparr>m_state := Uninitialized\<rparr>)(
       0 := ready_fiber, 1 := ready_fiber, 2 := ready_fiber, 3 := ready_fiber\<lparr>m_state := Running\<rparr>,
       4 := ready_fiber\<lparr>m_state := Dead\<rparr>, 5 := ready_fiber\<lparr>m_state := Suspended\<rparr>),
     m_currentFiber = Some 3, m_runnableQueue = [4, 1, 2, 3], m_suspendedQueue = [5], m_workerFiber = 0,
     m_end = ts_null, m_disableContextSwitch = 0\<rparr>"

lemma ready_fiber_ok:
  "fiber_inv ready_fiber" "m_state ready_fiber = Ready" "m_timeslice ready_fiber = ti_null"
  "m_stateNext ready_fiber = Ready" "m_context ready_fiber"
  by (simp_all add: ready_fiber_def demo_fiber_def Fiber_def setState_def fiber_inv_def)

lemma demo_worker_inv: "winv demo_worker"
  using ready_fiber_ok
  by (simp add: winv_defs demo_worker_def holder_def fiber_inv_def ti_null_def)

theorem schedule_correct_witness:
  "\<exists>r w'. schedule demo_env (Some 2) ts_null demo_worker = Some (r, w') \<and> sched_post demo_worker r w'"
  using schedule_correct[OF demo_worker_inv, of demo_env "Some 2" ts_null]
  by (simp add: demo_env_def worker_started_def demo_worker_def split: if_splits)

text \<open>
  The order of scheduling: \<^verbatim>\<open>schedule()\<close> without a preferred fiber removes the dead fibers at the
  front of the run queue, switches to the first fiber that is alive, and puts that one at the back.
\<close>

theorem schedule_round_robin:
  assumes "winv w" "create_res env = E_OK" "contextSwitchEnabled w" "time_left now w"
    "m_runnableQueue w = ds @ n # rest" "\<forall>d \<in> set ds. st w d = Dead \<and> m_currentFiber w \<noteq> Some d"
    "st w n \<in> {New, Ready}"
  shows "\<exists>w'. schedule env None now w = Some (SwitchedTo n, w') \<and> m_runnableQueue w' = rest @ [n]
    \<and> m_currentFiber w' = Some n \<and> handover n (holder w) now (m_fibers w) (m_fibers w')"
  using schedule_loop_first_live[OF assms(1,2,5,6,7), of now False] schedule_None[OF assms(3,4)] by auto

theorem schedule_round_robin_witness:
  "\<exists>w'. schedule demo_env None ts_null demo_worker = Some (SwitchedTo 1, w') \<and> m_runnableQueue w' = [2, 3, 1]"
proof -
  have "contextSwitchEnabled demo_worker" "time_left ts_null demo_worker" "create_res demo_env = E_OK"
    "m_runnableQueue demo_worker = [4] @ 1 # [2, 3]"
    "\<forall>d \<in> set [4]. st demo_worker d = Dead \<and> m_currentFiber demo_worker \<noteq> Some d"
    "st demo_worker 1 \<in> {New, Ready}"
    by (simp_all add: demo_worker_def contextSwitchEnabled_def ts_null_def ts_isNull_def demo_env_def ready_fiber_ok)
  from schedule_round_robin[OF demo_worker_inv this(3,1,2,4,5,6)] show ?thesis by auto
qed

text \<open>
  C13. Fairness: while all fibers of the run queue are alive and each one gives way by \<^verbatim>\<open>schedule()\<close>,
  control goes round in the order of the queue. The \<open>i\<close>th call gives control to the fiber at position
  \<open>i\<close> modulo the length of the queue, so that as many calls as there are fibers let each of them run.
\<close>

theorem schedule_fair:
  assumes "busy w" "create_res env = E_OK" "length (m_runnableQueue w) \<le> length ts"
  shows "\<exists>trace w'. yields env ts w = Some (trace, w') \<and> length trace = length ts
    \<and> (\<forall>i < length ts. trace ! i = m_runnableQueue w ! (i mod length (m_runnableQueue w)))
    \<and> set (m_runnableQueue w) \<subseteq> set trace \<and> busy w'"
proof -
  let ?q = "m_runnableQueue w" and ?t = "map (\<lambda>i. m_runnableQueue w ! (i mod length (m_runnableQueue w))) [0..<length ts]"
  have "f \<in> set ?t" if "f \<in> set ?q" for f
  proof -
    obtain i where i: "i < length ?q" "?q ! i = f" using \<open>f \<in> set ?q\<close> by (auto simp: in_set_conv_nth)
    then have "?t ! i = f" "i < length ?t" using assms(3) by auto
    then show ?thesis using nth_mem by blast
  qed
  moreover obtain w' where "yields env ts w = Some (?t, w')" "busy w'" using yields_busy[OF assms(1,2)] by blast
  ultimately show ?thesis by (intro exI[of _ ?t] exI[of _ w']) auto
qed

definition busy_worker :: worker where
  "busy_worker = demo_worker\<lparr>m_runnableQueue := [1, 2, 3]\<rparr>"

theorem schedule_fair_witness:
  "\<exists>trace w'. yields demo_env [ts_null, ts_null, ts_null] busy_worker = Some (trace, w') \<and> {1, 2, 3} \<subseteq> set trace"
proof -
  have "busy busy_worker"
    using ready_fiber_ok
    by (simp add: busy_def winv_defs busy_worker_def demo_worker_def holder_def fiber_inv_def ti_null_def
        contextSwitchEnabled_def ts_null_def ts_isNull_def)
  from schedule_fair[OF this, of demo_env "[ts_null, ts_null, ts_null]"] show ?thesis
    by (auto simp: demo_env_def busy_worker_def)
qed

text \<open>
  Suspending the running fiber moves it to the suspended queue and gives control to another
  context; resuming a suspended fiber moves it to the back of the run queue, ready, or new if it never
  ran; both keep the worker consistent.
\<close>

theorem suspend_resume_correct:
  assumes "winv w" "create_res env = E_OK" "contextSwitchEnabled w"
    "m_currentFiber w = Some f" "st w f = Running" "g \<in> set (m_suspendedQueue w)"
  shows "(\<exists>g' w'. worker_suspend env f now w = Some (SwitchedTo g', w') \<and> winv w' \<and> g' \<noteq> f
      \<and> f \<in> set (m_suspendedQueue w') \<and> st w' f = Suspended)
    \<and> (\<exists>w'. worker_resume g w = Some w' \<and> winv w' \<and> m_runnableQueue w' = m_runnableQueue w @ [g]
      \<and> m_suspendedQueue w' = remove1 g (m_suspendedQueue w) \<and> st w' g \<in> {New, Ready})"
proof -
  have f: "f \<in> set (m_runnableQueue w)" "st w f \<in> {New, Ready, Running}"
    using assms by (auto simp: winv_def control_ok_def)
  obtain w1 where w1: "(release f w \<bind> (\<lambda>w. add f False (upd_fiber f suspend w))) = Some w1" "winv w1"
      "m_suspendedQueue w1 = m_suspendedQueue w @ [f]" "st w1 f = Suspended" "m_currentFiber w1 = Some f"
      "contextSwitchEnabled w1" "holder w1 = f"
    using move_to_suspended[OF assms(1) f] assms(3,4) by (auto simp: contextSwitchEnabled_def)
  obtain r w' where r: "schedule env None now w1 = Some (r, w')" "sched_post w1 r w'"
      "\<forall>b. r = Returned b \<longrightarrow> st w1 (holder w1) = Running"
    using schedule_ok[OF w1(2) assms(2) w1(6), of None now] w1(5) by (auto simp: worker_started_def)
  obtain g' where g': "r = SwitchedTo g'" using r(3) w1(4,7) by (cases r) auto
  note r(1)
  moreover obtain w0 where "release f w = Some w0" "add f False (upd_fiber f suspend w0) = Some w1"
    using w1(1) by (cases "release f w") auto
  ultimately have "worker_suspend env f now w = Some (SwitchedTo g', w')"
    using w1(5,6) assms(5) g' by (simp add: worker_suspend_def)
  moreover have "winv w'" "g' \<noteq> f" "f \<in> set (m_suspendedQueue w')"
    using r(2) g' w1(3,7) by (auto simp: sched_post_def)
  moreover have "st w' f = Suspended" using calculation(2,4) by (simp add: winv_def queues_ok_def)
  moreover have "g \<noteq> f" using assms(1,5,6) by (auto simp: winv_def queues_ok_def)
  ultimately show ?thesis using resume_ok[OF assms(1,6)] assms(4) by auto
qed

theorem suspend_resume_correct_witness:
  "(\<exists>g' w'. worker_suspend demo_env 3 ts_null demo_worker = Some (SwitchedTo g', w') \<and> winv w' \<and> g' \<noteq> 3)
   \<and> (\<exists>w'. worker_resume 5 demo_worker = Some w' \<and> m_runnableQueue w' = [4, 1, 2, 3, 5])"
proof -
  have "contextSwitchEnabled demo_worker" "create_res demo_env = E_OK" "m_currentFiber demo_worker = Some 3"
    "st demo_worker 3 = Running" "5 \<in> set (m_suspendedQueue demo_worker)"
    "m_runnableQueue demo_worker = [4, 1, 2, 3]"
    by (simp_all add: demo_worker_def contextSwitchEnabled_def demo_env_def)
  from suspend_resume_correct[OF demo_worker_inv this(2,1,3,4,5), of ts_null] this(6) show ?thesis by auto
qed

text \<open>
  The destructor of the worker ends: called from the worker's own context, its two loops take every
  fiber off both queues, whatever the states of the fibers are, and no assertion fails on the way.
\<close>

theorem worker_destroy_ends:
  assumes "winv w" "m_currentFiber w = None"
  shows "\<exists>w'. worker_destroy env w = Some w' \<and> m_runnableQueue w' = [] \<and> m_suspendedQueue w' = []"
proof -
  obtain w1 where w1: "destroy_suspended w = Some w1" "winv w1" "m_suspendedQueue w1 = []" "m_currentFiber w1 = None"
    using destroy_suspended_ok[OF assms] by blast
  then show ?thesis
    using destroy_runnable_ok[OF w1(2,4), of env] by (auto simp: worker_destroy_def)
qed

definition stopped_worker :: worker where
  "stopped_worker = demo_worker\<lparr>m_currentFiber := None,
     m_fibers := (m_fibers demo_worker)(0 := ready_fiber\<lparr>m_state := Running\<rparr>, 3 := ready_fiber)\<rparr>"

theorem worker_destroy_ends_witness:
  "\<exists>w'. worker_destroy demo_env stopped_worker = Some w' \<and> m_runnableQueue w' = [] \<and> m_suspendedQueue w' = []"
proof -
  have "winv stopped_worker"
    using ready_fiber_ok
    by (simp add: winv_defs stopped_worker_def demo_worker_def holder_def fiber_inv_def ti_null_def)
  then show ?thesis by (rule worker_destroy_ends) (simp add: stopped_worker_def)
qed

text \<open>
  \<^verbatim>\<open>run(duration)\<close> can trap on its first iteration. The loop reads the clock, sees time left, and
  \<^verbatim>\<open>schedule()\<close> reads it again: when the end passed in between, the worker fiber is asked to run from
  itself, and as it is still in the state \<^verbatim>\<open>Ready\<close> of its initialisation, the assertion that a ready
  fiber is run from another one fails.
\<close>

theorem first_iteration_traps:
  assumes "contextSwitchEnabled w" "m_currentFiber w = None" "st w (m_workerFiber w) = Ready"
    "run_continues t w" "\<not> ts_isNull (m_end w)" "isBefore (m_end w) now"
  shows "run_iteration env now w = None"
proof -
  have "fiber_run env (m_workerFiber w) (holder w) now (m_fibers w) = None"
    using assms(2,3) by (simp add: fiber_run_Ready run_ready_def holder_def zth_assert_def)
  then have "run_next env (m_workerFiber w) now w = None" by (simp add: run_next_eq)
  then have "schedule_loop env now (Some (m_workerFiber w)) False w = None"
    by (subst schedule_loop.simps) (simp add: pick_def)
  then show ?thesis using assms(1,5,6) by (simp add: run_iteration_def schedule_def)
qed

theorem first_iteration_traps_witness:
  "run_iteration demo_env (Timespec 7 1) (stopped_worker\<lparr>m_end := Timespec 7 0, m_fibers := \<lambda>_. ready_fiber\<rparr>) = None"
  by (rule first_iteration_traps[where t = "Timespec 6 0"])
    (simp_all add: stopped_worker_def demo_worker_def contextSwitchEnabled_def run_continues_def ts_isNull_def
      isBefore_def less_timespec_def ready_fiber_ok)

end
