(* ===== verification/Zth_Synchronizer.thy ===== *)
theory Zth_Synchronizer
  imports Zth_Worker Zth_SortedList
begin

section \<open>Blocking and unblocking fibers\<close>

text \<open>
  \<^verbatim>\<open>include/libzth/sync.h\<close>, class \<^verbatim>\<open>SynchronizerBase\<close>: a fiber that cannot go on leaves the run queue
  for a queue of the synchronizer and naps; another fiber takes it off again and adds it to the run
  queue. The state \<open>sys\<close> of this and the following theories is the worker, the queues of all
  synchronizers, and the waiter with its timed objects (\<open>Zth_Waiter\<close>).

  A queue is named by the address of its synchronizer and its index. As a fiber has one pair of
  links, it is in at most one queue of the system; pushing a linked fiber traps (\<open>is_linked\<close>).

  \<^verbatim>\<open>block()\<close> ends with \<^verbatim>\<open>schedule()\<close>. As there, the model stops where control moves: the result
  \<open>SwitchedTo g\<close> says that the calling fiber is parked and \<open>g\<close> has control. When the fiber gets it
  back, its code goes on after \<^verbatim>\<open>block()\<close>.
\<close>

subsection \<open>State\<close>

datatype qid = Qid (q_owner: addr) (q_index: nat)

text \<open>The classes derived from \<^verbatim>\<open>TimedWaitable\<close>: the plain one, \<^verbatim>\<open>PolledWaiting\<close> and \<^verbatim>\<open>AlarmClock\<close>.\<close>

datatype wkind = Timed | Polled (w_interval: TimeInterval) | Alarm (a_q: qid) (a_fiber: fid)

record waitable =
  w_timeout :: timespec
  w_fiber :: "fid option"
  w_kind :: wkind
  w_rang :: bool

record sys =
  wkr :: worker
  queues :: "qid \<Rightarrow> fid list"
  waiting :: sorted_list
  waitables :: "addr \<Rightarrow> waitable"
  waiter_fiber :: "fid option"

definition is_linked :: "sys \<Rightarrow> fid \<Rightarrow> bool" where
  "is_linked s f \<longleftrightarrow> linked (wkr s) f \<or> (\<exists>k. f \<in> set (queues s k))"

definition set_queue :: "qid \<Rightarrow> fid list \<Rightarrow> sys \<Rightarrow> sys" where
  "set_queue k q s = s\<lparr>queues := (queues s)(k := q)\<rparr>"

subsection \<open>Operations\<close>

definition enqueue :: "fid \<Rightarrow> qid \<Rightarrow> sys \<Rightarrow> sys option" where
  "enqueue f k s = do {
     zth_assert (\<not> is_linked s f);
     q \<leftarrow> spec_push_back f (queues s k);
     Some (set_queue k q s)
   }"

text \<open>Making a parked fiber runnable, at the front of the run queue when \<open>prio\<close>.\<close>

definition sync_wakeup :: "fid \<Rightarrow> bool \<Rightarrow> sys \<Rightarrow> sys option" where
  "sync_wakeup f prio s = do {
     w \<leftarrow> add f prio (upd_fiber f wakeup (wkr s));
     Some (s\<lparr>wkr := w\<rparr>)
   }"

definition park :: "qid \<Rightarrow> sys \<Rightarrow> sys option" where
  "park k s = do {
     f \<leftarrow> m_currentFiber (wkr s);
     w \<leftarrow> release f (wkr s);
     s \<leftarrow> enqueue f k (s\<lparr>wkr := w\<rparr>);
     Some (s\<lparr>wkr := upd_fiber f (nap ts_null) (wkr s)\<rparr>)
   }"

definition block :: "run_env \<Rightarrow> timespec \<Rightarrow> qid \<Rightarrow> sys \<Rightarrow> (sched_result \<times> sys) option" where
  "block env now k s = do {
     s \<leftarrow> park k s;
     (r, w) \<leftarrow> schedule env None now (wkr s);
     Some (r, s\<lparr>wkr := w\<rparr>)
   }"

definition unblock :: "fid \<Rightarrow> qid \<Rightarrow> bool \<Rightarrow> sys \<Rightarrow> (bool \<times> sys) option" where
  "unblock f k prio s =
     (if f \<notin> set (queues s k) then Some (False, s)
      else do {
        q \<leftarrow> spec_erase f (queues s k);
        s \<leftarrow> sync_wakeup f prio (set_queue k q s);
        Some (True, s)
      })"

definition unblockFirst :: "qid \<Rightarrow> bool \<Rightarrow> sys \<Rightarrow> (fid option \<times> sys) option" where
  "unblockFirst k prio s = (case queues s k of
     [] \<Rightarrow> Some (None, s)
   | f # q \<Rightarrow> do {
       s \<leftarrow> sync_wakeup f prio (set_queue k q s);
       Some (Some f, s)
     })"

partial_function (option) unblockAll_loop :: "qid \<Rightarrow> bool \<Rightarrow> sys \<Rightarrow> sys option" where
  "unblockAll_loop k prio s = (case queues s k of
     [] \<Rightarrow> Some s
   | f # q \<Rightarrow> do {
       s \<leftarrow> sync_wakeup f prio (set_queue k q s);
       unblockAll_loop k prio s
     })"

definition unblockAll :: "qid \<Rightarrow> bool \<Rightarrow> sys \<Rightarrow> (bool \<times> sys) option" where
  "unblockAll k prio s =
     (if queues s k = [] then Some (False, s)
      else do { s \<leftarrow> unblockAll_loop k prio s; Some (True, s) })"

subsection \<open>Invariant\<close>

text \<open>
  The fibers in the queues are parked: waiting, in no other queue, and not the one that has control.
\<close>

definition parked_ok :: "sys \<Rightarrow> bool" where
  "parked_ok s \<longleftrightarrow>
     (\<forall>k. distinct (queues s k))
     \<and> (\<forall>k l f. f \<in> set (queues s k) \<longrightarrow> f \<in> set (queues s l) \<longrightarrow> k = l)
     \<and> (\<forall>k. \<forall>f \<in> set (queues s k). st (wkr s) f = Waiting \<and> \<not> linked (wkr s) f)"

text \<open>A fiber is executing: it is current and running.\<close>

definition executing :: "fid \<Rightarrow> sys \<Rightarrow> bool" where
  "executing f s \<longleftrightarrow> m_currentFiber (wkr s) = Some f \<and> st (wkr s) f = Running"

definition sys_inv :: "sys \<Rightarrow> bool" where
  "sys_inv s \<longleftrightarrow> winv (wkr s) \<and> parked_ok s"

lemma wakeup_facts:
  assumes "fiber_inv x" "m_state x = Waiting"
  shows "m_state (wakeup x) = Ready" "fiber_inv (wakeup x)" "m_timeslice (wakeup x) = m_timeslice x"
  using assms by (auto simp: wakeup_def setState_def fiber_inv_def Let_def)

lemma nap_facts:
  assumes "fiber_inv x" "m_state x = Running"
  shows "m_state (nap t x) = Waiting" "fiber_inv (nap t x)" "m_timeslice (nap t x) = m_timeslice x"
  using assms by (auto simp: nap_def setState_def fiber_inv_def)

lemma add_woken:
  assumes "winv w" "st w f = Waiting" "\<not> linked w f" "m_currentFiber w \<noteq> Some f"
  shows "\<exists>w'. add f prio (upd_fiber f wakeup w) = Some w' \<and> winv w'
    \<and> m_runnableQueue w' = (if prio then f # m_runnableQueue w else m_runnableQueue w @ [f])
    \<and> m_suspendedQueue w' = m_suspendedQueue w \<and> st w' f = Ready
    \<and> (\<forall>g. g \<noteq> f \<longrightarrow> m_fibers w' g = m_fibers w g) \<and> m_currentFiber w' = m_currentFiber w
    \<and> m_workerFiber w' = m_workerFiber w \<and> m_disableContextSwitch w' = m_disableContextSwitch w
    \<and> m_end w' = m_end w"
proof -
  let ?fs = "(m_fibers w)(f := wakeup (m_fibers w f))"
  let ?q = "if prio then f # m_runnableQueue w else m_runnableQueue w @ [f]"
  let ?w = "w\<lparr>m_fibers := ?fs, m_runnableQueue := ?q\<rparr>"
  have i: "fiber_inv (m_fibers w f)" "\<not> m_negative (m_timeslice (m_fibers w f))"
    using assms by (auto simp: winv_def fibers_ok_def)
  note wf = wakeup_facts[OF i(1) assms(2)]
  have fw: "f \<noteq> m_workerFiber w" using assms by (auto simp: winv_def control_ok_def)
  have "fibers_ok ?w" using assms(1) i wf by (simp add: winv_def fibers_ok_def)
  moreover have "queues_ok ?w" using assms(1,3) fw wf by (auto simp: winv_def queues_ok_def linked_def)
  moreover have "control_ok ?w"
    using assms(1,4) fw wf by (simp add: winv_def control_ok_def) (metis holder_def option.case_eq_if option.collapse)
  ultimately have "winv ?w" by (simp add: winv_def)
  moreover have "add f prio (upd_fiber f wakeup w) = Some ?w"
    using assms(3) wf by (auto simp: add_def upd_fiber_def linked_def spec_push_back_def spec_push_front_def)
  ultimately show ?thesis using wf by simp
qed

text \<open>Everything of the system but the run queue and the queues is as before.\<close>

definition same_rest :: "sys \<Rightarrow> sys \<Rightarrow> bool" where
  "same_rest s s' \<longleftrightarrow> waiting s' = waiting s \<and> waitables s' = waitables s \<and> waiter_fiber s' = waiter_fiber s
     \<and> m_suspendedQueue (wkr s') = m_suspendedQueue (wkr s) \<and> m_workerFiber (wkr s') = m_workerFiber (wkr s)
     \<and> m_end (wkr s') = m_end (wkr s) \<and> m_disableContextSwitch (wkr s') = m_disableContextSwitch (wkr s)"

lemma same_rest_refl [simp]: "same_rest s s"
  by (simp add: same_rest_def)

lemma same_rest_trans: "same_rest s t \<Longrightarrow> same_rest t u \<Longrightarrow> same_rest s u"
  by (simp add: same_rest_def)

lemma wake_parked:
  assumes "sys_inv s" "f \<in> set (queues s k)" "executing g s"
  shows "\<exists>s'. sync_wakeup f prio (set_queue k (remove1 f (queues s k)) s) = Some s' \<and> sys_inv s'
    \<and> queues s' = (queues s)(k := remove1 f (queues s k)) \<and> executing g s' \<and> same_rest s s'
    \<and> m_runnableQueue (wkr s') = (if prio then f # m_runnableQueue (wkr s) else m_runnableQueue (wkr s) @ [f])
    \<and> st (wkr s') f = Ready \<and> (\<forall>h. h \<noteq> f \<longrightarrow> m_fibers (wkr s') h = m_fibers (wkr s) h)"
proof -
  have f: "st (wkr s) f = Waiting" "\<not> linked (wkr s) f" and w: "winv (wkr s)" and p: "parked_ok s"
    using assms(1,2) by (auto simp: sys_inv_def parked_ok_def)
  have c: "m_currentFiber (wkr s) \<noteq> Some f" "g \<noteq> f" using assms(3) f by (auto simp: executing_def)
  obtain w' where w': "add f prio (upd_fiber f wakeup (wkr s)) = Some w'" "winv w'"
      "m_runnableQueue w' = (if prio then f # m_runnableQueue (wkr s) else m_runnableQueue (wkr s) @ [f])"
      "m_suspendedQueue w' = m_suspendedQueue (wkr s)" "st w' f = Ready"
      "\<forall>h. h \<noteq> f \<longrightarrow> m_fibers w' h = m_fibers (wkr s) h" "m_currentFiber w' = m_currentFiber (wkr s)"
      "m_workerFiber w' = m_workerFiber (wkr s)" "m_disableContextSwitch w' = m_disableContextSwitch (wkr s)"
      "m_end w' = m_end (wkr s)"
    using add_woken[OF w f c(1), of prio] by blast
  let ?s = "set_queue k (remove1 f (queues s k)) s\<lparr>wkr := w'\<rparr>"
  have q: "set (remove1 f (queues s k)) = set (queues s k) - {f}" "\<And>l. f \<in> set (queues s l) \<longleftrightarrow> l = k"
    using p assms(2) by (auto simp: parked_ok_def)
  have l: "linked w' h \<longleftrightarrow> h = f \<or> linked (wkr s) h" for h using w'(3,4) by (auto simp: linked_def)
  have d: "\<forall>l. distinct (queues ?s l)" using p by (simp add: parked_ok_def set_queue_def)
  have sub: "set (queues ?s l) = set (queues s l) - {f}" for l using q by (auto simp: set_queue_def)
  have "parked_ok ?s"
    unfolding parked_ok_def sub using d p w'(6) l by (simp add: parked_ok_def set_queue_def) blast
  then have "sys_inv ?s" using w'(2) by (simp add: sys_inv_def)
  moreover have "executing g ?s" using assms(3) c(2) w'(6,7) by (simp add: executing_def)
  ultimately show ?thesis
    using w' by (simp add: sync_wakeup_def set_queue_def same_rest_def)
qed

lemma unblockFirst_ok:
  assumes "sys_inv s" "queues s k = f # q" "executing g s"
  shows "\<exists>s'. unblockFirst k prio s = Some (Some f, s') \<and> sys_inv s' \<and> queues s' = (queues s)(k := q)
    \<and> executing g s' \<and> same_rest s s' \<and> st (wkr s') f = Ready
    \<and> m_runnableQueue (wkr s') = (if prio then f # m_runnableQueue (wkr s) else m_runnableQueue (wkr s) @ [f])
    \<and> (\<forall>h. h \<noteq> f \<longrightarrow> m_fibers (wkr s') h = m_fibers (wkr s) h)"
  using wake_parked[OF assms(1) _ assms(3), of f k prio] assms(2)
  by (cases prio) (auto simp: unblockFirst_def)

lemma unblockFirst_none: "queues s k = [] \<Longrightarrow> unblockFirst k prio s = Some (None, s)"
  by (simp add: unblockFirst_def)

lemma unblock_ok:
  assumes "sys_inv s" "f \<in> set (queues s k)" "executing g s"
  shows "\<exists>s'. unblock f k prio s = Some (True, s') \<and> sys_inv s'
    \<and> queues s' = (queues s)(k := remove1 f (queues s k)) \<and> executing g s' \<and> same_rest s s'
    \<and> m_runnableQueue (wkr s') = (if prio then f # m_runnableQueue (wkr s) else m_runnableQueue (wkr s) @ [f])
    \<and> st (wkr s') f = Ready \<and> (\<forall>h. h \<noteq> f \<longrightarrow> m_fibers (wkr s') h = m_fibers (wkr s) h)"
  using wake_parked[OF assms, of prio] assms(2) by (cases prio) (auto simp: unblock_def spec_erase_def)

lemma unblockAll_loop_ok:
  assumes "sys_inv s" "executing g s"
  shows "\<exists>s'. unblockAll_loop k False s = Some s' \<and> sys_inv s' \<and> queues s' = (queues s)(k := [])
    \<and> executing g s' \<and> same_rest s s' \<and> m_runnableQueue (wkr s') = m_runnableQueue (wkr s) @ queues s k
    \<and> (\<forall>f \<in> set (queues s k). st (wkr s') f = Ready)
    \<and> (\<forall>h. h \<notin> set (queues s k) \<longrightarrow> m_fibers (wkr s') h = m_fibers (wkr s) h)"
  using assms
proof (induction "queues s k" arbitrary: s)
  case Nil
  then show ?case by (subst unblockAll_loop.simps) (auto simp: fun_upd_idem)
next
  case (Cons f q)
  have fq: "f \<notin> set q" using Cons.prems(1) Cons.hyps(2)[symmetric] unfolding sys_inv_def parked_ok_def
    by (metis distinct.simps(2))
  obtain s1 where s1: "sync_wakeup f False (set_queue k q s) = Some s1" "sys_inv s1"
      "queues s1 = (queues s)(k := q)" "executing g s1" "same_rest s s1" "st (wkr s1) f = Ready"
      "m_runnableQueue (wkr s1) = m_runnableQueue (wkr s) @ [f]"
      "\<forall>h. h \<noteq> f \<longrightarrow> m_fibers (wkr s1) h = m_fibers (wkr s) h"
    using wake_parked[OF Cons.prems(1) _ Cons.prems(2), of f k False] Cons.hyps(2)[symmetric] by auto
  obtain s2 where s2: "unblockAll_loop k False s1 = Some s2" "sys_inv s2" "queues s2 = (queues s1)(k := [])"
      "executing g s2" "same_rest s1 s2" "m_runnableQueue (wkr s2) = m_runnableQueue (wkr s1) @ queues s1 k"
      "\<forall>f \<in> set (queues s1 k). st (wkr s2) f = Ready"
      "\<forall>h. h \<notin> set (queues s1 k) \<longrightarrow> m_fibers (wkr s2) h = m_fibers (wkr s1) h"
    using Cons.hyps(1)[of s1] s1(2,3,4) by auto
  have "unblockAll_loop k False s = Some s2"
    using Cons.hyps(2)[symmetric] s1(1) s2(1) by (subst unblockAll_loop.simps) simp
  moreover have "st (wkr s2) f = Ready" using s1(3,6) s2(8) fq by simp
  ultimately show ?case
    using s1 s2 same_rest_trans[OF s1(5) s2(5)] Cons.hyps(2)[symmetric] by auto
qed

lemma unblockAll_ok:
  assumes "sys_inv s" "executing g s"
  shows "\<exists>s'. unblockAll k False s = Some (queues s k \<noteq> [], s') \<and> sys_inv s' \<and> queues s' = (queues s)(k := [])
    \<and> executing g s' \<and> same_rest s s' \<and> m_runnableQueue (wkr s') = m_runnableQueue (wkr s) @ queues s k
    \<and> (\<forall>f \<in> set (queues s k). st (wkr s') f = Ready)
    \<and> (\<forall>h. h \<notin> set (queues s k) \<longrightarrow> m_fibers (wkr s') h = m_fibers (wkr s) h)"
  using unblockAll_loop_ok[OF assms, of k] assms
  by (cases "queues s k = []") (auto simp: unblockAll_def fun_upd_idem)

lemma park_ok:
  assumes "sys_inv s" "executing f s"
  shows "\<exists>s'. park k s = Some s' \<and> sys_inv s' \<and> queues s' = (queues s)(k := queues s k @ [f])
    \<and> same_rest s s' \<and> m_runnableQueue (wkr s') = remove1 f (m_runnableQueue (wkr s))
    \<and> m_currentFiber (wkr s') = Some f \<and> st (wkr s') f = Waiting
    \<and> (\<forall>h. h \<noteq> f \<longrightarrow> m_fibers (wkr s') h = m_fibers (wkr s) h)"
proof -
  let ?w = "wkr s" and ?x = "m_fibers (wkr s) f"
  have w: "winv ?w" and p: "parked_ok s" and c: "m_currentFiber ?w = Some f" "st ?w f = Running"
    using assms by (auto simp: sys_inv_def executing_def)
  have f: "f \<in> set (m_runnableQueue ?w)" "f \<noteq> m_workerFiber ?w" using current_running_queued[OF w c] .
  have i: "fiber_inv ?x" "\<not> m_negative (m_timeslice ?x)" using w c by (auto simp: winv_def fibers_ok_def)
  note nf = nap_facts[OF i(1) c(2), of ts_null]
  have fs: "f \<notin> set (m_suspendedQueue ?w)" "distinct (m_runnableQueue ?w)"
    using w f by (auto simp: winv_def queues_ok_def)
  have nq: "f \<notin> set (queues s l)" for l using p c by (auto simp: parked_ok_def)
  let ?w' = "?w\<lparr>m_runnableQueue := remove1 f (m_runnableQueue ?w), m_fibers := (m_fibers ?w)(f := nap ts_null ?x)\<rparr>"
  let ?s = "s\<lparr>wkr := ?w', queues := (queues s)(k := queues s k @ [f])\<rparr>"
  have "fibers_ok ?w'" using w i nf by (simp add: winv_def fibers_ok_def)
  moreover have "queues_ok ?w'" using w fs nf by (auto simp: winv_def queues_ok_def linked_def)
  moreover have "control_ok ?w'" using w c f nf by (auto simp: winv_def control_ok_def)
  ultimately have w': "winv ?w'" by (simp add: winv_def)
  have l: "linked ?w' h \<longleftrightarrow> h \<noteq> f \<and> linked ?w h" for h using fs by (auto simp: linked_def)
  have "parked_ok ?s" using p nq l nf by (auto simp: parked_ok_def)
  then have "sys_inv ?s" using w' by (simp add: sys_inv_def)
  moreover have "park k s = Some ?s"
    using c f fs nq l by (simp add: park_def release_def spec_erase_def enqueue_def is_linked_def linked_def
        spec_push_back_def upd_fiber_def set_queue_def)
  ultimately show ?thesis using nf c by (simp add: same_rest_def)
qed

text \<open>A fiber that waits outside the worker's queues is not touched by \<^verbatim>\<open>schedule()\<close>.\<close>

lemma sched_post_waiting:
  assumes "sched_post w r w'" "st w f = Waiting" "\<not> linked w f"
  shows "st w' f = Waiting \<and> \<not> linked w' f"
proof -
  have "\<not> linked w' f" using assms(1,3) by (auto simp: sched_post_def linked_def)
  moreover have "st w' f = Waiting"
  proof (cases r)
    case (SwitchedTo g)
    then have "g \<noteq> f" using assms by (auto simp: sched_post_def)
    then show ?thesis using SwitchedTo assms by (simp add: sched_post_def)
  qed (use assms in \<open>simp add: sched_post_def\<close>)
  ultimately show ?thesis by simp
qed

lemma schedule_sys:
  assumes "sys_inv s" "create_res env = E_OK" "contextSwitchEnabled (wkr s)" "worker_started (wkr s)"
  shows "\<exists>r w'. schedule env None now (wkr s) = Some (r, w') \<and> sched_post (wkr s) r w'
    \<and> sys_inv (s\<lparr>wkr := w'\<rparr>) \<and> (\<forall>b. r = Returned b \<longrightarrow> st (wkr s) (holder (wkr s)) = Running)"
proof -
  obtain r w' where r: "schedule env None now (wkr s) = Some (r, w')" "sched_post (wkr s) r w'"
      "\<forall>b. r = Returned b \<longrightarrow> st (wkr s) (holder (wkr s)) = Running"
    using schedule_ok[of "wkr s" env None now] assms by (auto simp: sys_inv_def)
  have p: "parked_ok s" using assms(1) by (simp add: sys_inv_def)
  have "st w' f = Waiting \<and> \<not> linked w' f" if f: "f \<in> set (queues s k)" for f k
    using sched_post_waiting[OF r(2), of f] p f by (auto simp: parked_ok_def)
  then have "parked_ok (s\<lparr>wkr := w'\<rparr>)" using p by (simp add: parked_ok_def)
  then show ?thesis using r by (auto simp: sys_inv_def sched_post_def)
qed

lemma block_ok:
  assumes "sys_inv s" "create_res env = E_OK" "contextSwitchEnabled (wkr s)" "executing f s"
  shows "\<exists>g s'. block env now k s = Some (SwitchedTo g, s') \<and> sys_inv s' \<and> g \<noteq> f
    \<and> queues s' = (queues s)(k := queues s k @ [f]) \<and> same_rest s s'
    \<and> st (wkr s') f = Waiting \<and> holder (wkr s') = g \<and> st (wkr s') g = Running
    \<and> (\<forall>h. h \<in> set (m_runnableQueue (wkr s)) \<longrightarrow> h \<noteq> f \<longrightarrow> st (wkr s) h \<noteq> Dead \<longrightarrow>
      h \<in> set (m_runnableQueue (wkr s')) \<and> st (wkr s') h \<noteq> Dead)"
proof -
  obtain s1 where s1: "park k s = Some s1" "sys_inv s1" "queues s1 = (queues s)(k := queues s k @ [f])"
      "same_rest s s1" "m_runnableQueue (wkr s1) = remove1 f (m_runnableQueue (wkr s))"
      "m_currentFiber (wkr s1) = Some f" "st (wkr s1) f = Waiting"
      "\<forall>h. h \<noteq> f \<longrightarrow> m_fibers (wkr s1) h = m_fibers (wkr s) h"
    using park_ok[OF assms(1,4)] by blast
  have en: "contextSwitchEnabled (wkr s1)" "worker_started (wkr s1)"
    using assms(3) s1(4,6) by (simp_all add: contextSwitchEnabled_def same_rest_def worker_started_def)
  obtain r w' where r: "schedule env None now (wkr s1) = Some (r, w')" "sched_post (wkr s1) r w'"
      "sys_inv (s1\<lparr>wkr := w'\<rparr>)" "\<forall>b. r = Returned b \<longrightarrow> st (wkr s1) (holder (wkr s1)) = Running"
    using schedule_sys[OF s1(2) assms(2) en] by blast
  obtain g where g: "r = SwitchedTo g" using r(4) s1(6,7) by (cases r) auto
  have "st w' f = Waiting" "g \<noteq> f" "holder w' = g" "st w' g = Running"
    using r(2) g s1(6,7) by (auto simp: sched_post_def)
  moreover have "same_rest s (s1\<lparr>wkr := w'\<rparr>)"
    using s1(4) r(2) g by (simp add: same_rest_def sched_post_def)
  moreover have "h \<in> set (m_runnableQueue w') \<and> st w' h \<noteq> Dead"
    if "h \<in> set (m_runnableQueue (wkr s))" "h \<noteq> f" "st (wkr s) h \<noteq> Dead" for h
    using r(2) s1(5,8) that g by (cases "h = g") (auto simp: sched_post_def)
  ultimately show ?thesis using s1(1,3) r(1,3) g by (simp add: block_def)
qed

text \<open>The invariant with what \<^verbatim>\<open>schedule()\<close> needs, and that it is kept by a call of \<^verbatim>\<open>schedule()\<close>.\<close>

definition sync_inv :: "sys \<Rightarrow> bool" where
  "sync_inv s \<longleftrightarrow> sys_inv s \<and> contextSwitchEnabled (wkr s) \<and> worker_started (wkr s)"

definition is_ready :: "sys \<Rightarrow> fid \<Rightarrow> bool" where
  "is_ready s f \<longleftrightarrow> f \<in> set (m_runnableQueue (wkr s)) \<and> st (wkr s) f \<noteq> Dead"

lemma sync_inv_keep:
  assumes "sync_inv s" "sys_inv s'" "same_rest s s'" "executing g s'"
  shows "sync_inv s'"
  using assms by (simp add: sync_inv_def same_rest_def contextSwitchEnabled_def worker_started_def executing_def)

lemma sync_inv_schedule:
  assumes "sync_inv s" "create_res env = E_OK" "schedule env None now (wkr s) = Some (r, w')"
  shows "sync_inv (s\<lparr>wkr := w'\<rparr>) \<and> (\<forall>h. is_ready s h \<longrightarrow> is_ready (s\<lparr>wkr := w'\<rparr>) h)"
proof -
  have i: "sys_inv s" "contextSwitchEnabled (wkr s)" "worker_started (wkr s)" using assms(1) by (auto simp: sync_inv_def)
  have p: "sched_post (wkr s) r w'" "sys_inv (s\<lparr>wkr := w'\<rparr>)"
    using schedule_sys[OF i(1) assms(2) i(2,3), of now] assms(3) by auto
  have "contextSwitchEnabled w'" using p(1) i(2) by (simp add: sched_post_def contextSwitchEnabled_def)
  moreover have "worker_started w'"
  proof (cases r)
    case (SwitchedTo f)
    then show ?thesis using p(1) by (auto simp: sched_post_def worker_started_def holder_def)
  qed (use p(1) i(3) in \<open>auto simp: sched_post_def worker_started_def\<close>)
  moreover have "is_ready (s\<lparr>wkr := w'\<rparr>) h" if "is_ready s h" for h
  proof (cases r)
    case (SwitchedTo f)
    then show ?thesis using p(1) that by (cases "h = f") (auto simp: sched_post_def is_ready_def)
  qed (use p(1) that in \<open>auto simp: sched_post_def is_ready_def\<close>)
  ultimately show ?thesis using p(2) by (simp add: sync_inv_def)
qed

subsection \<open>Who gets control\<close>

text \<open>
  A calm system: fiber \<open>c\<close> executes, the run queue is \<open>q\<close>, and all its other fibers are ready. Then it is
  determined where control goes.
\<close>

definition calm :: "fid \<Rightarrow> fid list \<Rightarrow> sys \<Rightarrow> bool" where
  "calm c q s \<longleftrightarrow> sync_inv s \<and> executing c s \<and> ts_isNull (m_end (wkr s)) \<and> m_runnableQueue (wkr s) = q
     \<and> (\<forall>f \<in> set q. f \<noteq> c \<longrightarrow> st (wkr s) f \<in> {New, Ready})"

lemma calm_switch:
  assumes "sync_inv s" "ts_isNull (m_end (wkr s))" "create_res env = E_OK" "m_currentFiber (wkr s) = Some c"
    "m_runnableQueue (wkr s) = n # rest" "st (wkr s) n \<in> {New, Ready}"
    "\<forall>f \<in> set rest. f \<noteq> c \<longrightarrow> st (wkr s) f \<in> {New, Ready}"
    "c \<in> set rest \<longrightarrow> st (wkr s) c = Running"
  shows "\<exists>w'. schedule env None t (wkr s) = Some (SwitchedTo n, w') \<and> calm n (rest @ [n]) (s\<lparr>wkr := w'\<rparr>)"
proof -
  have i: "winv (wkr s)" "contextSwitchEnabled (wkr s)" using assms(1) by (auto simp: sync_inv_def sys_inv_def)
  have h: "holder (wkr s) = c" using assms(4) by simp
  have tl: "time_left t (wkr s)" using assms(2) by simp
  obtain fs' where fs': "handover n c t (m_fibers (wkr s)) fs'"
    "schedule env None t (wkr s) = Some (SwitchedTo n, (wkr s)\<lparr>m_fibers := fs', m_runnableQueue := rest @ [n],
      m_currentFiber := Some n\<rparr>)" (is "_ = Some (_, ?w)")
    using schedule_loop_first_live[OF i(1) assms(3), of "[]" n rest t False] assms(5,6) h
      schedule_None[OF i(2) tl] by auto
  have "sync_inv (s\<lparr>wkr := ?w\<rparr>)" using sync_inv_schedule[OF assms(1,3) fs'(2)] by simp
  moreover have "m_state (fs' f) \<in> {New, Ready}" if "f \<in> set rest" "f \<noteq> n" for f
    using that assms(7,8) fs'(1) by (cases "f = c") (auto simp: handover_def)
  moreover have "m_state (fs' n) = Running" using fs'(1) by (simp add: handover_def)
  ultimately show ?thesis using fs'(2) assms(2) by (auto simp: calm_def executing_def)
qed

lemma calm_schedule:
  assumes "calm c (n # rest) s" "n \<noteq> c" "create_res env = E_OK"
  shows "\<exists>w'. schedule env None t (wkr s) = Some (SwitchedTo n, w') \<and> calm n (rest @ [n]) (s\<lparr>wkr := w'\<rparr>)"
  using assms by (intro calm_switch[where c = c]) (auto simp: calm_def executing_def)

lemma calm_block:
  assumes "calm c q s" "remove1 c q = n # rest" "create_res env = E_OK"
  shows "\<exists>s'. block env t k s = Some (SwitchedTo n, s') \<and> calm n (rest @ [n]) s'
    \<and> queues s' = (queues s)(k := queues s k @ [c])"
proof -
  have i: "sync_inv s" "sys_inv s" "executing c s" "ts_isNull (m_end (wkr s))" "m_runnableQueue (wkr s) = q"
    "\<forall>f \<in> set q. f \<noteq> c \<longrightarrow> st (wkr s) f \<in> {New, Ready}"
    using assms(1) by (auto simp: calm_def sync_inv_def)
  obtain s1 where s1: "park k s = Some s1" "sys_inv s1" "queues s1 = (queues s)(k := queues s k @ [c])"
      "same_rest s s1" "m_runnableQueue (wkr s1) = n # rest" "m_currentFiber (wkr s1) = Some c"
      "\<forall>h. h \<noteq> c \<longrightarrow> m_fibers (wkr s1) h = m_fibers (wkr s) h"
    using park_ok[OF i(2,3), of k] i(5) assms(2) by auto
  have "sync_inv s1"
    using s1(2,4,6) i(1) by (simp add: sync_inv_def same_rest_def contextSwitchEnabled_def worker_started_def)
  moreover have "distinct q" using i(2,5) by (auto simp: sys_inv_def winv_def queues_ok_def)
  then have nr: "f \<in> set q" "f \<noteq> c" if "f \<in> set (n # rest)" for f
    using that assms(2) set_remove1_eq[of q c] by (metis DiffD1, metis DiffD2 singletonI)
  ultimately obtain w' where "schedule env None t (wkr s1) = Some (SwitchedTo n, w')"
      "calm n (rest @ [n]) (s1\<lparr>wkr := w'\<rparr>)"
    using calm_switch[of s1 env c n rest t] s1 i assms(3) by (auto simp: same_rest_def)
  then show ?thesis using s1(1,3) by (simp add: block_def)
qed

lemma calm_unblockFirst:
  assumes "calm c q s" "queues s k = h # qs"
  shows "\<exists>s'. unblockFirst k False s = Some (Some h, s') \<and> calm c (q @ [h]) s' \<and> queues s' = (queues s)(k := qs)"
proof -
  have i: "sync_inv s" "sys_inv s" "executing c s" "m_runnableQueue (wkr s) = q"
    using assms(1) by (auto simp: calm_def sync_inv_def)
  obtain s' where s': "unblockFirst k False s = Some (Some h, s')" "sys_inv s'" "queues s' = (queues s)(k := qs)"
      "executing c s'" "same_rest s s'" "st (wkr s') h = Ready" "m_runnableQueue (wkr s') = q @ [h]"
      "\<forall>g. g \<noteq> h \<longrightarrow> m_fibers (wkr s') g = m_fibers (wkr s) g"
    using unblockFirst_ok[OF i(2) assms(2) i(3), of False] i(4) by auto
  have "st (wkr s') f \<in> {New, Ready}" if "f \<in> set (q @ [h])" "f \<noteq> c" for f
    using that s'(6,8) assms(1) by (cases "f = h") (auto simp: calm_def)
  then show ?thesis
    using s' sync_inv_keep[OF i(1) s'(2,5,4)] assms(1) by (auto simp: calm_def same_rest_def)
qed

lemma calm_unblockAll:
  assumes "calm c q s"
  shows "\<exists>s'. unblockAll k False s = Some (queues s k \<noteq> [], s') \<and> calm c (q @ queues s k) s'
    \<and> queues s' = (queues s)(k := [])"
proof -
  have i: "sync_inv s" "sys_inv s" "executing c s" "m_runnableQueue (wkr s) = q"
    using assms(1) by (auto simp: calm_def sync_inv_def)
  obtain s' where s': "unblockAll k False s = Some (queues s k \<noteq> [], s')" "sys_inv s'" "queues s' = (queues s)(k := [])"
      "executing c s'" "same_rest s s'" "m_runnableQueue (wkr s') = q @ queues s k"
      "\<forall>f \<in> set (queues s k). st (wkr s') f = Ready"
      "\<forall>h. h \<notin> set (queues s k) \<longrightarrow> m_fibers (wkr s') h = m_fibers (wkr s) h"
    using unblockAll_ok[OF i(2,3), of k] i(4) by auto
  have "st (wkr s') f \<in> {New, Ready}" if "f \<in> set (q @ queues s k)" "f \<noteq> c" for f
    using that s'(7,8) assms(1) by (cases "f \<in> set (queues s k)") (auto simp: calm_def)
  then show ?thesis
    using s' sync_inv_keep[OF i(1) s'(2,5,4)] assms(1) by (auto simp: calm_def same_rest_def)
qed

end
