(* ===== verification/Zth_Sync.thy ===== *)
theory Zth_Sync
  imports Zth_Synchronizer "HOL-Library.Multiset"
begin

section \<open>Mutex and semaphore\<close>

text \<open>
  \<^verbatim>\<open>include/libzth/sync.h\<close>, classes \<^verbatim>\<open>Mutex\<close>, \<^verbatim>\<open>Locked\<close> and \<^verbatim>\<open>Semaphore\<close>. An object is its own
  members and the name \<open>k\<close> of its queue; an operation works on the object and the system.

  A blocking operation is a loop around \<^verbatim>\<open>block()\<close>. Its model returns \<open>Blocked\<close> at the point
  where control moved to another context; when the fiber gets control back it goes on with the test
  of the loop, which is the same operation again. \<open>Done\<close> is the return of the operation.

  The two classes share a protocol: test, take a unit or block, give a unit and wake one waiter. The
  locale \<open>unit_resource\<close> states it, with what one step of each operation guarantees; inside it,
  conservation of units and the absence of lost wake-ups are proved once, and both classes are
  interpretations.
\<close>

datatype outcome = Done | Blocked

subsection \<open>Mutex\<close>

record mutex =
  m_locked :: bool

definition Mutex :: mutex where
  "Mutex = \<lparr>m_locked = False\<rparr>"

partial_function (option) mutex_lock ::
  "run_env \<Rightarrow> timespec \<Rightarrow> qid \<Rightarrow> mutex \<Rightarrow> sys \<Rightarrow> (outcome \<times> mutex \<times> sys) option" where
  "mutex_lock env now k m s =
     (if m_locked m then do {
       (r, s) \<leftarrow> block env now k s;
       case r of
         SwitchedTo _ \<Rightarrow> Some (Blocked, m, s)
       | Returned _ \<Rightarrow> mutex_lock env now k m s
     } else Some (Done, m\<lparr>m_locked := True\<rparr>, s))"

definition mutex_trylock :: "mutex \<Rightarrow> bool \<times> mutex" where
  "mutex_trylock m = (if m_locked m then (False, m) else (True, m\<lparr>m_locked := True\<rparr>))"

definition mutex_unlock :: "qid \<Rightarrow> mutex \<Rightarrow> sys \<Rightarrow> (mutex \<times> sys) option" where
  "mutex_unlock k m s = do {
     zth_assert (m_locked m);
     let m = m\<lparr>m_locked := False\<rparr>;
     (_, s) \<leftarrow> unblockFirst k False s;
     Some (m, s)
   }"

subsection \<open>Semaphore\<close>

definition COUNT_MAX :: nat where
  "COUNT_MAX = 2 ^ 32 - 1"

record semaphore =
  m_count :: nat
  m_unblockAll :: bool

definition Semaphore :: "nat \<Rightarrow> semaphore" where
  "Semaphore init = \<lparr>m_count = init, m_unblockAll = False\<rparr>"

partial_function (option) sem_acquire ::
  "run_env \<Rightarrow> timespec \<Rightarrow> qid \<Rightarrow> nat \<Rightarrow> semaphore \<Rightarrow> sys \<Rightarrow> (outcome \<times> semaphore \<times> sys) option" where
  "sem_acquire env now k cnt m s =
     (if m_count m < cnt then do {
       let m = (if cnt > 1 then m\<lparr>m_unblockAll := True\<rparr> else m);
       (r, s) \<leftarrow> block env now k s;
       case r of
         SwitchedTo _ \<Rightarrow> Some (Blocked, m, s)
       | Returned _ \<Rightarrow> sem_acquire env now k cnt m s
     } else do {
       let m = m\<lparr>m_count := m_count m - cnt\<rparr>;
       s \<leftarrow> (if m_count m > 0 \<and> \<not> m_unblockAll m then map_option snd (unblockFirst k False s) else Some s);
       Some (Done, m, s)
     })"

text \<open>Unsigned 32 bit addition; the assertion and the saturation test look for its wrap-around.\<close>

definition wrap_add :: "nat \<Rightarrow> nat \<Rightarrow> nat" where
  "wrap_add a b = (a + b) mod (COUNT_MAX + 1)"

definition sem_release :: "qid \<Rightarrow> nat \<Rightarrow> semaphore \<Rightarrow> sys \<Rightarrow> (semaphore \<times> sys) option" where
  "sem_release k cnt m s = do {
     zth_assert (wrap_add (m_count m) cnt \<ge> m_count m);
     let m = (if wrap_add (m_count m) cnt < m_count m then m\<lparr>m_count := COUNT_MAX\<rparr>
       else m\<lparr>m_count := wrap_add (m_count m) cnt\<rparr>);
     if m_count m > 0 then
       if \<not> m_unblockAll m then do {
         (_, s) \<leftarrow> unblockFirst k False s;
         Some (m, s)
       } else do {
         (any, s) \<leftarrow> unblockAll k False s;
         Some (if \<not> any then m\<lparr>m_unblockAll := False\<rparr> else m, s)
       }
     else Some (m, s)
   }"

definition sem_value :: "semaphore \<Rightarrow> nat" where
  "sem_value m = m_count m"

subsection \<open>The protocol\<close>

text \<open>
  The system as its users drive it: the executing fiber tries to take a unit and gets it or blocks, or
  gives back a unit that is out, or does something else. \<open>T\<close> are the fibers inside the taking operation,
  \<open>H\<close> is who holds the units that are out.
\<close>

inductive res_step ::
  "('s \<Rightarrow> fid \<Rightarrow> bool) \<Rightarrow> ('s \<Rightarrow> (outcome \<times> 's) option) \<Rightarrow> ('s \<Rightarrow> 's option) \<Rightarrow> ('s \<Rightarrow> 's \<Rightarrow> bool)
   \<Rightarrow> 's \<times> fid set \<times> fid multiset \<Rightarrow> 's \<times> fid set \<times> fid multiset \<Rightarrow> bool"
  for exec :: "'s \<Rightarrow> fid \<Rightarrow> bool" and attempt give other where
  Take: "exec s f \<Longrightarrow> attempt s = Some (Done, s') \<Longrightarrow>
    res_step exec attempt give other (s, T, H) (s', T - {f}, add_mset f H)"
| Block: "exec s f \<Longrightarrow> attempt s = Some (Blocked, s') \<Longrightarrow>
    res_step exec attempt give other (s, T, H) (s', insert f T, H)"
| Give: "exec s f \<Longrightarrow> g \<in># H \<Longrightarrow> give s = Some s' \<Longrightarrow>
    res_step exec attempt give other (s, T, H) (s', T, H - {#g#})"
| Other: "other s s' \<Longrightarrow> res_step exec attempt give other (s, T, H) (s', T, H)"

locale unit_resource =
  fixes inv :: "'s \<Rightarrow> bool"
    and exec :: "'s \<Rightarrow> fid \<Rightarrow> bool"
    and attempt :: "'s \<Rightarrow> (outcome \<times> 's) option"
    and give :: "'s \<Rightarrow> 's option"
    and other :: "'s \<Rightarrow> 's \<Rightarrow> bool"
    and queue :: "'s \<Rightarrow> fid list"
    and ready :: "'s \<Rightarrow> fid \<Rightarrow> bool"
    and units :: "'s \<Rightarrow> nat"
    and cap :: nat
  assumes block_law: "inv s \<Longrightarrow> exec s f \<Longrightarrow> units s = 0 \<Longrightarrow> \<exists>s'. attempt s = Some (Blocked, s') \<and> inv s'
      \<and> units s' = 0 \<and> queue s' = queue s @ [f] \<and> (\<forall>h. h \<noteq> f \<longrightarrow> ready s h \<longrightarrow> ready s' h)"
    and take_law: "inv s \<Longrightarrow> exec s f \<Longrightarrow> 0 < units s \<Longrightarrow> \<exists>s'. attempt s = Some (Done, s') \<and> inv s'
      \<and> Suc (units s') = units s \<and> (\<forall>h. ready s h \<longrightarrow> ready s' h)
      \<and> (queue s' = queue s \<and> (units s' = 0 \<or> queue s = []) \<or> (\<exists>h. queue s = h # queue s' \<and> ready s' h))"
    and give_law: "inv s \<Longrightarrow> exec s f \<Longrightarrow> units s < cap \<Longrightarrow> \<exists>s'. give s = Some s' \<and> inv s'
      \<and> units s' = Suc (units s) \<and> (\<forall>h. ready s h \<longrightarrow> ready s' h)
      \<and> (queue s = [] \<and> queue s' = [] \<or> (\<exists>h. queue s = h # queue s' \<and> ready s' h))"
    and other_law: "inv s \<Longrightarrow> other s s' \<Longrightarrow> inv s' \<and> units s' = units s \<and> queue s' = queue s
      \<and> (\<forall>h. ready s h \<longrightarrow> ready s' h)"
    and parked_law: "inv s \<Longrightarrow> distinct (queue s) \<and> (\<forall>f \<in> set (queue s). \<not> exec s f \<and> \<not> ready s f)"
begin

abbreviation step :: "'s \<times> fid set \<times> fid multiset \<Rightarrow> 's \<times> fid set \<times> fid multiset \<Rightarrow> bool" where
  "step \<equiv> res_step exec attempt give other"

definition good :: "nat \<Rightarrow> 's \<times> fid set \<times> fid multiset \<Rightarrow> bool" where
  "good n x \<longleftrightarrow> (case x of (s, T, H) \<Rightarrow> inv s \<and> units s + size H = n \<and> n \<le> cap \<and> set (queue s) \<subseteq> T
     \<and> (queue s \<noteq> [] \<and> 0 < units s \<longrightarrow> (\<exists>h \<in> T. ready s h)))"

lemma good_take:
  assumes "good n (s, T, H)" "exec s f" "attempt s = Some (Done, s')"
  shows "good n (s', T - {f}, add_mset f H)"
proof -
  have i: "inv s" "units s + size H = n" "n \<le> cap" "set (queue s) \<subseteq> T" using assms(1) by (auto simp: good_def)
  have fq: "f \<notin> set (queue s)" "distinct (queue s)" using parked_law[OF i(1)] assms(2) by auto
  have u: "0 < units s" using block_law[OF i(1) assms(2)] assms(3) by (cases "units s = 0") auto
  obtain s'' where s: "attempt s = Some (Done, s'')" "inv s''" "Suc (units s'') = units s"
      "queue s'' = queue s \<and> (units s'' = 0 \<or> queue s = []) \<or> (\<exists>h. queue s = h # queue s'' \<and> ready s'' h)"
    using take_law[OF i(1) assms(2) u] by blast
  have eq: "s'' = s'" using s(1) assms(3) by simp
  have "set (queue s') \<subseteq> T - {f}" using s(4) i(4) fq eq by auto
  moreover have "\<exists>h \<in> T - {f}. ready s' h" if q: "queue s' \<noteq> []" "0 < units s'"
  proof -
    obtain h where "queue s = h # queue s'" "ready s' h" using s(4) q eq by auto
    moreover have "h \<in> T - {f}" using calculation(1) i(4) fq by auto
    ultimately show ?thesis by blast
  qed
  ultimately show ?thesis using s(2,3) i(2,3) eq by (auto simp: good_def)
qed

lemma good_give:
  assumes "good n (s, T, H)" "exec s f" "g \<in># H" "give s = Some s'"
  shows "good n (s', T, H - {#g#})"
proof -
  have i: "inv s" "units s + size H = n" "n \<le> cap" "set (queue s) \<subseteq> T" using assms(1) by (auto simp: good_def)
  have h: "size H = Suc (size (H - {#g#}))" using assms(3) by (simp add: size_Suc_Diff1)
  then have "units s < cap" using i(2,3) by simp
  then obtain s'' where s: "give s = Some s''" "inv s''" "units s'' = Suc (units s)"
      "queue s = [] \<and> queue s'' = [] \<or> (\<exists>h. queue s = h # queue s'' \<and> ready s'' h)"
    using give_law[OF i(1) assms(2)] by blast
  then show ?thesis using assms(4) i h by (auto simp: good_def)
qed

lemma good_block:
  assumes "good n (s, T, H)" "exec s f" "attempt s = Some (Blocked, s')"
  shows "good n (s', insert f T, H)"
proof -
  have i: "inv s" "units s + size H = n" "n \<le> cap" "set (queue s) \<subseteq> T" using assms(1) by (auto simp: good_def)
  have u: "units s = 0" using take_law[OF i(1) assms(2)] assms(3) by (cases "units s = 0") auto
  then show ?thesis using block_law[OF i(1) assms(2) u] assms(3) i by (auto simp: good_def)
qed

lemma good_step: "step x y \<Longrightarrow> good n x \<Longrightarrow> good n y"
proof (induction rule: res_step.induct)
  case (Other s s' T H)
  then show ?case using other_law[of s s'] by (auto simp: good_def)
qed (auto intro: good_take good_block good_give)

lemma good_reach: "step\<^sup>*\<^sup>* x y \<Longrightarrow> good n x \<Longrightarrow> good n y"
  by (induction rule: rtranclp_induct) (auto intro: good_step)

lemma conservation: "step\<^sup>*\<^sup>* (s, T, H) (s', T', H') \<Longrightarrow> good n (s, T, H) \<Longrightarrow> units s' + size H' = n"
  using good_reach[of "(s, T, H)" "(s', T', H')" n] by (simp add: good_def)

lemma no_lost_wakeup:
  "step\<^sup>*\<^sup>* (s, T, H) (s', T', H') \<Longrightarrow> good n (s, T, H) \<Longrightarrow> queue s' \<noteq> [] \<Longrightarrow> 0 < units s' \<Longrightarrow> \<exists>h \<in> T'. ready s' h"
  using good_reach[of "(s, T, H)" "(s', T', H')" n] by (simp add: good_def)

text \<open>Progress: in a good state, an attempt always returns, with the unit when there is one.\<close>

lemma attempt_total:
  "good n (s, T, H) \<Longrightarrow> exec s f \<Longrightarrow> \<exists>s'. attempt s = Some (if 0 < units s then Done else Blocked, s')"
  using take_law[of s f] block_law[of s f] by (cases "units s = 0") (auto simp: good_def)

end

subsection \<open>The mutex is a resource of one unit\<close>

text \<open>The state of the protocol: the object, the system, and the clock.\<close>

type_synonym 'm sync_state = "'m \<times> sys \<times> timespec"

definition exec_of :: "'m sync_state \<Rightarrow> fid \<Rightarrow> bool" where
  "exec_of x f \<longleftrightarrow> executing f (fst (snd x))"

definition ready_of :: "'m sync_state \<Rightarrow> fid \<Rightarrow> bool" where
  "ready_of x f \<longleftrightarrow> is_ready (fst (snd x)) f"

text \<open>What else happens: the clock goes on, or the context that has control calls \<^verbatim>\<open>schedule()\<close>.\<close>

definition other_of :: "run_env \<Rightarrow> 'm sync_state \<Rightarrow> 'm sync_state \<Rightarrow> bool" where
  "other_of env x y \<longleftrightarrow> (case (x, y) of ((m, s, t), (m', s', t')) \<Rightarrow>
     m' = m \<and> (s' = s \<or> (\<exists>r w'. schedule env None t (wkr s) = Some (r, w') \<and> s' = s\<lparr>wkr := w'\<rparr>)))"

definition inv_of :: "run_env \<Rightarrow> 'm sync_state \<Rightarrow> bool" where
  "inv_of env x \<longleftrightarrow> create_res env = E_OK \<and> sync_inv (fst (snd x))"

definition queue_of :: "qid \<Rightarrow> 'm sync_state \<Rightarrow> fid list" where
  "queue_of k x = queues (fst (snd x)) k"

definition mutex_attempt :: "run_env \<Rightarrow> qid \<Rightarrow> mutex sync_state \<Rightarrow> (outcome \<times> mutex sync_state) option" where
  "mutex_attempt env k x = (case x of (m, s, t) \<Rightarrow> do {
     (out, m, s) \<leftarrow> mutex_lock env t k m s;
     Some (out, m, s, t)
   })"

definition mutex_give :: "qid \<Rightarrow> mutex sync_state \<Rightarrow> mutex sync_state option" where
  "mutex_give k x = (case x of (m, s, t) \<Rightarrow> do { (m, s) \<leftarrow> mutex_unlock k m s; Some (m, s, t) })"

definition mutex_units :: "mutex sync_state \<Rightarrow> nat" where
  "mutex_units x = (if m_locked (fst x) then 0 else 1)"

lemmas sync_of_defs = exec_of_def ready_of_def inv_of_def queue_of_def

lemma other_of_ok:
  assumes "inv_of env x" "other_of env x y"
  shows "inv_of env y \<and> fst y = fst x \<and> queue_of k y = queue_of k x \<and> (\<forall>h. ready_of x h \<longrightarrow> ready_of y h)"
  using assms sync_inv_schedule[of "fst (snd x)" env]
  by (auto simp: sync_of_defs other_of_def split: prod.splits)

lemma parked_of_ok:
  assumes "inv_of env x"
  shows "distinct (queue_of k x) \<and> (\<forall>f \<in> set (queue_of k x). \<not> exec_of x f \<and> \<not> ready_of x f)"
  using assms
  by (auto simp: sync_of_defs sync_inv_def sys_inv_def parked_ok_def executing_def is_ready_def linked_def)

lemma block_of_ok:
  assumes "inv_of env (m, s, t)" "exec_of (m, s, t) f"
  shows "\<exists>g s'. block env t k s = Some (SwitchedTo g, s') \<and> inv_of env (m', s', t)
    \<and> queue_of k (m', s', t) = queue_of k (m, s, t) @ [f]
    \<and> (\<forall>h. h \<noteq> f \<longrightarrow> ready_of (m, s, t) h \<longrightarrow> ready_of (m', s', t) h)"
proof -
  have i: "sys_inv s" "contextSwitchEnabled (wkr s)" "create_res env = E_OK" "executing f s"
    using assms by (auto simp: sync_of_defs sync_inv_def)
  obtain g s' where s': "block env t k s = Some (SwitchedTo g, s')" "sys_inv s'" "holder (wkr s') = g"
      "queues s' = (queues s)(k := queues s k @ [f])" "same_rest s s'" "st (wkr s') g = Running"
      "\<forall>h. h \<in> set (m_runnableQueue (wkr s)) \<longrightarrow> h \<noteq> f \<longrightarrow> st (wkr s) h \<noteq> Dead \<longrightarrow>
        h \<in> set (m_runnableQueue (wkr s')) \<and> st (wkr s') h \<noteq> Dead"
    using block_ok[OF i(1,3,2,4), of t k] by blast
  have "sync_inv s'"
    using s'(2,3,5,6) i(2) by (auto simp: sync_inv_def same_rest_def contextSwitchEnabled_def worker_started_def holder_def)
  then show ?thesis using s'(1,4,7) i(3) by (auto simp: sync_of_defs is_ready_def)
qed

lemma unblockFirst_of_ok:
  assumes "inv_of env (m, s, t)" "exec_of (m, s, t) f"
  shows "\<exists>r s'. unblockFirst k False s = Some (r, s') \<and> inv_of env (m', s', t)
    \<and> (\<forall>h. ready_of (m, s, t) h \<longrightarrow> ready_of (m', s', t) h) \<and> exec_of (m', s', t) f
    \<and> (queue_of k (m, s, t) = [] \<and> queue_of k (m', s', t) = []
       \<or> (\<exists>h. queue_of k (m, s, t) = h # queue_of k (m', s', t) \<and> ready_of (m', s', t) h))"
proof (cases "queues s k")
  case Nil
  then show ?thesis using assms by (simp add: unblockFirst_none sync_of_defs)
next
  case (Cons h q)
  have i: "sys_inv s" "sync_inv s" "executing f s" "create_res env = E_OK"
    using assms by (auto simp: sync_of_defs sync_inv_def)
  obtain s' where s': "unblockFirst k False s = Some (Some h, s')" "sys_inv s'" "queues s' = (queues s)(k := q)"
      "executing f s'" "same_rest s s'" "st (wkr s') h = Ready"
      "m_runnableQueue (wkr s') = m_runnableQueue (wkr s) @ [h]"
      "\<forall>g. g \<noteq> h \<longrightarrow> m_fibers (wkr s') g = m_fibers (wkr s) g"
    using unblockFirst_ok[OF i(1) Cons i(3), of False] by auto
  have "sync_inv s'" using sync_inv_keep[OF i(2) s'(2,5,4)] .
  moreover have "is_ready s' g" if "is_ready s g \<or> g = h" for g
    using that s'(6,7,8) by (cases "g = h") (auto simp: is_ready_def)
  ultimately show ?thesis using s'(1,3,4) Cons i(4) by (auto simp: sync_of_defs)
qed

interpretation mtx: unit_resource "inv_of env" exec_of "mutex_attempt env k" "mutex_give k" "other_of env"
    "queue_of k" ready_of mutex_units 1 for env k
proof unfold_locales
  fix x :: "mutex sync_state" and f :: fid and y
  assume inv: "inv_of env x"
  obtain m s t where x: "x = (m, s, t)" by (cases x)
  show "distinct (queue_of k x) \<and> (\<forall>f \<in> set (queue_of k x). \<not> exec_of x f \<and> \<not> ready_of x f)"
    using parked_of_ok[OF inv] .
  show "inv_of env y \<and> mutex_units y = mutex_units x \<and> queue_of k y = queue_of k x
      \<and> (\<forall>h. ready_of x h \<longrightarrow> ready_of y h)" if "other_of env x y"
    using other_of_ok[OF inv that] by (simp add: mutex_units_def)
  assume ex: "exec_of x f"
  show "\<exists>s'. mutex_attempt env k x = Some (Blocked, s') \<and> inv_of env s' \<and> mutex_units s' = 0
      \<and> queue_of k s' = queue_of k x @ [f] \<and> (\<forall>h. h \<noteq> f \<longrightarrow> ready_of x h \<longrightarrow> ready_of s' h)"
    if "mutex_units x = 0"
  proof -
    have l: "m_locked m" using that x by (simp add: mutex_units_def split: if_splits)
    obtain g s' where "block env t k s = Some (SwitchedTo g, s')" "inv_of env (m, s', t)"
      "queue_of k (m, s', t) = queue_of k x @ [f]" "\<forall>h. h \<noteq> f \<longrightarrow> ready_of x h \<longrightarrow> ready_of (m, s', t) h"
      using block_of_ok[of env m s t f k m] inv ex x by auto
    then show ?thesis
      using l x by (intro exI[of _ "(m, s', t)"]) (simp add: mutex_attempt_def mutex_lock.simps mutex_units_def)
  qed
  show "\<exists>s'. mutex_attempt env k x = Some (Done, s') \<and> inv_of env s' \<and> Suc (mutex_units s') = mutex_units x
      \<and> (\<forall>h. ready_of x h \<longrightarrow> ready_of s' h)
      \<and> (queue_of k s' = queue_of k x \<and> (mutex_units s' = 0 \<or> queue_of k x = [])
         \<or> (\<exists>h. queue_of k x = h # queue_of k s' \<and> ready_of s' h))"
    if "0 < mutex_units x"
    using that x inv
    by (auto simp: mutex_attempt_def mutex_lock.simps mutex_units_def sync_of_defs split: if_splits)
  show "\<exists>s'. mutex_give k x = Some s' \<and> inv_of env s' \<and> mutex_units s' = Suc (mutex_units x)
      \<and> (\<forall>h. ready_of x h \<longrightarrow> ready_of s' h)
      \<and> (queue_of k x = [] \<and> queue_of k s' = [] \<or> (\<exists>h. queue_of k x = h # queue_of k s' \<and> ready_of s' h))"
    if "mutex_units x < 1"
  proof -
    have l: "m_locked m" using that x by (simp add: mutex_units_def split: if_splits)
    obtain r s' where "unblockFirst k False s = Some (r, s')" "inv_of env (m\<lparr>m_locked := False\<rparr>, s', t)"
      "\<forall>h. ready_of x h \<longrightarrow> ready_of (m\<lparr>m_locked := False\<rparr>, s', t) h"
      "queue_of k x = [] \<and> queue_of k (m\<lparr>m_locked := False\<rparr>, s', t) = []
       \<or> (\<exists>h. queue_of k x = h # queue_of k (m\<lparr>m_locked := False\<rparr>, s', t) \<and> ready_of (m\<lparr>m_locked := False\<rparr>, s', t) h)"
      using unblockFirst_of_ok[of env m s t f k "m\<lparr>m_locked := False\<rparr>"] inv ex x by auto
    then show ?thesis
      using l x by (intro exI[of _ "(m\<lparr>m_locked := False\<rparr>, s', t)"])
        (simp add: mutex_give_def mutex_unlock_def mutex_units_def)
  qed
qed

subsection \<open>The semaphore, used one unit at a time\<close>

definition sem_attempt :: "run_env \<Rightarrow> qid \<Rightarrow> semaphore sync_state \<Rightarrow> (outcome \<times> semaphore sync_state) option" where
  "sem_attempt env k x = (case x of (m, s, t) \<Rightarrow> do {
     (out, m, s) \<leftarrow> sem_acquire env t k 1 m s;
     Some (out, m, s, t)
   })"

definition sem_give :: "qid \<Rightarrow> semaphore sync_state \<Rightarrow> semaphore sync_state option" where
  "sem_give k x = (case x of (m, s, t) \<Rightarrow> do { (m, s) \<leftarrow> sem_release k 1 m s; Some (m, s, t) })"

definition sem_units :: "semaphore sync_state \<Rightarrow> nat" where
  "sem_units x = m_count (fst x)"

definition sem_inv_of :: "run_env \<Rightarrow> semaphore sync_state \<Rightarrow> bool" where
  "sem_inv_of env x \<longleftrightarrow> inv_of env x \<and> \<not> m_unblockAll (fst x)"

lemma wrap_add_less: "a + b \<le> COUNT_MAX \<Longrightarrow> wrap_add a b = a + b"
  by (simp add: wrap_add_def)

interpretation smp: unit_resource "sem_inv_of env" exec_of "sem_attempt env k" "sem_give k" "other_of env"
    "queue_of k" ready_of sem_units COUNT_MAX for env k
proof unfold_locales
  fix x :: "semaphore sync_state" and f :: fid and y
  assume "sem_inv_of env x"
  then have inv: "inv_of env x" and nu: "\<not> m_unblockAll (fst x)" by (simp_all add: sem_inv_of_def)
  obtain m s t where x: "x = (m, s, t)" by (cases x)
  show "distinct (queue_of k x) \<and> (\<forall>f \<in> set (queue_of k x). \<not> exec_of x f \<and> \<not> ready_of x f)"
    using parked_of_ok[OF inv] .
  show "sem_inv_of env y \<and> sem_units y = sem_units x \<and> queue_of k y = queue_of k x
      \<and> (\<forall>h. ready_of x h \<longrightarrow> ready_of y h)" if "other_of env x y"
    using other_of_ok[OF inv that] nu by (simp add: sem_units_def sem_inv_of_def)
  assume ex: "exec_of x f"
  show "\<exists>s'. sem_attempt env k x = Some (Blocked, s') \<and> sem_inv_of env s' \<and> sem_units s' = 0
      \<and> queue_of k s' = queue_of k x @ [f] \<and> (\<forall>h. h \<noteq> f \<longrightarrow> ready_of x h \<longrightarrow> ready_of s' h)"
    if "sem_units x = 0"
  proof -
    obtain g s' where "block env t k s = Some (SwitchedTo g, s')" "inv_of env (m, s', t)"
      "queue_of k (m, s', t) = queue_of k x @ [f]" "\<forall>h. h \<noteq> f \<longrightarrow> ready_of x h \<longrightarrow> ready_of (m, s', t) h"
      using block_of_ok[of env m s t f k m] inv ex x by auto
    then show ?thesis
      using that nu x by (intro exI[of _ "(m, s', t)"])
        (simp add: sem_attempt_def sem_acquire.simps sem_units_def sem_inv_of_def)
  qed
  show "\<exists>s'. sem_attempt env k x = Some (Done, s') \<and> sem_inv_of env s' \<and> Suc (sem_units s') = sem_units x
      \<and> (\<forall>h. ready_of x h \<longrightarrow> ready_of s' h)
      \<and> (queue_of k s' = queue_of k x \<and> (sem_units s' = 0 \<or> queue_of k x = [])
         \<or> (\<exists>h. queue_of k x = h # queue_of k s' \<and> ready_of s' h))"
    if u: "0 < sem_units x"
  proof -
    let ?m = "m\<lparr>m_count := m_count m - 1\<rparr>"
    obtain r s' where s': "unblockFirst k False s = Some (r, s')" "inv_of env (?m, s', t)"
      "\<forall>h. ready_of x h \<longrightarrow> ready_of (?m, s', t) h"
      "queue_of k x = [] \<and> queue_of k (?m, s', t) = []
       \<or> (\<exists>h. queue_of k x = h # queue_of k (?m, s', t) \<and> ready_of (?m, s', t) h)"
      using unblockFirst_of_ok[of env m s t f k ?m] inv ex x by auto
    show ?thesis
    proof (cases "m_count m = 1")
      case True
      then show ?thesis using nu x inv
        by (intro exI[of _ "(?m, s, t)"])
          (simp add: sem_attempt_def sem_acquire.simps sem_units_def sem_inv_of_def sync_of_defs)
    next
      case False
      then show ?thesis using nu x u s'
        by (intro exI[of _ "(?m, s', t)"])
          (auto simp: sem_attempt_def sem_acquire.simps sem_units_def sem_inv_of_def)
    qed
  qed
  show "\<exists>s'. sem_give k x = Some s' \<and> sem_inv_of env s' \<and> sem_units s' = Suc (sem_units x)
      \<and> (\<forall>h. ready_of x h \<longrightarrow> ready_of s' h)
      \<and> (queue_of k x = [] \<and> queue_of k s' = [] \<or> (\<exists>h. queue_of k x = h # queue_of k s' \<and> ready_of s' h))"
    if "sem_units x < COUNT_MAX"
  proof -
    let ?m = "m\<lparr>m_count := Suc (m_count m)\<rparr>"
    have "wrap_add (m_count m) 1 = Suc (m_count m)" using that x by (simp add: sem_units_def wrap_add_less)
    moreover obtain r s' where "unblockFirst k False s = Some (r, s')" "inv_of env (?m, s', t)"
      "\<forall>h. ready_of x h \<longrightarrow> ready_of (?m, s', t) h"
      "queue_of k x = [] \<and> queue_of k (?m, s', t) = []
       \<or> (\<exists>h. queue_of k x = h # queue_of k (?m, s', t) \<and> ready_of (?m, s', t) h)"
      using unblockFirst_of_ok[of env m s t f k ?m] inv ex x by auto
    ultimately show ?thesis
      using nu x by (intro exI[of _ "(?m, s', t)"]) (simp add: sem_give_def sem_release_def sem_units_def sem_inv_of_def)
  qed
qed

subsection \<open>Properties\<close>

text \<open>A system of one mutex or semaphore at the beginning: nobody waits in its queue.\<close>

definition fresh :: "run_env \<Rightarrow> qid \<Rightarrow> sys \<Rightarrow> bool" where
  "fresh env k s \<longleftrightarrow> create_res env = E_OK \<and> sync_inv s \<and> queues s k = []"

lemma mutex_good0: "fresh env k s \<Longrightarrow> mtx.good env k 1 ((Mutex, s, t), {}, {#})"
  unfolding mtx.good_def by (simp add: fresh_def sync_of_defs mutex_units_def Mutex_def)

text \<open>
  C3. Mutual exclusion. However fibers lock, block, get woken, unlock and yield, from an unlocked mutex
  on: at most one holder is out, and the mutex is locked exactly when there is one. A call of \<^verbatim>\<open>lock()\<close> by the
  executing fiber does not trap: it takes the mutex at once when it is free, and else parks the fiber, also when the fiber holds the mutex itself. Whether a parked fiber ever gets the mutex
  is not said here.
\<close>

theorem mutex_exclusion:
  assumes "fresh env k s"
    "(res_step exec_of (mutex_attempt env k) (mutex_give k) (other_of env))\<^sup>*\<^sup>* ((Mutex, s, t), {}, {#}) ((m, s', t'), T, H)"
  shows "size H = (if m_locked m then 1 else 0)
    \<and> (\<forall>f. executing f s' \<longrightarrow> (\<exists>m' s''. mutex_lock env t' k m s' = Some (if m_locked m then Blocked else Done, m', s'')))"
proof -
  note g0 = mutex_good0[OF assms(1), of t]
  have g: "mtx.good env k 1 ((m, s', t'), T, H)" using mtx.good_reach[OF assms(2) g0] .
  have "size H = (if m_locked m then 1 else 0)"
    using mtx.conservation[OF assms(2) g0] by (simp add: mutex_units_def split: if_splits)
  moreover have "\<exists>m' s''. mutex_lock env t' k m s' = Some (if m_locked m then Blocked else Done, m', s'')"
    if "executing f s'" for f
  proof -
    have "exec_of (m, s', t') f" using that by (simp add: exec_of_def)
    then obtain y where "mutex_attempt env k (m, s', t') = Some (if 0 < mutex_units (m, s', t') then Done else Blocked, y)"
      using mtx.attempt_total[OF g] by blast
    then show ?thesis by (auto simp: mutex_attempt_def mutex_units_def split: bind_splits if_splits)
  qed
  ultimately show ?thesis by blast
qed

text \<open>A system with the executing fiber 3 and the ready fibers 1 and 2 of \<open>busy_worker\<close>, and no timers.\<close>

definition demo_sys :: sys where
  "demo_sys = \<lparr>wkr = busy_worker, queues = (\<lambda>_. []), waiting = SortedList,
     waitables = (\<lambda>_. \<lparr>w_timeout = ts_null, w_fiber = None, w_kind = Timed, w_rang = False\<rparr>), waiter_fiber = None\<rparr>"

lemma demo_sys_inv: "sync_inv demo_sys" "executing 3 demo_sys"
  using ready_fiber_ok
  by (simp_all add: sync_inv_def sys_inv_def parked_ok_def demo_sys_def winv_defs busy_worker_def demo_worker_def
      holder_def fiber_inv_def ti_null_def contextSwitchEnabled_def worker_started_def executing_def)

lemma demo_fresh: "fresh demo_env k demo_sys"
  using demo_sys_inv by (simp add: fresh_def demo_env_def demo_sys_def)

theorem mutex_exclusion_witness:
  "\<exists>m' s''. mutex_lock demo_env ts_null (Qid 9 0) Mutex demo_sys = Some (Done, m', s'')"
  using mutex_exclusion[OF demo_fresh[of "Qid 9 0"] rtranclp.rtrancl_refl, of ts_null] demo_sys_inv(2)
  by (auto simp: Mutex_def)

text \<open>
  C15. No lost wake-up of the mutex: whenever the mutex is free while fibers are parked in its queue, one of
  the fibers inside \<^verbatim>\<open>lock()\<close> is in the run queue, and will retry when the scheduler gives it control.
\<close>

theorem mutex_no_lost_wakeup:
  assumes "fresh env k s"
    "(res_step exec_of (mutex_attempt env k) (mutex_give k) (other_of env))\<^sup>*\<^sup>* ((Mutex, s, t), {}, {#}) ((m, s', t'), T, H)"
    "\<not> m_locked m" "queues s' k \<noteq> []"
  shows "\<exists>f \<in> T. is_ready s' f"
proof -
  note g0 = mutex_good0[OF assms(1), of t]
  show ?thesis
    using mtx.no_lost_wakeup[OF assms(2) g0] assms(3,4) by (simp add: queue_of_def mutex_units_def ready_of_def)
qed

lemma demo_calm: "calm 3 [1, 2, 3] demo_sys"
  using demo_sys_inv ready_fiber_ok unfolding calm_def
  by (simp add: demo_sys_def busy_worker_def demo_worker_def ts_isNull_def ts_null_def)

text \<open>Appending one step to a run.\<close>

lemma run_take:
  "(res_step exec attempt give other)\<^sup>*\<^sup>* x (s, T, H) \<Longrightarrow> exec s f \<Longrightarrow> attempt s = Some (Done, s') \<Longrightarrow>
    T' = T - {f} \<Longrightarrow> H' = add_mset f H \<Longrightarrow> (res_step exec attempt give other)\<^sup>*\<^sup>* x (s', T', H')"
  by (metis res_step.Take rtranclp.rtrancl_into_rtrancl)

lemma run_block:
  "(res_step exec attempt give other)\<^sup>*\<^sup>* x (s, T, H) \<Longrightarrow> exec s f \<Longrightarrow> attempt s = Some (Blocked, s') \<Longrightarrow>
    T' = insert f T \<Longrightarrow> (res_step exec attempt give other)\<^sup>*\<^sup>* x (s', T', H)"
  by (metis res_step.Block rtranclp.rtrancl_into_rtrancl)

lemma run_give:
  "(res_step exec attempt give other)\<^sup>*\<^sup>* x (s, T, add_mset g H) \<Longrightarrow> exec s f \<Longrightarrow> give s = Some s' \<Longrightarrow>
    (res_step exec attempt give other)\<^sup>*\<^sup>* x (s', T, H)"
  using res_step.Give[of exec s f g "add_mset g H" give s' attempt other T]
  by (auto intro: rtranclp.rtrancl_into_rtrancl)

lemma run_other:
  "(res_step exec attempt give other)\<^sup>*\<^sup>* x (s, T, H) \<Longrightarrow> other s s' \<Longrightarrow>
    (res_step exec attempt give other)\<^sup>*\<^sup>* x (s', T, H)"
  by (metis res_step.Other rtranclp.rtrancl_into_rtrancl)

lemma calm_exec_of: "calm c q s \<Longrightarrow> exec_of (m, s, t) c"
  by (simp add: calm_def exec_of_def)

text \<open>A run: 3 locks, 1 and 2 block, 3 unlocks. Then 1 is woken while 2 is still parked.\<close>

lemma mutex_demo_run:
  "\<exists>s'. (res_step exec_of (mutex_attempt demo_env k) (mutex_give k) (other_of demo_env))\<^sup>*\<^sup>*
      ((Mutex, demo_sys, ts_null), {}, {#}) ((Mutex, s', ts_null), {1, 2}, {#}) \<and> queues s' k = [2]"
proof -
  let ?step = "res_step exec_of (mutex_attempt demo_env k) (mutex_give k) (other_of demo_env)"
  let ?t = ts_null and ?m = "\<lparr>m_locked = True\<rparr>" and ?x = "((Mutex, demo_sys, ts_null), {}, {#})"
  have e: "create_res demo_env = E_OK" by (simp add: demo_env_def)
  have 1: "?step\<^sup>*\<^sup>* ?x ((?m, demo_sys, ?t), {}, {#3#})"
    by (rule run_take[OF rtranclp.rtrancl_refl, where exec = exec_of, OF calm_exec_of[OF demo_calm]])
      (simp_all add: mutex_attempt_def mutex_lock.simps Mutex_def)
  obtain w1 where w1: "schedule demo_env None ?t (wkr demo_sys) = Some (SwitchedTo 1, w1)"
      "calm 1 [2, 3, 1] (demo_sys\<lparr>wkr := w1\<rparr>)"
    using calm_schedule[OF demo_calm _ e, of ?t] by auto
  let ?s1 = "demo_sys\<lparr>wkr := w1\<rparr>"
  have 2: "?step\<^sup>*\<^sup>* ?x ((?m, ?s1, ?t), {}, {#3#})"
    by (rule run_other[OF 1]) (use w1(1) in \<open>auto simp: other_of_def\<close>)
  obtain s2 where s2: "block demo_env ?t k ?s1 = Some (SwitchedTo 2, s2)" "calm 2 [3, 2] s2"
      "queues s2 k = [1]"
    using calm_block[OF w1(2) _ e, of 2 "[3]" ?t k] by (auto simp: demo_sys_def)
  have 3: "?step\<^sup>*\<^sup>* ?x ((?m, s2, ?t), {1}, {#3#})"
    by (rule run_block[OF 2 calm_exec_of[OF w1(2)]]) (simp_all add: mutex_attempt_def mutex_lock.simps s2(1))
  obtain s3 where s3: "block demo_env ?t k s2 = Some (SwitchedTo 3, s3)" "calm 3 [3] s3" "queues s3 k = [1, 2]"
    using calm_block[OF s2(2) _ e, of 3 "[]" ?t k] s2(3) by auto
  have 4: "?step\<^sup>*\<^sup>* ?x ((?m, s3, ?t), {1, 2}, {#3#})"
    by (rule run_block[OF 3 calm_exec_of[OF s2(2)]])
      (auto simp: mutex_attempt_def mutex_lock.simps s3(1))
  obtain s4 where s4: "unblockFirst k False s3 = Some (Some 1, s4)" "queues s4 k = [2]"
    using calm_unblockFirst[OF s3(2,3)] by auto
  have "?step\<^sup>*\<^sup>* ?x ((Mutex, s4, ?t), {1, 2}, {#})"
    by (rule run_give[OF 4 calm_exec_of[OF s3(2)]]) (simp add: mutex_give_def mutex_unlock_def s4(1) Mutex_def)
  then show ?thesis using s4(2) by blast
qed

theorem mutex_no_lost_wakeup_witness:
  "\<exists>s'. queues s' (Qid 9 0) = [2] \<and> (\<exists>f \<in> {1, 2 :: fid}. is_ready s' f)"
proof -
  obtain s' where s': "(res_step exec_of (mutex_attempt demo_env (Qid 9 0)) (mutex_give (Qid 9 0)) (other_of demo_env))\<^sup>*\<^sup>*
      ((Mutex, demo_sys, ts_null), {}, {#}) ((Mutex, s', ts_null), {1, 2}, {#})" "queues s' (Qid 9 0) = [2]"
    using mutex_demo_run[of "Qid 9 0"] by blast
  have "\<exists>f \<in> {1, 2 :: fid}. is_ready s' f"
    by (rule mutex_no_lost_wakeup[OF demo_fresh s'(1)]) (simp_all add: Mutex_def s'(2))
  then show ?thesis using s'(2) by blast
qed

lemma sem_good0:
  "fresh env k s \<Longrightarrow> init + size H \<le> COUNT_MAX \<Longrightarrow> smp.good env k (init + size H) ((Semaphore init, s, t), {}, H)"
  unfolding smp.good_def by (simp add: fresh_def sync_of_defs sem_inv_of_def sem_units_def Semaphore_def)

text \<open>
  C16. A semaphore used with \<^verbatim>\<open>acquire(1)\<close> and \<^verbatim>\<open>release(1)\<close> neither loses nor invents units, and loses no
  wake-up: the count and the units that are out always add up to what there was, where the units \<open>H0\<close>
  that are out at the beginning are those that fibers will produce; and when the count is positive while
  fibers are parked, one of the fibers inside \<^verbatim>\<open>acquire()\<close> is in the run queue.
\<close>

theorem sem_conservation:
  assumes "fresh env k s" "init + size H0 \<le> COUNT_MAX"
    "(res_step exec_of (sem_attempt env k) (sem_give k) (other_of env))\<^sup>*\<^sup>*
      ((Semaphore init, s, t), {}, H0) ((m, s', t'), T, H)"
  shows "m_count m + size H = init + size H0 \<and> (queues s' k \<noteq> [] \<and> 0 < m_count m \<longrightarrow> (\<exists>f \<in> T. is_ready s' f))"
  using smp.conservation[OF assms(3) sem_good0[OF assms(1,2)]]
    smp.no_lost_wakeup[OF assms(3) sem_good0[OF assms(1,2)]]
  by (simp add: sem_units_def queue_of_def ready_of_def)

theorem sem_conservation_witness:
  "\<exists>m s'. sem_acquire demo_env ts_null (Qid 9 0) 1 (Semaphore 2) demo_sys = Some (Done, m, s') \<and> m_count m + 1 = 2"
proof -
  let ?k = "Qid 9 0" and ?m = "\<lparr>m_count = 1, m_unblockAll = False\<rparr>"
  have a: "sem_acquire demo_env ts_null ?k 1 (Semaphore 2) demo_sys = Some (Done, ?m, demo_sys)"
    by (subst sem_acquire.simps) (simp add: Semaphore_def demo_sys_def unblockFirst_def)
  have "(res_step exec_of (sem_attempt demo_env ?k) (sem_give ?k) (other_of demo_env))\<^sup>*\<^sup>*
      ((Semaphore 2, demo_sys, ts_null), {}, {#}) ((?m, demo_sys, ts_null), {}, {#3#})"
    by (rule run_take[OF rtranclp.rtrancl_refl, where exec = exec_of, OF calm_exec_of[OF demo_calm]])
      (simp_all only: sem_attempt_def a prod.case bind.simps, simp_all)
  then show ?thesis
    using sem_conservation[OF demo_fresh[of ?k], of 2 "{#}" ts_null ?m demo_sys ts_null "{}" "{#3#}"] a
    by (simp add: COUNT_MAX_def)
qed

text \<open>
  \<^verbatim>\<open>release(count)\<close>, called by the executing fiber: when the sum exceeds 32 bits the assertion fails.
  Otherwise the units are added; the first waiter is woken, or every waiter when some fiber waits for more
  than one unit, and that mode ends as soon as nobody waits.
\<close>

theorem sem_release_correct:
  assumes "sync_inv s" "executing f s" "m_count m \<le> COUNT_MAX" "0 < cnt" "cnt \<le> COUNT_MAX"
  shows "case sem_release k cnt m s of
      None \<Rightarrow> m_count m + cnt > COUNT_MAX
    | Some (m', s') \<Rightarrow> m_count m' = m_count m + cnt \<and> m_count m' \<le> COUNT_MAX \<and> sync_inv s' \<and> executing f s'
        \<and> (let woken = (if m_unblockAll m then queues s k else take 1 (queues s k)) in
            queues s' = (queues s)(k := drop (length woken) (queues s k))
            \<and> m_runnableQueue (wkr s') = m_runnableQueue (wkr s) @ woken
            \<and> (\<forall>h \<in> set woken. st (wkr s') h = Ready))
        \<and> m_unblockAll m' = (m_unblockAll m \<and> queues s k \<noteq> [])"
proof (cases "m_count m + cnt \<le> COUNT_MAX")
  case False
  then have "m_count m + cnt - (COUNT_MAX + 1) < m_count m" using assms(5) by simp
  moreover have "wrap_add (m_count m) cnt = m_count m + cnt - (COUNT_MAX + 1)"
    unfolding wrap_add_def using False assms(3,5) by (subst mod_if) simp
  ultimately have "sem_release k cnt m s = None" by (simp add: sem_release_def zth_assert_def)
  then show ?thesis using False by simp
next
  case True
  then have w: "wrap_add (m_count m) cnt = m_count m + cnt" by (rule wrap_add_less)
  have i: "sys_inv s" using assms(1) by (simp add: sync_inv_def)
  show ?thesis
  proof (cases "m_unblockAll m")
    case u: True
    obtain s' where s': "unblockAll k False s = Some (queues s k \<noteq> [], s')" "sys_inv s'"
      "queues s' = (queues s)(k := [])" "executing f s'" "same_rest s s'"
      "m_runnableQueue (wkr s') = m_runnableQueue (wkr s) @ queues s k"
      "\<forall>h \<in> set (queues s k). st (wkr s') h = Ready"
      using unblockAll_ok[OF i assms(2), of k] by auto
    then show ?thesis
      using sync_inv_keep[OF assms(1) s'(2,5,4)] True w u assms(4) by (simp add: sem_release_def Let_def)
  next
    case u: False
    show ?thesis
    proof (cases "queues s k")
      case Nil
      then show ?thesis using True w u assms
        by (simp add: sem_release_def Let_def unblockFirst_none fun_upd_idem)
    next
      case (Cons h q)
      obtain s' where s': "unblockFirst k False s = Some (Some h, s')" "sys_inv s'"
        "queues s' = (queues s)(k := q)" "executing f s'" "same_rest s s'" "st (wkr s') h = Ready"
        "m_runnableQueue (wkr s') = m_runnableQueue (wkr s) @ [h]"
        using unblockFirst_ok[OF i Cons assms(2), of False] by auto
      then show ?thesis
        using sync_inv_keep[OF assms(1) s'(2,5,4)] True w u assms(4) Cons by (simp add: sem_release_def Let_def)
    qed
  qed
qed

theorem sem_release_correct_witness:
  "case sem_release (Qid 9 0) 2 (Semaphore 1) demo_sys of None \<Rightarrow> False | Some (m', s') \<Rightarrow> m_count m' = 3"
  using sem_release_correct[OF demo_sys_inv, of "Semaphore 1" 2 "Qid 9 0"]
  by (auto simp: Semaphore_def COUNT_MAX_def split: option.splits)

text \<open>
  A lost wake-up with mixed counts. Fibers 1 and 2 wait for one unit each. Fiber 3 releases two, which
  wakes fiber 1, and then asks for three itself, which sets \<^verbatim>\<open>m_unblockAll\<close>. Because of the flag, fiber 1
  does not pass the wake-up on when it takes its unit: fiber 2 stays parked although the unit it waits
  for is available, and no fiber that would wake it is in the run queue.
\<close>

theorem sem_mixed_lost_wakeup:
  "do {
     (_, w) \<leftarrow> schedule demo_env None ts_null (wkr demo_sys);
     (a1, m, s) \<leftarrow> sem_acquire demo_env ts_null k 1 (Semaphore 0) (demo_sys\<lparr>wkr := w\<rparr>);
     (a2, m, s) \<leftarrow> sem_acquire demo_env ts_null k 1 m s;
     (m, s) \<leftarrow> sem_release k 2 m s;
     (a3, m, s) \<leftarrow> sem_acquire demo_env ts_null k 3 m s;
     (b1, m, s) \<leftarrow> sem_acquire demo_env ts_null k 1 m s;
     Some ([a1, a2, a3, b1], m_count m, queues s k, m_currentFiber (wkr s), m_runnableQueue (wkr s))
   } = Some ([Blocked, Blocked, Blocked, Done], 1, [2, 3], Some 1, [1])"
proof -
  have e: "create_res demo_env = E_OK" by (simp add: demo_env_def)
  let ?m = "\<lambda>n b. \<lparr>m_count = n, m_unblockAll = b\<rparr>"
  obtain w1 where w1: "schedule demo_env None ts_null (wkr demo_sys) = Some (SwitchedTo 1, w1)"
      "calm 1 [2, 3, 1] (demo_sys\<lparr>wkr := w1\<rparr>)"
    using calm_schedule[OF demo_calm _ e, of ts_null] by auto
  let ?s1 = "demo_sys\<lparr>wkr := w1\<rparr>"
  obtain s2 where s2: "block demo_env ts_null k ?s1 = Some (SwitchedTo 2, s2)" "calm 2 [3, 2] s2" "queues s2 k = [1]"
    using calm_block[OF w1(2) _ e, of 2 "[3]" ts_null k] by (auto simp: demo_sys_def)
  obtain s3 where s3: "block demo_env ts_null k s2 = Some (SwitchedTo 3, s3)" "calm 3 [3] s3" "queues s3 k = [1, 2]"
    using calm_block[OF s2(2) _ e, of 3 "[]" ts_null k] s2(3) by auto
  obtain s4 where s4: "unblockFirst k False s3 = Some (Some 1, s4)" "calm 3 [3, 1] s4" "queues s4 k = [2]"
    using calm_unblockFirst[OF s3(2,3)] by auto
  obtain s5 where s5: "block demo_env ts_null k s4 = Some (SwitchedTo 1, s5)" "calm 1 [1] s5" "queues s5 k = [2, 3]"
    using calm_block[OF s4(2) _ e, of 1 "[]" ts_null k] s4(3) by auto
  have "sem_acquire demo_env ts_null k 1 (Semaphore 0) ?s1 = Some (Blocked, ?m 0 False, s2)"
    by (subst sem_acquire.simps) (simp add: s2(1) Semaphore_def)
  moreover have "sem_acquire demo_env ts_null k 1 (?m 0 False) s2 = Some (Blocked, ?m 0 False, s3)"
    by (subst sem_acquire.simps) (simp add: s3(1))
  moreover have "sem_release k 2 (?m 0 False) s3 = Some (?m 2 False, s4)"
    by (simp add: sem_release_def s4(1) wrap_add_def COUNT_MAX_def)
  moreover have "sem_acquire demo_env ts_null k 3 (?m 2 False) s4 = Some (Blocked, ?m 2 True, s5)"
    by (subst sem_acquire.simps) (simp add: s5(1))
  moreover have "sem_acquire demo_env ts_null k 1 (?m 2 True) s5 = Some (Done, ?m 1 True, s5)"
    by (subst sem_acquire.simps) simp
  ultimately show ?thesis using w1(1) s5(2,3) by (simp add: calm_def executing_def)
qed

end
