(* ===== verification/Zth_Signal.thy ===== *)
theory Zth_Signal
  imports Zth_Sync
begin

section \<open>Signal, future and gate\<close>

text \<open>
  \<^verbatim>\<open>include/libzth/sync.h\<close>, classes \<^verbatim>\<open>Signal\<close>, \<^verbatim>\<open>Optional\<close>, \<^verbatim>\<open>Future\<close> and \<^verbatim>\<open>Gate\<close>. Their waiting operation
  tests once, blocks when the object is closed, and goes on after \<^verbatim>\<open>block()\<close> without testing again. The
  model has the operation up to the point where control moves, and the rest of it as a second definition
  (\<open>signal_woken\<close>, \<open>optional_value\<close>) that runs when the fiber gets control back.

  The locale \<open>latch\<close> is the contract of such an object: while it is open nobody is parked in its queue.
  \<open>sticky_latch\<close> adds that it stays open. The signal is a latch, the future a sticky one.
\<close>

subsection \<open>The contract\<close>

text \<open>
  \<open>T\<close> are the fibers inside the waiting operation; the executing one of them that is not parked any more goes
  on with \<open>resume\<close>.
\<close>

inductive latch_step ::
  "('s \<Rightarrow> fid \<Rightarrow> bool) \<Rightarrow> ('s \<Rightarrow> (outcome \<times> 's) option) \<Rightarrow> ('s \<Rightarrow> 's) \<Rightarrow> ('s \<Rightarrow> 's \<Rightarrow> bool) \<Rightarrow> ('s \<Rightarrow> 's \<Rightarrow> bool)
   \<Rightarrow> 's \<times> fid set \<Rightarrow> 's \<times> fid set \<Rightarrow> bool"
  for exec :: "'s \<Rightarrow> fid \<Rightarrow> bool" and wait resume act other where
  Wait: "exec s f \<Longrightarrow> f \<notin> T \<Longrightarrow> wait s = Some (out, s') \<Longrightarrow>
    latch_step exec wait resume act other (s, T) (s', if out = Blocked then insert f T else T)"
| Resume: "exec s f \<Longrightarrow> f \<in> T \<Longrightarrow> latch_step exec wait resume act other (s, T) (resume s, T - {f})"
| Act: "exec s f \<Longrightarrow> f \<notin> T \<Longrightarrow> act s s' \<Longrightarrow> latch_step exec wait resume act other (s, T) (s', T)"
| Other: "other s s' \<Longrightarrow> latch_step exec wait resume act other (s, T) (s', T)"

locale latch =
  fixes inv :: "'s \<Rightarrow> bool"
    and exec :: "'s \<Rightarrow> fid \<Rightarrow> bool"
    and wait :: "'s \<Rightarrow> (outcome \<times> 's) option"
    and resume :: "'s \<Rightarrow> 's"
    and act :: "'s \<Rightarrow> 's \<Rightarrow> bool"
    and other :: "'s \<Rightarrow> 's \<Rightarrow> bool"
    and queue :: "'s \<Rightarrow> fid list"
    and closed :: "'s \<Rightarrow> bool"
  assumes wait_closed: "inv s \<Longrightarrow> exec s f \<Longrightarrow> closed s \<Longrightarrow>
      \<exists>s'. wait s = Some (Blocked, s') \<and> inv s' \<and> closed s' \<and> queue s' = queue s @ [f]"
    and wait_open: "inv s \<Longrightarrow> exec s f \<Longrightarrow> \<not> closed s \<Longrightarrow>
      \<exists>out s'. wait s = Some (out, s') \<and> inv s' \<and> queue s' = queue s"
    and resume_law: "inv s \<Longrightarrow> exec s f \<Longrightarrow> inv (resume s) \<and> queue (resume s) = queue s \<and> (closed s \<longrightarrow> closed (resume s))"
    and act_law: "inv s \<Longrightarrow> exec s f \<Longrightarrow> act s s' \<Longrightarrow>
      inv s' \<and> set (queue s') \<subseteq> set (queue s) \<and> (queue s' = [] \<or> (closed s \<longrightarrow> closed s'))"
    and other_law: "inv s \<Longrightarrow> other s s' \<Longrightarrow> inv s' \<and> queue s' = queue s \<and> closed s' = closed s"
    and parked_law: "inv s \<Longrightarrow> f \<in> set (queue s) \<Longrightarrow> \<not> exec s f"
begin

abbreviation step :: "'s \<times> fid set \<Rightarrow> 's \<times> fid set \<Rightarrow> bool" where
  "step \<equiv> latch_step exec wait resume act other"

definition good :: "'s \<times> fid set \<Rightarrow> bool" where
  "good x \<longleftrightarrow> (case x of (s, T) \<Rightarrow> inv s \<and> set (queue s) \<subseteq> T \<and> (queue s \<noteq> [] \<longrightarrow> closed s))"

lemma good_wait:
  assumes "good (s, T)" "exec s f" "wait s = Some (out, s')"
  shows "good (s', if out = Blocked then insert f T else T)"
  using assms wait_closed[of s f] wait_open[of s f] by (cases "closed s") (auto simp: good_def)

lemma good_step: "step x y \<Longrightarrow> good x \<Longrightarrow> good y"
proof (induction rule: latch_step.induct)
  case (Wait s f T out s')
  then show ?case using good_wait by blast
next
  case (Resume s f T)
  then show ?case using resume_law[of s f] parked_law[of s f] by (auto simp: good_def)
next
  case (Act s f T s')
  then show ?case using act_law[of s f s'] by (fastforce simp: good_def)
next
  case (Other s s' T)
  then show ?case using other_law[of s s'] by (auto simp: good_def)
qed

lemma good_reach: "step\<^sup>*\<^sup>* x y \<Longrightarrow> good x \<Longrightarrow> good y"
  by (induction rule: rtranclp_induct) (auto intro: good_step)

lemma open_nobody_parked: "step\<^sup>*\<^sup>* x (s, T) \<Longrightarrow> good x \<Longrightarrow> \<not> closed s \<Longrightarrow> queue s = []"
  using good_reach[of x "(s, T)"] by (auto simp: good_def)

lemma wait_returns: "step\<^sup>*\<^sup>* x (s, T) \<Longrightarrow> good x \<Longrightarrow> exec s f \<Longrightarrow> \<exists>out s'. wait s = Some (out, s')"
  using good_reach[of x "(s, T)"] wait_closed[of s f] wait_open[of s f] by (auto simp: good_def)

end

locale sticky_latch = latch +
  assumes stays: "inv s \<Longrightarrow> exec s f \<Longrightarrow> \<not> closed s \<Longrightarrow>
      wait s = Some (Done, s) \<and> \<not> closed (resume s) \<and> (\<forall>s'. act s s' \<longrightarrow> \<not> closed s')"
    and act_opens: "inv s \<Longrightarrow> exec s f \<Longrightarrow> act s s' \<Longrightarrow> \<not> closed s'"
begin

definition settled :: "'a \<times> fid set \<Rightarrow> bool" where
  "settled x \<longleftrightarrow> good x \<and> (case x of (s, T) \<Rightarrow> \<forall>f \<in> T. f \<in> set (queue s) \<or> \<not> closed s)"

lemma settled_step: "step x y \<Longrightarrow> settled x \<Longrightarrow> settled y"
proof (induction rule: latch_step.induct)
  case (Wait s f T out s')
  have i: "inv s" "\<forall>f \<in> T. f \<in> set (queue s) \<or> \<not> closed s" using Wait.prems by (auto simp: settled_def good_def)
  have g: "good (s', if out = Blocked then insert f T else T)"
    using good_wait[OF _ Wait.hyps(1,3)] Wait.prems by (simp add: settled_def)
  show ?case
    using i g wait_closed[OF i(1) Wait.hyps(1)] stays[OF i(1) Wait.hyps(1)] Wait.hyps(3)
    by (cases "closed s") (auto simp: settled_def)
next
  case (Resume s f T)
  then have g: "good (resume s, T - {f})" using good_step[OF latch_step.Resume, of s f T] by (simp add: settled_def)
  have i: "inv s" "\<forall>f \<in> T. f \<in> set (queue s) \<or> \<not> closed s" using Resume.prems by (auto simp: settled_def good_def)
  show ?case using g i resume_law[OF i(1) Resume.hyps(1)] stays[OF i(1) Resume.hyps(1)] by (auto simp: settled_def)
next
  case (Act s f T s')
  have i: "inv s" using Act.prems by (auto simp: settled_def good_def)
  have g: "good (s', T)" using good_step[of "(s, T)" "(s', T)"] latch_step.Act[of exec s f T act s'] Act by (simp add: settled_def)
  show ?case using g act_opens[OF i Act.hyps(1,3)] by (simp add: settled_def)
next
  case (Other s s' T)
  then show ?case using good_step[OF latch_step.Other, of s s' T] other_law[of s s'] by (auto simp: settled_def good_def)
qed

lemma settled_reach: "step\<^sup>*\<^sup>* x y \<Longrightarrow> settled x \<Longrightarrow> settled y"
  by (induction rule: rtranclp_induct) (auto intro: settled_step)

lemma resumed_open: "step\<^sup>*\<^sup>* x (s, T) \<Longrightarrow> settled x \<Longrightarrow> f \<in> T \<Longrightarrow> exec s f \<Longrightarrow> \<not> closed s"
  using settled_reach[of x "(s, T)"] parked_law[of s f] by (auto simp: settled_def good_def)

end

subsection \<open>Signal\<close>

definition INT_MAX :: int where
  "INT_MAX = 2 ^ 31 - 1"

record signal =
  m_signalled :: int

definition Signal :: signal where
  "Signal = \<lparr>m_signalled = 0\<rparr>"

text \<open>The part of \<^verbatim>\<open>wait()\<close> after \<^verbatim>\<open>block()\<close> or \<^verbatim>\<open>yield()\<close>.\<close>

definition signal_woken :: "signal \<Rightarrow> signal" where
  "signal_woken m = (if m_signalled m > 0 then m\<lparr>m_signalled := m_signalled m - 1\<rparr> else m)"

definition signal_wait :: "run_env \<Rightarrow> timespec \<Rightarrow> qid \<Rightarrow> signal \<Rightarrow> sys \<Rightarrow> (outcome \<times> signal \<times> sys) option" where
  "signal_wait env now k m s = do {
     (r, s) \<leftarrow> (if m_signalled m = 0 then block env now k s
       else map_option (\<lambda>(r, w). (r, s\<lparr>wkr := w\<rparr>)) (yield env None False now (wkr s)));
     case r of
       SwitchedTo _ \<Rightarrow> Some (Blocked, m, s)
     | Returned _ \<Rightarrow> Some (Done, signal_woken m, s)
   }"

text \<open>The increment wraps around at the end of the range of \<^verbatim>\<open>int\<close>; the assertion looks for that.\<close>

definition int_inc :: "int \<Rightarrow> int" where
  "int_inc n = (if n = INT_MAX then - INT_MAX - 1 else n + 1)"

definition signal_signal :: "qid \<Rightarrow> bool \<Rightarrow> bool \<Rightarrow> signal \<Rightarrow> sys \<Rightarrow> (signal \<times> sys) option" where
  "signal_signal k queue queueEveryTime m s = do {
     (l, s) \<leftarrow> unblockFirst k False s;
     if l = None \<and> queue \<and> m_signalled m \<ge> 0 then do {
       let m = (if m_signalled m = 0 \<or> queueEveryTime then m\<lparr>m_signalled := int_inc (m_signalled m)\<rparr> else m);
       zth_assert (m_signalled m > 0);
       Some (m, s)
     } else Some (m, s)
   }"

definition signal_signalAll :: "qid \<Rightarrow> bool \<Rightarrow> signal \<Rightarrow> sys \<Rightarrow> (signal \<times> sys) option" where
  "signal_signalAll k queue m s = do {
     (_, s) \<leftarrow> unblockAll k False s;
     Some (if queue then m\<lparr>m_signalled := -1\<rparr> else m, s)
   }"

definition signal_reset :: "signal \<Rightarrow> signal" where
  "signal_reset m = m\<lparr>m_signalled := 0\<rparr>"

subsection \<open>Optional\<close>

text \<open>
  The storage \<^verbatim>\<open>m_data\<close> holds a constructed object or nothing. A stored exception is thrown by \<^verbatim>\<open>value()\<close>: the
  result \<open>Inl e\<close>.
\<close>

record ('a, 'e) optional =
  m_data :: "'a option"
  m_valid :: bool
  m_exception :: "'e option"

definition Optional :: "('a, 'e) optional" where
  "Optional = \<lparr>m_data = None, m_valid = False, m_exception = None\<rparr>"

definition optional_valid :: "('a, 'e) optional \<Rightarrow> bool" where
  "optional_valid p \<longleftrightarrow> m_valid p \<or> m_exception p \<noteq> None"

definition optional_value :: "('a, 'e) optional \<Rightarrow> ('e + 'a) option" where
  "optional_value p = do {
     zth_assert (optional_valid p);
     case m_exception p of
       Some e \<Rightarrow> Some (Inl e)
     | None \<Rightarrow> map_option Inr (m_data p)
   }"

definition optional_unuse :: "('a, 'e) optional \<Rightarrow> ('a, 'e) optional option" where
  "optional_unuse p = do {
     let p = p\<lparr>m_exception := None\<rparr>;
     if m_valid p then do {
       _ \<leftarrow> optional_value p;
       Some (p\<lparr>m_data := None, m_valid := False\<rparr>)
     } else Some p
   }"

definition optional_reset :: "('a, 'e) optional \<Rightarrow> ('a, 'e) optional option" where
  "optional_reset p = optional_unuse p"

definition optional_set :: "'a \<Rightarrow> ('a, 'e) optional \<Rightarrow> ('a, 'e) optional option" where
  "optional_set v p = do {
     p \<leftarrow> optional_unuse p;
     Some (p\<lparr>m_data := Some v, m_valid := True\<rparr>)
   }"

text \<open>A \<^verbatim>\<open>std::exception_ptr\<close> may be null: then nothing is stored.\<close>

definition optional_set_exception :: "'e option \<Rightarrow> ('a, 'e) optional \<Rightarrow> ('a, 'e) optional option" where
  "optional_set_exception x p = do {
     p \<leftarrow> optional_unuse p;
     Some (p\<lparr>m_exception := x\<rparr>)
   }"

text \<open>What an optional stands for: nothing, a value, or an exception.\<close>

definition content :: "('a, 'e) optional \<Rightarrow> ('e + 'a) option" where
  "content p = (case m_exception p of Some e \<Rightarrow> Some (Inl e) | None \<Rightarrow> map_option Inr (m_data p))"

definition optional_ok :: "('a, 'e) optional \<Rightarrow> bool" where
  "optional_ok p \<longleftrightarrow> (m_valid p \<longleftrightarrow> m_data p \<noteq> None) \<and> \<not> (m_valid p \<and> m_exception p \<noteq> None)"

lemmas optional_defs = optional_ok_def content_def optional_valid_def optional_value_def optional_unuse_def
  optional_reset_def optional_set_def optional_set_exception_def Optional_def

lemma optional_new: "optional_ok Optional" "content Optional = None"
  by (simp_all add: optional_defs)

lemma optional_valid_content: "optional_ok p \<Longrightarrow> optional_valid p \<longleftrightarrow> content p \<noteq> None"
  by (auto simp: optional_defs split: option.splits)

lemma optional_value_content: "optional_ok p \<Longrightarrow> optional_value p = content p"
  by (cases "m_exception p"; cases "m_data p") (auto simp: optional_defs zth_assert_def)

lemma optional_reset_ok: "optional_ok p \<Longrightarrow> \<exists>p'. optional_reset p = Some p' \<and> optional_ok p' \<and> content p' = None"
  by (cases "m_data p") (auto simp: optional_defs Let_def)

lemma optional_set_ok: "optional_ok p \<Longrightarrow> \<exists>p'. optional_set v p = Some p' \<and> optional_ok p' \<and> content p' = Some (Inr v)"
  by (cases "m_data p") (auto simp: optional_defs Let_def)

lemma optional_set_exception_ok:
  "optional_ok p \<Longrightarrow> \<exists>p'. optional_set_exception x p = Some p' \<and> optional_ok p' \<and> content p' = map_option Inl x"
  by (cases "m_data p"; cases x) (auto simp: optional_defs Let_def)

subsection \<open>Future\<close>

record ('a, 'e) future =
  m_value :: "('a, 'e) optional"

definition Future :: "('a, 'e) future" where
  "Future = \<lparr>m_value = Optional\<rparr>"

definition future_valid :: "('a, 'e) future \<Rightarrow> bool" where
  "future_valid m \<longleftrightarrow> optional_valid (m_value m)"

definition future_wait ::
  "run_env \<Rightarrow> timespec \<Rightarrow> qid \<Rightarrow> ('a, 'e) future \<Rightarrow> sys \<Rightarrow> (outcome \<times> ('a, 'e) future \<times> sys) option" where
  "future_wait env now k m s =
     (if future_valid m then Some (Done, m, s)
      else do {
        (r, s) \<leftarrow> block env now k s;
        case r of SwitchedTo _ \<Rightarrow> Some (Blocked, m, s) | Returned _ \<Rightarrow> Some (Done, m, s)
      })"

definition set_prepare :: "('a, 'e) future \<Rightarrow> unit option" where
  "set_prepare m = zth_assert (\<not> future_valid m)"

definition set_finalize :: "qid \<Rightarrow> sys \<Rightarrow> sys option" where
  "set_finalize k s = map_option snd (unblockAll k False s)"

definition future_set :: "qid \<Rightarrow> 'a \<Rightarrow> ('a, 'e) future \<Rightarrow> sys \<Rightarrow> (('a, 'e) future \<times> sys) option" where
  "future_set k v m s = do {
     set_prepare m;
     p \<leftarrow> optional_set v (m_value m);
     s \<leftarrow> set_finalize k s;
     Some (m\<lparr>m_value := p\<rparr>, s)
   }"

definition future_set_exception :: "qid \<Rightarrow> 'e option \<Rightarrow> ('a, 'e) future \<Rightarrow> sys \<Rightarrow> (('a, 'e) future \<times> sys) option" where
  "future_set_exception k x m s = do {
     set_prepare m;
     p \<leftarrow> optional_set_exception x (m_value m);
     s \<leftarrow> set_finalize k s;
     Some (m\<lparr>m_value := p\<rparr>, s)
   }"

text \<open>The part of \<^verbatim>\<open>value()\<close> after \<^verbatim>\<open>wait()\<close>.\<close>

definition future_value :: "('a, 'e) future \<Rightarrow> ('e + 'a) option" where
  "future_value m = optional_value (m_value m)"

subsection \<open>Gate\<close>

text \<open>\<^verbatim>\<open>size_t\<close> is 64 bits; the increment wraps around.\<close>

definition SIZE_MOD :: nat where
  "SIZE_MOD = 2 ^ 64"

record gate =
  g_count :: nat
  g_current :: nat

definition Gate :: "nat \<Rightarrow> gate" where
  "Gate cnt = \<lparr>g_count = cnt, g_current = 0\<rparr>"

definition gate_pass :: "qid \<Rightarrow> gate \<Rightarrow> sys \<Rightarrow> (bool \<times> gate \<times> sys) option" where
  "gate_pass k m s = do {
     let m = m\<lparr>g_current := (g_current m + 1) mod SIZE_MOD\<rparr>;
     if g_current m \<ge> g_count m then do {
       let m = m\<lparr>g_current := g_current m - g_count m\<rparr>;
       (_, s) \<leftarrow> unblockAll k False s;
       Some (True, m, s)
     } else Some (False, m, s)
   }"

definition gate_wait :: "run_env \<Rightarrow> timespec \<Rightarrow> qid \<Rightarrow> gate \<Rightarrow> sys \<Rightarrow> (outcome \<times> gate \<times> sys) option" where
  "gate_wait env now k m s = do {
     (b, m, s) \<leftarrow> gate_pass k m s;
     if b then Some (Done, m, s)
     else do {
       (r, s) \<leftarrow> block env now k s;
       case r of SwitchedTo _ \<Rightarrow> Some (Blocked, m, s) | Returned _ \<Rightarrow> Some (Done, m, s)
     }
   }"

subsection \<open>The signal is a latch\<close>

lemma yield_of_ok:
  assumes "inv_of env (m, s, t)" "exec_of (m, s, t) f"
  shows "\<exists>r w'. yield env None False t (wkr s) = Some (r, w') \<and> inv_of env (m', s\<lparr>wkr := w'\<rparr>, t)
    \<and> queue_of k (m', s\<lparr>wkr := w'\<rparr>, t) = queue_of k (m, s, t)"
proof -
  have i: "sync_inv s" "sys_inv s" "contextSwitchEnabled (wkr s)" "worker_started (wkr s)" "create_res env = E_OK"
    and c: "m_currentFiber (wkr s) = Some f"
    using assms by (auto simp: sync_of_defs sync_inv_def executing_def)
  obtain r w' where r: "schedule env None t (wkr s) = Some (r, w')"
    using schedule_sys[OF i(2,5,3,4), of t] by blast
  then show ?thesis
    using sync_inv_schedule[OF i(1,5) r] i(1,5) c
    by (cases "allowYield t (m_fibers (wkr s) f)") (auto simp: yield_def sync_of_defs)
qed

lemma unblockAll_of_ok:
  assumes "inv_of env (m, s, t)" "exec_of (m, s, t) f"
  shows "\<exists>s'. unblockAll k False s = Some (queues s k \<noteq> [], s') \<and> inv_of env (m', s', t) \<and> exec_of (m', s', t) f
    \<and> queue_of k (m', s', t) = []"
proof -
  have i: "sys_inv s" "sync_inv s" "executing f s" "create_res env = E_OK"
    using assms by (auto simp: sync_of_defs sync_inv_def)
  obtain s' where s': "unblockAll k False s = Some (queues s k \<noteq> [], s')" "sys_inv s'"
      "queues s' = (queues s)(k := [])" "executing f s'" "same_rest s s'"
    using unblockAll_ok[OF i(1,3), of k] by blast
  then show ?thesis using sync_inv_keep[OF i(2) s'(2,5,4)] i(4) by (simp add: sync_of_defs)
qed

definition signal_attempt :: "run_env \<Rightarrow> qid \<Rightarrow> signal sync_state \<Rightarrow> (outcome \<times> signal sync_state) option" where
  "signal_attempt env k x = (case x of (m, s, t) \<Rightarrow> do {
     (out, m, s) \<leftarrow> signal_wait env t k m s;
     Some (out, m, s, t)
   })"

definition signal_resume :: "signal sync_state \<Rightarrow> signal sync_state" where
  "signal_resume x = (case x of (m, s, t) \<Rightarrow> (signal_woken m, s, t))"

text \<open>The operations that do not wait.\<close>

definition signal_act :: "qid \<Rightarrow> signal sync_state \<Rightarrow> signal sync_state \<Rightarrow> bool" where
  "signal_act k x y \<longleftrightarrow> (case (x, y) of ((m, s, t), (m', s', t')) \<Rightarrow> t' = t \<and>
     ((\<exists>b e. signal_signal k b e m s = Some (m', s')) \<or> (\<exists>b. signal_signalAll k b m s = Some (m', s'))
      \<or> m' = signal_reset m \<and> s' = s))"

definition signal_closed :: "signal sync_state \<Rightarrow> bool" where
  "signal_closed x \<longleftrightarrow> m_signalled (fst x) = 0"

lemma signal_act_ok:
  assumes "inv_of env x" "exec_of x f" "signal_act k x y"
  shows "inv_of env y \<and> set (queue_of k y) \<subseteq> set (queue_of k x)
    \<and> (queue_of k y = [] \<or> (signal_closed x \<longrightarrow> signal_closed y))"
proof -
  obtain m s t m' s' where xy: "x = (m, s, t)" "y = (m', s', t)"
    using assms(3) by (cases x; cases y) (auto simp: signal_act_def)
  have inv: "inv_of env (m'', s, t)" for m'' :: signal using assms(1) xy by (simp add: sync_of_defs)
  consider (sig) b e where "signal_signal k b e m s = Some (m', s')"
    | (all) b where "signal_signalAll k b m s = Some (m', s')" | (reset) "m' = signal_reset m" "s' = s"
    using assms(3) xy by (auto simp: signal_act_def)
  then show ?thesis
  proof cases
    case sig
    obtain r s2 where r: "unblockFirst k False s = Some (r, s2)" "inv_of env (m', s2, t)"
        "queue_of k x = [] \<and> queue_of k (m', s2, t) = []
         \<or> (\<exists>h. queue_of k x = h # queue_of k (m', s2, t) \<and> ready_of (m', s2, t) h)"
      using unblockFirst_of_ok[of env m s t f k m'] assms xy by auto
    have n: "r = None \<Longrightarrow> queues s k = []" using r(1) by (auto simp: unblockFirst_def split: list.splits bind_splits)
    have "s' = s2" "r \<noteq> None \<Longrightarrow> m' = m"
      using sig r(1) by (auto simp: signal_signal_def Let_def zth_assert_def split: if_splits)
    then show ?thesis using r n xy by (cases r) (auto simp: signal_closed_def queue_of_def)
  next
    case all
    then show ?thesis using unblockAll_of_ok[of env m s t f k m'] assms xy
      by (auto simp: signal_signalAll_def split: bind_splits)
  next
    case reset
    then show ?thesis using inv xy by (simp add: queue_of_def signal_closed_def signal_reset_def)
  qed
qed

interpretation sig: latch "inv_of env" exec_of "signal_attempt env k" signal_resume "signal_act k" "other_of env"
    "queue_of k" signal_closed for env k
proof unfold_locales
  fix x :: "signal sync_state" and f :: fid and y
  assume inv: "inv_of env x"
  obtain m s t where x: "x = (m, s, t)" by (cases x)
  show "\<not> exec_of x f" if "f \<in> set (queue_of k x)" using parked_of_ok[OF inv] that by blast
  show "inv_of env y \<and> queue_of k y = queue_of k x \<and> signal_closed y = signal_closed x" if "other_of env x y"
    using other_of_ok[OF inv that] by (simp add: signal_closed_def)
  assume ex: "exec_of x f"
  show "inv_of env (signal_resume x) \<and> queue_of k (signal_resume x) = queue_of k x
      \<and> (signal_closed x \<longrightarrow> signal_closed (signal_resume x))"
    using inv x by (simp add: signal_resume_def signal_woken_def sync_of_defs signal_closed_def)
  show "inv_of env y \<and> set (queue_of k y) \<subseteq> set (queue_of k x)
      \<and> (queue_of k y = [] \<or> (signal_closed x \<longrightarrow> signal_closed y))" if "signal_act k x y"
    using signal_act_ok[OF inv ex that] .
  show "\<exists>s'. signal_attempt env k x = Some (Blocked, s') \<and> inv_of env s' \<and> signal_closed s'
      \<and> queue_of k s' = queue_of k x @ [f]" if "signal_closed x"
  proof -
    obtain g s' where "block env t k s = Some (SwitchedTo g, s')" "inv_of env (m, s', t)"
      "queue_of k (m, s', t) = queue_of k x @ [f]"
      using block_of_ok[of env m s t f k m] inv ex x by auto
    then show ?thesis using that x by (simp add: signal_attempt_def signal_wait_def signal_closed_def)
  qed
  show "\<exists>out s'. signal_attempt env k x = Some (out, s') \<and> inv_of env s' \<and> queue_of k s' = queue_of k x"
    if "\<not> signal_closed x"
  proof -
    obtain r w' where w': "yield env None False t (wkr s) = Some (r, w')" "inv_of env (m, s\<lparr>wkr := w'\<rparr>, t)"
      using yield_of_ok[of env m s t f m k] inv ex x by auto
    then show ?thesis using that x
      by (cases r) (auto simp: signal_attempt_def signal_wait_def signal_closed_def sync_of_defs)
  qed
qed

subsection \<open>The future is a sticky latch\<close>

definition future_attempt ::
  "run_env \<Rightarrow> qid \<Rightarrow> ('a, 'e) future sync_state \<Rightarrow> (outcome \<times> ('a, 'e) future sync_state) option" where
  "future_attempt env k x = (case x of (m, s, t) \<Rightarrow> do {
     (out, m, s) \<leftarrow> future_wait env t k m s;
     Some (out, m, s, t)
   })"

text \<open>The calls that set the future; the exception is not a null pointer.\<close>

definition future_act :: "qid \<Rightarrow> ('a, 'e) future sync_state \<Rightarrow> ('a, 'e) future sync_state \<Rightarrow> bool" where
  "future_act k x y \<longleftrightarrow> (case (x, y) of ((m, s, t), (m', s', t')) \<Rightarrow> t' = t \<and>
     ((\<exists>v. future_set k v m s = Some (m', s')) \<or> (\<exists>e. future_set_exception k (Some e) m s = Some (m', s'))))"

definition future_closed :: "('a, 'e) future sync_state \<Rightarrow> bool" where
  "future_closed x \<longleftrightarrow> \<not> future_valid (fst x)"

definition future_inv_of :: "run_env \<Rightarrow> ('a, 'e) future sync_state \<Rightarrow> bool" where
  "future_inv_of env x \<longleftrightarrow> inv_of env x \<and> optional_ok (m_value (fst x))"

lemma future_act_ok:
  assumes "future_inv_of env x" "exec_of x f" "future_act k x y"
  shows "future_inv_of env y \<and> queue_of k y = [] \<and> future_closed x \<and> \<not> future_closed y"
proof -
  obtain m s t m' s' where xy: "x = (m, s, t)" "y = (m', s', t)"
    using assms(3) by (cases x; cases y) (auto simp: future_act_def)
  have inv: "inv_of env (m, s, t)" and p: "optional_ok (m_value m)" using assms(1) xy by (auto simp: future_inv_of_def)
  obtain s2 where s2: "unblockAll k False s = Some (queues s k \<noteq> [], s2)" "inv_of env (m', s2, t)"
      "queue_of k (m', s2, t) = []"
    using unblockAll_of_ok[OF inv, of f k m'] assms(2) xy by blast
  have "s' = s2 \<and> future_closed x \<and> optional_ok (m_value m') \<and> content (m_value m') \<noteq> None"
  proof -
    consider (val) v where "future_set k v m s = Some (m', s')" | (exc) e where "future_set_exception k (Some e) m s = Some (m', s')"
      using assms(3) xy by (auto simp: future_act_def)
    then show ?thesis
    proof cases
      case val
      obtain p' where "optional_set v (m_value m) = Some p'" "optional_ok p'" "content p' = Some (Inr v)"
        using optional_set_ok[OF p] by blast
      then show ?thesis using val s2(1) xy by (auto simp: future_set_def set_prepare_def set_finalize_def future_closed_def)
    next
      case exc
      obtain p' where "optional_set_exception (Some e) (m_value m) = Some p'" "optional_ok p'" "content p' = Some (Inl e)"
        using optional_set_exception_ok[OF p, of "Some e"] by auto
      then show ?thesis
        using exc s2(1) xy by (auto simp: future_set_exception_def set_prepare_def set_finalize_def future_closed_def)
    qed
  qed
  then show ?thesis
    using s2 xy by (simp add: future_inv_of_def future_closed_def future_valid_def optional_valid_content)
qed

interpretation fut: sticky_latch "future_inv_of env" exec_of "future_attempt env k" "\<lambda>x. x" "future_act k" "other_of env"
    "queue_of k" future_closed for env k
proof unfold_locales
  fix x y :: "('a, 'b) future sync_state" and f :: fid
  assume "future_inv_of env x"
  then have finv: "future_inv_of env x" and inv: "inv_of env x" by (simp_all add: future_inv_of_def)
  obtain m s t where x: "x = (m, s, t)" by (cases x)
  show "\<not> exec_of x f" if "f \<in> set (queue_of k x)" using parked_of_ok[OF inv] that by blast
  show "future_inv_of env y \<and> queue_of k y = queue_of k x \<and> future_closed y = future_closed x" if "other_of env x y"
    using other_of_ok[OF inv that] finv by (simp add: future_closed_def future_inv_of_def)
  assume ex: "exec_of x f"
  show "future_inv_of env x \<and> queue_of k x = queue_of k x \<and> (future_closed x \<longrightarrow> future_closed x)"
    using finv by simp
  show "future_inv_of env y \<and> set (queue_of k y) \<subseteq> set (queue_of k x)
      \<and> (queue_of k y = [] \<or> (future_closed x \<longrightarrow> future_closed y))" if "future_act k x y"
    using future_act_ok[OF finv ex that] by simp
  show "\<not> future_closed y" if "future_act k x y" using future_act_ok[OF finv ex that] by simp
  show "\<exists>s'. future_attempt env k x = Some (Blocked, s') \<and> future_inv_of env s' \<and> future_closed s'
      \<and> queue_of k s' = queue_of k x @ [f]" if "future_closed x"
  proof -
    obtain g s' where "block env t k s = Some (SwitchedTo g, s')" "inv_of env (m, s', t)"
      "queue_of k (m, s', t) = queue_of k x @ [f]"
      using block_of_ok[of env m s t f k m] inv ex x by auto
    then show ?thesis using that x finv
      by (simp add: future_attempt_def future_wait_def future_closed_def future_inv_of_def)
  qed
  show "\<exists>out s'. future_attempt env k x = Some (out, s') \<and> future_inv_of env s' \<and> queue_of k s' = queue_of k x"
    if "\<not> future_closed x"
    using that x finv by (simp add: future_attempt_def future_wait_def future_closed_def)
  show "future_attempt env k x = Some (Done, x) \<and> \<not> future_closed x \<and> (\<forall>s'. future_act k x s' \<longrightarrow> \<not> future_closed s')"
    if "\<not> future_closed x"
    using that x future_act_ok[OF finv ex] by (auto simp: future_attempt_def future_wait_def future_closed_def)
qed

subsection \<open>Properties of the signal\<close>

lemma signal_good0: "fresh env k s \<Longrightarrow> sig.good env k ((Signal, s, t), {})"
  unfolding sig.good_def by (simp add: fresh_def sync_of_defs)

text \<open>
  No signal waits for a parked fiber: however fibers wait, signal, signal all, reset and yield, as long
  as a signal is pending nobody is parked in the queue, and \<^verbatim>\<open>wait()\<close> of the executing fiber never traps.
\<close>

theorem signal_pending_nobody_parked:
  assumes "fresh env k s"
    "(latch_step exec_of (signal_attempt env k) signal_resume (signal_act k) (other_of env))\<^sup>*\<^sup>*
      ((Signal, s, t), {}) ((m, s', t'), T)"
  shows "(m_signalled m \<noteq> 0 \<longrightarrow> queues s' k = []) \<and> (\<forall>f. executing f s' \<longrightarrow> signal_wait env t' k m s' \<noteq> None)"
proof -
  note g0 = signal_good0[OF assms(1), of t]
  have "signal_wait env t' k m s' \<noteq> None" if "executing f s'" for f
    using sig.wait_returns[OF assms(2) g0, of f] that
    by (auto simp: exec_of_def signal_attempt_def split: bind_splits)
  then show ?thesis
    using sig.open_nobody_parked[OF assms(2) g0] by (auto simp: signal_closed_def queue_of_def)
qed

lemma demo_signal: "signal_signal (Qid 9 0) True False Signal demo_sys = Some (\<lparr>m_signalled = 1\<rparr>, demo_sys)"
  by (simp add: signal_signal_def unblockFirst_def demo_sys_def Signal_def int_inc_def INT_MAX_def Let_def)

theorem signal_pending_nobody_parked_witness:
  "queues demo_sys (Qid 9 0) = [] \<and> signal_wait demo_env ts_null (Qid 9 0) \<lparr>m_signalled = 1\<rparr> demo_sys \<noteq> None"
proof -
  let ?k = "Qid 9 0" and ?x = "\<lambda>m :: signal. ((m, demo_sys, ts_null), {} :: fid set)"
  have "signal_act ?k (Signal, demo_sys, ts_null) (\<lparr>m_signalled = 1\<rparr>, demo_sys, ts_null)"
    using demo_signal by (auto simp: signal_act_def)
  then have "latch_step exec_of (signal_attempt demo_env ?k) signal_resume (signal_act ?k) (other_of demo_env)
      (?x Signal) (?x \<lparr>m_signalled = 1\<rparr>)"
    by (intro latch_step.Act[where f = 3]) (use demo_sys_inv(2) in \<open>simp_all add: exec_of_def\<close>)
  then show ?thesis
    using signal_pending_nobody_parked[OF demo_fresh[of ?k] r_into_rtranclp, of ts_null "\<lparr>m_signalled = 1\<rparr>" demo_sys ts_null "{}"]
      demo_sys_inv(2) by auto
qed

text \<open>
  \<^verbatim>\<open>signal()\<close>: the first waiter becomes ready, at the end of the run queue, and nothing is stored. With no
  waiter and \<^verbatim>\<open>queue\<close>, the signal is stored: one at most, or every one with \<^verbatim>\<open>queueEveryTime\<close> (the assertion
  fails when the count leaves the range of \<^verbatim>\<open>int\<close>); a previous \<^verbatim>\<open>signalAll()\<close> stays in effect.
\<close>

theorem signal_correct:
  assumes "sync_inv s" "executing f s" "m_signalled m \<le> INT_MAX"
  shows "case queues s k of
      h # q \<Rightarrow> (\<exists>s'. signal_signal k b e m s = Some (m, s') \<and> queues s' = (queues s)(k := q) \<and> executing f s'
        \<and> m_runnableQueue (wkr s') = m_runnableQueue (wkr s) @ [h] \<and> st (wkr s') h = Ready)
    | [] \<Rightarrow> signal_signal k b e m s =
        (if \<not> b \<or> m_signalled m < 0 then Some (m, s)
         else if e then if m_signalled m = INT_MAX then None else Some (m\<lparr>m_signalled := m_signalled m + 1\<rparr>, s)
         else Some (m\<lparr>m_signalled := max 1 (m_signalled m)\<rparr>, s))"
proof (cases "queues s k")
  case Nil
  have "m\<lparr>m_signalled := m_signalled m\<rparr> = m" by simp
  then show ?thesis
    using Nil assms(3)
    by (auto simp: signal_signal_def unblockFirst_none int_inc_def INT_MAX_def zth_assert_def Let_def max_def)
next
  case (Cons h q)
  have i: "sys_inv s" using assms(1) by (simp add: sync_inv_def)
  show ?thesis using unblockFirst_ok[OF i Cons assms(2), of False] Cons by (auto simp: signal_signal_def)
qed

theorem signal_correct_witness:
  "signal_signal (Qid 9 0) True True \<lparr>m_signalled = 4\<rparr> demo_sys = Some (\<lparr>m_signalled = 5\<rparr>, demo_sys)"
proof -
  have q: "queues demo_sys (Qid 9 0) = []" by (simp add: demo_sys_def)
  show ?thesis
    using signal_correct[OF demo_sys_inv, of "\<lparr>m_signalled = 4\<rparr>" "Qid 9 0" True True]
    by (simp add: q INT_MAX_def)
qed

text \<open>
  Two signals, one wake-up. Fiber 1 waits; fiber 2 signals twice before fiber 1 runs again. The second
  signal finds an empty queue and is stored, but fiber 1 decrements the count when it goes on: the
  stored signal is gone although only one wait has returned, and the next one blocks.
\<close>

theorem signal_second_swallowed:
  "do {
     (_, w) \<leftarrow> schedule demo_env None ts_null (wkr demo_sys);
     (a, m, s) \<leftarrow> signal_wait demo_env ts_null k Signal (demo_sys\<lparr>wkr := w\<rparr>);
     (m, s) \<leftarrow> signal_signal k True True m s;
     (m, s) \<leftarrow> signal_signal k True True m s;
     let stored = m_signalled m;
     (_, w) \<leftarrow> schedule demo_env None ts_null (wkr s);
     (_, w) \<leftarrow> schedule demo_env None ts_null w;
     (_, w) \<leftarrow> schedule demo_env None ts_null w;
     let m = signal_woken m;
     (b, m, s) \<leftarrow> signal_wait demo_env ts_null k m (s\<lparr>wkr := w\<rparr>);
     Some (a, stored, m_currentFiber w, b, queues s k)
   } = Some (Blocked, 1, Some 1, Blocked, [1])"
proof -
  have e: "create_res demo_env = E_OK" by (simp add: demo_env_def)
  let ?t = ts_null
  obtain w1 where w1: "schedule demo_env None ?t (wkr demo_sys) = Some (SwitchedTo 1, w1)"
      "calm 1 [2, 3, 1] (demo_sys\<lparr>wkr := w1\<rparr>)"
    using calm_schedule[OF demo_calm _ e, of ?t] by auto
  obtain s2 where s2: "block demo_env ?t k (demo_sys\<lparr>wkr := w1\<rparr>) = Some (SwitchedTo 2, s2)" "calm 2 [3, 2] s2"
      "queues s2 k = [1]"
    using calm_block[OF w1(2) _ e, of 2 "[3]" ?t k] by (auto simp: demo_sys_def)
  obtain s3 where s3: "unblockFirst k False s2 = Some (Some 1, s3)" "calm 2 [3, 2, 1] s3" "queues s3 k = []"
    using calm_unblockFirst[OF s2(2,3)] by auto
  obtain w4 where w4: "schedule demo_env None ?t (wkr s3) = Some (SwitchedTo 3, w4)" "calm 3 [2, 1, 3] (s3\<lparr>wkr := w4\<rparr>)"
    using calm_schedule[OF s3(2) _ e, of ?t] by auto
  obtain w5 where w5: "schedule demo_env None ?t w4 = Some (SwitchedTo 2, w5)" "calm 2 [1, 3, 2] (s3\<lparr>wkr := w5\<rparr>)"
    using calm_schedule[OF w4(2) _ e, of ?t] by auto
  obtain w6 where w6: "schedule demo_env None ?t w5 = Some (SwitchedTo 1, w6)" "calm 1 [3, 2, 1] (s3\<lparr>wkr := w6\<rparr>)"
    using calm_schedule[OF w5(2) _ e, of ?t] by auto
  obtain s7 where s7: "block demo_env ?t k (s3\<lparr>wkr := w6\<rparr>) = Some (SwitchedTo 3, s7)" "queues s7 k = [1]"
    using calm_block[OF w6(2) _ e, of 3 "[2]" ?t k] s3(3) by auto
  have "m_currentFiber w6 = Some 1" using w6(2) by (simp add: calm_def executing_def)
  then show ?thesis
    using w1(1) s2(1) s3(1,3) w4(1) w5(1) w6(1) s7
    by (simp add: signal_wait_def signal_signal_def Signal_def unblockFirst_none int_inc_def INT_MAX_def signal_woken_def)
qed

subsection \<open>Properties of the optional and the future\<close>

text \<open>
  The optional holds what was stored last: a value or an exception replaces what was there, \<^verbatim>\<open>value()\<close>
  returns the value or throws the exception, \<^verbatim>\<open>reset()\<close> and a null exception make it invalid, and \<^verbatim>\<open>value()\<close> of an invalid one
  traps.
\<close>

theorem optional_roundtrip:
  assumes "optional_ok p"
  shows "(optional_set v p \<bind> optional_value) = Some (Inr v)
    \<and> (optional_set_exception x p \<bind> optional_value) = map_option Inl x
    \<and> (optional_reset p \<bind> optional_value) = None
    \<and> (optional_value p = None \<longleftrightarrow> \<not> optional_valid p)"
  using optional_set_ok[OF assms, of v] optional_set_exception_ok[OF assms, of x] optional_reset_ok[OF assms] assms
  by (auto simp: optional_value_content optional_valid_content)

theorem optional_roundtrip_witness:
  "(optional_set (7 :: nat) (Optional :: (nat, string) optional) \<bind> optional_value) = Some (Inr 7)"
  using optional_roundtrip[OF optional_new(1), of "7 :: nat" "Some ''e''"] by simp

lemma future_settled0: "fresh env k s \<Longrightarrow> fut.settled env k ((Future, s, t), {})"
  unfolding fut.settled_def fut.good_def by (simp add: fresh_def sync_of_defs future_inv_of_def Future_def optional_new)

text \<open>A null exception wakes all that wait, and leaves the future invalid: the \<^verbatim>\<open>value()\<close> of those that waited traps.\<close>

lemma future_null_wakes:
  assumes "inv_of env (m, s, t)" "executing f s" "\<not> future_valid m" "optional_ok (m_value m)"
  shows "\<exists>m' s'. future_set_exception k None m s = Some (m', s') \<and> inv_of env (m', s', t) \<and> queues s' k = []
    \<and> \<not> future_valid m' \<and> future_value m' = None"
proof -
  obtain p where p: "optional_set_exception None (m_value m) = Some p" "optional_ok p" "content p = None"
    using optional_set_exception_ok[OF assms(4), of None] by auto
  obtain s2 where s2: "unblockAll k False s = Some (queues s k \<noteq> [], s2)" "inv_of env (m\<lparr>m_value := p\<rparr>, s2, t)"
      "queue_of k (m\<lparr>m_value := p\<rparr>, s2, t) = []"
    using unblockAll_of_ok[OF assms(1), of f k "m\<lparr>m_value := p\<rparr>"] assms(2) by (auto simp: exec_of_def)
  then show ?thesis using p assms(3)
    by (simp add: future_set_exception_def set_prepare_def set_finalize_def queue_of_def future_valid_def future_value_def
        optional_valid_content optional_value_content)
qed


text \<open>A run: fiber 1 waits for the future, fiber 2 sets it, and control goes round to fiber 1.\<close>

lemma future_demo_run:
  "\<exists>m s'. (latch_step exec_of (future_attempt demo_env k) (\<lambda>x. x) (future_act k) (other_of demo_env))\<^sup>*\<^sup>*
      ((Future, demo_sys, ts_null), {}) ((m, s', ts_null), {1})
    \<and> executing 1 s' \<and> future_value (m :: (nat, string) future) = Some (Inr 5)"
proof -
  let ?step = "latch_step exec_of (future_attempt demo_env k) (\<lambda>x. x) (future_act k) (other_of demo_env)"
  let ?t = ts_null and ?F = "Future :: (nat, string) future"
  have e: "create_res demo_env = E_OK" by (simp add: demo_env_def)
  have other: "schedule demo_env None ?t (wkr s) = Some (r, w) \<Longrightarrow> ?step ((m, s, ?t), T) ((m, s\<lparr>wkr := w\<rparr>, ?t), T)"
    for s r w T and m :: "(nat, string) future"
    by (rule latch_step.Other) (auto simp: other_of_def)
  obtain w1 where w1: "schedule demo_env None ?t (wkr demo_sys) = Some (SwitchedTo 1, w1)"
      "calm 1 [2, 3, 1] (demo_sys\<lparr>wkr := w1\<rparr>)"
    using calm_schedule[OF demo_calm _ e, of ?t] by auto
  obtain s2 where s2: "block demo_env ?t k (demo_sys\<lparr>wkr := w1\<rparr>) = Some (SwitchedTo 2, s2)" "calm 2 [3, 2] s2"
      "queues s2 k = [1]"
    using calm_block[OF w1(2) _ e, of 2 "[3]" ?t k] by (auto simp: demo_sys_def)
  have nv: "\<not> future_valid ?F" by (simp add: future_valid_def Future_def optional_defs)
  have 1: "?step ((?F, demo_sys\<lparr>wkr := w1\<rparr>, ?t), {}) ((?F, s2, ?t), if Blocked = Blocked then insert 1 {} else {})"
    by (rule latch_step.Wait[where exec = exec_of, OF calm_exec_of[OF w1(2)]]) (simp_all add: future_attempt_def future_wait_def nv s2(1))
  obtain s3 where s3: "unblockAll k False s2 = Some (True, s3)" "calm 2 [3, 2, 1] s3"
    using calm_unblockAll[OF s2(2), of k] s2(3) by auto
  obtain p where p: "optional_set 5 (m_value ?F) = Some p" "optional_ok p" "content p = Some (Inr 5)"
    using optional_set_ok[of "m_value ?F" 5] optional_new by (auto simp: Future_def)
  have "future_set k 5 ?F s2 = Some (\<lparr>m_value = p\<rparr>, s3)"
    using p(1) s3(1) nv by (simp add: future_set_def set_prepare_def set_finalize_def Future_def)
  then have 2: "?step ((?F, s2, ?t), {1}) ((\<lparr>m_value = p\<rparr>, s3, ?t), {1})"
    by (intro latch_step.Act[where exec = exec_of, OF calm_exec_of[OF s2(2)]]) (auto simp: future_act_def)
  obtain w4 where w4: "schedule demo_env None ?t (wkr s3) = Some (SwitchedTo 3, w4)" "calm 3 [2, 1, 3] (s3\<lparr>wkr := w4\<rparr>)"
    using calm_schedule[OF s3(2) _ e, of ?t] by auto
  obtain w5 where w5: "schedule demo_env None ?t w4 = Some (SwitchedTo 2, w5)" "calm 2 [1, 3, 2] (s3\<lparr>wkr := w5\<rparr>)"
    using calm_schedule[OF w4(2) _ e, of ?t] by auto
  obtain w6 where w6: "schedule demo_env None ?t w5 = Some (SwitchedTo 1, w6)" "calm 1 [3, 2, 1] (s3\<lparr>wkr := w6\<rparr>)"
    using calm_schedule[OF w5(2) _ e, of ?t] by auto
  have "?step\<^sup>*\<^sup>* ((?F, demo_sys, ?t), {}) ((\<lparr>m_value = p\<rparr>, s3\<lparr>wkr := w6\<rparr>, ?t), {1})"
    using other[OF w1(1), of ?F "{}"] 1 2 other[OF w4(1), of "\<lparr>m_value = p\<rparr>" "{1}"]
      other[of "s3\<lparr>wkr := w4\<rparr>" _ w5 "\<lparr>m_value = p\<rparr>" "{1}"] w5(1)
      other[of "s3\<lparr>wkr := w5\<rparr>" _ w6 "\<lparr>m_value = p\<rparr>" "{1}"] w6(1)
    by (simp add: converse_rtranclp_into_rtranclp)
  moreover have "executing 1 (s3\<lparr>wkr := w6\<rparr>)" using w6(2) by (simp add: calm_def)
  ultimately show ?thesis using p by (force simp: future_value_def optional_value_content)
qed


lemma future_once_step:
  assumes "latch_step exec_of (future_attempt env k) (\<lambda>x. x) (future_act k) (other_of env) x y"
    "fut.settled env k x" "content (m_value (fst (fst x))) = Some r"
  shows "content (m_value (fst (fst y))) = Some r"
  using assms
proof (cases rule: latch_step.cases)
  case (Wait s f T out s')
  then have "future_inv_of env s" using assms(2) unfolding fut.settled_def fut.good_def by simp
  then have v: "optional_valid (m_value (fst s))"
    using Wait(1) assms(3) by (simp add: future_inv_of_def optional_valid_content)
  have "s' = s" using Wait(5) v
    by (cases s) (auto simp: future_attempt_def future_wait_def future_valid_def)
  then show ?thesis using Wait(1,2) assms(3) by simp
next
  case (Act s f T s')
  then have i: "future_inv_of env s" using assms(2) unfolding fut.settled_def fut.good_def by simp
  then have "\<not> future_closed s"
    using Act(1) assms(3) by (simp add: future_inv_of_def optional_valid_content future_closed_def future_valid_def)
  then show ?thesis using future_act_ok[OF i Act(3,5)] by simp
next
  case (Other s s' T)
  then show ?thesis using assms(3) by (cases s; cases s') (auto simp: other_of_def)
qed (use assms(3) in auto)

lemma future_once:
  assumes "(latch_step exec_of (future_attempt env k) (\<lambda>x. x) (future_act k) (other_of env))\<^sup>*\<^sup>* x y"
    "fut.settled env k x" "content (m_value (fst (fst x))) = Some r"
  shows "content (m_value (fst (fst y))) = Some r"
  using assms(1)
proof (induction rule: rtranclp_induct)
  case (step y z)
  then show ?case using future_once_step fut.settled_reach[OF step(1) assms(2)] by blast
qed (use assms(3) in simp)

text \<open>
  A future is written once: whatever is read from it, every later \<^verbatim>\<open>value()\<close> gives the same.
\<close>

theorem future_write_once:
  assumes "fresh env k s"
    "(latch_step exec_of (future_attempt env k) (\<lambda>x. x) (future_act k) (other_of env))\<^sup>*\<^sup>*
      ((Future, s, t), {}) ((m, s', t'), T)"
    "future_value m = Some r"
    "(latch_step exec_of (future_attempt env k) (\<lambda>x. x) (future_act k) (other_of env))\<^sup>*\<^sup>*
      ((m, s', t'), T) ((m2, s2, t2), T2)"
  shows "future_value m2 = Some r"
proof -
  have 1: "fut.settled env k ((m, s', t'), T)" using fut.settled_reach[OF assms(2) future_settled0[OF assms(1)]] .
  then have 2: "fut.settled env k ((m2, s2, t2), T2)" using fut.settled_reach[OF assms(4)] by blast
  have "optional_ok (m_value m)" "optional_ok (m_value m2)"
    using 1 2 unfolding fut.settled_def fut.good_def by (simp_all add: future_inv_of_def)
  then show ?thesis
    using future_once[OF assms(4) 1] assms(3) by (simp add: future_value_def optional_value_content)
qed

theorem future_write_once_witness: "\<exists>m. future_value (m :: (nat, string) future) = Some (Inr 5)"
proof -
  obtain m s' where r: "(latch_step exec_of (future_attempt demo_env (Qid 9 0)) (\<lambda>x. x) (future_act (Qid 9 0)) (other_of demo_env))\<^sup>*\<^sup>*
      ((Future, demo_sys, ts_null), {}) ((m, s', ts_null), {1})"
    "future_value (m :: (nat, string) future) = Some (Inr 5)"
    using future_demo_run[of "Qid 9 0"] by blast
  then show ?thesis using future_write_once[OF demo_fresh r(1,2) rtranclp.rtrancl_refl] by blast
qed

subsection \<open>Properties of the gate\<close>

text \<open>The executing fiber passes or waits; \<open>n\<close> counts the calls of \<^verbatim>\<open>pass()\<close>, also those within \<^verbatim>\<open>wait()\<close>.\<close>

inductive gate_step :: "run_env \<Rightarrow> qid \<Rightarrow> gate sync_state \<times> nat \<Rightarrow> gate sync_state \<times> nat \<Rightarrow> bool"
  for env :: run_env and k :: qid where
  Pass: "executing f s \<Longrightarrow> gate_pass k m s = Some (b, m', s') \<Longrightarrow> gate_step env k ((m, s, t), n) ((m', s', t), Suc n)"
| GateWait: "executing f s \<Longrightarrow> gate_wait env t k m s = Some (out, m', s') \<Longrightarrow>
    gate_step env k ((m, s, t), n) ((m', s', t), Suc n)"
| GateOther: "other_of env x y \<Longrightarrow> gate_step env k (x, n) (y, n)"

definition gate_ok :: "run_env \<Rightarrow> qid \<Rightarrow> nat \<Rightarrow> gate sync_state \<times> nat \<Rightarrow> bool" where
  "gate_ok env k cnt x \<longleftrightarrow> (case x of ((m, s, t), n) \<Rightarrow> inv_of env (m, s, t) \<and> g_count m = cnt
     \<and> g_current m = n mod cnt \<and> length (queues s k) \<le> n mod cnt)"

text \<open>What one pass does, and one wait.\<close>

lemma gate_pass_ok:
  assumes "gate_ok env k cnt ((m, s, t), n)" "executing f s" "0 < cnt" "cnt < SIZE_MOD"
  shows "\<exists>s'. gate_pass k m s = Some (Suc n mod cnt = 0, m\<lparr>g_current := Suc n mod cnt\<rparr>, s') \<and> executing f s'
    \<and> inv_of env (m', s', t) \<and> queues s' k = (if Suc n mod cnt = 0 then [] else queues s k)
    \<and> (Suc n mod cnt = 0 \<longrightarrow> (\<forall>h \<in> set (queues s k). st (wkr s') h = Ready \<and> h \<in> set (m_runnableQueue (wkr s'))))"
proof -
  have i: "inv_of env (m, s, t)" "g_count m = cnt" "g_current m = n mod cnt" using assms(1) by (auto simp: gate_ok_def)
  have lt: "n mod cnt < cnt" "Suc (n mod cnt) mod SIZE_MOD = Suc (n mod cnt)" using assms(3,4) mod_less_divisor[of cnt n]
    by (simp_all del: mod_less_divisor)
  have sys: "sys_inv s" "sync_inv s" "create_res env = E_OK" using i(1) by (auto simp: sync_of_defs sync_inv_def)
  show ?thesis
  proof (cases "Suc (n mod cnt) = cnt")
    case True
    then have n: "Suc n mod cnt = 0" by (simp add: mod_Suc)
    obtain s' where s': "unblockAll k False s = Some (queues s k \<noteq> [], s')" "sys_inv s'"
        "queues s' = (queues s)(k := [])" "executing f s'" "same_rest s s'"
        "m_runnableQueue (wkr s') = m_runnableQueue (wkr s) @ queues s k"
        "\<forall>f \<in> set (queues s k). st (wkr s') f = Ready"
      using unblockAll_ok[OF sys(1) assms(2), of k] by blast
    then show ?thesis
      using sync_inv_keep[OF sys(2) s'(2,5,4)] i(2,3) sys(3) n lt True by (simp add: gate_pass_def sync_of_defs Let_def)
  next
    case False
    then have n: "Suc n mod cnt = Suc (n mod cnt)" by (simp add: mod_Suc)
    then show ?thesis using i lt False assms(2) by (simp add: gate_pass_def sync_of_defs Let_def)
  qed
qed

lemma gate_wait_ok:
  assumes "gate_ok env k cnt ((m, s, t), n)" "executing f s" "0 < cnt" "cnt < SIZE_MOD"
  shows "\<exists>s'. gate_wait env t k m s =
      Some (if Suc n mod cnt = 0 then Done else Blocked, m\<lparr>g_current := Suc n mod cnt\<rparr>, s')
    \<and> inv_of env (m\<lparr>g_current := Suc n mod cnt\<rparr>, s', t)
    \<and> queues s' k = (if Suc n mod cnt = 0 then [] else queues s k @ [f])
    \<and> (Suc n mod cnt = 0 \<longrightarrow> (\<forall>h \<in> set (queues s k). st (wkr s') h = Ready \<and> h \<in> set (m_runnableQueue (wkr s'))))"
proof -
  let ?m = "m\<lparr>g_current := Suc n mod cnt\<rparr>"
  obtain s1 where s1: "gate_pass k m s = Some (Suc n mod cnt = 0, ?m, s1)" "executing f s1"
      "inv_of env (?m, s1, t)" "queues s1 k = (if Suc n mod cnt = 0 then [] else queues s k)"
      "Suc n mod cnt = 0 \<longrightarrow> (\<forall>h \<in> set (queues s k). st (wkr s1) h = Ready \<and> h \<in> set (m_runnableQueue (wkr s1)))"
    using gate_pass_ok[OF assms, of ?m] by (elim exE conjE) (rule that)
  show ?thesis
  proof (cases "Suc n mod cnt = 0")
    case True
    then show ?thesis using s1 by (simp add: gate_wait_def)
  next
    case False
    obtain g s' where "block env t k s1 = Some (SwitchedTo g, s')" "inv_of env (?m, s', t)"
        "queue_of k (?m, s', t) = queue_of k (?m, s1, t) @ [f]"
      using block_of_ok[OF s1(3), of f k ?m] s1(2) by (auto simp: exec_of_def)
    then show ?thesis using s1(1,4) False by (simp add: gate_wait_def queue_of_def)
  qed
qed

lemma gate_ok_step:
  assumes "gate_step env k x y" "gate_ok env k cnt x" "0 < cnt" "cnt < SIZE_MOD"
  shows "gate_ok env k cnt y"
  using assms
proof (induction rule: gate_step.induct)
  case (Pass f s m b m' s' t n)
  have l: "length (queues s k) \<le> n mod cnt" "g_count m = cnt" using Pass.prems(1) by (auto simp: gate_ok_def)
  show ?case
    using gate_pass_ok[OF Pass.prems(1) Pass.hyps(1) assms(3,4), of m'] Pass.hyps(2) l
    by (auto simp: gate_ok_def mod_Suc split: if_splits)
next
  case (GateWait f s t m out m' s' n)
  have l: "length (queues s k) \<le> n mod cnt" "g_count m = cnt" using GateWait.prems(1) by (auto simp: gate_ok_def)
  show ?case
    using gate_wait_ok[OF GateWait.prems(1) GateWait.hyps(1) assms(3,4)] GateWait.hyps(2) l
    by (auto simp: gate_ok_def mod_Suc split: if_splits)
next
  case (GateOther x y n)
  then show ?case using other_of_ok[of env x y k] by (cases x; cases y) (auto simp: gate_ok_def queue_of_def)
qed

lemma gate_ok_reach:
  assumes "(gate_step env k)\<^sup>*\<^sup>* x y" "gate_ok env k cnt x" "0 < cnt" "cnt < SIZE_MOD"
  shows "gate_ok env k cnt y"
  using assms by (induction rule: rtranclp_induct) (auto intro: gate_ok_step)

text \<open>
  C24. The gate opens at every \<open>cnt\<close>-th pass, and then for everybody: after \<open>n\<close> passes fewer than \<open>n mod cnt + 1\<close>
  fibers are parked. A fiber that calls \<^verbatim>\<open>wait()\<close> is parked, unless it is the one that completes the round:
  then it goes on, and all that are parked become ready.
\<close>

theorem gate_opens_for_all:
  assumes "fresh env k s" "0 < cnt" "cnt < SIZE_MOD"
    "(gate_step env k)\<^sup>*\<^sup>* ((Gate cnt, s, t), 0) ((m, s1, t1), n)" "executing f s1"
  shows "length (queues s1 k) \<le> n mod cnt \<and>
    (\<exists>s2. gate_wait env t1 k m s1 = Some (if Suc n mod cnt = 0 then Done else Blocked, m\<lparr>g_current := Suc n mod cnt\<rparr>, s2)
      \<and> queues s2 k = (if Suc n mod cnt = 0 then [] else queues s1 k @ [f])
      \<and> (Suc n mod cnt = 0 \<longrightarrow> (\<forall>h \<in> set (queues s1 k). is_ready s2 h)))"
proof -
  have "gate_ok env k cnt ((Gate cnt, s, t), 0)"
    using assms(1) by (simp add: gate_ok_def fresh_def sync_of_defs Gate_def)
  then have g: "gate_ok env k cnt ((m, s1, t1), n)" using gate_ok_reach assms(2-4) by blast
  then have "length (queues s1 k) \<le> n mod cnt" by (simp add: gate_ok_def)
  moreover obtain s2 where s2: "gate_wait env t1 k m s1 = Some (if Suc n mod cnt = 0 then Done else Blocked, m\<lparr>g_current := Suc n mod cnt\<rparr>, s2)"
      "queues s2 k = (if Suc n mod cnt = 0 then [] else queues s1 k @ [f])"
      "Suc n mod cnt = 0 \<longrightarrow> (\<forall>h \<in> set (queues s1 k). st (wkr s2) h = Ready \<and> h \<in> set (m_runnableQueue (wkr s2)))"
    using gate_wait_ok[OF g assms(5,2,3)] by (elim exE conjE) (rule that)
  moreover have "Suc n mod cnt = 0 \<longrightarrow> (\<forall>h \<in> set (queues s1 k). is_ready s2 h)" using s2(3) by (simp add: is_ready_def)
  ultimately show ?thesis by (intro conjI exI[of _ s2])
qed

theorem gate_opens_for_all_witness:
  "\<exists>m s2. gate_wait demo_env ts_null (Qid 9 0) (Gate 1) demo_sys = Some (Done, m, s2)
    \<and> queues s2 (Qid 9 0) = []"
  using gate_opens_for_all[OF demo_fresh[of "Qid 9 0"] _ _ rtranclp.rtrancl_refl demo_sys_inv(2), of 1 ts_null]
  by (auto simp: SIZE_MOD_def)

end
