(* ===== verification/Zth_Mailbox.thy ===== *)
theory Zth_Mailbox
  imports Zth_Signal
begin

section \<open>Mailbox\<close>

text \<open>
  \<^verbatim>\<open>include/libzth/sync.h\<close>, class \<^verbatim>\<open>Mailbox\<close>: one slot for a value or an exception, a queue of fibers that
  want to put and one of fibers that want to take. The override of \<^verbatim>\<open>wakeup()\<close> stores which fiber was woken
  to take, so that no other fiber takes the value. As for the mutex, a blocking operation that returns
  \<open>Blocked\<close> is repeated by the fiber when it gets control back.
\<close>

subsection \<open>Operations\<close>

record ('a, 'e) mailbox =
  mb_value :: "('a, 'e) optional"
  m_assigned :: "fid option"

definition Mailbox :: "('a, 'e) mailbox" where
  "Mailbox = \<lparr>mb_value = Optional, m_assigned = None\<rparr>"

definition Queue_Put :: "addr \<Rightarrow> qid" where
  "Queue_Put a = Qid a 0"

definition Queue_Take :: "addr \<Rightarrow> qid" where
  "Queue_Take a = Qid a 1"

definition mailbox_valid :: "('a, 'e) mailbox \<Rightarrow> bool" where
  "mailbox_valid m \<longleftrightarrow> optional_valid (mb_value m)"

definition valid_for :: "fid \<Rightarrow> ('a, 'e) mailbox \<Rightarrow> bool" where
  "valid_for f m \<longleftrightarrow> mailbox_valid m \<and> (m_assigned m = None \<or> m_assigned m = Some f)"

definition can_put :: "('a, 'e) mailbox \<Rightarrow> bool" where
  "can_put m \<longleftrightarrow> \<not> mailbox_valid m"

definition can_take :: "('a, 'e) mailbox \<Rightarrow> sys \<Rightarrow> bool option" where
  "can_take m s = map_option (\<lambda>f. valid_for f m) (m_currentFiber (wkr s))"

text \<open>\<^verbatim>\<open>unblockFirst()\<close> with the \<^verbatim>\<open>wakeup()\<close> of this class.\<close>

definition mailbox_unblockFirst ::
  "addr \<Rightarrow> qid \<Rightarrow> ('a, 'e) mailbox \<Rightarrow> sys \<Rightarrow> (('a, 'e) mailbox \<times> sys) option" where
  "mailbox_unblockFirst a k m s = do {
     (l, s) \<leftarrow> unblockFirst k False s;
     Some (if k = Queue_Take a \<and> l \<noteq> None then m\<lparr>m_assigned := l\<rparr> else m, s)
   }"

partial_function (option) wait_empty ::
  "run_env \<Rightarrow> timespec \<Rightarrow> addr \<Rightarrow> ('a, 'e) mailbox \<Rightarrow> sys \<Rightarrow> (outcome \<times> sys) option" where
  "wait_empty env now a m s =
     (if mailbox_valid m then do {
       (r, s) \<leftarrow> block env now (Queue_Put a) s;
       case r of SwitchedTo _ \<Rightarrow> Some (Blocked, s) | Returned _ \<Rightarrow> wait_empty env now a m s
     } else Some (Done, s))"

partial_function (option) mailbox_wait ::
  "run_env \<Rightarrow> timespec \<Rightarrow> addr \<Rightarrow> fid \<Rightarrow> ('a, 'e) mailbox \<Rightarrow> sys \<Rightarrow> (outcome \<times> sys) option" where
  "mailbox_wait env now a assigned m s =
     (if valid_for assigned m then Some (Done, s)
      else do {
        (r, s) \<leftarrow> block env now (Queue_Take a) s;
        case r of SwitchedTo _ \<Rightarrow> Some (Blocked, s) | Returned _ \<Rightarrow> mailbox_wait env now a assigned m s
      })"

text \<open>The overloads for a value and for an exception differ in the overload of \<^verbatim>\<open>Optional::set()\<close> they call. A message
  is a value or an exception: the null pointer that \<^verbatim>\<open>put(std::exception_ptr)\<close> accepts as well stores nothing, and is not a message here.\<close>

fun optional_store :: "'e + 'a \<Rightarrow> ('a, 'e) optional \<Rightarrow> ('a, 'e) optional option" where
  "optional_store (Inr v) p = optional_set v p"
| "optional_store (Inl e) p = optional_set_exception (Some e) p"

definition put_finalize :: "addr \<Rightarrow> ('a, 'e) mailbox \<Rightarrow> sys \<Rightarrow> (('a, 'e) mailbox \<times> sys) option" where
  "put_finalize a m s = mailbox_unblockFirst a (Queue_Take a) m s"

definition mailbox_put ::
  "run_env \<Rightarrow> timespec \<Rightarrow> addr \<Rightarrow> 'e + 'a \<Rightarrow> ('a, 'e) mailbox \<Rightarrow> sys \<Rightarrow> (outcome \<times> ('a, 'e) mailbox \<times> sys) option" where
  "mailbox_put env now a v m s = do {
     (out, s) \<leftarrow> wait_empty env now a m s;
     case out of
       Blocked \<Rightarrow> Some (Blocked, m, s)
     | Done \<Rightarrow> do {
         p \<leftarrow> optional_store v (mb_value m);
         (m, s) \<leftarrow> put_finalize a (m\<lparr>mb_value := p\<rparr>) s;
         Some (Done, m, s)
       }
   }"

definition take_finalize :: "addr \<Rightarrow> ('a, 'e) mailbox \<Rightarrow> sys \<Rightarrow> (('a, 'e) mailbox \<times> sys) option" where
  "take_finalize a m s = do {
     p \<leftarrow> optional_reset (mb_value m);
     mailbox_unblockFirst a (Queue_Put a) (m\<lparr>mb_value := p\<rparr>) s
   }"

text \<open>The result: nothing when the fiber is parked, else the value that is returned or the exception that is thrown.\<close>

definition mailbox_take ::
  "run_env \<Rightarrow> timespec \<Rightarrow> addr \<Rightarrow> ('a, 'e) mailbox \<Rightarrow> sys \<Rightarrow> (('e + 'a) option \<times> ('a, 'e) mailbox \<times> sys) option" where
  "mailbox_take env now a m s = do {
     f \<leftarrow> m_currentFiber (wkr s);
     (out, s) \<leftarrow> mailbox_wait env now a f m s;
     case out of
       Blocked \<Rightarrow> Some (None, m, s)
     | Done \<Rightarrow> (case m_exception (mb_value m) of
         Some e \<Rightarrow> do {
           (m, s) \<leftarrow> take_finalize a m s;
           Some (Some (Inl e), m, s)
         }
       | None \<Rightarrow> do {
           v \<leftarrow> optional_value (mb_value m);
           (m, s) \<leftarrow> take_finalize a m s;
           Some (Some v, m, s)
         })
   }"

subsection \<open>What the operations do\<close>

definition mailbox_inv_of :: "run_env \<Rightarrow> ('a, 'e) mailbox sync_state \<Rightarrow> bool" where
  "mailbox_inv_of env x \<longleftrightarrow> inv_of env x \<and> optional_ok (mb_value (fst x))"

abbreviation slot :: "('a, 'e) mailbox \<Rightarrow> ('e + 'a) option" where
  "slot m \<equiv> content (mb_value m)"

lemma optional_store_ok:
  "optional_ok p \<Longrightarrow> \<exists>p'. optional_store v p = Some p' \<and> optional_ok p' \<and> content p' = Some v"
  using optional_set_ok[of p] optional_set_exception_ok[of p] by (cases v) fastforce+

lemma queue_names [simp]: "Queue_Put a \<noteq> Queue_Take a" "Queue_Take a \<noteq> Queue_Put a"
  by (simp_all add: Queue_Put_def Queue_Take_def)

lemma mailbox_unblockFirst_ok:
  assumes "inv_of env (m, s, t)" "executing f s"
  shows "\<exists>m' s'. mailbox_unblockFirst a k m s = Some (m', s') \<and> inv_of env (m', s', t) \<and> executing f s'
    \<and> mb_value m' = mb_value m
    \<and> queues s' = (queues s)(k := tl (queues s k))
    \<and> (\<forall>h q. queues s k = h # q \<longrightarrow> is_ready s' h)
    \<and> m_assigned m' = (if k = Queue_Take a \<and> queues s k \<noteq> [] then Some (hd (queues s k)) else m_assigned m)"
proof (cases "queues s k")
  case Nil
  then show ?thesis using assms by (simp add: mailbox_unblockFirst_def unblockFirst_none sync_of_defs fun_upd_idem)
next
  case (Cons h q)
  have i: "sys_inv s" "sync_inv s" "create_res env = E_OK" using assms(1) by (auto simp: sync_of_defs sync_inv_def)
  obtain s' where s': "unblockFirst k False s = Some (Some h, s')" "sys_inv s'" "queues s' = (queues s)(k := q)"
      "executing f s'" "same_rest s s'" "st (wkr s') h = Ready" "m_runnableQueue (wkr s') = m_runnableQueue (wkr s) @ [h]"
    using unblockFirst_ok[OF i(1) Cons assms(2), of False] by auto
  then show ?thesis
    using Cons sync_inv_keep[OF i(2) s'(2,5,4)] i(3) by (auto simp: mailbox_unblockFirst_def sync_of_defs is_ready_def)
qed

lemma mailbox_put_full:
  assumes "mailbox_inv_of env (m, s, t)" "executing f s" "mailbox_valid m"
  shows "\<exists>s'. mailbox_put env t a v m s = Some (Blocked, m, s') \<and> mailbox_inv_of env (m, s', t)
    \<and> queues s' (Queue_Put a) = queues s (Queue_Put a) @ [f]"
proof -
  obtain g s' where "block env t (Queue_Put a) s = Some (SwitchedTo g, s')" "inv_of env (m, s', t)"
      "queues s' (Queue_Put a) = queues s (Queue_Put a) @ [f]"
    using block_of_ok[of env m s t f "Queue_Put a" m] assms by (auto simp: mailbox_inv_of_def exec_of_def queue_of_def)
  moreover from this(1) have "wait_empty env t a m s = Some (Blocked, s')"
    using assms(3) by (subst wait_empty.simps) simp
  ultimately show ?thesis using assms(1) by (simp add: mailbox_put_def mailbox_inv_of_def)
qed

lemma mailbox_put_empty:
  assumes "mailbox_inv_of env (m, s, t)" "executing f s" "\<not> mailbox_valid m"
  shows "\<exists>m' s'. mailbox_put env t a v m s = Some (Done, m', s') \<and> mailbox_inv_of env (m', s', t) \<and> executing f s'
    \<and> slot m' = Some v \<and> queues s' = (queues s)(Queue_Take a := tl (queues s (Queue_Take a)))
    \<and> (\<forall>h q. queues s (Queue_Take a) = h # q \<longrightarrow> m_assigned m' = Some h \<and> is_ready s' h)
    \<and> (queues s (Queue_Take a) = [] \<longrightarrow> m_assigned m' = m_assigned m)"
proof -
  obtain p where p: "optional_store v (mb_value m) = Some p" "optional_ok p" "content p = Some v"
    using optional_store_ok[of "mb_value m" v] assms(1) by (auto simp: mailbox_inv_of_def)
  have w: "wait_empty env t a m s = Some (Done, s)" using assms(3) by (subst wait_empty.simps) simp
  have "inv_of env (m\<lparr>mb_value := p\<rparr>, s, t)" using assms(1) by (simp add: mailbox_inv_of_def sync_of_defs)
  from mailbox_unblockFirst_ok[OF this assms(2), of a "Queue_Take a"]
  show ?thesis using p w by (auto simp: mailbox_put_def put_finalize_def mailbox_inv_of_def)
qed

lemma mailbox_take_none:
  assumes "mailbox_inv_of env (m, s, t)" "executing f s" "\<not> valid_for f m"
  shows "\<exists>s'. mailbox_take env t a m s = Some (None, m, s') \<and> mailbox_inv_of env (m, s', t)
    \<and> queues s' (Queue_Take a) = queues s (Queue_Take a) @ [f]"
proof -
  obtain g s' where "block env t (Queue_Take a) s = Some (SwitchedTo g, s')" "inv_of env (m, s', t)"
      "queues s' (Queue_Take a) = queues s (Queue_Take a) @ [f]"
    using block_of_ok[of env m s t f "Queue_Take a" m] assms by (auto simp: mailbox_inv_of_def exec_of_def queue_of_def)
  moreover from this(1) have "mailbox_wait env t a f m s = Some (Blocked, s')"
    using assms(3) by (subst mailbox_wait.simps) simp
  ultimately show ?thesis using assms(1,2) by (simp add: mailbox_take_def mailbox_inv_of_def executing_def)
qed

lemma mailbox_take_some:
  assumes "mailbox_inv_of env (m, s, t)" "executing f s" "valid_for f m"
  shows "\<exists>r m' s'. mailbox_take env t a m s = Some (Some r, m', s') \<and> mailbox_inv_of env (m', s', t) \<and> executing f s'
    \<and> slot m = Some r \<and> slot m' = None \<and> m_assigned m' = m_assigned m
    \<and> queues s' = (queues s)(Queue_Put a := tl (queues s (Queue_Put a)))
    \<and> (\<forall>h q. queues s (Queue_Put a) = h # q \<longrightarrow> is_ready s' h)"
proof -
  have ok: "optional_ok (mb_value m)" using assms(1) by (simp add: mailbox_inv_of_def)
  obtain p where p: "optional_reset (mb_value m) = Some p" "optional_ok p" "content p = None"
    using optional_reset_ok[OF ok] by blast
  obtain r where r: "content (mb_value m) = Some r"
    using assms(3) ok by (auto simp: valid_for_def mailbox_valid_def optional_valid_content)
  have w: "mailbox_wait env t a f m s = Some (Done, s)" using assms(3) by (subst mailbox_wait.simps) simp
  have "inv_of env (m\<lparr>mb_value := p\<rparr>, s, t)" using assms(1) by (simp add: mailbox_inv_of_def sync_of_defs)
  from mailbox_unblockFirst_ok[OF this assms(2), of a "Queue_Put a"]
  obtain m' s' where f: "take_finalize a m s = Some (m', s')" "inv_of env (m', s', t)" "executing f s'"
      "mb_value m' = p" "m_assigned m' = m_assigned m" "queues s' = (queues s)(Queue_Put a := tl (queues s (Queue_Put a)))"
      "\<forall>h q. queues s (Queue_Put a) = h # q \<longrightarrow> is_ready s' h"
    using p by (auto simp: take_finalize_def)
  have c: "m_currentFiber (wkr s) = Some f" using assms(2) by (simp add: executing_def)
  have "mailbox_take env t a m s = Some (Some r, m', s')"
    using w f(1) c r ok by (auto simp: mailbox_take_def optional_value_content content_def split: option.splits)
  then show ?thesis using f p r by (simp add: mailbox_inv_of_def)
qed

subsection \<open>Delivery\<close>

text \<open>Runs of the mailbox; \<open>P\<close> is what was put so far, \<open>G\<close> what was taken.\<close>

inductive mailbox_step ::
  "run_env \<Rightarrow> addr \<Rightarrow> ('a, 'e) mailbox sync_state \<times> ('e + 'a) list \<times> ('e + 'a) list
   \<Rightarrow> ('a, 'e) mailbox sync_state \<times> ('e + 'a) list \<times> ('e + 'a) list \<Rightarrow> bool"
  for env :: run_env and a :: addr where
  Put: "executing f s \<Longrightarrow> mailbox_put env t a v m s = Some (out, m', s') \<Longrightarrow>
    mailbox_step env a ((m, s, t), P, G) ((m', s', t), if out = Done then P @ [v] else P, G)"
| Take: "executing f s \<Longrightarrow> mailbox_take env t a m s = Some (r, m', s') \<Longrightarrow>
    mailbox_step env a ((m, s, t), P, G) ((m', s', t), P, case r of None \<Rightarrow> G | Some v \<Rightarrow> G @ [v])"
| MailboxOther: "other_of env x y \<Longrightarrow> mailbox_step env a (x, P, G) (y, P, G)"

definition mailbox_good :: "run_env \<Rightarrow> ('a, 'e) mailbox sync_state \<times> ('e + 'a) list \<times> ('e + 'a) list \<Rightarrow> bool" where
  "mailbox_good env x \<longleftrightarrow> (case x of (y, P, G) \<Rightarrow> mailbox_inv_of env y \<and>
     P = G @ (case slot (fst y) of None \<Rightarrow> [] | Some v \<Rightarrow> [v]))"

lemma mailbox_valid_slot: "mailbox_inv_of env (m, s, t) \<Longrightarrow> mailbox_valid m \<longleftrightarrow> slot m \<noteq> None"
  by (simp add: mailbox_valid_def mailbox_inv_of_def optional_valid_content)

lemma mailbox_good_put:
  assumes "mailbox_good env ((m, s, t), P, G)" "executing f s" "mailbox_put env t a v m s = Some (out, m', s')"
  shows "mailbox_good env ((m', s', t), if out = Done then P @ [v] else P, G)"
proof -
  have i: "mailbox_inv_of env (m, s, t)" using assms(1) by (simp add: mailbox_good_def)
  show ?thesis
  proof (cases "mailbox_valid m")
    case True
    then show ?thesis using mailbox_put_full[OF i assms(2) True, of a v] assms(1,3) by (auto simp: mailbox_good_def)
  next
    case False
    then show ?thesis
      using mailbox_put_empty[OF i assms(2) False, of a v] assms(1,3) mailbox_valid_slot[OF i] by (auto simp: mailbox_good_def)
  qed
qed

lemma mailbox_good_take:
  assumes "mailbox_good env ((m, s, t), P, G)" "executing f s" "mailbox_take env t a m s = Some (r, m', s')"
  shows "mailbox_good env ((m', s', t), P, case r of None \<Rightarrow> G | Some v \<Rightarrow> G @ [v])"
proof -
  have i: "mailbox_inv_of env (m, s, t)" using assms(1) by (simp add: mailbox_good_def)
  show ?thesis
  proof (cases "valid_for f m")
    case True
    then show ?thesis using mailbox_take_some[OF i assms(2) True, of a] assms(1,3) by (auto simp: mailbox_good_def)
  next
    case False
    then show ?thesis using mailbox_take_none[OF i assms(2) False, of a] assms(1,3) by (auto simp: mailbox_good_def)
  qed
qed

lemma mailbox_good_step: "mailbox_step env a x y \<Longrightarrow> mailbox_good env x \<Longrightarrow> mailbox_good env y"
proof (induction rule: mailbox_step.induct)
  case (Put f s t v m out m' s' P G)
  then show ?case using mailbox_good_put by blast
next
  case (Take f s t m r m' s' P G)
  then show ?case using mailbox_good_take by blast
next
  case (MailboxOther x y P G)
  then show ?case using other_of_ok[of env x y] by (auto simp: mailbox_good_def mailbox_inv_of_def)
qed

lemma mailbox_good_reach: "(mailbox_step env a)\<^sup>*\<^sup>* x y \<Longrightarrow> mailbox_good env x \<Longrightarrow> mailbox_good env y"
  by (induction rule: rtranclp_induct) (auto intro: mailbox_good_step)

text \<open>
  C4. The mailbox delivers everything once and in order: at any time, what has been put is what has been
  taken followed by what is in the slot; so it holds at most one message, and none is lost, duplicated or
  reordered, exceptions included.
\<close>

theorem mailbox_delivers_in_order:
  assumes "create_res env = E_OK" "sync_inv s"
    "(mailbox_step env a)\<^sup>*\<^sup>* ((Mailbox, s, t), [], []) ((m, s', t'), P, G)"
  shows "P = G @ (case slot m of None \<Rightarrow> [] | Some v \<Rightarrow> [v])"
proof -
  have "mailbox_good env ((Mailbox, s, t), [], [])"
    using assms(1,2) by (simp add: mailbox_good_def mailbox_inv_of_def sync_of_defs Mailbox_def optional_new)
  then have "mailbox_good env ((m, s', t'), P, G)" using mailbox_good_reach[OF assms(3)] by blast
  then show ?thesis by (simp add: mailbox_good_def)
qed

lemma demo_mailbox_inv:
  "calm c q s \<Longrightarrow> optional_ok (mb_value m) \<Longrightarrow> mailbox_inv_of demo_env (m, s, t) \<and> executing c s"
  by (simp add: mailbox_inv_of_def sync_of_defs calm_def demo_env_def)

text \<open>The steps of a calm system.\<close>

lemma calm_put:
  assumes "calm c q s" "optional_ok (mb_value m)" "\<not> mailbox_valid m" "queues s (Queue_Take a) = h # hs"
  shows "\<exists>p s'. mailbox_put demo_env t a v m s = Some (Done, \<lparr>mb_value = p, m_assigned = Some h\<rparr>, s') \<and> optional_ok p
    \<and> content p = Some v \<and> calm c (q @ [h]) s' \<and> queues s' = (queues s)(Queue_Take a := hs)"
proof -
  obtain p where p: "optional_store v (mb_value m) = Some p" "optional_ok p" "content p = Some v"
    using optional_store_ok[OF assms(2), of v] by blast
  obtain s' where s': "unblockFirst (Queue_Take a) False s = Some (Some h, s')" "calm c (q @ [h]) s'"
      "queues s' = (queues s)(Queue_Take a := hs)"
    using calm_unblockFirst[OF assms(1,4)] by blast
  have "wait_empty demo_env t a m s = Some (Done, s)" using assms(3) by (subst wait_empty.simps) simp
  then show ?thesis using p s' by (cases m) (simp add: mailbox_put_def put_finalize_def mailbox_unblockFirst_def)
qed

lemma calm_put_nobody:
  assumes "optional_ok (mb_value m)" "\<not> mailbox_valid m" "queues s (Queue_Take a) = []"
  shows "\<exists>p. mailbox_put demo_env t a v m s = Some (Done, \<lparr>mb_value = p, m_assigned = m_assigned m\<rparr>, s)
    \<and> optional_ok p \<and> content p = Some v"
proof -
  obtain p where p: "optional_store v (mb_value m) = Some p" "optional_ok p" "content p = Some v"
    using optional_store_ok[OF assms(1), of v] by blast
  have "wait_empty demo_env t a m s = Some (Done, s)" using assms(2) by (subst wait_empty.simps) simp
  then show ?thesis
    using p assms(3) by (cases m) (simp add: mailbox_put_def put_finalize_def mailbox_unblockFirst_def unblockFirst_none)
qed

lemma calm_take_blocks:
  assumes "calm c q s" "remove1 c q = n # rest" "\<not> valid_for c m"
  shows "\<exists>s'. mailbox_take demo_env t a m s = Some (None, m, s') \<and> calm n (rest @ [n]) s'
    \<and> queues s' = (queues s)(Queue_Take a := queues s (Queue_Take a) @ [c])"
proof -
  obtain s' where s': "block demo_env t (Queue_Take a) s = Some (SwitchedTo n, s')" "calm n (rest @ [n]) s'"
      "queues s' = (queues s)(Queue_Take a := queues s (Queue_Take a) @ [c])"
    using calm_block[OF assms(1,2), of demo_env t "Queue_Take a"] by (auto simp: demo_env_def)
  have "mailbox_wait demo_env t a c m s = Some (Blocked, s')" using assms(3) s'(1) by (subst mailbox_wait.simps) simp
  then show ?thesis using s' assms(1) by (simp add: mailbox_take_def calm_def executing_def)
qed

lemma demo_waiting:
  "\<exists>s. mailbox_take demo_env ts_null a Mailbox demo_sys = Some (None, Mailbox, s) \<and> calm 1 [2, 1] s
    \<and> queues s = (\<lambda>_. [])(Queue_Take a := [3])"
proof -
  have "\<not> valid_for 3 Mailbox" by (simp add: valid_for_def mailbox_valid_def Mailbox_def optional_defs)
  then show ?thesis
    using calm_take_blocks[OF demo_calm, of 1 "[2]" Mailbox ts_null a] by (auto simp: demo_sys_def)
qed

lemma new_mailbox: "optional_ok (mb_value Mailbox)" "\<not> mailbox_valid Mailbox"
  by (simp_all add: Mailbox_def optional_new mailbox_valid_def optional_defs)

theorem mailbox_delivers_in_order_witness:
  "\<exists>m s. mailbox_put demo_env ts_null 9 (Inr 4) (Mailbox :: (nat, string) mailbox) demo_sys = Some (Done, m, s)
    \<and> [Inr 4] = [] @ (case slot m of None \<Rightarrow> [] | Some v \<Rightarrow> [v])"
proof -
  have q: "queues demo_sys (Queue_Take 9) = []" by (simp add: demo_sys_def)
  obtain p where p: "mailbox_put demo_env ts_null 9 (Inr 4) (Mailbox :: (nat, string) mailbox) demo_sys
      = Some (Done, \<lparr>mb_value = p, m_assigned = m_assigned (Mailbox :: (nat, string) mailbox)\<rparr>, demo_sys)" (is "_ = Some (Done, ?m, _)")
    using calm_put_nobody[OF new_mailbox q] by blast
  have "mailbox_step demo_env 9 ((Mailbox, demo_sys, ts_null), [], []) ((?m, demo_sys, ts_null), if Done = Done then [] @ [Inr 4] else [], [])"
    by (rule mailbox_step.Put[OF demo_sys_inv(2) p])
  then have "(mailbox_step demo_env 9)\<^sup>*\<^sup>* ((Mailbox, demo_sys, ts_null), [], []) ((?m, demo_sys, ts_null), [Inr 4], [])"
    by simp
  then show ?thesis
    using mailbox_delivers_in_order[OF _ demo_sys_inv(1), of demo_env 9 ts_null ?m demo_sys ts_null "[Inr 4]" "[]"] p
    by (auto simp: demo_env_def)
qed

text \<open>
  C17. A message goes to the fiber that was woken for it: when \<^verbatim>\<open>put()\<close> returns while fibers wait to take,
  the first of them is ready, and from then on only that fiber can take; \<^verbatim>\<open>take()\<close> of any other fiber parks it.
\<close>

theorem mailbox_no_overtaking:
  assumes "mailbox_inv_of env (m, s, t)" "executing f s" "\<not> mailbox_valid m" "queues s (Queue_Take a) = h # q"
    "g \<noteq> h" "mailbox_put env t a v m s = Some (out, m', s')"
  shows "out = Done \<and> is_ready s' h \<and> valid_for h m' \<and>
    (\<forall>s2 t2. mailbox_inv_of env (m', s2, t2) \<and> executing g s2 \<longrightarrow> (\<exists>s3. mailbox_take env t2 a m' s2 = Some (None, m', s3)))"
proof -
  have p: "out = Done" "mailbox_inv_of env (m', s', t)" "slot m' = Some v" "m_assigned m' = Some h" "is_ready s' h"
    using mailbox_put_empty[OF assms(1-3), of a v] assms(4,6) by auto
  have "valid_for h m'" using p mailbox_valid_slot[OF p(2)] by (simp add: valid_for_def)
  moreover have "\<not> valid_for g m'" using p(4) assms(5) by (simp add: valid_for_def)
  ultimately show ?thesis using p mailbox_take_none by blast
qed

theorem mailbox_no_overtaking_witness:
  "\<exists>s m' s'. mailbox_put demo_env ts_null 9 (Inr 4) (Mailbox :: (nat, string) mailbox) s = Some (Done, m', s')
    \<and> is_ready s' 3 \<and> valid_for 3 m'"
proof -
  obtain s where s: "calm 1 [2, 1] s" "queues s = (\<lambda>_. [])(Queue_Take 9 := [3])" using demo_waiting[of 9] by blast
  have q: "queues s (Queue_Take 9) = [3]" using s(2) by simp
  obtain m' s' where p: "mailbox_put demo_env ts_null 9 (Inr 4) (Mailbox :: (nat, string) mailbox) s = Some (Done, m', s')"
    using calm_put[OF s(1) new_mailbox q] by blast
  have i: "mailbox_inv_of demo_env (Mailbox :: (nat, string) mailbox, s, ts_null)" "executing 1 s"
    using demo_mailbox_inv[OF s(1) new_mailbox(1), of ts_null] by blast+
  show ?thesis using mailbox_no_overtaking[OF i new_mailbox(2) q _ p, of 2] p by auto
qed

text \<open>
  The assignment is never taken back. Fiber 3 waits, is woken for a message and takes it. The next message
  finds nobody waiting, so it should be for whoever takes first; but the mailbox still has fiber 3 as the
  assigned one. \<^verbatim>\<open>take()\<close> of fiber 2 parks it although the mailbox is full, where no \<^verbatim>\<open>put()\<close> can wake it.
\<close>

theorem mailbox_stale_assignment:
  "do {
     (r0, m, s) \<leftarrow> mailbox_take demo_env ts_null a (Mailbox :: (nat, string) mailbox) demo_sys;
     (o1, m, s) \<leftarrow> mailbox_put demo_env ts_null a (Inr 4) m s;
     (_, w) \<leftarrow> schedule demo_env None ts_null (wkr s);
     (_, w) \<leftarrow> schedule demo_env None ts_null w;
     (_, w) \<leftarrow> schedule demo_env None ts_null w;
     (r1, m, s) \<leftarrow> mailbox_take demo_env ts_null a m (s\<lparr>wkr := w\<rparr>);
     (o2, m, s) \<leftarrow> mailbox_put demo_env ts_null a (Inr 5) m s;
     (_, w) \<leftarrow> schedule demo_env None ts_null (wkr s);
     (r2, m, s) \<leftarrow> mailbox_take demo_env ts_null a m (s\<lparr>wkr := w\<rparr>);
     Some ([r0, r1, r2], [o1, o2], m_assigned m, slot m, queues s (Queue_Take a))
   } = Some ([None, Some (Inr 4), None], [Done, Done], Some 3, Some (Inr 5), [2])"
proof -
  have e: "create_res demo_env = E_OK" by (simp add: demo_env_def)
  let ?t = ts_null and ?full = "\<lambda>n. \<lparr>m_data = Some (n :: nat), m_valid = True, m_exception = None\<rparr> :: (nat, string) optional"
  obtain s0 where s0: "mailbox_take demo_env ?t a (Mailbox :: (nat, string) mailbox) demo_sys = Some (None, Mailbox, s0)"
      "calm 1 [2, 1] s0" "queues s0 = (\<lambda>_. [])(Queue_Take a := [3])"
    using demo_waiting[of a] by blast
  obtain s1 where s1: "unblockFirst (Queue_Take a) False s0 = Some (Some 3, s1)" "calm 1 [2, 1, 3] s1" "queues s1 = (\<lambda>_. [])"
    using calm_unblockFirst[OF s0(2), of "Queue_Take a" 3 "[]"] s0(3) by (auto simp: fun_upd_idem)
  have p1: "mailbox_put demo_env ?t a (Inr 4) Mailbox s0 = Some (Done, \<lparr>mb_value = ?full 4, m_assigned = Some 3\<rparr>, s1)"
    by (subst mailbox_put_def, subst wait_empty.simps)
      (simp add: new_mailbox put_finalize_def mailbox_unblockFirst_def s1(1), simp add: Mailbox_def optional_defs)
  obtain w2 where w2: "schedule demo_env None ?t (wkr s1) = Some (SwitchedTo 2, w2)" "calm 2 [1, 3, 2] (s1\<lparr>wkr := w2\<rparr>)"
    using calm_schedule[OF s1(2) _ e, of ?t] by auto
  obtain w3 where w3: "schedule demo_env None ?t w2 = Some (SwitchedTo 1, w3)" "calm 1 [3, 2, 1] (s1\<lparr>wkr := w3\<rparr>)"
    using calm_schedule[OF w2(2) _ e, of ?t] by auto
  obtain w4 where w4: "schedule demo_env None ?t w3 = Some (SwitchedTo 3, w4)" "calm 3 [2, 1, 3] (s1\<lparr>wkr := w4\<rparr>)"
    using calm_schedule[OF w3(2) _ e, of ?t] by auto
  have c4: "m_currentFiber w4 = Some 3" using w4(2) by (simp add: calm_def executing_def)
  have p2: "mailbox_take demo_env ?t a \<lparr>mb_value = ?full 4, m_assigned = Some 3\<rparr> (s1\<lparr>wkr := w4\<rparr>)
      = Some (Some (Inr 4), \<lparr>mb_value = Optional, m_assigned = Some 3\<rparr>, s1\<lparr>wkr := w4\<rparr>)"
    by (subst mailbox_take_def, subst mailbox_wait.simps)
      (simp add: c4 s1(3) valid_for_def mailbox_valid_def take_finalize_def mailbox_unblockFirst_def unblockFirst_none optional_defs)
  have p3: "mailbox_put demo_env ?t a (Inr 5) \<lparr>mb_value = Optional, m_assigned = Some 3\<rparr> (s1\<lparr>wkr := w4\<rparr>)
      = Some (Done, \<lparr>mb_value = ?full 5, m_assigned = Some 3\<rparr>, s1\<lparr>wkr := w4\<rparr>)"
    by (subst mailbox_put_def, subst wait_empty.simps)
      (simp add: s1(3) mailbox_valid_def put_finalize_def mailbox_unblockFirst_def unblockFirst_none optional_defs)
  obtain w5 where w5: "schedule demo_env None ?t w4 = Some (SwitchedTo 2, w5)" "calm 2 [1, 3, 2] (s1\<lparr>wkr := w5\<rparr>)"
    using calm_schedule[OF w4(2) _ e, of ?t] by auto
  obtain s6 where s6: "mailbox_take demo_env ?t a \<lparr>mb_value = ?full 5, m_assigned = Some 3\<rparr> (s1\<lparr>wkr := w5\<rparr>)
      = Some (None, \<lparr>mb_value = ?full 5, m_assigned = Some 3\<rparr>, s6)" "queues s6 (Queue_Take a) = [2]"
    using calm_take_blocks[OF w5(2), of 1 "[3]" "\<lparr>mb_value = ?full 5, m_assigned = Some 3\<rparr>" ?t a] s1(3)
    by (auto simp: valid_for_def)
  show ?thesis by (simp add: s0(1) p1 w2(1) w3(1) w4(1) p2 p3 w5(1) s6) (simp add: content_def)
qed

end
