(* ===== verification/Zth_Waiter.thy ===== *)
theory Zth_Waiter
  imports Zth_Mailbox
begin

section \<open>Waiting for time\<close>

text \<open>
  \<^verbatim>\<open>include/libzth/waiter.h\<close> and \<^verbatim>\<open>src/waiter.cpp\<close>: the waiter is a fiber that keeps the timed objects in a
  sorted list and wakes their fibers, and the operations of \<^verbatim>\<open>sync.h\<close> with a timeout that build on it
  (\<^verbatim>\<open>AlarmClock\<close>, \<^verbatim>\<open>blockUntil\<close>, \<^verbatim>\<open>blockFor\<close>).

  A timed object is an address; \<open>waitables\<close> of the state has its members. The function \<^verbatim>\<open>m_f\<close> of a
  \<^verbatim>\<open>PolledWaiting\<close> is user code: the argument \<open>pf\<close> gives what it returns in this pass. The clock is an
  argument. The waiter's loop never ends; its body is modelled up to the points where control can move:
  \<open>waiter_pass\<close> wakes what is due and gives up control; how long the thread then sleeps is decided in \<open>Zth_Idle\<close>.
  The reading of file descriptors in between is the poller's.
\<close>

subsection \<open>Timed objects\<close>

abbreviation tkey :: "sys \<Rightarrow> addr \<Rightarrow> timespec" where
  "tkey s \<equiv> \<lambda>a. w_timeout (waitables s a)"

definition upd_waitable :: "addr \<Rightarrow> (waitable \<Rightarrow> waitable) \<Rightarrow> sys \<Rightarrow> sys" where
  "upd_waitable a f s = s\<lparr>waitables := (waitables s)(a := f (waitables s a))\<rparr>"

definition setFiber :: "fid \<Rightarrow> waitable \<Rightarrow> waitable" where
  "setFiber f w = w\<lparr>w_fiber := Some f\<rparr>"

definition resetFiber :: "waitable \<Rightarrow> waitable" where
  "resetFiber w = w\<lparr>w_fiber := None\<rparr>"

definition hasFiber :: "waitable \<Rightarrow> bool" where
  "hasFiber w \<longleftrightarrow> w_fiber w \<noteq> None"

definition setTimeout :: "timespec \<Rightarrow> waitable \<Rightarrow> waitable" where
  "setTimeout t w = w\<lparr>w_timeout := t\<rparr>"

definition setInterval :: "TimeInterval \<Rightarrow> timespec \<Rightarrow> waitable \<Rightarrow> waitable option" where
  "setInterval iv now w = do {
     t \<leftarrow> ts_add now iv;
     Some (setTimeout t (w\<lparr>w_kind := Polled iv\<rparr>))
   }"

text \<open>The constructors of the three classes.\<close>

definition TimedWaitable :: "timespec \<Rightarrow> waitable" where
  "TimedWaitable t = \<lparr>w_timeout = t, w_fiber = None, w_kind = Timed, w_rang = False\<rparr>"

definition PolledWaiting :: "TimeInterval \<Rightarrow> timespec \<Rightarrow> waitable option" where
  "PolledWaiting iv now = setInterval iv now (TimedWaitable ts_null)"

definition AlarmClock :: "qid \<Rightarrow> fid \<Rightarrow> timespec \<Rightarrow> waitable" where
  "AlarmClock k f t = (TimedWaitable t)\<lparr>w_kind := Alarm k f\<rparr>"

definition timed_poll :: "timespec \<Rightarrow> waitable \<Rightarrow> bool" where
  "timed_poll now w \<longleftrightarrow> w_timeout w \<le> now"

definition polled_next :: "TimeInterval \<Rightarrow> timespec \<Rightarrow> waitable \<Rightarrow> waitable option" where
  "polled_next iv now w = do {
     next_poll \<leftarrow> ts_add (w_timeout w) iv;
     next_poll \<leftarrow> (if next_poll < now then ts_add now iv else Some next_poll);
     Some (setTimeout next_poll w)
   }"

text \<open>The virtual \<^verbatim>\<open>poll()\<close>.\<close>

definition poll :: "(addr \<Rightarrow> bool) \<Rightarrow> timespec \<Rightarrow> addr \<Rightarrow> sys \<Rightarrow> (bool \<times> sys) option" where
  "poll pf now a s = (case w_kind (waitables s a) of
     Timed \<Rightarrow> Some (timed_poll now (waitables s a), s)
   | Polled iv \<Rightarrow>
       if pf a then Some (True, s)
       else do {
         w \<leftarrow> polled_next iv now (waitables s a);
         Some (False, upd_waitable a (\<lambda>_. w) s)
       }
   | Alarm k f \<Rightarrow>
       if \<not> timed_poll now (waitables s a) then Some (False, s)
       else do {
         (b, s) \<leftarrow> unblock f k False s;
         Some (True, upd_waitable a (\<lambda>w. w\<lparr>w_rang := b\<rparr>) s)
       })"

subsection \<open>The waiter\<close>

definition waiter_insert :: "addr \<Rightarrow> sys \<Rightarrow> sys option" where
  "waiter_insert a s = do {
     q \<leftarrow> sl_insert (tkey s) a (waiting s);
     Some (s\<lparr>waiting := q\<rparr>)
   }"

definition waiter_erase :: "addr \<Rightarrow> sys \<Rightarrow> sys option" where
  "waiter_erase a s = do {
     q \<leftarrow> sl_erase (tkey s) a (waiting s);
     Some (s\<lparr>waiting := q\<rparr>)
   }"

text \<open>\<^verbatim>\<open>Waiter::wakeup()\<close>: let the waiter's own fiber run again, once it has one.\<close>

definition waiter_resume :: "sys \<Rightarrow> sys option" where
  "waiter_resume s = (case waiter_fiber s of
     None \<Rightarrow> Some s
   | Some f \<Rightarrow> do { w \<leftarrow> worker_resume f (wkr s); Some (s\<lparr>wkr := w\<rparr>) })"

definition scheduleTask :: "addr \<Rightarrow> sys \<Rightarrow> sys option" where
  "scheduleTask a s = do { s \<leftarrow> waiter_insert a s; waiter_resume s }"

definition unscheduleTask :: "addr \<Rightarrow> sys \<Rightarrow> sys option" where
  "unscheduleTask a s = (if sl_contains (tkey s) (waiting s) a then waiter_erase a s else Some s)"

definition waiter_wakeup :: "addr \<Rightarrow> sys \<Rightarrow> sys option" where
  "waiter_wakeup a s =
     (if sl_contains (tkey s) (waiting s) a then do {
        s \<leftarrow> waiter_erase a s;
        (case w_fiber (waitables s a) of
           None \<Rightarrow> Some s
         | Some f \<Rightarrow> do {
             s \<leftarrow> sync_wakeup f True s;
             Some (upd_waitable a resetFiber s)
           })
      } else Some s)"

text \<open>\<^verbatim>\<open>Waiter::wait()\<close>. When it has to wait, the model stops where control moves; \<open>now'\<close> is the later reading of
  the clock in \<^verbatim>\<open>schedule()\<close>.\<close>

definition waiter_sleep_on :: "addr \<Rightarrow> fid \<Rightarrow> sys \<Rightarrow> sys option" where
  "waiter_sleep_on a f s = do {
     let s = upd_waitable a (setFiber f) s;
     let s = s\<lparr>wkr := upd_fiber f (nap (w_timeout (waitables s a))) (wkr s)\<rparr>;
     w \<leftarrow> release f (wkr s);
     let s = s\<lparr>wkr := w\<rparr>;
     s \<leftarrow> waiter_insert a s;
     waiter_resume s
   }"

definition waiter_wait ::
  "run_env \<Rightarrow> (addr \<Rightarrow> bool) \<Rightarrow> timespec \<Rightarrow> timespec \<Rightarrow> addr \<Rightarrow> sys \<Rightarrow> (sched_result \<times> sys) option" where
  "waiter_wait env pf now now' a s = (case m_currentFiber (wkr s) of
     None \<Rightarrow> Some (Returned True, s)
   | Some f \<Rightarrow>
       if st (wkr s) f \<noteq> Running then Some (Returned True, s)
       else do {
         (b, s) \<leftarrow> poll pf now a s;
         if b then do {
           (r, w) \<leftarrow> yield env None False now (wkr s);
           Some (r, s\<lparr>wkr := w\<rparr>)
         } else do {
           s \<leftarrow> waiter_sleep_on a f s;
           (r, w) \<leftarrow> schedule env None now' (wkr s);
           Some (r, s\<lparr>wkr := w\<rparr>)
         }
       })"

text \<open>The inner loop of \<^verbatim>\<open>Waiter::entry()\<close>; \<open>dbg\<close> is \<^verbatim>\<open>Config::Debug\<close>.\<close>

definition wake_one :: "(addr \<Rightarrow> bool) \<Rightarrow> bool \<Rightarrow> timespec \<Rightarrow> addr \<Rightarrow> sys \<Rightarrow> sys option" where
  "wake_one pf dbg now a s = do {
     s \<leftarrow> waiter_erase a s;
     (b, s) \<leftarrow> poll pf now a s;
     let w = waitables s a;
     if b then
       (case w_fiber w of None \<Rightarrow> Some s | Some f \<Rightarrow> sync_wakeup f True s)
     else do {
       s \<leftarrow> waiter_insert a s;
       Some (case w_fiber w of
         Some f \<Rightarrow> if dbg then s\<lparr>wkr := upd_fiber f (nap (w_timeout w)) (wkr s)\<rparr> else s
       | None \<Rightarrow> s)
     }
   }"

partial_function (option) wake_expired ::
  "(addr \<Rightarrow> bool) \<Rightarrow> bool \<Rightarrow> timespec \<Rightarrow> sys \<Rightarrow> sys option" where
  "wake_expired pf dbg now s = do {
     e \<leftarrow> sl_empty (waiting s);
     if e then Some s
     else do {
       a \<leftarrow> sl_front (waiting s);
       if w_timeout (waitables s a) < now then do {
         s \<leftarrow> wake_one pf dbg now a s;
         wake_expired pf dbg now s
       } else Some s
     }
   }"

text \<open>
  One pass: wake what is due, then suspend the waiter when nothing is left to wait for, or let the others
  run. The result tells whether control moved, and, when it did not, whether a real sleep is due.
\<close>

definition waiter_pass ::
  "run_env \<Rightarrow> (addr \<Rightarrow> bool) \<Rightarrow> bool \<Rightarrow> bool \<Rightarrow> timespec \<Rightarrow> timespec \<Rightarrow> sys \<Rightarrow> (sched_result \<times> bool \<times> sys) option" where
  "waiter_pass env pf dbg polling now now' s = do {
     s \<leftarrow> wake_expired pf dbg now s;
     e \<leftarrow> sl_empty (waiting s);
     if e \<and> \<not> polling then do {
       f \<leftarrow> waiter_fiber s;
       (r, w) \<leftarrow> worker_suspend env f now' (wkr s);
       Some (r, False, s\<lparr>wkr := w\<rparr>)
     } else do {
       (r, w) \<leftarrow> schedule env None now' (wkr s);
       Some (r, r = Returned False, s\<lparr>wkr := w\<rparr>)
     }
   }"

text \<open>The time until which the thread may sleep at the end of the pass, if there is one.\<close>

definition waiter_end :: "sys \<Rightarrow> timespec option option" where
  "waiter_end s = do {
     e \<leftarrow> sl_empty (waiting s);
     front \<leftarrow> (if e then Some None else map_option Some (sl_front (waiting s)));
     let t = map_option (\<lambda>a. w_timeout (waitables s a)) front;
     let run_end = m_end (wkr s);
     Some (if \<not> ts_isNull run_end \<and> (case t of None \<Rightarrow> True | Some t \<Rightarrow> isAfter t run_end)
       then Some run_end else t)
   }"

subsection \<open>Sleeping\<close>

text \<open>The free functions: \<open>a\<close> is the \<^verbatim>\<open>TimedWaitable\<close> on the stack of the caller.\<close>

definition nap_until ::
  "run_env \<Rightarrow> timespec \<Rightarrow> timespec \<Rightarrow> addr \<Rightarrow> timespec \<Rightarrow> sys \<Rightarrow> (sched_result \<times> sys) option" where
  "nap_until env now now' a sleepUntil s =
     waiter_wait env (\<lambda>_. False) now now' a (upd_waitable a (\<lambda>_. TimedWaitable sleepUntil) s)"

definition nap_for ::
  "run_env \<Rightarrow> timespec \<Rightarrow> timespec \<Rightarrow> timespec \<Rightarrow> addr \<Rightarrow> TimeInterval \<Rightarrow> sys \<Rightarrow> (sched_result \<times> sys) option" where
  "nap_for env now0 now now' a sleepFor s =
     (if \<not> ti_hasPassed sleepFor then do {
        t \<leftarrow> ts_add now0 sleepFor;
        nap_until env now now' a t s
      } else Some (Returned True, s))"

text \<open>The intervals of \<^verbatim>\<open>mnap()\<close> and \<^verbatim>\<open>unap()\<close>, with the division of C, that rounds towards zero.\<close>

definition cdiv :: "int \<Rightarrow> int \<Rightarrow> int" where
  "cdiv a b = (if a \<ge> 0 then a div b else - ((- a) div b))"

definition cmod :: "int \<Rightarrow> int \<Rightarrow> int" where
  "cmod a b = a - cdiv a b * b"

definition mnap_interval :: "int \<Rightarrow> TimeInterval" where
  "mnap_interval ms = mk_interval (cdiv ms 1000) (cmod ms 1000 * 1000000) False"

definition unap_interval :: "int \<Rightarrow> TimeInterval" where
  "unap_interval us = mk_interval (cdiv us 1000000) (cmod us 1000000 * 1000) False"

subsection \<open>Periodic wake-up\<close>

record periodic =
  p_interval :: TimeInterval
  p_t :: timespec

datatype periodic_action = NapUntil timespec | YieldNow

definition periodic_nap :: "timespec \<Rightarrow> timespec \<Rightarrow> periodic \<Rightarrow> (periodic_action \<times> bool \<times> periodic) option" where
  "periodic_nap reference now p = do {
     t \<leftarrow> ts_add reference (p_interval p);
     let p = p\<lparr>p_t := t\<rparr>;
     if isAfter (p_t p) now then Some (NapUntil (p_t p), True, p)
     else do {
       t2 \<leftarrow> ts_add (p_t p) (p_interval p);
       if isAfter t2 now then Some (YieldNow, False, p)
       else Some (YieldNow, False, p\<lparr>p_t := now\<rparr>)
     }
   }"

subsection \<open>Blocking with a timeout\<close>

text \<open>
  \<^verbatim>\<open>block_()\<close> up to \<^verbatim>\<open>schedule()\<close>, with the alarm clock \<open>a\<close> on the stack of the caller, and what it does when the
  fiber gets control back. \<^verbatim>\<open>blockUntil()\<close> and \<^verbatim>\<open>blockFor()\<close> return at once (\<open>Inl\<close>) or block (\<open>Inr\<close>).
\<close>

definition timed_block ::
  "run_env \<Rightarrow> timespec \<Rightarrow> addr \<Rightarrow> timespec \<Rightarrow> qid \<Rightarrow> sys \<Rightarrow> (sched_result \<times> sys) option" where
  "timed_block env now a timeout k s = do {
     f \<leftarrow> m_currentFiber (wkr s);
     s \<leftarrow> park k s;
     s \<leftarrow> scheduleTask a (upd_waitable a (\<lambda>_. AlarmClock k f timeout) s);
     (r, w) \<leftarrow> schedule env None now (wkr s);
     Some (r, s\<lparr>wkr := w\<rparr>)
   }"

definition timed_block_end :: "addr \<Rightarrow> sys \<Rightarrow> (bool \<times> sys) option" where
  "timed_block_end a s = do {
     s \<leftarrow> unscheduleTask a s;
     Some (\<not> w_rang (waitables s a), s)
   }"

definition blockUntil ::
  "run_env \<Rightarrow> timespec \<Rightarrow> addr \<Rightarrow> timespec \<Rightarrow> qid \<Rightarrow> sys \<Rightarrow> (bool + sched_result \<times> sys) option" where
  "blockUntil env now a timeout k s =
     (if timeout \<le> now then Some (Inl True)
      else map_option Inr (timed_block env now a timeout k s))"

definition blockFor ::
  "run_env \<Rightarrow> timespec \<Rightarrow> addr \<Rightarrow> TimeInterval \<Rightarrow> qid \<Rightarrow> sys \<Rightarrow> (bool + sched_result \<times> sys) option" where
  "blockFor env now a timeout k s =
     (if isNegative timeout \<or> ti_isNull timeout then Some (Inl True)
      else do {
        t \<leftarrow> ts_add now timeout;
        map_option Inr (timed_block env now a t k s)
      })"

subsection \<open>Invariant\<close>

text \<open>
  \<open>xs\<close> are the timed objects in the list, in order of time. A fiber that sleeps on one of them is waiting, in
  no queue, and sleeps on no other; an alarm clock has no fiber of its own, and a fiber has one alarm clock.
\<close>

definition interval_ok :: "TimeInterval \<Rightarrow> bool" where
  "interval_ok iv \<longleftrightarrow> isNormal iv \<and> isPositive iv"

definition waitable_ok :: "waitable \<Rightarrow> bool" where
  "waitable_ok w \<longleftrightarrow> tv_sec (w_timeout w) \<le> TIME_MAX \<and> (case w_kind w of
     Timed \<Rightarrow> True | Polled iv \<Rightarrow> interval_ok iv | Alarm k f \<Rightarrow> w_fiber w = None)"

definition alarm_for :: "waitable \<Rightarrow> fid option" where
  "alarm_for w = (case w_kind w of Alarm k f \<Rightarrow> Some f | _ \<Rightarrow> None)"

definition sleeper :: "waitable \<Rightarrow> fid option" where
  "sleeper w = (case w_kind w of Alarm k f \<Rightarrow> Some f | _ \<Rightarrow> w_fiber w)"

definition waiter_inv :: "sys \<Rightarrow> addr list \<Rightarrow> bool" where
  "waiter_inv s xs \<longleftrightarrow> sl_inv (tkey s) (waiting s) xs \<and> length xs < 2 ^ 64
     \<and> (\<forall>a \<in> set xs. waitable_ok (waitables s a))
     \<and> (\<forall>a \<in> set xs. \<forall>f. w_fiber (waitables s a) = Some f \<longrightarrow> st (wkr s) f = Waiting \<and> \<not> is_linked s f)
     \<and> (\<forall>a \<in> set xs. \<forall>b \<in> set xs. \<forall>f. sleeper (waitables s a) = Some f \<longrightarrow> sleeper (waitables s b) = Some f \<longrightarrow> a = b)"

lemma ts_add_ge:
  assumes "tv_sec t \<le> TIME_MAX" "interval_ok iv"
  shows "\<exists>t'. ts_add t iv = Some t' \<and> t \<le> t' \<and> tv_sec t' \<le> TIME_MAX"
proof -
  let ?r = "ti_add (mk_interval (tv_sec t) (tv_nsec t) False) iv"
  have iv: "0 \<le> ti_sec iv" "0 \<le> ti_nsec iv" "\<not> m_negative iv"
    using assms(2) by (auto simp: interval_ok_def isNormal_def isPositive_def isNegative_def)
  have "m_negative ?r = False" using iv by (simp add: ti_add_def Let_def)
  moreover have "\<not> isBefore (TimeInterval.m_t ?r) t" "ti_sec ?r \<le> TIME_MAX"
    using iv assms(1) by (auto simp: ti_add_def Let_def isBefore_def)
  ultimately show ?thesis
    by (auto simp: ts_add_def isPositive_def isNegative_def less_timespec_def[symmetric] not_less)
qed

lemma polled_next_ok:
  assumes "waitable_ok w" "w_kind w = Polled iv" "tv_sec now \<le> TIME_MAX"
  shows "\<exists>t. polled_next iv now w = Some (w\<lparr>w_timeout := t\<rparr>) \<and> now \<le> t \<and> tv_sec t \<le> TIME_MAX"
proof -
  have i: "tv_sec (w_timeout w) \<le> TIME_MAX" "interval_ok iv" using assms(1,2) by (auto simp: waitable_ok_def)
  obtain t1 where t1: "ts_add (w_timeout w) iv = Some t1" "tv_sec t1 \<le> TIME_MAX" using ts_add_ge[OF i] by blast
  obtain t2 where "ts_add now iv = Some t2" "now \<le> t2" "tv_sec t2 \<le> TIME_MAX" using ts_add_ge[OF assms(3) i(2)] by blast
  then show ?thesis using t1 by (cases "t1 < now") (auto simp: polled_next_def setTimeout_def)
qed

lemma wake_sleeping:
  assumes "sys_inv s" "st (wkr s) f = Waiting" "\<not> is_linked s f" "executing g s"
  shows "\<exists>s'. sync_wakeup f prio s = Some s' \<and> sys_inv s' \<and> queues s' = queues s \<and> executing g s' \<and> same_rest s s'
    \<and> m_runnableQueue (wkr s') = (if prio then f # m_runnableQueue (wkr s) else m_runnableQueue (wkr s) @ [f])
    \<and> st (wkr s') f = Ready \<and> (\<forall>h. h \<noteq> f \<longrightarrow> m_fibers (wkr s') h = m_fibers (wkr s) h)"
proof -
  have w: "winv (wkr s)" and p: "parked_ok s" and l: "\<not> linked (wkr s) f" "\<forall>k. f \<notin> set (queues s k)"
    using assms(1,3) by (auto simp: sys_inv_def is_linked_def)
  have c: "m_currentFiber (wkr s) \<noteq> Some f" "g \<noteq> f" using assms(2,4) by (auto simp: executing_def)
  obtain w' where w': "add f prio (upd_fiber f wakeup (wkr s)) = Some w'" "winv w'"
      "m_runnableQueue w' = (if prio then f # m_runnableQueue (wkr s) else m_runnableQueue (wkr s) @ [f])"
      "m_suspendedQueue w' = m_suspendedQueue (wkr s)" "st w' f = Ready"
      "\<forall>h. h \<noteq> f \<longrightarrow> m_fibers w' h = m_fibers (wkr s) h" "m_currentFiber w' = m_currentFiber (wkr s)"
      "m_workerFiber w' = m_workerFiber (wkr s)" "m_disableContextSwitch w' = m_disableContextSwitch (wkr s)"
      "m_end w' = m_end (wkr s)"
    using add_woken[OF w assms(2) l(1) c(1), of prio] by blast
  have lk: "linked w' h \<longleftrightarrow> h = f \<or> linked (wkr s) h" for h using w'(3,4) by (auto simp: linked_def)
  have "parked_ok (s\<lparr>wkr := w'\<rparr>)" using p lk w'(6) l(2) by (simp add: parked_ok_def) metis
  then show ?thesis using w' assms(4) c(2) by (simp add: sync_wakeup_def sys_inv_def executing_def same_rest_def)
qed

text \<open>What of the system stays while the waiter works.\<close>

definition same_worker :: "sys \<Rightarrow> sys \<Rightarrow> bool" where
  "same_worker s s' \<longleftrightarrow> waiter_fiber s' = waiter_fiber s
     \<and> m_suspendedQueue (wkr s') = m_suspendedQueue (wkr s) \<and> m_workerFiber (wkr s') = m_workerFiber (wkr s)
     \<and> m_end (wkr s') = m_end (wkr s) \<and> m_disableContextSwitch (wkr s') = m_disableContextSwitch (wkr s)"

lemma same_worker_refl [simp]: "same_worker s s"
  by (simp add: same_worker_def)

lemma same_worker_trans: "same_worker s t \<Longrightarrow> same_worker t u \<Longrightarrow> same_worker s u"
  by (simp add: same_worker_def)

lemma sync_inv_worker:
  "sync_inv s \<Longrightarrow> sys_inv s' \<Longrightarrow> same_worker s s' \<Longrightarrow> executing g s' \<Longrightarrow> sync_inv s'"
  by (simp add: sync_inv_def same_worker_def contextSwitchEnabled_def worker_started_def executing_def)

lemma sys_frame [simp]:
  "sys_inv (s\<lparr>waiting := q\<rparr>) = sys_inv s" "executing g (s\<lparr>waiting := q\<rparr>) = executing g s"
  "is_linked (s\<lparr>waiting := q\<rparr>) f = is_linked s f" "is_ready (s\<lparr>waiting := q\<rparr>) f = is_ready s f"
  "same_worker s (s\<lparr>waiting := q\<rparr>)"
  "sys_inv (upd_waitable a u s) = sys_inv s" "executing g (upd_waitable a u s) = executing g s"
  "is_linked (upd_waitable a u s) f = is_linked s f" "is_ready (upd_waitable a u s) f = is_ready s f"
  "same_worker s (upd_waitable a u s)" "queues (upd_waitable a u s) = queues s" "wkr (upd_waitable a u s) = wkr s"
  "waiting (upd_waitable a u s) = waiting s" "waiter_fiber (upd_waitable a u s) = waiter_fiber s"
  "waitables (upd_waitable a u s) b = (if b = a then u (waitables s a) else waitables s b)"
  by (simp_all add: sys_inv_def parked_ok_def executing_def is_linked_def is_ready_def same_worker_def upd_waitable_def)

lemma waiter_inv_keep:
  assumes "waiter_inv s xs" "sl_inv (tkey s) (waiting s') xs" "\<forall>b \<in> set xs. waitables s' b = waitables s b"
    "\<forall>b \<in> set xs. \<forall>f. w_fiber (waitables s b) = Some f \<longrightarrow> st (wkr s') f = st (wkr s) f \<and> is_linked s' f = is_linked s f"
  shows "waiter_inv s' xs"
  using assms sl_inv_cong[of xs "tkey s" "tkey s'" "waiting s'"] by (simp add: waiter_inv_def)

lemma waiter_erase_ok:
  assumes "waiter_inv s (a # xs)"
  shows "\<exists>q. waiter_erase a s = Some (s\<lparr>waiting := q\<rparr>) \<and> waiter_inv (s\<lparr>waiting := q\<rparr>) xs \<and> a \<notin> set xs"
proof -
  have i: "sl_inv (tkey s) (waiting s) (a # xs)" "length (a # xs) < 2 ^ 64" using assms unfolding waiter_inv_def by blast+
  have d: "a \<notin> set xs" using sl.in_order[OF i(1)] by simp
  obtain q where q: "sl_erase (tkey s) a (waiting s) = Some q" "sl_inv (tkey s) q xs"
    using sl_erase_ok[OF i(1), of a] i(2) by auto
  have "waiter_inv (s\<lparr>waiting := q\<rparr>) xs" using assms q(2) i(2) by (simp add: waiter_inv_def)
  then show ?thesis using q(1) d by (intro exI[of _ q]) (simp add: waiter_erase_def)
qed

lemma waiter_insert_ok:
  assumes "waiter_inv s xs" "a \<notin> set xs" "Suc (length xs) < 2 ^ 64" "waitable_ok (waitables s a)"
    "\<forall>f. w_fiber (waitables s a) = Some f \<longrightarrow> st (wkr s) f = Waiting \<and> \<not> is_linked s f"
    "\<forall>b \<in> set xs. \<forall>f. sleeper (waitables s a) = Some f \<longrightarrow> sleeper (waitables s b) \<noteq> Some f"
  shows "\<exists>q ys. waiter_insert a s = Some (s\<lparr>waiting := q\<rparr>) \<and> waiter_inv (s\<lparr>waiting := q\<rparr>) ys \<and> set ys = insert a (set xs)
    \<and> length ys = Suc (length xs)"
proof -
  have i: "sl_inv (tkey s) (waiting s) xs" using assms(1) unfolding waiter_inv_def by blast
  obtain q as bs where q: "sl_insert (tkey s) a (waiting s) = Some q" "xs = as @ bs" "sl_inv (tkey s) q (as @ a # bs)"
    using sl.insert_law[OF i assms(2)] assms(3) by auto
  let ?ys = "as @ a # bs"
  have s: "set ?ys = insert a (set xs)" "length ?ys = Suc (length xs)" using q(2) by auto
  have "waiter_inv (s\<lparr>waiting := q\<rparr>) ?ys"
    unfolding waiter_inv_def s using assms q(3) by (simp add: waiter_inv_def) metis
  then show ?thesis using q(1) s by (intro exI[of _ q] exI[of _ ?ys]) (simp add: waiter_insert_def)
qed

subsection \<open>Waking what is due\<close>

text \<open>Which object stays in the list after its poll, and whom its poll wakes.\<close>

definition keeps :: "(addr \<Rightarrow> bool) \<Rightarrow> addr \<Rightarrow> waitable \<Rightarrow> bool" where
  "keeps pf a w \<longleftrightarrow> (case w_kind w of Polled _ \<Rightarrow> \<not> pf a | _ \<Rightarrow> False)"

definition woken_by :: "waitable \<Rightarrow> sys \<Rightarrow> fid set" where
  "woken_by w s = (case w_kind w of
     Alarm k f \<Rightarrow> (if f \<in> set (queues s k) then {f} else {})
   | _ \<Rightarrow> set_option (w_fiber w))"

definition woke :: "(addr \<Rightarrow> bool) \<Rightarrow> timespec \<Rightarrow> addr \<Rightarrow> sys \<Rightarrow> sys \<Rightarrow> bool" where
  "woke pf now a s s' \<longleftrightarrow> (let w = waitables s a in
     (\<forall>b. b \<noteq> a \<longrightarrow> waitables s' b = waitables s b)
     \<and> w_kind (waitables s' a) = w_kind w \<and> w_fiber (waitables s' a) = w_fiber w
     \<and> (keeps pf a w \<longrightarrow> now \<le> w_timeout (waitables s' a))
     \<and> (\<forall>k f. w_kind w = Alarm k f \<longrightarrow> w_rang (waitables s' a) = (f \<in> set (queues s k)))
     \<and> (\<forall>k f. f \<in> set (queues s' k) \<longleftrightarrow> f \<in> set (queues s k) \<and> w_kind w \<noteq> Alarm k f)
     \<and> (\<forall>h. is_ready s' h \<longleftrightarrow> is_ready s h \<or> \<not> keeps pf a w \<and> h \<in> woken_by w s))"

lemma nap_waiting: "st w f = Waiting \<Longrightarrow> upd_fiber f (nap t) w = w"
  by (simp add: upd_fiber_def nap_def fun_upd_idem)

lemma nap_debug:
  "\<forall>f. w_fiber w = Some f \<longrightarrow> st (wkr s) f = Waiting \<Longrightarrow>
    (case w_fiber w of Some f \<Rightarrow> if dbg then s\<lparr>wkr := upd_fiber f (nap (w_timeout w)) (wkr s)\<rparr> else s | None \<Rightarrow> s) = s"
  by (auto simp: nap_waiting split: option.splits)

lemma wake_one_fiber:
  assumes "waiter_inv s (a # xs)" "sys_inv s" "executing g s" "w_timeout (waitables s a) < now"
    "\<not> keeps pf a (waitables s a)" "alarm_for (waitables s a) = None"
  shows "\<exists>s'. wake_one pf dbg now a s = Some s' \<and> sys_inv s' \<and> executing g s' \<and> same_worker s s' \<and> waiter_inv s' xs
    \<and> woke pf now a s s'"
proof -
  let ?w = "waitables s a"
  obtain q where q: "waiter_erase a s = Some (s\<lparr>waiting := q\<rparr>)" "waiter_inv (s\<lparr>waiting := q\<rparr>) xs" "a \<notin> set xs"
    using waiter_erase_ok[OF assms(1)] by blast
  let ?s0 = "s\<lparr>waiting := q\<rparr>"
  have k: "\<forall>k f. w_kind ?w \<noteq> Alarm k f" using assms(6) by (auto simp: alarm_for_def)
  have p: "poll pf now a ?s0 = Some (True, ?s0)"
    using assms(4,5) k by (cases "w_kind ?w") (auto simp: poll_def timed_poll_def keeps_def)
  have wb: "woken_by ?w s = set_option (w_fiber ?w)" using k by (auto simp: woken_by_def split: wkind.splits)
  show ?thesis
  proof (cases "w_fiber ?w")
    case None
    then have "wake_one pf dbg now a s = Some ?s0" using q(1) p by (simp add: wake_one_def)
    then show ?thesis using assms q None k wb by (auto simp: woke_def)
  next
    case (Some f)
    have f: "st (wkr s) f = Waiting" "\<not> is_linked s f" using assms(1) Some unfolding waiter_inv_def by auto
    have sl: "sleeper ?w = Some f" using Some k by (auto simp: sleeper_def split: wkind.splits)
    obtain s' where s': "sync_wakeup f True ?s0 = Some s'" "sys_inv s'" "queues s' = queues s" "executing g s'"
        "same_rest ?s0 s'" "m_runnableQueue (wkr s') = f # m_runnableQueue (wkr s)" "st (wkr s') f = Ready"
        "\<forall>h. h \<noteq> f \<longrightarrow> m_fibers (wkr s') h = m_fibers (wkr s) h"
      using wake_sleeping[of ?s0 f g True] assms(2,3) f by auto
    have other: "f' \<noteq> f" if "b \<in> set xs" "w_fiber (waitables s b) = Some f'" for b f'
    proof
      assume "f' = f"
      then have "sleeper (waitables s b) = Some f"
        using that assms(1) unfolding waiter_inv_def by (auto simp: waitable_ok_def sleeper_def split: wkind.splits)
      then have "a = b" using sl that(1) assms(1) unfolding waiter_inv_def by auto
      then show False using that(1) q(3) by simp
    qed
    have l: "is_linked s' h \<longleftrightarrow> h = f \<or> is_linked s h" for h
      using s'(3,5,6) by (auto simp: is_linked_def linked_def same_rest_def)
    have "waiter_inv s' xs"
      by (rule waiter_inv_keep[OF q(2)]) (use q(2) s'(5,8) l other in \<open>auto simp: same_rest_def waiter_inv_def\<close>)
    moreover have "is_ready s' h \<longleftrightarrow> is_ready s h \<or> h = f" for h
      using s'(6,7,8) by (cases "h = f") (auto simp: is_ready_def)
    moreover have "wake_one pf dbg now a s = Some s'" using q(1) p Some s'(1) by (simp add: wake_one_def)
    ultimately show ?thesis
      using s' Some wb k assms(5) by (auto simp: woke_def same_worker_def same_rest_def Let_def)
  qed
qed

lemma wake_one_alarm:
  assumes "waiter_inv s (a # xs)" "sys_inv s" "executing g s" "w_timeout (waitables s a) < now"
    "w_kind (waitables s a) = Alarm k f"
  shows "\<exists>s'. wake_one pf dbg now a s = Some s' \<and> sys_inv s' \<and> executing g s' \<and> same_worker s s' \<and> waiter_inv s' xs
    \<and> woke pf now a s s'"
proof -
  let ?w = "waitables s a"
  obtain q where q: "waiter_erase a s = Some (s\<lparr>waiting := q\<rparr>)" "waiter_inv (s\<lparr>waiting := q\<rparr>) xs" "a \<notin> set xs"
    using waiter_erase_ok[OF assms(1)] by blast
  let ?s0 = "s\<lparr>waiting := q\<rparr>"
  have nf: "w_fiber ?w = None" using assms(1,5) unfolding waiter_inv_def by (auto simp: waitable_ok_def)
  have nk: "\<not> keeps pf a ?w" using assms(5) by (simp add: keeps_def)
  show ?thesis
  proof (cases "f \<in> set (queues s k)")
    case False
    let ?s' = "upd_waitable a (\<lambda>w. w\<lparr>w_rang := False\<rparr>) ?s0"
    have "wake_one pf dbg now a s = Some ?s'"
      using q(1) assms(4,5) False nf by (simp add: wake_one_def poll_def timed_poll_def unblock_def less_imp_le)
    moreover have "waiter_inv ?s' xs"
      by (rule waiter_inv_keep[OF q(2)]) (use q(2,3) in \<open>auto simp: waiter_inv_def\<close>)
    ultimately show ?thesis
      using assms False nk by (auto simp: woke_def woken_by_def same_worker_def)
  next
    case True
    obtain s1 where s1: "unblock f k False ?s0 = Some (True, s1)" "sys_inv s1"
        "queues s1 = (queues s)(k := remove1 f (queues s k))" "executing g s1" "same_rest ?s0 s1"
        "m_runnableQueue (wkr s1) = m_runnableQueue (wkr s) @ [f]" "st (wkr s1) f = Ready"
        "\<forall>h. h \<noteq> f \<longrightarrow> m_fibers (wkr s1) h = m_fibers (wkr s) h"
      using unblock_ok[of ?s0 f k g False] assms(2,3) True by auto
    let ?s' = "upd_waitable a (\<lambda>w. w\<lparr>w_rang := True\<rparr>) s1"
    have nf1: "w_fiber (waitables s1 a) = None" using nf s1(5) by (simp add: same_rest_def)
    have 1: "wake_one pf dbg now a s = Some ?s'"
      using q(1) assms(4,5) nf1 s1(1) by (simp add: wake_one_def poll_def timed_poll_def less_imp_le)
    have qs: "distinct (queues s k)" "\<And>l. f \<in> set (queues s l) \<longleftrightarrow> l = k"
      using assms(2) True by (auto simp: sys_inv_def parked_ok_def)
    have qi: "h \<in> set (queues s1 l) \<longleftrightarrow> h \<in> set (queues s l) \<and> \<not> (l = k \<and> h = f)" for h l using s1(3) qs by auto
    have l: "is_linked s1 h \<longleftrightarrow> is_linked s h" if "h \<noteq> f" for h
      using qi s1(5,6) that by (auto simp: is_linked_def linked_def same_rest_def)
    have fl: "is_linked s f" using True by (auto simp: is_linked_def)
    have other: "f' \<noteq> f" if "b \<in> set xs" "w_fiber (waitables s b) = Some f'" for b f'
      using that assms(1) fl unfolding waiter_inv_def by auto
    have 2: "waiter_inv ?s' xs"
      by (rule waiter_inv_keep[OF q(2)]) (use q(2,3) s1(5,8) l other in \<open>auto simp: same_rest_def waiter_inv_def\<close>)
    have "is_ready s1 h \<longleftrightarrow> is_ready s h \<or> h = f" for h
      using s1(6,7,8) by (cases "h = f") (auto simp: is_ready_def)
    then have "woke pf now a s ?s'"
      using assms(5) True nk s1(5) nf nf1 qi by (auto simp: woke_def woken_by_def same_rest_def)
    then show ?thesis using 1 2 s1 by (auto simp: same_worker_def same_rest_def)
  qed
qed

lemma wake_one_keeps:
  assumes "waiter_inv s (a # xs)" "sys_inv s" "executing g s" "tv_sec now \<le> TIME_MAX" "keeps pf a (waitables s a)"
  shows "\<exists>s' ys. wake_one pf dbg now a s = Some s' \<and> sys_inv s' \<and> executing g s' \<and> same_worker s s' \<and> waiter_inv s' ys
    \<and> set ys = insert a (set xs) \<and> woke pf now a s s'"
proof -
  let ?w = "waitables s a"
  obtain q where q: "waiter_erase a s = Some (s\<lparr>waiting := q\<rparr>)" "waiter_inv (s\<lparr>waiting := q\<rparr>) xs" "a \<notin> set xs"
    using waiter_erase_ok[OF assms(1)] by blast
  let ?s0 = "s\<lparr>waiting := q\<rparr>"
  obtain iv where iv: "w_kind ?w = Polled iv" "\<not> pf a" using assms(5) by (auto simp: keeps_def split: wkind.splits)
  have ok: "waitable_ok ?w" "Suc (length xs) < 2 ^ 64"
      "\<forall>f. w_fiber ?w = Some f \<longrightarrow> st (wkr s) f = Waiting \<and> \<not> is_linked s f"
    and u: "\<forall>b \<in> set xs. \<forall>f. sleeper ?w = Some f \<longrightarrow> sleeper (waitables s b) \<noteq> Some f"
    using assms(1) q(3) unfolding waiter_inv_def by auto
  obtain t where t: "polled_next iv now ?w = Some (?w\<lparr>w_timeout := t\<rparr>)" "now \<le> t" "tv_sec t \<le> TIME_MAX"
    using polled_next_ok[OF ok(1) iv(1) assms(4)] by blast
  let ?s1 = "upd_waitable a (\<lambda>_. ?w\<lparr>w_timeout := t\<rparr>) ?s0"
  have p: "poll pf now a ?s0 = Some (False, ?s1)" using iv t(1) by (simp add: poll_def)
  have i1: "waiter_inv ?s1 xs"
    by (rule waiter_inv_keep[OF q(2)]) (use q(2,3) in \<open>auto simp: waiter_inv_def\<close>)
  have "waitable_ok (waitables ?s1 a)" using ok(1) t(3) iv by (simp add: waitable_ok_def)
  moreover have "sleeper (?w\<lparr>w_timeout := t\<rparr>) = sleeper ?w" by (simp add: sleeper_def split: wkind.splits)
  moreover have "\<forall>b \<in> set xs. waitables ?s1 b = waitables s b" using q(3) by auto
  ultimately obtain q' ys where q': "waiter_insert a ?s1 = Some (?s1\<lparr>waiting := q'\<rparr>)" "waiter_inv (?s1\<lparr>waiting := q'\<rparr>) ys"
      "set ys = insert a (set xs)"
    using waiter_insert_ok[OF i1 q(3) ok(2)] ok(3) u by auto
  let ?s' = "?s1\<lparr>waiting := q'\<rparr>"
  have d: "(case w_fiber (waitables ?s1 a) of
      Some f \<Rightarrow> if dbg then ?s'\<lparr>wkr := upd_fiber f (nap (w_timeout (waitables ?s1 a))) (wkr ?s')\<rparr> else ?s' | None \<Rightarrow> ?s') = ?s'"
    by (rule nap_debug) (use ok(3) in simp)
  have "wake_one pf dbg now a s = Some ?s'"
    by (simp only: wake_one_def q(1) p q'(1) bind.simps prod.case Let_def if_False d)
  moreover have "same_worker s ?s'" by (simp add: same_worker_def upd_waitable_def)
  moreover have "woke pf now a s ?s'" using assms(5) iv t(2) by (simp add: woke_def Let_def)
  moreover have "sys_inv ?s'" "executing g ?s'" using assms(2,3) by simp_all
  ultimately show ?thesis using q'(2,3) by blast
qed

lemma wake_one_ok:
  assumes "waiter_inv s (a # xs)" "sys_inv s" "executing g s" "w_timeout (waitables s a) < now" "tv_sec now \<le> TIME_MAX"
  shows "\<exists>s' ys. wake_one pf dbg now a s = Some s' \<and> sys_inv s' \<and> executing g s' \<and> same_worker s s' \<and> waiter_inv s' ys
    \<and> set ys = (if keeps pf a (waitables s a) then insert a (set xs) else set xs) \<and> woke pf now a s s'"
proof (cases "keeps pf a (waitables s a)")
  case True
  then show ?thesis using wake_one_keeps[OF assms(1-3,5) True] by auto
next
  case False
  then show ?thesis
    using wake_one_fiber[OF assms(1-4) False, of dbg] wake_one_alarm[OF assms(1-4), of _ _ pf dbg]
    by (cases "w_kind (waitables s a)") (auto simp: alarm_for_def)
qed

text \<open>The result of the loop, for every object of the list.\<close>

definition swept :: "(addr \<Rightarrow> bool) \<Rightarrow> timespec \<Rightarrow> addr set \<Rightarrow> sys \<Rightarrow> addr set \<Rightarrow> sys \<Rightarrow> bool" where
  "swept pf now A s B s' \<longleftrightarrow>
     B = {a \<in> A. \<not> w_timeout (waitables s a) < now \<or> keeps pf a (waitables s a)}
     \<and> (\<forall>a. a \<notin> A \<or> \<not> w_timeout (waitables s a) < now \<longrightarrow> waitables s' a = waitables s a)
     \<and> (\<forall>a \<in> B. now \<le> w_timeout (waitables s' a))
     \<and> (\<forall>a \<in> A. \<forall>k f. w_timeout (waitables s a) < now \<and> w_kind (waitables s a) = Alarm k f \<longrightarrow>
         w_rang (waitables s' a) = (f \<in> set (queues s k)))
     \<and> (\<forall>h. is_ready s' h \<longleftrightarrow> is_ready s h \<or> (\<exists>a \<in> A. w_timeout (waitables s a) < now
         \<and> \<not> keeps pf a (waitables s a) \<and> h \<in> woken_by (waitables s a) s))"

lemma swept_nothing: "\<forall>a \<in> A. now \<le> w_timeout (waitables s a) \<Longrightarrow> swept pf now A s A s"
  unfolding swept_def by (auto simp: not_less[symmetric])

text \<open>Waking one object leaves the others' part in the result as it is.\<close>

lemma woken_by_other:
  assumes "woke pf now a s s1" "waiter_inv s (a # xs)" "b \<in> set xs" "b \<noteq> a"
  shows "woken_by (waitables s1 b) s1 = woken_by (waitables s b) s"
    "w_kind (waitables s b) = Alarm k f \<Longrightarrow> f \<in> set (queues s1 k) \<longleftrightarrow> f \<in> set (queues s k)"
proof -
  have b: "waitables s1 b = waitables s b" using assms(1,4) by (simp add: woke_def Let_def)
  have q: "f \<in> set (queues s1 k) \<longleftrightarrow> f \<in> set (queues s k)" if k: "w_kind (waitables s b) = Alarm k f" for k f
  proof -
    have "w_kind (waitables s a) \<noteq> Alarm k f"
    proof
      assume "w_kind (waitables s a) = Alarm k f"
      then have "sleeper (waitables s a) = Some f" "sleeper (waitables s b) = Some f" using k by (simp_all add: sleeper_def)
      then show False using assms(2,3,4) unfolding waiter_inv_def by auto
    qed
    then show ?thesis using assms(1) by (simp add: woke_def Let_def)
  qed
  then show "w_kind (waitables s b) = Alarm k f \<Longrightarrow> f \<in> set (queues s1 k) \<longleftrightarrow> f \<in> set (queues s k)" .
  show "woken_by (waitables s1 b) s1 = woken_by (waitables s b) s"
    using b q by (auto simp: woken_by_def split: wkind.splits)
qed

lemma swept_step:
  assumes "waiter_inv s (a # xs)" "a \<notin> set xs" "w_timeout (waitables s a) < now" "woke pf now a s s1"
    "set ys = (if keeps pf a (waitables s a) then insert a (set xs) else set xs)" "swept pf now (set ys) s1 B s'"
  shows "swept pf now (set (a # xs)) s B s'"
proof -
  let ?w = "waitables s a" and ?w1 = "waitables s1 a"
  have w: "\<And>b. b \<noteq> a \<Longrightarrow> waitables s1 b = waitables s b" "w_kind ?w1 = w_kind ?w"
      "keeps pf a ?w \<Longrightarrow> \<not> w_timeout ?w1 < now"
      "\<And>k f. w_kind ?w = Alarm k f \<Longrightarrow> w_rang ?w1 = (f \<in> set (queues s k))"
      "\<And>h. is_ready s1 h \<longleftrightarrow> is_ready s h \<or> \<not> keeps pf a ?w \<and> h \<in> woken_by ?w s"
    using assms(4) by (auto simp: woke_def Let_def not_less)
  have kk: "keeps pf a ?w1 = keeps pf a ?w" using w(2) by (simp add: keeps_def)
  have nb: "b \<noteq> a" if "b \<in> set xs" for b using that assms(2) by auto
  have x: "\<And>b. b \<in> set xs \<Longrightarrow> waitables s1 b = waitables s b" using w(1) nb by blast
  note wb = woken_by_other[OF assms(4,1)]
  have sw: "B = {b \<in> set ys. \<not> w_timeout (waitables s1 b) < now \<or> keeps pf b (waitables s1 b)}"
      "\<And>b. b \<notin> set ys \<or> \<not> w_timeout (waitables s1 b) < now \<Longrightarrow> waitables s' b = waitables s1 b"
      "\<And>b. b \<in> B \<Longrightarrow> now \<le> w_timeout (waitables s' b)"
      "\<And>b k f. b \<in> set ys \<Longrightarrow> w_timeout (waitables s1 b) < now \<Longrightarrow> w_kind (waitables s1 b) = Alarm k f \<Longrightarrow>
         w_rang (waitables s' b) = (f \<in> set (queues s1 k))"
      "\<And>h. is_ready s' h \<longleftrightarrow> is_ready s1 h \<or> (\<exists>b \<in> set ys. w_timeout (waitables s1 b) < now
         \<and> \<not> keeps pf b (waitables s1 b) \<and> h \<in> woken_by (waitables s1 b) s1)"
    using assms(6) unfolding swept_def by blast+
  have "B = {b \<in> set (a # xs). \<not> w_timeout (waitables s b) < now \<or> keeps pf b (waitables s b)}"
    unfolding sw(1) using assms(3,5) x w(3) kk by auto
  moreover have "waitables s' b = waitables s b" if "b \<notin> set (a # xs) \<or> \<not> w_timeout (waitables s b) < now" for b
    using that assms(3,5) x w(1) sw(2)[of b] by (cases "b = a"; cases "b \<in> set xs") auto
  moreover have "w_rang (waitables s' b) = (f \<in> set (queues s k))"
    if b: "b \<in> set (a # xs)" "w_timeout (waitables s b) < now" "w_kind (waitables s b) = Alarm k f" for b k f
  proof (cases "b = a")
    case True
    then have "\<not> keeps pf a ?w" using b(3) by (simp add: keeps_def)
    then have "waitables s' a = ?w1" using sw(2)[of a] assms(2,5) by simp
    then show ?thesis using w(4) b True by simp
  next
    case False
    then have "b \<in> set xs" "b \<in> set ys" using b assms(5) by auto
    then show ?thesis using sw(4)[of b k f] x[of b] b wb(2)[of b k f] False by auto
  qed
  moreover have "is_ready s' h \<longleftrightarrow> is_ready s h \<or> (\<exists>b \<in> set (a # xs). w_timeout (waitables s b) < now
      \<and> \<not> keeps pf b (waitables s b) \<and> h \<in> woken_by (waitables s b) s)" (is "_ \<longleftrightarrow> _ \<or> ?E") for h
  proof -
    let ?P = "\<lambda>b. w_timeout (waitables s1 b) < now \<and> \<not> keeps pf b (waitables s1 b) \<and> h \<in> woken_by (waitables s1 b) s1"
    let ?Q = "\<lambda>b. w_timeout (waitables s b) < now \<and> \<not> keeps pf b (waitables s b) \<and> h \<in> woken_by (waitables s b) s"
    have "?P b \<longleftrightarrow> ?Q b" if "b \<in> set xs" for b using wb(1)[of b] x[of b] nb[of b] that by simp
    then have "(\<exists>b \<in> set ys. ?P b) \<longleftrightarrow> (\<exists>b \<in> set xs. ?Q b)" using assms(5) kk by auto
    then show ?thesis using sw(5) w(5) assms(3) by auto
  qed
  ultimately show ?thesis using sw(3) unfolding swept_def by blast
qed

text \<open>Every round of the loop reduces the number of objects that are due.\<close>

definition due :: "timespec \<Rightarrow> sys \<Rightarrow> addr list \<Rightarrow> nat" where
  "due now s xs = card {a \<in> set xs. w_timeout (waitables s a) < now}"

lemma due_less:
  assumes "a \<notin> set xs" "w_timeout (waitables s a) < now" "woke pf now a s s1"
    "set ys = (if keeps pf a (waitables s a) then insert a (set xs) else set xs)"
  shows "due now s1 ys < due now s (a # xs)"
proof -
  have "waitables s1 b = waitables s b" if "b \<in> set xs" for b using that assms(1,3) by (auto simp: woke_def Let_def)
  moreover have "keeps pf a (waitables s a) \<Longrightarrow> \<not> w_timeout (waitables s1 a) < now"
    using assms(3) by (auto simp: woke_def Let_def not_less)
  ultimately have "{b \<in> set ys. w_timeout (waitables s1 b) < now} = {b \<in> set xs. w_timeout (waitables s b) < now}"
    using assms(4) by auto
  moreover have "{b \<in> set (a # xs). w_timeout (waitables s b) < now} = insert a {b \<in> set xs. w_timeout (waitables s b) < now}"
    using assms(2) by auto
  ultimately show ?thesis using assms(1) by (simp add: due_def)
qed

lemma wake_expired_ok:
  assumes "waiter_inv s xs" "sys_inv s" "executing g s" "tv_sec now \<le> TIME_MAX"
  shows "\<exists>s' ys. wake_expired pf dbg now s = Some s' \<and> sys_inv s' \<and> executing g s' \<and> same_worker s s' \<and> waiter_inv s' ys
    \<and> swept pf now (set xs) s (set ys) s'"
  using assms
proof (induction "due now s xs" arbitrary: s xs rule: less_induct)
  case less
  have i: "sl_inv (tkey s) (waiting s) xs" using less.prems(1) unfolding waiter_inv_def by blast
  show ?case
  proof (cases xs)
    case Nil
    then show ?thesis using sl.empty_law[OF i] less.prems
      by (subst wake_expired.simps) (auto intro!: exI[of _ "[]"] swept_nothing)
  next
    case (Cons a zs)
    have e: "sl_empty (waiting s) = Some False" "sl_front (waiting s) = Some a"
      using sl.empty_law[OF i] sl.front_law[OF i] Cons by simp_all
    show ?thesis
    proof (cases "w_timeout (waitables s a) < now")
      case False
      have "\<forall>b \<in> set xs. now \<le> w_timeout (waitables s b)"
        using sl.in_order[OF i] Cons False by (auto simp: lt_def)
      then have "swept pf now (set xs) s (set xs) s" by (rule swept_nothing)
      moreover have "wake_expired pf dbg now s = Some s" using e False by (subst wake_expired.simps) simp
      ultimately show ?thesis using less.prems by (intro exI[of _ s] exI[of _ xs]) simp
    next
      case True
      have az: "a \<notin> set zs" using sl.in_order[OF i] Cons by simp
      obtain s1 ys where s1: "wake_one pf dbg now a s = Some s1" "sys_inv s1" "executing g s1" "same_worker s s1"
          "waiter_inv s1 ys" "set ys = (if keeps pf a (waitables s a) then insert a (set zs) else set zs)" "woke pf now a s s1"
        using wake_one_ok[OF _ less.prems(2,3) True less.prems(4), of zs pf dbg] less.prems(1) Cons by blast
      obtain s' zs' where s': "wake_expired pf dbg now s1 = Some s'" "sys_inv s'" "executing g s'" "same_worker s1 s'"
          "waiter_inv s' zs'" "swept pf now (set ys) s1 (set zs') s'"
        using less.hyps[OF _ s1(5,2,3) less.prems(4)] due_less[OF az True s1(7,6)] Cons by blast
      have "swept pf now (set xs) s (set zs') s'"
        using swept_step[OF _ az True s1(7,6) s'(6)] less.prems(1) Cons by simp
      moreover have "wake_expired pf dbg now s = Some s'"
        using e True s1(1) s'(1) by (subst wake_expired.simps) simp
      ultimately show ?thesis using s' same_worker_trans[OF s1(4) s'(4)] by blast
    qed
  qed
qed

subsection \<open>Going to sleep\<close>

text \<open>The waiter's own fiber, once it exists, is runnable or suspended.\<close>

definition waiter_present :: "sys \<Rightarrow> bool" where
  "waiter_present s \<longleftrightarrow> (\<forall>f. waiter_fiber s = Some f \<longrightarrow> linked (wkr s) f \<and> m_currentFiber (wkr s) \<noteq> Some f)"

lemma worker_resume_rest:
  "worker_resume f w = Some w' \<Longrightarrow> m_end w' = m_end w \<and> m_disableContextSwitch w' = m_disableContextSwitch w
    \<and> (\<forall>g. g \<noteq> f \<longrightarrow> m_fibers w' g = m_fibers w g)"
  by (auto simp: worker_resume_def release_def add_def upd_fiber_def split: if_splits bind_splits)

text \<open>Resuming the waiter puts it in the run queue and changes no other fiber.\<close>

lemma waiter_resume_ok:
  assumes "sys_inv s" "waiter_present s"
  shows "\<exists>w. waiter_resume s = Some (s\<lparr>wkr := w\<rparr>) \<and> sys_inv (s\<lparr>wkr := w\<rparr>)
    \<and> (\<forall>f. waiter_fiber s = Some f \<longrightarrow> f \<in> set (m_runnableQueue w))
    \<and> (\<forall>f. linked w f \<longleftrightarrow> linked (wkr s) f) \<and> (\<forall>f. st (wkr s) f \<noteq> Suspended \<longrightarrow> m_fibers w f = m_fibers (wkr s) f)
    \<and> (waiter_fiber s = None \<longrightarrow> m_runnableQueue w = m_runnableQueue (wkr s))
    \<and> m_currentFiber w = m_currentFiber (wkr s) \<and> m_end w = m_end (wkr s)
    \<and> m_workerFiber w = m_workerFiber (wkr s) \<and> m_disableContextSwitch w = m_disableContextSwitch (wkr s)"
proof (cases "waiter_fiber s")
  case None
  then show ?thesis using assms(1) by (intro exI[of _ "wkr s"]) (simp add: waiter_resume_def)
next
  case (Some f)
  have i: "winv (wkr s)" "linked (wkr s) f" "m_currentFiber (wkr s) \<noteq> Some f" "parked_ok s"
    using assms Some by (auto simp: sys_inv_def waiter_present_def)
  show ?thesis
  proof (cases "f \<in> set (m_suspendedQueue (wkr s))")
    case True
    obtain w where w: "worker_resume f (wkr s) = Some w" "winv w" "m_runnableQueue w = m_runnableQueue (wkr s) @ [f]"
        "m_suspendedQueue w = remove1 f (m_suspendedQueue (wkr s))" "m_currentFiber w = m_currentFiber (wkr s)"
        "m_workerFiber w = m_workerFiber (wkr s)"
      using resume_ok[OF i(1) True i(3)] by blast
    have d: "distinct (m_suspendedQueue (wkr s))" "st (wkr s) f = Suspended"
      using i(1) True by (auto simp: winv_def queues_ok_def)
    have l: "linked w h \<longleftrightarrow> linked (wkr s) h" for h using w(3,4) d True by (auto simp: linked_def)
    have p: "m_fibers w h = m_fibers (wkr s) h" if "st (wkr s) h \<noteq> Suspended" for h
      using worker_resume_rest[OF w(1)] that d by metis
    have "parked_ok (s\<lparr>wkr := w\<rparr>)" using i(4) l p by (simp add: parked_ok_def)
    then show ?thesis
      using w Some l p worker_resume_rest[OF w(1)] by (intro exI[of _ w]) (auto simp: waiter_resume_def sys_inv_def)
  next
    case False
    then have q: "f \<in> set (m_runnableQueue (wkr s))" using i(2) by (simp add: linked_def)
    then have "st (wkr s) f \<noteq> Suspended" using i(1) by (auto simp: winv_def queues_ok_def)
    then show ?thesis
      using Some q assms(1) by (intro exI[of _ "wkr s"]) (simp add: waiter_resume_def worker_resume_def)
  qed
qed

text \<open>Leaving the run queue to sleep.\<close>

lemma doze_ok:
  assumes "sys_inv s" "executing f s"
  shows "\<exists>w. release f (upd_fiber f (nap t) (wkr s)) = Some w \<and> sys_inv (s\<lparr>wkr := w\<rparr>)
    \<and> m_runnableQueue w = remove1 f (m_runnableQueue (wkr s)) \<and> m_suspendedQueue w = m_suspendedQueue (wkr s)
    \<and> st w f = Waiting \<and> \<not> is_linked (s\<lparr>wkr := w\<rparr>) f
    \<and> (\<forall>h. h \<noteq> f \<longrightarrow> m_fibers w h = m_fibers (wkr s) h \<and> is_linked (s\<lparr>wkr := w\<rparr>) h = is_linked s h)
    \<and> m_currentFiber w = Some f \<and> m_end w = m_end (wkr s)
    \<and> m_workerFiber w = m_workerFiber (wkr s) \<and> m_disableContextSwitch w = m_disableContextSwitch (wkr s)"
proof -
  let ?w = "wkr s" and ?x = "m_fibers (wkr s) f"
  have w: "winv ?w" and p: "parked_ok s" and c: "m_currentFiber ?w = Some f" "st ?w f = Running"
    using assms by (auto simp: sys_inv_def executing_def)
  have f: "f \<in> set (m_runnableQueue ?w)" "f \<noteq> m_workerFiber ?w" using current_running_queued[OF w c] .
  have i: "fiber_inv ?x" "\<not> m_negative (m_timeslice ?x)" using w c by (auto simp: winv_def fibers_ok_def)
  note nf = nap_facts[OF i(1) c(2), of t]
  have fs: "f \<notin> set (m_suspendedQueue ?w)" "distinct (m_runnableQueue ?w)"
    using w f by (auto simp: winv_def queues_ok_def)
  have nq: "f \<notin> set (queues s l)" for l using p c by (auto simp: parked_ok_def)
  let ?w' = "?w\<lparr>m_fibers := (m_fibers ?w)(f := nap t ?x), m_runnableQueue := remove1 f (m_runnableQueue ?w)\<rparr>"
  have "fibers_ok ?w'" using w i nf by (simp add: winv_def fibers_ok_def)
  moreover have "queues_ok ?w'" using w fs nf by (auto simp: winv_def queues_ok_def linked_def)
  moreover have "control_ok ?w'" using w c f nf by (auto simp: winv_def control_ok_def)
  ultimately have w': "winv ?w'" by (simp add: winv_def)
  have l: "linked ?w' h \<longleftrightarrow> h \<noteq> f \<and> linked ?w h" for h using fs by (auto simp: linked_def)
  have "parked_ok (s\<lparr>wkr := ?w'\<rparr>)" using p nq l nf by (auto simp: parked_ok_def)
  then have "sys_inv (s\<lparr>wkr := ?w'\<rparr>)" using w' by (simp add: sys_inv_def)
  moreover have "release f (upd_fiber f (nap t) (wkr s)) = Some ?w'"
    using f fs nf by (simp add: release_def spec_erase_def upd_fiber_def linked_def)
  ultimately show ?thesis using nf c l nq by (intro exI[of _ ?w']) (simp add: is_linked_def)
qed

lemma waiter_inv_schedule:
  assumes "waiter_inv s xs" "sched_post (wkr s) r w'"
  shows "waiter_inv (s\<lparr>wkr := w'\<rparr>) xs"
  by (rule waiter_inv_keep[OF assms(1)])
    (use assms sched_post_waiting[OF assms(2)] in \<open>auto simp: waiter_inv_def is_linked_def\<close>)

lemma waiter_inv_frame:
  assumes "waiter_inv s xs" "\<forall>f. is_linked s' f = is_linked s f" "waiting s' = waiting s" "waitables s' = waitables s"
    "\<forall>f. st (wkr s) f \<noteq> Suspended \<longrightarrow> m_fibers (wkr s') f = m_fibers (wkr s) f"
  shows "waiter_inv s' xs"
  by (rule waiter_inv_keep[OF assms(1)]) (use assms in \<open>auto simp: waiter_inv_def\<close>)

text \<open>\<^verbatim>\<open>scheduleTask\<close>: the object is in the list and the waiter in the run queue.\<close>

lemma scheduleTask_ok:
  assumes "sys_inv s" "waiter_present s" "waiter_inv s xs" "a \<notin> set xs" "Suc (length xs) < 2 ^ 64"
    "waitable_ok (waitables s a)" "\<forall>f. w_fiber (waitables s a) = Some f \<longrightarrow> st (wkr s) f = Waiting \<and> \<not> is_linked s f"
    "\<forall>b \<in> set xs. \<forall>f. sleeper (waitables s a) = Some f \<longrightarrow> sleeper (waitables s b) \<noteq> Some f"
  shows "\<exists>s' ys. scheduleTask a s = Some s' \<and> sys_inv s' \<and> waiter_inv s' ys \<and> set ys = insert a (set xs)
    \<and> waitables s' = waitables s \<and> queues s' = queues s \<and> waiter_fiber s' = waiter_fiber s
    \<and> (\<forall>g. waiter_fiber s = Some g \<longrightarrow> g \<in> set (m_runnableQueue (wkr s')))
    \<and> (\<forall>h. is_linked s' h = is_linked s h) \<and> (\<forall>h. st (wkr s) h \<noteq> Suspended \<longrightarrow> m_fibers (wkr s') h = m_fibers (wkr s) h)
    \<and> (waiter_fiber s = None \<longrightarrow> m_runnableQueue (wkr s') = m_runnableQueue (wkr s))
    \<and> m_currentFiber (wkr s') = m_currentFiber (wkr s) \<and> m_end (wkr s') = m_end (wkr s)
    \<and> m_workerFiber (wkr s') = m_workerFiber (wkr s) \<and> m_disableContextSwitch (wkr s') = m_disableContextSwitch (wkr s)"
proof -
  obtain q ys where q: "waiter_insert a s = Some (s\<lparr>waiting := q\<rparr>)" "waiter_inv (s\<lparr>waiting := q\<rparr>) ys"
      "set ys = insert a (set xs)"
    using waiter_insert_ok[OF assms(3-8)] by blast
  let ?s = "s\<lparr>waiting := q\<rparr>"
  have "waiter_present ?s" using assms(2) by (simp add: waiter_present_def)
  then obtain w where w: "waiter_resume ?s = Some (?s\<lparr>wkr := w\<rparr>)" "sys_inv (?s\<lparr>wkr := w\<rparr>)"
      "\<forall>g. waiter_fiber ?s = Some g \<longrightarrow> g \<in> set (m_runnableQueue w)"
      "\<forall>h. linked w h \<longleftrightarrow> linked (wkr ?s) h" "\<forall>h. st (wkr ?s) h \<noteq> Suspended \<longrightarrow> m_fibers w h = m_fibers (wkr ?s) h"
      "waiter_fiber ?s = None \<longrightarrow> m_runnableQueue w = m_runnableQueue (wkr ?s)"
      "m_currentFiber w = m_currentFiber (wkr ?s)" "m_end w = m_end (wkr ?s)"
      "m_workerFiber w = m_workerFiber (wkr ?s)" "m_disableContextSwitch w = m_disableContextSwitch (wkr ?s)"
    using waiter_resume_ok[of ?s] assms(1) by auto
  have l: "\<forall>h. is_linked (?s\<lparr>wkr := w\<rparr>) h = is_linked s h" using w(4) by (simp add: is_linked_def)
  have "waiter_inv (?s\<lparr>wkr := w\<rparr>) ys" by (rule waiter_inv_frame[OF q(2)]) (use l w(5) in auto)
  then show ?thesis using q w l by (intro exI[of _ "?s\<lparr>wkr := w\<rparr>"] exI[of _ ys]) (simp add: scheduleTask_def)
qed

lemma waiter_sleep_on_ok:
  assumes "sys_inv s" "executing f s" "waiter_inv s xs" "a \<notin> set xs" "waitable_ok (waitables s a)"
    "alarm_for (waitables s a) = None" "waiter_present s" "Suc (length xs) < 2 ^ 64"
    "\<forall>b \<in> set xs. alarm_for (waitables s b) \<noteq> Some f"
  shows "\<exists>s' ys. waiter_sleep_on a f s = Some s' \<and> sys_inv s' \<and> waiter_inv s' ys \<and> set ys = insert a (set xs)
    \<and> waitables s' = (waitables s)(a := setFiber f (waitables s a)) \<and> queues s' = queues s
    \<and> (\<forall>g. waiter_fiber s = Some g \<longrightarrow> g \<in> set (m_runnableQueue (wkr s')))
    \<and> (waiter_fiber s = None \<longrightarrow> m_runnableQueue (wkr s') = remove1 f (m_runnableQueue (wkr s)))
    \<and> (\<forall>h. h \<noteq> f \<longrightarrow> st (wkr s) h \<noteq> Suspended \<longrightarrow> m_fibers (wkr s') h = m_fibers (wkr s) h)
    \<and> st (wkr s') f = Waiting \<and> \<not> is_linked s' f \<and> m_currentFiber (wkr s') = Some f
    \<and> m_end (wkr s') = m_end (wkr s) \<and> m_disableContextSwitch (wkr s') = m_disableContextSwitch (wkr s)"
proof -
  let ?s1 = "upd_waitable a (setFiber f) s"
  let ?t = "w_timeout (waitables ?s1 a)"
  have s1: "sys_inv ?s1" "executing f ?s1" using assms(1,2) by simp_all
  obtain w where w: "release f (upd_fiber f (nap ?t) (wkr ?s1)) = Some w" "sys_inv (?s1\<lparr>wkr := w\<rparr>)"
      "m_runnableQueue w = remove1 f (m_runnableQueue (wkr ?s1))" "m_suspendedQueue w = m_suspendedQueue (wkr ?s1)"
      "st w f = Waiting" "\<not> is_linked (?s1\<lparr>wkr := w\<rparr>) f"
      "\<forall>h. h \<noteq> f \<longrightarrow> m_fibers w h = m_fibers (wkr ?s1) h \<and> is_linked (?s1\<lparr>wkr := w\<rparr>) h = is_linked ?s1 h"
      "m_currentFiber w = Some f" "m_end w = m_end (wkr ?s1)" "m_workerFiber w = m_workerFiber (wkr ?s1)"
      "m_disableContextSwitch w = m_disableContextSwitch (wkr ?s1)"
    using doze_ok[OF s1, of ?t] by blast
  let ?s2 = "?s1\<lparr>wkr := w\<rparr>"
  have run: "st (wkr s) f = Running" "m_currentFiber (wkr s) = Some f" using assms(2) by (simp_all add: executing_def)
  have ff: "f' \<noteq> f" if "b \<in> set xs" "w_fiber (waitables s b) = Some f'" for b f'
    using that assms(3) run unfolding waiter_inv_def by auto
  have i2: "waiter_inv ?s2 xs"
    by (rule waiter_inv_keep[OF assms(3)]) (use assms(3,4) w(7) ff in \<open>auto simp: waiter_inv_def\<close>)
  have sl: "sleeper (waitables ?s2 a) = Some f"
    using assms(6) by (auto simp: sleeper_def setFiber_def alarm_for_def split: wkind.splits)
  have u: "sleeper (waitables ?s2 b) \<noteq> Some f" if "b \<in> set xs" for b
    using that assms(4,9) ff[of b f] by (auto simp: sleeper_def alarm_for_def split: wkind.splits)
  have p2: "waiter_present ?s2"
    using assms(7) w(3,4,8) run by (auto simp: waiter_present_def linked_def)
  have ok2: "waitable_ok (waitables ?s2 a)" "w_fiber (waitables ?s2 a) = Some f"
    using assms(5,6) by (auto simp: waitable_ok_def setFiber_def alarm_for_def split: wkind.splits)
  obtain s' ys where s': "scheduleTask a ?s2 = Some s'" "sys_inv s'" "waiter_inv s' ys" "set ys = insert a (set xs)"
      "waitables s' = waitables ?s2" "queues s' = queues ?s2"
      "\<forall>g. waiter_fiber ?s2 = Some g \<longrightarrow> g \<in> set (m_runnableQueue (wkr s'))" "\<forall>h. is_linked s' h = is_linked ?s2 h"
      "\<forall>h. st (wkr ?s2) h \<noteq> Suspended \<longrightarrow> m_fibers (wkr s') h = m_fibers (wkr ?s2) h"
      "waiter_fiber ?s2 = None \<longrightarrow> m_runnableQueue (wkr s') = m_runnableQueue (wkr ?s2)"
      "m_currentFiber (wkr s') = m_currentFiber (wkr ?s2)" "m_end (wkr s') = m_end (wkr ?s2)"
      "m_disableContextSwitch (wkr s') = m_disableContextSwitch (wkr ?s2)"
    using scheduleTask_ok[OF w(2) p2 i2 assms(4,8) ok2(1)] ok2(2) w(5,6) sl u by auto
  have "waiter_sleep_on a f s = Some s'"
    using w(1) s'(1) by (simp add: waiter_sleep_on_def scheduleTask_def Let_def)
  moreover have "waitables s' = (waitables s)(a := setFiber f (waitables s a))"
    using s'(5) by (simp add: upd_waitable_def)
  ultimately show ?thesis
    using s' w by (intro exI[of _ s'] exI[of _ ys]) simp
qed

text \<open>A fiber that may go to sleep on the object \<open>a\<close>.\<close>

definition may_sleep :: "fid \<Rightarrow> addr \<Rightarrow> addr list \<Rightarrow> sys \<Rightarrow> bool" where
  "may_sleep f a xs s \<longleftrightarrow> sync_inv s \<and> executing f s \<and> waiter_inv s xs \<and> waiter_present s \<and> a \<notin> set xs
     \<and> Suc (length xs) < 2 ^ 64 \<and> (\<forall>b \<in> set xs. alarm_for (waitables s b) \<noteq> Some f)"

lemma waiter_inv_new: "waiter_inv s xs \<Longrightarrow> a \<notin> set xs \<Longrightarrow> waiter_inv (upd_waitable a u s) xs"
  by (rule waiter_inv_keep) (auto simp: waiter_inv_def)

lemma may_sleep_new: "may_sleep f a xs s \<Longrightarrow> may_sleep f a xs (upd_waitable a u s)"
  using waiter_inv_new[of s xs a u] unfolding may_sleep_def by (auto simp: sync_inv_def waiter_present_def)

lemma nap_until_ok:
  assumes "may_sleep f a xs s" "create_res env = E_OK" "now < t" "tv_sec t \<le> TIME_MAX"
  shows "\<exists>g s' ys. nap_until env now now' a t s = Some (SwitchedTo g, s') \<and> g \<noteq> f \<and> holder (wkr s') = g \<and> sync_inv s'
    \<and> waiter_inv s' ys \<and> set ys = insert a (set xs) \<and> waitables s' a = setFiber f (TimedWaitable t) \<and> \<not> is_ready s' f
    \<and> (\<forall>b. b \<noteq> a \<longrightarrow> waitables s' b = waitables s b)"
proof -
  let ?s0 = "upd_waitable a (\<lambda>_. TimedWaitable t) s"
  have m: "may_sleep f a xs ?s0" using may_sleep_new[OF assms(1)] .
  then have i: "sync_inv ?s0" "sys_inv ?s0" "executing f ?s0" "waiter_inv ?s0 xs" "waiter_present ?s0" "a \<notin> set xs"
      "Suc (length xs) < 2 ^ 64" "\<forall>b \<in> set xs. alarm_for (waitables ?s0 b) \<noteq> Some f"
    by (auto simp: may_sleep_def sync_inv_def)
  have ok: "waitable_ok (waitables ?s0 a)" "alarm_for (waitables ?s0 a) = None"
    using assms(4) by (simp_all add: waitable_ok_def TimedWaitable_def alarm_for_def)
  obtain s1 ys where s1: "waiter_sleep_on a f ?s0 = Some s1" "sys_inv s1" "waiter_inv s1 ys" "set ys = insert a (set xs)"
      "waitables s1 = (waitables ?s0)(a := setFiber f (waitables ?s0 a))" "st (wkr s1) f = Waiting" "\<not> is_linked s1 f"
      "m_currentFiber (wkr s1) = Some f" "m_end (wkr s1) = m_end (wkr ?s0)"
      "m_disableContextSwitch (wkr s1) = m_disableContextSwitch (wkr ?s0)"
    using waiter_sleep_on_ok[OF i(2,3,4,6) ok i(5,7,8)] by blast
  have en: "contextSwitchEnabled (wkr s1)" "worker_started (wkr s1)"
    using i(1) s1(8,10) by (simp_all add: sync_inv_def contextSwitchEnabled_def worker_started_def)
  obtain r w' where r: "schedule env None now' (wkr s1) = Some (r, w')" "sched_post (wkr s1) r w'"
      "\<forall>b. r = Returned b \<longrightarrow> st (wkr s1) (holder (wkr s1)) = Running"
    using schedule_sys[OF s1(2) assms(2) en] by blast
  obtain g where g: "r = SwitchedTo g" using r(3) s1(6,8) by (cases r) auto
  let ?s' = "s1\<lparr>wkr := w'\<rparr>"
  have "sync_inv s1" using s1(2) en by (simp add: sync_inv_def)
  then have "sync_inv ?s'" using sync_inv_schedule[OF _ assms(2) r(1)] by blast
  moreover have "waiter_inv ?s' ys" using waiter_inv_schedule[OF s1(3) r(2)] .
  moreover have "holder w' = g" "g \<noteq> f" "\<not> is_ready ?s' f"
    using r(2) g s1(6,7,8) sched_post_waiting[OF r(2) s1(6)] by (auto simp: sched_post_def is_ready_def is_linked_def linked_def)
  moreover have "poll (\<lambda>_. False) now a ?s0 = Some (False, ?s0)"
    using assms(3) by (simp add: poll_def TimedWaitable_def timed_poll_def)
  then have "nap_until env now now' a t s = Some (SwitchedTo g, ?s')"
    using s1(1) r(1) g i(3) by (simp add: nap_until_def waiter_wait_def executing_def)
  moreover have "waitables ?s' a = setFiber f (TimedWaitable t)" "\<forall>b. b \<noteq> a \<longrightarrow> waitables ?s' b = waitables s b"
    using s1(5) by simp_all
  ultimately show ?thesis using s1(4) by (intro exI[of _ g] exI[of _ ?s'] exI[of _ ys]) simp
qed

lemma timed_block_ok:
  assumes "may_sleep f a xs s" "create_res env = E_OK" "tv_sec t \<le> TIME_MAX" "\<forall>b \<in> set xs. sleeper (waitables s b) \<noteq> Some f"
  shows "\<exists>g s' ys. timed_block env now a t k s = Some (SwitchedTo g, s') \<and> g \<noteq> f \<and> holder (wkr s') = g \<and> sync_inv s'
    \<and> waiter_inv s' ys \<and> set ys = insert a (set xs) \<and> waitables s' a = AlarmClock k f t
    \<and> queues s' = (queues s)(k := queues s k @ [f]) \<and> \<not> is_ready s' f
    \<and> (\<forall>b. b \<noteq> a \<longrightarrow> waitables s' b = waitables s b)"
proof -
  have i: "sync_inv s" "sys_inv s" "executing f s" "waiter_inv s xs" "waiter_present s" "a \<notin> set xs" "Suc (length xs) < 2 ^ 64"
    using assms(1) by (auto simp: may_sleep_def sync_inv_def)
  obtain s1 where s1: "park k s = Some s1" "sys_inv s1" "queues s1 = (queues s)(k := queues s k @ [f])" "same_rest s s1"
      "m_runnableQueue (wkr s1) = remove1 f (m_runnableQueue (wkr s))" "m_currentFiber (wkr s1) = Some f"
      "st (wkr s1) f = Waiting" "\<forall>h. h \<noteq> f \<longrightarrow> m_fibers (wkr s1) h = m_fibers (wkr s) h"
    using park_ok[OF i(2,3), of k] by blast
  have run: "st (wkr s) f = Running" "m_currentFiber (wkr s) = Some f" using i(3) by (simp_all add: executing_def)
  have d: "distinct (m_runnableQueue (wkr s))" using i(2) by (auto simp: sys_inv_def winv_def queues_ok_def)
  have l: "is_linked s1 h \<longleftrightarrow> is_linked s h" if "h \<noteq> f" for h
    using that s1(3,4,5) d by (auto simp: is_linked_def linked_def same_rest_def)
  have ff: "f' \<noteq> f" if "b \<in> set xs" "w_fiber (waitables s b) = Some f'" for b f'
    using that i(4) run unfolding waiter_inv_def by auto
  have i1: "waiter_inv s1 xs"
    by (rule waiter_inv_keep[OF i(4)]) (use i(4) s1(4,8) l ff in \<open>auto simp: waiter_inv_def same_rest_def\<close>)
  let ?s2 = "upd_waitable a (\<lambda>_. AlarmClock k f t) s1"
  have i2: "waiter_inv ?s2 xs" using waiter_inv_new[OF i1 i(6)] .
  have p2: "waiter_present ?s2"
    using i(5) run s1(4,5,6) d by (auto simp: waiter_present_def linked_def same_rest_def)
  have w2: "waitable_ok (waitables ?s2 a)" "w_fiber (waitables ?s2 a) = None" "sleeper (waitables ?s2 a) = Some f"
    using assms(3) by (simp_all add: AlarmClock_def TimedWaitable_def waitable_ok_def sleeper_def)
  have u2: "sleeper (waitables ?s2 b) \<noteq> Some f" if "b \<in> set xs" for b
    using that assms(4) i(6) s1(4) by (auto simp: same_rest_def)
  obtain s3 ys where s3: "scheduleTask a ?s2 = Some s3" "sys_inv s3" "waiter_inv s3 ys" "set ys = insert a (set xs)"
      "waitables s3 = waitables ?s2" "queues s3 = queues ?s2" "\<forall>h. is_linked s3 h = is_linked ?s2 h"
      "\<forall>h. st (wkr ?s2) h \<noteq> Suspended \<longrightarrow> m_fibers (wkr s3) h = m_fibers (wkr ?s2) h"
      "m_currentFiber (wkr s3) = m_currentFiber (wkr ?s2)"
      "m_disableContextSwitch (wkr s3) = m_disableContextSwitch (wkr ?s2)"
    using scheduleTask_ok[OF _ p2 i2 i(6,7) w2(1)] s1(2) w2(2,3) u2 by auto
  have en: "contextSwitchEnabled (wkr s3)" "worker_started (wkr s3)"
    using i(1) s1(4,6) s3(9,10) by (simp_all add: sync_inv_def contextSwitchEnabled_def worker_started_def same_rest_def)
  have f3: "st (wkr s3) f = Waiting" using s3(8) s1(7) by simp
  have "f \<in> set (queues s3 k)" using s3(6) s1(3) by simp
  then have nl: "\<not> linked (wkr s3) f" using s3(2) unfolding sys_inv_def parked_ok_def by blast
  obtain r w' where r: "schedule env None now (wkr s3) = Some (r, w')" "sched_post (wkr s3) r w'"
      "\<forall>b. r = Returned b \<longrightarrow> st (wkr s3) (holder (wkr s3)) = Running"
    using schedule_sys[OF s3(2) assms(2) en] by blast
  obtain g where g: "r = SwitchedTo g" using r(3) s3(9) s1(6) f3 by (cases r) auto
  let ?s' = "s3\<lparr>wkr := w'\<rparr>"
  have "sync_inv s3" using s3(2) en by (simp add: sync_inv_def)
  then have "sync_inv ?s'" using sync_inv_schedule[OF _ assms(2) r(1)] by blast
  moreover have "waiter_inv ?s' ys" using waiter_inv_schedule[OF s3(3) r(2)] .
  moreover have gf: "holder w' = g" "st w' g = Running" using r(2) g by (auto simp: sched_post_def)
  have wt: "st w' f = Waiting" "\<not> linked w' f" using sched_post_waiting[OF r(2) f3 nl] by simp_all
  have "g \<noteq> f" using gf(2) wt(1) by auto
  moreover have "\<not> is_ready ?s' f" using wt(2) by (simp add: is_ready_def linked_def)
  moreover have "timed_block env now a t k s = Some (SwitchedTo g, ?s')"
    using s1(1) s3(1) r(1) g run by (simp add: timed_block_def)
  moreover have "waitables ?s' a = AlarmClock k f t" "\<forall>b. b \<noteq> a \<longrightarrow> waitables ?s' b = waitables s b"
      "queues ?s' = (queues s)(k := queues s k @ [f])"
    using s3(5,6) s1(3,4) by (simp_all add: same_rest_def)
  ultimately show ?thesis using s3(4) gf(1) by (intro exI[of _ g] exI[of _ ?s'] exI[of _ ys]) simp
qed

lemma timed_block_end_ok:
  assumes "waiter_inv s xs"
  shows "\<exists>s' ys. timed_block_end a s = Some (\<not> w_rang (waitables s a), s') \<and> waiter_inv s' ys \<and> set ys = set xs - {a}
    \<and> wkr s' = wkr s \<and> queues s' = queues s"
proof -
  have i: "sl_inv (tkey s) (waiting s) xs" "length xs < 2 ^ 64" using assms unfolding waiter_inv_def by blast+
  show ?thesis
  proof (cases "a \<in> set xs")
    case False
    then show ?thesis using sl.contains_law[OF i(1)] assms
      by (intro exI[of _ s] exI[of _ xs]) (simp add: timed_block_end_def unscheduleTask_def)
  next
    case True
    obtain q where q: "sl_erase (tkey s) a (waiting s) = Some q" "sl_inv (tkey s) q (remove1 a xs)"
      using sl_erase_ok[OF i(1) True] i(2) by auto
    have d: "set (remove1 a xs) = set xs - {a}" using sl.in_order[OF i(1)] by simp
    have l: "length (remove1 a xs) < 2 ^ 64" using i(2) True by (simp add: length_remove1)
    have "waiter_inv (s\<lparr>waiting := q\<rparr>) (remove1 a xs)" using assms q(2) l unfolding waiter_inv_def d by auto
    then show ?thesis
      using sl.contains_law[OF i(1)] True q(1) d
      by (intro exI[of _ "s\<lparr>waiting := q\<rparr>"] exI[of _ "remove1 a xs"])
        (simp add: timed_block_end_def unscheduleTask_def waiter_erase_def)
  qed
qed

subsection \<open>Properties\<close>

text \<open>
  C14. A pass of the waiter ends and wakes exactly what is due. Every object whose time is before \<open>now\<close> is polled
  once: a plain one leaves the list and its fiber is in the run queue; an alarm clock unblocks its fiber and
  notes whether that was still parked; an object with a condition that does not hold stays, with a new
  time that is not in the past. Nothing else changes: all other objects keep their time and no other
  fiber becomes ready. At the end no object of the list is due.
\<close>

theorem waiter_wakes_due:
  assumes "waiter_inv s xs" "sys_inv s" "executing g s" "tv_sec now \<le> TIME_MAX"
  shows "\<exists>s' ys. wake_expired pf dbg now s = Some s' \<and> sys_inv s' \<and> waiter_inv s' ys
    \<and> set ys = {a \<in> set xs. now \<le> w_timeout (waitables s a) \<or> keeps pf a (waitables s a)}
    \<and> (\<forall>a. a \<notin> set xs \<or> now \<le> w_timeout (waitables s a) \<longrightarrow> waitables s' a = waitables s a)
    \<and> (\<forall>a \<in> set ys. now \<le> w_timeout (waitables s' a))
    \<and> (\<forall>a \<in> set xs. \<forall>k f. w_timeout (waitables s a) < now \<and> w_kind (waitables s a) = Alarm k f \<longrightarrow>
        w_rang (waitables s' a) = (f \<in> set (queues s k)))
    \<and> (\<forall>h. is_ready s' h \<longleftrightarrow> is_ready s h \<or> (\<exists>a \<in> set xs. w_timeout (waitables s a) < now
        \<and> \<not> keeps pf a (waitables s a) \<and> h \<in> woken_by (waitables s a) s))"
proof -
  obtain s' ys where s': "wake_expired pf dbg now s = Some s'" "sys_inv s'" "waiter_inv s' ys"
      "swept pf now (set xs) s (set ys) s'"
    using wake_expired_ok[OF assms] by blast
  show ?thesis
    using s' unfolding swept_def not_less by (intro exI[of _ s'] exI[of _ ys]) simp
qed

text \<open>A sleeping fiber in the demonstration system: fiber 3 naps for five seconds, and fiber 1 gets control.\<close>

lemma demo_may_sleep: "may_sleep 3 9 [] demo_sys"
  using demo_sys_inv by (simp add: may_sleep_def waiter_inv_def waiter_present_def demo_sys_def sl_inv_new)

lemma demo_nap:
  "\<exists>s'. nap_until demo_env ts_null ts_null 9 (Timespec 5 0) demo_sys = Some (SwitchedTo 1, s') \<and> executing 1 s'"
proof -
  let ?t = "Timespec 5 0"
  let ?s0 = "upd_waitable 9 (\<lambda>_. TimedWaitable ?t) demo_sys"
  have i: "sync_inv ?s0" "sys_inv ?s0" "executing 3 ?s0" "waiter_inv ?s0 []" "waiter_present ?s0"
    using may_sleep_new[OF demo_may_sleep] by (auto simp: may_sleep_def sync_inv_def)
  have ok: "waitable_ok (waitables ?s0 9)" "alarm_for (waitables ?s0 9) = None"
    by (simp_all add: waitable_ok_def TimedWaitable_def alarm_for_def TIME_MAX_def)
  obtain s1 where s1: "waiter_sleep_on 9 3 ?s0 = Some s1" "sys_inv s1" "m_runnableQueue (wkr s1) = [1, 2]"
      "\<forall>h. h \<noteq> 3 \<longrightarrow> st (wkr ?s0) h \<noteq> Suspended \<longrightarrow> m_fibers (wkr s1) h = m_fibers (wkr ?s0) h"
      "m_currentFiber (wkr s1) = Some 3" "m_end (wkr s1) = m_end (wkr ?s0)"
      "m_disableContextSwitch (wkr s1) = m_disableContextSwitch (wkr ?s0)"
    using waiter_sleep_on_ok[OF i(2,3,4) _ ok i(5)] by (auto simp: demo_sys_def busy_worker_def)
  have "st (wkr ?s0) h = Ready" if "h \<in> {1, 2}" for h
    using that ready_fiber_ok by (auto simp: demo_sys_def busy_worker_def demo_worker_def)
  then have st: "st (wkr s1) h = Ready" if "h \<in> {1, 2}" for h using that s1(4) by auto
  have "sync_inv s1"
    using i(1) s1(2,5,7) by (simp add: sync_inv_def contextSwitchEnabled_def worker_started_def)
  moreover have "ts_isNull (m_end (wkr s1))"
    using s1(6) by (simp add: demo_sys_def busy_worker_def demo_worker_def ts_isNull_def ts_null_def)
  ultimately obtain w' where w': "schedule demo_env None ts_null (wkr s1) = Some (SwitchedTo 1, w')"
      "calm 1 ([2] @ [1]) (s1\<lparr>wkr := w'\<rparr>)"
    using calm_switch[of s1 demo_env 3 1 "[2]" ts_null] s1(3,5) st by (auto simp: demo_env_def)
  have "poll (\<lambda>_. False) ts_null 9 ?s0 = Some (False, ?s0)"
    by (simp add: poll_def TimedWaitable_def timed_poll_def ts_null_def not_le less_timespec_def isBefore_def)
  then have "nap_until demo_env ts_null ts_null 9 ?t demo_sys = Some (SwitchedTo 1, s1\<lparr>wkr := w'\<rparr>)"
    using s1(1) w'(1) i(3) by (simp add: nap_until_def waiter_wait_def executing_def)
  then show ?thesis using w'(2) by (auto simp: calm_def)
qed

lemma demo_napping:
  "\<exists>s' ys. nap_until demo_env ts_null ts_null 9 (Timespec 5 0) demo_sys = Some (SwitchedTo 1, s') \<and> executing 1 s'
    \<and> sync_inv s' \<and> waiter_inv s' ys \<and> set ys = {9} \<and> waitables s' 9 = setFiber 3 (TimedWaitable (Timespec 5 0))"
proof -
  have "ts_null < Timespec 5 0" "tv_sec (Timespec 5 0) \<le> TIME_MAX" "create_res demo_env = E_OK"
    by (simp_all add: ts_null_def less_timespec_def isBefore_def TIME_MAX_def demo_env_def)
  then show ?thesis using nap_until_ok[OF demo_may_sleep, of demo_env ts_null "Timespec 5 0" ts_null] demo_nap by auto
qed

theorem waiter_wakes_due_witness:
  "\<exists>s s' ys. wake_expired (\<lambda>_. False) True (Timespec 6 0) s = Some s' \<and> waiter_inv s' ys \<and> set ys = {} \<and> is_ready s' 3"
proof -
  obtain s ys where s: "executing 1 s" "sync_inv s" "waiter_inv s ys" "set ys = {9}"
      "waitables s 9 = setFiber 3 (TimedWaitable (Timespec 5 0))"
    using demo_napping by blast
  have sy: "sys_inv s" "tv_sec (Timespec 6 0) \<le> TIME_MAX"
    using s(2) by (simp_all add: sync_inv_def TIME_MAX_def)
  have lt: "Timespec 5 0 < Timespec 6 0" by (simp add: less_timespec_def isBefore_def)
  obtain s' zs where z: "wake_expired (\<lambda>_. False) True (Timespec 6 0) s = Some s'" "waiter_inv s' zs"
      "set zs = {a \<in> set ys. Timespec 6 0 \<le> w_timeout (waitables s a) \<or> keeps (\<lambda>_. False) a (waitables s a)}"
      "\<forall>h. is_ready s' h \<longleftrightarrow> is_ready s h \<or> (\<exists>a \<in> set ys. w_timeout (waitables s a) < Timespec 6 0
        \<and> \<not> keeps (\<lambda>_. False) a (waitables s a) \<and> h \<in> woken_by (waitables s a) s)"
    using waiter_wakes_due[OF s(3) sy(1) s(1) sy(2), of "\<lambda>_. False" True] by (elim exE conjE) (rule that)
  have "set zs = {}" using z(3) s(4,5) lt by (auto simp: setFiber_def TimedWaitable_def keeps_def)
  moreover have "is_ready s' 3"
    using z(4) s(4,5) lt by (simp add: setFiber_def TimedWaitable_def keeps_def woken_by_def)
  ultimately show ?thesis using z(1,2) by blast
qed

lemma sleeper_woken: "h \<in> woken_by w s \<Longrightarrow> waitable_ok w \<Longrightarrow> sleeper w = Some h"
  by (auto simp: woken_by_def sleeper_def waitable_ok_def split: wkind.splits if_splits)

text \<open>
  What happens while a fiber sleeps until \<open>t\<close>: the others call \<^verbatim>\<open>schedule()\<close>, go to sleep, block at and unblock each other from any queue, and the waiter makes its passes,
  at times up to \<open>t\<close>.
\<close>

inductive sleep_step :: "run_env \<Rightarrow> timespec \<Rightarrow> sys \<Rightarrow> sys \<Rightarrow> bool" for env t where
  Switch: "schedule env None n (wkr s) = Some (r, w) \<Longrightarrow> sleep_step env t s (s\<lparr>wkr := w\<rparr>)"
| Pass: "executing g s \<Longrightarrow> n \<le> t \<Longrightarrow> tv_sec n \<le> TIME_MAX \<Longrightarrow> wake_expired pf dbg n s = Some s' \<Longrightarrow> sleep_step env t s s'"
| Nap: "may_sleep g b xs s \<Longrightarrow> n < u \<Longrightarrow> tv_sec u \<le> TIME_MAX \<Longrightarrow> nap_until env n n' b u s = Some (r, s') \<Longrightarrow> sleep_step env t s s'"
| Block: "executing g s \<Longrightarrow> block env n k s = Some (r, s') \<Longrightarrow> sleep_step env t s s'"
| Unblock: "executing g s \<Longrightarrow> unblockFirst k prio s = Some (r', s') \<Longrightarrow> sleep_step env t s s'"
| UnblockAll: "executing g s \<Longrightarrow> unblockAll k False s = Some (b', s') \<Longrightarrow> sleep_step env t s s'"

definition asleep :: "fid \<Rightarrow> addr \<Rightarrow> timespec \<Rightarrow> sys \<Rightarrow> bool" where
  "asleep f a t s \<longleftrightarrow> sync_inv s \<and> (\<exists>ys. waiter_inv s ys \<and> a \<in> set ys \<and> waitables s a = setFiber f (TimedWaitable t))"

lemma waiter_inv_unique: "waiter_inv s xs \<Longrightarrow> waiter_inv s ys \<Longrightarrow> xs = ys"
  by (simp add: waiter_inv_def sl_inv_def)

text \<open>Whoever is not in a queue is not touched when others are unblocked.\<close>

lemma waiter_inv_unblocked:
  assumes "waiter_inv s ys" "same_rest s s'" "\<forall>l. set (queues s' l) \<subseteq> set (queues s l)"
    "\<forall>h. (\<forall>l. h \<notin> set (queues s l)) \<longrightarrow> m_fibers (wkr s') h = m_fibers (wkr s) h"
    "set (m_runnableQueue (wkr s')) \<subseteq> set (m_runnableQueue (wkr s)) \<union> (\<Union>l. set (queues s l))"
  shows "waiter_inv s' ys"
proof (rule waiter_inv_keep[OF assms(1)])
  show "sl_inv (tkey s) (waiting s') ys" using assms(1,2) by (simp add: waiter_inv_def same_rest_def)
  show "\<forall>b \<in> set ys. waitables s' b = waitables s b" using assms(2) by (simp add: same_rest_def)
  have "st (wkr s') f = st (wkr s) f \<and> \<not> is_linked s' f" if "\<not> is_linked s f" for f
  proof -
    have n: "\<forall>l. f \<notin> set (queues s l)" "\<not> linked (wkr s) f" using that by (auto simp: is_linked_def)
    moreover have "\<not> linked (wkr s') f" using n assms(2,5) by (auto simp: linked_def same_rest_def)
    ultimately show ?thesis using assms(3,4) unfolding is_linked_def by auto
  qed
  then show "\<forall>b \<in> set ys. \<forall>f. w_fiber (waitables s b) = Some f \<longrightarrow> st (wkr s') f = st (wkr s) f \<and> is_linked s' f = is_linked s f"
    using assms(1) unfolding waiter_inv_def by auto
qed

lemma waiter_inv_block:
  assumes "waiter_inv s ys" "sync_inv s" "create_res env = E_OK" "executing g s" "block env n k s = Some (r, s')"
  shows "waiter_inv s' ys \<and> sync_inv s' \<and> waitables s' = waitables s"
proof -
  have i: "sys_inv s" "contextSwitchEnabled (wkr s)" using assms(2) by (auto simp: sync_inv_def)
  obtain s1 where s1: "park k s = Some s1" "sys_inv s1" "queues s1 = (queues s)(k := queues s k @ [g])"
      "same_rest s s1" "m_runnableQueue (wkr s1) = remove1 g (m_runnableQueue (wkr s))" "m_currentFiber (wkr s1) = Some g"
      "\<forall>h. h \<noteq> g \<longrightarrow> m_fibers (wkr s1) h = m_fibers (wkr s) h"
    using park_ok[OF i(1) assms(4), of k] by blast
  have gr: "st (wkr s) g = Running" using assms(4) by (simp add: executing_def)
  have "waiter_inv s1 ys"
  proof (rule waiter_inv_keep[OF assms(1)])
    show "sl_inv (tkey s) (waiting s1) ys" using assms(1) s1(4) by (simp add: waiter_inv_def same_rest_def)
    show "\<forall>b \<in> set ys. waitables s1 b = waitables s b" using s1(4) by (simp add: same_rest_def)
    have "st (wkr s1) f = st (wkr s) f \<and> \<not> is_linked s1 f" if "st (wkr s) f = Waiting" "\<not> is_linked s f" for f
    proof -
      have "f \<noteq> g" using that(1) gr by auto
      then show ?thesis using that(2) s1(3,4,5,7) by (auto simp: is_linked_def linked_def same_rest_def dest: notin_set_remove1)
    qed
    then show "\<forall>b \<in> set ys. \<forall>f. w_fiber (waitables s b) = Some f \<longrightarrow> st (wkr s1) f = st (wkr s) f \<and> is_linked s1 f = is_linked s f"
      using assms(1) unfolding waiter_inv_def by auto
  qed
  moreover have s: "sync_inv s1" using s1(2,4,6) i(2) by (simp add: sync_inv_def same_rest_def contextSwitchEnabled_def worker_started_def)
  moreover obtain w where w: "schedule env None n (wkr s1) = Some (r, w)" "s' = s1\<lparr>wkr := w\<rparr>"
    using assms(5) s1(1) by (auto simp: block_def split: bind_splits)
  moreover have "sched_post (wkr s1) r w"
    using schedule_sys[OF s1(2) assms(3), of n] s w(1) by (auto simp: sync_inv_def)
  ultimately show ?thesis
    using waiter_inv_schedule[of s1 ys r w] sync_inv_schedule[OF s assms(3) w(1)] s1(4) by (simp add: same_rest_def)
qed

lemma asleep_step:
  assumes "sleep_step env t s s'" "asleep f a t s" "create_res env = E_OK"
  shows "asleep f a t s'"
proof -
  obtain ys where i: "sync_inv s" "waiter_inv s ys" "a \<in> set ys" "waitables s a = setFiber f (TimedWaitable t)"
    using assms(2) by (auto simp: asleep_def)
  have sys: "sys_inv s" using i(1) by (simp add: sync_inv_def)
  from assms(1) show ?thesis
  proof (cases rule: sleep_step.cases)
    case (Switch n r w)
    have "sched_post (wkr s) r w" using schedule_sys[OF sys assms(3), of n] i(1) Switch(2) by (auto simp: sync_inv_def)
    then show ?thesis
      using Switch sync_inv_schedule[OF i(1) assms(3) Switch(2)] waiter_inv_schedule[OF i(2)] i(3,4) by (auto simp: asleep_def)
  next
    case (Pass g n pf dbg)
    obtain zs where z: "sys_inv s'" "executing g s'" "same_worker s s'" "waiter_inv s' zs" "swept pf n (set ys) s (set zs) s'"
      using wake_expired_ok[OF i(2) sys Pass(1,3), of pf dbg] Pass(4) by auto
    have nl: "\<not> w_timeout (waitables s a) < n" using i(4) Pass(2) by (simp add: setFiber_def TimedWaitable_def)
    then have "a \<in> set zs" "waitables s' a = waitables s a" using z(5) i(3) unfolding swept_def by blast+
    moreover have "sync_inv s'" using sync_inv_worker[OF i(1) z(1,3,2)] .
    ultimately show ?thesis using z(4) i(4) by (auto simp: asleep_def)
  next
    case (Nap g b xs n u n' r)
    have x: "xs = ys" using Nap(1) i(2) waiter_inv_unique by (auto simp: may_sleep_def)
    then have "b \<noteq> a" using Nap(1) i(3) by (auto simp: may_sleep_def)
    moreover obtain zs where "sync_inv s'" "waiter_inv s' zs" "set zs = insert b (set xs)" "\<forall>c. c \<noteq> b \<longrightarrow> waitables s' c = waitables s c"
      using nap_until_ok[OF Nap(1) assms(3) Nap(2,3), of n'] Nap(4) by auto
    ultimately show ?thesis using x i(3,4) by (auto simp: asleep_def)
  next
    case (Block g n k r)
    then show ?thesis using waiter_inv_block[OF i(2,1) assms(3) Block] i(3,4) by (auto simp: asleep_def)
  next
    case (Unblock g k prio r')
    show ?thesis
    proof (cases "queues s k")
      case Nil
      then show ?thesis using Unblock assms(2) unblockFirst_none by simp
    next
      case (Cons h q)
      have s': "sys_inv s'" "queues s' = (queues s)(k := q)" "executing g s'" "same_rest s s'"
          "set (m_runnableQueue (wkr s')) = insert h (set (m_runnableQueue (wkr s)))" "\<forall>x. x \<noteq> h \<longrightarrow> m_fibers (wkr s') x = m_fibers (wkr s) x"
        using unblockFirst_ok[OF sys Cons Unblock(1), of prio] Unblock(2) by auto
      have h: "h \<in> (\<Union>l. set (queues s l))" using Cons by (auto intro: exI[of _ k])
      have "waiter_inv s' ys"
      proof (rule waiter_inv_unblocked[OF i(2) s'(4)])
        show "\<forall>x. (\<forall>l. x \<notin> set (queues s l)) \<longrightarrow> m_fibers (wkr s') x = m_fibers (wkr s) x" using s'(6) h by (metis UN_E)
        show "set (m_runnableQueue (wkr s')) \<subseteq> set (m_runnableQueue (wkr s)) \<union> (\<Union>l. set (queues s l))" unfolding s'(5) using h by (simp add: le_supI1 subset_insertI2)
      qed (use s'(2) Cons in auto)
      then show ?thesis using sync_inv_keep[OF i(1) s'(1,4,3)] s'(4) i(3,4) by (auto simp: asleep_def same_rest_def)
    qed
  next
    case (UnblockAll g k b')
    have s': "sys_inv s'" "queues s' = (queues s)(k := [])" "executing g s'" "same_rest s s'"
        "m_runnableQueue (wkr s') = m_runnableQueue (wkr s) @ queues s k" "\<forall>x. x \<notin> set (queues s k) \<longrightarrow> m_fibers (wkr s') x = m_fibers (wkr s) x"
      using unblockAll_ok[OF sys UnblockAll(1), of k] UnblockAll(2) by auto
    have "waiter_inv s' ys" by (rule waiter_inv_unblocked[OF i(2) s'(4)]) (use s' in auto)
    then show ?thesis using sync_inv_keep[OF i(1) s'(1,4,3)] s'(4) i(3,4) by (auto simp: asleep_def same_rest_def)
  qed
qed

lemma asleep_reach: "(sleep_step env t)\<^sup>*\<^sup>* s s' \<Longrightarrow> create_res env = E_OK \<Longrightarrow> asleep f a t s \<Longrightarrow> asleep f a t s'"
  by (induction rule: rtranclp_induct) (auto intro: asleep_step)

text \<open>
  C6. Sleeping, from end to end: a fiber that calls \<^verbatim>\<open>nap()\<close> with a time in the future loses control. Whatever the other fibers and the
  waiter do then, as long as no pass of the waiter has a time after that, the fiber is neither ready nor in control; and the
  first pass whose time is after it makes the fiber ready.
\<close>

theorem nap_wakes_on_time:
  assumes "may_sleep f a xs s" "create_res env = E_OK" "now < t" "tv_sec t \<le> TIME_MAX"
    "nap_until env now now' a t s = Some (r, s')" "(sleep_step env t)\<^sup>*\<^sup>* s' s1" "executing g s1" "tv_sec now2 \<le> TIME_MAX"
  shows "\<not> is_ready s1 f \<and> g \<noteq> f \<and> (\<exists>s2. wake_expired pf dbg now2 s1 = Some s2 \<and> (is_ready s2 f \<longleftrightarrow> t < now2))"
proof -
  have "asleep f a t s'" using nap_until_ok[OF assms(1-4), of now'] assms(5) by (auto simp: asleep_def)
  then have "asleep f a t s1" using asleep_reach[OF assms(6,2)] by simp
  then obtain ys where i: "sync_inv s1" "waiter_inv s1 ys" "a \<in> set ys" "waitables s1 a = setFiber f (TimedWaitable t)"
    by (auto simp: asleep_def)
  have w: "st (wkr s1) f = Waiting" "\<not> is_linked s1 f" using i(2-4) by (auto simp: waiter_inv_def setFiber_def)
  then have n: "\<not> is_ready s1 f" "g \<noteq> f" using assms(7) by (auto simp: is_ready_def is_linked_def linked_def executing_def)
  have sys: "sys_inv s1" using i(1) by (simp add: sync_inv_def)
  obtain s2 zs where s2: "wake_expired pf dbg now2 s1 = Some s2" "swept pf now2 (set ys) s1 (set zs) s2"
    using wake_expired_ok[OF i(2) sys assms(7,8)] by blast
  let ?Q = "\<lambda>b. w_timeout (waitables s1 b) < now2 \<and> \<not> keeps pf b (waitables s1 b) \<and> f \<in> woken_by (waitables s1 b) s1"
  have r: "is_ready s2 f \<longleftrightarrow> (\<exists>b \<in> set ys. ?Q b)" using s2(2) n(1) unfolding swept_def by blast
  have a: "sleeper (waitables s1 a) = Some f" "?Q a \<longleftrightarrow> t < now2"
    using i(4) by (simp_all add: setFiber_def TimedWaitable_def sleeper_def keeps_def woken_by_def)
  have "b = a" if "b \<in> set ys" "f \<in> woken_by (waitables s1 b) s1" for b
  proof -
    have "sleeper (waitables s1 b) = Some f" using sleeper_woken[OF that(2)] that(1) i(2) unfolding waiter_inv_def by blast
    then show ?thesis using a(1) i(3) that(1) i(2) unfolding waiter_inv_def by blast
  qed
  then have "(\<exists>b \<in> set ys. ?Q b) \<longleftrightarrow> t < now2" using a(2) i(3) by blast
  then show ?thesis using r s2(1) n by blast
qed

text \<open>In between, control goes on to another fiber, and the waiter makes a pass that is too early.\<close>

theorem nap_wakes_on_time_witness:
  "\<exists>s' s1 s2. nap_until demo_env ts_null ts_null 9 (Timespec 5 0) demo_sys = Some (SwitchedTo 1, s') \<and> wake_expired (\<lambda>_. False) False (Timespec 4 0) s' = Some s1
    \<and> \<not> is_ready s1 3 \<and> wake_expired (\<lambda>_. False) False (Timespec 6 0) s1 = Some s2 \<and> is_ready s2 3"
proof -
  obtain s' where s': "nap_until demo_env ts_null ts_null 9 (Timespec 5 0) demo_sys = Some (SwitchedTo 1, s')" "executing 1 s'"
    using demo_nap by blast
  have t: "ts_null < Timespec 5 0" "tv_sec (Timespec 5 0) \<le> TIME_MAX" "create_res demo_env = E_OK"
      "tv_sec (Timespec 6 0) \<le> TIME_MAX" "Timespec 5 0 < Timespec 6 0" "tv_sec (Timespec 4 0) \<le> TIME_MAX" "Timespec 4 0 \<le> Timespec 5 0"
    by (simp_all add: ts_null_def less_timespec_def less_eq_timespec_def isBefore_def TIME_MAX_def demo_env_def)
  note nap = nap_wakes_on_time[OF demo_may_sleep t(3,1,2) s'(1)]
  obtain s1 where s1: "wake_expired (\<lambda>_. False) False (Timespec 4 0) s' = Some s1"
    using nap[OF rtranclp.rtrancl_refl s'(2) t(6)] by blast
  have p: "sleep_step demo_env (Timespec 5 0) s' s1" by (rule sleep_step.Pass[OF s'(2) t(7,6) s1])
  obtain s0 ys where "sys_inv s'" "waiter_inv s' ys" using demo_napping s'(1) by (auto simp: sync_inv_def)
  then have ex: "executing 1 s1" using wake_expired_ok[of s' ys 1 "Timespec 4 0" "\<lambda>_. False" False] s'(2) s1 t(6) by auto
  from nap[OF r_into_rtranclp[of "sleep_step demo_env (Timespec 5 0)", OF p] ex t(4), of "\<lambda>_. False" False] show ?thesis
    using s' s1 t(5) by blast
qed

text \<open>
  C25. Blocking with a timeout. The fiber is parked with its alarm clock in the list. When the alarm is due,
  the pass of the waiter makes a fiber that is still parked ready and \<^verbatim>\<open>block_()\<close> returns false; for one that
  was unblocked before, by request, it returns true; and after an unblock before the time, too. In each
  case the alarm clock has left the list.
\<close>

theorem timed_block_result:
  assumes "waiter_inv s xs" "sys_inv s" "executing g s" "tv_sec now \<le> TIME_MAX" "a \<in> set xs"
    "w_kind (waitables s a) = Alarm k f" "\<not> w_rang (waitables s a)"
  shows "\<exists>s' s2 ys. wake_expired pf dbg now s = Some s' \<and> waiter_inv s2 ys \<and> a \<notin> set ys
    \<and> timed_block_end a s' = Some (\<not> (w_timeout (waitables s a) < now \<and> f \<in> set (queues s k)), s2)
    \<and> (w_timeout (waitables s a) < now \<and> f \<in> set (queues s k) \<longrightarrow> is_ready s' f)"
proof -
  obtain s' zs where s': "wake_expired pf dbg now s = Some s'" "waiter_inv s' zs" "swept pf now (set xs) s (set zs) s'"
    using wake_expired_ok[OF assms(1-4)] by blast
  let ?late = "w_timeout (waitables s a) < now \<and> f \<in> set (queues s k)"
  have w: "w_rang (waitables s' a) \<longleftrightarrow> ?late"
    using s'(3) assms(5,6,7) unfolding swept_def by (cases "w_timeout (waitables s a) < now") auto
  have late: "?late \<longrightarrow> is_ready s' f"
  proof
    assume l: ?late
    then have "\<not> keeps pf a (waitables s a)" "f \<in> woken_by (waitables s a) s"
      using assms(6) by (simp_all add: keeps_def woken_by_def)
    then show "is_ready s' f" using s'(3) assms(5) l unfolding swept_def by blast
  qed
  obtain s2 ys where s2: "timed_block_end a s' = Some (\<not> w_rang (waitables s' a), s2)" "waiter_inv s2 ys"
      "set ys = set zs - {a}"
    using timed_block_end_ok[OF s'(2), of a] by (elim exE conjE) (rule that)
  have "a \<notin> set ys" using s2(3) by simp
  then show ?thesis using s'(1) s2(1,2) late unfolding w by blast
qed

lemma demo_timed_block:
  "\<exists>s' ys. waiter_inv s' ys \<and> set ys = {9} \<and> sync_inv s' \<and> executing 1 s'
    \<and> waitables s' 9 = AlarmClock (Qid 8 0) 3 (Timespec 5 0) \<and> queues s' (Qid 8 0) = [3]"
proof -
  let ?k = "Qid 8 0" and ?al = "AlarmClock (Qid 8 0) 3 (Timespec 5 0)"
  have d: "sync_inv demo_sys" "sys_inv demo_sys" "executing 3 demo_sys" using demo_sys_inv by (auto simp: sync_inv_def)
  obtain s1 where s1: "sys_inv s1" "queues s1 ?k = [3]" "same_rest demo_sys s1" "m_runnableQueue (wkr s1) = [1, 2]"
      "m_currentFiber (wkr s1) = Some 3" "\<forall>h. h \<noteq> 3 \<longrightarrow> m_fibers (wkr s1) h = m_fibers (wkr demo_sys) h"
    using park_ok[OF d(2,3), of ?k] by (auto simp: demo_sys_def busy_worker_def)
  let ?s2 = "upd_waitable 9 (\<lambda>_. ?al) s1"
  have fr: "waiting s1 = SortedList" "waiter_fiber s1 = None" "ts_isNull (m_end (wkr s1))"
      "m_disableContextSwitch (wkr s1) = m_disableContextSwitch (wkr demo_sys)"
    using s1(3) by (simp_all add: same_rest_def demo_sys_def busy_worker_def demo_worker_def ts_isNull_def ts_null_def)
  have i2: "sys_inv ?s2" "waiter_present ?s2" "waiter_inv ?s2 []" "waitable_ok (waitables ?s2 9)" "w_fiber (waitables ?s2 9) = None"
    using s1(1) fr by (simp_all add: waiter_present_def waiter_inv_def sl_inv_new waitable_ok_def AlarmClock_def TimedWaitable_def TIME_MAX_def)
  obtain s3 ys where s3: "sys_inv s3" "waiter_inv s3 ys" "set ys = {9}" "waitables s3 = waitables ?s2" "queues s3 = queues ?s2"
      "m_runnableQueue (wkr s3) = [1, 2]" "\<forall>h. st (wkr ?s2) h \<noteq> Suspended \<longrightarrow> m_fibers (wkr s3) h = m_fibers (wkr ?s2) h"
      "m_currentFiber (wkr s3) = Some 3" "m_end (wkr s3) = m_end (wkr ?s2)"
      "m_disableContextSwitch (wkr s3) = m_disableContextSwitch (wkr ?s2)"
    using scheduleTask_ok[OF i2(1,2,3) _ _ i2(4)] i2(5) fr(2) s1(4,5) by auto
  have "st (wkr demo_sys) h = Ready" if "h \<in> {1, 2}" for h
    using that ready_fiber_ok by (auto simp: demo_sys_def busy_worker_def demo_worker_def)
  then have st: "st (wkr s3) h = Ready" if "h \<in> {1, 2}" for h using that s1(6) s3(7) by auto
  have "sync_inv s3"
    using d(1) s3(1,8,10) fr(4) by (simp add: sync_inv_def contextSwitchEnabled_def worker_started_def)
  moreover have "ts_isNull (m_end (wkr s3))" using s3(9) fr(3) by simp
  ultimately obtain w' where w': "schedule demo_env None ts_null (wkr s3) = Some (SwitchedTo 1, w')"
      "calm 1 ([2] @ [1]) (s3\<lparr>wkr := w'\<rparr>)"
    using calm_switch[of s3 demo_env 3 1 "[2]" ts_null] s3(6,8) st by (auto simp: demo_env_def)
  have "contextSwitchEnabled (wkr s3)" "worker_started (wkr s3)" using \<open>sync_inv s3\<close> by (auto simp: sync_inv_def)
  then have "sched_post (wkr s3) (SwitchedTo 1) w'"
    using schedule_sys[OF s3(1), of demo_env ts_null] w'(1) by (auto simp: demo_env_def)
  then have "waiter_inv (s3\<lparr>wkr := w'\<rparr>) ys" using waiter_inv_schedule[OF s3(2)] by blast
  moreover have "sync_inv (s3\<lparr>wkr := w'\<rparr>)" "executing 1 (s3\<lparr>wkr := w'\<rparr>)" using w'(2) by (simp_all add: calm_def)
  moreover have "waitables (s3\<lparr>wkr := w'\<rparr>) 9 = ?al" "queues (s3\<lparr>wkr := w'\<rparr>) ?k = [3]" using s3(4,5) s1(2) by simp_all
  ultimately show ?thesis using s3(3) by blast
qed

theorem timed_block_result_witness:
  "\<exists>s s' s2. wake_expired (\<lambda>_. False) False (Timespec 6 0) s = Some s' \<and> is_ready s' 3
    \<and> timed_block_end 9 s' = Some (False, s2)"
proof -
  obtain s ys where s: "waiter_inv s ys" "set ys = {9}" "sync_inv s" "executing 1 s"
      "waitables s 9 = AlarmClock (Qid 8 0) 3 (Timespec 5 0)" "queues s (Qid 8 0) = [3]"
    using demo_timed_block by blast
  have w: "w_kind (waitables s 9) = Alarm (Qid 8 0) 3" "\<not> w_rang (waitables s 9)" "w_timeout (waitables s 9) < Timespec 6 0"
    using s(5) by (simp_all add: AlarmClock_def TimedWaitable_def less_timespec_def isBefore_def)
  have sy: "sys_inv s" "tv_sec (Timespec 6 0) \<le> TIME_MAX" using s(3) by (simp_all add: sync_inv_def TIME_MAX_def)
  have "9 \<in> set ys" using s(2) by simp
  from timed_block_result[OF s(1) sy(1) s(4) sy(2) this w(1,2), of "\<lambda>_. False" False] show ?thesis
    using w(3) s(6) by auto
qed

subsection \<open>Timeouts that have passed\<close>

text \<open>\<^verbatim>\<open>Mutex::trylock(timeout)\<close> and \<^verbatim>\<open>Signal::wait(timeout)\<close>; \<open>clk i\<close> is the \<open>i\<close>th reading of the clock.\<close>

partial_function (option) mutex_trylock_until ::
  "run_env \<Rightarrow> (nat \<Rightarrow> timespec) \<Rightarrow> nat \<Rightarrow> addr \<Rightarrow> timespec \<Rightarrow> qid \<Rightarrow> mutex \<Rightarrow> sys \<Rightarrow> (bool option \<times> mutex \<times> sys) option" where
  "mutex_trylock_until env clk i a timeout k m s =
     (if m_locked m then do {
        r \<leftarrow> blockUntil env (clk i) a timeout k s;
        case r of
          Inl b \<Rightarrow> if b then mutex_trylock_until env clk (Suc i) a timeout k m s else Some (Some False, m, s)
        | Inr (_, s) \<Rightarrow> Some (None, m, s)
      } else Some (Some True, m\<lparr>m_locked := True\<rparr>, s))"

definition signal_wait_until ::
  "run_env \<Rightarrow> timespec \<Rightarrow> addr \<Rightarrow> timespec \<Rightarrow> qid \<Rightarrow> signal \<Rightarrow> sys \<Rightarrow> (bool option \<times> signal \<times> sys) option" where
  "signal_wait_until env now a timeout k m s =
     (if m_signalled m = 0 then do {
        r \<leftarrow> blockUntil env now a timeout k s;
        case r of
          Inl b \<Rightarrow> Some (Some b, if b then signal_woken m else m, s)
        | Inr (_, s) \<Rightarrow> Some (None, m, s)
      } else do {
        (r, w) \<leftarrow> yield env None False now (wkr s);
        case r of
          SwitchedTo _ \<Rightarrow> Some (None, m, s\<lparr>wkr := w\<rparr>)
        | Returned _ \<Rightarrow> Some (Some True, signal_woken m, s\<lparr>wkr := w\<rparr>)
      })"

lemma mutex_trylock_until_past:
  assumes "\<forall>i. timeout \<le> clk i" "m_locked m"
  shows "mutex_trylock_until env clk i a timeout k m s = None"
proof -
  have "\<not> (m_locked m \<and> (\<forall>i. timeout \<le> clk i))" if "mutex_trylock_until env clk i a timeout k m s = Some r" for i r
    using that
  proof (rule mutex_trylock_until.raw_induct[rotated])
    fix f env clk i a timeout k m s r
    assume ih: "\<And>env clk i a timeout k m s r. f env clk i a timeout k m s = Some r \<Longrightarrow> \<not> (m_locked m \<and> (\<forall>i. timeout \<le> clk i))"
      and b: "(if m_locked m then do {
        r \<leftarrow> blockUntil env (clk i) a timeout k s;
        case r of
          Inl b \<Rightarrow> if b then f env clk (Suc i) a timeout k m s else Some (Some False, m, s)
        | Inr (_, s) \<Rightarrow> Some (None, m, s)
      } else Some (Some True, m\<lparr>m_locked := True\<rparr>, s)) = Some r"
    show "\<not> (m_locked m \<and> (\<forall>i. timeout \<le> clk i))"
    proof
      assume l: "m_locked m \<and> (\<forall>i. timeout \<le> clk i)"
      then have "f env clk (Suc i) a timeout k m s = Some r" using b by (simp add: blockUntil_def)
      then show False using ih l by blast
    qed
  qed
  then show ?thesis using assms by (cases "mutex_trylock_until env clk i a timeout k m s") auto
qed

text \<open>
  A timeout that has passed already is reported as an unblock by request: \<^verbatim>\<open>blockUntil()\<close> and \<^verbatim>\<open>blockFor()\<close>
  return true without blocking. So \<^verbatim>\<open>Signal::wait(timeout)\<close> claims a signal that nobody sent, and
  \<^verbatim>\<open>Mutex::trylock(timeout)\<close> on a locked mutex never returns.
\<close>

theorem immediate_timeout_not_reported:
  assumes "\<forall>i. timeout \<le> clk i" "isNegative dt \<or> ti_isNull dt" "m_locked m" "m_signalled sg = 0"
  shows "blockUntil env (clk i) a timeout k s = Some (Inl True)
    \<and> blockFor env (clk i) a dt k s = Some (Inl True)
    \<and> signal_wait_until env (clk i) a timeout k sg s = Some (Some True, sg, s)
    \<and> mutex_trylock_until env clk i a timeout k m s = None"
  using assms mutex_trylock_until_past[OF assms(1,3)]
  by (simp add: blockUntil_def blockFor_def signal_wait_until_def signal_woken_def)

theorem immediate_timeout_not_reported_witness:
  "mutex_trylock_until demo_env (\<lambda>i. Timespec (int i) 0) 0 9 ts_null (Qid 8 0) \<lparr>m_locked = True\<rparr> demo_sys = None"
proof -
  have "\<forall>i. ts_null \<le> Timespec (int i) 0"
    by (auto simp: ts_null_def not_less[symmetric] less_timespec_def isBefore_def)
  then show ?thesis
    using immediate_timeout_not_reported[of ts_null "\<lambda>i. Timespec (int i) 0" ti_null "\<lparr>m_locked = True\<rparr>" Signal demo_env 0 9 "Qid 8 0" demo_sys]
    by (simp add: ti_null_def ti_isNull_def Signal_def)
qed

subsection \<open>Periods\<close>

lemma ts_add_gt:
  assumes "tv_sec t < TIME_MAX" "interval_ok iv" "\<not> ti_isNull iv"
  shows "\<exists>t'. ts_add t iv = Some t' \<and> t < t'"
proof -
  let ?r = "ti_add (mk_interval (tv_sec t) (tv_nsec t) False) iv"
  have iv: "0 \<le> ti_sec iv" "0 \<le> ti_nsec iv" "\<not> m_negative iv" "ti_sec iv \<noteq> 0 \<or> ti_nsec iv \<noteq> 0"
    using assms(2,3) by (auto simp: interval_ok_def isNormal_def isPositive_def isNegative_def ti_isNull_def)
  have "m_negative ?r = False" using iv by (simp add: ti_add_def Let_def)
  moreover have "isBefore t (TimeInterval.m_t ?r)"
    using iv assms(1) by (auto simp: ti_add_def Let_def isBefore_def)
  ultimately show ?thesis by (auto simp: ts_add_def isPositive_def isNegative_def less_timespec_def)
qed

text \<open>
  \<^verbatim>\<open>PeriodicWakeUp::nap()\<close> with a positive interval: it sleeps exactly when the next deadline is ahead, and then
  until that deadline. Otherwise it does not sleep; the deadline is then not ahead, and whatever many were
  missed, the one after it is: at most one period is caught up.
\<close>

theorem periodic_catches_up:
  assumes "interval_ok (p_interval p)" "\<not> ti_isNull (p_interval p)" "tv_sec reference \<le> TIME_MAX" "tv_sec now < TIME_MAX"
  shows "\<exists>act b p' t. periodic_nap reference now p = Some (act, b, p') \<and> p_interval p' = p_interval p
    \<and> ts_add reference (p_interval p) = Some t
    \<and> (if now < t then b \<and> act = NapUntil t \<and> p_t p' = t
       else \<not> b \<and> act = YieldNow \<and> p_t p' \<le> now \<and> t \<le> p_t p' \<and> (\<exists>t2. ts_add (p_t p') (p_interval p) = Some t2 \<and> now < t2))"
proof -
  obtain t where t: "ts_add reference (p_interval p) = Some t" "tv_sec t \<le> TIME_MAX"
    using ts_add_ge[OF assms(3,1)] by blast
  obtain t2 where t2: "ts_add t (p_interval p) = Some t2" using ts_add_ge[OF t(2) assms(1)] by blast
  obtain n2 where n2: "ts_add now (p_interval p) = Some n2" "now < n2" using ts_add_gt[OF assms(4,1,2)] by blast
  show ?thesis
    using t(1) t2 n2
    by (cases "now < t"; cases "now < t2") (auto simp: periodic_nap_def isAfter_def less_timespec_def[symmetric])
qed

theorem periodic_catches_up_witness:
  "\<exists>act b p'. periodic_nap (Timespec 1 0) (Timespec 10 0) \<lparr>p_interval = mk_interval 2 0 False, p_t = ts_null\<rparr> = Some (act, b, p')
    \<and> \<not> b \<and> p_t p' \<le> Timespec 10 0"
proof -
  have "ts_add (Timespec 1 0) (mk_interval 2 0 False) = Some (Timespec 3 0)" "\<not> Timespec 10 0 < Timespec 3 0"
    by (simp_all add: ts_add_def ti_add_def isInfinite_def TIME_MAX_def BILLION_def isPositive_def isNegative_def
        less_timespec_def isBefore_def)
  then show ?thesis
    using periodic_catches_up[of "\<lparr>p_interval = mk_interval 2 0 False, p_t = ts_null\<rparr>" "Timespec 1 0" "Timespec 10 0"]
    by (auto simp: interval_ok_def isNormal_def isPositive_def isNegative_def ti_isNull_def TIME_MAX_def)
qed

end
