(* ===== verification/Zth_Idle.thy ===== *)
theory Zth_Idle
  imports Complex_Main Zth_Waiter
begin

section \<open>The sleep of the thread\<close>

text \<open>
  \<^verbatim>\<open>Waiter::entry()\<close> of \<^verbatim>\<open>src/waiter.cpp\<close>, the end of a pass: when there is nothing else to do, the thread sleeps until the first timed object is due, or polls as
  long. The timeout of \<^verbatim>\<open>poll()\<close> is computed in single precision (\<^verbatim>\<open>TimeInterval::s<float>()\<close> of \<^verbatim>\<open>time.h\<close>): numbers are rational, and \<open>fl\<close> is the rounding
  of the processor after every operation. The conversion of a number to \<^verbatim>\<open>int\<close> that does not fit is undefined (\<open>None\<close>).
\<close>

subsection \<open>Seconds as a floating-point number\<close>

definition interval_float :: "(rat \<Rightarrow> rat) \<Rightarrow> TimeInterval \<Rightarrow> rat" where
  "interval_float fl dt =
     (let t = fl (fl (of_int (ti_sec dt)) + fl (fl (of_int (ti_nsec dt)) * fl (1 / 1000000000)))
      in if m_negative dt then - t else t)"

definition to_int :: "rat \<Rightarrow> int option" where
  "to_int x = (let i = (if x < 0 then \<lceil>x\<rceil> else \<lfloor>x\<rfloor>) in if - (2 ^ 31) \<le> i \<and> i < 2 ^ 31 then Some i else None)"

definition timeout_ms_of :: "(rat \<Rightarrow> rat) \<Rightarrow> TimeInterval \<Rightarrow> int option" where
  "timeout_ms_of fl dt = map_option (\<lambda>i. max 0 i) (to_int (fl (interval_float fl dt * 1000)))"

subsection \<open>How the pass ends\<close>

text \<open>Not at all, by polling with a timeout in milliseconds (-1: for ever), or by sleeping.\<close>

datatype sleep = NoSleep | PollFor int | SleepUntil timespec

definition waiter_sleep :: "(rat \<Rightarrow> rat) \<Rightarrow> bool \<Rightarrow> bool \<Rightarrow> timespec \<Rightarrow> sys \<Rightarrow> sleep option" where
  "waiter_sleep fl polling doRealSleep now s = do {
     till \<leftarrow> waiter_end s;
     if polling then
       if \<not> doRealSleep then Some (PollFor 0)
       else (case till of
         None \<Rightarrow> Some (PollFor (-1))
       | Some t \<Rightarrow> map_option PollFor (timeout_ms_of fl (ts_diff t now)))
     else if doRealSleep then map_option SleepUntil till
     else Some NoSleep
   }"

subsection \<open>The error of the rounding\<close>

text \<open>What IEEE 754 promises for single precision, in the range where it has 24 significant bits.\<close>

definition float_ok :: "(rat \<Rightarrow> rat) \<Rightarrow> bool" where
  "float_ok fl \<longleftrightarrow> (\<forall>x. x = 0 \<or> 1 / 2 ^ 126 \<le> \<bar>x\<bar> \<and> \<bar>x\<bar> \<le> 2 ^ 127 \<longrightarrow> \<bar>fl x - x\<bar> \<le> \<bar>x\<bar> / 2 ^ 24)"

text \<open>\<open>y\<close> is \<open>x\<close> after \<open>k\<close> roundings.\<close>

definition near :: "nat \<Rightarrow> rat \<Rightarrow> rat \<Rightarrow> bool" where
  "near k x y \<longleftrightarrow> (1 - 1 / 2 ^ 24) ^ k * x \<le> y \<and> y \<le> (1 + 1 / 2 ^ 24) ^ k * x"

lemma near_refl: "near 0 x x"
  by (simp add: near_def)

lemma near_mono: "near k x y \<Longrightarrow> k \<le> l \<Longrightarrow> 0 \<le> x \<Longrightarrow> near l x y"
proof -
  assume a: "near k x y" "k \<le> l" "0 \<le> x"
  have "(1 - 1 / 2 ^ 24 :: rat) ^ l \<le> (1 - 1 / 2 ^ 24) ^ k" by (rule power_decreasing[OF a(2)]) simp_all
  moreover have "(1 + 1 / 2 ^ 24 :: rat) ^ k \<le> (1 + 1 / 2 ^ 24) ^ l" by (rule power_increasing[OF a(2)]) simp
  ultimately show "near l x y"
    using a(1) mult_right_mono[OF _ a(3)] unfolding near_def by (meson order_trans)
qed

lemma near_nonneg: "near k x y \<Longrightarrow> 0 \<le> x \<Longrightarrow> 0 \<le> y"
proof -
  assume a: "near k x y" "0 \<le> x"
  have "(0 :: rat) \<le> (1 - 1 / 2 ^ 24) ^ k" by (rule zero_le_power) simp
  then have "0 \<le> (1 - 1 / 2 ^ 24) ^ k * x" using a(2) by simp
  then show "0 \<le> y" using a(1) unfolding near_def by linarith
qed

lemma near_add: "near k x y \<Longrightarrow> near k u v \<Longrightarrow> near k (x + u) (y + v)"
  unfolding near_def distrib_left by linarith

lemma near_mult:
  assumes "near k x y" "near l u v" "0 \<le> x" "0 \<le> u"
  shows "near (k + l) (x * u) (y * v)"
proof -
  have n: "0 \<le> y" "0 \<le> v" using near_nonneg assms by blast+
  have p: "(0 :: rat) \<le> (1 - 1 / 2 ^ 24) ^ k" "(0 :: rat) \<le> (1 - 1 / 2 ^ 24) ^ l" by (rule zero_le_power; simp)+
  have "((1 - 1 / 2 ^ 24) ^ k * x) * ((1 - 1 / 2 ^ 24) ^ l * u) \<le> y * v"
    using assms p n by (intro mult_mono) (auto simp: near_def)
  moreover have "y * v \<le> ((1 + 1 / 2 ^ 24) ^ k * x) * ((1 + 1 / 2 ^ 24) ^ l * u)"
    using assms n by (intro mult_mono) (auto simp: near_def)
  ultimately show ?thesis by (simp add: near_def power_add algebra_simps)
qed

text \<open>A few roundings stay in the range of the floating-point numbers.\<close>

lemma near_fl:
  assumes "float_ok fl" "near k x y" "k \<le> 5" "x = 0 \<or> 1 / 2 ^ 60 \<le> x \<and> x \<le> 2 ^ 100"
  shows "near (Suc k) x (fl y)"
proof -
  have x: "0 \<le> x" using assms(4) by auto
  have y0: "0 \<le> y" using near_nonneg[OF assms(2) x] .
  have b: "near 5 x y" using near_mono[OF assms(2,3) x] .
  have "y = 0 \<or> 1 / 2 ^ 126 \<le> \<bar>y\<bar> \<and> \<bar>y\<bar> \<le> 2 ^ 127"
  proof (cases "x = 0")
    case True
    then show ?thesis using assms(2) by (simp add: near_def)
  next
    case False
    have "(1 / 2 :: rat) \<le> (1 - 1 / 2 ^ 24) ^ 5" "(1 + 1 / 2 ^ 24 :: rat) ^ 5 \<le> 2" by (simp_all add: power_divide field_simps)
    then have "(1 / 2) * x \<le> y" "y \<le> 2 * x"
      using b mult_right_mono[OF _ x] unfolding near_def by (meson order_trans)+
    then show ?thesis using assms(4) False y0 by simp
  qed
  then have "\<bar>fl y - y\<bar> \<le> \<bar>y\<bar> / 2 ^ 24" using assms(1) unfolding float_ok_def by blast
  then have "fl y - y \<le> y / 2 ^ 24" "- (fl y - y) \<le> y / 2 ^ 24" using y0 abs_le_iff[of "fl y - y" "y / 2 ^ 24"] by simp_all
  then have f: "(1 - 1 / 2 ^ 24) * y \<le> fl y" "fl y \<le> (1 + 1 / 2 ^ 24) * y" by (simp_all add: algebra_simps)
  have "(1 - 1 / 2 ^ 24) * ((1 - 1 / 2 ^ 24) ^ k * x) \<le> (1 - 1 / 2 ^ 24) * y"
    using assms(2) by (intro mult_left_mono) (simp_all add: near_def)
  moreover have "(1 + 1 / 2 ^ 24) * y \<le> (1 + 1 / 2 ^ 24) * ((1 + 1 / 2 ^ 24) ^ k * x)"
    using assms(2) by (intro mult_left_mono) (simp_all add: near_def)
  ultimately have "(1 - 1 / 2 ^ 24) * ((1 - 1 / 2 ^ 24) ^ k * x) \<le> fl y" "fl y \<le> (1 + 1 / 2 ^ 24) * ((1 + 1 / 2 ^ 24) ^ k * x)"
    using f by (blast intro: order_trans)+
  then show ?thesis unfolding near_def power_Suc mult.assoc by (rule conjI)
qed

lemma five_roundings: "0 \<le> x \<Longrightarrow> near 5 x y \<Longrightarrow> x * (1 - 1 / 2 ^ 21) \<le> y \<and> y \<le> x * (1 + 1 / 2 ^ 21)"
proof -
  assume a: "0 \<le> x" "near 5 x y"
  have c: "(1 - 1 / 2 ^ 21 :: rat) \<le> (1 - 1 / 2 ^ 24) ^ 5" "(1 + 1 / 2 ^ 24 :: rat) ^ 5 \<le> 1 + 1 / 2 ^ 21"
    by (simp_all add: power_divide field_simps)
  have l: "x * (1 - 1 / 2 ^ 21) \<le> x * (1 - 1 / 2 ^ 24) ^ 5" and h: "x * (1 + 1 / 2 ^ 24) ^ 5 \<le> x * (1 + 1 / 2 ^ 21)"
    by (rule mult_left_mono[OF c(1) a(1)], rule mult_left_mono[OF c(2) a(1)])
  have n: "x * (1 - 1 / 2 ^ 24) ^ 5 \<le> y" "y \<le> x * (1 + 1 / 2 ^ 24) ^ 5" using a(2) by (simp_all only: near_def mult.commute)
  show ?thesis by (rule conjI[OF order_trans[OF l n(1)] order_trans[OF n(2) h]])
qed

lemma float_ok_minus:
  assumes "float_ok fl"
  shows "float_ok (\<lambda>x. - fl (- x))"
  unfolding float_ok_def
proof (intro allI impI)
  fix x :: rat assume "x = 0 \<or> 1 / 2 ^ 126 \<le> \<bar>x\<bar> \<and> \<bar>x\<bar> \<le> 2 ^ 127"
  then have "- x = 0 \<or> 1 / 2 ^ 126 \<le> \<bar>- x\<bar> \<and> \<bar>- x\<bar> \<le> 2 ^ 127" by (simp only: abs_minus_cancel neg_equal_0_iff_equal)
  then have "\<bar>fl (- x) - - x\<bar> \<le> \<bar>- x\<bar> / 2 ^ 24" using assms unfolding float_ok_def by blast
  moreover have "\<bar>- fl (- x) - x\<bar> = \<bar>fl (- x) - - x\<bar>" by (simp add: abs_minus_commute)
  ultimately show "\<bar>- fl (- x) - x\<bar> \<le> \<bar>x\<bar> / 2 ^ 24" by (simp only: abs_minus_cancel)
qed

text \<open>The seconds of the interval, without the sign.\<close>

lemma seconds_near:
  assumes "float_ok fl" "isNormal dt" "ti_sec dt \<le> 2 ^ 63"
  shows "near 4 (of_int (ti_sec dt * 1000000000 + ti_nsec dt) / 1000000000)
    (fl (fl (of_int (ti_sec dt)) + fl (fl (of_int (ti_nsec dt)) * fl (1 / 1000000000))))"
proof -
  let ?S = "of_int (ti_sec dt) :: rat" and ?N = "of_int (ti_nsec dt) :: rat"
  have n: "0 \<le> ti_sec dt" "0 \<le> ti_nsec dt" "ti_nsec dt < 1000000000" using assms(2) by (simp_all add: isNormal_def BILLION_def)
  have S: "?S = 0 \<or> 1 \<le> ?S" "?S \<le> 2 ^ 63"
  proof -
    show "?S = 0 \<or> 1 \<le> ?S" using n(1) by (cases "ti_sec dt = 0") simp_all
    have "?S \<le> of_int (2 ^ 63)" using assms(3) by (simp only: of_int_le_iff)
    then show "?S \<le> 2 ^ 63" by simp
  qed
  have N: "?N = 0 \<or> 1 \<le> ?N" "?N \<le> 1000000000" using n(2,3) by (cases "ti_nsec dt = 0"; simp)+
  have "near 1 ?S (fl ?S)" using near_fl[OF assms(1) near_refl, of ?S] S by auto
  then have a: "near 3 ?S (fl ?S)" by (rule near_mono) (use S in auto)
  have "near 1 ?N (fl ?N)" using near_fl[OF assms(1) near_refl, of ?N] N by auto
  moreover have "near 1 (1 / 1000000000) (fl (1 / 1000000000))" using near_fl[OF assms(1) near_refl, of "1 / 1000000000"] by simp
  ultimately have "near 2 (?N * (1 / 1000000000)) (fl ?N * fl (1 / 1000000000))"
    using near_mult[of 1 ?N "fl ?N" 1 "1 / 1000000000" "fl (1 / 1000000000)"] N by (auto simp: numeral_2_eq_2)
  then have "near 3 (?N * (1 / 1000000000)) (fl (fl ?N * fl (1 / 1000000000)))"
    using near_fl[OF assms(1), of 2 "?N * (1 / 1000000000)"] N by auto
  from near_add[OF a this] have b: "near 3 (?S + ?N * (1 / 1000000000)) (fl ?S + fl (fl ?N * fl (1 / 1000000000)))" .
  have "?S + ?N * (1 / 1000000000) = 0 \<or> 1 / 2 ^ 60 \<le> ?S + ?N * (1 / 1000000000) \<and> ?S + ?N * (1 / 1000000000) \<le> 2 ^ 100" using S N by auto
  from near_fl[OF assms(1) b _ this] show ?thesis by (simp add: add_divide_distrib)
qed

lemma timeout_ms_of_ok:
  assumes "float_ok fl" "isNormal dt" "ti_sec dt \<le> 2 ^ 63"
  shows "case timeout_ms_of fl dt of
      Some ms \<Rightarrow> 0 \<le> ms \<and> of_int ms * 1000000 \<le> max 0 (of_int (ti_val dt)) * (1 + 1 / 2 ^ 21 :: rat)
        \<and> of_int (ti_val dt) * (1 - 1 / 2 ^ 21 :: rat) < (of_int ms + 1) * 1000000
    | None \<Rightarrow> 2 ^ 31 * 1000000 \<le> \<bar>of_int (ti_val dt)\<bar> * (1 + 1 / 2 ^ 21 :: rat)"
proof -
  define u where "u = ti_sec dt * 1000000000 + ti_nsec dt"
  let ?V = "of_int u / 1000000000 :: rat"
  define t where "t = fl (fl (of_int (ti_sec dt)) + fl (fl (of_int (ti_nsec dt)) * fl (1 / 1000000000)))"
  have n: "0 \<le> ti_sec dt" "0 \<le> ti_nsec dt" "ti_nsec dt < 1000000000" using assms(2) by (simp_all add: isNormal_def BILLION_def)
  have u: "0 \<le> u" "u \<le> 2 ^ 63 * 1000000000 + 1000000000" using n assms(3) by (simp_all add: u_def)
  have val: "ti_val dt = (if m_negative dt then - u else u)" by (simp add: ti_val_def u_def BILLION_def)
  have "near 4 ?V t" using seconds_near[OF assms] by (simp add: u_def t_def)
  then have t1: "near 4 (?V * 1000) (t * 1000)" by (simp add: near_def)
  have rg: "?V * 1000 = 0 \<or> 1 / 2 ^ 60 \<le> ?V * 1000 \<and> ?V * 1000 \<le> 2 ^ 100"
  proof (cases "u = 0")
    case False
    have "(of_int u :: rat) \<le> of_int (2 ^ 63 * 1000000000 + 1000000000)" using u(2) by (simp only: of_int_le_iff)
    moreover have "(1 :: rat) \<le> of_int u" using u(1) False by simp
    ultimately show ?thesis by simp
  qed simp
  have r5: "?V * 1000 * (1 - 1 / 2 ^ 21) \<le> g (t * 1000) \<and> g (t * 1000) \<le> ?V * 1000 * (1 + 1 / 2 ^ 21)" if "float_ok g" for g
  proof -
    have "near 5 (?V * 1000) (g (t * 1000))" using near_fl[OF that t1 _ rg] by simp
    then show ?thesis using five_roundings[of "?V * 1000"] u(1) by simp
  qed
  show ?thesis
  proof (cases "m_negative dt")
    case False
    define v where "v = fl (t * 1000)"
    have b: "of_int u * (1 - 1 / 2 ^ 21) \<le> v * 1000000" "v * 1000000 \<le> of_int u * (1 + 1 / 2 ^ 21)" using r5[OF assms(1)] by (simp_all add: v_def field_simps)
    have "0 \<le> of_int u * (1 - 1 / 2 ^ 21 :: rat)" using u(1) by simp
    then have v0: "0 \<le> v" using b(1) by linarith
    then have i: "0 \<le> \<lfloor>v\<rfloor>" "of_int \<lfloor>v\<rfloor> \<le> v" "v < of_int \<lfloor>v\<rfloor> + 1" using floor_correct[of v] by simp_all
    have m: "timeout_ms_of fl dt = (if \<lfloor>v\<rfloor> < 2 ^ 31 then Some \<lfloor>v\<rfloor> else None)"
      using False v0 i(1) by (simp add: timeout_ms_of_def to_int_def interval_float_def t_def v_def Let_def)
    have mx: "max 0 (of_int (ti_val dt)) = (of_int u :: rat)" using val False u(1) by simp
    show ?thesis
    proof (cases "\<lfloor>v\<rfloor> < 2 ^ 31")
      case True
      have "of_int \<lfloor>v\<rfloor> * 1000000 \<le> of_int u * (1 + 1 / 2 ^ 21 :: rat)" using i(2) b(2) by linarith
      moreover have "of_int u * (1 - 1 / 2 ^ 21 :: rat) < (of_int \<lfloor>v\<rfloor> + 1) * 1000000"
        by (rule le_less_trans[OF b(1) mult_strict_right_mono[OF i(3)]]) simp
      ultimately show ?thesis using m True mx val False i(1) by simp
    next
      case F: False
      then have "of_int (2 ^ 31) \<le> (of_int \<lfloor>v\<rfloor> :: rat)" by (simp only: of_int_le_iff not_less)
      then have "2 ^ 31 \<le> v" using i(2) by simp
      then have "2 ^ 31 * 1000000 \<le> of_int u * (1 + 1 / 2 ^ 21 :: rat)" using b(2) by linarith
      then show ?thesis using m F val False u(1) by simp
    qed
  next
    case True
    define v where "v = - fl (- (t * 1000))"
    have b: "of_int u * (1 - 1 / 2 ^ 21) \<le> v * 1000000" "v * 1000000 \<le> of_int u * (1 + 1 / 2 ^ 21)"
      using r5[OF float_ok_minus[OF assms(1)]] by (simp_all add: v_def field_simps)
    have "0 \<le> of_int u * (1 - 1 / 2 ^ 21 :: rat)" using u(1) by simp
    then have v0: "0 \<le> v" using b(1) by linarith
    then have i: "0 \<le> \<lfloor>v\<rfloor>" "of_int \<lfloor>v\<rfloor> \<le> v" by simp_all
    have f: "fl (- t * 1000) = - v" by (simp add: v_def)
    have "to_int (- v) = (if \<lfloor>v\<rfloor> \<le> 2 ^ 31 then Some (- \<lfloor>v\<rfloor>) else None)"
    proof (cases "v = 0")
      case False
      then have "- v < 0" using v0 by simp
      then have "to_int (- v) = (if - (2 ^ 31) \<le> - \<lfloor>v\<rfloor> \<and> - \<lfloor>v\<rfloor> < 2 ^ 31 then Some (- \<lfloor>v\<rfloor>) else None)"
        by (simp only: to_int_def Let_def ceiling_minus if_True)
      moreover have "(- (2 ^ 31) \<le> - k \<and> - k < 2 ^ 31) = (k \<le> 2 ^ 31)" if "0 \<le> k" for k :: int using that by auto
      note this[OF i(1)]
      ultimately show ?thesis by simp
    qed (simp add: to_int_def)
    then have m: "timeout_ms_of fl dt = (if \<lfloor>v\<rfloor> \<le> 2 ^ 31 then Some 0 else None)"
      using True i(1) f by (simp add: timeout_ms_of_def interval_float_def t_def[symmetric] Let_def)
    show ?thesis
    proof (cases "\<lfloor>v\<rfloor> \<le> 2 ^ 31")
      case t: True
      have "of_int (ti_val dt) * (1 - 1 / 2 ^ 21 :: rat) \<le> 0" using val True u(1) by simp
      then show ?thesis using m t by simp
    next
      case F: False
      then have "of_int (2 ^ 31) < (of_int \<lfloor>v\<rfloor> :: rat)" by (simp only: of_int_less_iff not_le)
      then have "2 ^ 31 \<le> v" using i(2) by simp
      then have "2 ^ 31 * 1000000 \<le> of_int u * (1 + 1 / 2 ^ 21 :: rat)" using b(2) by linarith
      then show ?thesis using m F val True u(1) by simp
    qed
  qed
qed

subsection \<open>Until when\<close>

definition deadlines :: "sys \<Rightarrow> addr list \<Rightarrow> timespec set" where
  "deadlines s xs = (\<lambda>a. w_timeout (waitables s a)) ` set xs \<union> (if ts_isNull (m_end (wkr s)) then {} else {m_end (wkr s)})"

lemma waiter_end_ok:
  assumes "waiter_inv s xs"
  shows "case waiter_end s of None \<Rightarrow> False | Some None \<Rightarrow> deadlines s xs = {}
    | Some (Some t) \<Rightarrow> t \<in> deadlines s xs \<and> (\<forall>u \<in> deadlines s xs. t \<le> u)"
proof -
  let ?e = "m_end (wkr s)" and ?t = "\<lambda>a. w_timeout (waitables s a)"
  have i: "sl_inv (tkey s) (waiting s) xs" using assms by (simp add: waiter_inv_def)
  show ?thesis
  proof (cases xs)
    case Nil
    then have "waiter_end s = Some (if ts_isNull ?e then None else Some ?e)" using sl.empty_law[OF i] by (simp add: waiter_end_def)
    then show ?thesis using Nil by (simp add: deadlines_def)
  next
    case (Cons a zs)
    have e: "waiter_end s = Some (Some (if \<not> ts_isNull ?e \<and> ?e < ?t a then ?e else ?t a))"
      using sl.empty_law[OF i] sl.front_law[OF i] Cons by (simp add: waiter_end_def isAfter_def less_timespec_def Let_def)
    have "\<forall>b \<in> set xs. ?t a \<le> ?t b" using sl.in_order[OF i] Cons by (auto simp: lt_def)
    then show ?thesis using Cons e by (auto simp: deadlines_def)
  qed
qed

lemma ts_diff_ok:
  assumes "ts_normal t" "ts_normal now"
  shows "isNormal (ts_diff t now) \<and> ti_sec (ts_diff t now) \<le> 2 ^ 63 \<and> ti_val (ts_diff t now) = ts_val t - ts_val now"
proof -
  have n: "isNormal (ts_diff t now)" "ti_val (ts_diff t now) = ts_val t - ts_val now"
    using timeTo_correct_aux[OF assms(2,1)] by (simp_all add: ts_diff_def)
  have "\<bar>ts_val t - ts_val now\<bar> < 2 ^ 63 * 1000000000" using assms by (auto simp: ts_normal_def ts_val_def TIME_MAX_def BILLION_def)
  moreover have "ti_sec (ts_diff t now) * 1000000000 \<le> \<bar>ti_val (ts_diff t now)\<bar>" using n(1) by (auto simp: ti_val_def isNormal_def BILLION_def)
  ultimately have "ti_sec (ts_diff t now) * 1000000000 < 2 ^ 63 * 1000000000" using n(2) by linarith
  then show ?thesis using n by simp
qed

text \<open>C26. How the thread sleeps until the waiter has something to do: with \<open>D\<close> the times the waiter has to act on (the timeouts of all objects in its list, and the end of
  \<^verbatim>\<open>Worker::run()\<close> when it has one), and when the waiter polls or has a waiting object (it suspends itself otherwise). When other fibers are runnable, the thread does not
  sleep: \<^verbatim>\<open>poll()\<close> has timeout 0, or is not called. Otherwise, without any time in \<open>D\<close>, the thread polls for ever; and for the earliest time \<open>t\<close> of \<open>D\<close>: without pollables,
  it sleeps exactly until \<open>t\<close>. With pollables, it polls for a number of milliseconds that is computed in single precision, for every rounding with the error bound of
  IEEE 754: the poll ends at most the 2097152nd part of the interval late, and less than one millisecond plus this part early. The number of
  milliseconds does not fit in \<^verbatim>\<open>int\<close>, which is undefined behaviour, only for a time that is 24.8 days or more away; all times are normalised.\<close>

theorem waiter_sleeps_until_due:
  assumes "float_ok fl" "waiter_inv s xs" "polling \<or> xs \<noteq> []" "ts_normal now" "\<forall>t \<in> deadlines s xs. ts_normal t"
  shows "waiter_sleep fl polling False now s = Some (if polling then PollFor 0 else NoSleep)
    \<and> (deadlines s xs = {} \<longrightarrow> waiter_sleep fl polling True now s = Some (PollFor (-1)))
    \<and> (deadlines s xs \<noteq> {} \<longrightarrow> (\<exists>t \<in> deadlines s xs. (\<forall>u \<in> deadlines s xs. t \<le> u)
      \<and> (\<not> polling \<longrightarrow> waiter_sleep fl polling True now s = Some (SleepUntil t))
      \<and> (polling \<longrightarrow> (case waiter_sleep fl polling True now s of
          Some r \<Rightarrow> \<exists>ms. r = PollFor ms \<and> 0 \<le> ms
            \<and> of_int ms * 1000000 \<le> max 0 (of_int (ts_val t - ts_val now)) * (1 + 1 / 2 ^ 21 :: rat)
            \<and> of_int (ts_val t - ts_val now) * (1 - 1 / 2 ^ 21 :: rat) < (of_int ms + 1) * 1000000
        | None \<Rightarrow> 2 ^ 31 * 1000000 \<le> \<bar>of_int (ts_val t - ts_val now)\<bar> * (1 + 1 / 2 ^ 21 :: rat)))))"
proof -
  note e = waiter_end_ok[OF assms(2)]
  obtain till where till: "waiter_end s = Some till" using e by (cases "waiter_end s") auto
  have a: "waiter_sleep fl polling False now s = Some (if polling then PollFor 0 else NoSleep)" by (simp add: waiter_sleep_def till)
  show ?thesis
  proof (cases till)
    case None
    then have n: "deadlines s xs = {}" using e till by simp
    then have "polling" using assms(3) by (auto simp: deadlines_def)
    then have "waiter_sleep fl polling True now s = Some (PollFor (-1))" by (simp add: waiter_sleep_def till None)
    then show ?thesis using a n by blast
  next
    case (Some t)
    then have t: "t \<in> deadlines s xs" "\<forall>u \<in> deadlines s xs. t \<le> u" using e till by simp_all
    have d: "isNormal (ts_diff t now)" "ti_sec (ts_diff t now) \<le> 2 ^ 63" "ti_val (ts_diff t now) = ts_val t - ts_val now"
      using ts_diff_ok[OF _ assms(4)] assms(5) t(1) by blast+
    have p: "waiter_sleep fl polling True now s = map_option PollFor (timeout_ms_of fl (ts_diff t now))" if polling
      by (simp add: waiter_sleep_def till Some that)
    have q: "waiter_sleep fl polling True now s = Some (SleepUntil t)" if "\<not> polling" by (simp add: waiter_sleep_def till Some that)
    have ok: "polling \<longrightarrow> (case waiter_sleep fl polling True now s of
          Some r \<Rightarrow> \<exists>ms. r = PollFor ms \<and> 0 \<le> ms
            \<and> of_int ms * 1000000 \<le> max 0 (of_int (ts_val t - ts_val now)) * (1 + 1 / 2 ^ 21 :: rat)
            \<and> of_int (ts_val t - ts_val now) * (1 - 1 / 2 ^ 21 :: rat) < (of_int ms + 1) * 1000000
        | None \<Rightarrow> 2 ^ 31 * 1000000 \<le> \<bar>of_int (ts_val t - ts_val now)\<bar> * (1 + 1 / 2 ^ 21 :: rat))"
      using timeout_ms_of_ok[OF assms(1) d(1,2)] p unfolding d(3) by (cases "timeout_ms_of fl (ts_diff t now)") simp_all
    show ?thesis using a t q ok by blast
  qed
qed

lemma float_ok_id: "float_ok id"
  by (simp add: float_ok_def)

theorem waiter_sleeps_until_due_witness:
  "\<exists>ms. waiter_sleep id True True (Timespec 2 0) (demo_sys\<lparr>wkr := (wkr demo_sys)\<lparr>m_end := Timespec 5 0\<rparr>\<rparr>) = Some (PollFor ms)
     \<and> 2999 \<le> ms \<and> ms \<le> 3000"
proof -
  let ?s = "demo_sys\<lparr>wkr := (wkr demo_sys)\<lparr>m_end := Timespec 5 0\<rparr>\<rparr>"
  have i: "waiter_inv ?s []" by (simp add: waiter_inv_def sl_inv_new demo_sys_def)
  have d: "deadlines ?s [] = {Timespec 5 0}" by (simp add: deadlines_def ts_isNull_def)
  have n: "ts_normal (Timespec 2 0)" "ts_normal (Timespec 5 0)" by (simp_all add: ts_normal_def TIME_MAX_def BILLION_def)
  have v: "ts_val (Timespec 5 0) - ts_val (Timespec 2 0) = 3000000000" by (simp add: ts_val_def BILLION_def)
  have "\<forall>t \<in> deadlines ?s []. ts_normal t" using d n by simp
  from waiter_sleeps_until_due[OF float_ok_id i disjI1[OF TrueI] n(1) this]
  have "case waiter_sleep id True True (Timespec 2 0) ?s of
      Some r \<Rightarrow> \<exists>ms. r = PollFor ms \<and> 0 \<le> ms \<and> of_int ms * 1000000 \<le> max 0 (of_int 3000000000) * (1 + 1 / 2 ^ 21 :: rat)
        \<and> of_int 3000000000 * (1 - 1 / 2 ^ 21 :: rat) < (of_int ms + 1) * 1000000
    | None \<Rightarrow> 2 ^ 31 * 1000000 \<le> \<bar>of_int 3000000000\<bar> * (1 + 1 / 2 ^ 21 :: rat)"
    unfolding d using v by (simp only: simp_thms bex_simps ball_simps insert_not_empty)
  then obtain ms where ms: "waiter_sleep id True True (Timespec 2 0) ?s = Some (PollFor ms)"
      "of_int ms * 1000000 \<le> 3000000000 * (1 + 1 / 2 ^ 21 :: rat)" "3000000000 * (1 - 1 / 2 ^ 21 :: rat) < (of_int ms + 1) * 1000000"
    by (cases "waiter_sleep id True True (Timespec 2 0) ?s") auto
  have "(of_int ms :: rat) < of_int 3001" using ms(2) by (simp add: field_simps)
  moreover have "of_int 2998 < (of_int ms :: rat)" using ms(3) by (simp add: field_simps)
  ultimately have "ms < 3001" "2998 < ms" by (simp_all only: of_int_less_iff)
  then show ?thesis using ms(1) by auto
qed

end
