(* ===== verification/Zth_SyncApi.thy ===== *)
theory Zth_SyncApi
  imports Zth_Waiter
begin

section \<open>The C interface of the synchronizers\<close>

text \<open>
  \<^verbatim>\<open>include/libzth/sync.h\<close>, the functions \<^verbatim>\<open>zth_mutex_*\<close>, \<^verbatim>\<open>zth_sem_*\<close>, \<^verbatim>\<open>zth_cond_*\<close>, \<^verbatim>\<open>zth_future_*\<close>,
  \<^verbatim>\<open>zth_gate_*\<close> and \<^verbatim>\<open>zth_mailbox_*\<close>. A handle is a C struct with one pointer \<^verbatim>\<open>p\<close> to an object, or null. The
  state has the pointers of all handles (\<open>handle\<close>), the live objects (\<open>objs\<close>), the memory that results are
  stored to (\<open>mem\<close>) and the system. An argument that is a pointer may be null: \<open>None\<close>.

  The result of \<^verbatim>\<open>new\<close> is an argument: an address that is not in use, or an exception. A function that
  blocks has the result \<open>None\<close> instead of an error code; the fiber goes on with it later. The cast of \<^verbatim>\<open>p\<close> to
  the wrong class is undefined in C++ and traps here.
\<close>

datatype sobj =
    MutexObj mutex | SemObj semaphore | CondObj signal | FutureObj "(nat, unit) future"
  | GateObj gate | MailboxObj "(nat, unit) mailbox"

record capi =
  handle :: "addr \<Rightarrow> addr option"
  objs :: "addr \<Rightarrow> sobj option"
  mem :: "addr \<Rightarrow> nat"
  csys :: sys

datatype new_result = New addr | Bad_alloc | Other_exception

subsection \<open>Handles\<close>

definition c_object :: "addr option \<Rightarrow> capi \<Rightarrow> addr option" where
  "c_object h c = (case h of None \<Rightarrow> None | Some x \<Rightarrow> handle c x)"

text \<open>The constructor of a synchronizer: the object, with its queues empty.\<close>

definition c_construct :: "addr \<Rightarrow> sobj \<Rightarrow> capi \<Rightarrow> capi" where
  "c_construct a obj c = c\<lparr>objs := (objs c)(a := Some obj),
     csys := (csys c)\<lparr>queues := (\<lambda>k. if q_owner k = a then [] else queues (csys c) k)\<rparr>\<rparr>"

definition c_init :: "new_result \<Rightarrow> sobj \<Rightarrow> addr option \<Rightarrow> capi \<Rightarrow> errno \<times> capi" where
  "c_init r obj h c = (case h of
     None \<Rightarrow> (EINVAL, c)
   | Some x \<Rightarrow>
       if handle c x \<noteq> None then (EINVAL, c)
       else (case r of
         New a \<Rightarrow> (E_OK, (c_construct a obj c)\<lparr>handle := (handle c)(x := Some a)\<rparr>)
       | Bad_alloc \<Rightarrow> (ENOMEM, c)
       | Other_exception \<Rightarrow> (EAGAIN, c)))"

text \<open>The destructor of \<^verbatim>\<open>Synchronizer<Size>\<close> asserts that nobody waits in its queues.\<close>

definition c_destroy :: "nat \<Rightarrow> addr option \<Rightarrow> capi \<Rightarrow> (errno \<times> capi) option" where
  "c_destroy n h c = (case h of
     None \<Rightarrow> Some (EINVAL, c)
   | Some x \<Rightarrow> (case handle c x of
       None \<Rightarrow> Some (E_OK, c)
     | Some a \<Rightarrow> do {
         zth_assert (\<forall>i < n. queues (csys c) (Qid a i) = []);
         Some (E_OK, c\<lparr>objs := (objs c)(a := None), handle := (handle c)(x := None)\<rparr>)
       }))"

text \<open>
  An operation on the object of a handle: \<open>cast\<close> takes the object apart, \<open>op\<close> works on it at address \<open>a\<close> in the
  system and gives an error code, or none when the fiber is parked.
\<close>

definition c_call ::
  "(sobj \<Rightarrow> 'm option) \<Rightarrow> ('m \<Rightarrow> sobj) \<Rightarrow> addr option \<Rightarrow>
   (addr \<Rightarrow> 'm \<Rightarrow> sys \<Rightarrow> (errno option \<times> 'm \<times> sys) option) \<Rightarrow> capi \<Rightarrow> (errno option \<times> capi) option" where
  "c_call cast wrap h op c = (case c_object h c of
     None \<Rightarrow> Some (Some EINVAL, c)
   | Some a \<Rightarrow> do {
       obj \<leftarrow> objs c a;
       m \<leftarrow> cast obj;
       (r, m, s) \<leftarrow> op a m (csys c);
       Some (r, c\<lparr>objs := (objs c)(a := Some (wrap m)), csys := s\<rparr>)
     })"

fun c_outcome :: "outcome \<Rightarrow> errno option" where
  "c_outcome Done = Some E_OK"
| "c_outcome Blocked = None"

fun as_mutex :: "sobj \<Rightarrow> mutex option" where
  "as_mutex (MutexObj m) = Some m" | "as_mutex _ = None"

fun as_sem :: "sobj \<Rightarrow> semaphore option" where
  "as_sem (SemObj m) = Some m" | "as_sem _ = None"

fun as_cond :: "sobj \<Rightarrow> signal option" where
  "as_cond (CondObj m) = Some m" | "as_cond _ = None"

fun as_future :: "sobj \<Rightarrow> (nat, unit) future option" where
  "as_future (FutureObj m) = Some m" | "as_future _ = None"

fun as_gate :: "sobj \<Rightarrow> gate option" where
  "as_gate (GateObj m) = Some m" | "as_gate _ = None"

fun as_mailbox :: "sobj \<Rightarrow> (nat, unit) mailbox option" where
  "as_mailbox (MailboxObj m) = Some m" | "as_mailbox _ = None"

subsection \<open>Mutex\<close>

definition zth_mutex_init :: "new_result \<Rightarrow> addr option \<Rightarrow> capi \<Rightarrow> errno \<times> capi" where
  "zth_mutex_init r = c_init r (MutexObj Mutex)"

definition zth_mutex_destroy :: "addr option \<Rightarrow> capi \<Rightarrow> (errno \<times> capi) option" where
  "zth_mutex_destroy = c_destroy 1"

definition zth_mutex_lock :: "run_env \<Rightarrow> timespec \<Rightarrow> addr option \<Rightarrow> capi \<Rightarrow> (errno option \<times> capi) option" where
  "zth_mutex_lock env now h = c_call as_mutex MutexObj h (\<lambda>a m s. do {
     (out, m, s) \<leftarrow> mutex_lock env now (Qid a 0) m s;
     Some (c_outcome out, m, s)
   })"

definition zth_mutex_trylock :: "addr option \<Rightarrow> capi \<Rightarrow> (errno option \<times> capi) option" where
  "zth_mutex_trylock h = c_call as_mutex MutexObj h (\<lambda>a m s.
     let (b, m) = mutex_trylock m in Some (Some (if b then E_OK else EBUSY), m, s))"

definition zth_mutex_unlock :: "addr option \<Rightarrow> capi \<Rightarrow> (errno option \<times> capi) option" where
  "zth_mutex_unlock h = c_call as_mutex MutexObj h (\<lambda>a m s. do {
     (m, s) \<leftarrow> mutex_unlock (Qid a 0) m s;
     Some (Some E_OK, m, s)
   })"

subsection \<open>Semaphore\<close>

definition zth_sem_init :: "new_result \<Rightarrow> addr option \<Rightarrow> nat \<Rightarrow> capi \<Rightarrow> errno \<times> capi" where
  "zth_sem_init r h value c =
     (if h = None \<or> c_object h c \<noteq> None then (EINVAL, c)
      else if value > COUNT_MAX then (EDOM, c)
      else c_init r (SemObj (Semaphore value)) h c)"

definition zth_sem_destroy :: "addr option \<Rightarrow> capi \<Rightarrow> (errno \<times> capi) option" where
  "zth_sem_destroy = c_destroy 1"

definition zth_sem_getvalue :: "addr option \<Rightarrow> addr option \<Rightarrow> capi \<Rightarrow> (errno option \<times> capi) option" where
  "zth_sem_getvalue h value c = (case (c_object h c, value) of
     (Some a, Some v) \<Rightarrow> do {
       obj \<leftarrow> objs c a;
       m \<leftarrow> as_sem obj;
       Some (Some E_OK, c\<lparr>mem := (mem c)(v := sem_value m)\<rparr>)
     }
   | _ \<Rightarrow> Some (Some EINVAL, c))"

text \<open>\<^verbatim>\<open>size_t\<close> has 64 bits, the count of a semaphore 32.\<close>

definition zth_sem_post :: "addr option \<Rightarrow> capi \<Rightarrow> (errno option \<times> capi) option" where
  "zth_sem_post h = c_call as_sem SemObj h (\<lambda>a m s.
     if sem_value m = SIZE_MOD - 1 then Some (Some EOVERFLOW, m, s)
     else do {
       (m, s) \<leftarrow> sem_release (Qid a 0) 1 m s;
       Some (Some E_OK, m, s)
     })"

definition zth_sem_wait :: "run_env \<Rightarrow> timespec \<Rightarrow> addr option \<Rightarrow> capi \<Rightarrow> (errno option \<times> capi) option" where
  "zth_sem_wait env now h = c_call as_sem SemObj h (\<lambda>a m s. do {
     (out, m, s) \<leftarrow> sem_acquire env now (Qid a 0) 1 m s;
     Some (c_outcome out, m, s)
   })"

definition zth_sem_trywait :: "run_env \<Rightarrow> timespec \<Rightarrow> addr option \<Rightarrow> capi \<Rightarrow> (errno option \<times> capi) option" where
  "zth_sem_trywait env now h = c_call as_sem SemObj h (\<lambda>a m s.
     if sem_value m = 0 then Some (Some EAGAIN, m, s)
     else do {
       (out, m, s) \<leftarrow> sem_acquire env now (Qid a 0) 1 m s;
       Some (c_outcome out, m, s)
     })"

subsection \<open>Condition\<close>

definition zth_cond_init :: "new_result \<Rightarrow> addr option \<Rightarrow> capi \<Rightarrow> errno \<times> capi" where
  "zth_cond_init r = c_init r (CondObj Signal)"

definition zth_cond_destroy :: "addr option \<Rightarrow> capi \<Rightarrow> (errno \<times> capi) option" where
  "zth_cond_destroy = c_destroy 1"

definition zth_cond_signal :: "addr option \<Rightarrow> capi \<Rightarrow> (errno option \<times> capi) option" where
  "zth_cond_signal h = c_call as_cond CondObj h (\<lambda>a m s. do {
     (m, s) \<leftarrow> signal_signal (Qid a 0) True False m s;
     Some (Some E_OK, m, s)
   })"

definition zth_cond_broadcast :: "addr option \<Rightarrow> capi \<Rightarrow> (errno option \<times> capi) option" where
  "zth_cond_broadcast h = c_call as_cond CondObj h (\<lambda>a m s. do {
     (m, s) \<leftarrow> signal_signalAll (Qid a 0) False m s;
     Some (Some E_OK, m, s)
   })"

definition zth_cond_wait :: "run_env \<Rightarrow> timespec \<Rightarrow> addr option \<Rightarrow> capi \<Rightarrow> (errno option \<times> capi) option" where
  "zth_cond_wait env now h = c_call as_cond CondObj h (\<lambda>a m s. do {
     (out, m, s) \<leftarrow> signal_wait env now (Qid a 0) m s;
     Some (c_outcome out, m, s)
   })"

subsection \<open>Future\<close>

definition zth_future_init :: "new_result \<Rightarrow> addr option \<Rightarrow> capi \<Rightarrow> errno \<times> capi" where
  "zth_future_init r = c_init r (FutureObj Future)"

definition zth_future_destroy :: "addr option \<Rightarrow> capi \<Rightarrow> (errno \<times> capi) option" where
  "zth_future_destroy = c_destroy 1"

definition zth_future_valid :: "addr option \<Rightarrow> capi \<Rightarrow> (errno option \<times> capi) option" where
  "zth_future_valid h = c_call as_future FutureObj h (\<lambda>a m s.
     Some (Some (if future_valid m then E_OK else EAGAIN), m, s))"

definition zth_future_set :: "addr option \<Rightarrow> nat \<Rightarrow> capi \<Rightarrow> (errno option \<times> capi) option" where
  "zth_future_set h value = c_call as_future FutureObj h (\<lambda>a m s.
     if future_valid m then Some (Some EAGAIN, m, s)
     else do {
       (m, s) \<leftarrow> future_set (Qid a 0) value m s;
       Some (Some E_OK, m, s)
     })"

text \<open>
  \<^verbatim>\<open>value()\<close> waits and then reads. The interface never stores an exception; it would end the process, as the
  function is \<^verbatim>\<open>noexcept\<close>.
\<close>

definition zth_future_get ::
  "run_env \<Rightarrow> timespec \<Rightarrow> addr option \<Rightarrow> addr option \<Rightarrow> capi \<Rightarrow> (errno option \<times> capi) option" where
  "zth_future_get env now h value c = (case (c_object h c, value) of
     (Some a, Some v) \<Rightarrow> do {
       obj \<leftarrow> objs c a;
       m \<leftarrow> as_future obj;
       (out, m, s) \<leftarrow> future_wait env now (Qid a 0) m (csys c);
       let c = c\<lparr>objs := (objs c)(a := Some (FutureObj m)), csys := s\<rparr>;
       (case out of
          Blocked \<Rightarrow> Some (None, c)
        | Done \<Rightarrow> do {
            r \<leftarrow> future_value m;
            (case r of Inl _ \<Rightarrow> None | Inr n \<Rightarrow> Some (Some E_OK, c\<lparr>mem := (mem c)(v := n)\<rparr>))
          })
     }
   | _ \<Rightarrow> Some (Some EINVAL, c))"

definition zth_future_wait :: "run_env \<Rightarrow> timespec \<Rightarrow> addr option \<Rightarrow> capi \<Rightarrow> (errno option \<times> capi) option" where
  "zth_future_wait env now h = c_call as_future FutureObj h (\<lambda>a m s. do {
     (out, m, s) \<leftarrow> future_wait env now (Qid a 0) m s;
     Some (c_outcome out, m, s)
   })"

subsection \<open>Gate\<close>

definition zth_gate_init :: "new_result \<Rightarrow> addr option \<Rightarrow> nat \<Rightarrow> capi \<Rightarrow> errno \<times> capi" where
  "zth_gate_init r h cnt = c_init r (GateObj (Gate cnt)) h"

definition zth_gate_destroy :: "addr option \<Rightarrow> capi \<Rightarrow> (errno \<times> capi) option" where
  "zth_gate_destroy = c_destroy 1"

definition zth_gate_pass :: "addr option \<Rightarrow> capi \<Rightarrow> (errno option \<times> capi) option" where
  "zth_gate_pass h = c_call as_gate GateObj h (\<lambda>a m s. do {
     (b, m, s) \<leftarrow> gate_pass (Qid a 0) m s;
     Some (Some (if b then E_OK else EBUSY), m, s)
   })"

definition zth_gate_wait :: "run_env \<Rightarrow> timespec \<Rightarrow> addr option \<Rightarrow> capi \<Rightarrow> (errno option \<times> capi) option" where
  "zth_gate_wait env now h = c_call as_gate GateObj h (\<lambda>a m s. do {
     (out, m, s) \<leftarrow> gate_wait env now (Qid a 0) m s;
     Some (c_outcome out, m, s)
   })"

subsection \<open>Mailbox\<close>

definition zth_mailbox_init :: "new_result \<Rightarrow> addr option \<Rightarrow> capi \<Rightarrow> errno \<times> capi" where
  "zth_mailbox_init r = c_init r (MailboxObj Mailbox)"

definition zth_mailbox_destroy :: "addr option \<Rightarrow> capi \<Rightarrow> (errno \<times> capi) option" where
  "zth_mailbox_destroy = c_destroy 2"

definition zth_mailbox_can_take :: "addr option \<Rightarrow> capi \<Rightarrow> (errno option \<times> capi) option" where
  "zth_mailbox_can_take h = c_call as_mailbox MailboxObj h (\<lambda>a m s. do {
     b \<leftarrow> can_take m s;
     Some (Some (if b then E_OK else EAGAIN), m, s)
   })"

definition zth_mailbox_can_put :: "addr option \<Rightarrow> capi \<Rightarrow> (errno option \<times> capi) option" where
  "zth_mailbox_can_put h = c_call as_mailbox MailboxObj h (\<lambda>a m s.
     Some (Some (if can_put m then E_OK else EAGAIN), m, s))"

definition zth_mailbox_put ::
  "run_env \<Rightarrow> timespec \<Rightarrow> addr option \<Rightarrow> nat \<Rightarrow> capi \<Rightarrow> (errno option \<times> capi) option" where
  "zth_mailbox_put env now h value = c_call as_mailbox MailboxObj h (\<lambda>a m s. do {
     (out, m, s) \<leftarrow> mailbox_put env now a (Inr value) m s;
     Some (c_outcome out, m, s)
   })"

definition zth_mailbox_take ::
  "run_env \<Rightarrow> timespec \<Rightarrow> addr option \<Rightarrow> addr option \<Rightarrow> capi \<Rightarrow> (errno option \<times> capi) option" where
  "zth_mailbox_take env now h value c = (case (c_object h c, value) of
     (Some a, Some v) \<Rightarrow> do {
       obj \<leftarrow> objs c a;
       m \<leftarrow> as_mailbox obj;
       (r, m, s) \<leftarrow> mailbox_take env now a m (csys c);
       let c = c\<lparr>objs := (objs c)(a := Some (MailboxObj m)), csys := s\<rparr>;
       (case r of
          None \<Rightarrow> Some (None, c)
        | Some (Inl _) \<Rightarrow> None
        | Some (Inr n) \<Rightarrow> Some (Some E_OK, c\<lparr>mem := (mem c)(v := n)\<rparr>))
     }
   | _ \<Rightarrow> Some (Some EINVAL, c))"

lemmas c_api_defs = c_call_def c_object_def
  zth_mutex_lock_def zth_mutex_trylock_def zth_mutex_unlock_def zth_sem_getvalue_def zth_sem_post_def zth_sem_wait_def
  zth_sem_trywait_def zth_cond_signal_def zth_cond_broadcast_def zth_cond_wait_def zth_future_valid_def
  zth_future_set_def zth_future_get_def zth_future_wait_def zth_gate_pass_def zth_gate_wait_def
  zth_mailbox_can_take_def zth_mailbox_can_put_def zth_mailbox_put_def zth_mailbox_take_def

lemmas c_life_defs = c_init_def c_destroy_def c_construct_def
  zth_mutex_init_def zth_sem_init_def zth_cond_init_def zth_future_init_def zth_gate_init_def zth_mailbox_init_def
  zth_mutex_destroy_def zth_sem_destroy_def zth_cond_destroy_def zth_future_destroy_def zth_gate_destroy_def
  zth_mailbox_destroy_def

declare c_api_defs [sync_ops] c_life_defs [sync_ops]

subsection \<open>Properties\<close>

lemma c_call_invalid: "c_object h c = None \<Longrightarrow> c_call cast wrap h f c = Some (Some EINVAL, c)"
  by (simp add: c_call_def)

text \<open>
  A handle that is null, or whose object does not exist, is refused: every operation returns \<^verbatim>\<open>EINVAL\<close> and
  changes nothing.
\<close>

theorem c_invalid_handle:
  assumes "c_object h c = None"
  shows "{zth_mutex_lock env now h c, zth_mutex_trylock h c, zth_mutex_unlock h c,
      zth_sem_getvalue h v c, zth_sem_post h c, zth_sem_wait env now h c, zth_sem_trywait env now h c,
      zth_cond_signal h c, zth_cond_broadcast h c, zth_cond_wait env now h c,
      zth_future_valid h c, zth_future_set h n c, zth_future_get env now h v c, zth_future_wait env now h c,
      zth_gate_pass h c, zth_gate_wait env now h c,
      zth_mailbox_can_take h c, zth_mailbox_can_put h c, zth_mailbox_put env now h n c, zth_mailbox_take env now h v c}
    = {Some (Some EINVAL, c)}"
  unfolding zth_mutex_lock_def zth_mutex_trylock_def zth_mutex_unlock_def zth_sem_post_def zth_sem_wait_def
    zth_sem_trywait_def zth_cond_signal_def zth_cond_broadcast_def zth_cond_wait_def zth_future_valid_def
    zth_future_set_def zth_future_wait_def zth_gate_pass_def zth_gate_wait_def
    zth_mailbox_can_take_def zth_mailbox_can_put_def zth_mailbox_put_def
  by (simp add: c_call_invalid[OF assms] zth_sem_getvalue_def zth_future_get_def zth_mailbox_take_def assms)

definition demo_capi :: capi where
  "demo_capi = \<lparr>handle = (\<lambda>_. None), objs = (\<lambda>_. None), mem = (\<lambda>_. 0), csys = demo_sys\<rparr>"

theorem c_invalid_handle_witness: "zth_mutex_unlock (Some 7) demo_capi = Some (Some EINVAL, demo_capi)"
proof -
  have "c_object (Some 7) demo_capi = None" by (simp add: c_object_def demo_capi_def)
  from c_invalid_handle[OF this, of demo_env ts_null None 0] show ?thesis by auto
qed

text \<open>
  Programs that use the interface. The type of a handle is fixed by its declaration (\<open>ty\<close>), and the compiler accepts only the functions for it.
\<close>

datatype ckind = KMutex | KSem | KCond | KFuture | KGate | KMailbox

fun kind_of :: "sobj \<Rightarrow> ckind" where
  "kind_of (MutexObj _) = KMutex" | "kind_of (SemObj _) = KSem" | "kind_of (CondObj _) = KCond"
| "kind_of (FutureObj _) = KFuture" | "kind_of (GateObj _) = KGate" | "kind_of (MailboxObj _) = KMailbox"

fun zth_init_of :: "ckind \<Rightarrow> nat \<Rightarrow> new_result \<Rightarrow> addr option \<Rightarrow> capi \<Rightarrow> errno \<times> capi" where
  "zth_init_of KMutex n r h c = zth_mutex_init r h c"
| "zth_init_of KSem n r h c = zth_sem_init r h n c"
| "zth_init_of KCond n r h c = zth_cond_init r h c"
| "zth_init_of KFuture n r h c = zth_future_init r h c"
| "zth_init_of KGate n r h c = zth_gate_init r h n c"
| "zth_init_of KMailbox n r h c = zth_mailbox_init r h c"

fun zth_destroy_of :: "ckind \<Rightarrow> addr option \<Rightarrow> capi \<Rightarrow> (errno \<times> capi) option" where
  "zth_destroy_of KMutex h c = zth_mutex_destroy h c"
| "zth_destroy_of KSem h c = zth_sem_destroy h c"
| "zth_destroy_of KCond h c = zth_cond_destroy h c"
| "zth_destroy_of KFuture h c = zth_future_destroy h c"
| "zth_destroy_of KGate h c = zth_gate_destroy h c"
| "zth_destroy_of KMailbox h c = zth_mailbox_destroy h c"

fun zth_uses :: "ckind \<Rightarrow> run_env \<Rightarrow> timespec \<Rightarrow> addr option \<Rightarrow> nat \<Rightarrow> addr option \<Rightarrow> capi \<Rightarrow> (errno option \<times> capi) option list" where
  "zth_uses KMutex env now v n h c = [zth_mutex_lock env now h c, zth_mutex_trylock h c, zth_mutex_unlock h c]"
| "zth_uses KSem env now v n h c = [zth_sem_getvalue h v c, zth_sem_post h c, zth_sem_wait env now h c, zth_sem_trywait env now h c]"
| "zth_uses KCond env now v n h c = [zth_cond_signal h c, zth_cond_broadcast h c, zth_cond_wait env now h c]"
| "zth_uses KFuture env now v n h c = [zth_future_valid h c, zth_future_set h n c, zth_future_get env now h v c, zth_future_wait env now h c]"
| "zth_uses KGate env now v n h c = [zth_gate_pass h c, zth_gate_wait env now h c]"
| "zth_uses KMailbox env now v n h c = [zth_mailbox_can_take h c, zth_mailbox_can_put h c, zth_mailbox_put env now h n c, zth_mailbox_take env now h v c]"

text \<open>
  A step of a program: a call with any arguments, where \<^verbatim>\<open>new\<close> gives unused memory or fails; or anything else that happens in the system, such as a parked fiber
  that goes on, which may change the objects but makes and removes none.
\<close>

definition same_kinds :: "capi \<Rightarrow> capi \<Rightarrow> bool" where
  "same_kinds c c' \<longleftrightarrow> handle c' = handle c \<and> (\<forall>a. map_option kind_of (objs c' a) = map_option kind_of (objs c a))"

inductive c_step :: "(addr \<Rightarrow> ckind) \<Rightarrow> capi \<Rightarrow> capi \<Rightarrow> bool" for ty where
  Init: "zth_init_of (ty x) n r (Some x) c = (e, c') \<Longrightarrow> \<forall>a. r = New a \<longrightarrow> objs c a = None \<Longrightarrow> c_step ty c c'"
| Destroy: "zth_destroy_of (ty x) (Some x) c = Some (e, c') \<Longrightarrow> c_step ty c c'"
| Use: "Some (e, c') \<in> set (zth_uses (ty x) env now v n (Some x) c) \<Longrightarrow> c_step ty c c'"
| Other: "same_kinds c c' \<Longrightarrow> c_step ty c c'"

text \<open>The handles and the objects correspond: a handle that is not null has an object of its type, and each object has exactly one handle.\<close>

definition handles_ok :: "(addr \<Rightarrow> ckind) \<Rightarrow> capi \<Rightarrow> bool" where
  "handles_ok ty c \<longleftrightarrow> (\<forall>x a. handle c x = Some a \<longrightarrow> map_option kind_of (objs c a) = Some (ty x))
     \<and> (\<forall>a. objs c a \<noteq> None \<longrightarrow> (\<exists>!x. handle c x = Some a))"

lemma same_kinds_ok: "same_kinds c c' \<Longrightarrow> handles_ok ty c \<Longrightarrow> handles_ok ty c'"
proof -
  assume s: "same_kinds c c'" and h: "handles_ok ty c"
  have "objs c' a = None \<longleftrightarrow> objs c a = None" for a using s unfolding same_kinds_def by (metis map_option_is_None)
  then show ?thesis using s h unfolding same_kinds_def handles_ok_def by simp
qed

lemma c_call_kinds:
  assumes "c_call cast wrap h f c = Some (e, c')" "\<And>obj m. cast obj = Some m \<Longrightarrow> kind_of obj = k" "\<And>m. kind_of (wrap m) = k"
  shows "same_kinds c c'"
  using assms by (auto simp: c_call_def same_kinds_def split: option.splits bind_splits)

lemma cast_kinds:
  "as_mutex obj = Some m1 \<Longrightarrow> kind_of obj = KMutex" "as_sem obj = Some m2 \<Longrightarrow> kind_of obj = KSem" "as_cond obj = Some m3 \<Longrightarrow> kind_of obj = KCond"
  "as_future obj = Some m4 \<Longrightarrow> kind_of obj = KFuture" "as_gate obj = Some m5 \<Longrightarrow> kind_of obj = KGate" "as_mailbox obj = Some m6 \<Longrightarrow> kind_of obj = KMailbox"
  by (cases obj; simp)+

lemma zth_future_get_kinds: "zth_future_get env now h v c = Some (e, c') \<Longrightarrow> same_kinds c c'"
  by (auto simp: zth_future_get_def same_kinds_def cast_kinds Let_def split: option.splits bind_splits outcome.splits sum.splits)

lemma zth_mailbox_take_kinds: "zth_mailbox_take env now h v c = Some (e, c') \<Longrightarrow> same_kinds c c'"
  by (auto simp: zth_mailbox_take_def same_kinds_def cast_kinds Let_def split: option.splits bind_splits sum.splits)

lemma zth_sem_getvalue_kinds: "zth_sem_getvalue h v c = Some (e, c') \<Longrightarrow> same_kinds c c'"
  by (auto simp: zth_sem_getvalue_def same_kinds_def split: option.splits bind_splits)

lemma zth_uses_kinds:
  assumes "Some (e, c') \<in> set (zth_uses k env now v n h c)"
  shows "same_kinds c c'"
proof -
  note calls = c_call_kinds[where cast = as_mutex and k = KMutex] c_call_kinds[where cast = as_sem and k = KSem]
    c_call_kinds[where cast = as_cond and k = KCond] c_call_kinds[where cast = as_future and k = KFuture]
    c_call_kinds[where cast = as_gate and k = KGate] c_call_kinds[where cast = as_mailbox and k = KMailbox]
  show ?thesis
  proof (cases k)
    case KMutex
    then have "\<exists>f. c_call as_mutex MutexObj h f c = Some (e, c')"
      using assms unfolding KMutex zth_uses.simps zth_mutex_lock_def zth_mutex_trylock_def zth_mutex_unlock_def by auto
    then show ?thesis using calls(1) cast_kinds(1) by (metis kind_of.simps(1))
  next
    case KSem
    then consider "zth_sem_getvalue h v c = Some (e, c')" | f where "c_call as_sem SemObj h f c = Some (e, c')"
      using assms unfolding KSem zth_uses.simps zth_sem_post_def zth_sem_wait_def zth_sem_trywait_def by auto
    then show ?thesis using calls(2) cast_kinds(2) zth_sem_getvalue_kinds by cases (metis kind_of.simps(2))+
  next
    case KCond
    then have "\<exists>f. c_call as_cond CondObj h f c = Some (e, c')"
      using assms unfolding KCond zth_uses.simps zth_cond_signal_def zth_cond_broadcast_def zth_cond_wait_def by auto
    then show ?thesis using calls(3) cast_kinds(3) by (metis kind_of.simps(3))
  next
    case KFuture
    then consider "zth_future_get env now h v c = Some (e, c')" | f where "c_call as_future FutureObj h f c = Some (e, c')"
      using assms unfolding KFuture zth_uses.simps zth_future_valid_def zth_future_set_def zth_future_wait_def by auto
    then show ?thesis using calls(4) cast_kinds(4) zth_future_get_kinds by cases (metis kind_of.simps(4))+
  next
    case KGate
    then have "\<exists>f. c_call as_gate GateObj h f c = Some (e, c')"
      using assms unfolding KGate zth_uses.simps zth_gate_pass_def zth_gate_wait_def by auto
    then show ?thesis using calls(5) cast_kinds(5) by (metis kind_of.simps(5))
  next
    case KMailbox
    then consider "zth_mailbox_take env now h v c = Some (e, c')" | f where "c_call as_mailbox MailboxObj h f c = Some (e, c')"
      using assms unfolding KMailbox zth_uses.simps zth_mailbox_can_take_def zth_mailbox_can_put_def zth_mailbox_put_def by auto
    then show ?thesis using calls(6) cast_kinds(6) zth_mailbox_take_kinds by cases (metis kind_of.simps(6))+
  qed
qed

text \<open>The number of queues of an object, and what the constructors and destructors do.\<close>

definition queues_of :: "ckind \<Rightarrow> nat" where
  "queues_of k = (if k = KMailbox then 2 else 1)"

lemma zth_destroy_of_eq: "zth_destroy_of k h c = c_destroy (queues_of k) h c"
  by (cases k) (simp_all add: queues_of_def zth_mutex_destroy_def zth_sem_destroy_def zth_cond_destroy_def zth_future_destroy_def
      zth_gate_destroy_def zth_mailbox_destroy_def)

lemma zth_init_of_eq:
  "\<exists>obj. kind_of obj = k \<and> zth_init_of k n r h c =
     (if k = KSem \<and> h \<noteq> None \<and> c_object h c = None \<and> n > COUNT_MAX then (EDOM, c) else c_init r obj h c)"
proof (cases k)
  case KSem
  then show ?thesis
    by (intro exI[of _ "SemObj (Semaphore n)"]) (auto simp: zth_sem_init_def c_init_def c_object_def split: option.splits)
qed (force simp: zth_mutex_init_def zth_cond_init_def zth_future_init_def zth_gate_init_def zth_mailbox_init_def)+

lemma handles_ok_step:
  assumes "c_step ty c c'" "handles_ok ty c"
  shows "handles_ok ty c'"
  using assms
proof (induction rule: c_step.induct)
  case (Init x n r c e c')
  obtain obj where o: "kind_of obj = ty x" "zth_init_of (ty x) n r (Some x) c =
     (if ty x = KSem \<and> Some x \<noteq> None \<and> c_object (Some x) c = None \<and> n > COUNT_MAX then (EDOM, c) else c_init r obj (Some x) c)"
    using zth_init_of_eq by blast
  show ?case
  proof (cases "c' = c")
    case False
    then obtain a where a: "r = New a" "handle c x = None" "c' = (c_construct a obj c)\<lparr>handle := (handle c)(x := Some a)\<rparr>"
      using Init(1) o(2) by (auto simp: c_init_def split: if_splits new_result.splits)
    have n: "objs c a = None" using Init(2) a(1) by simp
    have "handle c y \<noteq> Some a" for y using Init(3) n unfolding handles_ok_def by (metis None_eq_map_option_iff option.distinct(1))
    moreover have "\<exists>!y. handle c' y = Some b" if b: "objs c' b \<noteq> None" for b
    proof (cases "b = a")
      case False
      then have "objs c b \<noteq> None" using b a(3) by (auto simp: c_construct_def)
      moreover have "handle c' y = Some b \<longleftrightarrow> handle c y = Some b" for y using a(2,3) False by (auto simp: c_construct_def)
      ultimately show ?thesis using Init(3) unfolding handles_ok_def by simp
    qed (use a calculation in \<open>auto simp: c_construct_def\<close>)
    ultimately show ?thesis using Init(3) a n o(1) unfolding handles_ok_def by (auto simp: c_construct_def)
  qed (use Init in simp)
next
  case (Destroy x c e c')
  show ?case
  proof (cases "c' = c")
    case False
    then obtain a where a: "handle c x = Some a" "c' = c\<lparr>objs := (objs c)(a := None), handle := (handle c)(x := None)\<rparr>"
      using Destroy(1) by (auto simp: zth_destroy_of_eq c_destroy_def split: option.splits bind_splits)
    have o: "objs c a \<noteq> None" using Destroy(2) a(1) unfolding handles_ok_def by fastforce
    have u: "y = x" if "handle c y = Some a" for y using Destroy(2) a(1) o that unfolding handles_ok_def by blast
    have "\<exists>!y. handle c' y = Some b" if b: "objs c' b \<noteq> None" for b
    proof -
      have "b \<noteq> a" "objs c b \<noteq> None" using b a(2) by (auto split: if_splits)
      moreover have "handle c' y = Some b \<longleftrightarrow> handle c y = Some b" for y using a \<open>b \<noteq> a\<close> by auto
      ultimately show ?thesis using Destroy(2) unfolding handles_ok_def by simp
    qed
    moreover have "map_option kind_of (objs c' b) = Some (ty y)" if "handle c' y = Some b" for y b
    proof -
      have "y \<noteq> x" "handle c y = Some b" using that a(2) by (auto split: if_splits)
      then show ?thesis using u[of y] Destroy(2) a(2) unfolding handles_ok_def by auto
    qed
    ultimately show ?thesis unfolding handles_ok_def by blast
  qed (use Destroy in simp)
next
  case (Use e c' x env now v n c)
  then show ?case using zth_uses_kinds same_kinds_ok by blast
next
  case (Other c c')
  then show ?case using same_kinds_ok by blast
qed

text \<open>
  C37. The life of the handles and objects, over all programs with any number of handles of the six kinds. In every state that is reached from null handles:
  each object has exactly one handle, of its type, so that no object leaks and no handle dangles. \<^verbatim>\<open>init\<close> is refused for a null handle or one in
  use, and fails without an effect when a count is too large for a semaphore or when there is no memory; else the handle has a new object of its type with
  nobody waiting. \<^verbatim>\<open>destroy\<close> traps exactly when a fiber is parked in a queue of the object; else the object is gone, the handle is null, and
  nothing else is changed, and it may be repeated.
\<close>

theorem c_lifecycle:
  assumes "\<forall>x. handle c0 x = None" "\<forall>a. objs c0 a = None" "(c_step ty)\<^sup>*\<^sup>* c0 c"
  shows "(\<forall>x a. handle c x = Some a \<longrightarrow> map_option kind_of (objs c a) = Some (ty x))
    \<and> (\<forall>a. objs c a \<noteq> None \<longrightarrow> (\<exists>!x. handle c x = Some a))
    \<and> zth_init_of k n r None c = (EINVAL, c) \<and> zth_destroy_of k None c = Some (EINVAL, c)
    \<and> (case handle c x of
         Some a \<Rightarrow> zth_init_of (ty x) n r (Some x) c = (EINVAL, c)
           \<and> (if \<exists>i < (if ty x = KMailbox then 2 else 1). queues (csys c) (Qid a i) \<noteq> [] then zth_destroy_of (ty x) (Some x) c = None
              else zth_destroy_of (ty x) (Some x) c = Some (E_OK, c\<lparr>objs := (objs c)(a := None), handle := (handle c)(x := None)\<rparr>))
       | None \<Rightarrow> zth_destroy_of (ty x) (Some x) c = Some (E_OK, c)
           \<and> (if ty x = KSem \<and> n > 4294967295 then zth_init_of (ty x) n r (Some x) c = (EDOM, c)
              else case r of
                Bad_alloc \<Rightarrow> zth_init_of (ty x) n r (Some x) c = (ENOMEM, c)
              | Other_exception \<Rightarrow> zth_init_of (ty x) n r (Some x) c = (EAGAIN, c)
              | New a \<Rightarrow> \<exists>obj c'. zth_init_of (ty x) n r (Some x) c = (E_OK, c') \<and> kind_of obj = ty x
                  \<and> handle c' = (handle c)(x := Some a) \<and> objs c' = (objs c)(a := Some obj) \<and> (\<forall>i. queues (csys c') (Qid a i) = [])))"
proof -
  have "handles_ok ty c0" using assms(1,2) by (simp add: handles_ok_def)
  with assms(3) have ok: "handles_ok ty c" by (induction rule: rtranclp_induct) (auto intro: handles_ok_step)
  obtain obj where i: "kind_of obj = ty x" "zth_init_of (ty x) n r (Some x) c =
     (if ty x = KSem \<and> Some x \<noteq> None \<and> c_object (Some x) c = None \<and> n > COUNT_MAX then (EDOM, c) else c_init r obj (Some x) c)"
    using zth_init_of_eq by blast
  have 0: "zth_init_of k n r None c = (EINVAL, c)" using zth_init_of_eq[of k n r None c] by (auto simp: c_init_def)
  show ?thesis
  proof (cases "handle c x")
    case None
    have m: "n > COUNT_MAX \<longleftrightarrow> n > 4294967295" by (simp add: COUNT_MAX_def)
    have "case r of Bad_alloc \<Rightarrow> c_init r obj (Some x) c = (ENOMEM, c) | Other_exception \<Rightarrow> c_init r obj (Some x) c = (EAGAIN, c)
      | New a \<Rightarrow> \<exists>c'. c_init r obj (Some x) c = (E_OK, c') \<and> handle c' = (handle c)(x := Some a) \<and> objs c' = (objs c)(a := Some obj)
          \<and> (\<forall>i. queues (csys c') (Qid a i) = [])"
      using None by (cases r) (simp_all add: c_init_def c_construct_def)
    then show ?thesis using ok 0 i None unfolding handles_ok_def m
      by (auto simp: zth_destroy_of_eq c_destroy_def c_object_def split: new_result.splits)
  next
    case (Some a)
    then have "zth_init_of (ty x) n r (Some x) c = (EINVAL, c)" using i(2) by (simp add: c_object_def c_init_def)
    then show ?thesis using ok 0 Some unfolding handles_ok_def
      by (auto simp: zth_destroy_of_eq c_destroy_def queues_of_def zth_assert_def)
  qed
qed

theorem c_lifecycle_witness:
  "\<exists>c'. zth_sem_init (New 20) (Some 7) 3 demo_capi = (E_OK, c') \<and> handle c' 7 = Some 20 \<and> zth_sem_init (New 21) (Some 7) 3 c' = (EINVAL, c')"
proof -
  let ?ty = "\<lambda>_. KSem"
  have d: "\<forall>x. handle demo_capi x = None" "\<forall>a. objs demo_capi a = None" by (simp_all add: demo_capi_def)
  from c_lifecycle[OF d rtranclp.rtrancl_refl, of "?ty" undefined 3 "New 20" 7] d(1)
  obtain c' where c': "zth_sem_init (New 20) (Some 7) 3 demo_capi = (E_OK, c')" "handle c' = (handle demo_capi)(7 := Some 20)" by auto
  have "c_step ?ty demo_capi c'" by (rule c_step.Init[of ?ty 7 3 "New 20"]) (use c' d in auto)
  from c_lifecycle[OF d r_into_rtranclp[of "c_step ?ty", OF this], of undefined 3 "New 21" 7] c' show ?thesis by auto
qed

text \<open>
  \<^verbatim>\<open>zth_sem_trywait\<close> never parks the caller: it takes a unit when there is one and returns \<^verbatim>\<open>EAGAIN\<close>, without any
  effect, when there is none.
\<close>

theorem c_sem_trywait_never_blocks:
  assumes "c_object h c = Some a" "objs c a = Some (SemObj m)" "sync_inv (csys c)" "executing f (csys c)"
  shows "if m_count m = 0 then zth_sem_trywait env now h c = Some (Some EAGAIN, c)
    else (\<exists>c'. zth_sem_trywait env now h c = Some (Some E_OK, c') \<and> handle c' = handle c \<and> executing f (csys c')
      \<and> objs c' = (objs c)(a := Some (SemObj (m\<lparr>m_count := m_count m - 1\<rparr>))))"
proof (cases "m_count m = 0")
  case True
  then show ?thesis using assms by (simp add: zth_sem_trywait_def c_call_def sem_value_def fun_upd_idem)
next
  case False
  let ?m = "m\<lparr>m_count := m_count m - 1\<rparr>" and ?k = "Qid a 0"
  obtain s' where s': "sem_acquire env now ?k 1 m (csys c) = Some (Done, ?m, s')" "executing f s'"
  proof (cases "m_count ?m > 0 \<and> \<not> m_unblockAll ?m")
    case w: True
    have i: "sys_inv (csys c)" using assms(3) by (simp add: sync_inv_def)
    obtain r s' where "unblockFirst ?k False (csys c) = Some (r, s')" "executing f s'"
      using unblockFirst_ok[OF i _ assms(4), of ?k _ _ False] unblockFirst_none[of "csys c" ?k False] assms(4)
      by (cases "queues (csys c) ?k") auto
    then show ?thesis using that w False by (subst (asm) sem_acquire.simps) auto
  next
    case w: False
    have "sem_acquire env now ?k 1 m (csys c) = Some (Done, ?m, csys c)"
      using w False by (subst sem_acquire.simps) auto
    then show ?thesis using that assms(4) by blast
  qed
  then show ?thesis using False assms(1,2) by (simp add: zth_sem_trywait_def c_call_def sem_value_def)
qed

theorem c_sem_trywait_never_blocks_witness:
  "\<exists>c. fst (the (zth_sem_trywait demo_env ts_null (Some 7) c)) = Some EAGAIN"
proof -
  let ?c = "demo_capi\<lparr>handle := (\<lambda>_. None)(7 := Some 20), objs := (\<lambda>_. None)(20 := Some (SemObj (Semaphore 0)))\<rparr>"
  have "c_object (Some 7) ?c = Some 20" "objs ?c 20 = Some (SemObj (Semaphore 0))" "csys ?c = demo_sys"
    by (simp_all add: c_object_def demo_capi_def)
  from c_sem_trywait_never_blocks[OF this(1,2), of 3 demo_env ts_null] demo_sys_inv this(3) show ?thesis
    by (intro exI[of _ ?c]) (simp add: Semaphore_def)
qed

text \<open>
  \<^verbatim>\<open>zth_sem_post\<close> never returns \<^verbatim>\<open>EOVERFLOW\<close>: the count has 32 bits, and it is compared with the largest 64 bit
  value. At the largest count, the assertion in \<^verbatim>\<open>release()\<close> fails instead.
\<close>

theorem c_sem_post_never_overflow_error:
  assumes "c_object h c = Some a" "objs c a = Some (SemObj m)" "m_count m \<le> COUNT_MAX"
  shows "(\<forall>c'. zth_sem_post h c \<noteq> Some (Some EOVERFLOW, c')) \<and> (m_count m = COUNT_MAX \<longrightarrow> zth_sem_post h c = None)"
proof -
  have n: "sem_value m \<noteq> SIZE_MOD - 1" using assms(3) by (simp add: sem_value_def COUNT_MAX_def SIZE_MOD_def)
  have "sem_release k 1 m s = None" if "m_count m = COUNT_MAX" for k s
    using that by (simp add: sem_release_def wrap_add_def zth_assert_def COUNT_MAX_def)
  then show ?thesis using assms(1,2) n by (auto simp: zth_sem_post_def c_call_def split: bind_splits)
qed

theorem c_sem_post_never_overflow_error_witness:
  "\<exists>c. c_object (Some 7) c = Some 20 \<and> zth_sem_post (Some 7) c = None"
proof -
  let ?m = "Semaphore COUNT_MAX"
  let ?c = "demo_capi\<lparr>handle := (\<lambda>_. None)(7 := Some 20), objs := (\<lambda>_. None)(20 := Some (SemObj ?m))\<rparr>"
  have "c_object (Some 7) ?c = Some 20" "objs ?c 20 = Some (SemObj ?m)" by (simp_all add: c_object_def)
  from c_sem_post_never_overflow_error[OF this] this show ?thesis by (intro exI[of _ ?c]) (simp add: Semaphore_def)
qed

end
