(* ===== verification/Zth_Poller.thy ===== *)
theory Zth_Poller
  imports Zth_Waiter
begin

section \<open>Polling\<close>

text \<open>
  \<^verbatim>\<open>include/libzth/poller.h\<close> and \<^verbatim>\<open>src/poller.cpp\<close>: a server (\<^verbatim>\<open>PollerServer\<close>, in the build with \<^verbatim>\<open>poll()\<close> the
  class \<^verbatim>\<open>PollPoller\<close>) that polls the registered things of all fibers, and one client (\<^verbatim>\<open>PollerClient\<close>) per
  fiber that wants to poll.

  A pollable and a client are named by their address; \<open>pworld\<close> has their members, and the system. The
  server has its two vectors. The system call \<^verbatim>\<open>poll()\<close> is the argument \<open>os\<close>: it gets the items and gives an
  error or the number of items with events, and the items with their \<^verbatim>\<open>revents\<close> filled in. Whether an
  allocation fails is an argument, too. \<^verbatim>\<open>deinit()\<close> is not overridden by \<^verbatim>\<open>PollPoller\<close> and does nothing.
\<close>

subsection \<open>Pollables and items\<close>

datatype flag = PollIn | PollOut | PollErr | PollPri | PollHup

type_synonym events = "flag set"

record pollable =
  fd :: int
  events :: events
  revents :: events

text \<open>The bits of \<^verbatim>\<open>struct pollfd\<close>; the system reports a bad file descriptor by \<^verbatim>\<open>POLLNVAL\<close>.\<close>

datatype pollbit = POLLIN | POLLOUT | POLLERR | POLLPRI | POLLHUP | POLLNVAL

record pollfd =
  pf_fd :: int
  pf_events :: "pollbit set"
  pf_revents :: "pollbit set"

text \<open>\<^verbatim>\<open>PollPoller::init\<close>: \<^verbatim>\<open>POLLERR\<close> cannot be requested.\<close>

definition poll_init :: "pollable \<Rightarrow> errno + pollfd" where
  "poll_init p = Inr \<lparr>pf_fd = fd p,
     pf_events = (if PollIn \<in> events p then {POLLIN} else {}) \<union> (if PollOut \<in> events p then {POLLOUT} else {})
       \<union> (if PollPri \<in> events p then {POLLPRI} else {}) \<union> (if PollHup \<in> events p then {POLLHUP} else {}),
     pf_revents = {}\<rparr>"

text \<open>The events of an item, as \<^verbatim>\<open>PollPoller::doPoll\<close> translates them back.\<close>

definition poll_revents :: "pollbit set \<Rightarrow> events" where
  "poll_revents r = (if POLLIN \<in> r then {PollIn} else {}) \<union> (if POLLOUT \<in> r then {PollOut} else {})
     \<union> (if POLLERR \<in> r then {PollErr} else {}) \<union> (if POLLPRI \<in> r then {PollPri} else {})
     \<union> (if POLLHUP \<in> r then {PollHup} else {})"

subsection \<open>State\<close>

type_synonym metaitem = "addr \<times> addr option"

record server =
  m_metaItems :: "metaitem list"
  m_pollItems :: "pollfd list"

record pclient =
  m_wait :: addr
  m_pollables :: "addr list"
  m_result :: "addr list"

record pworld =
  pollables :: "addr \<Rightarrow> pollable"
  clients :: "addr \<Rightarrow> pclient"
  psys :: sys

definition PollerServer :: server where
  "PollerServer = \<lparr>m_metaItems = [], m_pollItems = []\<rparr>"

subsection \<open>The server\<close>

definition server_empty :: "server \<Rightarrow> bool" where
  "server_empty sv \<longleftrightarrow> m_metaItems sv = []"

text \<open>\<open>oom1\<close> and \<open>oom2\<close>: the first or the second allocation fails.\<close>

definition server_add ::
  "bool \<Rightarrow> bool \<Rightarrow> addr \<Rightarrow> addr option \<Rightarrow> server \<Rightarrow> pworld \<Rightarrow> (errno \<times> server \<times> pworld) option" where
  "server_add oom1 oom2 p client sv w =
     (if oom1 then Some (ENOMEM, sv, w)
      else let sv' = sv\<lparr>m_metaItems := m_metaItems sv @ [(p, client)]\<rparr> in
        if oom2 then Some (ENOMEM, sv'\<lparr>m_metaItems := butlast (m_metaItems sv')\<rparr>, w)
        else do {
          zth_assert (length (m_metaItems sv') \<ge> length (m_pollItems sv'));
          s \<leftarrow> waiter_resume (psys w);
          Some (E_OK, sv', w\<lparr>psys := s\<rparr>)
        })"

definition server_clear :: "server \<Rightarrow> server" where
  "server_clear sv = sv\<lparr>m_metaItems := [], m_pollItems := []\<rparr>"

definition server_remove_last :: "nat \<Rightarrow> server \<Rightarrow> server" where
  "server_remove_last n sv =
     (if n \<ge> length (m_metaItems sv) then server_clear sv
      else let k = length (m_metaItems sv) - n in
        sv\<lparr>m_metaItems := take k (m_metaItems sv),
           m_pollItems := (if length (m_pollItems sv) > k then take k (m_pollItems sv) else m_pollItems sv)\<rparr>)"

text \<open>The search of \<^verbatim>\<open>remove()\<close>, from the back: one more than the index, or 0.\<close>

fun find_back :: "metaitem \<Rightarrow> metaitem list \<Rightarrow> nat \<Rightarrow> nat" where
  "find_back m ms 0 = 0"
| "find_back m ms (Suc i) = (if ms ! i = m then Suc i else find_back m ms i)"

definition server_remove :: "addr \<Rightarrow> addr option \<Rightarrow> server \<Rightarrow> (errno \<times> server) option" where
  "server_remove p client sv =
     (let cnt = length (m_metaItems sv);
          i = find_back (p, client) (m_metaItems sv) cnt
      in if i = 0 then Some (ESRCH, sv)
         else let i = i - 1 in
           if i < cnt - 1 then
             let items = m_pollItems sv;
                 items = (if i < length items then
                     butlast (if i < length items - 1 then items[i := last items] else items)
                   else items);
                 metas = butlast ((m_metaItems sv)[i := last (m_metaItems sv)]);
                 sv = sv\<lparr>m_metaItems := metas, m_pollItems := items\<rparr>
             in do { zth_assert (length metas \<ge> length items); Some (E_OK, sv) }
           else
             let sv = server_remove_last 1 sv
             in do { zth_assert (length (m_metaItems sv) \<ge> length (m_pollItems sv)); Some (E_OK, sv) })"

text \<open>
  \<^verbatim>\<open>mirror()\<close> initialises the missing items, up to the first error; then it asserts that all are there.
\<close>

fun init_items :: "(pollable \<Rightarrow> errno + pollfd) \<Rightarrow> pollable list \<Rightarrow> pollfd list \<times> errno" where
  "init_items ini [] = ([], E_OK)"
| "init_items ini (p # ps) = (case ini p of
     Inl e \<Rightarrow> ([], e)
   | Inr x \<Rightarrow> (case init_items ini ps of (xs, e) \<Rightarrow> (x # xs, e)))"

definition mirror :: "(pollable \<Rightarrow> errno + pollfd) \<Rightarrow> pworld \<Rightarrow> server \<Rightarrow> (errno \<times> server) option" where
  "mirror ini w sv = do {
     let todo = drop (length (m_pollItems sv)) (m_metaItems sv);
     let (xs, e) = init_items ini (map (\<lambda>m. pollables w (fst m)) todo);
     let sv = sv\<lparr>m_pollItems := m_pollItems sv @ xs\<rparr>;
     zth_assert (length (m_metaItems sv) = length (m_pollItems sv));
     Some (e, sv)
   }"

text \<open>\<^verbatim>\<open>PollerClient::event\<close>.\<close>

definition client_event :: "addr \<Rightarrow> addr \<Rightarrow> pworld \<Rightarrow> pworld option" where
  "client_event c p w = do {
     let cl = clients w c;
     let w = w\<lparr>clients := (clients w)(c := cl\<lparr>m_result := m_result cl @ [p]\<rparr>)\<rparr>;
     let wt = waitables (psys w) (m_wait cl);
     if \<not> ts_isNull (w_timeout wt) then do {
       s \<leftarrow> waiter_wakeup (m_wait cl) (psys w);
       Some (w\<lparr>psys := s\<rparr>)
     } else (case w_fiber wt of
       Some f \<Rightarrow> do {
         wk \<leftarrow> worker_resume f (wkr (psys w));
         Some (w\<lparr>psys := (psys w)\<lparr>wkr := wk\<rparr>\<rparr>)
       }
     | None \<Rightarrow> Some w)
   }"

text \<open>\<^verbatim>\<open>PollerServer::event\<close>.\<close>

definition server_event :: "events \<Rightarrow> nat \<Rightarrow> server \<Rightarrow> pworld \<Rightarrow> pworld option" where
  "server_event rv i sv w = do {
     zth_assert (i < length (m_metaItems sv));
     let (p, client) = m_metaItems sv ! i;
     let w = w\<lparr>pollables := (pollables w)(p := (pollables w p)\<lparr>revents := rv\<rparr>)\<rparr>;
     if rv \<noteq> {} then (case client of None \<Rightarrow> Some w | Some c \<Rightarrow> client_event c p w)
     else Some w
   }"

text \<open>The loop of \<^verbatim>\<open>doPoll()\<close> over the items, until all \<open>res\<close> events are found.\<close>

fun dispatch :: "nat \<Rightarrow> nat \<Rightarrow> pollfd list \<Rightarrow> server \<Rightarrow> pworld \<Rightarrow> pworld option" where
  "dispatch res i [] sv w = Some w"
| "dispatch res i (x # xs) sv w =
     (if res > 0 then do {
        w \<leftarrow> server_event (poll_revents (pf_revents x)) i sv w;
        dispatch (if pf_revents x \<noteq> {} then res - 1 else res) (Suc i) xs sv w
      } else Some w)"

definition doPoll ::
  "(int \<Rightarrow> pollfd list \<Rightarrow> errno + (nat \<times> pollfd list)) \<Rightarrow> int \<Rightarrow> server \<Rightarrow> pworld \<Rightarrow> (errno \<times> server \<times> pworld) option" where
  "doPoll os timeout_ms sv w = (case os timeout_ms (m_pollItems sv) of
     Inl e \<Rightarrow> Some (e, sv, w)
   | Inr (res, items) \<Rightarrow>
       let sv = sv\<lparr>m_pollItems := items\<rparr> in
       if res = 0 then Some (E_OK, sv, w)
       else do {
         w \<leftarrow> dispatch res 0 items sv w;
         Some (E_OK, sv, w)
       })"

definition server_poll ::
  "(int \<Rightarrow> pollfd list \<Rightarrow> errno + (nat \<times> pollfd list)) \<Rightarrow> (pollable \<Rightarrow> errno + pollfd) \<Rightarrow> int \<Rightarrow> server \<Rightarrow> pworld
   \<Rightarrow> (errno \<times> server \<times> pworld) option" where
  "server_poll os ini timeout_ms sv w = do {
     (res, sv) \<leftarrow> mirror ini w sv;
     if res \<noteq> E_OK then Some (res, sv, w)
     else if m_metaItems sv = [] then Some (EINVAL, sv, w)
     else doPoll os timeout_ms sv w
   }"

text \<open>
  \<^verbatim>\<open>migrateTo()\<close>: \<open>oom\<close> tells whether the reservation fails, \<open>fails i\<close> whether the two allocations of the \<open>i\<close>th
  \<^verbatim>\<open>add()\<close> do. The rollback removes in the opposite order.
\<close>

fun migrate_rollback :: "metaitem list \<Rightarrow> server \<Rightarrow> server option" where
  "migrate_rollback [] t = Some t"
| "migrate_rollback (m # ms) t = do {
     (_, t) \<leftarrow> server_remove (fst m) (snd m) t;
     migrate_rollback ms t
   }"

fun migrate_add ::
  "(nat \<Rightarrow> bool \<times> bool) \<Rightarrow> metaitem list \<Rightarrow> metaitem list \<Rightarrow> server \<Rightarrow> pworld \<Rightarrow> (errno \<times> server \<times> pworld) option" where
  "migrate_add fails dn [] t w = Some (E_OK, t, w)"
| "migrate_add fails dn (m # ms) t w = do {
     let (o1, o2) = fails (length dn);
     (res, t, w) \<leftarrow> server_add o1 o2 (fst m) (snd m) t w;
     if res \<noteq> E_OK then do {
       t \<leftarrow> migrate_rollback dn t;
       Some (res, t, w)
     } else migrate_add fails (m # dn) ms t w
   }"

definition migrateTo ::
  "bool \<Rightarrow> (nat \<Rightarrow> bool \<times> bool) \<Rightarrow> server \<Rightarrow> server \<Rightarrow> pworld \<Rightarrow> (errno \<times> server \<times> server \<times> pworld) option" where
  "migrateTo oom fails sv t w =
     (if oom then Some (ENOMEM, sv, t, w)
      else do {
        (res, t, w) \<leftarrow> migrate_add fails [] (m_metaItems sv) t w;
        if res \<noteq> E_OK then Some (res, sv, t, w)
        else Some (E_OK, server_clear sv, t, w)
      })"

subsection \<open>The client\<close>

definition client_add :: "bool \<Rightarrow> addr \<Rightarrow> pclient \<Rightarrow> errno \<times> pclient" where
  "client_add oom p cl = (if oom then (ENOMEM, cl) else (E_OK, cl\<lparr>m_pollables := m_pollables cl @ [p]\<rparr>))"

fun client_find :: "addr \<Rightarrow> addr list \<Rightarrow> nat \<Rightarrow> nat" where
  "client_find p ps 0 = 0"
| "client_find p ps (Suc i) = (if ps ! i = p then Suc i else client_find p ps i)"

definition client_remove :: "addr \<Rightarrow> pclient \<Rightarrow> errno \<times> pclient" where
  "client_remove p cl =
     (let ps = m_pollables cl; i = client_find p ps (length ps) in
      if i = 0 then (EAGAIN, cl)
      else (E_OK, cl\<lparr>m_pollables := butlast (ps[i - 1 := last ps])\<rparr>))"

definition client_empty :: "pclient \<Rightarrow> bool" where
  "client_empty cl \<longleftrightarrow> m_pollables cl = []"

text \<open>
  \<^verbatim>\<open>PollerInterface::add(list)\<close> for the client: all or nothing. \<open>fails i\<close>: the \<open>i\<close>th \<^verbatim>\<open>add()\<close> runs out of memory.
\<close>

fun client_rollback :: "addr list \<Rightarrow> pclient \<Rightarrow> pclient" where
  "client_rollback [] cl = cl"
| "client_rollback (p # ps) cl = client_rollback ps (snd (client_remove p cl))"

fun client_add_each :: "(nat \<Rightarrow> bool) \<Rightarrow> addr list \<Rightarrow> addr list \<Rightarrow> pclient \<Rightarrow> errno \<times> pclient" where
  "client_add_each fails dn [] cl = (E_OK, cl)"
| "client_add_each fails dn (p # ps) cl = (case client_add (fails (length dn)) p cl of
     (res, cl) \<Rightarrow> if res \<noteq> E_OK then (res, client_rollback dn cl)
       else client_add_each fails (dn @ [p]) ps cl)"

definition client_add_list :: "bool \<Rightarrow> (nat \<Rightarrow> bool) \<Rightarrow> addr list \<Rightarrow> pclient \<Rightarrow> errno \<times> pclient" where
  "client_add_list oom fails ps cl = (if oom then (ENOMEM, cl) else client_add_each fails [] ps cl)"

text \<open>
  \<^verbatim>\<open>PollerClient::poll\<close> in the steps between which control may move: register and try (\<open>client_poll_try\<close>), what to
  do next (\<open>client_poll_next\<close>), and deregister (\<open>client_poll_end\<close>). The return values of \<^verbatim>\<open>add()\<close> and \<^verbatim>\<open>remove()\<close> are
  ignored, as in the code.
\<close>

fun register_all :: "(nat \<Rightarrow> bool \<times> bool) \<Rightarrow> nat \<Rightarrow> addr \<Rightarrow> addr list \<Rightarrow> server \<Rightarrow> pworld \<Rightarrow> (server \<times> pworld) option" where
  "register_all fails n c [] sv w = Some (sv, w)"
| "register_all fails n c (p # ps) sv w = do {
     let (o1, o2) = fails n;
     (_, sv, w) \<leftarrow> server_add o1 o2 p (Some c) sv w;
     register_all fails (Suc n) c ps sv w
   }"

fun deregister_all :: "addr \<Rightarrow> addr list \<Rightarrow> server \<Rightarrow> server option" where
  "deregister_all c [] sv = Some sv"
| "deregister_all c (p # ps) sv = do {
     (_, sv) \<leftarrow> server_remove p (Some c) sv;
     deregister_all c ps sv
   }"

datatype poll_next = PollDone | PollSuspend | PollWaitFor int

definition client_poll_try ::
  "(int \<Rightarrow> pollfd list \<Rightarrow> errno + (nat \<times> pollfd list)) \<Rightarrow> (nat \<Rightarrow> bool \<times> bool) \<Rightarrow> addr \<Rightarrow> server \<Rightarrow> pworld
   \<Rightarrow> (errno \<times> server \<times> pworld) option" where
  "client_poll_try os fails c sv w = do {
     let cl = (clients w c)\<lparr>m_result := []\<rparr>;
     let w = w\<lparr>clients := (clients w)(c := cl)\<rparr>;
     if m_pollables cl = [] then Some (EINVAL, sv, w)
     else do {
       (sv, w) \<leftarrow> register_all fails 0 c (m_pollables cl) sv w;
       let w = w\<lparr>psys := upd_waitable (m_wait cl) (\<lambda>_. TimedWaitable ts_null) (psys w)\<rparr>;
       server_poll os poll_init 0 sv w
     }
   }"

definition client_poll_next :: "int \<Rightarrow> errno \<Rightarrow> pclient \<Rightarrow> poll_next" where
  "client_poll_next timeout_ms res cl =
     (if m_result cl \<noteq> [] then PollDone
      else if res \<noteq> E_OK \<and> res \<noteq> EAGAIN then PollDone
      else if timeout_ms = 0 then PollDone
      else if timeout_ms < 0 then PollSuspend
      else PollWaitFor timeout_ms)"

definition poll_interval :: "int \<Rightarrow> TimeInterval" where
  "poll_interval timeout_ms = mk_interval (cdiv timeout_ms 1000) (cmod (timeout_ms * 1000000) 1000000000) False"

definition client_poll_end :: "errno \<Rightarrow> addr \<Rightarrow> server \<Rightarrow> pworld \<Rightarrow> (errno \<times> server) option" where
  "client_poll_end res c sv w = do {
     sv \<leftarrow> deregister_all c (rev (m_pollables (clients w c))) sv;
     Some (if m_result (clients w c) = [] \<and> res = E_OK then EAGAIN else res, sv)
   }"

text \<open>How the free function \<^verbatim>\<open>poll()\<close> for one pollable uses the result; \<open>None\<close>: it tries again.\<close>

definition poll_single :: "int \<Rightarrow> errno \<Rightarrow> addr list \<Rightarrow> pworld \<Rightarrow> errno option" where
  "poll_single timeout_ms err result w = (case result of
     [] \<Rightarrow> if (err = EINTR \<or> err = EAGAIN) \<and> timeout_ms = -1 then None else Some err
   | p # _ \<Rightarrow> if revents (pollables w p) \<inter> events (pollables w p) \<noteq> {} then Some E_OK else Some EIO)"

subsection \<open>The poller of the waiter\<close>

text \<open>
  \<^verbatim>\<open>Waiter::poller\<close>, \<^verbatim>\<open>polling\<close> and \<^verbatim>\<open>setPoller\<close>: the waiter polls the server it is told to use, or else its
  default one, which it makes when it is needed first; \<open>newp\<close> is the address of that new server (when there is no
  memory for it, the exception leaves everything as it was). The result of \<^verbatim>\<open>migrateTo()\<close> is ignored, as in the code.
  Migrating a server to itself is a loop over a list that it extends itself: that does not return (\<open>None\<close>), unless
  the list is empty.
\<close>

record pollers =
  servers :: "addr \<Rightarrow> server"
  m_poller :: "addr option"
  m_defaultPoller :: "addr option"

definition new_default :: "addr \<Rightarrow> pollers \<Rightarrow> pollers" where
  "new_default newp ps = ps\<lparr>m_defaultPoller := Some newp, servers := (servers ps)(newp := PollerServer)\<rparr>"

definition waiter_poller :: "addr \<Rightarrow> pollers \<Rightarrow> addr \<times> pollers" where
  "waiter_poller newp ps = (case m_poller ps of
     Some a \<Rightarrow> (a, ps)
   | None \<Rightarrow> (case m_defaultPoller ps of
       Some a \<Rightarrow> (a, ps)
     | None \<Rightarrow> (newp, new_default newp ps)))"

definition waiter_polling :: "pollers \<Rightarrow> bool" where
  "waiter_polling ps =
     (case (case m_poller ps of Some a \<Rightarrow> Some a | None \<Rightarrow> m_defaultPoller ps) of
        None \<Rightarrow> False
      | Some a \<Rightarrow> \<not> server_empty (servers ps a))"

definition migrate_servers ::
  "bool \<Rightarrow> (nat \<Rightarrow> bool \<times> bool) \<Rightarrow> addr \<Rightarrow> addr \<Rightarrow> pollers \<Rightarrow> pworld \<Rightarrow> (pollers \<times> pworld) option" where
  "migrate_servers oom fails a b ps w =
     (if a = b then
        (if oom then Some (ps, w)
         else if server_empty (servers ps a) then Some (ps\<lparr>servers := (servers ps)(a := server_clear (servers ps a))\<rparr>, w)
         else None)
      else do {
        (_, sv, t, w) \<leftarrow> migrateTo oom fails (servers ps a) (servers ps b) w;
        Some (ps\<lparr>servers := (servers ps)(a := sv, b := t)\<rparr>, w)
      })"

definition setPoller ::
  "bool \<Rightarrow> (nat \<Rightarrow> bool \<times> bool) \<Rightarrow> addr \<Rightarrow> addr option \<Rightarrow> pollers \<Rightarrow> pworld \<Rightarrow> (pollers \<times> pworld) option" where
  "setPoller oom fails newp p ps w = (case m_poller ps of
     None \<Rightarrow> Some (ps\<lparr>m_poller := p\<rparr>, w)
   | Some a \<Rightarrow> (case p of
       Some b \<Rightarrow> do {
         (ps, w) \<leftarrow> migrate_servers oom fails a b ps w;
         Some (ps\<lparr>m_poller := Some b\<rparr>, w)
       }
     | None \<Rightarrow> do {
         let ps = (if m_defaultPoller ps = None \<and> \<not> server_empty (servers ps a) then new_default newp ps else ps);
         (ps, w) \<leftarrow> (case m_defaultPoller ps of
             Some d \<Rightarrow> migrate_servers oom fails a d ps w
           | None \<Rightarrow> Some (ps, w));
         Some (ps\<lparr>m_poller := m_defaultPoller ps\<rparr>, w)
       }))"

subsection \<open>The vectors of the server\<close>

text \<open>What \<^verbatim>\<open>m_pollItems\<close> promises: it may be shorter than \<^verbatim>\<open>m_metaItems\<close>, but its items belong to the pollables there.\<close>

primrec poll_bit :: "flag \<Rightarrow> pollbit" where
  "poll_bit PollIn = POLLIN"
| "poll_bit PollOut = POLLOUT"
| "poll_bit PollErr = POLLERR"
| "poll_bit PollPri = POLLPRI"
| "poll_bit PollHup = POLLHUP"

definition item_for :: "pollfd \<Rightarrow> pollable \<Rightarrow> bool" where
  "item_for x p \<longleftrightarrow> pf_fd x = fd p \<and> pf_events x = poll_bit ` (events p - {PollErr})"

definition in_sync :: "pworld \<Rightarrow> server \<Rightarrow> bool" where
  "in_sync w sv \<longleftrightarrow> length (m_pollItems sv) \<le> length (m_metaItems sv)
     \<and> (\<forall>i < length (m_pollItems sv). item_for (m_pollItems sv ! i) (pollables w (fst (m_metaItems sv ! i))))"

definition mirrored :: "server \<Rightarrow> bool" where
  "mirrored sv \<longleftrightarrow> length (m_pollItems sv) = length (m_metaItems sv)"

lemma poll_init_item: "\<exists>x. poll_init p = Inr x \<and> item_for x p \<and> pf_revents x = {}"
proof -
  have "b \<in> poll_bit ` (events p - {PollErr}) \<longleftrightarrow> b \<in> (if PollIn \<in> events p then {POLLIN} else {})
      \<union> (if PollOut \<in> events p then {POLLOUT} else {}) \<union> (if PollPri \<in> events p then {POLLPRI} else {})
      \<union> (if PollHup \<in> events p then {POLLHUP} else {})" for b
  proof
    assume "b \<in> poll_bit ` (events p - {PollErr})"
    then obtain f where "b = poll_bit f" "f \<in> events p" "f \<noteq> PollErr" by blast
    then show "b \<in> (if PollIn \<in> events p then {POLLIN} else {})
      \<union> (if PollOut \<in> events p then {POLLOUT} else {}) \<union> (if PollPri \<in> events p then {POLLPRI} else {})
      \<union> (if PollHup \<in> events p then {POLLHUP} else {})" by (cases f) auto
  qed (force split: if_splits)
  then have "poll_bit ` (events p - {PollErr}) = (if PollIn \<in> events p then {POLLIN} else {})
      \<union> (if PollOut \<in> events p then {POLLOUT} else {}) \<union> (if PollPri \<in> events p then {POLLPRI} else {})
      \<union> (if PollHup \<in> events p then {POLLHUP} else {})" by (rule set_eqI)
  then show ?thesis unfolding poll_init_def item_for_def by simp
qed

lemma poll_revents_none: "poll_revents r = {} \<longleftrightarrow> r \<subseteq> {POLLNVAL}"
proof -
  have "b \<in> {POLLIN, POLLOUT, POLLERR, POLLPRI, POLLHUP, POLLNVAL}" for b :: pollbit by (cases b) simp_all
  then have "r \<subseteq> {POLLNVAL} \<longleftrightarrow> r \<inter> {POLLIN, POLLOUT, POLLERR, POLLPRI, POLLHUP} = {}" by fastforce
  then show ?thesis by (auto simp: poll_revents_def)
qed

lemma find_back_bound: "find_back m ms n \<le> n"
  by (induction n) auto

lemma find_back_0: "find_back m ms n = 0 \<longleftrightarrow> (\<forall>i < n. ms ! i \<noteq> m)"
  by (induction n) (auto simp: less_Suc_eq)

lemma find_back_nth: "find_back m ms n = Suc i \<Longrightarrow> ms ! i = m \<and> i < n"
  by (induction n) (auto split: if_splits)

lemma find_back_last: "find_back m (ms @ [m]) (Suc (length ms)) = Suc (length ms)"
  by simp

lemma server_remove_none: "(p, c) \<notin> set (m_metaItems sv) \<Longrightarrow> server_remove p c sv = Some (ESRCH, sv)"
proof -
  assume "(p, c) \<notin> set (m_metaItems sv)"
  then have "find_back (p, c) (m_metaItems sv) (length (m_metaItems sv)) = 0" unfolding find_back_0 by (metis nth_mem)
  then show ?thesis by (simp add: server_remove_def)
qed

lemma server_remove_found:
  assumes "(p, c) \<in> set (m_metaItems sv)" "length (m_pollItems sv) \<le> length (m_metaItems sv)"
  shows "\<exists>sv' i. server_remove p c sv = Some (E_OK, sv') \<and> i < length (m_metaItems sv) \<and> m_metaItems sv ! i = (p, c)
    \<and> find_back (p, c) (m_metaItems sv) (length (m_metaItems sv)) = Suc i
    \<and> m_metaItems sv' = butlast ((m_metaItems sv)[i := last (m_metaItems sv)])
    \<and> m_pollItems sv' = (if i < length (m_pollItems sv)
        then butlast ((m_pollItems sv)[i := last (m_pollItems sv)]) else m_pollItems sv)"
proof -
  let ?ms = "m_metaItems sv" and ?xs = "m_pollItems sv"
  have "find_back (p, c) ?ms (length ?ms) \<noteq> 0" using assms(1) unfolding find_back_0 by (auto simp: in_set_conv_nth)
  then obtain i where f: "find_back (p, c) ?ms (length ?ms) = Suc i" using not0_implies_Suc by blast
  then have i: "?ms ! i = (p, c)" "i < length ?ms" using find_back_nth by blast+
  show ?thesis
  proof (cases "i < length ?ms - 1")
    case True
    have x: "(if i < length ?xs - 1 then ?xs[i := last ?xs] else ?xs) = ?xs[i := last ?xs]" if "i < length ?xs"
    proof (cases "i < length ?xs - 1")
      case False
      then have "i = length ?xs - 1" using that by simp
      then show ?thesis using that by (metis False last_conv_nth length_0_conv less_nat_zero_code list_update_id)
    qed simp
    show ?thesis using f i True x assms(2) by (auto simp: server_remove_def Let_def)
  next
    case False
    then have l: "i = length ?ms - 1" using i(2) by simp
    have m: "butlast (?ms[i := last ?ms]) = take i ?ms"
      using l i(2) by (metis butlast_conv_take last_conv_nth length_0_conv less_nat_zero_code list_update_id)
    have x: "butlast (?xs[i := last ?xs]) = take i ?xs" if "i < length ?xs"
    proof -
      have "i = length ?xs - 1" using that l assms(2) by simp
      then show ?thesis using that by (metis butlast_conv_take last_conv_nth length_0_conv less_nat_zero_code list_update_id)
    qed
    have r: "m_metaItems (server_remove_last 1 sv) = take i ?ms"
        "m_pollItems (server_remove_last 1 sv) = (if i < length ?xs then take i ?xs else ?xs)"
      using l i(2) assms(2) by (auto simp: server_remove_last_def server_clear_def Let_def)
    have "server_remove p c sv = Some (E_OK, server_remove_last 1 sv)"
      using f False r i(2) assms(2) by (auto simp: server_remove_def Let_def)
    then show ?thesis using i m x r f by (intro exI[of _ "server_remove_last 1 sv"] exI[of _ i]) simp
  qed
qed

lemma server_remove_ok:
  assumes "(p, c) \<in> set (m_metaItems sv)" "in_sync w sv" "mirrored sv"
  shows "\<exists>sv'. server_remove p c sv = Some (E_OK, sv') \<and> mset (m_metaItems sv') = mset (m_metaItems sv) - {#(p, c)#}
    \<and> in_sync w sv' \<and> mirrored sv'"
proof -
  let ?ms = "m_metaItems sv" and ?xs = "m_pollItems sv"
  have l: "length ?xs = length ?ms" using assms(3) by (simp add: mirrored_def)
  obtain sv' i where r: "server_remove p c sv = Some (E_OK, sv')" "i < length ?ms" "?ms ! i = (p, c)"
      "m_metaItems sv' = butlast (?ms[i := last ?ms])" "m_pollItems sv' = butlast (?xs[i := last ?xs])"
    using server_remove_found[OF assms(1)] l by (metis le_refl)
  have "item_for (m_pollItems sv' ! j) (pollables w (fst (m_metaItems sv' ! j)))" if j: "j < length (m_pollItems sv')" for j
  proof -
    have jl: "j < length ?ms - 1" "j < length ?xs - 1" using j r(5) l by simp_all
    have last: "last ?xs = ?xs ! (length ?xs - 1)" "last ?ms = ?ms ! (length ?xs - 1)"
      using r(2) l by (metis last_conv_nth length_0_conv less_nat_zero_code)+
    have s: "item_for (?xs ! k) (pollables w (fst (?ms ! k)))" if "k < length ?xs" for k using assms(2) that by (simp add: in_sync_def)
    show ?thesis
      unfolding r(4,5) nth_fill_gap[OF jl(1)] nth_fill_gap[OF jl(2)]
      using s[of j] s[of "length ?xs - 1"] jl last r(2) l by auto
  qed
  then have "in_sync w sv'" using r(4,5) l by (simp add: in_sync_def)
  moreover have "mirrored sv'" using r(4,5) l by (simp add: mirrored_def)
  ultimately show ?thesis using r mset_fill_gap[OF r(2)] by auto
qed

subsection \<open>Waking the clients\<close>

text \<open>
  The fiber a client waits with: one that is suspended (no timeout), or one that sleeps on a timed object in
  the waiter's list. \<open>poller_inv\<close> says that these fibers can be woken; \<open>g\<close> is the fiber in control and \<open>xs\<close> the
  waiter's list.
\<close>

definition waits_on :: "pworld \<Rightarrow> addr list \<Rightarrow> addr \<Rightarrow> fid option" where
  "waits_on w xs c = (let a = m_wait (clients w c); wt = waitables (psys w) a in
     if ts_isNull (w_timeout wt) \<or> a \<in> set xs then w_fiber wt else None)"

definition client_ok :: "pworld \<Rightarrow> addr list \<Rightarrow> addr \<Rightarrow> bool" where
  "client_ok w xs c \<longleftrightarrow> (let a = m_wait (clients w c); wt = waitables (psys w) a in
     (if ts_isNull (w_timeout wt)
      then \<forall>f. w_fiber wt = Some f \<longrightarrow> linked (wkr (psys w)) f \<and> m_currentFiber (wkr (psys w)) \<noteq> Some f
      else a \<in> set xs \<longrightarrow> w_kind wt = Timed))"

definition poller_inv :: "fid \<Rightarrow> addr list \<Rightarrow> addr set \<Rightarrow> pworld \<Rightarrow> bool" where
  "poller_inv g xs C w \<longleftrightarrow> sys_inv (psys w) \<and> executing g (psys w) \<and> waiter_inv (psys w) xs \<and> (\<forall>c \<in> C. client_ok w xs c)"

lemma sl_contains_iff: "waiter_inv s xs \<Longrightarrow> sl_contains (tkey s) (waiting s) a \<longleftrightarrow> a \<in> set xs"
  by (simp add: waiter_inv_def sl_inv_def sl_contains_def contains_t_ok)

text \<open>Resuming any fiber is like resuming the waiter.\<close>

lemma fiber_resume_ok:
  assumes "sys_inv s" "linked (wkr s) f" "m_currentFiber (wkr s) \<noteq> Some f"
  shows "\<exists>w. worker_resume f (wkr s) = Some w \<and> sys_inv (s\<lparr>wkr := w\<rparr>) \<and> f \<in> set (m_runnableQueue w)
    \<and> (\<forall>f. linked w f \<longleftrightarrow> linked (wkr s) f) \<and> (\<forall>f. st (wkr s) f \<noteq> Suspended \<longrightarrow> m_fibers w f = m_fibers (wkr s) f)
    \<and> m_currentFiber w = m_currentFiber (wkr s) \<and> set (m_runnableQueue (wkr s)) \<subseteq> set (m_runnableQueue w)"
proof -
  let ?s = "s\<lparr>waiter_fiber := Some f\<rparr>"
  have "sys_inv ?s" "waiter_present ?s" using assms by (simp_all add: sys_inv_def parked_ok_def waiter_present_def)
  then obtain w where w: "waiter_resume ?s = Some (?s\<lparr>wkr := w\<rparr>)" "sys_inv (?s\<lparr>wkr := w\<rparr>)" "f \<in> set (m_runnableQueue w)"
      "\<forall>f. linked w f \<longleftrightarrow> linked (wkr s) f" "\<forall>f. st (wkr s) f \<noteq> Suspended \<longrightarrow> m_fibers w f = m_fibers (wkr s) f"
      "m_currentFiber w = m_currentFiber (wkr s)"
    using waiter_resume_ok[of ?s] by auto
  have r: "worker_resume f (wkr s) = Some w"
    using w(1) by (cases "worker_resume f (wkr s)") (auto simp: waiter_resume_def dest: arg_cong[where f = wkr])
  have "set (m_runnableQueue (wkr s)) \<subseteq> set (m_runnableQueue w)"
  proof (cases "st (wkr s) f = Suspended")
    case True
    then have "f \<in> set (m_suspendedQueue (wkr s))" using assms(1,2) by (auto simp: sys_inv_def winv_def queues_ok_def linked_def)
    then show ?thesis using resume_ok[of "wkr s" f] assms(1,3) r by (auto simp: sys_inv_def)
  next
    case False
    then show ?thesis using r by (simp add: worker_resume_def)
  qed
  then show ?thesis using w r by (intro exI[of _ w]) (auto simp: sys_inv_def parked_ok_def)
qed

lemma waiter_wakeup_ok:
  assumes "sys_inv s" "executing g s" "waiter_inv s xs" "a \<in> set xs" "w_kind (waitables s a) = Timed"
  shows "\<exists>s'. waiter_wakeup a s = Some s' \<and> sys_inv s' \<and> executing g s' \<and> waiter_inv s' (remove1 a xs)
    \<and> (\<forall>b. b \<noteq> a \<longrightarrow> waitables s' b = waitables s b) \<and> w_timeout (waitables s' a) = w_timeout (waitables s a)
    \<and> (\<forall>f. w_fiber (waitables s a) = Some f \<longrightarrow> f \<in> set (m_runnableQueue (wkr s')))
    \<and> set (m_runnableQueue (wkr s)) \<subseteq> set (m_runnableQueue (wkr s')) \<and> (\<forall>h. linked (wkr s) h \<longrightarrow> linked (wkr s') h)"
proof -
  have i: "sl_inv (tkey s) (waiting s) xs" "length xs < 2 ^ 64" using assms(3) by (auto simp: waiter_inv_def)
  obtain q where q: "sl_erase (tkey s) a (waiting s) = Some q" "sl_inv (tkey s) q (remove1 a xs)"
    using sl_erase_ok[OF i(1) assms(4)] i(2) by auto
  have d: "distinct xs" using sl.in_order[OF i(1)] by simp
  let ?s = "s\<lparr>waiting := q\<rparr>"
  have e: "waiter_erase a s = Some ?s" using q(1) by (simp add: waiter_erase_def)
  have sub: "set (remove1 a xs) = set xs - {a}" using d by simp
  have len: "length (remove1 a xs) < 2 ^ 64" using i(2) by (auto simp: length_remove1)
  have wi: "waiter_inv ?s (remove1 a xs)"
    using assms(3) q(2) len unfolding waiter_inv_def sub by auto
  show ?thesis
  proof (cases "w_fiber (waitables s a)")
    case None
    then show ?thesis
      using e wi assms sl_contains_iff[OF assms(3)] by (intro exI[of _ ?s]) (simp add: waiter_wakeup_def)
  next
    case (Some f)
    have f: "st (wkr s) f = Waiting" "\<not> is_linked s f" using assms(3,4) Some by (auto simp: waiter_inv_def)
    obtain s2 where s2: "sync_wakeup f True ?s = Some s2" "sys_inv s2" "queues s2 = queues s" "executing g s2" "same_rest ?s s2"
        "m_runnableQueue (wkr s2) = f # m_runnableQueue (wkr s)" "\<forall>h. h \<noteq> f \<longrightarrow> m_fibers (wkr s2) h = m_fibers (wkr s) h"
      using wake_sleeping[of ?s f g True] assms(1,2) f by auto
    have r: "waitables s2 = waitables s" "waiting s2 = q" "m_suspendedQueue (wkr s2) = m_suspendedQueue (wkr s)"
      using s2(5) by (simp_all add: same_rest_def)
    have o: "h \<noteq> f" if "b \<in> set (remove1 a xs)" "w_fiber (waitables s b) = Some h" for b h
    proof
      assume "h = f"
      have b: "b \<in> set xs" "b \<noteq> a" using that(1) d by auto
      have "waitable_ok (waitables s b)" using assms(3) b by (simp add: waiter_inv_def)
      then have "sleeper (waitables s b) = Some f" using that(2) \<open>h = f\<close>
        by (auto simp: sleeper_def waitable_ok_def split: wkind.splits)
      moreover have "sleeper (waitables s a) = Some f" using Some assms(5) by (simp add: sleeper_def)
      ultimately show False using assms(3,4) b unfolding waiter_inv_def by blast
    qed
    let ?t = "upd_waitable a resetFiber s2"
    have lk: "linked (wkr s2) h \<longleftrightarrow> h = f \<or> linked (wkr s) h" for h using s2(6) r(3) by (auto simp: linked_def)
    have "waiter_inv ?t (remove1 a xs)"
    proof (rule waiter_inv_keep[OF wi])
      show "sl_inv (tkey ?s) (waiting ?t) (remove1 a xs)" using q(2) r by simp
      show "\<forall>b\<in>set (remove1 a xs). waitables ?t b = waitables ?s b" using r d by simp
      show "\<forall>b\<in>set (remove1 a xs). \<forall>h. w_fiber (waitables ?s b) = Some h \<longrightarrow>
          st (wkr ?t) h = st (wkr ?s) h \<and> is_linked ?t h = is_linked ?s h"
        using o s2(3,7) lk by (auto simp: is_linked_def)
    qed
    then show ?thesis
      using e s2 r lk Some assms(4) sl_contains_iff[OF assms(3)]
      by (intro exI[of _ ?t]) (auto simp: waiter_wakeup_def resetFiber_def)
  qed
qed

text \<open>What an event does: the result of its client grows, and the client's fiber becomes runnable.\<close>

definition client_woken :: "fid \<Rightarrow> addr list \<Rightarrow> addr set \<Rightarrow> pworld \<Rightarrow> addr list \<Rightarrow> pworld \<Rightarrow> bool" where
  "client_woken g xs C w xs' w' \<longleftrightarrow> poller_inv g xs' C w' \<and> set xs' \<subseteq> set xs
     \<and> (\<forall>c. m_wait (clients w' c) = m_wait (clients w c) \<and> m_pollables (clients w' c) = m_pollables (clients w c))
     \<and> set (m_runnableQueue (wkr (psys w))) \<subseteq> set (m_runnableQueue (wkr (psys w')))
     \<and> (\<forall>c f. waits_on w xs c = Some f \<longrightarrow> waits_on w' xs' c = Some f \<or> f \<in> set (m_runnableQueue (wkr (psys w'))))"

lemma client_woken_refl: "poller_inv g xs C w \<Longrightarrow> client_woken g xs C w xs w"
  by (simp add: client_woken_def)

lemma client_woken_trans:
  "client_woken g xs C w ys v \<Longrightarrow> client_woken g ys C v zs u \<Longrightarrow> client_woken g xs C w zs u"
  unfolding client_woken_def by (elim conjE, intro conjI) (assumption | rule subset_trans | simp | blast)+

lemma client_event_ok:
  assumes "poller_inv g xs C w" "c \<in> C"
  shows "\<exists>xs' w'. client_event c p w = Some w' \<and> client_woken g xs C w xs' w' \<and> pollables w' = pollables w
    \<and> (\<forall>d. m_result (clients w' d) = m_result (clients w d) @ (if d = c then [p] else []))
    \<and> (\<forall>f. waits_on w xs c = Some f \<longrightarrow> f \<in> set (m_runnableQueue (wkr (psys w'))))"
proof -
  let ?cl = "clients w c" and ?s = "psys w" let ?a = "m_wait ?cl"
  define v where "v = w\<lparr>clients := (clients w)(c := ?cl\<lparr>m_result := m_result ?cl @ [p]\<rparr>)\<rparr>"
  have v: "psys v = ?s" "pollables v = pollables w" "\<And>d. m_wait (clients v d) = m_wait (clients w d)"
      "\<And>d. m_pollables (clients v d) = m_pollables (clients w d)"
      "\<And>d. m_result (clients v d) = m_result (clients w d) @ (if d = c then [p] else [])"
    by (simp_all add: v_def)
  have i: "sys_inv ?s" "executing g ?s" "waiter_inv ?s xs" and cok: "client_ok w xs c" and all: "\<forall>d\<in>C. client_ok w xs d"
    using assms by (auto simp: poller_inv_def)
  have pv: "poller_inv g xs C v" using assms(1) v by (simp add: poller_inv_def client_ok_def Let_def)
  have wv: "waits_on v xs = waits_on w xs" using v by (simp add: waits_on_def fun_eq_iff)
  show ?thesis
  proof (cases "ts_isNull (w_timeout (waitables ?s ?a))")
    case False
    show ?thesis
    proof (cases "?a \<in> set xs")
      case True
      have k: "w_kind (waitables ?s ?a) = Timed" using cok False True by (simp add: client_ok_def Let_def)
      obtain s' where s': "waiter_wakeup ?a ?s = Some s'" "sys_inv s'" "executing g s'" "waiter_inv s' (remove1 ?a xs)"
          "\<forall>b. b \<noteq> ?a \<longrightarrow> waitables s' b = waitables ?s b" "w_timeout (waitables s' ?a) = w_timeout (waitables ?s ?a)"
          "\<forall>f. w_fiber (waitables ?s ?a) = Some f \<longrightarrow> f \<in> set (m_runnableQueue (wkr s'))"
          "set (m_runnableQueue (wkr ?s)) \<subseteq> set (m_runnableQueue (wkr s'))" "\<forall>h. linked (wkr ?s) h \<longrightarrow> linked (wkr s') h"
        using waiter_wakeup_ok[OF i True k] by (elim exE conjE) (rule that)
      let ?w = "v\<lparr>psys := s'\<rparr>"
      have ok: "client_ok ?w (remove1 ?a xs) d" if "d \<in> C" for d
      proof (cases "m_wait (clients w d) = ?a")
        case True
        then show ?thesis using False s'(6) v(3) sl.in_order[of "tkey ?s" "waiting ?s" xs] i(3)
          by (simp add: client_ok_def waiter_inv_def Let_def)
      next
        case o: False
        have "client_ok w xs d" using all that by blast
        moreover have "m_currentFiber (wkr s') = m_currentFiber (wkr ?s)" using i(2) s'(3) by (simp add: executing_def)
        ultimately show ?thesis using o s'(5,9) v(3) by (auto simp: client_ok_def Let_def dest: notin_set_remove1)
      qed
      have "waits_on ?w (remove1 ?a xs) d = Some f \<or> f \<in> set (m_runnableQueue (wkr s'))" if "waits_on w xs d = Some f" for d f
        using that s'(5,7) v(3) by (cases "m_wait (clients w d) = ?a") (auto simp: waits_on_def Let_def split: if_splits)
      then have "client_woken g xs C w (remove1 ?a xs) ?w"
        using s' ok v set_remove1_subset[of ?a xs] by (auto simp: client_woken_def poller_inv_def)
      moreover have "\<forall>f. waits_on w xs c = Some f \<longrightarrow> f \<in> set (m_runnableQueue (wkr s'))"
        using s'(7) by (auto simp: waits_on_def Let_def split: if_splits)
      moreover have "client_event c p w = Some ?w"
        using False s'(1) by (simp add: client_event_def v_def[symmetric] v Let_def)
      ultimately show ?thesis using v by (intro exI[of _ "remove1 ?a xs"] exI[of _ ?w]) simp
    next
      case out: False
      have "waiter_wakeup ?a ?s = Some ?s" using out sl_contains_iff[OF i(3)] by (simp add: waiter_wakeup_def)
      then have "client_event c p w = Some v" using False v(1) by (simp add: client_event_def v_def[symmetric] Let_def)
      moreover have "client_woken g xs C w xs v" using pv wv v by (simp add: client_woken_def)
      moreover have "waits_on w xs c = None" using False out by (simp add: waits_on_def Let_def)
      ultimately show ?thesis using v by (intro exI[of _ xs] exI[of _ v]) simp
    qed
  next
    case True
    show ?thesis
    proof (cases "w_fiber (waitables ?s ?a)")
      case None
      then have "client_event c p w = Some v" using True v(1) by (simp add: client_event_def v_def[symmetric] Let_def)
      moreover have "client_woken g xs C w xs v" using pv wv v by (simp add: client_woken_def)
      moreover have "waits_on w xs c = None" using True None by (simp add: waits_on_def Let_def)
      ultimately show ?thesis using v by (intro exI[of _ xs] exI[of _ v]) simp
    next
      case (Some f)
      have f: "linked (wkr ?s) f" "m_currentFiber (wkr ?s) \<noteq> Some f" using cok True Some by (auto simp: client_ok_def Let_def)
      obtain wk where wk: "worker_resume f (wkr ?s) = Some wk" "sys_inv (?s\<lparr>wkr := wk\<rparr>)" "f \<in> set (m_runnableQueue wk)"
          "\<forall>f. linked wk f \<longleftrightarrow> linked (wkr ?s) f" "\<forall>f. st (wkr ?s) f \<noteq> Suspended \<longrightarrow> m_fibers wk f = m_fibers (wkr ?s) f"
          "m_currentFiber wk = m_currentFiber (wkr ?s)" "set (m_runnableQueue (wkr ?s)) \<subseteq> set (m_runnableQueue wk)"
        using fiber_resume_ok[OF i(1) f] by (elim exE conjE) (rule that)
      let ?w = "v\<lparr>psys := ?s\<lparr>wkr := wk\<rparr>\<rparr>"
      have "executing g (?s\<lparr>wkr := wk\<rparr>)" using i(2) wk(5,6) by (simp add: executing_def)
      moreover have "waiter_inv (?s\<lparr>wkr := wk\<rparr>) xs"
        by (rule waiter_inv_keep[OF i(3)]) (use i(3) wk(4,5) in \<open>auto simp: waiter_inv_def is_linked_def\<close>)
      moreover have "client_ok ?w xs d" if "d \<in> C" for d
        using bspec[OF all that] wk(4,6) v by (simp add: client_ok_def Let_def split: if_splits)
      ultimately have "poller_inv g xs C ?w" using wk(2) by (simp add: poller_inv_def)
      then have "client_woken g xs C w xs ?w" using v wk(7) by (simp add: client_woken_def waits_on_def)
      moreover have "client_event c p w = Some ?w"
        using True Some wk(1) by (simp add: client_event_def v_def[symmetric] v Let_def)
      moreover have "waits_on w xs c = Some f" using True Some by (simp add: waits_on_def Let_def)
      ultimately show ?thesis using v wk(3) by (intro exI[of _ xs] exI[of _ ?w]) simp
    qed
  qed
qed

subsection \<open>Polling delivers the events\<close>

text \<open>
  The pollables that a client should get, in order: those it has registered for which the system reports anything; \<^verbatim>\<open>POLLNVAL\<close> has no counterpart among the
  flags of a pollable. The flags should be those that correspond to the reported bits.
\<close>

definition delivered :: "metaitem list \<Rightarrow> pollfd list \<Rightarrow> addr \<Rightarrow> addr list" where
  "delivered ms ys c =
     map (\<lambda>(m, y). fst m) (filter (\<lambda>(m, y). snd m = Some c \<and> \<not> pf_revents y \<subseteq> {POLLNVAL}) (zip ms ys))"

text \<open>What \<^verbatim>\<open>poll()\<close> of the system promises: it writes only \<^verbatim>\<open>revents\<close>, and returns how many of them are not zero.\<close>

definition poll_posix :: "(int \<Rightarrow> pollfd list \<Rightarrow> errno + (nat \<times> pollfd list)) \<Rightarrow> bool" where
  "poll_posix os \<longleftrightarrow> (\<forall>t xs. case os t xs of
     Inl e \<Rightarrow> e \<noteq> E_OK
   | Inr (res, ys) \<Rightarrow> map (\<lambda>x. (pf_fd x, pf_events x)) ys = map (\<lambda>x. (pf_fd x, pf_events x)) xs
       \<and> res = length (filter (\<lambda>y. pf_revents y \<noteq> {}) ys))"

definition same_request :: "pworld \<Rightarrow> pworld \<Rightarrow> bool" where
  "same_request w w' \<longleftrightarrow> (\<forall>p. fd (pollables w' p) = fd (pollables w p) \<and> events (pollables w' p) = events (pollables w p))"

lemma delivered_Cons:
  "delivered (m # ms) (y # ys) c =
     (if snd m = Some c \<and> poll_revents (pf_revents y) \<noteq> {} then [fst m] else []) @ delivered ms ys c"
  by (simp add: delivered_def poll_revents_none)

lemma poll_revents_bits: "poll_revents r = {f. poll_bit f \<in> r}"
proof (rule set_eqI)
  fix f
  show "f \<in> poll_revents r \<longleftrightarrow> f \<in> {f. poll_bit f \<in> r}" by (cases f) (simp_all add: poll_revents_def)
qed

lemma delivered_none: "\<forall>y \<in> set ys. pf_revents y = {} \<Longrightarrow> delivered ms ys c = []"
  by (auto simp: delivered_def filter_empty_conv dest: set_zip_rightD)

lemma server_event_ok:
  assumes "poller_inv g xs C w" "i < length (m_metaItems sv)" "m_metaItems sv ! i = (p, cl)" "set_option cl \<subseteq> C"
  shows "\<exists>xs' w'. server_event rv i sv w = Some w' \<and> client_woken g xs C w xs' w' \<and> same_request w w'
    \<and> pollables w' = (pollables w)(p := (pollables w p)\<lparr>revents := rv\<rparr>)
    \<and> (\<forall>d. m_result (clients w' d) = m_result (clients w d) @ (if cl = Some d \<and> rv \<noteq> {} then [p] else []))
    \<and> (\<forall>c f. rv \<noteq> {} \<longrightarrow> cl = Some c \<longrightarrow> waits_on w xs c = Some f \<longrightarrow> f \<in> set (m_runnableQueue (wkr (psys w'))))"
proof -
  define v where "v = w\<lparr>pollables := (pollables w)(p := (pollables w p)\<lparr>revents := rv\<rparr>)\<rparr>"
  have v: "psys v = psys w" "clients v = clients w" "pollables v = (pollables w)(p := (pollables w p)\<lparr>revents := rv\<rparr>)"
    by (simp_all add: v_def)
  have pv: "poller_inv g xs C v" using assms(1) v by (simp add: poller_inv_def client_ok_def Let_def)
  have wv: "waits_on v xs = waits_on w xs" using v by (simp add: waits_on_def fun_eq_iff)
  have wo: "client_woken g xs C w ys u" if "client_woken g xs C v ys u" for ys u
    using that v wv by (simp add: client_woken_def)
  have sr: "same_request w u" if "pollables u = pollables v" for u using that v(3) by (simp add: same_request_def)
  show ?thesis
  proof (cases "rv \<noteq> {} \<and> cl \<noteq> None")
    case True
    then obtain c where c: "cl = Some c" "c \<in> C" using assms(4) by auto
    obtain xs' w' where w': "client_event c p v = Some w'" "client_woken g xs C v xs' w'" "pollables w' = pollables v"
        "\<forall>d. m_result (clients w' d) = m_result (clients v d) @ (if d = c then [p] else [])"
        "\<forall>f. waits_on v xs c = Some f \<longrightarrow> f \<in> set (m_runnableQueue (wkr (psys w')))"
      using client_event_ok[OF pv c(2), of p] by (elim exE conjE) (rule that)
    have "server_event rv i sv w = Some w'"
      using assms(2,3) True c(1) w'(1) by (simp add: server_event_def v_def)
    then show ?thesis using w' wo sr v wv c(1) True by (intro exI[of _ xs'] exI[of _ w']) auto
  next
    case False
    then have "server_event rv i sv w = Some v" using assms(2,3) by (auto simp: server_event_def v_def Let_def)
    then show ?thesis using wo[OF client_woken_refl[OF pv]] sr v False by (intro exI[of _ xs] exI[of _ v]) auto
  qed
qed

lemma same_request_trans: "same_request w v \<Longrightarrow> same_request v u \<Longrightarrow> same_request w u"
  by (simp add: same_request_def)

text \<open>The loop may stop at the last event: nothing is behind it.\<close>

lemma dispatch_ok:
  assumes "poller_inv g xs C w" "i + length ys = length (m_metaItems sv)" "res = length (filter (\<lambda>y. pf_revents y \<noteq> {}) ys)"
    "\<forall>m \<in> set (m_metaItems sv). set_option (snd m) \<subseteq> C"
  shows "\<exists>xs' w'. dispatch res i ys sv w = Some w' \<and> client_woken g xs C w xs' w' \<and> same_request w w'
    \<and> (\<forall>c. m_result (clients w' c) = m_result (clients w c) @ delivered (drop i (m_metaItems sv)) ys c)
    \<and> (\<forall>p. p \<notin> fst ` set (drop i (m_metaItems sv)) \<longrightarrow> pollables w' p = pollables w p)
    \<and> (distinct (map fst (drop i (m_metaItems sv))) \<longrightarrow> (\<forall>j < length ys. pf_revents (ys ! j) \<noteq> {} \<longrightarrow>
        revents (pollables w' (fst (m_metaItems sv ! (i + j)))) = poll_revents (pf_revents (ys ! j))))
    \<and> (\<forall>c f. delivered (drop i (m_metaItems sv)) ys c \<noteq> [] \<longrightarrow> waits_on w xs c = Some f
        \<longrightarrow> f \<in> set (m_runnableQueue (wkr (psys w'))))"
  using assms(1-3)
proof (induction ys arbitrary: i res w xs)
  case Nil
  then show ?case using client_woken_refl[OF Nil(1)] by (intro exI[of _ xs] exI[of _ w]) (simp add: delivered_def same_request_def)
next
  case (Cons y ys)
  let ?ms = "m_metaItems sv"
  have i: "i < length ?ms" using Cons.prems(2) by simp
  have dr: "drop i ?ms = ?ms ! i # drop (Suc i) ?ms" using i by (simp add: Cons_nth_drop_Suc)
  show ?case
  proof (cases "res = 0")
    case True
    then have "filter (\<lambda>y. pf_revents y \<noteq> {}) (y # ys) = []" using Cons.prems(3) by (simp only: length_0_conv)
    then have n: "\<forall>z \<in> set (y # ys). pf_revents z = {}" unfolding filter_empty_conv by blast
    then have "pf_revents ((y # ys) ! j) = {}" if "j < length (y # ys)" for j using that nth_mem by blast
    then show ?thesis
      using True delivered_none[OF n] client_woken_refl[OF Cons.prems(1)]
      by (intro exI[of _ xs] exI[of _ w]) (simp add: same_request_def)
  next
    case False
    obtain p cl where m: "?ms ! i = (p, cl)" by fastforce
    then have cl: "set_option cl \<subseteq> C" using assms(4) i nth_mem by (metis snd_conv)
    let ?rv = "poll_revents (pf_revents y)"
    obtain xs1 w1 where w1: "server_event ?rv i sv w = Some w1" "client_woken g xs C w xs1 w1" "same_request w w1"
        "pollables w1 = (pollables w)(p := (pollables w p)\<lparr>revents := ?rv\<rparr>)"
        "\<forall>d. m_result (clients w1 d) = m_result (clients w d) @ (if cl = Some d \<and> ?rv \<noteq> {} then [p] else [])"
        "\<forall>c f. ?rv \<noteq> {} \<longrightarrow> cl = Some c \<longrightarrow> waits_on w xs c = Some f \<longrightarrow> f \<in> set (m_runnableQueue (wkr (psys w1)))"
      using server_event_ok[OF Cons.prems(1) i m cl, of ?rv] by (elim exE conjE) (rule that)
    let ?res = "if pf_revents y \<noteq> {} then res - 1 else res"
    have p1: "poller_inv g xs1 C w1" using w1(2) by (simp add: client_woken_def)
    obtain xs' w' where w': "dispatch ?res (Suc i) ys sv w1 = Some w'" "client_woken g xs1 C w1 xs' w'" "same_request w1 w'"
        "\<forall>c. m_result (clients w' c) = m_result (clients w1 c) @ delivered (drop (Suc i) ?ms) ys c"
        "\<forall>p. p \<notin> fst ` set (drop (Suc i) ?ms) \<longrightarrow> pollables w' p = pollables w1 p"
        "distinct (map fst (drop (Suc i) ?ms)) \<longrightarrow> (\<forall>j < length ys. pf_revents (ys ! j) \<noteq> {} \<longrightarrow>
          revents (pollables w' (fst (?ms ! (Suc i + j)))) = poll_revents (pf_revents (ys ! j)))"
        "\<forall>c f. delivered (drop (Suc i) ?ms) ys c \<noteq> [] \<longrightarrow> waits_on w1 xs1 c = Some f
          \<longrightarrow> f \<in> set (m_runnableQueue (wkr (psys w')))"
      using Cons.IH[OF p1, of "Suc i" ?res] Cons.prems(2,3) by (elim exE conjE meta_impE) (auto intro: that)
    have "dispatch res i (y # ys) sv w = Some w'" using False w1(1) w'(1) by simp
    moreover have "client_woken g xs C w xs' w'" using w1(2) w'(2) by (rule client_woken_trans)
    moreover have "same_request w w'" using w1(3) w'(3) by (rule same_request_trans)
    moreover have "m_result (clients w' c) = m_result (clients w c) @ delivered (drop i ?ms) (y # ys) c" for c
      using w1(5) w'(4) m by (simp add: dr delivered_Cons)
    moreover have "pollables w' q = pollables w q" if "q \<notin> fst ` set (drop i ?ms)" for q
      using that w1(4) w'(5) m by (simp add: dr)
    moreover have "revents (pollables w' (fst (?ms ! (i + j)))) = poll_revents (pf_revents ((y # ys) ! j))"
      if "distinct (map fst (drop i ?ms))" "j < length (y # ys)" "pf_revents ((y # ys) ! j) \<noteq> {}" for j
      using that w1(4) w'(5,6) m by (cases j) (auto simp: dr)
    moreover have "f \<in> set (m_runnableQueue (wkr (psys w')))"
      if "delivered (drop i ?ms) (y # ys) c \<noteq> []" "waits_on w xs c = Some f" for c f
    proof (cases "f \<in> set (m_runnableQueue (wkr (psys w1)))")
      case True
      then show ?thesis using w'(2) by (auto simp: client_woken_def)
    next
      case n: False
      then have "waits_on w1 xs1 c = Some f" using w1(2) that(2) by (auto simp: client_woken_def)
      moreover have "delivered (drop (Suc i) ?ms) ys c \<noteq> []"
        using that n w1(6) m by (auto simp: dr delivered_Cons split: if_splits)
      ultimately show ?thesis using w'(7) by blast
    qed
    ultimately show ?thesis by (intro exI[of _ xs'] exI[of _ w']) blast
  qed
qed

lemma init_items_poll:
  "\<exists>xs. init_items poll_init ps = (xs, E_OK) \<and> length xs = length ps \<and> (\<forall>i < length ps. item_for (xs ! i) (ps ! i))"
proof (induction ps)
  case (Cons p ps)
  then obtain xs where xs: "init_items poll_init ps = (xs, E_OK)" "length xs = length ps" "\<forall>i < length ps. item_for (xs ! i) (ps ! i)"
    by blast
  obtain x where "poll_init p = Inr x" "item_for x p" using poll_init_item by blast
  then show ?case using xs by (intro exI[of _ "x # xs"]) (auto simp: less_Suc_eq_0_disj)
qed simp

lemma mirror_ok:
  assumes "in_sync w sv"
  shows "\<exists>sv'. mirror poll_init w sv = Some (E_OK, sv') \<and> m_metaItems sv' = m_metaItems sv \<and> in_sync w sv' \<and> mirrored sv'"
proof -
  let ?ms = "m_metaItems sv" and ?xs = "m_pollItems sv"
  let ?ps = "map (\<lambda>m. pollables w (fst m)) (drop (length ?xs) ?ms)"
  obtain ys where ys: "init_items poll_init ?ps = (ys, E_OK)" "length ys = length ?ps" "\<forall>i < length ?ps. item_for (ys ! i) (?ps ! i)"
    using init_items_poll by blast
  let ?sv = "sv\<lparr>m_pollItems := ?xs @ ys\<rparr>"
  have le: "length ?xs \<le> length ?ms" using assms by (simp add: in_sync_def)
  have "item_for ((?xs @ ys) ! i) (pollables w (fst (?ms ! i)))" if "i < length ?ms" for i
  proof (cases "i < length ?xs")
    case False
    then show ?thesis using ys(3)[rule_format, of "i - length ?xs"] that le by (simp add: nth_append)
  qed (use assms in \<open>simp add: in_sync_def nth_append\<close>)
  then have "in_sync w ?sv" "mirrored ?sv" using ys(2) le by (simp_all add: in_sync_def mirrored_def)
  moreover have "mirror poll_init w sv = Some (E_OK, ?sv)" using ys(1,2) le by (simp add: mirror_def)
  ultimately show ?thesis by (intro exI[of _ ?sv]) simp
qed

lemma in_sync_same:
  assumes "in_sync w sv" "same_request w w'" "m_metaItems sv' = m_metaItems sv"
    "map (\<lambda>x. (pf_fd x, pf_events x)) (m_pollItems sv') = map (\<lambda>x. (pf_fd x, pf_events x)) (m_pollItems sv)"
  shows "in_sync w' sv'"
proof -
  have l: "length (m_pollItems sv') = length (m_pollItems sv)" using assms(4) by (metis length_map)
  have "pf_fd (m_pollItems sv' ! i) = pf_fd (m_pollItems sv ! i) \<and> pf_events (m_pollItems sv' ! i) = pf_events (m_pollItems sv ! i)"
    if "i < length (m_pollItems sv)" for i
    using arg_cong[OF assms(4), of "\<lambda>zs. zs ! i"] that l by simp
  then show ?thesis using assms(1-3) l by (simp add: in_sync_def item_for_def same_request_def)
qed

lemma server_poll_ok:
  assumes "poller_inv g xs C w" "in_sync w sv" "m_metaItems sv \<noteq> []" "poll_posix os"
    "\<forall>m \<in> set (m_metaItems sv). set_option (snd m) \<subseteq> C"
  shows "\<exists>e sv' xs' w'. server_poll os poll_init t sv w = Some (e, sv', w')
    \<and> poller_inv g xs' C w' \<and> m_metaItems sv' = m_metaItems sv \<and> in_sync w' sv' \<and> mirrored sv'
    \<and> (\<exists>ys. in_sync w (sv\<lparr>m_pollItems := ys\<rparr>) \<and> length ys = length (m_metaItems sv)
        \<and> (case os t ys of Inl e' \<Rightarrow> e = e' \<and> e \<noteq> E_OK | Inr (n, zs) \<Rightarrow> e = E_OK \<and> m_pollItems sv' = zs))
    \<and> (\<forall>c. m_result (clients w' c) =
        m_result (clients w c) @ (if e = E_OK then delivered (m_metaItems sv) (m_pollItems sv') c else []))
    \<and> (e = E_OK \<and> distinct (map fst (m_metaItems sv)) \<longrightarrow> (\<forall>i < length (m_metaItems sv).
        pf_revents (m_pollItems sv' ! i) \<noteq> {} \<longrightarrow>
        revents (pollables w' (fst (m_metaItems sv ! i))) = {f. poll_bit f \<in> pf_revents (m_pollItems sv' ! i)}))
    \<and> (\<forall>c f. e = E_OK \<and> delivered (m_metaItems sv) (m_pollItems sv') c \<noteq> [] \<and> waits_on w xs c = Some f
        \<longrightarrow> f \<in> set (m_runnableQueue (wkr (psys w'))))"
proof -
  obtain sv1 where m: "mirror poll_init w sv = Some (E_OK, sv1)" "m_metaItems sv1 = m_metaItems sv" "in_sync w sv1" "mirrored sv1"
    using mirror_ok[OF assms(2)] by blast
  have req: "in_sync w (sv\<lparr>m_pollItems := m_pollItems sv1\<rparr>)" "length (m_pollItems sv1) = length (m_metaItems sv)"
    using m(2-4) by (simp_all add: in_sync_def mirrored_def)
  show ?thesis
  proof (cases "os t (m_pollItems sv1)")
    case (Inl e)
    then have "e \<noteq> E_OK" using assms(4) unfolding poll_posix_def by (metis (mono_tags) sum.simps(5))
    then show ?thesis using Inl m assms(1,3) req
      by (intro exI[of _ e] exI[of _ sv1] exI[of _ xs] exI[of _ w]) (auto simp: server_poll_def doPoll_def intro!: exI[of _ "m_pollItems sv1"])
  next
    case (Inr y)
    obtain res ys where y: "y = (res, ys)" by fastforce
    have "case os t (m_pollItems sv1) of Inl e \<Rightarrow> e \<noteq> E_OK
      | Inr (res, ys) \<Rightarrow> map (\<lambda>x. (pf_fd x, pf_events x)) ys = map (\<lambda>x. (pf_fd x, pf_events x)) (m_pollItems sv1)
          \<and> res = length (filter (\<lambda>y. pf_revents y \<noteq> {}) ys)"
      using assms(4) unfolding poll_posix_def by blast
    then have ys: "map (\<lambda>x. (pf_fd x, pf_events x)) ys = map (\<lambda>x. (pf_fd x, pf_events x)) (m_pollItems sv1)"
        "res = length (filter (\<lambda>y. pf_revents y \<noteq> {}) ys)" using Inr y by simp_all
    let ?sv = "sv1\<lparr>m_pollItems := ys\<rparr>"
    have len: "length ys = length (m_metaItems sv)" using ys(1) m(2,4) by (metis length_map mirrored_def)
    have C: "\<forall>m \<in> set (m_metaItems ?sv). set_option (snd m) \<subseteq> C" and l0: "0 + length ys = length (m_metaItems ?sv)"
      using assms(5) m(2) len by simp_all
    obtain xs' w' where w': "dispatch res 0 ys ?sv w = Some w'" "client_woken g xs C w xs' w'" "same_request w w'"
        "\<forall>c. m_result (clients w' c) = m_result (clients w c) @ delivered (m_metaItems sv) ys c"
        "distinct (map fst (m_metaItems sv)) \<longrightarrow> (\<forall>j < length ys. pf_revents (ys ! j) \<noteq> {} \<longrightarrow>
          revents (pollables w' (fst (m_metaItems sv ! j))) = {f. poll_bit f \<in> pf_revents (ys ! j)})"
        "\<forall>c f. delivered (m_metaItems sv) ys c \<noteq> [] \<longrightarrow> waits_on w xs c = Some f \<longrightarrow> f \<in> set (m_runnableQueue (wkr (psys w')))"
      using dispatch_ok[OF assms(1) l0 ys(2) C] m(2) unfolding poll_revents_bits by auto
    have "dispatch 0 0 ys ?sv w = Some w" by (cases ys) simp_all
    then have "server_poll os poll_init t sv w = Some (E_OK, ?sv, w')"
      using m Inr y w'(1) assms(3) by (auto simp: server_poll_def doPoll_def Let_def)
    moreover have inv: "poller_inv g xs' C w'" using w'(2) by (simp add: client_woken_def)
    moreover have "in_sync w' ?sv" using in_sync_same[OF m(3) w'(3)] ys(1) by simp
    moreover have "\<exists>zs. in_sync w (sv\<lparr>m_pollItems := zs\<rparr>) \<and> length zs = length (m_metaItems sv)
        \<and> (case os t zs of Inl e' \<Rightarrow> E_OK = e' \<and> E_OK \<noteq> E_OK | Inr (n, zs') \<Rightarrow> E_OK = E_OK \<and> m_pollItems ?sv = zs')"
      using req Inr y by (intro exI[of _ "m_pollItems sv1"]) simp
    ultimately show ?thesis
      using w'(4-6) m(2) len by (intro exI[of _ E_OK] exI[of _ ?sv] exI[of _ xs'] exI[of _ w']) (auto simp: mirrored_def)
  qed
qed

text \<open>
  How a server is used: clients register their pollables and try (\<open>Try\<close>), the waiter polls for all of them (\<open>Wait\<close>), and a client deregisters when it is done
  (\<open>End\<close>). Meanwhile anything else may happen, as long as a pollable that is registered is not changed to another file descriptor or other events. Between these
  steps all items are initialised and belong to their pollables.
\<close>

inductive poller_step :: "(int \<Rightarrow> pollfd list \<Rightarrow> errno + (nat \<times> pollfd list)) \<Rightarrow> server \<times> pworld \<Rightarrow> server \<times> pworld \<Rightarrow> bool" for os where
  Try: "client_poll_try os fails c sv w = Some (e, sv', w') \<Longrightarrow> poller_step os (sv, w) (sv', w')"
| Wait: "server_poll os poll_init t sv w = Some (e, sv', w') \<Longrightarrow> poller_step os (sv, w) (sv', w')"
| End: "client_poll_end e c sv w = Some (e', sv') \<Longrightarrow> poller_step os (sv, w) (sv', w)"
| Other: "\<forall>m \<in> set (m_metaItems sv). fd (pollables w' (fst m)) = fd (pollables w (fst m)) \<and> events (pollables w' (fst m)) = events (pollables w (fst m))
    \<Longrightarrow> poller_step os (sv, w) (sv, w')"

lemma server_event_request: "server_event rv i sv w = Some w' \<Longrightarrow> same_request w w'"
  by (auto simp: server_event_def client_event_def same_request_def Let_def split: bind_splits if_splits option.splits prod.splits)

lemma dispatch_request: "dispatch res i ys sv w = Some w' \<Longrightarrow> same_request w w'"
proof (induction res i ys sv w rule: dispatch.induct)
  case (2 res i x xs sv w)
  then show ?case using same_request_trans server_event_request by (fastforce simp: same_request_def split: if_splits bind_splits)
qed (simp add: same_request_def)

lemma server_poll_sync:
  assumes "server_poll os poll_init t sv w = Some (e, sv', w')" "in_sync w sv" "poll_posix os"
  shows "in_sync w' sv' \<and> mirrored sv'"
proof -
  obtain sv1 where m: "mirror poll_init w sv = Some (E_OK, sv1)" "m_metaItems sv1 = m_metaItems sv" "in_sync w sv1" "mirrored sv1"
    using mirror_ok[OF assms(2)] by blast
  have r: "same_request w w" by (simp add: same_request_def)
  show ?thesis
  proof (cases "m_metaItems sv1 = []")
    case True
    then show ?thesis using assms(1) m by (simp add: server_poll_def)
  next
    case False
    then have d: "doPoll os t sv1 w = Some (e, sv', w')" using assms(1) m by (simp add: server_poll_def)
    show ?thesis
    proof (cases "os t (m_pollItems sv1)")
      case (Inl a)
      then show ?thesis using d m by (simp add: doPoll_def)
    next
      case (Inr y)
      obtain res ys where y: "y = (res, ys)" by fastforce
      have "case os t (m_pollItems sv1) of Inl e \<Rightarrow> e \<noteq> E_OK
        | Inr (res, ys) \<Rightarrow> map (\<lambda>x. (pf_fd x, pf_events x)) ys = map (\<lambda>x. (pf_fd x, pf_events x)) (m_pollItems sv1)
            \<and> res = length (filter (\<lambda>y. pf_revents y \<noteq> {}) ys)"
        using assms(3) unfolding poll_posix_def by blast
      then have ys: "map (\<lambda>x. (pf_fd x, pf_events x)) ys = map (\<lambda>x. (pf_fd x, pf_events x)) (m_pollItems sv1)" using Inr y by simp
      have s: "sv' = sv1\<lparr>m_pollItems := ys\<rparr>" "same_request w w'"
        using d Inr y r dispatch_request by (auto simp: doPoll_def Let_def split: if_splits bind_splits)
      moreover have "length ys = length (m_pollItems sv1)" using ys by (metis length_map)
      ultimately show ?thesis using in_sync_same[OF m(3) s(2), of sv'] ys m(4) by (simp add: mirrored_def)
    qed
  qed
qed

lemma register_all_sync:
  "register_all fails n c ps sv w = Some (sv', w') \<Longrightarrow> in_sync w sv \<Longrightarrow> in_sync w' sv'"
proof (induction ps arbitrary: n sv w)
  case (Cons p ps)
  obtain o1 o2 where f: "fails n = (o1, o2)" by fastforce
  obtain e sv1 w1 where a: "server_add o1 o2 p (Some c) sv w = Some (e, sv1, w1)" "register_all fails (Suc n) c ps sv1 w1 = Some (sv', w')"
    using Cons.prems(1) f by (auto split: bind_splits)
  have "in_sync w1 sv1" using a(1) Cons.prems(2) by (auto simp: server_add_def in_sync_def nth_append Let_def split: if_splits bind_splits)
  then show ?case using Cons.IH[OF a(2)] by simp
qed simp

lemma deregister_all_sync:
  "deregister_all c ps sv = Some sv' \<Longrightarrow> in_sync w sv \<Longrightarrow> mirrored sv \<Longrightarrow> in_sync w sv' \<and> mirrored sv'"
proof (induction ps arbitrary: sv)
  case (Cons p ps)
  obtain e sv1 where a: "server_remove p (Some c) sv = Some (e, sv1)" "deregister_all c ps sv1 = Some sv'"
    using Cons.prems(1) by (auto split: bind_splits)
  have "in_sync w sv1 \<and> mirrored sv1"
    using a(1) server_remove_ok[OF _ Cons.prems(2,3), of p "Some c"] server_remove_none[of p "Some c" sv] Cons.prems(2,3)
    by (cases "(p, Some c) \<in> set (m_metaItems sv)") auto
  then show ?case using Cons.IH[OF a(2)] by simp
qed simp

lemma poller_step_sync:
  assumes "poller_step os x y" "poll_posix os" "in_sync (snd x) (fst x) \<and> mirrored (fst x)"
  shows "in_sync (snd y) (fst y) \<and> mirrored (fst y)"
  using assms
proof (induction rule: poller_step.induct)
  case (Try fails c sv w e sv' w')
  let ?w = "w\<lparr>clients := (clients w)(c := (clients w c)\<lparr>m_result := []\<rparr>)\<rparr>"
  have i: "in_sync ?w sv" using Try by (simp add: in_sync_def)
  show ?case
  proof (cases "m_pollables (clients w c) = []")
    case True
    then show ?thesis using Try i by (simp add: client_poll_try_def)
  next
    case False
    then obtain sv1 w1 where r: "register_all fails 0 c (m_pollables (clients w c)) sv ?w = Some (sv1, w1)"
        "server_poll os poll_init 0 sv1 (w1\<lparr>psys := upd_waitable (m_wait (clients w c)) (\<lambda>_. TimedWaitable ts_null) (psys w1)\<rparr>) = Some (e, sv', w')"
      using Try(1) by (auto simp: client_poll_try_def Let_def split: bind_splits)
    have "in_sync w1 sv1" using register_all_sync[OF r(1) i] .
    then have "in_sync (w1\<lparr>psys := upd_waitable (m_wait (clients w c)) (\<lambda>_. TimedWaitable ts_null) (psys w1)\<rparr>) sv1" by (simp add: in_sync_def)
    then show ?thesis using server_poll_sync[OF r(2) _ Try(2)] by simp
  qed
next
  case (Wait t sv w e sv' w')
  then show ?case using server_poll_sync by auto
next
  case (End e c sv w e' sv')
  then show ?case using deregister_all_sync[of c _ sv sv' w] by (auto simp: client_poll_end_def split: bind_splits)
next
  case (Other sv w' w)
  then show ?case by (auto simp: in_sync_def item_for_def mirrored_def)
qed

lemma poller_reach_sync:
  assumes "(poller_step os)\<^sup>*\<^sup>* (PollerServer, w0) (sv, w)" "poll_posix os"
  shows "in_sync w sv \<and> mirrored sv"
proof -
  have "in_sync (snd y) (fst y) \<and> mirrored (fst y)" if "(poller_step os)\<^sup>*\<^sup>* (PollerServer, w0) y" for y
    using that by (induction rule: rtranclp_induct) (auto simp: in_sync_def mirrored_def PollerServer_def dest: poller_step_sync[OF _ assms(2)])
  then show ?thesis using assms(1) by fastforce
qed


text \<open>Fiber 5 is suspended in a poll for input on file descriptor 7, which turns out to be readable.\<close>

definition demo_world :: pworld where
  "demo_world = \<lparr>pollables = (\<lambda>_. \<lparr>fd = 7, events = {PollIn}, revents = {}\<rparr>),
     clients = (\<lambda>_. \<lparr>m_wait = 30, m_pollables = [40], m_result = []\<rparr>),
     psys = upd_waitable 30 (setFiber 5) demo_sys\<rparr>"

definition demo_server :: server where
  "demo_server = \<lparr>m_metaItems = [(40, Some 20)], m_pollItems = []\<rparr>"

definition demo_os :: "int \<Rightarrow> pollfd list \<Rightarrow> errno + (nat \<times> pollfd list)" where
  "demo_os t xs = Inr (length xs, map (\<lambda>x. x\<lparr>pf_revents := {POLLIN}\<rparr>) xs)"

lemma demo_poller_inv: "poller_inv 3 [] {20} demo_world"
proof -
  have "sys_inv demo_sys" "executing 3 demo_sys" "waiter_inv demo_sys []"
    using demo_may_sleep demo_sys_inv by (simp_all add: may_sleep_def sync_inv_def)
  then show ?thesis
    by (simp add: poller_inv_def demo_world_def waiter_inv_new client_ok_def Let_def setFiber_def)
      (simp add: demo_sys_def ts_isNull_def ts_null_def linked_def busy_worker_def demo_worker_def)
qed

text \<open>The client tried before: its pollable is registered.\<close>

definition polled_server :: server where
  "polled_server = \<lparr>m_metaItems = [(40, Some 20)], m_pollItems = [\<lparr>pf_fd = 7, pf_events = {POLLIN}, pf_revents = {POLLIN}\<rparr>]\<rparr>"

lemma demo_poller_run: "(poller_step demo_os)\<^sup>*\<^sup>* (PollerServer, demo_world) (polled_server, demo_world)"
proof -
  have f: "waiter_fiber (upd_waitable a f s) = waiter_fiber s" for a f s by (simp add: upd_waitable_def)
  have "waiter_fiber demo_sys = None" by (simp add: demo_sys_def)
  then have "\<exists>w. client_poll_try demo_os (\<lambda>_. (False, False)) 20 PollerServer demo_world = Some (E_OK, polled_server, w) \<and> pollables w 40 = \<lparr>fd = 7, events = {PollIn}, revents = {PollIn}\<rparr>"
    by (simp add: client_poll_try_def demo_world_def server_add_def PollerServer_def waiter_resume_def f server_poll_def mirror_def poll_init_def
        doPoll_def demo_os_def server_event_def poll_revents_def client_event_def upd_waitable_def TimedWaitable_def ts_isNull_def ts_null_def polled_server_def Let_def)
  then obtain w where w: "client_poll_try demo_os (\<lambda>_. (False, False)) 20 PollerServer demo_world = Some (E_OK, polled_server, w)"
    "pollables w 40 = \<lparr>fd = 7, events = {PollIn}, revents = {PollIn}\<rparr>" by blast
  have "poller_step demo_os (polled_server, w) (polled_server, demo_world)"
    by (rule poller_step.Other) (simp add: polled_server_def w(2) demo_world_def)
  then show ?thesis using poller_step.Try[OF w(1)] by (meson rtranclp.rtrancl_into_rtrancl rtranclp.rtrancl_refl)
qed


subsection \<open>Registration and migration\<close>

lemma server_add_ok:
  assumes "sys_inv (psys w)" "waiter_present (psys w)" "length (m_pollItems sv) \<le> length (m_metaItems sv)"
  shows "\<exists>w'. server_add o1 o2 p c sv w = Some (if o1 \<or> o2 then (ENOMEM, sv, w)
      else (E_OK, sv\<lparr>m_metaItems := m_metaItems sv @ [(p, c)]\<rparr>, w'))
    \<and> sys_inv (psys w') \<and> waiter_present (psys w')"
proof -
  obtain k where k: "waiter_resume (psys w) = Some ((psys w)\<lparr>wkr := k\<rparr>)" "sys_inv ((psys w)\<lparr>wkr := k\<rparr>)"
      "\<forall>f. linked k f \<longleftrightarrow> linked (wkr (psys w)) f" "m_currentFiber k = m_currentFiber (wkr (psys w))"
    using waiter_resume_ok[OF assms(1,2)] by blast
  have "waiter_present ((psys w)\<lparr>wkr := k\<rparr>)" using assms(2) k(3,4) by (simp add: waiter_present_def)
  then show ?thesis using k(1,2) assms(3)
    by (intro exI[of _ "w\<lparr>psys := (psys w)\<lparr>wkr := k\<rparr>\<rparr>"]) (cases sv, simp add: server_add_def)
qed

text \<open>Removing what was added last takes exactly that away.\<close>

lemma server_remove_added:
  assumes "length (m_pollItems t) \<le> length (m_metaItems t)"
  shows "server_remove (fst m) (snd m) (t\<lparr>m_metaItems := m_metaItems t @ [m]\<rparr>) = Some (E_OK, t)"
proof -
  let ?t = "t\<lparr>m_metaItems := m_metaItems t @ [m]\<rparr>" and ?n = "length (m_metaItems t)"
  have "(fst m, snd m) \<in> set (m_metaItems ?t)" "length (m_pollItems ?t) \<le> length (m_metaItems ?t)" using assms by auto
  then obtain t' i where t': "server_remove (fst m) (snd m) ?t = Some (E_OK, t')"
      "find_back (fst m, snd m) (m_metaItems ?t) (length (m_metaItems ?t)) = Suc i"
      "m_metaItems t' = butlast ((m_metaItems ?t)[i := last (m_metaItems ?t)])"
      "m_pollItems t' = (if i < length (m_pollItems ?t) then butlast ((m_pollItems ?t)[i := last (m_pollItems ?t)]) else m_pollItems ?t)"
    using server_remove_found by blast
  have "i = ?n" using t'(2) by simp
  then have "m_metaItems t' = m_metaItems t" "m_pollItems t' = m_pollItems t" using t'(3,4) assms by simp_all
  then have "t' = t" by (cases t, cases t') simp
  then show ?thesis using t'(1) by simp
qed

lemma migrate_rollback_ok:
  assumes "length (m_pollItems t) \<le> length (m_metaItems t)"
  shows "migrate_rollback dn (t\<lparr>m_metaItems := m_metaItems t @ rev dn\<rparr>) = Some t"
proof (induction dn)
  case (Cons m dn)
  have "server_remove (fst m) (snd m) (t\<lparr>m_metaItems := m_metaItems t @ rev (m # dn)\<rparr>)
      = Some (E_OK, t\<lparr>m_metaItems := m_metaItems t @ rev dn\<rparr>)"
    using server_remove_added[of "t\<lparr>m_metaItems := m_metaItems t @ rev dn\<rparr>" m] assms by simp
  then show ?case using Cons by simp
qed simp

lemma migrate_add_ok:
  assumes "sys_inv (psys w)" "waiter_present (psys w)" "length (m_pollItems t) \<le> length (m_metaItems t)"
  shows "\<exists>w'. migrate_add fails dn ms (t\<lparr>m_metaItems := m_metaItems t @ rev dn\<rparr>) w =
      Some (if \<exists>i < length ms. fst (fails (length dn + i)) \<or> snd (fails (length dn + i)) then (ENOMEM, t, w')
        else (E_OK, t\<lparr>m_metaItems := m_metaItems t @ rev dn @ ms\<rparr>, w'))
    \<and> sys_inv (psys w')"
  using assms(1,2)
proof (induction ms arbitrary: dn w)
  case (Cons m ms)
  let ?t = "t\<lparr>m_metaItems := m_metaItems t @ rev dn\<rparr>"
  obtain o1 o2 where f: "fails (length dn) = (o1, o2)" by fastforce
  have l: "length (m_pollItems ?t) \<le> length (m_metaItems ?t)" using assms(3) by simp
  obtain w1 where w1: "server_add o1 o2 (fst m) (snd m) ?t w = Some (if o1 \<or> o2 then (ENOMEM, ?t, w)
      else (E_OK, ?t\<lparr>m_metaItems := m_metaItems ?t @ [m]\<rparr>, w1))" "sys_inv (psys w1)" "waiter_present (psys w1)"
    using server_add_ok[OF Cons.prems l, of o1 o2 "fst m" "snd m"] unfolding prod.collapse by blast
  show ?case
  proof (cases "o1 \<or> o2")
    case True
    then have "\<exists>i < length (m # ms). fst (fails (length dn + i)) \<or> snd (fails (length dn + i))"
      using f by (intro exI[of _ 0]) simp
    then show ?thesis using True f w1(1) migrate_rollback_ok[OF assms(3)] Cons.prems(1) by (intro exI[of _ w]) simp
  next
    case False
    have e: "(\<exists>i < length (m # ms). fst (fails (length dn + i)) \<or> snd (fails (length dn + i)))
        \<longleftrightarrow> (\<exists>i < length ms. fst (fails (length (m # dn) + i)) \<or> snd (fails (length (m # dn) + i)))"
      using False f by (auto simp: less_Suc_eq_0_disj)
    obtain w' where w': "migrate_add fails (m # dn) ms (t\<lparr>m_metaItems := m_metaItems t @ rev (m # dn)\<rparr>) w1 =
        Some (if \<exists>i < length ms. fst (fails (length (m # dn) + i)) \<or> snd (fails (length (m # dn) + i)) then (ENOMEM, t, w')
          else (E_OK, t\<lparr>m_metaItems := m_metaItems t @ rev (m # dn) @ ms\<rparr>, w'))" "sys_inv (psys w')"
      using Cons.IH[OF w1(2,3), of "m # dn"] by blast
    then show ?thesis using False f w1(1) unfolding e by (intro exI[of _ w']) simp
  qed
qed auto

lemma migrateTo_ok:
  assumes "sys_inv (psys w)" "waiter_present (psys w)" "length (m_pollItems t) \<le> length (m_metaItems t)"
  shows "\<exists>w'. migrateTo oom fails sv t w =
      Some (if oom \<or> (\<exists>i < length (m_metaItems sv). fst (fails i) \<or> snd (fails i)) then (ENOMEM, sv, t, w')
        else (E_OK, PollerServer, t\<lparr>m_metaItems := m_metaItems t @ m_metaItems sv\<rparr>, w'))
    \<and> sys_inv (psys w')"
proof -
  have "\<exists>w'. migrate_add fails [] (m_metaItems sv) t w =
      Some (if \<exists>i < length (m_metaItems sv). fst (fails i) \<or> snd (fails i) then (ENOMEM, t, w')
        else (E_OK, t\<lparr>m_metaItems := m_metaItems t @ m_metaItems sv\<rparr>, w')) \<and> sys_inv (psys w')"
    using migrate_add_ok[OF assms, of fails "[]" "m_metaItems sv"] by (simp cong: if_cong split del: if_split)
  then obtain w' where "migrate_add fails [] (m_metaItems sv) t w =
      Some (if \<exists>i < length (m_metaItems sv). fst (fails i) \<or> snd (fails i) then (ENOMEM, t, w')
        else (E_OK, t\<lparr>m_metaItems := m_metaItems t @ m_metaItems sv\<rparr>, w'))" "sys_inv (psys w')" by blast
  moreover have "server_clear sv = PollerServer" by (cases sv) (simp add: server_clear_def PollerServer_def)
  ultimately show ?thesis using assms(1) by (cases oom) (auto simp: migrateTo_def)
qed

text \<open>
  C32. \<^verbatim>\<open>PollerServer::migrateTo\<close> moves everything or nothing: when any of its allocations fails it returns \<^verbatim>\<open>ENOMEM\<close>
  with both servers exactly as they were, whatever duplicates they hold and however far it came; otherwise all
  registrations are appended to the target, in order, and this server is empty.
\<close>

theorem migrate_all_or_nothing:
  assumes "sys_inv (psys w)" "waiter_present (psys w)" "length (m_pollItems t) \<le> length (m_metaItems t)"
  shows "\<exists>w'. migrateTo oom fails sv t w =
      Some (if oom \<or> (\<exists>i < length (m_metaItems sv). fst (fails i) \<or> snd (fails i)) then (ENOMEM, sv, t, w')
        else (E_OK, PollerServer, t\<lparr>m_metaItems := m_metaItems t @ m_metaItems sv\<rparr>, w'))
    \<and> sys_inv (psys w')"
  by (rule migrateTo_ok[OF assms])

theorem migrate_all_or_nothing_witness:
  "(\<exists>w'. migrateTo False (\<lambda>i. (False, i = 1)) \<lparr>m_metaItems = [(1, Some 2), (1, Some 2)], m_pollItems = []\<rparr>
      demo_server demo_world =
      Some (ENOMEM, \<lparr>m_metaItems = [(1, Some 2), (1, Some 2)], m_pollItems = []\<rparr>, demo_server, w'))"
proof -
  have i: "sys_inv (psys demo_world)" "waiter_present (psys demo_world)" "length (m_pollItems demo_server) \<le> length (m_metaItems demo_server)"
    using demo_poller_inv demo_may_sleep
    by (simp_all add: poller_inv_def demo_server_def may_sleep_def waiter_present_def demo_world_def)
  have "\<exists>j < length (m_metaItems \<lparr>m_metaItems = [(1, Some 2), (1, Some 2)], m_pollItems = []\<rparr>). fst (False, j = (1::nat)) \<or> snd (False, j = 1)"
    by (intro exI[of _ 1]) simp
  then show ?thesis
    using migrate_all_or_nothing[OF i, of False "\<lambda>i. (False, i = 1)" "\<lparr>m_metaItems = [(1, Some 2), (1, Some 2)], m_pollItems = []\<rparr>"]
    by auto
qed

lemma server_remove_mset:
  assumes "length (m_pollItems sv) \<le> length (m_metaItems sv)"
  shows "\<exists>e sv'. server_remove p c sv = Some (e, sv') \<and> mset (m_metaItems sv') = mset (m_metaItems sv) - {#(p, c)#}
    \<and> length (m_pollItems sv') \<le> length (m_metaItems sv')"
proof (cases "(p, c) \<in> set (m_metaItems sv)")
  case True
  then obtain sv' i where r: "server_remove p c sv = Some (E_OK, sv')" "i < length (m_metaItems sv)" "m_metaItems sv ! i = (p, c)"
      "m_metaItems sv' = butlast ((m_metaItems sv)[i := last (m_metaItems sv)])"
      "m_pollItems sv' = (if i < length (m_pollItems sv) then butlast ((m_pollItems sv)[i := last (m_pollItems sv)]) else m_pollItems sv)"
    using server_remove_found[OF True assms] by blast
  then have "length (m_pollItems sv') \<le> length (m_metaItems sv')" using assms by auto
  then show ?thesis using r mset_fill_gap[OF r(2)] by auto
next
  case False
  then show ?thesis using server_remove_none[OF False] assms by (auto simp: diff_single_trivial)
qed

lemma deregister_all_mset:
  "length (m_pollItems sv) \<le> length (m_metaItems sv) \<Longrightarrow>
   \<exists>sv'. deregister_all c ps sv = Some sv' \<and> mset (m_metaItems sv') = mset (m_metaItems sv) - image_mset (\<lambda>p. (p, Some c)) (mset ps)
    \<and> length (m_pollItems sv') \<le> length (m_metaItems sv')"
proof (induction ps arbitrary: sv)
  case (Cons p ps)
  obtain e s1 where s1: "server_remove p (Some c) sv = Some (e, s1)" "mset (m_metaItems s1) = mset (m_metaItems sv) - {#(p, Some c)#}"
      "length (m_pollItems s1) \<le> length (m_metaItems s1)"
    using server_remove_mset[OF Cons.prems] by blast
  obtain s' where "deregister_all c ps s1 = Some s'"
      "mset (m_metaItems s') = mset (m_metaItems s1) - image_mset (\<lambda>p. (p, Some c)) (mset ps)"
      "length (m_pollItems s') \<le> length (m_metaItems s')"
    using Cons.IH[OF s1(3)] by blast
  then show ?case using s1(1,2) by (intro exI[of _ s']) simp
qed auto

lemma register_all_ok:
  assumes "sys_inv (psys w)" "waiter_present (psys w)" "length (m_pollItems sv) \<le> length (m_metaItems sv)"
  shows "\<exists>sv' w' qs. register_all fails n c ps sv w = Some (sv', w') \<and> mset qs \<subseteq># mset ps
    \<and> m_metaItems sv' = m_metaItems sv @ map (\<lambda>p. (p, Some c)) qs \<and> m_pollItems sv' = m_pollItems sv"
  using assms
  proof (induction ps arbitrary: n sv w)
    case (Cons p ps)
    obtain o1 o2 where f: "fails n = (o1, o2)" by fastforce
    obtain w1 where w1: "server_add o1 o2 p (Some c) sv w = Some (if o1 \<or> o2 then (ENOMEM, sv, w)
        else (E_OK, sv\<lparr>m_metaItems := m_metaItems sv @ [(p, Some c)]\<rparr>, w1))" "sys_inv (psys w1)" "waiter_present (psys w1)"
      using server_add_ok[OF Cons.prems, of o1 o2 p "Some c"] by blast
    show ?case
    proof (cases "o1 \<or> o2")
      case True
      obtain sv' w' qs where "register_all fails (Suc n) c ps sv w = Some (sv', w')" "mset qs \<subseteq># mset ps"
          "m_metaItems sv' = m_metaItems sv @ map (\<lambda>p. (p, Some c)) qs" "m_pollItems sv' = m_pollItems sv"
        using Cons.IH[OF Cons.prems] by blast
      moreover have "mset qs \<subseteq># mset (p # ps)" by (rule subset_mset.order_trans[OF calculation(2)]) simp
      ultimately show ?thesis using True f w1(1) by (intro exI[of _ sv'] exI[of _ w'] exI[of _ qs]) simp
    next
      case False
      let ?sv = "sv\<lparr>m_metaItems := m_metaItems sv @ [(p, Some c)]\<rparr>"
      have "length (m_pollItems ?sv) \<le> length (m_metaItems ?sv)" using Cons.prems(3) by simp
      then obtain sv' w' qs where "register_all fails (Suc n) c ps ?sv w1 = Some (sv', w')" "mset qs \<subseteq># mset ps"
          "m_metaItems sv' = m_metaItems ?sv @ map (\<lambda>p. (p, Some c)) qs" "m_pollItems sv' = m_pollItems ?sv"
        using Cons.IH[OF w1(2,3)] by blast
      then show ?thesis using False f w1(1) by (intro exI[of _ sv'] exI[of _ w'] exI[of _ "p # qs"]) simp
    qed
  qed auto

text \<open>
  \<^verbatim>\<open>PollerClient::poll\<close> leaves nothing behind on the server. Whichever of its \<^verbatim>\<open>add()\<close> calls ran out of
  memory, and whatever the other clients added or removed while it waited, its own \<^verbatim>\<open>remove()\<close> loop afterwards never traps, takes away exactly the registrations of this client, and reports
  \<^verbatim>\<open>EAGAIN\<close> when there was no event and no error.
\<close>

theorem poll_deregisters:
  assumes "sys_inv (psys w)" "waiter_present (psys w)" "length (m_pollItems sv) \<le> length (m_metaItems sv)"
    "\<forall>m \<in> set (m_metaItems sv). snd m \<noteq> Some c"
    "register_all fails 0 c (m_pollables (clients w c)) sv w = Some (sv1, w1)"
    "filter_mset (\<lambda>m. snd m = Some c) (mset (m_metaItems sv2)) = filter_mset (\<lambda>m. snd m = Some c) (mset (m_metaItems sv1))"
    "length (m_pollItems sv2) \<le> length (m_metaItems sv2)" "m_pollables (clients w2 c) = m_pollables (clients w c)"
  shows "\<exists>sv'. client_poll_end res c sv2 w2 = Some (if m_result (clients w2 c) = [] \<and> res = E_OK then EAGAIN else res, sv')
    \<and> mset (m_metaItems sv') = filter_mset (\<lambda>m. snd m \<noteq> Some c) (mset (m_metaItems sv2))
    \<and> length (m_pollItems sv') \<le> length (m_metaItems sv')"
proof -
  let ?ps = "m_pollables (clients w c)" and ?f = "\<lambda>p. (p, Some c)"
  obtain qs where qs: "mset qs \<subseteq># mset ?ps" "m_metaItems sv1 = m_metaItems sv @ map ?f qs"
    using register_all_ok[OF assms(1-3), of fails 0 c ?ps] assms(5) by auto
  obtain sv' where sv': "deregister_all c (rev (m_pollables (clients w2 c))) sv2 = Some sv'"
      "mset (m_metaItems sv') = mset (m_metaItems sv2) - image_mset ?f (mset ?ps)"
      "length (m_pollItems sv') \<le> length (m_metaItems sv')"
    using deregister_all_mset[OF assms(7), of c "rev (m_pollables (clients w2 c))"] assms(8) by auto
  have "filter_mset (\<lambda>m. snd m = Some c) (mset (m_metaItems sv)) = {#}" using assms(4) by (simp add: filter_empty_conv flip: mset_filter)
  then have own: "filter_mset (\<lambda>m. snd m = Some c) (mset (m_metaItems sv2)) = image_mset ?f (mset qs)"
    using assms(6) qs(2) by (simp add: filter_mset_image_mset)
  let ?M = "mset (m_metaItems sv2)" and ?P = "image_mset ?f (mset ?ps)"
  have "count (?M - ?P) m = count (filter_mset (\<lambda>m. snd m \<noteq> Some c) ?M) m" for m
  proof (cases "snd m = Some c")
    case True
    have "count ?M m = count (filter_mset (\<lambda>m. snd m = Some c) ?M) m" using True by simp
    also have "\<dots> \<le> count ?P m" unfolding own using image_mset_subseteq_mono[OF qs(1), of ?f] by (rule mset_subset_eq_count)
    finally show ?thesis using True by simp
  next
    case False
    then have "m \<notin># ?P" by auto
    then have "count ?P m = 0" by (simp only: not_in_iff)
    then show ?thesis using False by simp
  qed
  then have "mset (m_metaItems sv') = filter_mset (\<lambda>m. snd m \<noteq> Some c) ?M" unfolding sv'(2) by (rule multiset_eqI)
  then show ?thesis using sv'(1,3) by (intro exI[of _ sv']) (simp add: client_poll_end_def)
qed

lemma demo_world_facts: "sys_inv (psys demo_world)" "waiter_present (psys demo_world)"
  using demo_poller_inv demo_may_sleep by (simp_all add: poller_inv_def may_sleep_def waiter_present_def demo_world_def)

theorem poll_deregisters_witness:
  "\<exists>sv1 w1 sv'. register_all (\<lambda>_. (False, False)) 0 21 [40] demo_server demo_world = Some (sv1, w1)
    \<and> client_poll_end E_OK 21 sv1 demo_world = Some (EAGAIN, sv') \<and> mset (m_metaItems sv') = {#(40, Some 20)#}"
proof -
  let ?sv = "demo_server\<lparr>m_metaItems := [(40, Some 20), (40, Some 21)]\<rparr>"
  have r: "register_all (\<lambda>_. (False, False)) 0 21 (m_pollables (clients demo_world 21)) demo_server demo_world = Some (?sv, demo_world)"
    by (simp add: server_add_def demo_server_def demo_world_def waiter_resume_def) (simp add: demo_sys_def)
  have p: "m_pollables (clients demo_world 21) = [40]" "m_result (clients demo_world 21) = []" by (simp_all add: demo_world_def)
  obtain sv' where "client_poll_end E_OK 21 ?sv demo_world = Some (EAGAIN, sv')"
      "mset (m_metaItems sv') = filter_mset (\<lambda>m. snd m \<noteq> Some 21) (mset (m_metaItems ?sv))"
    using poll_deregisters[OF demo_world_facts _ _ r refl _ refl, of E_OK] p by (auto simp: demo_server_def)
  then show ?thesis using r p(1) by (intro exI[of _ ?sv] exI[of _ demo_world] exI[of _ sv']) simp
qed

text \<open>
  \<^verbatim>\<open>Waiter::setPoller\<close>, called while a poller is set and with enough memory, loses no registration: the server
  that the waiter polls afterwards (the given one, or the default one, made when there is none) has its own and all
  registrations of the one before, and the one before is empty.
\<close>

theorem setPoller_migrates:
  assumes "sys_inv (psys w)" "waiter_present (psys w)" "m_poller ps = Some a"
    "\<forall>b. length (m_pollItems (servers ps b)) \<le> length (m_metaItems (servers ps b))"
    "p \<noteq> Some a" "m_defaultPoller ps \<noteq> Some a" "newp \<noteq> a" "\<not> oom" "\<forall>i. fails i = (False, False)"
  shows "\<exists>ps' w'. setPoller oom fails newp p ps w = Some (ps', w')
    \<and> (p \<noteq> None \<longrightarrow> m_poller ps' = p)
    \<and> (case m_poller ps' of
         Some b \<Rightarrow> b \<noteq> a \<and> m_metaItems (servers ps' a) = [] \<and> m_metaItems (servers ps' b) =
           (if p = None \<and> m_defaultPoller ps = None then [] else m_metaItems (servers ps b)) @ m_metaItems (servers ps a)
       | None \<Rightarrow> m_metaItems (servers ps a) = [])"
proof -
  have mig: "\<exists>w' qs'. migrate_servers oom fails a b qs w = Some (qs', w') \<and> m_metaItems (servers qs' a) = []
      \<and> m_metaItems (servers qs' b) = m_metaItems (servers qs b) @ m_metaItems (servers qs a)
      \<and> m_defaultPoller qs' = m_defaultPoller qs"
    if "a \<noteq> b" "length (m_pollItems (servers qs b)) \<le> length (m_metaItems (servers qs b))" for b qs
    using migrateTo_ok[OF assms(1,2) that(2), of oom fails "servers qs a"] that(1) assms(8,9)
    by (auto simp: migrate_servers_def PollerServer_def)
  show ?thesis
  proof (cases p)
    case (Some b)
    then show ?thesis using mig[of b ps] assms(3-6) by (auto simp: setPoller_def)
  next
    case None
    show ?thesis
    proof (cases "m_defaultPoller ps")
      case d: (Some d)
      then show ?thesis using mig[of d ps] None assms(3,4,6) by (auto simp: setPoller_def Let_def)
    next
      case d: None
      let ?qs = "new_default newp ps"
      show ?thesis
        using mig[of newp ?qs] None d assms(3,7)
        by (cases "server_empty (servers ps a)") (auto simp: setPoller_def Let_def new_default_def PollerServer_def server_empty_def)
    qed
  qed
qed

definition demo_pollers :: pollers where
  "demo_pollers = \<lparr>servers = (\<lambda>_. PollerServer)(1 := demo_server), m_poller = Some 1, m_defaultPoller = None\<rparr>"

theorem setPoller_migrates_witness:
  "\<exists>ps' w'. setPoller False (\<lambda>_. (False, False)) 8 None demo_pollers demo_world = Some (ps', w')
    \<and> m_poller demo_pollers = Some 1 \<and> m_poller ps' \<noteq> Some 1 \<and> m_metaItems (servers demo_pollers 1) = [(40, Some 20)]"
proof -
  have h: "m_poller demo_pollers = Some 1" "m_defaultPoller demo_pollers \<noteq> Some 1" "(8 :: nat) \<noteq> 1"
    "\<forall>b. length (m_pollItems (servers demo_pollers b)) \<le> length (m_metaItems (servers demo_pollers b))"
    "m_metaItems (servers demo_pollers 1) = [(40, Some 20)]"
    by (simp_all add: demo_pollers_def demo_server_def PollerServer_def)
  show ?thesis
    using setPoller_migrates[OF demo_world_facts h(1,4) _ h(2,3), of None False "\<lambda>_. (False, False)"] h
    by (auto split: option.splits)
qed

subsection \<open>Limits\<close>

text \<open>
  When no poller is set, \<^verbatim>\<open>setPoller()\<close> just stores the given one. The registrations of the default server, which
  is the one that was polled until then, stay behind: the waiter polls the new server, which has none of them.
\<close>

theorem setPoller_forgets_default:
  assumes "m_poller ps = None" "m_defaultPoller ps = Some d"
  shows "\<exists>ps'. setPoller oom fails newp (Some b) ps w = Some (ps', w) \<and> fst (waiter_poller newp ps) = d
    \<and> fst (waiter_poller newp ps') = b \<and> servers ps' = servers ps \<and> waiter_polling ps = (\<not> server_empty (servers ps d))
    \<and> waiter_polling ps' = (\<not> server_empty (servers ps b))"
  using assms by (simp add: setPoller_def waiter_poller_def waiter_polling_def)

theorem setPoller_forgets_default_witness:
  "\<exists>ps'. setPoller False (\<lambda>_. (False, False)) 8 (Some 2) (demo_pollers\<lparr>m_poller := None, m_defaultPoller := Some 1\<rparr>) demo_world
      = Some (ps', demo_world)
    \<and> waiter_polling (demo_pollers\<lparr>m_poller := None, m_defaultPoller := Some 1\<rparr>) \<and> \<not> waiter_polling ps'"
proof -
  let ?ps = "demo_pollers\<lparr>m_poller := None, m_defaultPoller := Some 1\<rparr>"
  have h: "m_poller ?ps = None" "m_defaultPoller ?ps = Some 1" "\<not> server_empty (servers ?ps 1)" "server_empty (servers ?ps 2)"
    by (simp_all add: demo_pollers_def server_empty_def demo_server_def PollerServer_def)
  show ?thesis using setPoller_forgets_default[OF h(1,2), of False "\<lambda>_. (False, False)" 8 2 demo_world] h(3,4) by auto
qed

text \<open>
  The comment at \<^verbatim>\<open>m_pollItems\<close> promises that its entries are in sync with \<^verbatim>\<open>m_metaItems\<close>, also while it is
  shorter. It is not so: when the third of three pollables is not initialised yet, removing the first moves the
  last item (of the second) and the last meta item (the third's) to the same place. From then on an event on the
  file descriptor of the second is delivered to the client of the third.
\<close>

theorem remove_desyncs:
  "let item = \<lambda>n. \<lparr>pf_fd = n, pf_events = {POLLIN}, pf_revents = {}\<rparr>;
       w = demo_world\<lparr>pollables := \<lambda>a. \<lparr>fd = int a, events = {PollIn}, revents = {}\<rparr>\<rparr>;
       sv = \<lparr>m_metaItems = [(1, Some 11), (2, Some 12), (3, Some 13)], m_pollItems = [item 1, item 2]\<rparr>
   in in_sync w sv \<and> (\<exists>sv'. server_remove 1 (Some 11) sv = Some (E_OK, sv')
     \<and> m_metaItems sv' = [(3, Some 13), (2, Some 12)] \<and> m_pollItems sv' = [item 2] \<and> \<not> in_sync w sv')"
proof -
  have "poll_bit ` ({PollIn} - {PollErr}) = {POLLIN}" by auto
  then show ?thesis
    by (simp add: in_sync_def item_for_def server_remove_def less_Suc_eq numeral_2_eq_2 numeral_3_eq_3)
qed

text \<open>An item with nothing but \<^verbatim>\<open>POLLNVAL\<close>, which reports a bad file descriptor, counts as an event but reaches nobody.\<close>

lemma nval_swallowed: "poll_revents {POLLNVAL} = {}"
  by (simp add: poll_revents_none)

end
