(* ===== verification/Zth_FsmDsl.thy ===== *)
theory Zth_FsmDsl
  imports Zth_Time
begin

section \<open>Finite state machines: the description and its compiler\<close>

text \<open>
  \<^verbatim>\<open>include/libzth/fsm14.h\<close>, first part: symbols, guards, actions, the operators that describe transitions, and
  \<^verbatim>\<open>compile()\<close>, which turns a list of transitions into the table that the state machine runs.

  Guards and actions are objects that the code compares by address, so they are names here; the ones of the
  library have their own constructor and those of the user a number. A pointer to a symbol string is an optional
  string, without the terminating zero. An exception is a value of \<open>invalid_fsm\<close>, on the left of a sum.
\<close>

datatype invalid_fsm =
    First_state_must_be_valid | Not_contiguous | Target_state_not_found | Ambiguous_slash | Ambiguous_plus

definition sbind :: "'e + 'a \<Rightarrow> ('a \<Rightarrow> 'e + 'b) \<Rightarrow> 'e + 'b" where
  "sbind x f = (case x of Inl e \<Rightarrow> Inl e | Inr a \<Rightarrow> f a)"

lemma sbind_simps [simp]: "sbind (Inl e) f = Inl e" "sbind (Inr a) f = f a"
  by (simp_all add: sbind_def)

lemma sbind_eq_Inr: "sbind x f = Inr b \<longleftrightarrow> (\<exists>a. x = Inr a \<and> f a = Inr b)"
  by (cases x) simp_all

subsection \<open>Symbols\<close>

type_synonym symbol = "string option"

text \<open>The characters of a C string, with the zero behind the last one; the comparison loop of \<^verbatim>\<open>constexpr_eq\<close>.\<close>

definition cchar :: "string \<Rightarrow> char" where
  "cchar s = (case s of [] \<Rightarrow> CHR 0x00 | c # _ \<Rightarrow> c)"

fun cstr_eq :: "string \<Rightarrow> string \<Rightarrow> bool" where
  "cstr_eq [] b = (CHR 0x00 = cchar b)"
| "cstr_eq (c # a) b =
     (if c \<noteq> CHR 0x00 \<and> c = cchar b then cstr_eq a (tl b) else c = cchar b)"

definition constexpr_eq :: "symbol \<Rightarrow> symbol \<Rightarrow> bool" where
  "constexpr_eq a b = (case a of
     None \<Rightarrow> b = None
   | Some a \<Rightarrow> (case b of None \<Rightarrow> False | Some b \<Rightarrow> cstr_eq a b))"

definition sym_valid :: "symbol \<Rightarrow> bool" where
  "sym_valid s \<longleftrightarrow> s \<noteq> None"

definition sym_str :: "symbol \<Rightarrow> string" where
  "sym_str s = (case s of None \<Rightarrow> ''-'' | Some s \<Rightarrow> s)"

subsection \<open>Guards and actions\<close>

text \<open>
  The guards \<^verbatim>\<open>always\<close>, \<^verbatim>\<open>never\<close>, \<^verbatim>\<open>guard("symbol")\<close>, \<^verbatim>\<open>entry\<close>, \<^verbatim>\<open>popped\<close>, the timeouts, and a guard of the user; the
  actions \<^verbatim>\<open>nothing\<close>, \<^verbatim>\<open>push\<close>, \<^verbatim>\<open>pop\<close>, \<^verbatim>\<open>stop\<close>, \<^verbatim>\<open>consume\<close>, and an action of the user.
\<close>

datatype guard =
    Always | Never | InputGuard symbol | Entry | Popped | Timeout_s int | Timeout_ms int | Timeout_us int
  | UserGuard nat

datatype action = Nothing | Push | Pop | Stop | Consume | UserAction nat

record guarded_action =
  ga_guard :: guard
  ga_input :: symbol
  ga_action :: action

definition GuardedAction :: "guard \<Rightarrow> action \<Rightarrow> guarded_action" where
  "GuardedAction g a = \<lparr>ga_guard = g, ga_input = None, ga_action = a\<rparr>"

definition GuardedAction_input :: "symbol \<Rightarrow> action \<Rightarrow> guarded_action" where
  "GuardedAction_input i a = \<lparr>ga_guard = Never, ga_input = i, ga_action = a\<rparr>"

definition ga_isInput :: "guarded_action \<Rightarrow> bool" where
  "ga_isInput ga \<longleftrightarrow> sym_valid (ga_input ga)"

definition ga_hasGuard :: "guarded_action \<Rightarrow> bool" where
  "ga_hasGuard ga \<longleftrightarrow> \<not> ga_isInput ga"

text \<open>The operators on guards and actions: \<^verbatim>\<open>g / a\<close>, \<^verbatim>\<open>+ "i"\<close> or \<^verbatim>\<open>input("i")\<close>, and \<^verbatim>\<open>+ "i" / a\<close>.\<close>

definition guard_div :: "guard \<Rightarrow> action \<Rightarrow> guarded_action" where
  "guard_div g a = GuardedAction g a"

definition input_plus :: "symbol \<Rightarrow> guarded_action" where
  "input_plus i = GuardedAction_input i Nothing"

definition ga_div :: "guarded_action \<Rightarrow> action \<Rightarrow> invalid_fsm + guarded_action" where
  "ga_div ga a =
     (if \<not> (ga_isInput ga \<and> ga_action ga = Nothing) then Inl Ambiguous_slash
      else Inr (GuardedAction_input (ga_input ga) a))"

subsection \<open>Transitions\<close>

record transition_start =
  start_state :: symbol
  start_ga :: guarded_action

record transition =
  t_start :: transition_start
  t_to :: symbol

definition TransitionStart :: "symbol \<Rightarrow> guarded_action \<Rightarrow> transition_start" where
  "TransitionStart s ga = \<lparr>start_state = s, start_ga = ga\<rparr>"

text \<open>The implicit conversions to \<^verbatim>\<open>TransitionStart\<close>.\<close>

definition start_of_state :: "symbol \<Rightarrow> transition_start" where
  "start_of_state s = TransitionStart s (guard_div Never Nothing)"

definition start_of_guard :: "guard \<Rightarrow> transition_start" where
  "start_of_guard g = TransitionStart None (guard_div g Nothing)"

definition start_of_action :: "action \<Rightarrow> transition_start" where
  "start_of_action a = TransitionStart None (guard_div Always a)"

definition start_of_ga :: "guarded_action \<Rightarrow> transition_start" where
  "start_of_ga ga = TransitionStart None ga"

text \<open>The operators \<^verbatim>\<open>+\<close> and \<^verbatim>\<open>/\<close> on a state.\<close>

definition plus_ga :: "symbol \<Rightarrow> guarded_action \<Rightarrow> transition_start" where
  "plus_ga s ga = TransitionStart s ga"

definition plus_guard :: "symbol \<Rightarrow> guard \<Rightarrow> transition_start" where
  "plus_guard s g = TransitionStart s (GuardedAction g Nothing)"

definition plus_input :: "symbol \<Rightarrow> symbol \<Rightarrow> transition_start" where
  "plus_input s i = TransitionStart s (GuardedAction_input i Nothing)"

definition state_div :: "symbol \<Rightarrow> action \<Rightarrow> transition_start" where
  "state_div s a = TransitionStart s (GuardedAction Always a)"

definition plus_start :: "symbol \<Rightarrow> transition_start \<Rightarrow> invalid_fsm + transition_start" where
  "plus_start s t =
     (if \<not> (ga_hasGuard (start_ga t) \<and> ga_guard (start_ga t) = Always) then Inl Ambiguous_plus
      else Inr (TransitionStart s (GuardedAction_input (start_state t) (ga_action (start_ga t)))))"

text \<open>A transition without target, and the operator \<^verbatim>\<open>>>=\<close>.\<close>

definition Transition :: "transition_start \<Rightarrow> transition" where
  "Transition s = \<lparr>t_start = s, t_to = None\<rparr>"

definition start_to :: "transition_start \<Rightarrow> symbol \<Rightarrow> transition" where
  "start_to s to = \<lparr>t_start = s, t_to = to\<rparr>"

definition state_to :: "symbol \<Rightarrow> symbol \<Rightarrow> transition" where
  "state_to s to = start_to (plus_guard s Always) to"

definition guard_to :: "guard \<Rightarrow> symbol \<Rightarrow> transition" where
  "guard_to g to = start_to (plus_guard None g) to"

definition action_to :: "action \<Rightarrow> symbol \<Rightarrow> transition" where
  "action_to a to = start_to (state_div None a) to"

definition ga_to :: "guarded_action \<Rightarrow> symbol \<Rightarrow> transition" where
  "ga_to ga to = start_to (plus_ga None ga) to"

definition t_from :: "transition \<Rightarrow> symbol" where
  "t_from t = start_state (t_start t)"

definition t_isInput :: "transition \<Rightarrow> bool" where
  "t_isInput t \<longleftrightarrow> ga_isInput (start_ga (t_start t))"

definition t_input :: "transition \<Rightarrow> symbol" where
  "t_input t = ga_input (start_ga (t_start t))"

definition t_guard :: "transition \<Rightarrow> guard" where
  "t_guard t = ga_guard (start_ga (t_start t))"

definition t_action :: "transition \<Rightarrow> action" where
  "t_action t = ga_action (start_ga (t_start t))"

subsection \<open>Compilation\<close>

text \<open>\<^verbatim>\<open>CompiledTransition\<close>; its \<^verbatim>\<open>guard\<close> points to a guard or to a symbol string.\<close>

datatype gptr = GuardPtr guard | SymbolPtr symbol

record compiled =
  c_guard :: gptr
  c_action :: action
  c_from :: symbol
  c_to :: nat
  c_input :: bool

fun find_loop :: "symbol \<Rightarrow> transition list \<Rightarrow> nat \<Rightarrow> invalid_fsm + nat" where
  "find_loop s [] i = Inl Target_state_not_found"
| "find_loop s (t # ts) i = (if constexpr_eq (t_from t) s then Inr (i + 1) else find_loop s ts (i + 1))"

definition find_state :: "symbol \<Rightarrow> transition list \<Rightarrow> invalid_fsm + nat" where
  "find_state s l = (if \<not> sym_valid s then Inr 0 else find_loop s l 0)"

definition compile_from ::
  "transition list \<Rightarrow> nat \<Rightarrow> symbol \<Rightarrow> transition \<Rightarrow> invalid_fsm + (symbol \<times> symbol)" where
  "compile_from l i prev t =
     (if \<not> constexpr_eq prev (t_from t) \<and> sym_valid (t_from t) then
        sbind (find_state (t_from t) l) (\<lambda>k.
          if k \<noteq> i then Inl Not_contiguous else Inr (t_from t, t_from t))
      else Inr (None, prev))"

fun compile_loop ::
  "transition list \<Rightarrow> transition list \<Rightarrow> nat \<Rightarrow> symbol \<Rightarrow> invalid_fsm + compiled list" where
  "compile_loop l [] i prev = Inr []"
| "compile_loop l (t # ts) i prev =
     sbind (compile_from l i prev t) (\<lambda>(from, prev).
     sbind (find_state (t_to t) l) (\<lambda>k.
     sbind (compile_loop l ts (i + 1) prev) (\<lambda>cs.
       Inr (\<lparr>c_guard = (if \<not> t_isInput t then GuardPtr (t_guard t) else SymbolPtr (t_input t)),
             c_action = t_action t, c_from = from, c_to = k, c_input = t_isInput t\<rparr> # cs))))"

definition dummy :: "guard \<Rightarrow> nat \<Rightarrow> compiled" where
  "dummy g to = \<lparr>c_guard = GuardPtr g, c_action = Nothing, c_from = None, c_to = to, c_input = False\<rparr>"

definition compile :: "transition list \<Rightarrow> invalid_fsm + compiled list" where
  "compile l = (case l of
     [] \<Rightarrow> Inr [dummy Never 0]
   | t # _ \<Rightarrow>
       if \<not> sym_valid (t_from t) then Inl First_state_must_be_valid
       else sbind (compile_loop l l 1 None) (\<lambda>cs. Inr (dummy Always 1 # cs)))"

subsection \<open>Symbols are compared by value\<close>

definition sym_ok :: "symbol \<Rightarrow> bool" where
  "sym_ok s \<longleftrightarrow> (\<forall>x. s = Some x \<longrightarrow> CHR 0x00 \<notin> set x)"

definition syms_ok :: "transition list \<Rightarrow> bool" where
  "syms_ok l \<longleftrightarrow> (\<forall>t \<in> set l. sym_ok (t_from t) \<and> sym_ok (t_to t))"

lemma cstr_eq_iff: "CHR 0x00 \<notin> set a \<Longrightarrow> CHR 0x00 \<notin> set b \<Longrightarrow> cstr_eq a b \<longleftrightarrow> a = b"
proof (induction a arbitrary: b)
  case Nil
  then show ?case by (cases b) (auto simp: cchar_def)
next
  case (Cons c a)
  then show ?case by (cases b) (auto simp: cchar_def)
qed

lemma constexpr_eq_iff: "sym_ok a \<Longrightarrow> sym_ok b \<Longrightarrow> constexpr_eq a b \<longleftrightarrow> a = b"
  by (auto simp: constexpr_eq_def sym_ok_def cstr_eq_iff split: option.splits)

lemma sym_ok_None [simp]: "sym_ok None"
  by (simp add: sym_ok_def)

subsection \<open>What a description means\<close>

text \<open>
  The source of every transition: a transition without state belongs to the state of the one before it. A
  description is well formed when the first has a state, the transitions of a state are next to each other, and
  every target is the source of a transition.
\<close>

fun sources :: "symbol \<Rightarrow> transition list \<Rightarrow> symbol list" where
  "sources prev [] = []"
| "sources prev (t # ts) = (let s = (if sym_valid (t_from t) then t_from t else prev) in s # sources s ts)"

definition contiguous :: "'a list \<Rightarrow> bool" where
  "contiguous xs \<longleftrightarrow> (\<forall>j < length xs. \<forall>i < j. xs ! i = xs ! j \<longrightarrow> xs ! (j - 1) = xs ! j)"

definition well_formed :: "transition list \<Rightarrow> bool" where
  "well_formed l \<longleftrightarrow> l = [] \<or> (sym_valid (t_from (hd l)) \<and> contiguous (sources None l)
     \<and> (\<forall>t \<in> set l. sym_valid (t_to t) \<longrightarrow> t_to t \<in> set (sources None l)))"

text \<open>The place of the first transition of a state in the table.\<close>

definition place :: "symbol \<Rightarrow> transition list \<Rightarrow> nat" where
  "place s l = (if sym_valid s then Suc (length (takeWhile (\<lambda>x. x \<noteq> s) (sources None l))) else 0)"

lemma length_sources [simp]: "length (sources p l) = length l"
  by (induction l arbitrary: p) (simp_all add: Let_def)

lemma sources_Nil [simp]: "sources p l = [] \<longleftrightarrow> l = []"
  by (metis length_0_conv length_sources)

lemma sources_append: "sources p (l @ m) = sources p l @ sources (last (p # sources p l)) m"
  by (induction l arbitrary: p) (simp_all add: Let_def)

lemma sources_set:
  "sym_valid s \<Longrightarrow> s \<in> set (sources p l) \<longleftrightarrow> s \<in> t_from ` set l \<or> (s = p \<and> l \<noteq> [] \<and> \<not> sym_valid (t_from (hd l)))"
proof (induction l arbitrary: p)
  case (Cons t l)
  let ?q = "if sym_valid (t_from t) then t_from t else p"
  have "s \<in> set (sources p (t # l)) \<longleftrightarrow> s = ?q \<or> s \<in> set (sources ?q l)" by (simp add: Let_def)
  also have "\<dots> \<longleftrightarrow> s = ?q \<or> s \<in> t_from ` set l" using Cons.IH[OF Cons.prems, of ?q] by blast
  also have "\<dots> \<longleftrightarrow> s \<in> t_from ` set (t # l) \<or> (s = p \<and> t # l \<noteq> [] \<and> \<not> sym_valid (t_from (hd (t # l))))"
    using Cons.prems by (cases "sym_valid (t_from t)") auto
  finally show ?case .
qed simp

lemma sources_valid: "l = [] \<or> sym_valid (t_from (hd l)) \<or> sym_valid p \<Longrightarrow> \<forall>x \<in> set (sources p l). sym_valid x"
proof (induction l arbitrary: p)
  case (Cons t l)
  obtain q where q: "q = (if sym_valid (t_from t) then t_from t else p)" by blast
  have v: "sym_valid q" using Cons.prems q by (cases "sym_valid (t_from t)") auto
  then have "\<forall>x \<in> set (sources q l). sym_valid x" using Cons.IH by blast
  moreover have "sources p (t # l) = q # sources q l" by (simp only: sources.simps Let_def q)
  ultimately show ?case using v by simp
qed simp

lemma find_loop_eq:
  assumes "sym_ok s" "\<forall>t \<in> set l. sym_ok (t_from t)" "sym_valid s"
  shows "find_loop s l i = (if s \<in> t_from ` set l then Inr (Suc i + length (takeWhile (\<lambda>t. t_from t \<noteq> s) l))
    else Inl Target_state_not_found)"
  using assms by (induction l arbitrary: i) (auto simp: constexpr_eq_iff)

lemma takeWhile_sources:
  assumes "sym_valid s" "s \<in> t_from ` set l" "s \<noteq> p"
  shows "length (takeWhile (\<lambda>x. x \<noteq> s) (sources p l)) = length (takeWhile (\<lambda>t. t_from t \<noteq> s) l)"
  using assms(2,3)
proof (induction l arbitrary: p)
  case (Cons t l)
  then show ?case using assms(1) by (auto simp: Let_def)
qed simp

lemma find_state_eq:
  assumes "sym_ok s" "syms_ok l" "l = [] \<or> sym_valid (t_from (hd l))"
  shows "find_state s l = (if sym_valid s \<and> s \<notin> set (sources None l) then Inl Target_state_not_found else Inr (place s l))"
proof (cases "sym_valid s")
  case True
  have f: "\<forall>t \<in> set l. sym_ok (t_from t)" using assms(2) by (simp add: syms_ok_def)
  have m: "s \<in> set (sources None l) \<longleftrightarrow> s \<in> t_from ` set l" using sources_set[OF True, of None l] assms(3) True by (auto simp: sym_valid_def)
  show ?thesis using True find_loop_eq[OF assms(1) f True, of 0] m takeWhile_sources[OF True, of l None]
    by (auto simp: find_state_def place_def sym_valid_def)
qed (simp add: find_state_def place_def)

subsection \<open>The table\<close>

abbreviation srcs :: "transition list \<Rightarrow> symbol list" where
  "srcs l \<equiv> sources None l"

definition src_before :: "transition list \<Rightarrow> nat \<Rightarrow> symbol" where
  "src_before l j = (if j = 0 then None else srcs l ! (j - 1))"

text \<open>The entry of the table for the \<open>j\<close>th transition, and the check that \<^verbatim>\<open>compile()\<close> does for it.\<close>

definition entry_of :: "transition list \<Rightarrow> nat \<Rightarrow> compiled" where
  "entry_of l j = (let t = l ! j in
     \<lparr>c_guard = (if t_isInput t then SymbolPtr (t_input t) else GuardPtr (t_guard t)), c_action = t_action t,
      c_from = (if srcs l ! j \<noteq> src_before l j then srcs l ! j else None), c_to = place (t_to t) l, c_input = t_isInput t\<rparr>)"

definition entry_ok :: "transition list \<Rightarrow> nat \<Rightarrow> bool" where
  "entry_ok l j \<longleftrightarrow> (srcs l ! j = src_before l j \<or> (\<forall>i < j. srcs l ! i \<noteq> srcs l ! j))
     \<and> (sym_valid (t_to (l ! j)) \<longrightarrow> t_to (l ! j) \<in> set (srcs l))"

lemma srcs_nth:
  assumes "j < length l"
  shows "srcs l ! j = (if sym_valid (t_from (l ! j)) then t_from (l ! j) else src_before l j)"
proof -
  have l: "l = take j l @ l ! j # drop (Suc j) l" using assms by (rule id_take_nth_drop)
  have t: "srcs (take j l) = take j (srcs l)"
    using arg_cong[OF sources_append[of None "take j l" "drop j l"], of "take j"] assms by simp
  have "srcs l = srcs (take j l) @ sources (last (None # srcs (take j l))) (l ! j # drop (Suc j) l)"
    using arg_cong[OF l, of srcs] by (simp only: sources_append)
  then have "srcs l ! j = sources (last (None # srcs (take j l))) (l ! j # drop (Suc j) l) ! 0"
    using assms by (simp add: nth_append)
  also have "\<dots> = (if sym_valid (t_from (l ! j)) then t_from (l ! j) else last (None # srcs (take j l)))"
    by (simp only: sources.simps Let_def nth_Cons_0)
  also have "last (None # srcs (take j l)) = src_before l j"
    unfolding t src_before_def using assms by (cases j) (auto simp: last_conv_nth)
  finally show ?thesis .
qed

lemma place_eq:
  assumes "j < length l" "sym_valid (srcs l ! j)"
  shows "place (srcs l ! j) l = Suc j \<longleftrightarrow> (\<forall>i < j. srcs l ! i \<noteq> srcs l ! j)"
proof -
  let ?n = "length (takeWhile (\<lambda>x. x \<noteq> srcs l ! j) (srcs l))"
  have m: "srcs l ! j \<in> set (srcs l)" using assms(1) by simp
  have lt: "?n < length (srcs l)"
  proof (rule ccontr)
    assume "\<not> ?n < length (srcs l)"
    then have "takeWhile (\<lambda>x. x \<noteq> srcs l ! j) (srcs l) = srcs l" by (metis not_less take_all takeWhile_eq_take)
    then show False using m by (auto simp only: takeWhile_eq_all_conv)
  qed
  have le: "srcs l ! ?n = srcs l ! j" using nth_length_takeWhile[OF lt] by simp
  have before: "srcs l ! i \<noteq> srcs l ! j" if "i < ?n" for i
    using set_takeWhileD[of "takeWhile (\<lambda>x. x \<noteq> srcs l ! j) (srcs l) ! i"] that takeWhile_nth[OF that] nth_mem[OF that] by metis
  have "?n = j \<longleftrightarrow> (\<forall>i < j. srcs l ! i \<noteq> srcs l ! j)"
  proof
    assume "\<forall>i < j. srcs l ! i \<noteq> srcs l ! j"
    then show "?n = j" using le before by (metis linorder_neqE_nat)
  next
    assume n: "?n = j"
    show "\<forall>i < j. srcs l ! i \<noteq> srcs l ! j" using before unfolding n by blast
  qed
  then show ?thesis using assms(2) by (simp add: place_def)
qed

lemma compile_from_eq:
  assumes "syms_ok l" "l \<noteq> []" "sym_valid (t_from (hd l))" "j < length l"
  shows "compile_from l (Suc j) (src_before l j) (l ! j) =
    (if srcs l ! j = src_before l j then Inr (None, srcs l ! j)
     else if \<forall>i < j. srcs l ! i \<noteq> srcs l ! j then Inr (srcs l ! j, srcs l ! j) else Inl Not_contiguous)"
proof -
  have ok: "sym_ok (t_from (l ! j))" using assms(1,4) by (simp add: syms_ok_def)
  have b: "sym_ok (src_before l j)"
  proof (cases j)
    case (Suc k)
    have m: "srcs l ! k \<in> set (srcs l)" using assms(4) Suc by simp
    then have "sym_valid (srcs l ! k)" using sources_valid[OF disjI2[OF disjI1[OF assms(3)]]] by blast
    with m have "srcs l ! k \<in> t_from ` set l" using sources_set[of "srcs l ! k" None l] assms(3) by (auto simp: sym_valid_def)
    then show ?thesis using assms(1) Suc by (auto simp: src_before_def syms_ok_def)
  qed (simp add: src_before_def)
  show ?thesis
  proof (cases "srcs l ! j = src_before l j")
    case True
    then have "constexpr_eq (src_before l j) (t_from (l ! j)) \<or> \<not> sym_valid (t_from (l ! j))"
      using srcs_nth[OF assms(4)] constexpr_eq_iff[OF b ok] by (auto split: if_splits)
    then show ?thesis using True by (auto simp: compile_from_def)
  next
    case False
    then have f: "sym_valid (t_from (l ! j))" "srcs l ! j = t_from (l ! j)" using srcs_nth[OF assms(4)] by (auto split: if_splits)
    have "find_state (t_from (l ! j)) l = Inr (place (t_from (l ! j)) l)"
      using find_state_eq[OF ok assms(1)] assms(3,4) f by (metis length_sources nth_mem)
    then show ?thesis using False f constexpr_eq_iff[OF b ok] place_eq[OF assms(4)] by (auto simp: compile_from_def)
  qed
qed

lemma compile_loop_eq:
  assumes "syms_ok l" "l \<noteq> []" "sym_valid (t_from (hd l))" "j \<le> length l"
  shows "if \<forall>k \<in> {j..<length l}. entry_ok l k
    then compile_loop l (drop j l) (Suc j) (src_before l j) = Inr (map (entry_of l) [j..<length l])
    else \<exists>e. compile_loop l (drop j l) (Suc j) (src_before l j) = Inl e"
  using assms(4)
proof (induction "length l - j" arbitrary: j)
  case 0
  then show ?case by simp
next
  case (Suc n)
  then have j: "j < length l" by simp
  have dr: "drop j l = l ! j # drop (Suc j) l" using j by (simp add: Cons_nth_drop_Suc)
  have IH: "if \<forall>k \<in> {Suc j..<length l}. entry_ok l k
    then compile_loop l (drop (Suc j) l) (Suc (Suc j)) (srcs l ! j) = Inr (map (entry_of l) [Suc j..<length l])
    else \<exists>e. compile_loop l (drop (Suc j) l) (Suc (Suc j)) (srcs l ! j) = Inl e"
  proof -
    have "n = length l - Suc j" "Suc j \<le> length l" "src_before l (Suc j) = srcs l ! j"
      using Suc.hyps(2) j by (simp_all add: src_before_def)
    then show ?thesis using Suc.hyps(1)[of "Suc j"] by presburger
  qed
  have all: "(\<forall>k \<in> {j..<length l}. entry_ok l k) \<longleftrightarrow> entry_ok l j \<and> (\<forall>k \<in> {Suc j..<length l}. entry_ok l k)"
    using j by (auto simp: Suc_le_eq dest: le_neq_implies_less)
  have ups: "[j..<length l] = j # [Suc j..<length l]" using j by (rule upt_conv_Cons)
  have ok: "sym_ok (t_to (l ! j))" using assms(1) j by (simp add: syms_ok_def)
  note fs = find_state_eq[OF ok assms(1), OF disjI2, OF assms(3)]
  show ?case
  proof (cases "entry_ok l j")
    case True
    then have "find_state (t_to (l ! j)) l = Inr (place (t_to (l ! j)) l)" using fs by (simp add: entry_ok_def)
    moreover have "compile_from l (Suc j) (src_before l j) (l ! j) =
        Inr (if srcs l ! j \<noteq> src_before l j then srcs l ! j else None, srcs l ! j)"
      using True compile_from_eq[OF assms(1-3) j] by (auto simp: entry_ok_def)
    ultimately have st: "compile_loop l (drop j l) (Suc j) (src_before l j) =
        sbind (compile_loop l (drop (Suc j) l) (Suc (Suc j)) (srcs l ! j)) (\<lambda>cs. Inr (entry_of l j # cs))"
      unfolding dr by (auto simp: entry_of_def Let_def)
    show ?thesis
    proof (cases "\<forall>k \<in> {Suc j..<length l}. entry_ok l k")
      case r: True
      then show ?thesis unfolding all ups st using IH True by simp
    next
      case r: False
      then obtain e where "compile_loop l (drop (Suc j) l) (Suc (Suc j)) (srcs l ! j) = Inl e"
        using IH[unfolded if_not_P[OF r]] by blast
      then show ?thesis unfolding all st using r by auto
    qed
  next
    case False
    then have "(\<exists>e. compile_from l (Suc j) (src_before l j) (l ! j) = Inl e) \<or> (\<exists>e. find_state (t_to (l ! j)) l = Inl e)"
      using fs compile_from_eq[OF assms(1-3) j] by (auto simp: entry_ok_def)
    then show ?thesis unfolding all dr using False by (cases "compile_from l (Suc j) (src_before l j) (l ! j)") auto
  qed
qed

lemma entries_ok: "(\<forall>k < length l. entry_ok l k) \<longleftrightarrow>
  contiguous (srcs l) \<and> (\<forall>t \<in> set l. sym_valid (t_to t) \<longrightarrow> t_to t \<in> set (srcs l))" if "l \<noteq> []" "sym_valid (t_from (hd l))"
proof -
  have v: "sym_valid (srcs l ! k)" if "k < length l" for k
    using sources_valid[of l None] \<open>sym_valid (t_from (hd l))\<close> that by auto
  have "(srcs l ! k = src_before l k \<or> (\<forall>i < k. srcs l ! i \<noteq> srcs l ! k)) \<longleftrightarrow>
      (\<forall>i < k. srcs l ! i = srcs l ! k \<longrightarrow> srcs l ! (k - 1) = srcs l ! k)" if "k < length l" for k
    using v[OF that] by (cases k) (auto simp: src_before_def sym_valid_def)
  then show ?thesis unfolding entry_ok_def contiguous_def all_set_conv_all_nth length_sources by blast
qed

lemma compile_eq:
  assumes "syms_ok l"
  shows "if well_formed l
    then compile l = Inr (if l = [] then [dummy Never 0] else dummy Always 1 # map (entry_of l) [0..<length l])
    else \<exists>e. compile l = Inl e"
proof (cases l)
  case (Cons t ts)
  show ?thesis
  proof (cases "sym_valid (t_from t)")
    case True
    have n: "l \<noteq> []" "sym_valid (t_from (hd l))" using Cons True by simp_all
    have wf: "well_formed l \<longleftrightarrow> (\<forall>k \<in> {0..<length l}. entry_ok l k)" using n entries_ok[OF n] by (auto simp: well_formed_def)
    have "compile l = sbind (compile_loop l l 1 None) (\<lambda>cs. Inr (dummy Always 1 # cs))"
      using Cons True by (simp add: compile_def)
    moreover have "if well_formed l then compile_loop l l 1 None = Inr (map (entry_of l) [0..<length l])
        else \<exists>e. compile_loop l l 1 None = Inl e"
    proof -
      have sb: "src_before l 0 = None" by (simp add: src_before_def)
      show ?thesis using compile_loop_eq[OF assms n le0, unfolded sb drop_0] unfolding wf One_nat_def .
    qed
    ultimately show ?thesis using n(1) by (cases "well_formed l") auto
  qed (use Cons in \<open>auto simp: well_formed_def compile_def\<close>)
qed (simp add: well_formed_def compile_def)

text \<open>
  The compiler accepts exactly the well-formed descriptions: the first transition has a state, the transitions of
  every state are next to each other (one without state continues the state before it), and every target is the state
  of some transition. For everything else it throws \<^verbatim>\<open>invalid_fsm\<close>.
\<close>

theorem compile_accepts:
  assumes "syms_ok l"
  shows "(\<exists>tbl. compile l = Inr tbl) \<longleftrightarrow> well_formed l"
  using compile_eq[OF assms] by (auto split: if_splits)

text \<open>\<^verbatim>\<open>"a" + "go" >>= "b", "b" / push >>= "a"\<close>\<close>

definition demo_fsm :: "transition list" where
  "demo_fsm = [start_to (plus_input (Some ''a'') (Some ''go'')) (Some ''b''), start_to (state_div (Some ''b'') Push) (Some ''a'')]"

lemmas dsl_defs = t_from_def start_to_def plus_input_def state_div_def TransitionStart_def GuardedAction_def
  GuardedAction_input_def

lemma demo_fsm_ok: "syms_ok demo_fsm" "well_formed demo_fsm"
  by (simp_all add: demo_fsm_def syms_ok_def sym_ok_def dsl_defs well_formed_def sym_valid_def contiguous_def Let_def less_Suc_eq)

theorem compile_accepts_witness:
  "(\<exists>tbl. compile demo_fsm = Inr tbl) \<and> \<not> (\<exists>tbl. compile [state_to (Some ''a'') (Some ''b'')] = Inr tbl)"
proof -
  let ?l = "[state_to (Some ''a'') (Some ''b'')]"
  have "syms_ok ?l" "\<not> well_formed ?l"
    by (simp_all add: syms_ok_def sym_ok_def state_to_def plus_guard_def dsl_defs well_formed_def sym_valid_def Let_def)
  then show ?thesis using compile_accepts[OF demo_fsm_ok(1)] compile_accepts[of ?l] demo_fsm_ok(2) by simp
qed

subsection \<open>The transitions of a state\<close>

text \<open>The places of the table that \<^verbatim>\<open>step()\<close> looks at, from the one of the current state.\<close>

definition scan_range :: "compiled list \<Rightarrow> nat \<Rightarrow> nat list" where
  "scan_range tbl k = k # takeWhile (\<lambda>i. \<not> sym_valid (c_from (tbl ! i))) [Suc k..<length tbl]"

lemma contiguous_after:
  assumes "contiguous xs" "i \<le> j" "j < length xs" "xs ! i = xs ! j" "i \<le> k" "k \<le> j"
  shows "xs ! k = xs ! j"
  using assms(2-6)
proof (induction "j - k" arbitrary: k)
  case (Suc n)
  then have k: "k < j" "Suc k \<le> j" by simp_all
  have "xs ! Suc k = xs ! j" using Suc.hyps(1)[of "Suc k"] Suc.hyps(2) Suc.prems k by simp
  moreover have "i < Suc k" "Suc k < length xs" using Suc.prems k by simp_all
  ultimately have "xs ! (Suc k - 1) = xs ! Suc k" using assms(1) Suc.prems(3) unfolding contiguous_def by metis
  then show ?case using \<open>xs ! Suc k = xs ! j\<close> by simp
qed simp

lemma takeWhile_upt:
  assumes "a \<le> b" "b \<le> c" "\<forall>i \<in> {a..<b}. P i" "b < c \<longrightarrow> \<not> P b"
  shows "takeWhile P [a..<c] = [a..<b]"
proof -
  have "[a..<c] = [a..<b] @ [b..<c]" using assms(1,2) by (metis le_add_diff_inverse upt_add_eq_append)
  then have "takeWhile P [a..<c] = [a..<b] @ takeWhile P [b..<c]" using assms(3) by (simp add: takeWhile_append)
  moreover have "takeWhile P [b..<c] = []" using assms(2,4) by (cases "b < c") (simp_all add: upt_conv_Cons)
  ultimately show ?thesis by simp
qed

lemma filter_upt_interval:
  "b \<le> c \<Longrightarrow> (\<And>i. i < c \<Longrightarrow> P i \<longleftrightarrow> a \<le> i \<and> i < b) \<Longrightarrow> filter P [0..<c] = [a..<b]"
proof -
  assume a: "b \<le> c" "\<And>i. i < c \<Longrightarrow> P i \<longleftrightarrow> a \<le> i \<and> i < b"
  have "sorted (filter P [0..<c])" "distinct (filter P [0..<c])" by (simp_all add: sorted_wrt_filter)
  moreover have "set (filter P [0..<c]) = set [a..<b]" using a by auto
  ultimately show ?thesis by (metis distinct_upt sorted_distinct_set_unique sorted_upt)
qed

lemma compile_table:
  assumes "syms_ok l" "compile l = Inr tbl" "l \<noteq> []"
  shows "tbl = dummy Always 1 # map (entry_of l) [0..<length l]" "well_formed l"
  using compile_eq[OF assms(1)] assms(2,3) by (auto split: if_splits)

lemma table_nth:
  assumes "syms_ok l" "compile l = Inr tbl" "j < length l"
  shows "tbl ! Suc j = entry_of l j" "length tbl = Suc (length l)"
proof -
  have "l \<noteq> []" using assms(3) by auto
  from compile_table(1)[OF assms(1,2) this] show "tbl ! Suc j = entry_of l j" "length tbl = Suc (length l)"
    using assms(3) by simp_all
qed

text \<open>The transitions of a state are an interval that starts at its place.\<close>

lemma state_interval:
  assumes "well_formed l" "s \<in> set (srcs l)" "sym_valid s"
  shows "\<exists>a b. a < b \<and> b \<le> length l \<and> place s l = Suc a \<and> (\<forall>i < length l. srcs l ! i = s \<longleftrightarrow> a \<le> i \<and> i < b)"
proof -
  let ?I = "{i. i < length l \<and> srcs l ! i = s}"
  have ne: "?I \<noteq> {}" using assms(2) by (auto simp: in_set_conv_nth)
  have fin: "finite ?I" by simp
  define a b where "a = Min ?I" and "b = Suc (Max ?I)"
  have ab: "a \<in> ?I" "b - 1 \<in> ?I" using Min_in[OF fin ne] Max_in[OF fin ne] by (simp_all add: a_def b_def)
  have lo: "a \<le> i \<and> i < b" if "i \<in> ?I" for i using Min_le[OF fin that] Max_ge[OF fin that] by (simp add: a_def b_def)
  have c: "contiguous (srcs l)" using assms(1,2) by (auto simp: well_formed_def)
  have "srcs l ! i = s" if "a \<le> i" "i < b" for i
    using contiguous_after[OF c, of a "b - 1" i] ab that by auto
  then have iff: "\<forall>i < length l. srcs l ! i = s \<longleftrightarrow> a \<le> i \<and> i < b" using lo by auto
  have "sym_valid (srcs l ! a)" "a < length l" "srcs l ! a = s" using ab(1) assms(3) by auto
  then have "place s l = Suc a" using place_eq[of a l] iff ab(1) by (metis (no_types, lifting) leD less_trans)
  then show ?thesis using iff ab lo[OF ab(1)] by (intro exI[of _ a] exI[of _ b]) (auto simp: b_def)
qed

lemma entry_from: "c_from (entry_of l j) = (if srcs l ! j \<noteq> src_before l j then srcs l ! j else None)"
  by (simp add: entry_of_def Let_def)

lemma place_entry:
  assumes "well_formed l" "s \<in> set (srcs l)" "sym_valid s"
  shows "\<exists>a < length l. place s l = Suc a \<and> c_from (entry_of l a) = s"
proof -
  obtain a b where ab: "a < b" "b \<le> length l" "place s l = Suc a" "\<forall>i < length l. srcs l ! i = s \<longleftrightarrow> a \<le> i \<and> i < b"
    using state_interval[OF assms] by blast
  then have "srcs l ! a = s" by auto
  moreover have "src_before l a \<noteq> s" using ab assms(3) by (cases a) (auto simp: src_before_def sym_valid_def)
  ultimately show ?thesis using ab(1-3) by (intro exI[of _ a]) (simp add: entry_from)
qed

lemma scan_range_eq:
  assumes "syms_ok l" "compile l = Inr tbl" "s \<in> set (srcs l)"
  shows "scan_range tbl (place s l) = map Suc (filter (\<lambda>i. srcs l ! i = s) [0..<length l])"
proof -
  have ne: "l \<noteq> []" using assms(3) by auto
  have wf: "well_formed l" by (rule compile_table[OF assms(1,2) ne])
  have hd: "sym_valid (t_from (hd l))" using wf ne by (simp add: well_formed_def)
  have v: "sym_valid x" if "x \<in> set (srcs l)" for x using sources_valid[OF disjI2[OF disjI1[OF hd]]] that by blast
  obtain a b where ab: "a < b" "b \<le> length l" "place s l = Suc a" "\<forall>i < length l. srcs l ! i = s \<longleftrightarrow> a \<le> i \<and> i < b"
    using state_interval[OF wf assms(3) v[OF assms(3)]] by blast
  have len: "length tbl = Suc (length l)" using table_nth(2)[OF assms(1,2), of 0] ne by simp
  have fr: "sym_valid (c_from (tbl ! Suc j)) \<longleftrightarrow> srcs l ! j \<noteq> src_before l j" if "j < length l" for j
    using table_nth(1)[OF assms(1,2) that] v[of "srcs l ! j"] that by (simp add: entry_from sym_valid_def)
  have "takeWhile (\<lambda>i. \<not> sym_valid (c_from (tbl ! i))) [Suc (Suc a)..<length tbl] = [Suc (Suc a)..<Suc b]"
  proof (rule takeWhile_upt)
    show "Suc (Suc a) \<le> Suc b" "Suc b \<le> length tbl" using ab(1,2) len by simp_all
    show "\<forall>i \<in> {Suc (Suc a)..<Suc b}. \<not> sym_valid (c_from (tbl ! i))"
    proof
      fix i assume "i \<in> {Suc (Suc a)..<Suc b}"
      then obtain j where j: "i = Suc j" "Suc a \<le> j" "j < b" by (cases i) auto
      then have "srcs l ! j = s" "srcs l ! (j - 1) = s" "j < length l" using ab(2,4) by auto
      then show "\<not> sym_valid (c_from (tbl ! i))" using fr[of j] j by (simp add: src_before_def)
    qed
    show "Suc b < length tbl \<longrightarrow> \<not> \<not> sym_valid (c_from (tbl ! Suc b))"
    proof
      assume "Suc b < length tbl"
      then have b: "b < length l" using len by simp
      then have "srcs l ! b \<noteq> s" "srcs l ! (b - 1) = s" using ab by auto
      then show "\<not> \<not> sym_valid (c_from (tbl ! Suc b))" using fr[OF b] ab(1) by (auto simp: src_before_def)
    qed
  qed
  then have "scan_range tbl (place s l) = Suc a # [Suc (Suc a)..<Suc b]" by (simp only: scan_range_def ab(3))
  also have "\<dots> = [Suc a..<Suc b]" using ab(1) by (simp only: upt_conv_Cons Suc_less_eq)
  also have "\<dots> = map Suc [a..<b]" by (simp only: map_Suc_upt)
  finally have "scan_range tbl (place s l) = map Suc [a..<b]" .
  moreover have "filter (\<lambda>i. srcs l ! i = s) [0..<length l] = [a..<b]" by (rule filter_upt_interval) (use ab in auto)
  ultimately show ?thesis by simp
qed

text \<open>
  C8. The table means what the description says. Its dummy start leads to the first state; behind it are the transitions
  in order, with their guard or input and their action. A transition without target has the target 0; every other one
  leads to the place of its target, where that state is stored. And from the place of a state, the loop of \<^verbatim>\<open>step()\<close>
  looks exactly at the transitions of that state, in the order of the description.
\<close>

theorem compile_correct:
  assumes "syms_ok l" "compile l = Inr tbl" "l \<noteq> []"
  shows "length tbl = Suc (length l) \<and> tbl ! 0 = dummy Always (place (t_from (hd l)) l)
    \<and> (\<forall>j < length l. let t = l ! j; c = tbl ! Suc j in
         c_input c = t_isInput t \<and> c_guard c = (if t_isInput t then SymbolPtr (t_input t) else GuardPtr (t_guard t))
         \<and> c_action c = t_action t \<and> c_to c = place (t_to t) l
         \<and> (sym_valid (t_to t) \<longrightarrow> 0 < c_to c \<and> c_to c < length tbl \<and> c_from (tbl ! c_to c) = t_to t)
         \<and> (\<not> sym_valid (t_to t) \<longrightarrow> c_to c = 0))
    \<and> (\<forall>s \<in> set (srcs l). scan_range tbl (place s l) = map Suc (filter (\<lambda>i. srcs l ! i = s) [0..<length l]))"
proof -
  have wf: "well_formed l" and tbl: "tbl = dummy Always 1 # map (entry_of l) [0..<length l]"
    using compile_table[OF assms] by blast+
  have hd: "sym_valid (t_from (hd l))" using wf assms(3) by (simp add: well_formed_def)
  have "srcs l ! 0 = t_from (hd l)" using srcs_nth[of 0 l] assms(3) hd by (simp add: hd_conv_nth)
  then have p1: "place (t_from (hd l)) l = 1" using place_eq[of 0 l] assms(3) hd by simp
  have to: "0 < place s l \<and> place s l < length tbl \<and> c_from (tbl ! place s l) = s" if s: "sym_valid s" "s \<in> set (srcs l)" for s
    using place_entry[OF wf s(2,1)] by (auto simp: tbl)
  have e: "tbl ! Suc j = entry_of l j" if "j < length l" for j using that tbl by simp
  have t: "t_to (l ! j) \<in> set (srcs l)" if "j < length l" "sym_valid (t_to (l ! j))" for j
    using wf assms(3) that by (auto simp: well_formed_def)
  have "let t = l ! j; c = tbl ! Suc j in
         c_input c = t_isInput t \<and> c_guard c = (if t_isInput t then SymbolPtr (t_input t) else GuardPtr (t_guard t))
         \<and> c_action c = t_action t \<and> c_to c = place (t_to t) l
         \<and> (sym_valid (t_to t) \<longrightarrow> 0 < c_to c \<and> c_to c < length tbl \<and> c_from (tbl ! c_to c) = t_to t)
         \<and> (\<not> sym_valid (t_to t) \<longrightarrow> c_to c = 0)" if j: "j < length l" for j
    using to[OF _ t[OF j]] e[OF j] by (simp add: Let_def entry_of_def place_def)
  then show ?thesis using scan_range_eq[OF assms(1,2)] tbl p1 by simp
qed

lemma demo_place: "place (Some ''b'') demo_fsm = 2" "srcs demo_fsm = [Some ''a'', Some ''b'']"
  by (simp_all add: place_def demo_fsm_def dsl_defs sym_valid_def Let_def)

theorem compile_correct_witness:
  "\<exists>tbl. compile demo_fsm = Inr tbl \<and> length tbl = 3 \<and> c_to (tbl ! 1) = 2 \<and> scan_range tbl 2 = [2]"
proof -
  obtain tbl where tbl: "compile demo_fsm = Inr tbl" using compile_eq[OF demo_fsm_ok(1)] demo_fsm_ok(2) by auto
  have ne: "demo_fsm \<noteq> []" "length demo_fsm = 2" "t_to (demo_fsm ! 0) = Some ''b''" by (simp_all add: demo_fsm_def dsl_defs)
  note c = compile_correct[OF demo_fsm_ok(1) tbl ne(1)]
  have "c_to (tbl ! Suc 0) = place (t_to (demo_fsm ! 0)) demo_fsm" using c ne(2) by (simp add: Let_def)
  moreover have "scan_range tbl (place (Some ''b'') demo_fsm) = map Suc (filter (\<lambda>i. srcs demo_fsm ! i = Some ''b'') [0..<2])"
    using c ne(2) demo_place(2) by simp
  ultimately show ?thesis using tbl c ne(2,3) demo_place by (intro exI[of _ tbl]) (simp add: upt_rec)
qed

text \<open>
  The two operators that repair what the precedence of C++ does to a description. \<^verbatim>\<open>"a" + "i" / act\<close> is parsed as
  \<^verbatim>\<open>"a" + ("i" / act)\<close>, with \<^verbatim>\<open>"i"\<close> taken for a state, and \<^verbatim>\<open>+ "i" / act\<close> as \<^verbatim>\<open>(+ "i") / act\<close>: both become the action for
  the input \<^verbatim>\<open>"i"\<close>. Where the repair would drop a guard or an action, it throws.
\<close>

lemma dsl_precedence:
  "plus_start a (state_div (Some i) act) = Inr (TransitionStart a (GuardedAction_input (Some i) act))"
  "ga_div (input_plus (Some i)) act = Inr (GuardedAction_input (Some i) act)"
  "g \<noteq> Always \<Longrightarrow> plus_start a (plus_guard s g) = Inl Ambiguous_plus"
  "plus_start a (plus_input s (Some i)) = Inl Ambiguous_plus"
  "ga_div (guard_div g b) act = Inl Ambiguous_slash"
  "b \<noteq> Nothing \<Longrightarrow> ga_div (GuardedAction_input (Some i) b) act = Inl Ambiguous_slash"
  by (simp_all add: plus_start_def ga_div_def plus_guard_def plus_input_def state_div_def input_plus_def guard_div_def
      TransitionStart_def GuardedAction_def GuardedAction_input_def ga_hasGuard_def ga_isInput_def sym_valid_def)

end
