(* ===== verification/Zth_Fsm.thy ===== *)
theory Zth_Fsm
  imports Zth_FsmDsl
begin

section \<open>Finite state machines: execution\<close>

text \<open>
  \<^verbatim>\<open>include/libzth/fsm14.h\<close>, second part: \<^verbatim>\<open>BasicFsm\<close> and \<^verbatim>\<open>Fsm\<close>, which run a compiled table. One record has the members of
  both classes, and the virtual functions are those of \<^verbatim>\<open>Fsm\<close>; \<^verbatim>\<open>BasicFsm\<close> is the same without time and trigger.

  Guards and actions of the user are arguments (\<open>fsm_env\<close>): a guard gives the time until it may be enabled, an action
  a list of calls that it makes on the state machine; both may change the data of the user, of type \<open>'u\<close>. The clock is
  read when the guard of a transition is evaluated and when a state is entered. \<^verbatim>\<open>m_trigger\<close> is a signal; here it is the
  fact that a trigger is pending. The hook \<^verbatim>\<open>leave()\<close> does nothing but print.
\<close>

subsection \<open>State\<close>

datatype fsm_flag =
    F_entry | F_selfloop | F_blocked | F_transition | F_pushed | F_popped | F_stop | F_input

record fsm =
  m_fsm :: "compiled list option"
  m_flags :: "fsm_flag set"
  m_prev :: nat
  m_transition :: nat
  m_state :: nat
  m_stack :: "nat list"
  m_inputs :: "symbol list"
  fsm_t :: timespec
  m_trigger :: bool

datatype fsm_call =
    CallPush | CallPop | CallStop | CallTrigger | CallInput symbol | CallClearInput symbol | CallConsume
  | CallClearInputs

record 'u fsm_env =
  u_guard :: "nat \<Rightarrow> 'u \<Rightarrow> fsm \<Rightarrow> TimeInterval \<times> 'u"
  u_action :: "nat \<Rightarrow> 'u \<Rightarrow> fsm \<Rightarrow> fsm_call list \<times> 'u"
  g_clock :: "nat \<Rightarrow> timespec"
  e_clock :: timespec

definition Fsm :: fsm where
  "Fsm = \<lparr>m_fsm = None, m_flags = {}, m_prev = 0, m_transition = 0, m_state = 0, m_stack = [], m_inputs = [],
     fsm_t = ts_null, m_trigger = False\<rparr>"

definition fsm_valid :: "fsm \<Rightarrow> bool" where
  "fsm_valid f \<longleftrightarrow> m_fsm f \<noteq> None"

definition hasFlag :: "fsm_flag \<Rightarrow> fsm \<Rightarrow> bool" where
  "hasFlag x f \<longleftrightarrow> x \<in> m_flags f"

definition setFlag :: "fsm_flag \<Rightarrow> bool \<Rightarrow> fsm \<Rightarrow> fsm" where
  "setFlag x v f = f\<lparr>m_flags := (if v then insert x (m_flags f) else m_flags f - {x})\<rparr>"

definition clearFlag :: "fsm_flag \<Rightarrow> fsm \<Rightarrow> fsm" where
  "clearFlag x f = setFlag x False f"

definition trigger :: "fsm \<Rightarrow> fsm" where
  "trigger f = f\<lparr>m_trigger := True\<rparr>"

definition fsm_reset :: "timespec \<Rightarrow> fsm \<Rightarrow> fsm" where
  "fsm_reset now f = trigger (f\<lparr>m_state := 0, m_prev := 0, m_transition := 0, m_flags := {}, m_stack := [], fsm_t := now\<rparr>)"

definition fsm_init :: "compiled list \<Rightarrow> timespec \<Rightarrow> fsm \<Rightarrow> fsm" where
  "fsm_init tbl now f = (if length tbl = 0 then f else fsm_reset now (f\<lparr>m_fsm := Some tbl\<rparr>))"

definition fsm_move :: "fsm \<Rightarrow> fsm \<Rightarrow> fsm \<times> fsm" where
  "fsm_move this f =
     (this\<lparr>m_fsm := m_fsm f, m_flags := m_flags f, m_prev := m_prev f, m_transition := m_transition f,
           m_state := m_state f, m_stack := m_stack f, m_inputs := m_inputs f\<rparr>,
      f\<lparr>m_fsm := None, m_state := 0, m_stack := [], m_inputs := []\<rparr>)"

subsection \<open>The table\<close>

definition tr :: "compiled list \<Rightarrow> nat \<Rightarrow> compiled option" where
  "tr tbl i = (if i < length tbl then Some (tbl ! i) else None)"

definition tr_guard :: "compiled list \<Rightarrow> nat \<Rightarrow> guard option" where
  "tr_guard tbl i = do {
     c \<leftarrow> tr tbl i;
     zth_assert (\<not> c_input c);
     case c_guard c of GuardPtr g \<Rightarrow> Some g | SymbolPtr _ \<Rightarrow> None
   }"

definition tr_input :: "compiled list \<Rightarrow> nat \<Rightarrow> symbol option" where
  "tr_input tbl i = do {
     c \<leftarrow> tr tbl i;
     zth_assert (c_input c);
     case c_guard c of SymbolPtr s \<Rightarrow> Some s | GuardPtr _ \<Rightarrow> None
   }"

subsection \<open>Inputs\<close>

definition fsm_input :: "symbol \<Rightarrow> fsm \<Rightarrow> fsm" where
  "fsm_input i f = (if \<not> sym_valid i then f else trigger (f\<lparr>m_inputs := m_inputs f @ [i]\<rparr>))"

fun find_input :: "symbol \<Rightarrow> symbol list \<Rightarrow> nat option" where
  "find_input i [] = None"
| "find_input i (x # xs) = (if constexpr_eq x i then Some 0 else map_option Suc (find_input i xs))"

definition clearInput :: "symbol \<Rightarrow> fsm \<Rightarrow> bool \<times> fsm" where
  "clearInput i f =
     (if \<not> sym_valid i then (False, f)
      else (case find_input i (m_inputs f) of
        Some j \<Rightarrow> (True, f\<lparr>m_inputs := butlast ((m_inputs f)[j := last (m_inputs f)])\<rparr>)
      | None \<Rightarrow> (False, f)))"

definition hasInput :: "symbol \<Rightarrow> fsm \<Rightarrow> bool" where
  "hasInput i f \<longleftrightarrow> sym_valid i \<and> find_input i (m_inputs f) \<noteq> None"

definition clearInputs :: "fsm \<Rightarrow> fsm" where
  "clearInputs f = f\<lparr>m_inputs := []\<rparr>"

text \<open>The symbol that led to the current state.\<close>

definition current_input :: "fsm \<Rightarrow> symbol option" where
  "current_input f =
     (if \<not> hasFlag F_input f then Some None
      else do { tbl \<leftarrow> m_fsm f; tr_input tbl (m_transition f) })"

definition consume :: "fsm \<Rightarrow> fsm option" where
  "consume f = do { i \<leftarrow> current_input f; Some (snd (clearInput i f)) }"

subsection \<open>Guards\<close>

definition poll_bool :: "bool \<Rightarrow> TimeInterval" where
  "poll_bool b = (if b then ti_null else ti_infinity)"

definition fsm_entry :: "fsm \<Rightarrow> bool \<times> fsm" where
  "fsm_entry f = (if \<not> hasFlag F_entry f then (False, f) else (True, clearFlag F_entry f))"

definition fsm_dt :: "timespec \<Rightarrow> fsm \<Rightarrow> TimeInterval option" where
  "fsm_dt now f = passed (fsm_t f) now"

text \<open>The conversion of an unsigned 64 bit value to \<^verbatim>\<open>long\<close>, after a product that may have wrapped around.\<close>

definition to_long :: "int \<Rightarrow> int" where
  "to_long x = (let u = x mod 2 ^ 64 in if u < 2 ^ 63 then u else u - 2 ^ 64)"

definition timeout_s :: "int \<Rightarrow> TimeInterval" where
  "timeout_s s = mk_interval s 0 False"

definition timeout_ms :: "int \<Rightarrow> TimeInterval" where
  "timeout_ms ms = mk_interval (ms div 1000) (to_long (ms * 1000000) smod 1000000000) False"

definition timeout_us :: "int \<Rightarrow> TimeInterval" where
  "timeout_us us = mk_interval (us div 1000000) (to_long (us * 1000) smod 1000000000) False"

definition timeoutGuard :: "TimeInterval \<Rightarrow> timespec \<Rightarrow> fsm \<Rightarrow> TimeInterval option" where
  "timeoutGuard t now f = do { dt \<leftarrow> fsm_dt now f; Some (ti_sub t dt) }"

fun guard_enabled :: "'u fsm_env \<Rightarrow> timespec \<Rightarrow> guard \<Rightarrow> 'u \<times> fsm \<Rightarrow> (TimeInterval \<times> 'u \<times> fsm) option" where
  "guard_enabled env now Always (u, f) = Some (poll_bool True, u, f)"
| "guard_enabled env now Never (u, f) = Some (poll_bool False, u, f)"
| "guard_enabled env now (InputGuard i) (u, f) = Some (poll_bool (hasInput i f), u, f)"
| "guard_enabled env now Entry (u, f) = (case fsm_entry f of (b, f) \<Rightarrow> Some (poll_bool b, u, f))"
| "guard_enabled env now Popped (u, f) = Some (poll_bool (hasFlag F_popped f), u, f)"
| "guard_enabled env now (Timeout_s s) (u, f) = do { p \<leftarrow> timeoutGuard (timeout_s s) now f; Some (p, u, f) }"
| "guard_enabled env now (Timeout_ms s) (u, f) = do { p \<leftarrow> timeoutGuard (timeout_ms s) now f; Some (p, u, f) }"
| "guard_enabled env now (Timeout_us s) (u, f) = do { p \<leftarrow> timeoutGuard (timeout_us s) now f; Some (p, u, f) }"
| "guard_enabled env now (UserGuard n) (u, f) = (case u_guard env n u f of (p, u) \<Rightarrow> Some (p, u, f))"

text \<open>\<^verbatim>\<open>Transitions::enabled\<close>.\<close>

definition tr_enabled :: "'u fsm_env \<Rightarrow> compiled list \<Rightarrow> nat \<Rightarrow> 'u \<times> fsm \<Rightarrow> (TimeInterval \<times> 'u \<times> fsm) option" where
  "tr_enabled env tbl i x = do {
     c \<leftarrow> tr tbl i;
     if c_input c then do { s \<leftarrow> tr_input tbl i; Some (poll_bool (hasInput s (snd x)), x) }
     else do { g \<leftarrow> tr_guard tbl i; guard_enabled env (g_clock env i) g x }
   }"

subsection \<open>Actions\<close>

definition push :: "fsm \<Rightarrow> fsm option" where
  "push f = do {
     zth_assert (fsm_valid f);
     Some (setFlag F_pushed True (f\<lparr>m_stack := m_stack f @ [m_prev f]\<rparr>))
   }"

text \<open>\<^verbatim>\<open>pop()\<close> clears \<^verbatim>\<open>m_transition\<close>, so the \<^verbatim>\<open>enter()\<close> that it calls runs no action; it only takes the time.\<close>

definition pop :: "timespec \<Rightarrow> fsm \<Rightarrow> fsm option" where
  "pop now f = do {
     zth_assert (fsm_valid f);
     zth_assert (m_stack f \<noteq> []);
     let to = last (m_stack f);
     zth_assert (to \<noteq> 0);
     let f = clearFlag F_blocked f;
     let f = setFlag F_selfloop (m_state f = to) f;
     let f = (if \<not> hasFlag F_transition f then setFlag F_transition True f else f);
     let f = f\<lparr>m_prev := m_state f, m_state := to, m_stack := butlast (m_stack f), m_transition := 0\<rparr>;
     let f = clearFlag F_input (setFlag F_popped True (clearFlag F_pushed f));
     let f = (if hasFlag F_transition f then f\<lparr>fsm_t := now\<rparr> else f);
     Some (setFlag F_entry True f)
   }"

definition fsm_stop :: "fsm \<Rightarrow> fsm" where
  "fsm_stop f = setFlag F_stop True f"

fun do_call :: "timespec \<Rightarrow> fsm_call \<Rightarrow> fsm \<Rightarrow> fsm option" where
  "do_call now CallPush f = push f"
| "do_call now CallPop f = pop now f"
| "do_call now CallStop f = Some (fsm_stop f)"
| "do_call now CallTrigger f = Some (trigger f)"
| "do_call now (CallInput i) f = Some (fsm_input i f)"
| "do_call now (CallClearInput i) f = Some (snd (clearInput i f))"
| "do_call now CallConsume f = consume f"
| "do_call now CallClearInputs f = Some (clearInputs f)"

fun do_calls :: "timespec \<Rightarrow> fsm_call list \<Rightarrow> fsm \<Rightarrow> fsm option" where
  "do_calls now [] f = Some f"
| "do_calls now (c # cs) f = do { f \<leftarrow> do_call now c f; do_calls now cs f }"

fun run_action :: "'u fsm_env \<Rightarrow> action \<Rightarrow> 'u \<times> fsm \<Rightarrow> ('u \<times> fsm) option" where
  "run_action env Nothing (u, f) = Some (u, f)"
| "run_action env Push (u, f) = do { f \<leftarrow> push f; Some (u, f) }"
| "run_action env Pop (u, f) = do { f \<leftarrow> pop (e_clock env) f; Some (u, f) }"
| "run_action env Stop (u, f) = Some (u, fsm_stop f)"
| "run_action env Consume (u, f) = do { f \<leftarrow> consume f; Some (u, f) }"
| "run_action env (UserAction n) (u, f) =
     (case u_action env n u f of (cs, u) \<Rightarrow> do { f \<leftarrow> do_calls (e_clock env) cs f; Some (u, f) })"

text \<open>\<^verbatim>\<open>Fsm::enter\<close>, with \<^verbatim>\<open>BasicFsm::enter\<close>.\<close>

definition enter :: "'u fsm_env \<Rightarrow> 'u \<times> fsm \<Rightarrow> ('u \<times> fsm) option" where
  "enter env x = (case x of (u, f) \<Rightarrow>
     let f = (if hasFlag F_transition f then f\<lparr>fsm_t := e_clock env\<rparr> else f) in
     if m_transition f \<noteq> 0 then do {
       tbl \<leftarrow> m_fsm f;
       c \<leftarrow> tr tbl (m_transition f);
       run_action env (c_action c) (u, f)
     } else Some (u, f))"

subsection \<open>One step\<close>

text \<open>The search for the first enabled guard: its place, or the shortest time until one may be enabled.\<close>

function scan ::
  "'u fsm_env \<Rightarrow> compiled list \<Rightarrow> nat \<Rightarrow> TimeInterval \<Rightarrow> 'u \<times> fsm \<Rightarrow> ((TimeInterval + nat) \<times> 'u \<times> fsm) option" where
  "scan env tbl i again x = (case tr_enabled env tbl i x of
     None \<Rightarrow> None
   | Some (p, x) \<Rightarrow>
       if ti_hasPassed p then Some (Inr i, x)
       else let again = (if ti_lt p again then p else again) in
         if Suc i \<ge> length tbl \<or> sym_valid (c_from (tbl ! Suc i)) then Some (Inl again, x)
         else scan env tbl (Suc i) again x)"
  by pat_completeness auto
termination by (relation "measure (\<lambda>(_, tbl, i, _, _). length tbl - i)") auto

text \<open>Taking the transition at place \<open>i\<close>.\<close>

definition take_transition :: "'u fsm_env \<Rightarrow> compiled list \<Rightarrow> nat \<Rightarrow> 'u \<times> fsm \<Rightarrow> ('u \<times> fsm) option" where
  "take_transition env tbl i x = (case x of (u, f) \<Rightarrow> do {
     c \<leftarrow> tr tbl i;
     let f = clearFlag F_blocked (f\<lparr>m_transition := i\<rparr>);
     if c_to c = 0 then enter env (u, setFlag F_input (c_input c) (clearFlag F_transition f))
     else do {
       let f = setFlag F_transition True (setFlag F_selfloop (c_to c = m_state f) f);
       let f = f\<lparr>m_prev := m_state f, m_state := c_to c\<rparr>;
       let f = setFlag F_input (c_input c) (clearFlag F_pushed (clearFlag F_popped f));
       (u, f) \<leftarrow> enter env (u, f);
       Some (u, setFlag F_entry True f)
     }
   })"

definition step :: "'u fsm_env \<Rightarrow> 'u \<times> fsm \<Rightarrow> (TimeInterval \<times> 'u \<times> fsm) option" where
  "step env x = do {
     tbl \<leftarrow> m_fsm (snd x);
     (r, x) \<leftarrow> scan env tbl (m_state (snd x)) (poll_bool False) x;
     case r of
       Inl again \<Rightarrow> Some (again, fst x, setFlag F_blocked True (snd x))
     | Inr i \<Rightarrow> do { x \<leftarrow> take_transition env tbl i x; Some (poll_bool True, x) }
   }"

subsection \<open>Running\<close>

text \<open>What the loop of \<^verbatim>\<open>run()\<close> does after a step that returned \<open>p\<close>.\<close>

datatype run_decision = RunReturn TimeInterval | RunAgain | RunWaitUntil timespec | RunWaitFor TimeInterval

definition run_until_next :: "timespec \<Rightarrow> timespec \<Rightarrow> TimeInterval \<Rightarrow> fsm \<Rightarrow> run_decision option" where
  "run_until_next until now p f =
     (if hasFlag F_stop f then Some (RunReturn p)
      else if isAfter now until then Some (RunReturn p)
      else if ti_hasPassed p then Some RunAgain
      else do {
        p_end \<leftarrow> ts_add now p;
        Some (RunWaitUntil (if until < p_end then until else p_end))
      })"

definition run_next :: "bool \<Rightarrow> TimeInterval \<Rightarrow> fsm \<Rightarrow> run_decision" where
  "run_next returnWhenBlocked p f =
     (if hasFlag F_stop f then RunReturn p
      else if ti_hasPassed p then RunAgain
      else if returnWhenBlocked then RunReturn p
      else RunWaitFor p)"

text \<open>
  The loops of \<^verbatim>\<open>run()\<close>. The environment of every step is given, and for every wait what happened meanwhile: other fibers
  may have registered inputs. \<open>None\<close> is a trap, or a loop that never returns.
\<close>

partial_function (option) run_until_loop ::
  "timespec \<Rightarrow> (nat \<Rightarrow> 'u fsm_env) \<Rightarrow> (nat \<Rightarrow> timespec) \<Rightarrow> (nat \<Rightarrow> 'u \<times> fsm \<Rightarrow> 'u \<times> fsm) \<Rightarrow> nat \<Rightarrow> 'u \<times> fsm \<Rightarrow> (TimeInterval \<times> 'u \<times> fsm) option" where
  "run_until_loop until env clk wait n x =
     Option.bind (step (env n) x) (\<lambda>(p, x).
     Option.bind (run_until_next until (clk n) p (snd x)) (\<lambda>r. case r of
       RunReturn p \<Rightarrow> Some (p, x)
     | RunAgain \<Rightarrow> run_until_loop until env clk wait (Suc n) x
     | RunWaitUntil _ \<Rightarrow> run_until_loop until env clk wait (Suc n) (wait n x)
     | RunWaitFor _ \<Rightarrow> run_until_loop until env clk wait (Suc n) (wait n x)))"

definition run_until ::
  "timespec \<Rightarrow> (nat \<Rightarrow> 'u fsm_env) \<Rightarrow> (nat \<Rightarrow> timespec) \<Rightarrow> (nat \<Rightarrow> 'u \<times> fsm \<Rightarrow> 'u \<times> fsm) \<Rightarrow> 'u \<times> fsm \<Rightarrow> (TimeInterval \<times> 'u \<times> fsm) option" where
  "run_until until env clk wait x = run_until_loop until env clk wait 0 (fst x, clearFlag F_stop (snd x))"

partial_function (option) run_loop ::
  "bool \<Rightarrow> (nat \<Rightarrow> 'u fsm_env) \<Rightarrow> (nat \<Rightarrow> 'u \<times> fsm \<Rightarrow> 'u \<times> fsm) \<Rightarrow> nat \<Rightarrow> 'u \<times> fsm \<Rightarrow> (TimeInterval \<times> 'u \<times> fsm) option" where
  "run_loop blk env wait n x =
     Option.bind (step (env n) x) (\<lambda>(p, x). case run_next blk p (snd x) of
       RunReturn p \<Rightarrow> Some (p, x)
     | RunAgain \<Rightarrow> run_loop blk env wait (Suc n) x
     | RunWaitUntil _ \<Rightarrow> run_loop blk env wait (Suc n) (wait n x)
     | RunWaitFor _ \<Rightarrow> run_loop blk env wait (Suc n) (wait n x))"

definition run ::
  "bool \<Rightarrow> (nat \<Rightarrow> 'u fsm_env) \<Rightarrow> (nat \<Rightarrow> 'u \<times> fsm \<Rightarrow> 'u \<times> fsm) \<Rightarrow> 'u \<times> fsm \<Rightarrow> (TimeInterval \<times> 'u \<times> fsm) option" where
  "run blk env wait x = run_loop blk env wait 0 (fst x, clearFlag F_stop (snd x))"

text \<open>\<^verbatim>\<open>GuardedActionBase::tryRun\<close>, for a guarded action outside of a state machine's table.\<close>

definition ga_enabled :: "'u fsm_env \<Rightarrow> timespec \<Rightarrow> guarded_action \<Rightarrow> 'u \<times> fsm \<Rightarrow> (TimeInterval \<times> 'u \<times> fsm) option" where
  "ga_enabled env now ga x =
     (if ga_isInput ga then Some (poll_bool (hasInput (ga_input ga) (snd x)), x)
      else guard_enabled env now (ga_guard ga) x)"

definition tryRun :: "'u fsm_env \<Rightarrow> timespec \<Rightarrow> guarded_action \<Rightarrow> 'u \<times> fsm \<Rightarrow> (TimeInterval \<times> 'u \<times> fsm) option" where
  "tryRun env now ga x = do {
     (p, x) \<leftarrow> ga_enabled env now ga x;
     let e = (\<not> ti_hasPassed p);
     if e then Some (poll_bool e, x)
     else do { x \<leftarrow> run_action env (ga_action ga) x; Some (poll_bool True, x) }
   }"

declare scan.simps [simp del]

subsection \<open>The search follows the description\<close>

text \<open>The reference: evaluate the guards of the given transitions of the description one after the other.\<close>

definition t_enabled :: "'u fsm_env \<Rightarrow> nat \<Rightarrow> transition \<Rightarrow> 'u \<times> fsm \<Rightarrow> (TimeInterval \<times> 'u \<times> fsm) option" where
  "t_enabled env i t x =
     (if t_isInput t then Some (poll_bool (hasInput (t_input t) (snd x)), x) else guard_enabled env (g_clock env i) (t_guard t) x)"

fun first_enabled ::
  "'u fsm_env \<Rightarrow> transition list \<Rightarrow> nat list \<Rightarrow> TimeInterval \<Rightarrow> 'u \<times> fsm \<Rightarrow> ((TimeInterval + nat) \<times> 'u \<times> fsm) option" where
  "first_enabled env l [] again x = Some (Inl again, x)"
| "first_enabled env l (j # js) again x = (case t_enabled env (Suc j) (l ! j) x of
     None \<Rightarrow> None
   | Some (p, x) \<Rightarrow>
       if ti_hasPassed p then Some (Inr j, x)
       else first_enabled env l js (if ti_lt p again then p else again) x)"

definition rules :: "transition list \<Rightarrow> symbol \<Rightarrow> nat list" where
  "rules l s = filter (\<lambda>j. srcs l ! j = s) [0..<length l]"

fun scan_list ::
  "'u fsm_env \<Rightarrow> compiled list \<Rightarrow> nat list \<Rightarrow> TimeInterval \<Rightarrow> 'u \<times> fsm \<Rightarrow> ((TimeInterval + nat) \<times> 'u \<times> fsm) option" where
  "scan_list env tbl [] again x = Some (Inl again, x)"
| "scan_list env tbl (i # is) again x = (case tr_enabled env tbl i x of
     None \<Rightarrow> None
   | Some (p, x) \<Rightarrow>
       if ti_hasPassed p then Some (Inr i, x)
       else scan_list env tbl is (if ti_lt p again then p else again) x)"

lemma scan_range_Cons:
  "scan_range tbl i = i # (if Suc i \<ge> length tbl \<or> sym_valid (c_from (tbl ! Suc i)) then [] else scan_range tbl (Suc i))"
  by (cases "Suc i < length tbl") (simp_all add: scan_range_def upt_conv_Cons)

lemma scan_eq: "scan env tbl i again x = scan_list env tbl (scan_range tbl i) again x"
proof (induction env tbl i again x rule: scan.induct)
  case (1 env tbl i again x)
  show ?case
  proof (cases "tr_enabled env tbl i x")
    case None
    then show ?thesis by (subst scan.simps) (simp add: scan_range_def)
  next
    case (Some y)
    obtain p u f where y: "y = (p, u, f)" by (cases y)
    show ?thesis
      using 1[OF Some y[symmetric]] Some y
      by (subst scan.simps, subst scan_range_Cons) (auto simp: Let_def)
  qed
qed

lemma tr_enabled_eq:
  assumes "syms_ok l" "compile l = Inr tbl" "j < length l"
  shows "tr_enabled env tbl (Suc j) x = t_enabled env (Suc j) (l ! j) x"
proof -
  have "tbl ! Suc j = entry_of l j" "Suc j < length tbl" using table_nth[OF assms] assms(3) by simp_all
  then show ?thesis
    by (simp add: tr_enabled_def t_enabled_def tr_def tr_input_def tr_guard_def entry_of_def Let_def)
qed

lemma scan_list_eq:
  assumes "syms_ok l" "compile l = Inr tbl" "\<forall>j \<in> set js. j < length l"
  shows "scan_list env tbl (map Suc js) again x = map_option (map_prod (map_sum id Suc) id) (first_enabled env l js again x)"
  using assms(3)
proof (induction js arbitrary: again x)
  case (Cons j js)
  have "tr_enabled env tbl (Suc j) x = t_enabled env (Suc j) (l ! j) x"
    by (rule tr_enabled_eq[OF assms(1,2)]) (use Cons.prems in simp)
  then show ?case using Cons by (auto split: option.splits)
qed simp

lemma scan_correct:
  assumes "syms_ok l" "compile l = Inr tbl" "s \<in> set (srcs l)"
  shows "scan env tbl (place s l) again x = map_option (map_prod (map_sum id Suc) id) (first_enabled env l (rules l s) again x)"
  unfolding scan_eq scan_range_eq[OF assms] rules_def[symmetric]
  by (rule scan_list_eq[OF assms(1,2)]) (simp add: rules_def)

text \<open>
  C7. A step of the compiled machine is a step of the description. In the state \<open>s\<close> the guards and inputs of the
  transitions of \<open>s\<close>, and no others, are tried in the order in which they are written. If none is enabled, the machine is
  blocked and the result is the shortest interval that they returned; otherwise the first enabled transition is taken.
\<close>

theorem step_refines:
  assumes "syms_ok l" "compile l = Inr tbl" "s \<in> set (srcs l)" "m_fsm f = Some tbl" "m_state f = place s l"
  shows "step env (u, f) = (case first_enabled env l (rules l s) ti_infinity (u, f) of
      None \<Rightarrow> None
    | Some (Inl again, u', f') \<Rightarrow> Some (again, u', setFlag F_blocked True f')
    | Some (Inr j, x) \<Rightarrow> map_option (Pair ti_null) (take_transition env tbl (Suc j) x))"
  using assms(4,5) scan_correct[OF assms(1-3), of env ti_infinity "(u, f)"]
  by (auto simp: step_def poll_bool_def split: option.splits sum.splits bind_splits)

subsection \<open>Invariant\<close>

text \<open>
  The state, the previous one and those on the stack are places where a state begins, or 0, the dummy start. When the
  flag \<^verbatim>\<open>input\<close> is set, the last transition was taken because of an input.
\<close>

definition begins :: "compiled list \<Rightarrow> nat \<Rightarrow> bool" where
  "begins tbl k \<longleftrightarrow> k < length tbl \<and> (k = 0 \<or> sym_valid (c_from (tbl ! k)))"

definition table_ok :: "compiled list \<Rightarrow> bool" where
  "table_ok tbl \<longleftrightarrow> tbl \<noteq> [] \<and> (\<forall>c \<in> set tbl. begins tbl (c_to c)
     \<and> (if c_input c then \<exists>s. c_guard c = SymbolPtr s else \<exists>g. c_guard c = GuardPtr g))"

definition fsm_inv :: "compiled list \<Rightarrow> fsm \<Rightarrow> bool" where
  "fsm_inv tbl f \<longleftrightarrow> m_fsm f = Some tbl \<and> begins tbl (m_state f) \<and> begins tbl (m_prev f) \<and> m_transition f < length tbl
     \<and> (\<forall>k \<in> set (m_stack f). begins tbl k) \<and> (F_input \<in> m_flags f \<longrightarrow> c_input (tbl ! m_transition f))"

lemma table_ok_compile:
  assumes "syms_ok l" "compile l = Inr tbl"
  shows "table_ok tbl"
proof (cases "l = []")
  case True
  then show ?thesis using assms(2) by (auto simp: compile_def table_ok_def dummy_def begins_def)
next
  case False
  have wf: "well_formed l" and tbl: "tbl = dummy Always 1 # map (entry_of l) [0..<length l]"
    using compile_table[OF assms False] by blast+
  have hd: "sym_valid (t_from (hd l))" using wf False by (simp add: well_formed_def)
  have p: "begins tbl (place s l)" if "sym_valid s \<longrightarrow> s \<in> set (srcs l)" for s
  proof (cases "sym_valid s")
    case True
    then have "s \<in> set (srcs l)" using that by blast
    from place_entry[OF wf this True] show ?thesis using True by (auto simp: begins_def tbl)
  qed (simp add: place_def begins_def tbl)
  have "srcs l ! 0 = t_from (hd l)" using srcs_nth[of 0 l] False hd by (simp add: hd_conv_nth)
  then have "place (t_from (hd l)) l = 1" "t_from (hd l) \<in> set (srcs l)"
    using place_eq[of 0 l] False hd nth_mem[of 0 "srcs l"] by simp_all
  then have "begins tbl 1" using p by metis
  moreover have "begins tbl (place (t_to (l ! j)) l)" if "j < length l" for j
    using p wf False that by (simp add: well_formed_def)
  ultimately show ?thesis
    by (auto simp: table_ok_def tbl dummy_def entry_of_def Let_def)
qed

lemma fsm_init_inv: "table_ok tbl \<Longrightarrow> fsm_inv tbl (fsm_init tbl now f)"
  by (simp add: table_ok_def fsm_inv_def fsm_init_def fsm_reset_def trigger_def begins_def)

lemmas flag_simps = setFlag_def clearFlag_def hasFlag_def fsm_valid_def

lemma setFlag_sel [simp]:
  "m_fsm (setFlag x v f) = m_fsm f" "m_prev (setFlag x v f) = m_prev f" "m_transition (setFlag x v f) = m_transition f"
  "m_state (setFlag x v f) = m_state f" "m_stack (setFlag x v f) = m_stack f" "m_inputs (setFlag x v f) = m_inputs f"
  "fsm_t (setFlag x v f) = fsm_t f" "m_trigger (setFlag x v f) = m_trigger f"
  "y \<in> m_flags (setFlag x v f) \<longleftrightarrow> (if y = x then v else y \<in> m_flags f)"
  by (simp_all add: setFlag_def)

lemma fsm_inv_upd [simp]:
  "fsm_inv tbl (f\<lparr>m_inputs := i\<rparr>) = fsm_inv tbl f" "fsm_inv tbl (f\<lparr>fsm_t := t\<rparr>) = fsm_inv tbl f"
  "fsm_inv tbl (trigger f) = fsm_inv tbl f" "x \<noteq> F_input \<Longrightarrow> fsm_inv tbl (setFlag x v f) = fsm_inv tbl f"
  "x \<noteq> F_input \<Longrightarrow> fsm_inv tbl (clearFlag x f) = fsm_inv tbl f"
  by (simp_all add: fsm_inv_def trigger_def flag_simps)

lemma clearInput_inv: "fsm_inv tbl f \<Longrightarrow> fsm_inv tbl (snd (clearInput i f))"
  by (auto simp: clearInput_def split: option.splits)

lemma current_input_ok:
  assumes "fsm_inv tbl f" "table_ok tbl"
  shows "\<exists>s. current_input f = Some s"
proof (cases "F_input \<in> m_flags f")
  case True
  then have c: "m_transition f < length tbl" "c_input (tbl ! m_transition f)" "m_fsm f = Some tbl" using assms(1) by (simp_all add: fsm_inv_def)
  then obtain s where "c_guard (tbl ! m_transition f) = SymbolPtr s" using assms(2) unfolding table_ok_def by (metis nth_mem)
  then show ?thesis using c True by (simp add: current_input_def hasFlag_def tr_input_def tr_def)
qed (simp add: current_input_def hasFlag_def)

lemma consume_ok:
  assumes "fsm_inv tbl f" "table_ok tbl"
  shows "\<exists>f'. consume f = Some f' \<and> fsm_inv tbl f'"
  using current_input_ok[OF assms] clearInput_inv[OF assms(1)] by (auto simp: consume_def)

lemma push_ok: "fsm_inv tbl f \<Longrightarrow> \<exists>f'. push f = Some f' \<and> fsm_inv tbl f'"
  by (auto simp: push_def fsm_inv_def flag_simps)

text \<open>All that \<^verbatim>\<open>pop()\<close> does.\<close>

definition popped :: "timespec \<Rightarrow> fsm \<Rightarrow> fsm" where
  "popped now f = f\<lparr>m_prev := m_state f, m_state := last (m_stack f), m_stack := butlast (m_stack f), m_transition := 0,
     fsm_t := now, m_flags := (m_flags f - {F_blocked, F_selfloop, F_pushed, F_input}) \<union> {F_transition, F_popped, F_entry}
       \<union> (if m_state f = last (m_stack f) then {F_selfloop} else {})\<rparr>"

lemma pop_eq:
  "pop now f = (if fsm_valid f \<and> m_stack f \<noteq> [] \<and> last (m_stack f) \<noteq> 0 then Some (popped now f) else None)"
proof (cases "fsm_valid f \<and> m_stack f \<noteq> [] \<and> last (m_stack f) \<noteq> 0")
  case True
  then obtain f' where f': "pop now f = Some f'" by (simp add: pop_def Let_def)
  note d = pop_def Let_def clearFlag_def hasFlag_def popped_def
  have "x \<in> m_flags f' \<longleftrightarrow> x \<in> m_flags (popped now f)" for x
    using True f' by (cases x; cases "F_transition \<in> m_flags f") (auto simp: d)
  then have "m_flags f' = m_flags (popped now f)" by blast
  moreover have "m_fsm f' = m_fsm (popped now f) \<and> m_prev f' = m_prev (popped now f) \<and> m_transition f' = m_transition (popped now f)
      \<and> m_state f' = m_state (popped now f) \<and> m_stack f' = m_stack (popped now f) \<and> m_inputs f' = m_inputs (popped now f)
      \<and> fsm_t f' = fsm_t (popped now f) \<and> m_trigger f' = m_trigger (popped now f)"
    using True f' by (cases "F_transition \<in> m_flags f") (auto simp: d)
  ultimately have "f' = popped now f" by simp
  then show ?thesis using f'(1) True by simp
qed (auto simp: pop_def zth_assert_def)

lemma pop_inv: "fsm_inv tbl f \<Longrightarrow> pop now f = Some f' \<Longrightarrow> fsm_inv tbl f'"
proof -
  assume i: "fsm_inv tbl f" and p: "pop now f = Some f'"
  then have f': "f' = popped now f" "m_stack f \<noteq> []" by (simp_all add: pop_eq split: if_splits)
  then have "begins tbl (last (m_stack f))" using i by (simp add: fsm_inv_def)
  then show ?thesis using i f'(1) by (auto simp: popped_def fsm_inv_def dest: in_set_butlastD)
qed

text \<open>Only \<^verbatim>\<open>pop()\<close> can trap.\<close>

lemma do_call_ok:
  assumes "fsm_inv tbl f" "table_ok tbl"
  shows "(c \<noteq> CallPop \<longrightarrow> (\<exists>f'. do_call now c f = Some f')) \<and> (\<forall>f'. do_call now c f = Some f' \<longrightarrow> fsm_inv tbl f')"
proof (cases c)
  case CallPush
  then show ?thesis using push_ok[OF assms(1)] by auto
next
  case CallPop
  then show ?thesis using pop_inv[OF assms(1)] by simp
next
  case CallConsume
  then show ?thesis using consume_ok[OF assms] by auto
qed (use assms clearInput_inv[OF assms(1)] in \<open>auto simp: fsm_stop_def fsm_input_def clearInputs_def\<close>)

lemma do_calls_ok:
  assumes "table_ok tbl"
  shows "fsm_inv tbl f \<Longrightarrow> (CallPop \<notin> set cs \<longrightarrow> (\<exists>f'. do_calls now cs f = Some f')) \<and> (\<forall>f'. do_calls now cs f = Some f' \<longrightarrow> fsm_inv tbl f')"
proof (induction cs arbitrary: f)
  case (Cons c cs)
  note c = do_call_ok[OF Cons.prems assms, of c now]
  show ?case
  proof (cases "do_call now c f")
    case None
    then show ?thesis using c by auto
  next
    case (Some f1)
    then show ?thesis using c Cons.IH[of f1] by auto
  qed
qed simp

definition no_pop :: "'u fsm_env \<Rightarrow> action \<Rightarrow> bool" where
  "no_pop env a \<longleftrightarrow> a \<noteq> Pop \<and> (\<forall>n u f. a = UserAction n \<longrightarrow> CallPop \<notin> set (fst (u_action env n u f)))"

lemma run_action_ok:
  assumes "fsm_inv tbl f" "table_ok tbl"
  shows "(no_pop env a \<longrightarrow> (\<exists>x. run_action env a (u, f) = Some x)) \<and> (\<forall>u' f'. run_action env a (u, f) = Some (u', f') \<longrightarrow> fsm_inv tbl f')"
proof (cases a)
  case Push
  then show ?thesis using push_ok[OF assms(1)] by auto
next
  case Pop
  then show ?thesis using pop_inv[OF assms(1)] by (auto simp: no_pop_def split: bind_splits)
next
  case Consume
  then show ?thesis using consume_ok[OF assms] by auto
next
  case (UserAction n)
  obtain cs v where cs: "u_action env n u f = (cs, v)" by fastforce
  have "no_pop env a \<longrightarrow> CallPop \<notin> set cs" using UserAction cs unfolding no_pop_def by (metis fst_conv)
  then show ?thesis using do_calls_ok[OF assms(2,1), of cs "e_clock env"] UserAction cs by (auto split: bind_splits)
qed (use assms in \<open>auto simp: fsm_stop_def\<close>)

subsection \<open>Steps keep the invariant\<close>

definition clock_ok :: "'u fsm_env \<Rightarrow> fsm \<Rightarrow> bool" where
  "clock_ok env f \<longleftrightarrow> (\<forall>i. \<not> isAfter (fsm_t f) (g_clock env i))"

definition guard_frame :: "fsm \<Rightarrow> fsm \<Rightarrow> bool" where
  "guard_frame f f' \<longleftrightarrow> f' = f\<lparr>m_flags := m_flags f'\<rparr> \<and> (\<forall>x. x \<noteq> F_entry \<longrightarrow> (x \<in> m_flags f' \<longleftrightarrow> x \<in> m_flags f))"

lemma guard_frame_refl [simp]: "guard_frame f f"
  by (simp add: guard_frame_def)

lemma guard_frame_sel:
  assumes "guard_frame f f'"
  shows "m_fsm f' = m_fsm f" "m_state f' = m_state f" "m_prev f' = m_prev f" "m_transition f' = m_transition f"
    "m_stack f' = m_stack f" "m_inputs f' = m_inputs f" "fsm_t f' = fsm_t f" "x \<noteq> F_entry \<Longrightarrow> x \<in> m_flags f' \<longleftrightarrow> x \<in> m_flags f"
proof -
  have e: "f' = f\<lparr>m_flags := m_flags f'\<rparr>" using assms by (simp add: guard_frame_def)
  show "m_fsm f' = m_fsm f" by (subst e) simp
  show "m_state f' = m_state f" by (subst e) simp
  show "m_prev f' = m_prev f" by (subst e) simp
  show "m_transition f' = m_transition f" by (subst e) simp
  show "m_stack f' = m_stack f" by (subst e) simp
  show "m_inputs f' = m_inputs f" by (subst e) simp
  show "fsm_t f' = fsm_t f" by (subst e) simp
  show "x \<noteq> F_entry \<Longrightarrow> x \<in> m_flags f' \<longleftrightarrow> x \<in> m_flags f" using assms by (simp add: guard_frame_def)
qed

lemma guard_frame_trans: "guard_frame f g \<Longrightarrow> guard_frame g h \<Longrightarrow> guard_frame f h"
  by (cases f, cases g, cases h) (simp add: guard_frame_def)

lemma guard_frame_inv: "guard_frame f f' \<Longrightarrow> fsm_inv tbl f' = fsm_inv tbl f"
  using guard_frame_sel[of f f'] by (simp add: fsm_inv_def)

lemma guard_frame_clock: "guard_frame f f' \<Longrightarrow> clock_ok env f' = clock_ok env f"
  using guard_frame_sel[of f f'] by (simp add: clock_ok_def)

lemma entry_frame: "guard_frame f (snd (fsm_entry f))"
  by (cases f) (simp add: fsm_entry_def guard_frame_def flag_simps)

text \<open>A guard changes nothing but the flag \<^verbatim>\<open>entry\<close>, and it traps only when the clock runs backwards.\<close>

lemma guard_enabled_frame: "guard_enabled env now g (u, f) = Some (p, u', f') \<Longrightarrow> guard_frame f f'"
  using entry_frame[of f] by (cases g) (auto split: bind_splits prod.splits)

lemma guard_enabled_total:
  assumes "\<not> isAfter (fsm_t f) now"
  shows "\<exists>p u' f'. guard_enabled env now g (u, f) = Some (p, u', f')"
  using assms by (cases g) (auto simp: timeoutGuard_def fsm_dt_def passed_def Let_def split: prod.splits)

lemma tr_enabled_frame: "tr_enabled env tbl i (u, f) = Some (p, u', f') \<Longrightarrow> guard_frame f f'"
  by (auto simp: tr_enabled_def dest: guard_enabled_frame split: bind_splits if_splits)

lemma tr_enabled_total:
  assumes "table_ok tbl" "i < length tbl" "clock_ok env f"
  shows "\<exists>p u' f'. tr_enabled env tbl i (u, f) = Some (p, u', f')"
proof (cases "c_input (tbl ! i)")
  case True
  then obtain s where "c_guard (tbl ! i) = SymbolPtr s" using assms(1,2) unfolding table_ok_def by (metis nth_mem)
  then show ?thesis using True assms(2) by (simp add: tr_enabled_def tr_def tr_input_def)
next
  case False
  then obtain g where "c_guard (tbl ! i) = GuardPtr g" using assms(1,2) unfolding table_ok_def by (metis nth_mem)
  then show ?thesis using False assms(2,3) guard_enabled_total[of f "g_clock env i" env g u]
    by (simp add: tr_enabled_def tr_def tr_guard_def clock_ok_def)
qed

lemma scan_list_frame:
  "scan_list env tbl is again (u, f) = Some (r, u', f') \<Longrightarrow> guard_frame f f' \<and> (\<forall>i. r = Inr i \<longrightarrow> i \<in> set is)"
proof (induction "is" arbitrary: again u f)
  case (Cons i "is")
  then obtain p u1 f1 where t: "tr_enabled env tbl i (u, f) = Some (p, u1, f1)" by (auto split: option.splits)
  show ?case
  proof (cases "ti_hasPassed p")
    case True
    then show ?thesis using Cons.prems t tr_enabled_frame[OF t] by auto
  next
    case False
    then show ?thesis using Cons.prems Cons.IH[of "if ti_lt p again then p else again" u1 f1] t
        guard_frame_trans[OF tr_enabled_frame[OF t]] by auto
  qed
qed auto

lemma scan_list_total:
  assumes "table_ok tbl"
  shows "\<forall>i \<in> set is. i < length tbl \<Longrightarrow> clock_ok env f \<Longrightarrow> \<exists>r u' f'. scan_list env tbl is again (u, f) = Some (r, u', f')"
proof (induction "is" arbitrary: again u f)
  case (Cons i "is")
  obtain p u1 f1 where t: "tr_enabled env tbl i (u, f) = Some (p, u1, f1)"
    using tr_enabled_total[OF assms _ Cons.prems(2)] Cons.prems(1) by (metis list.set_intros(1))
  have "clock_ok env f1" using guard_frame_clock[OF tr_enabled_frame[OF t], of env] Cons.prems(2) by blast
  then show ?case using t Cons.IH[of f1] Cons.prems(1) by auto
qed auto

lemma scan_range_less: "i < length tbl \<Longrightarrow> \<forall>j \<in> set (scan_range tbl i). j < length tbl"
  by (auto simp: scan_range_def dest: set_takeWhileD)

lemma take_transition_ok:
  assumes "table_ok tbl" "fsm_inv tbl f" "i < length tbl"
  shows "(no_pop env (c_action (tbl ! i)) \<longrightarrow> (\<exists>x. take_transition env tbl i (u, f) = Some x))
    \<and> (\<forall>u' f'. take_transition env tbl i (u, f) = Some (u', f') \<longrightarrow> fsm_inv tbl f')"
proof -
  let ?c = "tbl ! i"
  have to: "begins tbl (c_to ?c)" using assms(1,3) by (simp add: table_ok_def)
  have e: "(no_pop env (c_action ?c) \<longrightarrow> (\<exists>x. enter env (u, g) = Some x)) \<and> (\<forall>u' f'. enter env (u, g) = Some (u', f') \<longrightarrow> fsm_inv tbl f')"
    if g: "fsm_inv tbl g" "m_transition g = i" for g
  proof -
    let ?g = "if hasFlag F_transition g then g\<lparr>fsm_t := e_clock env\<rparr> else g"
    have "fsm_inv tbl ?g" "m_transition ?g = i" "m_fsm ?g = Some tbl" using g by (auto simp: fsm_inv_def)
    then show ?thesis
      using run_action_ok[of tbl ?g env "c_action ?c" u] assms(1,3) by (auto simp: enter_def tr_def Let_def split: if_splits)
  qed
  let ?f1 = "setFlag F_input (c_input ?c) (clearFlag F_transition (clearFlag F_blocked (f\<lparr>m_transition := i\<rparr>)))"
  let ?f2 = "setFlag F_transition True (setFlag F_selfloop (c_to ?c = m_state f) (clearFlag F_blocked (f\<lparr>m_transition := i\<rparr>)))"
  let ?f3 = "setFlag F_input (c_input ?c) (clearFlag F_pushed (clearFlag F_popped (?f2\<lparr>m_prev := m_state f, m_state := c_to ?c\<rparr>)))"
  have "fsm_inv tbl ?f1" "m_transition ?f1 = i" "fsm_inv tbl ?f3" "m_transition ?f3 = i"
    using assms(2,3) to by (simp_all add: fsm_inv_def clearFlag_def)
  note e1 = e[OF this(1,2)] and e3 = e[OF this(3,4)]
  show ?thesis
  proof (cases "c_to ?c = 0")
    case True
    then have "take_transition env tbl i (u, f) = enter env (u, ?f1)" using assms(3) by (simp add: take_transition_def tr_def Let_def)
    then show ?thesis using e1 by simp
  next
    case False
    then have "take_transition env tbl i (u, f) = enter env (u, ?f3) \<bind> (\<lambda>(u, f). Some (u, setFlag F_entry True f))"
      using assms(3) by (simp add: take_transition_def tr_def Let_def clearFlag_def)
    then show ?thesis using e3 by (auto split: bind_splits)
  qed
qed

lemma step_ok:
  assumes "table_ok tbl" "fsm_inv tbl f"
  shows "(\<forall>p u' f'. step env (u, f) = Some (p, u', f') \<longrightarrow> fsm_inv tbl f')
    \<and> (clock_ok env f \<and> (\<forall>c \<in> set tbl. no_pop env (c_action c)) \<longrightarrow> (\<exists>p u' f'. step env (u, f) = Some (p, u', f')))"
proof -
  let ?js = "scan_range tbl (m_state f)"
  have f: "m_fsm f = Some tbl" "m_state f < length tbl" using assms(2) by (simp_all add: fsm_inv_def begins_def)
  have st: "step env (u, f) = (case scan_list env tbl ?js ti_infinity (u, f) of
      None \<Rightarrow> None
    | Some (Inl again, u', f') \<Rightarrow> Some (again, u', setFlag F_blocked True f')
    | Some (Inr i, x) \<Rightarrow> map_option (Pair ti_null) (take_transition env tbl i x))"
    using f(1) by (auto simp: step_def scan_eq poll_bool_def split: option.splits sum.splits bind_splits)
  show ?thesis
  proof (cases "scan_list env tbl ?js ti_infinity (u, f)")
    case None
    have "\<not> clock_ok env f" using scan_list_total[OF assms(1) scan_range_less[OF f(2)], of env f ti_infinity u] None by auto
    then show ?thesis using st None by simp
  next
    case (Some y)
    obtain r u1 f1 where y: "y = (r, u1, f1)" by (cases y)
    have fr: "guard_frame f f1" "\<forall>i. r = Inr i \<longrightarrow> i \<in> set ?js" using scan_list_frame[of env tbl ?js ti_infinity u f r u1 f1] Some y by simp_all
    have i1: "fsm_inv tbl f1" using guard_frame_inv[OF fr(1)] assms(2) by simp
    show ?thesis
    proof (cases r)
      case (Inl again)
      then show ?thesis using st Some y i1 by simp
    next
      case (Inr i)
      have i: "i < length tbl" using fr(2) Inr scan_range_less[OF f(2)] by blast
      have "c_action (tbl ! i) \<in> c_action ` set tbl" using i by simp
      then show ?thesis using st Some y Inr take_transition_ok[OF assms(1) i1 i, of env u1] by auto
    qed
  qed
qed

text \<open>Everything that can happen to a state machine: steps, and calls from outside.\<close>

inductive fsm_reach :: "compiled list \<Rightarrow> 'u \<times> fsm \<Rightarrow> bool" for tbl where
  init: "fsm_reach tbl (u, fsm_init tbl now f)"
| step: "fsm_reach tbl (u, f) \<Longrightarrow> step env (u, f) = Some (p, u', f') \<Longrightarrow> fsm_reach tbl (u', f')"
| call: "fsm_reach tbl (u, f) \<Longrightarrow> do_call now c f = Some f' \<Longrightarrow> fsm_reach tbl (u, f')"
| reset: "fsm_reach tbl (u, f) \<Longrightarrow> fsm_reach tbl (u, fsm_reset now f)"

lemma fsm_reach_inv:
  assumes "table_ok tbl" "fsm_reach tbl x"
  shows "fsm_inv tbl (snd x)"
  using assms(2)
proof (induction rule: fsm_reach.induct)
  case (init u now f)
  then show ?case using fsm_init_inv[OF assms(1)] by simp
next
  case (step u f env p u' f')
  then show ?case using step_ok[OF assms(1), of f env u] by auto
next
  case (call u f now c f')
  then show ?case using do_call_ok[OF _ assms(1), of f c now] by auto
next
  case (reset u f now)
  then show ?case using assms(1) by (simp add: fsm_reset_def trigger_def fsm_inv_def begins_def table_ok_def)
qed

text \<open>
  C27. A machine that was compiled from a description is always in the dummy start or in a state of that description,
  whatever steps it takes, whatever its guards and actions do, and however it is called from outside; the same holds for
  the previous state and for all states on its stack, and the input it reports exists. As long as no action
  calls \<^verbatim>\<open>pop()\<close> and the clock does not run backwards, a step never traps.
\<close>

theorem fsm_stays_in_states:
  assumes "syms_ok l" "compile l = Inr tbl" "fsm_reach tbl (u, f)"
  shows "(\<forall>k \<in> {m_state f, m_prev f} \<union> set (m_stack f). k = 0 \<or> (k < length tbl \<and> c_from (tbl ! k) \<in> set (srcs l)))
    \<and> current_input f \<noteq> None
    \<and> (clock_ok env f \<and> (\<forall>t \<in> set l. no_pop env (t_action t)) \<longrightarrow> step env (u, f) \<noteq> None)"
proof -
  have t: "table_ok tbl" by (rule table_ok_compile[OF assms(1,2)])
  have i: "fsm_inv tbl f" using fsm_reach_inv[OF t assms(3)] by simp
  have "c_from (tbl ! k) \<in> set (srcs l)" if k: "begins tbl k" "k \<noteq> 0" for k
  proof -
    obtain j where j: "k = Suc j" "Suc j < length tbl" "sym_valid (c_from (tbl ! Suc j))" using k by (cases k) (auto simp: begins_def)
    have ne: "l \<noteq> []" using assms(2) j(2) by (auto simp: compile_def)
    have "j < length l" using j(2) compile_table(1)[OF assms(1,2) ne] by simp
    then show ?thesis using j table_nth(1)[OF assms(1,2)] by (auto simp: entry_from sym_valid_def split: if_splits)
  qed
  then have "\<forall>k \<in> {m_state f, m_prev f} \<union> set (m_stack f). k = 0 \<or> (k < length tbl \<and> c_from (tbl ! k) \<in> set (srcs l))"
    using i unfolding fsm_inv_def begins_def by blast
  moreover have "\<forall>c \<in> set tbl. no_pop env (c_action c)" if "\<forall>t \<in> set l. no_pop env (t_action t)"
  proof (cases "l = []")
    case True
    then show ?thesis using assms(2) by (auto simp: compile_def dummy_def no_pop_def)
  next
    case False
    have "no_pop env (c_action (entry_of l j))" if "j < length l" for j
      using \<open>\<forall>t \<in> set l. no_pop env (t_action t)\<close> that by (simp add: entry_of_def Let_def)
    moreover have "no_pop env (c_action (dummy Always 1))" by (simp add: dummy_def no_pop_def)
    ultimately show ?thesis unfolding compile_table(1)[OF assms(1,2) False] by auto
  qed
  ultimately show ?thesis using step_ok[OF t i, of env u] current_input_ok[OF i t] by auto
qed

subsection \<open>Inputs\<close>

lemma find_input_ok:
  assumes "sym_ok i" "\<forall>x \<in> set xs. sym_ok x"
  shows "case find_input i xs of Some j \<Rightarrow> j < length xs \<and> xs ! j = i | None \<Rightarrow> i \<notin> set xs"
  using assms(2)
proof (induction xs)
  case (Cons x xs)
  then show ?case using constexpr_eq_iff[of x i] assms(1) by (auto split: option.splits)
qed simp

definition inputs_ok :: "fsm \<Rightarrow> bool" where
  "inputs_ok f \<longleftrightarrow> (\<forall>x \<in> set (m_inputs f). sym_ok x)"

lemma clearInput_mset:
  assumes "inputs_ok f" "sym_ok i" "sym_valid i"
  shows "mset (m_inputs (snd (clearInput i f))) = mset (m_inputs f) - {#i#}" "fst (clearInput i f) \<longleftrightarrow> i \<in> set (m_inputs f)"
proof -
  have x: "case find_input i (m_inputs f) of Some j \<Rightarrow> j < length (m_inputs f) \<and> m_inputs f ! j = i | None \<Rightarrow> i \<notin> set (m_inputs f)"
    using find_input_ok[OF assms(2)] assms(1) by (simp add: inputs_ok_def)
  show "mset (m_inputs (snd (clearInput i f))) = mset (m_inputs f) - {#i#}"
    using x assms(3) mset_fill_gap[of _ "m_inputs f"] by (auto simp: clearInput_def diff_single_trivial split: option.splits)
  show "fst (clearInput i f) \<longleftrightarrow> i \<in> set (m_inputs f)"
    using x assms(3) by (auto simp: clearInput_def split: option.splits)
qed

lemma hasInput_iff: "inputs_ok f \<Longrightarrow> sym_ok i \<Longrightarrow> sym_valid i \<Longrightarrow> hasInput i f \<longleftrightarrow> i \<in> set (m_inputs f)"
  using find_input_ok[of i "m_inputs f"] nth_mem[of _ "m_inputs f"] by (auto simp: hasInput_def inputs_ok_def split: option.splits)

text \<open>
  Every registered input is consumed once. A transition for the input \<open>i\<close> is enabled exactly when \<open>i\<close> was registered
  and not consumed yet; when its action is \<^verbatim>\<open>consume\<close>, taking it removes exactly one \<open>i\<close> and leaves all other inputs; and
  \<^verbatim>\<open>input()\<close> followed by \<^verbatim>\<open>clearInput()\<close> leaves the inputs as they were.
\<close>

theorem input_consumed_once:
  assumes "fsm_inv tbl f" "inputs_ok f" "k < length tbl" "k \<noteq> 0" "c_input (tbl ! k)" "c_guard (tbl ! k) = SymbolPtr i"
    "c_action (tbl ! k) = Consume" "sym_ok i" "sym_valid i"
  shows "tr_enabled env tbl k (u, f) = Some (poll_bool (i \<in> set (m_inputs f)), u, f)
    \<and> (\<exists>f'. take_transition env tbl k (u, f) = Some (u, f') \<and> mset (m_inputs f') = mset (m_inputs f) - {#i#}
          \<and> m_state f' = (if c_to (tbl ! k) = 0 then m_state f else c_to (tbl ! k)))
    \<and> mset (m_inputs (snd (clearInput i (fsm_input i f)))) = mset (m_inputs f)"
proof -
  have en: "tr_enabled env tbl k (u, f) = Some (poll_bool (i \<in> set (m_inputs f)), u, f)"
    using assms(3,5,6) hasInput_iff[OF assms(2,8,9)] by (simp add: tr_enabled_def tr_def tr_input_def)
  have c: "consume g = Some (snd (clearInput i g))" if "m_fsm g = Some tbl" "m_transition g = k" "F_input \<in> m_flags g" for g
    using that assms(3,5,6) by (simp add: consume_def current_input_def hasFlag_def tr_input_def tr_def)
  have e: "\<exists>f'. enter env (u, g) = Some (u, f') \<and> mset (m_inputs f') = mset (m_inputs f) - {#i#} \<and> m_state f' = m_state g"
    if g: "m_fsm g = Some tbl" "m_transition g = k" "F_input \<in> m_flags g" "m_inputs g = m_inputs f" for g
  proof -
    let ?g = "if hasFlag F_transition g then g\<lparr>fsm_t := e_clock env\<rparr> else g"
    have h: "m_fsm ?g = Some tbl" "m_transition ?g = k" "F_input \<in> m_flags ?g" "m_inputs ?g = m_inputs f" "m_state ?g = m_state g"
      using g by auto
    have "enter env (u, g) = Some (u, snd (clearInput i ?g))"
      using c[OF h(1-3)] h assms(3,4,7) by (simp add: enter_def Let_def tr_def)
    moreover have "mset (m_inputs (snd (clearInput i ?g))) = mset (m_inputs f) - {#i#}"
      using clearInput_mset(1)[of ?g i] assms(2,8,9) h(4) by (simp add: inputs_ok_def)
    moreover have "m_state (snd (clearInput i ?g)) = m_state g" using h(5) by (auto simp: clearInput_def split: option.splits)
    ultimately show ?thesis by blast
  qed
  have "\<exists>f'. take_transition env tbl k (u, f) = Some (u, f') \<and> mset (m_inputs f') = mset (m_inputs f) - {#i#}
      \<and> m_state f' = (if c_to (tbl ! k) = 0 then m_state f else c_to (tbl ! k))"
  proof (cases "c_to (tbl ! k) = 0")
    case True
    let ?g = "setFlag F_input True (clearFlag F_transition (clearFlag F_blocked (f\<lparr>m_transition := k\<rparr>)))"
    have "take_transition env tbl k (u, f) = enter env (u, ?g)"
      using True assms(3,5) by (simp add: take_transition_def tr_def Let_def)
    then show ?thesis using e[of ?g] True assms(1) by (simp add: fsm_inv_def clearFlag_def)
  next
    case False
    let ?f = "setFlag F_transition True (setFlag F_selfloop (c_to (tbl ! k) = m_state f) (clearFlag F_blocked (f\<lparr>m_transition := k\<rparr>)))"
    let ?g = "setFlag F_input True (clearFlag F_pushed (clearFlag F_popped (?f\<lparr>m_prev := m_state f, m_state := c_to (tbl ! k)\<rparr>)))"
    have "take_transition env tbl k (u, f) = enter env (u, ?g) \<bind> (\<lambda>(u, f). Some (u, setFlag F_entry True f))"
      using False assms(3,5) by (simp add: take_transition_def tr_def Let_def clearFlag_def)
    moreover obtain f' where "enter env (u, ?g) = Some (u, f')" "mset (m_inputs f') = mset (m_inputs f) - {#i#}" "m_state f' = m_state ?g"
      using e[of ?g] assms(1) by (auto simp: fsm_inv_def clearFlag_def)
    ultimately show ?thesis using False by (simp add: clearFlag_def)
  qed
  moreover have "mset (m_inputs (snd (clearInput i (fsm_input i f)))) = mset (m_inputs f)"
    using clearInput_mset(1)[of "fsm_input i f" i] assms(2,8,9) by (simp add: inputs_ok_def fsm_input_def trigger_def)
  ultimately show ?thesis using en by blast
qed

subsection \<open>The stack\<close>


subsection \<open>Timeouts\<close>

text \<open>
  The guard \<^verbatim>\<open>timeout_ms<ms>\<close> is enabled exactly when the current state was entered at least \<open>ms\<close> milliseconds ago;
  before that, it gives exactly the time that is left. This holds up to 292 years, where the product in the code
  wraps around.
\<close>

theorem timeout_ms_correct:
  assumes "ts_normal (fsm_t f)" "ts_normal now" "\<not> isAfter (fsm_t f) now" "0 \<le> ms" "ms * 1000000 < 2 ^ 63"
  shows "\<exists>p. timeoutGuard (timeout_ms ms) now f = Some p \<and> ti_val p = ms * 1000000 - (ts_val now - ts_val (fsm_t f))
    \<and> (ti_hasPassed p \<longleftrightarrow> ms * 1000000 \<le> ts_val now - ts_val (fsm_t f))"
proof -
  let ?dt = "timeTo (fsm_t f) now" and ?to = "timeout_ms ms"
  have d: "passed (fsm_t f) now = Some ?dt" "isNormal ?dt" "ti_val ?dt = ts_val now - ts_val (fsm_t f)" "\<not> m_negative ?dt"
    using passed_timeTo[OF assms(1,2)] timeTo_correct_aux[OF assms(1,2)] assms(3) by (auto simp: isNegative_def)
  have w: "to_long (ms * 1000000) = ms * 1000000" using assms(4,5) by (simp add: to_long_def Let_def)
  have m: "(ms * 1000000) smod 1000000000 = (ms mod 1000) * 1000000" using assms(4) sdiv_smod_nonneg[of "ms * 1000000" 1000000000] by (simp add: mult_mod_left)
  have t: "?to = mk_interval (ms div 1000) ((ms mod 1000) * 1000000) False" by (simp add: timeout_ms_def w m)
  have "ms mod 1000 * 1000000 + ms div 1000 * 1000000000 = ms * 1000000" using div_mult_mod_eq[of ms 1000] by linarith
  then have n: "isNormal ?to" "ti_val ?to = ms * 1000000" "\<not> m_negative ?to"
    using assms(4) by (auto simp: t isNormal_def ti_val_def BILLION_def algebra_simps)
  let ?p = "ti_sub ?to ?dt"
  have neg: "m_negative (ti_uminus ?dt)" using d(4) by (simp add: ti_uminus_def isNegative_def)
  have p: "isNormal ?p" "ti_val ?p = ms * 1000000 - (ts_val now - ts_val (fsm_t f))"
    using ti_add_opposite_normal[of ?to "ti_uminus ?dt"] ti_add_value_aux[of ?to "ti_uminus ?dt"] n d neg
    by (simp_all add: ti_sub_add ti_saturates_def)
  have "ti_hasPassed ?p \<longleftrightarrow> ti_val ?p \<le> 0"
    using p(1) by (auto simp: ti_hasPassed_def isNegative_def ti_isNull_def ti_val_def isNormal_def BILLION_def)
  then show ?thesis using d(1) p(2) by (simp add: timeoutGuard_def fsm_dt_def)
qed

subsection \<open>Running\<close>

text \<open>
  \<^verbatim>\<open>run(until)\<close> waits only when the machine is blocked and not asked to stop, and then never beyond \<open>until\<close> and never
  beyond the moment that the guards asked for; it wakes up in the future.
\<close>

theorem run_until_never_oversleeps:
  assumes "ts_normal now" "isNormal p" "\<not> isNegative p"
  shows "case run_until_next until now p f of
      None \<Rightarrow> False
    | Some (RunWaitUntil t) \<Rightarrow> t \<le> until \<and> now \<le> t \<and> (\<exists>e. ts_add now p = Some e \<and> t \<le> e)
        \<and> \<not> ti_hasPassed p \<and> F_stop \<notin> m_flags f
    | Some RunAgain \<Rightarrow> ti_hasPassed p \<and> now \<le> until \<and> F_stop \<notin> m_flags f
    | Some (RunReturn q) \<Rightarrow> q = p \<and> (F_stop \<in> m_flags f \<or> until < now)
    | Some (RunWaitFor _) \<Rightarrow> False"
proof -
  let ?r = "ti_add (mk_interval (tv_sec now) (tv_nsec now) False) p"
  have iv: "0 \<le> ti_sec p" "0 \<le> ti_nsec p" "\<not> m_negative p" using assms(2,3) by (simp_all add: isNormal_def isNegative_def)
  have "m_negative ?r = False" using iv by (simp add: ti_add_def Let_def)
  moreover have "\<not> isBefore (m_t ?r) now" using iv assms(1) by (auto simp: ti_add_def Let_def isBefore_def ts_normal_def)
  ultimately obtain e where e: "ts_add now p = Some e" "now \<le> e"
    using iv by (auto simp: ts_add_def isPositive_def isNegative_def less_timespec_def[symmetric] not_less)
  show ?thesis using e
    by (auto simp: run_until_next_def hasFlag_def isAfter_def less_timespec_def[symmetric] not_less)
qed

text \<open>
  The turns of the loop of \<^verbatim>\<open>run()\<close>, if it never returned: what the step of the \<open>k\<close>-th turn from turn \<open>n\<close> on returns, and its configuration. After a turn without an
  enabled transition, the loop waits.
\<close>

fun turn :: "(nat \<Rightarrow> 'u fsm_env) \<Rightarrow> (nat \<Rightarrow> 'u \<times> fsm \<Rightarrow> 'u \<times> fsm) \<Rightarrow> nat \<Rightarrow> 'u \<times> fsm \<Rightarrow> nat \<Rightarrow> (TimeInterval \<times> 'u \<times> fsm) option" where
  "turn env wait n x 0 = step (env n) x"
| "turn env wait n x (Suc k) = do { (p, y) \<leftarrow> step (env n) x; turn env wait (Suc n) (if ti_hasPassed p then y else wait n y) k }"

text \<open>The first turn with a property \<open>fin\<close>; all turns before it succeed.\<close>

definition first_turn :: "(nat \<Rightarrow> TimeInterval \<times> 'u \<times> fsm \<Rightarrow> bool) \<Rightarrow> (nat \<Rightarrow> (TimeInterval \<times> 'u \<times> fsm) option) \<Rightarrow> TimeInterval \<times> 'u \<times> fsm \<Rightarrow> bool" where
  "first_turn fin t r \<longleftrightarrow> (\<exists>k. t k = Some r \<and> fin k r \<and> (\<forall>i < k. \<exists>q. t i = Some q \<and> \<not> fin i q))"

lemma first_turn_here: "t 0 = Some r \<Longrightarrow> fin 0 r \<Longrightarrow> first_turn fin t r' \<longleftrightarrow> r' = r"
  unfolding first_turn_def by (metis not_gr_zero not_less0 option.inject)

lemma first_turn_later:
  assumes "t 0 = Some q" "\<not> fin 0 q"
  shows "first_turn fin t r \<longleftrightarrow> first_turn (\<lambda>k. fin (Suc k)) (\<lambda>k. t (Suc k)) r"
proof
  assume "first_turn fin t r"
  then obtain k where k: "t k = Some r" "fin k r" "\<forall>i < k. \<exists>q. t i = Some q \<and> \<not> fin i q" unfolding first_turn_def by blast
  then obtain j where "k = Suc j" using assms by (cases k) auto
  then show "first_turn (\<lambda>k. fin (Suc k)) (\<lambda>k. t (Suc k)) r" using k unfolding first_turn_def by (auto intro: exI[of _ j])
next
  assume "first_turn (\<lambda>k. fin (Suc k)) (\<lambda>k. t (Suc k)) r"
  then obtain k where k: "t (Suc k) = Some r" "fin (Suc k) r" "\<forall>i < k. \<exists>q. t (Suc i) = Some q \<and> \<not> fin (Suc i) q"
    unfolding first_turn_def by blast
  have "\<forall>i < Suc k. \<exists>q. t i = Some q \<and> \<not> fin i q" unfolding All_less_Suc2 using assms k(3) by blast
  then show "first_turn fin t r" using k(1,2) unfolding first_turn_def by blast
qed

definition stopped :: "TimeInterval \<times> 'u \<times> fsm \<Rightarrow> bool" where
  "stopped r \<longleftrightarrow> F_stop \<in> m_flags (snd (snd r))"

definition blocks :: "TimeInterval \<times> 'u \<times> fsm \<Rightarrow> bool" where
  "blocks r \<longleftrightarrow> \<not> ti_hasPassed (fst r)"

text \<open>One turn of the loop.\<close>

lemma run_loop_turn:
  assumes "step (env n) x = Some r"
  shows "run_loop blk env wait n x =
    (if stopped r \<or> blk \<and> blocks r then Some r else run_loop blk env wait (Suc n) (if blocks r then wait n (snd r) else snd r))"
  using assms by (subst run_loop.simps) (cases r; simp add: run_next_def hasFlag_def stopped_def blocks_def)

lemmas run_loop_raw = run_loop.raw_induct[of _ "((((blk, env), wait), n), x)" for blk env wait n x, unfolded prod.case]

lemma run_loop_first:
  "run_loop blk env wait n x = Some r \<Longrightarrow> first_turn (\<lambda>_ r. stopped r \<or> blk \<and> blocks r) (turn env wait n x) r"
proof (induction rule: run_loop_raw[rotated, consumes 1, case_names 1])
  case (1 loop blk env wait n x r)
  obtain p y where s: "step (env n) x = Some (p, y)" using 1(2) by (auto split: bind_splits)
  let ?fin = "\<lambda>(_ :: nat) r. stopped r \<or> blk \<and> blocks r"
  have t: "turn env wait n x 0 = Some (p, y)" "\<And>k. turn env wait n x (Suc k) = turn env wait (Suc n) (if ti_hasPassed p then y else wait n y) k"
    using s by simp_all
  show ?case
  proof (cases "?fin 0 (p, y)")
    case True
    then have "r = (p, y)" using 1(2) s by (auto simp: run_next_def hasFlag_def stopped_def blocks_def split: if_splits)
    then show ?thesis using first_turn_here[where t = "turn env wait n x" and fin = ?fin, OF t(1)] True by simp
  next
    case False
    then have "loop blk env wait (Suc n) (if ti_hasPassed p then y else wait n y) = Some r"
      using 1(2) s by (auto simp: run_next_def hasFlag_def stopped_def blocks_def split: if_splits)
    from 1(1)[OF this] show ?thesis using first_turn_later[where t = "turn env wait n x" and fin = ?fin, OF t(1)] False t(2) by simp
  qed
qed

lemma run_loop_first_back:
  assumes "turn env wait n x k = Some r" "stopped r \<or> blk \<and> blocks r" "\<forall>i < k. \<exists>q. turn env wait n x i = Some q \<and> \<not> (stopped q \<or> blk \<and> blocks q)"
  shows "run_loop blk env wait n x = Some r"
  using assms
proof (induction k arbitrary: n x)
  case 0
  then show ?case using run_loop_turn[of env n x r blk wait] by simp
next
  case (Suc k)
  then obtain q where q: "step (env n) x = Some q" "\<not> (stopped q \<or> blk \<and> blocks q)" by force
  let ?y = "if blocks q then wait n (snd q) else snd q"
  have t: "turn env wait n x (Suc i) = turn env wait (Suc n) ?y i" for i using q(1) by (cases q) (simp add: blocks_def)
  have "run_loop blk env wait (Suc n) ?y = Some r"
    using Suc.prems unfolding t All_less_Suc2 by (intro Suc.IH) simp_all
  then show ?case using run_loop_turn[of env n x q blk wait, OF q(1)] q(2) by simp
qed

text \<open>The same for the form with a moment to return at; \<open>clk\<close> is the clock that is read after each step.\<close>

definition over :: "timespec \<Rightarrow> (nat \<Rightarrow> timespec) \<Rightarrow> nat \<Rightarrow> TimeInterval \<times> 'u \<times> fsm \<Rightarrow> bool" where
  "over until clk n r \<longleftrightarrow> stopped r \<or> until < clk n"

lemma run_until_turn:
  assumes "step (env n) x = Some r" "blocks r \<longrightarrow> ts_add (clk n) (fst r) \<noteq> None"
  shows "run_until_loop until env clk wait n x =
    (if over until clk n r then Some r else run_until_loop until env clk wait (Suc n) (if blocks r then wait n (snd r) else snd r))"
  using assms
  by (subst run_until_loop.simps)
     (cases r; auto simp: run_until_next_def hasFlag_def stopped_def blocks_def over_def isAfter_def less_timespec_def)

lemmas run_until_raw =
  run_until_loop.raw_induct[of _ "(((((until, env), clk), wait), n), x)" for until env clk wait n x, unfolded prod.case]

lemma run_until_first:
  "run_until_loop until env clk wait n x = Some r \<Longrightarrow> first_turn (\<lambda>k. over until clk (n + k)) (turn env wait n x) r"
proof (induction rule: run_until_raw[rotated, consumes 1, case_names 1])
  case (1 loop until env clk wait n x r)
  obtain p y where s: "step (env n) x = Some (p, y)" using 1(2) by (auto split: bind_splits)
  let ?fin = "\<lambda>k. over until clk (n + k)"
  have t: "turn env wait n x 0 = Some (p, y)" "\<And>k. turn env wait n x (Suc k) = turn env wait (Suc n) (if ti_hasPassed p then y else wait n y) k"
    using s by simp_all
  show ?case
  proof (cases "?fin 0 (p, y)")
    case True
    then have "r = (p, y)" using 1(2) s
      by (auto simp: run_until_next_def hasFlag_def stopped_def over_def isAfter_def less_timespec_def split: if_splits)
    then show ?thesis using first_turn_here[where t = "turn env wait n x" and fin = ?fin, OF t(1)] True by simp
  next
    case False
    then have "loop until env clk wait (Suc n) (if ti_hasPassed p then y else wait n y) = Some r"
      using 1(2) s by (auto simp: run_until_next_def hasFlag_def stopped_def over_def isAfter_def less_timespec_def split: if_splits bind_splits)
    from 1(1)[OF this] show ?thesis using first_turn_later[where t = "turn env wait n x" and fin = ?fin, OF t(1)] False t(2) by simp
  qed
qed

lemma run_until_first_back:
  assumes "turn env wait n x k = Some r" "over until clk (n + k) r"
    "\<forall>i < k. \<exists>q. turn env wait n x i = Some q \<and> \<not> over until clk (n + i) q"
    "\<forall>i q. turn env wait n x i = Some q \<longrightarrow> blocks q \<longrightarrow> ts_add (clk (n + i)) (fst q) \<noteq> None"
  shows "run_until_loop until env clk wait n x = Some r"
  using assms
proof (induction k arbitrary: n x)
  case 0
  then have "blocks r \<longrightarrow> ts_add (clk n) (fst r) \<noteq> None" using 0(4)[rule_format, of 0 r] by simp
  then show ?case using 0 run_until_turn[of env n x r clk until wait] by simp
next
  case (Suc k)
  obtain q where q: "step (env n) x = Some q" "\<not> over until clk n q" using Suc.prems(3)[rule_format, of 0] by auto
  have b: "blocks q \<longrightarrow> ts_add (clk n) (fst q) \<noteq> None" using Suc.prems(4)[rule_format, of 0 q] q(1) by simp
  let ?y = "if blocks q then wait n (snd q) else snd q"
  have t: "turn env wait n x (Suc i) = turn env wait (Suc n) ?y i" for i using q(1) by (cases q) (simp add: blocks_def)
  have "\<forall>i q. turn env wait (Suc n) ?y i = Some q \<longrightarrow> blocks q \<longrightarrow> ts_add (clk (Suc n + i)) (fst q) \<noteq> None"
    using Suc.prems(4)[rule_format, of "Suc _"] unfolding t by simp
  then have "run_until_loop until env clk wait (Suc n) ?y = Some r"
    using Suc.prems(1-3) unfolding t All_less_Suc2 by (intro Suc.IH) simp_all
  then show ?case using run_until_turn[of env n x q clk until wait, OF q(1) b] q(2) by simp
qed

text \<open>
  C31. When \<^verbatim>\<open>run()\<close> returns, for any behaviour of the guards and actions, and whatever happens while it waits. The loop makes one step per turn, and waits between two turns when no
  transition was enabled. \<^verbatim>\<open>run(true)\<close> returns in the first turn in which the machine blocks or has been asked to \<^verbatim>\<open>stop()\<close>, \<^verbatim>\<open>run(false)\<close> in the first turn in which it has been
  asked to stop, and \<^verbatim>\<open>run(until)\<close> in the first turn that ends after \<open>until\<close> or in which it has been asked to stop, where the waits of the latter need a clock that an interval can
  be added to. They return what the step of that turn gave. They do not return otherwise: without such a turn, they go on for ever, or a step traps. A request to stop from before is
  forgotten.
\<close>

theorem run_returns:
  fixes env :: "nat \<Rightarrow> 'u fsm_env"
  defines "turns \<equiv> \<lambda>wait x. turn env wait 0 (fst x, clearFlag F_stop (snd x))"
  shows "(run True env wait x = Some r \<longleftrightarrow> first_turn (\<lambda>_ r. stopped r \<or> blocks r) (turns wait x) r)
    \<and> (run False env wait x = Some r \<longleftrightarrow> first_turn (\<lambda>_. stopped) (turns wait x) r)
    \<and> (run_until until env clk wait x = Some r \<longrightarrow> first_turn (over until clk) (turns wait x) r)
    \<and> ((\<forall>i q. turns wait x i = Some q \<longrightarrow> blocks q \<longrightarrow> ts_add (clk i) (fst q) \<noteq> None) \<longrightarrow>
        first_turn (over until clk) (turns wait x) r \<longrightarrow> run_until until env clk wait x = Some r)"
proof -
  let ?x = "(fst x, clearFlag F_stop (snd x))"
  have a: "run blk env wait x = Some r \<longleftrightarrow> first_turn (\<lambda>_ r. stopped r \<or> blk \<and> blocks r) (turns wait x) r" for blk
    unfolding run_def turns_def
    using run_loop_first[of blk env wait 0 ?x r] run_loop_first_back[of env wait 0 ?x _ r blk] by (auto simp: first_turn_def)
  have b: "run_until until env clk wait x = Some r \<longrightarrow> first_turn (over until clk) (turns wait x) r"
    unfolding run_until_def turns_def using run_until_first[of until env clk wait 0 ?x r] by simp
  have c: "run_until until env clk wait x = Some r" if "\<forall>i q. turns wait x i = Some q \<longrightarrow> blocks q \<longrightarrow> ts_add (clk i) (fst q) \<noteq> None"
      "first_turn (over until clk) (turns wait x) r"
    using that run_until_first_back[of env wait 0 ?x _ r until clk] unfolding run_until_def turns_def first_turn_def by auto
  show ?thesis using a[of True] a[of False] b c by simp
qed

subsection \<open>Limits\<close>

text \<open>
  \<^verbatim>\<open>tryRun()\<close> cannot tell whether it ran: \<^verbatim>\<open>auto e = !enabled(fsm)\<close> is a truth value, not the interval, and it is returned
  when it is true, which reads as enabled.
\<close>

theorem tryRun_always_enabled:
  assumes "tryRun env now ga x = Some (p, y)"
  shows "p = ti_null"
  using assms by (auto simp: tryRun_def poll_bool_def Let_def split: bind_splits if_splits)

text \<open>
  \<^verbatim>\<open>push()\<close> is documented to push the current state, but it pushes the previous one. In the first state there is none: when
  an action without target pushes there, the stack holds the dummy start, and \<^verbatim>\<open>pop()\<close> traps.
\<close>

theorem push_in_first_state:
  assumes "fsm_valid f" "m_prev f = 0" "push f = Some f'"
  shows "m_stack f' = m_stack f @ [0] \<and> pop now f' = None"
  using assms by (auto simp: push_def pop_eq)

subsection \<open>Examples\<close>

definition unit_env :: "unit fsm_env" where
  "unit_env = \<lparr>u_guard = \<lambda>_ u _. (ti_infinity, u), u_action = \<lambda>_ u _. ([], u), g_clock = \<lambda>_. ts_null, e_clock = ts_null\<rparr>"

lemma demo_compiles: "\<exists>tbl. compile demo_fsm = Inr tbl"
  using compile_eq[OF demo_fsm_ok(1)] demo_fsm_ok(2) by simp

lemma demo_rules: "rules demo_fsm (Some ''a'') = [0]" "place (Some ''a'') demo_fsm = 1" "Some ''a'' \<in> set (srcs demo_fsm)"
  by (simp_all add: rules_def demo_fsm_def place_def sym_valid_def dsl_defs Let_def upt_rec)

theorem step_refines_witness:
  "\<exists>tbl. compile demo_fsm = Inr tbl
    \<and> step unit_env ((), Fsm\<lparr>m_fsm := Some tbl, m_state := 1\<rparr>) =
        Some (ti_infinity, (), setFlag F_blocked True (Fsm\<lparr>m_fsm := Some tbl, m_state := 1\<rparr>))"
proof -
  obtain tbl where tbl: "compile demo_fsm = Inr tbl" using demo_compiles by blast
  let ?f = "Fsm\<lparr>m_fsm := Some tbl, m_state := 1\<rparr>"
  have t: "t_isInput (demo_fsm ! 0)" "t_input (demo_fsm ! 0) = Some ''go''"
    by (simp_all add: demo_fsm_def dsl_defs t_isInput_def ga_isInput_def t_input_def sym_valid_def)
  have "\<not> ti_hasPassed ti_infinity" "\<not> ti_lt ti_infinity ti_infinity"
    by (simp_all add: ti_hasPassed_def isNegative_def ti_isNull_def ti_infinity_def TIME_MAX_def ti_lt_def ti_ge_def ti_eq_def)
  then have "first_enabled unit_env demo_fsm (rules demo_fsm (Some ''a'')) ti_infinity ((), ?f) = Some (Inl ti_infinity, (), ?f)"
    using t by (simp add: demo_rules(1) t_enabled_def hasInput_def Fsm_def poll_bool_def)
  then show ?thesis using step_refines[OF demo_fsm_ok(1) tbl demo_rules(3), of ?f unit_env "()"] demo_rules(2) tbl by simp
qed

theorem fsm_stays_in_states_witness:
  "\<exists>tbl. compile demo_fsm = Inr tbl \<and> step unit_env ((), fsm_init tbl ts_null Fsm) \<noteq> None"
proof -
  obtain tbl where tbl: "compile demo_fsm = Inr tbl" using demo_compiles by blast
  have "fsm_t (fsm_init tbl ts_null Fsm) = ts_null" by (simp add: fsm_init_def fsm_reset_def trigger_def Fsm_def)
  then have c: "clock_ok unit_env (fsm_init tbl ts_null Fsm)"
    by (simp add: clock_ok_def unit_env_def isAfter_def isBefore_def ts_null_def)
  have n: "\<forall>t \<in> set demo_fsm. no_pop unit_env (t_action t)"
    by (simp add: demo_fsm_def dsl_defs t_action_def no_pop_def)
  show ?thesis using fsm_stays_in_states[OF demo_fsm_ok(1) tbl fsm_reach.init[of tbl "()" ts_null Fsm], where env = unit_env] c n tbl by blast
qed

text \<open>\<^verbatim>\<open>"a" + "go" / consume >>= "a", + always / push >>= "b", "b"\<close>, compiled.\<close>

definition demo_table :: "compiled list" where
  "demo_table = [dummy Always 1,
     \<lparr>c_guard = SymbolPtr (Some ''go''), c_action = Consume, c_from = Some ''a'', c_to = 1, c_input = True\<rparr>,
     \<lparr>c_guard = GuardPtr Always, c_action = Push, c_from = None, c_to = 3, c_input = False\<rparr>,
     \<lparr>c_guard = GuardPtr Never, c_action = Nothing, c_from = Some ''b'', c_to = 0, c_input = False\<rparr>]"

definition demo_machine :: fsm where
  "demo_machine = Fsm\<lparr>m_fsm := Some demo_table, m_state := 1, m_inputs := [Some ''go'', Some ''x'']\<rparr>"

lemma demo_machine_inv: "fsm_inv demo_table demo_machine"
  by (simp add: fsm_inv_def demo_machine_def Fsm_def begins_def demo_table_def sym_valid_def)

theorem input_consumed_once_witness:
  "\<exists>f'. take_transition unit_env demo_table 1 ((), demo_machine) = Some ((), f') \<and> mset (m_inputs f') = {#Some ''x''#} \<and> m_state f' = 1"
proof -
  have h: "inputs_ok demo_machine" "1 < length demo_table" "(1 :: nat) \<noteq> 0" "c_input (demo_table ! 1)"
    "c_guard (demo_table ! 1) = SymbolPtr (Some ''go'')" "c_action (demo_table ! 1) = Consume" "sym_ok (Some ''go'')"
    "sym_valid (Some ''go'')" "c_to (demo_table ! 1) = 1" "m_inputs demo_machine = [Some ''go'', Some ''x'']"
    by (simp_all add: inputs_ok_def demo_machine_def demo_table_def sym_ok_def sym_valid_def)
  show ?thesis using input_consumed_once[OF demo_machine_inv h(1-8), of unit_env "()"] h(9,10) by auto
qed


lemma demo_steps:
  "\<exists>g. step unit_env ((), Fsm\<lparr>m_fsm := Some demo_table, m_state := 1\<rparr>) = Some (ti_null, (), g) \<and> F_stop \<notin> m_flags g
    \<and> m_fsm g = Some demo_table \<and> m_state g = 3"
  "m_fsm g = Some demo_table \<Longrightarrow> m_state g = 3 \<Longrightarrow> step unit_env ((), g) = Some (ti_infinity, (), setFlag F_blocked True g)"
  by (simp_all add: step_def scan.simps demo_table_def Fsm_def tr_enabled_def tr_def tr_input_def tr_guard_def hasInput_def sym_valid_def
      dummy_def poll_bool_def take_transition_def enter_def push_def fsm_valid_def hasFlag_def clearFlag_def ti_hasPassed_def isNegative_def ti_isNull_def
      ti_infinity_def TIME_MAX_def ti_lt_def ti_ge_def ti_eq_def ti_null_def Let_def numeral_3_eq_3 numeral_2_eq_2)

text \<open>A run that makes a transition, waits, and is asked to stop by another fiber meanwhile.\<close>

theorem run_returns_witness:
  "\<exists>g. run False (\<lambda>_. unit_env) (\<lambda>_ (u, f). (u, fsm_stop f)) ((), Fsm\<lparr>m_fsm := Some demo_table, m_state := 1\<rparr>) = Some (ti_infinity, (), g)
    \<and> m_state g = 3"
proof -
  let ?f = "Fsm\<lparr>m_fsm := Some demo_table, m_state := 1\<rparr>" and ?wait = "\<lambda>(_ :: nat) (u :: unit, f). (u, fsm_stop f)"
  have f: "clearFlag F_stop ?f = ?f" by (simp add: clearFlag_def setFlag_def Fsm_def)
  obtain g where g: "step unit_env ((), ?f) = Some (ti_null, (), g)" "F_stop \<notin> m_flags g" "m_fsm g = Some demo_table" "m_state g = 3"
    using demo_steps(1) by blast
  let ?b = "setFlag F_blocked True g" and ?s = "fsm_stop (setFlag F_blocked True g)"
  have p: "ti_hasPassed ti_null" "\<not> ti_hasPassed ti_infinity"
    by (simp_all add: ti_hasPassed_def isNegative_def ti_isNull_def ti_infinity_def ti_null_def TIME_MAX_def)
  have s: "m_fsm ?s = Some demo_table" "m_state ?s = 3" "F_stop \<in> m_flags ?s" "F_stop \<notin> m_flags ?b"
    using g by (simp_all add: fsm_stop_def)
  let ?t = "turn (\<lambda>_. unit_env) ?wait 0 (fst ((), ?f), clearFlag F_stop (snd ((), ?f)))" and ?r = "(ti_infinity, (), setFlag F_blocked True ?s)"
  have t: "?t 0 = Some (ti_null, (), g)" "?t 1 = Some (ti_infinity, (), ?b)" "?t 2 = Some ?r"
    unfolding fst_conv snd_conv f using g(1) demo_steps(2)[OF g(3,4)] demo_steps(2)[OF s(1,2)] p by (simp_all add: numeral_2_eq_2)
  have "\<exists>q. ?t i = Some q \<and> \<not> stopped q" if "i < 2" for i
  proof -
    have "i = 0 \<or> i = 1" using that by linarith
    then show ?thesis using t(1,2) g(2) s(4) unfolding stopped_def by fastforce
  qed
  moreover have "stopped ?r" using s(3) by (simp add: stopped_def)
  ultimately have "first_turn (\<lambda>_. stopped) ?t ?r" using t(3) unfolding first_turn_def by blast
  then have "run False (\<lambda>_. unit_env) ?wait ((), ?f) = Some ?r"
    using run_returns[of "\<lambda>_. unit_env" ?wait "((), ?f)" ?r] by blast
  then show ?thesis using s(2) by simp
qed

theorem timeout_ms_correct_witness:
  "\<exists>p. timeoutGuard (timeout_ms 1500) (Timespec 2 0) (Fsm\<lparr>fsm_t := Timespec 1 0\<rparr>) = Some p \<and> ti_val p = 500000000 \<and> \<not> ti_hasPassed p"
proof -
  let ?f = "Fsm\<lparr>fsm_t := Timespec 1 0\<rparr>"
  have h: "ts_normal (fsm_t ?f)" "ts_normal (Timespec 2 0)" "\<not> isAfter (fsm_t ?f) (Timespec 2 0)" "(0 :: int) \<le> 1500" "(1500 :: int) * 1000000 < 2 ^ 63"
    by (simp_all add: ts_normal_def TIME_MAX_def BILLION_def isAfter_def isBefore_def)
  show ?thesis using timeout_ms_correct[OF h] by (simp add: ts_val_def BILLION_def)
qed

theorem run_until_never_oversleeps_witness:
  "case run_until_next (Timespec 9 0) (Timespec 2 0) (mk_interval 1 0 False) Fsm of Some (RunWaitUntil t) \<Rightarrow> t \<le> Timespec 9 0 | _ \<Rightarrow> False"
proof -
  have h: "ts_normal (Timespec 2 0)" "isNormal (mk_interval 1 0 False)" "\<not> isNegative (mk_interval 1 0 False)"
    by (simp_all add: ts_normal_def TIME_MAX_def BILLION_def isNormal_def isNegative_def)
  have "\<not> ti_hasPassed (mk_interval 1 0 False)" "\<not> Timespec 9 0 < Timespec 2 0" "F_stop \<notin> m_flags Fsm"
    by (simp_all add: ti_hasPassed_def isNegative_def ti_isNull_def less_timespec_def isBefore_def Fsm_def)
  then show ?thesis using run_until_never_oversleeps[OF h, where until = "Timespec 9 0" and f = Fsm] by (auto split: option.splits run_decision.splits)
qed

end
