(* ===== verification/Zth_Util.thy ===== *)
theory Zth_Util
  imports Zth_Prelude "HOL-Library.Word"
begin

section \<open>Identifiers, names, singletons, strings\<close>

text \<open>
  Small classes of \<^verbatim>\<open>include/libzth/util.h\<close> that all others derive from or use: \<^verbatim>\<open>UniqueID\<close> with its name, \<^verbatim>\<open>Singleton\<close>,
  and \<^verbatim>\<open>cow_string\<close>. The printing function \<^verbatim>\<open>format\<close> is an argument; \<open>None\<close> is an exception.
\<close>

subsection \<open>Unique identifiers\<close>

record object_id =
  u_id :: "64 word"
  u_name :: string
  u_id_str :: string

record ids =
  m_nextId :: "64 word"
  u_objs :: "nat \<Rightarrow> object_id option"

definition getID :: "ids \<Rightarrow> 64 word \<times> ids" where
  "getID h = (let n = m_nextId h + 1 in (n, h\<lparr>m_nextId := n\<rparr>))"

definition UniqueID :: "nat \<Rightarrow> string \<Rightarrow> ids \<Rightarrow> ids" where
  "UniqueID x name h = (case getID h of (i, h) \<Rightarrow> h\<lparr>u_objs := (u_objs h)(x := Some \<lparr>u_id = i, u_name = name, u_id_str = []\<rparr>)\<rparr>)"

text \<open>Move assignment; a string that was moved from is empty.\<close>

definition uid_move :: "nat \<Rightarrow> nat \<Rightarrow> ids \<Rightarrow> ids option" where
  "uid_move x y h = do {
     _ \<leftarrow> u_objs h x;
     u \<leftarrow> u_objs h y;
     Some (h\<lparr>u_objs := (u_objs h)(x := Some u, y := Some \<lparr>u_id = 0, u_name = [], u_id_str = []\<rparr>)\<rparr>)
   }"

text \<open>The move constructor: an object without identifier, then the assignment.\<close>

definition UniqueID_move :: "nat \<Rightarrow> nat \<Rightarrow> ids \<Rightarrow> ids option" where
  "UniqueID_move x y h = uid_move x y (h\<lparr>u_objs := (u_objs h)(x := Some \<lparr>u_id = 0, u_name = [], u_id_str = []\<rparr>)\<rparr>)"

definition setName :: "nat \<Rightarrow> string \<Rightarrow> ids \<Rightarrow> ids option" where
  "setName x name h = do {
     u \<leftarrow> u_objs h x;
     Some (h\<lparr>u_objs := (u_objs h)(x := Some (u\<lparr>u_name := name, u_id_str := []\<rparr>))\<rparr>)
   }"

definition shown :: "(string \<Rightarrow> 64 word \<Rightarrow> string option) \<Rightarrow> object_id \<Rightarrow> string" where
  "shown fmt u = (case fmt (if u_name u = [] then ''Object'' else u_name u) (u_id u) of
     Some s \<Rightarrow> if s = [] then ''?'' else s
   | None \<Rightarrow> ''?'')"

definition id_str :: "(string \<Rightarrow> 64 word \<Rightarrow> string option) \<Rightarrow> nat \<Rightarrow> ids \<Rightarrow> (string \<times> ids) option" where
  "id_str fmt x h = do {
     u \<leftarrow> u_objs h x;
     let u = (if u_id_str u = [] then u\<lparr>u_id_str := shown fmt u\<rparr> else u);
     Some (u_id_str u, h\<lparr>u_objs := (u_objs h)(x := Some u)\<rparr>)
   }"

datatype id_call = NewID nat string | MoveID nat nat | MoveNewID nat nat | NameID nat string | ShowID nat | DropID nat

fun id_do :: "(string \<Rightarrow> 64 word \<Rightarrow> string option) \<Rightarrow> id_call \<Rightarrow> ids \<Rightarrow> ids option" where
  "id_do fmt (NewID x name) h = do { zth_assert (u_objs h x = None); Some (UniqueID x name h) }"
| "id_do fmt (MoveID x y) h = uid_move x y h"
| "id_do fmt (MoveNewID x y) h = do { zth_assert (u_objs h x = None); UniqueID_move x y h }"
| "id_do fmt (NameID x name) h = setName x name h"
| "id_do fmt (ShowID x) h = map_option snd (id_str fmt x h)"
| "id_do fmt (DropID x) h = Some (h\<lparr>u_objs := (u_objs h)(x := None)\<rparr>)"

fun creates :: "id_call \<Rightarrow> nat" where
  "creates (NewID _ _) = 1"
| "creates _ = 0"

inductive id_reach :: "(string \<Rightarrow> 64 word \<Rightarrow> string option) \<Rightarrow> nat \<Rightarrow> ids \<Rightarrow> bool" for fmt where
  init: "id_reach fmt 0 \<lparr>m_nextId = 0, u_objs = \<lambda>_. None\<rparr>"
| call: "id_reach fmt n h \<Longrightarrow> id_do fmt c h = Some h' \<Longrightarrow> id_reach fmt (n + creates c) h'"

text \<open>Identifiers are handed out once: every one in use is at most the counter, and is that of one object.\<close>

definition ids_ok :: "(string \<Rightarrow> 64 word \<Rightarrow> string option) \<Rightarrow> nat \<Rightarrow> ids \<Rightarrow> bool" where
  "ids_ok fmt n h \<longleftrightarrow> m_nextId h = of_nat n
     \<and> (\<forall>x u. u_objs h x = Some u \<longrightarrow> unat (u_id u) \<le> n \<and> (u_id_str u = [] \<or> u_id_str u = shown fmt u))
     \<and> (\<forall>x y u v. u_objs h x = Some u \<longrightarrow> u_objs h y = Some v \<longrightarrow> u_id u = u_id v \<longrightarrow> u_id u \<noteq> 0 \<longrightarrow> x = y)"

lemma shown_cache [simp]: "shown fmt (u\<lparr>u_id_str := s\<rparr>) = shown fmt u"
  by (simp add: shown_def)

lemma shown_nonempty [simp]: "shown fmt u \<noteq> []"
  by (simp add: shown_def split: option.splits)

lemma ids_ok_new:
  assumes "ids_ok fmt n h" "u_objs h x = None" "Suc n < 2 ^ 64"
  shows "ids_ok fmt (Suc n) (UniqueID x name h)"
proof -
  let ?i = "m_nextId h + 1"
  have i: "?i = of_nat (Suc n)" using assms(1) by (simp add: ids_ok_def)
  have u: "unat ?i = Suc n" unfolding i using assms(3) by (simp add: unat_of_nat del: of_nat_Suc)
  have old: "u_id v \<noteq> ?i" if "u_objs h y = Some v" for y v
  proof
    assume "u_id v = ?i"
    then have "unat (u_id v) = Suc n" using u by simp
    moreover have "unat (u_id v) \<le> n" using assms(1) that unfolding ids_ok_def by blast
    ultimately show False by simp
  qed
  have "UniqueID x name h = \<lparr>m_nextId = ?i, u_objs = (u_objs h)(x := Some \<lparr>u_id = ?i, u_name = name, u_id_str = []\<rparr>)\<rparr>"
    by (simp add: UniqueID_def getID_def Let_def)
  then show ?thesis using assms(1) i u old unfolding ids_ok_def
    by (auto split: if_splits simp: le_Suc_eq) (metis le_SucI)+
qed

lemma ids_ok_upd:
  assumes "ids_ok fmt n h" "u_objs h x = Some u" "u_id v = u_id u" "u_id_str v = [] \<or> u_id_str v = shown fmt v"
  shows "ids_ok fmt n (h\<lparr>u_objs := (u_objs h)(x := Some v)\<rparr>)"
  using assms unfolding ids_ok_def by (auto split: if_splits) (metis+)

lemma ids_ok_drop: "ids_ok fmt n h \<Longrightarrow> ids_ok fmt n (h\<lparr>u_objs := (u_objs h)(x := None)\<rparr>)"
  unfolding ids_ok_def by (auto split: if_splits)

text \<open>An object without identifier is no obstacle.\<close>

lemma ids_ok_zero: "ids_ok fmt n h \<Longrightarrow> ids_ok fmt n (h\<lparr>u_objs := (u_objs h)(x := Some \<lparr>u_id = 0, u_name = [], u_id_str = []\<rparr>)\<rparr>)"
  unfolding ids_ok_def by (auto split: if_splits)

lemma ids_ok_move:
  assumes "ids_ok fmt n h" "uid_move x y h = Some h'"
  shows "ids_ok fmt n h'"
proof -
  obtain u where u: "u_objs h y = Some u" "h' = h\<lparr>u_objs := (u_objs h)(x := Some u, y := Some \<lparr>u_id = 0, u_name = [], u_id_str = []\<rparr>)\<rparr>"
    using assms(2) by (auto simp: uid_move_def split: bind_splits)
  then show ?thesis using assms(1) unfolding ids_ok_def by (auto split: if_splits) (metis+)
qed

lemma id_do_ok:
  assumes "ids_ok fmt n h" "id_do fmt c h = Some h'" "n + creates c < 2 ^ 64"
  shows "ids_ok fmt (n + creates c) h'"
proof (cases c)
  case (NewID x name)
  then show ?thesis using ids_ok_new[OF assms(1)] assms(2,3) by auto
next
  case (MoveID x y)
  then show ?thesis using ids_ok_move[OF assms(1)] assms(2) by simp
next
  case (MoveNewID x y)
  then show ?thesis using ids_ok_move[OF ids_ok_zero[OF assms(1)]] assms(2) by (auto simp: UniqueID_move_def)
next
  case (NameID x name)
  then show ?thesis using ids_ok_upd[OF assms(1)] assms(2) by (auto simp: setName_def split: bind_splits)
next
  case (ShowID x)
  then obtain u where u: "u_objs h x = Some u" using assms(2) by (auto simp: id_str_def split: bind_splits)
  have "u_id_str u = [] \<or> u_id_str u = shown fmt u" using assms(1) u unfolding ids_ok_def by blast
  then show ?thesis using ids_ok_upd[OF assms(1) u] assms(2) u ShowID by (auto simp: id_str_def Let_def)
next
  case (DropID x)
  then show ?thesis using ids_ok_drop[OF assms(1)] assms(2) by auto
qed

lemma id_reach_ok: "id_reach fmt n h \<Longrightarrow> n < 2 ^ 64 \<Longrightarrow> ids_ok fmt n h"
proof (induction rule: id_reach.induct)
  case init
  then show ?case by (simp add: ids_ok_def)
next
  case (call n h c h')
  then show ?case using id_do_ok[of fmt n h c h'] by simp
qed

text \<open>
  As long as fewer than \<open>2\<^sup>64\<close> objects were made, no two objects have the same identifier; only objects that were moved
  from have none. The printed form of an object is always that of its current name and identifier, although it
  is kept.
\<close>

theorem unique_ids:
  assumes "id_reach fmt n h" "n < 2 ^ 64" "u_objs h x = Some u"
  shows "(\<forall>y v. u_objs h y = Some v \<and> u_id v = u_id u \<and> u_id u \<noteq> 0 \<longrightarrow> y = x)
    \<and> (\<exists>h'. id_str fmt x h = Some (shown fmt u, h'))"
proof -
  have ok: "ids_ok fmt n h" by (rule id_reach_ok[OF assms(1,2)])
  then have "u_id_str u = [] \<or> u_id_str u = shown fmt u" using assms(3) unfolding ids_ok_def by blast
  then have "\<exists>h'. id_str fmt x h = Some (shown fmt u, h')" using assms(3) by (auto simp: id_str_def Let_def)
  moreover have "\<forall>y v. u_objs h y = Some v \<and> u_id v = u_id u \<and> u_id u \<noteq> 0 \<longrightarrow> y = x" using ok assms(3) unfolding ids_ok_def by metis
  ultimately show ?thesis by blast
qed

theorem unique_ids_witness:
  "\<exists>h'. id_str (\<lambda>s _. Some s) 3 (UniqueID 3 ''main'' \<lparr>m_nextId = 0, u_objs = \<lambda>_. None\<rparr>) = Some (''main'', h')"
proof -
  let ?h = "UniqueID 3 ''main'' \<lparr>m_nextId = 0, u_objs = \<lambda>_. None\<rparr>"
  have "id_reach (\<lambda>s _. Some s) (0 + creates (NewID 3 ''main'')) ?h"
    by (rule id_reach.call[OF id_reach.init]) simp
  moreover have "u_objs ?h 3 = Some \<lparr>u_id = 1, u_name = ''main'', u_id_str = []\<rparr>" by (simp add: UniqueID_def getID_def Let_def)
  ultimately show ?thesis using unique_ids[of "\<lambda>s _. Some s" 1 ?h 3] by (simp add: shown_def)
qed

subsection \<open>Singletons\<close>

text \<open>The objects that exist, and the one that is registered.\<close>

record singletons =
  s_objs :: "addr set"
  m_instance :: "addr option"

definition Singleton :: "addr \<Rightarrow> singletons \<Rightarrow> singletons" where
  "Singleton a s = s\<lparr>s_objs := insert a (s_objs s), m_instance := (if m_instance s = None then Some a else m_instance s)\<rparr>"

definition Singleton_dtor :: "addr \<Rightarrow> singletons \<Rightarrow> singletons" where
  "Singleton_dtor a s = s\<lparr>s_objs := s_objs s - {a}, m_instance := (if m_instance s = Some a then None else m_instance s)\<rparr>"

definition instance_of :: "singletons \<Rightarrow> addr option" where
  "instance_of s = m_instance s"

inductive singleton_reach :: "singletons \<Rightarrow> bool" where
  init: "singleton_reach \<lparr>s_objs = {}, m_instance = None\<rparr>"
| ctor: "singleton_reach s \<Longrightarrow> a \<notin> s_objs s \<Longrightarrow> singleton_reach (Singleton a s)"
| dtor: "singleton_reach s \<Longrightarrow> a \<in> s_objs s \<Longrightarrow> singleton_reach (Singleton_dtor a s)"

text \<open>
  The registered instance is never a destroyed object. When the first one is destroyed, no other takes its place.
\<close>

lemma instance_alive: "singleton_reach s \<Longrightarrow> instance_of s = Some a \<Longrightarrow> a \<in> s_objs s"
  by (induction rule: singleton_reach.induct) (auto simp: Singleton_def Singleton_dtor_def instance_of_def split: if_splits)

subsection \<open>Copy-on-write strings\<close>

record cow_string =
  m_cstr :: "string option"
  m_str :: string

definition cow_of_cstr :: "string \<Rightarrow> cow_string" where
  "cow_of_cstr s = \<lparr>m_cstr = Some s, m_str = []\<rparr>"

definition cow_of_string :: "string \<Rightarrow> cow_string" where
  "cow_of_string s = \<lparr>m_cstr = None, m_str = s\<rparr>"

definition cow_assign :: "cow_string \<Rightarrow> cow_string \<Rightarrow> cow_string" where
  "cow_assign c s = c\<lparr>m_cstr := m_cstr s, m_str := m_str s\<rparr>"

definition local :: "cow_string \<Rightarrow> cow_string" where
  "local c = (case m_cstr c of Some s \<Rightarrow> c\<lparr>m_str := s, m_cstr := None\<rparr> | None \<Rightarrow> c)"

definition cow_str :: "cow_string \<Rightarrow> string \<times> cow_string" where
  "cow_str c = (m_str (local c), local c)"

definition cow_c_str :: "cow_string \<Rightarrow> string" where
  "cow_c_str c = (case m_cstr c of Some s \<Rightarrow> s | None \<Rightarrow> m_str c)"

text \<open>Reading at the end gives the terminating zero; beyond it is an error.\<close>

definition char_at :: "string \<Rightarrow> nat \<Rightarrow> char option" where
  "char_at s i = (if i < length s then Some (s ! i) else if i = length s then Some (CHR 0x00) else None)"

definition cow_index :: "nat \<Rightarrow> cow_string \<Rightarrow> char option" where
  "cow_index i c = (case m_cstr c of Some s \<Rightarrow> char_at s i | None \<Rightarrow> char_at (fst (cow_str c)) i)"

definition cow_put :: "nat \<Rightarrow> char \<Rightarrow> cow_string \<Rightarrow> cow_string option" where
  "cow_put i x c = (let c = local c in if i < length (m_str c) then Some (c\<lparr>m_str := (m_str c)[i := x]\<rparr>) else None)"

definition cow_empty :: "cow_string \<Rightarrow> bool" where
  "cow_empty c \<longleftrightarrow> (case m_cstr c of Some s \<Rightarrow> s = [] | None \<Rightarrow> m_str c = [])"

definition cow_size :: "cow_string \<Rightarrow> nat \<times> cow_string" where
  "cow_size c = (case cow_str c of (s, c) \<Rightarrow> (length s, c))"

definition cow_clear :: "cow_string \<Rightarrow> cow_string" where
  "cow_clear c = c\<lparr>m_cstr := None, m_str := []\<rparr>"

definition isConst :: "cow_string \<Rightarrow> bool" where
  "isConst c \<longleftrightarrow> m_cstr c \<noteq> None"

text \<open>
  Whether the string is kept as a pointer or was copied makes no difference: all operations are those of the string it
  stands for, and reading does not change it.
\<close>

lemma cow_transparent:
  "cow_c_str (cow_of_cstr s) = s" "cow_c_str (cow_of_string s) = s" "cow_c_str (cow_assign c c') = cow_c_str c'"
  "cow_c_str (local c) = cow_c_str c" "\<not> isConst (local c)"
  "fst (cow_str c) = cow_c_str c" "cow_c_str (snd (cow_str c)) = cow_c_str c"
  "cow_index i c = char_at (cow_c_str c) i" "cow_empty c \<longleftrightarrow> cow_c_str c = []" "fst (cow_size c) = length (cow_c_str c)"
  "cow_c_str (cow_clear c) = []"
  "map_option cow_c_str (cow_put i x c) = (if i < length (cow_c_str c) then Some ((cow_c_str c)[i := x]) else None)"
  by (simp_all add: cow_c_str_def cow_of_cstr_def cow_of_string_def cow_assign_def local_def isConst_def cow_str_def
      cow_index_def cow_empty_def cow_size_def cow_clear_def cow_put_def Let_def split: option.splits)

end
