(* ===== verification/Zth_SharedPointer.thy ===== *)
theory Zth_SharedPointer
  imports Zth_Prelude
begin

section \<open>Reference counting\<close>

text \<open>
  \<^verbatim>\<open>RefCounted\<close> (\<^verbatim>\<open>include/libzth/util.h\<close>) and \<^verbatim>\<open>SharedPointer\<close>, \<^verbatim>\<open>SharedReference\<close> (\<^verbatim>\<open>include/libzth/sync.h\<close>). The heap has the count of every live object
  (\<open>None\<close>: not allocated, or deleted), and for every pointer variable that exists the object that it points to. An access
  to an object that is not alive is an error, like a failing assertion.
\<close>

subsection \<open>Counted objects\<close>

record refs =
  m_count :: "addr \<Rightarrow> nat option"
  m_object :: "nat \<Rightarrow> addr option option"

definition size_max :: nat where
  "size_max = 2 ^ 64 - 1"

definition RefCounted :: "addr \<Rightarrow> refs \<Rightarrow> refs" where
  "RefCounted a h = h\<lparr>m_count := (m_count h)(a := Some 0)\<rparr>"

definition used :: "addr \<Rightarrow> refs \<Rightarrow> refs option" where
  "used a h = do {
     n \<leftarrow> m_count h a;
     zth_assert (n < size_max);
     Some (h\<lparr>m_count := (m_count h)(a := Some (n + 1))\<rparr>)
   }"

text \<open>\<^verbatim>\<open>delete this\<close>, with the assertion of the destructor.\<close>

definition cleanup :: "addr \<Rightarrow> refs \<Rightarrow> refs option" where
  "cleanup a h = do {
     n \<leftarrow> m_count h a;
     zth_assert (n = 0);
     Some (h\<lparr>m_count := (m_count h)(a := None)\<rparr>)
   }"

definition unused :: "addr \<Rightarrow> refs \<Rightarrow> (bool \<times> refs) option" where
  "unused a h = do {
     n \<leftarrow> m_count h a;
     zth_assert (n > 0);
     let h = h\<lparr>m_count := (m_count h)(a := Some (n - 1))\<rparr>;
     if n - 1 > 0 then Some (False, h)
     else do { h \<leftarrow> cleanup a h; Some (True, h) }
   }"

subsection \<open>Shared pointers\<close>

definition sp_get :: "nat \<Rightarrow> refs \<Rightarrow> addr option option" where
  "sp_get q h = m_object h q"

definition set_ptr :: "nat \<Rightarrow> addr option \<Rightarrow> refs \<Rightarrow> refs" where
  "set_ptr q obj h = h\<lparr>m_object := (m_object h)(q := Some obj)\<rparr>"

definition used_opt :: "addr option \<Rightarrow> refs \<Rightarrow> refs option" where
  "used_opt obj h = (case obj of Some a \<Rightarrow> used a h | None \<Rightarrow> Some h)"

definition unused_opt :: "addr option \<Rightarrow> refs \<Rightarrow> refs option" where
  "unused_opt obj h = (case obj of Some a \<Rightarrow> map_option snd (unused a h) | None \<Rightarrow> Some h)"

definition SharedPointer :: "nat \<Rightarrow> addr option \<Rightarrow> refs \<Rightarrow> refs option" where
  "SharedPointer q object h = used_opt object (set_ptr q object h)"

definition SharedPointer_copy :: "nat \<Rightarrow> nat \<Rightarrow> refs \<Rightarrow> refs option" where
  "SharedPointer_copy q p h = do { object \<leftarrow> sp_get p h; used_opt object (set_ptr q object h) }"

definition sp_reset :: "nat \<Rightarrow> addr option \<Rightarrow> refs \<Rightarrow> refs option" where
  "sp_reset q object h = do {
     h \<leftarrow> used_opt object h;
     old \<leftarrow> sp_get q h;
     h \<leftarrow> unused_opt old h;
     Some (set_ptr q object h)
   }"

definition sp_dtor :: "nat \<Rightarrow> refs \<Rightarrow> refs option" where
  "sp_dtor q h = do { h \<leftarrow> sp_reset q None h; Some (h\<lparr>m_object := (m_object h)(q := None)\<rparr>) }"

definition sp_assign :: "nat \<Rightarrow> nat \<Rightarrow> refs \<Rightarrow> refs option" where
  "sp_assign q p h = do { object \<leftarrow> sp_get p h; sp_reset q object h }"

definition sp_release :: "nat \<Rightarrow> refs \<Rightarrow> (addr option \<times> refs) option" where
  "sp_release q h = do { object \<leftarrow> sp_get q h; Some (object, set_ptr q None h) }"

definition sp_move :: "nat \<Rightarrow> nat \<Rightarrow> refs \<Rightarrow> refs option" where
  "sp_move q p h = do {
     h \<leftarrow> sp_reset q None h;
     (object, h) \<leftarrow> sp_release p h;
     Some (set_ptr q object h)
   }"

definition SharedPointer_move :: "nat \<Rightarrow> nat \<Rightarrow> refs \<Rightarrow> refs option" where
  "SharedPointer_move q p h = sp_move q p (set_ptr q None h)"

definition sp_deref :: "nat \<Rightarrow> refs \<Rightarrow> addr option" where
  "sp_deref q h = do {
     object \<leftarrow> sp_get q h;
     zth_assert (object \<noteq> None);
     a \<leftarrow> object;
     _ \<leftarrow> m_count h a;
     Some a
   }"

text \<open>A \<^verbatim>\<open>SharedReference\<close> is a shared pointer that may be used only while it is valid.\<close>

definition sr_valid :: "nat \<Rightarrow> refs \<Rightarrow> bool option" where
  "sr_valid r h = do { object \<leftarrow> sp_get r h; Some (object \<noteq> None) }"

definition sr_get :: "nat \<Rightarrow> refs \<Rightarrow> addr option" where
  "sr_get r h = do { v \<leftarrow> sr_valid r h; zth_assert v; sp_deref r h }"

definition sr_reset :: "nat \<Rightarrow> refs \<Rightarrow> refs option" where
  "sr_reset r h = sp_reset r None h"

definition sr_assign :: "nat \<Rightarrow> nat \<Rightarrow> refs \<Rightarrow> refs option" where
  "sr_assign r s h = sp_assign r s h"

definition sr_move :: "nat \<Rightarrow> nat \<Rightarrow> refs \<Rightarrow> refs option" where
  "sr_move r s h = sp_move r s h"

definition sr_to_pointer :: "nat \<Rightarrow> nat \<Rightarrow> refs \<Rightarrow> refs option" where
  "sr_to_pointer q r h = SharedPointer_copy q r h"

subsection \<open>Programs\<close>

datatype ref_call =
    New addr | Ctor nat "addr option" | Copy nat nat | MoveCtor nat nat | Dtor nat | Reset nat "addr option"
  | AssignPtr nat nat | MovePtr nat nat | Release nat | Use addr | Unuse addr

fun ref_do :: "ref_call \<Rightarrow> refs \<Rightarrow> refs option" where
  "ref_do (New a) h = Some (RefCounted a h)"
| "ref_do (Ctor q object) h = SharedPointer q object h"
| "ref_do (Copy q p) h = SharedPointer_copy q p h"
| "ref_do (MoveCtor q p) h = SharedPointer_move q p h"
| "ref_do (Dtor q) h = sp_dtor q h"
| "ref_do (Reset q object) h = sp_reset q object h"
| "ref_do (AssignPtr q p) h = sp_assign q p h"
| "ref_do (MovePtr q p) h = sp_move q p h"
| "ref_do (Release q) h = map_option snd (sp_release q h)"
| "ref_do (Use a) h = used a h"
| "ref_do (Unuse a) h = map_option snd (unused a h)"

text \<open>
  The contract of a call. \<open>own a\<close> is the number of references to \<open>a\<close> that the program holds itself: by \<^verbatim>\<open>used()\<close>, or since a
  pointer was released. Only those may be given back with \<^verbatim>\<open>unused()\<close>.
\<close>

definition can_use :: "addr option \<Rightarrow> refs \<Rightarrow> bool" where
  "can_use object h = (case object of None \<Rightarrow> True | Some a \<Rightarrow> (case m_count h a of None \<Rightarrow> False | Some n \<Rightarrow> n < size_max))"

definition points_to :: "nat \<Rightarrow> refs \<Rightarrow> addr option" where
  "points_to q h = (case m_object h q of Some (Some a) \<Rightarrow> Some a | _ \<Rightarrow> None)"

fun ref_allowed :: "ref_call \<Rightarrow> refs \<Rightarrow> (addr \<Rightarrow> nat) \<Rightarrow> bool" where
  "ref_allowed (New a) h own = (m_count h a = None)"
| "ref_allowed (Ctor q object) h own = (m_object h q = None \<and> can_use object h)"
| "ref_allowed (Copy q p) h own = (m_object h q = None \<and> m_object h p \<noteq> None \<and> can_use (points_to p h) h)"
| "ref_allowed (MoveCtor q p) h own = (m_object h q = None \<and> m_object h p \<noteq> None)"
| "ref_allowed (Dtor q) h own = (m_object h q \<noteq> None)"
| "ref_allowed (Reset q object) h own = (m_object h q \<noteq> None \<and> can_use object h)"
| "ref_allowed (AssignPtr q p) h own = (m_object h q \<noteq> None \<and> m_object h p \<noteq> None \<and> can_use (points_to p h) h)"
| "ref_allowed (MovePtr q p) h own = (m_object h q \<noteq> None \<and> m_object h p \<noteq> None)"
| "ref_allowed (Release q) h own = (m_object h q \<noteq> None)"
| "ref_allowed (Use a) h own = can_use (Some a) h"
| "ref_allowed (Unuse a) h own = (own a > 0)"

text \<open>What the program holds after the call, and the objects to which there was no reference so far.\<close>

fun own_after :: "ref_call \<Rightarrow> refs \<Rightarrow> (addr \<Rightarrow> nat) \<Rightarrow> (addr \<Rightarrow> nat)" where
  "own_after (Release q) h own = (case points_to q h of Some a \<Rightarrow> own(a := own a + 1) | None \<Rightarrow> own)"
| "own_after (Use a) h own = own(a := own a + 1)"
| "own_after (Unuse a) h own = own(a := own a - 1)"
| "own_after _ h own = own"

fun virgin_after :: "ref_call \<Rightarrow> addr set \<Rightarrow> addr set" where
  "virgin_after (New a) vir = insert a vir"
| "virgin_after (Ctor q object) vir = vir - set_option object"
| "virgin_after (Reset q object) vir = vir - set_option object"
| "virgin_after (Use a) vir = vir - {a}"
| "virgin_after _ vir = vir"

inductive ref_reach :: "refs \<Rightarrow> (addr \<Rightarrow> nat) \<Rightarrow> addr set \<Rightarrow> bool" where
  init: "ref_reach \<lparr>m_count = \<lambda>_. None, m_object = \<lambda>_. None\<rparr> (\<lambda>_. 0) {}"
| call: "ref_reach h own vir \<Longrightarrow> ref_allowed c h own \<Longrightarrow> ref_do c h = Some h'
    \<Longrightarrow> ref_reach h' (own_after c h own) (virgin_after c vir)"

subsection \<open>Counting\<close>

definition pcount :: "(nat \<Rightarrow> addr option option) \<Rightarrow> addr \<Rightarrow> nat" where
  "pcount m a = card {q. m q = Some (Some a)}"

definition refs_to :: "refs \<Rightarrow> (addr \<Rightarrow> nat) \<Rightarrow> addr \<Rightarrow> nat" where
  "refs_to h own a = pcount (m_object h) a + own a"

text \<open>
  The invariant: the counts follow from the references. An object is alive as long as there is a reference to it, or
  as there never was one.
\<close>

definition ref_inv :: "refs \<Rightarrow> (addr \<Rightarrow> nat) \<Rightarrow> addr set \<Rightarrow> bool" where
  "ref_inv h own vir \<longleftrightarrow> finite (dom (m_object h))
     \<and> (\<forall>a. m_count h a = (if refs_to h own a > 0 then Some (refs_to h own a) else if a \<in> vir then Some 0 else None))
     \<and> (\<forall>a. refs_to h own a \<le> size_max) \<and> (\<forall>a \<in> vir. refs_to h own a = 0)"

lemma pcount_upd:
  assumes "finite (dom m)"
  shows "pcount (m(q := x)) a + (if m q = Some (Some a) then 1 else 0) = pcount m a + (if x = Some (Some a) then 1 else 0)"
proof -
  let ?S = "{p. p \<noteq> q \<and> m p = Some (Some a)}"
  have f: "finite ?S" by (rule finite_subset[OF _ assms]) auto
  have e: "{p. m' p = Some (Some a)} = (if m' q = Some (Some a) then insert q ?S else ?S)" if "\<And>p. p \<noteq> q \<Longrightarrow> m' p = m p" for m'
    using that by (auto split: if_splits) (metis+)
  have "card (insert q ?S) = Suc (card ?S)" using f by simp
  then show ?thesis using e[of "m(q := x)"] e[of m] by (auto simp: pcount_def)
qed

lemma set_ptr_sel [simp]:
  "m_count (set_ptr q x h) = m_count h" "m_object (set_ptr q x h) = (m_object h)(q := Some x)"
  "set_ptr q x (set_ptr q y h) = set_ptr q x h"
  by (simp_all add: set_ptr_def)

lemma used_set_ptr: "used_opt obj (set_ptr q x h) = map_option (set_ptr q x) (used_opt obj h)"
  by (auto simp: used_opt_def used_def set_ptr_def zth_assert_def split: option.splits bind_splits)

lemma unused_set_ptr: "unused_opt obj (set_ptr q x h) = map_option (set_ptr q x) (unused_opt obj h)"
  by (auto simp: unused_opt_def unused_def cleanup_def set_ptr_def zth_assert_def Let_def split: option.splits bind_splits)

definition add_own :: "addr option \<Rightarrow> (addr \<Rightarrow> nat) \<Rightarrow> (addr \<Rightarrow> nat)" where
  "add_own obj own = (case obj of Some a \<Rightarrow> own(a := own a + 1) | None \<Rightarrow> own)"

text \<open>
  References move between the program and the pointers: a pointer that is overwritten leaves its reference to the
  program, and one that is set takes it over.
\<close>

lemma used_inv:
  assumes "ref_inv h own vir" "can_use obj h"
  shows "\<exists>h'. used_opt obj h = Some h' \<and> m_object h' = m_object h \<and> ref_inv h' (add_own obj own) (vir - set_option obj)"
proof (cases obj)
  case (Some a)
  obtain n where n: "m_count h a = Some n" "n < size_max" using assms(2) Some by (auto simp: can_use_def split: option.splits)
  have r: "refs_to h own a = n" using assms(1) n(1) by (auto simp: ref_inv_def split: if_splits)
  let ?h = "h\<lparr>m_count := (m_count h)(a := Some (n + 1))\<rparr>"
  have "refs_to ?h (own(a := own a + 1)) b = (if b = a then n + 1 else refs_to h own b)" for b using r by (simp add: refs_to_def)
  then have "ref_inv ?h (own(a := own a + 1)) (vir - {a})" using assms(1) n(2) by (auto simp: ref_inv_def)
  then show ?thesis using Some n by (simp add: used_opt_def used_def add_own_def)
qed (use assms in \<open>simp add: used_opt_def add_own_def\<close>)

lemma unused_inv:
  assumes "ref_inv h (add_own obj own) vir"
  shows "\<exists>h'. unused_opt obj h = Some h' \<and> m_object h' = m_object h \<and> ref_inv h' own vir"
proof (cases obj)
  case (Some a)
  let ?own = "own(a := own a + 1)" and ?n = "refs_to h own a"
  have r: "refs_to h ?own b = (if b = a then ?n + 1 else refs_to h own b)" for b by (simp add: refs_to_def)
  have i: "ref_inv h ?own vir" using assms Some by (simp add: add_own_def)
  then have c: "m_count h a = Some (?n + 1)" "a \<notin> vir" using r by (auto simp: ref_inv_def)
  let ?h = "h\<lparr>m_count := (m_count h)(a := (if ?n > 0 then Some ?n else None))\<rparr>"
  have u: "unused_opt obj h = Some ?h" using Some c(1) by (auto simp: unused_opt_def unused_def cleanup_def Let_def)
  have "refs_to ?h own b = refs_to h own b" for b by (simp add: refs_to_def)
  moreover have "refs_to h own b \<le> size_max" for b
    using i r[of b] unfolding ref_inv_def by (metis (mono_tags, lifting) le_trans le_add1)
  ultimately have "ref_inv ?h own vir" using i r c(2) by (auto simp: ref_inv_def split: if_splits)
  then show ?thesis using u by simp
qed (use assms in \<open>simp add: unused_opt_def add_own_def\<close>)

lemma refs_to_set_ptr:
  assumes "finite (dom (m_object h))"
  shows "refs_to (set_ptr q obj h) own a + (if points_to q h = Some a then 1 else 0) = refs_to h own a + (if obj = Some a then 1 else 0)"
  using pcount_upd[OF assms, of q "Some obj" a] by (auto simp: refs_to_def points_to_def split: option.splits if_splits)

lemma set_ptr_inv:
  assumes "ref_inv h (add_own obj own) vir"
  shows "ref_inv (set_ptr q obj h) (add_own (points_to q h) own) vir"
proof -
  have f: "finite (dom (m_object h))" using assms by (simp add: ref_inv_def)
  have o: "refs_to h (add_own obj own) a = refs_to h own a + (if obj = Some a then 1 else 0)" for obj a and h :: refs
    by (auto simp: refs_to_def add_own_def split: option.splits)
  have "refs_to (set_ptr q obj h) (add_own (points_to q h) own) a = refs_to h (add_own obj own) a" for a
    using refs_to_set_ptr[OF f, of q obj own a] o[of "set_ptr q obj h" "points_to q h" a] o[of h obj a] by simp
  then show ?thesis using assms by (simp add: ref_inv_def)
qed

subsection \<open>Each operation\<close>

lemma reset_inv:
  assumes "ref_inv h own vir" "m_object h q \<noteq> None" "can_use obj h"
  shows "\<exists>h'. sp_reset q obj h = Some h' \<and> m_object h' = (m_object h)(q := Some obj) \<and> ref_inv h' own (vir - set_option obj)"
proof -
  let ?v = "vir - set_option obj"
  obtain h1 where h1: "used_opt obj h = Some h1" "m_object h1 = m_object h" "ref_inv h1 (add_own obj own) ?v"
    using used_inv[OF assms(1,3)] by blast
  obtain old where old: "m_object h q = Some old" using assms(2) by blast
  have po: "points_to q h1 = old" using h1(2) old by (simp add: points_to_def split: option.splits)
  have "ref_inv h1 (add_own None (add_own obj own)) ?v" using h1(3) by (simp add: add_own_def)
  from set_ptr_inv[OF this, of q] have "ref_inv (set_ptr q None h1) (add_own old (add_own obj own)) ?v" unfolding po .
  from unused_inv[OF this] obtain h2' where h2': "unused_opt old (set_ptr q None h1) = Some h2'"
      "m_object h2' = m_object (set_ptr q None h1)" "ref_inv h2' (add_own obj own) ?v" by blast
  then obtain h2 where h2: "unused_opt old h1 = Some h2" "h2' = set_ptr q None h2" by (auto simp: unused_set_ptr)
  have mo: "m_object h2' = (m_object h)(q := Some None)" using h2'(2) h1(2) by simp
  then have "points_to q h2' = None" by (simp add: points_to_def)
  then have "ref_inv (set_ptr q obj h2') own ?v" using set_ptr_inv[OF h2'(3), of q] by (simp add: add_own_def)
  then have "ref_inv (set_ptr q obj h2) own ?v" unfolding h2(2) by simp
  moreover have "m_object (set_ptr q obj h2) = (m_object h)(q := Some obj)"
    using mo unfolding h2(2) by (auto simp: fun_eq_iff split: if_splits)
  ultimately show ?thesis using h1(1,2) h2(1) old by (simp add: sp_reset_def sp_get_def)
qed

lemma ctor_inv:
  assumes "ref_inv h own vir" "m_object h q = None" "can_use obj h"
  shows "\<exists>h'. used_opt obj (set_ptr q obj h) = Some h' \<and> ref_inv h' own (vir - set_option obj)"
proof -
  obtain h1 where h1: "used_opt obj h = Some h1" "m_object h1 = m_object h" "ref_inv h1 (add_own obj own) (vir - set_option obj)"
    using used_inv[OF assms(1,3)] by blast
  have "points_to q h1 = None" using h1(2) assms(2) by (simp add: points_to_def)
  then have "ref_inv (set_ptr q obj h1) own (vir - set_option obj)" using set_ptr_inv[OF h1(3), of q] by (simp add: add_own_def)
  then show ?thesis using h1(1) by (simp add: used_set_ptr)
qed

text \<open>An object that is pointed to is no virgin.\<close>

lemma pointed_not_virgin:
  assumes "ref_inv h own vir" "points_to q h = Some a"
  shows "a \<notin> vir" "\<exists>n > 0. m_count h a = Some n"
proof -
  have "refs_to h own a > 0" using refs_to_set_ptr[of h q None own a] assms by (simp add: ref_inv_def)
  then show "a \<notin> vir" "\<exists>n > 0. m_count h a = Some n" using assms(1) by (auto simp: ref_inv_def)
qed

lemma virgin_pointed: "ref_inv h own vir \<Longrightarrow> vir - set_option (points_to q h) = vir"
  using pointed_not_virgin(1)[of h own vir q] by (cases "points_to q h") auto

lemma points_to_get: "m_object h p \<noteq> None \<Longrightarrow> sp_get p h = Some (points_to p h)"
  by (auto simp: sp_get_def points_to_def split: option.splits)

lemma release_inv:
  assumes "ref_inv h own vir" "m_object h p \<noteq> None"
  shows "sp_release p h = Some (points_to p h, set_ptr p None h)" "ref_inv (set_ptr p None h) (add_own (points_to p h) own) vir"
  using points_to_get[OF assms(2)] set_ptr_inv[of h None own vir p] assms(1) by (simp_all add: sp_release_def add_own_def)

lemma move_inv:
  assumes "ref_inv h own vir" "m_object h q \<noteq> None" "m_object h p \<noteq> None"
  shows "\<exists>h'. sp_move q p h = Some h' \<and> ref_inv h' own vir"
proof -
  obtain h1 where h1: "sp_reset q None h = Some h1" "m_object h1 = (m_object h)(q := Some None)" "ref_inv h1 own vir"
    using reset_inv[OF assms(1,2), of None] by (auto simp: can_use_def)
  have p1: "m_object h1 p \<noteq> None" using h1(2) assms(3) by simp
  note r = release_inv[OF h1(3) p1]
  have "points_to q (set_ptr p None h1) = None" using h1(2) by (simp add: points_to_def)
  then have "ref_inv (set_ptr q (points_to p h1) (set_ptr p None h1)) own vir"
    using set_ptr_inv[OF r(2), of q] by (simp add: add_own_def)
  then show ?thesis using h1(1) r(1) by (simp add: sp_move_def)
qed

lemma dtor_inv:
  assumes "ref_inv h own vir" "m_object h q \<noteq> None"
  shows "\<exists>h'. sp_dtor q h = Some h' \<and> ref_inv h' own vir"
proof -
  obtain h1 where h1: "sp_reset q None h = Some h1" "m_object h1 = (m_object h)(q := Some None)" "ref_inv h1 own vir"
    using reset_inv[OF assms, of None] by (auto simp: can_use_def)
  let ?h = "h1\<lparr>m_object := (m_object h1)(q := None)\<rparr>"
  have f: "finite (dom (m_object h1))" using h1(3) by (simp add: ref_inv_def)
  have "refs_to ?h own a = refs_to h1 own a" for a using pcount_upd[OF f, of q None a] h1(2) by (simp add: refs_to_def)
  then have "ref_inv ?h own vir" using h1(3) by (simp add: ref_inv_def)
  then show ?thesis using h1(1) by (simp add: sp_dtor_def)
qed

lemma new_inv:
  assumes "ref_inv h own vir" "m_count h a = None"
  shows "ref_inv (RefCounted a h) own (insert a vir)"
proof -
  have "refs_to (RefCounted a h) own b = refs_to h own b" for b by (simp add: refs_to_def RefCounted_def)
  moreover have "refs_to h own a = 0" using assms by (auto simp: ref_inv_def split: if_splits)
  ultimately show ?thesis using assms(1) by (auto simp: ref_inv_def RefCounted_def)
qed

lemma ref_do_inv:
  assumes "ref_inv h own vir" "ref_allowed c h own"
  shows "\<exists>h'. ref_do c h = Some h' \<and> ref_inv h' (own_after c h own) (virgin_after c vir)"
proof (cases c)
  case (New a)
  then show ?thesis using new_inv[OF assms(1)] assms(2) by simp
next
  case (Ctor q obj)
  then show ?thesis using ctor_inv[OF assms(1), of q obj] assms(2) by (simp add: SharedPointer_def)
next
  case (Copy q p)
  then show ?thesis using ctor_inv[OF assms(1), of q "points_to p h"] assms(2) points_to_get[of h p] virgin_pointed[OF assms(1), of p]
    by (simp add: SharedPointer_copy_def)
next
  case (MoveCtor q p)
  have q: "points_to q h = None" "m_object h p \<noteq> None" using assms(2) MoveCtor by (simp_all add: points_to_def)
  have "ref_inv (set_ptr q None h) own vir" using set_ptr_inv[of h None own vir q] assms(1) q(1) by (simp add: add_own_def)
  from move_inv[OF this, of q p] show ?thesis using MoveCtor q(2) by (simp add: SharedPointer_move_def)
next
  case (Dtor q)
  then show ?thesis using dtor_inv[OF assms(1)] assms(2) by simp
next
  case (Reset q obj)
  then show ?thesis using reset_inv[OF assms(1), of q obj] assms(2) by auto
next
  case (AssignPtr q p)
  then show ?thesis using reset_inv[OF assms(1), of q "points_to p h"] assms(2) points_to_get[of h p] virgin_pointed[OF assms(1), of p]
    by (auto simp: sp_assign_def)
next
  case (MovePtr q p)
  then show ?thesis using move_inv[OF assms(1)] assms(2) by simp
next
  case (Release q)
  then show ?thesis using release_inv[OF assms(1), of q] assms(2) by (simp add: add_own_def split: option.splits)
next
  case (Use a)
  then show ?thesis using used_inv[OF assms(1), of "Some a"] assms(2) by (auto simp: used_opt_def add_own_def)
next
  case (Unuse a)
  have "add_own (Some a) (own(a := own a - 1)) = own" using assms(2) Unuse by (auto simp: add_own_def)
  then show ?thesis using unused_inv[of h "Some a" "own(a := own a - 1)" vir] assms(1) Unuse by (auto simp: unused_opt_def)
qed

subsection \<open>No dangling pointer, no leak\<close>

lemma ref_reach_inv: "ref_reach h own vir \<Longrightarrow> ref_inv h own vir"
proof (induction rule: ref_reach.induct)
  case init
  then show ?case by (simp add: ref_inv_def refs_to_def pcount_def)
next
  case (call h own vir c h')
  then show ?case using ref_do_inv[of h own vir c] by auto
qed

text \<open>
  C28. The count of every object is the number of pointers to it plus the references that the program holds itself. An object
  is alive exactly as long as there is a reference to it (or as there has never been one), so it is deleted with the last
  reference, not earlier and not twice. Every pointer that is not null can be dereferenced, and no call within the contract
  traps, also not when a pointer is assigned or moved to itself.
\<close>

theorem shared_pointer_counts:
  assumes "ref_reach h own vir"
  shows "(\<forall>a. m_count h a = (let n = card {q. m_object h q = Some (Some a)} + own a in
        if n > 0 then Some n else if a \<in> vir then Some 0 else None))
    \<and> (\<forall>q a. m_object h q = Some (Some a) \<longrightarrow> sp_deref q h = Some a)
    \<and> (\<forall>c. ref_allowed c h own \<longrightarrow> (\<exists>h'. ref_do c h = Some h' \<and> ref_reach h' (own_after c h own) (virgin_after c vir)))"
proof -
  have i: "ref_inv h own vir" by (rule ref_reach_inv[OF assms])
  have "sp_deref q h = Some a" if "m_object h q = Some (Some a)" for q a
    using pointed_not_virgin(2)[OF i, of q a] that by (auto simp: sp_deref_def sp_get_def points_to_def)
  moreover have "\<exists>h'. ref_do c h = Some h' \<and> ref_reach h' (own_after c h own) (virgin_after c vir)" if "ref_allowed c h own" for c
    using ref_do_inv[OF i that] ref_reach.call[OF assms that] by blast
  ultimately show ?thesis using i by (auto simp: ref_inv_def refs_to_def pcount_def Let_def)
qed

theorem shared_pointer_counts_witness:
  "\<exists>h. ref_do (New 5) \<lparr>m_count = \<lambda>_. None, m_object = \<lambda>_. None\<rparr> = Some h \<and> ref_reach h (\<lambda>_. 0) {5}"
  using shared_pointer_counts[OF ref_reach.init] by (auto dest!: spec[of _ "New 5"])

text \<open>A pointer that is moved to itself loses its object.\<close>

lemma self_move_loses:
  assumes "m_object h q = Some (Some a)" "m_count h a = Some 1"
  shows "\<exists>h'. sp_move q q h = Some h' \<and> m_object h' q = Some None \<and> m_count h' a = None"
  using assms by (simp add: sp_move_def sp_reset_def used_opt_def unused_opt_def unused_def cleanup_def sp_get_def sp_release_def set_ptr_def Let_def)

end
