(* ===== verification/Zth_SmallVector.thy ===== *)
theory Zth_SmallVector
  imports Zth_Prelude "HOL-Library.Word"
begin

section \<open>A vector with a small inline buffer\<close>

text \<open>
  \<^verbatim>\<open>include/libzth/util.h\<close>: \<^verbatim>\<open>small_vector\<close>, in which the poller keeps its items. The bytes of its buffer are either an array
  of \<open>prealloc\<close> slots or a \<^verbatim>\<open>std::vector\<close>; which one follows from \<^verbatim>\<open>m_size\<close>, an 8 bit number. A slot is raw memory
  (\<open>None\<close>) or holds a live object; to construct on a live object, to destroy or to read raw memory, and to overwrite the
  buffer while it has live objects is an error (\<open>None\<close>), like to read the buffer as what it is not.

  \<open>prealloc\<close> is a template argument, so it is an argument of all operations. Of the memory, an argument says which
  requests succeed (\<open>can_alloc\<close>) and how a full vector grows (\<open>vec_grow\<close>). \<open>Bad_alloc\<close> is the exception, with the vector
  as it is left behind.
\<close>

subsection \<open>State\<close>

record mem_env =
  can_alloc :: "nat \<Rightarrow> bool"
  vec_grow :: "nat \<Rightarrow> nat"

record 'a std_vector =
  vec_elems :: "'a list"
  vec_cap :: nat

datatype 'a buffer = Array "'a option list" | Vector "'a std_vector"

record 'a small_vector =
  m_buffer :: "'a buffer"
  m_size :: "8 word"

datatype alloc_result = Normal | Bad_alloc

text \<open>The constant \<^verbatim>\<open>prealloc\<close>, from the requested number of elements and the sizes of an element and of \<^verbatim>\<open>std::vector\<close>.\<close>

definition prealloc :: "int \<Rightarrow> nat \<Rightarrow> nat \<Rightarrow> nat" where
  "prealloc Prealloc value_size vector_size = (
     let prealloc_request = (if Prealloc > 0 then nat Prealloc else 0);
         prealloc_request_size = prealloc_request * value_size;
         buffer_size = (if prealloc_request_size > vector_size then prealloc_request_size else vector_size)
     in buffer_size div value_size)"

definition sv_init :: "nat \<Rightarrow> 'a small_vector" where
  "sv_init pre = \<lparr>m_buffer = Array (replicate pre None), m_size = 0\<rparr>"

subsection \<open>The vector of the standard library\<close>

definition vec_reserve :: "mem_env \<Rightarrow> nat \<Rightarrow> 'a std_vector \<Rightarrow> alloc_result \<times> 'a std_vector" where
  "vec_reserve e n v =
     (if n \<le> vec_cap v then (Normal, v)
      else if can_alloc e n then (Normal, v\<lparr>vec_cap := n\<rparr>)
      else (Bad_alloc, v))"

definition vec_push_back :: "mem_env \<Rightarrow> 'a \<Rightarrow> 'a std_vector \<Rightarrow> alloc_result \<times> 'a std_vector" where
  "vec_push_back e x v = (case
     (if length (vec_elems v) < vec_cap v then (Normal, v)
      else vec_reserve e (max (Suc (length (vec_elems v))) (vec_grow e (vec_cap v))) v)
   of (Bad_alloc, v) \<Rightarrow> (Bad_alloc, v)
    | (Normal, v) \<Rightarrow> (Normal, v\<lparr>vec_elems := vec_elems v @ [x]\<rparr>))"

definition vec_resize :: "mem_env \<Rightarrow> nat \<Rightarrow> 'a \<Rightarrow> 'a std_vector \<Rightarrow> alloc_result \<times> 'a std_vector" where
  "vec_resize e n x v = (case
     (if n \<le> vec_cap v then (Normal, v) else vec_reserve e (max n (vec_grow e (vec_cap v))) v)
   of (Bad_alloc, v) \<Rightarrow> (Bad_alloc, v)
    | (Normal, v) \<Rightarrow> (Normal, v\<lparr>vec_elems := take n (vec_elems v) @ replicate (n - length (vec_elems v)) x\<rparr>))"

subsection \<open>The buffer\<close>

definition is_small :: "nat \<Rightarrow> 'a small_vector \<Rightarrow> bool" where
  "is_small pre s \<longleftrightarrow> unat (m_size s) \<le> pre"

definition array :: "nat \<Rightarrow> 'a small_vector \<Rightarrow> 'a option list option" where
  "array pre s = do {
     zth_assert (is_small pre s);
     case m_buffer s of Array a \<Rightarrow> Some a | Vector _ \<Rightarrow> None
   }"

definition vector :: "nat \<Rightarrow> 'a small_vector \<Rightarrow> 'a std_vector option" where
  "vector pre s = do {
     zth_assert (\<not> is_small pre s);
     case m_buffer s of Array _ \<Rightarrow> None | Vector v \<Rightarrow> Some v
   }"

text \<open>Placement new, and an explicit call of the destructor, of one slot.\<close>

definition construct :: "nat \<Rightarrow> nat \<Rightarrow> 'a \<Rightarrow> 'a small_vector \<Rightarrow> 'a small_vector option" where
  "construct pre i x s = do {
     a \<leftarrow> array pre s;
     zth_assert (i < length a \<and> a ! i = None);
     Some (s\<lparr>m_buffer := Array (a[i := Some x])\<rparr>)
   }"

definition destroy :: "nat \<Rightarrow> nat \<Rightarrow> 'a small_vector \<Rightarrow> 'a small_vector option" where
  "destroy pre i s = do {
     a \<leftarrow> array pre s;
     zth_assert (i < length a \<and> a ! i \<noteq> None);
     Some (s\<lparr>m_buffer := Array (a[i := None])\<rparr>)
   }"

definition slot :: "nat \<Rightarrow> nat \<Rightarrow> 'a small_vector \<Rightarrow> 'a option" where
  "slot pre i s = do {
     a \<leftarrow> array pre s;
     zth_assert (i < length a);
     a ! i
   }"

subsection \<open>Access\<close>

definition sv_size :: "nat \<Rightarrow> 'a small_vector \<Rightarrow> nat option" where
  "sv_size pre s =
     (if is_small pre s then Some (unat (m_size s)) else do { v \<leftarrow> vector pre s; Some (length (vec_elems v)) })"

definition sv_empty :: "nat \<Rightarrow> 'a small_vector \<Rightarrow> bool option" where
  "sv_empty pre s =
     (if is_small pre s then Some (m_size s = 0) else do { v \<leftarrow> vector pre s; Some (vec_elems v = []) })"

definition sv_capacity :: "nat \<Rightarrow> 'a small_vector \<Rightarrow> nat option" where
  "sv_capacity pre s = (if is_small pre s then Some pre else do { v \<leftarrow> vector pre s; Some (vec_cap v) })"

definition sv_at :: "nat \<Rightarrow> nat \<Rightarrow> 'a small_vector \<Rightarrow> 'a option" where
  "sv_at pre i s = do {
     n \<leftarrow> sv_size pre s;
     zth_assert (i < n);
     if is_small pre s then slot pre i s else do { v \<leftarrow> vector pre s; Some (vec_elems v ! i) }
   }"

text \<open>An assignment to the element that \<^verbatim>\<open>operator[]\<close> refers to.\<close>

definition sv_assign :: "nat \<Rightarrow> nat \<Rightarrow> 'a \<Rightarrow> 'a small_vector \<Rightarrow> 'a small_vector option" where
  "sv_assign pre i x s = do {
     n \<leftarrow> sv_size pre s;
     zth_assert (i < n);
     if is_small pre s then do { s \<leftarrow> destroy pre i s; construct pre i x s }
     else do { v \<leftarrow> vector pre s; Some (s\<lparr>m_buffer := Vector (v\<lparr>vec_elems := (vec_elems v)[i := x]\<rparr>)\<rparr>) }
   }"

definition sv_front :: "nat \<Rightarrow> 'a small_vector \<Rightarrow> 'a option" where
  "sv_front pre s = sv_at pre 0 s"

definition sv_back :: "nat \<Rightarrow> 'a small_vector \<Rightarrow> 'a option" where
  "sv_back pre s = do {
     b \<leftarrow> sv_empty pre s;
     zth_assert (\<not> b);
     n \<leftarrow> sv_size pre s;
     sv_at pre (n - 1) s
   }"

subsection \<open>Changes\<close>

text \<open>The loop of \<^verbatim>\<open>make_vector\<close>, which moves the elements out of the array.\<close>

fun move_out :: "nat \<Rightarrow> mem_env \<Rightarrow> nat list \<Rightarrow> 'a small_vector \<Rightarrow> 'a std_vector \<Rightarrow> (alloc_result \<times> 'a small_vector \<times> 'a std_vector) option" where
  "move_out pre e [] s v = Some (Normal, s, v)"
| "move_out pre e (i # is) s v = do {
     x \<leftarrow> slot pre i s;
     case vec_push_back e x v of
       (Bad_alloc, v) \<Rightarrow> Some (Bad_alloc, s, v)
     | (Normal, v) \<Rightarrow> do { s \<leftarrow> destroy pre i s; move_out pre e is s v }
   }"

definition make_vector :: "nat \<Rightarrow> mem_env \<Rightarrow> nat \<Rightarrow> 'a small_vector \<Rightarrow> (alloc_result \<times> 'a small_vector) option" where
  "make_vector pre e new_cap s =
     (if \<not> is_small pre s then Some (Normal, s)
      else case vec_reserve e (max new_cap (unat (m_size s))) \<lparr>vec_elems = [], vec_cap = 0\<rparr> of
        (Bad_alloc, _) \<Rightarrow> Some (Bad_alloc, s)
      | (Normal, v) \<Rightarrow> do {
          (out, s, v) \<leftarrow> move_out pre e [0..<unat (m_size s)] s v;
          if out = Bad_alloc then Some (Bad_alloc, s)
          else do {
            a \<leftarrow> array pre s;
            zth_assert (\<forall>x \<in> set a. x = None);
            Some (Normal, s\<lparr>m_buffer := Vector v, m_size := of_nat (pre + 1)\<rparr>)
          }
        })"

text \<open>A call on the vector in the buffer.\<close>

definition on_vector :: "nat \<Rightarrow> ('a std_vector \<Rightarrow> alloc_result \<times> 'a std_vector) \<Rightarrow> 'a small_vector \<Rightarrow> (alloc_result \<times> 'a small_vector) option" where
  "on_vector pre f s = do {
     v \<leftarrow> vector pre s;
     case f v of (out, v) \<Rightarrow> Some (out, s\<lparr>m_buffer := Vector v\<rparr>)
   }"

definition sv_reserve :: "nat \<Rightarrow> mem_env \<Rightarrow> nat \<Rightarrow> 'a small_vector \<Rightarrow> (alloc_result \<times> 'a small_vector) option" where
  "sv_reserve pre e new_cap s =
     (if is_small pre s \<and> new_cap \<le> pre then Some (Normal, s)
      else do {
        (out, s) \<leftarrow> (if is_small pre s then make_vector pre e new_cap s else Some (Normal, s));
        if out = Bad_alloc then Some (Bad_alloc, s)
        else on_vector pre (vec_reserve e new_cap) s
      })"

definition sv_push_back :: "nat \<Rightarrow> mem_env \<Rightarrow> 'a \<Rightarrow> 'a small_vector \<Rightarrow> (alloc_result \<times> 'a small_vector) option" where
  "sv_push_back pre e x s = do {
     n \<leftarrow> sv_size pre s;
     (out, s) \<leftarrow> sv_reserve pre e (n + 1) s;
     if out = Bad_alloc then Some (Bad_alloc, s)
     else if unat (m_size s) < pre then do {
       s \<leftarrow> construct pre (unat (m_size s)) x s;
       Some (Normal, s\<lparr>m_size := m_size s + 1\<rparr>)
     }
     else on_vector pre (vec_push_back e x) s
   }"

definition sv_pop_back :: "nat \<Rightarrow> 'a small_vector \<Rightarrow> 'a small_vector option" where
  "sv_pop_back pre s = do {
     b \<leftarrow> sv_empty pre s;
     zth_assert (\<not> b);
     if is_small pre s then do {
       let s = s\<lparr>m_size := m_size s - 1\<rparr>;
       destroy pre (unat (m_size s)) s
     }
     else do { v \<leftarrow> vector pre s; Some (s\<lparr>m_buffer := Vector (v\<lparr>vec_elems := butlast (vec_elems v)\<rparr>)\<rparr>) }
   }"

text \<open>The loops of \<^verbatim>\<open>resize\<close> on the array.\<close>

partial_function (option) shrink_loop :: "nat \<Rightarrow> nat \<Rightarrow> 'a small_vector \<Rightarrow> 'a small_vector option" where
  "shrink_loop pre n s =
     (if n < unat (m_size s) then
        Option.bind (destroy pre (unat (m_size s - 1)) (s\<lparr>m_size := m_size s - 1\<rparr>)) (shrink_loop pre n)
      else Some s)"

partial_function (option) grow_loop :: "nat \<Rightarrow> nat \<Rightarrow> 'a \<Rightarrow> 'a small_vector \<Rightarrow> 'a small_vector option" where
  "grow_loop pre n x s =
     (if n > unat (m_size s) then
        Option.bind (construct pre (unat (m_size s)) x s) (\<lambda>s. grow_loop pre n x (s\<lparr>m_size := m_size s + 1\<rparr>))
      else Some s)"

definition sv_resize :: "nat \<Rightarrow> mem_env \<Rightarrow> nat \<Rightarrow> 'a \<Rightarrow> 'a small_vector \<Rightarrow> (alloc_result \<times> 'a small_vector) option" where
  "sv_resize pre e n x s =
     (if is_small pre s then do {
        s \<leftarrow> shrink_loop pre n s;
        if n \<le> pre then do { s \<leftarrow> grow_loop pre n x s; Some (Normal, s) }
        else do {
          (out, s) \<leftarrow> make_vector pre e n s;
          if out = Bad_alloc then Some (Bad_alloc, s) else on_vector pre (vec_resize e n x) s
        }
      }
      else on_vector pre (vec_resize e n x) s)"

definition sv_clear :: "nat \<Rightarrow> mem_env \<Rightarrow> 'a \<Rightarrow> 'a small_vector \<Rightarrow> (alloc_result \<times> 'a small_vector) option" where
  "sv_clear pre e x s =
     (if is_small pre s then sv_resize pre e 0 x s
      else on_vector pre (\<lambda>v. (Normal, v\<lparr>vec_elems := []\<rparr>)) s)"

definition sv_clear_and_release :: "nat \<Rightarrow> mem_env \<Rightarrow> 'a \<Rightarrow> 'a small_vector \<Rightarrow> (alloc_result \<times> 'a small_vector) option" where
  "sv_clear_and_release pre e x s =
     (if is_small pre s then sv_resize pre e 0 x s
      else on_vector pre (\<lambda>v. (Normal, \<lparr>vec_elems = [], vec_cap = 0\<rparr>)) s)"

text \<open>The destructor leaves raw memory.\<close>

definition sv_destruct :: "nat \<Rightarrow> mem_env \<Rightarrow> 'a \<Rightarrow> 'a small_vector \<Rightarrow> 'a option list option" where
  "sv_destruct pre e x s =
     (if is_small pre s then do { (_, s) \<leftarrow> sv_resize pre e 0 x s; array pre s }
      else do { _ \<leftarrow> vector pre s; Some (replicate pre None) })"

subsection \<open>What the bytes stand for\<close>

definition small_rep :: "nat \<Rightarrow> 'a list \<Rightarrow> 'a small_vector \<Rightarrow> bool" where
  "small_rep pre xs s \<longleftrightarrow> m_buffer s = Array (map Some xs @ replicate (pre - length xs) None)
     \<and> unat (m_size s) = length xs \<and> length xs \<le> pre"

definition big_rep :: "nat \<Rightarrow> 'a std_vector \<Rightarrow> 'a small_vector \<Rightarrow> bool" where
  "big_rep pre v s \<longleftrightarrow> m_buffer s = Vector v \<and> unat (m_size s) = pre + 1 \<and> length (vec_elems v) \<le> vec_cap v"

definition sv_rep :: "nat \<Rightarrow> 'a small_vector \<Rightarrow> 'a list \<Rightarrow> bool" where
  "sv_rep pre s xs \<longleftrightarrow> pre < 255 \<and> (small_rep pre xs s \<or> (\<exists>v. big_rep pre v s \<and> vec_elems v = xs))"

lemma sv_rep_cases [consumes 1, case_names small big]:
  assumes "sv_rep pre s xs"
  obtains "pre < 255" "small_rep pre xs s" | v where "pre < 255" "big_rep pre v s" "vec_elems v = xs"
  using assms by (auto simp: sv_rep_def)

lemma sv_rep_init: "pre < 255 \<Longrightarrow> sv_rep pre (sv_init pre) []"
  by (simp add: sv_rep_def small_rep_def sv_init_def)

lemma small_facts:
  assumes "small_rep pre xs s"
  shows "is_small pre s" "array pre s = Some (map Some xs @ replicate (pre - length xs) None)" "unat (m_size s) = length xs"
    "length xs \<le> pre"
  using assms by (simp_all add: small_rep_def is_small_def array_def)

lemma big_facts:
  assumes "big_rep pre v s"
  shows "\<not> is_small pre s" "vector pre s = Some v" "\<not> unat (m_size s) < pre"
  using assms by (simp_all add: big_rep_def is_small_def vector_def)

lemma dec_size: "unat (w :: 8 word) = Suc n \<Longrightarrow> unat (w - 1) = n"
  by (subst unat_minus_one) auto

lemma inc_size: "unat (w :: 8 word) < 255 \<Longrightarrow> unat (w + 1) = Suc (unat w)"
  by (simp add: unat_plus_if')

subsection \<open>Each operation\<close>

lemma destroy_last:
  assumes "small_rep pre (xs @ [x]) s"
  shows "\<exists>s'. destroy pre (unat (m_size s - 1)) (s\<lparr>m_size := m_size s - 1\<rparr>) = Some s' \<and> small_rep pre xs s'"
proof -
  let ?s = "s\<lparr>m_size := m_size s - 1\<rparr>"
  have n: "unat (m_size s - 1) = length xs" using assms by (intro dec_size) (simp add: small_rep_def)
  have a: "array pre ?s = Some (map Some (xs @ [x]) @ replicate (pre - Suc (length xs)) None)"
    using assms n by (simp add: small_rep_def array_def is_small_def)
  have "pre - length xs = Suc (pre - Suc (length xs))" using small_facts(4)[OF assms] by simp
  then show ?thesis using a n assms by (simp add: destroy_def small_rep_def nth_append list_update_append)
qed

lemma construct_next:
  assumes "small_rep pre xs s" "length xs < pre" "pre < 255"
  shows "\<exists>s'. construct pre (unat (m_size s)) x s = Some s' \<and> small_rep pre (xs @ [x]) (s'\<lparr>m_size := m_size s' + 1\<rparr>)"
proof -
  note f = small_facts[OF assms(1)]
  have n: "unat (m_size s + 1) = Suc (length xs)" using inc_size[of "m_size s"] f(3) assms(2,3) by simp
  have "pre - length xs = Suc (pre - Suc (length xs))" using assms(2) by simp
  then show ?thesis using f n assms(2) by (simp add: construct_def small_rep_def nth_append list_update_append)
qed

lemma shrink_loop_ok: "small_rep pre xs s \<Longrightarrow> \<exists>s'. shrink_loop pre n s = Some s' \<and> small_rep pre (take n xs) s' \<and> (length xs \<le> n \<longrightarrow> s' = s)"
proof (induction xs arbitrary: s rule: rev_induct)
  case Nil
  then show ?case by (subst shrink_loop.simps) (simp add: small_rep_def)
next
  case (snoc x xs)
  note f = small_facts[OF snoc.prems]
  show ?case
  proof (cases "n < Suc (length xs)")
    case True
    obtain s1 where s1: "destroy pre (unat (m_size s - 1)) (s\<lparr>m_size := m_size s - 1\<rparr>) = Some s1" "small_rep pre xs s1"
      using destroy_last[OF snoc.prems] by blast
    then show ?thesis using True f(3) snoc.IH[OF s1(2)] by (subst shrink_loop.simps) auto
  next
    case False
    then show ?thesis using f(3) snoc.prems by (subst shrink_loop.simps) simp
  qed
qed

lemma grow_loop_ok:
  "small_rep pre xs s \<Longrightarrow> n \<le> pre \<Longrightarrow> pre < 255 \<Longrightarrow> \<exists>s'. grow_loop pre n x s = Some s' \<and> small_rep pre (xs @ replicate (n - length xs) x) s'"
proof (induction "n - length xs" arbitrary: xs s)
  case 0
  then show ?case using small_facts(3)[OF 0(2)] by (subst grow_loop.simps) simp
next
  case (Suc k)
  note f = small_facts[OF Suc.prems(1)]
  have l: "length xs < n" "length xs < pre" using Suc(2) Suc.prems(2) by linarith+
  obtain s1 where s1: "construct pre (unat (m_size s)) x s = Some s1" "small_rep pre (xs @ [x]) (s1\<lparr>m_size := m_size s1 + 1\<rparr>)"
    using construct_next[OF Suc.prems(1) l(2) Suc.prems(3)] by blast
  have "k = n - length (xs @ [x])" using Suc(2) by simp
  from Suc(1)[OF this s1(2) Suc.prems(2,3)] obtain s2 where
    "grow_loop pre n x (s1\<lparr>m_size := m_size s1 + 1\<rparr>) = Some s2" "small_rep pre ((xs @ [x]) @ replicate (n - length (xs @ [x])) x) s2" by blast
  moreover have "replicate (n - length xs) x = x # replicate (n - Suc (length xs)) x" using l(1) by (metis Suc_diff_Suc replicate_Suc)
  ultimately show ?case using s1 l(1) f(3) by (subst grow_loop.simps) simp
qed

lemma move_out_ok:
  assumes "is_small pre s" "m_buffer s = Array (replicate i None @ map Some ys @ rest)" "length (vec_elems v) + length ys \<le> vec_cap v"
  shows "move_out pre e [i..<i + length ys] s v =
    Some (Normal, s\<lparr>m_buffer := Array (replicate (i + length ys) None @ rest)\<rparr>, v\<lparr>vec_elems := vec_elems v @ ys\<rparr>)"
  using assms
proof (induction ys arbitrary: i s v)
  case Nil
  then show ?case by simp
next
  case (Cons y ys)
  let ?s = "s\<lparr>m_buffer := Array (replicate (Suc i) None @ map Some ys @ rest)\<rparr>" and ?v = "v\<lparr>vec_elems := vec_elems v @ [y]\<rparr>"
  have "slot pre i s = Some y" "destroy pre i s = Some ?s"
    using Cons.prems by (simp_all add: slot_def destroy_def array_def nth_append list_update_append replicate_append_same[symmetric])
  moreover have "vec_push_back e y v = (Normal, ?v)" using Cons.prems(3) by (simp add: vec_push_back_def)
  moreover have "move_out pre e [Suc i..<Suc i + length ys] ?s ?v =
      Some (Normal, ?s\<lparr>m_buffer := Array (replicate (Suc i + length ys) None @ rest)\<rparr>, ?v\<lparr>vec_elems := vec_elems ?v @ ys\<rparr>)"
    using Cons.prems by (intro Cons.IH) (simp_all add: is_small_def)
  ultimately show ?case by (simp add: upt_conv_Cons del: upt_Suc)
qed

lemma make_vector_ok:
  assumes "small_rep pre xs s" "pre < 255" "length xs \<le> n"
  shows "if n = 0 \<or> can_alloc e n
    then \<exists>s'. make_vector pre e n s = Some (Normal, s') \<and> big_rep pre \<lparr>vec_elems = xs, vec_cap = n\<rparr> s'
    else make_vector pre e n s = Some (Bad_alloc, s)"
proof -
  note f = small_facts[OF assms(1)]
  have b: "m_buffer s = Array (replicate 0 None @ map Some xs @ replicate (pre - length xs) None)"
    using assms(1) by (simp add: small_rep_def)
  have "move_out pre e [0..<0 + length xs] s \<lparr>vec_elems = [], vec_cap = n\<rparr> =
      Some (Normal, s\<lparr>m_buffer := Array (replicate (0 + length xs) None @ replicate (pre - length xs) None)\<rparr>,
        \<lparr>vec_elems = [], vec_cap = n\<rparr>\<lparr>vec_elems := vec_elems \<lparr>vec_elems = [], vec_cap = n\<rparr> @ xs\<rparr>)"
    by (rule move_out_ok[OF f(1) b]) (use assms(3) in simp)
  moreover have "unat (of_nat (pre + 1) :: 8 word) = pre + 1" using assms(2) by (simp add: unat_of_nat del: of_nat_add of_nat_Suc)
  moreover have "max n (unat (m_size s)) = n" using assms(3) f(3) by simp
  ultimately show ?thesis using f assms(3)
    by (auto simp: make_vector_def vec_reserve_def array_def big_rep_def is_small_def)
qed

lemma on_vector_ok:
  assumes "big_rep pre v s"
  shows "on_vector pre g s = (case g v of (out, v') \<Rightarrow> Some (out, s\<lparr>m_buffer := Vector v'\<rparr>))"
  using big_facts[OF assms] by (simp add: on_vector_def)

lemma big_rep_upd: "big_rep pre v s \<Longrightarrow> length (vec_elems v') \<le> vec_cap v' \<Longrightarrow> big_rep pre v' (s\<lparr>m_buffer := Vector v'\<rparr>)"
  by (simp add: big_rep_def)

lemma big_rep_same: "big_rep pre v s \<Longrightarrow> s\<lparr>m_buffer := Vector v\<rparr> = s"
  by (cases s) (simp add: big_rep_def)

text \<open>The capacity, as a number.\<close>

definition cap :: "nat \<Rightarrow> 'a small_vector \<Rightarrow> nat" where
  "cap pre s = (case m_buffer s of Array _ \<Rightarrow> pre | Vector v \<Rightarrow> vec_cap v)"

text \<open>
  The result of an operation that has to have room for \<open>n\<close> elements: either it succeeds, with the elements \<open>ys\<close> and room
  for \<open>n\<close>, and not less room than before, or there was no room, the memory was exhausted, and nothing has changed.
\<close>

definition grows_to :: "nat \<Rightarrow> mem_env \<Rightarrow> nat \<Rightarrow> 'a small_vector \<Rightarrow> 'a list \<Rightarrow> (alloc_result \<times> 'a small_vector) option \<Rightarrow> bool" where
  "grows_to pre e n s ys r \<longleftrightarrow>
     (\<exists>s'. r = Some (Normal, s') \<and> sv_rep pre s' ys \<and> n \<le> cap pre s' \<and> cap pre s \<le> cap pre s')
     \<or> (r = Some (Bad_alloc, s) \<and> cap pre s < n \<and> (\<exists>m \<ge> n. \<not> can_alloc e m))"

lemma cap_small: "small_rep pre xs s \<Longrightarrow> cap pre s = pre"
  by (simp add: cap_def small_rep_def)

lemma cap_big: "big_rep pre v s \<Longrightarrow> cap pre s = vec_cap v"
  by (simp add: cap_def big_rep_def)

lemma sv_rep_small: "pre < 255 \<Longrightarrow> small_rep pre xs s \<Longrightarrow> sv_rep pre s xs"
  by (simp add: sv_rep_def)

lemma sv_rep_big: "pre < 255 \<Longrightarrow> big_rep pre v s \<Longrightarrow> sv_rep pre s (vec_elems v)"
  by (auto simp: sv_rep_def)

text \<open>The three ways in which the result comes about: in the array, in a new vector, in the vector that was there.\<close>

lemma grows_small: "pre < 255 \<Longrightarrow> small_rep pre ys s' \<Longrightarrow> n \<le> pre \<Longrightarrow> cap pre s \<le> pre \<Longrightarrow> grows_to pre e n s ys (Some (Normal, s'))"
  by (auto simp: grows_to_def cap_small intro: sv_rep_small)

lemma grows_vector:
  assumes "pre < 255" "big_rep pre v s" "g v = (Normal, v')" "vec_elems v' = ys" "length ys \<le> vec_cap v'" "n \<le> vec_cap v'"
    "cap pre s0 \<le> vec_cap v'"
  shows "grows_to pre e n s0 ys (on_vector pre g s)"
proof -
  have "big_rep pre v' (s\<lparr>m_buffer := Vector v'\<rparr>)" using big_rep_upd[OF assms(2)] assms(4,5) by simp
  then show ?thesis using sv_rep_big[OF assms(1)] cap_big on_vector_ok[OF assms(2), of g] assms(3,4,6,7)
    by (fastforce simp: grows_to_def)
qed

lemma grows_fails:
  assumes "big_rep pre v s" "g v = (Bad_alloc, v)" "vec_cap v < n" "n \<le> m" "\<not> can_alloc e m"
  shows "grows_to pre e n s ys (on_vector pre g s)"
  using on_vector_ok[OF assms(1), of g] big_rep_same[OF assms(1)] cap_big[OF assms(1)] assms(2-5) by (auto simp: grows_to_def)

lemma make_vector_then:
  assumes "pre < 255" "small_rep pre xs s" "pre < n" "g \<lparr>vec_elems = xs, vec_cap = n\<rparr> = (Normal, v')" "vec_elems v' = ys"
    "length ys \<le> vec_cap v'" "n \<le> vec_cap v'"
  shows "grows_to pre e n s ys (make_vector pre e n s \<bind> (\<lambda>(out, s). if out = Bad_alloc then Some (Bad_alloc, s) else on_vector pre g s))"
proof (cases "can_alloc e n")
  case True
  have "length xs \<le> n" using small_facts(4)[OF assms(2)] assms(3) by simp
  then obtain s' where "make_vector pre e n s = Some (Normal, s')" "big_rep pre \<lparr>vec_elems = xs, vec_cap = n\<rparr> s'"
    using make_vector_ok[OF assms(2,1), of n e] True by auto
  moreover have "cap pre s \<le> vec_cap v'" using cap_small[OF assms(2)] assms(3,7) by simp
  ultimately show ?thesis using grows_vector[where g = g, OF assms(1) _ assms(4-7)] by simp
next
  case False
  have "length xs \<le> n" using small_facts(4)[OF assms(2)] assms(3) by simp
  then have "make_vector pre e n s = Some (Bad_alloc, s)" using make_vector_ok[OF assms(2,1), of n e] False assms(3) by auto
  then show ?thesis using False assms(3) cap_small[OF assms(2)] by (auto simp: grows_to_def)
qed

lemma sv_reserve_ok:
  assumes "sv_rep pre s xs"
  shows "grows_to pre e n s xs (sv_reserve pre e n s)"
  using assms
proof (cases rule: sv_rep_cases)
  case small
  note f = small_facts[OF small(2)]
  show ?thesis
  proof (cases "n \<le> pre")
    case True
    then show ?thesis using grows_small[OF small True, of s e] cap_small[OF small(2)] f(1) by (simp add: sv_reserve_def)
  next
    case False
    then show ?thesis using make_vector_then[OF small, of n "vec_reserve e n" _ xs e] f(1,4) by (simp add: sv_reserve_def vec_reserve_def)
  qed
next
  case (big v)
  note f = big_facts[OF big(2)]
  have l: "length xs \<le> vec_cap v" using big by (simp add: big_rep_def)
  have r: "sv_reserve pre e n s = on_vector pre (vec_reserve e n) s" using f(1) by (simp add: sv_reserve_def)
  consider "n \<le> vec_cap v" | "vec_cap v < n" "can_alloc e n" | "vec_cap v < n" "\<not> can_alloc e n" by linarith
  then show ?thesis
  proof cases
    case 1
    then show ?thesis unfolding r using l big(3) cap_big[OF big(2)] by (intro grows_vector[OF big(1,2), where v' = v]) (simp_all add: vec_reserve_def)
  next
    case 2
    then show ?thesis unfolding r using l big(3) cap_big[OF big(2)] by (intro grows_vector[OF big(1,2), where v' = "v\<lparr>vec_cap := n\<rparr>"]) (simp_all add: vec_reserve_def)
  next
    case 3
    then show ?thesis unfolding r by (intro grows_fails[OF big(2), where m = n]) (simp_all add: vec_reserve_def)
  qed
qed

lemma sv_size_ok: "sv_rep pre s xs \<Longrightarrow> sv_size pre s = Some (length xs)"
  by (cases rule: sv_rep_cases, assumption) (auto simp: sv_size_def small_facts big_facts)

lemma sv_empty_ok: "sv_rep pre s xs \<Longrightarrow> sv_empty pre s = Some (xs = [])"
  by (cases rule: sv_rep_cases, assumption) (auto simp: sv_empty_def small_facts big_facts unat_0_iff[symmetric])

lemma sv_capacity_ok: "sv_rep pre s xs \<Longrightarrow> sv_capacity pre s = Some (cap pre s)"
  by (cases rule: sv_rep_cases, assumption) (auto simp: sv_capacity_def small_facts big_facts cap_small cap_big)

lemma sv_at_ok:
  assumes "sv_rep pre s xs"
  shows "sv_at pre i s = (if i < length xs then Some (xs ! i) else None)"
  using assms
proof (cases rule: sv_rep_cases)
  case small
  then show ?thesis using sv_size_ok[OF assms] small_facts[OF small(2)] by (simp add: sv_at_def slot_def zth_assert_def nth_append)
next
  case (big v)
  then show ?thesis using sv_size_ok[OF assms] big_facts[OF big(2)] by (simp add: sv_at_def zth_assert_def)
qed

lemma sv_assign_ok:
  assumes "sv_rep pre s xs"
  shows "if i < length xs then \<exists>s'. sv_assign pre i x s = Some s' \<and> sv_rep pre s' (xs[i := x]) \<and> cap pre s' = cap pre s else sv_assign pre i x s = None"
  using assms
proof (cases rule: sv_rep_cases)
  case small
  note f = small_facts[OF small(2)]
  have n: "sv_size pre s = Some (length xs)" by (rule sv_size_ok[OF assms])
  show ?thesis
  proof (cases "i < length xs")
    case True
    let ?b = "\<lambda>y. Array ((map Some xs)[i := y] @ replicate (pre - length xs) None)"
    have d: "destroy pre i s = Some (s\<lparr>m_buffer := ?b None\<rparr>)" using f True by (simp add: destroy_def nth_append list_update_append)
    have "construct pre i x (s\<lparr>m_buffer := ?b None\<rparr>) = Some (s\<lparr>m_buffer := ?b (Some x)\<rparr>)"
      using f True by (simp add: construct_def array_def is_small_def nth_append list_update_append)
    then have "sv_assign pre i x s = Some (s\<lparr>m_buffer := ?b (Some x)\<rparr>)" using n True f(1) d by (simp add: sv_assign_def)
    moreover have "small_rep pre (xs[i := x]) (s\<lparr>m_buffer := ?b (Some x)\<rparr>)" using small(2) by (simp add: small_rep_def map_update)
    ultimately show ?thesis using True small by (simp add: sv_rep_small cap_small)
  qed (use n in \<open>simp add: sv_assign_def zth_assert_def\<close>)
next
  case (big v)
  note f = big_facts[OF big(2)]
  have n: "sv_size pre s = Some (length xs)" by (rule sv_size_ok[OF assms])
  let ?v = "v\<lparr>vec_elems := xs[i := x]\<rparr>"
  have "big_rep pre ?v (s\<lparr>m_buffer := Vector ?v\<rparr>)" using big_rep_upd[OF big(2), of ?v] big(2,3) by (simp add: big_rep_def)
  then show ?thesis using sv_rep_big[OF big(1)] n f big(3) cap_big[OF big(2)] by (force simp: sv_assign_def zth_assert_def cap_def)
qed

lemma sv_push_back_ok:
  assumes "sv_rep pre s xs"
  shows "grows_to pre e (Suc (length xs)) s (xs @ [x]) (sv_push_back pre e x s)"
proof -
  have n: "sv_size pre s = Some (length xs)" by (rule sv_size_ok[OF assms])
  consider (no) "sv_reserve pre e (Suc (length xs)) s = Some (Bad_alloc, s)" "cap pre s < Suc (length xs)" "\<exists>m\<ge>Suc (length xs). \<not> can_alloc e m"
    | (yes) s' where "sv_reserve pre e (Suc (length xs)) s = Some (Normal, s')" "sv_rep pre s' xs" "Suc (length xs) \<le> cap pre s'" "cap pre s \<le> cap pre s'"
    using sv_reserve_ok[OF assms, of e "Suc (length xs)"] unfolding grows_to_def by blast
  then show ?thesis
  proof cases
    case no
    then show ?thesis using n by (simp add: sv_push_back_def grows_to_def)
  next
    case yes
    have r: "sv_push_back pre e x s = (if unat (m_size s') < pre
        then construct pre (unat (m_size s')) x s' \<bind> (\<lambda>s. Some (Normal, s\<lparr>m_size := m_size s + 1\<rparr>))
        else on_vector pre (vec_push_back e x) s')" using n yes(1) by (simp add: sv_push_back_def)
    from yes(2) show ?thesis
    proof (cases rule: sv_rep_cases)
      case small
      have l: "length xs < pre" using yes(3) cap_small[OF small(2)] by simp
      obtain s2 where "construct pre (unat (m_size s')) x s' = Some s2" "small_rep pre (xs @ [x]) (s2\<lparr>m_size := m_size s2 + 1\<rparr>)"
        using construct_next[OF small(2) l small(1)] by blast
      then show ?thesis using r l small_facts(3)[OF small(2)] grows_small[OF small(1), of "xs @ [x]" _ "Suc (length xs)" s e] yes(4) cap_small[OF small(2)] by simp
    next
      case (big v)
      have l: "length xs < vec_cap v" using yes(3) cap_big[OF big(2)] by simp
      have "grows_to pre e (Suc (length xs)) s (xs @ [x]) (on_vector pre (vec_push_back e x) s')"
        using l big(3) yes(4) cap_big[OF big(2)] by (intro grows_vector[OF big(1,2), where v' = "v\<lparr>vec_elems := xs @ [x]\<rparr>"]) (simp_all add: vec_push_back_def)
      then show ?thesis using r big_facts(3)[OF big(2)] by simp
    qed
  qed
qed

lemma sv_pop_back_ok:
  assumes "sv_rep pre s xs"
  shows "if xs \<noteq> [] then \<exists>s'. sv_pop_back pre s = Some s' \<and> sv_rep pre s' (butlast xs) \<and> cap pre s' = cap pre s else sv_pop_back pre s = None"
proof (cases xs rule: rev_exhaust)
  case Nil
  then show ?thesis using sv_empty_ok[OF assms] by (simp add: sv_pop_back_def zth_assert_def)
next
  case (snoc ys y)
  have e: "sv_empty pre s = Some False" using sv_empty_ok[OF assms] snoc by simp
  from assms show ?thesis
  proof (cases rule: sv_rep_cases)
    case small
    obtain s' where "destroy pre (unat (m_size s - 1)) (s\<lparr>m_size := m_size s - 1\<rparr>) = Some s'" "small_rep pre ys s'"
      using destroy_last[of pre ys y s] small(2) snoc by blast
    then show ?thesis using e snoc small_facts(1)[OF small(2)] small by (simp add: sv_pop_back_def sv_rep_small cap_small Let_def)
  next
    case (big v)
    let ?v = "v\<lparr>vec_elems := ys\<rparr>"
    have "big_rep pre ?v (s\<lparr>m_buffer := Vector ?v\<rparr>)" using big_rep_upd[OF big(2), of ?v] big(2,3) snoc by (simp add: big_rep_def)
    then show ?thesis using sv_rep_big[OF big(1)] e snoc big_facts[OF big(2)] big(3) cap_big[OF big(2)] by (fastforce simp: sv_pop_back_def cap_def)
  qed
qed

lemma sv_resize_ok:
  assumes "sv_rep pre s xs"
  shows "grows_to pre e n s (take n xs @ replicate (n - length xs) x) (sv_resize pre e n x s)"
  using assms
proof (cases rule: sv_rep_cases)
  case small
  note f = small_facts[OF small(2)]
  obtain s1 where s1: "shrink_loop pre n s = Some s1" "small_rep pre (take n xs) s1" "length xs \<le> n \<longrightarrow> s1 = s"
    using shrink_loop_ok[OF small(2)] by blast
  show ?thesis
  proof (cases "n \<le> pre")
    case True
    obtain s2 where s2: "grow_loop pre n x s1 = Some s2" "small_rep pre (take n xs @ replicate (n - length (take n xs)) x) s2"
      using grow_loop_ok[OF s1(2) True small(1)] by blast
    have "n - length (take n xs) = n - length xs" by simp
    then show ?thesis using s1 s2 True f(1) grows_small[OF small(1) _ True, of "take n xs @ replicate (n - length xs) x" s2 s e] cap_small[OF small(2)] by (simp add: sv_resize_def)
  next
    case False
    then have l: "length xs \<le> n" "s1 = s" using f(4) s1(3) by simp_all
    then have "sv_resize pre e n x s = make_vector pre e n s \<bind> (\<lambda>(out, s). if out = Bad_alloc then Some (Bad_alloc, s) else on_vector pre (vec_resize e n x) s)"
      using f(1) s1(1) False by (simp add: sv_resize_def)
    then show ?thesis using make_vector_then[OF small, of n "vec_resize e n x" _ _ e] False l(1) by (simp add: vec_resize_def)
  qed
next
  case (big v)
  have r: "sv_resize pre e n x s = on_vector pre (vec_resize e n x) s" using big_facts[OF big(2)] by (simp add: sv_resize_def)
  have len: "length (take n xs @ replicate (n - length xs) x) = n" by simp
  let ?m = "max n (vec_grow e (vec_cap v))"
  consider "n \<le> vec_cap v" | "vec_cap v < n" "can_alloc e ?m" | "vec_cap v < n" "\<not> can_alloc e ?m" by linarith
  then show ?thesis
  proof cases
    case 1
    then show ?thesis unfolding r using len big(3) cap_big[OF big(2)]
      by (intro grows_vector[OF big(1,2), where v' = "v\<lparr>vec_elems := take n xs @ replicate (n - length xs) x\<rparr>"]) (simp_all add: vec_resize_def)
  next
    case 2
    then show ?thesis unfolding r using len big(3) cap_big[OF big(2)]
      by (intro grows_vector[OF big(1,2), where v' = "\<lparr>vec_elems = take n xs @ replicate (n - length xs) x, vec_cap = ?m\<rparr>"])
        (simp_all add: vec_resize_def vec_reserve_def)
  next
    case 3
    then show ?thesis unfolding r by (intro grows_fails[OF big(2), where m = ?m]) (simp_all add: vec_resize_def vec_reserve_def)
  qed
qed

lemma sv_clear_ok:
  assumes "sv_rep pre s xs"
  shows "\<exists>s'. sv_clear pre e x s = Some (Normal, s') \<and> sv_rep pre s' [] \<and> cap pre s' = cap pre s"
    and "\<exists>s'. sv_clear_and_release pre e x s = Some (Normal, s') \<and> sv_rep pre s' [] \<and> cap pre s' \<le> pre"
    and "sv_destruct pre e x s = Some (replicate pre None)"
proof -
  have small: "\<exists>s'. sv_resize pre e 0 x s = Some (Normal, s') \<and> small_rep pre [] s'" if "small_rep pre xs s"
  proof -
    obtain s1 where s1: "shrink_loop pre 0 s = Some s1" "small_rep pre [] s1" using shrink_loop_ok[of pre xs s 0] \<open>small_rep pre xs s\<close> by auto
    moreover have "grow_loop pre 0 x s1 = Some s1" by (subst grow_loop.simps) simp
    ultimately show ?thesis using small_facts(1)[OF \<open>small_rep pre xs s\<close>] by (simp add: sv_resize_def)
  qed
  have pre: "pre < 255" using assms by (simp add: sv_rep_def)
  have goal: "(\<exists>s'. sv_clear pre e x s = Some (Normal, s') \<and> sv_rep pre s' [] \<and> cap pre s' = cap pre s)
      \<and> (\<exists>s'. sv_clear_and_release pre e x s = Some (Normal, s') \<and> sv_rep pre s' [] \<and> cap pre s' \<le> pre)
      \<and> sv_destruct pre e x s = Some (replicate pre None)"
    using assms
  proof (cases rule: sv_rep_cases)
    case small
    then show ?thesis using \<open>small_rep pre xs s \<Longrightarrow> _\<close> small_facts(1)[OF small(2)]
      by (auto simp: sv_clear_def sv_clear_and_release_def sv_destruct_def cap_small[OF small(2)] cap_small intro: sv_rep_small dest: small_facts(2))
  next
    case (big v)
    let ?v = "v\<lparr>vec_elems := []\<rparr>" and ?w = "\<lparr>vec_elems = [], vec_cap = 0\<rparr>"
    have "big_rep pre ?v (s\<lparr>m_buffer := Vector ?v\<rparr>)" "big_rep pre ?w (s\<lparr>m_buffer := Vector ?w\<rparr>)"
      using big_rep_upd[OF big(2)] by simp_all
    then have "sv_rep pre (s\<lparr>m_buffer := Vector ?v\<rparr>) []" "sv_rep pre (s\<lparr>m_buffer := Vector ?w\<rparr>) []"
      using sv_rep_big[OF pre] by fastforce+
    then show ?thesis using big_facts[OF big(2)] on_vector_ok[OF big(2)]
      by (simp add: sv_clear_def sv_clear_and_release_def sv_destruct_def cap_def cap_big[OF big(2), unfolded cap_def])
  qed
  then show "\<exists>s'. sv_clear pre e x s = Some (Normal, s') \<and> sv_rep pre s' [] \<and> cap pre s' = cap pre s"
    and "\<exists>s'. sv_clear_and_release pre e x s = Some (Normal, s') \<and> sv_rep pre s' [] \<and> cap pre s' \<le> pre"
    and "sv_destruct pre e x s = Some (replicate pre None)" by blast+
qed

subsection \<open>Refinement of a list\<close>

datatype 'a sv_call =
    PushBack 'a | PopBack | Resize nat 'a | Reserve nat | Clear 'a | ClearAndRelease 'a | Assign nat 'a

fun sv_do :: "nat \<Rightarrow> mem_env \<Rightarrow> 'a sv_call \<Rightarrow> 'a small_vector \<Rightarrow> (alloc_result \<times> 'a small_vector) option" where
  "sv_do pre e (PushBack x) s = sv_push_back pre e x s"
| "sv_do pre e PopBack s = map_option (Pair Normal) (sv_pop_back pre s)"
| "sv_do pre e (Resize n x) s = sv_resize pre e n x s"
| "sv_do pre e (Reserve n) s = sv_reserve pre e n s"
| "sv_do pre e (Clear x) s = sv_clear pre e x s"
| "sv_do pre e (ClearAndRelease x) s = sv_clear_and_release pre e x s"
| "sv_do pre e (Assign i x) s = map_option (Pair Normal) (sv_assign pre i x s)"

text \<open>The reference: what the call does to a list, and how much room it needs.\<close>

fun sv_spec :: "'a sv_call \<Rightarrow> 'a list \<Rightarrow> 'a list option" where
  "sv_spec (PushBack x) xs = Some (xs @ [x])"
| "sv_spec PopBack xs = (if xs = [] then None else Some (butlast xs))"
| "sv_spec (Resize n x) xs = Some (take n xs @ replicate (n - length xs) x)"
| "sv_spec (Reserve n) xs = Some xs"
| "sv_spec (Clear x) xs = Some []"
| "sv_spec (ClearAndRelease x) xs = Some []"
| "sv_spec (Assign i x) xs = (if i < length xs then Some (xs[i := x]) else None)"

fun sv_need :: "'a sv_call \<Rightarrow> 'a list \<Rightarrow> nat" where
  "sv_need (PushBack x) xs = Suc (length xs)"
| "sv_need (Resize n x) xs = n"
| "sv_need (Reserve n) xs = n"
| "sv_need _ xs = 0"

definition keeps_room :: "'a sv_call \<Rightarrow> bool" where
  "keeps_room c \<longleftrightarrow> (case c of ClearAndRelease _ \<Rightarrow> False | _ \<Rightarrow> True)"

lemma grows_to_0: "r = Some (Normal, s') \<Longrightarrow> sv_rep pre s' ys \<Longrightarrow> cap pre s' = cap pre s \<Longrightarrow> grows_to pre e 0 s ys r"
  by (auto simp: grows_to_def)

lemma sv_do_ok:
  assumes "sv_rep pre s xs"
  shows "case sv_spec c xs of None \<Rightarrow> sv_do pre e c s = None 
     | Some ys \<Rightarrow> (if keeps_room c then grows_to pre e (sv_need c xs) s ys (sv_do pre e c s)
                    else \<exists>s'. sv_do pre e c s = Some (Normal, s') \<and> sv_rep pre s' ys)"
proof (cases c)
  case (PushBack x)
  then show ?thesis using sv_push_back_ok[OF assms] by (simp add: keeps_room_def)
next
  case PopBack
  then show ?thesis using sv_pop_back_ok[OF assms] by (cases "xs = []") (auto simp: keeps_room_def intro: grows_to_0)
next
  case (Resize n x)
  then show ?thesis using sv_resize_ok[OF assms] by (simp add: keeps_room_def)
next
  case (Reserve n)
  then show ?thesis using sv_reserve_ok[OF assms] by (simp add: keeps_room_def)
next
  case (Clear x)
  then show ?thesis using sv_clear_ok(1)[OF assms, of e x] by (auto simp: keeps_room_def intro: grows_to_0)
next
  case (ClearAndRelease x)
  then show ?thesis using sv_clear_ok(2)[OF assms, of e x] by (auto simp: keeps_room_def)
next
  case (Assign i x)
  then show ?thesis using sv_assign_ok[OF assms, of i x] by (cases "i < length xs") (auto simp: keeps_room_def intro: grows_to_0)
qed

text \<open>
  C29. A \<^verbatim>\<open>small_vector\<close> behaves like a list, whether its elements are in the buffer or in a \<^verbatim>\<open>std::vector\<close> and whenever it changes
  from one to the other: no call destroys or reads an object that is not there or leaves one behind, a call traps exactly when it is not
  allowed on the list, and the accessors return what the list has. Memory can run out only when the call needs more
  room than the capacity; then nothing has changed. The capacity shrinks only when it is asked for.
\<close>

theorem small_vector_refines:
  assumes "sv_rep pre s xs"
  shows "(case sv_spec c xs of
       None \<Rightarrow> sv_do pre e c s = None
     | Some ys \<Rightarrow> (\<exists>s'. sv_do pre e c s = Some (Normal, s') \<and> sv_rep pre s' ys
            \<and> (keeps_room c \<longrightarrow> sv_need c xs \<le> cap pre s' \<and> cap pre s \<le> cap pre s'))
         \<or> (sv_do pre e c s = Some (Bad_alloc, s) \<and> cap pre s < sv_need c xs \<and> (\<exists>m \<ge> sv_need c xs. \<not> can_alloc e m)))
    \<and> sv_size pre s = Some (length xs) \<and> sv_empty pre s = Some (xs = []) \<and> sv_capacity pre s = Some (cap pre s)
    \<and> (\<forall>i. sv_at pre i s = (if i < length xs then Some (xs ! i) else None))
    \<and> sv_back pre s = (if xs = [] then None else Some (last xs))
    \<and> sv_destruct pre e x s = Some (replicate pre None)
    \<and> sv_rep pre (sv_init pre) []"
proof -
  note obs = sv_size_ok[OF assms] sv_empty_ok[OF assms] sv_capacity_ok[OF assms] sv_at_ok[OF assms]
  have "sv_back pre s = (if xs = [] then None else Some (last xs))"
    using obs by (simp add: sv_back_def zth_assert_def last_conv_nth)
  moreover have "pre < 255" using assms by (simp add: sv_rep_def)
  moreover have "case sv_spec c xs of
       None \<Rightarrow> sv_do pre e c s = None
     | Some ys \<Rightarrow> (\<exists>s'. sv_do pre e c s = Some (Normal, s') \<and> sv_rep pre s' ys
            \<and> (keeps_room c \<longrightarrow> sv_need c xs \<le> cap pre s' \<and> cap pre s \<le> cap pre s'))
         \<or> (sv_do pre e c s = Some (Bad_alloc, s) \<and> cap pre s < sv_need c xs \<and> (\<exists>m \<ge> sv_need c xs. \<not> can_alloc e m))"
    using sv_do_ok[OF assms, where c = c and e = e] by (auto simp: grows_to_def split: option.splits if_splits)
  ultimately show ?thesis using obs sv_clear_ok(3)[OF assms] sv_rep_init by blast
qed

definition plenty :: mem_env where
  "plenty = \<lparr>can_alloc = \<lambda>_. True, vec_grow = \<lambda>n. 2 * n\<rparr>"

theorem small_vector_refines_witness:
  "\<exists>s. sv_do 3 plenty (Resize 5 (7 :: nat)) (sv_init 3) = Some (Normal, s) \<and> sv_rep 3 s [7, 7, 7, 7, 7]"
  using small_vector_refines[OF sv_rep_init[of 3], where c = "Resize 5 (7 :: nat)" and e = plenty and x = 7] by (auto simp: plenty_def numeral_eq_Suc)

text \<open>The buffer has room for what was asked, and for a \<^verbatim>\<open>std::vector\<close>.\<close>

lemma prealloc_enough: "0 < sz \<Longrightarrow> nat p \<le> prealloc p sz vs"
  using div_le_mono[of "nat p * sz" "max (nat p * sz) vs" sz] by (auto simp: prealloc_def Let_def max_def split: if_splits)

subsection \<open>What the users of a vector rely on\<close>

text \<open>A search from the back, as the loops in the poller do: one more than the index, or 0.\<close>

fun find_from_back :: "(nat \<Rightarrow> 'x option) \<Rightarrow> 'x \<Rightarrow> nat \<Rightarrow> nat option" where
  "find_from_back get x 0 = Some 0"
| "find_from_back get x (Suc i) = do { y \<leftarrow> get i; if y = x then Some (Suc i) else find_from_back get x i }"

fun list_find_back :: "'x \<Rightarrow> 'x list \<Rightarrow> nat \<Rightarrow> nat" where
  "list_find_back x xs 0 = 0"
| "list_find_back x xs (Suc i) = (if xs ! i = x then Suc i else list_find_back x xs i)"

lemma list_find_back_le: "list_find_back x xs n \<le> n"
  by (induction n) auto

text \<open>The interface of a vector, without the operations that need memory.\<close>

locale dyn_array =
  fixes rep :: "'s \<Rightarrow> 'x list \<Rightarrow> bool"
    and get :: "nat \<Rightarrow> 's \<Rightarrow> 'x option"
    and get_last :: "'s \<Rightarrow> 'x option"
    and put :: "nat \<Rightarrow> 'x \<Rightarrow> 's \<Rightarrow> 's option"
    and drop_last :: "'s \<Rightarrow> 's option"
  assumes get_law: "rep s xs \<Longrightarrow> i < length xs \<Longrightarrow> get i s = Some (xs ! i)"
    and last_law: "rep s xs \<Longrightarrow> xs \<noteq> [] \<Longrightarrow> get_last s = Some (last xs)"
    and put_law: "rep s xs \<Longrightarrow> i < length xs \<Longrightarrow> \<exists>s'. put i x s = Some s' \<and> rep s' (xs[i := x])"
    and drop_law: "rep s xs \<Longrightarrow> xs \<noteq> [] \<Longrightarrow> \<exists>s'. drop_last s = Some s' \<and> rep s' (butlast xs)"
begin

text \<open>Removing an element by filling its place with the last one.\<close>

lemma fill_gap:
  assumes "rep s xs" "i < length xs"
  shows "\<exists>s'. get_last s \<bind> (\<lambda>x. put i x s \<bind> drop_last) = Some s' \<and> rep s' (butlast (xs[i := last xs]))"
proof -
  have ne: "xs \<noteq> []" using assms(2) by auto
  obtain s1 where s1: "put i (last xs) s = Some s1" "rep s1 (xs[i := last xs])" using put_law[OF assms] by blast
  obtain s2 where "drop_last s1 = Some s2" "rep s2 (butlast (xs[i := last xs]))" using drop_law[OF s1(2)] ne by auto
  then show ?thesis using last_law[OF assms(1) ne] s1(1) by simp
qed

lemma find_back: "rep s xs \<Longrightarrow> n \<le> length xs \<Longrightarrow> find_from_back (\<lambda>i. get i s) x n = Some (list_find_back x xs n)"
  by (induction n) (auto simp: get_law)

end

interpretation sv: dyn_array "sv_rep pre" "sv_at pre" "sv_back pre" "sv_assign pre" "sv_pop_back pre" for pre
proof
  fix s and xs :: "'a list" and i x
  assume r: "sv_rep pre s xs"
  show "i < length xs \<Longrightarrow> sv_at pre i s = Some (xs ! i)" using sv_at_ok[OF r] by simp
  show "xs \<noteq> [] \<Longrightarrow> sv_back pre s = Some (last xs)"
    using sv_size_ok[OF r] sv_empty_ok[OF r] sv_at_ok[OF r] by (simp add: sv_back_def last_conv_nth)
  show "i < length xs \<Longrightarrow> \<exists>s'. sv_assign pre i x s = Some s' \<and> sv_rep pre s' (xs[i := x])" using sv_assign_ok[OF r, of i x] by auto
  show "xs \<noteq> [] \<Longrightarrow> \<exists>s'. sv_pop_back pre s = Some s' \<and> sv_rep pre s' (butlast xs)" using sv_pop_back_ok[OF r] by auto
qed

subsection \<open>A limit\<close>

text \<open>
  \<^verbatim>\<open>push_back(v[i])\<close>: the argument is a reference to an element, which is read after \<^verbatim>\<open>reserve()\<close>. It refers to raw memory or to a block
  that was freed if the elements have moved.
\<close>

definition sv_push_back_own :: "nat \<Rightarrow> mem_env \<Rightarrow> nat \<Rightarrow> 'a small_vector \<Rightarrow> (alloc_result \<times> 'a small_vector) option" where
  "sv_push_back_own pre e i s = do {
     n \<leftarrow> sv_size pre s;
     zth_assert (i < n);
     (out, s1) \<leftarrow> sv_reserve pre e (n + 1) s;
     if out = Bad_alloc then Some (Bad_alloc, s1)
     else do {
       zth_assert (is_small pre s = is_small pre s1 \<and> sv_capacity pre s = sv_capacity pre s1);
       x \<leftarrow> sv_at pre i s1;
       sv_push_back pre e x s1
     }
   }"

text \<open>
  Unlike that of \<^verbatim>\<open>std::vector\<close>, \<^verbatim>\<open>push_back\<close> of an own element is an error when the vector is full.
\<close>

theorem push_back_own_dangles:
  assumes "sv_rep pre s xs" "length xs = cap pre s" "\<forall>n. can_alloc e n" "i < length xs"
  shows "sv_push_back_own pre e i s = None"
proof -
  have n: "sv_size pre s = Some (length xs)" by (rule sv_size_ok[OF assms(1)])
  obtain s' where s': "sv_reserve pre e (Suc (length xs)) s = Some (Normal, s')" "sv_rep pre s' xs" "Suc (length xs) \<le> cap pre s'"
    using sv_reserve_ok[OF assms(1), of e "Suc (length xs)"] assms(3) by (auto simp: grows_to_def)
  have "sv_capacity pre s \<noteq> sv_capacity pre s'" using sv_capacity_ok[OF assms(1)] sv_capacity_ok[OF s'(2)] s'(3) assms(2) by simp
  then show ?thesis using n s'(1) assms(4) by (simp add: sv_push_back_own_def zth_assert_def)
qed

end
