(* ===== verification/Zth_PollerStore.thy ===== *)
theory Zth_PollerStore
  imports Zth_SmallVector Zth_Poller
begin

section \<open>The memory of the poller\<close>

text \<open>
  In \<^verbatim>\<open>Zth_Poller\<close> the lists of the server and of a client are lists. In the code they are \<^verbatim>\<open>small_vector\<close>s, which can run out
  of memory. Here the operations of \<^verbatim>\<open>poller.h\<close> and \<^verbatim>\<open>poller.cpp\<close> on their lists are written with the operations of
  \<open>Zth_SmallVector\<close>, and shown to do what \<open>Zth_Poller\<close> does, with \<^verbatim>\<open>ENOMEM\<close> exactly where an allocation can fail.
  \<^verbatim>\<open>mirror()\<close> is \<^verbatim>\<open>noexcept\<close> and resizes a vector; that it never throws rests on the memory that \<^verbatim>\<open>add()\<close> has reserved.
\<close>

subsection \<open>The server\<close>

record store =
  st_meta :: "metaitem small_vector"
  st_items :: "pollfd small_vector"

text \<open>\<open>mp\<close> and \<open>ip\<close> are the number of elements in the buffers, and \<open>x0\<close>, \<open>m0\<close> the values of a default constructor.\<close>

definition store_add :: "nat \<Rightarrow> nat \<Rightarrow> mem_env \<Rightarrow> metaitem \<Rightarrow> store \<Rightarrow> (errno \<times> store) option" where
  "store_add mp ip e m q = do {
     (o1, ms) \<leftarrow> sv_push_back mp e m (st_meta q);
     if o1 = Bad_alloc then Some (ENOMEM, q\<lparr>st_meta := ms\<rparr>)
     else do {
       n \<leftarrow> sv_size mp ms;
       (o2, xs) \<leftarrow> sv_reserve ip e n (st_items q);
       if o2 = Bad_alloc then do {
         ms \<leftarrow> sv_pop_back mp ms;
         Some (ENOMEM, \<lparr>st_meta = ms, st_items = xs\<rparr>)
       }
       else do {
         k \<leftarrow> sv_size ip xs;
         zth_assert (n \<ge> k);
         Some (E_OK, \<lparr>st_meta = ms, st_items = xs\<rparr>)
       }
     }
   }"

definition store_reserve :: "nat \<Rightarrow> nat \<Rightarrow> mem_env \<Rightarrow> nat \<Rightarrow> store \<Rightarrow> (alloc_result \<times> store) option" where
  "store_reserve mp ip e extra q = do {
     n \<leftarrow> sv_size mp (st_meta q);
     (o1, ms) \<leftarrow> sv_reserve mp e (n + extra) (st_meta q);
     if o1 = Bad_alloc then Some (Bad_alloc, q\<lparr>st_meta := ms\<rparr>)
     else do {
       c \<leftarrow> sv_capacity mp ms;
       (o2, xs) \<leftarrow> sv_reserve ip e c (st_items q);
       Some (o2, \<lparr>st_meta = ms, st_items = xs\<rparr>)
     }
   }"

definition store_clear :: "nat \<Rightarrow> nat \<Rightarrow> mem_env \<Rightarrow> metaitem \<Rightarrow> pollfd \<Rightarrow> store \<Rightarrow> store option" where
  "store_clear mp ip e m0 x0 q = do {
     (_, ms) \<leftarrow> sv_clear mp e m0 (st_meta q);
     (_, xs) \<leftarrow> sv_clear ip e x0 (st_items q);
     Some \<lparr>st_meta = ms, st_items = xs\<rparr>
   }"

text \<open>\<^verbatim>\<open>remove(last)\<close>; an exception of \<^verbatim>\<open>resize\<close> in a \<^verbatim>\<open>noexcept\<close> function ends the program (\<open>None\<close>).\<close>

definition no_throw :: "(alloc_result \<times> 'a) option \<Rightarrow> 'a option" where
  "no_throw r = do { (out, s) \<leftarrow> r; zth_assert (out = Normal); Some s }"

definition store_remove_last :: "nat \<Rightarrow> nat \<Rightarrow> mem_env \<Rightarrow> metaitem \<Rightarrow> pollfd \<Rightarrow> nat \<Rightarrow> store \<Rightarrow> store option" where
  "store_remove_last mp ip e m0 x0 cnt q = do {
     n \<leftarrow> sv_size mp (st_meta q);
     if cnt \<ge> n then store_clear mp ip e m0 x0 q
     else do {
       ms \<leftarrow> no_throw (sv_resize mp e (n - cnt) m0 (st_meta q));
       n \<leftarrow> sv_size mp ms;
       k \<leftarrow> sv_size ip (st_items q);
       xs \<leftarrow> (if k > n then no_throw (sv_resize ip e n x0 (st_items q)) else Some (st_items q));
       Some \<lparr>st_meta = ms, st_items = xs\<rparr>
     }
   }"

text \<open>\<^verbatim>\<open>v[i] = v.back(); v.pop_back()\<close>, and what \<^verbatim>\<open>remove()\<close> does with the items.\<close>

definition vec_fill_gap :: "nat \<Rightarrow> nat \<Rightarrow> 'a small_vector \<Rightarrow> 'a small_vector option" where
  "vec_fill_gap pre i s = do { x \<leftarrow> sv_back pre s; s \<leftarrow> sv_assign pre i x s; sv_pop_back pre s }"

definition items_fill_gap :: "nat \<Rightarrow> nat \<Rightarrow> pollfd small_vector \<Rightarrow> pollfd small_vector option" where
  "items_fill_gap ip i xs = do {
     k \<leftarrow> sv_size ip xs;
     if i < k then (if i < k - 1 then vec_fill_gap ip i xs else sv_pop_back ip xs)
     else Some xs
   }"

definition store_remove :: "nat \<Rightarrow> nat \<Rightarrow> mem_env \<Rightarrow> metaitem \<Rightarrow> pollfd \<Rightarrow> metaitem \<Rightarrow> store \<Rightarrow> (errno \<times> store) option" where
  "store_remove mp ip e m0 x0 m q = do {
     cnt \<leftarrow> sv_size mp (st_meta q);
     i \<leftarrow> find_from_back (\<lambda>i. sv_at mp i (st_meta q)) m cnt;
     if i = 0 then Some (ESRCH, q)
     else do {
       let i = i - 1;
       q \<leftarrow> (if i < cnt - 1 then do {
           xs \<leftarrow> items_fill_gap ip i (st_items q);
           ms \<leftarrow> vec_fill_gap mp i (st_meta q);
           Some \<lparr>st_meta = ms, st_items = xs\<rparr>
         }
         else store_remove_last mp ip e m0 x0 1 q);
       n \<leftarrow> sv_size mp (st_meta q);
       k \<leftarrow> sv_size ip (st_items q);
       zth_assert (n \<ge> k);
       Some (E_OK, q)
     }
   }"

text \<open>\<^verbatim>\<open>mirror()\<close>: the new items are default constructed first and initialised in place.\<close>

fun init_loop ::
  "nat \<Rightarrow> nat \<Rightarrow> mem_env \<Rightarrow> pollfd \<Rightarrow> (metaitem \<Rightarrow> errno + pollfd) \<Rightarrow> metaitem small_vector \<Rightarrow> nat list \<Rightarrow> pollfd small_vector
     \<Rightarrow> (errno \<times> pollfd small_vector) option" where
  "init_loop mp ip e x0 ini ms [] xs = Some (E_OK, xs)"
| "init_loop mp ip e x0 ini ms (i # is) xs = do {
     m \<leftarrow> sv_at mp i ms;
     case ini m of
       Inl res \<Rightarrow> do { xs \<leftarrow> no_throw (sv_resize ip e i x0 xs); Some (res, xs) }
     | Inr x \<Rightarrow> do { xs \<leftarrow> sv_assign ip i x xs; init_loop mp ip e x0 ini ms is xs }
   }"

definition store_mirror ::
  "nat \<Rightarrow> nat \<Rightarrow> mem_env \<Rightarrow> pollfd \<Rightarrow> (metaitem \<Rightarrow> errno + pollfd) \<Rightarrow> store \<Rightarrow> (errno \<times> store) option" where
  "store_mirror mp ip e x0 ini q = do {
     doInit \<leftarrow> sv_size ip (st_items q);
     n \<leftarrow> sv_size mp (st_meta q);
     xs \<leftarrow> no_throw (sv_resize ip e n x0 (st_items q));
     (res, xs) \<leftarrow> init_loop mp ip e x0 ini (st_meta q) [doInit..<n] xs;
     k \<leftarrow> sv_size ip xs;
     zth_assert (n = k);
     Some (res, q\<lparr>st_items := xs\<rparr>)
   }"

subsection \<open>The client\<close>

definition vec_client_add :: "nat \<Rightarrow> mem_env \<Rightarrow> addr \<Rightarrow> addr small_vector \<Rightarrow> addr small_vector \<Rightarrow> (errno \<times> addr small_vector \<times> addr small_vector) option" where
  "vec_client_add pre e p ps res = do {
     n \<leftarrow> sv_size pre ps;
     (o1, res) \<leftarrow> sv_reserve pre e (n + 1) res;
     if o1 = Bad_alloc then Some (ENOMEM, ps, res)
     else do {
       (o2, ps) \<leftarrow> sv_push_back pre e p ps;
       Some (if o2 = Bad_alloc then ENOMEM else E_OK, ps, res)
     }
   }"

definition vec_client_remove :: "nat \<Rightarrow> addr \<Rightarrow> addr small_vector \<Rightarrow> (errno \<times> addr small_vector) option" where
  "vec_client_remove pre p ps = do {
     n \<leftarrow> sv_size pre ps;
     i \<leftarrow> find_from_back (\<lambda>i. sv_at pre i ps) p n;
     if i = 0 then Some (EAGAIN, ps)
     else do {
       ps \<leftarrow> vec_fill_gap pre (i - 1) ps;
       Some (E_OK, ps)
     }
   }"

subsection \<open>Vectors that have room\<close>

lemma sv_len_cap: "sv_rep pre s xs \<Longrightarrow> length xs \<le> cap pre s"
  by (cases rule: sv_rep_cases, assumption) (auto simp: cap_small cap_big small_facts(4) big_rep_def)

lemma sv_resize_room:
  assumes "sv_rep pre s xs" "n \<le> cap pre s"
  shows "\<exists>s'. sv_resize pre e n x s = Some (Normal, s') \<and> sv_rep pre s' (take n xs @ replicate (n - length xs) x) \<and> cap pre s \<le> cap pre s'"
  using sv_resize_ok[OF assms(1), of e n x] assms(2) by (auto simp: grows_to_def)

lemma sv_resize_no_throw:
  assumes "sv_rep pre s xs" "n \<le> cap pre s"
  shows "\<exists>s'. no_throw (sv_resize pre e n x s) = Some s' \<and> sv_rep pre s' (take n xs @ replicate (n - length xs) x) \<and> cap pre s \<le> cap pre s'"
  using sv_resize_room[OF assms, of e x] by (auto simp: no_throw_def)

lemma sv_fill_gap:
  assumes "sv_rep pre s xs" "i < length xs"
  shows "\<exists>s'. vec_fill_gap pre i s = Some s'
    \<and> sv_rep pre s' (butlast (xs[i := last xs])) \<and> cap pre s' = cap pre s"
proof -
  obtain s' where s': "sv_back pre s \<bind> (\<lambda>x. sv_assign pre i x s \<bind> sv_pop_back pre) = Some s'" "sv_rep pre s' (butlast (xs[i := last xs]))"
    using sv.fill_gap[OF assms] by blast
  then obtain x s1 where 1: "sv_assign pre i x s = Some s1" "sv_pop_back pre s1 = Some s'" by (auto split: bind_splits)
  have "sv_rep pre s1 (xs[i := x])" "cap pre s1 = cap pre s" using sv_assign_ok[OF assms(1), of i x] assms(2) 1(1) by auto
  then show ?thesis using s' 1(2) sv_pop_back_ok[of pre s1 "xs[i := x]"] by (auto simp: vec_fill_gap_def split: if_splits)
qed

subsection \<open>The server\<close>

text \<open>
  The vectors hold the lists of the server; there is an item for at most every registration, and memory for an item of
  each of them.
\<close>

definition store_rep :: "nat \<Rightarrow> nat \<Rightarrow> store \<Rightarrow> server \<Rightarrow> bool" where
  "store_rep mp ip q sv \<longleftrightarrow> sv_rep mp (st_meta q) (m_metaItems sv) \<and> sv_rep ip (st_items q) (m_pollItems sv)
     \<and> length (m_pollItems sv) \<le> length (m_metaItems sv) \<and> length (m_metaItems sv) \<le> cap ip (st_items q)"

lemma store_rep_init:
  assumes "mp < 255" "ip < 255"
  shows "store_rep mp ip \<lparr>st_meta = sv_init mp, st_items = sv_init ip\<rparr> PollerServer"
  using sv_rep_init[OF assms(1)] sv_rep_init[OF assms(2)] by (simp add: store_rep_def PollerServer_def)

lemma store_repD:
  assumes "store_rep mp ip q sv"
  shows "sv_rep mp (st_meta q) (m_metaItems sv)" "sv_rep ip (st_items q) (m_pollItems sv)"
    "length (m_pollItems sv) \<le> length (m_metaItems sv)" "length (m_metaItems sv) \<le> cap ip (st_items q)"
    "sv_size mp (st_meta q) = Some (length (m_metaItems sv))" "sv_size ip (st_items q) = Some (length (m_pollItems sv))"
  using assms sv_size_ok by (auto simp: store_rep_def)

lemma store_add_ok:
  assumes "store_rep mp ip q sv"
  obtains q' where "store_add mp ip e m q = Some (E_OK, q')" "store_rep mp ip q' (sv\<lparr>m_metaItems := m_metaItems sv @ [m]\<rparr>)"
  | q' where "store_add mp ip e m q = Some (ENOMEM, q')" "store_rep mp ip q' sv" "\<exists>n. \<not> can_alloc e n"
proof -
  let ?n = "Suc (length (m_metaItems sv))"
  note r = assms[unfolded store_rep_def]
  have q: "q\<lparr>st_meta := st_meta q\<rparr> = q" by simp
  consider (no) "sv_push_back mp e m (st_meta q) = Some (Bad_alloc, st_meta q)" "\<exists>n. \<not> can_alloc e n"
    | (yes) ms where "sv_push_back mp e m (st_meta q) = Some (Normal, ms)" "sv_rep mp ms (m_metaItems sv @ [m])"
    using sv_push_back_ok[of mp "st_meta q" "m_metaItems sv" e m] r unfolding grows_to_def by blast
  then show thesis
  proof cases
    case no
    then show thesis using that(2)[of q] assms q by (simp add: store_add_def)
  next
    case yes
    have n: "sv_size mp ms = Some ?n" using sv_size_ok[OF yes(2)] by simp
    consider (no2) "sv_reserve ip e ?n (st_items q) = Some (Bad_alloc, st_items q)" "\<exists>n. \<not> can_alloc e n"
      | (yes2) xs where "sv_reserve ip e ?n (st_items q) = Some (Normal, xs)" "sv_rep ip xs (m_pollItems sv)" "?n \<le> cap ip xs"
      using sv_reserve_ok[of ip "st_items q" "m_pollItems sv" e ?n] r unfolding grows_to_def by blast
    then show thesis
    proof cases
      case no2
      obtain ms' where "sv_pop_back mp ms = Some ms'" "sv_rep mp ms' (m_metaItems sv)" using sv_pop_back_ok[OF yes(2)] by auto
      then show thesis using that(2)[of "\<lparr>st_meta = ms', st_items = st_items q\<rparr>"] no2 yes n r by (simp add: store_add_def store_rep_def)
    next
      case yes2
      then show thesis using that(1)[of "\<lparr>st_meta = ms, st_items = xs\<rparr>"] yes n r sv_size_ok[OF yes2(2)]
        by (simp add: store_add_def store_rep_def)
    qed
  qed
qed

lemma store_clear_ok:
  assumes "store_rep mp ip q sv"
  shows "\<exists>q'. store_clear mp ip e m0 x0 q = Some q' \<and> store_rep mp ip q' (server_clear sv)"
proof -
  note r = store_repD[OF assms]
  obtain ms where "sv_clear mp e m0 (st_meta q) = Some (Normal, ms)" "sv_rep mp ms []" using sv_clear_ok(1)[OF r(1)] by blast
  moreover obtain xs where "sv_clear ip e x0 (st_items q) = Some (Normal, xs)" "sv_rep ip xs []" using sv_clear_ok(1)[OF r(2)] by blast
  ultimately show ?thesis by (simp add: store_clear_def store_rep_def server_clear_def)
qed

lemma store_remove_last_ok:
  assumes "store_rep mp ip q sv"
  shows "\<exists>q'. store_remove_last mp ip e m0 x0 n q = Some q' \<and> store_rep mp ip q' (server_remove_last n sv)"
proof (cases "n \<ge> length (m_metaItems sv)")
  case True
  then show ?thesis using store_clear_ok[OF assms, of e m0 x0] store_repD(5)[OF assms] by (simp add: store_remove_last_def server_remove_last_def)
next
  case False
  note r = store_repD[OF assms]
  let ?k = "length (m_metaItems sv) - n"
  have k: "?k \<le> length (m_metaItems sv)" by simp
  then have "?k \<le> cap mp (st_meta q)" using sv_len_cap[OF r(1)] by linarith
  then obtain ms where ms: "no_throw (sv_resize mp e ?k m0 (st_meta q)) = Some ms" "sv_rep mp ms (take ?k (m_metaItems sv))"
    using sv_resize_no_throw[OF r(1), of ?k e m0] by auto
  have n: "sv_size mp ms = Some ?k" using sv_size_ok[OF ms(2)] by simp
  obtain xs where xs: "(if length (m_pollItems sv) > ?k then no_throw (sv_resize ip e ?k x0 (st_items q)) else Some (st_items q)) = Some xs"
      "sv_rep ip xs (if length (m_pollItems sv) > ?k then take ?k (m_pollItems sv) else m_pollItems sv)" "?k \<le> cap ip xs"
  proof (cases "length (m_pollItems sv) > ?k")
    case True
    have c: "?k \<le> cap ip (st_items q)" using k r(4) by linarith
    then obtain xs where "no_throw (sv_resize ip e ?k x0 (st_items q)) = Some xs" "sv_rep ip xs (take ?k (m_pollItems sv))" "?k \<le> cap ip xs"
      using sv_resize_no_throw[OF r(2) c, of e x0] True by auto
    then show thesis using that True by simp
  next
    case False
    then show thesis using that[of "st_items q"] r(2,4) k by simp
  qed
  have "store_remove_last mp ip e m0 x0 n q = Some \<lparr>st_meta = ms, st_items = xs\<rparr>"
    using ms(1) n xs(1) False r(5,6) by (simp add: store_remove_last_def)
  moreover have "store_rep mp ip \<lparr>st_meta = ms, st_items = xs\<rparr> (server_remove_last n sv)"
    using ms(2) xs(2,3) False by (simp add: store_rep_def server_remove_last_def Let_def)
  ultimately show ?thesis by blast
qed

lemma find_back_eq: "find_back m ms n = list_find_back m ms n"
  by (induction n) auto

lemma client_find_eq: "client_find p ps n = list_find_back p ps n"
  by (induction n) auto

text \<open>The list of items after the gap was filled; the two ways of the code are the same.\<close>

lemma items_gap:
  assumes "i < length xs"
  shows "butlast (if i < length xs - 1 then xs[i := last xs] else xs) = butlast (xs[i := last xs])"
proof (cases "i < length xs - 1")
  case False
  then have i: "i = length xs - 1" "xs \<noteq> []" using assms by auto
  then have "xs[i := last xs] = xs" by (simp add: last_conv_nth)
  then show ?thesis using False by simp
qed simp

lemma store_items_gap:
  assumes "store_rep mp ip q sv"
  shows "\<exists>xs. items_fill_gap ip i (st_items q) = Some xs \<and> cap ip xs = cap ip (st_items q)
    \<and> sv_rep ip xs (if i < length (m_pollItems sv) then butlast ((m_pollItems sv)[i := last (m_pollItems sv)]) else m_pollItems sv)"
proof -
  let ?xs = "m_pollItems sv"
  note r = store_repD(2)[OF assms] and n = store_repD(6)[OF assms]
  consider "length ?xs \<le> i" | "i < length ?xs - 1" | "i = length ?xs - 1" "i < length ?xs" by linarith
  then show ?thesis
  proof cases
    case 1
    then show ?thesis using r n by (simp add: items_fill_gap_def)
  next
    case 2
    then have i: "i < length ?xs" by linarith
    show ?thesis using sv_fill_gap[OF r i] n 2 i by (auto simp: items_fill_gap_def)
  next
    case 3
    have "sv_rep ip xs (butlast ?xs) \<Longrightarrow> sv_rep ip xs (butlast (?xs[i := last ?xs]))" for xs
      using items_gap[OF 3(2)] 3(1) by simp
    moreover have "?xs \<noteq> []" using 3(2) by auto
    ultimately show ?thesis using sv_pop_back_ok[OF r] n 3 by (auto simp: items_fill_gap_def)
  qed
qed

lemma store_remove_ok:
  assumes "store_rep mp ip q sv"
  shows "\<exists>res q' sv'. store_remove mp ip e m0 x0 (p, client) q = Some (res, q') \<and> server_remove p client sv = Some (res, sv') \<and> store_rep mp ip q' sv'"
proof -
  note r = store_repD[OF assms]
  let ?ms = "m_metaItems sv" and ?xs = "m_pollItems sv"
  define f where "f = list_find_back (p, client) ?ms (length ?ms)"
  have find: "find_from_back (\<lambda>i. sv_at mp i (st_meta q)) (p, client) (length ?ms) = Some f" "find_back (p, client) ?ms (length ?ms) = f"
    using sv.find_back[OF r(1) order_refl] by (simp_all add: f_def find_back_eq)
  have le: "f \<le> length ?ms" by (simp add: f_def list_find_back_le)
  consider (no) "f = 0" | (mid) "f \<noteq> 0" "f - 1 < length ?ms - 1" | (lst) "f \<noteq> 0" "\<not> f - 1 < length ?ms - 1" by blast
  then show ?thesis
  proof cases
    case no
    then show ?thesis using find r(5) assms by (simp add: store_remove_def server_remove_def Let_def)
  next
    case mid
    let ?ys = "if f - 1 < length ?xs then butlast (?xs[f - 1 := last ?xs]) else ?xs" and ?ns = "butlast (?ms[f - 1 := last ?ms])"
    obtain xs where xs: "items_fill_gap ip (f - 1) (st_items q) = Some xs" "cap ip xs = cap ip (st_items q)" "sv_rep ip xs ?ys"
      using store_items_gap[OF assms, of "f - 1"] by blast
    have i: "f - 1 < length ?ms" using mid by linarith
    obtain ms where ms: "vec_fill_gap mp (f - 1) (st_meta q) = Some ms" "sv_rep mp ms ?ns"
      using sv_fill_gap[OF r(1) i] by blast
    have len: "length ?ys \<le> length ?ns" using r(3) mid by auto
    have "store_remove mp ip e m0 x0 (p, client) q = Some (E_OK, \<lparr>st_meta = ms, st_items = xs\<rparr>)"
      using find mid r(5,6) xs(1) ms(1) sv_size_ok[OF xs(3)] sv_size_ok[OF ms(2)] len by (simp add: store_remove_def Let_def)
    moreover have "server_remove p client sv = Some (E_OK, sv\<lparr>m_metaItems := ?ns, m_pollItems := ?ys\<rparr>)"
      using find mid len items_gap[of "f - 1" ?xs] by (auto simp: server_remove_def Let_def split: if_splits)
    moreover have "store_rep mp ip \<lparr>st_meta = ms, st_items = xs\<rparr> (sv\<lparr>m_metaItems := ?ns, m_pollItems := ?ys\<rparr>)"
      using ms(2) xs(2,3) len r(4) by (simp add: store_rep_def)
    ultimately show ?thesis by blast
  next
    case lst
    obtain q' where q': "store_remove_last mp ip e m0 x0 1 q = Some q'" "store_rep mp ip q' (server_remove_last 1 sv)"
      using store_remove_last_ok[OF assms] by blast
    note r' = store_repD[OF q'(2)]
    have "store_remove mp ip e m0 x0 (p, client) q = Some (E_OK, q')" using find lst r(5) q'(1) r'(3,5,6) by (simp add: store_remove_def Let_def)
    moreover have "server_remove p client sv = Some (E_OK, server_remove_last 1 sv)" using find lst r'(3) by (simp add: server_remove_def Let_def)
    ultimately show ?thesis using q'(2) by blast
  qed
qed

lemma init_loop_ok:
  assumes "sv_rep mp ms metas"
  shows "sv_rep ip xs ys \<Longrightarrow> length ys = length metas \<Longrightarrow> d \<le> length metas \<Longrightarrow>
    \<exists>xs'. init_loop mp ip e x0 (ini \<circ> g) ms [d..<length metas] xs = Some (snd (init_items ini (map g (drop d metas))), xs')
      \<and> sv_rep ip xs' (take d ys @ fst (init_items ini (map g (drop d metas)))) \<and> cap ip xs \<le> cap ip xs'"
proof (induction "length metas - d" arbitrary: d xs ys)
  case 0
  then show ?case by simp
next
  case (Suc k)
  then have d: "d < length metas" by linarith
  have dr: "drop d metas = metas ! d # drop (Suc d) metas" using d by (simp add: Cons_nth_drop_Suc)
  have up: "[d..<length metas] = d # [Suc d..<length metas]" using d by (simp add: upt_conv_Cons)
  have m: "sv_at mp d ms = Some (metas ! d)" using sv_at_ok[OF assms] d by simp
  show ?case
  proof (cases "ini (g (metas ! d))")
    case (Inl res)
    have "d \<le> cap ip xs" using sv_len_cap[OF Suc.prems(1)] Suc.prems(2) d by simp
    then obtain xs' where "no_throw (sv_resize ip e d x0 xs) = Some xs'" "sv_rep ip xs' (take d ys)" "cap ip xs \<le> cap ip xs'"
      using sv_resize_no_throw[OF Suc.prems(1), of d e x0] Suc.prems(2) d by auto
    then show ?thesis using Inl up dr m by simp
  next
    case (Inr x)
    obtain xs1 where xs1: "sv_assign ip d x xs = Some xs1" "sv_rep ip xs1 (ys[d := x])" "cap ip xs1 = cap ip xs"
      using sv_assign_ok[OF Suc.prems(1), of d x] Suc.prems(2) d by auto
    have k: "k = length metas - Suc d" using Suc(2) by linarith
    have t: "take (Suc d) (ys[d := x]) = take d ys @ [x]" using d Suc.prems(2) by (simp add: take_Suc_conv_app_nth)
    obtain xs' where "init_loop mp ip e x0 (ini \<circ> g) ms [Suc d..<length metas] xs1 = Some (snd (init_items ini (map g (drop (Suc d) metas))), xs')"
        "sv_rep ip xs' (take (Suc d) (ys[d := x]) @ fst (init_items ini (map g (drop (Suc d) metas))))" "cap ip xs1 \<le> cap ip xs'"
      using Suc(1)[OF k xs1(2)] Suc.prems(2) d by auto
    then show ?thesis using Inr up dr m xs1 t by (auto split: prod.splits)
  qed
qed

lemma store_mirror_ok:
  assumes "store_rep mp ip q sv"
  shows "case mirror ini w sv of
      None \<Rightarrow> store_mirror mp ip e x0 (\<lambda>m. ini (pollables w (fst m))) q = None
    | Some (res, sv') \<Rightarrow> \<exists>q'. store_mirror mp ip e x0 (\<lambda>m. ini (pollables w (fst m))) q = Some (res, q') \<and> store_rep mp ip q' sv'"
proof -
  note r = store_repD[OF assms]
  let ?n = "length (m_metaItems sv)" and ?d = "length (m_pollItems sv)" and ?g = "\<lambda>m. pollables w (fst m)"
  let ?i = "init_items ini (map ?g (drop ?d (m_metaItems sv)))"
  have ini: "(\<lambda>m. ini (pollables w (fst m))) = ini \<circ> ?g" by (simp add: comp_def)
  obtain xs where xs: "no_throw (sv_resize ip e ?n x0 (st_items q)) = Some xs" "sv_rep ip xs (m_pollItems sv @ replicate (?n - ?d) x0)"
      "cap ip (st_items q) \<le> cap ip xs"
    using sv_resize_no_throw[OF r(2,4), of e x0] r(3) by auto
  have "length (m_pollItems sv @ replicate (?n - ?d) x0) = ?n" using r(3) by simp
  from init_loop_ok[OF r(1) xs(2) this r(3), of e x0 ini ?g] obtain xs' where
    xs': "init_loop mp ip e x0 (ini \<circ> ?g) (st_meta q) [?d..<?n] xs = Some (snd ?i, xs')" "sv_rep ip xs' (m_pollItems sv @ fst ?i)" "cap ip xs \<le> cap ip xs'"
    by auto
  have st: "store_mirror mp ip e x0 (ini \<circ> ?g) q = (if ?n = ?d + length (fst ?i) then Some (snd ?i, q\<lparr>st_items := xs'\<rparr>) else None)"
    using r(5,6) xs(1) xs'(1) sv_size_ok[OF xs'(2)] by (simp add: store_mirror_def zth_assert_def)
  have mi: "mirror ini w sv = (if ?n = ?d + length (fst ?i) then Some (snd ?i, sv\<lparr>m_pollItems := m_pollItems sv @ fst ?i\<rparr>) else None)"
    by (simp add: mirror_def zth_assert_def Let_def split: prod.splits)
  show ?thesis unfolding ini using st mi r xs'(2,3) xs(3) by (simp add: store_rep_def)
qed

text \<open>
  C33. On its \<^verbatim>\<open>small_vector\<close>s the server does what it does on lists, and it keeps memory for an item of every registration.
  \<^verbatim>\<open>add()\<close> either appends, or returns \<^verbatim>\<open>ENOMEM\<close> when an allocation fails and leaves everything as it was; \<^verbatim>\<open>remove()\<close> and
  \<^verbatim>\<open>mirror()\<close>, which are \<^verbatim>\<open>noexcept\<close>, need no memory: they never throw, however little there is.
\<close>

theorem poller_memory_refines:
  assumes "store_rep mp ip q sv"
  shows "(\<exists>res q' sv' oom1 oom2. store_add mp ip e (p, client) q = Some (res, q') \<and> store_rep mp ip q' sv'
        \<and> (\<forall>w. server_add oom1 oom2 p client sv w =
             (if res = E_OK then do { s \<leftarrow> waiter_resume (psys w); Some (res, sv', w\<lparr>psys := s\<rparr>) } else Some (res, sv', w)))
        \<and> (res = E_OK \<or> res = ENOMEM \<and> sv' = sv \<and> (\<exists>n. \<not> can_alloc e n)))
    \<and> (\<exists>res q' sv'. store_remove mp ip e m0 x0 (p, client) q = Some (res, q') \<and> server_remove p client sv = Some (res, sv') \<and> store_rep mp ip q' sv')
    \<and> (case mirror ini w sv of
        None \<Rightarrow> store_mirror mp ip e x0 (\<lambda>m. ini (pollables w (fst m))) q = None
      | Some (res, sv') \<Rightarrow> \<exists>q'. store_mirror mp ip e x0 (\<lambda>m. ini (pollables w (fst m))) q = Some (res, q') \<and> store_rep mp ip q' sv')"
proof -
  have len: "length (m_pollItems sv) \<le> Suc (length (m_metaItems sv))" using store_repD(3)[OF assms] by simp
  have "\<exists>res q' sv' oom1 oom2. store_add mp ip e (p, client) q = Some (res, q') \<and> store_rep mp ip q' sv'
        \<and> (\<forall>w. server_add oom1 oom2 p client sv w =
             (if res = E_OK then do { s \<leftarrow> waiter_resume (psys w); Some (res, sv', w\<lparr>psys := s\<rparr>) } else Some (res, sv', w)))
        \<and> (res = E_OK \<or> res = ENOMEM \<and> sv' = sv \<and> (\<exists>n. \<not> can_alloc e n))"
    using assms
  proof (cases rule: store_add_ok[where e = e and m = "(p, client)"])
    case (1 q')
    then show ?thesis using len by (intro exI[of _ E_OK] exI[of _ q'] exI[of _ "sv\<lparr>m_metaItems := m_metaItems sv @ [(p, client)]\<rparr>"]
        exI[of _ False]) (simp add: server_add_def Let_def)
  next
    case (2 q')
    then show ?thesis by (intro exI[of _ ENOMEM] exI[of _ q'] exI[of _ sv] exI[of _ True]) (simp add: server_add_def)
  qed
  then show ?thesis using store_remove_ok[OF assms, of e m0 x0 p client] store_mirror_ok[OF assms, where ini = ini and w = w and e = e and ?x0.0 = x0] by (intro conjI) assumption+
qed

theorem poller_memory_refines_witness:
  "\<exists>q. store_add 4 4 plenty (7, None) \<lparr>st_meta = sv_init 4, st_items = sv_init 4\<rparr> = Some (E_OK, q)"
  using poller_memory_refines[OF store_rep_init[of 4 4], where e = plenty and p = 7 and client = None, THEN conjunct1]
  by (auto simp: plenty_def)

subsection \<open>The client\<close>

text \<open>
  The same for a client; after \<^verbatim>\<open>add()\<close> there is room in its result for an event of every pollable, so that \<^verbatim>\<open>event()\<close> needs no
  memory for the first event of each.
\<close>

lemma client_memory_refines:
  assumes "sv_rep pre ps (m_pollables cl)" "sv_rep pre res (m_result cl)"
  shows "\<exists>r ps' res' cl'. vec_client_add pre e p ps res = Some (r, ps', res') \<and> client_add (r \<noteq> E_OK) p cl = (r, cl')
      \<and> sv_rep pre ps' (m_pollables cl') \<and> sv_rep pre res' (m_result cl') \<and> (r = E_OK \<longrightarrow> length (m_pollables cl') \<le> cap pre res')"
    and "\<exists>ps'. vec_client_remove pre p ps = Some (fst (client_remove p cl), ps') \<and> sv_rep pre ps' (m_pollables (snd (client_remove p cl)))"
proof -
  let ?n = "Suc (length (m_pollables cl))"
  note n = sv_size_ok[OF assms(1)]
  consider (no) "sv_reserve pre e ?n res = Some (Bad_alloc, res)"
    | (yes) res' where "sv_reserve pre e ?n res = Some (Normal, res')" "sv_rep pre res' (m_result cl)" "?n \<le> cap pre res'"
    using sv_reserve_ok[OF assms(2), of e ?n] unfolding grows_to_def by blast
  then show "\<exists>r ps' res' cl'. vec_client_add pre e p ps res = Some (r, ps', res') \<and> client_add (r \<noteq> E_OK) p cl = (r, cl')
      \<and> sv_rep pre ps' (m_pollables cl') \<and> sv_rep pre res' (m_result cl') \<and> (r = E_OK \<longrightarrow> length (m_pollables cl') \<le> cap pre res')"
  proof cases
    case no
    then show ?thesis using n assms by (simp add: vec_client_add_def client_add_def)
  next
    case yes
    consider "sv_push_back pre e p ps = Some (Bad_alloc, ps)"
      | ps' where "sv_push_back pre e p ps = Some (Normal, ps')" "sv_rep pre ps' (m_pollables cl @ [p])"
      using sv_push_back_ok[OF assms(1), of e p] unfolding grows_to_def by blast
    then show ?thesis using yes n assms by cases (simp_all add: vec_client_add_def client_add_def)
  qed
  define f where "f = list_find_back p (m_pollables cl) (length (m_pollables cl))"
  have f: "find_from_back (\<lambda>i. sv_at pre i ps) p (length (m_pollables cl)) = Some f" "client_find p (m_pollables cl) (length (m_pollables cl)) = f"
    using sv.find_back[OF assms(1) order_refl] by (simp_all add: f_def client_find_eq)
  have le: "f \<le> length (m_pollables cl)" by (simp add: f_def list_find_back_le)
  show "\<exists>ps'. vec_client_remove pre p ps = Some (fst (client_remove p cl), ps') \<and> sv_rep pre ps' (m_pollables (snd (client_remove p cl)))"
  proof (cases "f = 0")
    case True
    then show ?thesis using f n assms(1) by (simp add: vec_client_remove_def client_remove_def)
  next
    case False
    then have "f - 1 < length (m_pollables cl)" using le by linarith
    from sv_fill_gap[OF assms(1) this] False f n show ?thesis by (auto simp: vec_client_remove_def client_remove_def Let_def)
  qed
qed

end
