(* ===== verification/Zth_Async.thy ===== *)
theory Zth_Async
  imports Zth_Signal
begin

section \<open>Asynchronous calls\<close>

text \<open>
  \<^verbatim>\<open>include/libzth/async.h\<close>: functions that run as fibers, the futures of their results, and joining them.

  \<^item> \<^verbatim>\<open>TypedFiber\<close> adds a shared pointer to a future to a fiber: \<open>a_typed\<close> gives, per fiber, the address of its
    future, which is in \<open>a_futures\<close>. The futures and gates are those of \<open>Zth_Signal\<close>, and block and wake fibers through
    the synchronizer; the synchronizer at address \<open>a\<close> has queue \<open>Qid a 0\<close>.
  \<^item> The function that the fiber calls is a parameter: \<open>Inr v\<close> is its return value (of type unit for \<^verbatim>\<open>void\<close>),
    \<open>Inl e\<close> an exception that it throws.
  \<^item> \<^verbatim>\<open>passOnExit::atExit\<close> is the hook function \<open>PASS_ON_EXIT\<close>; other exit hooks are not looked into. Hooks are run by
    \<^verbatim>\<open>fiberEntry_()\<close> when the fiber's function has returned.
  \<^item> \<open>a_used\<close> counts the references that \<^verbatim>\<open>joinable()\<close> takes on a future.
\<close>

subsection \<open>Data\<close>

datatype fexn = FiberAlreadyDead | ErrnoException errno | FnExn nat

record 'a async =
  a_sys :: sys
  a_futures :: "addr \<Rightarrow> ('a, fexn) future"
  a_typed :: "fid \<Rightarrow> addr option"
  a_gates :: "addr \<Rightarrow> gate"
  a_used :: "addr \<Rightarrow> int"
  a_next :: addr

definition PASS_ON_EXIT :: nat where
  "PASS_ON_EXIT = 1"

abbreviation fib :: "'a async \<Rightarrow> fid \<Rightarrow> fiber" where
  "fib s f \<equiv> m_fibers (wkr (a_sys s)) f"

definition upd_fib :: "fid \<Rightarrow> (fiber \<Rightarrow> fiber) \<Rightarrow> 'a async \<Rightarrow> 'a async" where
  "upd_fib f g s = s\<lparr>a_sys := (a_sys s)\<lparr>wkr := upd_fiber f g (wkr (a_sys s))\<rparr>\<rparr>"

subsection \<open>Futures of fibers\<close>

text \<open>The three overloads of \<^verbatim>\<open>setFuture()\<close>; the exceptions of its callers (\<^verbatim>\<open>std::current_exception()\<close> in a handler, \<^verbatim>\<open>std::make_exception_ptr()\<close>)
  are not null pointers.\<close>

definition setFuture :: "fid \<Rightarrow> fexn + 'a \<Rightarrow> 'a async \<Rightarrow> 'a async option" where
  "setFuture f r s = (case a_typed s f of
     None \<Rightarrow> Some s
   | Some a \<Rightarrow> do {
       (m, y) \<leftarrow> (case r of
           Inr v \<Rightarrow> future_set (Qid a 0) v (a_futures s a) (a_sys s)
         | Inl e \<Rightarrow> future_set_exception (Qid a 0) (Some e) (a_futures s a) (a_sys s));
       Some (s\<lparr>a_futures := (a_futures s)(a := m), a_sys := y\<rparr>)
     })"

definition registerFuture :: "fid \<Rightarrow> addr \<Rightarrow> 'a async \<Rightarrow> 'a async option" where
  "registerFuture f a s =
     (let s = s\<lparr>a_typed := (a_typed s)(f := Some a)\<rparr>
      in if m_state (fib s f) = Dead then setFuture f (Inl FiberAlreadyDead) s else Some s)"

definition withFuture :: "fid \<Rightarrow> 'a async \<Rightarrow> (addr \<times> 'a async) option" where
  "withFuture f s = (case a_typed s f of
     Some a \<Rightarrow> Some (a, s)
   | None \<Rightarrow> do {
       let a = a_next s;
       s \<leftarrow> registerFuture f a (s\<lparr>a_futures := (a_futures s)(a := Future), a_next := a + 1\<rparr>);
       Some (a, s)
     })"

text \<open>\<^verbatim>\<open>operator*\<close> of a fiber: the wait for its future, and the value afterwards.\<close>

definition fiber_wait :: "run_env \<Rightarrow> timespec \<Rightarrow> fid \<Rightarrow> 'a async \<Rightarrow> (outcome \<times> addr \<times> 'a async) option" where
  "fiber_wait env now f s = do {
     (a, s) \<leftarrow> withFuture f s;
     (out, m, y) \<leftarrow> future_wait env now (Qid a 0) (a_futures s a) (a_sys s);
     Some (out, a, s\<lparr>a_futures := (a_futures s)(a := m), a_sys := y\<rparr>)
   }"

subsection \<open>Entry functions\<close>

text \<open>
  \<^verbatim>\<open>entry_()\<close> of \<^verbatim>\<open>TypedFiberN\<close> for a function of a list of arguments, and of the classes for C++98, with up to three
  arguments. The variants for \<^verbatim>\<open>void\<close> set the future without a value.
\<close>

definition TypedFiberN_entry :: "('b list \<Rightarrow> fexn + 'a) \<Rightarrow> 'b list \<Rightarrow> fexn + 'a" where
  "TypedFiberN_entry fn args = fn args"

definition TypedFiberN_void_entry :: "('b list \<Rightarrow> fexn option) \<Rightarrow> 'b list \<Rightarrow> fexn + unit" where
  "TypedFiberN_void_entry fn args = (case fn args of Some e \<Rightarrow> Inl e | None \<Rightarrow> Inr ())"

definition TypedFiber0_entry :: "(unit \<Rightarrow> fexn + 'a) \<Rightarrow> fexn + 'a" where
  "TypedFiber0_entry fn = fn ()"

definition TypedFiber1_entry :: "('b \<Rightarrow> fexn + 'a) \<Rightarrow> 'b \<Rightarrow> fexn + 'a" where
  "TypedFiber1_entry fn a1 = fn a1"

definition TypedFiber2_entry :: "('b \<Rightarrow> 'b \<Rightarrow> fexn + 'a) \<Rightarrow> 'b \<Rightarrow> 'b \<Rightarrow> fexn + 'a" where
  "TypedFiber2_entry fn a1 a2 = fn a1 a2"

definition TypedFiber3_entry :: "('b \<Rightarrow> 'b \<Rightarrow> 'b \<Rightarrow> fexn + 'a) \<Rightarrow> 'b \<Rightarrow> 'b \<Rightarrow> 'b \<Rightarrow> fexn + 'a" where
  "TypedFiber3_entry fn a1 a2 a3 = fn a1 a2 a3"

text \<open>\<^verbatim>\<open>TypedFiber::entry()\<close>: what \<^verbatim>\<open>entry_()\<close> returns or throws goes to the future.\<close>

definition typed_entry :: "fid \<Rightarrow> fexn + 'a \<Rightarrow> 'a async \<Rightarrow> 'a async option" where
  "typed_entry f r s = setFuture f r s"

subsection \<open>Manipulators\<close>

definition m_setStackSize :: "fid \<Rightarrow> nat \<Rightarrow> 'a async \<Rightarrow> fexn + 'a async" where
  "m_setStackSize f stack s =
     (if stack = 0 then Inr s
      else let (res, fb) = setStackSize stack (fib s f)
        in if res \<noteq> E_OK then Inl (ErrnoException res) else Inr (upd_fib f (\<lambda>_. fb) s))"

definition passOnExit :: "fid \<Rightarrow> addr \<Rightarrow> 'a async \<Rightarrow> 'a async" where
  "passOnExit f g s = upd_fib f (atExit PASS_ON_EXIT (Some g)) s"

definition asFuture :: "fid \<Rightarrow> 'a async \<Rightarrow> (addr \<times> 'a async) option" where
  "asFuture f s = withFuture f s"

subsection \<open>Creation\<close>

text \<open>
  The factory: a new fiber at the fresh address \<open>f\<close>, handed to the worker by \<^verbatim>\<open>polish()\<close>. \<open>cfg\<close> is the configured stack size
  and time slice.
\<close>

definition factory_call :: "fid \<Rightarrow> nat \<times> TimeInterval \<times> TimeInterval \<Rightarrow> 'a async \<Rightarrow> 'a async option" where
  "factory_call f cfg s = (case cfg of (stackSize, timeslice, dtMax) \<Rightarrow> do {
     fb \<leftarrow> Fiber False stackSize timeslice dtMax;
     w \<leftarrow> hatch f (upd_fiber f (\<lambda>_. fb) (wkr (a_sys s)));
     Some (s\<lparr>a_sys := (a_sys s)\<lparr>wkr := w\<rparr>, a_typed := (a_typed s)(f := None)\<rparr>)
   })"

text \<open>\<^verbatim>\<open>zth_fiber_create()\<close> of the C interface: every exception becomes an error code.\<close>

definition zth_fiber_create :: "alloc \<Rightarrow> fid \<Rightarrow> nat \<times> TimeInterval \<times> TimeInterval \<Rightarrow> nat \<Rightarrow> 'a async
    \<Rightarrow> (errno \<times> 'a async) option" where
  "zth_fiber_create al f cfg stack s = (case al of
     BadAlloc \<Rightarrow> Some (ENOMEM, s)
   | OtherException \<Rightarrow> Some (EAGAIN, s)
   | AllocOk \<Rightarrow> do {
       s \<leftarrow> factory_call f cfg s;
       Some (case m_setStackSize f stack s of
           Inr s \<Rightarrow> (E_OK, s)
         | Inl (ErrnoException e) \<Rightarrow> (e, s)
         | Inl _ \<Rightarrow> (EAGAIN, s))
     })"

subsection \<open>The end of a fiber\<close>

fun run_exit_hooks :: "(nat \<times> addr option) list \<Rightarrow> 'a async \<Rightarrow> 'a async option" where
  "run_exit_hooks [] s = Some s"
| "run_exit_hooks ((fn, a) # calls) s =
     (if fn = PASS_ON_EXIT then do {
        g \<leftarrow> a;
        (b, m, y) \<leftarrow> gate_pass (Qid g 0) (a_gates s g) (a_sys s);
        run_exit_hooks calls (s\<lparr>a_gates := (a_gates s)(g := m), a_sys := y\<rparr>)
      } else run_exit_hooks calls s)"

text \<open>\<^verbatim>\<open>fiberEntry_()\<close> of a typed fiber, from the point where its function returned or threw.\<close>

definition typed_fiber_end :: "fid \<Rightarrow> fexn + 'a \<Rightarrow> 'a async \<Rightarrow> 'a async option" where
  "typed_fiber_end f r s = do {
     s \<leftarrow> typed_entry f r s;
     let (calls, h) = hook_once (m_exit (fib s f));
     s \<leftarrow> run_exit_hooks calls (upd_fib f (\<lambda>fb. fb\<lparr>m_exit := h\<rparr>) s);
     Some (upd_fib f kill s)
   }"

subsection \<open>Joining\<close>

datatype joinee = JFiber fid | JFuture addr

text \<open>\<^verbatim>\<open>joinable()\<close> for a fiber and for a future; the second component collects the hooks \<^verbatim>\<open>m_join\<close>, last added first.\<close>

fun joinable :: "addr \<Rightarrow> joinee \<Rightarrow> addr list \<times> 'a async \<Rightarrow> addr list \<times> 'a async" where
  "joinable g (JFiber f) (hs, s) = (hs, passOnExit f g s)"
| "joinable g (JFuture a) (hs, s) = (a # hs, s\<lparr>a_used := (a_used s)(a := a_used s a + 1)\<rparr>)"

definition joiner :: "addr \<Rightarrow> joinee list \<Rightarrow> 'a async \<Rightarrow> addr list \<times> 'a async" where
  "joiner g js s = fold (joinable g) js ([], s\<lparr>a_gates := (a_gates s)(g := Gate (length js + 1))\<rparr>)"

text \<open>
  The callback of a joined future: wait for it, drop the reference and pass the gate. \<open>join_cb\<close> ends when the wait
  blocks; \<open>join_cb_rest\<close> is what follows the wait.
\<close>

definition join_cb_rest :: "addr \<Rightarrow> addr \<Rightarrow> 'a async \<Rightarrow> 'a async option" where
  "join_cb_rest g a s = do {
     (b, m, y) \<leftarrow> gate_pass (Qid g 0) (a_gates s g) (a_sys s);
     Some (s\<lparr>a_used := (a_used s)(a := a_used s a - 1), a_gates := (a_gates s)(g := m), a_sys := y\<rparr>)
   }"

definition join_cb :: "run_env \<Rightarrow> timespec \<Rightarrow> addr \<Rightarrow> addr \<Rightarrow> 'a async \<Rightarrow> (outcome \<times> 'a async) option" where
  "join_cb env now g a s = do {
     (out, m, y) \<leftarrow> future_wait env now (Qid a 0) (a_futures s a) (a_sys s);
     let s = s\<lparr>a_futures := (a_futures s)(a := m), a_sys := y\<rparr>;
     if out = Blocked then Some (Blocked, s)
     else do { s \<leftarrow> join_cb_rest g a s; Some (Done, s) }
   }"

text \<open>The end of the destructor: \<^verbatim>\<open>m_gate.wait()\<close>.\<close>

definition join_wait :: "run_env \<Rightarrow> timespec \<Rightarrow> addr \<Rightarrow> 'a async \<Rightarrow> (outcome \<times> 'a async) option" where
  "join_wait env now g s = do {
     (out, m, y) \<leftarrow> gate_wait env now (Qid g 0) (a_gates s g) (a_sys s);
     Some (out, s\<lparr>a_gates := (a_gates s)(g := m), a_sys := y\<rparr>)
   }"

text \<open>
  The destructor: the callbacks in turn, and the wait. When a callback blocks, the list that is returned starts with its
  future; \<open>join_continue\<close> goes on from there when the fiber gets control again.
\<close>

fun join_dtor :: "run_env \<Rightarrow> timespec \<Rightarrow> addr \<Rightarrow> addr list \<Rightarrow> 'a async \<Rightarrow> (outcome \<times> addr list \<times> 'a async) option" where
  "join_dtor env now g [] s = do { (out, s) \<leftarrow> join_wait env now g s; Some (out, [], s) }"
| "join_dtor env now g (a # hs) s = do {
     (out, s) \<leftarrow> join_cb env now g a s;
     if out = Blocked then Some (Blocked, a # hs, s) else join_dtor env now g hs s
   }"

definition join_continue :: "run_env \<Rightarrow> timespec \<Rightarrow> addr \<Rightarrow> addr list \<Rightarrow> 'a async
    \<Rightarrow> (outcome \<times> addr list \<times> 'a async) option" where
  "join_continue env now g hs s = (case hs of
     [] \<Rightarrow> Some (Done, [], s)
   | a # hs \<Rightarrow> do { s \<leftarrow> join_cb_rest g a s; join_dtor env now g hs s })"

subsection \<open>Scheduling leaves the exit hooks alone\<close>

lemma fiber_init_exit: "fiber_init r now f = Some (res, f') \<Longrightarrow> m_exit f' = m_exit f"
  by (auto simp: fiber_init_def kill_def setState_def Let_def split: if_splits)

lemma run_ready_exit: "run_ready env this from now fs = Some fs' \<Longrightarrow> m_exit (fs' f) = m_exit (fs f)"
  by (auto simp: run_ready_def setState_def Let_def split: if_splits bind_splits)

lemma fiber_run_exit: "fiber_run env this from now fs = Some y \<Longrightarrow> m_exit (snd y f) = m_exit (fs f)"
proof (induction rule: fiber_run.raw_induct[rotated, consumes 1, case_names 1])
  case (1 run env this "from" now fs y)
  show ?case
  proof (cases "m_state (fs this)")
    case New
    then obtain res f' where i: "fiber_init (create_res env) now (fs this) = Some (res, f')"
        "(if res \<noteq> E_OK then Some (Res res, fs(this := f')) else run env this from now (fs(this := f'))) = Some y"
      using 1(2) by (auto simp: Let_def split: bind_splits)
    then show ?thesis using fiber_init_exit[OF i(1)] 1(1)[of env this "from" now "fs(this := f')" y]
      by (auto split: if_splits)
  next
    case Ready
    then show ?thesis using 1(2) run_ready_exit by (auto split: bind_splits)
  qed (use 1(2) in \<open>auto split: if_splits bind_splits\<close>)
qed

lemma run_next_fibers:
  assumes "run_next env n now w = Some (res, w')"
  shows "fiber_run env n (holder w) now (m_fibers w) = Some (res, m_fibers w')"
proof (cases "n = m_workerFiber w \<or> n \<in> set (m_runnableQueue w)")
  case True
  then show ?thesis using assms
    by (cases "fiber_run env n (holder w) now (m_fibers w)") (auto simp: run_next_eq Let_def)
next
  case False
  then show ?thesis using assms by (simp add: run_next_def spec_rotate_next_def)
qed

lemma run_next_exit:
  assumes "run_next env n now w = Some (res, w')"
  shows "m_exit (m_fibers w' f) = m_exit (m_fibers w f)"
  using fiber_run_exit[OF run_next_fibers[OF assms]] by simp

lemma cleanup_exit: "cleanup env g w = Some (res, w') \<Longrightarrow> m_exit (m_fibers w' f) = m_exit (m_fibers w f)"
  by (auto simp: cleanup_def zth_assert_def split: bind_splits if_splits dest: run_next_exit)

lemma schedule_loop_exit:
  "schedule_loop env now next b w = Some y \<Longrightarrow> m_exit (m_fibers (snd y) f) = m_exit (m_fibers w f)"
proof (induction rule: schedule_loop.raw_induct[rotated, consumes 1, case_names 1])
  case (1 loop env now "next" b w y)
  obtain res w1 where r: "run_next env (pick next w) now w = Some (res, w1)"
    using 1(2) by (auto simp: Let_def split: bind_splits)
  have e: "m_exit (m_fibers w1 f) = m_exit (m_fibers w f)" using run_next_exit[OF r] .
  show ?case
  proof (cases "res = Res EPERM")
    case True
    then obtain sw w2 where c: "cleanup env (pick next w) w1 = Some (sw, w2)"
        "(case sw of Some r \<Rightarrow> Some (r, w2) | None \<Rightarrow> loop env now None True w2) = Some y"
      using 1(2) r by (auto simp: Let_def split: bind_splits)
    then show ?thesis using e cleanup_exit[OF c(1), of f] 1(1)[of env now None True w2 y] by (cases sw) auto
  next
    case False
    then show ?thesis using 1(2) r e by (auto simp: Let_def split: run_result.splits if_splits)
  qed
qed

lemma schedule_exit: "schedule env p now w = Some (r, w') \<Longrightarrow> m_exit (m_fibers w' f) = m_exit (m_fibers w f)"
  using schedule_loop_exit[of env now _ False w "(r, w')" f] by (auto simp: schedule_def Let_def split: if_splits)

lemma unblockAll_loop_exit:
  "unblockAll_loop k prio s = Some y \<Longrightarrow> m_exit (m_fibers (wkr y) f) = m_exit (m_fibers (wkr s) f)"
proof (induction rule: unblockAll_loop.raw_induct[rotated, consumes 1, case_names 1])
  case (1 loop k prio s y)
  show ?case
  proof (cases "queues s k")
    case (Cons h q)
    then obtain s1 where s1: "sync_wakeup h prio (set_queue k q s) = Some s1" "loop k prio s1 = Some y"
      using 1(2) by (auto split: bind_splits)
    have "m_exit (m_fibers (wkr s1) f) = m_exit (m_fibers (wkr s) f)"
      using s1(1) by (auto simp: sync_wakeup_def set_queue_def add_def upd_fiber_def wakeup_def setState_def Let_def
          split: bind_splits if_splits)
    then show ?thesis using 1(1)[OF s1(2)] by simp
  qed (use 1(2) in simp)
qed

lemma unblockAll_exit: "unblockAll k prio s = Some (b, s') \<Longrightarrow> m_exit (m_fibers (wkr s') f) = m_exit (m_fibers (wkr s) f)"
  using unblockAll_loop_exit by (fastforce simp: unblockAll_def split: if_splits bind_splits)

lemma gate_pass_exit: "gate_pass k m s = Some (b, m', s') \<Longrightarrow> m_exit (m_fibers (wkr s') f) = m_exit (m_fibers (wkr s) f)"
  using unblockAll_exit by (fastforce simp: gate_pass_def Let_def split: if_splits bind_splits)

lemma block_exit: "block env now k s = Some (r, s') \<Longrightarrow> m_exit (m_fibers (wkr s') f) = m_exit (m_fibers (wkr s) f)"
proof -
  assume b: "block env now k s = Some (r, s')"
  then obtain s1 w where s1: "park k s = Some s1" "schedule env None now (wkr s1) = Some (r, w)" "s' = s1\<lparr>wkr := w\<rparr>"
    by (auto simp: block_def split: bind_splits)
  have "m_exit (m_fibers (wkr s1) f) = m_exit (m_fibers (wkr s) f)"
    using s1(1) by (auto simp: park_def release_def enqueue_def set_queue_def upd_fiber_def nap_def setState_def Let_def
        split: bind_splits if_splits fstate.splits)
  then show ?thesis using schedule_exit[OF s1(2)] s1(3) by simp
qed

lemma gate_wait_exit: "gate_wait env now k m s = Some (r, m', s') \<Longrightarrow> m_exit (m_fibers (wkr s') f) = m_exit (m_fibers (wkr s) f)"
proof -
  assume g: "gate_wait env now k m s = Some (r, m', s')"
  then obtain b m1 s1 where p: "gate_pass k m s = Some (b, m1, s1)" by (auto simp: gate_wait_def split: bind_splits)
  have e: "m_exit (m_fibers (wkr s1) f) = m_exit (m_fibers (wkr s) f)" using gate_pass_exit[OF p] .
  show ?thesis
  proof (cases b)
    case False
    then obtain q y where q: "block env now k s1 = Some (q, y)" using g p by (auto simp: gate_wait_def split: bind_splits)
    then show ?thesis using g p False e block_exit[OF q] by (auto simp: gate_wait_def split: sched_result.splits)
  qed (use g p e in \<open>simp add: gate_wait_def\<close>)
qed

subsection \<open>What the operations do to the system\<close>

definition set_exit :: "fid \<Rightarrow> nat hook \<Rightarrow> sys \<Rightarrow> sys" where
  "set_exit f h s = s\<lparr>wkr := upd_fiber f (\<lambda>fb. fb\<lparr>m_exit := h\<rparr>) (wkr s)\<rparr>"

lemma set_exit_facts:
  "m_state (m_fibers (wkr (set_exit f h s)) g) = m_state (m_fibers (wkr s) g)"
  "m_timeslice (m_fibers (wkr (set_exit f h s)) g) = m_timeslice (m_fibers (wkr s) g)"
  "fiber_inv (m_fibers (wkr (set_exit f h s)) g) = fiber_inv (m_fibers (wkr s) g)"
  "m_currentFiber (wkr (set_exit f h s)) = m_currentFiber (wkr s)"
  "m_workerFiber (wkr (set_exit f h s)) = m_workerFiber (wkr s)"
  "m_runnableQueue (wkr (set_exit f h s)) = m_runnableQueue (wkr s)"
  "m_suspendedQueue (wkr (set_exit f h s)) = m_suspendedQueue (wkr s)"
  "m_disableContextSwitch (wkr (set_exit f h s)) = m_disableContextSwitch (wkr s)"
  "queues (set_exit f h s) = queues s"
  "m_exit (m_fibers (wkr (set_exit f h s)) g) = (if g = f then h else m_exit (m_fibers (wkr s) g))"
  by (auto simp: set_exit_def upd_fiber_def fiber_inv_def split: fstate.splits)

lemma set_exit_keeps:
  "sync_inv (set_exit f h s) = sync_inv s" "executing g (set_exit f h s) = executing g s"
  "is_ready (set_exit f h s) g = is_ready s g"
proof -
  have "holder (wkr (set_exit f h s)) = holder (wkr s)"
    by (cases "m_currentFiber (wkr s)") (simp_all add: holder_def set_exit_facts)
  then have "winv (wkr (set_exit f h s)) = winv (wkr s)"
    by (simp add: winv_def fibers_ok_def queues_ok_def control_ok_def linked_def set_exit_facts)
  then show "sync_inv (set_exit f h s) = sync_inv s"
    by (simp add: sync_inv_def sys_inv_def parked_ok_def linked_def set_exit_facts contextSwitchEnabled_def worker_started_def)
qed (simp_all add: executing_def is_ready_def set_exit_facts)

lemma executing_ready: "sync_inv s \<Longrightarrow> executing f s \<Longrightarrow> is_ready s f"
  using current_running_queued[of "wkr s" f] by (simp add: sync_inv_def sys_inv_def executing_def is_ready_def)

lemma unblockAll_sys:
  assumes "sync_inv s" "executing f s"
  shows "\<exists>s'. unblockAll k False s = Some (queues s k \<noteq> [], s') \<and> sync_inv s' \<and> executing f s'
    \<and> queues s' = (queues s)(k := []) \<and> (\<forall>h. is_ready s h \<or> h \<in> set (queues s k) \<longrightarrow> is_ready s' h)"
proof -
  have i: "sys_inv s" using assms(1) by (simp add: sync_inv_def)
  obtain s' where s': "unblockAll k False s = Some (queues s k \<noteq> [], s')" "sys_inv s'"
      "queues s' = (queues s)(k := [])" "executing f s'" "same_rest s s'"
      "m_runnableQueue (wkr s') = m_runnableQueue (wkr s) @ queues s k"
      "\<forall>f \<in> set (queues s k). st (wkr s') f = Ready"
      "\<forall>h. h \<notin> set (queues s k) \<longrightarrow> m_fibers (wkr s') h = m_fibers (wkr s) h"
    using unblockAll_ok[OF i assms(2), of k] by blast
  have "is_ready s' h" if "is_ready s h \<or> h \<in> set (queues s k)" for h
    using that s'(6-8) by (cases "h \<in> set (queues s k)") (auto simp: is_ready_def)
  then show ?thesis using s' sync_inv_keep[OF assms(1) s'(2,5,4)] by blast
qed

definition gate_passed :: "gate \<Rightarrow> gate" where
  "gate_passed m = (let c = (g_current m + 1) mod SIZE_MOD
     in m\<lparr>g_current := (if g_count m \<le> c then c - g_count m else c)\<rparr>)"

abbreviation opens :: "gate \<Rightarrow> bool" where
  "opens m \<equiv> g_count m \<le> (g_current m + 1) mod SIZE_MOD"

lemma gate_pass_sys:
  assumes "sync_inv s" "executing f s"
  shows "\<exists>s'. gate_pass k m s = Some (opens m, gate_passed m, s') \<and> sync_inv s' \<and> executing f s'
    \<and> queues s' = (if opens m then (queues s)(k := []) else queues s)
    \<and> (\<forall>h. is_ready s h \<or> opens m \<and> h \<in> set (queues s k) \<longrightarrow> is_ready s' h)"
proof (cases "opens m")
  case True
  obtain s' where "unblockAll k False s = Some (queues s k \<noteq> [], s')" "sync_inv s'" "executing f s'"
      "queues s' = (queues s)(k := [])" "\<forall>h. is_ready s h \<or> h \<in> set (queues s k) \<longrightarrow> is_ready s' h"
    using unblockAll_sys[OF assms, of k] by blast
  then show ?thesis using True by (intro exI[of _ s']) (simp add: gate_pass_def gate_passed_def Let_def)
next
  case False
  then show ?thesis using assms by (simp add: gate_pass_def gate_passed_def Let_def)
qed

lemma kill_sys:
  assumes "sync_inv s" "executing f s"
  defines "s' \<equiv> s\<lparr>wkr := upd_fiber f kill (wkr s)\<rparr>"
  shows "sync_inv s'" "queues s' = queues s" "h \<noteq> f \<Longrightarrow> is_ready s h \<Longrightarrow> is_ready s' h"
proof -
  have w: "winv (wkr s)" and p: "parked_ok s" and c: "m_currentFiber (wkr s) = Some f" "st (wkr s) f = Running"
    using assms(1,2) by (auto simp: sync_inv_def sys_inv_def executing_def)
  have f: "f \<in> set (m_runnableQueue (wkr s))" "f \<noteq> m_workerFiber (wkr s)" using current_running_queued[OF w c] .
  have fs: "f \<notin> set (m_suspendedQueue (wkr s))" using w f by (auto simp: winv_def queues_ok_def)
  have "winv (upd_fiber f kill (wkr s))" using winv_dead[OF w f(2) fs] kill_facts c by simp
  moreover have "f \<notin> set (queues s k)" for k using p c by (auto simp: parked_ok_def)
  then have "parked_ok s'" using p by (auto simp: s'_def parked_ok_def upd_fiber_def linked_def)
  ultimately show "sync_inv s'" using assms(1) c
    by (simp add: s'_def sync_inv_def sys_inv_def contextSwitchEnabled_def worker_started_def upd_fiber_def)
  show "queues s' = queues s" "h \<noteq> f \<Longrightarrow> is_ready s h \<Longrightarrow> is_ready s' h"
    by (simp_all add: s'_def is_ready_def upd_fiber_def)
qed

text \<open>The future of a fiber that has not ended: not set yet.\<close>

definition pending :: "fid \<Rightarrow> 'a async \<Rightarrow> bool" where
  "pending f s \<longleftrightarrow> (\<forall>a. a_typed s f = Some a \<longrightarrow>
     \<not> future_valid (a_futures s a) \<and> optional_ok (m_value (a_futures s a)))"

lemma set_result:
  assumes "sync_inv s" "executing f s" "\<not> future_valid m" "optional_ok (m_value m)"
  shows "\<exists>m' s'. (case r of Inr v \<Rightarrow> future_set k v m s | Inl e \<Rightarrow> future_set_exception k (Some e) m s) = Some (m', s')
    \<and> optional_ok (m_value m') \<and> future_value m' = Some r \<and> sync_inv s' \<and> executing f s'
    \<and> queues s' = (queues s)(k := []) \<and> (\<forall>h. is_ready s h \<or> h \<in> set (queues s k) \<longrightarrow> is_ready s' h)
    \<and> (\<forall>h. m_exit (m_fibers (wkr s') h) = m_exit (m_fibers (wkr s) h))"
proof -
  obtain s' where s': "unblockAll k False s = Some (queues s k \<noteq> [], s')" "sync_inv s'" "executing f s'"
      "queues s' = (queues s)(k := [])" "\<forall>h. is_ready s h \<or> h \<in> set (queues s k) \<longrightarrow> is_ready s' h"
    using unblockAll_sys[OF assms(1,2), of k] by blast
  have e: "\<forall>h. m_exit (m_fibers (wkr s') h) = m_exit (m_fibers (wkr s) h)" using unblockAll_exit[OF s'(1)] by blast
  show ?thesis
  proof (cases r)
    case (Inr v)
    obtain p where "optional_set v (m_value m) = Some p" "optional_ok p" "content p = Some (Inr v)"
      using optional_set_ok[OF assms(4)] by blast
    then show ?thesis using Inr assms(3) s' e optional_value_content[of p]
      by (simp add: future_set_def set_prepare_def set_finalize_def future_value_def)
  next
    case (Inl x)
    obtain p where "optional_set_exception (Some x) (m_value m) = Some p" "optional_ok p" "content p = Some (Inl x)"
      using optional_set_exception_ok[OF assms(4), of "Some x"] by auto
    then show ?thesis using Inl assms(3) s' e optional_value_content[of p]
      by (simp add: future_set_exception_def set_prepare_def set_finalize_def future_value_def)
  qed
qed

lemma setFuture_ok:
  assumes "sync_inv (a_sys s)" "executing c (a_sys s)" "pending f s"
  shows "\<exists>m y. setFuture f r s = Some (s\<lparr>a_futures := m, a_sys := y\<rparr>) \<and> sync_inv y \<and> executing c y
    \<and> (\<forall>h. is_ready (a_sys s) h \<longrightarrow> is_ready y h) \<and> (\<forall>h. m_exit (m_fibers (wkr y) h) = m_exit (fib s h))
    \<and> (\<forall>a. a_typed s f = Some a \<longrightarrow> future_value (m a) = Some r \<and> queues y (Qid a 0) = []
        \<and> (\<forall>h \<in> set (queues (a_sys s) (Qid a 0)). is_ready y h))
    \<and> (\<forall>a. a_typed s f \<noteq> Some a \<longrightarrow> m a = a_futures s a \<and> queues y (Qid a 0) = queues (a_sys s) (Qid a 0))"
proof (cases "a_typed s f")
  case None
  then show ?thesis using assms by (intro exI[of _ "a_futures s"] exI[of _ "a_sys s"]) (simp add: setFuture_def)
next
  case (Some a)
  have p: "\<not> future_valid (a_futures s a)" "optional_ok (m_value (a_futures s a))"
    using assms(3) Some by (auto simp: pending_def)
  obtain m y where "(case r of Inr v \<Rightarrow> future_set (Qid a 0) v (a_futures s a) (a_sys s)
        | Inl e \<Rightarrow> future_set_exception (Qid a 0) (Some e) (a_futures s a) (a_sys s)) = Some (m, y)"
      "future_value m = Some r" "sync_inv y" "executing c y" "queues y = (queues (a_sys s))(Qid a 0 := [])"
      "\<forall>h. is_ready (a_sys s) h \<or> h \<in> set (queues (a_sys s) (Qid a 0)) \<longrightarrow> is_ready y h"
      "\<forall>h. m_exit (m_fibers (wkr y) h) = m_exit (fib s h)"
    using set_result[OF assms(1,2) p, of "Qid a 0" r] by blast
  then show ?thesis using Some
    by (intro exI[of _ "(a_futures s)(a := m)"] exI[of _ y]) (auto simp: setFuture_def)
qed

text \<open>Of the exit hooks, only those that pass a gate do something here.\<close>

lemma run_exit_hooks_filter:
  "run_exit_hooks calls s = run_exit_hooks (filter (\<lambda>(fn, a). fn = PASS_ON_EXIT) calls) s"
  by (induction calls s rule: run_exit_hooks.induct) (auto split: option.splits bind_splits)

definition gate_hooks :: "nat hook \<Rightarrow> addr option list" where
  "gate_hooks h = map arg (filter (\<lambda>x. func x = PASS_ON_EXIT) h)"

lemma once_calls: "fst (hook_once h) = map (\<lambda>x. (func x, arg x)) h" "snd (hook_once h) = []"
proof -
  have "once_loop h cs = cs @ map (\<lambda>x. (func x, arg x)) h" for cs by (induction h cs rule: once_loop.induct) auto
  then show "fst (hook_once h) = map (\<lambda>x. (func x, arg x)) h" "snd (hook_once h) = []" by (simp_all add: hook_once_def)
qed

lemma run_exit_hooks_gates:
  "run_exit_hooks (fst (hook_once h)) s = run_exit_hooks (map (Pair PASS_ON_EXIT) (gate_hooks h)) s"
proof -
  have "filter (\<lambda>(fn, a). fn = PASS_ON_EXIT) (map (\<lambda>x. (func x, arg x)) h) = map (Pair PASS_ON_EXIT) (gate_hooks h)"
    by (induction h) (auto simp: gate_hooks_def)
  then show ?thesis using run_exit_hooks_filter[of "fst (hook_once h)" s] by (simp add: once_calls)
qed

lemma typed_fiber_end_ok:
  assumes "sync_inv (a_sys s)" "executing f (a_sys s)" "pending f s" "gate_hooks (m_exit (fib s f)) = [Some g]"
    "a_typed s f \<noteq> Some g"
  shows "\<exists>m y. typed_fiber_end f r s = Some (s\<lparr>a_futures := m, a_gates := (a_gates s)(g := gate_passed (a_gates s g)), a_sys := y\<rparr>)
    \<and> sync_inv y \<and> st (wkr y) f = Dead \<and> m_exit (m_fibers (wkr y) f) = []
    \<and> (\<forall>h. h \<noteq> f \<longrightarrow> is_ready (a_sys s) h \<longrightarrow> is_ready y h)
    \<and> (\<forall>h. h \<noteq> f \<longrightarrow> m_exit (m_fibers (wkr y) h) = m_exit (fib s h))
    \<and> (\<forall>a. a_typed s f = Some a \<longrightarrow> future_value (m a) = Some r \<and> (\<forall>h \<in> set (queues (a_sys s) (Qid a 0)). is_ready y h))
    \<and> (\<forall>a. a_typed s f \<noteq> Some a \<longrightarrow> m a = a_futures s a)
    \<and> queues y (Qid g 0) = (if opens (a_gates s g) then [] else queues (a_sys s) (Qid g 0))
    \<and> (opens (a_gates s g) \<longrightarrow> (\<forall>h \<in> set (queues (a_sys s) (Qid g 0)). is_ready y h))"
proof -
  obtain m y1 where y1: "setFuture f r s = Some (s\<lparr>a_futures := m, a_sys := y1\<rparr>)" "sync_inv y1" "executing f y1"
      "\<forall>h. is_ready (a_sys s) h \<longrightarrow> is_ready y1 h" "\<forall>h. m_exit (m_fibers (wkr y1) h) = m_exit (fib s h)"
      "\<forall>a. a_typed s f = Some a \<longrightarrow> future_value (m a) = Some r \<and> queues y1 (Qid a 0) = []
        \<and> (\<forall>h \<in> set (queues (a_sys s) (Qid a 0)). is_ready y1 h)"
      "\<forall>a. a_typed s f \<noteq> Some a \<longrightarrow> m a = a_futures s a \<and> queues y1 (Qid a 0) = queues (a_sys s) (Qid a 0)"
    using setFuture_ok[OF assms(1-3), of r] by blast
  define y2 where "y2 = set_exit f [] y1"
  have y2: "sync_inv y2" "executing f y2" "queues y2 = queues y1" "\<forall>h. is_ready y2 h = is_ready y1 h"
      "\<forall>h. m_exit (m_fibers (wkr y2) h) = (if h = f then [] else m_exit (fib s h))"
    using y1(2,3,5) by (simp_all add: y2_def set_exit_keeps set_exit_facts)
  obtain y3 where y3: "gate_pass (Qid g 0) (a_gates s g) y2 = Some (opens (a_gates s g), gate_passed (a_gates s g), y3)"
      "sync_inv y3" "executing f y3" "queues y3 = (if opens (a_gates s g) then (queues y2)(Qid g 0 := []) else queues y2)"
      "\<forall>h. is_ready y2 h \<or> opens (a_gates s g) \<and> h \<in> set (queues y2 (Qid g 0)) \<longrightarrow> is_ready y3 h"
    using gate_pass_sys[OF y2(1,2), of "Qid g 0" "a_gates s g"] by blast
  have e3: "\<forall>h. m_exit (m_fibers (wkr y3) h) = (if h = f then [] else m_exit (fib s h))"
    using gate_pass_exit[OF y3(1)] y2(5) by simp
  define y where "y = y3\<lparr>wkr := upd_fiber f kill (wkr y3)\<rparr>"
  have y: "sync_inv y" "queues y = queues y3" "\<forall>h. h \<noteq> f \<longrightarrow> is_ready y3 h \<longrightarrow> is_ready y h"
    using kill_sys[OF y3(2,3)] by (auto simp: y_def)
  have d: "st (wkr y) f = Dead" "m_exit (m_fibers (wkr y) h) = m_exit (m_fibers (wkr y3) h)" for h
    by (simp_all add: y_def upd_fiber_def kill_def setState_def)
  have q: "f \<notin> set (queues (a_sys s) k)" for k
    using assms(1,2) by (auto simp: sync_inv_def sys_inv_def parked_ok_def executing_def)
  have "run_exit_hooks (fst (hook_once (m_exit (fib s f)))) (s\<lparr>a_futures := m, a_sys := y2\<rparr>)
      = Some (s\<lparr>a_futures := m, a_gates := (a_gates s)(g := gate_passed (a_gates s g)), a_sys := y3\<rparr>)"
    using y3(1) assms(4) by (simp add: run_exit_hooks_gates)
  then have "typed_fiber_end f r s
      = Some (s\<lparr>a_futures := m, a_gates := (a_gates s)(g := gate_passed (a_gates s g)), a_sys := y\<rparr>)"
    using y1(1,5) once_calls(2)[of "m_exit (fib s f)"]
    by (simp add: typed_fiber_end_def typed_entry_def upd_fib_def y_def y2_def set_exit_def case_prod_unfold)
  moreover have "queues y2 (Qid g 0) = queues (a_sys s) (Qid g 0)" using y1(7) assms(5) y2(3) by simp
  ultimately show ?thesis
    using y d e3 y3(4,5) y2(4) y1(4,6,7) q by (intro exI[of _ m] exI[of _ y]) (auto; metis)
qed

subsection \<open>Joining as a state machine\<close>

text \<open>
  \<open>j\<close> is the fiber that joins by the gate \<open>g\<close>, \<open>L\<close> the fibers that have not ended yet, and \<open>w\<close> whether the
  destructor got to its wait. Other steps move control.
\<close>

type_synonym 'a joining = "('a async \<times> timespec) \<times> fid set \<times> bool"

inductive join_step :: "run_env \<Rightarrow> addr \<Rightarrow> fid \<Rightarrow> 'a joining \<Rightarrow> 'a joining \<Rightarrow> bool"
  for env :: run_env and g :: addr and j :: fid where
  JEnd: "executing f (a_sys s) \<Longrightarrow> f \<in> L \<Longrightarrow> typed_fiber_end f r s = Some s' \<Longrightarrow>
    join_step env g j ((s, t), L, w) ((s', t), L - {f}, w)"
| JWait: "executing j (a_sys s) \<Longrightarrow> \<not> w \<Longrightarrow> join_wait env t g s = Some (out, s') \<Longrightarrow>
    join_step env g j ((s, t), L, w) ((s', t), L, True)"
| JOther: "other_of env ((), a_sys s, t) ((), y, t') \<Longrightarrow>
    join_step env g j ((s, t), L, w) ((s\<lparr>a_sys := y\<rparr>, t'), L, w)"

text \<open>The futures of the fibers in \<open>L\<close> are not set, and are no one else's.\<close>

definition separate :: "addr \<Rightarrow> fid set \<Rightarrow> 'a async \<Rightarrow> bool" where
  "separate g L s \<longleftrightarrow> (\<forall>f \<in> L. pending f s \<and> a_typed s f \<noteq> Some g
     \<and> (\<forall>f' \<in> L. f \<noteq> f' \<longrightarrow> a_typed s f = None \<or> a_typed s f \<noteq> a_typed s f'))"

definition arrived :: "nat \<Rightarrow> fid set \<Rightarrow> bool \<Rightarrow> nat" where
  "arrived n L w = (if L = {} \<and> w then 0 else n - card L + of_bool w)"

definition join_inv :: "run_env \<Rightarrow> addr \<Rightarrow> fid \<Rightarrow> nat \<Rightarrow> 'a joining \<Rightarrow> bool" where
  "join_inv env g j n x \<longleftrightarrow> (case x of ((s, t), L, w) \<Rightarrow>
     create_res env = E_OK \<and> sync_inv (a_sys s) \<and> finite L \<and> card L \<le> n \<and> j \<notin> L \<and> separate g L s
     \<and> (\<forall>f \<in> L. gate_hooks (m_exit (fib s f)) = [Some g])
     \<and> g_count (a_gates s g) = n + 1 \<and> g_current (a_gates s g) = arrived n L w
     \<and> queues (a_sys s) (Qid g 0) = (if w \<and> L \<noteq> {} then [j] else [])
     \<and> (w \<longrightarrow> L = {} \<longrightarrow> is_ready (a_sys s) j))"

lemma gate_passed_arrived:
  assumes "g_count m = n + 1" "g_current m = n - c + b" "c \<le> n" "b \<le> (1 :: nat)" "b \<le> c" "n + 1 < SIZE_MOD"
  shows "g_count (gate_passed m) = n + 1" "opens m \<longleftrightarrow> c = b"
    "g_current (gate_passed m) = (if c = b then 0 else Suc (n - c + b))"
proof -
  have "Suc (n - c + b) < SIZE_MOD" using assms(3-6) by linarith
  then have o: "(g_current m + 1) mod SIZE_MOD = Suc (n - c + b)" using assms(2) by simp
  have c: "n + 1 \<le> Suc (n - c + b) \<longleftrightarrow> c = b" using assms(3,5) by linarith
  then show "opens m \<longleftrightarrow> c = b" using o assms(1) by simp
  show "g_count (gate_passed m) = n + 1" using assms(1) by (simp add: gate_passed_def Let_def)
  have "n + 1 - c + b - (n + 1) = 0" if "c = b" using that assms(3) by linarith
  then show "g_current (gate_passed m) = (if c = b then 0 else Suc (n - c + b))"
    using o c assms(1,3) by (auto simp: gate_passed_def Let_def simp del: One_nat_def)
qed

lemma gate_wait_sys:
  assumes "create_res env = E_OK" "sync_inv s" "executing f s"
  shows "\<exists>s'. gate_wait env t k m s = Some (if opens m then Done else Blocked, gate_passed m, s') \<and> sync_inv s'
    \<and> queues s' = (queues s)(k := (if opens m then [] else queues s k @ [f])) \<and> (opens m \<longrightarrow> is_ready s' f)"
proof -
  obtain s1 where s1: "gate_pass k m s = Some (opens m, gate_passed m, s1)" "sync_inv s1" "executing f s1"
      "queues s1 = (if opens m then (queues s)(k := []) else queues s)"
    using gate_pass_sys[OF assms(2,3), of k m] by blast
  show ?thesis
  proof (cases "opens m")
    case True
    then show ?thesis using s1 executing_ready[OF s1(2,3)] by (intro exI[of _ s1]) (simp add: gate_wait_def)
  next
    case False
    have i: "sys_inv s1" "contextSwitchEnabled (wkr s1)" using s1(2) by (auto simp: sync_inv_def)
    obtain h s2 where s2: "block env t k s1 = Some (SwitchedTo h, s2)" "sys_inv s2" "same_rest s1 s2"
        "queues s2 = (queues s1)(k := queues s1 k @ [f])" "holder (wkr s2) = h" "st (wkr s2) h = Running"
      using block_ok[OF i(1) assms(1) i(2) s1(3), of t k] by blast
    have "sync_inv s2" using s2(2,3,5,6) i(2)
      by (auto simp: sync_inv_def same_rest_def contextSwitchEnabled_def worker_started_def holder_def)
    then show ?thesis using s1 s2 False by (intro exI[of _ s2]) (simp add: gate_wait_def)
  qed
qed

lemma join_wait_ok:
  assumes "join_inv env g j n ((s, t), L, False)" "executing j (a_sys s)" "n + 1 < SIZE_MOD"
  shows "\<exists>s'. join_wait env t g s = Some (if L = {} then Done else Blocked, s') \<and> join_inv env g j n ((s', t), L, True)"
proof -
  let ?m = "a_gates s g"
  have i: "create_res env = E_OK" "sync_inv (a_sys s)" "finite L" "card L \<le> n" "g_count ?m = n + 1"
      "g_current ?m = n - card L + 0" "separate g L s" "queues (a_sys s) (Qid g 0) = []"
    using assms(1) by (auto simp: join_inv_def arrived_def)
  note p = gate_passed_arrived[OF i(5,6,4) _ _ assms(3)]
  obtain y where y: "gate_wait env t (Qid g 0) ?m (a_sys s) = Some (if opens ?m then Done else Blocked, gate_passed ?m, y)"
      "sync_inv y" "queues y = (queues (a_sys s))(Qid g 0 := (if opens ?m then [] else queues (a_sys s) (Qid g 0) @ [j]))"
      "opens ?m \<longrightarrow> is_ready y j"
    using gate_wait_sys[OF i(1,2) assms(2), of t "Qid g 0" ?m] by blast
  have o: "opens ?m \<longleftrightarrow> L = {}" using p(2) i(3) by simp
  have e: "\<forall>h. m_exit (m_fibers (wkr y) h) = m_exit (fib s h)" using gate_wait_exit[OF y(1)] by blast
  let ?s = "s\<lparr>a_gates := (a_gates s)(g := gate_passed ?m), a_sys := y\<rparr>"
  have "join_inv env g j n ((?s, t), L, True)"
    using assms(1) y(2-4) e o p(1,3) i(3,7,8) by (auto simp: join_inv_def arrived_def separate_def pending_def)
  then show ?thesis using y(1) o by (simp add: join_wait_def)
qed

lemma join_end_ok:
  assumes "join_inv env g j n ((s, t), L, w)" "executing f (a_sys s)" "f \<in> L" "n + 1 < SIZE_MOD"
  shows "\<exists>s'. typed_fiber_end f r s = Some s' \<and> join_inv env g j n ((s', t), L - {f}, w)"
proof -
  let ?m = "a_gates s g"
  have i: "sync_inv (a_sys s)" "finite L" "card L \<le> n" "g_count ?m = n + 1"
      "g_current ?m = n - card L + of_bool w" "separate g L s" "gate_hooks (m_exit (fib s f)) = [Some g]"
      "queues (a_sys s) (Qid g 0) = (if w then [j] else [])" "j \<noteq> f"
    using assms(1,3) by (auto simp: join_inv_def arrived_def)
  have f: "pending f s" "a_typed s f \<noteq> Some g" using i(6) assms(3) by (auto simp: separate_def)
  have c: "of_bool w \<le> card L" "card (L - {f}) = card L - 1" "L - {f} = {} \<longleftrightarrow> card L = 1" "card L > 0"
    using i(2) assms(3) by (auto simp: card_gt_0_iff Suc_le_eq card_1_singleton_iff)
  have p: "g_count (gate_passed ?m) = n + 1" "opens ?m \<longleftrightarrow> card L = of_bool w"
      "g_current (gate_passed ?m) = (if card L = of_bool w then 0 else Suc (n - card L + of_bool w))"
    using gate_passed_arrived[OF i(4,5,3) _ c(1) assms(4)] by auto
  obtain m y where y: "typed_fiber_end f r s = Some (s\<lparr>a_futures := m, a_gates := (a_gates s)(g := gate_passed ?m), a_sys := y\<rparr>)"
      "sync_inv y" "\<forall>h. h \<noteq> f \<longrightarrow> is_ready (a_sys s) h \<longrightarrow> is_ready y h"
      "\<forall>h. h \<noteq> f \<longrightarrow> m_exit (m_fibers (wkr y) h) = m_exit (fib s h)"
      "\<forall>a. a_typed s f \<noteq> Some a \<longrightarrow> m a = a_futures s a"
      "queues y (Qid g 0) = (if opens ?m then [] else queues (a_sys s) (Qid g 0))"
      "opens ?m \<longrightarrow> (\<forall>h \<in> set (queues (a_sys s) (Qid g 0)). is_ready y h)"
    using typed_fiber_end_ok[OF i(1) assms(2) f(1) i(7) f(2), of r] by (elim exE conjE) (rule that)
  let ?s = "s\<lparr>a_futures := m, a_gates := (a_gates s)(g := gate_passed ?m), a_sys := y\<rparr>"
  have "separate g (L - {f}) ?s" unfolding separate_def pending_def
  proof (intro ballI conjI allI impI)
    fix h a assume h: "h \<in> L - {f}" "a_typed ?s h = Some a"
    then have "a_typed s f \<noteq> Some a" using i(6) assms(3) unfolding separate_def by fastforce
    then have "m a = a_futures s a" using y(5) by simp
    then show "\<not> future_valid (a_futures ?s a)" "optional_ok (m_value (a_futures ?s a))"
      using i(6) h by (auto simp: separate_def pending_def)
  qed (use i(6) in \<open>auto simp: separate_def\<close>)
  moreover have "g_current (a_gates ?s g) = arrived n (L - {f}) w"
    using p(3) c i(3) by (cases w) (auto simp: arrived_def)
  moreover have "queues y (Qid g 0) = (if w \<and> L - {f} \<noteq> {} then [j] else [])"
    using y(6) p(2) c i(8) by (cases w) auto
  moreover have "is_ready y j" if "w" "L - {f} = {}" using y(7) p(2) c i(8) that by simp
  moreover have "\<forall>h \<in> L - {f}. gate_hooks (m_exit (fib ?s h)) = [Some g]"
    using assms(1) y(4) by (auto simp: join_inv_def)
  ultimately have "join_inv env g j n ((?s, t), L - {f}, w)"
    using assms(1) y(2) p(1) c(2) by (auto simp: join_inv_def)
  then show ?thesis using y(1) by blast
qed

lemma join_inv_step:
  assumes "join_step env g j x y" "join_inv env g j n x" "n + 1 < SIZE_MOD"
  shows "join_inv env g j n y"
  using assms
proof (induction rule: join_step.induct)
  case (JEnd f s L r s' t w)
  then show ?case using join_end_ok[of env g j n s t L w f r] by auto
next
  case (JWait s w t out s' L)
  then show ?case using join_wait_ok[of env g j n s t L] by auto
next
  case (JOther s t y t' L w)
  have i: "inv_of env ((), a_sys s, t)" using JOther.prems(1) by (simp add: join_inv_def inv_of_def)
  have y: "sync_inv y" "queues y k = queues (a_sys s) k" "is_ready (a_sys s) h \<Longrightarrow> is_ready y h" for k h
    using other_of_ok[OF i JOther.hyps, of k] by (auto simp: sync_of_defs)
  have "m_exit (m_fibers (wkr y) h) = m_exit (fib s h)" for h
    using JOther.hyps by (auto simp: other_of_def dest: schedule_exit)
  then show ?case using JOther.prems(1) y by (auto simp: join_inv_def separate_def pending_def)
qed

lemma join_inv_reach:
  assumes "(join_step env g j)\<^sup>*\<^sup>* x y" "join_inv env g j n x" "n + 1 < SIZE_MOD"
  shows "join_inv env g j n y"
  using assms by (induction rule: rtranclp_induct) (auto intro: join_inv_step)

subsection \<open>Who has ended\<close>

lemma sched_post_dead:
  assumes "sched_post w r w'"
  shows "st w' f = Dead \<longleftrightarrow> st w f = Dead"
proof (cases r)
  case (SwitchedTo g)
  then have "st w' g = Running" "st w g \<in> {New, Ready}"
      "\<forall>h. h \<noteq> g \<longrightarrow> st w' h = (if h = holder w \<and> st w h = Running then Ready else st w h)"
    using assms by (auto simp: sched_post_def)
  then show ?thesis by (cases "f = g") auto
qed (use assms in \<open>simp add: sched_post_def\<close>)

lemma block_dead:
  assumes "block env now k s = Some (r, s')" "sync_inv s" "create_res env = E_OK" "executing c s"
  shows "st (wkr s') f = Dead \<longleftrightarrow> st (wkr s) f = Dead"
proof -
  have i: "sys_inv s" "contextSwitchEnabled (wkr s)" using assms(2) by (auto simp: sync_inv_def)
  obtain s1 where s1: "park k s = Some s1" "sys_inv s1" "same_rest s s1" "m_currentFiber (wkr s1) = Some c"
      "\<forall>h. h \<noteq> c \<longrightarrow> m_fibers (wkr s1) h = m_fibers (wkr s) h" "st (wkr s1) c = Waiting"
    using park_ok[OF i(1) assms(4)] by blast
  have en: "contextSwitchEnabled (wkr s1)" "worker_started (wkr s1)"
    using i(2) s1(3,4) by (simp_all add: contextSwitchEnabled_def same_rest_def worker_started_def)
  obtain q w' where q: "schedule env None now (wkr s1) = Some (q, w')" "sched_post (wkr s1) q w'"
    using schedule_sys[OF s1(2) assms(3) en] by blast
  have "st (wkr s1) f = Dead \<longleftrightarrow> st (wkr s) f = Dead" using s1(5,6) assms(4) by (cases "f = c") (auto simp: executing_def)
  then have "st w' f = Dead \<longleftrightarrow> st (wkr s) f = Dead" using sched_post_dead[OF q(2)] by simp
  then show ?thesis using assms(1) s1(1) q(1) by (auto simp: block_def)
qed

lemma unblockAll_dead:
  assumes "unblockAll k False s = Some (b, s')" "sync_inv s" "executing c s"
  shows "st (wkr s') f = Dead \<longleftrightarrow> st (wkr s) f = Dead"
proof -
  have i: "sys_inv s" using assms(2) by (simp add: sync_inv_def)
  obtain y where y: "unblockAll k False s = Some (queues s k \<noteq> [], y)" "\<forall>f \<in> set (queues s k). st (wkr y) f = Ready"
      "\<forall>h. h \<notin> set (queues s k) \<longrightarrow> m_fibers (wkr y) h = m_fibers (wkr s) h"
    using unblockAll_ok[OF i assms(3), of k] by blast
  have "st (wkr s) f = Waiting" if "f \<in> set (queues s k)" using i that unfolding sys_inv_def parked_ok_def by blast
  then show ?thesis using assms(1) y by (cases "f \<in> set (queues s k)") auto
qed

lemma gate_pass_dead:
  assumes "gate_pass k m s = Some (b, m', s')" "sync_inv s" "executing c s"
  shows "st (wkr s') f = Dead \<longleftrightarrow> st (wkr s) f = Dead"
  using assms(1) unblockAll_dead[OF _ assms(2,3)] by (fastforce simp: gate_pass_def Let_def split: if_splits bind_splits)

lemma gate_wait_dead:
  assumes "gate_wait env now k m s = Some (r, m', s')" "sync_inv s" "create_res env = E_OK" "executing c s"
  shows "st (wkr s') f = Dead \<longleftrightarrow> st (wkr s) f = Dead"
proof -
  obtain b m1 s1 where p: "gate_pass k m s = Some (b, m1, s1)" using assms(1) by (auto simp: gate_wait_def split: bind_splits)
  have s1: "sync_inv s1" "executing c s1" using gate_pass_sys[OF assms(2,4), of k m] p by auto
  have d: "st (wkr s1) f = Dead \<longleftrightarrow> st (wkr s) f = Dead" using gate_pass_dead[OF p assms(2,4)] .
  show ?thesis
  proof (cases b)
    case False
    then obtain q y where q: "block env now k s1 = Some (q, y)" using assms(1) p by (auto simp: gate_wait_def split: bind_splits)
    then show ?thesis using assms(1) p False d block_dead[OF q s1(1) assms(3) s1(2)] by (auto simp: gate_wait_def split: sched_result.splits)
  qed (use assms(1) p d in \<open>simp add: gate_wait_def\<close>)
qed

lemma setFuture_dead:
  assumes "setFuture g r s = Some s'" "sync_inv (a_sys s)" "executing c (a_sys s)"
  shows "m_state (fib s' f) = Dead \<longleftrightarrow> m_state (fib s f) = Dead"
proof (cases "a_typed s g")
  case (Some a)
  then obtain b y where "unblockAll (Qid a 0) False (a_sys s) = Some (b, y)" "a_sys s' = y"
    using assms(1) by (auto simp: setFuture_def future_set_def future_set_exception_def set_finalize_def split: bind_splits sum.splits)
  then show ?thesis using unblockAll_dead[OF _ assms(2,3)] by simp
qed (use assms(1) in \<open>simp add: setFuture_def\<close>)

lemma run_exit_hooks_dead:
  assumes "run_exit_hooks calls s = Some s'" "sync_inv (a_sys s)" "executing c (a_sys s)"
  shows "m_state (fib s' f) = Dead \<longleftrightarrow> m_state (fib s f) = Dead"
  using assms
proof (induction calls s rule: run_exit_hooks.induct)
  case (2 fn a calls s)
  show ?case
  proof (cases "fn = PASS_ON_EXIT")
    case True
    then obtain g b m y where g: "a = Some g" "gate_pass (Qid g 0) (a_gates s g) (a_sys s) = Some (b, m, y)"
        "run_exit_hooks calls (s\<lparr>a_gates := (a_gates s)(g := m), a_sys := y\<rparr>) = Some s'"
      using 2(3) by (auto split: bind_splits)
    have "sync_inv y" "executing c y" using gate_pass_sys[OF 2(4,5), of "Qid g 0" "a_gates s g"] g(2) by auto
    then show ?thesis using 2(1)[OF True g(1,2) refl refl] g(3) gate_pass_dead[OF g(2) 2(4,5), of f] by simp
  qed (use 2 in simp)
qed simp

lemma typed_fiber_end_dead:
  assumes "typed_fiber_end g r s = Some s'" "sync_inv (a_sys s)" "executing g (a_sys s)" "pending g s"
  shows "m_state (fib s' f) = Dead \<longleftrightarrow> f = g \<or> m_state (fib s f) = Dead"
proof -
  obtain m y where y: "setFuture g r s = Some (s\<lparr>a_futures := m, a_sys := y\<rparr>)" "sync_inv y" "executing g y"
    using setFuture_ok[OF assms(2-4), of r] by blast
  define s1 where "s1 = s\<lparr>a_futures := m, a_sys := y\<rparr>"
  obtain calls h where c: "hook_once (m_exit (fib s1 g)) = (calls, h)" by fastforce
  define s2 where "s2 = s1\<lparr>a_sys := set_exit g h y\<rparr>"
  have e: "upd_fib g (\<lambda>fb. fb\<lparr>m_exit := h\<rparr>) s1 = s2" by (simp add: s2_def s1_def upd_fib_def set_exit_def)
  obtain s3 where s3: "run_exit_hooks calls s2 = Some s3" "s' = upd_fib g kill s3"
    using assms(1) y(1) c e by (auto simp: typed_fiber_end_def typed_entry_def s1_def[symmetric] split: bind_splits)
  have "m_state (fib s3 f) = Dead \<longleftrightarrow> m_state (fib s2 f) = Dead"
    using run_exit_hooks_dead[OF s3(1), of g] y(2,3) by (simp add: s2_def set_exit_keeps)
  moreover have "m_state (fib s2 f) = m_state (fib s1 f)" by (simp add: s2_def s1_def set_exit_facts)
  moreover have "m_state (fib s1 f) = Dead \<longleftrightarrow> m_state (fib s f) = Dead" using setFuture_dead[OF y(1) assms(2,3)] by (simp add: s1_def)
  ultimately show ?thesis using s3(2) by (simp add: upd_fib_def upd_fiber_def kill_def setState_def)
qed

text \<open>With living fibers to join, \<open>L\<close> are the joined fibers that are not dead.\<close>

lemma join_alive_step:
  assumes "join_step env g j x y" "join_inv env g j n x" "case x of ((s, t), L, w) \<Rightarrow> L = {f \<in> F. m_state (fib s f) \<noteq> Dead}"
  shows "case y of ((s, t), L, w) \<Rightarrow> L = {f \<in> F. m_state (fib s f) \<noteq> Dead}"
  using assms
proof (induction rule: join_step.induct)
  case (JEnd f s L r s' t w)
  have "sync_inv (a_sys s)" "pending f s" using JEnd.prems(1) JEnd.hyps(2) by (auto simp: join_inv_def separate_def)
  then show ?case using typed_fiber_end_dead[OF JEnd.hyps(3) _ JEnd.hyps(1)] JEnd.prems(2) by auto
next
  case (JWait s w t out s' L)
  have i: "sync_inv (a_sys s)" "create_res env = E_OK" using JWait.prems(1) by (auto simp: join_inv_def)
  obtain m y where "gate_wait env t (Qid g 0) (a_gates s g) (a_sys s) = Some (out, m, y)" "a_sys s' = y"
    using JWait.hyps(3) by (auto simp: join_wait_def split: bind_splits)
  then show ?case using gate_wait_dead[OF _ i JWait.hyps(1)] JWait.prems(2) by auto
next
  case (JOther s t y t' L w)
  have i: "sync_inv (a_sys s)" "create_res env = E_OK" using JOther.prems(1) by (auto simp: join_inv_def)
  then have "sys_inv (a_sys s)" "contextSwitchEnabled (wkr (a_sys s))" "worker_started (wkr (a_sys s))"
    by (auto simp: sync_inv_def)
  then have "sched_post (wkr (a_sys s)) r w'" if "schedule env None t (wkr (a_sys s)) = Some (r, w')" for r w'
    using schedule_sys[OF _ i(2), of "a_sys s" t] that by auto
  then have "st (wkr y) f = Dead \<longleftrightarrow> m_state (fib s f) = Dead" for f
    using JOther.hyps sched_post_dead by (fastforce simp: other_of_def)
  then show ?case using JOther.prems(2) by auto
qed

lemma join_alive_reach:
  assumes "(join_step env g j)\<^sup>*\<^sup>* x y" "join_inv env g j n x" "n + 1 < SIZE_MOD"
    "case x of ((s, t), L, w) \<Rightarrow> L = {f \<in> F. m_state (fib s f) \<noteq> Dead}"
  shows "case y of ((s, t), L, w) \<Rightarrow> L = {f \<in> F. m_state (fib s f) \<noteq> Dead}"
  using assms(1)
proof (induction rule: rtranclp_induct)
  case (step y z)
  then show ?case using join_alive_step[OF step(2)] join_inv_reach[OF step(1) assms(2,3)] by blast
qed (rule assms(4))

text \<open>The constructor of the joiner, for fibers.\<close>

lemma passOnExit_keeps:
  "sync_inv (a_sys (passOnExit f g s)) = sync_inv (a_sys s)" "queues (a_sys (passOnExit f g s)) = queues (a_sys s)"
  "fib (passOnExit f g s) h = (if h = f then atExit PASS_ON_EXIT (Some g) (fib s f) else fib s h)"
  "a_gates (passOnExit f g s) = a_gates s" "a_futures (passOnExit f g s) = a_futures s"
  "a_typed (passOnExit f g s) = a_typed s"
proof -
  have "a_sys (passOnExit f g s) = set_exit f (hook_add PASS_ON_EXIT (Some g) (m_exit (fib s f))) (a_sys s)"
    by (simp add: passOnExit_def upd_fib_def set_exit_def upd_fiber_def atExit_def)
  then show "sync_inv (a_sys (passOnExit f g s)) = sync_inv (a_sys s)"
      "queues (a_sys (passOnExit f g s)) = queues (a_sys s)"
    by (simp_all add: set_exit_keeps set_exit_facts)
qed (simp_all add: passOnExit_def upd_fib_def upd_fiber_def)

lemma joinable_fold:
  fixes fs :: "fid list" and s :: "'a async" and g hs
  assumes "distinct fs"
  defines "s' \<equiv> snd (fold (joinable g) (map JFiber fs) (hs, s))"
  shows "sync_inv (a_sys s') = sync_inv (a_sys s)" "queues (a_sys s') = queues (a_sys s)"
    "a_gates s' = a_gates s" "a_futures s' = a_futures s" "a_typed s' = a_typed s"
    "m_exit (fib s' h) = (if h \<in> set fs then [Hookable PASS_ON_EXIT (Some g)] else []) @ m_exit (fib s h)"
    "m_state (fib s' h) = m_state (fib s h)"
  using assms(1) unfolding s'_def
  by (induction fs arbitrary: s) (auto simp: passOnExit_keeps atExit_def hook_add_def)

lemma joiner_inv:
  assumes "create_res env = E_OK" "sync_inv (a_sys s)" "queues (a_sys s) (Qid g 0) = []" "distinct fs" "j \<notin> set fs"
    "\<forall>f \<in> set fs. gate_hooks (m_exit (fib s f)) = []" "separate g (set fs) s"
  shows "join_inv env g j (length fs) ((snd (joiner g (map JFiber fs) s), t), set fs, False)"
proof -
  define s' where "s' = snd (joiner g (map JFiber fs) s)"
  have k: "sync_inv (a_sys s') = sync_inv (a_sys s)" "queues (a_sys s') = queues (a_sys s)"
      "a_gates s' g = Gate (length fs + 1)" "a_futures s' = a_futures s" "a_typed s' = a_typed s"
      "m_exit (fib s' h) = (if h \<in> set fs then [Hookable PASS_ON_EXIT (Some g)] else []) @ m_exit (fib s h)" for h
    using joinable_fold[OF assms(4), of g "[]" "s\<lparr>a_gates := (a_gates s)(g := Gate (length fs + 1))\<rparr>"]
    by (simp_all add: s'_def joiner_def)
  have "separate g (set fs) s'" using assms(7) k by (simp add: separate_def pending_def)
  then show ?thesis unfolding s'_def[symmetric]
    using assms(1-6) distinct_card[OF assms(4)] k by (simp add: join_inv_def arrived_def Gate_def gate_hooks_def)
qed

subsection \<open>Properties\<close>

text \<open>
  C10. A joiner of fibers that have not ended yet waits for all of them, and no longer. In every run where the joined fibers end, the joining fiber gets to the wait of the joiner's
  destructor, and control moves: once the destructor waits, the joining fiber is parked as long
  as one of the joined fibers is not dead, and it is ready as soon as all are. A destructor that finds all of them
  dead goes on at once. Each joined fiber that is not dead can end, whatever it returns or throws. The joined fibers are distinct, are not the joining one, have no other gate to pass at
  their end, and have futures of their own. (Joining a dead fiber never ends: \<open>joining_dead_fiber_hangs\<close>.)
\<close>

theorem joiner_waits_for_all:
  assumes "create_res env = E_OK" "sync_inv (a_sys s)" "queues (a_sys s) (Qid g 0) = []" "distinct fs" "j \<notin> set fs"
    "\<forall>f \<in> set fs. gate_hooks (m_exit (fib s f)) = [] \<and> m_state (fib s f) \<noteq> Dead" "separate g (set fs) s" "length fs + 1 < SIZE_MOD"
    "(join_step env g j)\<^sup>*\<^sup>* ((snd (joiner g (map JFiber fs) s), t), set fs, False) ((s1, t1), L, w)"
  defines "ended \<equiv> \<forall>f \<in> set fs. m_state (fib s1 f) = Dead"
  shows "(w \<and> \<not> ended \<longrightarrow> queues (a_sys s1) (Qid g 0) = [j] \<and> st (wkr (a_sys s1)) j = Waiting)
    \<and> (w \<and> ended \<longrightarrow> is_ready (a_sys s1) j)
    \<and> (\<not> w \<and> executing j (a_sys s1) \<longrightarrow> (\<exists>s2. join_wait env t1 g s1 = Some (if ended then Done else Blocked, s2)))
    \<and> (\<forall>f r. f \<in> set fs \<and> executing f (a_sys s1) \<longrightarrow> (\<exists>s2. typed_fiber_end f r s1 = Some s2))"
proof -
  have h: "\<forall>f \<in> set fs. gate_hooks (m_exit (fib s f)) = []" using assms(6) by blast
  note i0 = joiner_inv[OF assms(1-5) h assms(7), of t]
  have i: "join_inv env g j (length fs) ((s1, t1), L, w)" using join_inv_reach[OF assms(9) i0 assms(8)] .
  have "m_state (fib (snd (joiner g (map JFiber fs) s)) f) = m_state (fib s f)" for f
    using joinable_fold(7)[OF assms(4), of g "[]" "s\<lparr>a_gates := (a_gates s)(g := Gate (length fs + 1))\<rparr>" f] by (simp add: joiner_def)
  then have "set fs = {f \<in> set fs. m_state (fib (snd (joiner g (map JFiber fs) s)) f) \<noteq> Dead}" using assms(6) by auto
  then have L: "L = {f \<in> set fs. m_state (fib s1 f) \<noteq> Dead}"
    using join_alive_reach[OF assms(9) i0 assms(8), of "set fs"] by simp
  have e: "ended \<longleftrightarrow> L = {}" unfolding L ended_def by blast
  have q: "queues (a_sys s1) (Qid g 0) = (if w \<and> L \<noteq> {} then [j] else [])" "parked_ok (a_sys s1)"
    using i by (auto simp: join_inv_def sync_inv_def sys_inv_def)
  have "st (wkr (a_sys s1)) j = Waiting" if "w" "L \<noteq> {}"
  proof -
    have "j \<in> set (queues (a_sys s1) (Qid g 0))" using q(1) that by simp
    then show ?thesis using q(2) unfolding parked_ok_def by blast
  qed
  moreover have "w \<and> L = {} \<longrightarrow> is_ready (a_sys s1) j" using i by (auto simp: join_inv_def)
  moreover have "\<exists>s2. join_wait env t1 g s1 = Some (if L = {} then Done else Blocked, s2)"
    if "\<not> w" "executing j (a_sys s1)"
  proof -
    have "join_inv env g j (length fs) ((s1, t1), L, False)" using i that(1) by simp
    then show ?thesis using join_wait_ok[OF _ that(2) assms(8)] by blast
  qed
  moreover have "\<exists>s2. typed_fiber_end f r s1 = Some s2" if "f \<in> set fs" "executing f (a_sys s1)" for f r
  proof -
    have "f \<in> L" using L that by (simp add: executing_def)
    then show ?thesis using join_end_ok[OF i that(2) _ assms(8)] by blast
  qed
  ultimately show ?thesis using q(1) e by auto
qed

text \<open>A system where fiber 3 executes and fibers 1 and 2 are ready; no fiber has a future.\<close>

definition demo_async :: "nat async" where
  "demo_async = \<lparr>a_sys = demo_sys, a_futures = (\<lambda>_. Future), a_typed = (\<lambda>_. None), a_gates = (\<lambda>_. Gate 1),
     a_used = (\<lambda>_. 0), a_next = 20\<rparr>"

lemma demo_async_exit: "m_exit (fib demo_async f) = []"
  by (simp add: demo_async_def demo_sys_def busy_worker_def demo_worker_def ready_fiber_def demo_fiber_def Fiber_def
      setState_def)

lemma demo_async_facts:
  "create_res demo_env = E_OK" "sync_inv (a_sys demo_async)" "queues (a_sys demo_async) k = []"
  "executing 3 (a_sys demo_async)" "a_typed demo_async f = None" "m_exit (fib demo_async f) = []"
  using demo_fresh[of k] demo_sys_inv demo_async_exit by (auto simp: demo_async_def fresh_def)

lemma future_new: "\<not> future_valid Future" "optional_ok (m_value Future)"
  using optional_new by (simp_all add: Future_def future_valid_def optional_valid_content[OF optional_new(1)])

theorem joiner_waits_for_all_witness:
  "\<exists>s. join_wait demo_env ts_null 9 (snd (joiner 9 [JFiber 1, JFiber 2] demo_async)) = Some (Blocked, s)"
proof -
  have "executing 3 (a_sys (snd (joiner 9 (map JFiber [1, 2]) demo_async)))"
    using demo_async_facts(4)
    by (simp add: joiner_def passOnExit_def upd_fib_def upd_fiber_def executing_def demo_async_def demo_sys_def)
  moreover have d: "m_state (fib demo_async 1) = Ready" "m_state (fib demo_async 2) = Ready"
    by (simp_all add: demo_async_def demo_sys_def busy_worker_def demo_worker_def ready_fiber_def)
  moreover have "m_state (fib (snd (joiner 9 (map JFiber [1, 2]) demo_async)) 1) = Ready"
    using d by (simp add: joiner_def passOnExit_def upd_fib_def upd_fiber_def atExit_def)
  ultimately show ?thesis
    using joiner_waits_for_all[OF demo_async_facts(1,2,3), of "[1, 2]" 3 9, OF _ _ _ _ _ rtranclp.rtrancl_refl, of ts_null]
    by (simp add: demo_async_facts separate_def pending_def gate_hooks_def SIZE_MOD_def)
qed

text \<open>
  C22. What the function of a typed fiber returns or throws arrives in the fiber's future, at the end of the fiber: all
  that wait for the future become ready, the gate of the exit hook is passed, other futures are as they were,
  and the fiber is dead, with no exit hooks left.
\<close>

theorem typed_fiber_delivers:
  assumes "sync_inv (a_sys s)" "executing f (a_sys s)" "pending f s" "gate_hooks (m_exit (fib s f)) = [Some g]"
    "a_typed s f = Some a" "a \<noteq> g"
  shows "\<exists>s'. typed_fiber_end f (TypedFiberN_entry fn args) s = Some s' \<and> sync_inv (a_sys s')
    \<and> future_value (a_futures s' a) = Some (fn args) \<and> (\<forall>h \<in> set (queues (a_sys s) (Qid a 0)). is_ready (a_sys s') h)
    \<and> (\<forall>b. b \<noteq> a \<longrightarrow> a_futures s' b = a_futures s b) \<and> a_gates s' g = gate_passed (a_gates s g)
    \<and> m_state (fib s' f) = Dead \<and> m_exit (fib s' f) = []"
proof -
  have n: "a_typed s f \<noteq> Some g" using assms(5,6) by simp
  obtain m y where y: "typed_fiber_end f (fn args) s
      = Some (s\<lparr>a_futures := m, a_gates := (a_gates s)(g := gate_passed (a_gates s g)), a_sys := y\<rparr>)"
    and y': "sync_inv y" "st (wkr y) f = Dead" "m_exit (m_fibers (wkr y) f) = []"
      "\<forall>a. a_typed s f = Some a \<longrightarrow> future_value (m a) = Some (fn args)
        \<and> (\<forall>h \<in> set (queues (a_sys s) (Qid a 0)). is_ready y h)"
      "\<forall>a. a_typed s f \<noteq> Some a \<longrightarrow> m a = a_futures s a"
    using typed_fiber_end_ok[OF assms(1-4) n, of "fn args"] by (elim exE conjE) (rule that)
  then show ?thesis using assms(5) by (simp add: TypedFiberN_entry_def)
qed

theorem typed_fiber_delivers_witness:
  defines "s \<equiv> passOnExit 3 9 (demo_async\<lparr>a_typed := (\<lambda>_. None)(3 := Some 20)\<rparr>)"
  shows "\<exists>s'. typed_fiber_end 3 (TypedFiberN_entry (\<lambda>xs. Inr (sum_list xs)) [4, 5]) s = Some s'
    \<and> future_value (a_futures s' 20) = Some (Inr (9 :: nat))"
proof -
  have "sync_inv (a_sys s)" "pending 3 s" "gate_hooks (m_exit (fib s 3)) = [Some 9]" "a_typed s 3 = Some 20"
    using demo_async_facts(2,6) future_new
    by (simp_all add: s_def passOnExit_keeps pending_def gate_hooks_def atExit_def hook_add_def demo_async_def)
  moreover have "executing 3 (a_sys s)" using demo_async_facts(4)
    by (simp add: s_def passOnExit_def upd_fib_def upd_fiber_def executing_def demo_async_def atExit_def)
  ultimately show ?thesis
    using typed_fiber_delivers[of s 3 9 20 "\<lambda>xs. Inr (sum_list xs)" "[4, 5]"] by auto
qed

text \<open>
  The result of a fiber that is dead already, and has no future yet, is the exception: waiting for it returns at
  once, and its value is \<open>FiberAlreadyDead\<close>.
\<close>

theorem dead_fiber_result:
  assumes "sync_inv (a_sys s)" "executing c (a_sys s)" "m_state (fib s f) = Dead" "a_typed s f = None"
  shows "\<exists>s'. fiber_wait env t f s = Some (Done, a_next s, s') \<and> executing c (a_sys s')
    \<and> a_typed s' f = Some (a_next s) \<and> future_value (a_futures s' (a_next s)) = Some (Inl FiberAlreadyDead)"
proof -
  let ?a = "a_next s"
  let ?s = "s\<lparr>a_futures := (a_futures s)(?a := Future), a_next := ?a + 1, a_typed := (a_typed s)(f := Some ?a)\<rparr>"
  have "pending f ?s" using future_new by (simp add: pending_def)
  then obtain m y where y: "setFuture f (Inl FiberAlreadyDead) ?s = Some (?s\<lparr>a_futures := m, a_sys := y\<rparr>)"
      "executing c y" "future_value (m ?a) = Some (Inl FiberAlreadyDead)"
    using setFuture_ok[of ?s c f "Inl FiberAlreadyDead"] assms by auto
  then have v: "future_valid (m ?a)"
    by (auto simp: future_value_def future_valid_def optional_value_def split: if_splits)
  have "withFuture f s = Some (?a, ?s\<lparr>a_futures := m, a_sys := y\<rparr>)"
    using assms(3,4) y(1) by (simp add: withFuture_def registerFuture_def Let_def)
  then show ?thesis using y v by (simp add: fiber_wait_def future_wait_def)
qed

theorem dead_fiber_result_witness:
  "\<exists>s'. fiber_wait demo_env ts_null 4 demo_async = Some (Done, 20, s')
    \<and> future_value (a_futures s' 20) = Some (Inl FiberAlreadyDead)"
proof -
  have "m_state (fib demo_async 4) = Dead"
    by (simp add: demo_async_def demo_sys_def busy_worker_def demo_worker_def)
  then show ?thesis
    using dead_fiber_result[OF demo_async_facts(2,4), of 4 demo_env ts_null] demo_async_facts(5)
    by (auto simp: demo_async_def)
qed

lemma join_dead_step:
  assumes "join_step env g j x y" "join_inv env g j 1 x" "1 + 1 < SIZE_MOD"
    "case x of ((s, t), L, w) \<Rightarrow> L = {f} \<and> m_state (fib s f) = Dead"
  shows "case y of ((s, t), L, w) \<Rightarrow> L = {f} \<and> m_state (fib s f) = Dead"
  using assms
proof (induction rule: join_step.induct)
  case (JEnd f' s L r s' t w)
  then show ?case by (auto simp: executing_def)
next
  case (JWait s w t out s' L)
  have i: "create_res env = E_OK" "sync_inv (a_sys s)" "g_count (a_gates s g) = 2" "g_current (a_gates s g) = 0"
      "L = {f}" "m_state (fib s f) = Dead"
    using JWait.prems JWait.hyps(2) by (auto simp: join_inv_def arrived_def)
  then obtain m y where y: "gate_wait env t (Qid g 0) (a_gates s g) (a_sys s) = Some (out, m, y)" "a_sys s' = y"
    using JWait.hyps(3) by (auto simp: join_wait_def split: bind_splits)
  then obtain r where "block env t (Qid g 0) (a_sys s) = Some (r, y)"
    using i(3,4) by (auto simp: gate_wait_def gate_pass_def SIZE_MOD_def Let_def split: bind_splits sched_result.splits)
  then show ?case using block_dead[OF _ i(2,1) JWait.hyps(1)] i(5,6) y(2) by simp
next
  case (JOther s t y t' L w)
  have i: "sync_inv (a_sys s)" "create_res env = E_OK" using JOther.prems(1) by (auto simp: join_inv_def)
  then have "sys_inv (a_sys s)" "contextSwitchEnabled (wkr (a_sys s))" "worker_started (wkr (a_sys s))"
    by (auto simp: sync_inv_def)
  then have "sched_post (wkr (a_sys s)) r w'" if "schedule env None t (wkr (a_sys s)) = Some (r, w')" for r w'
    using schedule_sys[OF _ i(2), of "a_sys s" t] that by auto
  then show ?case using JOther.hyps JOther.prems(3) sched_post_dead by (fastforce simp: other_of_def)
qed

text \<open>
  Joining a fiber that is already dead never ends: its exit hooks ran before the gate was added to them. Whatever
  happens, the fiber stays to be waited for, and the joining fiber stays parked.
\<close>

theorem joining_dead_fiber_hangs:
  assumes "create_res env = E_OK" "sync_inv (a_sys s)" "queues (a_sys s) (Qid g 0) = []" "j \<noteq> f"
    "m_state (fib s f) = Dead" "m_exit (fib s f) = []" "a_typed s f = None"
    "(join_step env g j)\<^sup>*\<^sup>* ((snd (joiner g [JFiber f] s), t), {f}, False) ((s1, t1), L, w)"
  shows "L = {f} \<and> (w \<longrightarrow> queues (a_sys s1) (Qid g 0) = [j])
    \<and> (executing j (a_sys s1) \<and> \<not> w \<longrightarrow> (\<exists>s2. join_wait env t1 g s1 = Some (Blocked, s2)))"
proof -
  have n: "1 + 1 < SIZE_MOD" by (simp add: SIZE_MOD_def)
  let ?P = "\<lambda>x. join_inv env g j 1 x \<and> (case x of ((s, t), L, w) \<Rightarrow> L = {f} \<and> m_state (fib s f) = Dead)"
  have "join_inv env g j 1 ((snd (joiner g [JFiber f] s), t), {f}, False)"
    using joiner_inv[OF assms(1-3), of "[f]" j t] assms(4,6,7) by (simp add: gate_hooks_def separate_def pending_def)
  moreover have "m_state (fib (snd (joiner g [JFiber f] s)) f) = Dead"
    using assms(5) by (simp add: joiner_def passOnExit_keeps atExit_def)
  ultimately have 0: "?P ((snd (joiner g [JFiber f] s), t), {f}, False)" by simp
  have "?P y" if "(join_step env g j)\<^sup>*\<^sup>* ((snd (joiner g [JFiber f] s), t), {f}, False) y" for y
    using that
  proof (induction rule: rtranclp_induct)
    case (step y z)
    then show ?case using join_inv_step[OF step(2) _ n] join_dead_step[OF step(2) _ n] by blast
  qed (rule 0)
  then have i: "join_inv env g j 1 ((s1, t1), L, w)" "L = {f}" using assms(8) by fastforce+
  have "queues (a_sys s1) (Qid g 0) = [j]" if w using i that by (simp add: join_inv_def)
  moreover have "\<exists>s2. join_wait env t1 g s1 = Some (Blocked, s2)" if "executing j (a_sys s1)" "\<not> w"
  proof -
    have "join_inv env g j 1 ((s1, t1), L, False)" using i(1) that(2) by simp
    then show ?thesis using join_wait_ok[OF _ that(1) n] i(2) by fastforce
  qed
  ultimately show ?thesis using i(2) by blast
qed

theorem joining_dead_fiber_hangs_witness:
  "\<exists>s. join_wait demo_env ts_null 9 (snd (joiner 9 [JFiber 4] demo_async)) = Some (Blocked, s)"
proof -
  have "m_state (fib demo_async 4) = Dead"
    by (simp add: demo_async_def demo_sys_def busy_worker_def demo_worker_def)
  moreover have "executing 3 (a_sys (snd (joiner 9 [JFiber 4] demo_async)))"
    using demo_async_facts(4)
    by (simp add: joiner_def passOnExit_def upd_fib_def upd_fiber_def executing_def demo_async_def demo_sys_def)
  ultimately show ?thesis
    using joining_dead_fiber_hangs[OF demo_async_facts(1,2,3), of 3 4 9, OF _ _ _ _ rtranclp.rtrancl_refl, of ts_null]
    by (simp add: demo_async_facts)
qed

lemma zth_fiber_create_ok:
  assumes "sync_inv (a_sys s)" "m_state (fib s f) = Uninitialized" "f \<noteq> m_workerFiber (wkr (a_sys s))"
    "\<not> linked (wkr (a_sys s)) f" "\<not> m_negative slice"
  shows "zth_fiber_create BadAlloc f (size0, slice, dt) stack s = Some (ENOMEM, s)
    \<and> zth_fiber_create OtherException f (size0, slice, dt) stack s = Some (EAGAIN, s)
    \<and> (\<exists>s'. zth_fiber_create AllocOk f (size0, slice, dt) stack s = Some (E_OK, s') \<and> sync_inv (a_sys s')
      \<and> m_runnableQueue (wkr (a_sys s')) = m_runnableQueue (wkr (a_sys s)) @ [f] \<and> m_state (fib s' f) = New
      \<and> m_stackSize (fib s' f) = (if stack = 0 then size0 else stack) \<and> a_typed s' f = None
      \<and> (\<forall>h. h \<noteq> f \<longrightarrow> fib s' h = fib s h) \<and> queues (a_sys s') = queues (a_sys s)
      \<and> a_futures s' = a_futures s \<and> a_next s' = a_next s \<and> m_currentFiber (wkr (a_sys s')) = m_currentFiber (wkr (a_sys s)))"
proof -
  let ?w = "wkr (a_sys s)"
  define fb where "fb = the (Fiber False size0 slice dt)"
  define fb' where "fb' = (if stack = 0 then fb else fb\<lparr>m_stackSize := stack\<rparr>)"
  have fb: "Fiber False size0 slice dt = Some fb" "m_state fb' = New" "fiber_inv fb'" "m_timeslice fb' = slice"
      "m_state fb = New" "m_stackSize fb = size0"
    by (simp_all add: fb_def fb'_def Fiber_def setState_def fiber_inv_def)
  let ?w' = "?w\<lparr>m_fibers := (m_fibers ?w)(f := fb'), m_runnableQueue := m_runnableQueue ?w @ [f]\<rparr>"
  let ?s = "s\<lparr>a_sys := (a_sys s)\<lparr>wkr := ?w'\<rparr>, a_typed := (a_typed s)(f := None)\<rparr>"
  have i: "winv ?w" "parked_ok (a_sys s)" using assms(1) by (auto simp: sync_inv_def sys_inv_def)
  have h: "holder ?w' = holder ?w" by (cases "m_currentFiber ?w") (simp_all add: holder_def)
  have "holder ?w \<noteq> f" using i(1) assms(2,3) by (auto simp: winv_defs holder_def split: option.splits)
  then have "winv ?w'" using i(1) assms(2-5) fb h by (auto simp: winv_defs)
  moreover have "parked_ok (a_sys ?s)" using i(2) assms(2) by (auto simp: parked_ok_def linked_def)
  ultimately have "sync_inv (a_sys ?s)" using assms(1,3)
    by (simp add: sync_inv_def sys_inv_def contextSwitchEnabled_def worker_started_def)
  moreover have "zth_fiber_create AllocOk f (size0, slice, dt) stack s = Some (E_OK, ?s)"
    using fb assms(4)
    by (simp add: zth_fiber_create_def factory_call_def hatch_def add_def m_setStackSize_def setStackSize_def upd_fib_def
        upd_fiber_def linked_def spec_push_back_def fb'_def Let_def)
  ultimately show ?thesis
    using fb(2,6) by (intro conjI exI[of _ ?s]) (auto simp: zth_fiber_create_def fb'_def)
qed

text \<open>
  \<^verbatim>\<open>zth_fiber_create()\<close>: a failed allocation is \<^verbatim>\<open>ENOMEM\<close>, any other exception \<^verbatim>\<open>EAGAIN\<close>, and nothing
  changes. Otherwise there is a new fiber at the end of the run queue, with the stack size asked for, or the configured
  one for 0; all other fibers are as they were.
\<close>

theorem zth_fiber_create_correct:
  assumes "sync_inv (a_sys s)" "m_state (fib s f) = Uninitialized" "f \<noteq> m_workerFiber (wkr (a_sys s))"
    "\<not> linked (wkr (a_sys s)) f" "\<not> m_negative slice"
  shows "zth_fiber_create BadAlloc f (size0, slice, dt) stack s = Some (ENOMEM, s)
    \<and> zth_fiber_create OtherException f (size0, slice, dt) stack s = Some (EAGAIN, s)
    \<and> (\<exists>s'. zth_fiber_create AllocOk f (size0, slice, dt) stack s = Some (E_OK, s') \<and> sync_inv (a_sys s')
      \<and> m_runnableQueue (wkr (a_sys s')) = m_runnableQueue (wkr (a_sys s)) @ [f] \<and> m_state (fib s' f) = New
      \<and> m_stackSize (fib s' f) = (if stack = 0 then size0 else stack) \<and> a_typed s' f = None
      \<and> (\<forall>h. h \<noteq> f \<longrightarrow> fib s' h = fib s h) \<and> queues (a_sys s') = queues (a_sys s))"
  using zth_fiber_create_ok[OF assms, of size0 dt stack] by blast

theorem zth_fiber_create_correct_witness:
  "\<exists>s'. zth_fiber_create AllocOk 7 (4096, ti_null, ti_null) 0 demo_async = Some (E_OK, s')
    \<and> m_runnableQueue (wkr (a_sys s')) = [1, 2, 3, 7] \<and> m_stackSize (fib s' 7) = 4096"
proof -
  have "m_state (fib demo_async 7) = Uninitialized" "m_runnableQueue (wkr (a_sys demo_async)) = [1, 2, 3]"
      "\<not> linked (wkr (a_sys demo_async)) 7" "m_workerFiber (wkr (a_sys demo_async)) = 0" "\<not> m_negative ti_null"
    by (simp_all add: demo_async_def demo_sys_def busy_worker_def demo_worker_def linked_def ti_null_def)
  then show ?thesis
    using zth_fiber_create_correct[OF demo_async_facts(2), of 7 ti_null 4096 ti_null 0] by auto
qed

lemma joiner_futures:
  "fold (joinable g) (map JFuture as) (hs, s)
   = (rev as @ hs, s\<lparr>a_used := (\<lambda>a. a_used s a + int (count_list as a))\<rparr>)"
  by (induction as arbitrary: hs s) (auto simp: fun_eq_iff)

lemma join_dtor_ready:
  assumes "create_res env = E_OK" "sync_inv (a_sys s)" "executing j (a_sys s)" "\<forall>a \<in> set hs. future_valid (a_futures s a)"
    "g_count (a_gates s g) = n + 1" "g_current (a_gates s g) + length hs = n" "n + 1 < SIZE_MOD"
  shows "\<exists>s'. join_dtor env t g hs s = Some (Done, [], s')
    \<and> (\<forall>a. a_used s' a = a_used s a - int (count_list hs a)) \<and> is_ready (a_sys s') j"
  using assms
proof (induction hs arbitrary: s)
  case Nil
  then have "opens (a_gates s g)" by simp
  then obtain y where "gate_wait env t (Qid g 0) (a_gates s g) (a_sys s) = Some (Done, gate_passed (a_gates s g), y)"
      "is_ready y j"
    using gate_wait_sys[OF Nil.prems(1-3), of t "Qid g 0" "a_gates s g"] by auto
  then show ?case by (simp add: join_wait_def)
next
  case (Cons a hs)
  let ?m = "a_gates s g"
  have o: "\<not> opens ?m" "g_current (gate_passed ?m) = Suc (g_current ?m)" "g_count (gate_passed ?m) = g_count ?m"
    using Cons.prems(5-7) by (auto simp: gate_passed_def Let_def)
  obtain y where y: "gate_pass (Qid g 0) ?m (a_sys s) = Some (False, gate_passed ?m, y)" "sync_inv y" "executing j y"
    using gate_pass_sys[OF Cons.prems(2,3), of "Qid g 0" ?m] o(1) by auto
  let ?s = "s\<lparr>a_used := (a_used s)(a := a_used s a - 1), a_gates := (a_gates s)(g := gate_passed ?m), a_sys := y\<rparr>"
  have "join_cb env t g a s = Some (Done, ?s)"
    using Cons.prems(4) y(1) by (simp add: join_cb_def join_cb_rest_def future_wait_def)
  moreover obtain s' where "join_dtor env t g hs ?s = Some (Done, [], s')"
      "\<forall>x. a_used s' x = a_used ?s x - int (count_list hs x)" "is_ready (a_sys s') j"
    using Cons.IH[of ?s] Cons.prems y o by auto
  ultimately show ?case by (intro exI[of _ s']) auto
qed

text \<open>
  Joining futures that have their values already does not block, and gives back all references that the joiner took.
\<close>

theorem join_ready_futures:
  assumes "create_res env = E_OK" "sync_inv (a_sys s)" "executing j (a_sys s)"
    "\<forall>a \<in> set as. future_valid (a_futures s a)" "length as + 1 < SIZE_MOD"
  shows "case joiner g (map JFuture as) s of (hs, s1) \<Rightarrow>
    (\<forall>a. a_used s1 a = a_used s a + int (count_list as a))
    \<and> (\<exists>s2. join_dtor env t g hs s1 = Some (Done, [], s2) \<and> a_used s2 = a_used s \<and> is_ready (a_sys s2) j)"
proof -
  let ?s1 = "s\<lparr>a_gates := (a_gates s)(g := Gate (length as + 1)), a_used := (\<lambda>a. a_used s a + int (count_list as a))\<rparr>"
  have "joiner g (map JFuture as) s = (rev as, ?s1)" by (simp add: joiner_def joiner_futures)
  moreover obtain s2 where "join_dtor env t g (rev as) ?s1 = Some (Done, [], s2)"
      "\<forall>x. a_used s2 x = a_used ?s1 x - int (count_list (rev as) x)" "is_ready (a_sys s2) j"
    using join_dtor_ready[of env ?s1 j "rev as" g "length as" t] assms by (auto simp: Gate_def)
  ultimately show ?thesis by (auto simp: fun_eq_iff)
qed

theorem join_ready_futures_witness:
  "\<exists>s. join_dtor demo_env ts_null 9 [20, 20] (snd (joiner 9 [JFuture 20, JFuture 20]
    (demo_async\<lparr>a_futures := (\<lambda>_. \<lparr>m_value = the (optional_set 7 Optional)\<rparr>)\<rparr>))) = Some (Done, [], s)"
proof -
  let ?s = "demo_async\<lparr>a_futures := (\<lambda>_. \<lparr>m_value = the (optional_set 7 Optional)\<rparr>)\<rparr>"
  have "future_valid (a_futures ?s a)" for a
    by (simp add: future_valid_def optional_defs Optional_def)
  then show ?thesis
    using join_ready_futures[of demo_env ?s 3 "[20, 20]" ts_null 9] demo_async_facts(1,2,4)
    by (simp add: joiner_def SIZE_MOD_def) blast
qed

end
