(* ===== verification/Zth_StdFuture.thy ===== *)
theory Zth_StdFuture
  imports Zth_Async
begin

section \<open>Futures and promises of the C++ standard library\<close>

text \<open>
  \<^verbatim>\<open>include/libzth/future.h\<close>: \<^verbatim>\<open>std::future\<close>, \<^verbatim>\<open>std::shared_future\<close> and \<^verbatim>\<open>std::promise\<close> on top of \<^verbatim>\<open>zth::Future\<close>, and \<^verbatim>\<open>zth::async\<close>. An
  object holds a shared pointer to a future, or none: an address of the state of \<open>Zth_Async\<close>, or \<open>None\<close>. What they throw is a
  value of \<open>std_error\<close>. The variant for references does the same with a pointer;
  \<^verbatim>\<open>wait_for()\<close> and \<^verbatim>\<open>wait_until()\<close> call a function that does not exist and are left out.
\<close>

subsection \<open>Futures\<close>

datatype std_error = NoState | FutureAlreadyRetrieved | PromiseAlreadySatisfied | InvalidArgument

type_synonym std_future = "addr option"

definition std_valid :: "std_future \<Rightarrow> bool" where
  "std_valid f \<longleftrightarrow> f \<noteq> None"

text \<open>\<^verbatim>\<open>wait()\<close>, and \<^verbatim>\<open>get()\<close>, which is the value after that. An outcome \<open>Blocked\<close> means that the fiber waits.\<close>

definition std_wait :: "run_env \<Rightarrow> timespec \<Rightarrow> std_future \<Rightarrow> 'a async \<Rightarrow> (std_error + outcome \<times> 'a async) option" where
  "std_wait env now f s = (case f of
     None \<Rightarrow> Some (Inl NoState)
   | Some a \<Rightarrow> do {
       (out, m, y) \<leftarrow> future_wait env now (Qid a 0) (a_futures s a) (a_sys s);
       Some (Inr (out, s\<lparr>a_futures := (a_futures s)(a := m), a_sys := y\<rparr>))
     })"

definition std_get :: "run_env \<Rightarrow> timespec \<Rightarrow> std_future \<Rightarrow> 'a async
    \<Rightarrow> (std_error + (fexn + 'a) option \<times> 'a async) option" where
  "std_get env now f s = do {
     r \<leftarrow> std_wait env now f s;
     case (r, f) of
       (Inr (Done, s), Some a) \<Rightarrow> do { v \<leftarrow> future_value (a_futures s a); Some (Inr (Some v, s)) }
     | (Inr (Blocked, s), _) \<Rightarrow> Some (Inr (None, s))
     | (Inl e, _) \<Rightarrow> Some (Inl e)
     | _ \<Rightarrow> None
   }"

text \<open>\<^verbatim>\<open>get()\<close> of a future without a value only waits.\<close>

definition std_get_void :: "run_env \<Rightarrow> timespec \<Rightarrow> std_future \<Rightarrow> 'a async \<Rightarrow> (std_error + outcome \<times> 'a async) option" where
  "std_get_void env now f s = std_wait env now f s"

text \<open>
  \<^verbatim>\<open>share()\<close>: the result, and what is left of the future. The member function is \<^verbatim>\<open>const\<close>, so that the move from the
  member is a copy.
\<close>

definition share :: "std_future \<Rightarrow> std_future \<times> std_future" where
  "share f = (f, f)"

subsection \<open>Promises\<close>

record std_promise =
  sp_future :: std_future
  sp_got :: bool

definition std_promise_new :: "'a async \<Rightarrow> std_promise \<times> 'a async" where
  "std_promise_new s = (let a = a_next s
     in (\<lparr>sp_future = Some a, sp_got = False\<rparr>, s\<lparr>a_futures := (a_futures s)(a := Future), a_next := a + 1\<rparr>))"

definition std_promise_of :: "std_future \<Rightarrow> std_promise" where
  "std_promise_of f = \<lparr>sp_future = f, sp_got = False\<rparr>"

text \<open>Assignment by move, and the exchange of two promises: the pointers only.\<close>

definition promise_assign :: "std_promise \<Rightarrow> std_promise \<Rightarrow> std_promise \<times> std_promise" where
  "promise_assign this other = (this\<lparr>sp_future := sp_future other\<rparr>, other\<lparr>sp_future := None\<rparr>)"

definition promise_swap :: "std_promise \<Rightarrow> std_promise \<Rightarrow> std_promise \<times> std_promise" where
  "promise_swap this other = (this\<lparr>sp_future := sp_future other\<rparr>, other\<lparr>sp_future := sp_future this\<rparr>)"

definition get_future :: "std_promise \<Rightarrow> std_error + std_future \<times> std_promise" where
  "get_future p =
     (if sp_future p = None then Inl NoState
      else if sp_got p then Inl FutureAlreadyRetrieved
      else Inr (sp_future p, p\<lparr>sp_got := True\<rparr>))"

definition check_not_satisfied :: "std_promise \<Rightarrow> 'a async \<Rightarrow> std_error option" where
  "check_not_satisfied p s = (case sp_future p of
     None \<Rightarrow> Some NoState
   | Some a \<Rightarrow> if future_valid (a_futures s a) then Some PromiseAlreadySatisfied else None)"

text \<open>\<^verbatim>\<open>set_value()\<close> with or without a value, and \<^verbatim>\<open>set_exception()\<close>; its argument may be a null pointer.\<close>

definition promise_set_value :: "'a \<Rightarrow> std_promise \<Rightarrow> 'a async \<Rightarrow> (std_error + 'a async) option" where
  "promise_set_value v p s = (case check_not_satisfied p s of
     Some e \<Rightarrow> Some (Inl e)
   | None \<Rightarrow> do {
       a \<leftarrow> sp_future p;
       (m, y) \<leftarrow> future_set (Qid a 0) v (a_futures s a) (a_sys s);
       Some (Inr (s\<lparr>a_futures := (a_futures s)(a := m), a_sys := y\<rparr>))
     })"

definition promise_set_exception :: "fexn option \<Rightarrow> std_promise \<Rightarrow> 'a async \<Rightarrow> (std_error + 'a async) option" where
  "promise_set_exception x p s = (case check_not_satisfied p s of
     Some e \<Rightarrow> Some (Inl e)
   | None \<Rightarrow> do {
       a \<leftarrow> sp_future p;
       (m, y) \<leftarrow> future_set_exception (Qid a 0) x (a_futures s a) (a_sys s);
       Some (Inr (s\<lparr>a_futures := (a_futures s)(a := m), a_sys := y\<rparr>))
     })"

subsection \<open>Asynchronous calls\<close>

datatype launch = Detached | Awaitable | OtherPolicy

definition std_async :: "launch \<Rightarrow> fid \<Rightarrow> nat \<times> TimeInterval \<times> TimeInterval \<Rightarrow> 'a async
    \<Rightarrow> ((std_error + std_future) \<times> 'a async) option" where
  "std_async policy f cfg s = do {
     s \<leftarrow> factory_call f cfg s;
     case policy of
       Detached \<Rightarrow> Some (Inr None, s)
     | Awaitable \<Rightarrow> do { (a, s) \<leftarrow> asFuture f s; Some (Inr (Some a), s) }
     | OtherPolicy \<Rightarrow> Some (Inl InvalidArgument, s)
   }"

subsection \<open>The protocol of a promise\<close>

text \<open>
  The calls on a promise, with what they return or throw. The specification keeps whether the future was retrieved
  and what it was set to; setting a null pointer as exception is accepted, but it does not satisfy the promise.
\<close>

datatype 'a pcall = GetFuture | SetValue 'a | SetException "fexn option"

datatype panswer = GotFuture addr | Set | Threw std_error

fun promise_do :: "'a pcall \<Rightarrow> std_promise \<times> 'a async \<Rightarrow> (panswer \<times> std_promise \<times> 'a async) option" where
  "promise_do GetFuture (p, s) = (case get_future p of
     Inl e \<Rightarrow> Some (Threw e, p, s)
   | Inr (Some a, p) \<Rightarrow> Some (GotFuture a, p, s)
   | Inr (None, p) \<Rightarrow> None)"
| "promise_do (SetValue v) (p, s) = do {
     x \<leftarrow> promise_set_value v p s;
     Some (case x of Inl e \<Rightarrow> (Threw e, p, s) | Inr s \<Rightarrow> (Set, p, s))
   }"
| "promise_do (SetException e) (p, s) = do {
     x \<leftarrow> promise_set_exception e p s;
     Some (case x of Inl e \<Rightarrow> (Threw e, p, s) | Inr s \<Rightarrow> (Set, p, s))
   }"

fun promise_calls :: "'a pcall list \<Rightarrow> std_promise \<times> 'a async \<Rightarrow> (panswer list \<times> std_promise \<times> 'a async) option" where
  "promise_calls [] x = Some ([], x)"
| "promise_calls (c # cs) x = do {
     (ans, x) \<leftarrow> promise_do c x;
     (answers, x) \<leftarrow> promise_calls cs x;
     Some (ans # answers, x)
   }"

fun spec_call :: "addr \<Rightarrow> 'a pcall \<Rightarrow> bool \<times> (fexn + 'a) option \<Rightarrow> panswer \<times> bool \<times> (fexn + 'a) option" where
  "spec_call a GetFuture (got, v) = (if got then Threw FutureAlreadyRetrieved else GotFuture a, True, v)"
| "spec_call a c (got, Some v) = (Threw PromiseAlreadySatisfied, got, Some v)"
| "spec_call a (SetValue x) (got, None) = (Set, got, Some (Inr x))"
| "spec_call a (SetException x) (got, None) = (Set, got, map_option Inl x)"

fun promise_spec :: "addr \<Rightarrow> 'a pcall list \<Rightarrow> bool \<times> (fexn + 'a) option \<Rightarrow> panswer list \<times> bool \<times> (fexn + 'a) option" where
  "promise_spec a [] x = ([], x)"
| "promise_spec a (c # cs) x = (let (ans, x) = spec_call a c x; (answers, x) = promise_spec a cs x in (ans # answers, x))"

text \<open>A promise with the future at \<open>a\<close> represents the state \<open>(got, v)\<close> of the specification.\<close>

definition promise_rep :: "fid \<Rightarrow> addr \<Rightarrow> bool \<times> (fexn + 'a) option \<Rightarrow> std_promise \<times> 'a async \<Rightarrow> bool" where
  "promise_rep c a x y \<longleftrightarrow> sp_future (fst y) = Some a \<and> sp_got (fst y) = fst x
     \<and> optional_ok (m_value (a_futures (snd y) a)) \<and> future_value (a_futures (snd y) a) = snd x
     \<and> sync_inv (a_sys (snd y)) \<and> executing c (a_sys (snd y))"

lemma future_valid_value: "optional_ok (m_value m) \<Longrightarrow> future_valid m \<longleftrightarrow> future_value m \<noteq> None"
  by (simp add: future_valid_def future_value_def optional_valid_content optional_value_content)

lemma promise_get_rep:
  assumes "promise_rep c a (got, v) y"
  shows "\<exists>y'. promise_do GetFuture y = Some (if got then Threw FutureAlreadyRetrieved else GotFuture a, y')
    \<and> promise_rep c a (True, v) y'"
  using assms by (cases y) (auto simp: promise_rep_def get_future_def)

text \<open>Setting the future of an unsatisfied promise, with a value or a possibly null exception.\<close>

lemma set_call:
  assumes "sync_inv s" "executing f s" "\<not> future_valid m" "optional_ok (m_value m)"
  shows "\<exists>m' s'. future_set k v m s = Some (m', s') \<and> optional_ok (m_value m') \<and> future_value m' = Some (Inr v) \<and> sync_inv s' \<and> executing f s'"
    "\<exists>m' s'. future_set_exception k x m s = Some (m', s') \<and> optional_ok (m_value m') \<and> future_value m' = map_option Inl x
      \<and> sync_inv s' \<and> executing f s'"
proof -
  obtain s' where s': "unblockAll k False s = Some (queues s k \<noteq> [], s')" "sync_inv s'" "executing f s'"
    using unblockAll_sys[OF assms(1,2), of k] by blast
  obtain p q where "optional_set v (m_value m) = Some p" "optional_ok p" "content p = Some (Inr v)"
      and "optional_set_exception x (m_value m) = Some q" "optional_ok q" "content q = map_option Inl x"
    using optional_set_ok[OF assms(4)] optional_set_exception_ok[OF assms(4)] by metis
  then show "\<exists>m' s'. future_set k v m s = Some (m', s') \<and> optional_ok (m_value m') \<and> future_value m' = Some (Inr v) \<and> sync_inv s' \<and> executing f s'"
    "\<exists>m' s'. future_set_exception k x m s = Some (m', s') \<and> optional_ok (m_value m') \<and> future_value m' = map_option Inl x
      \<and> sync_inv s' \<and> executing f s'"
    using s' assms(3)
    by (simp_all add: future_set_def future_set_exception_def set_prepare_def set_finalize_def future_value_def optional_value_content)
qed

lemma promise_do_rep:
  assumes "promise_rep c a (got, v) y"
  shows "\<exists>y'. promise_do call y = Some (fst (spec_call a call (got, v)), y') \<and> promise_rep c a (snd (spec_call a call (got, v))) y'"
proof -
  obtain p s where y: "y = (p, s)" by (cases y)
  have i: "sp_future p = Some a" "sp_got p = got" "optional_ok (m_value (a_futures s a))" "future_value (a_futures s a) = v"
      "sync_inv (a_sys s)" "executing c (a_sys s)"
    using assms y by (auto simp: promise_rep_def)
  have vv: "future_valid (a_futures s a) \<longleftrightarrow> v \<noteq> None" using future_valid_value[OF i(3)] i(4) by simp
  consider "call = GetFuture" | "call \<noteq> GetFuture" "v \<noteq> None" | (val) x where "call = SetValue x" "v = None"
    | (exc) x where "call = SetException x" "v = None" by (cases call) auto
  then show ?thesis
  proof cases
    case 1
    then show ?thesis using promise_get_rep[OF assms] by simp
  next
    case 2
    then show ?thesis using assms y i(1) vv
      by (cases call) (auto simp: promise_set_value_def promise_set_exception_def check_not_satisfied_def)
  next
    case val
    then obtain m z where "future_set (Qid a 0) x (a_futures s a) (a_sys s) = Some (m, z)" "optional_ok (m_value m)"
        "future_value m = Some (Inr x)" "sync_inv z" "executing c z"
      using set_call(1)[OF i(5,6) _ i(3), of "Qid a 0" x] vv by auto
    then show ?thesis using val y i(1,2) vv by (simp add: promise_set_value_def check_not_satisfied_def promise_rep_def)
  next
    case exc
    then obtain m z where "future_set_exception (Qid a 0) x (a_futures s a) (a_sys s) = Some (m, z)" "optional_ok (m_value m)"
        "future_value m = map_option Inl x" "sync_inv z" "executing c z"
      using set_call(2)[OF i(5,6) _ i(3), of "Qid a 0" x] vv by auto
    then show ?thesis using exc y i(1,2) vv by (simp add: promise_set_exception_def check_not_satisfied_def promise_rep_def)
  qed
qed

lemma promise_calls_rep:
  assumes "promise_rep c a x y"
  shows "\<exists>y'. promise_calls cs y = Some (fst (promise_spec a cs x), y') \<and> promise_rep c a (snd (promise_spec a cs x)) y'"
  using assms
proof (induction cs arbitrary: x y)
  case (Cons call cs)
  obtain y1 where y1: "promise_do call y = Some (fst (spec_call a call x), y1)" "promise_rep c a (snd (spec_call a call x)) y1"
    using promise_do_rep[of c a "fst x" "snd x" y call] Cons.prems by auto
  show ?case using Cons.IH[OF y1(2)] y1(1) by (auto simp: case_prod_unfold Let_def)
qed simp

subsection \<open>Properties\<close>

text \<open>
  C38. The protocol of a promise: whatever is called on a new promise, in any order, the future is handed out once, and set
  with a value or an exception once; every other attempt throws the error for it. \<^verbatim>\<open>get()\<close> of a future of a value then returns or throws what was set first, and \<^verbatim>\<open>get()\<close> of a
  \<^verbatim>\<open>std::future<void>\<close> returns, even when an exception was set (it does not throw it). As long as nothing is set,
  \<^verbatim>\<open>get()\<close> makes the fiber wait at the future. Setting a null pointer as exception counts for nothing: it is accepted while the promise is not satisfied, and does not
  satisfy it.
\<close>

theorem std_promise_protocol:
  assumes "create_res env = E_OK" "sync_inv (a_sys s)" "executing c (a_sys s)"
  shows "case promise_spec (a_next s) cs (False, None) of (answers, got, v) \<Rightarrow>
    \<exists>p s'. promise_calls cs (std_promise_new s) = Some (answers, p, s') \<and> sp_got p = got
      \<and> (case v of
           Some r \<Rightarrow> std_get env t (Some (a_next s)) s' = Some (Inr (Some r, s'))
             \<and> std_get_void env t (Some (a_next s)) s' = Some (Inr (Done, s'))
         | None \<Rightarrow> \<exists>s2. std_get env t (Some (a_next s)) s' = Some (Inr (None, s2))
             \<and> std_get_void env t (Some (a_next s)) s' = Some (Inr (Blocked, s2))
             \<and> queues (a_sys s2) (Qid (a_next s) 0) = queues (a_sys s') (Qid (a_next s) 0) @ [c])"
proof -
  let ?a = "a_next s"
  obtain answers got v where sp: "promise_spec ?a cs (False, None) = (answers, got, v)" by (cases "promise_spec ?a cs (False, None)")
  have "promise_rep c ?a (False, None) (std_promise_new s)"
    using assms(2,3)
    by (simp add: promise_rep_def std_promise_new_def Let_def future_value_def Future_def optional_new
        optional_value_content[OF optional_new(1)])
  then obtain p s' where r: "promise_calls cs (std_promise_new s) = Some (answers, p, s')" "promise_rep c ?a (got, v) (p, s')"
    using promise_calls_rep[of c ?a "(False, None)" "std_promise_new s" cs] sp by auto
  have i: "sp_got p = got" "optional_ok (m_value (a_futures s' ?a))" "future_value (a_futures s' ?a) = v"
      "sync_inv (a_sys s')" "executing c (a_sys s')"
    using r(2) by (auto simp: promise_rep_def)
  have vv: "future_valid (a_futures s' ?a) \<longleftrightarrow> v \<noteq> None" using future_valid_value[OF i(2)] i(3) by simp
  show ?thesis
  proof (cases v)
    case None
    have y: "sys_inv (a_sys s')" "contextSwitchEnabled (wkr (a_sys s'))" using i(4) by (auto simp: sync_inv_def)
    obtain h z where "block env t (Qid ?a 0) (a_sys s') = Some (SwitchedTo h, z)"
        "queues z = (queues (a_sys s'))(Qid ?a 0 := queues (a_sys s') (Qid ?a 0) @ [c])"
      using block_ok[OF y(1) assms(1) y(2) i(5), of t "Qid ?a 0"] by blast
    then show ?thesis using None sp r(1) i(1) vv by (simp add: std_get_def std_get_void_def std_wait_def future_wait_def)
  next
    case (Some x)
    then show ?thesis using sp r(1) i(1,3) vv by (simp add: std_get_def std_get_void_def std_wait_def future_wait_def)
  qed
qed

theorem std_promise_protocol_witness:
  "\<exists>p s'. promise_calls [SetException None, SetValue 5, GetFuture, SetValue 6, GetFuture] (std_promise_new demo_async)
      = Some ([Set, Set, GotFuture 20, Threw PromiseAlreadySatisfied, Threw FutureAlreadyRetrieved], p, s')
    \<and> std_get demo_env ts_null (Some 20) s' = Some (Inr (Some (Inr 5), s'))"
proof -
  have "a_next demo_async = 20" by (simp add: demo_async_def)
  then show ?thesis
    using std_promise_protocol[OF demo_async_facts(1,2,4),
        of "[SetException None, SetValue 5, GetFuture, SetValue 6, GetFuture]" ts_null]
    by auto
qed

text \<open>
  A promise that is assigned a new one, or swapped with one, keeps its own mark that the future was handed out: the future
  of the new state cannot be had.
\<close>

lemma promise_assign_stale:
  assumes "get_future p = Inr (f, p1)"
  shows "get_future (fst (promise_assign p1 (fst (std_promise_new s)))) = Inl FutureAlreadyRetrieved"
    "get_future (fst (promise_swap p1 (fst (std_promise_new s)))) = Inl FutureAlreadyRetrieved"
  using assms by (auto simp: get_future_def promise_assign_def promise_swap_def std_promise_new_def Let_def split: if_splits)

text \<open>\<^verbatim>\<open>get()\<close> of a future without a value drops an exception that was set: it just returns.\<close>

lemma std_get_void_swallows:
  assumes "future_valid (a_futures s a)"
  shows "std_get_void env t (Some a) s = Some (Inr (Done, s))"
  using assms by (simp add: std_get_void_def std_wait_def future_wait_def)

text \<open>
  \<^verbatim>\<open>zth::async\<close> starts the fiber in any case. The result is a future of it for \<^verbatim>\<open>launch::awaitable\<close>, which has no value yet, a
  future without a state for \<^verbatim>\<open>launch::detached\<close>, and an exception for anything else.
\<close>

theorem std_async_correct:
  assumes "sync_inv (a_sys s)" "m_state (fib s f) = Uninitialized" "f \<noteq> m_workerFiber (wkr (a_sys s))"
    "\<not> linked (wkr (a_sys s)) f" "\<not> m_negative slice"
  shows "\<exists>r s'. std_async policy f (size0, slice, dt) s = Some (r, s') \<and> sync_inv (a_sys s')
    \<and> m_runnableQueue (wkr (a_sys s')) = m_runnableQueue (wkr (a_sys s)) @ [f] \<and> m_state (fib s' f) = New
    \<and> (case policy of
         Detached \<Rightarrow> r = Inr None \<and> std_get env t None s' = Some (Inl NoState)
       | Awaitable \<Rightarrow> r = Inr (Some (a_next s)) \<and> a_typed s' f = Some (a_next s) \<and> pending f s'
       | OtherPolicy \<Rightarrow> r = Inl InvalidArgument)"
proof -
  obtain s1 where "zth_fiber_create AllocOk f (size0, slice, dt) 0 s = Some (E_OK, s1)"
    and s1: "sync_inv (a_sys s1)" "m_runnableQueue (wkr (a_sys s1)) = m_runnableQueue (wkr (a_sys s)) @ [f]"
      "m_state (fib s1 f) = New" "a_typed s1 f = None" "a_next s1 = a_next s"
    using zth_fiber_create_ok[OF assms, of size0 dt 0] by blast
  then have f: "factory_call f (size0, slice, dt) s = Some s1"
    by (auto simp: zth_fiber_create_def m_setStackSize_def split: bind_splits)
  show ?thesis
  proof (cases policy)
    case Awaitable
    then show ?thesis using f s1 future_new
      by (simp add: std_async_def asFuture_def withFuture_def registerFuture_def pending_def Let_def)
  qed (use f s1 in \<open>simp_all add: std_async_def std_get_def std_wait_def\<close>)
qed

theorem std_async_correct_witness:
  "\<exists>s'. std_async Awaitable 7 (4096, ti_null, ti_null) demo_async = Some (Inr (Some 20), s')
    \<and> a_typed s' 7 = Some 20 \<and> pending 7 s'"
proof -
  have "m_state (fib demo_async 7) = Uninitialized" "\<not> linked (wkr (a_sys demo_async)) 7"
      "m_workerFiber (wkr (a_sys demo_async)) = 0" "\<not> m_negative ti_null" "a_next demo_async = 20"
    by (simp_all add: demo_async_def demo_sys_def busy_worker_def demo_worker_def linked_def ti_null_def)
  then show ?thesis
    using std_async_correct[OF demo_async_facts(2), of 7 ti_null Awaitable 4096 ti_null demo_env ts_null] by auto
qed

end
