(* ===== verification/Zth_Io.thy ===== *)
theory Zth_Io
  imports Zth_Poller
begin

section \<open>Wrappers of system calls\<close>

text \<open>
  \<^verbatim>\<open>src/io.cpp\<close>, \<^verbatim>\<open>io.h\<close>, \<^verbatim>\<open>src/zmq.cpp\<close> and \<^verbatim>\<open>zmq.h\<close>: calls that would block the thread hand the waiting over to the poller. The
  system and the library are an argument \<open>os\<close> of the definitions, with a state \<open>'w\<close>. A system call is \<open>None\<close> when it
  blocks the thread, and with that all fibers; \<open>Inl e\<close> is a return value of \<open>-1\<close> with \<^verbatim>\<open>errno\<close> set to \<open>e\<close>.
\<close>

subsection \<open>The system\<close>

datatype io_op = Read int nat | Write int string

datatype zmq_op = MsgSend addr addr | MsgRecv addr addr | Send addr string | Recv addr nat | SendConst addr string

text \<open>
  \<open>os_fcntl\<close> tells whether the descriptor is non-blocking. \<open>os_poll\<close> is one call of \<^verbatim>\<open>Poller::poll()\<close> (see \<open>Zth_Poller\<close>) as the
  calling fiber sees it: \<^verbatim>\<open>errno\<close>, the result, and the pollables; \<open>None\<close> when it throws. For \<open>os_zmq\<close> the flag says that
  \<^verbatim>\<open>ZMQ_DONTWAIT\<close> is given.
\<close>

record 'w io_os =
  os_fcntl :: "int \<Rightarrow> 'w \<Rightarrow> (errno + bool) \<times> 'w"
  os_io :: "io_op \<Rightarrow> 'w \<Rightarrow> ((errno + nat) \<times> 'w) option"
  os_poll :: "int \<Rightarrow> flag \<Rightarrow> 'w \<Rightarrow> (errno \<times> addr list \<times> pworld) option \<times> 'w"
  os_zmq :: "zmq_op \<Rightarrow> bool \<Rightarrow> 'w \<Rightarrow> ((errno + nat) \<times> 'w) option"

text \<open>\<^verbatim>\<open>zth::poll()\<close> for one descriptor, with no timeout: it tries again after an interrupt.\<close>

partial_function (option) io_poll :: "'w io_os \<Rightarrow> int \<Rightarrow> flag \<Rightarrow> 'w \<Rightarrow> (errno \<times> 'w) option" where
  "io_poll os d e w = (case os_poll os d e w of
     (None, w) \<Rightarrow> Some (ENOMEM, w)
   | (Some (err, result, pw), w) \<Rightarrow> (case poll_single (-1) err result pw of
       None \<Rightarrow> io_poll os d e w
     | Some r \<Rightarrow> Some (r, w)))"

subsection \<open>Reading and writing\<close>

definition io_read :: "'w io_os \<Rightarrow> int \<Rightarrow> nat \<Rightarrow> 'w \<Rightarrow> ((errno + nat) \<times> 'w) option" where
  "io_read os d n w = (case os_fcntl os d w of
     (Inl e, w) \<Rightarrow> Some (Inl e, w)
   | (Inr nonblock, w) \<Rightarrow>
       if nonblock then os_io os (Read d n) w
       else do {
         (r, w) \<leftarrow> io_poll os d PollIn w;
         if r \<noteq> E_OK then Some (Inl r, w) else os_io os (Read d n) w
       })"

definition io_write :: "'w io_os \<Rightarrow> int \<Rightarrow> string \<Rightarrow> 'w \<Rightarrow> ((errno + nat) \<times> 'w) option" where
  "io_write os d buf w = (case os_fcntl os d w of
     (Inl e, w) \<Rightarrow> Some (Inl e, w)
   | (Inr nonblock, w) \<Rightarrow>
       if nonblock then os_io os (Write d buf) w
       else do {
         (r, w) \<leftarrow> io_poll os d PollOut w;
         if r \<noteq> E_OK then Some (Inl r, w) else os_io os (Write d buf) w
       })"

definition zth_read :: "'w io_os \<Rightarrow> int \<Rightarrow> nat \<Rightarrow> 'w \<Rightarrow> ((errno + nat) \<times> 'w) option" where
  "zth_read os d n w = io_read os d n w"

definition zth_write :: "'w io_os \<Rightarrow> int \<Rightarrow> string \<Rightarrow> 'w \<Rightarrow> ((errno + nat) \<times> 'w) option" where
  "zth_write os d buf w = io_write os d buf w"

subsection \<open>ZeroMQ\<close>

text \<open>The five wrappers have the same body: try, wait by the poller when the library would have to wait, and try again.\<close>

definition zmq_try :: "'w io_os \<Rightarrow> zmq_op \<Rightarrow> addr \<Rightarrow> flag \<Rightarrow> bool \<Rightarrow> 'w \<Rightarrow> ((errno + nat) \<times> 'w) option" where
  "zmq_try os op socket e dontwait w = do {
     (res, w) \<leftarrow> os_zmq os op True w;
     if res \<noteq> Inl EAGAIN \<or> dontwait then Some (res, w)
     else do {
       (r, w) \<leftarrow> io_poll os (int socket) e w;
       if r \<noteq> E_OK then Some (Inl r, w) else os_zmq os op True w
     }
   }"

definition zmq_msg_send :: "'w io_os \<Rightarrow> addr \<Rightarrow> addr \<Rightarrow> bool \<Rightarrow> 'w \<Rightarrow> ((errno + nat) \<times> 'w) option" where
  "zmq_msg_send os msg socket dontwait w = zmq_try os (MsgSend msg socket) socket PollOut dontwait w"

definition zmq_msg_recv :: "'w io_os \<Rightarrow> addr \<Rightarrow> addr \<Rightarrow> bool \<Rightarrow> 'w \<Rightarrow> ((errno + nat) \<times> 'w) option" where
  "zmq_msg_recv os msg socket dontwait w = zmq_try os (MsgRecv msg socket) socket PollIn dontwait w"

definition zmq_send :: "'w io_os \<Rightarrow> addr \<Rightarrow> string \<Rightarrow> bool \<Rightarrow> 'w \<Rightarrow> ((errno + nat) \<times> 'w) option" where
  "zmq_send os socket buf dontwait w = zmq_try os (Send socket buf) socket PollOut dontwait w"

definition zmq_recv :: "'w io_os \<Rightarrow> addr \<Rightarrow> nat \<Rightarrow> bool \<Rightarrow> 'w \<Rightarrow> ((errno + nat) \<times> 'w) option" where
  "zmq_recv os socket n dontwait w = zmq_try os (Recv socket n) socket PollIn dontwait w"

definition zmq_send_const :: "'w io_os \<Rightarrow> addr \<Rightarrow> string \<Rightarrow> bool \<Rightarrow> 'w \<Rightarrow> ((errno + nat) \<times> 'w) option" where
  "zmq_send_const os socket buf dontwait w = zmq_try os (SendConst socket buf) socket PollOut dontwait w"

subsection \<open>The wrappers do not block the thread\<close>

fun io_wants :: "io_op \<Rightarrow> int \<times> flag" where
  "io_wants (Read d n) = (d, PollIn)"
| "io_wants (Write d buf) = (d, PollOut)"

text \<open>
  What the wrappers rely on: a call on a non-blocking descriptor returns, and so does a call right after \<^verbatim>\<open>poll()\<close> found the event;
  and interrupts do not go on forever: some number of calls of \<^verbatim>\<open>poll()\<close> ends with an event or an error.
\<close>

definition os_nonblocking :: "'w io_os \<Rightarrow> bool" where
  "os_nonblocking os \<longleftrightarrow> (\<forall>op w w'. os_fcntl os (fst (io_wants op)) w = (Inr True, w') \<longrightarrow> os_io os op w' \<noteq> None)"

definition os_polls :: "'w io_os \<Rightarrow> bool" where
  "os_polls os \<longleftrightarrow> (\<forall>op d e w err result pw w'. io_wants op = (d, e) \<longrightarrow>
     os_poll os d e w = (Some (err, result, pw), w') \<longrightarrow> poll_single (-1) err result pw = Some E_OK \<longrightarrow>
     os_io os op w' \<noteq> None)"

fun poll_after :: "'w io_os \<Rightarrow> int \<Rightarrow> flag \<Rightarrow> nat \<Rightarrow> 'w \<Rightarrow> 'w" where
  "poll_after os d e 0 w = w"
| "poll_after os d e (Suc n) w = poll_after os d e n (snd (os_poll os d e w))"

definition answered :: "(errno \<times> addr list \<times> pworld) option \<Rightarrow> bool" where
  "answered x \<longleftrightarrow> (case x of None \<Rightarrow> True | Some (err, result, pw) \<Rightarrow> result \<noteq> [] \<or> (err \<noteq> EINTR \<and> err \<noteq> EAGAIN))"

definition poll_answers :: "'w io_os \<Rightarrow> int \<Rightarrow> flag \<Rightarrow> 'w \<Rightarrow> bool" where
  "poll_answers os d e w \<longleftrightarrow> (\<exists>n. answered (fst (os_poll os d e (poll_after os d e n w))))"

lemma poll_single_None: "poll_single (-1) err result pw = None \<longleftrightarrow> result = [] \<and> (err = EINTR \<or> err = EAGAIN)"
  by (auto simp: poll_single_def split: list.splits)

lemma io_poll_ends:
  assumes "answered (fst (os_poll os d e (poll_after os d e n w)))"
  shows "\<exists>r w'. io_poll os d e w = Some (r, w') \<and> (r = E_OK \<longrightarrow>
    (\<exists>v err result pw. os_poll os d e v = (Some (err, result, pw), w') \<and> poll_single (-1) err result pw = Some E_OK))"
  using assms
proof (induction n arbitrary: w)
  case 0
  then show ?case
  proof (cases "fst (os_poll os d e w)")
    case None
    then show ?thesis by (subst io_poll.simps) (auto split: prod.splits)
  next
    case (Some x)
    then obtain err result pw w' where o: "os_poll os d e w = (Some (err, result, pw), w')"
      by (metis prod.collapse)
    then obtain r where r: "poll_single (-1) err result pw = Some r"
      using 0 poll_single_None[of err result pw] unfolding answered_def by (cases "poll_single (-1) err result pw") auto
    then have "io_poll os d e w = Some (r, w')" using o by (subst io_poll.simps) simp
    then show ?thesis using o r by auto
  qed
next
  case (Suc n)
  show ?case
  proof (cases "fst (os_poll os d e w)")
    case None
    then show ?thesis by (subst io_poll.simps) (auto split: prod.splits)
  next
    case (Some x)
    then obtain err result pw w' where o: "os_poll os d e w = (Some (err, result, pw), w')"
      by (metis prod.collapse)
    show ?thesis
    proof (cases "poll_single (-1) err result pw")
      case None
      then have "io_poll os d e w = io_poll os d e w'" using o by (subst io_poll.simps) simp
      then show ?thesis using Suc.IH[of w'] Suc.prems o by simp
    next
      case (Some r)
      then have "io_poll os d e w = Some (r, w')" using o by (subst io_poll.simps) simp
      then show ?thesis using o Some by auto
    qed
  qed
qed

text \<open>
  Reading and writing never block the thread, whatever the kind of descriptor: they return what the system call returns, or an
  error of \<^verbatim>\<open>fcntl()\<close> or of \<^verbatim>\<open>poll()\<close>.
\<close>

theorem io_never_blocks:
  assumes "os_nonblocking os" "os_polls os" "\<forall>v. poll_answers os d PollIn v" "\<forall>v. poll_answers os d PollOut v"
  shows "(\<exists>r v. io_read os d n w = Some (r, v)) \<and> (\<exists>r v. io_write os d buf w = Some (r, v))"
proof -
  have poll: "\<exists>r v'. io_poll os d e v = Some (r, v') \<and> (r = E_OK \<longrightarrow> os_io os op v' \<noteq> None)"
    if op: "io_wants op = (d, e)" and a: "poll_answers os d e v" for op e v
  proof -
    obtain k where k: "answered (fst (os_poll os d e (poll_after os d e k v)))" using a unfolding poll_answers_def by blast
    obtain r v' where r: "io_poll os d e v = Some (r, v')" "r = E_OK \<longrightarrow>
        (\<exists>u err result pw. os_poll os d e u = (Some (err, result, pw), v') \<and> poll_single (-1) err result pw = Some E_OK)"
      using io_poll_ends[OF k] by (elim exE conjE) (rule that)
    then have "r = E_OK \<longrightarrow> os_io os op v' \<noteq> None" using assms(2) op unfolding os_polls_def by blast
    then show ?thesis using r(1) by blast
  qed
  have nb: "os_io os op v \<noteq> None" if "os_fcntl os d w = (Inr True, v)" "fst (io_wants op) = d" for op v
    using assms(1) that by (auto simp: os_nonblocking_def)
  obtain x v where f: "os_fcntl os d w = (x, v)" by (cases "os_fcntl os d w")
  have "\<exists>r v. io_read os d n w = Some (r, v)"
  proof (cases x)
    case (Inr b)
    show ?thesis using poll[of "Read d n" PollIn v] nb[of v "Read d n"] assms(3) f Inr
      by (cases b) (fastforce simp: io_read_def)+
  qed (use f in \<open>simp add: io_read_def\<close>)
  moreover have "\<exists>r v. io_write os d buf w = Some (r, v)"
  proof (cases x)
    case (Inr b)
    show ?thesis using poll[of "Write d buf" PollOut v] nb[of v "Write d buf"] assms(4) f Inr
      by (cases b) (fastforce simp: io_write_def)+
  qed (use f in \<open>simp add: io_write_def\<close>)
  ultimately show ?thesis ..
qed

text \<open>
  A system where all descriptors are blocking. Its state is whether they are ready; a call takes what there is, and polling
  first gets interrupted and then finds the event.
\<close>

definition pipe_world :: pworld where
  "pipe_world = demo_world\<lparr>pollables := (\<lambda>_. \<lparr>fd = 0, events = {PollIn, PollOut}, revents = {PollIn, PollOut}\<rparr>)\<rparr>"

definition pipe_os :: "bool io_os" where
  "pipe_os = \<lparr>os_fcntl = (\<lambda>_ w. (Inr False, w)), os_io = (\<lambda>_ w. if w then Some (Inr 1, False) else None),
     os_poll = (\<lambda>_ _ w. (Some (if w then (E_OK, [0], pipe_world) else (EINTR, [], pipe_world)), True)),
     os_zmq = (\<lambda>_ _ w. Some (if w then Inr 1 else Inl EAGAIN, False))\<rparr>"

theorem io_never_blocks_witness: "\<exists>r v. io_read pipe_os 0 10 False = Some (r, v)"
proof -
  have "poll_answers pipe_os 0 e v" for e v
    unfolding poll_answers_def by (rule exI[of _ 1]) (simp add: pipe_os_def answered_def)
  moreover have "os_nonblocking pipe_os" by (simp add: os_nonblocking_def pipe_os_def)
  moreover have "os_polls pipe_os" by (auto simp: os_polls_def pipe_os_def)
  ultimately show ?thesis using io_never_blocks[of pipe_os 0 10 False] by blast
qed

text \<open>
  The wrappers of ZeroMQ do not block the thread either, as they always pass \<^verbatim>\<open>ZMQ_DONTWAIT\<close>. But they try only twice: when
  the event that the poll reported is gone by the time of the second try, a caller that did not ask for \<^verbatim>\<open>ZMQ_DONTWAIT\<close> gets
  the error \<^verbatim>\<open>EAGAIN\<close>.
\<close>

lemma zmq_never_blocks:
  assumes "\<forall>op w. os_zmq os op True w \<noteq> None" "\<forall>v. poll_answers os (int socket) e v"
  shows "\<exists>r v. zmq_try os op socket e dontwait w = Some (r, v)"
proof -
  have "\<exists>r v'. io_poll os (int socket) e v = Some (r, v')" for v
    using assms(2) io_poll_ends[of os "int socket" e] unfolding poll_answers_def by blast
  then have p: "io_poll os (int socket) e v \<noteq> None" for v by (metis option.distinct(1))
  have "zmq_try os op socket e dontwait w \<noteq> None"
    using assms(1) p by (auto simp: zmq_try_def split: bind_splits) (metis option.distinct(1))
  then show ?thesis by auto
qed

lemma zmq_spurious_eagain:
  assumes "os_zmq os op True w = Some (Inl EAGAIN, w1)" "io_poll os (int socket) e w1 = Some (E_OK, w2)"
    "os_zmq os op True w2 = Some (Inl EAGAIN, w3)"
  shows "zmq_try os op socket e False w = Some (Inl EAGAIN, w3)"
  using assms by (simp add: zmq_try_def)

end
