(* ===== verification/Zth_Context.thy ===== *)
theory Zth_Context
  imports Zth_Prelude "HOL-Library.Word"
begin

section \<open>Contexts and their stacks\<close>

text \<open>
  \<^verbatim>\<open>context/context.h\<close>, \<^verbatim>\<open>context/ucontext.h\<close>, \<^verbatim>\<open>context/sigaltstack.h\<close> and \<^verbatim>\<open>src/context.cpp\<close>: the memory of a fiber's stack, with the
  pages that guard it and the marks that tell how much of it was used. Addresses and sizes are 64 bit words, and wrap.
  The jump itself from one stack to another is not modelled.
\<close>

unbundle bit_operations_syntax

subsection \<open>Memory\<close>

text \<open>
  The memory consists of mapped regions, ranges without access, and the contents of the aligned cells of 8 bytes. An
  access outside of the regions, or to a range without access, is a trap.
\<close>

type_synonym u64 = "64 word"

record machine =
  mapped :: "(u64 \<times> u64) list"
  noaccess :: "(u64 \<times> u64) list"
  cells :: "u64 \<Rightarrow> u64"

definition accessible :: "u64 \<Rightarrow> machine \<Rightarrow> bool" where
  "accessible a m \<longleftrightarrow> unat a mod 8 = 0
     \<and> list_ex (\<lambda>(p, n). unat p \<le> unat a \<and> unat a + 8 \<le> unat p + unat n) (mapped m)
     \<and> list_all (\<lambda>(p, n). unat a + 8 \<le> unat p \<or> unat p + unat n \<le> unat a) (noaccess m)"

definition load :: "u64 \<Rightarrow> machine \<Rightarrow> u64 option" where
  "load a m = (if accessible a m then Some (cells m a) else None)"

definition store :: "u64 \<Rightarrow> u64 \<Rightarrow> machine \<Rightarrow> machine option" where
  "store a v m = (if accessible a m then Some (m\<lparr>cells := (cells m)(a := v)\<rparr>) else None)"

definition mprotect :: "errno \<Rightarrow> u64 \<Rightarrow> u64 \<Rightarrow> machine \<Rightarrow> errno \<times> machine" where
  "mprotect r p n m = (if r = E_OK then (E_OK, m\<lparr>noaccess := (p, n) # noaccess m\<rparr>) else (r, m))"

text \<open>Releasing a region releases the guards in it; releasing anything else is a trap.\<close>

definition munmap :: "u64 \<Rightarrow> u64 \<Rightarrow> machine \<Rightarrow> machine option" where
  "munmap p n m =
     (if (p, n) \<in> set (mapped m)
      then Some (m\<lparr>mapped := remove1 (p, n) (mapped m),
        noaccess := filter (\<lambda>(q, k). unat q < unat p \<or> unat p + unat n \<le> unat q) (noaccess m)\<rparr>)
      else None)"

subsection \<open>The build and the system\<close>

text \<open>
  What the build selects (\<open>mman\<close>: there is \<^verbatim>\<open>mmap()\<close>; \<open>guard_on\<close> and \<open>mark_on\<close>: \<^verbatim>\<open>EnableStackGuard\<close> and \<^verbatim>\<open>EnableStackWaterMark\<close>),
  and what the system answers: its page size, \<^verbatim>\<open>MINSIGSTKSZ\<close> (0 for Windows), whether the stack grows down, where a region
  of a size is allocated (or the error; never at address 0), and the results of \<^verbatim>\<open>mprotect()\<close> by address.
\<close>

record ctx_env =
  mman :: bool
  guard_on :: bool
  mark_on :: bool
  sys_page :: u64
  minsigstksz :: u64
  grows_down :: bool
  sys_alloc :: "u64 \<Rightarrow> errno + u64"
  sys_protect :: "u64 \<Rightarrow> errno"

record stack =
  stk_p :: u64
  stk_size :: u64

definition Stack :: "u64 \<Rightarrow> stack" where
  "Stack n = \<lparr>stk_p = 0, stk_size = n\<rparr>"

definition stack_bool :: "stack \<Rightarrow> bool" where
  "stack_bool s \<longleftrightarrow> stk_p s \<noteq> 0 \<and> stk_size s > 0"

subsection \<open>The high water mark\<close>

definition ZTH_STACK_WATERMARKER :: u64 where
  "ZTH_STACK_WATERMARKER = 0x5a7468574de2889e"

text \<open>The address after the size, the address of the size, and the size that is left.\<close>

definition stack_watermark_align :: "u64 \<Rightarrow> u64 \<Rightarrow> u64 \<times> u64 \<times> u64" where
  "stack_watermark_align p n =
     (if p = 0 then (p, 0, n)
      else let q = (p + 8 - 1) AND NOT (8 - 1) in (q + 8, q, n - (q + 8 - p)))"

partial_function (option) mark_loop :: "u64 \<Rightarrow> u64 \<Rightarrow> u64 \<Rightarrow> machine \<Rightarrow> machine option" where
  "mark_loop p n i m =
     (if i * 8 \<le> n - 8 then do { m \<leftarrow> store (p + i * 8) ZTH_STACK_WATERMARKER m; mark_loop p n (i + 1) m } else Some m)"

definition stack_watermark_init :: "ctx_env \<Rightarrow> u64 \<Rightarrow> u64 \<Rightarrow> machine \<Rightarrow> machine option" where
  "stack_watermark_init env p n m =
     (if \<not> mark_on env \<or> p = 0 \<or> n = 0 then Some m
      else do {
        zth_assert (grows_down env);
        let (p, sizeptr, n) = stack_watermark_align p n;
        m \<leftarrow> store sizeptr n m;
        mark_loop p n 0 m
      })"

definition stack_watermark_size :: "ctx_env \<Rightarrow> u64 \<Rightarrow> machine \<Rightarrow> u64 option" where
  "stack_watermark_size env p m =
     (if \<not> mark_on env \<or> p = 0 then Some 0
      else let (p, sizeptr, _) = stack_watermark_align p 0 in load sizeptr m)"

partial_function (option) unused_loop :: "u64 \<Rightarrow> u64 \<Rightarrow> u64 \<Rightarrow> machine \<Rightarrow> u64 option" where
  "unused_loop p n i m =
     (if i < n div 8 then do {
        v \<leftarrow> load (p + i * 8) m;
        if v = ZTH_STACK_WATERMARKER then unused_loop p n (i + 1) m else Some i
      } else Some i)"

definition stack_watermark_maxused :: "ctx_env \<Rightarrow> u64 \<Rightarrow> machine \<Rightarrow> u64 option" where
  "stack_watermark_maxused env p m =
     (if \<not> mark_on env \<or> p = 0 then Some 0
      else do {
        let (p, sizeptr, _) = stack_watermark_align p 0;
        n \<leftarrow> load sizeptr m;
        unused \<leftarrow> unused_loop p n 0 m;
        Some (n - unused * 8)
      })"

definition stack_watermark_remaining :: "ctx_env \<Rightarrow> u64 \<Rightarrow> machine \<Rightarrow> u64 option" where
  "stack_watermark_remaining env p m = do {
     n \<leftarrow> stack_watermark_size env p m;
     u \<leftarrow> stack_watermark_maxused env p m;
     Some (n - u)
   }"

subsection \<open>The stack of a context\<close>

definition pageSize :: "ctx_env \<Rightarrow> u64" where
  "pageSize env = (if mman env then sys_page env else 8)"

definition calcStackSize :: "ctx_env \<Rightarrow> u64 \<Rightarrow> u64" where
  "calcStackSize env n =
     (let n = n + minsigstksz env in if mman env \<and> guard_on env then n + pageSize env * 2 else n)"

definition allocStack :: "ctx_env \<Rightarrow> u64 \<Rightarrow> machine \<Rightarrow> (errno + u64) \<times> machine" where
  "allocStack env n m = (case sys_alloc env n of
     Inl e \<Rightarrow> (Inl (if mman env then e else ENOMEM), m)
   | Inr p \<Rightarrow> (Inr p, m\<lparr>mapped := (p, n) # mapped m\<rparr>))"

definition deallocStack :: "stack \<Rightarrow> machine \<Rightarrow> (stack \<times> machine) option" where
  "deallocStack s m =
     (if stk_p s = 0 then Some (s, m)
      else do { m \<leftarrow> munmap (stk_p s) (stk_size s) m; Some (s\<lparr>stk_p := 0\<rparr>, m) })"

definition stackAlign :: "ctx_env \<Rightarrow> stack \<Rightarrow> stack option" where
  "stackAlign env s =
     (if stk_p s = 0 \<or> stk_size s = 0 then Some s
      else do {
        let ps = pageSize env;
        let old = stk_p s;
        zth_assert (stk_size s > ps);
        zth_assert (old + stk_size s > old);
        let new = (old + ps - 1) AND NOT (ps - 1);
        let n = (stk_size s - (new - old)) AND NOT (ps - 1);
        (new, n) \<leftarrow>
          (if mman env \<and> guard_on env
           then do { zth_assert (n > ps * 2); Some (new + ps, n - ps * 2) }
           else Some (new, n));
        zth_assert (n > 0);
        Some \<lparr>stk_p = new, stk_size = n\<rparr>
      })"

text \<open>\<^verbatim>\<open>__builtin_popcount()\<close> counts the bits of an \<^verbatim>\<open>unsigned int\<close>.\<close>

definition popcount32 :: "32 word \<Rightarrow> nat" where
  "popcount32 w = length (filter (bit w) [0..<32])"

text \<open>The result, the stack and its usable part.\<close>

definition initStack :: "ctx_env \<Rightarrow> stack \<Rightarrow> stack \<Rightarrow> machine \<Rightarrow> (errno \<times> stack \<times> stack \<times> machine) option" where
  "initStack env s usable m = do {
     let n = calcStackSize env (stk_size s);
     let page = pageSize env;
     zth_assert (popcount32 (ucast page) = 1);
     let n = ((n + page - 1) AND NOT (page - 1)) + page;
     case allocStack env n m of
       (Inl e, m) \<Rightarrow> Some (e, \<lparr>stk_p = 0, stk_size = n\<rparr>, usable, m)
     | (Inr p, m) \<Rightarrow> do {
         let s = \<lparr>stk_p = p, stk_size = n\<rparr>;
         usable \<leftarrow> stackAlign env s;
         m \<leftarrow> stack_watermark_init env (stk_p usable) (stk_size usable) m;
         Some (E_OK, s, usable, m)
       }
   }"

definition stackGuardInit :: "ctx_env \<Rightarrow> stack \<Rightarrow> machine \<Rightarrow> errno \<times> machine" where
  "stackGuardInit env usable m =
     (if mman env \<and> guard_on env \<and> stk_p usable \<noteq> 0
      then let ps = pageSize env; lo = stk_p usable - ps; hi = stk_p usable + stk_size usable
        in case mprotect (sys_protect env lo) lo ps m of
             (E_OK, m) \<Rightarrow> mprotect (sys_protect env hi) hi ps m
           | r \<Rightarrow> r
      else (E_OK, m))"

record ctx =
  cx_stackSize :: u64
  cx_stack :: stack
  cx_usable :: stack

definition Context_new :: "u64 \<Rightarrow> ctx" where
  "Context_new n = \<lparr>cx_stackSize = n, cx_stack = Stack 0, cx_usable = Stack 0\<rparr>"

definition create :: "ctx_env \<Rightarrow> ctx \<Rightarrow> machine \<Rightarrow> (errno \<times> ctx \<times> machine) option" where
  "create env c m =
     (let c = c\<lparr>cx_stack := Stack (cx_stackSize c), cx_usable := Stack 0\<rparr>
      in if cx_stackSize c = 0 then Some (E_OK, c, m)
      else do {
        (r, s, usable, m) \<leftarrow> initStack env (cx_stack c) (cx_usable c) m;
        let c = c\<lparr>cx_stack := s, cx_usable := usable\<rparr>;
        if r \<noteq> E_OK then Some (r, c, m)
        else case stackGuardInit env usable m of
          (E_OK, m) \<Rightarrow> Some (E_OK, c, m)
        | (r, m) \<Rightarrow> do { (s, m) \<leftarrow> deallocStack s m; Some (r, c\<lparr>cx_stack := s\<rparr>, m) }
      })"

definition destroy :: "ctx \<Rightarrow> machine \<Rightarrow> (ctx \<times> machine) option" where
  "destroy c m = do {
     (s, m) \<leftarrow> deallocStack (cx_stack c) m;
     Some (c\<lparr>cx_stack := Stack 0, cx_usable := Stack 0\<rparr>, m)
   }"

text \<open>The destructor.\<close>

definition Context_delete :: "ctx \<Rightarrow> unit option" where
  "Context_delete c = zth_assert (stk_p (cx_stack c) = 0)"

subsection \<open>Contexts by \<^verbatim>\<open>makecontext()\<close> and by signals\<close>

text \<open>For \<^verbatim>\<open>ucontext.h\<close>, whether \<^verbatim>\<open>getcontext()\<close> fails. The context that is made is not modelled.\<close>

definition ucontext_create :: "ctx_env \<Rightarrow> bool \<Rightarrow> ctx \<Rightarrow> machine \<Rightarrow> (errno \<times> ctx \<times> machine) option" where
  "ucontext_create env fails c m = do {
     (r, c, m) \<leftarrow> create env c m;
     if r \<noteq> E_OK then Some (r, c, m)
     else if \<not> stack_bool (cx_stack c) then Some (E_OK, c, m)
     else if fails then Some (EINVAL, c, m)
     else Some (E_OK, c, m)
   }"

text \<open>
  For \<^verbatim>\<open>sigaltstack.h\<close>, the calls that can fail, in the order of the code, with their results, and the options of the build. The
  state is whether \<^verbatim>\<open>SIGUSR1\<close> is blocked, and the stack for signals (\<open>None\<close> for \<^verbatim>\<open>SS_DISABLE\<close>). The handler runs on that stack
  when the signal was sent; when it returns, the settings are what they were, also with \<^verbatim>\<open>SS_AUTODISARM\<close>.
\<close>

datatype sigcall = GetMask | SetAlt | Unblock | Kill | Block | QueryAlt | Disarm | RestoreAlt | QueryAgain | RollbackAlt

record sig_env =
  sg_signals :: bool
  sg_autodisarm :: bool
  sg_assert :: bool
  sg_res :: "sigcall \<Rightarrow> errno"

record sigstate =
  usr1_blocked :: bool
  altstack :: "stack option"

definition sig_rollback :: "errno \<Rightarrow> ctx \<Rightarrow> machine \<Rightarrow> sigstate \<Rightarrow> (errno \<times> ctx \<times> machine \<times> sigstate) option" where
  "sig_rollback r c m g = do {
     (c, m) \<leftarrow> destroy c m;
     Some (if r \<noteq> E_OK then r else EINVAL, c, m, g)
   }"

definition sig_rollback_altstack :: "sig_env \<Rightarrow> stack option \<Rightarrow> errno \<Rightarrow> ctx \<Rightarrow> machine \<Rightarrow> sigstate
    \<Rightarrow> (errno \<times> ctx \<times> machine \<times> sigstate) option" where
  "sig_rollback_altstack sg oss r c m g =
     sig_rollback r c m (if oss \<noteq> None \<and> sg_res sg RollbackAlt = E_OK then g\<lparr>altstack := oss\<rparr> else g)"

definition sig_restore :: "sig_env \<Rightarrow> stack option \<Rightarrow> ctx \<Rightarrow> machine \<Rightarrow> sigstate
    \<Rightarrow> (errno \<times> ctx \<times> machine \<times> sigstate) option" where
  "sig_restore sg oss c m g =
     (if oss \<noteq> None \<and> sg_res sg RestoreAlt \<noteq> E_OK then sig_rollback (sg_res sg RestoreAlt) c m g
      else let g = (if oss \<noteq> None then g\<lparr>altstack := oss\<rparr> else g)
        in if sg_assert sg \<and> sg_res sg QueryAgain \<noteq> E_OK then sig_rollback (sg_res sg QueryAgain) c m g
           else Some (E_OK, c, m, g))"

definition sig_trampoline :: "sig_env \<Rightarrow> stack option \<Rightarrow> ctx \<Rightarrow> machine \<Rightarrow> sigstate
    \<Rightarrow> (errno \<times> ctx \<times> machine \<times> sigstate) option" where
  "sig_trampoline sg oss c m g =
     (if sg_res sg Unblock \<noteq> E_OK then sig_rollback_altstack sg oss (sg_res sg Unblock) c m g
      else let g = g\<lparr>usr1_blocked := False\<rparr>
        in if sg_res sg Kill \<noteq> E_OK then sig_rollback_altstack sg oss (sg_res sg Kill) c m g
        else if sg_res sg Block \<noteq> E_OK then sig_rollback_altstack sg oss (sg_res sg Block) c m g
        else let g = g\<lparr>usr1_blocked := True\<rparr>
          in if sg_assert sg \<and> sg_res sg QueryAlt \<noteq> E_OK then sig_rollback_altstack sg oss (sg_res sg QueryAlt) c m g
          else if sg_autodisarm sg then sig_restore sg oss c m g
          else if sg_res sg Disarm \<noteq> E_OK then sig_rollback_altstack sg oss (sg_res sg Disarm) c m g
          else sig_restore sg oss c m (g\<lparr>altstack := None\<rparr>))"

definition sigaltstack_create :: "ctx_env \<Rightarrow> sig_env \<Rightarrow> ctx \<Rightarrow> machine \<Rightarrow> sigstate
    \<Rightarrow> (errno \<times> ctx \<times> machine \<times> sigstate) option" where
  "sigaltstack_create env sg c m g = do {
     (r, c, m) \<leftarrow> create env c m;
     if r \<noteq> E_OK then Some (r, c, m, g)
     else if \<not> stack_bool (cx_usable c) then Some (E_OK, c, m, g)
     else if sg_signals sg \<and> sg_res sg GetMask \<noteq> E_OK then sig_rollback (sg_res sg GetMask) c m g
     else if sg_res sg SetAlt \<noteq> E_OK then sig_rollback (sg_res sg SetAlt) c m g
     else sig_trampoline sg (altstack g) c m (g\<lparr>altstack := Some (cx_usable c)\<rparr>)
   }"

subsection \<open>Creating and destroying contexts\<close>

datatype switcher = Ucontext bool | Sigaltstack sig_env

fun Context_create :: "ctx_env \<Rightarrow> switcher \<Rightarrow> ctx \<Rightarrow> machine \<Rightarrow> sigstate \<Rightarrow> (errno \<times> ctx \<times> machine \<times> sigstate) option" where
  "Context_create env (Ucontext fails) c m g = do { (r, c, m) \<leftarrow> ucontext_create env fails c m; Some (r, c, m, g) }"
| "Context_create env (Sigaltstack sg) c m g = sigaltstack_create env sg c m g"

definition context_create :: "ctx_env \<Rightarrow> switcher \<Rightarrow> alloc \<Rightarrow> u64 \<Rightarrow> machine \<Rightarrow> sigstate
    \<Rightarrow> (errno \<times> ctx option \<times> machine \<times> sigstate) option" where
  "context_create env sw al n m g = (case al of
     BadAlloc \<Rightarrow> Some (ENOMEM, None, m, g)
   | OtherException \<Rightarrow> Some (EAGAIN, None, m, g)
   | AllocOk \<Rightarrow> do {
       (r, c, m, g) \<leftarrow> Context_create env sw (Context_new n) m g;
       if r \<noteq> E_OK then do { Context_delete c; Some (r, None, m, g) }
       else Some (E_OK, Some c, m, g)
     })"

definition context_destroy :: "ctx option \<Rightarrow> machine \<Rightarrow> machine option" where
  "context_destroy co m = (case co of
     None \<Rightarrow> Some m
   | Some c \<Rightarrow> do { (c, m) \<leftarrow> destroy c m; Context_delete c; Some m })"

definition context_stack_usage :: "ctx_env \<Rightarrow> ctx option \<Rightarrow> machine \<Rightarrow> u64 option" where
  "context_stack_usage env co m = (case co of
     None \<Rightarrow> Some 0
   | Some c \<Rightarrow> if \<not> mark_on env then Some 0 else stack_watermark_maxused env (stk_p (cx_usable c)) m)"

subsection \<open>Arithmetic\<close>

lemma unat_plus64: "unat a + unat b < 2 ^ 64 \<Longrightarrow> unat (a + b) = unat a + unat b" for a b :: u64
  by (simp add: unat_word_ariths)

lemma unat_minus64: "unat b \<le> unat a \<Longrightarrow> unat (a - b) = unat a - unat b" for a b :: u64
  by (simp add: unat_sub word_le_nat_alt)

lemma unat_times8: "unat a * 8 < 2 ^ 64 \<Longrightarrow> unat (a * 8) = unat a * 8" for a :: u64
  by (simp add: unat_word_ariths)

lemma unat_pow2: "k < 64 \<Longrightarrow> unat (2 ^ k :: u64) = 2 ^ k"
proof -
  assume "k < 64"
  then have "(2::int) ^ k < 2 ^ 64" by (intro power_strict_increasing) simp_all
  then show ?thesis by transfer (simp add: take_bit_eq_mod nat_power_eq)
qed

lemma unat_less64: "unat x < 2 ^ 64" for x :: u64
  using unsigned_less[of x, where 'a = nat] by simp

lemma round_down: "k < 64 \<Longrightarrow> unat (x AND NOT (2 ^ k - 1)) = unat x div 2 ^ k * 2 ^ k" for x :: u64
proof -
  assume k: "k < 64"
  have "x AND NOT (2 ^ k - 1) = push_bit k (drop_bit k x)"
    by (rule bit_eqI) (auto simp: bit_simps simp flip: mask_eq_exp_minus_1)
  moreover have "unat x div 2 ^ k * 2 ^ k < 2 ^ 64" by (rule le_less_trans[OF div_times_less_eq_dividend unat_less64])
  moreover have "unat x div 2 ^ k < 2 ^ 64" by (rule le_less_trans[OF div_le_dividend unat_less64])
  ultimately show ?thesis using k
    by (simp add: push_bit_eq_mult unat_word_ariths unat_drop_bit_eq drop_bit_eq_div unat_pow2)
qed

text \<open>Rounding up to a power of two.\<close>

lemma round_up:
  fixes x :: u64
  assumes "k < 64" "unat x + 2 ^ k \<le> 2 ^ 64"
  shows "2 ^ k dvd unat ((x + 2 ^ k - 1) AND NOT (2 ^ k - 1))"
    "unat x \<le> unat ((x + 2 ^ k - 1) AND NOT (2 ^ k - 1))"
    "unat ((x + 2 ^ k - 1) AND NOT (2 ^ k - 1)) < unat x + 2 ^ k"
proof -
  let ?S = "2 ^ k :: nat"
  have m: "unat (2 ^ k - 1 :: u64) = ?S - 1" using unat_minus64[of 1 "2 ^ k"] assms(1) by (simp add: unat_pow2)
  have "0 < ?S" by simp
  then have lt: "unat x + (?S - 1) < 2 ^ 64" using assms(2) by linarith
  have eq: "x + 2 ^ k - 1 = x + (2 ^ k - 1)" by simp
  have u: "unat (x + 2 ^ k - 1) = unat x + (?S - 1)"
    unfolding eq using unat_plus64[of x "2 ^ k - 1"] m lt by simp
  have r: "unat ((x + 2 ^ k - 1) AND NOT (2 ^ k - 1)) = (unat x + (?S - 1)) div ?S * ?S"
    using round_down[OF assms(1)] u by simp
  have d: "(unat x + (?S - 1)) div ?S * ?S + (unat x + (?S - 1)) mod ?S = unat x + (?S - 1)"
    by (rule div_mult_mod_eq)
  have l: "(unat x + (?S - 1)) mod ?S < ?S" by simp
  show "2 ^ k dvd unat ((x + 2 ^ k - 1) AND NOT (2 ^ k - 1))" unfolding r by simp
  show "unat x \<le> unat ((x + 2 ^ k - 1) AND NOT (2 ^ k - 1))"
    "unat ((x + 2 ^ k - 1) AND NOT (2 ^ k - 1)) < unat x + 2 ^ k"
    unfolding r using d l by linarith+
qed

lemma popcount32_pow2: "k < 32 \<Longrightarrow> popcount32 (ucast (2 ^ k :: u64)) = 1"
proof -
  assume k: "k < 32"
  have "ucast (2 ^ k :: u64) = (2 ^ k :: 32 word)" by (rule bit_eqI) (use k in \<open>auto simp: bit_simps\<close>)
  moreover have "set (filter (bit (2 ^ k :: 32 word)) [0..<32]) = {k}" using k by (auto simp: bit_exp_iff)
  ultimately show ?thesis unfolding popcount32_def
    by (metis card.empty card_insert_disjoint distinct_card distinct_filter distinct_upt empty_iff finite.emptyI One_nat_def)
qed

subsection \<open>The layout of a stack\<close>

text \<open>The number of bytes of a guard, where there are guards.\<close>

definition guard_bytes :: "ctx_env \<Rightarrow> nat" where
  "guard_bytes env = (if mman env \<and> guard_on env then unat (pageSize env) else 0)"

definition page_ok :: "ctx_env \<Rightarrow> nat \<Rightarrow> bool" where
  "page_ok env k \<longleftrightarrow> 3 \<le> k \<and> k < 32 \<and> pageSize env = 2 ^ k"

text \<open>The usable part is aligned to pages, and lies in the stack with a guard on either side.\<close>

definition stack_layout :: "ctx_env \<Rightarrow> nat \<Rightarrow> stack \<Rightarrow> stack \<Rightarrow> bool" where
  "stack_layout env k s u \<longleftrightarrow> 2 ^ k dvd unat (stk_p u) \<and> 2 ^ k dvd unat (stk_size u) \<and> 0 < unat (stk_size u)
     \<and> stk_p u \<noteq> 0 \<and> stk_p s \<noteq> 0 \<and> unat (stk_p s) + unat (stk_size s) < 2 ^ 64
     \<and> unat (stk_p s) + guard_bytes env \<le> unat (stk_p u)
     \<and> unat (stk_p u) + unat (stk_size u) + guard_bytes env \<le> unat (stk_p s) + unat (stk_size s)"

lemma stackAlign_ok:
  assumes "page_ok env k" "stk_p s \<noteq> 0" "unat (stk_p s) + unat (stk_size s) < 2 ^ 64" "2 ^ k dvd unat (stk_size s)"
    "2 ^ k + 2 * guard_bytes env < unat (stk_size s)"
  shows "\<exists>u. stackAlign env s = Some u \<and> stack_layout env k s u
    \<and> unat (stk_size s) \<le> unat (stk_size u) + 2 ^ k + 2 * guard_bytes env"
proof -
  let ?S = "2 ^ k :: nat" and ?p = "stk_p s" and ?n = "stk_size s"
  let ?G = "guard_bytes env"
  let ?new = "(?p + 2 ^ k - 1) AND NOT (2 ^ k - 1)"
  let ?m = "(?n - (?new - ?p)) AND NOT (2 ^ k - 1)"
  have k: "k < 64" "pageSize env = 2 ^ k" using assms(1) by (auto simp: page_ok_def)
  have S: "unat (2 ^ k :: u64) = ?S" using k(1) by (rule unat_pow2)
  have "unat ?p + ?S \<le> 2 ^ 64" using assms(3,5) by linarith
  note up = round_up[OF k(1) this]
  have pn: "?p \<le> ?new" using up(2) by (simp add: word_le_nat_alt)
  have d: "unat (?new - ?p) = unat ?new - unat ?p" by (rule unat_minus64) (rule up(2))
  have n1: "unat (?n - (?new - ?p)) = unat ?n - (unat ?new - unat ?p)"
    using unat_minus64[of "?new - ?p" ?n] d up(3) assms(5) by simp
  obtain q where q: "unat ?n = ?S * q" using assms(4) by (elim dvdE)
  have m: "unat ?m = (unat ?n - (unat ?new - unat ?p)) div ?S * ?S" using round_down[OF k(1)] n1 by simp
  have "(unat ?n - (unat ?new - unat ?p)) div ?S * ?S + (unat ?n - (unat ?new - unat ?p)) mod ?S
      = unat ?n - (unat ?new - unat ?p)" by (rule div_mult_mod_eq)
  moreover have "(unat ?n - (unat ?new - unat ?p)) mod ?S < ?S" by simp
  ultimately have m1: "unat ?m + (unat ?new - unat ?p) \<le> unat ?n" "unat ?n < unat ?m + (unat ?new - unat ?p) + ?S"
    using m up(3) assms(5) by linarith+
  have m2: "?S dvd unat ?m" using m by simp
  have m3: "unat ?n \<le> unat ?m + ?S"
  proof -
    obtain q' where q': "unat ?m = ?S * q'" using m2 by (elim dvdE)
    have "?S * q < ?S * (q' + 2)" using m1 up(3) q q' by (simp add: algebra_simps)
    then have "q < q' + 2" using mult_less_cancel1 by blast
    then have "?S * q \<le> ?S * (q' + 1)" by (intro mult_le_mono2) simp
    then show ?thesis using q q' by (simp add: algebra_simps)
  qed
  have a1: "?n > pageSize env" using assms(5) S k(2) by (simp add: word_less_nat_alt)
  have n0: "?n \<noteq> 0" using assms(5) by auto
  have a2: "?p + ?n > ?p" using unat_plus64[OF assms(3)] n0 unat_eq_zero[of ?n] by (simp add: word_less_nat_alt)
  show ?thesis
  proof (cases "mman env \<and> guard_on env")
    case True
    then have G: "?G = ?S" using S k(2) by (simp add: guard_bytes_def)
    have s2: "unat (2 ^ k * 2 :: u64) = 2 * ?S"
      using unat_plus64[of "2 ^ k" "2 ^ k"] S assms(3,5) G by (simp add: mult_2_right)
    have a3: "?m > 2 ^ k * 2" using m3 assms(5) G s2 by (simp add: word_less_nat_alt)
    have p': "unat (?new + 2 ^ k) = unat ?new + ?S"
      using unat_plus64[of ?new "2 ^ k"] S assms(3,5) up(2,3) G by simp
    have m': "unat (?m - 2 ^ k * 2) = unat ?m - 2 * ?S" using unat_minus64[of "2 ^ k * 2" ?m] s2 m3 assms(5) G by simp
    have a4: "?m - 2 ^ k * 2 > 0" using m' m3 assms(5) G by (simp add: word_less_nat_alt)
    have "stackAlign env s = Some \<lparr>stk_p = ?new + 2 ^ k, stk_size = ?m - 2 ^ k * 2\<rparr>"
      using True assms(2) n0 a1 a2 a3 a4 k(2) by (simp add: stackAlign_def Let_def)
    moreover have "?new + 2 ^ k \<noteq> 0" using p' by (metis add_is_0 power_not_zero unat_0 zero_neq_numeral)
    ultimately show ?thesis using G p' m' m1 m2 m3 up assms(2,3,5)
      by (simp add: stack_layout_def dvd_diff_nat)
  next
    case False
    then have G: "?G = 0" by (auto simp: guard_bytes_def)
    have a4: "?m > 0" using m3 assms(5) by (simp add: word_less_nat_alt)
    have "stackAlign env s = Some \<lparr>stk_p = ?new, stk_size = ?m\<rparr>"
      using False assms(2) n0 a1 a2 a4 k(2) by (auto simp: stackAlign_def Let_def)
    moreover have "?new \<noteq> 0" using up(2) assms(2) by (metis le_zero_eq unat_0 unat_eq_zero)
    ultimately show ?thesis using G m1 m2 m3 up assms(2,3,5) by (simp add: stack_layout_def)
  qed
qed

subsection \<open>The marks\<close>

text \<open>All cells from \<open>p\<close> on, \<open>n\<close> bytes.\<close>

definition cells_accessible :: "u64 \<Rightarrow> u64 \<Rightarrow> machine \<Rightarrow> bool" where
  "cells_accessible p n m \<longleftrightarrow> unat p mod 8 = 0 \<and> unat p + unat n < 2 ^ 64
     \<and> (\<forall>a. unat a mod 8 = 0 \<longrightarrow> unat p \<le> unat a \<longrightarrow> unat a + 8 \<le> unat p + unat n \<longrightarrow> accessible a m)"

lemma accessible_cells [simp]: "accessible a (m\<lparr>cells := x\<rparr>) = accessible a m"
  by (simp add: accessible_def)

lemma cells_accessible_cells [simp]: "cells_accessible p n (m\<lparr>cells := x\<rparr>) = cells_accessible p n m"
  by (simp add: cells_accessible_def)

lemma cell_addr:
  assumes "cells_accessible p n m" "unat i < unat n div 8"
  shows "unat (p + i * 8) = unat p + 8 * unat i" "accessible (p + i * 8) m"
proof -
  have i: "unat i * 8 + 8 \<le> unat n" using assms(2) by linarith
  have b: "unat p + unat n < 2 ^ 64" using assms(1) by (simp add: cells_accessible_def)
  have "unat (i * 8) = unat i * 8" by (rule unat_times8) (use i b in linarith)
  then show a: "unat (p + i * 8) = unat p + 8 * unat i"
    using unat_plus64[of p "i * 8"] i b by simp
  have "(unat p + 8 * unat i) mod 8 = unat p mod 8" by simp
  then show "accessible (p + i * 8) m"
    using assms(1) a i unfolding cells_accessible_def by (metis le_add1 add.assoc add_le_cancel_left mult.commute)
qed

definition marked :: "u64 \<Rightarrow> nat \<Rightarrow> nat \<Rightarrow> machine \<Rightarrow> bool" where
  "marked p i j m \<longleftrightarrow> (\<forall>a l. i \<le> l \<longrightarrow> l < j \<longrightarrow> unat a = unat p + 8 * l \<longrightarrow> cells m a = ZTH_STACK_WATERMARKER)"

lemma mark_loop_ok:
  assumes "cells_accessible p n m" "8 \<le> unat n" "unat i \<le> unat n div 8"
  shows "\<exists>f. mark_loop p n i m = Some (m\<lparr>cells := f\<rparr>) \<and> marked p (unat i) (unat n div 8) (m\<lparr>cells := f\<rparr>)
    \<and> (\<forall>a. unat a < unat p + 8 * unat i \<longrightarrow> f a = cells m a)"
  using assms
proof (induction "unat n div 8 - unat i" arbitrary: i m)
  case 0
  then have i: "unat i = unat n div 8" by simp
  have "unat n < 2 ^ 64" by (rule unat_less64)
  then have "unat (i * 8) = unat i * 8" "unat (n - 8) = unat n - 8"
    using i unat_times8[of i] unat_minus64[of 8 n] 0(3) by simp_all
  then have "\<not> i * 8 \<le> n - 8" using i 0(3) by (simp add: word_le_nat_alt)
  then have "mark_loop p n i m = Some (m\<lparr>cells := cells m\<rparr>)" by (subst mark_loop.simps) simp
  then show ?case using i by (intro exI[of _ "cells m"]) (simp add: marked_def)
next
  case (Suc d)
  then have lt: "unat i < unat n div 8" by simp
  note ca = cell_addr[OF Suc.prems(1) lt]
  have "unat n < 2 ^ 64" by (rule unat_less64)
  then have "unat (i * 8) = unat i * 8" "unat (n - 8) = unat n - 8" and i1: "unat (i + 1) = unat i + 1"
    using lt unat_times8[of i] unat_minus64[of 8 n] unat_plus64[of i 1] Suc.prems(2) by simp_all
  then have g: "i * 8 \<le> n - 8" using lt by (simp add: word_le_nat_alt)
  let ?m = "m\<lparr>cells := (cells m)(p + i * 8 := ZTH_STACK_WATERMARKER)\<rparr>"
  have "d = unat n div 8 - unat (i + 1)" "unat (i + 1) \<le> unat n div 8" using Suc(2) lt i1 by simp_all
  moreover have "cells_accessible p n ?m" using Suc.prems(1) by simp
  ultimately obtain f where f: "mark_loop p n (i + 1) ?m = Some (?m\<lparr>cells := f\<rparr>)"
      "marked p (unat (i + 1)) (unat n div 8) (?m\<lparr>cells := f\<rparr>)" "\<forall>a. unat a < unat p + 8 * unat (i + 1) \<longrightarrow> f a = cells ?m a"
    using Suc.hyps(1)[of "i + 1" ?m] Suc.prems(2) by blast
  have s: "mark_loop p n i m = Some (m\<lparr>cells := f\<rparr>)"
    using g ca(2) f(1) by (subst mark_loop.simps) (simp add: store_def)
  have "f (p + i * 8) = ZTH_STACK_WATERMARKER" using f(3) ca(1) i1 by simp
  then have "marked p (unat i) (unat n div 8) (m\<lparr>cells := f\<rparr>)"
    using f(2) ca(1) i1 unfolding marked_def by simp (metis Suc_leI le_neq_implies_less word_unat_eq_iff)
  moreover have "\<forall>a. unat a < unat p + 8 * unat i \<longrightarrow> f a = cells m a" using f(3) ca(1) i1 by auto
  ultimately show ?case using s by blast
qed

lemma unused_loop_ok:
  assumes "cells_accessible p n m" "marked p (unat i) j m" "unat i \<le> j" "j \<le> unat n div 8"
    "\<forall>a. j < unat n div 8 \<longrightarrow> unat a = unat p + 8 * j \<longrightarrow> cells m a \<noteq> ZTH_STACK_WATERMARKER"
  shows "\<exists>r. unused_loop p n i m = Some r \<and> unat r = j"
  using assms
proof (induction "j - unat i" arbitrary: i)
  case 0
  then have j: "j = unat i" by simp
  show ?case
  proof (cases "i < n div 8")
    case True
    then have lt: "unat i < unat n div 8" by (simp add: word_less_nat_alt unat_div)
    note ca = cell_addr[OF 0(2) lt]
    have "cells m (p + i * 8) \<noteq> ZTH_STACK_WATERMARKER" using 0(6) ca(1) j lt by simp
    then show ?thesis using True ca(2) j by (subst unused_loop.simps) (simp add: load_def)
  qed (use j in \<open>subst unused_loop.simps, simp\<close>)
next
  case (Suc d)
  then have lt: "unat i < unat n div 8" and ij: "unat i < j" by simp_all
  note ca = cell_addr[OF Suc.prems(1) lt]
  have i1: "unat (i + 1) = unat i + 1" using unat_plus64[of i 1] lt unat_less64[of n] by simp
  have "cells m (p + i * 8) = ZTH_STACK_WATERMARKER" using Suc.prems(2) ca(1) ij unfolding marked_def by (metis le_refl)
  moreover have "i < n div 8" using lt by (simp add: word_less_nat_alt unat_div)
  ultimately have "unused_loop p n i m = unused_loop p n (i + 1) m" using ca(2) by (subst unused_loop.simps) (simp add: load_def)
  moreover have "marked p (unat (i + 1)) j m" using Suc.prems(2) i1 unfolding marked_def by (metis Suc_eq_plus1 Suc_leD)
  ultimately show ?case using Suc.hyps(1)[of "i + 1"] Suc(2) Suc.prems ij i1 by simp
qed

definition region_accessible :: "u64 \<Rightarrow> u64 \<Rightarrow> machine \<Rightarrow> bool" where
  "region_accessible p n m \<longleftrightarrow> unat p + unat n < 2 ^ 64
     \<and> (\<forall>a. unat a mod 8 = 0 \<longrightarrow> unat p \<le> unat a \<longrightarrow> unat a + 8 \<le> unat p + unat n \<longrightarrow> accessible a m)"

text \<open>The size is at the first aligned address \<open>q\<close>; the cells with marks follow.\<close>

lemma watermark_align:
  assumes "p \<noteq> 0" "region_accessible p n m" "23 \<le> unat n"
  obtains q where "\<forall>l. stack_watermark_align p l = (q + 8, q, l - (q + 8 - p))"
    "unat (q + 8) = unat q + 8" "accessible q m" "cells_accessible (q + 8) (n - (q + 8 - p)) m"
    "unat p \<le> unat q" "unat q < unat p + 8" "unat (n - (q + 8 - p)) = unat n - (unat q + 8 - unat p)"
proof -
  let ?q = "(p + 8 - 1) AND NOT (8 - 1)"
  have b: "unat p + unat n < 2 ^ 64" using assms(2) by (simp add: region_accessible_def)
  have "unat p + 2 ^ 3 \<le> 2 ^ 64" using b assms(3) by simp
  from round_up[of 3 p, OF _ this] have q: "8 dvd unat ?q" "unat p \<le> unat ?q" "unat ?q < unat p + 8" by simp_all
  have q8: "unat (?q + 8) = unat ?q + 8" using unat_plus64[of ?q 8] q(3) b assms(3) by simp
  have d: "unat (?q + 8 - p) = unat ?q + 8 - unat p" using unat_minus64[of p "?q + 8"] q8 q(2) by simp
  have n: "unat (n - (?q + 8 - p)) = unat n - (unat ?q + 8 - unat p)"
    using unat_minus64[of "?q + 8 - p" n] d q(3) assms(3) by simp
  have a: "accessible ?q m" using assms(2) q b assms(3) by (simp add: region_accessible_def)
  have c: "cells_accessible (?q + 8) (n - (?q + 8 - p)) m"
    using assms(2,3) q q8 n b unfolding cells_accessible_def region_accessible_def by (simp add: mod_0_imp_dvd dvd_imp_mod_0)
  show thesis
    using that[of ?q] assms(1) q8 a c q(2,3) n by (simp add: stack_watermark_align_def Let_def)
qed

text \<open>What the functions report of a region: \<open>n\<close> bytes, of which \<open>j\<close> cells were not used.\<close>

definition watermark_reads :: "ctx_env \<Rightarrow> u64 \<Rightarrow> machine \<Rightarrow> u64 \<Rightarrow> nat \<Rightarrow> bool" where
  "watermark_reads env p m n j \<longleftrightarrow> stack_watermark_size env p m = Some n
     \<and> (\<exists>u. stack_watermark_maxused env p m = Some u \<and> unat u = unat n - 8 * j)
     \<and> (\<exists>r. stack_watermark_remaining env p m = Some r \<and> unat r = 8 * j)"

lemma watermark_measures_ok:
  assumes "mark_on env" "grows_down env" "p \<noteq> 0" "region_accessible p n m" "23 \<le> unat n"
  shows "\<exists>f (q :: u64) n'. stack_watermark_init env p n m = Some (m\<lparr>cells := f\<rparr>)
    \<and> unat p \<le> unat q \<and> unat q + unat n' = unat p + unat n \<and> unat n \<le> unat n' + 15
    \<and> (\<forall>h j. (\<forall>a. unat a < unat q + 8 * j \<longrightarrow> h a = f a) \<longrightarrow> j \<le> unat n' div 8
        \<longrightarrow> (j < unat n' div 8 \<longrightarrow> (\<forall>a. unat a = unat q + 8 * j \<longrightarrow> h a \<noteq> ZTH_STACK_WATERMARKER))
        \<longrightarrow> watermark_reads env p (m\<lparr>cells := h\<rparr>) n' j)"
proof -
  obtain q where al: "\<forall>l. stack_watermark_align p l = (q + 8, q, l - (q + 8 - p))"
    and q8: "unat (q + 8) = unat q + 8" and acc: "accessible q m"
    and ca: "cells_accessible (q + 8) (n - (q + 8 - p)) m"
    and pq: "unat p \<le> unat q" "unat q < unat p + 8" and un: "unat (n - (q + 8 - p)) = unat n - (unat q + 8 - unat p)"
    by (rule watermark_align[OF assms(3-5)])
  let ?n = "n - (q + 8 - p)"
  have n8: "8 \<le> unat ?n" using un pq assms(5) by linarith
  let ?m = "m\<lparr>cells := (cells m)(q := ?n)\<rparr>"
  obtain f where f: "mark_loop (q + 8) ?n 0 ?m = Some (?m\<lparr>cells := f\<rparr>)" "marked (q + 8) 0 (unat ?n div 8) (?m\<lparr>cells := f\<rparr>)"
      "\<forall>a. unat a < unat (q + 8) \<longrightarrow> f a = cells ?m a"
    using mark_loop_ok[of "q + 8" ?n ?m 0] ca n8 by auto
  have init: "stack_watermark_init env p n m = Some (m\<lparr>cells := f\<rparr>)"
    using assms(1-3,5) al acc f(1) by (auto simp: stack_watermark_init_def store_def)
  have fq: "f q = ?n" using f(3) q8 by simp
  have measure: "watermark_reads env p (m\<lparr>cells := h\<rparr>) ?n j"
    if h: "\<forall>a. unat a < unat (q + 8) + 8 * j \<longrightarrow> h a = f a" and j: "j \<le> unat ?n div 8"
      and t: "j < unat ?n div 8 \<longrightarrow> (\<forall>a. unat a = unat (q + 8) + 8 * j \<longrightarrow> h a \<noteq> ZTH_STACK_WATERMARKER)" for h j
  proof -
    let ?h = "m\<lparr>cells := h\<rparr>"
    have hq: "h q = ?n" using h q8 fq by simp
    then have sz: "stack_watermark_size env p ?h = Some ?n"
      using assms(1,3) al acc by (simp add: stack_watermark_size_def load_def)
    have mk: "marked (q + 8) 0 j ?h" using f(2) h j unfolding marked_def by simp (metis (no_types) le_trans linorder_not_le)
    obtain r where r: "unused_loop (q + 8) ?n 0 ?h = Some r" "unat r = j"
      using unused_loop_ok[of "q + 8" ?n ?h 0 j] ca mk j t by auto
    have mu: "stack_watermark_maxused env p ?h = Some (?n - r * 8)"
      using assms(1,3) al acc hq r(1) by (simp add: stack_watermark_maxused_def load_def)
    have r8: "unat (r * 8) = 8 * j" using unat_times8[of r] r(2) j unat_less64[of ?n] by simp
    have u: "unat (?n - r * 8) = unat ?n - 8 * j" using unat_minus64[of "r * 8" ?n] r8 j by simp
    have "stack_watermark_remaining env p ?h = Some (r * 8)"
      using sz mu by (simp add: stack_watermark_remaining_def)
    then show ?thesis using sz mu u r8 by (simp add: watermark_reads_def)
  qed
  have "unat (q + 8) + unat ?n = unat p + unat n" "unat n \<le> unat ?n + 15" "unat p \<le> unat (q + 8)"
    using un pq q8 assms(5) by linarith+
  moreover have "\<forall>h j. (\<forall>a. unat a < unat (q + 8) + 8 * j \<longrightarrow> h a = f a) \<longrightarrow> j \<le> unat ?n div 8
      \<longrightarrow> (j < unat ?n div 8 \<longrightarrow> (\<forall>a. unat a = unat (q + 8) + 8 * j \<longrightarrow> h a \<noteq> ZTH_STACK_WATERMARKER))
      \<longrightarrow> watermark_reads env p (m\<lparr>cells := h\<rparr>) ?n j"
    using measure by blast
  ultimately show ?thesis using init by blast
qed

text \<open>
  The high water mark: after the initialisation, the cells up to the lowest one that was overwritten count as unused, all
  others as used.
\<close>

theorem watermark_measures:
  assumes "mark_on env" "grows_down env" "p \<noteq> 0" "region_accessible p n m" "23 \<le> unat n"
  shows "\<exists>f (q :: u64) n'. stack_watermark_init env p n m = Some (m\<lparr>cells := f\<rparr>)
    \<and> unat p \<le> unat q \<and> unat q + unat n' = unat p + unat n \<and> unat n \<le> unat n' + 15
    \<and> (\<forall>h j. (\<forall>a. unat a < unat q + 8 * j \<longrightarrow> h a = f a) \<longrightarrow> j \<le> unat n' div 8
        \<longrightarrow> (j < unat n' div 8 \<longrightarrow> (\<forall>a. unat a = unat q + 8 * j \<longrightarrow> h a \<noteq> ZTH_STACK_WATERMARKER))
        \<longrightarrow> watermark_reads env p (m\<lparr>cells := h\<rparr>) n' j)"
  using assms by (rule watermark_measures_ok)

text \<open>
  A region of less than 16 bytes has no room for a mark. The bound of the loop wraps then, and it writes beyond the region.
\<close>

lemma watermark_init_small:
  assumes "mark_on env" "p \<noteq> 0" "unat p mod 8 = 0" "n \<noteq> 0" "unat n < 16" "unat p + 16 < 2 ^ 64" "mapped m = [(p, n)]"
  shows "stack_watermark_init env p n m = None"
proof -
  let ?q = "(p + 8 - 1) AND NOT (8 - 1)"
  have "unat p + 2 ^ 3 \<le> 2 ^ 64" using assms(6) by simp
  from round_up[of 3 p, OF _ this] have q: "8 dvd unat ?q" "unat p \<le> unat ?q" "unat ?q < unat p + 8" by simp_all
  then have "unat ?q = unat p" using assms(3) by presburger
  then have qp: "?q = p" by (simp only: word_unat_eq_iff)
  have p8: "unat (p + 8) = unat p + 8" using unat_plus64[of p 8] assms(6) by simp
  then have na: "\<not> accessible (p + 8) (m\<lparr>cells := f\<rparr>)" for f using assms(5,7) by (simp add: accessible_def)
  have "mark_loop (p + 8) (n - 8) 0 (m\<lparr>cells := f\<rparr>) = None" if "8 \<le> unat n" for f
    using na by (subst mark_loop.simps) (simp add: store_def)
  moreover have "\<not> accessible p m" if "unat n < 8" using that assms(7) by (simp add: accessible_def)
  ultimately show ?thesis using assms(1,2,4) qp
    by (cases "unat n < 8") (auto simp: stack_watermark_init_def stack_watermark_align_def store_def zth_assert_def)
qed

subsection \<open>Contexts are created completely or not at all\<close>

text \<open>
  What is relied on: a new region does not wrap, and is disjoint from what is guarded. A call that fails has an error.
\<close>

definition region_fresh :: "u64 \<Rightarrow> u64 \<Rightarrow> machine \<Rightarrow> bool" where
  "region_fresh p n m \<longleftrightarrow> p \<noteq> 0 \<and> unat p + unat n < 2 ^ 64
     \<and> (\<forall>(q, l) \<in> set (noaccess m). (unat q < unat p \<and> unat q + unat l \<le> unat p) \<or> unat p + unat n \<le> unat q)"

definition alloc_ok :: "ctx_env \<Rightarrow> machine \<Rightarrow> bool" where
  "alloc_ok env m \<longleftrightarrow> (\<forall>n. case sys_alloc env n of Inl e \<Rightarrow> e \<noteq> E_OK | Inr p \<Rightarrow> region_fresh p n m)"

text \<open>The guards of a stack; without guards there are none.\<close>

definition guards :: "ctx_env \<Rightarrow> stack \<Rightarrow> (u64 \<times> u64) list" where
  "guards env u = (if mman env \<and> guard_on env
     then [(stk_p u + stk_size u, pageSize env), (stk_p u - pageSize env, pageSize env)] else [])"

text \<open>A context with a stack of at least \<open>n\<close> bytes, made from the memory \<open>m\<close>.\<close>

definition context_ready :: "ctx_env \<Rightarrow> nat \<Rightarrow> u64 \<Rightarrow> machine \<Rightarrow> ctx \<Rightarrow> machine \<Rightarrow> bool" where
  "context_ready env k n m c m' \<longleftrightarrow> stack_layout env k (cx_stack c) (cx_usable c)
     \<and> unat n + unat (minsigstksz env) \<le> unat (stk_size (cx_usable c))
     \<and> region_accessible (stk_p (cx_usable c)) (stk_size (cx_usable c)) m'
     \<and> mapped m' = (stk_p (cx_stack c), stk_size (cx_stack c)) # mapped m
     \<and> noaccess m' = guards env (cx_usable c) @ noaccess m"

definition context_gone :: "machine \<Rightarrow> ctx \<Rightarrow> machine \<Rightarrow> bool" where
  "context_gone m c m' \<longleftrightarrow> stk_p (cx_stack c) = 0 \<and> mapped m' = mapped m \<and> noaccess m' = noaccess m"

lemma guard_bounds:
  assumes "page_ok env k" "stack_layout env k s u" "(q, l) \<in> set (guards env u)"
  shows "unat (stk_p s) \<le> unat q" "unat q < unat (stk_p s) + unat (stk_size s)"
    "unat q + unat l \<le> unat (stk_p u) \<or> unat (stk_p u) + unat (stk_size u) \<le> unat q"
proof -
  let ?S = "2 ^ k :: nat"
  have k: "k < 64" "pageSize env = 2 ^ k" using assms(1) by (auto simp: page_ok_def)
  then have S: "unat (pageSize env) = ?S" by (simp add: unat_pow2)
  have on: "mman env \<and> guard_on env" and q: "q = stk_p u + stk_size u \<or> q = stk_p u - pageSize env" "l = pageSize env"
    using assms(3) by (auto simp: guards_def split: if_splits)
  then have G: "guard_bytes env = ?S" using S by (simp add: guard_bytes_def)
  have lay: "unat (stk_p s) + ?S \<le> unat (stk_p u)" "unat (stk_p u) + unat (stk_size u) + ?S \<le> unat (stk_p s) + unat (stk_size s)"
      "unat (stk_p s) + unat (stk_size s) < 2 ^ 64"
    using assms(2) G by (simp_all add: stack_layout_def)
  have hi: "unat (stk_p u + stk_size u) = unat (stk_p u) + unat (stk_size u)" by (rule unat_plus64) (use lay in linarith)
  have lo: "unat (stk_p u - pageSize env) = unat (stk_p u) - ?S" using unat_minus64[of "pageSize env" "stk_p u"] S lay by simp
  have pos: "0 < ?S" by simp
  have uq: "unat q = unat (stk_p u) + unat (stk_size u) \<or> unat q = unat (stk_p u) - ?S" "unat l = ?S" using q S hi lo by auto
  show "unat (stk_p s) \<le> unat q" using uq lay by linarith
  show "unat q < unat (stk_p s) + unat (stk_size s)" using uq lay pos by linarith
  show "unat q + unat l \<le> unat (stk_p u) \<or> unat (stk_p u) + unat (stk_size u) \<le> unat q" using uq lay by linarith
qed

lemma usable_accessible:
  assumes "page_ok env k" "stack_layout env k s u" "region_fresh (stk_p s) (stk_size s) m" "set gs \<subseteq> set (guards env u)"
    "mapped m' = (stk_p s, stk_size s) # mapped m" "noaccess m' = gs @ noaccess m"
  shows "region_accessible (stk_p u) (stk_size u) m'"
proof -
  have lay: "unat (stk_p s) \<le> unat (stk_p u)" "unat (stk_p u) + unat (stk_size u) \<le> unat (stk_p s) + unat (stk_size s)"
      "unat (stk_p s) + unat (stk_size s) < 2 ^ 64"
    using assms(2) by (simp_all add: stack_layout_def)
  have "accessible a m'" if a: "unat a mod 8 = 0" "unat (stk_p u) \<le> unat a" "unat a + 8 \<le> unat (stk_p u) + unat (stk_size u)" for a
  proof -
    have "unat a + 8 \<le> unat q \<or> unat q + unat l \<le> unat a" if "(q, l) \<in> set gs" for q l
      using guard_bounds(3)[OF assms(1,2), of q l] that assms(4) a(2,3) by fastforce
    moreover have "unat a + 8 \<le> unat q \<or> unat q + unat l \<le> unat a" if "(q, l) \<in> set (noaccess m)" for q l
      using assms(3) that a(2,3) lay unfolding region_fresh_def by fastforce
    ultimately show ?thesis using a lay assms(5,6) by (auto simp: accessible_def list_all_iff)
  qed
  then show ?thesis using lay by (simp add: region_accessible_def)
qed

text \<open>Releasing the stack releases its guards, and nothing else.\<close>

lemma munmap_stack:
  assumes "page_ok env k" "stack_layout env k s u" "region_fresh (stk_p s) (stk_size s) m" "set gs \<subseteq> set (guards env u)"
    "mapped m' = (stk_p s, stk_size s) # mapped m" "noaccess m' = gs @ noaccess m"
  shows "\<exists>m2. munmap (stk_p s) (stk_size s) m' = Some m2 \<and> mapped m2 = mapped m \<and> noaccess m2 = noaccess m"
proof -
  let ?P = "\<lambda>(q, k). unat q < unat (stk_p s) \<or> unat (stk_p s) + unat (stk_size s) \<le> unat q"
  have "\<not> ?P x" if "x \<in> set gs" for x
    using guard_bounds(1,2)[OF assms(1,2), of "fst x" "snd x"] that assms(4) by (cases x) (fastforce simp: not_le not_less)
  then have "filter ?P gs = []" by (auto simp: filter_empty_conv)
  moreover have "filter ?P (noaccess m) = noaccess m"
    using assms(3) by (intro filter_True) (auto simp: region_fresh_def)
  ultimately show ?thesis using assms(5,6) by (simp add: munmap_def)
qed

definition create_pre :: "ctx_env \<Rightarrow> nat \<Rightarrow> u64 \<Rightarrow> machine \<Rightarrow> bool" where
  "create_pre env k n m \<longleftrightarrow> page_ok env k \<and> alloc_ok env m \<and> n \<noteq> 0 \<and> (mark_on env \<longrightarrow> grows_down env)
     \<and> 23 \<le> unat n + unat (minsigstksz env)
     \<and> unat n + unat (minsigstksz env) + 2 * guard_bytes env + 2 * 2 ^ k < 2 ^ 64"

lemma watermark_init_ok:
  assumes "mark_on env \<longrightarrow> grows_down env" "p \<noteq> 0" "region_accessible p n m" "23 \<le> unat n"
  shows "\<exists>f. stack_watermark_init env p n m = Some (m\<lparr>cells := f\<rparr>)"
proof (cases "mark_on env")
  case True
  then show ?thesis using watermark_measures_ok[of env p n m] assms by blast
next
  case False
  then show ?thesis by (intro exI[of _ "cells m"]) (simp add: stack_watermark_init_def)
qed

lemma calcStackSize_unat:
  assumes "create_pre env k n m"
  shows "unat (calcStackSize env n) = unat n + unat (minsigstksz env) + 2 * guard_bytes env"
proof -
  have b: "unat n + unat (minsigstksz env) + 2 * guard_bytes env < 2 ^ 64" using assms unfolding create_pre_def by linarith
  have 1: "unat (n + minsigstksz env) = unat n + unat (minsigstksz env)" by (rule unat_plus64) (use b in linarith)
  show ?thesis
  proof (cases "mman env \<and> guard_on env")
    case True
    then have G: "guard_bytes env = unat (pageSize env)" by (simp add: guard_bytes_def)
    have 2: "unat (pageSize env * 2) = 2 * unat (pageSize env)"
      using unat_plus64[of "pageSize env" "pageSize env"] b G by (simp add: mult_2_right)
    have "unat (n + minsigstksz env + pageSize env * 2) = unat n + unat (minsigstksz env) + 2 * guard_bytes env"
      using unat_plus64[of "n + minsigstksz env" "pageSize env * 2"] 1 2 b G by simp
    then show ?thesis using True by (simp add: calcStackSize_def)
  next
    case False
    then show ?thesis using 1 by (auto simp: calcStackSize_def guard_bytes_def)
  qed
qed

lemma initStack_ok:
  assumes "create_pre env k n m"
  shows "(\<exists>e s. initStack env (Stack n) (Stack 0) m = Some (e, s, Stack 0, m) \<and> e \<noteq> E_OK \<and> stk_p s = 0)
    \<or> (\<exists>s u f. initStack env (Stack n) (Stack 0) m
          = Some (E_OK, s, u, m\<lparr>mapped := (stk_p s, stk_size s) # mapped m, cells := f\<rparr>)
        \<and> stack_layout env k s u \<and> unat n + unat (minsigstksz env) \<le> unat (stk_size u)
        \<and> region_fresh (stk_p s) (stk_size s) m)"
proof -
  let ?S = "2 ^ k :: nat" and ?c = "calcStackSize env n"
  let ?r = "(?c + 2 ^ k - 1) AND NOT (2 ^ k - 1)"
  let ?N = "?r + 2 ^ k"
  have pg: "page_ok env k" and al: "alloc_ok env m" and gd: "mark_on env \<longrightarrow> grows_down env"
    and sm: "23 \<le> unat n + unat (minsigstksz env)" using assms by (auto simp: create_pre_def)
  have k: "k < 64" "k < 32" "pageSize env = 2 ^ k" using pg by (auto simp: page_ok_def)
  have c: "unat ?c = unat n + unat (minsigstksz env) + 2 * guard_bytes env" using assms by (rule calcStackSize_unat)
  have b: "unat ?c + 2 * ?S < 2 ^ 64" using assms c unfolding create_pre_def by linarith
  have "unat ?c + ?S \<le> 2 ^ 64" using b by linarith
  note up = round_up[OF k(1) this]
  have N: "unat ?N = unat ?r + ?S" using unat_plus64[of ?r "2 ^ k"] up(3) b k(1) by (simp add: unat_pow2)
  have init: "initStack env (Stack n) (Stack 0) m = (case allocStack env ?N m of
       (Inl e, m) \<Rightarrow> Some (e, \<lparr>stk_p = 0, stk_size = ?N\<rparr>, Stack 0, m)
     | (Inr p, m) \<Rightarrow> do {
         u \<leftarrow> stackAlign env \<lparr>stk_p = p, stk_size = ?N\<rparr>;
         m \<leftarrow> stack_watermark_init env (stk_p u) (stk_size u) m;
         Some (E_OK, \<lparr>stk_p = p, stk_size = ?N\<rparr>, u, m)
       })"
    using popcount32_pow2[OF k(2)] k(3) by (simp add: initStack_def Let_def Stack_def(1)[of n] split: prod.split sum.split)
  have al': "case sys_alloc env ?N of Inl e \<Rightarrow> e \<noteq> E_OK | Inr p \<Rightarrow> region_fresh p ?N m"
    using al unfolding alloc_ok_def by blast
  show ?thesis
  proof (cases "sys_alloc env ?N")
    case (Inl e)
    then have "e \<noteq> E_OK" using al' by simp
    then show ?thesis using init Inl by (simp add: allocStack_def)
  next
    case (Inr p)
    let ?s = "\<lparr>stk_p = p, stk_size = ?N\<rparr>"
    have fr: "region_fresh p ?N m" using al' Inr by simp
    have "2 ^ k dvd unat ?N" "?S + 2 * guard_bytes env < unat ?N" "unat p + unat ?N < 2 ^ 64" "p \<noteq> 0"
      using N up c sm fr by (simp_all add: region_fresh_def)
    then obtain u where u: "stackAlign env ?s = Some u" "stack_layout env k ?s u"
        "unat ?N \<le> unat (stk_size u) + ?S + 2 * guard_bytes env"
      using stackAlign_ok[OF pg, of ?s] by auto
    then have sz: "unat n + unat (minsigstksz env) \<le> unat (stk_size u)" using N up(2) c by linarith
    let ?m = "m\<lparr>mapped := (p, ?N) # mapped m\<rparr>"
    have "region_accessible (stk_p u) (stk_size u) ?m"
      using usable_accessible[OF pg u(2), of m "[]" ?m] fr by simp
    moreover have "stk_p u \<noteq> 0" using u(2) by (simp add: stack_layout_def)
    ultimately obtain f where "stack_watermark_init env (stk_p u) (stk_size u) ?m = Some (?m\<lparr>cells := f\<rparr>)"
      using watermark_init_ok[OF gd, of "stk_p u" "stk_size u" ?m] sz sm by auto
    then have "initStack env (Stack n) (Stack 0) m = Some (E_OK, ?s, u, m\<lparr>mapped := (stk_p ?s, stk_size ?s) # mapped m, cells := f\<rparr>)"
      using init Inr u(1) by (simp add: allocStack_def)
    then show ?thesis using u(2) sz fr by (metis stack.select_convs)
  qed
qed

lemma stackGuardInit_ok:
  assumes "page_ok env k" "stack_layout env k s u"
  shows "\<exists>r gs. stackGuardInit env u m = (r, m\<lparr>noaccess := gs @ noaccess m\<rparr>) \<and> set gs \<subseteq> set (guards env u)
    \<and> (r = E_OK \<longrightarrow> gs = guards env u)"
proof (cases "mman env \<and> guard_on env")
  case True
  have "stk_p u \<noteq> 0" using assms(2) by (simp add: stack_layout_def)
  then show ?thesis using True
    by (cases "sys_protect env (stk_p u - pageSize env)")
      (auto simp: stackGuardInit_def mprotect_def guards_def Let_def
        intro: exI[of _ "[]"] exI[of _ "[(stk_p u - pageSize env, pageSize env)]"])
next
  case False
  then show ?thesis by (intro exI[of _ E_OK] exI[of _ "[]"]) (auto simp: stackGuardInit_def guards_def)
qed

lemma create_ok:
  assumes "create_pre env k n m"
  shows "\<exists>r c m'. create env (Context_new n) m = Some (r, c, m')
    \<and> (if r = E_OK then context_ready env k n m c m' \<and> region_fresh (stk_p (cx_stack c)) (stk_size (cx_stack c)) m
       else context_gone m c m')"
proof -
  have pg: "page_ok env k" and n0: "n \<noteq> 0" using assms by (auto simp: create_pre_def)
  note cr = create_def Context_new_def Let_def
  from initStack_ok[OF assms] consider
      (fail) e s where "initStack env (Stack n) (Stack 0) m = Some (e, s, Stack 0, m)" "e \<noteq> E_OK" "stk_p s = 0"
    | (good) s u f where "initStack env (Stack n) (Stack 0) m
          = Some (E_OK, s, u, m\<lparr>mapped := (stk_p s, stk_size s) # mapped m, cells := f\<rparr>)"
        "stack_layout env k s u" "unat n + unat (minsigstksz env) \<le> unat (stk_size u)" "region_fresh (stk_p s) (stk_size s) m"
    by blast
  then show ?thesis
  proof cases
    case fail
    then have "create env (Context_new n) m = Some (e, \<lparr>cx_stackSize = n, cx_stack = s, cx_usable = Stack 0\<rparr>, m)"
      using n0 by (simp add: cr)
    then show ?thesis using fail by (simp add: context_gone_def)
  next
    case good
    let ?m = "m\<lparr>mapped := (stk_p s, stk_size s) # mapped m, cells := f\<rparr>"
    obtain r gs where g: "stackGuardInit env u ?m = (r, ?m\<lparr>noaccess := gs @ noaccess ?m\<rparr>)" "set gs \<subseteq> set (guards env u)"
        "r = E_OK \<longrightarrow> gs = guards env u"
      using stackGuardInit_ok[OF pg good(2), of ?m] by blast
    let ?m' = "?m\<lparr>noaccess := gs @ noaccess ?m\<rparr>"
    let ?c = "\<lparr>cx_stackSize = n, cx_stack = s, cx_usable = u\<rparr>"
    show ?thesis
    proof (cases "r = E_OK")
      case True
      then have "create env (Context_new n) m = Some (E_OK, ?c, ?m')" using n0 good(1) g(1) by (simp add: cr)
      moreover have "region_accessible (stk_p u) (stk_size u) ?m'"
        using usable_accessible[OF pg good(2,4) g(2), of ?m'] by simp
      ultimately show ?thesis using good g(3) True by (simp add: context_ready_def)
    next
      case False
      obtain m2 where m2: "munmap (stk_p s) (stk_size s) ?m' = Some m2" "mapped m2 = mapped m" "noaccess m2 = noaccess m"
        using munmap_stack[OF pg good(2,4) g(2), of ?m'] by auto
      have "stk_p s \<noteq> 0" using good(2) by (simp add: stack_layout_def)
      then have "create env (Context_new n) m = Some (r, ?c\<lparr>cx_stack := s\<lparr>stk_p := 0\<rparr>\<rparr>, m2)"
        using n0 good(1) g(1) False m2(1) by (cases r) (simp_all add: cr deallocStack_def)
      then show ?thesis using m2 False by (simp add: context_gone_def)
    qed
  qed
qed

lemma destroy_ok:
  assumes "page_ok env k" "context_ready env k n m c m'" "region_fresh (stk_p (cx_stack c)) (stk_size (cx_stack c)) m"
  shows "\<exists>c' m2. destroy c m' = Some (c', m2) \<and> context_gone m c' m2"
proof -
  have lay: "stack_layout env k (cx_stack c) (cx_usable c)" using assms(2) by (simp add: context_ready_def)
  have "\<exists>m2. munmap (stk_p (cx_stack c)) (stk_size (cx_stack c)) m' = Some m2 \<and> mapped m2 = mapped m \<and> noaccess m2 = noaccess m"
    using munmap_stack[OF assms(1) lay assms(3) subset_refl] assms(2) by (simp add: context_ready_def)
  then show ?thesis using lay by (auto simp: destroy_def deallocStack_def context_gone_def stack_layout_def Stack_def)
qed

text \<open>A signal that cannot be set up as it should leads to the release of the stack.\<close>

lemma sig_rollback_ok:
  assumes "page_ok env k" "context_ready env k n m c m'" "region_fresh (stk_p (cx_stack c)) (stk_size (cx_stack c)) m"
  shows "\<exists>r' c' m2. sig_rollback r c m' g = Some (r', c', m2, g) \<and> r' \<noteq> E_OK \<and> context_gone m c' m2"
  using destroy_ok[OF assms] by (auto simp: sig_rollback_def)

lemma sigaltstack_create_ok:
  assumes "create_pre env k n m"
  shows "\<exists>r c m' g'. sigaltstack_create env sg (Context_new n) m g = Some (r, c, m', g')
    \<and> (if r = E_OK then context_ready env k n m c m' \<and> region_fresh (stk_p (cx_stack c)) (stk_size (cx_stack c)) m
       else context_gone m c m')"
proof -
  let ?P = "\<lambda>x. \<exists>r c m' g'. x = Some (r, c, m', g')
    \<and> (if r = E_OK then context_ready env k n m c m' \<and> region_fresh (stk_p (cx_stack c)) (stk_size (cx_stack c)) m
       else context_gone m c m')"
  have pg: "page_ok env k" using assms by (simp add: create_pre_def)
  obtain r c m1 where c: "create env (Context_new n) m = Some (r, c, m1)"
    "if r = E_OK then context_ready env k n m c m1 \<and> region_fresh (stk_p (cx_stack c)) (stk_size (cx_stack c)) m else context_gone m c m1"
    using create_ok[OF assms] by blast
  show ?thesis
  proof (cases "r = E_OK")
    case True
    then have ready: "context_ready env k n m c m1" "region_fresh (stk_p (cx_stack c)) (stk_size (cx_stack c)) m" using c(2) by auto
    have rb: "?P (sig_rollback r' c m1 g')" for r' g' using sig_rollback_ok[OF pg ready, of r' g'] by force
    have ok: "?P (Some (E_OK, c, m1, g'))" for g' using ready by simp
    have rs: "?P (sig_restore sg oss c m1 g')" for oss g' unfolding sig_restore_def Let_def using rb ok by simp
    have tr: "?P (sig_trampoline sg oss c m1 g')" for oss g'
      unfolding sig_trampoline_def sig_rollback_altstack_def Let_def using rb rs by simp
    have "?P (if sg_signals sg \<and> sg_res sg GetMask \<noteq> E_OK then sig_rollback (sg_res sg GetMask) c m1 g
        else if sg_res sg SetAlt \<noteq> E_OK then sig_rollback (sg_res sg SetAlt) c m1 g
        else sig_trampoline sg (altstack g) c m1 (g\<lparr>altstack := Some (cx_usable c)\<rparr>))"
      using rb tr by simp
    then show ?thesis using c(1) True ok by (simp add: sigaltstack_create_def)
  next
    case False
    then show ?thesis using c by (simp add: sigaltstack_create_def)
  qed
qed

lemma context_create_ok:
  assumes "create_pre env k n m" "sw \<noteq> Ucontext True"
  shows "\<exists>r co m' g'. context_create env sw al n m g = Some (r, co, m', g')
    \<and> (if r = E_OK then \<exists>c m2. co = Some c \<and> context_ready env k n m c m'
          \<and> context_destroy co m' = Some m2 \<and> mapped m2 = mapped m \<and> noaccess m2 = noaccess m
       else co = None \<and> mapped m' = mapped m \<and> noaccess m' = noaccess m)"
proof (cases al)
  case AllocOk
  have pg: "page_ok env k" using assms(1) by (simp add: create_pre_def)
  have "\<exists>r c m' g'. Context_create env sw (Context_new n) m g = Some (r, c, m', g')
    \<and> (if r = E_OK then context_ready env k n m c m' \<and> region_fresh (stk_p (cx_stack c)) (stk_size (cx_stack c)) m
       else context_gone m c m')"
  proof (cases sw)
    case (Ucontext fails)
    then show ?thesis using create_ok[OF assms(1)] assms(2) by (auto simp: ucontext_create_def)
  next
    case (Sigaltstack sg)
    then show ?thesis using sigaltstack_create_ok[OF assms(1)] by simp
  qed
  then obtain r c m' g' where c: "Context_create env sw (Context_new n) m g = Some (r, c, m', g')"
    "if r = E_OK then context_ready env k n m c m' \<and> region_fresh (stk_p (cx_stack c)) (stk_size (cx_stack c)) m else context_gone m c m'"
    by blast
  show ?thesis
  proof (cases "r = E_OK")
    case True
    then obtain c' m2 where "destroy c m' = Some (c', m2)" "context_gone m c' m2" using destroy_ok[OF pg] c(2) by fastforce
    then have "context_destroy (Some c) m' = Some m2" "mapped m2 = mapped m" "noaccess m2 = noaccess m"
      by (simp_all add: context_destroy_def Context_delete_def context_gone_def)
    then show ?thesis using AllocOk c True by (simp add: context_create_def)
  next
    case False
    then show ?thesis using AllocOk c by (simp add: context_create_def Context_delete_def context_gone_def)
  qed
qed (simp_all add: context_create_def)

text \<open>
  When \<^verbatim>\<open>getcontext()\<close> fails, the stack is not released, and the destructor of the context finds it: an assertion fails (and
  without assertions the memory is lost).
\<close>

lemma getcontext_failure_traps:
  assumes "create env (Context_new n) m = Some (E_OK, c, m')" "stack_bool (cx_stack c)"
  shows "context_create env (Ucontext True) AllocOk n m g = None"
  using assms by (simp add: context_create_def ucontext_create_def Context_delete_def zth_assert_def stack_bool_def)

text \<open>
  C39. A context is created completely, or not at all. For a positive size, pages whose size is a power of two, no overflow of the address space, and an
  allocator that gives new memory: when it is created, its stack is aligned, has at least the size that was asked for and the room for a
  signal, all of it can be accessed, and with \<^verbatim>\<open>mprotect()\<close> and \<^verbatim>\<open>EnableStackGuard\<close> there is a guard below and above it; destroying it
  returns the memory. When it is not, the memory is as before. The exception is a \<^verbatim>\<open>getcontext()\<close> that fails: then the stack, if there was memory
  for it, is not released, and the destructor of the context traps.
\<close>

theorem context_create_all_or_nothing:
  assumes "create_pre env k n m"
  shows "(sw \<noteq> Ucontext True \<longrightarrow> (\<exists>r co m' g'. context_create env sw al n m g = Some (r, co, m', g')
      \<and> (if r = E_OK then \<exists>c m2. co = Some c \<and> context_ready env k n m c m'
            \<and> context_destroy co m' = Some m2 \<and> mapped m2 = mapped m \<and> noaccess m2 = noaccess m
         else co = None \<and> mapped m' = mapped m \<and> noaccess m' = noaccess m)))
    \<and> (sw = Ucontext True \<longrightarrow> (case context_create env (Ucontext False) al n m g of
         Some (r, co, m', g') \<Rightarrow> context_create env sw al n m g = (if r = E_OK then None else Some (r, co, m', g'))
       | None \<Rightarrow> False))"
proof (intro conjI impI)
  show "\<exists>r co m' g'. context_create env sw al n m g = Some (r, co, m', g')
      \<and> (if r = E_OK then \<exists>c m2. co = Some c \<and> context_ready env k n m c m'
            \<and> context_destroy co m' = Some m2 \<and> mapped m2 = mapped m \<and> noaccess m2 = noaccess m
         else co = None \<and> mapped m' = mapped m \<and> noaccess m' = noaccess m)" if "sw \<noteq> Ucontext True"
    using context_create_ok[OF assms that] .
  obtain r c m' where c: "create env (Context_new n) m = Some (r, c, m')" "if r = E_OK then context_ready env k n m c m' else context_gone m c m'"
    using create_ok[OF assms] by (metis (full_types))
  show "case context_create env (Ucontext False) al n m g of
         Some (r, co, m', g') \<Rightarrow> context_create env sw al n m g = (if r = E_OK then None else Some (r, co, m', g'))
       | None \<Rightarrow> False" if sw: "sw = Ucontext True"
  proof (cases "al = AllocOk \<and> r = E_OK")
    case True
    then have "stack_bool (cx_stack c)" using c(2) by (auto simp: context_ready_def stack_layout_def stack_bool_def word_gt_0 unsigned_eq_0_iff)
    then show ?thesis using True sw c(1) getcontext_failure_traps[of env n m c m' g] by (simp add: context_create_def ucontext_create_def)
  next
    case False
    then show ?thesis using sw c by (cases al) (auto simp: context_create_def ucontext_create_def Context_delete_def context_gone_def)
  qed
qed

text \<open>A system with pages of 4 kB that puts the stack at an address that is not aligned.\<close>

definition demo_ctx_env :: ctx_env where
  "demo_ctx_env = \<lparr>mman = True, guard_on = True, mark_on = True, sys_page = 4096, minsigstksz = 2048, grows_down = True,
     sys_alloc = (\<lambda>n. if n < 0x100000 then Inr 0x7f0010 else Inl ENOMEM), sys_protect = (\<lambda>_. E_OK)\<rparr>"

definition demo_machine :: machine where
  "demo_machine = \<lparr>mapped = [], noaccess = [], cells = (\<lambda>_. 0)\<rparr>"

lemma demo_ctx_page: "pageSize demo_ctx_env = 2 ^ 12" "guard_bytes demo_ctx_env = 4096"
  by (simp_all add: pageSize_def guard_bytes_def demo_ctx_env_def)

lemma demo_alloc_ok: "alloc_ok demo_ctx_env demo_machine"
  by (auto simp: alloc_ok_def demo_ctx_env_def demo_machine_def region_fresh_def word_less_nat_alt)

theorem context_create_all_or_nothing_witness:
  "\<exists>r co m' g'. context_create demo_ctx_env (Ucontext False) AllocOk 8192 demo_machine \<lparr>usr1_blocked = True, altstack = None\<rparr> = Some (r, co, m', g')
    \<and> (if r = E_OK then \<exists>c m2. co = Some c \<and> context_ready demo_ctx_env 12 8192 demo_machine c m'
          \<and> context_destroy co m' = Some m2 \<and> mapped m2 = mapped demo_machine \<and> noaccess m2 = noaccess demo_machine
       else co = None \<and> mapped m' = mapped demo_machine \<and> noaccess m' = noaccess demo_machine)"
proof -
  have "create_pre demo_ctx_env 12 8192 demo_machine"
    using demo_ctx_page demo_alloc_ok by (simp add: create_pre_def page_ok_def) (simp add: demo_ctx_env_def)
  from context_create_all_or_nothing[OF this, of "Ucontext False"] show ?thesis by blast
qed

text \<open>
  With \<^verbatim>\<open>SS_AUTODISARM\<close>, when there was no stack for signals before, the stack of the new context stays the stack for
  signals; with an error, it is even released and stays so. And when the signal cannot be sent, it is left unblocked.
\<close>

lemma altstack_left_behind:
  assumes "create env (Context_new n) m = Some (E_OK, c, m')" "stack_bool (cx_usable c)"
    "sg_autodisarm sg" "\<forall>x. sg_res sg x = E_OK" "altstack g = None"
  shows "\<exists>g'. sigaltstack_create env sg (Context_new n) m g = Some (E_OK, c, m', g') \<and> altstack g' = Some (cx_usable c)"
  using assms by (simp add: sigaltstack_create_def sig_trampoline_def sig_restore_def Let_def)

lemma kill_failure_unblocks:
  assumes "create env (Context_new n) m = Some (E_OK, c, m')" "stack_bool (cx_usable c)"
    "\<forall>x. sg_res sg x = (if x = Kill then EAGAIN else E_OK)" "destroy c m' = Some (c', m2)" "altstack g = None"
  shows "\<exists>g'. sigaltstack_create env sg (Context_new n) m g = Some (EAGAIN, c', m2, g')
    \<and> altstack g' = Some (cx_usable c) \<and> \<not> usr1_blocked g'"
  using assms by (simp add: sigaltstack_create_def sig_trampoline_def sig_rollback_altstack_def sig_rollback_def Let_def)

text \<open>A witness for the marks: a region of 64 bytes at an address that is not aligned.\<close>

definition demo_region :: machine where
  "demo_region = \<lparr>mapped = [(4, 64)], noaccess = [], cells = (\<lambda>_. 0)\<rparr>"

theorem watermark_measures_witness:
  "\<exists>f n'. stack_watermark_init demo_ctx_env 4 64 demo_region = Some (demo_region\<lparr>cells := f\<rparr>) \<and> 49 \<le> unat n'
    \<and> watermark_reads demo_ctx_env 4 (demo_region\<lparr>cells := f\<rparr>) n' (unat n' div 8)"
proof -
  have "region_accessible 4 64 demo_region" by (simp add: region_accessible_def accessible_def demo_region_def)
  moreover have "mark_on demo_ctx_env" "grows_down demo_ctx_env" by (simp_all add: demo_ctx_env_def)
  ultimately obtain f q n' where "stack_watermark_init demo_ctx_env 4 64 demo_region = Some (demo_region\<lparr>cells := f\<rparr>)"
      "64 \<le> unat n' + 15" and r: "\<forall>h j. (\<forall>a. unat a < unat (q :: u64) + 8 * j \<longrightarrow> h a = f a) \<longrightarrow> j \<le> unat n' div 8
        \<longrightarrow> (j < unat n' div 8 \<longrightarrow> (\<forall>a. unat a = unat q + 8 * j \<longrightarrow> h a \<noteq> ZTH_STACK_WATERMARKER))
        \<longrightarrow> watermark_reads demo_ctx_env 4 (demo_region\<lparr>cells := h\<rparr>) n' j"
    using watermark_measures[of demo_ctx_env 4 64 demo_region] by auto
  moreover have "watermark_reads demo_ctx_env 4 (demo_region\<lparr>cells := f\<rparr>) n' (unat n' div 8)" using r by simp
  ultimately show ?thesis by (intro exI[of _ f] exI[of _ n']) simp
qed

end
