(* ===== verification/Zth_Coro.thy ===== *)
theory Zth_Coro
  imports Zth_Prelude
begin

section \<open>Coroutines\<close>

text \<open>
  \<^verbatim>\<open>include/libzth/coro.h\<close>: tasks and generators as C++20 coroutines.

  \<^item> A coroutine frame is its promise (\<^verbatim>\<open>promise\<close>, \<^verbatim>\<open>task_promise\<close> or \<^verbatim>\<open>generator_promise\<close>, told apart by \<open>c_gen\<close>), the
    point where it is suspended, and the results of its awaits and yields so far. The user's body is a
    parameter: what the coroutine does next is a function \<open>body c\<close> of the results it got so far. The bodies
    of a C++ program are deterministic in that way as long as they communicate by awaiting only.
  \<^item> A coroutine handle is \<open>H c\<close>, or \<open>Noop\<close> for \<^verbatim>\<open>std::noop_coroutine()\<close>; resuming \<open>Noop\<close> returns to who called \<^verbatim>\<open>h()\<close>.
    Suspending with a handle resumes that one next (symmetric transfer), so that control is one
    \<open>ctl\<close> at a time: \<open>Exec c\<close> runs the body of \<open>c\<close>, \<open>Resume h\<close> resumes a handle, \<open>Blocked c\<close> is the fiber that
    waits in a future or mailbox while \<open>c\<close> is active.
  \<^item> \<open>None\<close> is a failed assertion, or undefined behaviour of the language: the resumption of a
    coroutine that is not suspended, or of one that is done.
  \<^item> A generator has one yield type here, hence one mailbox. Its queue of takers holds coroutines; no fiber
    is blocked in the modelled program but the one that runs it.

  Reference counting of promises is in \<open>Zth_SharedPointer\<close>; the awaitables of the other synchronizers never
  suspend a coroutine and call the operations of those synchronizers directly.
\<close>

subsection \<open>Data\<close>

type_synonym cid = nat

datatype exn = CoroAlreadyCompleted | CoroInvalidState | UserExn nat

datatype 'v cres = Val 'v | Exn exn | Unit

datatype hnd = Noop | H cid

datatype 'v act = AwaitTask cid | AwaitGen cid | Yield 'v | Return 'v | ReturnVoid | Raise exn

datatype point = Initial | AtTask cid | AtGen cid | AtYield | Active | Final

record 'v cframe =
  c_gen :: bool
  c_point :: point
  c_hist :: "'v cres list"
  c_running :: bool
  c_cont :: "hnd option"
  c_future :: "'v cres option"
  c_completed :: bool
  b_value :: "'v option"
  b_assigned :: "cid option"
  b_waiter :: "cid option"
  b_queue :: "cid list"
  b_owned :: bool

type_synonym 'v cstate = "cid \<Rightarrow> 'v cframe"
type_synonym 'v body = "cid \<Rightarrow> 'v cres list \<Rightarrow> 'v act"

datatype ctl = Exec cid | Resume hnd | Blocked cid

text \<open>A promise as its constructor leaves it; the coroutine is suspended at \<^verbatim>\<open>initial_suspend()\<close>.\<close>

definition new_promise :: "bool \<Rightarrow> 'v cframe" where
  "new_promise gen = \<lparr>c_gen = gen, c_point = Initial, c_hist = [], c_running = False, c_cont = None, c_future = None,
     c_completed = False, b_value = None, b_assigned = None, b_waiter = None, b_queue = [], b_owned = True\<rparr>"

subsection \<open>The promise\<close>

definition promise_running :: "'v cframe \<Rightarrow> bool" where
  "promise_running f \<longleftrightarrow> c_running f \<or> c_cont f \<noteq> None"

definition set_running :: "bool \<Rightarrow> 'v cframe \<Rightarrow> 'v cframe option" where
  "set_running b f = do { zth_assert (c_running f \<noteq> b); Some (f\<lparr>c_running := b\<rparr>) }"

definition set_continuation :: "hnd option \<Rightarrow> 'v cframe \<Rightarrow> 'v cframe option" where
  "set_continuation cont f = do {
     zth_assert (c_cont f = None \<or> cont = None \<or> c_cont f = cont);
     Some (f\<lparr>c_cont := cont\<rparr>)
   }"

definition continuation :: "'v cframe \<Rightarrow> hnd \<times> 'v cframe" where
  "continuation f = (case c_cont f of None \<Rightarrow> Noop | Some h \<Rightarrow> h, f\<lparr>c_cont := None\<rparr>)"

text \<open>\<^verbatim>\<open>task_promise_base::completed()\<close> and \<^verbatim>\<open>generator_promise::completed()\<close>.\<close>

definition coro_completed :: "'v cframe \<Rightarrow> bool" where
  "coro_completed f \<longleftrightarrow> (if c_gen f then c_completed f else c_future f \<noteq> None)"

subsection \<open>The mailbox of a generator\<close>

text \<open>\<^verbatim>\<open>valid(assigned)\<close> of \<^verbatim>\<open>zth::Mailbox\<close>.\<close>

definition mb_valid_for :: "cid option \<Rightarrow> 'v cframe \<Rightarrow> bool" where
  "mb_valid_for a f \<longleftrightarrow> b_value f \<noteq> None \<and> (b_assigned f = None \<or> b_assigned f = a)"

text \<open>\<^verbatim>\<open>wakeup()\<close> of a coroutine, with the assignment that the base class makes of its result.\<close>

definition mb_wakeup :: "cid \<Rightarrow> 'v cframe \<Rightarrow> 'v cframe option" where
  "mb_wakeup w f = do {
     zth_assert (b_owned f);
     f \<leftarrow> set_continuation (Some (H w)) (f\<lparr>b_waiter := Some w\<rparr>);
     Some (f\<lparr>b_assigned := Some w\<rparr>)
   }"

text \<open>\<^verbatim>\<open>put()\<close> of a mailbox that is empty: store, then \<^verbatim>\<open>unblockFirst(Queue_Take)\<close>.\<close>

definition mb_put :: "'v \<Rightarrow> 'v cframe \<Rightarrow> 'v cframe option" where
  "mb_put v f = (let f = f\<lparr>b_value := Some v\<rparr> in case b_queue f of
     [] \<Rightarrow> Some f
   | w # q \<Rightarrow> mb_wakeup w (f\<lparr>b_queue := q\<rparr>))"

text \<open>\<^verbatim>\<open>take(waiter)\<close> when the value is there for the waiter; it does not reset \<^verbatim>\<open>m_assigned\<close>.\<close>

definition mb_take :: "cid option \<Rightarrow> 'v cframe \<Rightarrow> ('v \<times> 'v cframe) option" where
  "mb_take w f = do {
     let f = (if b_waiter f = w then f\<lparr>b_waiter := None\<rparr> else f);
     v \<leftarrow> b_value f;
     Some (v, f\<lparr>b_value := None\<rparr>)
   }"

fun mb_unblockAll :: "cid list \<Rightarrow> 'v cframe \<Rightarrow> 'v cframe option" where
  "mb_unblockAll [] f = Some (f\<lparr>b_queue := []\<rparr>)"
| "mb_unblockAll (w # q) f = do { f \<leftarrow> mb_wakeup w f; mb_unblockAll q f }"

definition mb_abandon :: "'v cframe \<Rightarrow> 'v cframe option" where
  "mb_abandon f = do { f \<leftarrow> mb_unblockAll (b_queue f) f; Some (f\<lparr>b_owned := False\<rparr>) }"

subsection \<open>Suspension and resumption\<close>

text \<open>
  \<^verbatim>\<open>final_suspend()\<close> of a task; a generator abandons its mailbox first. The result is the coroutine to resume.
\<close>

definition final_suspend :: "'v cframe \<Rightarrow> (hnd \<times> 'v cframe) option" where
  "final_suspend f = do {
     f \<leftarrow> (if c_gen f then mb_abandon f else Some f);
     f \<leftarrow> set_running False f;
     let (h, f) = continuation f;
     Some (h, f\<lparr>c_point := Final\<rparr>)
   }"

text \<open>The return of a value or of nothing, and \<^verbatim>\<open>unhandled_exception()\<close>.\<close>

definition coro_return :: "'v cres \<Rightarrow> 'v cframe \<Rightarrow> (hnd \<times> 'v cframe) option" where
  "coro_return r f =
     (if c_gen f then final_suspend (f\<lparr>c_completed := True\<rparr>)
      else do {
        zth_assert (c_future f = None);
        final_suspend (f\<lparr>c_future := Some r\<rparr>)
      })"

text \<open>\<^verbatim>\<open>promise_awaitable::await_suspend()\<close>, up to the call of the wrapped awaitable.\<close>

definition suspend_at :: "point \<Rightarrow> 'v cframe \<Rightarrow> 'v cframe option" where
  "suspend_at pt f = do { f \<leftarrow> set_running False f; Some (f\<lparr>c_point := pt\<rparr>) }"

definition got :: "'v cres \<Rightarrow> cid \<Rightarrow> 'v cstate \<Rightarrow> ctl \<times> 'v cstate" where
  "got r c s = (Exec c, s(c := (s c)\<lparr>c_hist := c_hist (s c) @ [r]\<rparr>))"

text \<open>\<^verbatim>\<open>task::await_resume()\<close>: the result of the future, or waiting for it.\<close>

definition task_result :: "cid \<Rightarrow> cid \<Rightarrow> 'v cstate \<Rightarrow> ctl \<times> 'v cstate" where
  "task_result c t s = (case c_future (s t) of Some r \<Rightarrow> got r c s | None \<Rightarrow> (Blocked c, s))"

text \<open>
  \<^verbatim>\<open>await_resume()\<close> of the awaitable of a mailbox; \<open>w\<close> is its member \<^verbatim>\<open>waiter\<close>. The last branch is \<^verbatim>\<open>take()\<close> by the fiber,
  for which a value assigned to a coroutine is not valid.
\<close>

definition gen_result :: "cid \<Rightarrow> cid \<Rightarrow> cid option \<Rightarrow> 'v cstate \<Rightarrow> (ctl \<times> 'v cstate) option" where
  "gen_result c g w s =
     (if mb_valid_for w (s g) then do {
        (v, f) \<leftarrow> mb_take w (s g);
        Some (got (Val v) c (s(g := f)))
      } else if \<not> b_owned (s g) then Some (got (Exn CoroAlreadyCompleted) c s)
      else if mb_valid_for None (s g) then do {
        (v, f) \<leftarrow> mb_take None (s g);
        Some (got (Val v) c (s(g := f)))
      } else Some (Blocked c, s))"

text \<open>\<^verbatim>\<open>co_yield\<close>: \<^verbatim>\<open>yield_value()\<close> with the awaitable that it returns. A full mailbox blocks the fiber.\<close>

definition yield_value :: "'v \<Rightarrow> cid \<Rightarrow> 'v cstate \<Rightarrow> (ctl \<times> 'v cstate) option" where
  "yield_value v c s =
     (if b_value (s c) \<noteq> None then Some (Blocked c, s)
      else do {
        f \<leftarrow> mb_put v (s c);
        if c_cont f = None then Some (got Unit c (s(c := f)))
        else do {
          f \<leftarrow> suspend_at AtYield f;
          let (h, f) = continuation f;
          Some (Resume h, s(c := f))
        }
      })"

text \<open>\<^verbatim>\<open>co_await\<close> of a task, and of the mailbox of a generator: \<^verbatim>\<open>await_ready()\<close> and \<^verbatim>\<open>await_suspend()\<close>.\<close>

definition await_task :: "cid \<Rightarrow> cid \<Rightarrow> 'v cstate \<Rightarrow> (ctl \<times> 'v cstate) option" where
  "await_task t c s =
     (if coro_completed (s t) \<or> promise_running (s t) then Some (task_result c t s)
      else do {
        f \<leftarrow> suspend_at (AtTask t) (s c);
        let s = s(c := f);
        zth_assert (\<not> promise_running (s t));
        ft \<leftarrow> set_continuation (Some (H c)) (s t);
        Some (Resume (H t), s(t := ft))
      })"

definition await_mailbox :: "cid \<Rightarrow> cid \<Rightarrow> 'v cstate \<Rightarrow> (ctl \<times> 'v cstate) option" where
  "await_mailbox g c s =
     (if \<not> b_owned (s g) \<or> mb_valid_for None (s g) \<or> promise_running (s g) then gen_result c g None s
      else do {
        f \<leftarrow> suspend_at (AtGen g) (s c);
        let s = s(c := f);
        let s = s(g := (s g)\<lparr>b_queue := b_queue (s g) @ [c]\<rparr>);
        zth_assert (b_owned (s g));
        Some (Resume (H g), s)
      })"

text \<open>The step of a coroutine whose body runs.\<close>

definition exec :: "'v body \<Rightarrow> cid \<Rightarrow> 'v cstate \<Rightarrow> (ctl \<times> 'v cstate) option" where
  "exec body c s = (case body c (c_hist (s c)) of
     Return v \<Rightarrow> do { (h, f) \<leftarrow> coro_return (Val v) (s c); Some (Resume h, s(c := f)) }
   | ReturnVoid \<Rightarrow> do { (h, f) \<leftarrow> coro_return Unit (s c); Some (Resume h, s(c := f)) }
   | Raise e \<Rightarrow> do { (h, f) \<leftarrow> coro_return (Exn e) (s c); Some (Resume h, s(c := f)) }
   | Yield v \<Rightarrow> yield_value v c s
   | AwaitTask t \<Rightarrow> await_task t c s
   | AwaitGen g \<Rightarrow> await_mailbox g c s)"

lemmas exec_defs = exec_def yield_value_def await_task_def await_mailbox_def

text \<open>
  Resuming a coroutine: the pending \<^verbatim>\<open>await_resume()\<close>, which is preceded by \<^verbatim>\<open>running(true)\<close>.
\<close>

definition coro_resume :: "cid \<Rightarrow> 'v cstate \<Rightarrow> (ctl \<times> 'v cstate) option" where
  "coro_resume c s = (case c_point (s c) of
     Active \<Rightarrow> None
   | Final \<Rightarrow> None
   | pt \<Rightarrow> do {
       f \<leftarrow> set_running True ((s c)\<lparr>c_point := Active\<rparr>);
       let s = s(c := f);
       case pt of
         AtTask t \<Rightarrow> Some (task_result c t s)
       | AtGen g \<Rightarrow> gen_result c g (Some c) s
       | AtYield \<Rightarrow> Some (got Unit c s)
       | _ \<Rightarrow> Some (Exec c, s)
     })"

definition cstep :: "'v body \<Rightarrow> ctl \<times> 'v cstate \<Rightarrow> (ctl \<times> 'v cstate) option" where
  "cstep body x = (case x of
     (Exec c, s) \<Rightarrow> exec body c s
   | (Resume (H c), s) \<Rightarrow> coro_resume c s
   | _ \<Rightarrow> Some x)"

fun cfinal :: "ctl \<Rightarrow> bool" where
  "cfinal (Resume Noop) = True"
| "cfinal (Blocked _) = True"
| "cfinal _ = False"

text \<open>\<^verbatim>\<open>h()\<close>: control comes back when a coroutine suspends to nobody, or stays with a fiber that waits.\<close>

partial_function (option) drive :: "'v body \<Rightarrow> ctl \<times> 'v cstate \<Rightarrow> (ctl \<times> 'v cstate) option" where
  "drive body x = (if cfinal (fst x) then Some x else do { y \<leftarrow> cstep body x; drive body y })"

subsection \<open>Running from ordinary code\<close>

text \<open>The outcome of a call: a value, an exception, or a fiber that waits.\<close>

datatype 'a call = Ret 'a | Throws exn | Waits

text \<open>The loop of \<^verbatim>\<open>promise::run()\<close>.\<close>

partial_function (option) run_loop :: "'v body \<Rightarrow> cid \<Rightarrow> 'v cstate \<Rightarrow> (unit call \<times> 'v cstate) option" where
  "run_loop body c s =
     (if coro_completed (s c) then Some (Ret (), s)
      else do {
        (x, s) \<leftarrow> drive body (Resume (H c), s);
        case x of Blocked _ \<Rightarrow> Some (Waits, s) | _ \<Rightarrow> run_loop body c s
      })"

definition promise_run :: "'v body \<Rightarrow> cid \<Rightarrow> 'v cstate \<Rightarrow> (unit call \<times> 'v cstate) option" where
  "promise_run body c s =
     (if promise_running (s c) then Some (Throws CoroInvalidState, s) else run_loop body c s)"

text \<open>\<^verbatim>\<open>task::run()\<close> and \<^verbatim>\<open>task::result()\<close> of a task that has a promise.\<close>

definition task_run :: "'v body \<Rightarrow> cid \<Rightarrow> 'v cstate \<Rightarrow> ('v cres call \<times> 'v cstate) option" where
  "task_run body t s = do {
     (r, s) \<leftarrow> promise_run body t s;
     case r of
       Ret _ \<Rightarrow> (case c_future (s t) of
           Some (Exn e) \<Rightarrow> Some (Throws e, s)
         | Some v \<Rightarrow> Some (Ret v, s)
         | None \<Rightarrow> Some (Waits, s))
     | Throws e \<Rightarrow> Some (Throws e, s)
     | Waits \<Rightarrow> Some (Waits, s)
   }"

text \<open>\<^verbatim>\<open>generator_promise::generate()\<close>: the loop, then the checks in front of it.\<close>

partial_function (option) generate_loop :: "'v body \<Rightarrow> cid \<Rightarrow> 'v cstate \<Rightarrow> (unit call \<times> 'v cstate) option" where
  "generate_loop body g s =
     (if b_value (s g) \<noteq> None \<or> c_completed (s g) then Some (Ret (), s)
      else do {
        f \<leftarrow> set_continuation (Some Noop) (s g);
        (x, s) \<leftarrow> drive body (Resume (H g), s(g := f));
        case x of Blocked _ \<Rightarrow> Some (Waits, s) | _ \<Rightarrow> generate_loop body g s
      })"

definition generate :: "'v body \<Rightarrow> cid \<Rightarrow> 'v cstate \<Rightarrow> (unit call \<times> 'v cstate) option" where
  "generate body g s =
     (if c_completed (s g) then Some (Throws CoroAlreadyCompleted, s)
      else if b_value (s g) \<noteq> None then Some (Ret (), s)
      else if promise_running (s g) then Some (Ret (), s)
      else do {
        zth_assert (c_point (s g) \<noteq> Final);
        generate_loop body g s
      })"

text \<open>
  \<^verbatim>\<open>generator_promise::value()\<close>: \<^verbatim>\<open>take()\<close> on behalf of the current fiber, which waits while the value is not
  there or is assigned to a coroutine.
\<close>

definition gen_value :: "cid \<Rightarrow> 'v cstate \<Rightarrow> ('v call \<times> 'v cstate) option" where
  "gen_value g s =
     (if c_completed (s g) then Some (Throws CoroAlreadyCompleted, s)
      else if mb_valid_for None (s g) then do {
        (v, f) \<leftarrow> mb_take None (s g);
        Some (Ret v, s(g := f))
      } else if \<not> b_owned (s g) then Some (Throws CoroAlreadyCompleted, s)
      else Some (Waits, s))"

text \<open>\<^verbatim>\<open>begin()\<close> and the operators of the iterator.\<close>

definition gen_begin :: "'v body \<Rightarrow> cid \<Rightarrow> 'v cstate \<Rightarrow> (unit call \<times> 'v cstate) option" where
  "gen_begin body g s =
     (if \<not> c_completed (s g) \<and> \<not> (b_value (s g) \<noteq> None \<and> \<not> c_completed (s g)) then generate body g s
      else Some (Ret (), s))"

definition iter_deref :: "cid \<Rightarrow> 'v cstate \<Rightarrow> ('v call \<times> 'v cstate) option" where
  "iter_deref g s = do {
     zth_assert (b_value (s g) \<noteq> None \<and> \<not> c_completed (s g));
     gen_value g s
   }"

text \<open>\<^verbatim>\<open>for(auto x : g)\<close>, collecting what it sees.\<close>

partial_function (option) range_loop :: "'v body \<Rightarrow> cid \<Rightarrow> 'v list \<Rightarrow> 'v cstate \<Rightarrow> ('v list call \<times> 'v cstate) option" where
  "range_loop body g acc s =
     (if c_completed (s g) then Some (Ret acc, s)
      else do {
        (r, s) \<leftarrow> iter_deref g s;
        case r of
          Ret v \<Rightarrow> do {
            (r, s) \<leftarrow> generate body g s;
            case r of
              Ret _ \<Rightarrow> range_loop body g (acc @ [v]) s
            | Throws e \<Rightarrow> Some (Throws e, s)
            | Waits \<Rightarrow> Some (Waits, s)
          }
        | Throws e \<Rightarrow> Some (Throws e, s)
        | Waits \<Rightarrow> Some (Waits, s)
      })"

definition range_for :: "'v body \<Rightarrow> cid \<Rightarrow> 'v cstate \<Rightarrow> ('v list call \<times> 'v cstate) option" where
  "range_for body g s = do {
     (r, s) \<leftarrow> gen_begin body g s;
     case r of
       Ret _ \<Rightarrow> range_loop body g [] s
     | Throws e \<Rightarrow> Some (Throws e, s)
     | Waits \<Rightarrow> Some (Waits, s)
   }"

subsection \<open>Handles\<close>

text \<open>
  The classes \<^verbatim>\<open>task\<close> and \<^verbatim>\<open>generator\<close> are shared pointers to a promise, possibly null. A null handle counts as
  completed, and everything that needs the promise throws.
\<close>

definition task_h_completed :: "cid option \<Rightarrow> 'v cstate \<Rightarrow> bool" where
  "task_h_completed p s = (case p of None \<Rightarrow> True | Some t \<Rightarrow> coro_completed (s t))"

definition task_h_result :: "cid option \<Rightarrow> 'v cstate \<Rightarrow> 'v cres call" where
  "task_h_result p s = (case p of
     None \<Rightarrow> Throws CoroAlreadyCompleted
   | Some t \<Rightarrow> (case c_future (s t) of Some (Exn e) \<Rightarrow> Throws e | Some v \<Rightarrow> Ret v | None \<Rightarrow> Waits))"

definition task_h_run :: "'v body \<Rightarrow> cid option \<Rightarrow> 'v cstate \<Rightarrow> ('v cres call \<times> 'v cstate) option" where
  "task_h_run body p s = (case p of None \<Rightarrow> Some (Throws CoroAlreadyCompleted, s) | Some t \<Rightarrow> task_run body t s)"

definition gen_h_completed :: "cid option \<Rightarrow> 'v cstate \<Rightarrow> bool" where
  "gen_h_completed p s = (case p of None \<Rightarrow> True | Some g \<Rightarrow> c_completed (s g))"

definition gen_h_valid :: "cid option \<Rightarrow> 'v cstate \<Rightarrow> bool" where
  "gen_h_valid p s = (case p of None \<Rightarrow> False | Some g \<Rightarrow> b_value (s g) \<noteq> None)"

definition gen_h_value :: "cid option \<Rightarrow> 'v cstate \<Rightarrow> ('v call \<times> 'v cstate) option" where
  "gen_h_value p s = (case p of None \<Rightarrow> Some (Throws CoroAlreadyCompleted, s) | Some g \<Rightarrow> gen_value g s)"

definition gen_h_generate :: "'v body \<Rightarrow> cid option \<Rightarrow> 'v cstate \<Rightarrow> (unit call \<times> 'v cstate) option" where
  "gen_h_generate body p s = (case p of None \<Rightarrow> Some (Throws CoroAlreadyCompleted, s) | Some g \<Rightarrow> generate body g s)"

text \<open>
  \<^verbatim>\<open>generator::run()\<close> looks for an exception in the mailbox afterwards; no operation ever stores one there, as
  \<^verbatim>\<open>unhandled_exception()\<close> only marks the generator completed, so there is none to rethrow.
\<close>

definition gen_h_run :: "'v body \<Rightarrow> cid option \<Rightarrow> 'v cstate \<Rightarrow> (unit call \<times> 'v cstate) option" where
  "gen_h_run body p s = (case p of None \<Rightarrow> Some (Throws CoroAlreadyCompleted, s) | Some g \<Rightarrow> promise_run body g s)"

text \<open>The destructor of a promise asserts that the coroutine is not running.\<close>

definition promise_dtor :: "'v cframe \<Rightarrow> unit option" where
  "promise_dtor f = zth_assert (\<not> promise_running f)"

subsection \<open>Steps\<close>

definition crun :: "'v body \<Rightarrow> ctl \<times> 'v cstate \<Rightarrow> ctl \<times> 'v cstate \<Rightarrow> bool" where
  "crun body x y \<longleftrightarrow> (\<lambda>x y. \<not> cfinal (fst x) \<and> cstep body x = Some y)\<^sup>*\<^sup>* x y"

lemma crun_refl [simp]: "crun body x x"
  by (simp add: crun_def)

lemma crun_trans: "crun body x y \<Longrightarrow> crun body y z \<Longrightarrow> crun body x z"
  by (auto simp: crun_def)

lemma crun_step: "cstep body x = Some y \<Longrightarrow> \<not> cfinal (fst x) \<Longrightarrow> crun body y z \<Longrightarrow> crun body x z"
  unfolding crun_def by (rule converse_rtranclp_into_rtranclp) auto

lemma crun_exec: "exec body c s = Some y \<Longrightarrow> crun body y z \<Longrightarrow> crun body (Exec c, s) z"
  by (rule crun_step) (simp_all add: cstep_def)

lemma crun_resume: "coro_resume c s = Some y \<Longrightarrow> crun body y z \<Longrightarrow> crun body (Resume (H c), s) z"
  by (rule crun_step) (simp_all add: cstep_def)

lemma drive_crun:
  assumes "crun body x y" "cfinal (fst y)"
  shows "drive body x = Some y"
  using assms(1) unfolding crun_def
proof (induction rule: converse_rtranclp_induct)
  case base
  then show ?case using assms(2) by (subst drive.simps) simp
next
  case (step x z)
  then show ?case by (subst drive.simps) simp
qed

lemma coro_resume_initial:
  assumes "c_point (s c) = Initial" "\<not> c_running (s c)"
  shows "coro_resume c s = Some (Exec c, s(c := (s c)\<lparr>c_point := Active, c_running := True\<rparr>))"
  using assms by (simp add: coro_resume_def set_running_def)

subsection \<open>Tasks are function calls\<close>

text \<open>
  The reference semantics of tasks, without any suspension: awaiting a task that has completed gives its
  result, awaiting a fresh one evaluates it first. \<open>M\<close> has the results of the completed tasks, \<open>P\<close> the tasks that
  are waiting for this one.
\<close>

inductive evals :: "'v body \<Rightarrow> (cid \<Rightarrow> 'v cres option) \<Rightarrow> cid set \<Rightarrow> cid \<Rightarrow> 'v cres list \<Rightarrow> 'v cres
    \<Rightarrow> (cid \<Rightarrow> 'v cres option) \<Rightarrow> bool" for body :: "'v body" where
  e_ret: "body c h = Return v \<Longrightarrow> evals body M P c h (Val v) M"
| e_void: "body c h = ReturnVoid \<Longrightarrow> evals body M P c h Unit M"
| e_raise: "body c h = Raise e \<Longrightarrow> evals body M P c h (Exn e) M"
| e_done: "body c h = AwaitTask t \<Longrightarrow> M t = Some r \<Longrightarrow> evals body M P c (h @ [r]) r' M' \<Longrightarrow> evals body M P c h r' M'"
| e_call: "body c h = AwaitTask t \<Longrightarrow> M t = None \<Longrightarrow> t \<notin> insert c P \<Longrightarrow> evals body M (insert c P) t [] r M1 \<Longrightarrow>
    evals body (M1(t \<mapsto> r)) P c (h @ [r]) r' M' \<Longrightarrow> evals body M P c h r' M'"

lemma evals_keeps_pending: "evals body M P c h r M' \<Longrightarrow> x \<in> insert c P \<Longrightarrow> M x = None \<Longrightarrow> M' x = None"
proof (induction rule: evals.induct)
  case (e_call c h t M P r M1 r' M')
  then have "x \<noteq> t" by auto
  then show ?case using e_call by auto
qed auto

definition fresh_task :: "'v cframe \<Rightarrow> bool" where
  "fresh_task f \<longleftrightarrow> c_point f = Initial \<and> c_hist f = [] \<and> \<not> c_running f \<and> c_cont f = None \<and> c_future f = None"

definition ended_task :: "'v cframe \<Rightarrow> bool" where
  "ended_task f \<longleftrightarrow> c_point f = Final \<and> \<not> promise_running f"

text \<open>How the frames represent the results.\<close>

definition task_rep :: "(cid \<Rightarrow> 'v cres option) \<Rightarrow> cid set \<Rightarrow> 'v cstate \<Rightarrow> bool" where
  "task_rep M P s \<longleftrightarrow> (\<forall>t. \<not> c_gen (s t) \<and> c_future (s t) = M t \<and> (M t = None \<longrightarrow> t \<notin> P \<longrightarrow> fresh_task (s t))
     \<and> (M t \<noteq> None \<longrightarrow> ended_task (s t)))"

text \<open>A task whose body runs.\<close>

definition active_task :: "'v cres list \<Rightarrow> hnd option \<Rightarrow> 'v cframe \<Rightarrow> bool" where
  "active_task h k f \<longleftrightarrow> c_point f = Active \<and> c_hist f = h \<and> c_running f \<and> c_cont f = k \<and> c_future f = None \<and> \<not> c_gen f"

abbreviation next_of :: "hnd option \<Rightarrow> hnd" where
  "next_of k \<equiv> (case k of None \<Rightarrow> Noop | Some h \<Rightarrow> h)"

lemma coro_return_task:
  assumes "active_task h k f"
  shows "\<exists>f'. coro_return r f = Some (next_of k, f') \<and> c_future f' = Some r \<and> \<not> c_gen f' \<and> ended_task f'"
  using assms by (simp add: ended_task_def promise_running_def coro_return_def active_task_def final_suspend_def set_running_def continuation_def Let_def)

lemma task_rep_return:
  assumes "task_rep M (insert c P) s" "c_future f' = Some r" "\<not> c_gen f'" "ended_task f'"
  shows "task_rep (M(c \<mapsto> r)) P (s(c := f'))"
  using assms by (auto simp: task_rep_def)

lemma exec_return:
  assumes "task_rep M (insert c P) s" "active_task h k (s c)" "c \<notin> P"
    "(body c h = Return v \<and> r = Val v) \<or> (body c h = ReturnVoid \<and> r = Unit) \<or> (body c h = Raise e \<and> r = Exn e)"
  shows "\<exists>s'. crun body (Exec c, s) (Resume (next_of k), s') \<and> task_rep (M(c \<mapsto> r)) P s' \<and> (\<forall>p \<in> P. s' p = s p)"
proof -
  obtain f' where f': "coro_return r (s c) = Some (next_of k, f')" "c_future f' = Some r" "\<not> c_gen f'" "ended_task f'"
    using coro_return_task[OF assms(2)] by blast
  have "exec body c s = Some (Resume (next_of k), s(c := f'))"
    using assms(2,4) f'(1) by (auto simp: exec_defs active_task_def)
  then have "crun body (Exec c, s) (Resume (next_of k), s(c := f'))" by (rule crun_exec) simp
  then show ?thesis using task_rep_return[OF assms(1) f'(2-4)] assms(3) by (intro exI[of _ "s(c := f')"]) auto
qed

text \<open>Awaiting a fresh task suspends the awaiter and starts the task, with the awaiter as its continuation.\<close>

lemma exec_await_fresh:
  assumes "active_task h k (s c)" "body c h = AwaitTask t" "fresh_task (s t)" "\<not> c_gen (s t)" "t \<noteq> c"
  defines "s2 \<equiv> s(c := (s c)\<lparr>c_running := False, c_point := AtTask t\<rparr>,
    t := (s t)\<lparr>c_cont := Some (H c), c_point := Active, c_running := True\<rparr>)"
  shows "crun body (Exec c, s) (Exec t, s2)"
proof -
  let ?s1 = "s(c := (s c)\<lparr>c_running := False, c_point := AtTask t\<rparr>, t := (s t)\<lparr>c_cont := Some (H c)\<rparr>)"
  have t: "c_point (s t) = Initial" "\<not> c_running (s t)" "c_cont (s t) = None" "c_future (s t) = None"
    using assms(3) by (simp_all add: fresh_task_def)
  have "exec body c s = Some (Resume (H t), ?s1)"
    using assms(1,2,4,5) t
    by (simp add: exec_defs active_task_def coro_completed_def promise_running_def suspend_at_def set_running_def
        set_continuation_def Let_def)
  moreover have "coro_resume t ?s1 = Some (Exec t, s2)"
    using t assms(5) by (simp add: coro_resume_initial s2_def)
  ultimately show ?thesis by (rule crun_exec[OF _ crun_resume[OF _ crun_refl]])
qed

text \<open>A suspended awaiter is resumed with the result of the task.\<close>

lemma resume_awaiter:
  assumes "c_point (s c) = AtTask t" "\<not> c_running (s c)" "c_future (s t) = Some r" "t \<noteq> c"
  shows "coro_resume c s
    = Some (Exec c, s(c := (s c)\<lparr>c_point := Active, c_running := True, c_hist := c_hist (s c) @ [r]\<rparr>))"
  using assms by (simp add: coro_resume_def set_running_def task_result_def got_def Let_def)

lemma evals_crun:
  "evals body M P c h r M' \<Longrightarrow> task_rep M (insert c P) s \<Longrightarrow> active_task h k (s c) \<Longrightarrow> c \<notin> P \<Longrightarrow>
   \<forall>p \<in> insert c P. M p = None \<Longrightarrow>
   \<exists>s'. crun body (Exec c, s) (Resume (next_of k), s') \<and> task_rep (M'(c \<mapsto> r)) P s' \<and> (\<forall>p \<in> P. s' p = s p)"
proof (induction arbitrary: s k rule: evals.induct)
  case (e_done c h t M r P r' M')
  let ?s = "s(c := (s c)\<lparr>c_hist := h @ [r]\<rparr>)"
  have tc: "t \<noteq> c" using e_done.hyps(2) e_done.prems(4) by auto
  have fut: "c_future (s t) = Some r" "\<not> c_gen (s t)" using e_done.prems(1) e_done.hyps(2) by (simp_all add: task_rep_def)
  have ex: "exec body c s = Some (Exec c, ?s)"
    using e_done.hyps(1) e_done.prems(2) fut
    by (simp add: exec_defs active_task_def coro_completed_def task_result_def got_def)
  have "task_rep M (insert c P) ?s" using e_done.prems(1,4) by (auto simp: task_rep_def fresh_task_def)
  moreover have "active_task (h @ [r]) k (?s c)" using e_done.prems(2) by (simp add: active_task_def)
  ultimately obtain s' where "crun body (Exec c, ?s) (Resume (next_of k), s')" "task_rep (M'(c \<mapsto> r')) P s'"
      "\<forall>p \<in> P. s' p = ?s p"
    using e_done.IH e_done.prems(3,4) by blast
  moreover from this(3) have "\<forall>p \<in> P. s' p = s p" using e_done.prems(3) by auto
  ultimately show ?case using crun_exec[OF ex] by blast
next
  case (e_call c h t M P r M1 r' M')
  define s2 where "s2 = s(c := (s c)\<lparr>c_running := False, c_point := AtTask t\<rparr>,
    t := (s t)\<lparr>c_cont := Some (H c), c_point := Active, c_running := True\<rparr>)"
  have t: "fresh_task (s t)" "\<not> c_gen (s t)" "t \<noteq> c"
    using e_call.prems(1) e_call.hyps(2,3) by (auto simp: task_rep_def)
  have 1: "crun body (Exec c, s) (Exec t, s2)"
    using exec_await_fresh[where s = s and c = c and body = body and h = h and k = k and t = t]
      e_call.prems(2) e_call.hyps(1) t by (simp add: s2_def)
  have r2: "task_rep M (insert t (insert c P)) s2"
    using e_call.prems(1,4) e_call.hyps(2) by (auto simp: s2_def task_rep_def fresh_task_def)
  have a2: "active_task [] (Some (H c)) (s2 t)" using t by (simp add: s2_def active_task_def fresh_task_def)
  have "\<forall>p \<in> insert t (insert c P). M p = None" using e_call.hyps(2) e_call.prems(4) by auto
  from e_call.IH(1)[OF r2 a2 e_call.hyps(3) this, unfolded option.case] obtain s3 where
      3: "crun body (Exec t, s2) (Resume (H c), s3)" "task_rep (M1(t \<mapsto> r)) (insert c P) s3"
      "\<forall>p \<in> insert c P. s3 p = s2 p"
    by blast
  have c3: "s3 c = (s c)\<lparr>c_running := False, c_point := AtTask t\<rparr>" using 3(3) t(3) by (simp add: s2_def)
  define s4 where "s4 = s3(c := (s3 c)\<lparr>c_point := Active, c_running := True, c_hist := h @ [r]\<rparr>)"
  have "c_future (s3 t) = Some r" using 3(2) by (simp add: task_rep_def)
  then have 4: "coro_resume c s3 = Some (Exec c, s4)"
    using resume_awaiter[of s3 c t r] c3 t(3) e_call.prems(2) by (simp add: s4_def active_task_def)
  have a4: "active_task (h @ [r]) k (s4 c)" using c3 e_call.prems(2) by (simp add: s4_def active_task_def)
  have pend: "\<forall>p \<in> insert c P. (M1(t \<mapsto> r)) p = None"
    using evals_keeps_pending[OF e_call.hyps(4)] e_call.prems(4) e_call.hyps(3) by auto
  have r4: "task_rep (M1(t \<mapsto> r)) (insert c P) s4"
    using 3(2) pend by (auto simp: s4_def task_rep_def fresh_task_def)
  from e_call.IH(2)[OF r4 a4 e_call.prems(3) pend] obtain s' where
      5: "crun body (Exec c, s4) (Resume (next_of k), s')" "task_rep (M'(c \<mapsto> r')) P s'" "\<forall>p \<in> P. s' p = s4 p"
    by blast
  have "crun body (Exec c, s) (Resume (next_of k), s')"
    using crun_trans[OF 1 crun_trans[OF 3(1) crun_resume[OF 4 5(1)]]] .
  moreover have "\<forall>p \<in> P. s' p = s p" using 5(3) 3(3) e_call.prems(3) e_call.hyps(3) by (auto simp: s2_def s4_def)
  ultimately show ?case using 5(2) by blast
qed (use exec_return in fastforce)+

text \<open>Evaluation ends when tasks await smaller ones only and none of them awaits more than \<open>n\<close> times.\<close>

definition layered :: "'v body \<Rightarrow> nat \<Rightarrow> bool" where
  "layered body n \<longleftrightarrow> (\<forall>c h. case body c h of
     AwaitTask t \<Rightarrow> t < c \<and> length h < n
   | AwaitGen _ \<Rightarrow> False
   | Yield _ \<Rightarrow> False
   | _ \<Rightarrow> True)"

lemma layered_cases:
  assumes "layered body n"
  obtains v where "body c h = Return v" | "body c h = ReturnVoid" | e where "body c h = Raise e"
  | t where "body c h = AwaitTask t" "t < c" "length h < n"
proof -
  have "case body c h of AwaitTask t \<Rightarrow> t < c \<and> length h < n | AwaitGen _ \<Rightarrow> False | Yield _ \<Rightarrow> False | _ \<Rightarrow> True"
    using assms by (simp add: layered_def)
  then show ?thesis using that by (auto split: act.splits)
qed

lemma evals_exists:
  assumes "layered body n" "\<forall>p \<in> P. c \<le> p"
  shows "\<exists>r M'. evals body M P c h r M'"
  using assms(2)
proof (induction c arbitrary: P M h rule: less_induct)
  case (less c)
  show ?case
  proof (induction "n - length h" arbitrary: h M rule: less_induct)
    case inner: less
    show ?case
    proof (cases rule: layered_cases[OF assms(1), of c h])
      case (4 t)
      have IH: "\<exists>r' M'. evals body M2 P c (h @ [r]) r' M'" for r M2
        using inner 4(3) by (simp add: diff_less_mono2)
      show ?thesis
      proof (cases "M t")
        case None
        have "\<forall>p \<in> insert c P. t \<le> p" using 4(2) less.prems by fastforce
        then obtain r M1 where "evals body M (insert c P) t [] r M1" using less.IH[OF 4(2)] by blast
        moreover have "t \<notin> insert c P" using 4(2) less.prems by auto
        ultimately show ?thesis using e_call[where c = c and h = h and t = t and M = M and P = P] 4(1) None IH by metis
      next
        case (Some r)
        then show ?thesis using e_done[where c = c and h = h and t = t and M = M and P = P] 4(1) IH by metis
      qed
    qed (blast intro: evals.intros(1-3))+
  qed
qed

definition task_answer :: "'v cres \<Rightarrow> 'v cres call" where
  "task_answer r = (case r of Exn e \<Rightarrow> Throws e | _ \<Rightarrow> Ret r)"

lemma task_run_evals:
  assumes "evals body M {} t [] r M'" "task_rep M {} s" "M t = None"
  shows "\<exists>s'. task_run body t s = Some (task_answer r, s') \<and> task_rep (M'(t \<mapsto> r)) {} s'"
proof -
  have f: "fresh_task (s t)" "\<not> c_gen (s t)" using assms(2,3) by (auto simp: task_rep_def)
  let ?s = "s(t := (s t)\<lparr>c_point := Active, c_running := True\<rparr>)"
  have res: "coro_resume t s = Some (Exec t, ?s)" using f(1) by (simp add: coro_resume_initial fresh_task_def)
  have "task_rep M (insert t {}) ?s" using assms(2,3) by (auto simp: task_rep_def)
  moreover have "active_task [] None (?s t)" using f by (simp add: active_task_def fresh_task_def)
  ultimately obtain s' where s': "crun body (Exec t, ?s) (Resume Noop, s')" "task_rep (M'(t \<mapsto> r)) {} s'"
    using evals_crun[OF assms(1), of ?s None] assms(3) by auto
  have fut: "c_future (s' t) = Some r" "\<not> c_gen (s' t)" using s'(2) by (simp_all add: task_rep_def)
  have "drive body (Resume (H t), s) = Some (Resume Noop, s')"
    by (rule drive_crun[OF crun_resume[OF res s'(1)]]) simp
  moreover have "run_loop body t s' = Some (Ret (), s')" using fut by (subst run_loop.simps) (simp add: coro_completed_def)
  ultimately have "run_loop body t s = Some (Ret (), s')"
    using f by (subst run_loop.simps) (simp add: coro_completed_def fresh_task_def)
  then have "promise_run body t s = Some (Ret (), s')"
    using f(1) by (simp add: promise_run_def promise_running_def fresh_task_def)
  then show ?thesis using fut s'(2) by (cases r) (simp_all add: task_run_def task_answer_def)
qed

subsection \<open>Generators\<close>

text \<open>A generator that yields the values \<open>vs\<close> and then ends (by \<^verbatim>\<open>co_return\<close> or by an exception).\<close>

definition yields_all :: "'v body \<Rightarrow> cid \<Rightarrow> 'v list \<Rightarrow> bool" where
  "yields_all body g vs \<longleftrightarrow> (\<forall>i < length vs. body g (replicate i Unit) = Yield (vs ! i))
     \<and> (case body g (replicate (length vs) Unit) of ReturnVoid \<Rightarrow> True | Raise _ \<Rightarrow> True | _ \<Rightarrow> False)"

text \<open>A generator that is suspended with \<open>i\<close> values produced and an empty mailbox that no coroutine uses.\<close>

definition gen_at :: "nat \<Rightarrow> 'v option \<Rightarrow> 'v cframe \<Rightarrow> bool" where
  "gen_at i v f \<longleftrightarrow> c_gen f \<and> \<not> c_running f \<and> c_cont f = None \<and> \<not> c_completed f \<and> b_owned f \<and> b_queue f = []
     \<and> b_value f = v \<and> b_assigned f = None
     \<and> (i = 0 \<and> c_point f = Initial \<and> c_hist f = [] \<and> v = None
        \<or> (\<exists>k. i = Suc k \<and> c_point f = AtYield \<and> c_hist f = replicate k Unit))"

text \<open>Resuming it for a caller: the body is about to produce value \<open>i\<close>.\<close>

definition gen_active :: "nat \<Rightarrow> 'v cframe \<Rightarrow> bool" where
  "gen_active i f \<longleftrightarrow> c_gen f \<and> c_running f \<and> c_cont f = Some Noop \<and> \<not> c_completed f \<and> b_owned f \<and> b_queue f = []
     \<and> b_value f = None \<and> b_assigned f = None \<and> c_point f = Active \<and> c_hist f = replicate i Unit"

lemma replicate_snoc: "replicate k x @ [x] = replicate (Suc k) x"
  by (simp add: replicate_append_same)

lemma gen_resume:
  assumes "gen_at i None (s g)"
  shows "\<exists>s'. coro_resume g (s(g := (s g)\<lparr>c_cont := Some Noop\<rparr>)) = Some (Exec g, s') \<and> gen_active i (s' g)
    \<and> (\<forall>x. x \<noteq> g \<longrightarrow> s' x = s x)"
  using assms
  by (auto simp: gen_at_def gen_active_def coro_resume_def set_running_def got_def Let_def replicate_snoc)

lemma gen_exec_yield:
  assumes "gen_active i (s g)" "body g (replicate i Unit) = Yield v"
  shows "\<exists>s'. exec body g s = Some (Resume Noop, s') \<and> gen_at (Suc i) (Some v) (s' g) \<and> (\<forall>x. x \<noteq> g \<longrightarrow> s' x = s x)"
  using assms
  by (simp add: gen_active_def gen_at_def exec_defs mb_put_def suspend_at_def set_running_def continuation_def Let_def)

lemma gen_exec_end:
  assumes "gen_active i (s g)" "case body g (replicate i Unit) of ReturnVoid \<Rightarrow> True | Raise _ \<Rightarrow> True | _ \<Rightarrow> False"
  shows "\<exists>s'. exec body g s = Some (Resume Noop, s') \<and> c_completed (s' g) \<and> c_point (s' g) = Final
    \<and> \<not> promise_running (s' g) \<and> (\<forall>x. x \<noteq> g \<longrightarrow> s' x = s x)"
  using assms
  by (auto simp: gen_active_def exec_defs coro_return_def final_suspend_def mb_abandon_def set_running_def
      continuation_def promise_running_def Let_def split: act.splits)

text \<open>One round of \<^verbatim>\<open>generate()\<close>.\<close>

lemma generate_next:
  assumes "gen_at i None (s g)" "yields_all body g vs" "i \<le> length vs"
  shows "\<exists>s'. generate body g s = Some (Ret (), s') \<and> (\<forall>x. x \<noteq> g \<longrightarrow> s' x = s x)
    \<and> (if i < length vs then gen_at (Suc i) (Some (vs ! i)) (s' g)
       else c_completed (s' g) \<and> c_point (s' g) = Final \<and> \<not> promise_running (s' g))"
proof -
  let ?f = "(s g)\<lparr>c_cont := Some Noop\<rparr>"
  obtain s1 where 1: "coro_resume g (s(g := ?f)) = Some (Exec g, s1)" "gen_active i (s1 g)" "\<forall>x. x \<noteq> g \<longrightarrow> s1 x = s x"
    using gen_resume[where s = s and g = g and i = i] assms(1) by blast
  have "\<exists>s2. exec body g s1 = Some (Resume Noop, s2) \<and> (\<forall>x. x \<noteq> g \<longrightarrow> s2 x = s1 x)
      \<and> (if i < length vs then gen_at (Suc i) (Some (vs ! i)) (s2 g)
         else c_completed (s2 g) \<and> c_point (s2 g) = Final \<and> \<not> promise_running (s2 g))"
  proof (cases "i < length vs")
    case True
    then show ?thesis using gen_exec_yield[where s = s1 and g = g and i = i, OF 1(2), of body "vs ! i"] assms(2) by (auto simp: yields_all_def)
  next
    case False
    then have "i = length vs" using assms(3) by simp
    then show ?thesis using gen_exec_end[where s = s1 and g = g and i = i, OF 1(2), of body] assms(2) by (auto simp: yields_all_def)
  qed
  then obtain s2 where 2: "exec body g s1 = Some (Resume Noop, s2)" "\<forall>x. x \<noteq> g \<longrightarrow> s2 x = s1 x"
      "if i < length vs then gen_at (Suc i) (Some (vs ! i)) (s2 g)
       else c_completed (s2 g) \<and> c_point (s2 g) = Final \<and> \<not> promise_running (s2 g)" by blast
  have d: "drive body (Resume (H g), s(g := ?f)) = Some (Resume Noop, s2)"
    by (rule drive_crun[OF crun_resume[OF 1(1) crun_exec[OF 2(1) crun_refl]]]) simp
  have "b_value (s2 g) \<noteq> None \<or> c_completed (s2 g)" using 2(3) by (auto simp: gen_at_def split: if_splits)
  then have "generate_loop body g s2 = Some (Ret (), s2)" by (subst generate_loop.simps) simp
  then have "generate_loop body g s = Some (Ret (), s2)"
    using d assms(1) by (subst generate_loop.simps) (simp add: gen_at_def set_continuation_def)
  then have "generate body g s = Some (Ret (), s2)"
    using assms(1) by (auto simp: generate_def gen_at_def promise_running_def)
  then show ?thesis using 1(3) 2(2,3) by (intro exI[of _ s2]) auto
qed

lemma iter_deref_ok:
  assumes "gen_at i (Some v) (s g)"
  shows "\<exists>s'. iter_deref g s = Some (Ret v, s') \<and> gen_at i None (s' g) \<and> (\<forall>x. x \<noteq> g \<longrightarrow> s' x = s x)"
  using assms by (auto simp: iter_deref_def gen_value_def gen_at_def mb_valid_for_def mb_take_def Let_def)

lemma range_loop_ok:
  "yields_all body g vs \<Longrightarrow> i < length vs \<Longrightarrow> gen_at (Suc i) (Some (vs ! i)) (s g) \<Longrightarrow>
   \<exists>s'. range_loop body g (take i vs) s = Some (Ret vs, s') \<and> c_completed (s' g) \<and> (\<forall>x. x \<noteq> g \<longrightarrow> s' x = s x)"
proof (induction "length vs - i" arbitrary: i s)
  case (Suc n)
  obtain s1 where 1: "iter_deref g s = Some (Ret (vs ! i), s1)" "gen_at (Suc i) None (s1 g)" "\<forall>x. x \<noteq> g \<longrightarrow> s1 x = s x"
    using iter_deref_ok[where s = s and g = g] Suc.prems(3) by blast
  obtain s2 where 2: "generate body g s1 = Some (Ret (), s2)" "\<forall>x. x \<noteq> g \<longrightarrow> s2 x = s1 x"
      "if Suc i < length vs then gen_at (Suc (Suc i)) (Some (vs ! Suc i)) (s2 g)
       else c_completed (s2 g) \<and> c_point (s2 g) = Final \<and> \<not> promise_running (s2 g)"
    using generate_next[where s = s1 and g = g and i = "Suc i", OF 1(2) Suc.prems(1)] Suc.prems(2) by (auto simp: Suc_le_eq)
  have n: "n = length vs - Suc i" using Suc.hyps(2) by simp
  have nc: "\<not> c_completed (s g)" using Suc.prems(3) by (simp add: gen_at_def)
  have tk: "take i vs @ [vs ! i] = take (Suc i) vs" using Suc.prems(2) by (simp add: take_Suc_conv_app_nth)
  have eq: "range_loop body g (take i vs) s = range_loop body g (take (Suc i) vs) s2"
    using nc 1(1) 2(1) tk by (subst range_loop.simps) simp
  show ?case
  proof (cases "Suc i < length vs")
    case True
    then obtain s' where "range_loop body g (take (Suc i) vs) s2 = Some (Ret vs, s')" "c_completed (s' g)"
        "\<forall>x. x \<noteq> g \<longrightarrow> s' x = s2 x"
      using Suc.hyps(1)[of "Suc i" s2, OF n Suc.prems(1)] 2(3) by auto
    then show ?thesis using eq 1(3) 2(2) by auto
  next
    case False
    then have "take (Suc i) vs = vs" "c_completed (s2 g)" using 2(3) by auto
    then show ?thesis using eq 1(3) 2(2) by (subst (asm) (2) range_loop.simps) (auto intro!: exI[of _ s2])
  qed
qed simp

lemma range_for_ok:
  assumes "yields_all body g vs" "gen_at 0 None (s g)"
  shows "\<exists>s'. range_for body g s = Some (Ret vs, s') \<and> c_completed (s' g) \<and> (\<forall>x. x \<noteq> g \<longrightarrow> s' x = s x)"
proof -
  obtain s1 where 1: "generate body g s = Some (Ret (), s1)" "\<forall>x. x \<noteq> g \<longrightarrow> s1 x = s x"
      "if 0 < length vs then gen_at (Suc 0) (Some (vs ! 0)) (s1 g)
       else c_completed (s1 g) \<and> c_point (s1 g) = Final \<and> \<not> promise_running (s1 g)"
    using generate_next[where s = s and g = g and i = 0, OF assms(2,1)] by auto
  have "gen_begin body g s = Some (Ret (), s1)" using assms(2) 1(1) by (simp add: gen_begin_def gen_at_def)
  then have eq: "range_for body g s = range_loop body g [] s1" by (simp add: range_for_def)
  show ?thesis
  proof (cases "vs = []")
    case True
    then have "range_loop body g [] s1 = Some (Ret vs, s1)" using 1(3) by (subst range_loop.simps) simp
    then show ?thesis using eq 1 True by auto
  next
    case False
    then show ?thesis using range_loop_ok[OF assms(1), of 0 s1] 1 eq by auto
  qed
qed

subsection \<open>Awaiting a generator\<close>

text \<open>
  A generator with \<open>i\<close> values taken that only the coroutine \<open>c\<close> has used so far: once \<open>c\<close> has taken a value, the mailbox
  stays assigned to it.
\<close>

definition gen_for :: "cid \<Rightarrow> nat \<Rightarrow> 'v cframe \<Rightarrow> bool" where
  "gen_for c i f \<longleftrightarrow> c_gen f \<and> \<not> c_running f \<and> c_cont f = None \<and> \<not> c_completed f \<and> b_owned f \<and> b_queue f = []
     \<and> b_value f = None \<and> b_assigned f \<in> {None, Some c} \<and> b_waiter f = None
     \<and> (i = 0 \<and> c_point f = Initial \<and> c_hist f = []
        \<or> (\<exists>k. i = Suc k \<and> c_point f = AtYield \<and> c_hist f = replicate k Unit))"

definition gen_over :: "'v cframe \<Rightarrow> bool" where
  "gen_over f \<longleftrightarrow> c_completed f \<and> \<not> b_owned f \<and> b_value f = None"

definition consumer :: "'v cres list \<Rightarrow> hnd option \<Rightarrow> 'v cframe \<Rightarrow> bool" where
  "consumer h k f \<longleftrightarrow> c_point f = Active \<and> c_hist f = h \<and> c_running f \<and> c_cont f = k"

text \<open>The generator as the consumer \<open>c\<close> resumes it.\<close>

definition gen_called :: "cid \<Rightarrow> nat \<Rightarrow> 'v cframe \<Rightarrow> bool" where
  "gen_called c i f \<longleftrightarrow> c_gen f \<and> c_running f \<and> c_cont f = None \<and> \<not> c_completed f \<and> b_owned f \<and> b_queue f = [c]
     \<and> b_value f = None \<and> b_waiter f = None \<and> c_point f = Active \<and> c_hist f = replicate i Unit"

lemma await_gen_calls:
  assumes "gen_for c i (s g)" "consumer h k (s c)" "body c h = AwaitGen g" "g \<noteq> c"
  shows "\<exists>s2. crun body (Exec c, s) (Exec g, s2) \<and> gen_called c i (s2 g)
    \<and> s2 c = (s c)\<lparr>c_running := False, c_point := AtGen g\<rparr>"
proof -
  define s1 where "s1 = s(c := (s c)\<lparr>c_running := False, c_point := AtGen g\<rparr>, g := (s g)\<lparr>b_queue := [c]\<rparr>)"
  have "exec body c s = Some (Resume (H g), s1)"
    using assms by (auto simp: exec_defs consumer_def gen_for_def mb_valid_for_def promise_running_def suspend_at_def
        set_running_def s1_def Let_def)
  moreover obtain s2 where "coro_resume g s1 = Some (Exec g, s2)" "gen_called c i (s2 g)" "s2 c = s1 c"
    using assms(1,4)
    by (auto simp: s1_def gen_for_def gen_called_def coro_resume_def set_running_def got_def Let_def replicate_snoc)
  ultimately show ?thesis using crun_exec[OF _ crun_resume[OF _ crun_refl]] assms(4)
    by (intro exI[of _ s2]) (auto simp: s1_def)
qed

lemma called_yields:
  assumes "gen_called c i (s g)" "body g (replicate i Unit) = Yield v"
  shows "exec body g s = Some (Resume (H c), s(g := (s g)\<lparr>b_value := Some v, b_queue := [], b_waiter := Some c,
    b_assigned := Some c, c_running := False, c_point := AtYield\<rparr>))"
  using assms
  by (auto simp: gen_called_def exec_defs mb_put_def mb_wakeup_def set_continuation_def suspend_at_def set_running_def
      continuation_def Let_def)

lemma called_ends:
  assumes "gen_called c i (s g)" "case body g (replicate i Unit) of ReturnVoid \<Rightarrow> True | Raise _ \<Rightarrow> True | _ \<Rightarrow> False"
  shows "\<exists>f. exec body g s = Some (Resume (H c), s(g := f)) \<and> gen_over f"
  using assms
  by (auto simp: gen_called_def gen_over_def exec_defs coro_return_def final_suspend_def mb_abandon_def mb_wakeup_def
      set_continuation_def set_running_def continuation_def Let_def split: act.splits)

text \<open>One \<^verbatim>\<open>co_await\<close> on the generator.\<close>

lemma await_gen_next:
  assumes "gen_for c i (s g)" "consumer h k (s c)" "body c h = AwaitGen g" "g \<noteq> c" "yields_all body g vs" "i \<le> length vs"
  shows "\<exists>s'. crun body (Exec c, s) (Exec c, s')
    \<and> consumer (h @ [if i < length vs then Val (vs ! i) else Exn CoroAlreadyCompleted]) k (s' c)
    \<and> (if i < length vs then gen_for c (Suc i) (s' g) else gen_over (s' g))"
proof -
  obtain s2 where 2: "crun body (Exec c, s) (Exec g, s2)" "gen_called c i (s2 g)"
      "s2 c = (s c)\<lparr>c_running := False, c_point := AtGen g\<rparr>"
    using await_gen_calls[where s = s and g = g and c = c and body = body and h = h and k = k and i = i] assms(1-4) by blast
  show ?thesis
  proof (cases "i < length vs")
    case True
    then have y: "body g (replicate i Unit) = Yield (vs ! i)" using assms(5) by (simp add: yields_all_def)
    define s3 where "s3 = s2(g := (s2 g)\<lparr>b_value := Some (vs ! i), b_queue := [], b_waiter := Some c,
      b_assigned := Some c, c_running := False, c_point := AtYield\<rparr>)"
    have 3: "exec body g s2 = Some (Resume (H c), s3)"
      using called_yields[where s = s2 and g = g and c = c and i = i] 2(2) y by (simp add: s3_def)
    obtain s4 where 4: "coro_resume c s3 = Some (Exec c, s4)" "consumer (h @ [Val (vs ! i)]) k (s4 c)" "gen_for c (Suc i) (s4 g)"
      using 2(2,3) assms(2,4)
      by (auto simp: s3_def gen_called_def gen_for_def consumer_def coro_resume_def set_running_def gen_result_def
          mb_valid_for_def mb_take_def got_def Let_def)
    show ?thesis using crun_trans[OF 2(1) crun_exec[OF 3 crun_resume[OF 4(1) crun_refl]]] 4(2,3) True
      by (intro exI[of _ s4]) simp
  next
    case False
    then have "i = length vs" using assms(6) by simp
    then have e: "case body g (replicate i Unit) of ReturnVoid \<Rightarrow> True | Raise _ \<Rightarrow> True | _ \<Rightarrow> False"
      using assms(5) by (simp add: yields_all_def)
    obtain f where 3: "exec body g s2 = Some (Resume (H c), s2(g := f))" "gen_over f"
      using called_ends[where s = s2 and g = g and c = c and i = i] 2(2) e by blast
    obtain s4 where 4: "coro_resume c (s2(g := f)) = Some (Exec c, s4)" "consumer (h @ [Exn CoroAlreadyCompleted]) k (s4 c)"
        "gen_over (s4 g)"
      using 2(3) 3(2) assms(2,4)
      by (auto simp: gen_over_def consumer_def coro_resume_def set_running_def gen_result_def mb_valid_for_def got_def Let_def)
    show ?thesis using crun_trans[OF 2(1) crun_exec[OF 3(1) crun_resume[OF 4(1) crun_refl]]] 4(2,3) False
      by (intro exI[of _ s4]) simp
  qed
qed

text \<open>A body that awaits the generator as long as it gets values.\<close>

definition awaits_all :: "'v body \<Rightarrow> cid \<Rightarrow> cid \<Rightarrow> bool" where
  "awaits_all body c g \<longleftrightarrow> (\<forall>vs. body c (map Val vs) = AwaitGen g)"

lemma await_all_from:
  "i \<le> length vs \<Longrightarrow> gen_for c i (s g) \<Longrightarrow> consumer (map Val (take i vs)) k (s c) \<Longrightarrow> awaits_all body c g \<Longrightarrow>
   g \<noteq> c \<Longrightarrow> yields_all body g vs \<Longrightarrow>
   \<exists>s'. crun body (Exec c, s) (Exec c, s') \<and> consumer (map Val vs @ [Exn CoroAlreadyCompleted]) k (s' c) \<and> gen_over (s' g)"
proof (induction "length vs - i" arbitrary: i s)
  case (0 i s)
  then have i: "i = length vs" by simp
  have "body c (map Val (take i vs)) = AwaitGen g" using "0.prems"(4) by (simp add: awaits_all_def)
  from await_gen_next[where s = s and g = g and c = c and i = i, OF "0.prems"(2,3) this "0.prems"(5,6,1)]
  show ?case using i by auto
next
  case (Suc n i s)
  then have i: "i < length vs" by simp
  have b: "body c (map Val (take i vs)) = AwaitGen g" using Suc.prems(4) by (simp add: awaits_all_def)
  have tk: "map Val (take i vs) @ [Val (vs ! i)] = map Val (take (Suc i) vs)"
    using i by (simp add: take_Suc_conv_app_nth)
  obtain s1 where 1: "crun body (Exec c, s) (Exec c, s1)" "consumer (map Val (take (Suc i) vs)) k (s1 c)" "gen_for c (Suc i) (s1 g)"
    using await_gen_next[where s = s and g = g and c = c and i = i, OF Suc.prems(2,3) b Suc.prems(5,6,1)] i tk by auto
  have n: "n = length vs - Suc i" "Suc i \<le> length vs" using Suc.hyps(2) i by simp_all
  obtain s' where "crun body (Exec c, s1) (Exec c, s')" "consumer (map Val vs @ [Exn CoroAlreadyCompleted]) k (s' c)"
      "gen_over (s' g)"
    using Suc.hyps(1)[of "Suc i" s1, OF n 1(3,2) Suc.prems(4-6)] by blast
  then show ?case using crun_trans[OF 1(1)] by blast
qed

subsection \<open>Properties\<close>

text \<open>
  C9. Coroutine tasks compute what the same code computes with plain calls: running a task gives the value or the
  exception that the evaluation without suspensions gives, each task is run once however often it is awaited, and
  no assertion of the promises fails. When tasks await only tasks with a smaller number, and each a bounded number
  of times, that evaluation exists and \<^verbatim>\<open>task::run()\<close> returns.
\<close>

theorem task_run_correct:
  assumes "layered body n" "\<forall>t. s t = new_promise False"
  shows "\<exists>r M s'. evals body (\<lambda>_. None) {} t [] r M \<and> task_run body t s = Some (task_answer r, s')
    \<and> c_future (s' t) = Some r \<and> (\<forall>u. u \<noteq> t \<longrightarrow> c_future (s' u) = M u) \<and> \<not> promise_running (s' t)"
proof -
  obtain r M where e: "evals body (\<lambda>_. None) {} t [] r M" using evals_exists[OF assms(1)] by blast
  have "task_rep (\<lambda>_. None) {} s" using assms(2) by (simp add: task_rep_def fresh_task_def new_promise_def)
  then obtain s' where s': "task_run body t s = Some (task_answer r, s')" "task_rep (M(t \<mapsto> r)) {} s'"
    using task_run_evals[OF e] by blast
  have "c_future (s' u) = (M(t \<mapsto> r)) u" for u using s'(2) by (simp add: task_rep_def)
  moreover have "\<not> promise_running (s' t)" using s'(2) by (simp add: task_rep_def ended_task_def)
  ultimately show ?thesis using e s'(1) by (intro exI[of _ r] exI[of _ M] exI[of _ s']) simp
qed

text \<open>Task 2 awaits tasks 1 and 0 and adds their results; task 1 awaits task 0 and throws it away.\<close>

fun demo_tasks :: "nat body" where
  "demo_tasks c h = (case (c, h) of
     (Suc (Suc 0), []) \<Rightarrow> AwaitTask 1
   | (Suc (Suc 0), [_]) \<Rightarrow> AwaitTask 0
   | (Suc (Suc 0), [Val a, Val b]) \<Rightarrow> Return (a + b)
   | (Suc 0, []) \<Rightarrow> AwaitTask 0
   | (Suc 0, _) \<Rightarrow> Return 5
   | (0, _) \<Rightarrow> Return 7
   | _ \<Rightarrow> Raise (UserExn 1))"

lemma demo_tasks_layered: "layered demo_tasks 2"
  by (auto simp: layered_def split: act.splits nat.splits list.splits cres.splits)

theorem task_run_correct_witness:
  "\<exists>r M s'. evals demo_tasks (\<lambda>_. None) {} 2 [] r M \<and> task_run demo_tasks 2 (\<lambda>_. new_promise False) = Some (task_answer r, s')
    \<and> c_future (s' 2) = Some r \<and> (\<forall>u. u \<noteq> 2 \<longrightarrow> c_future (s' u) = M u) \<and> \<not> promise_running (s' 2)"
  by (rule task_run_correct[OF demo_tasks_layered]) simp

text \<open>
  C20. A range-based for loop over a fresh generator sees the yielded values, all of them, in order and each once, and
  ends; the generator is completed then. An exception that ends the generator is not seen by the loop.
\<close>

theorem generator_range_complete:
  assumes "s g = new_promise True" "yields_all body g vs"
  shows "\<exists>s'. range_for body g s = Some (Ret vs, s') \<and> c_completed (s' g) \<and> (\<forall>x. x \<noteq> g \<longrightarrow> s' x = s x)"
  by (rule range_for_ok[OF assms(2)]) (simp add: assms(1) gen_at_def new_promise_def)

fun demo_gen :: "nat body" where
  "demo_gen g h = (if g = 1 then AwaitGen 0 else if length h < 3 then Yield (length h) else Raise (UserExn 2))"

lemma demo_gen_yields: "yields_all demo_gen 0 [0, 1, 2]"
  by (auto simp: yields_all_def less_Suc_eq numeral_3_eq_3)

theorem generator_range_complete_witness:
  "\<exists>s'. range_for demo_gen 0 (\<lambda>_. new_promise True) = Some (Ret [0, 1, 2], s') \<and> c_completed (s' 0)
    \<and> (\<forall>x. x \<noteq> 0 \<longrightarrow> s' x = new_promise True)"
  by (rule generator_range_complete[OF _ demo_gen_yields]) simp

text \<open>
  C21. A coroutine that keeps awaiting a fresh generator gets the yielded values, all of them, in order and each once, and
  then the exception \<^verbatim>\<open>coro_already_completed\<close>. No assertion of the promises and of the mailbox fails on the way.
\<close>

theorem generator_await_complete:
  assumes "s g = new_promise True" "yields_all body g vs" "awaits_all body c g" "g \<noteq> c" "consumer [] k (s c)"
  shows "\<exists>s'. crun body (Exec c, s) (Exec c, s') \<and> c_hist (s' c) = map Val vs @ [Exn CoroAlreadyCompleted]
    \<and> c_completed (s' g)"
proof -
  have "gen_for c 0 (s g)" using assms(1) by (simp add: gen_for_def new_promise_def)
  from await_all_from[where s = s and g = g and c = c and i = 0 and k = k and vs = vs and body = body, OF _ this]
  show ?thesis using assms(2-5) by (auto simp: consumer_def gen_over_def)
qed

theorem generator_await_complete_witness:
  "\<exists>s'. crun demo_gen (Exec 1, (\<lambda>_. new_promise True)(1 := (new_promise False)\<lparr>c_point := Active, c_running := True\<rparr>)) (Exec 1, s')
    \<and> c_hist (s' 1) = [Val 0, Val 1, Val 2, Exn CoroAlreadyCompleted] \<and> c_completed (s' 0)"
  using generator_await_complete[of "(\<lambda>_. new_promise True)(1 := (new_promise False)\<lparr>c_point := Active, c_running := True\<rparr>)"
      0 demo_gen "[0, 1, 2]" 1 None] demo_gen_yields
  by (simp add: awaits_all_def consumer_def new_promise_def)

subsection \<open>Corner cases\<close>

text \<open>
  A generator that runs to its end in a fiber of its own: its last value stays in the mailbox, but \<^verbatim>\<open>value()\<close> and a
  range-based for loop refuse it, because they look at \<^verbatim>\<open>completed()\<close> first.
\<close>

lemma generator_last_value_lost:
  assumes "s g = new_promise True" "body g [] = Yield v" "body g [Unit] = ReturnVoid"
  shows "\<exists>s'. promise_run body g s = Some (Ret (), s') \<and> b_value (s' g) = Some v
    \<and> gen_value g s' = Some (Throws CoroAlreadyCompleted, s') \<and> range_for body g s' = Some (Ret [], s')"
proof -
  define f1 where "f1 = (new_promise True :: 'a cframe)\<lparr>c_point := Active, c_running := True\<rparr>"
  define f2 where "f2 = f1\<lparr>b_value := Some v, c_hist := [Unit]\<rparr>"
  define f3 where "f3 = f2\<lparr>c_completed := True, b_owned := False, c_running := False, c_point := Final\<rparr>"
  have 1: "coro_resume g s = Some (Exec g, s(g := f1))"
    using assms(1) by (simp add: coro_resume_initial new_promise_def f1_def)
  have 2: "exec body g (s(g := f1)) = Some (Exec g, s(g := f2))"
    using assms(2) by (simp add: exec_defs f1_def f2_def new_promise_def mb_put_def got_def Let_def)
  have 3: "exec body g (s(g := f2)) = Some (Resume Noop, s(g := f3))"
    using assms(3) by (simp add: exec_defs f1_def f2_def f3_def new_promise_def coro_return_def final_suspend_def mb_abandon_def
        set_running_def continuation_def Let_def)
  have "drive body (Resume (H g), s) = Some (Resume Noop, s(g := f3))"
    by (rule drive_crun[OF crun_resume[OF 1 crun_exec[OF 2 crun_exec[OF 3 crun_refl]]]]) simp
  moreover have "run_loop body g (s(g := f3)) = Some (Ret (), s(g := f3))"
    by (subst run_loop.simps) (simp add: coro_completed_def f3_def f2_def f1_def new_promise_def)
  ultimately have "run_loop body g s = Some (Ret (), s(g := f3))"
    using assms(1) by (subst run_loop.simps) (simp add: coro_completed_def new_promise_def)
  moreover have "range_loop body g [] (s(g := f3)) = Some (Ret [], s(g := f3))"
    by (subst range_loop.simps) (simp add: f3_def)
  ultimately show ?thesis
    using assms(1)
    by (intro exI[of _ "s(g := f3)"])
      (simp add: promise_run_def promise_running_def gen_value_def range_for_def gen_begin_def f3_def f2_def f1_def new_promise_def)
qed

text \<open>
  Once a coroutine has taken a value, the mailbox stays assigned to it: ordinary code that goes on with the same
  generator waits for ever for the value that \<^verbatim>\<open>generate()\<close> has put there for it.
\<close>

lemma generator_stale_assignment:
  assumes "b_assigned (s g) = Some c" "\<not> c_completed (s g)" "b_owned (s g)" "b_value (s g) = Some v"
  shows "iter_deref g s = Some (Waits, s)" "gen_value g s = Some (Waits, s)" "generate body g s = Some (Ret (), s)"
  using assms by (simp_all add: iter_deref_def gen_value_def mb_valid_for_def generate_def)

text \<open>
  A task that awaits another one does not count as running. A second fiber that runs it resumes it a second time;
  when the awaited task ends in the first fiber, it resumes a coroutine that is active in the second.
\<close>

lemma awaiting_task_resumed_twice:
  assumes "c_point (s t) = AtTask u" "\<not> c_running (s t)" "c_cont (s t) = None" "c_future (s t) = None" "\<not> c_gen (s t)"
    "active_task h (Some (H t)) (s u)" "body u h = Return v" "t \<noteq> u"
  shows "\<exists>s1 s2. promise_run body t s = Some (Waits, s1)
    \<and> cstep body (Exec u, s1) = Some (Resume (H t), s2) \<and> cstep body (Resume (H t), s2) = None"
proof -
  define s1 where "s1 = s(t := (s t)\<lparr>c_point := Active, c_running := True\<rparr>)"
  have 1: "coro_resume t s = Some (Blocked t, s1)"
    using assms by (simp add: coro_resume_def set_running_def task_result_def active_task_def s1_def Let_def)
  have "drive body (Resume (H t), s) = Some (Blocked t, s1)"
    by (rule drive_crun[OF crun_resume[OF 1 crun_refl]]) simp
  then have "promise_run body t s = Some (Waits, s1)"
    using assms(2-5) by (subst promise_run_def, subst run_loop.simps) (simp add: promise_running_def coro_completed_def)
  moreover have u: "s1 u = s u" using assms(8) by (simp add: s1_def)
  obtain f' where "coro_return (Val v) (s1 u) = Some (H t, f')"
    using coro_return_task[of h "Some (H t)" "s1 u" "Val v"] assms(6) u by auto
  then have "cstep body (Exec u, s1) = Some (Resume (H t), s1(u := f'))"
    using assms(6,7) u by (simp add: cstep_def exec_defs active_task_def)
  moreover have "cstep body (Resume (H t), s1(u := f')) = None"
    using assms(8) by (simp add: cstep_def coro_resume_def s1_def)
  ultimately show ?thesis by blast
qed

subsection \<open>The mailbox of a yielded type\<close>

text \<open>
  A generator of several types has a mailbox for each; \<^verbatim>\<open>yield_value()\<close> selects the one to put the value in. The
  templates are functions of the yielded type and the list of types. \<open>decay\<close> is \<^verbatim>\<open>std::decay_t\<close>, and \<open>conv\<close> is
  \<^verbatim>\<open>std::is_convertible_v<A, B&>\<close>. No type found is \<open>None\<close>.
\<close>

definition is_similar :: "('t \<Rightarrow> 't) \<Rightarrow> 't \<Rightarrow> 't \<Rightarrow> bool" where
  "is_similar decay a b \<longleftrightarrow> a = b \<or> decay a = decay b"

definition is_convertible :: "('t \<Rightarrow> 't) \<Rightarrow> ('t \<Rightarrow> 't \<Rightarrow> bool) \<Rightarrow> 't \<Rightarrow> 't \<Rightarrow> bool" where
  "is_convertible decay conv a b \<longleftrightarrow> is_similar decay a b \<or> conv a b"

fun has_identical_type :: "'t \<Rightarrow> 't list \<Rightarrow> bool" where
  "has_identical_type n [] = False"
| "has_identical_type n (x # xs) = (if n = x then True else has_identical_type n xs)"

fun has_similar_type :: "('t \<Rightarrow> 't) \<Rightarrow> 't \<Rightarrow> 't list \<Rightarrow> bool" where
  "has_similar_type decay n [] = False"
| "has_similar_type decay n (x # xs) =
     (if is_similar decay n x \<and> \<not> has_identical_type n xs then True else has_similar_type decay n xs)"

fun find_type :: "('t \<Rightarrow> 't) \<Rightarrow> ('t \<Rightarrow> 't \<Rightarrow> bool) \<Rightarrow> 't \<Rightarrow> 't list \<Rightarrow> 't option" where
  "find_type decay conv n [] = None"
| "find_type decay conv n (x # xs) =
     (if is_convertible decay conv n x \<and> \<not> has_similar_type decay n xs then Some x else find_type decay conv n xs)"

lemma has_identical_type_iff: "has_identical_type n xs \<longleftrightarrow> n \<in> set xs"
  by (induction xs) auto

lemma has_similar_type_iff: "has_similar_type decay n xs \<longleftrightarrow> (\<exists>x \<in> set xs. is_similar decay n x)"
  by (induction xs) (auto simp: has_identical_type_iff is_similar_def)

text \<open>
  The mailbox of a yielded value is the one of the last similar type, if there is any, and else the one of the first
  type that it converts to.
\<close>

theorem find_type_selects:
  "find_type decay conv n xs = (case filter (is_similar decay n) xs of
     [] \<Rightarrow> find (is_convertible decay conv n) xs
   | y # ys \<Rightarrow> Some (last (y # ys)))"
proof (induction xs)
  case (Cons x xs)
  have e: "filter (is_similar decay n) xs = [] \<longleftrightarrow> \<not> has_similar_type decay n xs"
    by (simp add: has_similar_type_iff filter_empty_conv)
  show ?case
  proof (cases "filter (is_similar decay n) xs")
    case Nil
    then show ?thesis using Cons.IH e by (auto simp: is_convertible_def)
  next
    case (Cons y ys)
    then show ?thesis using \<open>find_type decay conv n xs = _\<close> e by auto
  qed
qed simp

text \<open>
  Hence a value of exactly one of the types may end up in the mailbox of another one that is similar, when that comes
  later in the list, such as the \<^verbatim>\<open>int\<close> of \<^verbatim>\<open>generator<int, int&>\<close>.
\<close>

lemma find_type_not_identical:
  assumes "n \<noteq> r" "decay n = decay r"
  shows "find_type decay conv n [n, r] = Some r"
  using assms by (simp add: is_convertible_def is_similar_def)

end
