(* ===== verification/Zth_Vcd.thy ===== *)
theory Zth_Vcd
  imports Zth_Time "HOL-Library.Word" "HOL-Library.Char_ord"
begin

section \<open>The VCD writer of the performance monitor\<close>

text \<open>
  \<^verbatim>\<open>src/perf.cpp\<close>, the part of \<^verbatim>\<open>PerfFiber\<close> that produces text: identifiers of the wires
  (\<^verbatim>\<open>vcdId()\<close>, \<^verbatim>\<open>vcdIdRelease()\<close>), the escaping of log texts, the two output files and how they are
  opened and merged (\<^verbatim>\<open>startVCD()\<close>, \<^verbatim>\<open>finalizeVCD()\<close>).

  \<^item> A \<^verbatim>\<open>FILE*\<close> is its contents and a plan of the coming writes: \<open>Some e\<close> is a write that fails
    with \<^verbatim>\<open>errno\<close> \<open>e\<close>, and a plan that has run out means success. A failing write leaves the
    contents alone.
  \<^item> A C string in memory is a \<open>string\<close> with its terminating NUL. Reading beyond its end is \<open>None\<close>.
  \<^item> Bytes are compared by their code; a plain \<^verbatim>\<open>char\<close> above 127 fails the test on the printable range
    either as a negative or as a large number, so the signedness does not matter.
  \<^item> The allocation of \<^verbatim>\<open>std::string\<close> and of map nodes succeeds.
\<close>

subsection \<open>Output files\<close>

record vcdfile =
  vf_text :: string
  vf_plan :: "errno option list"

definition fprintf :: "string \<Rightarrow> vcdfile \<Rightarrow> errno option \<times> vcdfile" where
  "fprintf s f = (case vf_plan f of
     Some e # plan \<Rightarrow> (Some e, f\<lparr>vf_plan := plan\<rparr>)
   | None # plan \<Rightarrow> (None, f\<lparr>vf_text := vf_text f @ s, vf_plan := plan\<rparr>)
   | [] \<Rightarrow> (None, f\<lparr>vf_text := vf_text f @ s\<rparr>))"

definition vf_good :: "vcdfile \<Rightarrow> bool" where
  "vf_good f \<longleftrightarrow> (\<forall>r \<in> set (vf_plan f). r = None)"

definition digit :: "nat \<Rightarrow> char" where
  "digit d = char_of (if d < 10 then 48 + d else 87 + d)"

text \<open>\<^verbatim>\<open>%u\<close> and friends, \<^verbatim>\<open>%09u\<close>, \<^verbatim>\<open>%02x\<close>.\<close>

fun dec :: "nat \<Rightarrow> string" where
  "dec n = (if n < 10 then [digit n] else dec (n div 10) @ [digit (n mod 10)])"

declare dec.simps [simp del]

definition dec09 :: "nat \<Rightarrow> string" where
  "dec09 n = replicate (9 - length (dec n)) (digit 0) @ dec n"

definition hex02 :: "nat \<Rightarrow> string" where
  "hex02 n = [digit (n div 16), digit (n mod 16)]"

definition escape_prefix :: string where
  "escape_prefix = [CHR 0x5C, CHR ''x'']"

abbreviation NUL :: char where
  "NUL \<equiv> CHR 0x00"

definition newline :: string where
  "newline = [CHR 0x0A]"

subsection \<open>Identifiers\<close>

text \<open>
  The loop of \<^verbatim>\<open>vcdId()\<close>: \<open>s\<close> is the index in \<^verbatim>\<open>buf\<close> that the pointer \<^verbatim>\<open>s\<close> has; a write before the start of
  the buffer is \<open>None\<close>.
\<close>

fun vcd_loop :: "64 word \<Rightarrow> nat \<Rightarrow> string \<Rightarrow> (nat \<times> string) option" where
  "vcd_loop ident 0 buf = None"
| "vcd_loop ident (Suc s) buf =
     (let buf = buf[s := char_of (unat (ident mod 93) + 34)];
          ident = ident div 93
      in if ident = 0 then Some (s, buf) else vcd_loop ident s buf)"

text \<open>The C string at an index of a buffer.\<close>

definition c_string_at :: "string \<Rightarrow> nat \<Rightarrow> string" where
  "c_string_at buf i = takeWhile (\<lambda>c. c \<noteq> NUL) (drop i buf)"

type_synonym vcd_ids = "64 word \<Rightarrow> string option"

definition vcdId :: "64 word \<Rightarrow> vcd_ids \<Rightarrow> (string \<times> vcd_ids) option" where
  "vcdId fiber ids = (case ids fiber of
     Some s \<Rightarrow> Some (s, ids)
   | None \<Rightarrow> do {
       let buf = (replicate 16 NUL)[15 := NUL];
       (s, buf) \<leftarrow> vcd_loop fiber 15 buf;
       let str = c_string_at buf s;
       Some (str, ids(fiber \<mapsto> str))
     })"

definition vcdIdRelease :: "64 word \<Rightarrow> vcd_ids \<Rightarrow> vcd_ids" where
  "vcdIdRelease fiber ids = (case ids fiber of Some _ \<Rightarrow> ids(fiber := None) | None \<Rightarrow> ids)"

subsection \<open>Texts\<close>

definition printable :: "char \<Rightarrow> bool" where
  "printable c \<longleftrightarrow> \<not> (of_char c < (33::nat) \<or> of_char c > (126::nat))"

text \<open>The loop over a fiber's name, which replaces what is not printable in place.\<close>

definition sanitize :: "string \<Rightarrow> string" where
  "sanitize s = map (\<lambda>c. if printable c then c else CHR ''_'') s"

text \<open>
  The loop \<^verbatim>\<open>while(chunkEnd[1])\<close> over a log text or marker; \<open>buf\<close> is the memory of the string with its
  terminator, the result the outcome of the writes, \<^verbatim>\<open>chunkStart\<close> and the file.
\<close>

function escape_loop :: "string \<Rightarrow> nat \<Rightarrow> nat \<Rightarrow> nat \<Rightarrow> vcdfile \<Rightarrow> (errno option \<times> nat \<times> vcdfile) option" where
  "escape_loop buf chunkStart chunkEnd len f =
     (if chunkEnd + 1 \<ge> length buf then None
      else if buf ! (chunkEnd + 1) = NUL then Some (None, chunkStart, f)
      else if \<not> printable (buf ! chunkEnd) then
        (case fprintf (take len (drop chunkStart buf) @ escape_prefix @ hex02 (of_char (buf ! chunkEnd))) f of
           (Some e, f) \<Rightarrow> Some (Some e, chunkStart, f)
         | (None, f) \<Rightarrow> escape_loop buf (chunkEnd + 1) (chunkEnd + 1) 0 f)
      else escape_loop buf chunkStart (chunkEnd + 1) (len + 1) f)"
  by pat_completeness auto

termination
  by (relation "measure (\<lambda>(buf, chunkStart, chunkEnd, len, f). length buf - chunkEnd)") auto

declare escape_loop.simps [simp del]

subsection \<open>Opening and closing the files\<close>

text \<open>
  What the system answers: whether \<^verbatim>\<open>snprintf()\<close> gave a positive length and its text, the opened files
  (\<open>Inl\<close> the \<^verbatim>\<open>errno\<close>), and the time as \<^verbatim>\<open>ctime_r()\<close> prints it, when both \<^verbatim>\<open>time()\<close> and \<^verbatim>\<open>ctime_r()\<close> succeed.
\<close>

record vcd_env =
  ve_snprintf :: "string option"
  ve_open :: "string \<Rightarrow> errno + vcdfile"
  ve_tmpfile :: "errno + vcdfile"
  ve_date :: "string option"
  ve_banner :: string

record vcd =
  m_vcd :: "vcdfile option"
  m_vcdd :: "vcdfile option"
  m_vcdIds :: vcd_ids

text \<open>
  The name of the output file. The test in the code is \<^verbatim>\<open>snprintf(...) <= 0\<close>; the buffer of a failed
  \<^verbatim>\<open>snprintf()\<close> is unspecified, \<open>junk\<close>.
\<close>

definition vcdFilename :: "string \<Rightarrow> vcd_env \<Rightarrow> string" where
  "vcdFilename junk env = (if ve_snprintf env = None then junk else ''zth.vcd'')"

definition startVCD :: "string \<Rightarrow> vcd_env \<Rightarrow> vcd \<Rightarrow> errno \<times> vcd" where
  "startVCD junk env v = (case ve_open env (vcdFilename junk env) of
     Inl e \<Rightarrow> (if e = E_OK then EIO else e, v\<lparr>m_vcd := None, m_vcdd := None\<rparr>)
   | Inr f \<Rightarrow> (case ve_tmpfile env of
       Inl e \<Rightarrow> (EIO, v\<lparr>m_vcd := None, m_vcdd := None\<rparr>)
     | Inr d \<Rightarrow>
         (let (r, f) = (case ve_date env of
                None \<Rightarrow> (None, f)
              | Some now \<Rightarrow> fprintf (''$date '' @ now @ ''$end'' @ newline) f)
          in if r \<noteq> None then (EIO, v\<lparr>m_vcd := None, m_vcdd := None\<rparr>)
             else (case fprintf (''$version '' @ ve_banner env @ '' $end'' @ newline
                       @ ''$timescale 1 ns $end'' @ newline @ ''$scope module top $end'' @ newline) f of
                 (Some e, f) \<Rightarrow> (EIO, v\<lparr>m_vcd := None, m_vcdd := None\<rparr>)
               | (None, f) \<Rightarrow> (E_OK, v\<lparr>m_vcd := Some f, m_vcdd := Some d\<rparr>)))))"

text \<open>
  The copy loop of \<^verbatim>\<open>finalizeVCD()\<close> with its buffer of 1024 bytes; the flag is the outcome of the last
  \<^verbatim>\<open>fwrite()\<close>. \<open>readable\<close> is how many bytes \<^verbatim>\<open>fread()\<close> delivers before it reports an error, if it does.
\<close>

fun copy_loop :: "string \<Rightarrow> vcdfile \<Rightarrow> bool \<times> vcdfile" where
  "copy_loop data f =
     (if data = [] then (True, f)
      else case fprintf (take 1024 data) f of
          (Some e, f) \<Rightarrow> (False, f)
        | (None, f) \<Rightarrow> copy_loop (drop 1024 data) f)"

declare copy_loop.simps [simp del]

text \<open>
  The result and the writer, with the file that was completed: the code closes both files and forgets them.
\<close>

definition finalizeVCD :: "nat option \<Rightarrow> vcd \<Rightarrow> errno \<times> vcd \<times> vcdfile option" where
  "finalizeVCD readable v = (case (m_vcd v, m_vcdd v) of
     (Some f, Some d) \<Rightarrow>
       (case fprintf (''$upscope $end'' @ newline @ ''$enddefinitions $end'' @ newline) f of
          (Some e, f) \<Rightarrow> (EIO, v\<lparr>m_vcd := Some f\<rparr>, None)
        | (None, f) \<Rightarrow>
            (case copy_loop (case readable of None \<Rightarrow> vf_text d | Some n \<Rightarrow> take n (vf_text d)) f of
               (False, f) \<Rightarrow> (EIO, v\<lparr>m_vcd := Some f\<rparr>, None)
             | (True, f) \<Rightarrow>
                 if readable \<noteq> None then (EIO, v\<lparr>m_vcd := Some f\<rparr>, None)
                 else (E_OK, v\<lparr>m_vcd := None, m_vcdd := None\<rparr>, Some f)))
   | _ \<Rightarrow> (E_OK, v, None))"

subsection \<open>Identifiers are radix-93 numbers\<close>

text \<open>The reference: the number in radix 93, most significant digit first, and its value.\<close>

fun radix93 :: "nat \<Rightarrow> string" where
  "radix93 n = (if n < 93 then [char_of (n + 34)] else radix93 (n div 93) @ [char_of (n mod 93 + 34)])"

declare radix93.simps [simp del]

definition radix93_value :: "string \<Rightarrow> nat" where
  "radix93_value s = foldl (\<lambda>v c. v * 93 + (of_char c - 34)) 0 s"

definition vcd_char :: "char \<Rightarrow> bool" where
  "vcd_char c \<longleftrightarrow> 34 \<le> (of_char c :: nat) \<and> (of_char c :: nat) \<le> 126"

lemma of_char_digit [simp]: "d < 93 \<Longrightarrow> of_char (char_of (d + 34 :: nat)) = d + 34"
  by simp

lemma radix93_chars: "c \<in> set (radix93 n) \<Longrightarrow> vcd_char c"
proof (induction n rule: radix93.induct)
  case (1 n)
  then show ?case
    by (subst (asm) (2) radix93.simps) (auto simp: vcd_char_def split: if_splits)
qed

lemma radix93_not_NUL: "c \<in> set (radix93 n) \<Longrightarrow> c \<noteq> NUL"
  by (drule radix93_chars) (auto simp: vcd_char_def)

lemma radix93_nonempty [simp]: "radix93 n \<noteq> []"
  by (subst radix93.simps) simp

lemma radix93_value_radix93 [simp]: "radix93_value (radix93 n) = n"
proof (induction n rule: radix93.induct)
  case (1 n)
  then show ?case by (subst radix93.simps) (simp add: radix93_value_def)
qed

lemma radix93_length: "n < 93 ^ k \<Longrightarrow> 0 < k \<Longrightarrow> length (radix93 n) \<le> k"
proof (induction n arbitrary: k rule: radix93.induct)
  case (1 n)
  show ?case
  proof (cases "n < 93")
    case True
    then show ?thesis using 1 by (subst radix93.simps) simp
  next
    case False
    from False 1(2) obtain k' where k: "k = Suc k'" "0 < k'" by (cases k; cases "k - 1") auto
    have "n div 93 < 93 ^ k'" using 1(2) k by (simp add: less_mult_imp_div_less mult.commute)
    then have "length (radix93 (n div 93)) \<le> k'" using 1(1)[OF False] k by simp
    then show ?thesis using False k by (subst radix93.simps) simp
  qed
qed

lemma unat_div93: "unat ((w :: 64 word) div 93) = unat w div 93"
  by (simp add: unat_div)

lemma unat_mod93: "unat ((w :: 64 word) mod 93) = unat w mod 93"
  by (simp add: unat_mod)

text \<open>With room for all digits the loop ends inside the buffer, in front of the digits.\<close>

lemma vcd_loop_radix93:
  "unat w < 93 ^ s \<Longrightarrow> s < length buf \<Longrightarrow> 0 < s \<Longrightarrow>
   \<exists>s' buf'. vcd_loop w s buf = Some (s', buf') \<and> length buf' = length buf
     \<and> drop s' buf' = radix93 (unat w) @ drop s buf"
proof (induction s arbitrary: w buf)
  case (Suc s)
  let ?c = "char_of (unat (w mod 93) + 34)"
  let ?buf = "buf[s := ?c]"
  have len: "s < length buf" using Suc.prems by simp
  have d: "drop s ?buf = ?c # drop (Suc s) buf"
    using len by (metis Cons_nth_drop_Suc drop_update_cancel length_list_update lessI nth_list_update_eq)
  show ?case
  proof (cases "w div 93 = 0")
    case True
    then have "unat w div 93 = 0" by (metis unat_div93 unat_0)
    then have "radix93 (unat w) = [?c]" by (subst radix93.simps) (auto simp: unat_mod93)
    then show ?thesis using True d by (simp add: Let_def)
  next
    case False
    then have nz: "unat w div 93 \<noteq> 0" by (metis unat_div93 unat_eq_zero)
    have lt: "unat (w div 93) < 93 ^ s"
      using Suc.prems(1) by (simp add: unat_div93 less_mult_imp_div_less mult.commute)
    have "0 < s" using lt nz by (cases s) (auto simp: unat_div93)
    then obtain s' buf' where "vcd_loop (w div 93) s ?buf = Some (s', buf')" "length buf' = length ?buf"
        "drop s' buf' = radix93 (unat (w div 93)) @ drop s ?buf"
      using Suc.IH[OF lt, of ?buf] len by auto
    moreover have "radix93 (unat w) = radix93 (unat (w div 93)) @ [?c]"
      using nz by (subst radix93.simps) (simp add: unat_div93 unat_mod93)
    ultimately show ?thesis using False d by (simp add: Let_def)
  qed
qed simp

lemma takeWhile_until: "\<forall>c \<in> set xs. P c \<Longrightarrow> \<not> P y \<Longrightarrow> takeWhile P (xs @ y # ys) = xs"
  by simp

lemma vcdId_new: "ids w = None \<Longrightarrow> vcdId w ids = Some (radix93 (unat w), ids(w \<mapsto> radix93 (unat w)))"
proof -
  assume "ids w = None"
  have "unat w < 2 ^ 64" using unsigned_less[of w, where 'a = nat] by simp
  then have "unat w < 93 ^ 15" by simp
  then obtain s' buf' where "vcd_loop w 15 (replicate 16 NUL) = Some (s', buf')"
      "drop s' buf' = radix93 (unat w) @ drop 15 (replicate 16 NUL)"
    using vcd_loop_radix93[of w 15 "replicate 16 NUL"] by auto
  moreover have "drop 15 (replicate 16 NUL) = [NUL]" by (simp add: numeral_eq_Suc)
  moreover have "(replicate 16 NUL)[15 := NUL] = replicate 16 NUL" by (simp add: list_update_same_conv)
  ultimately show ?thesis using \<open>ids w = None\<close>
    by (simp add: vcdId_def c_string_at_def radix93_not_NUL Let_def)
qed

text \<open>Every entry of the map is the number of its key.\<close>

definition ids_radix93 :: "vcd_ids \<Rightarrow> bool" where
  "ids_radix93 ids \<longleftrightarrow> (\<forall>w s. ids w = Some s \<longrightarrow> s = radix93 (unat w))"

lemma ids_radix93_empty [simp]: "ids_radix93 (\<lambda>_. None)"
  by (simp add: ids_radix93_def)

lemma vcdId_ok:
  "ids_radix93 ids \<Longrightarrow> \<exists>ids'. vcdId w ids = Some (radix93 (unat w), ids') \<and> ids_radix93 ids'
     \<and> ids' w = Some (radix93 (unat w))"
proof (cases "ids w")
  case None
  then show "ids_radix93 ids \<Longrightarrow> ?thesis" by (auto simp: vcdId_new ids_radix93_def)
next
  case (Some s)
  then show "ids_radix93 ids \<Longrightarrow> ?thesis" by (auto simp: ids_radix93_def vcdId_def)
qed

lemma vcdIdRelease_ok: "ids_radix93 ids \<Longrightarrow> ids_radix93 (vcdIdRelease w ids)"
  by (auto simp: ids_radix93_def vcdIdRelease_def split: option.splits)

subsection \<open>Escaped texts\<close>

definition escaped :: "char \<Rightarrow> string" where
  "escaped c = (if printable c then [c] else escape_prefix @ hex02 (of_char c))"

text \<open>What reaches the file of a text: all but its last character escaped, the last one as it is.\<close>

definition escaped_text :: "string \<Rightarrow> string" where
  "escaped_text s = concat (map escaped (butlast s)) @ [last s]"

lemma fprintf_good: "vf_good f \<Longrightarrow> \<exists>f'. fprintf s f = (None, f') \<and> vf_good f' \<and> vf_text f' = vf_text f @ s"
  by (cases "vf_plan f") (auto simp: fprintf_def vf_good_def)

lemma terminator_at:
  assumes "NUL \<notin> set s" "i \<le> length s"
  shows "(s @ [NUL]) ! i = NUL \<longleftrightarrow> i = length s"
proof (cases "i < length s")
  case True
  then have "s ! i \<noteq> NUL" using assms(1) nth_mem[of i s] by metis
  then show ?thesis using True by (simp add: nth_append)
next
  case False
  then show ?thesis using assms(2) by (simp add: nth_append)
qed

lemma drop_split_at:
  assumes "cs \<le> ce" "ce + 1 < length s"
  shows "drop cs (butlast s) = take (ce - cs) (drop cs s) @ s ! ce # drop (ce + 1) (butlast s)"
proof -
  have "ce < length (butlast s)" using assms by simp
  then have "butlast s = take ce (butlast s) @ butlast s ! ce # drop (Suc ce) (butlast s)"
    by (rule id_take_nth_drop)
  moreover have "take ce (butlast s) = take ce s" "butlast s ! ce = s ! ce"
    using assms by (simp_all add: take_butlast nth_butlast)
  ultimately have "drop cs (butlast s) = drop cs (take ce s @ s ! ce # drop (Suc ce) (butlast s))" by metis
  then show ?thesis using assms by (simp add: drop_take)
qed

lemma concat_escaped_printable: "\<forall>c \<in> set xs. printable c \<Longrightarrow> concat (map escaped xs) = xs"
  by (induction xs) (simp_all add: escaped_def)

text \<open>
  The loop, from any state it passes through: \<open>s\<close> is the text, \<^verbatim>\<open>[chunkStart, chunkEnd)\<close> the printable
  characters that are still to be written.
\<close>

lemma escape_loop_from:
  assumes "NUL \<notin> set s" "chunkStart \<le> chunkEnd" "chunkEnd < length s" "len = chunkEnd - chunkStart"
    "\<forall>i. chunkStart \<le> i \<longrightarrow> i < chunkEnd \<longrightarrow> printable (s ! i)" "vf_good f"
  shows "\<exists>cs f'. escape_loop (s @ [NUL]) chunkStart chunkEnd len f = Some (None, cs, f') \<and> vf_good f'
    \<and> vf_text f' @ c_string_at (s @ [NUL]) cs
      = vf_text f @ concat (map escaped (drop chunkStart (butlast s))) @ [last s]"
  using assms(2-)
proof (induction "s @ [NUL]" chunkStart chunkEnd len f rule: escape_loop.induct)
  case (1 cs ce len f)
  let ?chunk = "take len (drop cs s)"
  have chunk: "\<forall>c \<in> set ?chunk. printable c"
    using 1(3-6) by (fastforce simp: in_set_conv_nth)
  have eq: "(s @ [NUL]) ! ce = s ! ce" "(s @ [NUL]) ! (ce + 1) = NUL \<longleftrightarrow> ce + 1 = length s"
    using 1(4) terminator_at[OF assms(1), of "ce + 1"] by (simp_all add: nth_append)
  have tl: "len - (length s - cs) = 0" using 1(3-5) by simp
  show ?case
  proof (cases "ce + 1 = length s")
    case True
    have "butlast s = take ce s" using True by (simp add: butlast_conv_take flip: True)
    then have b: "drop cs (butlast s) = ?chunk" using 1(5) by (simp add: drop_take)
    moreover have "s = butlast s @ [last s]" using True by (cases s rule: rev_cases) auto
    ultimately have "drop cs s = ?chunk @ [last s]"
      using True 1(3) by (metis add_diff_cancel_right' diff_is_0_eq drop_append drop0 length_butlast)
    moreover have "c_string_at (s @ [NUL]) cs = drop cs s"
      using assms(1) 1(3,4) in_set_dropD[of _ cs s] by (auto simp: c_string_at_def intro!: takeWhile_until)
    ultimately show ?thesis
      using True eq b chunk 1(7) by (subst escape_loop.simps) (simp add: concat_escaped_printable)
  next
    case False
    then have lt: "ce + 1 < length s" using 1(4) by simp
    show ?thesis
    proof (cases "printable (s ! ce)")
      case True
      have "\<forall>i. cs \<le> i \<longrightarrow> i < ce + 1 \<longrightarrow> printable (s ! i)" using 1(6) True by (auto simp: less_Suc_eq)
      then show ?thesis
        using 1(2) 1(3,5,7) lt True False eq by (subst escape_loop.simps) (simp add: Suc_diff_le)
    next
      case np: False
      obtain f1 where f1: "fprintf (?chunk @ escape_prefix @ hex02 (of_char (s ! ce))) f = (None, f1)" "vf_good f1"
          "vf_text f1 = vf_text f @ ?chunk @ escape_prefix @ hex02 (of_char (s ! ce))"
        using fprintf_good[OF 1(7)] by blast
      have "drop cs (butlast s) = ?chunk @ s ! ce # drop (ce + 1) (butlast s)"
        using lt 1(3,5) drop_split_at[of cs ce s] by simp
      moreover obtain c2 f' where "escape_loop (s @ [NUL]) (ce + 1) (ce + 1) 0 f1 = Some (None, c2, f')" "vf_good f'"
          "vf_text f' @ c_string_at (s @ [NUL]) c2
             = vf_text f1 @ concat (map escaped (drop (ce + 1) (butlast s))) @ [last s]"
        using 1(1)[of None f1] f1 lt np False eq tl by auto
      ultimately show ?thesis
        using np False lt eq tl f1 chunk
        by (subst escape_loop.simps) (simp add: concat_escaped_printable escaped_def)
    qed
  qed
qed

lemma escape_loop_text:
  assumes "NUL \<notin> set s" "s \<noteq> []" "vf_good f"
  shows "\<exists>cs f'. escape_loop (s @ [NUL]) 0 0 0 f = Some (None, cs, f') \<and> vf_good f'
    \<and> vf_text f' @ c_string_at (s @ [NUL]) cs = vf_text f @ escaped_text s"
  using escape_loop_from[of s 0 0 0 f] assms by (simp add: escaped_text_def)

text \<open>The loop ends with a result, whatever the file does, unless the text is empty.\<close>

lemma escape_loop_defined:
  "NUL \<notin> set s \<Longrightarrow> chunkEnd < length s \<Longrightarrow> \<exists>r. escape_loop (s @ [NUL]) chunkStart chunkEnd len f = Some r"
proof (induction "s @ [NUL]" chunkStart chunkEnd len f rule: escape_loop.induct)
  case (1 cs ce len f)
  have "(s @ [NUL]) ! (ce + 1) = NUL \<longleftrightarrow> ce + 1 = length s"
    using 1(4) terminator_at[OF 1(3), of "ce + 1"] by simp
  then show ?case
    using 1 by (subst escape_loop.simps) (auto split: prod.splits option.splits)
qed

lemma escape_loop_empty: "escape_loop [NUL] 0 0 0 f = None"
  by (simp add: escape_loop.simps)

subsection \<open>The merged file\<close>

lemma copy_loop_good:
  "vf_good f \<Longrightarrow> \<exists>f'. copy_loop data f = (True, f') \<and> vf_good f' \<and> vf_text f' = vf_text f @ data"
proof (induction data f rule: copy_loop.induct)
  case (1 data f)
  show ?case
  proof (cases "data = []")
    case False
    obtain f1 where f1: "fprintf (take 1024 data) f = (None, f1)" "vf_good f1" "vf_text f1 = vf_text f @ take 1024 data"
      using fprintf_good[OF 1(2)] by blast
    then obtain f' where "copy_loop (drop 1024 data) f1 = (True, f')" "vf_good f'"
        "vf_text f' = vf_text f1 @ drop 1024 data"
      using 1(1)[OF False] by auto
    then show ?thesis using False f1 by (subst copy_loop.simps) simp
  qed (use 1(2) in \<open>simp add: copy_loop.simps\<close>)
qed

text \<open>A write that fails ends the copy with an error.\<close>

lemma copy_loop_error:
  "copy_loop data f = (ok, f') \<Longrightarrow> \<exists>rest. data = take (length data - length rest) data @ rest
     \<and> vf_text f' = vf_text f @ take (length data - length rest) data \<and> (ok \<longleftrightarrow> rest = [])"
proof (induction data f rule: copy_loop.induct)
  case (1 data f)
  show ?case
  proof (cases "data = []")
    case False
    obtain r f1 where f1: "fprintf (take 1024 data) f = (r, f1)" by force
    show ?thesis
    proof (cases r)
      case None
      then have "copy_loop (drop 1024 data) f1 = (ok, f')"
        using 1(2) False f1 by (subst (asm) copy_loop.simps) simp
      then obtain rest where r: "drop 1024 data = take (length (drop 1024 data) - length rest) (drop 1024 data) @ rest"
          "vf_text f' = vf_text f1 @ take (length (drop 1024 data) - length rest) (drop 1024 data)" "ok \<longleftrightarrow> rest = []"
        using 1(1)[OF False f1[symmetric] None] by blast
      have t: "vf_text f1 = vf_text f @ take 1024 data"
        using f1 None by (auto simp: fprintf_def split: list.splits option.splits)
      let ?p = "take 1024 data @ take (length (drop 1024 data) - length rest) (drop 1024 data)"
      have d: "data = ?p @ rest" using r(1) by (metis append.assoc append_take_drop_id)
      then have "take (length data - length rest) data = ?p"
        by (metis add_diff_cancel_right' append_eq_conv_conj length_append)
      then show ?thesis using d r t by (intro exI[of _ rest]) simp
    next
      case (Some e)
      then have "ok = False" "f' = f1" using 1(2) False f1 by (subst (asm) copy_loop.simps, simp)+
      moreover have "vf_text f1 = vf_text f"
        using f1 Some by (auto simp: fprintf_def split: list.splits option.splits)
      ultimately show ?thesis using False by (intro exI[of _ data]) simp
    qed
  qed (use 1(2) in \<open>simp add: copy_loop.simps\<close>)
qed

subsection \<open>Properties\<close>

text \<open>
  C34. \<^verbatim>\<open>vcdId()\<close> never leaves its 16-byte buffer and gives the fiber id in radix 93: at least one and at
  most ten characters, all within 34 to 126 as the comment in the code promises, from which the id can be
  read back.
\<close>

theorem vcdId_roundtrip:
  assumes "ids_radix93 ids"
  shows "\<exists>s ids'. vcdId fiber ids = Some (s, ids') \<and> ids_radix93 ids' \<and> radix93_value s = unat fiber
    \<and> s \<noteq> [] \<and> length s \<le> 10 \<and> (\<forall>i < length s. vcd_char (s ! i))"
proof -
  have "unat fiber < 2 ^ 64" using unsigned_less[of fiber, where 'a = nat] by simp
  then have "length (radix93 (unat fiber)) \<le> 10" by (intro radix93_length) simp_all
  then show ?thesis using vcdId_ok[OF assms, of fiber] by (auto intro: radix93_chars[OF nth_mem])
qed

theorem vcdId_roundtrip_witness:
  "\<exists>s ids'. vcdId 8700 (\<lambda>_. None) = Some (s, ids') \<and> ids_radix93 ids' \<and> radix93_value s = 8700
    \<and> s \<noteq> [] \<and> length s \<le> 10 \<and> (\<forall>i < length s. vcd_char (s ! i))"
  using vcdId_roundtrip[where ids = "\<lambda>_. None" and fiber = 8700] by simp

text \<open>
  A log text reaches the file with every character but the last escaped when it is not printable; the
  last one is written as it is.
\<close>

theorem escape_loop_writes:
  assumes "NUL \<notin> set s" "s \<noteq> []" "vf_good f"
  shows "\<exists>cs f'. escape_loop (s @ [NUL]) 0 0 0 f = Some (None, cs, f') \<and> vf_good f'
    \<and> vf_text f' @ c_string_at (s @ [NUL]) cs
      = vf_text f @ concat (map escaped (butlast s)) @ [last s]"
  using escape_loop_text[OF assms] by (simp add: escaped_text_def)

theorem escape_loop_writes_witness:
  "\<exists>cs f'. escape_loop (''a b'' @ [NUL]) 0 0 0 \<lparr>vf_text = [], vf_plan = []\<rparr> = Some (None, cs, f') \<and> vf_good f'
    \<and> vf_text f' @ c_string_at (''a b'' @ [NUL]) cs = ''a'' @ [CHR 0x5C] @ ''x20b''"
  using escape_loop_writes[of "''a b''" "\<lparr>vf_text = [], vf_plan = []\<rparr>"]
  by (simp add: vf_good_def escaped_def printable_def escape_prefix_def hex02_def digit_def char_of_def bit_0)

text \<open>
  When no write fails and the data can be read, \<^verbatim>\<open>finalizeVCD()\<close> completes the file: the definitions, the
  separator, then all of the data, in chunks of 1024 bytes.
\<close>

theorem finalizeVCD_merges:
  assumes "m_vcd v = Some f" "m_vcdd v = Some d" "vf_good f"
  shows "\<exists>out. finalizeVCD None v = (E_OK, v\<lparr>m_vcd := None, m_vcdd := None\<rparr>, Some out)
    \<and> vf_text out = vf_text f @ ''$upscope $end'' @ newline @ ''$enddefinitions $end'' @ newline @ vf_text d"
proof -
  let ?sep = "''$upscope $end'' @ newline @ ''$enddefinitions $end'' @ newline"
  obtain f1 where f1: "fprintf ?sep f = (None, f1)" "vf_good f1" "vf_text f1 = vf_text f @ ?sep"
    using fprintf_good[OF assms(3)] by blast
  obtain f2 where "copy_loop (vf_text d) f1 = (True, f2)" "vf_text f2 = vf_text f1 @ vf_text d"
    using copy_loop_good[OF f1(2)] by blast
  then show ?thesis using assms f1 by (simp add: finalizeVCD_def)
qed

theorem finalizeVCD_merges_witness:
  "\<exists>out. finalizeVCD None \<lparr>m_vcd = Some \<lparr>vf_text = ''h'', vf_plan = []\<rparr>,
      m_vcdd = Some \<lparr>vf_text = ''d'', vf_plan = []\<rparr>, m_vcdIds = (\<lambda>_. None)\<rparr>
      = (E_OK, \<lparr>m_vcd = None, m_vcdd = None, m_vcdIds = (\<lambda>_. None)\<rparr>, Some out)
    \<and> vf_text out = ''h'' @ ''$upscope $end'' @ newline @ ''$enddefinitions $end'' @ newline @ ''d''"
  using finalizeVCD_merges[of "\<lparr>m_vcd = Some \<lparr>vf_text = ''h'', vf_plan = []\<rparr>,
      m_vcdd = Some \<lparr>vf_text = ''d'', vf_plan = []\<rparr>, m_vcdIds = (\<lambda>_. None)\<rparr>" "\<lparr>vf_text = ''h'', vf_plan = []\<rparr>"
      "\<lparr>vf_text = ''d'', vf_plan = []\<rparr>"]
  by (simp add: vf_good_def)

text \<open>
  \<^verbatim>\<open>startVCD()\<close> leaves both files open, or none and an error. As the result of \<^verbatim>\<open>snprintf()\<close> is tested the wrong
  way round, the output never gets the name that was just formatted.
\<close>

theorem startVCD_all_or_nothing:
  "(case startVCD junk env v of (e, v') \<Rightarrow>
      (e = E_OK) = (m_vcd v' \<noteq> None) \<and> (m_vcd v' = None) = (m_vcdd v' = None) \<and> m_vcdIds v' = m_vcdIds v)
   \<and> (case ve_snprintf env of Some name \<Rightarrow> vcdFilename junk env = ''zth.vcd'' | None \<Rightarrow> vcdFilename junk env = junk)"
  by (auto simp: startVCD_def vcdFilename_def Let_def split: sum.splits option.splits prod.splits)

end
