(* ===== verification/Zth_Perf.thy ===== *)
theory Zth_Perf
  imports Zth_Vcd Zth_Worker
begin

section \<open>The performance monitor\<close>

text \<open>
  \<^verbatim>\<open>include/libzth/perf.h\<close> and \<^verbatim>\<open>src/perf.cpp\<close>: the events, the buffer that collects them, and the fiber
  \<^verbatim>\<open>PerfFiber\<close> that turns them into a VCD file by means of \<open>Zth_Vcd\<close>.

  \<^item> An event of type \<^verbatim>\<open>FiberName\<close> or \<^verbatim>\<open>Log\<close> points to a string from \<^verbatim>\<open>strdup()\<close> or \<^verbatim>\<open>vasprintf()\<close>, in the heap
    \<open>p_heap\<close>; a null pointer is what a failed allocation leaves. A marker is a literal. Freeing or reading
    a string that is not in the heap is \<open>None\<close>.
  \<^item> \<^verbatim>\<open>Fiber::setState()\<close> reports the new state with \<^verbatim>\<open>perf_event()\<close>. When a full buffer makes
    \<^verbatim>\<open>flushEventBuffer()\<close> resume the suspended perf fiber, that report comes back to the buffer that is being
    flushed; \<open>perf_push\<close> and \<open>flushEventBuffer\<close> are therefore mutually recursive. The reports of
    the other state changes are calls of \<^verbatim>\<open>perf_event()\<close> like any other.
  \<^item> \<open>p_clock\<close> gives the answers of \<^verbatim>\<open>Timestamp::now()\<close>, one after the other.

  The modelled build has \<^verbatim>\<open>Config::EnablePerfEvent\<close>; \<open>p_enable\<close> is that constant. The exceptions of the
  containers (out of memory) are left out.
\<close>

subsection \<open>Data\<close>

datatype perf_type =
    Nothing
  | FiberName "addr option"
  | FiberState fstate
  | Log "addr option"
  | Marker "string option"

record PerfEvent =
  ev_t :: timespec
  ev_fiber :: "64 word"
  ev_type :: perf_type

type_synonym perf_heap = "addr \<Rightarrow> string option"

record perf_fiber =
  pf_vcd :: vcd
  pf_fiber :: "fid option"

record perf =
  p_enable :: bool
  p_buffer :: "PerfEvent list option"
  p_capacity :: nat
  p_heap :: perf_heap
  p_next :: addr
  p_fiber :: "perf_fiber option"
  p_worker :: worker
  p_id :: "fid \<Rightarrow> 64 word"
  p_startTime :: timespec
  p_clock :: "nat \<Rightarrow> timespec"
  p_tick :: nat

definition PerfEventBufferSize :: nat where
  "PerfEventBufferSize = 128"

definition PerfEventBufferThresholdToTriggerVCDWrite :: nat where
  "PerfEventBufferThresholdToTriggerVCDWrite = PerfEventBufferSize div 2"

definition perf_now :: "perf \<Rightarrow> timespec \<times> perf" where
  "perf_now p = (p_clock p (p_tick p), p\<lparr>p_tick := p_tick p + 1\<rparr>)"

subsection \<open>Strings on the heap\<close>

text \<open>\<^verbatim>\<open>strdup()\<close> and \<^verbatim>\<open>vasprintf()\<close>: a fresh copy, or null.\<close>

definition perf_strdup :: "bool \<Rightarrow> string \<Rightarrow> perf \<Rightarrow> addr option \<times> perf" where
  "perf_strdup ok s p =
     (if ok then (Some (p_next p), p\<lparr>p_heap := (p_heap p)(p_next p \<mapsto> s), p_next := p_next p + 1\<rparr>)
      else (None, p))"

definition heap_free :: "addr option \<Rightarrow> perf_heap \<Rightarrow> perf_heap option" where
  "heap_free a h = (case a of
     None \<Rightarrow> Some h
   | Some a \<Rightarrow> (case h a of None \<Rightarrow> None | Some _ \<Rightarrow> Some (h(a := None))))"

subsection \<open>Events\<close>

definition PerfEvent_name :: "bool \<Rightarrow> 64 word \<Rightarrow> string \<Rightarrow> perf \<Rightarrow> PerfEvent \<times> perf" where
  "PerfEvent_name ok fiber name p =
     (let (s, p) = perf_strdup ok name p
      in (\<lparr>ev_t = ts_null, ev_fiber = fiber, ev_type = FiberName s\<rparr>, p))"

definition PerfEvent_state :: "64 word \<Rightarrow> fstate \<Rightarrow> timespec \<Rightarrow> perf \<Rightarrow> PerfEvent \<times> perf" where
  "PerfEvent_state fiber x t p = (\<lparr>ev_t = t, ev_fiber = fiber, ev_type = FiberState x\<rparr>, p)"

definition PerfEvent_log :: "bool \<Rightarrow> 64 word \<Rightarrow> string \<Rightarrow> timespec \<Rightarrow> perf \<Rightarrow> PerfEvent \<times> perf" where
  "PerfEvent_log ok fiber text t p =
     (let (s, p) = perf_strdup ok text p
      in (\<lparr>ev_t = t, ev_fiber = fiber, ev_type = Log s\<rparr>, p))"

definition PerfEvent_marker :: "64 word \<Rightarrow> string option \<Rightarrow> timespec \<Rightarrow> perf \<Rightarrow> PerfEvent \<times> perf" where
  "PerfEvent_marker fiber marker t p = (\<lparr>ev_t = t, ev_fiber = fiber, ev_type = Marker marker\<rparr>, p)"

definition ev_release :: "PerfEvent \<Rightarrow> perf_heap \<Rightarrow> perf_heap option" where
  "ev_release e h = (case ev_type e of
     FiberName s \<Rightarrow> heap_free s h
   | Log s \<Rightarrow> heap_free s h
   | _ \<Rightarrow> Some h)"

subsection \<open>Writing events\<close>

definition write_vcd :: "string \<Rightarrow> vcd \<Rightarrow> (errno option \<times> vcd) option" where
  "write_vcd s v = do {
     f \<leftarrow> m_vcd v;
     let (r, f) = fprintf s f;
     Some (r, v\<lparr>m_vcd := Some f\<rparr>)
   }"

definition write_vcdd :: "string \<Rightarrow> vcd \<Rightarrow> (errno option \<times> vcd) option" where
  "write_vcdd s v = do {
     f \<leftarrow> m_vcdd v;
     let (r, f) = fprintf s f;
     Some (r, v\<lparr>m_vcdd := Some f\<rparr>)
   }"

definition vcd_ident :: "64 word \<Rightarrow> vcd \<Rightarrow> (string \<times> vcd) option" where
  "vcd_ident fiber v = do {
     (s, ids) \<leftarrow> vcdId fiber (m_vcdIds v);
     Some (s, v\<lparr>m_vcdIds := ids\<rparr>)
   }"

text \<open>The formats of the definitions of a named and of an unnamed fiber, and of a time stamp.\<close>

definition hash :: string where
  "hash = [CHR 0x5C, CHR ''#'']"

definition fmt_name :: "string \<Rightarrow> 64 word \<Rightarrow> string \<Rightarrow> string" where
  "fmt_name ident fiber str =
     ''$var wire 1 '' @ ident @ '' '' @ hash @ dec (unat fiber) @ ''_'' @ str @ '' $end'' @ newline
     @ ''$var real 0 '' @ ident @ ''! '' @ hash @ dec (unat fiber) @ ''_'' @ str @ ''/log $end'' @ newline"

definition fmt_noname :: "string \<Rightarrow> 64 word \<Rightarrow> string" where
  "fmt_noname ident fiber =
     ''$var wire 1 '' @ ident @ '' '' @ hash @ dec (unat fiber) @ ''_Fiber $end'' @ newline
     @ ''$var real 0 '' @ ident @ ''! '' @ hash @ dec (unat fiber) @ ''_Fiber_log $end'' @ newline"

definition fmt_stamp :: "timespec \<Rightarrow> string" where
  "fmt_stamp t = ''#'' @ dec (nat (tv_sec t)) @ dec09 (nat (tv_nsec t)) @ newline"

definition state_char :: "fstate \<Rightarrow> char" where
  "state_char x = (case x of
     New \<Rightarrow> CHR ''L'' | Ready \<Rightarrow> CHR ''0'' | Running \<Rightarrow> CHR ''1'' | Waiting \<Rightarrow> CHR ''W''
   | Suspended \<Rightarrow> CHR ''Z'' | Dead \<Rightarrow> CHR ''X'' | Uninitialized \<Rightarrow> CHR ''-'')"

text \<open>The common code of \<^verbatim>\<open>Log\<close> and \<^verbatim>\<open>Marker\<close>; \<open>s\<close> is the text without its terminator.\<close>

definition write_text :: "timespec \<Rightarrow> 64 word \<Rightarrow> string \<Rightarrow> vcd \<Rightarrow> (errno option \<times> vcd) option" where
  "write_text t fiber s v = do {
     (r, v) \<leftarrow> write_vcdd (fmt_stamp t @ ''s'') v;
     if r \<noteq> None then Some (r, v)
     else do {
       f \<leftarrow> m_vcdd v;
       (r, chunkStart, f) \<leftarrow> escape_loop (s @ [NUL]) 0 0 0 f;
       let v = v\<lparr>m_vcdd := Some f\<rparr>;
       if r \<noteq> None then Some (r, v)
       else do {
         (ident, v) \<leftarrow> vcd_ident fiber v;
         write_vcdd (c_string_at (s @ [NUL]) chunkStart @ '' '' @ ident @ ''!'' @ newline) v
       }
     }
   }"

text \<open>The body of the loop over the events: \<open>Some e\<close> is the jump to \<^verbatim>\<open>write_error\<close>.\<close>

definition process_event :: "timespec \<Rightarrow> PerfEvent \<Rightarrow> vcd \<Rightarrow> perf_heap
    \<Rightarrow> (errno option \<times> vcd \<times> perf_heap) option" where
  "process_event startTime e v h =
     (let t = m_t (ts_diff (ev_t e) startTime)
      in case ev_type e of
        FiberName (Some a) \<Rightarrow> do {
          s \<leftarrow> h a;
          let s = sanitize s;
          (ident, v) \<leftarrow> vcd_ident (ev_fiber e) v;
          (r, v) \<leftarrow> write_vcd (fmt_name ident (ev_fiber e) s) v;
          Some (r, v, h(a \<mapsto> s))
        }
      | FiberName None \<Rightarrow> do {
          (ident, v) \<leftarrow> vcd_ident (ev_fiber e) v;
          (r, v) \<leftarrow> write_vcd (fmt_noname ident (ev_fiber e)) v;
          Some (r, v, h)
        }
      | FiberState x \<Rightarrow> do {
          (ident, v) \<leftarrow> vcd_ident (ev_fiber e) v;
          (r, v) \<leftarrow> write_vcdd (fmt_stamp t @ [state_char x] @ ident @ newline) v;
          if r = None \<and> x = Uninitialized
          then Some (r, v\<lparr>m_vcdIds := vcdIdRelease (ev_fiber e) (m_vcdIds v)\<rparr>, h)
          else Some (r, v, h)
        }
      | Log (Some a) \<Rightarrow> do {
          s \<leftarrow> h a;
          (r, v) \<leftarrow> write_text t (ev_fiber e) s v;
          Some (r, v, h)
        }
      | Marker (Some s) \<Rightarrow> do {
          (r, v) \<leftarrow> write_text t (ev_fiber e) s v;
          Some (r, v, h)
        }
      | _ \<Rightarrow> Some (None, v, h))"

fun process_events :: "timespec \<Rightarrow> PerfEvent list \<Rightarrow> vcd \<Rightarrow> perf_heap
    \<Rightarrow> (errno option \<times> vcd \<times> perf_heap) option" where
  "process_events startTime [] v h = Some (None, v, h)"
| "process_events startTime (e # es) v h = do {
     (r, v, h) \<leftarrow> process_event startTime e v h;
     if r \<noteq> None then Some (r, v, h) else process_events startTime es v h
   }"

fun release_events :: "PerfEvent list \<Rightarrow> perf_heap \<Rightarrow> perf_heap option" where
  "release_events [] h = Some h"
| "release_events (e # es) h = do { h \<leftarrow> ev_release e h; release_events es h }"

definition processEventBuffer :: "perf \<Rightarrow> (errno \<times> perf) option" where
  "processEventBuffer p = do {
     pf \<leftarrow> p_fiber p;
     eb \<leftarrow> p_buffer p;
     let v = pf_vcd pf;
     (res, v, h) \<leftarrow>
       (if m_vcdd v = None \<or> m_vcd v = None then Some (EAGAIN, v, p_heap p)
        else do {
          (r, v, h) \<leftarrow> process_events (p_startTime p) eb v (p_heap p);
          Some (case r of None \<Rightarrow> E_OK | Some e \<Rightarrow> if e = E_OK then EIO else e, v, h)
        });
     h \<leftarrow> release_events eb h;
     Some (res, p\<lparr>p_buffer := Some [], p_heap := h, p_fiber := Some (pf\<lparr>pf_vcd := v\<rparr>)\<rparr>)
   }"

subsection \<open>Collecting events\<close>

text \<open>
  The buffer is a \<^verbatim>\<open>std::vector\<close> with 128 elements reserved: \<^verbatim>\<open>push_back()\<close> and \<^verbatim>\<open>emplace_back()\<close> allocate a larger one when there is no room left.
\<close>

definition vec_push :: "PerfEvent \<Rightarrow> PerfEvent list \<Rightarrow> perf \<Rightarrow> perf" where
  "vec_push e b p = p\<lparr>p_buffer := Some (b @ [e]), p_capacity := (if length b < p_capacity p then p_capacity p else length b + 1)\<rparr>"

definition push_event :: "PerfEvent \<Rightarrow> perf \<Rightarrow> perf option" where
  "push_event e p = do { b \<leftarrow> p_buffer p; Some (vec_push e b p) }"

text \<open>
  The last part of \<^verbatim>\<open>flushEventBuffer()\<close>, with room for exactly three events: record a switch to the perf
  fiber \<open>f\<close>, process the buffer on the stack of the current fiber \<open>c\<close>, and record the switch back.
\<close>

definition emergency_flush :: "fid \<Rightarrow> fid \<Rightarrow> perf \<Rightarrow> perf option" where
  "emergency_flush f c p = do {
     let (t, p) = perf_now p;
     p \<leftarrow> push_event \<lparr>ev_t = t, ev_fiber = p_id p f, ev_type = Marker (Some ''Emerg flush'')\<rparr> p;
     p \<leftarrow> push_event \<lparr>ev_t = t, ev_fiber = p_id p c, ev_type = FiberState Ready\<rparr> p;
     p \<leftarrow> push_event \<lparr>ev_t = t, ev_fiber = p_id p f, ev_type = FiberState Running\<rparr> p;
     (_, p) \<leftarrow> processEventBuffer p;
     let (t, p) = perf_now p;
     p \<leftarrow> push_event \<lparr>ev_t = t, ev_fiber = p_id p f, ev_type = FiberState (st (p_worker p) f)\<rparr> p;
     push_event \<lparr>ev_t = t, ev_fiber = p_id p c, ev_type = FiberState (st (p_worker p) c)\<rparr> p
   }"

definition perf_suspended :: "perf \<Rightarrow> bool" where
  "perf_suspended p = (case p_fiber p of
     None \<Rightarrow> False
   | Some pf \<Rightarrow> (case pf_fiber pf of None \<Rightarrow> False | Some f \<Rightarrow> st (p_worker p) f = Suspended))"

text \<open>
  \<open>perf_push\<close> is \<^verbatim>\<open>perf_event()\<close> from the point where the event has been constructed in the buffer,
  \<open>flushEventBuffer\<close> is \<^verbatim>\<open>perf_flushEventBuffer()\<close> with the method it calls.
\<close>

function perf_push :: "PerfEvent \<Rightarrow> perf \<Rightarrow> perf option"
  and flushEventBuffer :: "perf \<Rightarrow> perf option" where
  "perf_push e p = (case p_buffer p of
     None \<Rightarrow> None
   | Some b \<Rightarrow>
       if length b + 1 > PerfEventBufferSize then None
       else if length b + 1 \<ge> PerfEventBufferThresholdToTriggerVCDWrite
         then flushEventBuffer (vec_push e b p)
         else Some (vec_push e b p))"
| "flushEventBuffer p = (case (p_fiber p, p_buffer p) of
     (None, _) \<Rightarrow> Some p
   | (_, None) \<Rightarrow> None
   | (Some pf, Some b) \<Rightarrow>
       let spareRoom = p_capacity p - length b; w = p_worker p
       in case pf_fiber pf of
         None \<Rightarrow> map_option snd (processEventBuffer p)
       | Some f \<Rightarrow>
           if m_currentFiber w = Some f \<or> spareRoom < 3 then map_option snd (processEventBuffer p)
           else if spareRoom > 3 then
             (if st w f \<noteq> Suspended then Some p
              else do {
                w \<leftarrow> release f w;
                let w = upd_fiber f resume w;
                p \<leftarrow> (if st w f = Suspended then Some (p\<lparr>p_worker := w\<rparr>)
                   else let (t, p) = perf_now p
                     in perf_push \<lparr>ev_t = t, ev_fiber = p_id p f, ev_type = FiberState (st w f)\<rparr> (p\<lparr>p_worker := w\<rparr>));
                w \<leftarrow> add f False (p_worker p);
                Some (p\<lparr>p_worker := w\<rparr>)
              })
           else (case m_currentFiber w of
               None \<Rightarrow> map_option snd (processEventBuffer p)
             | Some c \<Rightarrow> emergency_flush f c p))"
  by pat_completeness auto

termination
  by (relation "measure (\<lambda>x. case x of Inl (e, p) \<Rightarrow> if perf_suspended p then 3 else 1
      | Inr p \<Rightarrow> if perf_suspended p then 2 else 0)")
    (auto simp: perf_suspended_def perf_now_def vec_push_def dest!: sym[of "Some _"] split: option.splits)

declare perf_push.simps [simp del] flushEventBuffer.simps [simp del]

text \<open>
  \<^verbatim>\<open>perf_event()\<close>: the argument \<open>mkev\<close> is the constructor of \<^verbatim>\<open>PerfEvent\<close> that the arguments select. With C++11
  it runs in the buffer, so only when there is one; \<open>perf_event98\<close> is the variant for older compilers, which
  gets a finished event and has to release it when there is no buffer.
\<close>

definition perf_event :: "(perf \<Rightarrow> PerfEvent \<times> perf) \<Rightarrow> perf \<Rightarrow> perf option" where
  "perf_event mkev p =
     (if \<not> p_enable p \<or> p_buffer p = None then Some p
      else let (e, p) = mkev p in perf_push e p)"

definition perf_event98 :: "(perf \<Rightarrow> PerfEvent \<times> perf) \<Rightarrow> perf \<Rightarrow> perf option" where
  "perf_event98 mkev p =
     (let (e, p) = mkev p
      in if \<not> p_enable p \<or> p_buffer p = None
         then do { h \<leftarrow> ev_release e (p_heap p); Some (p\<lparr>p_heap := h\<rparr>) }
         else perf_push e p)"

definition perf_mark :: "64 word \<Rightarrow> string option \<Rightarrow> perf \<Rightarrow> perf option" where
  "perf_mark cur marker p =
     (if p_enable p then perf_event (\<lambda>p. let (t, p) = perf_now p in PerfEvent_marker cur marker t p) p
      else Some p)"

text \<open>\<^verbatim>\<open>perf_log()\<close> and \<^verbatim>\<open>perf_logv()\<close>; \<open>text\<close> is what \<^verbatim>\<open>vasprintf()\<close> makes of the arguments, if it succeeds.\<close>

definition perf_logv :: "64 word \<Rightarrow> string option \<Rightarrow> perf \<Rightarrow> perf option" where
  "perf_logv cur text p =
     (if p_enable p
      then perf_event (\<lambda>p. let (t, p) = perf_now p in
             PerfEvent_log (text \<noteq> None) cur (case text of None \<Rightarrow> [] | Some s \<Rightarrow> s) t p) p
      else Some p)"

definition perf_syscall :: "bool \<Rightarrow> 64 word \<Rightarrow> string option \<Rightarrow> timespec \<Rightarrow> perf \<Rightarrow> perf option" where
  "perf_syscall PerfSyscall cur syscall t p =
     (if p_enable p \<and> PerfSyscall
      then perf_event (\<lambda>p. let (now, p) = (if ts_isNull t then perf_now p else (t, p))
             in PerfEvent_marker cur syscall now p) p
      else Some p)"

subsection \<open>The perf fiber\<close>

text \<open>
  The body of the loop of \<^verbatim>\<open>entry()\<close>: \<open>Inl\<close> is the return that ends the fiber, otherwise control is where the
  suspension of the fiber leads to.
\<close>

definition perf_entry_step :: "run_env \<Rightarrow> timespec \<Rightarrow> perf \<Rightarrow> (errno + sched_result \<times> perf) option" where
  "perf_entry_step env now p = do {
     (res, p) \<leftarrow> processEventBuffer p;
     if res \<noteq> E_OK then Some (Inl res)
     else do {
       pf \<leftarrow> p_fiber p;
       f \<leftarrow> pf_fiber pf;
       (r, w) \<leftarrow> worker_suspend env f now (p_worker p);
       Some (Inr (r, p\<lparr>p_worker := w\<rparr>))
     }
   }"

text \<open>The destructor of \<^verbatim>\<open>PerfFiber\<close>; the result has the completed file, if it got that far.\<close>

definition PerfFiber_dtor :: "nat option \<Rightarrow> perf \<Rightarrow> (vcdfile option \<times> perf) option" where
  "PerfFiber_dtor readable p = do {
     (res, p) \<leftarrow> processEventBuffer p;
     pf \<leftarrow> p_fiber p;
     let out = (if res = E_OK then snd (snd (finalizeVCD readable (pf_vcd pf))) else None);
     h \<leftarrow> (case p_buffer p of None \<Rightarrow> Some (p_heap p) | Some b \<Rightarrow> release_events b (p_heap p));
     Some (out, p\<lparr>p_buffer := None, p_heap := h, p_fiber := None\<rparr>)
   }"

definition perf_deinit :: "nat option \<Rightarrow> perf \<Rightarrow> (vcdfile option \<times> perf) option" where
  "perf_deinit readable p =
     (if \<not> p_enable p then do { zth_assert (p_fiber p = None); Some (None, p) }
      else if p_fiber p = None then Some (None, p)
      else PerfFiber_dtor readable p)"

text \<open>
  \<^verbatim>\<open>Runnable::run()\<close> on the perf fiber with the worker of the thread: \<open>f\<close> is the address of the new fiber,
  \<open>cfg\<close> the configured stack size and time slice. Its constructor reports the state \<^verbatim>\<open>New\<close>; \<open>hook\<close> names
  \<^verbatim>\<open>cleanup_\<close>.
\<close>

fun perf_run :: "fid \<Rightarrow> nat \<times> TimeInterval \<times> TimeInterval \<Rightarrow> nat \<Rightarrow> perf \<Rightarrow> (errno \<times> perf) option" where
  "perf_run f (stackSize, timeslice, dtMax) hook p = do {
     pf \<leftarrow> p_fiber p;
     if pf_fiber pf \<noteq> None then Some (EALREADY, p)
     else do {
       fb \<leftarrow> Fiber False stackSize timeslice dtMax;
       let p = p\<lparr>p_worker := upd_fiber f (\<lambda>_. fb) (p_worker p)\<rparr>;
       p \<leftarrow> perf_event (\<lambda>p. let (t, p) = perf_now p in PerfEvent_state (p_id p f) New t p) p;
       pf \<leftarrow> p_fiber p;
       let p = p\<lparr>p_worker := upd_fiber f (atCleanup hook None) (p_worker p), p_fiber := Some (pf\<lparr>pf_fiber := Some f\<rparr>)\<rparr>;
       w \<leftarrow> add f False (p_worker p);
       Some (E_OK, p\<lparr>p_worker := w\<rparr>)
     }
   }"

definition perf_init :: "bool \<Rightarrow> string \<Rightarrow> vcd_env \<Rightarrow> fid \<Rightarrow> nat \<times> TimeInterval \<times> TimeInterval \<Rightarrow> nat \<Rightarrow> perf \<Rightarrow> (errno \<times> perf) option" where
  "perf_init DoPerfEvent junk env f cfg hook p =
     (if \<not> p_enable p \<or> \<not> DoPerfEvent then Some (E_OK, p)
      else let v = snd (startVCD junk env \<lparr>m_vcd = None, m_vcdd = None, m_vcdIds = (\<lambda>_. None)\<rparr>)
        in perf_run f cfg hook (p\<lparr>p_buffer := Some [], p_capacity := PerfEventBufferSize,
             p_fiber := Some \<lparr>pf_vcd = v, pf_fiber = None\<rparr>\<rparr>))"

subsection \<open>Ownership of the strings\<close>

definition ev_owned :: "PerfEvent \<Rightarrow> addr list" where
  "ev_owned e = (case ev_type e of FiberName (Some a) \<Rightarrow> [a] | Log (Some a) \<Rightarrow> [a] | _ \<Rightarrow> [])"

abbreviation owned :: "PerfEvent list \<Rightarrow> addr list" where
  "owned b \<equiv> concat (map ev_owned b)"

text \<open>A text that may be written: the code cannot handle an empty one.\<close>

definition text_ok :: "string \<Rightarrow> bool" where
  "text_ok s \<longleftrightarrow> s \<noteq> [] \<and> NUL \<notin> set s"

definition ev_ok :: "perf_heap \<Rightarrow> PerfEvent \<Rightarrow> bool" where
  "ev_ok h e \<longleftrightarrow> (case ev_type e of
     FiberName (Some a) \<Rightarrow> h a \<noteq> None
   | Log (Some a) \<Rightarrow> (case h a of None \<Rightarrow> False | Some s \<Rightarrow> text_ok s)
   | Marker (Some s) \<Rightarrow> text_ok s
   | _ \<Rightarrow> True)"

text \<open>Every string of the heap belongs to exactly one event of the buffer.\<close>

definition heap_ok :: "PerfEvent list \<Rightarrow> perf_heap \<Rightarrow> bool" where
  "heap_ok b h \<longleftrightarrow> distinct (owned b) \<and> dom h = set (owned b) \<and> (\<forall>e \<in> set b. ev_ok h e)"

definition v_open :: "vcd \<Rightarrow> bool" where
  "v_open v \<longleftrightarrow> m_vcd v \<noteq> None \<and> m_vcdd v \<noteq> None"

lemma sanitize_text_ok: "text_ok s \<Longrightarrow> text_ok (sanitize s)"
  by (auto simp: text_ok_def sanitize_def)

lemma ev_ok_mono:
  "ev_ok h x \<Longrightarrow> h a = Some s \<Longrightarrow> ev_ok (h(a \<mapsto> sanitize s)) x"
  by (auto simp: ev_ok_def sanitize_text_ok split: perf_type.splits option.splits)

lemma write_vcd_ok: "v_open v \<Longrightarrow> \<exists>r f. write_vcd s v = Some (r, v\<lparr>m_vcd := Some f\<rparr>)"
  by (auto simp: write_vcd_def v_open_def split: prod.splits)

lemma write_vcdd_ok: "v_open v \<Longrightarrow> \<exists>r f. write_vcdd s v = Some (r, v\<lparr>m_vcdd := Some f\<rparr>)"
  by (auto simp: write_vcdd_def v_open_def split: prod.splits)

lemma vcd_ident_ok:
  assumes "ids_radix93 (m_vcdIds v)"
  shows "\<exists>ids. vcd_ident fiber v = Some (radix93 (unat fiber), v\<lparr>m_vcdIds := ids\<rparr>) \<and> ids_radix93 ids"
  using vcdId_ok[OF assms, of fiber] by (auto simp: vcd_ident_def)

lemma v_open_upd [simp]:
  "v_open (v\<lparr>m_vcdIds := ids\<rparr>) = v_open v"
  "v_open v \<Longrightarrow> v_open (v\<lparr>m_vcd := Some f\<rparr>)"
  "v_open v \<Longrightarrow> v_open (v\<lparr>m_vcdd := Some f\<rparr>)"
  by (simp_all add: v_open_def)

definition vcd_inv :: "vcd \<Rightarrow> bool" where
  "vcd_inv v \<longleftrightarrow> v_open v \<and> ids_radix93 (m_vcdIds v)"

lemma write_text_ok:
  assumes "vcd_inv v" "text_ok s"
  shows "\<exists>r v'. write_text t fiber s v = Some (r, v') \<and> vcd_inv v'"
proof -
  have v: "v_open v" "ids_radix93 (m_vcdIds v)" using assms(1) by (auto simp: vcd_inv_def)
  obtain r1 f1 where 1: "write_vcdd (fmt_stamp t @ ''s'') v = Some (r1, v\<lparr>m_vcdd := Some f1\<rparr>)"
    using write_vcdd_ok[OF v(1)] by blast
  obtain r2 cs f2 where 2: "escape_loop (s @ [NUL]) 0 0 0 f1 = Some (r2, cs, f2)"
    using escape_loop_defined[of s 0 0 0 f1] assms(2) by (auto simp: text_ok_def)
  obtain ids where 3: "vcd_ident fiber (v\<lparr>m_vcdd := Some f2\<rparr>)
      = Some (radix93 (unat fiber), v\<lparr>m_vcdd := Some f2, m_vcdIds := ids\<rparr>)" "ids_radix93 ids"
    using vcd_ident_ok[of "v\<lparr>m_vcdd := Some f2\<rparr>" fiber] v(2) by auto
  obtain r3 f3 where 4: "write_vcdd (c_string_at (s @ [NUL]) cs @ '' '' @ radix93 (unat fiber) @ ''!'' @ newline)
      (v\<lparr>m_vcdd := Some f2, m_vcdIds := ids\<rparr>) = Some (r3, v\<lparr>m_vcdd := Some f2, m_vcdIds := ids\<rparr>\<lparr>m_vcdd := Some f3\<rparr>)"
    using write_vcdd_ok[of "v\<lparr>m_vcdd := Some f2, m_vcdIds := ids\<rparr>"] v(1) by fastforce
  show ?thesis
    using 1 2 3 4 v by (auto simp: write_text_def vcd_inv_def Let_def)
qed

lemma process_event_ok:
  assumes "vcd_inv v" "ev_ok h e"
  shows "\<exists>r v' h'. process_event t0 e v h = Some (r, v', h') \<and> vcd_inv v' \<and> dom h' = dom h
    \<and> (\<forall>x. ev_ok h x \<longrightarrow> ev_ok h' x)"
proof -
  have v: "v_open v" "ids_radix93 (m_vcdIds v)" using assms(1) by (auto simp: vcd_inv_def)
  obtain ids where 1: "vcd_ident (ev_fiber e) v = Some (radix93 (unat (ev_fiber e)), v\<lparr>m_vcdIds := ids\<rparr>)"
      "ids_radix93 ids"
    using vcd_ident_ok[OF v(2)] by blast
  have vo: "v_open (v\<lparr>m_vcdIds := ids\<rparr>)" using v(1) by simp
  show ?thesis
  proof (cases "ev_type e")
    case (FiberName a)
    show ?thesis
    proof (cases a)
      case None
      obtain r f where "write_vcd (fmt_noname (radix93 (unat (ev_fiber e))) (ev_fiber e)) (v\<lparr>m_vcdIds := ids\<rparr>)
          = Some (r, v\<lparr>m_vcdIds := ids\<rparr>\<lparr>m_vcd := Some f\<rparr>)"
        using write_vcd_ok[OF vo] by blast
      then show ?thesis using FiberName None 1 vo by (simp add: process_event_def vcd_inv_def)
    next
      case (Some b)
      then obtain s where s: "h b = Some s" using assms(2) FiberName by (auto simp: ev_ok_def)
      obtain r f where "write_vcd (fmt_name (radix93 (unat (ev_fiber e))) (ev_fiber e) (sanitize s)) (v\<lparr>m_vcdIds := ids\<rparr>)
          = Some (r, v\<lparr>m_vcdIds := ids\<rparr>\<lparr>m_vcd := Some f\<rparr>)"
        using write_vcd_ok[OF vo] by blast
      then show ?thesis using FiberName Some 1 vo s
        by (auto simp: process_event_def vcd_inv_def intro: ev_ok_mono)
    qed
  next
    case (FiberState x)
    obtain r f where "write_vcdd (fmt_stamp (m_t (ts_diff (ev_t e) t0)) @ [state_char x] @ radix93 (unat (ev_fiber e)) @ newline)
        (v\<lparr>m_vcdIds := ids\<rparr>) = Some (r, v\<lparr>m_vcdIds := ids\<rparr>\<lparr>m_vcdd := Some f\<rparr>)"
      using write_vcdd_ok[OF vo] by blast
    then show ?thesis using FiberState 1 vo vcdIdRelease_ok[OF 1(2)]
      by (auto simp: process_event_def vcd_inv_def)
  next
    case (Log a)
    show ?thesis
    proof (cases a)
      case (Some b)
      then obtain s where s: "h b = Some s" "text_ok s"
        using assms(2) Log by (auto simp: ev_ok_def split: option.splits)
      then show ?thesis using Log Some write_text_ok[OF assms(1) s(2), of "m_t (ts_diff (ev_t e) t0)" "ev_fiber e"]
        by (auto simp: process_event_def)
    qed (use Log assms in \<open>simp add: process_event_def\<close>)
  next
    case (Marker s)
    show ?thesis
    proof (cases s)
      case (Some b)
      then have "text_ok b" using assms(2) Marker by (simp add: ev_ok_def)
      then show ?thesis using Marker Some write_text_ok[OF assms(1), of b "m_t (ts_diff (ev_t e) t0)" "ev_fiber e"]
        by (auto simp: process_event_def)
    qed (use Marker assms in \<open>simp add: process_event_def\<close>)
  qed (use assms in \<open>simp add: process_event_def\<close>)
qed

lemma process_events_ok:
  "vcd_inv v \<Longrightarrow> \<forall>e \<in> set es. ev_ok h e \<Longrightarrow>
   \<exists>r v' h'. process_events t0 es v h = Some (r, v', h') \<and> vcd_inv v' \<and> dom h' = dom h"
proof (induction es arbitrary: v h)
  case (Cons e es)
  obtain r v1 h1 where 1: "process_event t0 e v h = Some (r, v1, h1)" "vcd_inv v1" "dom h1 = dom h"
      "\<forall>x. ev_ok h x \<longrightarrow> ev_ok h1 x"
    using process_event_ok[OF Cons.prems(1), of h e t0] Cons.prems(2) by auto
  then show ?case using Cons.IH[of v1 h1] Cons.prems(2) by (cases r) auto
qed simp

lemma heap_free_ok: "h a \<noteq> None \<Longrightarrow> heap_free (Some a) h = Some (h(a := None))"
  by (auto simp: heap_free_def)

lemma ev_release_ok:
  assumes "set (ev_owned e) \<subseteq> dom h"
  shows "\<exists>h'. ev_release e h = Some h' \<and> dom h' = dom h - set (ev_owned e)"
proof (cases "ev_type e")
  case (FiberName a)
  then show ?thesis using assms by (cases a) (auto simp: ev_release_def ev_owned_def heap_free_def)
next
  case (Log a)
  then show ?thesis using assms by (cases a) (auto simp: ev_release_def ev_owned_def heap_free_def)
qed (simp_all add: ev_release_def ev_owned_def split: option.splits)

lemma release_events_ok:
  "distinct (owned b) \<Longrightarrow> set (owned b) \<subseteq> dom h \<Longrightarrow>
   \<exists>h'. release_events b h = Some h' \<and> dom h' = dom h - set (owned b)"
proof (induction b arbitrary: h)
  case (Cons e b)
  obtain h1 where 1: "ev_release e h = Some h1" "dom h1 = dom h - set (ev_owned e)"
    using ev_release_ok[of e h] Cons.prems(2) by auto
  have "set (owned b) \<subseteq> dom h1" using Cons.prems 1(2) by auto
  then obtain h2 where "release_events b h1 = Some h2" "dom h2 = dom h1 - set (owned b)"
    using Cons.IH[of h1] Cons.prems(1) by auto
  then show ?case using 1 by auto
qed simp

subsection \<open>The invariant of the buffer\<close>

definition buf_len :: "perf \<Rightarrow> nat" where
  "buf_len p = (case p_buffer p of None \<Rightarrow> 0 | Some b \<Rightarrow> length b)"

definition buf_inv :: "perf \<Rightarrow> bool" where
  "buf_inv p \<longleftrightarrow> p_capacity p = PerfEventBufferSize \<and> (\<forall>a. p_heap p a \<noteq> None \<longrightarrow> a < p_next p)
     \<and> (case (p_buffer p, p_fiber p) of
          (Some b, Some pf) \<Rightarrow> heap_ok b (p_heap p) \<and> ids_radix93 (m_vcdIds (pf_vcd pf))
        | _ \<Rightarrow> False)"

text \<open>What collecting and processing events leaves alone.\<close>

definition perf_frame :: "perf \<Rightarrow> perf \<Rightarrow> bool" where
  "perf_frame p p' \<longleftrightarrow> p_enable p' = p_enable p \<and> p_capacity p' = p_capacity p \<and> p_id p' = p_id p
     \<and> p_startTime p' = p_startTime p \<and> p_clock p' = p_clock p
     \<and> map_option pf_fiber (p_fiber p') = map_option pf_fiber (p_fiber p)"

lemma perf_frame_refl [simp]: "perf_frame p p"
  by (simp add: perf_frame_def)

lemma perf_frame_trans: "perf_frame p q \<Longrightarrow> perf_frame q r \<Longrightarrow> perf_frame p r"
  by (simp add: perf_frame_def)

lemma perf_frame_upd [simp]:
  "perf_frame p (p\<lparr>p_buffer := b\<rparr>)" "perf_frame p (p\<lparr>p_tick := n\<rparr>)" "perf_frame p (p\<lparr>p_worker := w\<rparr>)"
  "perf_frame p (p\<lparr>p_heap := h\<rparr>)"
  by (simp_all add: perf_frame_def)

lemma buf_invE:
  assumes "buf_inv p"
  obtains b pf where "p_buffer p = Some b" "p_fiber p = Some pf" "heap_ok b (p_heap p)"
    "ids_radix93 (m_vcdIds (pf_vcd pf))"
  using assms by (auto simp: buf_inv_def split: option.splits)

lemma buf_inv_upd [simp]:
  "buf_inv (p\<lparr>p_worker := w\<rparr>) = buf_inv p" "buf_inv (p\<lparr>p_tick := n\<rparr>) = buf_inv p"
  "buf_len (p\<lparr>p_worker := w\<rparr>) = buf_len p" "buf_len (p\<lparr>p_tick := n\<rparr>) = buf_len p"
  by (simp_all add: buf_inv_def buf_len_def split: option.splits)

text \<open>An event that owns no string can be appended as it is.\<close>

lemma heap_ok_append: "heap_ok b h \<Longrightarrow> ev_owned e = [] \<Longrightarrow> ev_ok h e \<Longrightarrow> heap_ok (b @ [e]) h"
  by (simp add: heap_ok_def)

lemma buf_inv_append:
  assumes "buf_inv p" "p_buffer p = Some b" "ev_owned e = []" "ev_ok (p_heap p) e"
  shows "buf_inv (p\<lparr>p_buffer := Some (b @ [e])\<rparr>)"
  using assms by (auto simp: buf_inv_def intro: heap_ok_append split: option.splits)

lemma vec_push_room: "length b < p_capacity p \<Longrightarrow> vec_push e b p = p\<lparr>p_buffer := Some (b @ [e])\<rparr>"
  by (simp add: vec_push_def)

text \<open>Processing never fails to release: afterwards the buffer is empty and no string is left.\<close>

lemma processEventBuffer_ok:
  assumes "buf_inv p"
  shows "\<exists>res p'. processEventBuffer p = Some (res, p') \<and> buf_inv p' \<and> p_buffer p' = Some []
    \<and> p_heap p' = (\<lambda>_. None) \<and> perf_frame p p' \<and> p_worker p' = p_worker p"
proof -
  obtain b pf where p: "p_buffer p = Some b" "p_fiber p = Some pf" "heap_ok b (p_heap p)"
      "ids_radix93 (m_vcdIds (pf_vcd pf))"
    using buf_invE[OF assms] .
  have c: "p_capacity p = PerfEventBufferSize" using assms by (simp add: buf_inv_def)
  let ?v = "pf_vcd pf"
  let ?run = "if m_vcdd ?v = None \<or> m_vcd ?v = None then Some (EAGAIN, ?v, p_heap p)
        else do {
          (r, v, h) \<leftarrow> process_events (p_startTime p) b ?v (p_heap p);
          Some (case r of None \<Rightarrow> E_OK | Some e \<Rightarrow> if e = E_OK then EIO else e, v, h)
        }"
  have "\<exists>res v h. ?run = Some (res, v, h) \<and> ids_radix93 (m_vcdIds v) \<and> dom h = dom (p_heap p)"
  proof (cases "m_vcdd ?v = None \<or> m_vcd ?v = None")
    case False
    then have "vcd_inv ?v" using p(4) by (simp add: vcd_inv_def v_open_def)
    then show ?thesis using False process_events_ok[of ?v b "p_heap p" "p_startTime p"] p(3)
      by (auto simp: heap_ok_def vcd_inv_def)
  qed (use p(4) in simp)
  then obtain res v h where 1: "?run = Some (res, v, h)" "ids_radix93 (m_vcdIds v)" "dom h = dom (p_heap p)"
    by blast
  obtain h' where 2: "release_events b h = Some h'" "dom h' = {}"
    using release_events_ok[of b h] 1(3) p(3) by (auto simp: heap_ok_def)
  let ?p = "p\<lparr>p_buffer := Some [], p_heap := h', p_fiber := Some (pf\<lparr>pf_vcd := v\<rparr>)\<rparr>"
  have "processEventBuffer p = Some (res, ?p)"
    using p 1(1) 2(1) by (simp add: processEventBuffer_def Let_def)
  moreover have "h' = (\<lambda>_. None)" using 2(2) by (simp add: dom_eq_empty_conv)
  ultimately show ?thesis
    using 1(2) c p by (simp add: buf_inv_def heap_ok_def perf_frame_def)
qed

lemma push_event_ok:
  assumes "buf_inv p" "ev_owned e = []" "ev_ok (p_heap p) e" "buf_len p < 128"
  shows "\<exists>p'. push_event e p = Some p' \<and> buf_inv p' \<and> buf_len p' = buf_len p + 1 \<and> perf_frame p p'
    \<and> p_worker p' = p_worker p \<and> p_heap p' = p_heap p"
proof -
  obtain b pf where b: "p_buffer p = Some b" using buf_invE[OF assms(1)] .
  then have "vec_push e b p = p\<lparr>p_buffer := Some (b @ [e])\<rparr>"
    using assms(1,4) by (intro vec_push_room) (simp add: buf_inv_def buf_len_def PerfEventBufferSize_def)
  then show ?thesis
    using buf_inv_append[OF assms(1) b assms(2,3)] b by (simp add: push_event_def buf_len_def)
qed

text \<open>The two kinds of event that the code writes into the buffer itself.\<close>

definition plain_event :: "perf_type \<Rightarrow> bool" where
  "plain_event x \<longleftrightarrow> (case x of FiberState _ \<Rightarrow> True | Marker (Some s) \<Rightarrow> text_ok s | _ \<Rightarrow> False)"

lemma plain_event_ok [simp]:
  "plain_event (FiberState x)" "plain_event (Marker (Some ''Emerg flush''))"
  by (simp_all add: plain_event_def text_ok_def)

lemma plain_event_owned: "plain_event (ev_type e) \<Longrightarrow> ev_owned e = [] \<and> ev_ok h e"
  by (auto simp: plain_event_def ev_owned_def ev_ok_def split: perf_type.splits option.splits)

lemma push_plain_ok:
  assumes "buf_inv p" "plain_event x" "buf_len p < 128"
  shows "\<exists>p'. push_event \<lparr>ev_t = t, ev_fiber = i, ev_type = x\<rparr> p = Some p' \<and> buf_inv p' \<and> buf_len p' = buf_len p + 1
    \<and> perf_frame p p' \<and> p_worker p' = p_worker p"
  using push_event_ok[OF assms(1), of "\<lparr>ev_t = t, ev_fiber = i, ev_type = x\<rparr>"]
    plain_event_owned[of "\<lparr>ev_t = t, ev_fiber = i, ev_type = x\<rparr>"] assms(2,3) by auto

lemma emergency_flush_ok:
  assumes "buf_inv p" "buf_len p \<le> 125"
  shows "\<exists>p'. emergency_flush f c p = Some p' \<and> buf_inv p' \<and> buf_len p' = 2 \<and> perf_frame p p'
    \<and> p_worker p' = p_worker p"
proof -
  let ?p0 = "p\<lparr>p_tick := p_tick p + 1\<rparr>"
  let ?t = "p_clock p (p_tick p)"
  obtain p1 where 1: "push_event \<lparr>ev_t = ?t, ev_fiber = p_id ?p0 f, ev_type = Marker (Some ''Emerg flush'')\<rparr> ?p0 = Some p1"
      "buf_inv p1" "perf_frame ?p0 p1" "p_worker p1 = p_worker p" "buf_len p1 = buf_len p + 1"
    using push_plain_ok[of ?p0 "Marker (Some ''Emerg flush'')"] assms by fastforce
  have l1: "buf_len p1 < 128" using 1(5) assms(2) by simp
  obtain p2 where 2: "push_event \<lparr>ev_t = ?t, ev_fiber = p_id p1 c, ev_type = FiberState Ready\<rparr> p1 = Some p2"
      "buf_inv p2" "perf_frame p1 p2" "p_worker p2 = p_worker p" "buf_len p2 = buf_len p1 + 1"
    using push_plain_ok[OF 1(2) plain_event_ok(1) l1] 1(4) by metis
  have l2: "buf_len p2 < 128" using 1(5) 2(5) assms(2) by simp
  obtain p3 where 3: "push_event \<lparr>ev_t = ?t, ev_fiber = p_id p2 f, ev_type = FiberState Running\<rparr> p2 = Some p3"
      "buf_inv p3" "perf_frame p2 p3" "p_worker p3 = p_worker p"
    using push_plain_ok[OF 2(2) plain_event_ok(1) l2] 2(4) by metis
  obtain r p4 where 4: "processEventBuffer p3 = Some (r, p4)" "buf_inv p4" "p_buffer p4 = Some []" "perf_frame p3 p4"
      "p_worker p4 = p_worker p"
    using processEventBuffer_ok[OF 3(2)] 3(4) by metis
  let ?p4 = "p4\<lparr>p_tick := p_tick p4 + 1\<rparr>"
  let ?t4 = "p_clock p4 (p_tick p4)"
  obtain p5 where 5: "push_event \<lparr>ev_t = ?t4, ev_fiber = p_id ?p4 f, ev_type = FiberState (st (p_worker ?p4) f)\<rparr> ?p4 = Some p5"
      "buf_inv p5" "perf_frame ?p4 p5" "p_worker p5 = p_worker p" "buf_len p5 = buf_len p4 + 1"
    using push_plain_ok[of ?p4, OF _ plain_event_ok(1)] 4 by (fastforce simp: buf_len_def)
  have l5: "buf_len p5 < 128" using 5(5) 4(3) by (simp add: buf_len_def)
  obtain p6 where 6: "push_event \<lparr>ev_t = ?t4, ev_fiber = p_id p5 c, ev_type = FiberState (st (p_worker p5) c)\<rparr> p5 = Some p6"
      "buf_inv p6" "perf_frame p5 p6" "p_worker p6 = p_worker p" "buf_len p6 = buf_len p5 + 1"
    using push_plain_ok[OF 5(2) plain_event_ok(1) l5] 5(4) by metis
  have "emergency_flush f c p = Some p6"
    using 1(1) 2(1) 3(1) 4(1) 5(1) 6(1) by (simp add: emergency_flush_def perf_now_def)
  moreover have "perf_frame p p6"
    using 1(3) 2(3) 3(3) 4(4) 5(3) 6(3) by (simp add: perf_frame_def)
  ultimately show ?thesis using 4(3) 5(5) 6 by (simp add: buf_len_def)
qed

definition perf_fid :: "perf \<Rightarrow> fid option" where
  "perf_fid p = Option.bind (p_fiber p) pf_fiber"

lemma perf_fid_frame: "perf_frame p p' \<Longrightarrow> perf_fid p' = perf_fid p"
  by (cases "p_fiber p"; cases "p_fiber p'") (auto simp: perf_frame_def perf_fid_def)

lemma perf_suspended_fid: "perf_suspended p \<longleftrightarrow> (\<exists>f. perf_fid p = Some f \<and> st (p_worker p) f = Suspended)"
  by (auto simp: perf_suspended_def perf_fid_def split: option.splits)

text \<open>A step of the buffer that leaves the worker alone and ends below the level of 125 events.\<close>

definition settled :: "perf \<Rightarrow> perf \<Rightarrow> bool" where
  "settled p p' \<longleftrightarrow> buf_inv p' \<and> buf_len p' \<le> 124 \<and> perf_frame p p'"

lemma processEventBuffer_settles:
  "buf_inv p \<Longrightarrow> \<exists>p'. map_option snd (processEventBuffer p) = Some p' \<and> settled p p' \<and> p_worker p' = p_worker p"
  using processEventBuffer_ok[of p] by (auto simp: settled_def buf_len_def)

text \<open>The cases of \<^verbatim>\<open>flushEventBuffer()\<close> other than the resumption of the suspended perf fiber.\<close>

lemma flush_not_resuming:
  assumes "buf_inv p" "buf_len p \<le> 125" "\<not> perf_suspended p \<or> buf_len p = 125"
  shows "\<exists>p'. flushEventBuffer p = Some p' \<and> settled p p' \<and> p_worker p' = p_worker p"
proof -
  obtain b pf where p: "p_buffer p = Some b" "p_fiber p = Some pf" using buf_invE[OF assms(1)] .
  have cap: "p_capacity p = 128" using assms(1) by (simp add: buf_inv_def PerfEventBufferSize_def)
  have l: "length b \<le> 125" "length b = buf_len p" using assms(2) p by (simp_all add: buf_len_def)
  note proc = processEventBuffer_settles[OF assms(1)]
  show ?thesis
  proof (cases "pf_fiber pf")
    case None
    then show ?thesis using p proc by (simp add: flushEventBuffer.simps Let_def)
  next
    case (Some f)
    then have ns: "st (p_worker p) f = Suspended \<Longrightarrow> perf_suspended p" using p by (simp add: perf_suspended_def)
    consider "m_currentFiber (p_worker p) = Some f" | "m_currentFiber (p_worker p) \<noteq> Some f" "length b < 125"
      | "m_currentFiber (p_worker p) = None" "length b = 125"
      | c where "m_currentFiber (p_worker p) = Some c" "c \<noteq> f" "length b = 125"
      using l by fastforce
    then show ?thesis
    proof cases
      case 1
      then show ?thesis using p Some proc by (simp add: flushEventBuffer.simps Let_def)
    next
      case 2
      then have "3 < 128 - length b" "st (p_worker p) f \<noteq> Suspended" using ns assms(3) l by auto
      then have "flushEventBuffer p = Some p"
        using p Some cap 2 by (simp add: flushEventBuffer.simps Let_def)
      then show ?thesis using assms(1) 2 l by (simp add: settled_def)
    next
      case 3
      then show ?thesis using p Some cap proc by (simp add: flushEventBuffer.simps Let_def)
    next
      case 4
      then have "flushEventBuffer p = emergency_flush f c p"
        using p Some cap by (simp add: flushEventBuffer.simps Let_def)
      then show ?thesis using emergency_flush_ok[OF assms(1,2), of f c] by (auto simp: settled_def)
    qed
  qed
qed

lemma perf_push_not_resuming:
  assumes "buf_inv (p\<lparr>p_buffer := Some (b @ [e])\<rparr>)" "p_buffer p = Some b" "length b \<le> 124" "\<not> perf_suspended p"
  shows "\<exists>p'. perf_push e p = Some p' \<and> settled p p' \<and> p_worker p' = p_worker p"
proof -
  let ?p = "p\<lparr>p_buffer := Some (b @ [e])\<rparr>"
  have ns: "\<not> perf_suspended ?p" using assms(4) by (simp add: perf_suspended_def split: option.splits)
  have l: "buf_len ?p \<le> 125" using assms(3) by (simp add: buf_len_def)
  have v: "vec_push e b p = ?p" using assms(1,3) by (intro vec_push_room) (simp add: buf_inv_def PerfEventBufferSize_def)
  show ?thesis
  proof (cases "length b + 1 \<ge> 64")
    case True
    then have "perf_push e p = flushEventBuffer ?p"
      using assms(2,3) v by (simp add: perf_push.simps PerfEventBufferSize_def PerfEventBufferThresholdToTriggerVCDWrite_def)
    moreover obtain p' where "flushEventBuffer ?p = Some p'" "settled ?p p'" "p_worker p' = p_worker ?p"
      using flush_not_resuming[OF assms(1) l] ns by blast
    ultimately show ?thesis using perf_frame_trans[OF perf_frame_upd(1)] by (auto simp: settled_def)
  next
    case False
    then have "perf_push e p = Some ?p"
      using assms(2,3) v by (simp add: perf_push.simps PerfEventBufferSize_def PerfEventBufferThresholdToTriggerVCDWrite_def)
    then show ?thesis using assms(1) False by (simp add: settled_def buf_len_def)
  qed
qed

text \<open>Resuming the perf fiber, with the report of its new state in between.\<close>

lemma flush_resuming:
  assumes "buf_inv p" "buf_len p \<le> 124" "perf_fid p = Some f" "winv (p_worker p)"
    "f \<in> set (m_suspendedQueue (p_worker p))" "m_currentFiber (p_worker p) \<noteq> Some f"
  shows "\<exists>p'. flushEventBuffer p = Some p' \<and> settled p p' \<and> worker_resume f (p_worker p) = Some (p_worker p')"
proof -
  let ?w = "p_worker p"
  obtain b pf where p: "p_buffer p = Some b" "p_fiber p = Some pf" "heap_ok b (p_heap p)" using buf_invE[OF assms(1)] .
  have pf: "pf_fiber pf = Some f" using assms(3) p by (simp add: perf_fid_def)
  have cap: "p_capacity p = 128" using assms(1) by (simp add: buf_inv_def PerfEventBufferSize_def)
  have l: "length b \<le> 124" using assms(2) p by (simp add: buf_len_def)
  then have room: "3 < 128 - length b" by simp
  have s: "st ?w f = Suspended" using assms(4,5) by (auto simp: winv_defs)
  obtain w' where w': "worker_resume f ?w = Some w'" "m_fibers w' = (m_fibers ?w)(f := resume (m_fibers ?w f))"
      "st w' f \<in> {New, Ready}"
    using resume_ok[OF assms(4-6)] by blast
  then obtain w1 where r: "release f ?w = Some w1" "add f False (upd_fiber f resume w1) = Some w'"
    using s by (auto simp: worker_resume_def split: bind_splits)
  have fs: "m_fibers w1 = m_fibers ?w" using r(1) by (auto simp: release_def split: bind_splits if_splits)
  let ?w2 = "upd_fiber f resume w1"
  have nsus: "st ?w2 f \<noteq> Suspended" using w'(2,3) fs by (auto simp: upd_fiber_def)
  let ?e = "\<lparr>ev_t = p_clock p (p_tick p), ev_fiber = p_id p f, ev_type = FiberState (st ?w2 f)\<rparr>"
  let ?q = "p\<lparr>p_tick := p_tick p + 1, p_worker := ?w2\<rparr>"
  have "buf_inv (?q\<lparr>p_buffer := Some (b @ [?e])\<rparr>)"
    using buf_inv_append[of ?q b ?e] assms(1) p plain_event_owned[of ?e] by simp
  moreover have "\<not> perf_suspended ?q" using nsus pf p by (simp add: perf_suspended_def)
  ultimately obtain q' where q': "perf_push ?e ?q = Some q'" "settled ?q q'" "p_worker q' = ?w2"
    using perf_push_not_resuming[where p = ?q and b = b and e = ?e] p l by auto
  have "flushEventBuffer p = Some (q'\<lparr>p_worker := w'\<rparr>)"
    using p pf cap room s r nsus q' assms(6) by (simp add: flushEventBuffer.simps Let_def perf_now_def)
  moreover have "settled p (q'\<lparr>p_worker := w'\<rparr>)"
    using q'(2) by (simp add: settled_def perf_frame_def)
  ultimately show ?thesis using w'(1) by auto
qed

subsection \<open>The monitor as a whole\<close>

text \<open>
  The invariant between events: the buffer has at most 124 entries, every string has one owner, the worker is
  consistent, and a suspended perf fiber is where the worker expects it.
\<close>

definition perf_room :: "perf \<Rightarrow> bool" where
  "perf_room p \<longleftrightarrow> buf_len p \<le> 124 \<and> winv (p_worker p)
     \<and> (\<forall>f. perf_fid p = Some f \<longrightarrow> st (p_worker p) f = Suspended \<longrightarrow>
          f \<in> set (m_suspendedQueue (p_worker p)) \<and> m_currentFiber (p_worker p) \<noteq> Some f)"

definition perf_ok :: "perf \<Rightarrow> bool" where
  "perf_ok p \<longleftrightarrow> buf_inv p \<and> perf_room p"

definition worker_effect :: "perf \<Rightarrow> perf \<Rightarrow> bool" where
  "worker_effect p p' \<longleftrightarrow> p_worker p' = p_worker p
     \<or> (case perf_fid p of None \<Rightarrow> False | Some f \<Rightarrow> worker_resume f (p_worker p) = Some (p_worker p'))"

lemma settled_perf_ok:
  assumes "perf_room p" "settled p p'" "worker_effect p p'"
  shows "perf_ok p'"
proof (cases "p_worker p' = p_worker p")
  case True
  then show ?thesis using assms(1,2) perf_fid_frame[of p p'] by (simp add: perf_ok_def perf_room_def settled_def)
next
  case False
  then obtain f where f: "perf_fid p = Some f" "worker_resume f (p_worker p) = Some (p_worker p')"
    using assms(3) by (auto simp: worker_effect_def split: option.splits)
  have "st (p_worker p) f = Suspended" using f(2) False by (auto simp: worker_resume_def split: if_splits)
  then have "f \<in> set (m_suspendedQueue (p_worker p))" "m_currentFiber (p_worker p) \<noteq> Some f" "winv (p_worker p)"
    using assms(1) f(1) by (simp_all add: perf_room_def)
  then have "winv (p_worker p')" "st (p_worker p') f \<in> {New, Ready}"
    using resume_ok f(2) by fastforce+
  then show ?thesis using assms(2) f(1) perf_fid_frame[of p p'] by (auto simp: perf_ok_def perf_room_def settled_def)
qed

lemma perf_push_ok:
  assumes "perf_room p" "p_buffer p = Some b" "buf_inv (p\<lparr>p_buffer := Some (b @ [e])\<rparr>)"
  shows "\<exists>p'. perf_push e p = Some p' \<and> settled p p' \<and> worker_effect p p'"
proof (cases "perf_suspended p")
  case False
  have "length b \<le> 124" using assms(1,2) by (simp add: perf_room_def buf_len_def)
  then show ?thesis using perf_push_not_resuming[OF assms(3,2)] False by (auto simp: worker_effect_def)
next
  case True
  let ?p = "p\<lparr>p_buffer := Some (b @ [e])\<rparr>"
  have l: "length b \<le> 124" using assms(1,2) by (simp add: perf_room_def buf_len_def)
  obtain f where f: "perf_fid p = Some f" "st (p_worker p) f = Suspended" using True perf_suspended_fid by blast
  then have q: "f \<in> set (m_suspendedQueue (p_worker p))" "m_currentFiber (p_worker p) \<noteq> Some f" "winv (p_worker p)"
    using assms(1) by (simp_all add: perf_room_def)
  have f': "perf_fid ?p = Some f" using f by (simp add: perf_fid_def)
  have bl: "buf_len ?p = length b + 1" by (simp add: buf_len_def)
  have v: "vec_push e b p = ?p" using assms(3) l by (intro vec_push_room) (simp add: buf_inv_def PerfEventBufferSize_def)
  have push: "perf_push e p = (if length b + 1 \<ge> 64 then flushEventBuffer ?p else Some ?p)"
    using assms(2) l v by (simp add: perf_push.simps PerfEventBufferSize_def PerfEventBufferThresholdToTriggerVCDWrite_def)
  consider "length b + 1 < 64" | "64 \<le> length b + 1" "length b + 1 \<le> 124" | "length b + 1 = 125" using l by linarith
  then show ?thesis
  proof cases
    case 1
    then show ?thesis using push assms(3) by (simp add: settled_def worker_effect_def buf_len_def)
  next
    case 2
    then obtain p' where "flushEventBuffer ?p = Some p'" "settled ?p p'" "worker_resume f (p_worker p) = Some (p_worker p')"
      using flush_resuming[OF assms(3) _ f'] q bl by auto
    then show ?thesis using push 2 f perf_frame_trans[OF perf_frame_upd(1)]
      by (auto simp: settled_def worker_effect_def)
  next
    case 3
    then obtain p' where "flushEventBuffer ?p = Some p'" "settled ?p p'" "p_worker p' = p_worker p"
      using flush_not_resuming[OF assms(3)] bl by auto
    then show ?thesis using push 3 perf_frame_trans[OF perf_frame_upd(1)]
      by (auto simp: settled_def worker_effect_def)
  qed
qed

text \<open>The calls that put an event into the buffer.\<close>

datatype perf_call =
    CallName bool "64 word" string
  | CallState "64 word" fstate timespec
  | CallMark "64 word" "string option"
  | CallLog "64 word" "string option"
  | CallSyscall bool "64 word" "string option" timespec

fun perf_do :: "perf_call \<Rightarrow> perf \<Rightarrow> perf option" where
  "perf_do (CallName ok i name) p = perf_event (PerfEvent_name ok i name) p"
| "perf_do (CallState i x t) p = perf_event (PerfEvent_state i x t) p"
| "perf_do (CallMark i s) p = perf_mark i s p"
| "perf_do (CallLog i s) p = perf_logv i s p"
| "perf_do (CallSyscall cfg i s t) p = perf_syscall cfg i s t p"

text \<open>The texts that may be passed; names are not restricted.\<close>

fun call_ok :: "perf_call \<Rightarrow> bool" where
  "call_ok (CallMark i (Some s)) = text_ok s"
| "call_ok (CallLog i (Some s)) = text_ok s"
| "call_ok (CallSyscall cfg i (Some s) t) = text_ok s"
| "call_ok _ = True"

fun perf_run_calls :: "perf_call list \<Rightarrow> perf \<Rightarrow> perf option" where
  "perf_run_calls [] p = Some p"
| "perf_run_calls (c # cs) p = do { p \<leftarrow> perf_do c p; perf_run_calls cs p }"

text \<open>A constructor of an event that fits the buffer.\<close>

definition mkev_ok :: "(perf \<Rightarrow> PerfEvent \<times> perf) \<Rightarrow> bool" where
  "mkev_ok mk \<longleftrightarrow> (\<forall>p b. buf_inv p \<longrightarrow> p_buffer p = Some b \<longrightarrow>
     (case mk p of (e, p') \<Rightarrow> buf_inv (p'\<lparr>p_buffer := Some (b @ [e])\<rparr>) \<and> p_buffer p' = Some b
        \<and> perf_frame p p' \<and> p_worker p' = p_worker p))"

lemma perf_event_ok:
  assumes "perf_ok p" "mkev_ok mk"
  shows "\<exists>p'. perf_event mk p = Some p' \<and> perf_ok p' \<and> perf_frame p p' \<and> worker_effect p p'"
proof (cases "p_enable p")
  case True
  have inv: "buf_inv p" using assms(1) by (simp add: perf_ok_def)
  obtain b pf where b: "p_buffer p = Some b" using buf_invE[OF inv] .
  obtain e q where q: "mk p = (e, q)" by force
  have m: "buf_inv (q\<lparr>p_buffer := Some (b @ [e])\<rparr>)" "p_buffer q = Some b" "perf_frame p q"
      "p_worker q = p_worker p"
    using assms(2) inv b q by (auto simp: mkev_ok_def)
  have fid: "perf_fid q = perf_fid p" by (rule perf_fid_frame[OF m(3)])
  have "perf_room q" using assms(1) m b fid by (simp add: perf_ok_def perf_room_def buf_len_def)
  moreover from this obtain p' where "perf_push e q = Some p'" "settled q p'" "worker_effect q p'"
    using perf_push_ok[OF _ m(2,1)] by blast
  ultimately show ?thesis
    using True b q m(3,4) fid settled_perf_ok[of q p'] perf_frame_trans[of p q p']
    by (auto simp: perf_event_def settled_def worker_effect_def split: option.splits)
qed (use assms(1) in \<open>simp add: perf_event_def worker_effect_def\<close>)

lemma mkev_plain:
  assumes "\<And>p. \<exists>i t n. mk p = (\<lparr>ev_t = t, ev_fiber = i, ev_type = x\<rparr>, p\<lparr>p_tick := n\<rparr>)"
    "plain_event x \<or> x = Marker None"
  shows "mkev_ok mk"
  unfolding mkev_ok_def
proof (intro allI impI)
  fix p b
  assume p: "buf_inv p" "p_buffer p = Some b"
  obtain i t n where m: "mk p = (\<lparr>ev_t = t, ev_fiber = i, ev_type = x\<rparr>, p\<lparr>p_tick := n\<rparr>)" using assms(1) by blast
  let ?e = "\<lparr>ev_t = t, ev_fiber = i, ev_type = x\<rparr>"
  have "ev_owned ?e = []" "ev_ok (p_heap p) ?e"
    using assms(2) plain_event_owned[of ?e] by (auto simp: ev_owned_def ev_ok_def)
  then show "case mk p of (e, p') \<Rightarrow> buf_inv (p'\<lparr>p_buffer := Some (b @ [e])\<rparr>) \<and> p_buffer p' = Some b
        \<and> perf_frame p p' \<and> p_worker p' = p_worker p"
    using m p buf_inv_append[of "p\<lparr>p_tick := n\<rparr>" b ?e] by simp
qed

text \<open>A fresh string becomes the property of the new event.\<close>

lemma buf_inv_strdup:
  assumes "buf_inv p" "p_buffer p = Some b" "ev_type e = FiberName (Some (p_next p)) \<or> ev_type e = Log (Some (p_next p)) \<and> text_ok s"
  shows "buf_inv (p\<lparr>p_heap := (p_heap p)(p_next p \<mapsto> s), p_next := p_next p + 1, p_buffer := Some (b @ [e])\<rparr>)"
proof -
  obtain pf where p: "p_fiber p = Some pf" "heap_ok b (p_heap p)" "ids_radix93 (m_vcdIds (pf_vcd pf))"
    using buf_invE[OF assms(1)] assms(2) by auto
  let ?h = "(p_heap p)(p_next p \<mapsto> s)"
  have n: "p_heap p (p_next p) = None" using assms(1) by (force simp: buf_inv_def)
  have fr: "p_next p \<notin> set (owned b)" using n p(2) by (auto simp: heap_ok_def)
  have "ev_ok ?h x" if "x \<in> set b" for x
  proof -
    have "ev_ok (p_heap p) x" using p(2) that by (simp add: heap_ok_def)
    then show ?thesis using n by (auto simp: ev_ok_def split: perf_type.splits option.splits)
  qed
  moreover have "ev_ok ?h e" "ev_owned e = [p_next p]" using assms(3) by (auto simp: ev_ok_def ev_owned_def)
  ultimately have "heap_ok (b @ [e]) ?h" using p(2) fr by (auto simp: heap_ok_def)
  then show ?thesis using assms(1) p by (auto simp: buf_inv_def less_Suc_eq)
qed

text \<open>With a failed allocation the event has a null pointer and owns nothing.\<close>

lemma buf_inv_null:
  assumes "buf_inv p" "p_buffer p = Some b" "ev_type e \<in> {FiberName None, Log None}"
  shows "buf_inv (p\<lparr>p_buffer := Some (b @ [e])\<rparr>)"
  using assms by (intro buf_inv_append) (auto simp: ev_owned_def ev_ok_def)

lemma mkev_name: "mkev_ok (PerfEvent_name ok i name)"
  unfolding mkev_ok_def
proof (intro allI impI)
  fix p b
  assume p: "buf_inv p" "p_buffer p = Some b"
  let ?e = "\<lambda>a. \<lparr>ev_t = ts_null, ev_fiber = i, ev_type = FiberName a\<rparr>"
  show "case PerfEvent_name ok i name p of (e, p') \<Rightarrow> buf_inv (p'\<lparr>p_buffer := Some (b @ [e])\<rparr>)
        \<and> p_buffer p' = Some b \<and> perf_frame p p' \<and> p_worker p' = p_worker p"
    using p buf_inv_strdup[OF p, of "?e (Some (p_next p))" name] buf_inv_null[OF p, of "?e None"]
    by (cases ok) (simp_all add: PerfEvent_name_def perf_strdup_def perf_frame_def)
qed

lemma mkev_log:
  assumes "\<And>p. mk p = PerfEvent_log ok i s (p_clock p (p_tick p)) (p\<lparr>p_tick := p_tick p + 1\<rparr>)" "ok \<longrightarrow> text_ok s"
  shows "mkev_ok mk"
  unfolding mkev_ok_def
proof (intro allI impI)
  fix p b
  assume p: "buf_inv p" "p_buffer p = Some b"
  let ?q = "p\<lparr>p_tick := p_tick p + 1\<rparr>"
  have q: "buf_inv ?q" "p_buffer ?q = Some b" using p by simp_all
  let ?e = "\<lambda>a. \<lparr>ev_t = p_clock p (p_tick p), ev_fiber = i, ev_type = Log a\<rparr>"
  show "case mk p of (e, p') \<Rightarrow> buf_inv (p'\<lparr>p_buffer := Some (b @ [e])\<rparr>)
        \<and> p_buffer p' = Some b \<and> perf_frame p p' \<and> p_worker p' = p_worker p"
    using p assms buf_inv_strdup[OF q, of "?e (Some (p_next p))" s] buf_inv_null[OF q, of "?e None"]
    by (cases ok) (simp_all add: PerfEvent_log_def perf_strdup_def perf_frame_def)
qed

lemma mkev_state: "mkev_ok (PerfEvent_state i x t)"
proof (rule mkev_plain[where x = "FiberState x"])
  show "\<exists>i' t' n. PerfEvent_state i x t p = (\<lparr>ev_t = t', ev_fiber = i', ev_type = FiberState x\<rparr>, p\<lparr>p_tick := n\<rparr>)" for p
    by (intro exI[of _ i] exI[of _ t] exI[of _ "p_tick p"]) (simp add: PerfEvent_state_def)
qed simp

lemma mkev_marker:
  assumes "\<And>p. \<exists>t n. mk p = PerfEvent_marker i s t (p\<lparr>p_tick := n\<rparr>)" "case s of None \<Rightarrow> True | Some s \<Rightarrow> text_ok s"
  shows "mkev_ok mk"
proof (rule mkev_plain[where x = "Marker s"])
  show "\<exists>i t n. mk p = (\<lparr>ev_t = t, ev_fiber = i, ev_type = Marker s\<rparr>, p\<lparr>p_tick := n\<rparr>)" for p
    using assms(1)[of p] by (auto simp: PerfEvent_marker_def)
qed (use assms(2) in \<open>auto simp: plain_event_def split: option.splits\<close>)

lemma perf_do_ok:
  assumes "perf_ok p" "call_ok c"
  shows "\<exists>p'. perf_do c p = Some p' \<and> perf_ok p' \<and> perf_frame p p' \<and> worker_effect p p'"
proof (cases c)
  case (CallName ok i name)
  then show ?thesis using perf_event_ok[OF assms(1) mkev_name] by simp
next
  case (CallState i x t)
  then show ?thesis using perf_event_ok[OF assms(1) mkev_state] by simp
next
  case (CallMark i s)
  have "mkev_ok (\<lambda>p. let (t, p) = perf_now p in PerfEvent_marker i s t p)"
    by (rule mkev_marker[where i = i and s = s]) (use assms(2) CallMark in \<open>auto simp: perf_now_def split: option.splits\<close>)
  then show ?thesis using CallMark perf_event_ok[OF assms(1)] assms(1) by (auto simp: perf_mark_def worker_effect_def)
next
  case (CallLog i s)
  have "mkev_ok (\<lambda>p. let (t, p) = perf_now p in
      PerfEvent_log (s \<noteq> None) i (case s of None \<Rightarrow> [] | Some s \<Rightarrow> s) t p)"
    by (rule mkev_log) (use assms(2) CallLog in \<open>auto simp: perf_now_def\<close>)
  then show ?thesis using CallLog perf_event_ok[OF assms(1)] assms(1) by (auto simp: perf_logv_def worker_effect_def)
next
  case (CallSyscall cfg i s t)
  have "mkev_ok (\<lambda>p. let (now, p) = (if ts_isNull t then perf_now p else (t, p)) in PerfEvent_marker i s now p)"
  proof (rule mkev_marker[where i = i and s = s])
    show "\<exists>t' n. (let (now, p) = (if ts_isNull t then perf_now p else (t, p)) in PerfEvent_marker i s now p)
        = PerfEvent_marker i s t' (p\<lparr>p_tick := n\<rparr>)" for p
    proof (cases "ts_isNull t")
      case False
      then show ?thesis by (intro exI[of _ t] exI[of _ "p_tick p"]) simp
    qed (auto simp: perf_now_def)
  qed (use assms(2) CallSyscall in \<open>auto split: option.splits\<close>)
  then show ?thesis using CallSyscall perf_event_ok[OF assms(1)] assms(1) by (auto simp: perf_syscall_def worker_effect_def)
qed

lemma perf_run_calls_ok:
  "perf_ok p \<Longrightarrow> \<forall>c \<in> set cs. call_ok c \<Longrightarrow> \<exists>p'. perf_run_calls cs p = Some p' \<and> perf_ok p' \<and> perf_frame p p'"
proof (induction cs arbitrary: p)
  case (Cons c cs)
  obtain q where q: "perf_do c p = Some q" "perf_ok q" "perf_frame p q"
    using perf_do_ok[OF Cons.prems(1), of c] Cons.prems(2) by auto
  then show ?case using Cons.IH[OF q(2)] Cons.prems(2) perf_frame_trans[OF q(3)] by fastforce
qed simp

lemma PerfFiber_dtor_ok:
  assumes "buf_inv p"
  shows "\<exists>out p'. PerfFiber_dtor readable p = Some (out, p') \<and> p_buffer p' = None \<and> p_fiber p' = None
    \<and> p_heap p' = (\<lambda>_. None) \<and> p_worker p' = p_worker p"
proof -
  obtain res q where q: "processEventBuffer p = Some (res, q)" "buf_inv q" "p_buffer q = Some []"
      "p_heap q = (\<lambda>_. None)" "p_worker q = p_worker p"
    using processEventBuffer_ok[OF assms] by blast
  obtain pf where "p_fiber q = Some pf" using buf_invE[OF q(2)] by blast
  then show ?thesis using q by (simp add: PerfFiber_dtor_def)
qed

subsection \<open>What is written\<close>

text \<open>The reference: the lines of one event in the file of definitions and in the file of data.\<close>

definition def_text :: "perf_heap \<Rightarrow> PerfEvent \<Rightarrow> string" where
  "def_text h e = (let i = ev_fiber e; ident = radix93 (unat i) in case ev_type e of
     FiberName (Some a) \<Rightarrow> fmt_name ident i (sanitize (the (h a)))
   | FiberName None \<Rightarrow> fmt_noname ident i
   | _ \<Rightarrow> [])"

definition data_text :: "timespec \<Rightarrow> perf_heap \<Rightarrow> PerfEvent \<Rightarrow> string" where
  "data_text t0 h e = (let stamp = fmt_stamp (m_t (ts_diff (ev_t e) t0)); ident = radix93 (unat (ev_fiber e))
     in case ev_type e of
       FiberState x \<Rightarrow> stamp @ [state_char x] @ ident @ newline
     | Log (Some a) \<Rightarrow> stamp @ ''s'' @ escaped_text (the (h a)) @ '' '' @ ident @ ''!'' @ newline
     | Marker (Some s) \<Rightarrow> stamp @ ''s'' @ escaped_text s @ '' '' @ ident @ ''!'' @ newline
     | _ \<Rightarrow> [])"

text \<open>Both files are open and no write is going to fail.\<close>

definition vcd_good :: "vcd \<Rightarrow> bool" where
  "vcd_good v \<longleftrightarrow> ids_radix93 (m_vcdIds v)
     \<and> (case (m_vcd v, m_vcdd v) of (Some f, Some d) \<Rightarrow> vf_good f \<and> vf_good d | _ \<Rightarrow> False)"

definition vcd_adds :: "vcd \<Rightarrow> vcd \<Rightarrow> string \<Rightarrow> string \<Rightarrow> bool" where
  "vcd_adds v v' defs data \<longleftrightarrow> vcd_good v'
     \<and> vf_text (the (m_vcd v')) = vf_text (the (m_vcd v)) @ defs
     \<and> vf_text (the (m_vcdd v')) = vf_text (the (m_vcdd v)) @ data"

lemma vcd_goodE:
  assumes "vcd_good v"
  obtains f d where "m_vcd v = Some f" "m_vcdd v = Some d" "vf_good f" "vf_good d" "ids_radix93 (m_vcdIds v)"
  using assms by (auto simp: vcd_good_def split: option.splits)

lemma write_vcd_good:
  assumes "vcd_good v" shows "\<exists>v'. write_vcd s v = Some (None, v') \<and> vcd_adds v v' s []"
proof -
  obtain f d where v: "m_vcd v = Some f" "m_vcdd v = Some d" "vf_good f" "vf_good d" "ids_radix93 (m_vcdIds v)"
    using vcd_goodE[OF assms] .
  obtain f' where "fprintf s f = (None, f')" "vf_good f'" "vf_text f' = vf_text f @ s"
    using fprintf_good[OF v(3)] by blast
  then show ?thesis using v by (simp add: write_vcd_def vcd_adds_def vcd_good_def)
qed

lemma write_vcdd_good:
  assumes "vcd_good v" shows "\<exists>v'. write_vcdd s v = Some (None, v') \<and> vcd_adds v v' [] s"
proof -
  obtain f d where v: "m_vcd v = Some f" "m_vcdd v = Some d" "vf_good f" "vf_good d" "ids_radix93 (m_vcdIds v)"
    using vcd_goodE[OF assms] .
  obtain d' where "fprintf s d = (None, d')" "vf_good d'" "vf_text d' = vf_text d @ s"
    using fprintf_good[OF v(4)] by blast
  then show ?thesis using v by (simp add: write_vcdd_def vcd_adds_def vcd_good_def)
qed

lemma vcd_ident_good:
  assumes "vcd_good v" shows "\<exists>v'. vcd_ident i v = Some (radix93 (unat i), v') \<and> vcd_adds v v' [] []"
proof -
  have "ids_radix93 (m_vcdIds v)" using assms by (simp add: vcd_good_def)
  then obtain ids where "vcd_ident i v = Some (radix93 (unat i), v\<lparr>m_vcdIds := ids\<rparr>)" "ids_radix93 ids"
    using vcd_ident_ok by blast
  then show ?thesis using assms by (auto simp: vcd_adds_def vcd_good_def split: option.splits)
qed

lemma vcd_adds_good: "vcd_adds v v' a b \<Longrightarrow> vcd_good v'"
  by (simp add: vcd_adds_def)

lemma vcd_adds_trans: "vcd_adds u v a b \<Longrightarrow> vcd_adds v w c d \<Longrightarrow> vcd_adds u w (a @ c) (b @ d)"
  by (simp add: vcd_adds_def)

lemma write_text_good:
  assumes "vcd_good v" "text_ok s"
  shows "\<exists>v'. write_text t i s v = Some (None, v')
    \<and> vcd_adds v v' [] (fmt_stamp t @ ''s'' @ escaped_text s @ '' '' @ radix93 (unat i) @ ''!'' @ newline)"
proof -
  obtain v1 where 1: "write_vcdd (fmt_stamp t @ ''s'') v = Some (None, v1)" "vcd_adds v v1 [] (fmt_stamp t @ ''s'')"
    using write_vcdd_good[OF assms(1)] by blast
  obtain f d where v1: "m_vcd v1 = Some f" "m_vcdd v1 = Some d" "vf_good f" "vf_good d" "ids_radix93 (m_vcdIds v1)"
    using vcd_goodE[OF vcd_adds_good[OF 1(2)]] .
  obtain cs d' where 2: "escape_loop (s @ [NUL]) 0 0 0 d = Some (None, cs, d')" "vf_good d'"
      "vf_text d' @ c_string_at (s @ [NUL]) cs = vf_text d @ escaped_text s"
    using escape_loop_text[of s d] assms(2) v1(4) by (auto simp: text_ok_def)
  let ?v2 = "v1\<lparr>m_vcdd := Some d'\<rparr>"
  have "vcd_good ?v2" using v1 2(2) by (simp add: vcd_good_def)
  then obtain v3 where 3: "vcd_ident i ?v2 = Some (radix93 (unat i), v3)" "vcd_adds ?v2 v3 [] []"
    using vcd_ident_good by blast
  let ?s = "'' '' @ radix93 (unat i) @ ''!'' @ newline"
  obtain v4 where 4: "write_vcdd (c_string_at (s @ [NUL]) cs @ ?s) v3 = Some (None, v4)"
      "vcd_adds v3 v4 [] (c_string_at (s @ [NUL]) cs @ ?s)"
    using write_vcdd_good[OF vcd_adds_good[OF 3(2)]] by blast
  have "vf_text (the (m_vcdd v4)) = vf_text d @ escaped_text s @ ?s"
    using 2(3) 3(2) 4(2) by (simp add: vcd_adds_def flip: append_assoc)
  moreover have "vf_text (the (m_vcd v4)) = vf_text f" "vcd_good v4"
    using 3(2) 4(2) v1 by (simp_all add: vcd_adds_def)
  ultimately have "vcd_adds v v4 [] (fmt_stamp t @ ''s'' @ escaped_text s @ ?s)"
    using 1(2) v1 by (simp add: vcd_adds_def)
  then show ?thesis using 1(1) 2(1) 3(1) 4(1) v1 by (auto simp: write_text_def Let_def)
qed

lemma process_event_good:
  assumes "vcd_good v" "ev_ok h e"
  shows "\<exists>v' h'. process_event t0 e v h = Some (None, v', h') \<and> vcd_adds v v' (def_text h e) (data_text t0 h e)
    \<and> (\<forall>a. a \<notin> set (ev_owned e) \<longrightarrow> h' a = h a)"
proof -
  let ?i = "ev_fiber e" and ?t = "m_t (ts_diff (ev_t e) t0)"
  obtain v1 where 1: "vcd_ident ?i v = Some (radix93 (unat ?i), v1)" "vcd_adds v v1 [] []"
    using vcd_ident_good[OF assms(1)] by blast
  have g1: "vcd_good v1" using vcd_adds_good[OF 1(2)] .
  have id: "vcd_adds v v [] []" using assms(1) by (simp add: vcd_adds_def)
  show ?thesis
  proof (cases "ev_type e")
    case (FiberName a)
    let ?s = "case a of None \<Rightarrow> fmt_noname (radix93 (unat ?i)) ?i
      | Some b \<Rightarrow> fmt_name (radix93 (unat ?i)) ?i (sanitize (the (h b)))"
    obtain v2 where "write_vcd ?s v1 = Some (None, v2)" "vcd_adds v1 v2 ?s []"
      using write_vcd_good[OF g1] by blast
    then show ?thesis
      using FiberName 1 assms(2) vcd_adds_trans[OF 1(2), of v2 ?s "[]"]
      by (cases a) (auto simp: process_event_def def_text_def data_text_def ev_ok_def ev_owned_def Let_def)
  next
    case (FiberState x)
    let ?s = "fmt_stamp ?t @ [state_char x] @ radix93 (unat ?i) @ newline"
    obtain v2 where 2: "write_vcdd ?s v1 = Some (None, v2)" "vcd_adds v1 v2 [] ?s"
      using write_vcdd_good[OF g1] by blast
    have "vcd_adds v v2 [] ?s" using vcd_adds_trans[OF 1(2) 2(2)] by simp
    moreover from this have "vcd_adds v (v2\<lparr>m_vcdIds := vcdIdRelease ?i (m_vcdIds v2)\<rparr>) [] ?s"
      using vcdIdRelease_ok by (auto simp: vcd_adds_def vcd_good_def split: option.splits)
    ultimately show ?thesis using FiberState 1(1) 2(1)
      by (auto simp: process_event_def def_text_def data_text_def)
  next
    case (Log a)
    show ?thesis
    proof (cases a)
      case (Some b)
      then obtain s where s: "h b = Some s" "text_ok s"
        using assms(2) Log by (auto simp: ev_ok_def split: option.splits)
      then show ?thesis using Log Some write_text_good[OF assms(1) s(2), of ?t ?i]
        by (auto simp: process_event_def def_text_def data_text_def)
    qed (use Log id in \<open>simp add: process_event_def def_text_def data_text_def\<close>)
  next
    case (Marker s)
    show ?thesis
    proof (cases s)
      case (Some b)
      then have "text_ok b" using assms(2) Marker by (simp add: ev_ok_def)
      then show ?thesis using Marker Some write_text_good[OF assms(1), of b ?t ?i]
        by (auto simp: process_event_def def_text_def data_text_def)
    qed (use Marker id in \<open>simp add: process_event_def def_text_def data_text_def\<close>)
  qed (use id in \<open>simp add: process_event_def def_text_def data_text_def\<close>)
qed

lemma same_texts:
  assumes "\<forall>a \<in> set (ev_owned e). h' a = h a"
  shows "def_text h' e = def_text h e" "data_text t0 h' e = data_text t0 h e" "ev_ok h' e = ev_ok h e"
  using assms by (auto simp: def_text_def data_text_def ev_ok_def ev_owned_def Let_def split: perf_type.splits option.splits)

lemma process_events_good:
  "vcd_good v \<Longrightarrow> \<forall>e \<in> set es. ev_ok h e \<Longrightarrow> distinct (owned es) \<Longrightarrow>
   \<exists>v' h'. process_events t0 es v h = Some (None, v', h')
     \<and> vcd_adds v v' (concat (map (def_text h) es)) (concat (map (data_text t0 h) es))"
proof (induction es arbitrary: v h)
  case (Cons e es)
  obtain v1 h1 where 1: "process_event t0 e v h = Some (None, v1, h1)" "vcd_adds v v1 (def_text h e) (data_text t0 h e)"
      "\<forall>a. a \<notin> set (ev_owned e) \<longrightarrow> h1 a = h a"
    using process_event_good[OF Cons.prems(1), of h e t0] Cons.prems(2) by auto
  have sm: "\<forall>a \<in> set (ev_owned x). h1 a = h a" if "x \<in> set es" for x
    using 1(3) Cons.prems(3) that by auto
  have "\<forall>x \<in> set es. ev_ok h1 x" using same_texts(3)[OF sm] Cons.prems(2) by auto
  then obtain v2 h2 where 2: "process_events t0 es v1 h1 = Some (None, v2, h2)"
      "vcd_adds v1 v2 (concat (map (def_text h1) es)) (concat (map (data_text t0 h1) es))"
    using Cons.IH[OF vcd_adds_good[OF 1(2)], of h1] Cons.prems(3) by auto
  have m: "map (def_text h1) es = map (def_text h) es" "map (data_text t0 h1) es = map (data_text t0 h) es"
    using same_texts(1,2)[OF sm] by auto
  show ?case using 1(1) 2(1) vcd_adds_trans[OF 1(2) 2(2)[unfolded m]] by simp
qed (simp add: vcd_adds_def)

text \<open>An empty log text or marker makes the loop read beyond the terminator of the string.\<close>

lemma write_text_empty:
  assumes "vcd_good v"
  shows "write_text t i [] v = None"
proof -
  obtain v1 where 1: "write_vcdd (fmt_stamp t @ ''s'') v = Some (None, v1)" "vcd_adds v v1 [] (fmt_stamp t @ ''s'')"
    using write_vcdd_good[OF assms] by blast
  obtain f d where "m_vcdd v1 = Some d" using vcd_goodE[OF vcd_adds_good[OF 1(2)]] .
  then show ?thesis using 1(1) by (simp add: write_text_def escape_loop_empty)
qed

subsection \<open>Start\<close>

lemma atCleanup_keeps:
  "m_state (atCleanup hook a fb) = m_state fb" "m_timeslice (atCleanup hook a fb) = m_timeslice fb"
  "fiber_inv (atCleanup hook a fb) = fiber_inv fb"
  by (simp_all add: atCleanup_def fiber_inv_def split: fstate.splits)

text \<open>A new fiber that the worker does not know can be added.\<close>

lemma winv_add_new:
  assumes "winv w" "\<not> linked w f" "f \<noteq> m_workerFiber w" "m_currentFiber w \<noteq> Some f"
    "m_state fb = New" "fiber_inv fb" "\<not> m_negative (m_timeslice fb)"
  shows "add f False (upd_fiber f (\<lambda>_. fb) w)
      = Some (w\<lparr>m_fibers := (m_fibers w)(f := fb), m_runnableQueue := m_runnableQueue w @ [f]\<rparr>)
    \<and> winv (w\<lparr>m_fibers := (m_fibers w)(f := fb), m_runnableQueue := m_runnableQueue w @ [f]\<rparr>)"
proof -
  let ?w = "w\<lparr>m_fibers := (m_fibers w)(f := fb), m_runnableQueue := m_runnableQueue w @ [f]\<rparr>"
  have "f \<noteq> holder w" using assms(3,4) by (auto simp: holder_def split: option.splits)
  have "fibers_ok ?w" using assms(1,6,7) by (auto simp: winv_def fibers_ok_def)
  moreover have "queues_ok ?w" using assms(1,2,3,5) by (auto simp: winv_def queues_ok_def linked_def)
  moreover have "control_ok ?w"
    using assms(1,3,4,5) \<open>f \<noteq> holder w\<close> by (auto simp: winv_def control_ok_def)
  ultimately show ?thesis
    using assms(2,5) by (simp add: winv_def add_def upd_fiber_def linked_def spec_push_back_def)
qed

lemma Fiber_new:
  "\<exists>fb. Fiber False stackSize timeslice dtMax = Some fb \<and> m_state fb = New \<and> fiber_inv fb \<and> m_timeslice fb = timeslice"
  by (simp add: Fiber_def setState_def fiber_inv_def)

lemma upd_fiber_twice: "upd_fiber f g (upd_fiber f (\<lambda>_. fb) w) = upd_fiber f (\<lambda>_. g fb) w"
  by (simp add: upd_fiber_def)

lemma startVCD_ids: "m_vcdIds (snd (startVCD junk env v)) = m_vcdIds v"
  by (auto simp: startVCD_def Let_def split: sum.splits option.splits prod.splits)

lemma perf_init_ok:
  assumes "p_enable p" "p_heap p = (\<lambda>_. None)" "winv (p_worker p)" "\<not> linked (p_worker p) f"
    "f \<noteq> m_workerFiber (p_worker p)" "m_currentFiber (p_worker p) \<noteq> Some f" "\<not> m_negative timeslice"
  shows "\<exists>p'. perf_init True junk env f (stackSize, timeslice, dtMax) hook p = Some (E_OK, p') \<and> perf_ok p'
    \<and> perf_fid p' = Some f \<and> buf_len p' = 1 \<and> m_runnableQueue (p_worker p') = m_runnableQueue (p_worker p) @ [f]
    \<and> p_enable p'"
proof -
  let ?w = "p_worker p"
  let ?v = "snd (startVCD junk env \<lparr>m_vcd = None, m_vcdd = None, m_vcdIds = (\<lambda>_. None)\<rparr>)"
  obtain fb where fb: "Fiber False stackSize timeslice dtMax = Some fb" "m_state fb = New" "fiber_inv fb"
      "m_timeslice fb = timeslice"
    using Fiber_new by blast
  let ?fb = "atCleanup hook None fb"
  let ?w' = "?w\<lparr>m_fibers := (m_fibers ?w)(f := ?fb), m_runnableQueue := m_runnableQueue ?w @ [f]\<rparr>"
  have add: "add f False (upd_fiber f (\<lambda>_. ?fb) ?w) = Some ?w'" "winv ?w'"
    using winv_add_new[OF assms(3-6), of ?fb] fb assms(7) by (simp_all add: atCleanup_keeps)
  let ?e = "\<lparr>ev_t = p_clock p (p_tick p), ev_fiber = p_id p f, ev_type = FiberState New\<rparr>"
  let ?p = "p\<lparr>p_buffer := Some [?e], p_capacity := PerfEventBufferSize,
      p_fiber := Some \<lparr>pf_vcd = ?v, pf_fiber = Some f\<rparr>, p_worker := ?w', p_tick := p_tick p + 1\<rparr>"
  have "perf_init True junk env f (stackSize, timeslice, dtMax) hook p = Some (E_OK, ?p)"
    using assms(1) fb add(1)
    by (simp add: perf_init_def Let_def perf_event_def PerfEvent_state_def perf_now_def perf_push.simps vec_push_def upd_fiber_twice
        PerfEventBufferSize_def PerfEventBufferThresholdToTriggerVCDWrite_def)
  moreover have "perf_ok ?p"
    using add(2) assms(2) fb
    by (simp add: perf_ok_def perf_room_def buf_inv_def buf_len_def perf_fid_def heap_ok_def ev_owned_def ev_ok_def
        startVCD_ids atCleanup_keeps)
  ultimately show ?thesis using assms(1) by (simp add: perf_fid_def buf_len_def)
qed

subsection \<open>Properties\<close>

text \<open>
  C18. The buffer never overflows: from a consistent monitor with at most 124 buffered events, every report of an
  event whose text is not empty, with the flushes (which record events themselves) and the resumption of the perf fiber that it causes, succeeds, never needs more than the
  128 elements that are reserved, so that the buffer is not allocated again, and leads to a
  consistent monitor with at most 124 events again. The worker changes at most by resuming the perf fiber.
\<close>

theorem perf_event_bounded:
  assumes "perf_ok p" "call_ok c"
  shows "\<exists>p'. perf_do c p = Some p' \<and> perf_ok p' \<and> buf_len p' \<le> 124 \<and> p_capacity p' = 128 \<and> worker_effect p p'"
  using perf_do_ok[OF assms] by (auto simp: perf_ok_def perf_room_def buf_inv_def PerfEventBufferSize_def)

text \<open>
  C19. The strings of events are released exactly once: a session from \<^verbatim>\<open>perf_init()\<close> over any events to
  \<^verbatim>\<open>perf_deinit()\<close> never frees a string twice or reads a freed one, and leaves no string, buffer or perf fiber
  behind, whichever writes fail.
\<close>

theorem perf_session_no_leak:
  assumes "p_enable p" "p_heap p = (\<lambda>_. None)" "winv (p_worker p)" "\<not> linked (p_worker p) f"
    "f \<noteq> m_workerFiber (p_worker p)" "m_currentFiber (p_worker p) \<noteq> Some f" "\<not> m_negative timeslice"
    "\<forall>c \<in> set cs. call_ok c"
  shows "\<exists>p1 p2 out p3. perf_init True junk env f (stackSize, timeslice, dtMax) hook p = Some (E_OK, p1)
    \<and> perf_run_calls cs p1 = Some p2 \<and> perf_deinit readable p2 = Some (out, p3)
    \<and> p_heap p3 = (\<lambda>_. None) \<and> p_buffer p3 = None \<and> p_fiber p3 = None"
proof -
  obtain p1 where 1: "perf_init True junk env f (stackSize, timeslice, dtMax) hook p = Some (E_OK, p1)" "perf_ok p1" "p_enable p1"
    using perf_init_ok[OF assms(1-7)] by blast
  obtain p2 where 2: "perf_run_calls cs p1 = Some p2" "perf_ok p2" "perf_frame p1 p2"
    using perf_run_calls_ok[OF 1(2) assms(8)] by blast
  have b: "buf_inv p2" using 2(2) by (simp add: perf_ok_def)
  obtain pf where "p_fiber p2 = Some pf" using buf_invE[OF b] by blast
  moreover have "p_enable p2" using 2(3) 1(3) by (simp add: perf_frame_def)
  ultimately have "perf_deinit readable p2 = PerfFiber_dtor readable p2" by (simp add: perf_deinit_def)
  then show ?thesis using 1(1) 2(1) PerfFiber_dtor_ok[OF b] by metis
qed

text \<open>
  What processing the buffer writes when the files take it: the definitions of the named fibers to the one
  file, the state changes, logs and markers to the other, in the order of the events, and an empty buffer.
\<close>

theorem processEventBuffer_writes:
  assumes "buf_inv p" "p_buffer p = Some b" "p_fiber p = Some pf" "vcd_good (pf_vcd pf)"
  shows "\<exists>p' pf'. processEventBuffer p = Some (E_OK, p') \<and> p_buffer p' = Some [] \<and> p_fiber p' = Some pf'
    \<and> vf_text (the (m_vcd (pf_vcd pf'))) = vf_text (the (m_vcd (pf_vcd pf))) @ concat (map (def_text (p_heap p)) b)
    \<and> vf_text (the (m_vcdd (pf_vcd pf')))
      = vf_text (the (m_vcdd (pf_vcd pf))) @ concat (map (data_text (p_startTime p) (p_heap p)) b)"
proof -
  have h: "heap_ok b (p_heap p)" using assms(1-3) by (simp add: buf_inv_def)
  obtain v' h' where 1: "process_events (p_startTime p) b (pf_vcd pf) (p_heap p) = Some (None, v', h')"
      "vcd_adds (pf_vcd pf) v' (concat (map (def_text (p_heap p)) b)) (concat (map (data_text (p_startTime p) (p_heap p)) b))"
    using process_events_good[OF assms(4), of b "p_heap p" "p_startTime p"] h by (auto simp: heap_ok_def)
  have vi: "vcd_inv (pf_vcd pf)" using assms(4) by (auto simp: vcd_inv_def v_open_def vcd_good_def split: option.splits)
  then have "dom h' = dom (p_heap p)"
    using process_events_ok[of "pf_vcd pf" b "p_heap p" "p_startTime p"] h 1(1) by (auto simp: heap_ok_def)
  then obtain h2 where "release_events b h' = Some h2" using release_events_ok[of b h'] h by (auto simp: heap_ok_def)
  then show ?thesis
    using 1 assms(2,3) vi by (auto simp: processEventBuffer_def Let_def vcd_adds_def vcd_inv_def v_open_def)
qed

text \<open>
  A monitor whose suspended fiber is fiber 5 of the demonstration worker, with 124 buffered events: the next one
  takes the emergency exit.
\<close>

definition demo_vcd :: vcd where
  "demo_vcd = \<lparr>m_vcd = Some \<lparr>vf_text = [], vf_plan = []\<rparr>, m_vcdd = Some \<lparr>vf_text = [], vf_plan = []\<rparr>, m_vcdIds = (\<lambda>_. None)\<rparr>"

definition demo_perf :: perf where
  "demo_perf = \<lparr>p_enable = True,
     p_buffer = Some (replicate 124 \<lparr>ev_t = ts_null, ev_fiber = 1, ev_type = FiberState Ready\<rparr>),
     p_capacity = 128, p_heap = (\<lambda>_. None), p_next = 0,
     p_fiber = Some \<lparr>pf_vcd = demo_vcd, pf_fiber = Some 5\<rparr>, p_worker = demo_worker, p_id = (\<lambda>f. of_nat f),
     p_startTime = ts_null, p_clock = (\<lambda>_. ts_null), p_tick = 0\<rparr>"

lemma demo_perf_ok: "perf_ok demo_perf"
  using demo_worker_inv
  by (simp add: perf_ok_def perf_room_def buf_inv_def buf_len_def demo_perf_def heap_ok_def ev_owned_def ev_ok_def
      PerfEventBufferSize_def perf_fid_def demo_vcd_def) (simp add: demo_worker_def)

theorem perf_event_bounded_witness:
  "\<exists>p'. perf_do (CallMark 3 (Some ''x'')) demo_perf = Some p' \<and> perf_ok p' \<and> buf_len p' \<le> 124
    \<and> p_capacity p' = 128 \<and> worker_effect demo_perf p'"
  by (rule perf_event_bounded[OF demo_perf_ok]) (simp add: text_ok_def)

definition demo_perf_off :: perf where
  "demo_perf_off = demo_perf\<lparr>p_buffer := None, p_fiber := None\<rparr>"

definition demo_vcd_env :: vcd_env where
  "demo_vcd_env = \<lparr>ve_snprintf = Some ''zth.1.vcd'', ve_open = (\<lambda>_. Inr \<lparr>vf_text = [], vf_plan = [None, None, Some EIO]\<rparr>),
     ve_tmpfile = Inr \<lparr>vf_text = [], vf_plan = []\<rparr>, ve_date = None, ve_banner = ''Zth''\<rparr>"

theorem perf_session_no_leak_witness:
  "\<exists>p1 p2 out p3. perf_init True [] demo_vcd_env 7 (4096, ti_null, ti_null) 0 demo_perf_off = Some (E_OK, p1)
    \<and> perf_run_calls [CallName True 3 ''main'', CallLog 3 (Some ''hello''), CallLog 3 None] p1 = Some p2
    \<and> perf_deinit None p2 = Some (out, p3)
    \<and> p_heap p3 = (\<lambda>_. None) \<and> p_buffer p3 = None \<and> p_fiber p3 = None"
proof (rule perf_session_no_leak)
  show "winv (p_worker demo_perf_off)" by (simp add: demo_perf_off_def demo_perf_def demo_worker_inv)
qed (simp_all add: demo_perf_off_def demo_perf_def demo_worker_def linked_def ti_null_def text_ok_def)

definition demo_perf2 :: perf where
  "demo_perf2 = demo_perf\<lparr>p_buffer := Some [\<lparr>ev_t = ts_null, ev_fiber = 1, ev_type = FiberName (Some 0)\<rparr>,
       \<lparr>ev_t = ts_null, ev_fiber = 2, ev_type = Marker (Some ''go'')\<rparr>],
     p_heap := (\<lambda>_. None)(0 \<mapsto> ''main''), p_next := 1\<rparr>"

theorem processEventBuffer_writes_witness:
  "\<exists>p' pf'. processEventBuffer demo_perf2 = Some (E_OK, p') \<and> p_buffer p' = Some [] \<and> p_fiber p' = Some pf'
    \<and> vf_text (the (m_vcd (pf_vcd pf'))) = fmt_name (radix93 1) 1 ''main''
    \<and> vf_text (the (m_vcdd (pf_vcd pf'))) = fmt_stamp (m_t (ts_diff ts_null ts_null)) @ ''sgo '' @ radix93 2 @ ''!'' @ newline"
proof -
  let ?b = "[\<lparr>ev_t = ts_null, ev_fiber = 1, ev_type = FiberName (Some 0)\<rparr>,
       \<lparr>ev_t = ts_null, ev_fiber = 2, ev_type = Marker (Some ''go'')\<rparr>]"
  have "buf_inv demo_perf2"
    by (simp add: demo_perf2_def demo_perf_def buf_inv_def heap_ok_def ev_owned_def ev_ok_def PerfEventBufferSize_def
        demo_vcd_def text_ok_def)
  from processEventBuffer_writes[OF this, of ?b "\<lparr>pf_vcd = demo_vcd, pf_fiber = Some 5\<rparr>"] show ?thesis
    by (simp add: demo_perf2_def demo_perf_def demo_vcd_def vcd_good_def vf_good_def def_text_def data_text_def
        escaped_text_def escaped_def printable_def sanitize_def Let_def)
qed

end
