(* ===== verification/Zth_Load.thy ===== *)
theory Zth_Load
  imports Complex_Main Zth_Time "HOL-Library.Word"
begin

section \<open>Load and event rate\<close>

text \<open>
  \<^verbatim>\<open>include/libzth/perf.h\<close>, the classes \<^verbatim>\<open>Load\<close> and \<^verbatim>\<open>EventRate\<close>.

  Their type parameter \<^verbatim>\<open>T\<close> is a floating-point type; here it is the rational numbers, so that rounding is
  left out and the formulas of the code are kept. The counters of \<^verbatim>\<open>EventRate\<close> have the width that
  \<^verbatim>\<open>uint_fast32_t\<close> has at least, 32 bits, and wrap around. \<open>None\<close> is the failing assertion of the addition of
  an interval to a time stamp.
\<close>

subsection \<open>Load\<close>

record load =
  l_rc :: rat
  l_active :: bool
  l_current :: timespec
  l_load :: rat

text \<open>\<^verbatim>\<open>TimeInterval::s()\<close>.\<close>

definition ti_s :: "TimeInterval \<Rightarrow> rat" where
  "ti_s t = (let s = rat_of_int (ti_sec t) + rat_of_int (ti_nsec t) / rat_of_int BILLION in if m_negative t then - s else s)"

definition Load :: "rat \<Rightarrow> timespec \<Rightarrow> load" where
  "Load rc now = \<lparr>l_rc = rc, l_active = False, l_current = now, l_load = 0\<rparr>"

definition setRc :: "rat \<Rightarrow> load \<Rightarrow> load" where
  "setRc rc l = l\<lparr>l_rc := rc\<rparr>"

definition alpha :: "load \<Rightarrow> rat \<Rightarrow> rat" where
  "alpha l dt_s = dt_s / (l_rc l + dt_s)"

definition idle_value :: "load \<Rightarrow> rat \<Rightarrow> rat \<Rightarrow> rat" where
  "idle_value l x dt_s = (if dt_s \<le> 0 then x else (1 - alpha l dt_s) * x)"

definition active_value :: "load \<Rightarrow> rat \<Rightarrow> rat \<Rightarrow> rat" where
  "active_value l x dt_s = (if dt_s \<le> 0 then x else let a = alpha l dt_s in a + (1 - a) * x)"

definition idle :: "rat \<Rightarrow> load \<Rightarrow> load" where
  "idle dt_s l = l\<lparr>l_load := idle_value l (l_load l) dt_s\<rparr>"

definition active :: "rat \<Rightarrow> load \<Rightarrow> load" where
  "active dt_s l = l\<lparr>l_load := active_value l (l_load l) dt_s\<rparr>"

definition load_start :: "timespec \<Rightarrow> load \<Rightarrow> load" where
  "load_start now l =
     (if l_active l then l
      else (idle (ti_s (ts_diff now (l_current l))) l)\<lparr>l_current := now, l_active := True\<rparr>)"

definition load_stop :: "timespec \<Rightarrow> load \<Rightarrow> load" where
  "load_stop now l =
     (if \<not> l_active l then l
      else (active (ti_s (ts_diff now (l_current l))) l)\<lparr>l_current := now, l_active := False\<rparr>)"

definition load_at :: "timespec \<Rightarrow> load \<Rightarrow> rat" where
  "load_at now l =
     (let dt_s = ti_s (ts_diff now (l_current l))
      in if l_active l then active_value l (l_load l) dt_s else idle_value l (l_load l) dt_s)"

subsection \<open>Event rate\<close>

record event_rate =
  r_window_s :: rat
  r_window :: TimeInterval
  r_binStart :: timespec
  r_bins :: "32 word list"
  r_current :: nat

definition EventRate :: "nat \<Rightarrow> rat \<Rightarrow> TimeInterval \<Rightarrow> event_rate" where
  "EventRate Bins window_s window =
     \<lparr>r_window_s = window_s, r_window = window, r_binStart = ts_null, r_bins = replicate Bins 0, r_current = 0\<rparr>"

text \<open>
  The loop of \<^verbatim>\<open>event()\<close>; the first argument is \<^verbatim>\<open>Bins - b\<close>. The condition adds before it looks at \<^verbatim>\<open>b\<close>. The result
  has \<^verbatim>\<open>Bins - b\<close> at the end.
\<close>

fun event_loop :: "nat \<Rightarrow> timespec \<Rightarrow> event_rate \<Rightarrow> (nat \<times> event_rate) option" where
  "event_loop left now r = do {
     s \<leftarrow> ts_add (r_binStart r) (r_window r);
     case left of
       0 \<Rightarrow> Some (0, r)
     | Suc n \<Rightarrow>
         if s < now then
           let c = (r_current r + 1) mod length (r_bins r)
           in event_loop n now (r\<lparr>r_current := c, r_bins := (r_bins r)[c := 0], r_binStart := s\<rparr>)
         else Some (left, r)
   }"

declare event_loop.simps [simp del]

definition event :: "timespec \<Rightarrow> event_rate \<Rightarrow> event_rate option" where
  "event now r = do {
     (left, r) \<leftarrow> event_loop (length (r_bins r)) now r;
     let r = (if left = 0 then r\<lparr>r_binStart := now\<rparr> else r);
     Some (r\<lparr>r_bins := (r_bins r)[r_current r := r_bins r ! r_current r + 1]\<rparr>)
   }"

definition bin :: "event_rate \<Rightarrow> nat \<Rightarrow> rat" where
  "bin r i = rat_of_nat (unat (r_bins r ! ((r_current r + i) mod length (r_bins r))))"

definition rate :: "timespec \<Rightarrow> event_rate \<Rightarrow> rat" where
  "rate now r =
     (let Bins = length (r_bins r); w = ti_s (ts_diff now (r_binStart r)) / r_window_s r
      in if w > 2 then 0
         else let w = (if w > 1 then 1 else w);
                  first_bin = (1 - w) * bin r 1;
                  last_bin = rat_of_nat (unat (r_bins r ! r_current r));
                  sum = first_bin + last_bin + sum_list (map (bin r) [2..<Bins])
              in sum * (1 / rat_of_nat (Bins - 1)) / r_window_s r)"

subsection \<open>The filter\<close>

text \<open>The load is a fraction as long as the time constant is not negative.\<close>

definition load_ok :: "load \<Rightarrow> bool" where
  "load_ok l \<longleftrightarrow> 0 \<le> l_rc l \<and> 0 \<le> l_load l \<and> l_load l \<le> 1"

lemma alpha_range: "0 \<le> l_rc l \<Longrightarrow> 0 < dt \<Longrightarrow> 0 < alpha l dt \<and> alpha l dt \<le> 1"
  by (simp add: alpha_def)

lemma idle_value_range:
  assumes "0 \<le> l_rc l" "0 \<le> x"
  shows "0 \<le> idle_value l x dt \<and> idle_value l x dt \<le> x"
proof (cases "dt \<le> 0")
  case False
  then have a: "0 < alpha l dt" "alpha l dt \<le> 1" using alpha_range[of l dt] assms(1) by auto
  then have "(1 - alpha l dt) * x \<le> 1 * x" using assms(2) by (intro mult_right_mono) auto
  then show ?thesis using False a assms(2) by (simp add: idle_value_def)
qed (use assms in \<open>simp add: idle_value_def\<close>)

lemma active_value_range:
  assumes "0 \<le> l_rc l" "x \<le> 1"
  shows "x \<le> active_value l x dt \<and> active_value l x dt \<le> 1"
proof (cases "dt \<le> 0")
  case False
  then have a: "0 < alpha l dt" "alpha l dt \<le> 1" using alpha_range[of l dt] assms(1) by auto
  have "active_value l x dt = x + alpha l dt * (1 - x)" "active_value l x dt = 1 - (1 - alpha l dt) * (1 - x)"
    using False by (simp_all add: active_value_def Let_def algebra_simps)
  moreover have "0 \<le> alpha l dt * (1 - x)" "0 \<le> (1 - alpha l dt) * (1 - x)" using a assms(2) by simp_all
  ultimately show ?thesis by linarith
qed (use assms in \<open>simp add: active_value_def\<close>)

datatype load_call = SetRc rat | Idle rat | Active rat | Start timespec | Stop timespec

fun load_do :: "load_call \<Rightarrow> load \<Rightarrow> load" where
  "load_do (SetRc rc) l = setRc rc l"
| "load_do (Idle dt) l = idle dt l"
| "load_do (Active dt) l = active dt l"
| "load_do (Start now) l = load_start now l"
| "load_do (Stop now) l = load_stop now l"

fun load_call_ok :: "load_call \<Rightarrow> bool" where
  "load_call_ok (SetRc rc) \<longleftrightarrow> 0 \<le> rc"
| "load_call_ok _ \<longleftrightarrow> True"

lemma idle_ok: "load_ok l \<Longrightarrow> load_ok (idle dt l)"
  using idle_value_range[of l "l_load l" dt] by (auto simp: load_ok_def idle_def intro: order_trans)

lemma active_ok: "load_ok l \<Longrightarrow> load_ok (active dt l)"
  using active_value_range[of l "l_load l" dt] by (auto simp: load_ok_def active_def intro: order_trans)

lemma load_ok_upd [simp]: "load_ok (l\<lparr>l_current := t, l_active := a\<rparr>) = load_ok l"
  by (simp add: load_ok_def)

lemma load_do_ok: "load_ok l \<Longrightarrow> load_call_ok c \<Longrightarrow> load_ok (load_do c l)"
proof (cases c)
  case (SetRc rc)
  then show "load_ok l \<Longrightarrow> load_call_ok c \<Longrightarrow> ?thesis" by (simp add: load_ok_def setRc_def)
qed (simp_all add: idle_ok active_ok load_start_def load_stop_def)

text \<open>
  The load stays between 0 and 1 under every sequence of operations, and so does the value that \<^verbatim>\<open>load(now)\<close>
  extrapolates: it does not fall while the activity goes on and does not rise while it is idle.
\<close>

theorem load_fraction:
  assumes "load_ok l" "\<forall>c \<in> set cs. load_call_ok c"
  shows "load_ok (fold load_do cs l) \<and> 0 \<le> load_at now (fold load_do cs l) \<and> load_at now (fold load_do cs l) \<le> 1
    \<and> (if l_active (fold load_do cs l) then l_load (fold load_do cs l) \<le> load_at now (fold load_do cs l)
       else load_at now (fold load_do cs l) \<le> l_load (fold load_do cs l))"
proof -
  define l' where "l' = fold load_do cs l"
  have l': "load_ok l'" using assms unfolding l'_def by (induction cs arbitrary: l) (simp_all add: load_do_ok)
  let ?dt = "ti_s (ts_diff now (l_current l'))"
  have "0 \<le> load_at now l' \<and> load_at now l' \<le> 1
      \<and> (if l_active l' then l_load l' \<le> load_at now l' else load_at now l' \<le> l_load l')"
    using idle_value_range[of l' "l_load l'" ?dt] active_value_range[of l' "l_load l'" ?dt] l'
    by (auto simp: load_at_def load_ok_def Let_def)
  then show ?thesis using l' unfolding l'_def by blast
qed

theorem load_fraction_witness:
  "load_ok (fold load_do [Active 1, Idle 2] (Load 1 ts_null))
   \<and> l_load (fold load_do [Active 1, Idle 2] (Load 1 ts_null)) = 1 / 6"
  using load_fraction[of "Load 1 ts_null" "[Active 1, Idle 2]"]
  by (simp add: load_ok_def Load_def active_def idle_def active_value_def idle_value_def alpha_def)

subsection \<open>The bins\<close>

definition rate_ok :: "event_rate \<Rightarrow> bool" where
  "rate_ok r \<longleftrightarrow> 0 < length (r_bins r) \<and> r_current r < length (r_bins r) \<and> \<not> m_negative (r_window r)"

definition total :: "event_rate \<Rightarrow> nat" where
  "total r = sum_list (map unat (r_bins r))"

lemma ts_add_nonneg: "\<not> m_negative dt \<Longrightarrow> \<exists>s. ts_add t dt = Some s"
  by (simp add: ts_add_def ti_add_def isPositive_def isNegative_def Let_def)

lemma sum_list_update_zero: "i < length xs \<Longrightarrow> sum_list (map unat (xs[i := 0])) \<le> sum_list (map unat (xs :: 32 word list))"
  by (simp add: map_update sum_list_update)

text \<open>The loop ends with all bins cleared, or with a bin that has not ended before \<open>now\<close>.\<close>

lemma event_loop_ok:
  "rate_ok r \<Longrightarrow> \<exists>left' r'. event_loop left now r = Some (left', r') \<and> rate_ok r' \<and> length (r_bins r') = length (r_bins r)
     \<and> r_window r' = r_window r \<and> r_window_s r' = r_window_s r \<and> total r' \<le> total r
     \<and> (\<forall>i < length (r_bins r). r_bins r' ! i = 0 \<or> r_bins r' ! i = r_bins r ! i)
     \<and> (left' \<noteq> 0 \<longrightarrow> (\<exists>s. ts_add (r_binStart r') (r_window r') = Some s \<and> \<not> s < now))"
proof (induction left arbitrary: r)
  case 0
  obtain s where "ts_add (r_binStart r) (r_window r) = Some s" using ts_add_nonneg 0 by (auto simp: rate_ok_def)
  then show ?case using 0 by (simp add: event_loop.simps)
next
  case (Suc n)
  obtain s where s: "ts_add (r_binStart r) (r_window r) = Some s" using ts_add_nonneg Suc.prems by (auto simp: rate_ok_def)
  let ?c = "(r_current r + 1) mod length (r_bins r)"
  let ?r = "r\<lparr>r_current := ?c, r_bins := (r_bins r)[?c := 0], r_binStart := s\<rparr>"
  have c: "?c < length (r_bins r)" using Suc.prems by (simp add: rate_ok_def)
  show ?case
  proof (cases "s < now")
    case True
    have "rate_ok ?r" using Suc.prems c by (simp add: rate_ok_def)
    then obtain left' r' where r': "event_loop n now ?r = Some (left', r')" "rate_ok r'" "length (r_bins r') = length (r_bins ?r)"
        "r_window r' = r_window ?r" "r_window_s r' = r_window_s ?r" "total r' \<le> total ?r"
        "\<forall>i < length (r_bins ?r). r_bins r' ! i = 0 \<or> r_bins r' ! i = r_bins ?r ! i"
        "left' \<noteq> 0 \<longrightarrow> (\<exists>s. ts_add (r_binStart r') (r_window r') = Some s \<and> \<not> s < now)"
      using Suc.IH[of ?r] by blast
    moreover have "total ?r \<le> total r" using sum_list_update_zero[OF c] by (simp add: total_def)
    moreover have "r_bins r' ! i = 0 \<or> r_bins r' ! i = r_bins r ! i" if "i < length (r_bins r)" for i
      using r'(7) that by (cases "i = ?c") auto
    moreover have "event_loop (Suc n) now r = Some (left', r')"
      using s True r'(1) by (subst event_loop.simps) (simp add: Let_def)
    ultimately show ?thesis by auto
  qed (use s Suc.prems in \<open>simp add: event_loop.simps\<close>)
qed

text \<open>
  Counting an event: the index of the current bin stays inside the array, the bin that is counted in has not
  ended yet (or starts at this very moment, when all bins had to be cleared), and the total of the bins grows by
  at most one.
\<close>

theorem event_counted:
  assumes "rate_ok r" "\<forall>i < length (r_bins r). r_bins r ! i \<noteq> - 1"
  shows "\<exists>r'. event now r = Some r' \<and> rate_ok r' \<and> length (r_bins r') = length (r_bins r)
    \<and> total r' \<le> total r + 1 \<and> 0 < unat (r_bins r' ! r_current r')
    \<and> (r_binStart r' = now \<or> (\<exists>s. ts_add (r_binStart r') (r_window r') = Some s \<and> \<not> s < now))"
proof -
  obtain left' q where q: "event_loop (length (r_bins r)) now r = Some (left', q)" "rate_ok q"
      "length (r_bins q) = length (r_bins r)" "total q \<le> total r"
      "\<forall>i < length (r_bins r). r_bins q ! i = 0 \<or> r_bins q ! i = r_bins r ! i"
      "left' \<noteq> 0 \<longrightarrow> (\<exists>s. ts_add (r_binStart q) (r_window q) = Some s \<and> \<not> s < now)"
    using event_loop_ok[OF assms(1)] by blast
  let ?c = "r_current q"
  let ?q = "if left' = 0 then q\<lparr>r_binStart := now\<rparr> else q"
  let ?r = "?q\<lparr>r_bins := (r_bins q)[?c := r_bins q ! ?c + 1]\<rparr>"
  have c: "?c < length (r_bins q)" using q(2) by (simp add: rate_ok_def)
  have "r_bins q ! ?c \<noteq> - 1" using q(3,5) c assms(2) by force
  then have "1 + r_bins q ! ?c \<noteq> 0" by (metis add.commute add_eq_0_iff2)
  then have u: "unat (r_bins q ! ?c + 1) = unat (r_bins q ! ?c) + 1" by (simp add: unatSuc add.commute)
  have "unat (r_bins q ! ?c) \<le> total q"
    unfolding total_def using c by (intro member_le_sum_list) auto
  then have "total ?r \<le> total q + 1"
    using c u by (simp add: total_def map_update sum_list_update)
  moreover have "event now r = Some ?r" using q(1) by (simp add: event_def Let_def)
  moreover have "rate_ok ?r" using q(2) by (simp add: rate_ok_def)
  ultimately show ?thesis using q(3,4,6) c u by (intro exI[of _ ?r]) auto
qed

theorem event_counted_witness:
  "\<exists>r'. event (Timespec 5 0) (EventRate 2 1 (mk_interval 1 0 False)) = Some r' \<and> rate_ok r'
    \<and> total r' \<le> 1 \<and> 0 < unat (r_bins r' ! r_current r')
    \<and> (r_binStart r' = Timespec 5 0 \<or> (\<exists>s. ts_add (r_binStart r') (r_window r') = Some s \<and> \<not> s < Timespec 5 0))"
proof -
  have "rate_ok (EventRate 2 1 (mk_interval 1 0 False))" "total (EventRate 2 1 (mk_interval 1 0 False)) = 0"
    by (simp_all add: rate_ok_def EventRate_def total_def numeral_2_eq_2)
  moreover have "\<forall>i < length (r_bins (EventRate 2 1 (mk_interval 1 0 False))). r_bins (EventRate 2 1 (mk_interval 1 0 False)) ! i \<noteq> - 1"
    by (simp add: EventRate_def)
  ultimately show ?thesis
    using event_counted[of "EventRate 2 1 (mk_interval 1 0 False)" "Timespec 5 0"] by fastforce
qed

text \<open>The rate is never negative for a positive window, and 0 when the last event is more than two windows ago.\<close>

theorem rate_range:
  assumes "rate_ok r" "0 < r_window_s r" "2 \<le> length (r_bins r)"
  shows "0 \<le> rate now r \<and> (2 < ti_s (ts_diff now (r_binStart r)) / r_window_s r \<longrightarrow> rate now r = 0)"
proof -
  have b: "0 \<le> bin r i" for i unfolding bin_def by (rule of_nat_0_le_iff)
  have u: "0 \<le> rat_of_nat (unat x)" for x :: "32 word" by (rule of_nat_0_le_iff)
  have "0 \<le> sum_list (map (bin r) xs)" for xs by (induction xs) (simp_all add: b)
  moreover have "0 \<le> (1 - (if 1 < w then 1 else w)) * bin r 1" for w :: rat using b by simp
  ultimately show ?thesis
    using assms(2) unfolding rate_def Let_def
    by (auto intro!: add_nonneg_nonneg mult_nonneg_nonneg divide_nonneg_nonneg b u simp del: of_nat_unat)
qed

theorem rate_range_witness:
  "0 \<le> rate (Timespec 9 0) (EventRate 2 1 (mk_interval 1 0 False))
    \<and> (2 < ti_s (ts_diff (Timespec 9 0) ts_null) / 1 \<longrightarrow> rate (Timespec 9 0) (EventRate 2 1 (mk_interval 1 0 False)) = 0)"
  using rate_range[of "EventRate 2 1 (mk_interval 1 0 False)" "Timespec 9 0"] by (simp add: rate_ok_def EventRate_def)

end
