(* ===== verification/Zth_Backtrace.thy ===== *)
theory Zth_Backtrace
  imports Zth_Time
begin

section \<open>Backtraces\<close>

text \<open>
  \<^verbatim>\<open>Backtrace\<close> of \<^verbatim>\<open>include/libzth/perf.h\<close> and \<^verbatim>\<open>src/perf.cpp\<close>: the call stack of a fiber, and the difference of two of
  them. A frame is the address in it. The stack itself is an argument: what \<^verbatim>\<open>unw_step()\<close> finds one after the other
  (with the start of the function that each frame is in), or what \<^verbatim>\<open>backtrace()\<close> stores. What is printed is a list of lines with
  their colour; the lookup of the symbol of an address is not modelled. \<open>None\<close> is an access beyond the end of the
  vector of frames.
\<close>

subsection \<open>Data\<close>

record backtrace =
  m_t0 :: timespec
  m_t1 :: timespec
  m_fiber :: "nat option"
  m_fiberId :: nat
  m_bt :: "nat list"
  m_truncated :: bool

datatype bt_line =
    OfFiber "nat option" nat
  | Frame nat nat
  | Truncated
  | EndOfTrace
  | ExecutedFrom
  | To
  | ExecutionFrom "nat option" nat
  | InCommon
  | Took TimeInterval

type_synonym bt_lines = "(int \<times> bt_line) list"

subsection \<open>Taking a backtrace\<close>

text \<open>
  With libunwind: \<open>frames\<close> are the frames that the steps of the cursor reach, with the start of their functions when
  that is known, and \<open>depth\<close> is the variable of that name. The loop ends at \<^verbatim>\<open>context_entry()\<close>. No \<open>context\<close> is a failing
  \<^verbatim>\<open>unw_getcontext()\<close>.
\<close>

fun unwind_loop :: "nat \<Rightarrow> nat \<Rightarrow> nat \<Rightarrow> (nat \<times> nat option) list \<Rightarrow> nat list \<Rightarrow> nat \<times> nat list" where
  "unwind_loop entry maxDepth depth [] bt = (depth, bt)"
| "unwind_loop entry maxDepth depth ((ip, start) # frames) bt =
     (if depth < maxDepth then
        let bt = bt @ [ip]
        in if start = Some entry then (depth, bt) else unwind_loop entry maxDepth depth frames bt
      else (depth, bt))"

definition Backtrace_unwind ::
  "nat \<Rightarrow> timespec \<Rightarrow> timespec \<Rightarrow> (nat \<times> nat) option \<Rightarrow> (nat \<times> nat option) list option \<Rightarrow> nat \<Rightarrow> nat \<Rightarrow> backtrace" where
  "Backtrace_unwind entry t0 t1 fiber context skip maxDepth =
     (let b = \<lparr>m_t0 = t0, m_t1 = ts_null, m_fiber = map_option fst fiber,
        m_fiberId = (case fiber of Some f \<Rightarrow> snd f | None \<Rightarrow> 0), m_bt = [], m_truncated = True\<rparr>
      in case context of
        None \<Rightarrow> b
      | Some frames \<Rightarrow>
          let (depth, bt) = unwind_loop entry maxDepth 0 (drop skip frames) []
          in b\<lparr>m_bt := bt, m_truncated := (depth = maxDepth), m_t1 := t1\<rparr>)"

text \<open>With \<^verbatim>\<open>backtrace()\<close> of the C library, which stores the innermost \<open>maxDepth\<close> frames.\<close>

definition Backtrace_execinfo ::
  "timespec \<Rightarrow> timespec \<Rightarrow> (nat \<times> nat) option \<Rightarrow> nat list \<Rightarrow> nat \<Rightarrow> backtrace" where
  "Backtrace_execinfo t0 t1 fiber frames maxDepth =
     (let bt = take maxDepth frames
      in \<lparr>m_t0 = t0, m_t1 = t1, m_fiber = map_option fst fiber, m_fiberId = (case fiber of Some f \<Rightarrow> snd f | None \<Rightarrow> 0),
        m_bt = bt, m_truncated = (length bt = maxDepth)\<rparr>)"

subsection \<open>Printing\<close>

fun print_frames :: "int \<Rightarrow> nat list \<Rightarrow> nat list \<Rightarrow> bt_lines option" where
  "print_frames color bt [] = Some []"
| "print_frames color bt (i # is) = do {
     zth_assert (i < length bt);
     ls \<leftarrow> print_frames color bt is;
     Some ((color, Frame i (bt ! i)) # ls)
   }"

definition printPartial :: "nat \<Rightarrow> int \<Rightarrow> int \<Rightarrow> backtrace \<Rightarrow> bt_lines option" where
  "printPartial start till color b =
     (if m_bt b = [] then Some []
      else if till < 0 \<and> - till > int (length (m_bt b)) then Some []
      else let till = (if till < 0 then int (length (m_bt b)) + till else till)
        in if start > nat till then Some []
          else print_frames color (m_bt b) [start..<Suc (nat till)])"

definition print :: "int \<Rightarrow> backtrace \<Rightarrow> bt_lines option" where
  "print color b = do {
     ls \<leftarrow> (if m_bt b \<noteq> [] then printPartial 0 (int (length (m_bt b)) - 1) color b else Some []);
     Some ((color, OfFiber (m_fiber b) (m_fiberId b)) # ls @ [(color, if m_truncated b then Truncated else EndOfTrace)])
   }"

text \<open>The loop that finds how many of the outermost frames are the same.\<close>

function common_loop :: "nat list \<Rightarrow> nat list \<Rightarrow> nat \<Rightarrow> nat" where
  "common_loop this_bt other_bt common =
     (if common < min (length this_bt) (length other_bt)
        \<and> this_bt ! (length this_bt - 1 - common) = other_bt ! (length other_bt - 1 - common)
      then common_loop this_bt other_bt (common + 1) else common)"
  by pat_completeness auto
termination by (relation "measure (\<lambda>(a, b, c). length a - c)") auto

declare common_loop.simps [simp del]

text \<open>The call that prints the common frames has the colour as its second argument, which is the end of the range.\<close>

function printDelta :: "int \<Rightarrow> backtrace \<Rightarrow> backtrace \<Rightarrow> bt_lines option" where
  "printDelta color other this =
     (if isBefore (m_t0 this) (m_t0 other) then printDelta color this other
      else let dt = ts_diff (m_t0 this) (m_t1 other)
        in if m_fiberId other \<noteq> m_fiberId this \<or> m_truncated other \<or> m_truncated this then do {
          a \<leftarrow> print color other;
          b \<leftarrow> print color this;
          Some ((color, ExecutedFrom) # a @ (color, To) # b @ [(color, Took dt)])
        } else do {
          let common = common_loop (m_bt this) (m_bt other) 0;
          a \<leftarrow> printPartial 0 (- int common - 1) color other;
          b \<leftarrow> printPartial 0 (- int common - 1) color this;
          c \<leftarrow> (if common > 0 then do {
              ls \<leftarrow> printPartial (length (m_bt other) - common) color (-1) other;
              Some ((color, InCommon) # ls)
            } else Some []);
          Some ((color, ExecutionFrom (m_fiber this) (m_fiberId this)) # a @ (color, To) # b @ c @ [(color, Took dt)])
        })"
  by pat_completeness auto
termination
  by (relation "measure (\<lambda>(c, other, this). if isBefore (m_t0 this) (m_t0 other) then 1 else 0)")
    (auto simp: isBefore_def)

declare printDelta.simps [simp del]

subsection \<open>Properties\<close>

definition numbered :: "int \<Rightarrow> nat \<Rightarrow> nat list \<Rightarrow> bt_lines" where
  "numbered color k xs = map (\<lambda>(i, a). (color, Frame i a)) (enumerate k xs)"

lemma numbered_simps [simp]:
  "numbered color k [] = []" "numbered color k (x # xs) = (color, Frame k x) # numbered color (Suc k) xs"
  by (simp_all add: numbered_def)

lemma print_frames_range:
  "print_frames color (us @ xs @ vs) [length us..<length us + length xs] = Some (numbered color (length us) xs)"
proof (induction xs arbitrary: us)
  case (Cons x xs)
  have "print_frames color ((us @ [x]) @ xs @ vs) [length (us @ [x])..<length (us @ [x]) + length xs]
      = Some (numbered color (Suc (length us)) xs)"
    using Cons[of "us @ [x]"] by (simp del: upt_Suc)
  then show ?case by (simp add: upt_conv_Cons del: upt_Suc)
qed simp

lemma printPartial_prefix:
  assumes "m_bt b = us @ cs"
  shows "printPartial 0 (- int (length cs) - 1) color b = Some (numbered color 0 us)"
proof (cases "us = []")
  case False
  then have "nat (int (length (m_bt b)) + (- int (length cs) - 1)) = length us - 1" "Suc (length us - 1) = length us"
    using assms by auto
  then show ?thesis using assms False print_frames_range[of color "[]" us cs]
    by (simp add: printPartial_def del: upt_Suc)
qed (use assms in \<open>simp add: printPartial_def\<close>)

lemma printPartial_suffix:
  assumes "m_bt b = us @ cs" "cs \<noteq> []"
  shows "printPartial (length us) (-1) color b = Some (numbered color (length us) cs)"
proof -
  have "Suc (nat (int (length (m_bt b)) + -1)) = length us + length cs" "\<not> length us > nat (int (length (m_bt b)) + -1)"
    using assms by (cases cs; simp)+
  then show ?thesis using assms print_frames_range[of color us cs "[]"]
    by (simp add: printPartial_def del: upt_Suc)
qed

lemma common_loop_split:
  assumes "this = vs @ cs" "other = us @ cs"
  shows "\<exists>us' vs' cs'. this = vs' @ cs' \<and> other = us' @ cs' \<and> common_loop this other (length cs) = length cs'
    \<and> (us' = [] \<or> vs' = [] \<or> last us' \<noteq> last vs')"
  using assms
proof (induction vs arbitrary: us cs rule: rev_induct)
  case Nil
  then show ?case by (intro exI[of _ us] exI[of _ "[]"] exI[of _ cs]) (simp add: common_loop.simps)
next
  case (snoc v vs)
  show ?case
  proof (cases us rule: rev_cases)
    case Nil
    then show ?thesis using snoc.prems
      by (intro exI[of _ "[]"] exI[of _ "vs @ [v]"] exI[of _ cs]) (simp add: common_loop.simps)
  next
    case (snoc us0 u)
    have n: "this ! (length this - 1 - length cs) = v" "other ! (length other - 1 - length cs) = u"
        "length cs < min (length this) (length other)"
      using snoc snoc.prems by (simp_all add: nth_append)
    show ?thesis
    proof (cases "u = v")
      case True
      then have "common_loop this other (length cs) = common_loop this other (length (v # cs))"
        using n by (subst common_loop.simps) simp
      moreover have "this = vs @ (v # cs)" "other = us0 @ (v # cs)" using snoc snoc.prems True by simp_all
      ultimately show ?thesis using snoc.IH[of "v # cs" us0] by simp
    next
      case False
      then have "common_loop this other (length cs) = length cs" using n by (subst common_loop.simps) simp
      then show ?thesis using snoc snoc.prems False
        by (intro exI[of _ us] exI[of _ "vs @ [v]"] exI[of _ cs]) simp
    qed
  qed
qed

lemma print_lines:
  "print color b = Some ((color, OfFiber (m_fiber b) (m_fiberId b)) # numbered color 0 (m_bt b)
     @ [(color, if m_truncated b then Truncated else EndOfTrace)])"
proof (cases "m_bt b = []")
  case False
  then have "printPartial 0 (int (length (m_bt b)) - 1) color b = printPartial 0 (-1) color b"
    by (simp add: printPartial_def Let_def)
  then show ?thesis using False printPartial_suffix[of b "[]" "m_bt b" color] by (simp add: print_def)
qed (simp add: print_def)

text \<open>
  What \<^verbatim>\<open>printDelta()\<close> prints of two complete backtraces of the same fiber, without colour: the frames of the earlier one and
  of the later one that they do not share, and then the frames they have in common, which are the longest common end of the
  two. Every frame has the number that it has in its own backtrace.
\<close>

theorem printDelta_splits:
  assumes "\<not> isBefore (m_t0 this) (m_t0 other)" "m_fiberId other = m_fiberId this" "\<not> m_truncated other" "\<not> m_truncated this"
  shows "\<exists>us vs cs. m_bt other = us @ cs \<and> m_bt this = vs @ cs \<and> (us = [] \<or> vs = [] \<or> last us \<noteq> last vs)
    \<and> printDelta (-1) other this = Some ((-1, ExecutionFrom (m_fiber this) (m_fiberId this)) # numbered (-1) 0 us
      @ (-1, To) # numbered (-1) 0 vs
      @ (if cs = [] then [] else (-1, InCommon) # numbered (-1) (length us) cs)
      @ [(-1, Took (ts_diff (m_t0 this) (m_t1 other)))])"
proof -
  have "\<exists>us vs cs. m_bt this = vs @ cs \<and> m_bt other = us @ cs
      \<and> common_loop (m_bt this) (m_bt other) 0 = length cs \<and> (us = [] \<or> vs = [] \<or> last us \<noteq> last vs)"
    using common_loop_split[of "m_bt this" "m_bt this" "[]" "m_bt other" "m_bt other"] by simp
  then obtain us vs cs where s: "m_bt this = vs @ cs" "m_bt other = us @ cs"
      "common_loop (m_bt this) (m_bt other) 0 = length cs" "us = [] \<or> vs = [] \<or> last us \<noteq> last vs"
    by (elim exE conjE) (rule that)
  have "printDelta (-1) other this = Some ((-1, ExecutionFrom (m_fiber this) (m_fiberId this)) # numbered (-1) 0 us
      @ (-1, To) # numbered (-1) 0 vs
      @ (if cs = [] then [] else (-1, InCommon) # numbered (-1) (length us) cs)
      @ [(-1, Took (ts_diff (m_t0 this) (m_t1 other)))])"
    using assms printPartial_prefix[OF s(2), of "-1"] printPartial_prefix[OF s(1), of "-1"]
      printPartial_suffix[OF s(2), of "-1"] s(2,3)
    by (subst printDelta.simps) (simp add: Let_def)
  then show ?thesis using s by blast
qed

definition demo_bt :: "nat list \<Rightarrow> int \<Rightarrow> backtrace" where
  "demo_bt fs t = \<lparr>m_t0 = Timespec t 0, m_t1 = Timespec t 0, m_fiber = Some 1, m_fiberId = 7, m_bt = fs, m_truncated = False\<rparr>"

theorem printDelta_splits_witness:
  "\<exists>ls. printDelta (-1) (demo_bt [10, 11, 12] 1) (demo_bt [20, 12] 2) = Some ls"
proof -
  have "\<not> isBefore (m_t0 (demo_bt [20, 12] 2)) (m_t0 (demo_bt [10, 11, 12] 1))"
    by (simp add: demo_bt_def isBefore_def)
  from printDelta_splits[OF this] show ?thesis by (fastforce simp: demo_bt_def)
qed

text \<open>
  With a colour the common frames are not printed as meant: a colour below the number of the first of them prints none, and
  one beyond the last frame reads past the end of the vector.
\<close>

lemma printPartial_colour:
  assumes "0 \<le> color" "m_bt b \<noteq> []"
  shows "color < int start \<Longrightarrow> printPartial start color (-1) b = Some []"
    "int start \<le> color \<Longrightarrow> int (length (m_bt b)) \<le> color \<Longrightarrow> printPartial start color (-1) b = None"
proof -
  have "print_frames c bt [i..<j] = None" if "length bt < j" "i < j" for c bt i j
    using that
  proof (induction "j - i" arbitrary: i)
    case (Suc n)
    then show ?case by (cases "Suc i < j") (auto simp: upt_conv_Cons zth_assert_def)
  qed simp
  then show "int start \<le> color \<Longrightarrow> int (length (m_bt b)) \<le> color \<Longrightarrow> printPartial start color (-1) b = None"
    using assms by (simp add: printPartial_def nat_less_iff del: upt_Suc)
  show "color < int start \<Longrightarrow> printPartial start color (-1) b = Some []" using assms by (simp add: printPartial_def)
qed

text \<open>
  With libunwind the maximum depth has no effect, unless it is 0: the variable \<^verbatim>\<open>depth\<close> is never increased, all frames up to
  \<^verbatim>\<open>context_entry()\<close> are stored, and the backtrace never counts as truncated.
\<close>

lemma unwind_ignores_depth:
  assumes "0 < maxDepth" "\<forall>f \<in> set (drop skip frames). snd f \<noteq> Some entry"
  shows "m_bt (Backtrace_unwind entry t0 t1 fiber (Some frames) skip maxDepth) = map fst (drop skip frames)"
    "\<not> m_truncated (Backtrace_unwind entry t0 t1 fiber (Some frames) skip maxDepth)"
proof -
  have "unwind_loop entry maxDepth 0 fs bt = (0, bt @ map fst fs)" if "\<forall>f \<in> set fs. snd f \<noteq> Some entry" for fs bt
    using that assms(1) by (induction fs arbitrary: bt) auto
  then show "m_bt (Backtrace_unwind entry t0 t1 fiber (Some frames) skip maxDepth) = map fst (drop skip frames)"
    "\<not> m_truncated (Backtrace_unwind entry t0 t1 fiber (Some frames) skip maxDepth)"
    using assms by (simp_all add: Backtrace_unwind_def Let_def)
qed

end
