(* ===== verification/Zth_Start.thy ===== *)
theory Zth_Start
  imports Zth_Perf
begin

section \<open>Starting and stopping\<close>

text \<open>
  \<^verbatim>\<open>init.h\<close>, \<^verbatim>\<open>src/init.cpp\<close>, \<^verbatim>\<open>src/config.cpp\<close>, \<^verbatim>\<open>src/main.cpp\<close>, \<^verbatim>\<open>src/fiber.cpp\<close>, \<^verbatim>\<open>src/worker.cpp\<close>, and from \<^verbatim>\<open>worker.h\<close> the constructor
  of the worker and its C functions. The functions that the initialisation calls, and what the system returns, are arguments.
\<close>

subsection \<open>One-time initialisation\<close>

text \<open>
  The entries are linked by their \<^verbatim>\<open>next\<close> pointers. The constructor of an entry appends it at \<^verbatim>\<open>zth_init_tail\<close>. \<open>i_ran\<close> has the entries
  whose functions were called; \<open>body e\<close> has the entries that the function of \<open>e\<close> constructs.
\<close>

record initlist =
  i_head :: "addr option"
  i_tail :: "addr option"
  i_link :: "addr \<Rightarrow> addr option"
  i_ran :: "addr list"

definition init_register :: "addr \<Rightarrow> initlist \<Rightarrow> initlist" where
  "init_register e s =
     (let s = s\<lparr>i_link := (i_link s)(e := None)\<rparr>;
          s = (case i_tail s of None \<Rightarrow> s | Some t \<Rightarrow> s\<lparr>i_link := (i_link s)(t := Some e)\<rparr>);
          s = s\<lparr>i_tail := Some e\<rparr>
      in if i_head s = None then s\<lparr>i_head := Some e\<rparr> else s)"

partial_function (option) init_loop :: "(addr \<Rightarrow> addr list) \<Rightarrow> addr option \<Rightarrow> initlist \<Rightarrow> initlist option" where
  "init_loop body p s = (case p of
     None \<Rightarrow> Some s
   | Some e \<Rightarrow>
       let p_next = i_link s e; s = fold init_register (body e) (s\<lparr>i_ran := i_ran s @ [e]\<rparr>)
       in init_loop body p_next s)"

definition zth_init :: "(addr \<Rightarrow> addr list) \<Rightarrow> initlist \<Rightarrow> initlist option" where
  "zth_init body s =
     (if i_head s = None then Some s
      else init_loop body (i_head s) (s\<lparr>i_head := None\<rparr>))"

text \<open>A program registers entries and initialises, in any order. The specification keeps the entries that todo and those that ran.\<close>

datatype init_call = Register addr | Init

fun init_calls :: "(addr \<Rightarrow> addr list) \<Rightarrow> init_call list \<Rightarrow> initlist \<Rightarrow> initlist option" where
  "init_calls body [] s = Some s"
| "init_calls body (Register e # cs) s = init_calls body cs (init_register e s)"
| "init_calls body (Init # cs) s = do { s \<leftarrow> zth_init body s; init_calls body cs s }"

fun init_spec :: "init_call list \<Rightarrow> addr list \<times> addr list \<Rightarrow> addr list \<times> addr list" where
  "init_spec [] x = x"
| "init_spec (Register e # cs) (todo, gone) = init_spec cs (todo @ [e], gone)"
| "init_spec (Init # cs) (todo, gone) = init_spec cs ([], gone @ todo)"

definition init_empty :: initlist where
  "init_empty = \<lparr>i_head = None, i_tail = None, i_link = (\<lambda>_. None), i_ran = []\<rparr>"

fun init_chain :: "(addr \<Rightarrow> addr option) \<Rightarrow> addr option \<Rightarrow> addr list \<Rightarrow> bool" where
  "init_chain nx p [] \<longleftrightarrow> p = None"
| "init_chain nx p (e # es) \<longleftrightarrow> p = Some e \<and> init_chain nx (nx e) es"

definition init_rep :: "addr list \<Rightarrow> addr list \<Rightarrow> initlist \<Rightarrow> bool" where
  "init_rep todo gone s \<longleftrightarrow> i_ran s = gone \<and> distinct (gone @ todo) \<and> init_chain (i_link s) (i_head s) todo
     \<and> i_tail s = (if gone @ todo = [] then None else Some (last (gone @ todo)))"

lemma init_chain_upd: "x \<notin> set es \<Longrightarrow> init_chain (l(x := v)) p es = init_chain l p es"
  by (induction es arbitrary: p) auto

lemma init_chain_snoc:
  "init_chain l p es \<Longrightarrow> distinct (es @ [e]) \<Longrightarrow> es \<noteq> [] \<Longrightarrow> init_chain (l(e := None, last es := Some e)) p (es @ [e])"
proof (induction es arbitrary: p)
  case (Cons a es)
  show ?case
  proof (cases "es = []")
    case False
    then have "a \<noteq> last es" "a \<noteq> e" using Cons.prems(2) by (auto simp: last_in_set)
    then show ?thesis using Cons False by simp
  qed (use Cons in auto)
qed simp

lemma register_rep:
  assumes "init_rep todo gone s" "e \<notin> set (gone @ todo)"
  shows "init_rep (todo @ [e]) gone (init_register e s)"
proof (cases "todo = []")
  case True
  then have "i_head s = None" using assms(1) by (simp add: init_rep_def)
  then show ?thesis using assms True
    by (auto simp: init_rep_def init_register_def Let_def split: option.splits) (metis last_in_set)
next
  case False
  then have "i_tail s = Some (last todo)" "i_head s \<noteq> None" and c: "init_chain (i_link s) (i_head s) todo" "distinct (todo @ [e])"
    using assms by (auto simp: init_rep_def neq_Nil_conv)
  then have "init_register e s = s\<lparr>i_link := (i_link s)(e := None, last todo := Some e), i_tail := Some e\<rparr>"
    by (simp add: init_register_def Let_def)
  then show ?thesis using assms False init_chain_snoc[OF c False] by (auto simp: init_rep_def)
qed

lemma init_loop_runs:
  "init_chain (i_link s) p es \<Longrightarrow> \<forall>e. body e = [] \<Longrightarrow> init_loop body p s = Some (s\<lparr>i_ran := i_ran s @ es\<rparr>)"
proof (induction es arbitrary: p s)
  case Nil
  then show ?case by (subst init_loop.simps) simp
next
  case (Cons e es)
  have "init_loop body (i_link s e) (s\<lparr>i_ran := i_ran s @ [e]\<rparr>)
      = Some (s\<lparr>i_ran := i_ran s @ [e]\<rparr>\<lparr>i_ran := i_ran (s\<lparr>i_ran := i_ran s @ [e]\<rparr>) @ es\<rparr>)"
    by (rule Cons.IH) (use Cons.prems in simp_all)
  then show ?case using Cons.prems by (subst init_loop.simps) simp
qed

lemma init_rep_init:
  assumes "init_rep todo gone s" "\<forall>e. body e = []"
  shows "\<exists>s'. zth_init body s = Some s' \<and> init_rep [] (gone @ todo) s'"
proof (cases "todo = []")
  case True
  then show ?thesis using assms by (simp add: zth_init_def init_rep_def)
next
  case False
  then have "i_head s \<noteq> None" "init_chain (i_link s) (i_head s) todo" using assms(1) by (auto simp: init_rep_def neq_Nil_conv)
  then have "zth_init body s = Some (s\<lparr>i_head := None, i_ran := i_ran s @ todo\<rparr>)"
    using init_loop_runs[of "s\<lparr>i_head := None\<rparr>" "i_head s" todo body] assms(2) by (auto simp: zth_init_def)
  then show ?thesis using assms(1) by (simp add: init_rep_def)
qed

text \<open>
  The initialisation functions run once each, in the order of their registration, no matter how often and when \<^verbatim>\<open>zth_init()\<close> is called.
\<close>

theorem init_once_in_order:
  assumes "\<forall>e. body e = []" "distinct [e. Register e \<leftarrow> calls]"
  shows "\<exists>s. init_calls body calls init_empty = Some s \<and> i_ran s = snd (init_spec calls ([], []))"
proof -
  have all: "\<exists>s'. init_calls body calls s = Some s' \<and> init_rep (fst (init_spec calls (todo, gone))) (snd (init_spec calls (todo, gone))) s'"
    if "init_rep todo gone s" "distinct (gone @ todo @ [e. Register e \<leftarrow> calls])" for todo gone s
    using that
  proof (induction calls arbitrary: todo gone s)
    case (Cons c cs)
    show ?case
    proof (cases c)
      case (Register e)
      then have "init_rep (todo @ [e]) gone (init_register e s)" using Cons.prems by (intro register_rep) auto
      then show ?thesis using Cons.IH[of "todo @ [e]" gone] Cons.prems Register by simp
    next
      case Init
      then obtain s' where "zth_init body s = Some s'" "init_rep [] (gone @ todo) s'"
        using init_rep_init[OF Cons.prems(1) assms(1)] by blast
      then show ?thesis using Cons.IH[of "[]" "gone @ todo" s'] Cons.prems Init by simp
    qed
  qed simp
  have "init_rep [] [] init_empty" by (simp add: init_rep_def init_empty_def)
  then show ?thesis using all[of "[]" "[]" init_empty] assms(2) unfolding init_rep_def by auto
qed

theorem init_once_in_order_witness:
  "\<exists>s. init_calls (\<lambda>_. []) [Register 1, Register 2, Init, Init, Register 3, Init] init_empty = Some s \<and> i_ran s = [1, 2, 3]"
  using init_once_in_order[of "\<lambda>_. []" "[Register 1, Register 2, Init, Init, Register 3, Init]"] by simp

text \<open>
  An entry that an initialisation function constructs is appended to the list that is being walked, but becomes the head of the
  list, too: its function is called by this call of \<^verbatim>\<open>zth_init()\<close>, and again by the next one.
\<close>

lemma init_runs_twice:
  "\<exists>s. init_calls (\<lambda>e. if e = 1 then [3] else []) [Register 1, Register 2, Init, Init] init_empty = Some s \<and> i_ran s = [1, 2, 3, 3]"
  by (simp add: init_empty_def init_register_def zth_init_def Let_def init_loop.simps)

subsection \<open>Configuration by the environment\<close>

datatype env_option = EnableDebugPrint | DoPerfEvent | PerfSyscall | CheckTimesliceOverrun | UnknownOption

definition config_value :: "string option \<Rightarrow> bool \<Rightarrow> bool" where
  "config_value e whenUnset = (case e of
     None \<Rightarrow> whenUnset
   | Some v \<Rightarrow> if v = [] then whenUnset else v \<noteq> ''0'')"

fun config_name :: "env_option \<Rightarrow> string" where
  "config_name EnableDebugPrint = ''ZTH_CONFIG_ENABLE_DEBUG_PRINT''"
| "config_name DoPerfEvent = ''ZTH_CONFIG_DO_PERF_EVENT''"
| "config_name PerfSyscall = ''ZTH_CONFIG_PERF_SYSCALL''"
| "config_name CheckTimesliceOverrun = ''ZTH_CONFIG_CHECK_TIMESLICE_OVERRUN''"
| "config_name UnknownOption = []"

text \<open>The value is kept in a static variable per option. \<open>dbg\<close> is \<^verbatim>\<open>Config::SupportDebugPrint\<close>.\<close>

definition config :: "bool \<Rightarrow> (string \<Rightarrow> string option) \<Rightarrow> env_option \<Rightarrow> bool \<Rightarrow> (env_option \<Rightarrow> bool option)
    \<Rightarrow> bool \<times> (env_option \<Rightarrow> bool option)" where
  "config dbg getenv x whenUnset kept =
     (if x = UnknownOption then (whenUnset, kept)
      else case kept x of
        Some v \<Rightarrow> (v, kept)
      | None \<Rightarrow>
          let v = (x = EnableDebugPrint \<longrightarrow> dbg) \<and> config_value (getenv (config_name x)) whenUnset
          in (v, kept(x := Some v)))"

text \<open>The default of the first call is the default of all later ones.\<close>

lemma config_first_default:
  assumes "getenv (config_name DoPerfEvent) = None" "kept DoPerfEvent = None" "config dbg getenv DoPerfEvent a kept = (v, kept')"
  shows "v = a \<and> fst (config dbg getenv DoPerfEvent b kept') = a"
  using assms by (auto simp: config_def config_value_def Let_def)

subsection \<open>Runnables\<close>

text \<open>
  \<^verbatim>\<open>Runnable::run()\<close>. \<open>w\<close> is the worker of the thread, if any; \<open>r\<close> the fiber of the runnable; \<open>f\<close> the address of the new fiber; \<open>hook\<close>
  is \<^verbatim>\<open>fiberHook()\<close>. The result has the fiber that the runnable has then.
\<close>

definition Runnable_run :: "fid \<Rightarrow> nat \<times> TimeInterval \<times> TimeInterval \<Rightarrow> (fiber \<Rightarrow> errno \<times> fiber) \<Rightarrow> fid option \<Rightarrow> worker option
    \<Rightarrow> (errno \<times> fid option \<times> worker option) option" where
  "Runnable_run f cfg hook r w = (case w of
     None \<Rightarrow> Some (EAGAIN, r, None)
   | Some w \<Rightarrow>
       if r \<noteq> None then Some (EALREADY, r, Some w)
       else do {
         fb \<leftarrow> Fiber False (fst cfg) (fst (snd cfg)) (snd (snd cfg));
         let (res, fb) = hook fb;
         if res \<noteq> E_OK then Some (res, None, Some w)
         else do {
           w \<leftarrow> add f False (upd_fiber f (\<lambda>_. fb) w);
           Some (E_OK, Some f, Some w)
         }
       })"

text \<open>\<^verbatim>\<open>Runnable::fiberHook()\<close> adds \<^verbatim>\<open>cleanup_\<close>, numbered \<open>clean\<close> here; that of the waiter suspends the fiber first.\<close>

definition fiberHook :: "nat \<Rightarrow> addr \<Rightarrow> fiber \<Rightarrow> errno \<times> fiber" where
  "fiberHook clean this fb = (E_OK, atCleanup clean (Some this) fb)"

definition waiter_fiberHook :: "nat \<Rightarrow> addr \<Rightarrow> fiber \<Rightarrow> errno \<times> fiber" where
  "waiter_fiberHook clean this fb = fiberHook clean this (suspend fb)"

definition Runnable_cleanup :: "fid \<Rightarrow> fid option \<Rightarrow> fid option option" where
  "Runnable_cleanup f r = do { zth_assert (r = Some f); Some None }"

subsection \<open>The worker\<close>

text \<open>
  A thread has an instance of the worker, and the state of the worker and its monitor, which has the worker of the thread as
  \<open>p_worker\<close>. The results of \<^verbatim>\<open>context_init()\<close> and of creating the context of the worker's fiber are arguments. A failure is a trap,
  as it aborts the process.
\<close>

record thread =
  t_instance :: "addr option"
  t_perf :: perf
  t_waiter :: "fid option"
  t_init :: initlist

record start_env =
  se_body :: "addr \<Rightarrow> addr list"
  se_context_init :: errno
  se_create :: errno
  se_now :: timespec
  se_DoPerfEvent :: bool
  se_junk :: string
  se_vcd :: vcd_env
  se_cfg :: "nat \<times> TimeInterval \<times> TimeInterval"
  se_name_ok :: bool

definition worker_start :: "fid \<Rightarrow> fiber \<Rightarrow> worker" where
  "worker_start wkf fb = \<lparr>m_fibers = (\<lambda>f. if f = wkf then fb else fb\<lparr>m_state := Uninitialized\<rparr>), m_currentFiber = None,
     m_runnableQueue = [], m_suspendedQueue = [], m_workerFiber = wkf, m_end = ts_null, m_disableContextSwitch = 0\<rparr>"

definition Worker_ctor :: "start_env \<Rightarrow> addr \<Rightarrow> fid \<Rightarrow> fid \<Rightarrow> fid \<Rightarrow> nat \<Rightarrow> thread \<Rightarrow> thread option" where
  "Worker_ctor e this wkf perff waitf clean t = do {
     let t = (if t_instance t = None then t\<lparr>t_instance := Some this\<rparr> else t);
     fb \<leftarrow> Fiber False (fst (se_cfg e)) (fst (snd (se_cfg e))) (snd (snd (se_cfg e)));
     i \<leftarrow> zth_init (se_body e) (t_init t);
     let t = t\<lparr>t_init := i\<rparr>;
     zth_assert (t_instance t = Some this);
     zth_assert (se_context_init e = E_OK);
     let fb = snd (setStackSize 0 fb);
     (r, fb) \<leftarrow> fiber_init (se_create e) (se_now e) fb;
     zth_assert (r = E_OK);
     let p = (t_perf t)\<lparr>p_worker := worker_start wkf fb\<rparr>;
     (r, p) \<leftarrow> perf_init (se_DoPerfEvent e) (se_junk e) (se_vcd e) perff (se_cfg e) clean p;
     zth_assert (r = E_OK);
     p \<leftarrow> perf_event (PerfEvent_name (se_name_ok e) (p_id p wkf) ''zth::Worker'') p;
     (r, wt, w) \<leftarrow> Runnable_run waitf (se_cfg e) (waiter_fiberHook clean this) None (Some (p_worker p));
     zth_assert (r = E_OK);
     w \<leftarrow> w;
     Some (t\<lparr>t_perf := p\<lparr>p_worker := w\<rparr>, t_waiter := wt\<rparr>)
   }"

text \<open>The C functions that create and destroy the worker of the thread.\<close>

definition zth_worker_create :: "start_env \<Rightarrow> alloc \<Rightarrow> addr \<Rightarrow> fid \<Rightarrow> fid \<Rightarrow> fid \<Rightarrow> nat \<Rightarrow> thread \<Rightarrow> (errno \<times> thread) option" where
  "zth_worker_create e al this wkf perff waitf clean t =
     (if t_instance t = None then Some (EINVAL, t)
      else case al of
        BadAlloc \<Rightarrow> Some (ENOMEM, t)
      | OtherException \<Rightarrow> Some (EAGAIN, t)
      | AllocOk \<Rightarrow> do { t \<leftarrow> Worker_ctor e this wkf perff waitf clean t; Some (E_OK, t) })"

definition zth_worker_destroy :: "run_env \<Rightarrow> nat option \<Rightarrow> thread \<Rightarrow> thread option" where
  "zth_worker_destroy env readable t = (case t_instance t of
     None \<Rightarrow> Some t
   | Some this \<Rightarrow> do {
       w \<leftarrow> worker_destroy env (p_worker (t_perf t));
       (out, p) \<leftarrow> perf_deinit readable ((t_perf t)\<lparr>p_worker := w\<rparr>);
       Some (t\<lparr>t_instance := None, t_perf := p\<rparr>)
     })"

text \<open>
  A new worker is ready to run: nothing is running, the fiber of the waiter is suspended until somebody has to wait, and the
  invariant of the worker holds. A second worker on the same thread aborts.
\<close>

theorem worker_ctor_correct:
  assumes "\<not> p_enable (t_perf t)" "se_context_init e = E_OK" "se_create e = E_OK" "wkf \<noteq> waitf"
    "\<not> m_negative (fst (snd (se_cfg e)))" "zth_init (se_body e) (t_init t) = Some i"
  shows "(t_instance t = None \<longrightarrow> (\<exists>t'. Worker_ctor e this wkf perff waitf clean t = Some t' \<and> t_instance t' = Some this
      \<and> t_waiter t' = Some waitf \<and> winv (p_worker (t_perf t')) \<and> m_currentFiber (p_worker (t_perf t')) = None
      \<and> m_runnableQueue (p_worker (t_perf t')) = [] \<and> m_suspendedQueue (p_worker (t_perf t')) = [waitf]
      \<and> st (p_worker (t_perf t')) wkf = Ready))
    \<and> (\<forall>other. other \<noteq> this \<longrightarrow> Worker_ctor e this wkf perff waitf clean (t\<lparr>t_instance := Some other\<rparr>) = None)"
proof -
  obtain sz sl dt where c: "se_cfg e = (sz, sl, dt)" by (cases "se_cfg e")
  have 1: "\<exists>t'. Worker_ctor e this wkf perff waitf clean t = Some t' \<and> t_instance t' = Some this
      \<and> t_waiter t' = Some waitf \<and> winv (p_worker (t_perf t')) \<and> m_currentFiber (p_worker (t_perf t')) = None
      \<and> m_runnableQueue (p_worker (t_perf t')) = [] \<and> m_suspendedQueue (p_worker (t_perf t')) = [waitf]
      \<and> st (p_worker (t_perf t')) wkf = Ready" if "t_instance t = None"
    using assms that c
    by (simp add: Worker_ctor_def Fiber_def setState_def setStackSize_def fiber_init_def perf_init_def perf_event_def
        Runnable_run_def waiter_fiberHook_def fiberHook_def suspend_def atCleanup_def worker_start_def add_def upd_fiber_def
        linked_def spec_push_back_def winv_defs holder_def fiber_inv_def)
  have 2: "Worker_ctor e this wkf perff waitf clean (t\<lparr>t_instance := Some other\<rparr>) = None" if "other \<noteq> this" for other
    using assms that c by (simp add: Worker_ctor_def Fiber_def setState_def zth_assert_def)
  show ?thesis using 1 2 by blast
qed

text \<open>
  The test of \<^verbatim>\<open>zth_worker_create()\<close> is inverted: without a worker it returns an error, and with one, the new one aborts. It never
  succeeds.
\<close>

lemma zth_worker_create_never:
  assumes "t_instance t \<noteq> Some this"
  shows "zth_worker_create e al this wkf perff waitf clean t \<noteq> Some (E_OK, t')"
proof (cases "t_instance t")
  case (Some other)
  then have "Worker_ctor e this wkf perff waitf clean t = None"
    using assms by (auto simp: Worker_ctor_def zth_assert_def Fiber_def Let_def split: bind_splits)
  then show ?thesis using Some by (cases al) (simp_all add: zth_worker_create_def)
qed (simp add: zth_worker_create_def)

subsection \<open>Threads and processes\<close>

text \<open>\<^verbatim>\<open>startWorkerThread()\<close>: what happens to the fiber that is allocated.\<close>

datatype fiber_owner = NoFiber | ThreadOwns fiber | Leaked fiber

definition startWorkerThread :: "bool \<Rightarrow> nat \<times> TimeInterval \<times> TimeInterval \<Rightarrow> nat \<Rightarrow> errno \<Rightarrow> (errno \<times> fiber_owner) option" where
  "startWorkerThread pthread cfg stack pthread_create =
     (if \<not> pthread then Some (ENOSYS, NoFiber)
      else do {
        fb \<leftarrow> Fiber False (fst cfg) (fst (snd cfg)) (snd (snd cfg));
        let (res, fb) = (if stack \<noteq> 0 then setStackSize stack fb else (E_OK, fb));
        if res \<noteq> E_OK then Some (res, Leaked fb)
        else if pthread_create \<noteq> E_OK then Some (pthread_create, Leaked fb)
        else Some (E_OK, ThreadOwns fb)
      })"

lemma startWorkerThread_leaks:
  "r \<noteq> E_OK \<Longrightarrow> \<exists>fb. startWorkerThread True cfg stack r = Some (r, Leaked fb)"
  by (auto simp: startWorkerThread_def Fiber_def setState_def setStackSize_def)

text \<open>
  \<^verbatim>\<open>execlp()\<close>. \<open>args\<close> are the variadic arguments up to the null pointer. \<open>dup i\<close> tells whether the \<open>i\<close>-th copy can be allocated, \<open>push i\<close>
  what \<^verbatim>\<open>push_back()\<close> of the \<open>i\<close>-th element does. The result is the error, the vector, and the copies that are allocated.
\<close>

fun exec_args :: "(nat \<Rightarrow> bool) \<Rightarrow> (nat \<Rightarrow> alloc) \<Rightarrow> nat \<Rightarrow> string list \<Rightarrow> string option list \<times> string list
    \<Rightarrow> errno \<times> string option list \<times> string list" where
  "exec_args dup push i [] (argv, live) = (case push i of
     AllocOk \<Rightarrow> (E_OK, argv @ [None], live)
   | BadAlloc \<Rightarrow> (ENOMEM, argv, live)
   | OtherException \<Rightarrow> (EAGAIN, argv, live))"
| "exec_args dup push i (a # args) (argv, live) =
     (if \<not> dup i then (ENOMEM, argv, live)
      else case push i of
        AllocOk \<Rightarrow> exec_args dup push (i + 1) args (argv @ [Some a], live @ [a])
      | BadAlloc \<Rightarrow> (ENOMEM, argv, live @ [a])
      | OtherException \<Rightarrow> (EAGAIN, argv, live @ [a]))"

text \<open>\<^verbatim>\<open>execvp()\<close> in the parent: \<open>fork\<close> is \<open>Inl e\<close> when it fails. The child runs the program with the arguments.\<close>

definition execvp :: "errno + unit \<Rightarrow> string \<Rightarrow> string option list \<Rightarrow> errno \<times> (string \<times> string option list) option" where
  "execvp fork file argv = (case fork of Inl e \<Rightarrow> (e, None) | Inr _ \<Rightarrow> (E_OK, Some (file, argv)))"

definition execlp :: "(nat \<Rightarrow> bool) \<Rightarrow> (nat \<Rightarrow> alloc) \<Rightarrow> errno + unit \<Rightarrow> string \<Rightarrow> string \<Rightarrow> string list
    \<Rightarrow> errno \<times> (string \<times> string option list) option \<times> string list" where
  "execlp dup push fork file arg0 args =
     (let (res, argv, live) = exec_args dup push 0 args ([], []);
          (res, child) = (if res = E_OK then execvp fork file argv else (res, None))
      in (res, child, fold (\<lambda>x live. case x of None \<Rightarrow> live | Some a \<Rightarrow> remove1 a live) argv live))"

lemma exec_args_ok:
  "\<forall>i. dup i \<and> push i = AllocOk \<Longrightarrow> exec_args dup push i args (argv, live) = (E_OK, argv @ map Some args @ [None], live @ args)"
  by (induction args arbitrary: i argv live) auto

lemma free_all: "fold (\<lambda>x live. case x of None \<Rightarrow> live | Some a \<Rightarrow> remove1 a live) (map Some xs @ [None]) (xs @ ys) = ys"
  by (induction xs) auto

text \<open>
  The program gets the variadic arguments, without the one that is named \<^verbatim>\<open>arg\<close>, which should be its name; all copies are
  freed.
\<close>

lemma execlp_drops_arg:
  assumes "\<forall>i. dup i \<and> push i = AllocOk"
  shows "execlp dup push (Inr ()) file arg0 args = (E_OK, Some (file, map Some args @ [None]), [])"
  using exec_args_ok[OF assms, of 0 args "[]" "[]"] free_all[of args "[]"] by (simp add: execlp_def execvp_def)

text \<open>When the vector cannot grow, the copy that was to be added is lost.\<close>

lemma execlp_leaks: "push 0 = BadAlloc \<Longrightarrow> dup 0 \<Longrightarrow> execlp dup push fork file arg0 (a # args) = (ENOMEM, None, [a])"
  by (simp add: execlp_def)

text \<open>
  \<^verbatim>\<open>sigchld_check()\<close>: the flag, and the children that were reaped. \<open>wp i\<close> is the \<open>i\<close>-th result of \<^verbatim>\<open>waitpid()\<close>.
\<close>

partial_function (option) reap_loop :: "(nat \<Rightarrow> int) \<Rightarrow> nat \<Rightarrow> int list \<Rightarrow> int list option" where
  "reap_loop wp i pids = (if wp i = 0 \<or> wp i = -1 then Some pids else reap_loop wp (i + 1) (pids @ [wp i]))"

definition sigchld_check :: "(nat \<Rightarrow> int) \<Rightarrow> bool \<Rightarrow> (int list \<times> bool) option" where
  "sigchld_check wp flag = (if \<not> flag then Some ([], flag) else do { pids \<leftarrow> reap_loop wp 0 []; Some (pids, False) })"

lemma reap_loop_ok:
  assumes "wp n = 0 \<or> wp n = -1" "\<forall>j. i \<le> j \<and> j < n \<longrightarrow> wp j \<noteq> 0 \<and> wp j \<noteq> -1" "i \<le> n"
  shows "reap_loop wp i pids = Some (pids @ map wp [i..<n])"
  using assms
proof (induction "n - i" arbitrary: i pids)
  case 0
  then show ?case by (subst reap_loop.simps) simp
next
  case (Suc d)
  then have "reap_loop wp i pids = reap_loop wp (i + 1) (pids @ [wp i])" by (subst reap_loop.simps) simp
  also have "\<dots> = Some ((pids @ [wp i]) @ map wp [i + 1..<n])" using Suc by (intro Suc.hyps(1)) auto
  finally show ?case using Suc.hyps(2) by (simp add: upt_conv_Cons)
qed

text \<open>After a signal, all children that have ended are reaped, however many there are.\<close>

lemma sigchld_check_reaps:
  assumes "wp n = 0 \<or> wp n = -1" "\<forall>j < n. wp j \<noteq> 0 \<and> wp j \<noteq> -1"
  shows "sigchld_check wp True = Some (map wp [0..<n], False)"
  using reap_loop_ok[of wp n 0 "[]"] assms by (simp add: sigchld_check_def)

subsection \<open>The main function\<close>

definition EXIT_FAILURE :: int where
  "EXIT_FAILURE = 1"

text \<open>
  \<open>main\<close>, after the worker has run: \<open>threw\<close> says that something threw an exception, \<open>f\<close> is the future of the main fiber: no value, the
  exception that ended it, or its result. \<open>post\<close> is the result of \<^verbatim>\<open>zth_postdeinit()\<close>.
\<close>

definition main_result :: "bool \<Rightarrow> ('x + int) option \<Rightarrow> int \<Rightarrow> int" where
  "main_result threw f post =
     (let res = (if threw then EXIT_FAILURE
        else case f of None \<Rightarrow> EXIT_FAILURE | Some (Inl x) \<Rightarrow> EXIT_FAILURE | Some (Inr v) \<Rightarrow> v)
      in if post \<noteq> 0 then post else res)"

lemma main_result_success: "main_result threw f post = 0 \<longleftrightarrow> \<not> threw \<and> f = Some (Inr 0) \<and> post = 0"
  by (auto simp: main_result_def EXIT_FAILURE_def Let_def split: option.splits sum.splits)

end
