(* ===== verification/Zth_Str.thy ===== *)
theory Zth_Str
  imports Zth_Vcd Complex_Main
begin

section \<open>Values as text\<close>

text \<open>
  \<^verbatim>\<open>util.h\<close>, \<^verbatim>\<open>src/util.cpp\<close> and \<^verbatim>\<open>time.h\<close>: \<^verbatim>\<open>formatv()\<close> with its buffers, the functions \<^verbatim>\<open>str<T>()\<close>, and the text of a \<^verbatim>\<open>TimeInterval\<close>. The formats of
  \<^verbatim>\<open>printf()\<close> for integers are definitions here (\<open>dec\<close> and \<open>digit\<close> are those of \<open>Zth_Vcd\<close>); those for floating-point numbers are arguments.
  \<open>lmt\<close> is \<^verbatim>\<open>Config::UseLimitedFormatSpecifiers\<close>. An \<^verbatim>\<open>int\<close> has 32 bits, a \<^verbatim>\<open>long\<close> and a \<^verbatim>\<open>long long\<close> 64.
\<close>

unbundle bit_operations_syntax

subsection \<open>Formatting into a buffer\<close>

text \<open>
  \<^verbatim>\<open>vsnprintf()\<close> for a buffer of the given size: \<open>out\<close> is the text that the format and its arguments give, or \<open>None\<close> for an error. The
  result is the length of the whole text.
\<close>

definition vsnprintf :: "nat \<Rightarrow> string option \<Rightarrow> string \<Rightarrow> int \<times> string" where
  "vsnprintf n out buf = (case out of
     None \<Rightarrow> (-1, buf)
   | Some s \<Rightarrow>
       (int (length s),
        if n = 0 then buf
        else take (n - 1) s @ [CHR 0x00] @ drop (length (take (n - 1) s) + 1) buf))"

definition string_resize :: "nat \<Rightarrow> string \<Rightarrow> string" where
  "string_resize n s = take n s @ replicate (n - length s) (CHR 0x00)"

definition as_size :: "int \<Rightarrow> nat" where
  "as_size c = nat (c mod 2 ^ 64)"

text \<open>\<^verbatim>\<open>formatv()\<close> for C++17; \<open>cap\<close> is the capacity of a new string. Its copy of the arguments makes the two calls see the same.\<close>

definition formatv17 :: "nat \<Rightarrow> string option \<Rightarrow> string" where
  "formatv17 cap out =
     (let res = string_resize cap [];
          (c, res) = vsnprintf (length res) out res;
          (c, res) = (if as_size c \<ge> length res
            then let res = string_resize (as_size (int (as_size c) + 1)) res in vsnprintf (length res) out res
            else (c, res))
      in string_resize (if c > 0 then as_size c else 0) res)"

text \<open>The one for older compilers: a buffer on the stack of \<open>maxstack\<close> bytes, and one on the heap, when \<open>alloc\<close> says that there is memory.\<close>

definition maxstack :: nat where
  "maxstack = 8 * 8"

definition formatv98 :: "bool \<Rightarrow> string \<Rightarrow> string option \<Rightarrow> string option" where
  "formatv98 alloc sbuf out =
     (let (c, buf) = vsnprintf maxstack out sbuf
      in if c \<ge> int maxstack
         then if \<not> alloc then Some (take 0 buf)
           else let (c2, hbuf) = vsnprintf (as_size c + 1) out (replicate (as_size c + 1) (CHR 0x00))
             in do { zth_assert (c2 \<le> c); Some (take (as_size (if c2 < 0 then 0 else c2)) hbuf) }
         else Some (take (as_size (if c < 0 then 0 else c)) buf))"

lemma as_size_id: "0 \<le> c \<Longrightarrow> c < 2 ^ 64 \<Longrightarrow> as_size c = nat c"
  by (simp add: as_size_def)

lemma vsnprintf_room: "length s < n \<Longrightarrow> length buf = n \<Longrightarrow>
    \<exists>rest. vsnprintf n (Some s) buf = (int (length s), s @ CHR 0x00 # rest)"
  by (simp add: vsnprintf_def)

text \<open>
  Formatting gives the whole text, however long it is and whatever the size of the buffer that is tried first; an error gives
  the empty string.
\<close>

theorem formatv_complete:
  assumes "length s + 1 < 2 ^ 64" "cap < 2 ^ 64" "length sbuf = maxstack"
  shows "formatv17 cap (Some s) = s \<and> formatv98 True sbuf (Some s) = Some s
    \<and> formatv17 cap None = [] \<and> formatv98 True sbuf None = Some []"
proof -
  have sz: "as_size (int (length s)) = length s" "as_size (int (length s) + 1) = length s + 1"
    using assms(1) by (simp_all add: as_size_id)
  have len: "length (string_resize n x) = n" for n x by (simp add: string_resize_def)
  have 1: "formatv17 cap (Some s) = s"
  proof (cases "cap \<le> length s")
    case True
    obtain buf where b: "vsnprintf cap (Some s) (string_resize cap []) = (int (length s), buf)" "length buf = cap"
      using True by (cases cap) (auto simp: vsnprintf_def string_resize_def)
    obtain rest where "vsnprintf (length s + 1) (Some s) (string_resize (length s + 1) buf) = (int (length s), s @ CHR 0x00 # rest)"
      using vsnprintf_room[of s "length s + 1" "string_resize (length s + 1) buf"] len by auto
    then show ?thesis using True b sz by (simp add: formatv17_def len Let_def) (auto simp: string_resize_def)
  next
    case False
    then obtain rest where "vsnprintf cap (Some s) (string_resize cap []) = (int (length s), s @ CHR 0x00 # rest)"
        "length (s @ CHR 0x00 # rest) = cap"
      using vsnprintf_room[of s cap "string_resize cap []"] len by (auto simp: vsnprintf_def)
    then show ?thesis using False sz by (simp add: formatv17_def len Let_def) (auto simp: string_resize_def)
  qed
  have 2: "formatv98 True sbuf (Some s) = Some s"
  proof (cases "maxstack \<le> length s")
    case True
    then have "fst (vsnprintf maxstack (Some s) sbuf) = int (length s)" by (simp add: vsnprintf_def)
    moreover obtain rest where "vsnprintf (length s + 1) (Some s) (replicate (length s + 1) (CHR 0x00)) = (int (length s), s @ CHR 0x00 # rest)"
      using vsnprintf_room[of s "length s + 1" "replicate (length s + 1) (CHR 0x00)"] by auto
    ultimately show ?thesis using True sz by (simp add: formatv98_def split_beta)
  next
    case False
    then obtain rest where "vsnprintf maxstack (Some s) sbuf = (int (length s), s @ CHR 0x00 # rest)"
      using vsnprintf_room[of s maxstack sbuf] assms(3) by auto
    then show ?thesis using False sz by (simp add: formatv98_def)
  qed
  have 3: "formatv17 cap None = []"
    using assms(2) by (simp add: formatv17_def vsnprintf_def len as_size_def Let_def) (simp add: string_resize_def)
  have 4: "formatv98 True sbuf None = Some []" by (simp add: formatv98_def vsnprintf_def as_size_def)
  show ?thesis using 1 2 3 4 by blast
qed

theorem formatv_complete_witness: "formatv17 15 (Some ''a text that is too long'') = ''a text that is too long''"
  using formatv_complete[of "''a text that is too long''" 15 "replicate maxstack (CHR 0x00)"] by simp

subsection \<open>Integers\<close>

fun hex :: "nat \<Rightarrow> string" where
  "hex n = (if n < 16 then [digit n] else hex (n div 16) @ [digit (n mod 16)])"

declare hex.simps [simp del]

definition pad :: "nat \<Rightarrow> string \<Rightarrow> string" where
  "pad n s = replicate (n - length s) (digit 0) @ s"

text \<open>\<^verbatim>\<open>%d\<close> and its variants for a signed value.\<close>

definition fmt_d :: "int \<Rightarrow> string" where
  "fmt_d x = (if x < 0 then CHR ''-'' # dec (nat (- x)) else dec (nat x))"

definition INT_MAX :: int where
  "INT_MAX = 2 ^ 31 - 1"

definition INT_MIN :: int where
  "INT_MIN = - (2 ^ 31)"

definition strull :: "bool \<Rightarrow> 64 word \<Rightarrow> string" where
  "strull lmt v =
     (if lmt
      then if uint v > INT_MAX then ''0x'' @ hex (unat (ucast (drop_bit 32 v) :: 32 word)) @ pad 8 (hex (unat (ucast (v AND 0xFFFFFFFF) :: 32 word)))
           else fmt_d (uint v)
      else dec (unat v))"

definition str_schar :: "bool \<Rightarrow> 8 word \<Rightarrow> string" where
  "str_schar lmt v = fmt_d (sint v)"

definition str_uchar :: "bool \<Rightarrow> 8 word \<Rightarrow> string" where
  "str_uchar lmt v = dec (unat v)"

definition str_short :: "bool \<Rightarrow> 16 word \<Rightarrow> string" where
  "str_short lmt v = fmt_d (sint v)"

definition str_ushort :: "bool \<Rightarrow> 16 word \<Rightarrow> string" where
  "str_ushort lmt v = dec (unat v)"

definition str_int :: "32 word \<Rightarrow> string" where
  "str_int v = fmt_d (sint v)"

definition str_uint :: "32 word \<Rightarrow> string" where
  "str_uint v = dec (unat v)"

definition str_long :: "bool \<Rightarrow> 64 word \<Rightarrow> string" where
  "str_long lmt v =
     (if lmt
      then if sint v \<le> INT_MAX \<and> sint v \<ge> INT_MIN then fmt_d (sint v) else strull lmt v
      else fmt_d (sint v))"

definition str_ulong :: "bool \<Rightarrow> 64 word \<Rightarrow> string" where
  "str_ulong lmt v =
     (if lmt
      then if uint v \<le> 2 ^ 32 - 1 then dec (unat v) else strull lmt v
      else dec (unat v))"

definition str_llong :: "bool \<Rightarrow> 64 word \<Rightarrow> string" where
  "str_llong lmt v =
     (if lmt
      then if sint v > INT_MAX \<or> sint v < INT_MIN then strull lmt v else fmt_d (sint v)
      else fmt_d (sint v))"

definition str_ullong :: "bool \<Rightarrow> 64 word \<Rightarrow> string" where
  "str_ullong lmt v = strull lmt v"

text \<open>Reading a number back: decimal with an optional sign, or hexadecimal with the prefix \<^verbatim>\<open>0x\<close>.\<close>

definition digit_val :: "char \<Rightarrow> nat" where
  "digit_val c = (let v = of_char c in if v < 58 then v - 48 else v - 87)"

definition read_digits :: "nat \<Rightarrow> string \<Rightarrow> nat" where
  "read_digits b s = foldl (\<lambda>n c. n * b + digit_val c) 0 s"

definition read_number :: "string \<Rightarrow> int" where
  "read_number s =
     (if take 1 s = ''-'' then - int (read_digits 10 (drop 1 s))
      else if take 2 s = ''0x'' then int (read_digits 16 (drop 2 s))
      else int (read_digits 10 s))"

lemma digit_val_digit: "d < 16 \<Longrightarrow> digit_val (digit d) = d"
  by (simp add: digit_val_def digit_def Let_def)

lemma read_digits_snoc: "read_digits b (s @ [c]) = read_digits b s * b + digit_val c"
  by (simp add: read_digits_def)

lemma read_dec: "read_digits 10 (dec n) = n"
proof (induction n rule: dec.induct)
  case (1 n)
  then show ?case by (subst dec.simps) (auto simp: read_digits_snoc digit_val_digit read_digits_def)
qed

lemma read_hex: "read_digits 16 (hex n) = n"
proof (induction n rule: hex.induct)
  case (1 n)
  then show ?case by (subst hex.simps) (auto simp: read_digits_snoc digit_val_digit read_digits_def)
qed

lemma foldl_digits: "foldl (\<lambda>n c. n * b + digit_val c) a s = a * b ^ length s + foldl (\<lambda>n c. n * b + digit_val c) 0 s"
proof (induction s arbitrary: a)
  case (Cons c s)
  let ?F = "foldl (\<lambda>n c. n * b + digit_val c)"
  have "?F (a * b + digit_val c) s = (a * b + digit_val c) * b ^ length s + ?F 0 s" "?F (digit_val c) s = digit_val c * b ^ length s + ?F 0 s"
    by (rule Cons)+
  then show ?case by (simp add: distrib_right)
qed simp

lemma read_digits_append: "read_digits b (s @ t) = read_digits b s * b ^ length t + read_digits b t"
  unfolding read_digits_def by (simp add: foldl_digits[of b "foldl (\<lambda>n c. n * b + digit_val c) 0 s"])

lemma read_digits_zeros: "read_digits b (replicate k (digit 0) @ s) = read_digits b s"
  by (induction k) (simp_all add: read_digits_def digit_val_digit)

lemma hex_length: "n < 16 ^ Suc k \<Longrightarrow> length (hex n) \<le> Suc k"
proof (induction k arbitrary: n)
  case 0
  then show ?case by (subst hex.simps) simp
next
  case (Suc k)
  then have "n div 16 < 16 ^ Suc k" by (simp add: less_mult_imp_div_less)
  then show ?case using Suc.IH[of "n div 16"] by (subst hex.simps) auto
qed

lemma dec_chars: "set (dec n) \<subseteq> digit ` {0..<10}"
proof (induction n rule: dec.induct)
  case (1 n)
  then show ?case by (subst dec.simps) auto
qed

lemma digit_not_sign: "d < 10 \<Longrightarrow> digit d \<noteq> CHR ''-'' \<and> digit d \<noteq> CHR ''x''"
proof -
  assume "d < 10"
  then have "of_char (digit d) = (48 + d :: nat)" by (simp add: digit_def)
  then show ?thesis using \<open>d < 10\<close> by (auto simp: of_char_def)
qed

lemma dec_not_prefixed: "take 1 (dec n) \<noteq> ''-''" "take 2 (dec n) \<noteq> ''0x''"
proof -
  have "CHR ''-'' \<notin> set (dec n)" "CHR ''x'' \<notin> set (dec n)" using dec_chars[of n] digit_not_sign by fastforce+
  then show "take 1 (dec n) \<noteq> ''-''" "take 2 (dec n) \<noteq> ''0x''"
    by (metis in_set_takeD list.set_intros(1), metis in_set_takeD list.set_intros)
qed

lemma read_number_dec: "read_number (dec n) = int n"
  using dec_not_prefixed[of n] by (simp add: read_number_def read_dec)

lemma read_number_fmt_d: "read_number (fmt_d x) = x"
proof (cases "x < 0")
  case True
  then show ?thesis by (simp add: fmt_d_def read_number_def read_dec)
next
  case False
  then show ?thesis by (simp add: fmt_d_def read_number_dec)
qed

lemma read_number_strull: "read_number (strull lmt v) = uint v"
proof (cases "lmt \<and> uint v > INT_MAX")
  case True
  let ?h = "unat (ucast (drop_bit 32 v) :: 32 word)" and ?l = "unat (ucast (v AND 0xFFFFFFFF) :: 32 word)"
  have m: "(0xFFFFFFFF :: 64 word) = mask 32" by (simp add: mask_numeral)
  have lt: "unat v < 2 ^ 64" using unsigned_less[of v, where 'a = nat] by simp
  have h: "?h = unat v div 2 ^ 32"
    using lt by (simp add: unsigned_ucast_eq take_bit_eq_mod unat_drop_bit_eq drop_bit_eq_div unat_div less_mult_imp_div_less)
  have l: "?l = unat v mod 2 ^ 32"
    unfolding m by (simp add: unsigned_ucast_eq take_bit_eq_mod unsigned_take_bit_eq unat_mod flip: take_bit_eq_mask)
  have "length (hex ?l) \<le> 8" using hex_length[of ?l 7] l by simp
  then have p: "length (pad 8 (hex ?l)) = 8" by (simp add: pad_def)
  have "read_number (strull lmt v) = int (read_digits 16 (hex ?h @ pad 8 (hex ?l)))"
    using True by (simp add: strull_def read_number_def)
  also have "\<dots> = int (?h * 16 ^ 8 + ?l)"
    using p by (simp only: read_digits_append read_hex) (simp add: pad_def read_digits_zeros read_hex)
  also have "?h * 16 ^ 8 + ?l = unat v" using h l by (simp add: div_mult_mod_eq)
  finally show ?thesis by simp
next
  case False
  then show ?thesis using read_number_dec read_number_fmt_d by (auto simp: strull_def)
qed

text \<open>
  C35. What \<^verbatim>\<open>str<T>()\<close> gives for an integer reads back as the same number; with limited formats, a negative number below the range of an
  \<^verbatim>\<open>int\<close> reads back as the positive one with the same bits.
\<close>

theorem str_reads_back:
  "read_number (str_schar lmt a) = sint a \<and> read_number (str_uchar lmt a) = uint a
    \<and> read_number (str_short lmt b) = sint b \<and> read_number (str_ushort lmt b) = uint b
    \<and> read_number (str_int c) = sint c \<and> read_number (str_uint c) = uint c
    \<and> read_number (str_ulong lmt d) = uint d \<and> read_number (str_ullong lmt d) = uint d
    \<and> read_number (str_long lmt d) = (if lmt \<and> sint d < INT_MIN then uint d else sint d)
    \<and> read_number (str_llong lmt d) = (if lmt \<and> sint d < INT_MIN then uint d else sint d)"
proof -
  have pos: "uint d = sint d" if "0 \<le> sint d"
  proof -
    have "sint d < 2 ^ 63" using sint_lt[of d] by simp
    then show ?thesis using that by (simp add: uint_sint take_bit_int_eq_self)
  qed
  show ?thesis
    using read_number_dec read_number_fmt_d read_number_strull pos
    by (auto simp: str_schar_def str_uchar_def str_short_def str_ushort_def str_int_def str_uint_def str_ulong_def str_ullong_def
        str_long_def str_llong_def INT_MAX_def INT_MIN_def)
qed

lemma str_llong_loses_sign: "str_llong True (- 3000000000) = ''0xffffffff4d2fa200''"
  by (simp add: str_llong_def strull_def INT_MAX_def INT_MIN_def hex.simps pad_def digit_def) code_simp

subsection \<open>Floating-point numbers\<close>

text \<open>
  \<^verbatim>\<open>impl::strf()\<close> for a finite value, which is a rational number: \<open>rnd\<close> rounds the result of an operation to the nearest \<^verbatim>\<open>float\<close>, and \<open>fmt_g\<close> is
  \<^verbatim>\<open>%g\<close>. A cast to \<^verbatim>\<open>int\<close> truncates towards 0.
\<close>

definition trunc :: "rat \<Rightarrow> int" where
  "trunc x = (if x < 0 then - \<lfloor>- x\<rfloor> else \<lfloor>x\<rfloor>)"

definition strf :: "(rat \<Rightarrow> rat) \<Rightarrow> (rat \<Rightarrow> string) \<Rightarrow> bool \<Rightarrow> rat \<Rightarrow> string" where
  "strf rnd fmt_g lmt value =
     (if lmt
      then
        if \<not> (value < rnd (of_int INT_MAX) \<and> value > rnd (of_int (- INT_MAX))) then ''?range?''
        else let i = trunc value;
                 fi = rnd (of_int i)
          in if \<bar>rnd (fi - value)\<bar> < rnd (1 / 2000) then fmt_d i
             else let f = min \<bar>trunc (rnd (rnd (rnd (value - fi) * 1000) + 1 / 2))\<bar> 999
               in fmt_d i @ ''.'' @ pad 3 (fmt_d f)
      else fmt_g value)"

definition str_float :: "(rat \<Rightarrow> rat) \<Rightarrow> (rat \<Rightarrow> string) \<Rightarrow> bool \<Rightarrow> rat \<Rightarrow> string" where
  "str_float rnd fmt_g lmt value = (if lmt then strf rnd fmt_g lmt value else fmt_g value)"

definition str_double :: "(rat \<Rightarrow> rat) \<Rightarrow> (rat \<Rightarrow> string) \<Rightarrow> bool \<Rightarrow> rat \<Rightarrow> string" where
  "str_double rnd fmt_g lmt value = (if lmt then strf rnd fmt_g lmt (rnd value) else fmt_g value)"

text \<open>A half is printed as it is; its negation, for which no operation rounds, loses its sign and a thousandth.\<close>

lemma halves_floor: "\<lfloor>1 / 2 :: rat\<rfloor> = 0" "\<lfloor>999 / 2 :: rat\<rfloor> = 499" "\<lfloor>1001 / 2 :: rat\<rfloor> = 500"
  by (rule floor_unique; simp)+

lemma strf_half: "str_float (\<lambda>x. x) g True (1 / 2) = ''0.500''"
proof -
  have "str_float (\<lambda>x. x) g True (1 / 2) = fmt_d 0 @ ''.'' @ pad 3 (fmt_d 500)"
    by (simp add: str_float_def strf_def INT_MAX_def trunc_def halves_floor Let_def)
  also have "\<dots> = ''0.500''" by code_simp
  finally show ?thesis .
qed

lemma strf_minus_half: "str_float (\<lambda>x. x) g True (- 1 / 2) = ''0.499''"
proof -
  have "str_float (\<lambda>x. x) g True (- 1 / 2) = fmt_d 0 @ ''.'' @ pad 3 (fmt_d 499)"
    by (simp add: str_float_def strf_def INT_MAX_def trunc_def halves_floor Let_def)
  also have "\<dots> = ''0.499''" by code_simp
  finally show ?thesis .
qed

subsection \<open>Time intervals\<close>

text \<open>
  \<^verbatim>\<open>TimeInterval::str()\<close>. \<open>fmt_sec\<close> and \<open>fmt_g\<close> give the seconds and nanoseconds, added as a \<^verbatim>\<open>double\<close>, in the formats \<^verbatim>\<open>%06.3f\<close> and \<^verbatim>\<open>%g\<close>.
\<close>

definition as_unsigned :: "int \<Rightarrow> nat" where
  "as_unsigned x = nat (x mod 2 ^ 32)"

definition str_limited :: "timespec \<Rightarrow> string" where
  "str_limited t =
     (if tv_sec t \<ge> 60 then dec (as_unsigned (tv_sec t)) @ '' s''
      else if tv_sec t > 0 then dec (as_unsigned (tv_sec t)) @ ''.'' @ pad 3 (dec (as_unsigned (tv_nsec t sdiv 1000000))) @ '' s''
      else dec (as_unsigned (tv_nsec t) div 1000) @ '' us'')"

definition str_fields :: "(int \<Rightarrow> int \<Rightarrow> string) \<Rightarrow> (int \<Rightarrow> int \<Rightarrow> string) \<Rightarrow> timespec \<Rightarrow> string" where
  "str_fields fmt_sec fmt_g t =
     (let d = (tv_sec t sdiv 3600 sdiv 24) mod 2 ^ 64;
          rest = tv_sec t - d * 3600 * 24;
          doPrint = (d > 0);
          res = (if doPrint then dec (nat d) @ ''d:'' else []);
          h = rest sdiv 3600;
          rest = rest - h * 3600;
          (res, doPrint) = (if doPrint then (res @ pad 2 (fmt_d h) @ '':'', True)
            else if h > 0 then (res @ fmt_d h @ '':'', True) else (res, False));
          m = rest sdiv 60;
          rest = rest - m * 60;
          (res, doPrint) = (if doPrint then (res @ pad 2 (fmt_d m) @ '':'', True)
            else if m > 0 then (res @ fmt_d m @ '':'', True) else (res, False))
      in res @ (if doPrint then fmt_sec rest (tv_nsec t) else fmt_g rest (tv_nsec t) @ '' s''))"

definition ti_str :: "(int \<Rightarrow> int \<Rightarrow> string) \<Rightarrow> (int \<Rightarrow> int \<Rightarrow> string) \<Rightarrow> bool \<Rightarrow> TimeInterval \<Rightarrow> string" where
  "ti_str fmt_sec fmt_g lmt t =
     (if isInfinite t then ''infinity''
      else (if m_negative t then ''-'' else []) @ (if lmt then str_limited (m_t t) else str_fields fmt_sec fmt_g (m_t t)))"

text \<open>
  The text of a finite interval of an hour or more splits its seconds in days, hours, minutes and seconds in their ranges, whose sum is the
  interval.
\<close>

theorem ti_str_fields:
  assumes "isNormal t" "\<not> isInfinite t" "ti_sec t \<ge> 3600"
  shows "\<exists>d h m s. ti_sec t = int d * 86400 + int h * 3600 + int m * 60 + s \<and> h < 24 \<and> m < 60 \<and> 0 \<le> s \<and> s < 60
    \<and> ti_str fmt_sec fmt_g False t = (if m_negative t then ''-'' else [])
        @ (if d > 0 then dec d @ ''d:'' @ pad 2 (dec h) else dec h) @ '':'' @ pad 2 (dec m) @ '':'' @ fmt_sec s (ti_nsec t)"
proof -
  let ?n = "ti_sec t"
  have max: "?n \<le> TIME_MAX div 2" using assms(2) by (simp add: isInfinite_def)
  define d h m where "d = ?n div 86400" and "h = (?n - d * 86400) div 3600" and "m = (?n - d * 86400 - h * 3600) div 60"
  have dn: "?n sdiv 3600 sdiv 24 = d"
    using assms(3) by (simp add: d_def sdiv_smod_nonneg pos_imp_zdiv_nonneg_iff zdiv_zmult2_eq[symmetric])
  have dm: "d mod 2 ^ 64 = d" using max assms(3) by (simp add: d_def TIME_MAX_def)
  have r1: "0 \<le> ?n - d * 86400" "?n - d * 86400 < 86400"
    unfolding d_def by (simp_all add: minus_div_mult_eq_mod)
  have r2: "0 \<le> ?n - d * 86400 - h * 3600" "?n - d * 86400 - h * 3600 < 3600"
    unfolding h_def by (simp_all add: minus_div_mult_eq_mod)
  have r3: "0 \<le> ?n - d * 86400 - h * 3600 - m * 60" "?n - d * 86400 - h * 3600 - m * 60 < 60"
    unfolding m_def by (simp_all add: minus_div_mult_eq_mod)
  have nn: "0 \<le> d" "0 \<le> h" "0 \<le> m"
    using assms(3) r1(1) r2(1) unfolding d_def h_def m_def by (simp_all add: pos_imp_zdiv_nonneg_iff)
  have "h < 24" "m < 60" "d = 0 \<Longrightarrow> 0 < h" using r1 r2 r3 nn assms(3) by linarith+
  note rng = nn this r3
  have hs: "(?n - d * 86400) sdiv 3600 = h" "(?n - d * 86400 - h * 3600) sdiv 60 = m"
    using r1(1) r2(1) by (simp_all add: h_def m_def sdiv_smod_nonneg)
  have "str_fields fmt_sec fmt_g (m_t t) =
      (if d > 0 then dec (nat d) @ ''d:'' @ pad 2 (dec (nat h)) else dec (nat h)) @ '':'' @ pad 2 (dec (nat m)) @ '':''
        @ fmt_sec (?n - d * 86400 - h * 3600 - m * 60) (ti_nsec t)"
  proof -
    have e: "?n - d * 3600 * 24 = ?n - d * 86400" by simp
    have f: "fmt_d h = dec (nat h)" "fmt_d m = dec (nat m)" using nn by (simp_all add: fmt_d_def)
    show ?thesis
      unfolding str_fields_def dn dm Let_def e hs f using rng(6) nn(1)
      by (cases "0 < d") (simp_all only: if_True if_False prod.case append.simps append_assoc)
  qed
  then show ?thesis
    using rng assms(2)
    by - (rule exI[of _ "nat d"], rule exI[of _ "nat h"], rule exI[of _ "nat m"],
          rule exI[of _ "?n - d * 86400 - h * 3600 - m * 60"], simp add: ti_str_def nat_less_iff)
qed

theorem ti_str_fields_witness:
  "\<exists>d h m s. 90061 = int d * 86400 + int h * 3600 + int m * 60 + s \<and> h < 24 \<and> m < 60 \<and> 0 \<le> s \<and> s < 60
    \<and> ti_str (\<lambda>s n. ''01.000'') (\<lambda>s n. ''1'') False (mk_interval 90061 0 True) = ''-''
        @ (if d > 0 then dec d @ ''d:'' @ pad 2 (dec h) else dec h) @ '':'' @ pad 2 (dec m) @ '':'' @ ''01.000''"
  using ti_str_fields[of "mk_interval 90061 0 True" "\<lambda>s n. ''01.000''" "\<lambda>s n. ''1''"]
  by (simp add: isNormal_def isInfinite_def TIME_MAX_def BILLION_def)

text \<open>
  With limited formats, the text gives the seconds and, below a minute, the milliseconds or, below a second, the microseconds, rounded
  down.
\<close>

theorem ti_str_limited:
  assumes "isNormal t" "\<not> isInfinite t" "ti_sec t < 2 ^ 32"
  shows "ti_str fmt_sec fmt_g True t = (if m_negative t then ''-'' else []) @
    (if ti_sec t \<ge> 60 then dec (nat (ti_sec t)) @ '' s''
     else if ti_sec t > 0 then dec (nat (ti_sec t)) @ ''.'' @ pad 3 (dec (nat (ti_nsec t div 1000000))) @ '' s''
     else dec (nat (ti_nsec t div 1000)) @ '' us'')"
proof -
  have n: "0 \<le> ti_sec t" "0 \<le> ti_nsec t" "ti_nsec t < BILLION" using assms(1) by (simp_all add: isNormal_def)
  have "as_unsigned (ti_sec t) = nat (ti_sec t)" "as_unsigned (ti_nsec t) div 1000 = nat (ti_nsec t div 1000)"
    "as_unsigned (ti_nsec t sdiv 1000000) = nat (ti_nsec t div 1000000)"
    using n assms(3) by (simp_all add: as_unsigned_def BILLION_def sdiv_smod_nonneg nat_div_distrib)
  then show ?thesis using assms(2) by (simp add: ti_str_def str_limited_def)
qed

theorem ti_str_limited_witness: "ti_str (\<lambda>s n. []) (\<lambda>s n. []) True (mk_interval 2 50000000 False) = dec 2 @ ''.'' @ pad 3 (dec 50) @ '' s''"
  using ti_str_limited[of "mk_interval 2 50000000 False" "\<lambda>s n. []" "\<lambda>s n. []"]
  by (simp add: isNormal_def isInfinite_def TIME_MAX_def BILLION_def)

text \<open>From \<open>2 ^ 32\<close> seconds on, the seconds that are printed wrap around.\<close>

lemma ti_str_limited_wraps: "ti_str fmt_sec fmt_g True (mk_interval (2 ^ 32 + 60) 0 False) = ''60 s''"
  by (simp add: ti_str_def str_limited_def isInfinite_def TIME_MAX_def as_unsigned_def) code_simp

end
