(* ===== verification/Zth_FutureVoid.thy ===== *)
theory Zth_FutureVoid
  imports Zth_Signal
begin

section \<open>Futures without a value\<close>

text \<open>
  \<^verbatim>\<open>sync.h\<close>, the specialisations \<^verbatim>\<open>Optional<void>\<close> and \<^verbatim>\<open>Future<void>\<close>. They have an implementation of their own, with a flag in the place
  of the value. \<open>void_abs\<close> gives the \<^verbatim>\<open>Future<T>\<close> of \<open>Zth_Signal\<close> that one stands for, with a value of type \<open>unit\<close>; the operations agree,
  so that what is proved there holds here. An \<^verbatim>\<open>exception_ptr\<close> is an option; a null one is \<open>None\<close>.
\<close>

subsection \<open>Optional\<close>

record 'e void_optional =
  v_exception :: "'e option"
  v_set :: bool

definition Optional_void :: "bool \<Rightarrow> 'e void_optional" where
  "Optional_void b = \<lparr>v_exception = None, v_set = b\<rparr>"

definition void_optional_exc :: "'e option \<Rightarrow> 'e void_optional" where
  "void_optional_exc x = \<lparr>v_exception = x, v_set = False\<rparr>"

definition void_valid :: "'e void_optional \<Rightarrow> bool" where
  "void_valid p \<longleftrightarrow> v_set p \<or> v_exception p \<noteq> None"

definition void_reset :: "'e void_optional \<Rightarrow> 'e void_optional" where
  "void_reset p = p\<lparr>v_set := False, v_exception := None\<rparr>"

definition void_set :: "'e void_optional \<Rightarrow> 'e void_optional" where
  "void_set p = p\<lparr>v_set := True\<rparr>"

definition void_set_exception :: "'e option \<Rightarrow> 'e void_optional \<Rightarrow> 'e void_optional" where
  "void_set_exception x p = p\<lparr>v_exception := x\<rparr>"

definition void_value :: "'e void_optional \<Rightarrow> ('e + unit) option" where
  "void_value p = do {
     zth_assert (void_valid p);
     case v_exception p of Some e \<Rightarrow> Some (Inl e) | None \<Rightarrow> Some (Inr ())
   }"

text \<open>
  Unlike those of \<^verbatim>\<open>Optional<T>\<close>, the two setters do not discard what was there before: an exception stays in effect when the
  optional is set afterwards.
\<close>

lemma void_set_keeps_exception: "void_value (void_set (void_set_exception (Some e) p)) = Some (Inl e)"
  by (simp add: void_value_def void_set_def void_set_exception_def void_valid_def)

lemma optional_set_drops_exception:
  assumes "optional_ok p" "optional_set_exception x p = Some q"
  shows "(optional_set v q \<bind> optional_value) = Some (Inr v)"
proof -
  have "optional_ok q" using assms optional_set_exception_ok[OF assms(1), of x] by auto
  then obtain r where "optional_set v q = Some r" "optional_ok r" "content r = Some (Inr v)" using optional_set_ok[of q v] by auto
  then show ?thesis by (simp add: optional_value_content)
qed

subsection \<open>Future\<close>

record 'e void_future =
  vf_value :: "'e void_optional"

definition Future_void :: "'e void_future" where
  "Future_void = \<lparr>vf_value = Optional_void False\<rparr>"

definition vf_valid :: "'e void_future \<Rightarrow> bool" where
  "vf_valid m \<longleftrightarrow> void_valid (vf_value m)"

definition vf_wait :: "run_env \<Rightarrow> timespec \<Rightarrow> qid \<Rightarrow> 'e void_future \<Rightarrow> sys \<Rightarrow> (outcome \<times> 'e void_future \<times> sys) option" where
  "vf_wait env now k m s =
     (if \<not> vf_valid m then do {
        (r, s) \<leftarrow> block env now k s;
        case r of SwitchedTo _ \<Rightarrow> Some (Blocked, m, s) | Returned _ \<Rightarrow> Some (Done, m, s)
      }
      else Some (Done, m, s))"

definition vf_set_prepare :: "'e void_future \<Rightarrow> unit option" where
  "vf_set_prepare m = zth_assert (\<not> vf_valid m)"

definition vf_set_finalize :: "qid \<Rightarrow> sys \<Rightarrow> sys option" where
  "vf_set_finalize k s = do { (_, s) \<leftarrow> unblockAll k False s; Some s }"

definition vf_set :: "qid \<Rightarrow> 'e void_future \<Rightarrow> sys \<Rightarrow> ('e void_future \<times> sys) option" where
  "vf_set k m s = do {
     vf_set_prepare m;
     let m = m\<lparr>vf_value := void_set (vf_value m)\<rparr>;
     s \<leftarrow> vf_set_finalize k s;
     Some (m, s)
   }"

definition vf_set_exception :: "qid \<Rightarrow> 'e option \<Rightarrow> 'e void_future \<Rightarrow> sys \<Rightarrow> ('e void_future \<times> sys) option" where
  "vf_set_exception k x m s = do {
     vf_set_prepare m;
     let m = m\<lparr>vf_value := void_set_exception x (vf_value m)\<rparr>;
     s \<leftarrow> vf_set_finalize k s;
     Some (m, s)
   }"

definition vf_exception :: "'e void_future \<Rightarrow> 'e option" where
  "vf_exception m = v_exception (vf_value m)"

text \<open>The part of \<^verbatim>\<open>value()\<close> after \<^verbatim>\<open>wait()\<close>.\<close>

definition vf_value_of :: "'e void_future \<Rightarrow> ('e + unit) option" where
  "vf_value_of m = void_value (vf_value m)"

subsection \<open>It is a future of a unit\<close>

definition void_abs :: "'e void_future \<Rightarrow> (unit, 'e) future" where
  "void_abs m = \<lparr>m_value = \<lparr>m_data = (if v_set (vf_value m) then Some () else None), m_valid = v_set (vf_value m),
     m_exception = v_exception (vf_value m)\<rparr>\<rparr>"

definition void_ok :: "'e void_future \<Rightarrow> bool" where
  "void_ok m \<longleftrightarrow> \<not> (v_set (vf_value m) \<and> v_exception (vf_value m) \<noteq> None)"

lemmas void_defs = void_abs_def void_ok_def Future_void_def Optional_void_def vf_valid_def void_valid_def vf_wait_def
  vf_set_prepare_def vf_set_finalize_def vf_set_def vf_set_exception_def vf_value_of_def void_value_def void_set_def void_set_exception_def

lemma void_abs_valid: "future_valid (void_abs m) = vf_valid m"
  by (simp add: void_defs future_valid_def optional_defs)

lemma void_abs_set: "void_ok m \<Longrightarrow> map_option (map_prod void_abs id) (vf_set k m s) = future_set k () (void_abs m) s"
  by (cases "unblockAll k False s")
     (auto simp: void_defs future_set_def set_prepare_def set_finalize_def future_valid_def optional_defs Let_def zth_assert_def)

lemma void_abs_set_exception:
  "void_ok m \<Longrightarrow> map_option (map_prod void_abs id) (vf_set_exception k x m s) = future_set_exception k x (void_abs m) s"
  by (cases "unblockAll k False s"; cases "vf_valid m")
     (simp_all add: split_beta void_defs future_set_exception_def set_prepare_def set_finalize_def future_valid_def optional_defs Let_def zth_assert_def)

lemma void_abs_wait: "map_option (map_prod id (map_prod void_abs id)) (vf_wait env now k m s) = future_wait env now k (void_abs m) s"
  by (cases "block env now k s") (auto simp: vf_wait_def future_wait_def void_abs_valid split: sched_result.split)

lemma void_abs_value: "void_ok m \<Longrightarrow> vf_value_of m = future_value (void_abs m)"
  by (cases "v_exception (vf_value m)") (auto simp: void_defs future_value_def optional_defs zth_assert_def)

lemma void_ok_kept:
  "vf_set k m s = Some (m', s') \<Longrightarrow> void_ok m'" "vf_set_exception k x m s = Some (m', s') \<Longrightarrow> void_ok m'"
  "vf_wait env now k m s = Some (out, m', s') \<Longrightarrow> m' = m"
  by (auto simp: void_defs Let_def split: bind_splits sched_result.splits if_splits)

text \<open>
  \<^verbatim>\<open>Future<void>\<close> does what a future of a unit does: setting it, with or without an exception (or with a null pointer), waiting for it and reading it all
  give the same, also when they fail; and it never has both a value and an exception.
\<close>

theorem void_future_refines:
  assumes "void_ok m"
  shows "future_valid (void_abs m) = vf_valid m \<and> vf_value_of m = future_value (void_abs m)
    \<and> map_option (map_prod void_abs id) (vf_set k m s) = future_set k () (void_abs m) s
    \<and> map_option (map_prod void_abs id) (vf_set_exception k x m s) = future_set_exception k x (void_abs m) s
    \<and> map_option (map_prod id (map_prod void_abs id)) (vf_wait env now k m s) = future_wait env now k (void_abs m) s
    \<and> (\<forall>m' s'. vf_set k m s = Some (m', s') \<or> vf_set_exception k x m s = Some (m', s') \<longrightarrow> void_ok m')"
  by (intro conjI void_abs_valid void_abs_value[OF assms] void_abs_set[OF assms] void_abs_set_exception[OF assms] void_abs_wait)
     (use void_ok_kept in blast)

theorem void_future_refines_witness:
  "\<exists>s'. vf_set (Qid 9 0) Future_void demo_sys = Some (\<lparr>vf_value = Optional_void True\<rparr>, s')
    \<and> map_option (map_prod void_abs id) (vf_set (Qid 9 0) Future_void demo_sys) = future_set (Qid 9 0) () (void_abs (Future_void :: nat void_future)) demo_sys"
proof -
  have "void_ok (Future_void :: nat void_future)" by (simp add: void_defs)
  moreover obtain s' where "unblockAll (Qid 9 0) False demo_sys = Some (queues demo_sys (Qid 9 0) \<noteq> [], s')"
    using calm_unblockAll[OF demo_calm, of "Qid 9 0"] by auto
  ultimately show ?thesis
    using void_future_refines[of "Future_void :: nat void_future" "Qid 9 0" demo_sys] by (simp add: void_defs Let_def)
qed

text \<open>
  Setting it with a null \<^verbatim>\<open>exception_ptr\<close> wakes the fibers that wait, but leaves the future without a value: they fail when they read
  it.
\<close>

lemma void_set_null_traps:
  assumes "\<not> vf_valid m" "unblockAll k False s = Some (b, s')"
  shows "\<exists>m'. vf_set_exception k None m s = Some (m', s') \<and> vf_value_of m' = None"
  using assms by (auto simp: void_defs Let_def zth_assert_def)

end
