(* ===== verification/Zth_Locked.thy ===== *)
theory Zth_Locked
  imports Zth_Sync
begin

section \<open>Guards of a mutex\<close>

text \<open>
  \<^verbatim>\<open>sync.h\<close>, class \<^verbatim>\<open>Locked\<close>: an object that locks a mutex while it lives. The mutexes are named by their address; a variable holds no
  object, an object without a mutex, or one with the mutex it has locked.
\<close>

record guards =
  g_mutex :: "addr \<Rightarrow> mutex"
  g_held :: "nat \<Rightarrow> addr option option"

definition guard_q :: "addr \<Rightarrow> qid" where
  "guard_q a = Qid a 0"

text \<open>The constructor; when \<^verbatim>\<open>lock()\<close> blocks, the object is there only when the fiber has locked the mutex later on.\<close>

definition Locked :: "run_env \<Rightarrow> timespec \<Rightarrow> nat \<Rightarrow> addr \<Rightarrow> guards \<Rightarrow> sys \<Rightarrow> (outcome \<times> guards \<times> sys) option" where
  "Locked env now x a g s = do {
     (out, m, s) \<leftarrow> mutex_lock env now (guard_q a) (g_mutex g a) s;
     let g = g\<lparr>g_mutex := (g_mutex g)(a := m)\<rparr>;
     Some (out, if out = Done then g\<lparr>g_held := (g_held g)(x := Some (Some a))\<rparr> else g, s)
   }"

definition locked_unlock :: "addr option \<Rightarrow> guards \<Rightarrow> sys \<Rightarrow> (guards \<times> sys) option" where
  "locked_unlock p g s = (case p of
     None \<Rightarrow> Some (g, s)
   | Some a \<Rightarrow> do {
       (m, s) \<leftarrow> mutex_unlock (guard_q a) (g_mutex g a) s;
       Some (g\<lparr>g_mutex := (g_mutex g)(a := m)\<rparr>, s)
     })"

definition Locked_dtor :: "nat \<Rightarrow> guards \<Rightarrow> sys \<Rightarrow> (guards \<times> sys) option" where
  "Locked_dtor x g s = do {
     p \<leftarrow> g_held g x;
     (g, s) \<leftarrow> locked_unlock p g s;
     Some (g\<lparr>g_held := (g_held g)(x := None)\<rparr>, s)
   }"

definition Locked_assign :: "nat \<Rightarrow> nat \<Rightarrow> guards \<Rightarrow> sys \<Rightarrow> (guards \<times> sys) option" where
  "Locked_assign x y g s = do {
     p \<leftarrow> g_held g x;
     _ \<leftarrow> g_held g y;
     (g, s) \<leftarrow> locked_unlock p g s;
     q \<leftarrow> g_held g y;
     let g = g\<lparr>g_held := (g_held g)(x := Some q)\<rparr>;
     Some (g\<lparr>g_held := (g_held g)(y := Some None)\<rparr>, s)
   }"

definition Locked_move :: "nat \<Rightarrow> nat \<Rightarrow> guards \<Rightarrow> sys \<Rightarrow> (guards \<times> sys) option" where
  "Locked_move x y g s = Locked_assign x y (g\<lparr>g_held := (g_held g)(x := Some None)\<rparr>) s"

text \<open>
  What the fibers do: the one in control constructs a guard, tries again after it was blocked, destroys, moves or assigns guards; or
  control moves on.
\<close>

inductive guard_step :: "run_env \<Rightarrow> guards sync_state \<Rightarrow> guards sync_state \<Rightarrow> bool" for env where
  Construct: "executing f s \<Longrightarrow> g_held g x = None \<Longrightarrow> Locked env t x a g s = Some (out, g', s') \<Longrightarrow> guard_step env (g, s, t) (g', s', t)"
| Destroy: "executing f s \<Longrightarrow> Locked_dtor x g s = Some (g', s') \<Longrightarrow> guard_step env (g, s, t) (g', s', t)"
| Assign: "executing f s \<Longrightarrow> Locked_assign x y g s = Some (g', s') \<Longrightarrow> guard_step env (g, s, t) (g', s', t)"
| Move: "executing f s \<Longrightarrow> g_held g x = None \<Longrightarrow> x \<noteq> y \<Longrightarrow> Locked_move x y g s = Some (g', s') \<Longrightarrow> guard_step env (g, s, t) (g', s', t)"
| Other: "other_of env (g, s, t) (g', s', t') \<Longrightarrow> guard_step env (g, s, t) (g', s', t')"

definition guards_match :: "guards \<Rightarrow> bool" where
  "guards_match g \<longleftrightarrow>
     (\<forall>a. m_locked (g_mutex g a) \<longleftrightarrow> (\<exists>x. g_held g x = Some (Some a)))
     \<and> (\<forall>a x y. g_held g x = Some (Some a) \<longrightarrow> g_held g y = Some (Some a) \<longrightarrow> x = y)"

definition guard_inv :: "run_env \<Rightarrow> guards sync_state \<Rightarrow> bool" where
  "guard_inv env z \<longleftrightarrow> inv_of env z \<and> guards_match (fst z)"

definition guards_new :: guards where
  "guards_new = \<lparr>g_mutex = (\<lambda>_. Mutex), g_held = (\<lambda>_. None)\<rparr>"

lemma inv_of_obj: "inv_of env (m, s, t) = inv_of env (m', s, t)"
  by (simp add: inv_of_def)

lemma Locked_ok:
  assumes "inv_of env (g, s, t)" "guards_match g" "executing f s" "g_held g x = None"
  shows "\<exists>out g' s'. Locked env t x a g s = Some (out, g', s') \<and> inv_of env (g', s', t) \<and> guards_match g'
    \<and> (out = Done \<longleftrightarrow> \<not> m_locked (g_mutex g a)) \<and> (out = Done \<longrightarrow> g_held g' x = Some (Some a))"
proof (cases "m_locked (g_mutex g a)")
  case True
  obtain h s' where s': "block env t (guard_q a) s = Some (SwitchedTo h, s')" "inv_of env (g, s', t)"
    using block_of_ok[OF assms(1), of f "guard_q a" g] assms(3) by (auto simp: exec_of_def)
  have "Locked env t x a g s = Some (Blocked, g, s')"
    using True s'(1) by (simp add: Locked_def mutex_lock.simps Let_def)
  then show ?thesis using True s'(2) assms(2) by auto
next
  case False
  have "\<nexists>y. g_held g y = Some (Some a)" using assms(2) False by (auto simp: guards_match_def)
  then have "guards_match (g\<lparr>g_mutex := (g_mutex g)(a := (g_mutex g a)\<lparr>m_locked := True\<rparr>), g_held := (g_held g)(x := Some (Some a))\<rparr>)"
    using assms(2,4) by (auto simp: guards_match_def) (metis option.distinct(1))
  then show ?thesis using False assms(1) by (simp add: Locked_def mutex_lock.simps Let_def inv_of_def)
qed

text \<open>Unlocking what a guard holds never fails; it leaves the guards consistent once that guard has let go.\<close>

lemma locked_unlock_ok:
  assumes "inv_of env (g, s, t)" "guards_match g" "executing f s" "g_held g x = Some p"
  shows "\<exists>g' s'. locked_unlock p g s = Some (g', s') \<and> inv_of env (g', s', t) \<and> g_held g' = g_held g \<and> executing f s'
    \<and> (\<forall>a. m_locked (g_mutex g' a) \<longleftrightarrow> m_locked (g_mutex g a) \<and> p \<noteq> Some a)"
proof (cases p)
  case (Some a)
  then have l: "m_locked (g_mutex g a)" using assms(2,4) by (auto simp: guards_match_def)
  obtain r s' where s': "unblockFirst (guard_q a) False s = Some (r, s')" "inv_of env (g, s', t)" "executing f s'"
    using unblockFirst_of_ok[OF assms(1), of f "guard_q a" g] assms(3) by (auto simp: exec_of_def)
  then show ?thesis using Some l by (auto simp: locked_unlock_def mutex_unlock_def inv_of_def)
qed (use assms in \<open>simp add: locked_unlock_def\<close>)

lemma guards_match_release:
  assumes "guards_match g" "g_held g x = Some p" "\<forall>a. m_locked (g_mutex g' a) \<longleftrightarrow> m_locked (g_mutex g a) \<and> p \<noteq> Some a"
    "g_held g' = (g_held g)(x := v)" "v = None \<or> v = Some None"
  shows "guards_match g'"
  using assms unfolding guards_match_def by (auto split: if_splits) (metis option.inject)+

lemma guards_match_pass:
  assumes "guards_match g" "g_held g x = Some None" "g_held g y = Some q" "x \<noteq> y"
  shows "guards_match (g\<lparr>g_held := (g_held g)(x := Some q, y := Some None)\<rparr>)"
  using assms unfolding guards_match_def by (auto split: if_splits) (metis option.inject option.distinct(1))+

lemma Locked_dtor_ok:
  assumes "inv_of env (g, s, t)" "guards_match g" "executing f s" "g_held g x = Some p"
  shows "\<exists>g' s'. Locked_dtor x g s = Some (g', s') \<and> inv_of env (g', s', t) \<and> guards_match g'"
proof -
  obtain g1 s' where u: "locked_unlock p g s = Some (g1, s')" "inv_of env (g1, s', t)" "g_held g1 = g_held g"
      "\<forall>a. m_locked (g_mutex g1 a) \<longleftrightarrow> m_locked (g_mutex g a) \<and> p \<noteq> Some a"
    using locked_unlock_ok[OF assms] by blast
  have "guards_match (g1\<lparr>g_held := (g_held g1)(x := None)\<rparr>)"
    using guards_match_release[OF assms(2,4), of "g1\<lparr>g_held := (g_held g1)(x := None)\<rparr>" None] u(3,4) by simp
  then show ?thesis using u assms(4) by (simp add: Locked_dtor_def inv_of_def)
qed

lemma Locked_assign_ok:
  assumes "inv_of env (g, s, t)" "guards_match g" "executing f s" "g_held g x = Some p" "g_held g y = Some q"
  shows "\<exists>g' s'. Locked_assign x y g s = Some (g', s') \<and> inv_of env (g', s', t) \<and> guards_match g'
    \<and> g_held g' = (g_held g)(x := Some q, y := Some None)"
proof -
  obtain g1 s' where u: "locked_unlock p g s = Some (g1, s')" "inv_of env (g1, s', t)" "g_held g1 = g_held g"
      "\<forall>a. m_locked (g_mutex g1 a) \<longleftrightarrow> m_locked (g_mutex g a) \<and> p \<noteq> Some a"
    using locked_unlock_ok[OF assms(1-4)] by blast
  let ?h = "(g_held g)(x := Some q, y := Some None)"
  have r: "guards_match (g1\<lparr>g_held := (g_held g)(x := Some None)\<rparr>)"
    using guards_match_release[OF assms(2,4), of "g1\<lparr>g_held := (g_held g)(x := Some None)\<rparr>" "Some None"] u(4) by simp
  have "guards_match (g1\<lparr>g_held := ?h\<rparr>)"
  proof (cases "x = y")
    case False
    then show ?thesis using guards_match_pass[OF r, of x y q] assms(5) by simp
  qed (use r in simp)
  then show ?thesis using u assms(4,5) by (simp add: Locked_assign_def inv_of_def Let_def)
qed

lemma Locked_move_ok:
  assumes "inv_of env (g, s, t)" "guards_match g" "executing f s" "g_held g x = None" "x \<noteq> y" "g_held g y = Some q"
  shows "\<exists>g' s'. Locked_move x y g s = Some (g', s') \<and> inv_of env (g', s', t) \<and> guards_match g'"
proof -
  let ?g = "g\<lparr>g_held := (g_held g)(x := Some None)\<rparr>"
  have "guards_match ?g" using assms(2,4) by (auto simp: guards_match_def) (metis option.distinct(1))
  then show ?thesis using Locked_assign_ok[of env ?g s t f x None y q] assms by (auto simp: Locked_move_def inv_of_def)
qed

lemma guard_step_ok: "guard_step env z z' \<Longrightarrow> guard_inv env z \<Longrightarrow> guard_inv env z'"
proof (induction rule: guard_step.induct)
  case (Construct f s g x t a out g' s')
  then show ?case using Locked_ok[of env g s t f x a] by (auto simp: guard_inv_def)
next
  case (Destroy f s x g g' s' t)
  then obtain p where "g_held g x = Some p" by (auto simp: Locked_dtor_def split: bind_splits)
  then show ?case using Locked_dtor_ok[of env g s t f x p] Destroy by (auto simp: guard_inv_def)
next
  case (Assign f s x y g g' s' t)
  then obtain p q where "g_held g x = Some p" "g_held g y = Some q" by (auto simp: Locked_assign_def split: bind_splits)
  then show ?case using Locked_assign_ok[of env g s t f x p y q] Assign by (auto simp: guard_inv_def)
next
  case (Move f s g x y g' s' t)
  then obtain q where "g_held g y = Some q" by (auto simp: Locked_move_def Locked_assign_def split: bind_splits if_splits)
  then show ?case using Locked_move_ok[of env g s t f x y q] Move by (auto simp: guard_inv_def)
next
  case (Other g s t g' s' t')
  then show ?case using other_of_ok[OF _ Other.hyps] by (auto simp: guard_inv_def)
qed

text \<open>
  In every state that programs reach with guards, a mutex is locked exactly when one guard holds it, and no two do. The
  executing fiber can construct a guard, and gets it at once when no other holds the mutex; and destroying or assigning a guard never
  fails.
\<close>

theorem locked_guards_sound:
  assumes "create_res env = E_OK" "sync_inv s" "(guard_step env)\<^sup>*\<^sup>* (guards_new, s, t) (g, s', t')"
  shows "(\<forall>a. m_locked (g_mutex g a) \<longleftrightarrow> (\<exists>!x. g_held g x = Some (Some a)))
    \<and> (\<forall>f x. executing f s' \<longrightarrow>
        (g_held g x = None \<longrightarrow> (\<forall>a. \<exists>out g' s''. Locked env t' x a g s' = Some (out, g', s'')
          \<and> (out = Done \<longleftrightarrow> (\<nexists>y. g_held g y = Some (Some a)))))
        \<and> (g_held g x \<noteq> None \<longrightarrow> Locked_dtor x g s' \<noteq> None \<and> (\<forall>y. g_held g y \<noteq> None \<longrightarrow> Locked_assign x y g s' \<noteq> None)))"
proof -
  have "guard_inv env (guards_new, s, t)"
    using assms(1,2) by (simp add: guard_inv_def inv_of_def guards_match_def guards_new_def Mutex_def)
  with assms(3) have "guard_inv env (g, s', t')"
    by (induction rule: rtranclp_induct) (auto intro: guard_step_ok)
  then have i: "inv_of env (g, s', t')" "guards_match g" by (simp_all add: guard_inv_def)
  have 1: "m_locked (g_mutex g a) \<longleftrightarrow> (\<exists>!x. g_held g x = Some (Some a))" for a
    using i(2) unfolding guards_match_def by metis
  have 2: "\<exists>out g' s''. Locked env t' x a g s' = Some (out, g', s'') \<and> (out = Done \<longleftrightarrow> (\<nexists>y. g_held g y = Some (Some a)))"
    if "executing f s'" "g_held g x = None" for f x a
    using Locked_ok[OF i that, of a] i(2) unfolding guards_match_def by metis
  have 3: "Locked_dtor x g s' \<noteq> None" if "executing f s'" "g_held g x \<noteq> None" for f x
    using Locked_dtor_ok[OF i that(1)] that(2) by fastforce
  have 4: "Locked_assign x y g s' \<noteq> None" if "executing f s'" "g_held g x \<noteq> None" "g_held g y \<noteq> None" for f x y
    using Locked_assign_ok[OF i that(1)] that(2,3) by fastforce
  show ?thesis using 1 2 3 4 by blast
qed

theorem locked_guards_sound_witness:
  "\<exists>g s' g' s''. Locked demo_env ts_null 0 7 guards_new demo_sys = Some (Done, g, s') \<and> Locked_dtor 0 g s' = Some (g', s'')"
proof -
  have c: "create_res demo_env = E_OK" by (simp add: demo_env_def)
  let ?g = "\<lparr>g_mutex = (\<lambda>_. Mutex)(7 := \<lparr>m_locked = True\<rparr>), g_held = (\<lambda>_. None)(0 := Some (Some 7))\<rparr>"
  have l: "Locked demo_env ts_null 0 7 guards_new demo_sys = Some (Done, ?g, demo_sys)"
    by (simp add: Locked_def mutex_lock.simps guards_new_def Mutex_def Let_def)
  have "(guard_step demo_env)\<^sup>*\<^sup>* (guards_new, demo_sys, ts_null) (?g, demo_sys, ts_null)"
    by (rule r_into_rtranclp, rule guard_step.Construct[OF demo_sys_inv(2) _ l]) (simp add: guards_new_def)
  from locked_guards_sound[OF c demo_sys_inv(1) this] have "Locked_dtor 0 ?g demo_sys \<noteq> None"
    using demo_sys_inv(2) by auto
  then show ?thesis using l by auto
qed

end
