(* ===== verification/Zth_Alloc.thy ===== *)
theory Zth_Alloc
  imports Zth_Prelude
begin

section \<open>Allocation of objects\<close>

text \<open>
  \<^verbatim>\<open>allocator.h\<close>: the functions that allocate and release objects by \<^verbatim>\<open>Config::Allocator\<close>, and the operators that the macro
  \<^verbatim>\<open>ZTH_CLASS_NEW_DELETE\<close> gives to a class. The heap has the number of elements of every block. What the allocator
  returns (an address that is not in use, or an exception), and what constructors and destructors do, are arguments. Releasing a block that
  is not there, or with another number of elements, is undefined.
\<close>

type_synonym heap = "addr \<Rightarrow> nat option"

datatype 'x failure = bad_alloc | thrown 'x

definition allocate :: "'x failure + addr \<Rightarrow> nat \<Rightarrow> heap \<Rightarrow> ('x failure + addr) \<times> heap" where
  "allocate al n h = (case al of Inl x \<Rightarrow> (Inl x, h) | Inr a \<Rightarrow> (Inr a, h(a \<mapsto> n)))"

definition deallocate :: "addr option \<Rightarrow> nat \<Rightarrow> heap \<Rightarrow> heap option" where
  "deallocate p n h = (case p of
     None \<Rightarrow> Some h
   | Some a \<Rightarrow> do { zth_assert (h a = Some n); Some (h(a := None)) })"

text \<open>An exception other than \<^verbatim>\<open>std::bad_alloc\<close> terminates the process.\<close>

definition allocate_noexcept :: "'x failure + addr \<Rightarrow> nat \<Rightarrow> heap \<Rightarrow> (addr option \<times> heap) option" where
  "allocate_noexcept al n h = (case allocate al n h of
     (Inr a, h) \<Rightarrow> Some (Some a, h)
   | (Inl bad_alloc, h) \<Rightarrow> Some (None, h)
   | (Inl (thrown x), h) \<Rightarrow> None)"

definition new_alloc :: "'x failure + addr \<Rightarrow> (addr \<Rightarrow> heap \<Rightarrow> 'x failure option \<times> heap) \<Rightarrow> heap \<Rightarrow> (('x failure + addr) \<times> heap) option" where
  "new_alloc al ctor h = (case allocate al 1 h of
     (Inl x, h) \<Rightarrow> Some (Inl x, h)
   | (Inr a, h) \<Rightarrow> (case ctor a h of
       (None, h) \<Rightarrow> Some (Inr a, h)
     | (Some x, h) \<Rightarrow> do { h \<leftarrow> deallocate (Some a) 1 h; Some (Inl x, h) }))"

definition delete_alloc :: "(addr \<Rightarrow> heap \<Rightarrow> heap) \<Rightarrow> addr option \<Rightarrow> heap \<Rightarrow> heap option" where
  "delete_alloc dtor p h = (case p of
     None \<Rightarrow> Some h
   | Some a \<Rightarrow> do { let h = dtor a h; deallocate p 1 h })"

text \<open>The operators. \<open>sz\<close> is the size of the class.\<close>

definition operator_new :: "nat \<Rightarrow> 'x failure + addr \<Rightarrow> nat \<Rightarrow> heap \<Rightarrow> (('x failure + addr) \<times> heap) option" where
  "operator_new sz al n h = do { zth_assert (n = sz); Some (allocate al 1 h) }"

definition operator_delete :: "addr option \<Rightarrow> heap \<Rightarrow> heap option" where
  "operator_delete p h = deallocate p 1 h"

definition operator_new_array :: "nat \<Rightarrow> 'x failure + addr \<Rightarrow> nat \<Rightarrow> heap \<Rightarrow> (('x failure + addr) \<times> heap) option" where
  "operator_new_array sz al n h = do { zth_assert (n mod sz = 0); Some (allocate al (n div sz) h) }"

definition operator_delete_array :: "nat \<Rightarrow> addr option \<Rightarrow> nat \<Rightarrow> heap \<Rightarrow> heap option" where
  "operator_delete_array sz p n h = do { zth_assert (n mod sz = 0); deallocate p (n div sz) h }"

text \<open>
  What is relied on: a constructor that throws has undone its own allocations, one that succeeds leaves the
  block of its object in place, and the destructor undoes the constructor.
\<close>

definition ctor_ok :: "(addr \<Rightarrow> heap \<Rightarrow> 'x failure option \<times> heap) \<Rightarrow> (addr \<Rightarrow> heap \<Rightarrow> heap) \<Rightarrow> bool" where
  "ctor_ok ctor dtor \<longleftrightarrow> (\<forall>a h. case ctor a h of (Some x, h') \<Rightarrow> h' = h | (None, h') \<Rightarrow> dtor a h' = h)"

text \<open>
  Creating an object is all or nothing: when the allocation or the constructor throws, the exception goes on and the heap is
  as before; else the heap has the new object, and deleting it gives the heap of before.
\<close>

theorem new_alloc_all_or_nothing:
  assumes "ctor_ok ctor dtor" "\<forall>a. al = Inr a \<longrightarrow> h a = None"
  shows "case new_alloc al ctor h of
      None \<Rightarrow> False
    | Some (Inl x, h') \<Rightarrow> h' = h \<and> (al = Inl x \<or> (\<exists>a. al = Inr a \<and> fst (ctor a (h(a \<mapsto> 1))) = Some x))
    | Some (Inr a, h') \<Rightarrow> al = Inr a \<and> delete_alloc dtor (Some a) h' = Some h"
proof (cases al)
  case (Inr a)
  have c: "h(a := None) = h" using assms(2) Inr by (auto simp: fun_eq_iff)
  show ?thesis
  proof (cases "ctor a (h(a \<mapsto> 1))")
    case (Pair r h')
    then have k: "case r of Some x \<Rightarrow> h' = h(a \<mapsto> 1) | None \<Rightarrow> dtor a h' = h(a \<mapsto> 1)"
      using assms(1)[unfolded ctor_ok_def, rule_format, of a "h(a \<mapsto> 1)"] by (auto split: option.splits)
    show ?thesis
    proof (cases r)
      case None
      then show ?thesis using Pair Inr k c by (simp add: new_alloc_def allocate_def delete_alloc_def deallocate_def Let_def)
    next
      case (Some x)
      then show ?thesis using Pair Inr k c by (simp add: new_alloc_def allocate_def deallocate_def)
    qed
  qed
qed (simp add: new_alloc_def allocate_def)

theorem new_alloc_all_or_nothing_witness:
  "new_alloc (Inr 5) (\<lambda>a h. (Some (thrown ()), h)) (\<lambda>_. None) = Some (Inl (thrown ()), \<lambda>_. None)"
proof -
  have "ctor_ok (\<lambda>a h. (Some (thrown ()), h)) (\<lambda>a h. h)" by (simp add: ctor_ok_def)
  from new_alloc_all_or_nothing[OF this, of "Inr 5" "\<lambda>_. None"] show ?thesis
    by (auto simp: new_alloc_def allocate_def deallocate_def fun_eq_iff)
qed

lemma allocate_deallocate:
  assumes "h a = None"
  shows "(case allocate (Inr a :: 'x failure + addr) n h of (_, h') \<Rightarrow> deallocate (Some a) n h') = Some h"
  using assms by (auto simp: allocate_def deallocate_def fun_eq_iff)

lemma array_roundtrip:
  assumes "h a = None" "0 < sz"
  shows "(operator_new_array sz (Inr a :: 'x failure + addr) (k * sz) h \<bind> (\<lambda>(_, h'). operator_delete_array sz (Some a) (k * sz) h')) = Some h"
  using assms by (auto simp: operator_new_array_def operator_delete_array_def allocate_def deallocate_def fun_eq_iff)

text \<open>
  For a class with a destructor, the compiler asks for some bytes more than the elements take, to keep their number. Unless these are
  a multiple of the size of the class, the assertion fails: such a class cannot be allocated as an array.
\<close>

lemma new_array_cookie_traps: "cookie mod sz \<noteq> 0 \<Longrightarrow> operator_new_array sz al (k * sz + cookie) h = None"
  by (simp add: operator_new_array_def zth_assert_def)

end
