(* ===== verification/Zth_PollerZmq.thy ===== *)
theory Zth_PollerZmq
  imports Zth_Poller
begin

section \<open>The other pollers\<close>

text \<open>
  \<^verbatim>\<open>src/poller.cpp\<close>: \<^verbatim>\<open>ZmqPoller\<close>, which is the poller when ZeroMQ is there, \<^verbatim>\<open>NoPoller\<close>, which is it when there is no \<^verbatim>\<open>poll()\<close>, and the
  constructor of \<^verbatim>\<open>PollerClient\<close> from a list. The result of \<^verbatim>\<open>zmq_poll()\<close> is an argument; \<open>sock p\<close> is the socket of the pollable.
\<close>

subsection \<open>Polling by ZeroMQ\<close>

datatype zmqbit = ZMQ_POLLIN | ZMQ_POLLOUT | ZMQ_POLLERR | ZMQ_POLLPRI

record zmq_pollitem =
  zi_socket :: "addr option"
  zi_fd :: int
  zi_events :: "zmqbit set"
  zi_revents :: "zmqbit set"

definition zmq_init :: "addr option \<Rightarrow> pollable \<Rightarrow> errno + zmq_pollitem" where
  "zmq_init sock p = Inr \<lparr>zi_socket = sock, zi_fd = fd p,
     zi_events = (if PollIn \<in> events p then {ZMQ_POLLIN} else {}) \<union> (if PollOut \<in> events p then {ZMQ_POLLOUT} else {}),
     zi_revents = {}\<rparr>"

definition zmq_revents :: "zmqbit set \<Rightarrow> events" where
  "zmq_revents r = (if ZMQ_POLLIN \<in> r then {PollIn} else {}) \<union> (if ZMQ_POLLOUT \<in> r then {PollOut} else {})
     \<union> (if ZMQ_POLLERR \<in> r then {PollErr} else {})"

fun zmq_dispatch :: "nat \<Rightarrow> nat \<Rightarrow> zmq_pollitem list \<Rightarrow> server \<Rightarrow> pworld \<Rightarrow> pworld option" where
  "zmq_dispatch res i [] sv w = Some w"
| "zmq_dispatch res i (x # xs) sv w =
     (if res > 0 then do {
        w \<leftarrow> server_event (if zi_revents x \<noteq> {} then zmq_revents (zi_revents x) else {}) i sv w;
        zmq_dispatch (if zi_revents x \<noteq> {} then res - 1 else res) (Suc i) xs sv w
      } else Some w)"

definition zmq_doPoll ::
  "(int \<Rightarrow> zmq_pollitem list \<Rightarrow> errno + (nat \<times> zmq_pollitem list)) \<Rightarrow> int \<Rightarrow> zmq_pollitem list \<Rightarrow> server \<Rightarrow> pworld
    \<Rightarrow> (errno \<times> zmq_pollitem list \<times> pworld) option" where
  "zmq_doPoll zmq_poll timeout_ms items sv w = do {
     zth_assert (length items \<le> 2 ^ 31 - 1);
     case zmq_poll timeout_ms items of
       Inl e \<Rightarrow> Some (e, items, w)
     | Inr (res, items) \<Rightarrow>
         if res = 0 then Some (E_OK, items, w)
         else do { w \<leftarrow> zmq_dispatch res 0 items sv w; Some (E_OK, items, w) }
   }"

text \<open>The item of \<^verbatim>\<open>poll()\<close> that one of ZeroMQ stands for.\<close>

fun zmq_bit :: "zmqbit \<Rightarrow> pollbit" where
  "zmq_bit ZMQ_POLLIN = POLLIN"
| "zmq_bit ZMQ_POLLOUT = POLLOUT"
| "zmq_bit ZMQ_POLLERR = POLLERR"
| "zmq_bit ZMQ_POLLPRI = POLLPRI"

definition zmq_abs :: "zmq_pollitem \<Rightarrow> pollfd" where
  "zmq_abs x = \<lparr>pf_fd = zi_fd x, pf_events = zmq_bit ` zi_events x, pf_revents = zmq_bit ` zi_revents x\<rparr>"

lemma zmq_bit_in: "POLLIN \<in> zmq_bit ` r \<longleftrightarrow> ZMQ_POLLIN \<in> r" "POLLOUT \<in> zmq_bit ` r \<longleftrightarrow> ZMQ_POLLOUT \<in> r"
  "POLLERR \<in> zmq_bit ` r \<longleftrightarrow> ZMQ_POLLERR \<in> r" "POLLPRI \<in> zmq_bit ` r \<longleftrightarrow> ZMQ_POLLPRI \<in> r" "POLLHUP \<notin> zmq_bit ` r"
proof -
  have i: "inj zmq_bit" by (rule injI, rename_tac a b, case_tac a; case_tac b; simp)
  show "POLLIN \<in> zmq_bit ` r \<longleftrightarrow> ZMQ_POLLIN \<in> r" "POLLOUT \<in> zmq_bit ` r \<longleftrightarrow> ZMQ_POLLOUT \<in> r" "POLLERR \<in> zmq_bit ` r \<longleftrightarrow> ZMQ_POLLERR \<in> r"
    "POLLPRI \<in> zmq_bit ` r \<longleftrightarrow> ZMQ_POLLPRI \<in> r"
    using inj_image_mem_iff[OF i, of ZMQ_POLLIN r] inj_image_mem_iff[OF i, of ZMQ_POLLOUT r] inj_image_mem_iff[OF i, of ZMQ_POLLERR r]
      inj_image_mem_iff[OF i, of ZMQ_POLLPRI r] by simp_all
  have "zmq_bit z \<noteq> POLLHUP" for z by (cases z) simp_all
  then show "POLLHUP \<notin> zmq_bit ` r" by (metis imageE)
qed

lemma zmq_abs_revents: "ZMQ_POLLPRI \<notin> zi_revents x \<Longrightarrow> poll_revents (pf_revents (zmq_abs x)) = zmq_revents (zi_revents x)"
  by (simp add: poll_revents_def zmq_revents_def zmq_abs_def zmq_bit_in)

lemma server_event_meta: "m_metaItems sv = m_metaItems sv' \<Longrightarrow> server_event rv i sv w = server_event rv i sv' w"
  by (simp add: server_event_def)

lemma zmq_dispatch_abs:
  assumes "\<forall>x \<in> set xs. ZMQ_POLLPRI \<notin> zi_revents x" "m_metaItems sv' = m_metaItems sv"
  shows "zmq_dispatch res i xs sv w = dispatch res i (map zmq_abs xs) sv' w"
  using assms(1)
proof (induction xs arbitrary: res i w)
  case (Cons x xs)
  have e: "(if zi_revents x \<noteq> {} then zmq_revents (zi_revents x) else {}) = poll_revents (pf_revents (zmq_abs x))"
    using Cons.prems zmq_abs_revents[of x] by (simp add: zmq_revents_def)
  have n: "(pf_revents (zmq_abs x) \<noteq> {}) = (zi_revents x \<noteq> {})" by (simp add: zmq_abs_def)
  show ?case using Cons server_event_meta[OF assms(2)[symmetric]] by (auto simp: e n intro!: Option.bind_cong)
qed simp

text \<open>
  \<^verbatim>\<open>ZmqPoller\<close> does what \<^verbatim>\<open>PollPoller\<close> does, with \<^verbatim>\<open>zmq_poll()\<close> in the place of \<^verbatim>\<open>poll()\<close>: the same events go to the same clients, and the
  same error is returned. \<^verbatim>\<open>zmq_poll()\<close> reports only events that were requested, or an error.
\<close>

theorem zmq_poller_refines:
  assumes "length items \<le> 2 ^ 31 - 1"
    "\<forall>res ys. zp t items = Inr (res, ys) \<longrightarrow> (\<forall>y \<in> set ys. ZMQ_POLLPRI \<notin> zi_revents y)"
    "m_pollItems sv' = map zmq_abs items" "m_metaItems sv' = m_metaItems sv"
  shows "map_option (\<lambda>(e, ys, w). (e, sv'\<lparr>m_pollItems := map zmq_abs ys\<rparr>, w)) (zmq_doPoll zp t items sv w)
    = doPoll (\<lambda>t' _. map_sum id (map_prod id (map zmq_abs)) (zp t' items)) t sv' w"
proof (cases "zp t items")
  case (Inl e)
  have "sv'\<lparr>m_pollItems := map zmq_abs items\<rparr> = sv'" using assms(3) by simp
  then show ?thesis using Inl assms(1) by (simp add: zmq_doPoll_def doPoll_def)
next
  case (Inr p)
  obtain res ys where p: "p = (res, ys)" by (cases p)
  have "zmq_dispatch res 0 ys sv w = dispatch res 0 (map zmq_abs ys) (sv'\<lparr>m_pollItems := map zmq_abs ys\<rparr>) w"
    using assms(2,4) Inr p by (intro zmq_dispatch_abs) auto
  then show ?thesis
    using Inr p assms(1)
    by (cases "dispatch res 0 (map zmq_abs ys) (sv'\<lparr>m_pollItems := map zmq_abs ys\<rparr>) w") (simp_all add: zmq_doPoll_def doPoll_def Let_def)
qed

definition demo_zmq_item :: zmq_pollitem where
  "demo_zmq_item = \<lparr>zi_socket = None, zi_fd = 4, zi_events = {ZMQ_POLLIN}, zi_revents = {}\<rparr>"

theorem zmq_poller_refines_witness:
  "zmq_doPoll (\<lambda>t xs. Inl EINTR) 0 [demo_zmq_item] demo_server demo_world = Some (EINTR, [demo_zmq_item], demo_world)
    \<and> doPoll (\<lambda>t xs. Inl EINTR) 0 (demo_server\<lparr>m_pollItems := [zmq_abs demo_zmq_item]\<rparr>) demo_world
      = Some (EINTR, demo_server\<lparr>m_pollItems := [zmq_abs demo_zmq_item]\<rparr>, demo_world)"
  using zmq_poller_refines[of "[demo_zmq_item]" "\<lambda>t xs. Inl EINTR" 0 "demo_server\<lparr>m_pollItems := [zmq_abs demo_zmq_item]\<rparr>" demo_server demo_world]
  by (simp add: zmq_doPoll_def)

text \<open>The items of the two pollers ask for the same, unless a priority or a hang-up event is asked for, which this poller ignores.\<close>

lemma zmq_init_abs:
  assumes "PollPri \<notin> events p" "PollHup \<notin> events p"
  shows "map_sum id zmq_abs (zmq_init sock p) = poll_init p"
  using assms by (auto simp: zmq_init_def poll_init_def zmq_abs_def)

subsection \<open>Without polling\<close>

definition no_init :: "pollable \<Rightarrow> errno + pollfd" where
  "no_init p = Inl EINVAL"

definition no_doPoll :: "int \<Rightarrow> server \<Rightarrow> pworld \<Rightarrow> (errno \<times> server \<times> pworld) option" where
  "no_doPoll timeout_ms sv w = Some (ENOSYS, sv, w)"

text \<open>
  A pollable cannot be initialised, and \<^verbatim>\<open>mirror()\<close> asserts that all are: polling for anything fails an assertion, instead of returning
  an error.
\<close>

lemma no_poller_traps:
  assumes "m_metaItems sv = m # ms" "m_pollItems sv = []"
  shows "server_poll os no_init t sv w = None"
  using assms by (simp add: server_poll_def mirror_def no_init_def zth_assert_def)

subsection \<open>A client from a list\<close>

datatype client_exn = client_bad_alloc | client_runtime_error

definition PollerClient_of :: "bool \<Rightarrow> (nat \<Rightarrow> bool) \<Rightarrow> addr list \<Rightarrow> pclient \<Rightarrow> client_exn + pclient" where
  "PollerClient_of oom fails l c = (case client_add_list oom fails l c of
     (e, c) \<Rightarrow> if e = E_OK then Inr c else if e = ENOMEM then Inl client_bad_alloc else Inl client_runtime_error)"

text \<open>The only error is that memory runs out; then nothing has been added to the client, which is gone.\<close>

lemma client_add_each_errors: "fst (client_add_each fails dn ps c) \<in> {E_OK, ENOMEM}"
  by (induction fails dn ps c rule: client_add_each.induct) (auto simp: client_add_def split: if_splits)

lemma PollerClient_of_throws: "PollerClient_of oom fails l c \<noteq> Inl client_runtime_error"
  using client_add_each_errors[of fails "[]" l c] by (auto simp: PollerClient_of_def client_add_list_def split: prod.splits)

end
