(* ===== verification/Zth_Api.thy ===== *)
theory Zth_Api
  imports Zth_Async Zth_Waiter
begin

section \<open>The functions of the current fiber\<close>

text \<open>
  The free functions of \<^verbatim>\<open>worker.h\<close>, \<^verbatim>\<open>fiber.h\<close> and \<^verbatim>\<open>waiter.h\<close>, and their C wrappers. They act on the worker of the thread, which is the value of
  \<^verbatim>\<open>Worker::instance()\<close> or \<open>None\<close>, and on its current fiber. Without a worker, \<^verbatim>\<open>currentWorker()\<close> fails its assertion.
\<close>

subsection \<open>Context\<close>

definition currentFiber :: "worker option \<Rightarrow> fid option" where
  "currentFiber i = do { w \<leftarrow> i; f \<leftarrow> m_currentFiber w; Some f }"

definition isInWorkerContext :: "worker \<Rightarrow> bool" where
  "isInWorkerContext w \<longleftrightarrow> m_currentFiber w = None \<or> m_currentFiber w = Some (m_workerFiber w)"

text \<open>\<open>want\<close> says that the caller asks for the fiber; then there must be one.\<close>

definition getContext :: "bool \<Rightarrow> worker option \<Rightarrow> (worker \<times> fid option) option" where
  "getContext want i = do {
     w \<leftarrow> i;
     if want then do { f \<leftarrow> m_currentFiber w; Some (w, Some f) } else Some (w, None)
   }"

definition suspend_current :: "run_env \<Rightarrow> timespec \<Rightarrow> worker option \<Rightarrow> (sched_result \<times> worker option) option" where
  "suspend_current env now i = do {
     (w, f) \<leftarrow> getContext True i;
     f \<leftarrow> f;
     (r, w) \<leftarrow> worker_suspend env f now w;
     Some (r, Some w)
   }"

definition resume_fiber :: "fid \<Rightarrow> worker option \<Rightarrow> worker option option" where
  "resume_fiber f i = do {
     (w, _) \<leftarrow> getContext False i;
     w \<leftarrow> worker_resume f w;
     Some (Some w)
   }"

definition zth_yield :: "run_env \<Rightarrow> timespec \<Rightarrow> worker option \<Rightarrow> (sched_result \<times> worker option) option" where
  "zth_yield env now i = do { w \<leftarrow> i; (r, w) \<leftarrow> yield env None False now w; Some (r, Some w) }"

definition zth_outOfWork :: "run_env \<Rightarrow> timespec \<Rightarrow> worker option \<Rightarrow> (sched_result \<times> worker option) option" where
  "zth_outOfWork env now i = do { w \<leftarrow> i; (r, w) \<leftarrow> outOfWork env now w; Some (r, Some w) }"

text \<open>\<^verbatim>\<open>zth_worker_run()\<close>, up to the loop of \<^verbatim>\<open>Worker::run()\<close>.\<close>

definition zth_worker_run :: "timespec option \<Rightarrow> timespec \<Rightarrow> worker option \<Rightarrow> worker option option" where
  "zth_worker_run ts now i = (case i of
     None \<Rightarrow> Some None
   | Some w \<Rightarrow> do {
       w \<leftarrow> run_start (case ts of Some t \<Rightarrow> mk_interval (tv_sec t) (tv_nsec t) False | None \<Rightarrow> ti_null) now w;
       Some (Some w)
     })"

subsection \<open>Sleeping\<close>

definition zth_nap :: "run_env \<Rightarrow> timespec \<Rightarrow> timespec \<Rightarrow> timespec \<Rightarrow> addr \<Rightarrow> timespec option \<Rightarrow> sys \<Rightarrow> (sched_result \<times> sys) option" where
  "zth_nap env now0 now now' a ts s = (case ts of
     None \<Rightarrow> Some (Returned True, s)
   | Some t \<Rightarrow> nap_for env now0 now now' a (mk_interval (tv_sec t) (tv_nsec t) False) s)"

definition zth_mnap :: "run_env \<Rightarrow> timespec \<Rightarrow> timespec \<Rightarrow> timespec \<Rightarrow> addr \<Rightarrow> int \<Rightarrow> sys \<Rightarrow> (sched_result \<times> sys) option" where
  "zth_mnap env now0 now now' a ms s = nap_for env now0 now now' a (mnap_interval ms) s"

definition zth_unap :: "run_env \<Rightarrow> timespec \<Rightarrow> timespec \<Rightarrow> timespec \<Rightarrow> addr \<Rightarrow> int \<Rightarrow> sys \<Rightarrow> (sched_result \<times> sys) option" where
  "zth_unap env now0 now now' a us s = nap_for env now0 now now' a (unap_interval us) s"

text \<open>\<^verbatim>\<open>waitUntil()\<close> for a function: a polled waitable on the stack of the caller.\<close>

definition waitUntil :: "run_env \<Rightarrow> (addr \<Rightarrow> bool) \<Rightarrow> timespec \<Rightarrow> timespec \<Rightarrow> addr \<Rightarrow> TimeInterval \<Rightarrow> sys \<Rightarrow> (sched_result \<times> sys) option" where
  "waitUntil env f now now' a pollInterval s = do {
     p \<leftarrow> PolledWaiting pollInterval now;
     waiter_wait env f now now' a (upd_waitable a (\<lambda>_. p) s)
   }"

definition PeriodicWakeUp :: "TimeInterval \<Rightarrow> timespec \<Rightarrow> periodic" where
  "PeriodicWakeUp interval now = \<lparr>p_interval = interval, p_t = now\<rparr>"

definition periodic_setInterval :: "TimeInterval \<Rightarrow> periodic \<Rightarrow> periodic" where
  "periodic_setInterval interval p = p\<lparr>p_interval := interval\<rparr>"

definition periodic_call :: "timespec \<Rightarrow> periodic \<Rightarrow> (periodic_action \<times> bool \<times> periodic) option" where
  "periodic_call now p = periodic_nap (p_t p) now p"

subsection \<open>Storage of a fiber\<close>

definition fls :: "worker option \<Rightarrow> addr option option" where
  "fls i = do { f \<leftarrow> currentFiber i; w \<leftarrow> i; Some (m_fls (m_fibers w f)) }"

definition setFls :: "addr option \<Rightarrow> worker option \<Rightarrow> worker option option" where
  "setFls d i = do { f \<leftarrow> currentFiber i; w \<leftarrow> i; Some (Some (upd_fiber f (\<lambda>x. x\<lparr>m_fls := d\<rparr>) w)) }"

text \<open>Programs: what the fibers call, in the order in which it happens. The log has who set what.\<close>

datatype api_call = CSet "addr option" | CYield timespec | COutOfWork timespec | CSuspend timespec | CResume fid

fun api_do :: "run_env \<Rightarrow> api_call \<Rightarrow> worker option \<Rightarrow> worker option option" where
  "api_do env (CSet d) i = setFls d i"
| "api_do env (CYield t) i = map_option snd (zth_yield env t i)"
| "api_do env (COutOfWork t) i = map_option snd (zth_outOfWork env t i)"
| "api_do env (CSuspend t) i = map_option snd (suspend_current env t i)"
| "api_do env (CResume f) i = resume_fiber f i"

fun api_log :: "api_call \<Rightarrow> worker option \<Rightarrow> (fid \<times> addr option) list" where
  "api_log (CSet d) i = (case currentFiber i of Some f \<Rightarrow> [(f, d)] | None \<Rightarrow> [])"
| "api_log c i = []"

fun api_run :: "run_env \<Rightarrow> api_call list \<Rightarrow> worker option \<Rightarrow> (worker option \<times> (fid \<times> addr option) list) option" where
  "api_run env [] i = Some (i, [])"
| "api_run env (c # cs) i = do {
     j \<leftarrow> api_do env c i;
     (k, xs) \<leftarrow> api_run env cs j;
     Some (k, api_log c i @ xs)
   }"

text \<open>What \<open>f\<close> set last, or else \<open>d\<close>.\<close>

definition last_set :: "fid \<Rightarrow> (fid \<times> addr option) list \<Rightarrow> addr option \<Rightarrow> addr option" where
  "last_set f xs d = foldl (\<lambda>d (g, v). if g = f then v else d) d xs"

subsection \<open>Scheduling leaves the storage alone\<close>

lemma fiber_init_fls: "fiber_init r now f = Some (res, f') \<Longrightarrow> m_fls f' = m_fls f"
  by (auto simp: fiber_init_def kill_def setState_def Let_def split: if_splits)

lemma run_ready_fls: "run_ready env this from now fs = Some fs' \<Longrightarrow> m_fls (fs' f) = m_fls (fs f)"
  by (auto simp: run_ready_def setState_def Let_def split: if_splits bind_splits)

lemma fiber_run_fls: "fiber_run env this from now fs = Some y \<Longrightarrow> m_fls (snd y f) = m_fls (fs f)"
proof (induction rule: fiber_run.raw_induct[rotated, consumes 1, case_names 1])
  case (1 run env this "from" now fs y)
  show ?case
  proof (cases "m_state (fs this)")
    case New
    then obtain res f' where i: "fiber_init (create_res env) now (fs this) = Some (res, f')"
        "(if res \<noteq> E_OK then Some (Res res, fs(this := f')) else run env this from now (fs(this := f'))) = Some y"
      using 1(2) by (auto simp: Let_def split: bind_splits)
    then show ?thesis using fiber_init_fls[OF i(1)] 1(1)[of env this "from" now "fs(this := f')" y]
      by (auto split: if_splits)
  next
    case Ready
    then show ?thesis using 1(2) run_ready_fls by (auto split: bind_splits)
  qed (use 1(2) in \<open>auto split: if_splits bind_splits\<close>)
qed

lemma run_next_fls: "run_next env n now w = Some (res, w') \<Longrightarrow> m_fls (m_fibers w' f) = m_fls (m_fibers w f)"
  using fiber_run_fls[OF run_next_fibers] by simp

lemma cleanup_fls: "cleanup env g w = Some (res, w') \<Longrightarrow> m_fls (m_fibers w' f) = m_fls (m_fibers w f)"
  by (auto simp: cleanup_def zth_assert_def split: bind_splits if_splits dest: run_next_fls)

lemma schedule_loop_fls: "schedule_loop env now next b w = Some y \<Longrightarrow> m_fls (m_fibers (snd y) f) = m_fls (m_fibers w f)"
proof (induction rule: schedule_loop.raw_induct[rotated, consumes 1, case_names 1])
  case (1 loop env now "next" b w y)
  obtain res w1 where r: "run_next env (pick next w) now w = Some (res, w1)"
    using 1(2) by (auto simp: Let_def split: bind_splits)
  have e: "m_fls (m_fibers w1 f) = m_fls (m_fibers w f)" using run_next_fls[OF r] .
  show ?case
  proof (cases "res = Res EPERM")
    case True
    then obtain sw w2 where c: "cleanup env (pick next w) w1 = Some (sw, w2)"
        "(case sw of Some r \<Rightarrow> Some (r, w2) | None \<Rightarrow> loop env now None True w2) = Some y"
      using 1(2) r by (auto simp: Let_def split: bind_splits)
    then show ?thesis using e cleanup_fls[OF c(1), of f] 1(1)[of env now None True w2 y] by (cases sw) auto
  next
    case False
    then show ?thesis using 1(2) r e by (auto simp: Let_def split: run_result.splits if_splits)
  qed
qed

lemma schedule_fls: "schedule env p now w = Some (r, w') \<Longrightarrow> m_fls (m_fibers w' f) = m_fls (m_fibers w f)"
  using schedule_loop_fls[of env now _ False w "(r, w')" f] by (auto simp: schedule_def Let_def split: if_splits)

lemma queue_ops_fls:
  "add g b w = Some w' \<Longrightarrow> m_fls (m_fibers w' f) = m_fls (m_fibers w f)"
  "release g w = Some w' \<Longrightarrow> m_fls (m_fibers w' f) = m_fls (m_fibers w f)"
  "m_fls (m_fibers (upd_fiber g suspend w) f) = m_fls (m_fibers w f)"
  "m_fls (m_fibers (upd_fiber g resume w) f) = m_fls (m_fibers w f)"
  by (auto simp: add_def release_def upd_fiber_def suspend_def resume_def setState_def Let_def split: bind_splits if_splits fstate.splits)

lemma worker_suspend_fls: "worker_suspend env g now w = Some (r, w') \<Longrightarrow> m_fls (m_fibers w' f) = m_fls (m_fibers w f)"
  by (auto simp: worker_suspend_def queue_ops_fls split: bind_splits if_splits dest!: schedule_fls[where f = f] queue_ops_fls(1)[where f = f] queue_ops_fls(2)[where f = f])

lemma worker_resume_fls: "worker_resume g w = Some w' \<Longrightarrow> m_fls (m_fibers w' f) = m_fls (m_fibers w f)"
  by (auto simp: worker_resume_def queue_ops_fls split: bind_splits if_splits dest!: queue_ops_fls(1)[where f = f] queue_ops_fls(2)[where f = f])

subsection \<open>Everyone has a value of their own\<close>

lemma yield_fls: "yield env p b now w = Some (r, w') \<Longrightarrow> m_fls (m_fibers w' f) = m_fls (m_fibers w f)"
  by (auto simp: yield_def split: bind_splits if_splits dest: schedule_fls)

lemma api_do_fls:
  assumes "api_do env c (Some w) = Some j"
  shows "\<exists>w'. j = Some w' \<and> m_fls (m_fibers w' f) = last_set f (api_log c (Some w)) (m_fls (m_fibers w f))"
proof (cases c)
  case (CSet d)
  then show ?thesis using assms by (auto simp: setFls_def currentFiber_def upd_fiber_def last_set_def split: bind_splits)
next
  case (CYield t)
  then show ?thesis using assms yield_fls[of env None False t w _ _ f] by (auto simp: zth_yield_def last_set_def split: bind_splits)
next
  case (COutOfWork t)
  then show ?thesis using assms yield_fls[of env None True t w _ _ f]
    by (auto simp: zth_outOfWork_def outOfWork_def last_set_def split: bind_splits)
next
  case (CSuspend t)
  then show ?thesis using assms worker_suspend_fls[of env _ t w _ _ f]
    by (auto simp: suspend_current_def getContext_def last_set_def split: bind_splits)
next
  case (CResume g)
  then show ?thesis using assms worker_resume_fls[of g w _ f] by (cases "worker_resume g w") (auto simp: resume_fiber_def getContext_def last_set_def)
qed

lemma last_set_append: "last_set f (xs @ ys) d = last_set f ys (last_set f xs d)"
  by (simp add: last_set_def)

text \<open>
  Storage of a fiber: whatever the fibers do, and however control moves between them, \<^verbatim>\<open>fls()\<close> gives the fiber in control what
  it has set itself most recently.
\<close>

theorem fls_private:
  assumes "api_run env cs (Some w) = Some (Some w', log)" "m_currentFiber w' = Some f"
  shows "fls (Some w') = Some (last_set f log (m_fls (m_fibers w f)))"
proof -
  have "m_fls (m_fibers w' f) = last_set f log (m_fls (m_fibers w f))"
    using assms(1)
  proof (induction cs arbitrary: w log)
    case (Cons c cs)
    then obtain j xs where j: "api_do env c (Some w) = Some j" "api_run env cs j = Some (Some w', xs)" "log = api_log c (Some w) @ xs"
      by (auto split: bind_splits)
    obtain w1 where w1: "j = Some w1" "m_fls (m_fibers w1 f) = last_set f (api_log c (Some w)) (m_fls (m_fibers w f))"
      using api_do_fls[OF j(1), of f] by blast
    show ?case using Cons.IH[of w1 xs] j w1 by (simp add: last_set_append)
  qed (simp add: last_set_def)
  then show ?thesis using assms(2) by (simp add: fls_def currentFiber_def)
qed

theorem fls_private_witness:
  "\<exists>w'. api_run demo_env [CSet (Some 7), CSet (Some 8)] (Some busy_worker) = Some (Some w', [(3, Some 7), (3, Some 8)]) \<and> fls (Some w') = Some (Some 8)"
proof -
  have c: "m_currentFiber busy_worker = Some 3" by (simp add: busy_worker_def demo_worker_def)
  obtain w' where w': "api_run demo_env [CSet (Some 7), CSet (Some 8)] (Some busy_worker) = Some (Some w', [(3, Some 7), (3, Some 8)])"
      "m_currentFiber w' = Some 3"
    using c by (auto simp: setFls_def currentFiber_def upd_fiber_def)
  show ?thesis using w' fls_private[OF w'] by (simp add: last_set_def)
qed

text \<open>
  Outside of a fiber, the functions fail; \<^verbatim>\<open>zth_worker_run()\<close> and \<^verbatim>\<open>zth_nap()\<close> are the ones that tolerate that there is nothing to act on.
\<close>

lemma no_context:
  "currentFiber None = None" "suspend_current env now None = None" "fls None = None" "zth_yield env now None = None"
  "m_currentFiber w = None \<Longrightarrow> suspend_current env now (Some w) = None"
  "zth_worker_run ts now None = Some None" "zth_nap env t0 t1 t2 a None s = Some (Returned True, s)"
  by (simp_all add: currentFiber_def suspend_current_def getContext_def fls_def zth_yield_def zth_worker_run_def zth_nap_def)

end
