(* ===== verification/Zth_Print.thy ===== *)
theory Zth_Print
  imports Zth_Str Zth_Fiber Zth_Waiter
begin

section \<open>Messages\<close>

text \<open>
  What is written about objects and errors: \<^verbatim>\<open>Fiber::str()\<close>, \<^verbatim>\<open>TimedWaitable::str()\<close>, \<^verbatim>\<open>err()\<close>, the coloured log and \<^verbatim>\<open>abortv()\<close> of \<^verbatim>\<open>src/util.cpp\<close>, and the
  replacement of \<^verbatim>\<open>vasprintf()\<close>. \<open>show\<close> is \<^verbatim>\<open>TimeInterval::str()\<close>, \<open>ti_str\<close> with the formats of the build; the log is a text.
\<close>

subsection \<open>Objects\<close>

fun state_text :: "(TimeInterval \<Rightarrow> string) \<Rightarrow> timespec \<Rightarrow> fiber \<Rightarrow> fstate \<Rightarrow> string" where
  "state_text show now f Uninitialized = '' Uninitialized''"
| "state_text show now f New = '' New''"
| "state_text show now f Ready = '' Ready''"
| "state_text show now f Running = '' Running''"
| "state_text show now f Waiting = '' Waiting'' @
     (if \<not> ts_isNull (m_stateEnd f) then '' ('' @ show (timeTo now (m_stateEnd f)) @ '' remaining)'' else [])"
| "state_text show now f Suspended = '' Suspended''"
| "state_text show now f Dead = '' Dead''"

definition fiber_str :: "(TimeInterval \<Rightarrow> string) \<Rightarrow> string \<Rightarrow> timespec \<Rightarrow> fiber \<Rightarrow> string" where
  "fiber_str show id_str now f = id_str @ state_text show now f (m_state f) @ '' t='' @ show (m_totalTime f)"

definition waitable_str :: "string \<Rightarrow> string" where
  "waitable_str fiber = ''Waitable for '' @ fiber"

definition timedwaitable_str :: "(TimeInterval \<Rightarrow> string) \<Rightarrow> (fid \<Rightarrow> string) \<Rightarrow> timespec \<Rightarrow> waitable \<Rightarrow> string" where
  "timedwaitable_str show fiber now w =
     (let s = ''Waitable with '' @ show (timeTo now (w_timeout w)) @ '' timeout''
      in case w_fiber w of Some f \<Rightarrow> s @ '' for '' @ fiber f | None \<Rightarrow> s)"

text \<open>\<^verbatim>\<open>err()\<close>: \<open>name\<close> is the text of the system, \<open>None\<close> for the build without one.\<close>

definition err :: "string option \<Rightarrow> int \<Rightarrow> string" where
  "err name e = (case name of None \<Rightarrow> ''error '' @ fmt_d e | Some s \<Rightarrow> s @ '' (error '' @ fmt_d e @ '')'')"

subsection \<open>The log\<close>

definition ESC :: char where
  "ESC = CHR 0x1B"

definition log_colorv :: "bool \<Rightarrow> int \<Rightarrow> string \<Rightarrow> string" where
  "log_colorv do_color color text =
     (if do_color \<and> color > 0 then ESC # ''['' @ fmt_d (color smod 8 + 30) @ (if color \<ge> 8 then '';1'' else []) @ ''m'' else [])
     @ text
     @ (if do_color \<and> color > 0 then ESC # ''[0m'' else [])"

text \<open>\<^verbatim>\<open>abortv()\<close> before it terminates the process: what it logs, and the flag against recursion. \<open>bt\<close> is the backtrace.\<close>

definition abortv :: "bool \<Rightarrow> string \<Rightarrow> string \<Rightarrow> bool \<Rightarrow> string \<times> bool" where
  "abortv color text bt recurse =
     (if \<not> recurse
      then (CHR 0x0A # (if color then ESC # ''[41;1;37;1m'' else []) @ ''  *** Zth ABORT:  '' @ text @ ''  ***  ''
              @ (if color then ESC # ''[0m'' else []) @ [CHR 0x0A, CHR 0x0A] @ bt, True)
      else ([], recurse))"

text \<open>An abort while aborting is silent.\<close>

lemma abort_once: "fst (abortv color text2 bt2 (snd (abortv color text bt False))) = []"
  by (simp add: abortv_def)

text \<open>
  The message is never changed: colours only add escape sequences around it, which differ for all colours from 1 to 15.
\<close>

lemma log_color_codes:
  assumes "0 < a" "a < 16" "0 < b" "b < 16" "log_colorv True a text = log_colorv True b text"
  shows "a = b"
proof -
  have "a \<in> {1, 2, 3, 4, 5, 6, 7, 8, 9, 10, 11, 12, 13, 14, 15}" "b \<in> {1, 2, 3, 4, 5, 6, 7, 8, 9, 10, 11, 12, 13, 14, 15}"
    unfolding insert_iff empty_iff using assms(1-4) by presburger+
  moreover have "dec 30 = ''30''" "dec 31 = ''31''" "dec 32 = ''32''" "dec 33 = ''33''" "dec 34 = ''34''" "dec 35 = ''35''" "dec 36 = ''36''" "dec 37 = ''37''"
    by code_simp+
  ultimately show ?thesis
    using assms(5) by (auto simp: log_colorv_def fmt_d_def signed_modulo_int_def signed_divide_int_def)
qed

subsection \<open>Formatting into new memory\<close>

text \<open>
  \<^verbatim>\<open>vasprintf()\<close>: \<open>strp\<close> says that a pointer for the result was given, \<open>mem\<close> that there is memory. The result and the text.
\<close>

definition vasprintf :: "bool \<Rightarrow> bool \<Rightarrow> string option \<Rightarrow> int \<times> string option" where
  "vasprintf strp mem out =
     (let len = fst (vsnprintf 0 out []);
          n = as_size (len + 1)
      in if strp \<and> mem then (len, Some (snd (vsnprintf n out (replicate n (CHR 0x00))))) else (len, None))"

lemma vasprintf_ok:
  assumes "int (length s) < 2 ^ 63"
  shows "vasprintf True True (Some s) = (int (length s), Some (s @ [CHR 0x00]))"
proof -
  have "as_size (int (length s) + 1) = length s + 1" using as_size_id[of "int (length s) + 1"] assms by (simp add: nat_add_distrib)
  then show ?thesis by (simp add: vasprintf_def vsnprintf_def)
qed

text \<open>Without memory, the length is returned as if all was well.\<close>

lemma vasprintf_no_memory: "vasprintf True False (Some s) = (int (length s), None)"
  by (simp add: vasprintf_def vsnprintf_def)

end
