(* ===== verification/Zth_CoroSync.thy ===== *)
theory Zth_CoroSync
  imports Zth_Locked Zth_Signal Zth_Mailbox
begin

section \<open>Awaiting a synchronizer\<close>

text \<open>
  \<^verbatim>\<open>coro.h\<close>, the functions \<^verbatim>\<open>awaitable()\<close>: what \<^verbatim>\<open>co_await\<close> of a synchronizer does. An awaitable says whether it is ready, and has the function that gives
  the result, which here is an operation that can block the fiber in which the coroutine runs. \<open>co_await\<close> is the expression of
  the language: when the awaitable is ready, the coroutine goes on with the result, else it is suspended (\<open>Inl\<close>).
\<close>

record ('s, 'r) awaitable =
  await_ready :: bool
  await_resume :: "'s \<Rightarrow> 'r option"

definition co_await :: "('s, 'r) awaitable \<Rightarrow> 's \<Rightarrow> (unit + 'r) option" where
  "co_await a s = (if await_ready a then map_option Inr (await_resume a s) else Some (Inl ()))"

definition await_mutex :: "run_env \<Rightarrow> timespec \<Rightarrow> nat \<Rightarrow> addr \<Rightarrow> (guards \<times> sys, outcome \<times> guards \<times> sys) awaitable" where
  "await_mutex env now x a = \<lparr>await_ready = True, await_resume = (\<lambda>(g, s). Locked env now x a g s)\<rparr>"

definition await_semaphore :: "run_env \<Rightarrow> timespec \<Rightarrow> qid \<Rightarrow> (semaphore \<times> sys, outcome \<times> semaphore \<times> sys) awaitable" where
  "await_semaphore env now k = \<lparr>await_ready = True, await_resume = (\<lambda>(m, s). sem_acquire env now k 1 m s)\<rparr>"

definition await_signal :: "run_env \<Rightarrow> timespec \<Rightarrow> qid \<Rightarrow> (signal \<times> sys, outcome \<times> signal \<times> sys) awaitable" where
  "await_signal env now k = \<lparr>await_ready = True, await_resume = (\<lambda>(m, s). signal_wait env now k m s)\<rparr>"

text \<open>Reading a future waits for it first; when it does not block, the value follows.\<close>

definition await_future ::
  "run_env \<Rightarrow> timespec \<Rightarrow> qid \<Rightarrow> (('a, 'e) future \<times> sys, ('e + 'a) option \<times> ('a, 'e) future \<times> sys) awaitable" where
  "await_future env now k = \<lparr>await_ready = True, await_resume = (\<lambda>(m, s). do {
     (out, m, s) \<leftarrow> future_wait env now k m s;
     if out = Blocked then Some (None, m, s) else do { v \<leftarrow> future_value m; Some (Some v, m, s) }
   })\<rparr>"

definition await_mailbox ::
  "run_env \<Rightarrow> timespec \<Rightarrow> addr \<Rightarrow> (('a, 'e) mailbox \<times> sys, ('e + 'a) option \<times> ('a, 'e) mailbox \<times> sys) awaitable" where
  "await_mailbox env now a = \<lparr>await_ready = True, await_resume = (\<lambda>(m, s). mailbox_take env now a m s)\<rparr>"

definition await_gate :: "run_env \<Rightarrow> timespec \<Rightarrow> qid \<Rightarrow> (gate \<times> sys, outcome \<times> gate \<times> sys) awaitable" where
  "await_gate env now k = \<lparr>await_ready = True, await_resume = (\<lambda>(m, s). gate_wait env now k m s)\<rparr>"

text \<open>
  A coroutine is never suspended by a synchronizer: \<^verbatim>\<open>co_await\<close> does what the call does, and if that blocks, it blocks the fiber with the
  whole coroutine. For a mutex, what comes out is a guard that holds it.
\<close>

lemma co_await_never_suspends:
  "co_await (await_mutex env now x a) (g, s) \<noteq> Some (Inl ())" "co_await (await_semaphore env now k) z1 \<noteq> Some (Inl ())"
  "co_await (await_signal env now k) z2 \<noteq> Some (Inl ())" "co_await (await_future env now k) z3 \<noteq> Some (Inl ())"
  "co_await (await_mailbox env now b) z4 \<noteq> Some (Inl ())" "co_await (await_gate env now k) z5 \<noteq> Some (Inl ())"
  by (auto simp: co_await_def await_mutex_def await_semaphore_def await_signal_def await_future_def await_mailbox_def await_gate_def)

lemma co_await_mutex_holds:
  assumes "inv_of env (g, s, t)" "guards_match g" "executing f s" "g_held g x = None"
  shows "\<exists>out g' s'. co_await (await_mutex env t x a) (g, s) = Some (Inr (out, g', s')) \<and> guards_match g'
    \<and> (out = Done \<longleftrightarrow> \<not> m_locked (g_mutex g a)) \<and> (out = Done \<longrightarrow> g_held g' x = Some (Some a))"
  using Locked_ok[OF assms, of a] by (auto simp: co_await_def await_mutex_def)

lemma co_await_future_value:
  assumes "future_valid m" "optional_ok (m_value m)"
  shows "\<exists>v. co_await (await_future env t k) (m, s) = Some (Inr (Some v, m, s)) \<and> future_value m = Some v"
  using assms by (auto simp: co_await_def await_future_def future_wait_def future_valid_def future_value_def optional_valid_content optional_value_content)

end
