(* ===== verification/Zth_FsmUml.thy ===== *)
theory Zth_FsmUml
  imports Zth_FsmDsl Zth_Vcd
begin

section \<open>The diagram of a state machine\<close>

text \<open>
  \<^verbatim>\<open>fsm14.h\<close>, \<^verbatim>\<open>TransitionsBase::uml()\<close>: the compiled table as a PlantUML diagram, as a list of lines. \<open>gn\<close> and \<open>an\<close> are the names of
  guards and actions. It is compared with the diagram of the description that was compiled.
\<close>

definition quoted :: "string \<Rightarrow> string" where
  "quoted s = CHR 0x22 # s @ [CHR 0x22]"

definition has_guard :: "compiled \<Rightarrow> bool" where
  "has_guard c \<longleftrightarrow> \<not> c_input c"

text \<open>The label of an edge, and \<open>None\<close> when the edge is not drawn. In a compiled table, the flag tells what the pointer is.\<close>

definition uml_label :: "(guard \<Rightarrow> string) \<Rightarrow> (action \<Rightarrow> string) \<Rightarrow> compiled \<Rightarrow> string option" where
  "uml_label gn an c =
     (let act = (if c_action c \<noteq> Nothing then '' / '' @ an (c_action c) else [])
      in if has_guard c
         then (case c_guard c of
             GuardPtr g \<Rightarrow> if g = Never then None else Some ((if g \<noteq> Always then '' ['' @ gn g @ '']'' else []) @ act)
           | SymbolPtr i \<Rightarrow> None)
         else (case c_guard c of SymbolPtr i \<Rightarrow> Some ('' '' @ sym_str i @ act) | GuardPtr g \<Rightarrow> None))"

definition uml_edge :: "nat \<Rightarrow> nat \<Rightarrow> nat \<Rightarrow> string" where
  "uml_edge statei target t =
     (if statei = 0 then ''[*]'' else ''s'' @ dec statei) @ (if target \<noteq> 0 then '' --> s'' @ dec target else []) @ '' : ('' @ dec t @ '')''"

fun uml_loop :: "(guard \<Rightarrow> string) \<Rightarrow> (action \<Rightarrow> string) \<Rightarrow> nat \<Rightarrow> nat \<Rightarrow> nat \<Rightarrow> compiled list \<Rightarrow> string list" where
  "uml_loop gn an i statei t [] = []"
| "uml_loop gn an i statei t (c # cs) =
     (let v = sym_valid (c_from c);
          statei = (if v then i else statei);
          t = (if v then 0 else t)
      in (if v then [''state '' @ quoted (sym_str (c_from c)) @ '' as s'' @ dec statei] else [])
         @ (case uml_label gn an c of
              None \<Rightarrow> uml_loop gn an (i + 1) statei t cs
            | Some lab \<Rightarrow> (uml_edge statei (c_to c) t @ lab) # uml_loop gn an (i + 1) statei (t + 1) cs))"

definition uml :: "(guard \<Rightarrow> string) \<Rightarrow> (action \<Rightarrow> string) \<Rightarrow> compiled list \<Rightarrow> string list" where
  "uml gn an tbl = ''@startuml'' # uml_loop gn an 0 0 0 tbl @ [''@enduml'']"

subsection \<open>The diagram of the description\<close>

definition drawn :: "transition \<Rightarrow> bool" where
  "drawn t \<longleftrightarrow> t_isInput t \<or> t_guard t \<noteq> Never"

definition edge_label :: "(guard \<Rightarrow> string) \<Rightarrow> (action \<Rightarrow> string) \<Rightarrow> transition \<Rightarrow> string" where
  "edge_label gn an t =
     (if t_isInput t then '' '' @ sym_str (t_input t) else if t_guard t \<noteq> Always then '' ['' @ gn (t_guard t) @ '']'' else [])
     @ (if t_action t \<noteq> Nothing then '' / '' @ an (t_action t) else [])"

text \<open>The number of a transition among those of its state that are drawn, and the lines of a transition.\<close>

definition drawn_before :: "transition list \<Rightarrow> symbol \<Rightarrow> nat \<Rightarrow> nat" where
  "drawn_before l s j = length (filter (\<lambda>i. srcs l ! i = s \<and> drawn (l ! i)) [0..<j])"

definition diagram_lines :: "(guard \<Rightarrow> string) \<Rightarrow> (action \<Rightarrow> string) \<Rightarrow> transition list \<Rightarrow> nat \<Rightarrow> string list" where
  "diagram_lines gn an l j =
     (if \<forall>i < j. srcs l ! i \<noteq> srcs l ! j then [''state '' @ quoted (sym_str (srcs l ! j)) @ '' as s'' @ dec (place (srcs l ! j) l)] else [])
     @ (if drawn (l ! j)
        then [uml_edge (place (srcs l ! j) l) (place (t_to (l ! j)) l) (drawn_before l (srcs l ! j) j) @ edge_label gn an (l ! j)]
        else [])"

lemma entry_label:
  "uml_label gn an (entry_of l j) = (if drawn (l ! j) then Some (edge_label gn an (l ! j)) else None)"
  by (auto simp: uml_label_def has_guard_def entry_of_def drawn_def edge_label_def Let_def)

lemma drawn_before_Suc: "drawn_before l s (Suc j) = drawn_before l s j + (if srcs l ! j = s \<and> drawn (l ! j) then 1 else 0)"
  by (simp add: drawn_before_def)

lemma uml_loop_lines:
  assumes "l \<noteq> []" "sym_valid (t_from (hd l))" "\<forall>k < length l. entry_ok l k"
    "0 < j \<longrightarrow> statei = place (srcs l ! (j - 1)) l \<and> t = drawn_before l (srcs l ! (j - 1)) j" "j \<le> length l"
  shows "uml_loop gn an (Suc j) statei t (map (entry_of l) [j..<length l]) = concat (map (diagram_lines gn an l) [j..<length l])"
  using assms(4,5)
proof (induction "length l - j" arbitrary: j statei t)
  case (Suc n)
  then have j: "j < length l" by simp
  have ups: "[j..<length l] = j # [Suc j..<length l]" using j by (rule upt_conv_Cons)
  have v: "sym_valid (srcs l ! j)" using sources_valid[of l None] assms(2) j by auto
  define first where "first \<longleftrightarrow> (\<forall>i < j. srcs l ! i \<noteq> srcs l ! j)"
  let ?s = "srcs l ! j"
  let ?st = "place ?s l" and ?t = "drawn_before l ?s j"
  have f: "(srcs l ! j \<noteq> src_before l j) = first"
    using assms(3) j v by (cases j) (auto simp: first_def entry_ok_def src_before_def sym_valid_def)
  have fr: "c_from (entry_of l j) = (if first then ?s else None)" using f by (simp add: entry_of_def Let_def)
  have sv: "sym_valid (c_from (entry_of l j)) = first" using v unfolding fr by (simp add: sym_valid_def)
  have st: "(if first then Suc j else statei) = ?st"
    using place_eq[OF j v] Suc.prems(1) f by (cases j) (auto simp: first_def src_before_def)
  have t: "(if first then 0 else t) = ?t"
    using Suc.prems(1) f by (cases j) (auto simp: first_def src_before_def drawn_before_def)
  have to: "c_to (entry_of l j) = place (t_to (l ! j)) l" by (simp add: entry_of_def Let_def)
  have "n = length l - Suc j" "Suc j \<le> length l" using Suc.hyps(2) j by simp_all
  then have IH: "uml_loop gn an (Suc (Suc j)) ?st (?t + (if drawn (l ! j) then 1 else 0)) (map (entry_of l) [Suc j..<length l])
      = concat (map (diagram_lines gn an l) [Suc j..<length l])"
    using Suc.hyps(1)[of "Suc j" ?st "?t + (if drawn (l ! j) then 1 else 0)"] by (simp add: drawn_before_Suc)
  show ?case
    unfolding ups list.map uml_loop.simps Let_def sv st t entry_label to concat.simps diagram_lines_def[of gn an l j] first_def[symmetric]
    using IH by (cases "drawn (l ! j)"; cases first) (simp_all add: fr)
qed simp

text \<open>
  The diagram of the compiled machine is the diagram of its description: every state is declared once, before its transitions; every transition,
  except those that are never enabled, is drawn once, from its state to its target, with its number, input or guard, and action; and the machine
  starts in the state of the first transition.
\<close>

theorem uml_correct:
  assumes "syms_ok l" "well_formed l" "l \<noteq> []"
  shows "\<exists>tbl. compile l = Inr tbl
    \<and> uml gn an tbl = [''@startuml'', ''[*] --> s1 : (0)''] @ concat (map (diagram_lines gn an l) [0..<length l]) @ [''@enduml'']"
proof -
  have n: "sym_valid (t_from (hd l))" using assms(2,3) by (simp add: well_formed_def)
  have e: "\<forall>k < length l. entry_ok l k" using entries_ok[OF assms(3) n] assms(2,3) by (simp add: well_formed_def)
  have c: "compile l = Inr (dummy Always 1 # map (entry_of l) [0..<length l])" using compile_eq[OF assms(1)] assms(2,3) by simp
  have d: "dec (Suc 0) = ''1''" "dec 0 = ''0''" by (simp_all add: dec.simps digit_def) code_simp+
  have "uml_loop gn an 0 0 0 (dummy Always 1 # cs) = ''[*] --> s1 : (0)'' # uml_loop gn an 1 0 1 cs" for cs
    by (simp add: dummy_def sym_valid_def uml_label_def has_guard_def uml_edge_def d)
  then show ?thesis using c uml_loop_lines[OF assms(3) n e, of 0 0 1 gn an] by (simp add: uml_def)
qed

theorem uml_correct_witness:
  "\<exists>tbl. compile demo_fsm = Inr tbl
    \<and> uml (\<lambda>_. ''g'') (\<lambda>_. ''push'') tbl = [''@startuml'', ''[*] --> s1 : (0)''] @ concat (map (diagram_lines (\<lambda>_. ''g'') (\<lambda>_. ''push'') demo_fsm) [0..<length demo_fsm]) @ [''@enduml'']"
  by (rule uml_correct[OF demo_fsm_ok]) (simp add: demo_fsm_def)

end
