(* ===== verification/Zth_Arm.thy ===== *)
theory Zth_Arm
  imports Zth_Worker "HOL-Library.Word"
begin

section \<open>Stacks on ARM\<close>

text \<open>
  \<^verbatim>\<open>context/arch_arm.h\<close> and \<^verbatim>\<open>regs.h\<close>, for a processor without an operating system: the guard below a stack that the memory protection unit (MPU)
  watches, the stack of a new context, its \<^verbatim>\<open>jmp_buf\<close>, and the change to another stack for a call. Addresses have 32 bits. The MPU is a device: its
  registers are state, and writing them does what the architecture (ARMv7-M) says. The instructions that move the stack pointer are not modelled.
\<close>

unbundle bit_operations_syntax

subsection \<open>Registers with fields\<close>

text \<open>\<^verbatim>\<open>ZTH_REG_DEFINE\<close>: a field is given by its lowest bit and its width.\<close>

definition get_field :: "nat \<Rightarrow> nat \<Rightarrow> 32 word \<Rightarrow> 32 word" where
  "get_field p n w = take_bit n (drop_bit p w)"

definition set_field :: "nat \<Rightarrow> nat \<Rightarrow> 32 word \<Rightarrow> 32 word \<Rightarrow> 32 word" where
  "set_field p n v w = (w AND NOT (push_bit p (mask n))) OR push_bit p (take_bit n v)"

lemma bit_set_field: "bit (set_field p n v w) k \<longleftrightarrow> k < 32 \<and> (if p \<le> k \<and> k < p + n then bit v (k - p) else bit w k)"
  using bit_imp_le_length[of w k] by (auto simp: set_field_def bit_simps)

lemma bit_get_field: "bit (get_field p n w) k \<longleftrightarrow> k < n \<and> bit w (p + k)"
  by (auto simp: get_field_def bit_simps)

lemma get_set_same: "p + n \<le> 32 \<Longrightarrow> get_field p n (set_field p n v w) = take_bit n v"
  by (rule bit_eqI) (auto simp: bit_get_field bit_set_field bit_simps)

lemma get_set_other: "p + n \<le> q \<or> q + m \<le> p \<Longrightarrow> get_field p n (set_field q m v w) = get_field p n w"
  using bit_imp_le_length[of w] by (intro bit_eqI) (auto simp: bit_get_field bit_set_field)

subsection \<open>The MPU\<close>

text \<open>
  The base address register has the address in bits 5 to 31; with the bit \<^verbatim>\<open>valid\<close> it also selects the region that is written. The attribute register
  has \<^verbatim>\<open>enable\<close> in bit 0, the \<^verbatim>\<open>size\<close> in bits 1 to 5 (a region has \<open>2 ^ (size + 1)\<close> bytes), and the permission \<^verbatim>\<open>ap\<close> in bits 24 to 26.
\<close>

record mpu =
  mp_dregion :: nat
  mp_rnr :: nat
  mp_rbar :: "nat \<Rightarrow> 32 word"
  mp_rasr :: "nat \<Rightarrow> 32 word"
  mp_ctrl :: "32 word"

definition write_rnr :: "nat \<Rightarrow> mpu \<Rightarrow> mpu" where
  "write_rnr r m = m\<lparr>mp_rnr := r mod 256\<rparr>"

definition read_rbar :: "mpu \<Rightarrow> 32 word" where
  "read_rbar m = set_field 0 4 (of_nat (mp_rnr m)) (set_field 4 1 0 (mp_rbar m (mp_rnr m)))"

definition write_rbar :: "32 word \<Rightarrow> mpu \<Rightarrow> mpu" where
  "write_rbar v m =
     (let m = (if get_field 4 1 v = 1 then m\<lparr>mp_rnr := unat (get_field 0 4 v)\<rparr> else m)
      in m\<lparr>mp_rbar := (mp_rbar m)(mp_rnr m := v)\<rparr>)"

definition read_rasr :: "mpu \<Rightarrow> 32 word" where
  "read_rasr m = mp_rasr m (mp_rnr m)"

definition write_rasr :: "32 word \<Rightarrow> mpu \<Rightarrow> mpu" where
  "write_rasr v m = m\<lparr>mp_rasr := (mp_rasr m)(mp_rnr m := v)\<rparr>"

definition region_on :: "mpu \<Rightarrow> nat \<Rightarrow> bool" where
  "region_on m i \<longleftrightarrow> i < mp_dregion m \<and> get_field 0 1 (mp_rasr m i) = 1"

definition region_covers :: "mpu \<Rightarrow> nat \<Rightarrow> 32 word \<Rightarrow> bool" where
  "region_covers m i x \<longleftrightarrow>
     (let k = unat (get_field 1 5 (mp_rasr m i)) + 1
      in drop_bit k x = drop_bit k (push_bit 5 (get_field 5 27 (mp_rbar m i))))"

text \<open>An access is denied by a region without permission, unless a region with a higher number covers the address, too.\<close>

definition denied :: "mpu \<Rightarrow> 32 word \<Rightarrow> bool" where
  "denied m x \<longleftrightarrow> get_field 0 1 (mp_ctrl m) = 1
     \<and> (\<exists>i. region_on m i \<and> region_covers m i x \<and> get_field 24 3 (mp_rasr m i) = 0 \<and> (\<forall>j > i. region_on m j \<longrightarrow> \<not> region_covers m j x))"

subsection \<open>The guard\<close>

definition ZTH_ARM_STACK_GUARD_BITS :: nat where
  "ZTH_ARM_STACK_GUARD_BITS = 5"

definition ZTH_ARM_STACK_GUARD_SIZE :: "32 word" where
  "ZTH_ARM_STACK_GUARD_SIZE = 32"

definition REG_MPU_RBAR_ADDR_UNUSED :: "32 word" where
  "REG_MPU_RBAR_ADDR_UNUSED = drop_bit 5 (- ZTH_ARM_STACK_GUARD_SIZE)"

text \<open>The state: the static variable \<^verbatim>\<open>region\<close>, the MPU, and \<^verbatim>\<open>m_guard\<close> of the context in control.\<close>

record arm =
  ar_region :: int
  ar_mpu :: mpu
  ar_guard :: "32 word"

fun free_region :: "nat \<Rightarrow> mpu \<Rightarrow> nat \<times> mpu" where
  "free_region 0 m = (0, m)"
| "free_region (Suc k) m =
     (let m = write_rnr (Suc k) m
      in if get_field 0 1 (read_rasr m) = 0 then (Suc k, m) else free_region k m)"

definition guard_attributes :: "32 word \<Rightarrow> 32 word" where
  "guard_attributes rasr =
     (let rasr = set_field 1 5 (of_nat (ZTH_ARM_STACK_GUARD_BITS - 1)) rasr;
          rasr = set_field 28 1 0 rasr;
          rasr = set_field 24 3 0 rasr;
          rasr = set_field 19 3 0 rasr;
          rasr = set_field 17 1 1 rasr;
          rasr = set_field 16 1 0 rasr;
          rasr = set_field 18 1 1 rasr
      in set_field 0 1 1 rasr)"

definition enable_mpu :: "mpu \<Rightarrow> mpu" where
  "enable_mpu m = (if get_field 0 1 (mp_ctrl m) = 0 then m\<lparr>mp_ctrl := set_field 0 1 1 (set_field 2 1 1 (mp_ctrl m))\<rparr> else m)"

definition stackGuardRegion :: "bool \<Rightarrow> arm \<Rightarrow> int \<times> arm" where
  "stackGuardRegion on a =
     (if \<not> on then (-1, a)
      else if ar_region a \<noteq> 0 then (ar_region a, a)
      else
        let (r, m) = free_region (mp_dregion (ar_mpu a) - 1) (ar_mpu a)
        in if r > 0
           then
             let rasr = read_rasr m;
                 m = write_rbar (set_field 5 27 REG_MPU_RBAR_ADDR_UNUSED (read_rbar m)) m;
                 m = write_rasr (guard_attributes rasr) m;
                 m = enable_mpu m
             in (int r, a\<lparr>ar_region := int r, ar_mpu := m\<rparr>)
           else (-1, a\<lparr>ar_region := -1, ar_mpu := m\<rparr>))"

definition stackGuardImpl :: "bool \<Rightarrow> 32 word \<Rightarrow> arm \<Rightarrow> arm option" where
  "stackGuardImpl on guard a =
     (if \<not> on then Some a
      else
        let (region, a) = stackGuardRegion on a
        in if region < 0 then Some a
           else do {
             zth_assert (guard AND (ZTH_ARM_STACK_GUARD_SIZE - 1) = 0);
             let rbar = 0;
             let rbar = (if guard \<noteq> 0 then set_field 5 27 (drop_bit 5 guard) rbar else set_field 5 27 REG_MPU_RBAR_ADDR_UNUSED rbar);
             let rbar = set_field 4 1 1 rbar;
             let rbar = set_field 0 4 (of_int region) rbar;
             Some (a\<lparr>ar_mpu := write_rbar rbar (ar_mpu a)\<rparr>)
           })"

definition setGuard :: "32 word \<Rightarrow> arm \<Rightarrow> 32 word \<times> arm" where
  "setGuard g a = (ar_guard a, a\<lparr>ar_guard := g\<rparr>)"

definition stackGuard :: "bool \<Rightarrow> arm \<Rightarrow> arm option" where
  "stackGuard on a = stackGuardImpl on (ar_guard a) a"

definition stackGuard_of :: "bool \<Rightarrow> 32 word \<Rightarrow> arm \<Rightarrow> (32 word \<times> arm) option" where
  "stackGuard_of on p a = (case setGuard p a of (prev, a) \<Rightarrow> do { a \<leftarrow> stackGuard on a; Some (prev, a) })"

text \<open>The state is as \<^verbatim>\<open>stackGuardRegion()\<close> leaves it: nothing yet, no region, or a region of its own.\<close>

definition guard_region :: "mpu \<Rightarrow> nat \<Rightarrow> bool" where
  "guard_region m r \<longleftrightarrow> 0 < r \<and> r < mp_dregion m \<and> get_field 0 1 (mp_rasr m r) = 1 \<and> get_field 1 5 (mp_rasr m r) = 4
     \<and> get_field 24 3 (mp_rasr m r) = 0 \<and> get_field 0 1 (mp_ctrl m) = 1"

definition arm_ok :: "arm \<Rightarrow> bool" where
  "arm_ok a \<longleftrightarrow> mp_dregion (ar_mpu a) \<le> 16
     \<and> (ar_region a = 0 \<or> ar_region a = -1 \<or> (0 < ar_region a \<and> guard_region (ar_mpu a) (nat (ar_region a))))"

text \<open>Regions other than \<open>r\<close> are not touched.\<close>

definition others_kept :: "nat \<Rightarrow> mpu \<Rightarrow> mpu \<Rightarrow> bool" where
  "others_kept r m m' \<longleftrightarrow> mp_dregion m' = mp_dregion m \<and> (\<forall>j. j \<noteq> r \<longrightarrow> mp_rbar m' j = mp_rbar m j \<and> mp_rasr m' j = mp_rasr m j)"

text \<open>
  Which region is used: the one that is in use already; else the free region with the highest number, but not region 0; and none (-1) when
  there is no free one.
\<close>

definition chosen_region :: "arm \<Rightarrow> int \<Rightarrow> bool" where
  "chosen_region a r \<longleftrightarrow>
     (if ar_region a \<noteq> 0 then r = ar_region a
      else if \<exists>j > 0. j < mp_dregion (ar_mpu a) \<and> \<not> region_on (ar_mpu a) j
      then 0 < r \<and> nat r < mp_dregion (ar_mpu a) \<and> \<not> region_on (ar_mpu a) (nat r)
        \<and> (\<forall>j > nat r. j < mp_dregion (ar_mpu a) \<longrightarrow> region_on (ar_mpu a) j)
      else r = -1)"

lemma field_bit: "get_field p 1 w = 0 \<or> get_field p 1 w = 1"
  by (simp add: get_field_def take_bit_eq_mod mod2_eq_if)

lemma free_region_ok:
  assumes "free_region k m = (r, m')" "k < 256"
  shows "r \<le> k \<and> mp_dregion m' = mp_dregion m \<and> mp_rbar m' = mp_rbar m \<and> mp_rasr m' = mp_rasr m \<and> mp_ctrl m' = mp_ctrl m
    \<and> (0 < r \<longrightarrow> mp_rnr m' = r \<and> get_field 0 1 (mp_rasr m r) = 0 \<and> (\<forall>j. r < j \<and> j \<le> k \<longrightarrow> get_field 0 1 (mp_rasr m j) \<noteq> 0))
    \<and> (r = 0 \<longrightarrow> (\<forall>j. 0 < j \<and> j \<le> k \<longrightarrow> get_field 0 1 (mp_rasr m j) \<noteq> 0))"
  using assms
proof (induction k arbitrary: m)
  case (Suc k)
  let ?m = "write_rnr (Suc k) m"
  have w: "mp_dregion ?m = mp_dregion m" "mp_rbar ?m = mp_rbar m" "mp_rasr ?m = mp_rasr m" "mp_ctrl ?m = mp_ctrl m" "mp_rnr ?m = Suc k"
    using Suc.prems(2) by (simp_all add: write_rnr_def)
  show ?case
  proof (cases "get_field 0 1 (mp_rasr m (Suc k)) = 0")
    case True
    then show ?thesis using Suc.prems(1) w by (auto simp: read_rasr_def Let_def)
  next
    case False
    then have "free_region k ?m = (r, m')" using Suc.prems(1) w by (simp add: read_rasr_def Let_def)
    from Suc.IH[OF this] show ?thesis using Suc.prems(2) False w by (auto simp: le_Suc_eq)
  qed
qed simp

lemma guard_attributes_fields:
  "get_field 0 1 (guard_attributes v) = 1" "get_field 1 5 (guard_attributes v) = 4" "get_field 24 3 (guard_attributes v) = 0"
  by (simp_all add: guard_attributes_def Let_def get_set_same get_set_other ZTH_ARM_STACK_GUARD_BITS_def)

lemma stackGuardRegion_ok:
  assumes "arm_ok a" "stackGuardRegion True a = (r, a')"
  shows "arm_ok a' \<and> ar_region a' = r \<and> r \<noteq> 0 \<and> ar_guard a' = ar_guard a
    \<and> (0 < r \<longrightarrow> guard_region (ar_mpu a') (nat r) \<and> others_kept (nat r) (ar_mpu a) (ar_mpu a'))"
proof (cases "ar_region a = 0")
  case True
  let ?m = "ar_mpu a"
  obtain i m where f: "free_region (mp_dregion ?m - 1) ?m = (i, m)" by (cases "free_region (mp_dregion ?m - 1) ?m")
  have d: "mp_dregion ?m \<le> 16" using assms(1) by (simp add: arm_ok_def)
  have k: "i \<le> mp_dregion ?m - 1" "mp_dregion m = mp_dregion ?m" "mp_rbar m = mp_rbar ?m" "mp_rasr m = mp_rasr ?m" "mp_ctrl m = mp_ctrl ?m"
      "0 < i \<Longrightarrow> mp_rnr m = i"
    using free_region_ok[OF f] d by auto
  show ?thesis
  proof (cases "0 < i")
    case pos: True
    have v: "get_field 4 1 (set_field 5 27 REG_MPU_RBAR_ADDR_UNUSED (read_rbar m)) \<noteq> 1"
      by (simp add: get_set_other read_rbar_def get_set_same)
    have "get_field 0 1 (mp_ctrl (enable_mpu x)) = 1" for x
      using field_bit[of 0 "mp_ctrl x"] by (auto simp: enable_mpu_def get_set_same)
    moreover have "mp_dregion (enable_mpu x) = mp_dregion x" "mp_rbar (enable_mpu x) = mp_rbar x" "mp_rasr (enable_mpu x) = mp_rasr x" for x
      by (simp_all add: enable_mpu_def)
    ultimately show ?thesis
      using assms True f pos k v d
      by (auto simp: stackGuardRegion_def Let_def arm_ok_def guard_region_def others_kept_def write_rbar_def write_rasr_def guard_attributes_fields[unfolded One_nat_def])
  next
    case False
    then show ?thesis using assms True f k d by (auto simp: stackGuardRegion_def arm_ok_def)
  qed
next
  case False
  then show ?thesis using assms by (auto simp: stackGuardRegion_def arm_ok_def others_kept_def)
qed

lemma stackGuardRegion_chosen:
  assumes "arm_ok a" "stackGuardRegion True a = (r, a')"
  shows "chosen_region a r"
proof (cases "ar_region a = 0")
  case True
  let ?m = "ar_mpu a" and ?n = "mp_dregion (ar_mpu a)"
  obtain i m where f: "free_region (?n - 1) ?m = (i, m)" by (cases "free_region (?n - 1) ?m")
  have d: "?n - 1 < 256" using assms(1) by (auto simp: arm_ok_def)
  note k = free_region_ok[OF f d]
  have off: "region_on ?m j \<longleftrightarrow> j < ?n \<and> get_field 0 1 (mp_rasr ?m j) \<noteq> 0" for j
    using field_bit[of 0 "mp_rasr ?m j"] by (auto simp: region_on_def)
  show ?thesis
  proof (cases "0 < i")
    case pos: True
    then have "r = int i" using assms(2) True f by (auto simp: stackGuardRegion_def Let_def)
    moreover have "i < ?n" "\<not> region_on ?m i" "\<forall>j > i. j < ?n \<longrightarrow> region_on ?m j" using k pos by (auto simp: off)
    moreover from this pos have "\<exists>j > 0. j < ?n \<and> \<not> region_on ?m j" by blast
    ultimately show ?thesis using True pos by (simp add: chosen_region_def)
  next
    case False
    then have "r = -1" using assms(2) True f by (auto simp: stackGuardRegion_def Let_def)
    moreover have "\<not> (\<exists>j > 0. j < ?n \<and> \<not> region_on ?m j)" using k False by (auto simp: off)
    ultimately show ?thesis using True by (simp add: chosen_region_def)
  qed
next
  case False
  then show ?thesis using assms(2) by (auto simp: stackGuardRegion_def chosen_region_def)
qed

lemma covers_guard:
  assumes "get_field 1 5 (mp_rasr m r) = 4"
  shows "region_covers m r x \<longleftrightarrow> drop_bit 5 x = get_field 5 27 (mp_rbar m r)"
proof -
  have "drop_bit 5 (push_bit 5 (get_field 5 27 w)) = get_field 5 27 w" for w
    by (rule bit_eqI) (auto simp: bit_simps bit_get_field)
  then show ?thesis using assms by (simp add: region_covers_def Let_def)
qed

lemma unat_region: "0 < r \<Longrightarrow> r < 16 \<Longrightarrow> unat (take_bit 4 (of_int r :: 32 word)) = nat r"
proof -
  assume r: "0 < r" "r < 16"
  then obtain n where n: "r = int n" "n < 16" by (cases r) auto
  have "unat (take_bit 4 (of_nat n :: 32 word)) = n" using n(2) by (simp only: unsigned_take_bit_eq unat_of_nat) (simp add: take_bit_eq_mod)
  then show ?thesis using n(1) by simp
qed

lemma write_rbar_guard:
  assumes "0 < r" "r < 16" "rbar = set_field 0 4 (of_int r) (set_field 4 1 1 (set_field 5 27 v 0))"
  shows "mp_rbar (write_rbar rbar m) = (mp_rbar m)(nat r := rbar)" "mp_rasr (write_rbar rbar m) = mp_rasr m"
    "mp_dregion (write_rbar rbar m) = mp_dregion m" "mp_ctrl (write_rbar rbar m) = mp_ctrl m" "get_field 5 27 rbar = take_bit 27 v"
proof -
  have "get_field 4 1 rbar = 1" "unat (get_field 0 4 rbar) = nat r"
    using assms unat_region by (simp_all add: get_set_same get_set_other)
  then show "mp_rbar (write_rbar rbar m) = (mp_rbar m)(nat r := rbar)" "mp_rasr (write_rbar rbar m) = mp_rasr m"
    "mp_dregion (write_rbar rbar m) = mp_dregion m" "mp_ctrl (write_rbar rbar m) = mp_ctrl m"
    by (simp_all add: write_rbar_def Let_def)
  show "get_field 5 27 rbar = take_bit 27 v" using assms(3) by (simp add: get_set_same get_set_other)
qed

lemma drop5_take27: "take_bit 27 (drop_bit 5 (x :: 32 word)) = drop_bit 5 x"
  by (rule bit_eqI) (auto simp: bit_simps dest: bit_imp_le_length)

lemma stack_guard_protects_ok:
  assumes "arm_ok a" "guard AND 31 = 0"
  shows "\<exists>a'. stackGuardImpl True guard a = Some a' \<and> arm_ok a' \<and> chosen_region a (ar_region a')
    \<and> (ar_region a' > 0 \<longrightarrow> (let r = nat (ar_region a'); m = ar_mpu a' in
        others_kept r (ar_mpu a) m
        \<and> (\<forall>x. region_covers m r x \<longleftrightarrow> drop_bit 5 x = drop_bit 5 (if guard \<noteq> 0 then guard else 0xFFFFFFE0))
        \<and> (\<forall>x. guard \<noteq> 0 \<and> drop_bit 5 x = drop_bit 5 guard \<and> (\<forall>j > r. region_on m j \<longrightarrow> \<not> region_covers m j x) \<longrightarrow> denied m x)))"
proof -
  obtain r a1 where s: "stackGuardRegion True a = (r, a1)" by (cases "stackGuardRegion True a")
  note ok = stackGuardRegion_ok[OF assms(1) s] and ch = stackGuardRegion_chosen[OF assms(1) s]
  show ?thesis
  proof (cases "0 < r")
    case True
    let ?v = "if guard \<noteq> 0 then drop_bit 5 guard else REG_MPU_RBAR_ADDR_UNUSED"
    let ?rbar = "set_field 0 4 (of_int r) (set_field 4 1 1 (set_field 5 27 ?v 0))"
    let ?a = "a1\<lparr>ar_mpu := write_rbar ?rbar (ar_mpu a1)\<rparr>"
    have g: "guard_region (ar_mpu a1) (nat r)" "others_kept (nat r) (ar_mpu a) (ar_mpu a1)" "mp_dregion (ar_mpu a1) \<le> 16"
      using ok True by (auto simp: arm_ok_def)
    then have r16: "r < 16" by (auto simp: guard_region_def)
    note w = write_rbar_guard(1-4)[where m = "ar_mpu a1" and v = ?v, OF True r16 refl] write_rbar_guard(5)[where v = ?v, OF True r16 refl]
    have i: "stackGuardImpl True guard a = Some ?a"
      using s True assms(2) by (simp add: stackGuardImpl_def Let_def ZTH_ARM_STACK_GUARD_SIZE_def)
    have gr: "guard_region (ar_mpu ?a) (nat r)" using g(1) w by (simp add: guard_region_def)
    have "take_bit 27 ?v = drop_bit 5 (if guard \<noteq> 0 then guard else 0xFFFFFFE0)"
      using drop5_take27[of guard] drop5_take27[of "0xFFFFFFE0"] by (simp add: REG_MPU_RBAR_ADDR_UNUSED_def ZTH_ARM_STACK_GUARD_SIZE_def)
    then have cov: "region_covers (ar_mpu ?a) (nat r) x \<longleftrightarrow> drop_bit 5 x = drop_bit 5 (if guard \<noteq> 0 then guard else 0xFFFFFFE0)" for x
      using covers_guard[of "ar_mpu ?a" "nat r" x] gr w by (simp add: guard_region_def)
    have k: "others_kept (nat r) (ar_mpu a) (ar_mpu ?a)" using g(2) w by (simp add: others_kept_def)
    have "denied (ar_mpu ?a) x" if "guard \<noteq> 0" "drop_bit 5 x = drop_bit 5 guard"
        "\<forall>j > nat r. region_on (ar_mpu ?a) j \<longrightarrow> \<not> region_covers (ar_mpu ?a) j x" for x
    proof -
      have "region_covers (ar_mpu ?a) (nat r) x" using cov that(1,2) by simp
      moreover have "region_on (ar_mpu ?a) (nat r)" "get_field 24 3 (mp_rasr (ar_mpu ?a) (nat r)) = 0" "get_field 0 1 (mp_ctrl (ar_mpu ?a)) = 1"
        using gr by (simp_all add: region_on_def guard_region_def)
      ultimately show ?thesis using that(3) unfolding denied_def by blast
    qed
    moreover have "arm_ok ?a" using ok gr w True by (simp add: arm_ok_def)
    ultimately show ?thesis using i ok ch cov k unfolding Let_def by (intro exI[of _ ?a]) simp
  next
    case False
    then have "stackGuardImpl True guard a = Some a1" using s ok by (simp add: stackGuardImpl_def)
    then show ?thesis using ok ch False by auto
  qed
qed

lemma stackGuardImpl_guard: "arm_ok a \<Longrightarrow> stackGuardImpl True g a = Some a' \<Longrightarrow> ar_guard a' = ar_guard a"
  using stackGuardRegion_ok[of a] by (cases "stackGuardRegion True a") (auto simp: stackGuardImpl_def Let_def split: if_splits bind_splits)

text \<open>
  C40. Setting the guard, with guards in use, never fails for an aligned address, in any state of the driver. It uses the region that it has already; the
  first time, the free region with the highest number, which it finds whenever a region other than 0 is free. If it has one, that region covers the 32
  bytes at a guard other than null, and no others, whatever it guarded before; the bytes are not accessible, unless the application has a region with a
  higher number there; and all other regions are as before. For a null guard the region is at the top of the address space.
\<close>

theorem stack_guard_protects:
  assumes "arm_ok a" "guard AND 31 = 0"
  shows "\<exists>a'. stackGuardImpl True guard a = Some a' \<and> arm_ok a' \<and> chosen_region a (ar_region a')
    \<and> (ar_region a' > 0 \<longrightarrow> (let r = nat (ar_region a'); m = ar_mpu a' in
        others_kept r (ar_mpu a) m
        \<and> (\<forall>x. region_covers m r x \<longleftrightarrow> drop_bit 5 x = drop_bit 5 (if guard \<noteq> 0 then guard else 0xFFFFFFE0))
        \<and> (\<forall>x. guard \<noteq> 0 \<and> drop_bit 5 x = drop_bit 5 guard \<and> (\<forall>j > r. region_on m j \<longrightarrow> \<not> region_covers m j x) \<longrightarrow> denied m x)))"
  using stack_guard_protects_ok[OF assms] .

definition demo_arm :: arm where
  "demo_arm = \<lparr>ar_region = 0, ar_mpu = \<lparr>mp_dregion = 8, mp_rnr = 0, mp_rbar = (\<lambda>_. 0), mp_rasr = (\<lambda>_. 0)(7 := 1), mp_ctrl = 0\<rparr>, ar_guard = 0\<rparr>"

theorem stack_guard_protects_witness:
  "\<exists>a'. stackGuardImpl True 0x20001000 demo_arm = Some a' \<and> ar_region a' > 0 \<and> region_covers (ar_mpu a') (nat (ar_region a')) 0x2000101F"
proof -
  have "arm_ok demo_arm" "(0x20001000 :: 32 word) AND 31 = 0" by (simp_all add: arm_ok_def demo_arm_def)
  from stack_guard_protects[OF this] obtain a' where a': "stackGuardImpl True 0x20001000 demo_arm = Some a'" "chosen_region demo_arm (ar_region a')"
      "ar_region a' > 0 \<longrightarrow> region_covers (ar_mpu a') (nat (ar_region a')) 0x2000101F"
    by (auto simp: Let_def)
  have "\<exists>j > 0. j < mp_dregion (ar_mpu demo_arm) \<and> \<not> region_on (ar_mpu demo_arm) j"
    by (rule exI[of _ 1]) (simp add: demo_arm_def region_on_def get_field_def)
  moreover have "ar_region demo_arm = 0" by (simp add: demo_arm_def)
  ultimately have "ar_region a' > 0" using a'(2) by (simp add: chosen_region_def)
  then show ?thesis using a' by blast
qed

text \<open>The region is the free one with the highest number; here, region 7 is in use.\<close>

lemma demo_arm_region: "fst (stackGuardRegion True demo_arm) = 6"
proof -
  have "free_region (Suc (Suc 5)) (ar_mpu demo_arm) = (6, write_rnr 6 (write_rnr 7 (ar_mpu demo_arm)))"
    unfolding free_region.simps Let_def by (simp add: demo_arm_def write_rnr_def read_rasr_def get_field_def)
  then show ?thesis by (simp add: stackGuardRegion_def demo_arm_def Let_def)
qed

subsection \<open>The stack of a context\<close>

text \<open>A stack is its lowest address and its size. \<open>guards\<close> is \<^verbatim>\<open>Config::EnableStackGuard\<close>, \<open>psp\<close> the option \<^verbatim>\<open>ZTH_ARM_USE_PSP\<close>, \<open>sig\<close> is \<^verbatim>\<open>MINSIGSTKSZ\<close>.\<close>

definition arm_pageSize :: "bool \<Rightarrow> 32 word \<Rightarrow> 32 word" where
  "arm_pageSize guards base = (if guards then ZTH_ARM_STACK_GUARD_SIZE else max (4 * 2) base)"

definition arm_calcStackSize :: "bool \<Rightarrow> bool \<Rightarrow> 32 word \<Rightarrow> 32 word \<Rightarrow> 32 word \<Rightarrow> 32 word" where
  "arm_calcStackSize guards psp base sig n =
     (let n = (if \<not> psp then n + sig else n) in if guards then n + arm_pageSize guards base else n)"

text \<open>\<^verbatim>\<open>stackAlign()\<close>, after that of the base class: the guard and the stack above it.\<close>

definition arm_stackAlign :: "bool \<Rightarrow> 32 word \<Rightarrow> 32 word \<times> 32 word \<Rightarrow> arm \<Rightarrow> ((32 word \<times> 32 word) \<times> arm) option" where
  "arm_stackAlign guards base sk a = (case sk of (p, n) \<Rightarrow>
     if p = 0 \<or> n = 0 then Some (sk, a)
     else do {
       let ps = arm_pageSize guards base;
       ((p, n), a) \<leftarrow> (if guards then do { zth_assert (n > ps); Some ((p + ps, n - ps), a\<lparr>ar_guard := p\<rparr>) } else Some ((p, n), a));
       zth_assert (p AND 7 = 0);
       zth_assert (n AND 7 = 0);
       Some ((p, n), a)
     })"

definition arm_sp :: "32 word \<times> 32 word \<Rightarrow> 32 word" where
  "arm_sp sk = (case sk of (p, n) \<Rightarrow> (p + n - 4) AND NOT 7)"

text \<open>\<^verbatim>\<open>get_lr_offset()\<close>: \<open>env\<close> is the buffer that \<^verbatim>\<open>setjmp()\<close> has filled, \<open>sp\<close> the stack pointer.\<close>

fun sp_search :: "32 word list \<Rightarrow> 32 word \<Rightarrow> nat \<Rightarrow> nat" where
  "sp_search env sp 0 = 0"
| "sp_search env sp (Suc k) = (if env ! Suc k = sp then Suc k else sp_search env sp k)"

definition get_lr_offset :: "32 word list \<Rightarrow> 32 word \<Rightarrow> nat option" where
  "get_lr_offset env sp = do {
     zth_assert (sp \<noteq> 0);
     let i = sp_search env sp (length env - 2);
     zth_assert (i \<noteq> 0);
     Some (i + 1)
   }"

text \<open>\<^verbatim>\<open>Context::create()\<close> with \<^verbatim>\<open>setjmp()\<close>: the buffer of the context and the memory, in which the address of the context is stored.\<close>

definition sjlj_create ::
  "32 word list \<Rightarrow> 32 word \<Rightarrow> 32 word \<Rightarrow> 32 word \<Rightarrow> 32 word \<times> 32 word \<Rightarrow> 32 word list \<Rightarrow> (32 word \<Rightarrow> 32 word) \<Rightarrow> (32 word list \<times> (32 word \<Rightarrow> 32 word)) option" where
  "sjlj_create test_env test_sp tramp this sk env mem = do {
     let sp = arm_sp sk;
     lr \<leftarrow> get_lr_offset test_env test_sp;
     let env = env[lr - 1 := sp];
     let env = env[lr := tramp];
     let mem = mem(sp := this);
     Some (env, mem)
   }"

lemma sp_search_ok:
  assumes "0 < i" "i \<le> k" "env ! i = sp" "\<forall>j. i < j \<and> j \<le> k \<longrightarrow> env ! j \<noteq> sp"
  shows "sp_search env sp k = i"
  using assms
proof (induction k)
  case (Suc k)
  then show ?case by (cases "i = Suc k") auto
qed simp

lemma unat_and_7: "unat (x AND 7 :: 32 word) = unat x mod 8"
proof -
  have "x AND 7 = take_bit 3 x" by (simp add: take_bit_eq_mask mask_numeral)
  then have "unat (x AND 7) = take_bit 3 (unat x)" by (simp only: unsigned_take_bit_eq)
  then show ?thesis by (simp add: take_bit_eq_mod)
qed

lemma unat_and_not_mask: "unat (x AND NOT (mask k) :: 32 word) = unat x - unat x mod 2 ^ k"
proof -
  have "(x AND NOT (mask k)) + (x AND mask k) = x"
  proof -
    have "(x AND NOT (mask k)) AND (x AND mask k) = 0" by (rule bit_eqI) (auto simp: bit_simps)
    then have "(x AND NOT (mask k)) + (x AND mask k) = (x AND NOT (mask k)) OR (x AND mask k)" by (rule disjunctive_add_eq_or)
    also have "\<dots> = x" by (rule bit_eqI) (auto simp: bit_simps)
    finally show ?thesis .
  qed
  then have "x AND NOT (mask k) = x - (x AND mask k)" by (metis add_diff_cancel_right')
  moreover have t: "unat (x AND mask k) = unat x mod 2 ^ k"
  proof -
    have "unat (x AND mask k) = take_bit k (unat x)" by (simp only: unsigned_take_bit_eq flip: take_bit_eq_mask)
    then show ?thesis by (simp add: take_bit_eq_mod)
  qed
  moreover have "x AND mask k \<le> x" by (simp add: word_le_nat_alt t)
  ultimately show ?thesis by (simp only: unat_sub)
qed

lemma unat_and_not_7: "unat (x AND NOT 7 :: 32 word) = unat x - unat x mod 8"
  using unat_and_not_mask[of x 3] by (simp add: mask_numeral)

lemma unat_and_not_31: "unat (x AND NOT 31 :: 32 word) = unat x - unat x mod 32"
  using unat_and_not_mask[of x 5] by (simp add: mask_numeral)

lemma arm_sp_eq:
  assumes "p AND 7 = 0" "n AND 7 = 0" "8 \<le> n" "unat p + unat n < 2 ^ 32"
  shows "unat (arm_sp (p, n)) = unat p + unat n - 8"
proof -
  have d: "unat p mod 8 = 0" "unat n mod 8 = 0" using assms(1,2) unat_and_7[of p] unat_and_7[of n] by simp_all
  have s: "unat (p + n) = unat p + unat n" using assms(4) by (simp add: unat_plus_if_size word_size)
  have le: "unat n \<ge> 8" using assms(3) by (simp add: word_le_nat_alt)
  have "unat (p + n - 4) = unat p + unat n - 4" using s le by (subst unat_sub) (simp_all add: word_le_nat_alt)
  moreover have "(unat p + unat n - 4) mod 8 = 4"
  proof -
    obtain i k where ik: "unat p = 8 * i" "unat n = 8 * k" using d by (auto simp flip: dvd_eq_mod_eq_0 elim!: dvdE)
    then obtain c where "k = Suc c" using le by (cases k) auto
    then have "unat p + unat n - 4 = 4 + 8 * (i + c)" using ik by simp
    then show ?thesis by (simp only: mod_mult_self2) simp
  qed
  ultimately show ?thesis using le unfolding arm_sp_def prod.case unat_and_not_7 by simp
qed

text \<open>
  A new context starts on its own stack: the buffer has, in the place where \<^verbatim>\<open>setjmp()\<close> keeps the stack pointer, an address in the stack that is
  aligned to 8 bytes, next to it the trampoline, and is else as before; and the trampoline finds the context where the stack pointer points.
\<close>

theorem sjlj_create_correct:
  assumes "p AND 7 = 0" "n AND 7 = 0" "8 \<le> n" "unat p + unat n < 2 ^ 32"
    "0 < i" "i + 2 \<le> length test_env" "test_env ! i = test_sp" "test_sp \<noteq> 0" "\<forall>j. i < j \<and> j + 2 \<le> length test_env \<longrightarrow> test_env ! j \<noteq> test_sp"
    "length env = length test_env"
  shows "\<exists>sp. sjlj_create test_env test_sp tramp this (p, n) env mem = Some (env[i := sp, Suc i := tramp], mem(sp := this))
    \<and> unat p \<le> unat sp \<and> unat sp + 4 \<le> unat p + unat n \<and> unat sp mod 8 = 0"
proof -
  have sp: "unat (arm_sp (p, n)) = unat p + unat n - 8" using arm_sp_eq[OF assms(1-4)] .
  have le: "8 \<le> unat n" using assms(3) by (simp add: word_le_nat_alt)
  have "sp_search test_env test_sp (length test_env - 2) = i" using assms(5-9) by (intro sp_search_ok) auto
  then have "get_lr_offset test_env test_sp = Some (Suc i)" using assms(5,8) by (simp add: get_lr_offset_def)
  then have "sjlj_create test_env test_sp tramp this (p, n) env mem = Some (env[i := arm_sp (p, n), Suc i := tramp], mem(arm_sp (p, n) := this))"
    by (simp add: sjlj_create_def Let_def)
  moreover have "unat (arm_sp (p, n)) mod 8 = 0" unfolding arm_sp_def prod.case unat_and_not_7 by (simp add: minus_mod_eq_mult_div)
  ultimately show ?thesis using sp le by (intro exI[of _ "arm_sp (p, n)"]) simp
qed

theorem sjlj_create_correct_witness:
  "\<exists>sp. sjlj_create [1, 2, 0x20000100, 4] 0x20000100 7 8 (0x20000200, 64) [0, 0, 0, 0] (\<lambda>_. 0) = Some ([0, 0, sp, 7], (\<lambda>_. 0)(sp := 8))
    \<and> unat (0x20000200 :: 32 word) \<le> unat sp \<and> unat sp + 4 \<le> unat (0x20000200 :: 32 word) + unat (64 :: 32 word) \<and> unat sp mod 8 = 0"
proof -
  have e: "[0, 0, 0, 0][2 := sp, Suc 2 := 7] = [0, 0, sp, 7]" for sp :: "32 word" by (simp add: numeral_2_eq_2)
  have l: "2 + 2 \<le> length [1, 2, 0x20000100, 4 :: 32 word]" "length [0, 0, 0, 0 :: 32 word] = length [1, 2, 0x20000100, 4 :: 32 word]" by simp_all
  have "\<forall>j. 2 < j \<and> j + 2 \<le> length [1, 2, 0x20000100, 4 :: 32 word] \<longrightarrow> [1, 2, 0x20000100, 4] ! j \<noteq> (0x20000100 :: 32 word)" by simp
  from sjlj_create_correct[where tramp = 7 and this = 8 and mem = "\<lambda>_. 0" and p = "0x20000200" and n = 64, OF _ _ _ _ _ l(1) _ _ this l(2)] show ?thesis
    unfolding e by simp
qed

subsection \<open>Calling a function on another stack\<close>

text \<open>
  \<^verbatim>\<open>stack_switch()\<close>: without a stack, the function runs on the main stack, and the worker does not switch; else on the given one, with a guard. \<open>f\<close> is
  the function, which may set the guard, too; \<open>on\<close> says that guards are in use.
\<close>

definition switch_sp :: "32 word \<Rightarrow> 32 word \<Rightarrow> 32 word" where
  "switch_sp stack n = (stack + n) AND NOT 7"

definition switch_guard :: "32 word \<Rightarrow> 32 word" where
  "switch_guard stack = (stack + 2 * ZTH_ARM_STACK_GUARD_SIZE - 1) AND NOT (ZTH_ARM_STACK_GUARD_SIZE - 1)"

definition stack_switch :: "bool \<Rightarrow> (arm \<Rightarrow> worker option \<Rightarrow> 'r \<times> arm \<times> worker option) \<Rightarrow> 32 word \<Rightarrow> 32 word \<Rightarrow> arm \<Rightarrow> worker option
    \<Rightarrow> ('r \<times> arm \<times> worker option) option" where
  "stack_switch on f stack n a w =
     (if stack = 0 then do {
        w \<leftarrow> (case w of None \<Rightarrow> Some None | Some w \<Rightarrow> map_option Some (contextSwitchEnable False w));
        let (r, a, w) = f a w;
        w \<leftarrow> (case w of None \<Rightarrow> Some None | Some w \<Rightarrow> map_option Some (contextSwitchEnable True w));
        Some (r, a, w)
      } else do {
        (prev, a) \<leftarrow> (if on \<and> n \<ge> ZTH_ARM_STACK_GUARD_SIZE * 2 then stackGuard_of on (switch_guard stack) a else Some (0, a));
        let (r, a, w) = f a w;
        a \<leftarrow> (if prev \<noteq> 0 then do { (_, a) \<leftarrow> stackGuard_of on prev a; Some a } else Some a);
        Some (r, a, w)
      })"

text \<open>With 96 bytes or more, the guard is inside of the stack, below the stack pointer.\<close>

lemma switch_guard_inside:
  assumes "96 \<le> unat n" "unat stack + unat n < 2 ^ 32"
  shows "unat stack \<le> unat (switch_guard stack) \<and> unat (switch_guard stack) + 32 \<le> unat stack + unat n"
proof -
  have "unat (stack + 63) = unat stack + 63" using assms by (simp add: unat_plus_if_size word_size)
  then have "unat (switch_guard stack) = unat stack + 63 - (unat stack + 63) mod 32"
    using unat_and_not_31[of "stack + 63"] by (simp add: switch_guard_def ZTH_ARM_STACK_GUARD_SIZE_def add.commute)
  moreover have "(unat stack + 63) mod 32 < 32" by simp
  ultimately show ?thesis using assms(1) by linarith
qed

text \<open>
  From 64 bytes on a guard is set. With 64, it takes all of the stack below the stack pointer, so that the first thing that is pushed is denied; and
  when the stack is not aligned, the guard is outside of it.
\<close>

lemma switch_guard_no_room: "switch_guard 0x20000000 + 32 = switch_sp 0x20000000 64"
  by (simp add: switch_guard_def switch_sp_def ZTH_ARM_STACK_GUARD_SIZE_def)

lemma switch_guard_outside: "unat (switch_guard 0x20000008) + 32 > unat (0x20000008 :: 32 word) + 64"
  by (simp add: switch_guard_def ZTH_ARM_STACK_GUARD_SIZE_def)

text \<open>When there was no guard before, the one of the call stays in effect after it.\<close>

lemma switch_guard_stays:
  assumes "arm_ok a" "ar_guard a = 0" "stack \<noteq> 0" "64 \<le> n"
  shows "\<exists>a'. stack_switch True (\<lambda>a w. (r, a, w)) stack n a w = Some (r, a', w) \<and> ar_guard a' = switch_guard stack"
proof -
  have al: "switch_guard stack AND 31 = 0"
    by (rule bit_eqI) (auto simp: switch_guard_def ZTH_ARM_STACK_GUARD_SIZE_def bit_simps)
  have ok: "arm_ok (a\<lparr>ar_guard := switch_guard stack\<rparr>)" using assms(1) by (simp add: arm_ok_def)
  obtain a' where a': "stackGuardImpl True (switch_guard stack) (a\<lparr>ar_guard := switch_guard stack\<rparr>) = Some a'"
    using stack_guard_protects_ok[OF ok al] by blast
  then have "ar_guard a' = switch_guard stack" using stackGuardImpl_guard[OF ok a'] by simp
  then show ?thesis
    using a' assms by (simp add: stack_switch_def stackGuard_of_def setGuard_def stackGuard_def ZTH_ARM_STACK_GUARD_SIZE_def)
qed

end
