(* ===== verification/Spec2Isabelle.thy ===== *)
theory Spec2Isabelle
  imports Zth_Time Zth_Clock Zth_List Zth_SortedList Zth_Hook Zth_Fiber Zth_Worker Zth_Synchronizer Zth_Sync Zth_Signal Zth_Mailbox Zth_Waiter Zth_Idle Zth_SyncApi Zth_Poller Zth_FsmDsl Zth_Fsm Zth_Util
    Zth_SharedPointer Zth_SmallVector Zth_PollerStore Zth_Async Zth_StdFuture Zth_Io Zth_Context Zth_Coro Zth_Vcd Zth_Perf Zth_Load Zth_Backtrace Zth_Start Zth_Str
    Zth_FutureVoid Zth_Locked Zth_Alloc Zth_PollerZmq Zth_Api Zth_Print Zth_CoroSync Zth_FsmUml Zth_Arm
begin

text \<open>
  A verification library for zth, a library of cooperative fibers in C++.

  \<^bold>\<open>The program.\<close> A \<^emph>\<open>worker\<close> (one per thread) runs \<^emph>\<open>fibers\<close>: it keeps them in intrusive lists and gives control to one
  of them at a time. A fiber keeps control until it yields, blocks on a \<^emph>\<open>synchronizer\<close> (mutex, semaphore, signal,
  future, gate, mailbox), sleeps, or polls a file descriptor. A fiber of the library itself, the \<^emph>\<open>waiter\<close>, keeps the
  timed objects in a sorted list, wakes their fibers when their time has come, and polls the file descriptors that the
  \<^emph>\<open>poller\<close> has registered for the others.

  \<^bold>\<open>The theories.\<close>
  \<^item> \<open>Zth_Prelude\<close>: the assertion (\<open>zth_assert\<close>; a failing one, and everything that is undefined in C++, is the value
    \<open>None\<close>), error codes, and the list lemmas that the components share.
  \<^item> \<open>Zth_Time\<close> (\<^verbatim>\<open>time.h\<close>): \<^verbatim>\<open>TimeInterval\<close> and \<^verbatim>\<open>Timestamp\<close> as records of integers, with the saturation of \<^verbatim>\<open>time_t\<close>
    written out. Addition, difference and comparison agree with the value in nanoseconds.
  \<^item> \<open>Zth_Clock\<close> (\<^verbatim>\<open>time.h\<close>, \<^verbatim>\<open>time.cpp\<close>): reading the clock, and the replacements of \<^verbatim>\<open>clock_gettime()\<close> and \<^verbatim>\<open>clock_nanosleep()\<close>. The
    conversion of ticks to nanoseconds does not overflow and is accurate; sleeps end when they are due.
  \<^item> \<open>Zth_List\<close> (\<^verbatim>\<open>list.h\<close>): the intrusive cyclic list on an explicit heap of links. Every sequence of calls refines the same
    sequence on an abstract list, and traps exactly outside of the contract; loops over the list end.
  \<^item> \<open>Zth_SortedList\<close> (\<^verbatim>\<open>list.h\<close>): the AA tree. Insertion and deletion keep the tree balanced and in order, its self check
    passes, and the 8 bit level never overflows. The locale \<open>sorted_queue\<close> is what the waiter relies on.
  \<^item> \<open>Zth_Hook\<close>, \<open>Zth_Fiber\<close> (\<^verbatim>\<open>fiber.h\<close>): callbacks and the state machine of a fiber, with its reachable states.
  \<^item> \<open>Zth_Worker\<close> (\<^verbatim>\<open>worker.h\<close>): the queues, the scheduler, suspend and resume, the run loop. On a consistent worker that runs, the scheduler ends, does not
    trap, is fair, and keeps at most one running fiber. Where control moves to another fiber the result is
    \<open>SwitchedTo\<close>; what that fiber does next is another step.
  \<^item> \<open>Zth_Synchronizer\<close>, \<open>Zth_Sync\<close>, \<open>Zth_Signal\<close>, \<open>Zth_Mailbox\<close> (\<^verbatim>\<open>sync.h\<close>): the queues of parked fibers, and the
    synchronizers on top of them. A program is a sequence of steps of the fibers, in any order that the scheduler allows;
    the properties hold in every reachable state. The locales state what a lock and a latch have in common; they are
    interpreted for the mutex and the semaphore, the signal and the future.
  \<^item> \<open>Zth_Waiter\<close> (\<^verbatim>\<open>waiter.h\<close>, \<^verbatim>\<open>waiter.cpp\<close>): sleeping and blocking with a timeout, from end to end.
  \<^item> \<open>Zth_Idle\<close> (\<^verbatim>\<open>waiter.cpp\<close>, \<^verbatim>\<open>time.h\<close>): how long the thread sleeps or polls when there is nothing to do. The timeout is computed in single
    precision, with any rounding that keeps to the error bound of IEEE 754: how early and how late it can be.
  \<^item> \<open>Zth_SyncApi\<close> (\<^verbatim>\<open>sync.h\<close>): the C functions, with null handles, failing allocations and the life of the objects over all programs.
  \<^item> \<open>Zth_Poller\<close> (\<^verbatim>\<open>poller.h\<close>, \<^verbatim>\<open>poller.cpp\<close>): the server that polls for all fibers and its clients. Events are delivered to
    exactly the right clients, migration is all or nothing, a client leaves nothing behind.
  \<^item> \<open>Zth_FsmDsl\<close>, \<open>Zth_Fsm\<close> (\<^verbatim>\<open>fsm14.h\<close>): the operators that describe a state machine, the compiler of the description,
    and the machine that runs the compiled table. Compilation accepts exactly the well-formed descriptions, a step of the
    machine is a step of the description, the machine stays in the states of the description, \<^verbatim>\<open>pop()\<close> returns to where the
    pushing transition came from, inputs are consumed once, and it is stated in which turn each form of \<^verbatim>\<open>run()\<close> returns.
  \<^item> \<open>Zth_Util\<close>, \<open>Zth_SharedPointer\<close>, \<open>Zth_SmallVector\<close> (\<^verbatim>\<open>util.h\<close>, \<^verbatim>\<open>sync.h\<close>): identifiers, singletons and strings; reference
    counting, where the count is the number of references in every reachable state; and \<^verbatim>\<open>small_vector\<close>, slot by slot,
    which refines a list. The locale \<open>dyn_array\<close> is what its users rely on.
  \<^item> \<open>Zth_PollerStore\<close>: the lists of the poller on \<^verbatim>\<open>small_vector\<close>s, with memory that can run out. It connects the two theories:
    what \<open>Zth_Poller\<close> does on lists is what the code does on its vectors.
  \<^item> \<open>Zth_Async\<close> (\<^verbatim>\<open>async.h\<close>): functions that run as fibers. Their results and exceptions arrive in futures, on top of \<open>Zth_Signal\<close>
    and \<open>Zth_Fiber\<close>, and a join of living fibers waits for exactly these, in every reachable state of the join.
  \<^item> \<open>Zth_StdFuture\<close> (\<^verbatim>\<open>future.h\<close>): \<^verbatim>\<open>std::future\<close>, \<^verbatim>\<open>std::promise\<close> and \<^verbatim>\<open>zth::async\<close> on top of \<open>Zth_Async\<close>. A promise follows the protocol of
    the standard: it gives its future once and is set once.
  \<^item> \<open>Zth_Io\<close> (\<^verbatim>\<open>io.cpp\<close>, \<^verbatim>\<open>zmq.cpp\<close>): the wrappers of \<^verbatim>\<open>read()\<close>, \<^verbatim>\<open>write()\<close> and the calls of ZeroMQ, which wait by the poller and do not block
    the thread.
  \<^item> \<open>Zth_Context\<close> (\<^verbatim>\<open>context.h\<close>, \<^verbatim>\<open>context.cpp\<close>): the stack of a fiber, on a memory with regions and guards. A context is created with a
    stack of the right size and alignment, or nothing is left of it; the high water mark is what was used.
  \<^item> \<open>Zth_Coro\<close> (\<^verbatim>\<open>coro.h\<close>): tasks and generators. A step of the model is a resumption or the code between two suspensions; tasks
    compute what plain calls compute, and generators deliver all their values in order.
  \<^item> \<open>Zth_Vcd\<close>, \<open>Zth_Perf\<close>, \<open>Zth_Load\<close>, \<open>Zth_Backtrace\<close> (\<^verbatim>\<open>perf.h\<close>, \<^verbatim>\<open>perf.cpp\<close>): the monitor. Identifiers and texts of the VCD file; the
    buffer of events, which never overflows and whose strings are released once; the load and the rate of events; and
    backtraces with their difference.
  \<^item> \<open>Zth_Start\<close> (\<^verbatim>\<open>init.h\<close>, \<^verbatim>\<open>init.cpp\<close>, \<^verbatim>\<open>config.cpp\<close>, \<^verbatim>\<open>main.cpp\<close>, \<^verbatim>\<open>fiber.cpp\<close>, \<^verbatim>\<open>worker.cpp\<close>): initialisation, whose functions run once and in
    order; the constructor of the worker, which establishes the invariant of \<open>Zth_Worker\<close>; threads and child processes.
  \<^item> \<open>Zth_Str\<close> (\<^verbatim>\<open>util.h\<close>, \<^verbatim>\<open>util.cpp\<close>, \<^verbatim>\<open>time.h\<close>): values as text. Formatting never cuts a text off, numbers read back as what they
    were, and the fields of a time interval add up to it.
  \<^item> \<open>Zth_FutureVoid\<close>, \<open>Zth_Locked\<close> (\<^verbatim>\<open>sync.h\<close>): \<^verbatim>\<open>Future<void>\<close>, which does what \<^verbatim>\<open>Future<T>\<close> does; and the guard of a mutex, where a mutex
    is locked exactly when one guard holds it.
  \<^item> \<open>Zth_PollerZmq\<close> (\<^verbatim>\<open>poller.cpp\<close>): the pollers on top of ZeroMQ, which does what the one of \<open>Zth_Poller\<close> does, and without any system call.
  \<^item> \<open>Zth_Alloc\<close> (\<^verbatim>\<open>allocator.h\<close>): the wrappers of the allocator; a constructor that throws leaves no memory behind.
  \<^item> \<open>Zth_Api\<close> (\<^verbatim>\<open>worker.h\<close>, \<^verbatim>\<open>fiber.h\<close>, \<^verbatim>\<open>waiter.h\<close>): the functions that act on the fiber in control; its local storage is private.
  \<^item> \<open>Zth_Print\<close> (\<^verbatim>\<open>fiber.h\<close>, \<^verbatim>\<open>waiter.h\<close>, \<^verbatim>\<open>util.h\<close>, \<^verbatim>\<open>util.cpp\<close>): the texts of fibers, errors and the log.
  \<^item> \<open>Zth_CoroSync\<close> (\<^verbatim>\<open>coro.h\<close>): awaiting a synchronizer in a coroutine blocks the fiber and never suspends the coroutine.
  \<^item> \<open>Zth_FsmUml\<close> (\<^verbatim>\<open>fsm14.h\<close>): the diagram of a state machine, with one line for each transition that can be taken.
  \<^item> \<open>Zth_Arm\<close> (\<^verbatim>\<open>context/arch_arm.h\<close>, \<^verbatim>\<open>context/sjlj.h\<close>, \<^verbatim>\<open>regs.h\<close>): on ARM, the registers of the MPU that guard the end of the stack, the \<^verbatim>\<open>jmp_buf\<close> of
    a new context, and the call of a function on another stack.

  \<^bold>\<open>Modelling.\<close> Objects are named by addresses or fiber numbers and live in maps. Time is an argument. Code outside of the
  repository is an argument, too: whether an allocation or the creation of a context succeeds, what the system's
  \<^verbatim>\<open>poll()\<close> returns, what the user's callbacks, guards and actions do. Loops that need not end by their form are
  \<open>partial_function (option)\<close>; that they end is a theorem (the loop that runs a state machine ends exactly in the first turn
  where it blocks or is stopped). No fuel is used. Integers that can wrap or saturate have their bounds written out (32 bit semaphore counts,
  64 bit gate counts and times, the 8 bit tree level) or are words (the size of a \<^verbatim>\<open>small_vector\<close>, identifiers).

  \<^bold>\<open>Not modelled.\<close> The jump from one stack to another (assembly, \<^verbatim>\<open>setjmp()\<close>), printing to the terminal and symbol lookup,
  the rounding of floating-point numbers (\<open>Zth_Load\<close> computes with rational numbers; in \<open>Zth_Str\<close> and \<open>Zth_Idle\<close> rounding is an argument), and templates
  that only compute types of functions.
\<close>

end
